(* ===== verification/HCFS_Prelude.thy ===== *)
theory HCFS_Prelude
  imports Main
begin

text \<open>
  Shared vocabulary of the development.

  \<^item> POSIX error numbers and the \<open>failure\<close> type: a C function that returns a negated error
    number is modelled by a result \<open>Inl (Errno e)\<close>; \<open>Hang\<close> is a
    call that never returns and \<open>Crash\<close> the dereference of a null pointer.
  \<^item> A state transformer with failures, \<open>('s, 'a) sm\<close>.  As in the C code, a failing call keeps
    the state changes made before the failure.
  \<^item> Doubly linked chains \<open>dchain\<close> threaded through \<open>next\<close> and \<open>prev\<close> links, where the
    number 0 is the null link, and the locale \<open>link_fields\<close>: the interface of a record with
    such links, with the queue lemmas proved once for every provider.
\<close>

named_theorems sm_simps \<open>evaluation rules for state transformers\<close>
named_theorems keeps_intro \<open>introduction rules for predicates kept by state transformers\<close>

subsection \<open>Numbers and errors\<close>

type_synonym ino_t = nat
type_synonym errno = int

abbreviation (input) EPERM :: errno where "EPERM \<equiv> 1"
abbreviation (input) ENOENT :: errno where "ENOENT \<equiv> 2"
abbreviation (input) EIO :: errno where "EIO \<equiv> 5"
abbreviation (input) ENOMEM :: errno where "ENOMEM \<equiv> 12"
abbreviation (input) EEXIST :: errno where "EEXIST \<equiv> 17"
abbreviation (input) EINVAL :: errno where "EINVAL \<equiv> 22"
abbreviation (input) ENOSPC :: errno where "ENOSPC \<equiv> 28"

datatype failure = Errno errno | Hang | Crash

text \<open>
  The outcome the operating system gives one I/O call: success, an error number, or a transfer
  that stops before the first byte.  A model state carries the script of the outcomes to come;
  the empty script means that every further call succeeds.
\<close>

datatype io_outcome = IO_Ok | IO_Err errno | IO_Short

text \<open>The C conversion of a wider integer to \<open>int32_t\<close>.\<close>

definition to_int32 :: "int \<Rightarrow> int" where
  "to_int32 x = signed_take_bit 31 x"

lemma to_int32_id: "- (2 ^ 31) \<le> x \<Longrightarrow> x < 2 ^ 31 \<Longrightarrow> to_int32 x = x"
  by (simp add: to_int32_def signed_take_bit_int_eq_self)

subsection \<open>State transformers that can fail\<close>

type_synonym ('s, 'a) sm = "'s \<Rightarrow> (failure + 'a) \<times> 's"

definition returnE :: "'a \<Rightarrow> ('s, 'a) sm" where
  "returnE x = (\<lambda>s. (Inr x, s))"

definition failE :: "failure \<Rightarrow> ('s, 'a) sm" where
  "failE e = (\<lambda>s. (Inl e, s))"

definition bindE :: "('s, 'a) sm \<Rightarrow> ('a \<Rightarrow> ('s, 'b) sm) \<Rightarrow> ('s, 'b) sm" where
  "bindE m f = (\<lambda>s. case m s of (Inl e, s') \<Rightarrow> (Inl e, s') | (Inr x, s') \<Rightarrow> f x s')"

definition modifyE :: "('s \<Rightarrow> 's) \<Rightarrow> ('s, unit) sm" where
  "modifyE f = (\<lambda>s. (Inr (), f s))"

lemma returnE_apply [simp, sm_simps]: "returnE x s = (Inr x, s)"
  by (simp add: returnE_def)

lemma failE_apply [simp, sm_simps]: "failE e s = (Inl e, s)"
  by (simp add: failE_def)

lemma modifyE_apply [simp, sm_simps]: "modifyE f s = (Inr (), f s)"
  by (simp add: modifyE_def)

lemma bindE_Inr [simp, sm_simps]: "m s = (Inr x, s') \<Longrightarrow> bindE m f s = f x s'"
  by (simp add: bindE_def)

lemma bindE_Inl [simp, sm_simps]: "m s = (Inl e, s') \<Longrightarrow> bindE m f s = (Inl e, s')"
  by (simp add: bindE_def)

lemma bindE_split:
  "P (bindE m f s) \<longleftrightarrow>
    (\<forall>e s'. m s = (Inl e, s') \<longrightarrow> P (Inl e, s')) \<and> (\<forall>x s'. m s = (Inr x, s') \<longrightarrow> P (f x s'))"
  by (auto simp: bindE_def split: prod.splits sum.splits)

lemma bindE_assoc: "bindE (bindE m f) g = bindE m (\<lambda>x. bindE (f x) g)"
  by (auto simp: bindE_def fun_eq_iff split: prod.splits sum.splits)

text \<open>\<open>keeps R m\<close>: every run of \<open>m\<close>, failing or not, relates its states by \<open>R\<close>.\<close>

definition keeps :: "('s \<Rightarrow> 's \<Rightarrow> bool) \<Rightarrow> ('s, 'a) sm \<Rightarrow> bool" where
  "keeps R m \<longleftrightarrow> (\<forall>s. R s (snd (m s)))"

lemma keepsD: "keeps R m \<Longrightarrow> m s = (r, s') \<Longrightarrow> R s s'"
  by (metis keeps_def snd_conv)

lemma keeps_returnE [keeps_intro]: "reflp R \<Longrightarrow> keeps R (returnE x)"
  by (simp add: keeps_def reflpD)

lemma keeps_failE [keeps_intro]: "reflp R \<Longrightarrow> keeps R (failE e)"
  by (simp add: keeps_def reflpD)

lemma keeps_bindE [keeps_intro]:
  assumes "transp R" and "keeps R m" and "\<And>x. keeps R (f x)"
  shows "keeps R (bindE m f)"
  unfolding keeps_def
proof
  fix s
  obtain r s' where m: "m s = (r, s')" by (cases "m s")
  then have "R s s'" using assms(2) by (auto simp: keeps_def dest: spec [of _ s])
  moreover have "R s' (snd (f x s'))" for x
    using assms(3) by (simp add: keeps_def)
  ultimately show "R s (snd (bindE m f s))"
    using m assms(1) by (cases r) (auto dest: transpD)
qed

lemma keeps_if [keeps_intro]: "keeps R m \<Longrightarrow> keeps R n \<Longrightarrow> keeps R (if b then m else n)"
  by simp

subsection \<open>Doubly linked chains\<close>

text \<open>
  \<open>dchain nx pv p xs q\<close>: starting after \<open>p\<close>, the nodes \<open>xs\<close> are linked forwards by \<open>nx\<close>
  up to \<open>q\<close> and backwards by \<open>pv\<close> down to \<open>p\<close>.
\<close>

definition first_or :: "nat \<Rightarrow> nat list \<Rightarrow> nat" where
  "first_or q xs = (case xs of [] \<Rightarrow> q | x # _ \<Rightarrow> x)"

definition last_or :: "nat \<Rightarrow> nat list \<Rightarrow> nat" where
  "last_or p xs = (if xs = [] then p else last xs)"

fun dchain :: "(nat \<Rightarrow> nat) \<Rightarrow> (nat \<Rightarrow> nat) \<Rightarrow> nat \<Rightarrow> nat list \<Rightarrow> nat \<Rightarrow> bool" where
  "dchain nx pv p [] q \<longleftrightarrow> True"
| "dchain nx pv p (x # xs) q \<longleftrightarrow> pv x = p \<and> nx x = first_or q xs \<and> dchain nx pv x xs q"

lemma first_or_simps [simp]: "first_or q [] = q" "first_or q (x # xs) = x"
  by (simp_all add: first_or_def)

lemma last_or_simps [simp]:
  "last_or p [] = p" "last_or p (x # xs) = last_or x xs" "last_or p (xs @ [x]) = x"
  by (simp_all add: last_or_def)

lemma last_or_append: "last_or p (xs @ ys) = last_or (last_or p xs) ys"
  by (simp add: last_or_def)

lemma first_or_append: "first_or q (xs @ ys) = first_or (first_or q ys) xs"
  by (simp add: first_or_def split: list.split)

lemma first_or_0_iff [simp]: "0 \<notin> set xs \<Longrightarrow> first_or 0 xs = 0 \<longleftrightarrow> xs = []"
  by (cases xs) auto

lemma last_or_0_iff [simp]: "0 \<notin> set xs \<Longrightarrow> last_or 0 xs = 0 \<longleftrightarrow> xs = []"
  by (metis last_in_set last_or_def)

lemma last_or_mem: "xs \<noteq> [] \<Longrightarrow> last_or p xs \<in> set xs"
  by (simp add: last_or_def)

lemma first_or_mem: "xs \<noteq> [] \<Longrightarrow> first_or p xs \<in> set xs"
  by (cases xs) auto

lemma first_or_pos_mem [simp]: "0 < first_or 0 xs \<Longrightarrow> first_or 0 xs \<in> set xs"
  by (cases xs) auto

lemma last_or_pos_mem [simp]: "0 < last_or 0 xs \<Longrightarrow> last_or 0 xs \<in> set xs"
  by (cases xs rule: rev_cases) auto

lemma first_or_nonempty: "xs \<noteq> [] \<Longrightarrow> first_or a xs = hd xs"
  by (cases xs) auto

lemma last_or_nonempty: "xs \<noteq> [] \<Longrightarrow> last_or a xs = last xs"
  by (simp add: last_or_def)

lemma dchain_append [simp]:
  "dchain nx pv p (xs @ ys) q \<longleftrightarrow>
    dchain nx pv p xs (first_or q ys) \<and> dchain nx pv (last_or p xs) ys q"
  by (induction xs arbitrary: p) (auto simp: first_or_append)

lemma dchain_cong:
  "(\<And>x. x \<in> set xs \<Longrightarrow> nx x = nx' x \<and> pv x = pv' x) \<Longrightarrow>
    dchain nx pv p xs q = dchain nx' pv' p xs q"
  by (induction xs arbitrary: p) auto

lemma dchain_upd_outside [simp]:
  "i \<notin> set xs \<Longrightarrow> dchain (nx(i := a)) pv p xs q = dchain nx pv p xs q"
  "i \<notin> set xs \<Longrightarrow> dchain nx (pv(i := b)) p xs q = dchain nx pv p xs q"
  by (rule dchain_cong; auto)+

text \<open>Relinking the last node towards a new successor.\<close>

lemma dchain_retarget:
  assumes "dchain nx pv p xs q" and "distinct xs" and "xs \<noteq> []"
  shows "dchain (nx(last xs := q')) pv p xs q'"
proof -
  obtain ys x where xs: "xs = ys @ [x]"
    using assms(3) by (cases xs rule: rev_cases) auto
  with assms show ?thesis by simp
qed

text \<open>Relinking the first node towards a new predecessor.\<close>

lemma dchain_rebase:
  assumes "dchain nx pv p xs q" and "distinct xs" and "xs \<noteq> []"
  shows "dchain nx (pv(hd xs := p')) p' xs q"
  using assms by (cases xs) auto

text \<open>The links seen at a node of a chain.\<close>

lemma dchain_nodeD:
  "dchain nx pv p (xs @ i # ys) q \<Longrightarrow> pv i = last_or p xs \<and> nx i = first_or q ys"
  by simp

lemma dchain_split_at:
  assumes "i \<in> set zs"
  obtains xs ys where "zs = xs @ i # ys" and "i \<notin> set xs"
  using split_list_first [OF assms] by blast

lemma remove1_at: "i \<notin> set xs \<Longrightarrow> remove1 i (xs @ i # ys) = xs @ ys"
  by (simp add: remove1_append)

lemma int_length_remove1: "i \<in> set xs \<Longrightarrow> int (length (remove1 i xs)) = int (length xs) - 1"
  by (cases xs) (auto simp: length_remove1 of_nat_diff dest: length_pos_if_in_set)

text \<open>A queue: a chain of distinct nodes between two null links, with its first and last node.\<close>

definition dqueue :: "(nat \<Rightarrow> nat) \<Rightarrow> (nat \<Rightarrow> nat) \<Rightarrow> nat \<Rightarrow> nat \<Rightarrow> nat list \<Rightarrow> bool" where
  "dqueue nx pv f l xs \<longleftrightarrow>
     dchain nx pv 0 xs 0 \<and> distinct xs \<and> 0 \<notin> set xs \<and> f = first_or 0 xs \<and> l = last_or 0 xs"

lemma dqueue_cong:
  "(\<And>x. x \<in> set xs \<Longrightarrow> nx x = nx' x \<and> pv x = pv' x) \<Longrightarrow>
    dqueue nx pv f l xs = dqueue nx' pv' f l xs"
  using dchain_cong [of xs nx nx' pv pv' 0 0] by (simp add: dqueue_def)

lemma dqueue_empty [simp]: "dqueue nx pv f l [] \<longleftrightarrow> f = 0 \<and> l = 0"
  by (auto simp: dqueue_def)

lemma dqueue_first_0: "dqueue nx pv f l xs \<Longrightarrow> f = 0 \<longleftrightarrow> xs = []"
  by (auto simp: dqueue_def)

lemma dqueue_last_0: "dqueue nx pv f l xs \<Longrightarrow> l = 0 \<longleftrightarrow> xs = []"
  by (auto simp: dqueue_def)

lemma dqueue_distinct: "dqueue nx pv f l xs \<Longrightarrow> distinct xs"
  by (simp add: dqueue_def)

lemma dqueue_last_mem: "dqueue nx pv f l xs \<Longrightarrow> xs \<noteq> [] \<Longrightarrow> l \<in> set xs"
  by (auto simp: dqueue_def last_or_mem)

text \<open>Where a node of a queue stands: its neighbours, and whether it is an end.\<close>

lemma dqueue_node:
  assumes q: "dqueue nx pv f l zs" and zs: "zs = xs @ i # ys"
  shows "nx i = first_or 0 ys" "pv i = last_or 0 xs"
    and "nx i = 0 \<longleftrightarrow> ys = []" "pv i = 0 \<longleftrightarrow> xs = []"
    and "nx i = 0 \<Longrightarrow> l = i" "pv i = 0 \<Longrightarrow> f = i"
    and "nx i \<noteq> 0 \<Longrightarrow> nx i \<in> set ys" "pv i \<noteq> 0 \<Longrightarrow> pv i \<in> set xs"
  using q unfolding zs dqueue_def
  by (auto simp: last_or_append first_or_append last_or_mem first_or_mem)

text \<open>The neighbours of a node are linked back to it.\<close>

lemma dqueue_linked_back:
  assumes q: "dqueue nx pv f l zs" and "i \<in> set zs"
  shows "nx i \<noteq> 0 \<Longrightarrow> pv (nx i) = i" and "pv i \<noteq> 0 \<Longrightarrow> nx (pv i) = i"
proof -
  obtain xs ys where zs: "zs = xs @ i # ys"
    using assms(2) by (meson split_list)
  note node = dqueue_node [OF q zs]
  show "pv (nx i) = i" if "nx i \<noteq> 0"
    using q node(1) that unfolding zs dqueue_def by (cases ys) auto
  show "nx (pv i) = i" if "pv i \<noteq> 0"
    using q node(2) that unfolding zs dqueue_def by (cases xs rule: rev_cases) auto
qed

lemma dqueue_nbrs_mem:
  assumes "dqueue nx pv f l zs" and "i \<in> set zs"
  shows "nx i \<noteq> 0 \<Longrightarrow> nx i \<in> set zs \<and> nx i \<noteq> i" and "pv i \<noteq> 0 \<Longrightarrow> pv i \<in> set zs \<and> pv i \<noteq> i"
    and "nx i \<noteq> 0 \<Longrightarrow> pv i \<noteq> 0 \<Longrightarrow> nx i \<noteq> pv i"
proof -
  obtain xs ys where zs: "zs = xs @ i # ys"
    using assms(2) by (meson split_list)
  note node = dqueue_node [OF assms(1) zs]
  have d: "distinct zs" using assms(1) by (rule dqueue_distinct)
  show "nx i \<noteq> 0 \<Longrightarrow> nx i \<in> set zs \<and> nx i \<noteq> i" and "pv i \<noteq> 0 \<Longrightarrow> pv i \<in> set zs \<and> pv i \<noteq> i"
    using node(7,8) d zs by auto
  show "nx i \<noteq> 0 \<Longrightarrow> pv i \<noteq> 0 \<Longrightarrow> nx i \<noteq> pv i"
    using node(7,8) d zs by auto
qed

subsection \<open>Interface of a store of link fields\<close>

text \<open>
  A record type \<open>'e\<close> with a pair of link fields.  The lemmas say what unlinking a node from a queue
  and appending a node to it do, for any such pair of fields; the super block interprets the locale
  twice, for the queue links and for the pinning links of its entries.
\<close>

locale link_fields =
  fixes get_nx :: "'e \<Rightarrow> nat" and get_pv :: "'e \<Rightarrow> nat"
    and set_nx :: "nat \<Rightarrow> 'e \<Rightarrow> 'e" and set_pv :: "nat \<Rightarrow> 'e \<Rightarrow> 'e"
  assumes get_nx_set_nx [simp]: "get_nx (set_nx v e) = v"
    and get_pv_set_pv [simp]: "get_pv (set_pv v e) = v"
    and get_nx_set_pv [simp]: "get_nx (set_pv v e) = get_nx e"
    and get_pv_set_nx [simp]: "get_pv (set_nx v e) = get_pv e"
begin

definition queued :: "(nat \<Rightarrow> 'e) \<Rightarrow> nat \<Rightarrow> nat \<Rightarrow> nat list \<Rightarrow> bool" where
  "queued E f l xs = dqueue (\<lambda>i. get_nx (E i)) (\<lambda>i. get_pv (E i)) f l xs"

definition unlinked :: "(nat \<Rightarrow> 'e) \<Rightarrow> nat \<Rightarrow> nat \<Rightarrow> (nat \<Rightarrow> 'e)" where
  "unlinked E n p =
     (let E1 = (if n = 0 then E else E(n := set_pv p (E n)))
      in if p = 0 then E1 else E1(p := set_nx n (E1 p)))"

lemma queued_cong:
  "(\<And>x. x \<in> set xs \<Longrightarrow> get_nx (E x) = get_nx (E' x) \<and> get_pv (E x) = get_pv (E' x)) \<Longrightarrow>
    queued E f l xs = queued E' f l xs"
  unfolding queued_def by (rule dqueue_cong) simp

lemma queued_unlink:
  assumes q: "queued E f l xs" and i: "i \<in> set xs"
    and n: "n = get_nx (E i)" and p: "p = get_pv (E i)"
  shows "queued (unlinked E n p) (if p = 0 then n else f) (if n = 0 then p else l) (remove1 i xs)"
proof -
  obtain as bs where xs: "xs = as @ i # bs" and ni: "i \<notin> set as"
    using i by (rule dchain_split_at)
  have q': "dqueue (\<lambda>i. get_nx (E i)) (\<lambda>i. get_pv (E i)) f l xs"
    using q by (simp add: queued_def)
  note node = dqueue_node [OF q' xs]
  have nb: "n = first_or 0 bs" "p = last_or 0 as" "n = 0 \<longleftrightarrow> bs = []" "p = 0 \<longleftrightarrow> as = []"
    using node(1-4) n p by simp_all
  let ?nx = "\<lambda>j. get_nx (unlinked E n p j)" and ?pv = "\<lambda>j. get_pv (unlinked E n p j)"
  have nx: "?nx = (if p = 0 then (\<lambda>i. get_nx (E i)) else (\<lambda>i. get_nx (E i))(p := n))"
    and pv: "?pv = (if n = 0 then (\<lambda>i. get_pv (E i)) else (\<lambda>i. get_pv (E i))(n := p))"
    by (auto simp: unlinked_def fun_eq_iff)
  have d: "distinct as" "distinct bs" "set as \<inter> set bs = {}" "0 \<notin> set as" "0 \<notin> set bs"
    using q' xs by (auto simp: dqueue_def)
  have A: "dchain (\<lambda>i. get_nx (E i)) (\<lambda>i. get_pv (E i)) 0 as i"
    and B: "dchain (\<lambda>i. get_nx (E i)) (\<lambda>i. get_pv (E i)) i bs 0"
    using q' unfolding xs dqueue_def by auto
  have "dchain ?nx ?pv 0 as n"
  proof (cases "as = []")
    case False
    then have "p = last as" and "n \<notin> set as"
      using nb d by (cases bs; auto simp: last_or_def)+
    then show ?thesis
      unfolding nx pv using dchain_retarget [OF A d(1) False, of n] False nb(4) by auto
  qed simp
  moreover have "dchain ?nx ?pv p bs 0"
  proof (cases "bs = []")
    case False
    then have "n = hd bs"
      using nb(1) by (simp add: first_or_nonempty)
    moreover have "p \<notin> set bs"
      using d nb(2) last_or_mem [of as 0] by (cases "as = []") (simp, blast)
    ultimately show ?thesis
      unfolding nx pv using dchain_rebase [OF B d(2) False, of p] False nb(3) by auto
  qed simp
  ultimately have "dchain ?nx ?pv 0 (as @ bs) 0"
    using nb by simp
  then show ?thesis
    using q' nb d unfolding xs queued_def dqueue_def remove1_at [OF ni]
    by (auto simp: first_or_append last_or_append first_or_nonempty last_or_nonempty)
qed

lemma queued_snoc:
  assumes q: "queued E f l xs" and i: "i \<notin> set xs" "i \<noteq> 0"
    and e: "get_nx e = 0" "get_pv e = l"
  shows "queued ((if xs = [] then E else E(l := set_nx i (E l)))(i := e))
    (if xs = [] then i else f) i (xs @ [i])"
proof (cases "xs = []")
  case True
  with assms show ?thesis by (simp add: queued_def dqueue_def)
next
  case False
  let ?nx = "\<lambda>j. get_nx (E j)" and ?pv = "\<lambda>j. get_pv (E j)"
  have q': "dchain ?nx ?pv 0 xs 0" "distinct xs" "0 \<notin> set xs" "l = last xs" "f = first_or 0 xs"
    using q False by (auto simp: queued_def dqueue_def last_or_def)
  have "dchain (?nx(l := i)) ?pv 0 xs i"
    using dchain_retarget [OF q'(1,2) False, of i] q'(4) by simp
  moreover have "i \<noteq> l" using i(1) q'(4) False by auto
  ultimately have "dchain (\<lambda>j. get_nx (((E(l := set_nx i (E l)))(i := e)) j))
      (\<lambda>j. get_pv (((E(l := set_nx i (E l)))(i := e)) j)) 0 xs i"
    using i(1) by (subst dchain_cong [where nx' = "?nx(l := i)" and pv' = ?pv]) auto
  with False i e q' show ?thesis
    by (auto simp: queued_def dqueue_def first_or_append last_or_def first_or_nonempty)
qed

end

end
