(* ===== verification/System_Meta.thy ===== *)
theory System_Meta
  imports HCFS_Prelude
begin

text \<open>
  The global statistics of a running HCFS (\<^verbatim>\<open>hcfs_system\<close>, \<^verbatim>\<open>src/HCFS/fuseop.h\<close>) and the
  functions of \<^verbatim>\<open>src/HCFS/utils.c\<close> and \<^verbatim>\<open>src/HCFS/hfuse_system.c\<close> that update them.  The
  semaphore \<open>access_sem\<close> makes each body atomic, so a body is one state transformation; the
  semaphores whose value other code inspects are fields of the state.  The counters are
  \<open>int64_t\<close> quantities of bytes; the model uses unbounded integers, which is exact as long as
  no sum reaches \<open>2 ^ 63\<close>.
\<close>

subsection \<open>State\<close>

abbreviation (input) XFER_WINDOW_MAX :: nat where "XFER_WINDOW_MAX \<equiv> 6"
abbreviation (input) XFER_SEC_PER_WINDOW :: int where "XFER_SEC_PER_WINDOW \<equiv> 20"

record SYSTEM_DATA_TYPE =
  system_size :: int
  system_meta_size :: int
  super_block_size :: int
  cache_size :: int
  cache_blocks :: int
  pinned_size :: int
  unpin_dirty_data_size :: int
  backend_size :: int
  backend_meta_size :: int
  backend_inodes :: int
  dirty_cache_size :: int
  system_quota :: int
  cache_replace_status :: int
  xfer_size_download :: int
  xfer_size_upload :: int
  xfer_throughput :: "int list"
  xfer_total_obj :: "int list"
  xfer_now_window :: nat

record SYSTEM_DATA_HEAD =
  systemdata :: SYSTEM_DATA_TYPE
  system_val_file :: SYSTEM_DATA_TYPE
  writing_sys_data :: bool
  sync_wait_sem :: nat
  sync_control_sem :: nat
  pin_wait_sem :: nat
  dsync_wait_sem :: nat
  something_to_replace :: nat
  last_xfer_shift_time :: int
  system_restoring :: nat
  sys_io :: "io_outcome list"

text \<open>\<^verbatim>\<open>sem_check_and_release\<close>: post a semaphore whose value is zero.\<close>

definition sem_check_and_release :: "nat \<Rightarrow> nat" where
  "sem_check_and_release v = (if v \<le> 0 then v + 1 else v)"

text \<open>The counter update \<^verbatim>\<open>x += d; if (x < 0) x = 0;\<close> that all these functions share.\<close>

definition add_clamp :: "int \<Rightarrow> int \<Rightarrow> int" where
  "add_clamp x d = (if x + d < 0 then 0 else x + d)"

subsection \<open>Operations\<close>

definition sys_io_step :: "SYSTEM_DATA_HEAD \<Rightarrow> io_outcome \<times> SYSTEM_DATA_HEAD" where
  "sys_io_step h =
     (case sys_io h of [] \<Rightarrow> (IO_Ok, h) | r # rs \<Rightarrow> (r, h\<lparr>sys_io := rs\<rparr>))"

text \<open>
  \<^verbatim>\<open>sync_hcfs_system_data\<close>: the macros \<^verbatim>\<open>FSEEK\<close> and \<^verbatim>\<open>FWRITE\<close> jump to the error
  exit.  Without \<open>need_lock\<close> the write is left to a helper thread, which the flag
  \<open>writing_sys_data\<close> announces.
\<close>

definition sync_hcfs_system_data :: "bool \<Rightarrow> (SYSTEM_DATA_HEAD, unit) sm" where
  "sync_hcfs_system_data need_lock h =
     (if need_lock then
        (case sys_io_step h of
           (IO_Err e, h1) \<Rightarrow> (Inl (Errno e), h1)
         | (_, h1) \<Rightarrow>
             (case sys_io_step h1 of
                (IO_Err e, h2) \<Rightarrow> (Inl (Errno EIO), h2)
              | (IO_Short, h2) \<Rightarrow> (Inr (), h2)
              | (IO_Ok, h2) \<Rightarrow> (Inr (), h2\<lparr>system_val_file := systemdata h2\<rparr>)))
      else if \<not> writing_sys_data h then (Inr (), h\<lparr>writing_sys_data := True\<rparr>)
      else (Inr (), h))"

definition change_system_counters ::
  "int \<Rightarrow> int \<Rightarrow> int \<Rightarrow> int \<Rightarrow> int \<Rightarrow> int \<Rightarrow> SYSTEM_DATA_TYPE \<Rightarrow> SYSTEM_DATA_TYPE" where
  "change_system_counters system_size_delta meta_size_delta cache_data_size_delta
     cache_blocks_delta dirty_cache_delta unpin_dirty_delta d =
     d\<lparr>system_size := add_clamp (system_size d) system_size_delta,
       system_meta_size := add_clamp (system_meta_size d) meta_size_delta,
       cache_size := add_clamp (cache_size d) cache_data_size_delta,
       cache_blocks := add_clamp (cache_blocks d) cache_blocks_delta,
       dirty_cache_size := add_clamp (dirty_cache_size d) dirty_cache_delta,
       unpin_dirty_data_size := add_clamp (unpin_dirty_data_size d) unpin_dirty_delta\<rparr>"

definition change_system_meta ::
  "int \<Rightarrow> int \<Rightarrow> int \<Rightarrow> int \<Rightarrow> int \<Rightarrow> int \<Rightarrow> bool \<Rightarrow> (SYSTEM_DATA_HEAD, unit) sm" where
  "change_system_meta system_size_delta meta_size_delta cache_data_size_delta
     cache_blocks_delta dirty_cache_delta unpin_dirty_delta need_sync h =
     (let h1 = h\<lparr>systemdata := change_system_counters system_size_delta meta_size_delta
                  cache_data_size_delta cache_blocks_delta dirty_cache_delta
                  unpin_dirty_delta (systemdata h)\<rparr>;
          h2 = (if unpin_dirty_delta < 0 \<and> something_to_replace h1 = 0
                then h1\<lparr>something_to_replace := something_to_replace h1 + 1\<rparr> else h1)
      in if need_sync then sync_hcfs_system_data True h2 else (Inr (), h2))"

text \<open>
  \<^verbatim>\<open>update_sb_size\<close>: \<open>sb_blocks\<close> is what \<^verbatim>\<open>stat\<close> reports for the super block file, its
  number of 512-byte blocks or an error number.
\<close>

definition update_sb_size :: "errno + int \<Rightarrow> (SYSTEM_DATA_HEAD, unit) sm" where
  "update_sb_size sb_blocks h =
     (case sb_blocks of
        Inl e \<Rightarrow> (Inl (Errno e), h)
      | Inr blocks \<Rightarrow>
          (let d = systemdata h; old_size = super_block_size d; new_size = blocks * 512
           in if new_size = old_size then (Inr (), h)
              else (Inr (), h\<lparr>systemdata :=
                d\<lparr>system_meta_size := add_clamp (system_meta_size d) (new_size - old_size),
                  super_block_size := new_size\<rparr>\<rparr>)))"

definition change_pin_size :: "int \<Rightarrow> SYSTEM_DATA_HEAD \<Rightarrow> SYSTEM_DATA_HEAD" where
  "change_pin_size delta_pin_size h =
     h\<lparr>systemdata := (systemdata h)\<lparr>pinned_size :=
        add_clamp (pinned_size (systemdata h)) delta_pin_size\<rparr>\<rparr>"

definition update_backend_usage :: "int \<Rightarrow> int \<Rightarrow> int \<Rightarrow> SYSTEM_DATA_HEAD \<Rightarrow> SYSTEM_DATA_HEAD" where
  "update_backend_usage total_backend_size_delta meta_size_delta num_inodes_delta h =
     (let d = systemdata h;
          d1 = d\<lparr>backend_size := add_clamp (backend_size d) total_backend_size_delta,
                 backend_meta_size := add_clamp (backend_meta_size d) meta_size_delta,
                 backend_inodes := add_clamp (backend_inodes d) num_inodes_delta\<rparr>
      in snd (sync_hcfs_system_data True (h\<lparr>systemdata := d1\<rparr>)))"

subsection \<open>The transfer statistics window\<close>

text \<open>
  The loop of \<^verbatim>\<open>_shift_xfer_window\<close>: clear the slot \<open>now_window\<close>, then move on to the next slot
  (cyclically) until \<open>window_exceeded\<close> slots have been passed or every slot has been cleared.
\<close>

function shift_windows ::
  "int \<Rightarrow> nat \<Rightarrow> nat \<Rightarrow> int list \<Rightarrow> int list \<Rightarrow> nat \<times> int list \<times> int list" where
  "shift_windows window_exceeded num_shifted now_window thr obj =
     (if num_shifted < XFER_WINDOW_MAX then
        (let thr1 = thr[now_window := 0]; obj1 = obj[now_window := 0] in
         if int num_shifted \<ge> window_exceeded then (now_window, thr1, obj1)
         else shift_windows window_exceeded (num_shifted + 1)
                (if now_window + 1 \<ge> XFER_WINDOW_MAX then 0 else now_window + 1) thr1 obj1)
      else (now_window, thr, obj))"
  by pat_completeness auto
termination
  by (relation "measure (\<lambda>(we, ns, nw, thr, obj). XFER_WINDOW_MAX - ns)") auto

declare shift_windows.simps [simp del]

definition shift_xfer_window :: "int \<Rightarrow> SYSTEM_DATA_HEAD \<Rightarrow> SYSTEM_DATA_HEAD" where
  "shift_xfer_window this_time h =
     (let d = systemdata h in
      if last_xfer_shift_time h < 0 then
        h\<lparr>systemdata := d\<lparr>xfer_now_window := 0,
            xfer_throughput := replicate XFER_WINDOW_MAX 0,
            xfer_total_obj := replicate XFER_WINDOW_MAX 0\<rparr>\<rparr>
      else
        (let time_diff = to_int32 (this_time - last_xfer_shift_time h) in
         if time_diff > XFER_SEC_PER_WINDOW then
           (case shift_windows (time_diff div XFER_SEC_PER_WINDOW) 0 (xfer_now_window d)
                   (xfer_throughput d) (xfer_total_obj d) of
              (nw, thr, obj) \<Rightarrow>
                h\<lparr>systemdata := d\<lparr>xfer_throughput := thr, xfer_total_obj := obj,
                    xfer_now_window := nw\<rparr>, last_xfer_shift_time := this_time\<rparr>)
         else h))"

definition change_xfer_meta :: "int \<Rightarrow> int \<Rightarrow> int \<Rightarrow> int \<Rightarrow> int \<Rightarrow> SYSTEM_DATA_HEAD \<Rightarrow> SYSTEM_DATA_HEAD" where
  "change_xfer_meta this_time upload download throughput total_obj h =
     (let h1 = shift_xfer_window this_time h; d = systemdata h1; now_window = xfer_now_window d in
      h1\<lparr>systemdata :=
        d\<lparr>xfer_size_upload := add_clamp (xfer_size_upload d) upload,
          xfer_size_download := add_clamp (xfer_size_download d) download,
          xfer_throughput := (xfer_throughput d)
            [now_window := add_clamp (xfer_throughput d ! now_window) throughput],
          xfer_total_obj := (xfer_total_obj d)
            [now_window := add_clamp (xfer_total_obj d ! now_window) total_obj]\<rparr>\<rparr>)"

subsection \<open>Well-formed statistics\<close>

text \<open>
  The counters that these functions update are never negative, and the transfer window is an index
  into its two arrays.
\<close>

definition sysdata_wf :: "SYSTEM_DATA_TYPE \<Rightarrow> bool" where
  "sysdata_wf d \<longleftrightarrow>
     0 \<le> system_size d \<and> 0 \<le> system_meta_size d \<and> 0 \<le> super_block_size d \<and> 0 \<le> cache_size d \<and> 0 \<le> cache_blocks d \<and>
     0 \<le> pinned_size d \<and> 0 \<le> unpin_dirty_data_size d \<and> 0 \<le> dirty_cache_size d \<and>
     0 \<le> backend_size d \<and> 0 \<le> backend_meta_size d \<and> 0 \<le> backend_inodes d \<and>
     0 \<le> xfer_size_upload d \<and> 0 \<le> xfer_size_download d \<and>
     length (xfer_throughput d) = XFER_WINDOW_MAX \<and> length (xfer_total_obj d) = XFER_WINDOW_MAX \<and>
     (\<forall>x \<in> set (xfer_throughput d). 0 \<le> x) \<and> (\<forall>x \<in> set (xfer_total_obj d). 0 \<le> x) \<and>
     xfer_now_window d < XFER_WINDOW_MAX"

lemma add_clamp_nonneg [simp]: "0 \<le> add_clamp x d"
  by (simp add: add_clamp_def)

lemma add_clamp_exact: "0 \<le> x + d \<Longrightarrow> add_clamp x d = x + d"
  by (simp add: add_clamp_def)

lemma add_clamp_0 [simp]: "0 \<le> x \<Longrightarrow> add_clamp x 0 = x"
  by (simp add: add_clamp_def)

lemma sem_check_and_release_pos [simp]: "0 < sem_check_and_release v"
  by (simp add: sem_check_and_release_def)

lemma systemdata_sys_io_step [simp]: "systemdata (snd (sys_io_step h)) = systemdata h"
  by (simp add: sys_io_step_def split: list.split)

lemma systemdata_sync [simp]: "systemdata (snd (sync_hcfs_system_data b h)) = systemdata h"
  by (auto simp: sync_hcfs_system_data_def sys_io_step_def
      split: prod.splits io_outcome.splits list.splits)

lemma systemdata_change_system_meta:
  "systemdata (snd (change_system_meta a b c d e f g h)) =
     change_system_counters a b c d e f (systemdata h)"
  by (simp add: change_system_meta_def Let_def)

lemma sysdata_wf_counters: "sysdata_wf d \<Longrightarrow> sysdata_wf (change_system_counters a b c e f g d)"
  by (simp add: sysdata_wf_def change_system_counters_def)

lemma shift_windows_wf:
  assumes "length thr = XFER_WINDOW_MAX" "length obj = XFER_WINDOW_MAX"
    and "now < XFER_WINDOW_MAX" and "\<forall>x \<in> set thr. 0 \<le> x" "\<forall>x \<in> set obj. 0 \<le> x"
    and "shift_windows we ns now thr obj = (now', thr', obj')"
  shows "length thr' = XFER_WINDOW_MAX \<and> length obj' = XFER_WINDOW_MAX \<and> now' < XFER_WINDOW_MAX \<and>
    (\<forall>x \<in> set thr'. 0 \<le> x) \<and> (\<forall>x \<in> set obj'. 0 \<le> x)"
  using assms
proof (induction we ns now thr obj rule: shift_windows.induct)
  case (1 we ns now thr obj)
  have upd: "\<forall>x \<in> set (xs[now := 0]). 0 \<le> x" if "\<forall>x \<in> set xs. (0::int) \<le> x" for xs
    using that set_update_subset_insert [of xs now 0] by auto
  show ?case
  proof (cases "ns < XFER_WINDOW_MAX \<and> int ns < we")
    case True
    then have step: "shift_windows we ns now thr obj =
        shift_windows we (ns + 1) (if now + 1 \<ge> XFER_WINDOW_MAX then 0 else now + 1)
          (thr[now := 0]) (obj[now := 0])"
      by (simp add: shift_windows.simps [of we ns now thr obj])
    show ?thesis
      using True "1.prems" by (intro "1.IH") (auto simp: step dest: upd)
  next
    case False
    with "1.prems" upd show ?thesis
      by (auto simp: shift_windows.simps [of we ns now thr obj] Let_def split: if_splits)
  qed
qed

lemma shift_xfer_window_wf:
  assumes "sysdata_wf (systemdata h)"
  shows "sysdata_wf (systemdata (shift_xfer_window t h))"
proof -
  let ?d = "systemdata h"
  obtain nw thr obj where sh:
    "shift_windows (to_int32 (t - last_xfer_shift_time h) div XFER_SEC_PER_WINDOW) 0
       (xfer_now_window ?d) (xfer_throughput ?d) (xfer_total_obj ?d) = (nw, thr, obj)"
    by (metis prod_cases3)
  have "length thr = XFER_WINDOW_MAX \<and> length obj = XFER_WINDOW_MAX \<and> nw < XFER_WINDOW_MAX \<and>
      (\<forall>x \<in> set thr. 0 \<le> x) \<and> (\<forall>x \<in> set obj. 0 \<le> x)"
    using assms by (intro shift_windows_wf [OF _ _ _ _ _ sh]) (auto simp: sysdata_wf_def)
  with assms sh show ?thesis
    by (auto simp: shift_xfer_window_def sysdata_wf_def Let_def)
qed

text \<open>
  \<open>window_hit we ns now k\<close>: entered after \<open>ns\<close> shifts at slot \<open>now\<close>, the loop clears slot \<open>k\<close>.
\<close>

definition window_hit :: "int \<Rightarrow> nat \<Rightarrow> nat \<Rightarrow> nat \<Rightarrow> bool" where
  "window_hit we ns now k \<longleftrightarrow> (\<exists>j < XFER_WINDOW_MAX - ns.
     (j = 0 \<or> int (ns + j) \<le> we) \<and> k = (now + j) mod XFER_WINDOW_MAX)"

lemma window_hit_step:
  assumes "ns < XFER_WINDOW_MAX" "int ns < we" "now < XFER_WINDOW_MAX"
  shows "window_hit we ns now k \<longleftrightarrow>
    k = now \<or> window_hit we (ns + 1) (if now + 1 \<ge> XFER_WINDOW_MAX then 0 else now + 1) k"
    (is "_ \<longleftrightarrow> _ \<or> window_hit we _ ?nxt k")
proof -
  have nxt: "(?nxt + j) mod XFER_WINDOW_MAX = (now + Suc j) mod XFER_WINDOW_MAX" for j
    using assms(3) by (cases "now = 5") auto
  have "window_hit we ns now k \<longleftrightarrow> k = now \<or>
      (\<exists>i < XFER_WINDOW_MAX - (ns + 1). int (ns + Suc i) \<le> we \<and> k = (now + Suc i) mod XFER_WINDOW_MAX)"
    (is "_ \<longleftrightarrow> _ \<or> ?R")
  proof
    assume "window_hit we ns now k"
    then obtain j where j: "j < XFER_WINDOW_MAX - ns" "j = 0 \<or> int (ns + j) \<le> we"
      "k = (now + j) mod XFER_WINDOW_MAX" unfolding window_hit_def by blast
    show "k = now \<or> ?R"
    proof (cases j)
      case 0
      with j assms(3) show ?thesis by simp
    next
      case (Suc i)
      with j have "i < XFER_WINDOW_MAX - (ns + 1)" by linarith
      with Suc j show ?thesis by blast
    qed
  next
    assume "k = now \<or> ?R"
    then show "window_hit we ns now k"
    proof
      assume "k = now"
      with assms(1,3) show ?thesis by (auto simp: window_hit_def intro: exI [of _ 0])
    next
      assume ?R
      then obtain i where "i < XFER_WINDOW_MAX - (ns + 1)" "int (ns + Suc i) \<le> we"
        "k = (now + Suc i) mod XFER_WINDOW_MAX" by blast
      then show ?thesis unfolding window_hit_def by (intro exI [of _ "Suc i"]) auto
    qed
  qed
  also have "?R \<longleftrightarrow> window_hit we (ns + 1) ?nxt k"
    unfolding window_hit_def nxt using assms(2) by (intro ex_cong) auto
  finally show ?thesis .
qed

lemma shift_windows_clears:
  assumes "length thr = XFER_WINDOW_MAX" "now < XFER_WINDOW_MAX"
    and "shift_windows we ns now thr obj = (now', thr', obj')"
  shows "thr' ! k = (if window_hit we ns now k then 0 else thr ! k)"
  using assms
proof (induction we ns now thr obj rule: shift_windows.induct)
  case (1 we ns now thr obj)
  let ?nxt = "if now + 1 \<ge> XFER_WINDOW_MAX then 0 else now + 1"
  have upd: "thr[now := 0] ! k = (if k = now then 0 else thr ! k)"
    using "1.prems"(1,2) by (cases "k = now") auto
  consider (go) "ns < XFER_WINDOW_MAX" "int ns < we" | (stop) "ns < XFER_WINDOW_MAX" "we \<le> int ns"
    | (full) "\<not> ns < XFER_WINDOW_MAX" by linarith
  then show ?case
  proof cases
    case go
    then have "shift_windows we (ns + 1) ?nxt (thr[now := 0]) (obj[now := 0]) = (now', thr', obj')"
      using "1.prems"(3) by (simp add: shift_windows.simps [of we ns now thr obj])
    then have "thr' ! k = (if window_hit we (ns + 1) ?nxt k then 0 else thr[now := 0] ! k)"
      using go "1.prems"(1,2) by (intro "1.IH") auto
    then show ?thesis
      unfolding upd window_hit_step [OF go "1.prems"(2), of k] by simp
  next
    case stop
    then have "window_hit we ns now k \<longleftrightarrow> k = now"
      using "1.prems"(2) by (auto simp: window_hit_def intro: exI [of _ 0])
    moreover have "thr' = thr[now := 0]"
      using stop "1.prems"(3) by (auto simp: shift_windows.simps [of we ns now thr obj] Let_def)
    ultimately show ?thesis using upd by simp
  next
    case full
    with "1.prems"(3) show ?thesis
      by (simp add: shift_windows.simps [of we ns now thr obj] window_hit_def)
  qed
qed

lemma change_xfer_meta_wf:
  assumes "sysdata_wf (systemdata h)"
  shows "sysdata_wf (systemdata (change_xfer_meta t a b c e h))"
proof -
  have upd: "\<forall>x \<in> set (xs[k := add_clamp y z]). 0 \<le> x" if "\<forall>x \<in> set xs. 0 \<le> x" for xs k y z
    using that set_update_subset_insert [of xs k "add_clamp y z"] by auto
  from shift_xfer_window_wf [OF assms, of t] show ?thesis
    by (auto simp: change_xfer_meta_def sysdata_wf_def Let_def dest: upd)
qed

lemma sysdata_wf_pin: "sysdata_wf (systemdata h) \<Longrightarrow> sysdata_wf (systemdata (change_pin_size d h))"
  by (simp add: change_pin_size_def sysdata_wf_def)

lemma sysdata_wf_backend: "sysdata_wf (systemdata h) \<Longrightarrow> sysdata_wf (systemdata (update_backend_usage a b c h))"
  by (simp add: update_backend_usage_def sysdata_wf_def Let_def)

lemma sysdata_wf_sb_size: "sysdata_wf (systemdata h) \<Longrightarrow> (\<forall>n. b = Inr n \<longrightarrow> 0 \<le> n) \<Longrightarrow> sysdata_wf (systemdata (snd (update_sb_size b h)))"
  by (simp add: update_sb_size_def sysdata_wf_def Let_def split: sum.split)

subsection \<open>Properties\<close>

text \<open>The updates that go through the functions above, and a sequence of them.\<close>

datatype stat_update =
    System_Meta_Change int int int int int int bool
  | Pin_Change int
  | Backend_Change int int int
  | Sb_Size "errno + int"
  | Xfer_Change int int int int int

fun run_update :: "stat_update \<Rightarrow> SYSTEM_DATA_HEAD \<Rightarrow> SYSTEM_DATA_HEAD" where
  "run_update (System_Meta_Change a b c d e f sync) h = snd (change_system_meta a b c d e f sync h)"
| "run_update (Pin_Change a) h = change_pin_size a h"
| "run_update (Backend_Change a b c) h = update_backend_usage a b c h"
| "run_update (Sb_Size blocks) h = snd (update_sb_size blocks h)"
| "run_update (Xfer_Change t a b c d) h = change_xfer_meta t a b c d h"

text \<open>
  C39: The five functions that update the global statistics for the rest of the program, \<^verbatim>\<open>change_system_meta\<close>, \<^verbatim>\<open>change_pin_size\<close>, \<^verbatim>\<open>update_backend_usage\<close>, \<^verbatim>\<open>update_sb_size\<close> and
  \<^verbatim>\<open>change_xfer_meta\<close>, keep them well-formed, in any order and number, whatever the deltas, the time of day and the outcome of the file writes, as long as \<^verbatim>\<open>stat\<close> reports no negative
  number of blocks: none of the counters and slots they maintain becomes negative, and the transfer window stays an index into its six slots.  Code that writes the counters directly is not covered.
\<close>

theorem statistics_stay_wellformed:
  assumes "sysdata_wf (systemdata h)" and "\<forall>n. Sb_Size (Inr n) \<in> set us \<longrightarrow> 0 \<le> n"
  shows "sysdata_wf (systemdata (fold run_update us h))"
  using assms
proof (induction us arbitrary: h)
  case (Cons u us)
  have "sysdata_wf (systemdata (run_update u h))"
    using Cons.prems by (cases u) (auto simp: systemdata_change_system_meta intro: sysdata_wf_counters sysdata_wf_pin sysdata_wf_backend sysdata_wf_sb_size change_xfer_meta_wf)
  then show ?case using Cons.IH [of "run_update u h"] Cons.prems(2) by simp
qed simp

definition example_stats :: SYSTEM_DATA_TYPE where
  "example_stats = \<lparr>system_size = 0, system_meta_size = 0, super_block_size = 0, cache_size = 0,
     cache_blocks = 0, pinned_size = 0, unpin_dirty_data_size = 0, backend_size = 0,
     backend_meta_size = 0, backend_inodes = 0, dirty_cache_size = 100, system_quota = 0,
     cache_replace_status = 0, xfer_size_download = 0, xfer_size_upload = 0,
     xfer_throughput = [10, 20, 30, 40, 50, 60], xfer_total_obj = [1, 2, 3, 4, 5, 6], xfer_now_window = 5\<rparr>"

definition example_system :: SYSTEM_DATA_HEAD where
  "example_system = \<lparr>systemdata = example_stats, system_val_file = example_stats, writing_sys_data = False,
     sync_wait_sem = 0, sync_control_sem = 0, pin_wait_sem = 0, dsync_wait_sem = 0,
     something_to_replace = 0, last_xfer_shift_time = 1000, system_restoring = 0, sys_io = []\<rparr>"

lemma example_wf: "sysdata_wf (systemdata example_system)"
  by (simp add: example_system_def example_stats_def sysdata_wf_def)

theorem statistics_stay_wellformed_witness:
  "sysdata_wf (systemdata (fold run_update [System_Meta_Change 0 0 (- 5) 0 (- 200) (- 1) True, Sb_Size (Inr 8), Xfer_Change 1030 5 0 (- 99) 1] example_system))"
  by (rule statistics_stay_wellformed [OF example_wf]) simp

text \<open>
  The transfer statistics of the window that has just ended are erased together with the windows that were
  skipped: after a shift by \<open>n\<close> windows, exactly the slots from the old window up to the new one are zero, the
  old window included, and the others are unchanged.
\<close>

theorem window_shift_erases_current:
  assumes "sysdata_wf (systemdata h)" and "0 \<le> last_xfer_shift_time h"
    and "20 < t - last_xfer_shift_time h" and "t - last_xfer_shift_time h < 2 ^ 31"
  shows "xfer_throughput (systemdata (shift_xfer_window t h)) ! k =
    (if window_hit ((t - last_xfer_shift_time h) div 20) 0 (xfer_now_window (systemdata h)) k then 0
     else xfer_throughput (systemdata h) ! k) \<and>
    window_hit ((t - last_xfer_shift_time h) div 20) 0 (xfer_now_window (systemdata h))
      (xfer_now_window (systemdata h))"
proof -
  let ?d = "systemdata h" and ?n = "(t - last_xfer_shift_time h) div 20"
  have td: "to_int32 (t - last_xfer_shift_time h) = t - last_xfer_shift_time h"
    using assms(3,4) by (intro to_int32_id) simp_all
  have wf: "length (xfer_throughput ?d) = XFER_WINDOW_MAX" "xfer_now_window ?d < XFER_WINDOW_MAX"
    using assms(1) by (simp_all add: sysdata_wf_def)
  obtain nw thr obj where sh: "shift_windows ?n 0 (xfer_now_window ?d) (xfer_throughput ?d) (xfer_total_obj ?d) =
      (nw, thr, obj)" by (metis prod_cases3)
  then have "xfer_throughput (systemdata (shift_xfer_window t h)) = thr"
    using assms(2,3) td by (simp add: shift_xfer_window_def Let_def)
  with shift_windows_clears [OF wf sh, of k]
  have "xfer_throughput (systemdata (shift_xfer_window t h)) ! k =
    (if window_hit ?n 0 (xfer_now_window ?d) k then 0 else xfer_throughput ?d ! k)" by simp
  moreover have "window_hit ?n 0 (xfer_now_window ?d) (xfer_now_window ?d)"
    using wf(2) by (auto simp: window_hit_def intro: exI [of _ 0])
  ultimately show ?thesis by blast
qed

theorem window_shift_erases_current_witness:
  "xfer_throughput (systemdata (shift_xfer_window 1030 example_system)) ! 5 = 0"
proof -
  have h: "0 \<le> last_xfer_shift_time example_system" "20 < 1030 - last_xfer_shift_time example_system"
    "1030 - last_xfer_shift_time example_system < 2 ^ 31" "xfer_now_window (systemdata example_system) = 5"
    by (simp_all add: example_system_def example_stats_def)
  from window_shift_erases_current [OF example_wf h(1-3), of 5] h(4)
  show ?thesis by simp
qed

end
