(* ===== verification/Super_Block.thy ===== *)
theory Super_Block
  imports System_Meta
begin

text \<open>
  The super block (\<^verbatim>\<open>src/HCFS/super_block.c\<close>, \<^verbatim>\<open>super_block.h\<close>) and the sync point it carries
  (\<^verbatim>\<open>src/HCFS/syncpoint_control.c\<close>): state, entry I/O, the queues of dirty and deleted inodes
  and the pinning queue.

  The super block file is a header followed by one entry per inode number, starting at inode 1;
  \<open>sb_entries\<close> is the list of entries, so that reading past the end is a short read and writing
  past the end leaves zeroed entries in between.  The queues are linked lists threaded through the
  entries, 0 being the null link.  \<open>sb_io\<close> scripts the outcomes of the system calls to come
  (every \<^verbatim>\<open>pread\<close>, \<^verbatim>\<open>pwrite\<close>, \<^verbatim>\<open>fopen\<close>, \<^verbatim>\<open>malloc\<close> consumes one), so every error path of the code
  is a path of the model.
\<close>

subsection \<open>Data\<close>

record HCFS_STAT =
  st_magic :: string
  st_metaver :: nat
  st_dev :: nat
  st_ino :: ino_t
  st_mode :: nat
  st_nlink :: nat
  st_uid :: nat
  st_gid :: nat
  st_rdev :: nat
  st_size :: int
  st_blksize :: int
  st_blocks :: int
  st_atime :: int
  st_atime_nsec :: nat
  st_mtime :: int
  st_mtime_nsec :: nat
  st_ctime :: int
  st_ctime_nsec :: nat

definition zero_stat :: HCFS_STAT where
  "zero_stat = \<lparr>st_magic = replicate 4 (CHR 0x00), st_metaver = 0, st_dev = 0, st_ino = 0,
     st_mode = 0, st_nlink = 0, st_uid = 0, st_gid = 0, st_rdev = 0, st_size = 0, st_blksize = 0,
     st_blocks = 0, st_atime = 0, st_atime_nsec = 0, st_mtime = 0, st_mtime_nsec = 0,
     st_ctime = 0, st_ctime_nsec = 0\<rparr>"

definition init_hcfs_stat :: HCFS_STAT where
  "init_hcfs_stat = zero_stat\<lparr>st_metaver := 1, st_magic := ''hcfs''\<rparr>"

datatype sb_status = NO_LL | IS_DIRTY | TO_BE_DELETED | TO_BE_RECLAIMED | RECLAIMED
datatype sb_pin_status = ST_DEL | ST_UNPIN | ST_PINNING | ST_PIN

fun pin_code :: "sb_pin_status \<Rightarrow> nat" where
  "pin_code ST_DEL = 0"
| "pin_code ST_UNPIN = 1"
| "pin_code ST_PINNING = 2"
| "pin_code ST_PIN = 3"

record SUPER_BLOCK_ENTRY =
  inode_stat :: HCFS_STAT
  util_ll_next :: ino_t
  util_ll_prev :: ino_t
  pin_ll_next :: ino_t
  pin_ll_prev :: ino_t
  pin_status :: sb_pin_status
  status :: sb_status
  in_transit :: bool
  mod_after_in_transit :: bool
  this_index :: ino_t
  generation :: nat
  dirty_meta_size :: int
  lastsync_time :: int

definition zero_entry :: SUPER_BLOCK_ENTRY where
  "zero_entry = \<lparr>inode_stat = zero_stat, util_ll_next = 0, util_ll_prev = 0, pin_ll_next = 0,
     pin_ll_prev = 0, pin_status = ST_DEL, status = NO_LL, in_transit = False,
     mod_after_in_transit = False, this_index = 0, generation = 0, dirty_meta_size = 0,
     lastsync_time = 0\<rparr>"

record SUPER_BLOCK_HEAD =
  num_inode_reclaimed :: int
  first_reclaimed_inode :: ino_t
  last_reclaimed_inode :: ino_t
  first_dirty_inode :: ino_t
  last_dirty_inode :: ino_t
  first_to_delete_inode :: ino_t
  last_to_delete_inode :: ino_t
  first_pin_inode :: ino_t
  last_pin_inode :: ino_t
  num_pinning_inodes :: int
  num_to_be_reclaimed :: int
  num_to_be_deleted :: int
  num_dirty :: int
  num_block_cached :: int
  num_total_inodes :: nat
  num_active_inodes :: int

record SYNC_POINT_DATA =
  upload_sync_point :: ino_t
  delete_sync_point :: ino_t
  upload_sync_complete :: bool
  delete_sync_complete :: bool

definition zero_sync_data :: SYNC_POINT_DATA where
  "zero_sync_data = \<lparr>upload_sync_point = 0, delete_sync_point = 0,
     upload_sync_complete = False, delete_sync_complete = False\<rparr>"

abbreviation (input) SYNC_RETRY_TIMES :: int where "SYNC_RETRY_TIMES \<equiv> 2"

record SYNC_POINT_INFO =
  sp_fptr :: bool
  sync_retry_times :: int
  sp_data :: SYNC_POINT_DATA
  ctl_sem :: nat

record SB_RECOVERY_META =
  is_ongoing :: bool
  start_inode :: ino_t
  end_inode :: ino_t

text \<open>
  \<open>SUPER_BLOCK_CONTROL\<close> with the files behind its descriptors (\<open>disk_head\<close>, \<open>sb_entries\<close>,
  \<open>unclaimed_list\<close>, \<open>temp_unclaimed\<close>, \<open>sync_point_file\<close>), the global statistics, the sizes of
  the local meta files as \<^verbatim>\<open>stat\<close> reports them, and the clock.  \<open>sb_locked\<close> says whether the
  exclusive lock is held; \<open>sync_events\<close> counts the \<^verbatim>\<open>SYNCDATACOMPLETE\<close> notifications requested.
\<close>

record sb_state =
  sb_head :: SUPER_BLOCK_HEAD
  disk_head :: SUPER_BLOCK_HEAD
  sb_entries :: "SUPER_BLOCK_ENTRY list"
  unclaimed_list :: "ino_t list"
  temp_unclaimed :: "ino_t list option"
  temp_unclaimed_fptr :: bool
  now_reclaim_fullscan :: bool
  sync_point_is_set :: bool
  sync_point_info :: "SYNC_POINT_INFO option"
  sync_point_file :: "SYNC_POINT_DATA option"
  sb_recovery_meta :: SB_RECOVERY_META
  hcfs_system :: SYSTEM_DATA_HEAD
  meta_local_size :: "ino_t \<Rightarrow> int option"
  sb_locked :: bool
  sb_clock :: int
  sync_events :: nat
  sb_io :: "io_outcome list"

subsection \<open>System calls and entry I/O\<close>

definition io_step :: "sb_state \<Rightarrow> io_outcome \<times> sb_state" where
  "io_step s = (case sb_io s of [] \<Rightarrow> (IO_Ok, s) | r # rs \<Rightarrow> (r, s\<lparr>sb_io := rs\<rparr>))"

text \<open>One system call with no effect but its outcome; a short transfer is not an error here.\<close>

definition syscall :: "(sb_state, bool) sm" where
  "syscall s = (case io_step s of
      (IO_Err e, s1) \<Rightarrow> (Inl (Errno e), s1)
    | (IO_Short, s1) \<Rightarrow> (Inr False, s1)
    | (IO_Ok, s1) \<Rightarrow> (Inr True, s1))"

text \<open>A transfer of a whole structure: a short transfer is reported as \<open>EIO\<close>.\<close>

definition transfer :: "(sb_state, unit) sm" where
  "transfer s = (case io_step s of
      (IO_Err e, s1) \<Rightarrow> (Inl (Errno e), s1)
    | (IO_Short, s1) \<Rightarrow> (Inl (Errno EIO), s1)
    | (IO_Ok, s1) \<Rightarrow> (Inr (), s1))"

definition write_super_block_head :: "(sb_state, unit) sm" where
  "write_super_block_head =
     bindE transfer (\<lambda>_. modifyE (\<lambda>s. s\<lparr>disk_head := sb_head s\<rparr>))"

text \<open>
  Raw access to the entry of an inode.  For inode 0 the file offset is negative, since an entry is
  larger than the header, and the call fails with \<open>EINVAL\<close>.
\<close>

definition pread_entry :: "ino_t \<Rightarrow> (sb_state, SUPER_BLOCK_ENTRY) sm" where
  "pread_entry i = bindE transfer (\<lambda>_ s.
     if i = 0 then (Inl (Errno EINVAL), s)
     else if i \<le> length (sb_entries s) then (Inr (sb_entries s ! (i - 1)), s)
     else (Inl (Errno EIO), s))"

definition sb_put :: "ino_t \<Rightarrow> SUPER_BLOCK_ENTRY \<Rightarrow> SUPER_BLOCK_ENTRY list \<Rightarrow> SUPER_BLOCK_ENTRY list" where
  "sb_put i e es = (if i \<le> length es then es[i - 1 := e]
     else es @ replicate (i - 1 - length es) zero_entry @ [e])"

definition write_super_block_entry :: "ino_t \<Rightarrow> SUPER_BLOCK_ENTRY \<Rightarrow> (sb_state, unit) sm" where
  "write_super_block_entry i e = bindE transfer (\<lambda>_ s.
     if i = 0 then (Inl (Errno EINVAL), s)
     else (Inr (), s\<lparr>sb_entries := sb_put i e (sb_entries s)\<rparr>))"

definition read_super_block_entry :: "ino_t \<Rightarrow> (sb_state, SUPER_BLOCK_ENTRY) sm" where
  "read_super_block_entry this_inode =
     (if this_inode = 0 then failE (Errno EINVAL) else pread_entry this_inode)"

subsection \<open>Locking of the handlers\<close>

text \<open>
  The lock itself is the subject of theory \<open>SB_Lock\<close>; a handler only records that it
  holds the exclusive lock.
\<close>

definition super_block_exclusive_locking :: "sb_state \<Rightarrow> sb_state" where
  "super_block_exclusive_locking s = s\<lparr>sb_locked := True\<rparr>"

definition super_block_exclusive_release :: "sb_state \<Rightarrow> sb_state" where
  "super_block_exclusive_release s = s\<lparr>sb_locked := False\<rparr>"

definition with_exclusive :: "(sb_state, 'a) sm \<Rightarrow> (sb_state, 'a) sm" where
  "with_exclusive m s =
     (case m (super_block_exclusive_locking s) of
        (r, s') \<Rightarrow> (r, super_block_exclusive_release s'))"

subsection \<open>Statistics and semaphores seen from the super block\<close>

definition is_sbentry_being_recover_later :: "ino_t \<Rightarrow> sb_state \<Rightarrow> bool" where
  "is_sbentry_being_recover_later i s =
     (is_ongoing (sb_recovery_meta s) \<and> start_inode (sb_recovery_meta s) \<le> i \<and>
      i \<le> end_inode (sb_recovery_meta s))"

definition get_meta_size :: "ino_t \<Rightarrow> sb_state \<Rightarrow> int" where
  "get_meta_size i s = (case meta_local_size s i of None \<Rightarrow> 0 | Some n \<Rightarrow> n)"

definition sb_change_system_meta :: "int \<Rightarrow> sb_state \<Rightarrow> sb_state" where
  "sb_change_system_meta dirty_delta s =
     s\<lparr>hcfs_system := snd (change_system_meta 0 0 0 0 dirty_delta 0 True (hcfs_system s))\<rparr>"

definition change_system_meta_ignore_dirty ::
  "ino_t \<Rightarrow> int \<Rightarrow> int \<Rightarrow> int \<Rightarrow> int \<Rightarrow> int \<Rightarrow> int \<Rightarrow> bool \<Rightarrow> (sb_state, unit) sm" where
  "change_system_meta_ignore_dirty this_inode a b c d dirty_delta unpin_delta need_sync s =
     (let (r, h) =
        (if is_sbentry_being_recover_later this_inode s
         then change_system_meta a b c d 0 0 need_sync (hcfs_system s)
         else change_system_meta a b c d dirty_delta unpin_delta need_sync (hcfs_system s))
      in (r, s\<lparr>hcfs_system := h\<rparr>))"

definition wake_sync :: "sb_state \<Rightarrow> sb_state" where
  "wake_sync s = s\<lparr>hcfs_system := (hcfs_system s)
     \<lparr>sync_wait_sem := sem_check_and_release (sync_wait_sem (hcfs_system s))\<rparr>\<rparr>"

definition wake_dsync :: "sb_state \<Rightarrow> sb_state" where
  "wake_dsync s = s\<lparr>hcfs_system := (hcfs_system s)
     \<lparr>dsync_wait_sem := sem_check_and_release (dsync_wait_sem (hcfs_system s))\<rparr>\<rparr>"

definition wake_pin :: "sb_state \<Rightarrow> sb_state" where
  "wake_pin s = s\<lparr>hcfs_system := (hcfs_system s)
     \<lparr>pin_wait_sem := sem_check_and_release (pin_wait_sem (hcfs_system s))\<rparr>\<rparr>"

definition upd_head :: "(SUPER_BLOCK_HEAD \<Rightarrow> SUPER_BLOCK_HEAD) \<Rightarrow> sb_state \<Rightarrow> sb_state" where
  "upd_head f s = s\<lparr>sb_head := f (sb_head s)\<rparr>"

end
