(* ===== verification/Sync_Point.thy ===== *)
theory Sync_Point
  imports Super_Block
begin

text \<open>
  The sync point (\<^verbatim>\<open>src/HCFS/syncpoint_control.c\<close> and the two super block calls that set and cancel
  it).  A sync point remembers the last inode of the dirty queue and of the delete queue at the
  time it was set; when a queue element that is the remembered one leaves its queue, the point moves
  to its predecessor, and when both points have run off the front the whole file system has been
  synchronised.  The notification of the user interface is counted in \<open>sync_events\<close>.
\<close>

subsection \<open>Operations\<close>

definition ignore_errno :: "(sb_state, 'a) sm \<Rightarrow> (sb_state, unit) sm" where
  "ignore_errno m s = (case m s of
      (Inl (Errno e), s') \<Rightarrow> (Inr (), s')
    | (Inl Hang, s') \<Rightarrow> (Inl Hang, s')
    | (Inl Crash, s') \<Rightarrow> (Inl Crash, s')
    | (Inr x, s') \<Rightarrow> (Inr (), s'))"

definition free_syncpoint_resource :: "bool \<Rightarrow> sb_state \<Rightarrow> sb_state" where
  "free_syncpoint_resource remove_file s =
     (case sync_point_info s of
        None \<Rightarrow> s
      | Some info \<Rightarrow>
          (let s1 = (if sp_fptr info \<and> remove_file then s\<lparr>sync_point_file := None\<rparr> else s)
           in s1\<lparr>sync_point_info := None, sync_point_is_set := False\<rparr>))"

text \<open>
  Note that the error exit of \<^verbatim>\<open>write_syncpoint_data\<close> does not give \<open>ctl_sem\<close> back; waiting on a
  semaphore nobody will post is \<open>Hang\<close>.
\<close>

definition write_syncpoint_data :: "(sb_state, unit) sm" where
  "write_syncpoint_data s =
     (case sync_point_info s of
        None \<Rightarrow> (Inl Crash, s)
      | Some info \<Rightarrow>
          if ctl_sem info = 0 then (Inl Hang, s)
          else if \<not> sp_fptr info then (Inl Crash, s)
          else
            (case syscall (s\<lparr>sync_point_info := Some (info\<lparr>ctl_sem := ctl_sem info - 1\<rparr>)\<rparr>) of
               (Inl e, s1) \<Rightarrow> (Inl e, s1)
             | (Inr ok, s1) \<Rightarrow>
                 (Inr (), (if ok then s1\<lparr>sync_point_file := Some (sp_data info)\<rparr> else s1)
                    \<lparr>sync_point_info := Some info\<rparr>)))"

text \<open>\<open>opened\<close>: the file is open; the structure is freed when it cannot be opened.\<close>

definition init_syncpoint_resource :: "(sb_state, unit) sm" where
  "init_syncpoint_resource s =
     (let s1 = s\<lparr>sync_point_info := None, sync_point_is_set := True\<rparr> in
      case syscall s1 of
        (Inl _, s2) \<Rightarrow> (Inl (Errno ENOMEM), s2)
      | (Inr _, s2) \<Rightarrow>
          (let s3 = s2\<lparr>hcfs_system := (hcfs_system s2)
                     \<lparr>sync_control_sem := sem_check_and_release (sync_control_sem (hcfs_system s2))\<rparr>\<rparr>;
               info = \<lparr>sp_fptr = True, sync_retry_times = SYNC_RETRY_TIMES,
                       sp_data = zero_sync_data, ctl_sem = 1\<rparr>
           in case syscall s3 of
                (Inl e, s4) \<Rightarrow> (Inl e, s4)
              | (Inr _, s4) \<Rightarrow>
                  (case sync_point_file s4 of
                     Some old \<Rightarrow>
                       (case syscall (s4\<lparr>sync_point_info := Some info\<rparr>) of
                          (Inl e, s5) \<Rightarrow> (Inl e, free_syncpoint_resource True s5)
                        | (Inr ok, s5) \<Rightarrow>
                            (Inr (), s5\<lparr>sync_point_info :=
                               Some (if ok then info\<lparr>sp_data := old\<rparr> else info)\<rparr>))
                   | None \<Rightarrow>
                       (case syscall (s4\<lparr>sync_point_info := Some info,
                                         sync_point_file := Some zero_sync_data\<rparr>) of
                          (Inl e, s5) \<Rightarrow> (Inl e, free_syncpoint_resource True s5)
                        | (Inr ok, s5) \<Rightarrow> (Inr (), s5)))))"

definition upd_sync_info :: "(SYNC_POINT_INFO \<Rightarrow> SYNC_POINT_INFO) \<Rightarrow> sb_state \<Rightarrow> sb_state" where
  "upd_sync_info f s = s\<lparr>sync_point_info := map_option f (sync_point_info s)\<rparr>"

definition reset_upload_sync_point :: "sb_state \<Rightarrow> sb_state" where
  "reset_upload_sync_point s = upd_sync_info (\<lambda>info. info\<lparr>sp_data := (sp_data info)
     \<lparr>upload_sync_point := last_dirty_inode (sb_head s), upload_sync_complete := False\<rparr>\<rparr>) s"

definition reset_delete_sync_point :: "sb_state \<Rightarrow> sb_state" where
  "reset_delete_sync_point s = upd_sync_info (\<lambda>info. info\<lparr>sp_data := (sp_data info)
     \<lparr>delete_sync_point := last_to_delete_inode (sb_head s), delete_sync_complete := False\<rparr>\<rparr>) s"

text \<open>
  The retry part of \<^verbatim>\<open>check_sync_complete\<close>: which of the two queues holds more than the inode that
  is leaving, as a pair (reset upload point, reset delete point).
\<close>

definition sync_queues_left :: "sb_status \<Rightarrow> ino_t \<Rightarrow> sb_state \<Rightarrow> bool \<times> bool" where
  "sync_queues_left which_ll this_inode s =
     (case which_ll of
        IS_DIRTY \<Rightarrow> (last_dirty_inode (sb_head s) \<noteq> this_inode, last_to_delete_inode (sb_head s) \<noteq> 0)
      | TO_BE_DELETED \<Rightarrow> (last_dirty_inode (sb_head s) \<noteq> 0, last_to_delete_inode (sb_head s) \<noteq> this_inode)
      | _ \<Rightarrow> (False, False))"

definition check_sync_complete :: "sb_status \<Rightarrow> ino_t \<Rightarrow> (sb_state, unit) sm" where
  "check_sync_complete which_ll this_inode s =
     (case sync_point_info s of
        None \<Rightarrow> (Inl Crash, s)
      | Some info \<Rightarrow>
          if \<not> (upload_sync_complete (sp_data info) \<and> delete_sync_complete (sp_data info))
          then (Inr (), s)
          else
            (let (up, del) = (if sync_retry_times info > 0
                              then sync_queues_left which_ll this_inode s else (False, False));
                 s1 = (if up then reset_upload_sync_point s else s);
                 s2 = (if del then reset_delete_sync_point s1 else s1);
                 s3 = (if sync_retry_times info > 0
                       then upd_sync_info (\<lambda>i. i\<lparr>sync_retry_times := sync_retry_times i - 1\<rparr>) s2
                       else s2)
             in if up \<or> del then ignore_errno write_syncpoint_data s3
                else (let s4 = free_syncpoint_resource True s3
                      in (Inr (), s4\<lparr>sync_events := sync_events s4 + 1\<rparr>))))"

definition move_sync_point :: "sb_status \<Rightarrow> ino_t \<Rightarrow> SUPER_BLOCK_ENTRY \<Rightarrow> (sb_state, unit) sm" where
  "move_sync_point which_ll this_inode this_entry s =
     (case sync_point_info s of
        None \<Rightarrow> (Inr (), s)
      | Some info \<Rightarrow>
          (let d = sp_data info;
               d1 = (case which_ll of
                  IS_DIRTY \<Rightarrow>
                    if upload_sync_complete d then d
                    else
                      (let p = (if upload_sync_point d = this_inode then util_ll_prev this_entry
                                else upload_sync_point d)
                       in d\<lparr>upload_sync_point := p, upload_sync_complete := (p = 0)\<rparr>)
                | TO_BE_DELETED \<Rightarrow>
                    if delete_sync_complete d then d
                    else
                      (let p = (if delete_sync_point d = this_inode then util_ll_prev this_entry
                                else delete_sync_point d)
                       in d\<lparr>delete_sync_point := p, delete_sync_complete := (p = 0)\<rparr>)
                | _ \<Rightarrow> d);
               need_write = (case which_ll of
                  IS_DIRTY \<Rightarrow> \<not> upload_sync_complete d \<and>
                    (upload_sync_point d = this_inode \<or> upload_sync_point d1 = 0)
                | TO_BE_DELETED \<Rightarrow> \<not> delete_sync_complete d \<and>
                    (delete_sync_point d = this_inode \<or> delete_sync_point d1 = 0)
                | _ \<Rightarrow> False);
               s1 = s\<lparr>sync_point_info := Some (info\<lparr>sp_data := d1\<rparr>)\<rparr>
           in if need_write
              then bindE (ignore_errno write_syncpoint_data)
                     (\<lambda>_. check_sync_complete which_ll this_inode) s1
              else (Inr (), s1)))"

text \<open>
  \<^verbatim>\<open>super_block_set_syncpoint\<close> (result 1: nothing to synchronise) and
  \<^verbatim>\<open>super_block_cancel_syncpoint\<close> (result 1: no sync point was set).
\<close>

definition super_block_set_syncpoint :: "(sb_state, nat) sm" where
  "super_block_set_syncpoint = with_exclusive (\<lambda>s.
     if last_dirty_inode (sb_head s) = 0 \<and> last_to_delete_inode (sb_head s) = 0 then (Inr 1, s)
     else
       bindE (\<lambda>s. if \<not> sync_point_is_set s then init_syncpoint_resource s else (Inr (), s))
         (\<lambda>_ s1. case sync_point_info s1 of
            None \<Rightarrow> (Inl Crash, s1)
          | Some info \<Rightarrow>
              (let ld = last_dirty_inode (sb_head s1); lt = last_to_delete_inode (sb_head s1);
                   d = sp_data info;
                   d1 = (if ld \<noteq> 0 then d\<lparr>upload_sync_point := ld, upload_sync_complete := False\<rparr>
                         else d\<lparr>upload_sync_complete := True\<rparr>);
                   d2 = (if lt \<noteq> 0 then d1\<lparr>delete_sync_point := lt, delete_sync_complete := False\<rparr>
                         else d1\<lparr>delete_sync_complete := True\<rparr>);
                   s2 = s1\<lparr>sync_point_info := Some (info\<lparr>sync_retry_times := SYNC_RETRY_TIMES,
                             sp_data := d2\<rparr>)\<rparr>
               in case write_syncpoint_data s2 of
                    (Inl (Errno e), s3) \<Rightarrow> (Inl (Errno e), free_syncpoint_resource True s3)
                  | (Inl Hang, s3) \<Rightarrow> (Inl Hang, s3)
                  | (Inl Crash, s3) \<Rightarrow> (Inl Crash, s3)
                  | (Inr _, s3) \<Rightarrow> (Inr 0, s3))) s)"

definition super_block_cancel_syncpoint :: "(sb_state, nat) sm" where
  "super_block_cancel_syncpoint = with_exclusive (\<lambda>s.
     if \<not> sync_point_is_set s then (Inr 1, s) else (Inr 0, free_syncpoint_resource True s))"

end
