(* ===== verification/Super_Block_Queue.thy ===== *)
theory Super_Block_Queue
  imports Sync_Point
begin

text \<open>
  The queue primitives of \<^verbatim>\<open>src/HCFS/super_block.c\<close>: \<^verbatim>\<open>ll_enqueue\<close>, \<^verbatim>\<open>ll_dequeue\<close> and
  \<^verbatim>\<open>ll_rebuild_dirty\<close> on the dirty and delete queues (threaded through \<open>util_ll_next\<close> and
  \<open>util_ll_prev\<close>), \<^verbatim>\<open>pin_ll_enqueue\<close> and \<^verbatim>\<open>pin_ll_dequeue\<close> on the pinning queue.

  The primitives work on the caller's copy of the entry and leave writing it back to the caller, so
  they return the changed copy together with the outcome, also on failure.
\<close>

type_synonym 'a entry_op = "SUPER_BLOCK_ENTRY \<Rightarrow> sb_state \<Rightarrow> (failure + 'a) \<times> SUPER_BLOCK_ENTRY \<times> sb_state"

text \<open>Run \<open>m\<close>; when it fails, return with the entry as it is now.\<close>

definition ent_bind ::
  "SUPER_BLOCK_ENTRY \<Rightarrow> (sb_state, 'a) sm \<Rightarrow>
     ('a \<Rightarrow> sb_state \<Rightarrow> (failure + 'b) \<times> SUPER_BLOCK_ENTRY \<times> sb_state) \<Rightarrow>
     sb_state \<Rightarrow> (failure + 'b) \<times> SUPER_BLOCK_ENTRY \<times> sb_state" where
  "ent_bind ent m k s = (case m s of (Inl e, s') \<Rightarrow> (Inl e, ent, s') | (Inr x, s') \<Rightarrow> k x s')"

subsection \<open>Repairing the dirty queue\<close>

text \<open>
  The forward loop of \<^verbatim>\<open>ll_rebuild_dirty\<close>.  It follows the forward links, which it does not change,
  so a walk of more steps than the file has entries has come back to an entry it has seen and
  goes on for ever: the fuel is one step per entry, and running out of it is \<open>Hang\<close>.
\<close>

fun rebuild_forward :: "nat \<Rightarrow> SUPER_BLOCK_ENTRY \<Rightarrow> (sb_state, unit) sm" where
  "rebuild_forward 0 entry1 = failE Hang"
| "rebuild_forward (Suc fuel) entry1 =
     (if util_ll_next entry1 = 0 then returnE ()
      else bindE (read_super_block_entry (util_ll_next entry1)) (\<lambda>entry2.
        if util_ll_prev entry2 \<noteq> this_index entry1 then
          bindE (write_super_block_entry (this_index entry2)
                   (entry2\<lparr>util_ll_prev := this_index entry1\<rparr>))
            (\<lambda>_. rebuild_forward fuel (entry2\<lparr>util_ll_prev := this_index entry1\<rparr>))
        else rebuild_forward fuel entry2))"

definition read_or_zero :: "ino_t \<Rightarrow> (sb_state, SUPER_BLOCK_ENTRY) sm" where
  "read_or_zero i = (if i \<noteq> 0 then read_super_block_entry i else returnE zero_entry)"

text \<open>The backward step: finish an interrupted enqueue, or repair the link into the last entry.\<close>

definition rebuild_backward :: "ino_t \<Rightarrow> (sb_state, unit) sm" where
  "rebuild_backward last_dirty =
     bindE (read_or_zero last_dirty) (\<lambda>entry1.
       if util_ll_next entry1 \<noteq> 0 then
         bindE (read_super_block_entry (util_ll_next entry1)) (\<lambda>t.
         let tempentry = t\<lparr>status := IS_DIRTY, util_ll_next := 0, util_ll_prev := this_index entry1\<rparr> in
         bindE (write_super_block_entry (this_index tempentry) tempentry) (\<lambda>_.
         bindE (modifyE (\<lambda>s. wake_sync (upd_head (\<lambda>h. h\<lparr>last_dirty_inode := this_index tempentry,
                  num_dirty := num_dirty h + 1\<rparr>) s))) (\<lambda>_.
         write_super_block_head)))
       else if util_ll_prev entry1 \<noteq> 0 then
         bindE (read_super_block_entry (util_ll_prev entry1)) (\<lambda>entry2.
         if util_ll_next entry2 \<noteq> this_index entry1 then
           write_super_block_entry (this_index entry2) (entry2\<lparr>util_ll_next := this_index entry1\<rparr>)
         else returnE ())
       else returnE ())"

definition ll_rebuild_dirty :: "ino_t \<Rightarrow> (sb_state, unit) sm" where
  "ll_rebuild_dirty missing_inode s =
     (let first_dirty = first_dirty_inode (sb_head s);
          last_dirty = last_dirty_inode (sb_head s)
      in bindE (read_or_zero first_dirty) (\<lambda>entry1.
           let is_missing = (missing_inode \<noteq> 0 \<and> first_dirty \<noteq> missing_inode \<and>
                             last_dirty \<noteq> missing_inode) in
           if first_dirty = 0 \<and> last_dirty = 0 \<and> is_missing then
             bindE (modifyE (upd_head (\<lambda>h. h\<lparr>first_dirty_inode := missing_inode,
                      last_dirty_inode := missing_inode\<rparr>))) (\<lambda>_.
             bindE (read_super_block_entry missing_inode) (\<lambda>e.
             bindE (write_super_block_entry missing_inode
                      (e\<lparr>util_ll_prev := 0, util_ll_next := 0\<rparr>)) (\<lambda>_.
             bindE (modifyE (\<lambda>s. wake_sync (upd_head (\<lambda>h. h\<lparr>num_dirty := 1\<rparr>) s))) (\<lambda>_.
             write_super_block_head))))
           else
             bindE (if util_ll_prev entry1 \<noteq> 0
                    then write_super_block_entry (this_index entry1) (entry1\<lparr>util_ll_prev := 0\<rparr>)
                    else returnE ()) (\<lambda>_.
             bindE (\<lambda>s'. rebuild_forward (Suc (length (sb_entries s'))) (entry1\<lparr>util_ll_prev := 0\<rparr>) s') (\<lambda>_.
             rebuild_backward last_dirty))) s)"

subsection \<open>Leaving a queue\<close>

text \<open>
  The consistency check of \<^verbatim>\<open>ll_dequeue\<close> for a dirty inode: are the neighbours linked back to it?
  It returns the verdict and the neighbours it has read.
\<close>

definition ll_dequeue_check ::
  "ino_t \<Rightarrow> SUPER_BLOCK_ENTRY \<Rightarrow> (sb_state, bool \<times> SUPER_BLOCK_ENTRY \<times> SUPER_BLOCK_ENTRY) sm" where
  "ll_dequeue_check thisinode this_entry =
     bindE (\<lambda>s. if util_ll_next this_entry = 0
               then (Inr (last_dirty_inode (sb_head s) \<noteq> thisinode, zero_entry), s)
               else bindE (read_super_block_entry (util_ll_next this_entry))
                      (\<lambda>nx. returnE (util_ll_prev nx \<noteq> thisinode, nx)) s) (\<lambda>(bad1, nx).
     bindE (\<lambda>s. if util_ll_prev this_entry = 0
               then (Inr (first_dirty_inode (sb_head s) \<noteq> thisinode, zero_entry), s)
               else bindE (read_super_block_entry (util_ll_prev this_entry))
                      (\<lambda>pv. returnE (util_ll_next pv \<noteq> thisinode, pv)) s) (\<lambda>(bad2, pv).
     returnE (bad1 \<or> bad2, nx, pv)))"

text \<open>
  Unlinking: the successor (or the header) is pointed at the predecessor and the other way round.
  \<open>reread\<close> says whether the copies \<open>nx\<close> and \<open>pv\<close> must be read again.
\<close>

definition ll_unlink ::
  "sb_status \<Rightarrow> bool \<Rightarrow> SUPER_BLOCK_ENTRY \<Rightarrow> SUPER_BLOCK_ENTRY \<Rightarrow> SUPER_BLOCK_ENTRY \<Rightarrow> (sb_state, unit) sm" where
  "ll_unlink old_which_ll reread this_entry nx pv =
     bindE (if util_ll_next this_entry = 0
            then modifyE (upd_head (\<lambda>h. case old_which_ll of
                   IS_DIRTY \<Rightarrow> h\<lparr>last_dirty_inode := util_ll_prev this_entry\<rparr>
                 | TO_BE_DELETED \<Rightarrow> h\<lparr>last_to_delete_inode := util_ll_prev this_entry\<rparr>
                 | _ \<Rightarrow> h))
            else bindE (if reread then read_super_block_entry (util_ll_next this_entry) else returnE nx)
                   (\<lambda>e. write_super_block_entry (util_ll_next this_entry)
                          (e\<lparr>util_ll_prev := util_ll_prev this_entry\<rparr>))) (\<lambda>_.
     if util_ll_prev this_entry = 0
     then modifyE (upd_head (\<lambda>h. case old_which_ll of
            IS_DIRTY \<Rightarrow> h\<lparr>first_dirty_inode := util_ll_next this_entry\<rparr>
          | TO_BE_DELETED \<Rightarrow> h\<lparr>first_to_delete_inode := util_ll_next this_entry\<rparr>
          | _ \<Rightarrow> h))
     else bindE (if reread then read_super_block_entry (util_ll_prev this_entry) else returnE pv)
            (\<lambda>e. write_super_block_entry (util_ll_prev this_entry)
                   (e\<lparr>util_ll_next := util_ll_next this_entry\<rparr>)))"

definition detached :: "SUPER_BLOCK_ENTRY \<Rightarrow> SUPER_BLOCK_ENTRY" where
  "detached e = e\<lparr>status := NO_LL, util_ll_next := 0, util_ll_prev := 0\<rparr>"

definition ll_count_down :: "sb_status \<Rightarrow> SUPER_BLOCK_ENTRY \<Rightarrow> sb_state \<Rightarrow> sb_state" where
  "ll_count_down old_which_ll e s =
     (case old_which_ll of
        IS_DIRTY \<Rightarrow> sb_change_system_meta (- dirty_meta_size e)
                     (upd_head (\<lambda>h. h\<lparr>num_dirty := num_dirty h - 1\<rparr>) s)
      | TO_BE_DELETED \<Rightarrow> upd_head (\<lambda>h. h\<lparr>num_to_be_deleted := num_to_be_deleted h - 1\<rparr>) s
      | _ \<Rightarrow> s)"

definition ll_dequeue :: "ino_t \<Rightarrow> unit entry_op" where
  "ll_dequeue thisinode this_entry s =
     (let old_which_ll = status this_entry in
      if old_which_ll = NO_LL \<or> old_which_ll = TO_BE_RECLAIMED \<or> old_which_ll = RECLAIMED
      then (Inr (), this_entry, s)
      else if old_which_ll = IS_DIRTY \<and> is_sbentry_being_recover_later thisinode s
      then (Inr (), detached (this_entry\<lparr>dirty_meta_size := 0\<rparr>), s)
      else
        ent_bind this_entry
          (if old_which_ll = IS_DIRTY then ll_dequeue_check thisinode this_entry
           else returnE (False, zero_entry, zero_entry)) (\<lambda>(need_rebuild, nx, pv).
        ent_bind this_entry
          (if need_rebuild
           then bindE (ll_rebuild_dirty thisinode) (\<lambda>_. read_super_block_entry thisinode)
           else returnE this_entry) (\<lambda>ent.
        ent_bind ent
          (\<lambda>s'. if sync_point_is_set s' then move_sync_point old_which_ll thisinode ent s'
                else (Inr (), s')) (\<lambda>_.
        ent_bind ent
          (ll_unlink old_which_ll (status ent \<noteq> IS_DIRTY \<or> need_rebuild) ent nx pv) (\<lambda>_ s'.
        (Inr (), detached (if old_which_ll = IS_DIRTY then ent\<lparr>dirty_meta_size := 0\<rparr> else ent),
         ll_count_down old_which_ll ent s'))))) s)"

subsection \<open>Joining a queue\<close>

text \<open>Is the tail of the dirty queue damaged?\<close>

definition tail_check :: "(sb_state, bool) sm" where
  "tail_check s =
     (let last_dirty = last_dirty_inode (sb_head s) in
      bindE (read_super_block_entry last_dirty) (\<lambda>t.
        if util_ll_next t \<noteq> 0 then returnE True
        else if util_ll_prev t \<noteq> 0 then
          bindE (read_super_block_entry (util_ll_prev t)) (\<lambda>t2.
            returnE (util_ll_next t2 \<noteq> last_dirty))
        else returnE False) s)"

text \<open>Point the entry of inode \<open>p\<close>, the old last element, at its new successor \<open>i\<close>.\<close>

definition link_after :: "ino_t \<Rightarrow> ino_t \<Rightarrow> (sb_state, unit) sm" where
  "link_after p i = bindE (pread_entry p) (\<lambda>t. write_super_block_entry p (t\<lparr>util_ll_next := i\<rparr>))"

text \<open>Adding the size of the meta file to the dirty statistics, \<^verbatim>\<open>from X to DIRTY\<close>.\<close>

definition finish_dirty :: "ino_t \<Rightarrow> unit entry_op" where
  "finish_dirty thisinode e s =
     (let now_meta_size = get_meta_size thisinode s in
      if now_meta_size \<noteq> 0
      then (Inr (), e\<lparr>dirty_meta_size := now_meta_size, status := IS_DIRTY\<rparr>,
            sb_change_system_meta now_meta_size s)
      else (Inr (), e\<lparr>status := IS_DIRTY\<rparr>, s))"

definition ll_enqueue_dirty :: "ino_t \<Rightarrow> unit entry_op" where
  "ll_enqueue_dirty thisinode this_entry s =
     (if is_sbentry_being_recover_later thisinode s then
        (Inr (), this_entry\<lparr>dirty_meta_size := get_meta_size thisinode s, status := IS_DIRTY\<rparr>, s)
      else if first_dirty_inode (sb_head s) = 0 then
        finish_dirty thisinode (this_entry\<lparr>util_ll_next := 0, util_ll_prev := 0\<rparr>)
          (wake_sync (upd_head (\<lambda>h. h\<lparr>first_dirty_inode := thisinode, last_dirty_inode := thisinode,
             num_dirty := num_dirty h + 1\<rparr>) s))
      else
        ent_bind this_entry tail_check (\<lambda>need_rebuild.
        ent_bind this_entry
          (if need_rebuild
           then bindE (ll_rebuild_dirty 0) (\<lambda>_. read_super_block_entry (this_index this_entry))
           else returnE this_entry) (\<lambda>ent.
        ent_bind ent
          (\<lambda>s'. if need_rebuild
                then bindE (read_super_block_entry (last_dirty_inode (sb_head s'))) (\<lambda>_. returnE ()) s'
                else (Inr (), s')) (\<lambda>_ s'.
        let last_dirty = last_dirty_inode (sb_head s');
            ent2 = ent\<lparr>util_ll_prev := last_dirty, util_ll_next := 0\<rparr>;
            s2 = wake_sync (upd_head (\<lambda>h. h\<lparr>last_dirty_inode := thisinode,
                   num_dirty := num_dirty h + 1\<rparr>) s')
        in ent_bind ent2 (link_after last_dirty thisinode) (\<lambda>_. finish_dirty thisinode ent2) s2))) s)"

definition ll_enqueue_delete :: "ino_t \<Rightarrow> unit entry_op" where
  "ll_enqueue_delete thisinode this_entry s =
     (if first_to_delete_inode (sb_head s) = 0 then
        (Inr (), this_entry\<lparr>util_ll_next := 0, util_ll_prev := 0, status := TO_BE_DELETED\<rparr>,
         wake_dsync (upd_head (\<lambda>h. h\<lparr>first_to_delete_inode := thisinode,
           last_to_delete_inode := thisinode, num_to_be_deleted := num_to_be_deleted h + 1\<rparr>) s))
      else
        (let last_del = last_to_delete_inode (sb_head s);
             ent2 = this_entry\<lparr>util_ll_prev := last_del, util_ll_next := 0\<rparr>;
             s2 = wake_dsync (upd_head (\<lambda>h. h\<lparr>last_to_delete_inode := thisinode,
                    num_to_be_deleted := num_to_be_deleted h + 1\<rparr>) s)
         in ent_bind ent2 (link_after last_del thisinode)
              (\<lambda>_ s'. (Inr (), ent2\<lparr>status := TO_BE_DELETED\<rparr>, s')) s2))"

definition ll_enqueue :: "ino_t \<Rightarrow> sb_status \<Rightarrow> unit entry_op" where
  "ll_enqueue thisinode which_ll this_entry s =
     (if status this_entry = which_ll then
        (if which_ll = IS_DIRTY \<and> \<not> is_sbentry_being_recover_later thisinode s then
           (let now_meta_size = get_meta_size thisinode s in
            if now_meta_size = 0 then (Inr (), this_entry, s)
            else (Inr (), this_entry\<lparr>dirty_meta_size := now_meta_size\<rparr>,
                  sb_change_system_meta (now_meta_size - dirty_meta_size this_entry) s))
         else (Inr (), this_entry, s))
      else
        (case (if status this_entry \<noteq> NO_LL then ll_dequeue thisinode this_entry s
               else (Inr (), this_entry, s)) of
           (Inl e, ent, s1) \<Rightarrow> (Inl e, ent, s1)
         | (Inr _, ent, s1) \<Rightarrow>
             (case which_ll of
                NO_LL \<Rightarrow> (Inr (), ent, s1)
              | TO_BE_RECLAIMED \<Rightarrow> (Inr (), ent, s1)
              | RECLAIMED \<Rightarrow> (Inr (), ent, s1)
              | IS_DIRTY \<Rightarrow> ll_enqueue_dirty thisinode ent s1
              | TO_BE_DELETED \<Rightarrow> ll_enqueue_delete thisinode ent s1)))"

subsection \<open>The pinning queue\<close>

text \<open>
  A positive result is the pin status of an entry that is not in the expected state; 0 is success.
\<close>

definition pin_ll_enqueue :: "ino_t \<Rightarrow> nat entry_op" where
  "pin_ll_enqueue this_inode this_entry s =
     (if pin_status this_entry \<noteq> ST_UNPIN then (Inr (pin_code (pin_status this_entry)), this_entry, s)
      else
        (let last_pin = last_pin_inode (sb_head s);
             ent = this_entry\<lparr>pin_ll_next := 0, pin_ll_prev := last_pin, pin_status := ST_PINNING\<rparr>
         in ent_bind ent (write_super_block_entry this_inode ent) (\<lambda>_.
            ent_bind ent
              (if last_pin = 0
               then modifyE (upd_head (\<lambda>h. h\<lparr>first_pin_inode := this_inode, last_pin_inode := this_inode\<rparr>))
               else bindE (read_super_block_entry last_pin) (\<lambda>le.
                    bindE (write_super_block_entry last_pin (le\<lparr>pin_ll_next := this_inode\<rparr>)) (\<lambda>_.
                    modifyE (upd_head (\<lambda>h. h\<lparr>last_pin_inode := this_inode\<rparr>))))) (\<lambda>_.
            ent_bind ent
              (bindE (modifyE (\<lambda>s. wake_pin (upd_head (\<lambda>h. h\<lparr>num_pinning_inodes :=
                        num_pinning_inodes h + 1\<rparr>) s))) (\<lambda>_. write_super_block_head))
              (\<lambda>_ s'. (Inr 0, ent, s')))) s))"

definition pin_ll_dequeue :: "ino_t \<Rightarrow> nat entry_op" where
  "pin_ll_dequeue this_inode this_entry s =
     (if pin_status this_entry \<noteq> ST_PINNING then (Inr (pin_code (pin_status this_entry)), this_entry, s)
      else
        (let prev_inode = pin_ll_prev this_entry; next_inode = pin_ll_next this_entry;
             ent = this_entry\<lparr>pin_ll_next := 0, pin_ll_prev := 0\<rparr>
         in if next_inode = 0 \<and> prev_inode = 0 \<and> first_pin_inode (sb_head s) \<noteq> this_inode
            then (Inl (Errno EIO), this_entry, s)
            else
              ent_bind this_entry
                (if prev_inode \<noteq> 0
                 then bindE (read_super_block_entry prev_inode) (\<lambda>e.
                      write_super_block_entry prev_inode (e\<lparr>pin_ll_next := next_inode\<rparr>))
                 else modifyE (upd_head (\<lambda>h. h\<lparr>first_pin_inode := next_inode\<rparr>))) (\<lambda>_.
              ent_bind this_entry
                (if next_inode \<noteq> 0
                 then bindE (read_super_block_entry next_inode) (\<lambda>e.
                      write_super_block_entry next_inode (e\<lparr>pin_ll_prev := prev_inode\<rparr>))
                 else modifyE (upd_head (\<lambda>h. h\<lparr>last_pin_inode := prev_inode\<rparr>))) (\<lambda>_.
              ent_bind ent (write_super_block_entry this_inode ent) (\<lambda>_.
              ent_bind ent
                (bindE (modifyE (upd_head (\<lambda>h. h\<lparr>num_pinning_inodes := num_pinning_inodes h - 1\<rparr>)))
                   (\<lambda>_. write_super_block_head))
                (\<lambda>_ s'. (Inr 0, ent, s'))))) s))"

end
