(* ===== verification/Super_Block_Ops.thy ===== *)
theory Super_Block_Ops
  imports Super_Block_Queue
begin

text \<open>
  The calls of \<^verbatim>\<open>src/HCFS/super_block.c\<close> the rest of the file system uses, each with its whole body.
  A call that fails half-way returns at once and keeps what it has done, as in the code;
  \<open>with_exclusive\<close> stands for the calls of the exclusive lock around the body, where every exit
  of the code releases it (\<^verbatim>\<open>super_block_new_inode\<close> has an exit that does not).

  \<open>restore_meta\<close> is \<^verbatim>\<open>restore_meta_super_block_entry\<close>, which fetches a meta file from the cloud while
  a backup is being restored.
\<close>

subsection \<open>Entry operations inside handlers\<close>

definition entE :: "'a entry_op \<Rightarrow> SUPER_BLOCK_ENTRY \<Rightarrow> (sb_state, SUPER_BLOCK_ENTRY) sm" where
  "entE opr e s = (case opr e s of (Inl f, e', s') \<Rightarrow> (Inl f, s') | (Inr _, e', s') \<Rightarrow> (Inr e', s'))"

text \<open>The same where the code does not look at the result.\<close>

definition entI :: "'a entry_op \<Rightarrow> SUPER_BLOCK_ENTRY \<Rightarrow> (sb_state, SUPER_BLOCK_ENTRY) sm" where
  "entI opr e s = (case opr e s of
      (Inl (Errno _), e', s') \<Rightarrow> (Inr e', s')
    | (Inl Hang, e', s') \<Rightarrow> (Inl Hang, s')
    | (Inl Crash, e', s') \<Rightarrow> (Inl Crash, s')
    | (Inr _, e', s') \<Rightarrow> (Inr e', s'))"

abbreviation (input) RESTORING_STAGE2 :: nat where "RESTORING_STAGE2 \<equiv> 2"
abbreviation (input) RECLAIM_TRIGGER :: int where "RECLAIM_TRIGGER \<equiv> 10000"
abbreviation (input) NUM_SCAN_RECLAIMED :: nat where "NUM_SCAN_RECLAIMED \<equiv> 512"

definition restore_first :: "(ino_t \<Rightarrow> (sb_state, unit) sm) \<Rightarrow> ino_t \<Rightarrow> (sb_state, unit) sm" where
  "restore_first restore_meta i s =
     (if system_restoring (hcfs_system s) = RESTORING_STAGE2 then restore_meta i s else (Inr (), s))"

definition S_ISREG :: "nat \<Rightarrow> bool" where
  "S_ISREG m = ((m div 4096) mod 16 = 8)"

definition P_IS_PIN :: "nat \<Rightarrow> bool" where
  "P_IS_PIN p = (p = 1 \<or> p = 2)"

subsection \<open>Reading, writing, marking dirty\<close>

definition super_block_read :: "ino_t \<Rightarrow> (sb_state, SUPER_BLOCK_ENTRY) sm" where
  "super_block_read this_inode = read_super_block_entry this_inode"

text \<open>Dequeue, enqueue as dirty, write the header: three handlers share this sequence.\<close>

definition requeue_dirty :: "ino_t \<Rightarrow> SUPER_BLOCK_ENTRY \<Rightarrow> (sb_state, SUPER_BLOCK_ENTRY) sm" where
  "requeue_dirty i e =
     bindE (entE (ll_dequeue i) e) (\<lambda>e1.
     bindE (entE (ll_enqueue i IS_DIRTY) e1) (\<lambda>e2.
     bindE write_super_block_head (\<lambda>_. returnE e2)))"

definition touch_transit :: "SUPER_BLOCK_ENTRY \<Rightarrow> SUPER_BLOCK_ENTRY" where
  "touch_transit e = (if in_transit e then e\<lparr>mod_after_in_transit := True\<rparr> else e)"

text \<open>The result of \<^verbatim>\<open>super_block_write\<close> is the caller's structure, which the call updates.\<close>

definition super_block_write ::
  "(ino_t \<Rightarrow> (sb_state, unit) sm) \<Rightarrow> ino_t \<Rightarrow> SUPER_BLOCK_ENTRY \<Rightarrow> (sb_state, SUPER_BLOCK_ENTRY) sm" where
  "super_block_write restore_meta this_inode inode_ptr =
     bindE (restore_first restore_meta this_inode) (\<lambda>_. with_exclusive (
     bindE (if status inode_ptr \<noteq> IS_DIRTY then requeue_dirty this_inode inode_ptr
            else returnE inode_ptr) (\<lambda>e.
     bindE (write_super_block_entry this_inode (touch_transit e)) (\<lambda>_.
     returnE (touch_transit e)))))"

definition super_block_update_stat :: "ino_t \<Rightarrow> HCFS_STAT \<Rightarrow> bool \<Rightarrow> (sb_state, unit) sm" where
  "super_block_update_stat this_inode newstat no_sync = with_exclusive (
     bindE (read_super_block_entry this_inode) (\<lambda>tempentry.
     if st_ino (inode_stat tempentry) = 0 then returnE ()
     else if \<not> no_sync then
       bindE (if status tempentry \<noteq> IS_DIRTY then requeue_dirty this_inode tempentry
              else returnE tempentry) (\<lambda>e.
       write_super_block_entry this_inode ((touch_transit e)\<lparr>inode_stat := newstat\<rparr>))
     else write_super_block_entry this_inode (tempentry\<lparr>inode_stat := newstat\<rparr>)))"

text \<open>The branches of \<^verbatim>\<open>super_block_mark_dirty\<close> on the status: the entry and whether to write it.\<close>

definition mark_dirty_status :: "ino_t \<Rightarrow> SUPER_BLOCK_ENTRY \<Rightarrow> (sb_state, bool \<times> SUPER_BLOCK_ENTRY) sm" where
  "mark_dirty_status i e =
     (if status e = NO_LL then
        bindE (entE (ll_enqueue i IS_DIRTY) e) (\<lambda>e1.
        bindE write_super_block_head (\<lambda>_. returnE (True, e1)))
      else if status e = IS_DIRTY then
        (\<lambda>s. let now_meta_size = get_meta_size i s; delta = now_meta_size - dirty_meta_size e in
          if now_meta_size > 0 \<and> delta \<noteq> 0 then
            (Inr (True, e\<lparr>dirty_meta_size := now_meta_size\<rparr>),
             snd (change_system_meta_ignore_dirty i 0 0 0 0 delta 0 True s))
          else (Inr (False, e), s))
      else returnE (False, e))"

definition super_block_mark_dirty :: "ino_t \<Rightarrow> (sb_state, unit) sm" where
  "super_block_mark_dirty this_inode = with_exclusive (
     bindE (read_super_block_entry this_inode) (\<lambda>tempentry.
     if st_ino (inode_stat tempentry) = 0 then returnE ()
     else
       bindE (mark_dirty_status this_inode tempentry) (\<lambda>(need_write, e).
       if need_write \<or> in_transit e
       then write_super_block_entry this_inode (touch_transit e)
       else returnE ())))"

definition get_current_sectime :: "sb_state \<Rightarrow> int" where
  "get_current_sectime s = sb_clock s"

text \<open>The end of a complete upload, in \<^verbatim>\<open>super_block_update_transit\<close>.\<close>

definition transit_done :: "ino_t \<Rightarrow> SUPER_BLOCK_ENTRY \<Rightarrow> (sb_state, SUPER_BLOCK_ENTRY) sm" where
  "transit_done i tempentry s =
     (let e = tempentry\<lparr>lastsync_time := get_current_sectime s\<rparr> in
      if mod_after_in_transit e then
        (if sync_point_is_set s then requeue_dirty i e s else (Inr e, s))
      else
        bindE (entE (ll_dequeue i) e) (\<lambda>e1.
        bindE write_super_block_head (\<lambda>_. returnE e1)) s)"

definition super_block_update_transit :: "ino_t \<Rightarrow> bool \<Rightarrow> bool \<Rightarrow> (sb_state, unit) sm" where
  "super_block_update_transit this_inode is_start_transit transit_incomplete = with_exclusive (
     bindE (read_super_block_entry this_inode) (\<lambda>tempentry.
     bindE (if \<not> is_start_transit \<and> status tempentry = IS_DIRTY \<and> \<not> transit_incomplete
            then transit_done this_inode tempentry else returnE tempentry) (\<lambda>e.
     write_super_block_entry this_inode
       (e\<lparr>in_transit := is_start_transit, mod_after_in_transit := False\<rparr>))))"

subsection \<open>Deleting\<close>

text \<open>The queue part of \<^verbatim>\<open>super_block_to_delete\<close>.\<close>

definition to_delete_queue :: "ino_t \<Rightarrow> bool \<Rightarrow> SUPER_BLOCK_ENTRY \<Rightarrow> (sb_state, SUPER_BLOCK_ENTRY) sm" where
  "to_delete_queue i enqueue_now e =
     (if status e \<noteq> TO_BE_DELETED then
        bindE (entE (ll_dequeue i) e) (\<lambda>e1.
        if enqueue_now then
          bindE (entE (ll_enqueue i TO_BE_DELETED) e1) (\<lambda>e2. returnE (e2\<lparr>status := TO_BE_DELETED\<rparr>))
        else returnE (e1\<lparr>status := NO_LL\<rparr>))
      else returnE e)"

definition unpin_if_pinning :: "ino_t \<Rightarrow> SUPER_BLOCK_ENTRY \<Rightarrow> (sb_state, SUPER_BLOCK_ENTRY) sm" where
  "unpin_if_pinning i e =
     (if pin_status e = ST_PINNING then entI (pin_ll_dequeue i) e else returnE e)"

definition removed_entry :: "SUPER_BLOCK_ENTRY \<Rightarrow> SUPER_BLOCK_ENTRY" where
  "removed_entry e = e\<lparr>in_transit := False,
     inode_stat := init_hcfs_stat\<lparr>st_mode := st_mode (inode_stat e)\<rparr>, pin_status := ST_DEL\<rparr>"

definition super_block_to_delete :: "ino_t \<Rightarrow> bool \<Rightarrow> (sb_state, unit) sm" where
  "super_block_to_delete this_inode enqueue_now = with_exclusive (
     bindE (read_super_block_entry this_inode) (\<lambda>tempentry.
     bindE (unpin_if_pinning this_inode tempentry) (\<lambda>e1.
     bindE (to_delete_queue this_inode enqueue_now e1) (\<lambda>e2.
     bindE (modifyE (upd_head (\<lambda>h. h\<lparr>num_active_inodes := num_active_inodes h - 1\<rparr>))) (\<lambda>_.
     bindE write_super_block_head (\<lambda>_.
     write_super_block_entry this_inode (removed_entry e2)))))))"

definition super_block_enqueue_delete :: "ino_t \<Rightarrow> (sb_state, unit) sm" where
  "super_block_enqueue_delete this_inode = with_exclusive (
     bindE (read_super_block_entry this_inode) (\<lambda>tempentry.
     if status tempentry \<noteq> NO_LL then failE (Errno EINVAL)
     else
       bindE (entE (ll_enqueue this_inode TO_BE_DELETED) tempentry) (\<lambda>e.
       bindE (write_super_block_entry this_inode e) (\<lambda>_.
       write_super_block_head))))"

text \<open>
  The first part of \<^verbatim>\<open>super_block_delete\<close>.  When the entry cannot be read, the call goes on with the
  second part.
\<close>

definition delete_entry_part :: "ino_t \<Rightarrow> (sb_state, unit) sm" where
  "delete_entry_part i s =
     (case read_super_block_entry i s of
        (Inl e, s1) \<Rightarrow> (Inr (), s1)
      | (Inr tempentry, s1) \<Rightarrow>
          bindE (unpin_if_pinning i tempentry) (\<lambda>e1.
          bindE (if status e1 \<noteq> TO_BE_RECLAIMED then
                   bindE (entE (ll_dequeue i) e1) (\<lambda>e2 s2.
                     (Inr (if now_reclaim_fullscan s2 then e2 else e2\<lparr>status := TO_BE_RECLAIMED\<rparr>), s2))
                 else returnE e1) (\<lambda>e3.
          write_super_block_entry i (e3\<lparr>in_transit := False, pin_status := ST_DEL\<rparr>))) s1)"

text \<open>\<^verbatim>\<open>FSEEK\<close> followed by \<^verbatim>\<open>FWRITE\<close>, or the unfolded calls, of one inode number at the end of a file.\<close>

definition fappend :: "(sb_state \<Rightarrow> sb_state) \<Rightarrow> (sb_state, unit) sm" where
  "fappend wr =
     bindE syscall (\<lambda>_ s1.
       case syscall s1 of
         (Inl _, s2) \<Rightarrow> (Inl (Errno EIO), s2)
       | (Inr ok, s2) \<Rightarrow> (Inr (), if ok then wr s2 else s2))"

definition super_block_delete :: "ino_t \<Rightarrow> (sb_state, unit) sm" where
  "super_block_delete this_inode = with_exclusive (
     bindE (delete_entry_part this_inode) (\<lambda>_ s.
     if now_reclaim_fullscan s then
       bindE (\<lambda>s. if temp_unclaimed_fptr s then (Inr (), s)
                else bindE syscall (\<lambda>_. modifyE (\<lambda>s. s\<lparr>temp_unclaimed_fptr := True,
                       temp_unclaimed := Some (case temp_unclaimed s of None \<Rightarrow> [] | Some xs \<Rightarrow> xs)\<rparr>)) s) (\<lambda>_.
       fappend (\<lambda>s. s\<lparr>temp_unclaimed := map_option (\<lambda>xs. xs @ [this_inode]) (temp_unclaimed s)\<rparr>)) s
     else
       bindE (fappend (\<lambda>s. s\<lparr>unclaimed_list := unclaimed_list s @ [this_inode]\<rparr>)) (\<lambda>_.
       bindE (modifyE (upd_head (\<lambda>h. h\<lparr>num_to_be_reclaimed := num_to_be_reclaimed h + 1\<rparr>))) (\<lambda>_.
       write_super_block_head)) s))"

subsection \<open>Reclaiming\<close>

definition compino :: "ino_t \<Rightarrow> ino_t \<Rightarrow> int" where
  "compino temp1 temp2 = (if temp1 > temp2 then 1 else if temp1 = temp2 then 0 else - 1)"

text \<open>
  The loop of \<^verbatim>\<open>super_block_reclaim\<close>, over the inode numbers from the largest to the smallest;
  \<open>last_reclaimed\<close> is the head of the list of reclaimed inodes so far.
\<close>

definition reclaim_head :: "ino_t \<Rightarrow> SUPER_BLOCK_HEAD \<Rightarrow> SUPER_BLOCK_HEAD" where
  "reclaim_head i h = h\<lparr>last_reclaimed_inode :=
       (if last_reclaimed_inode h = 0 then i else last_reclaimed_inode h),
     num_inode_reclaimed := num_inode_reclaimed h + 1, first_reclaimed_inode := i\<rparr>"

fun reclaim_loop :: "ino_t list \<Rightarrow> ino_t \<Rightarrow> (sb_state, unit) sm" where
  "reclaim_loop [] last_reclaimed = returnE ()"
| "reclaim_loop (now_ino # rest) last_reclaimed = (\<lambda>s.
     if now_ino = 0 \<or> now_ino > num_total_inodes (sb_head s) + 1 then reclaim_loop rest last_reclaimed s
     else
       bindE (read_super_block_entry now_ino) (\<lambda>tempentry.
       if status tempentry = TO_BE_RECLAIMED then
         bindE (modifyE (upd_head (reclaim_head now_ino))) (\<lambda>_.
         bindE (write_super_block_entry now_ino
                  (tempentry\<lparr>status := RECLAIMED, util_ll_next := last_reclaimed\<rparr>)) (\<lambda>_.
         reclaim_loop rest now_ino))
       else reclaim_loop rest last_reclaimed) s)"

text \<open>\<^verbatim>\<open>fread\<close> of the unclaimed list: an error is \<open>EIO\<close>, a short read gives what was read, here nothing.\<close>

definition read_unclaimed :: "(sb_state, ino_t list) sm" where
  "read_unclaimed s = (case syscall s of
      (Inl _, s1) \<Rightarrow> (Inl (Errno EIO), s1)
    | (Inr ok, s1) \<Rightarrow> (Inr (if ok then unclaimed_list s1 else []), s1))"

definition alloc_mem :: "(sb_state, unit) sm" where
  "alloc_mem s = (case syscall s of (Inl _, s1) \<Rightarrow> (Inl (Errno ENOMEM), s1) | (Inr _, s1) \<Rightarrow> (Inr (), s1))"

definition super_block_reclaim :: "(sb_state, unit) sm" where
  "super_block_reclaim s =
     (if num_to_be_reclaimed (sb_head s) < RECLAIM_TRIGGER then (Inr (), s)
      else with_exclusive (
        bindE syscall (\<lambda>_. bindE syscall (\<lambda>_. bindE alloc_mem (\<lambda>_. bindE syscall (\<lambda>_.
        bindE read_unclaimed (\<lambda>unclaimed.
        bindE (\<lambda>s. reclaim_loop (rev (sort unclaimed)) (first_reclaimed_inode (sb_head s)) s) (\<lambda>_.
        bindE (modifyE (upd_head (\<lambda>h. h\<lparr>num_to_be_reclaimed := 0\<rparr>))) (\<lambda>_.
        bindE write_super_block_head (\<lambda>_.
        bindE syscall (\<lambda>_. modifyE (\<lambda>s. s\<lparr>unclaimed_list := []\<rparr>))))))))))) s)"

subsection \<open>The full scan\<close>

text \<open>
  \<^verbatim>\<open>_fullscan_reclaim_bundle\<close> links a bundle of reclaimed inodes behind the reclaimed list.  The lock
  is released for an instant at its end; in this sequential model nothing happens in between.
\<close>

definition fullscan_reclaim_bundle :: "ino_t \<Rightarrow> ino_t \<Rightarrow> int \<Rightarrow> (sb_state, unit) sm" where
  "fullscan_reclaim_bundle first_reclaimed last_reclaimed num_reclaim s =
     (if first_reclaimed = 0 \<or> last_reclaimed = 0 then (Inr (), s)
      else
        (let sb_last_reclaim = last_reclaimed_inode (sb_head s) in
         bindE (modifyE (upd_head (\<lambda>h. if first_reclaimed_inode h = 0
                  then h\<lparr>first_reclaimed_inode := first_reclaimed\<rparr> else h))) (\<lambda>_.
         bindE (if sb_last_reclaim = 0 then returnE ()
                else bindE (read_super_block_entry sb_last_reclaim) (\<lambda>e.
                     write_super_block_entry sb_last_reclaim (e\<lparr>util_ll_next := first_reclaimed\<rparr>))) (\<lambda>_.
         bindE (modifyE (upd_head (\<lambda>h. h\<lparr>last_reclaimed_inode := last_reclaimed,
                  num_inode_reclaimed := num_inode_reclaimed h + num_reclaim\<rparr>))) (\<lambda>_.
         write_super_block_head))) s))"

text \<open>One inode of \<^verbatim>\<open>_handle_temp_unclaimed_file\<close>.\<close>

definition temp_unclaimed_one :: "ino_t \<Rightarrow> (sb_state, unit) sm" where
  "temp_unclaimed_one now_ino =
     bindE (read_super_block_entry now_ino) (\<lambda>tempentry.
     bindE (unpin_if_pinning now_ino tempentry) (\<lambda>e1.
     bindE (if status e1 \<noteq> NO_LL then
              bindE (entE (ll_dequeue now_ino) e1) (\<lambda>e2. returnE (e2\<lparr>status := TO_BE_RECLAIMED\<rparr>))
            else returnE e1) (\<lambda>e3.
     write_super_block_entry now_ino (e3\<lparr>in_transit := False, pin_status := ST_DEL\<rparr>))))"

fun temp_unclaimed_each :: "ino_t list \<Rightarrow> (sb_state, unit) sm" where
  "temp_unclaimed_each [] = returnE ()"
| "temp_unclaimed_each (i # is) = bindE (temp_unclaimed_one i) (\<lambda>_. temp_unclaimed_each is)"

text \<open>
  The chunks of 4096 inode numbers.  The unclaimed list is open for appending, so the offset given to
  \<^verbatim>\<open>pwrite\<close> does not matter; the position moves on by what was written, so that a chunk of which nothing
  was written is handled again.  Every round advances or uses up one scripted outcome, which bounds the
  fuel.
\<close>

fun temp_unclaimed_chunks :: "nat \<Rightarrow> nat \<Rightarrow> int \<Rightarrow> (sb_state, int) sm" where
  "temp_unclaimed_chunks 0 now_pos total_inode = failE Hang"
| "temp_unclaimed_chunks (Suc fuel) now_pos total_inode =
     bindE syscall (\<lambda>ok s.
       let chunk = (if ok then take 4096 (drop now_pos (case temp_unclaimed s of None \<Rightarrow> [] | Some xs \<Rightarrow> xs))
                    else []) in
       if chunk = [] then (Inr total_inode, s)
       else
         bindE (temp_unclaimed_each chunk) (\<lambda>_.
         bindE syscall (\<lambda>written.
         bindE (modifyE (\<lambda>s. if written then s\<lparr>unclaimed_list := unclaimed_list s @ chunk\<rparr> else s)) (\<lambda>_.
         temp_unclaimed_chunks fuel (if written then now_pos + length chunk else now_pos)
           (total_inode + int (length chunk))))) s)"

definition close_temp_unclaimed :: "sb_state \<Rightarrow> sb_state" where
  "close_temp_unclaimed s = s\<lparr>temp_unclaimed_fptr := False, temp_unclaimed := None\<rparr>"

definition handle_temp_unclaimed_file :: "(sb_state, unit) sm" where
  "handle_temp_unclaimed_file s =
     (if \<not> temp_unclaimed_fptr s \<and> temp_unclaimed s = None then (Inr (), s)
      else
        (case (if temp_unclaimed_fptr s then (Inr True, s) else syscall s) of
           (Inl e, s1) \<Rightarrow> (Inl e, s1\<lparr>temp_unclaimed := None\<rparr>)
         | (Inr _, s1) \<Rightarrow>
             (case bindE (\<lambda>s. temp_unclaimed_chunks
                        (Suc (length (sb_io s) + (case temp_unclaimed s of None \<Rightarrow> 0 | Some xs \<Rightarrow> length xs)))
                        0 0 s) (\<lambda>total_inode.
                    bindE (modifyE (upd_head (\<lambda>h. h\<lparr>num_to_be_reclaimed := total_inode\<rparr>))) (\<lambda>_.
                    write_super_block_head)) s1 of
                (r, s2) \<Rightarrow> (r, close_temp_unclaimed s2))))"

definition reclaimable :: "SUPER_BLOCK_ENTRY \<Rightarrow> bool" where
  "reclaimable e \<longleftrightarrow> status e = TO_BE_RECLAIMED \<or> status e = RECLAIMED \<or> this_index e = 0 \<or>
     (st_ino (inode_stat e) = 0 \<and> status e \<noteq> TO_BE_DELETED)"

text \<open>
  One entry of the scan.  The state of the scan is the first and last reclaimed inode of the bundle and
  its size; \<open>Inl\<close> is the \<^verbatim>\<open>break\<close> out of the loop, with the state as it is then.
\<close>

type_synonym scan_state = "ino_t \<times> ino_t \<times> int"

definition fullscan_relink :: "ino_t \<Rightarrow> ino_t \<Rightarrow> (sb_state, bool) sm" where
  "fullscan_relink old_last this_inode =
     (if old_last > 0 then
        bindE (read_super_block_entry old_last) (\<lambda>t.
        if this_index t \<noteq> old_last then returnE False
        else bindE (write_super_block_entry old_last (t\<lparr>util_ll_next := this_inode\<rparr>)) (\<lambda>_. returnE True))
      else returnE True)"

definition fullscan_step :: "ino_t \<Rightarrow> scan_state \<Rightarrow> sb_state \<Rightarrow> (failure + scan_state + scan_state) \<times> sb_state" where
  "fullscan_step this_inode sc s =
     (case sc of (first_rec, last_rec, num_rec) \<Rightarrow>
      case read_super_block_entry this_inode s of
        (Inl _, s1) \<Rightarrow> (Inr (Inl sc), s1)
      | (Inr tempentry, s1) \<Rightarrow>
          if \<not> reclaimable tempentry then (Inr (Inr sc), s1)
          else
            (case (if status tempentry = IS_DIRTY
                   then entI (ll_dequeue this_inode) (tempentry\<lparr>this_index := this_inode\<rparr>) s1
                   else (Inr (tempentry\<lparr>this_index := this_inode\<rparr>), s1)) of
               (Inl f, s2) \<Rightarrow> (Inl f, s2)
             | (Inr e, s2) \<Rightarrow>
                 (case write_super_block_entry this_inode (e\<lparr>status := RECLAIMED, util_ll_next := 0\<rparr>) s2 of
                    (Inl _, s3) \<Rightarrow> (Inr (Inl sc), s3)
                  | (Inr _, s3) \<Rightarrow>
                      (let new_first = (if first_rec = 0 then this_inode else first_rec) in
                       case fullscan_relink last_rec this_inode s3 of
                         (Inr True, s4) \<Rightarrow> (Inr (Inr (new_first, this_inode, num_rec + 1)), s4)
                       | (_, s4) \<Rightarrow> (Inr (Inl (new_first, this_inode, num_rec)), s4)))))"

fun fullscan_loop :: "nat list \<Rightarrow> scan_state \<Rightarrow> (sb_state, scan_state) sm" where
  "fullscan_loop [] sc = returnE sc"
| "fullscan_loop (count # rest) sc = (\<lambda>s.
     case fullscan_step (count + 1) sc s of
       (Inl f, s1) \<Rightarrow> (Inl f, s1)
     | (Inr (Inl sc1), s1) \<Rightarrow> (Inr sc1, s1)
     | (Inr (Inr (f1, l1, n1)), s1) \<Rightarrow>
         if count mod NUM_SCAN_RECLAIMED = 0
         then bindE (ignore_errno (fullscan_reclaim_bundle f1 l1 n1)) (\<lambda>_. fullscan_loop rest (0, 0, 0)) s1
         else fullscan_loop rest (f1, l1, n1) s1)"

definition super_block_reclaim_fullscan :: "(sb_state, unit) sm" where
  "super_block_reclaim_fullscan = with_exclusive (
     bindE (modifyE (\<lambda>s. (upd_head (\<lambda>h. h\<lparr>num_inode_reclaimed := 0, num_to_be_reclaimed := 0\<rparr>) s)
              \<lparr>now_reclaim_fullscan := True\<rparr>)) (\<lambda>_.
     bindE syscall (\<lambda>_.
     bindE (\<lambda>s. fullscan_loop [1..<num_total_inodes (sb_head s)] (0, 0, 0) s) (\<lambda>(f, l, n).
     bindE (if f > 0 then ignore_errno (fullscan_reclaim_bundle f l n) else returnE ()) (\<lambda>_.
     bindE (\<lambda>s. case syscall s of
                (Inr True, s1) \<Rightarrow> (Inr (), s1\<lparr>unclaimed_list := []\<rparr>)
              | (_, s1) \<Rightarrow> (Inr (), s1)) (\<lambda>_.
     bindE (ignore_errno handle_temp_unclaimed_file) (\<lambda>_.
     modifyE (\<lambda>s. s\<lparr>now_reclaim_fullscan := False\<rparr>))))))))"

subsection \<open>Allocating an inode\<close>

text \<open>
  The configuration the call reads, and \<open>sb_blocks\<close>, what \<^verbatim>\<open>stat\<close> says about the super block file.
\<close>

record sb_config =
  meta_space_limit :: int
  normal_upload_delay :: int
  first_upload_delay :: int

definition init_lastsync_time :: "sb_config \<Rightarrow> sb_state \<Rightarrow> int" where
  "init_lastsync_time c s =
     (let d = normal_upload_delay c - first_upload_delay c in
      if normal_upload_delay c > first_upload_delay c
      then (if sb_clock s > d then sb_clock s - d else 0) else sb_clock s)"

definition NO_META_SPACE :: "sb_config \<Rightarrow> sb_state \<Rightarrow> bool" where
  "NO_META_SPACE c s \<longleftrightarrow> system_meta_size (systemdata (hcfs_system s)) > meta_space_limit c"

text \<open>Choosing the number: the head of the reclaimed list, or a new one at the end of the file.\<close>

definition pop_reclaimed :: "(sb_state, ino_t \<times> nat \<times> bool) sm" where
  "pop_reclaimed s =
     (let this_inode = first_reclaimed_inode (sb_head s) in
      bindE (pread_entry this_inode) (\<lambda>tempentry.
      let new_first = util_ll_next tempentry in
      bindE (modifyE (upd_head (\<lambda>h. if new_first = 0
               then h\<lparr>num_inode_reclaimed := 0, first_reclaimed_inode := 0, last_reclaimed_inode := 0\<rparr>
               else h\<lparr>num_inode_reclaimed := num_inode_reclaimed h - 1, first_reclaimed_inode := new_first\<rparr>))) (\<lambda>_.
      returnE (this_inode, generation tempentry + 1, False))) s)"

definition choose_inode :: "sb_config \<Rightarrow> (sb_state, ino_t \<times> nat \<times> bool) sm" where
  "choose_inode c s =
     (if num_inode_reclaimed (sb_head s) > 0 then pop_reclaimed s
      else if NO_META_SPACE c s then (Inl (Errno ENOMEM), s)
      else
        (let s1 = upd_head (\<lambda>h. h\<lparr>num_total_inodes := num_total_inodes h + 1\<rparr>) s
         in (Inr (num_total_inodes (sb_head s1) + 1, 1, True), s1)))"

definition new_entry :: "sb_config \<Rightarrow> HCFS_STAT \<Rightarrow> nat \<Rightarrow> ino_t \<Rightarrow> nat \<Rightarrow> sb_state \<Rightarrow> SUPER_BLOCK_ENTRY" where
  "new_entry c in_stat local_pin i g s = zero_entry\<lparr>
     pin_status := (if P_IS_PIN local_pin then ST_PIN else ST_UNPIN), this_index := i,
     generation := g, lastsync_time := init_lastsync_time c s, inode_stat := in_stat\<lparr>st_ino := i\<rparr>\<rparr>"

definition sb_update_size :: "errno + int \<Rightarrow> (sb_state, unit) sm" where
  "sb_update_size sb_blocks s =
     (case update_sb_size sb_blocks (hcfs_system s) of (r, h) \<Rightarrow> (r, s\<lparr>hcfs_system := h\<rparr>))"

text \<open>
  \<^verbatim>\<open>super_block_new_inode\<close> returns the inode number, 0 when it fails, and the generation it stored
  for the caller.  When \<^verbatim>\<open>update_sb_size\<close> fails, the code returns without releasing the lock.
\<close>

definition super_block_new_inode ::
  "sb_config \<Rightarrow> errno + int \<Rightarrow> HCFS_STAT \<Rightarrow> nat \<Rightarrow> sb_state \<Rightarrow> (ino_t \<times> nat option) \<times> sb_state" where
  "super_block_new_inode c sb_blocks in_stat local_pin s =
     (case choose_inode c (super_block_exclusive_locking s) of
        (Inl _, s1) \<Rightarrow> ((0, None), super_block_exclusive_release s1)
      | (Inr (this_inode, this_generation, update_size), s1) \<Rightarrow>
          (let s2 = upd_head (\<lambda>h. h\<lparr>num_active_inodes := num_active_inodes h + 1\<rparr>) s1 in
           case bindE (write_super_block_entry this_inode
                         (new_entry c in_stat local_pin this_inode this_generation s2))
                  (\<lambda>_. write_super_block_head) s2 of
             (Inl _, s3) \<Rightarrow> ((0, Some this_generation), super_block_exclusive_release s3)
           | (Inr _, s3) \<Rightarrow>
               if update_size then
                 (case sb_update_size sb_blocks s3 of
                    (Inl _, s4) \<Rightarrow> ((0, Some this_generation), s4)
                  | (Inr _, s4) \<Rightarrow> ((this_inode, Some this_generation), super_block_exclusive_release s4))
               else ((this_inode, Some this_generation), super_block_exclusive_release s3)))"

subsection \<open>Pinning\<close>

definition super_block_finish_pinning :: "ino_t \<Rightarrow> (sb_state, unit) sm" where
  "super_block_finish_pinning this_inode = with_exclusive (
     bindE (read_super_block_entry this_inode) (\<lambda>this_entry.
     if pin_status this_entry = ST_PINNING then
       bindE (entE (pin_ll_dequeue this_inode) this_entry) (\<lambda>e.
       write_super_block_entry this_inode (e\<lparr>pin_status := ST_PIN\<rparr>))
     else returnE ()))"

definition super_block_mark_pin ::
  "(ino_t \<Rightarrow> (sb_state, unit) sm) \<Rightarrow> ino_t \<Rightarrow> nat \<Rightarrow> (sb_state, unit) sm" where
  "super_block_mark_pin restore_meta this_inode this_mode =
     bindE (restore_first restore_meta this_inode) (\<lambda>_. with_exclusive (
     bindE (read_super_block_entry this_inode) (\<lambda>this_entry.
     if pin_status this_entry = ST_UNPIN then
       bindE (if S_ISREG this_mode
              then bindE (entE (pin_ll_enqueue this_inode) this_entry)
                     (\<lambda>e. returnE (e\<lparr>pin_status := ST_PINNING\<rparr>))
              else returnE (this_entry\<lparr>pin_status := ST_PIN\<rparr>)) (\<lambda>e.
       write_super_block_entry this_inode e)
     else returnE ())))"

definition super_block_mark_unpin ::
  "(ino_t \<Rightarrow> (sb_state, unit) sm) \<Rightarrow> ino_t \<Rightarrow> nat \<Rightarrow> (sb_state, unit) sm" where
  "super_block_mark_unpin restore_meta this_inode this_mode =
     bindE (restore_first restore_meta this_inode) (\<lambda>_. with_exclusive (
     bindE (read_super_block_entry this_inode) (\<lambda>this_entry.
     case pin_status this_entry of
       ST_PINNING \<Rightarrow>
         bindE (entE (pin_ll_dequeue this_inode) this_entry) (\<lambda>e.
         write_super_block_entry this_inode (e\<lparr>pin_status := ST_UNPIN\<rparr>))
     | ST_PIN \<Rightarrow> write_super_block_entry this_inode (this_entry\<lparr>pin_status := ST_UNPIN\<rparr>)
     | ST_DEL \<Rightarrow> returnE ()
     | ST_UNPIN \<Rightarrow> returnE ())))"

subsection \<open>Opening and closing\<close>

definition zero_head :: SUPER_BLOCK_HEAD where
  "zero_head = \<lparr>num_inode_reclaimed = 0, first_reclaimed_inode = 0, last_reclaimed_inode = 0,
     first_dirty_inode = 0, last_dirty_inode = 0, first_to_delete_inode = 0, last_to_delete_inode = 0,
     first_pin_inode = 0, last_pin_inode = 0, num_pinning_inodes = 0, num_to_be_reclaimed = 0,
     num_to_be_deleted = 0, num_dirty = 0, num_block_cached = 0, num_total_inodes = 0,
     num_active_inodes = 0\<rparr>"

text \<open>
  \<^verbatim>\<open>super_block_init\<close> allocates and clears the control block, opens the file or creates it with an empty
  header, opens the unclaimed list and reads the header.  The first \<^verbatim>\<open>open\<close> failing means that the
  file is to be created.
\<close>

definition sb_memset :: "sb_state \<Rightarrow> sb_state" where
  "sb_memset s = s\<lparr>sb_head := zero_head, now_reclaim_fullscan := False, temp_unclaimed_fptr := False,
     sync_point_is_set := False, sync_point_info := None, sb_locked := False,
     sb_recovery_meta := \<lparr>is_ongoing = False, start_inode = 0, end_inode = 0\<rparr>\<rparr>"

definition create_super_block :: "errno + int \<Rightarrow> (sb_state, unit) sm" where
  "create_super_block sb_blocks =
     bindE syscall (\<lambda>_.
     bindE write_super_block_head (\<lambda>_.
     bindE syscall (\<lambda>_. sb_update_size sb_blocks)))"

definition super_block_init :: "errno + int \<Rightarrow> (sb_state, unit) sm" where
  "super_block_init sb_blocks =
     bindE syscall (\<lambda>_. bindE syscall (\<lambda>_.
     bindE (modifyE sb_memset) (\<lambda>_.
     bindE (\<lambda>s. case syscall s of
               (Inl _, s1) \<Rightarrow> create_super_block sb_blocks s1
             | (Inr _, s1) \<Rightarrow> (Inr (), s1)) (\<lambda>_.
     bindE syscall (\<lambda>_.
     bindE transfer (\<lambda>_.
     modifyE (\<lambda>s. s\<lparr>sb_head := disk_head s\<rparr>)))))))"

text \<open>The descriptors are closed whatever the outcome of the write.\<close>

definition super_block_destroy :: "(sb_state, unit) sm" where
  "super_block_destroy = with_exclusive write_super_block_head"

end
