(* ===== verification/Super_Block_Inv.thy ===== *)
theory Super_Block_Inv
  imports Super_Block_Queue
begin

text \<open>
  The invariant of the three queues of the super block and what the queue primitives do to it.

  \<open>q_inv E h D T P\<close>: with the entries \<open>E\<close> and the header \<open>h\<close>, the dirty queue is the list \<open>D\<close>, the
  delete queue \<open>T\<close> and the pinning queue \<open>P\<close>; each is properly linked in both directions, the header
  holds its ends and its length, and an entry carries the corresponding status exactly when it is in
  the queue.
\<close>

subsection \<open>Entries as a function of the inode number\<close>

definition entry_at :: "SUPER_BLOCK_ENTRY list \<Rightarrow> ino_t \<Rightarrow> SUPER_BLOCK_ENTRY" where
  "entry_at es i = (if 0 < i \<and> i \<le> length es then es ! (i - 1) else zero_entry)"

abbreviation ents :: "sb_state \<Rightarrow> ino_t \<Rightarrow> SUPER_BLOCK_ENTRY" where
  "ents s \<equiv> entry_at (sb_entries s)"

definition present :: "sb_state \<Rightarrow> ino_t \<Rightarrow> bool" where
  "present s i \<longleftrightarrow> 0 < i \<and> i \<le> length (sb_entries s)"

lemma entry_at_put:
  "0 < i \<Longrightarrow> i \<le> length es \<Longrightarrow> entry_at (sb_put i e es) = (entry_at es)(i := e)"
  by (auto simp: entry_at_def sb_put_def fun_eq_iff nth_list_update)

lemma length_sb_put [simp]: "i \<le> length es \<Longrightarrow> length (sb_put i e es) = length es"
  by (simp add: sb_put_def)

lemma entry_at_append:
  assumes "i = Suc (length es)"
  shows "entry_at (sb_put i e es) = (entry_at es)(i := e)"
  using assms by (auto simp: entry_at_def sb_put_def fun_eq_iff nth_append)

lemma zero_entry_simps [simp]:
  "status zero_entry = NO_LL" "pin_status zero_entry = ST_DEL" "util_ll_next zero_entry = 0"
  "util_ll_prev zero_entry = 0" "pin_ll_next zero_entry = 0" "pin_ll_prev zero_entry = 0"
  "this_index zero_entry = 0" "generation zero_entry = 0" "dirty_meta_size zero_entry = 0"
  by (simp_all add: zero_entry_def)

lemma entry_at_0 [simp]: "entry_at es 0 = zero_entry"
  by (simp add: entry_at_def)

lemma present_if_status: "status (ents s i) \<noteq> NO_LL \<Longrightarrow> present s i"
  by (auto simp: entry_at_def present_def split: if_splits)

lemma present_if_pin: "pin_status (ents s i) \<noteq> ST_DEL \<Longrightarrow> present s i"
  by (auto simp: entry_at_def present_def split: if_splits)

subsection \<open>Evaluation when no system call fails\<close>

lemma transfer_quiet [simp]: "sb_io s = [] \<Longrightarrow> transfer s = (Inr (), s)"
  by (simp add: transfer_def io_step_def)

lemma syscall_quiet [simp]: "sb_io s = [] \<Longrightarrow> syscall s = (Inr True, s)"
  by (simp add: syscall_def io_step_def)

lemma pread_quiet [simp]:
  "sb_io s = [] \<Longrightarrow> present s i \<Longrightarrow> pread_entry i s = (Inr (ents s i), s)"
  by (simp add: pread_entry_def present_def entry_at_def)

lemma read_quiet [simp]:
  "sb_io s = [] \<Longrightarrow> present s i \<Longrightarrow> read_super_block_entry i s = (Inr (ents s i), s)"
  by (simp add: read_super_block_entry_def present_def)

lemma write_quiet [simp]:
  "sb_io s = [] \<Longrightarrow> 0 < i \<Longrightarrow>
    write_super_block_entry i e s = (Inr (), s\<lparr>sb_entries := sb_put i e (sb_entries s)\<rparr>)"
  by (simp add: write_super_block_entry_def)

lemma write_head_quiet [simp]:
  "sb_io s = [] \<Longrightarrow> write_super_block_head s = (Inr (), s\<lparr>disk_head := sb_head s\<rparr>)"
  by (simp add: write_super_block_head_def)

lemma ent_bind_Inr [simp]: "m s = (Inr x, s') \<Longrightarrow> ent_bind e m k s = k x s'"
  by (simp add: ent_bind_def)

lemma ent_bind_Inl [simp]: "m s = (Inl x, s') \<Longrightarrow> ent_bind e m k s = (Inl x, e, s')"
  by (simp add: ent_bind_def)

lemma present_simps [simp]:
  "present (s\<lparr>sb_head := h\<rparr>) = present s" "present (s\<lparr>disk_head := h\<rparr>) = present s"
  "present (s\<lparr>sb_locked := b\<rparr>) = present s" "present (s\<lparr>hcfs_system := y\<rparr>) = present s"
  by (simp_all add: present_def fun_eq_iff)

text \<open>Fields no queue primitive touches besides header, entries and statistics.\<close>

definition same_env :: "sb_state \<Rightarrow> sb_state \<Rightarrow> bool" where
  "same_env s s' \<longleftrightarrow>
     unclaimed_list s' = unclaimed_list s \<and> temp_unclaimed s' = temp_unclaimed s \<and>
     temp_unclaimed_fptr s' = temp_unclaimed_fptr s \<and>
     now_reclaim_fullscan s' = now_reclaim_fullscan s \<and>
     sb_recovery_meta s' = sb_recovery_meta s \<and> meta_local_size s' = meta_local_size s \<and>
     sb_clock s' = sb_clock s \<and> sb_locked s' = sb_locked s \<and>
     length (sb_entries s') = length (sb_entries s)"

lemma same_env_refl [simp]: "same_env s s"
  by (simp add: same_env_def)

lemma same_env_trans [trans]: "same_env s t \<Longrightarrow> same_env t u \<Longrightarrow> same_env s u"
  by (simp add: same_env_def)

lemma same_env_present: "same_env s s' \<Longrightarrow> present s' = present s"
  by (simp add: same_env_def present_def fun_eq_iff)

subsection \<open>The sync point leaves the queues alone\<close>

definition sync_wf :: "sb_state \<Rightarrow> bool" where
  "sync_wf s \<longleftrightarrow> (case sync_point_info s of None \<Rightarrow> True | Some info \<Rightarrow> 0 < ctl_sem info \<and> sp_fptr info)"

text \<open>A state in which the primitives run undisturbed: no call fails, no recovery is going on.\<close>

definition ready :: "sb_state \<Rightarrow> bool" where
  "ready s \<longleftrightarrow> sb_io s = [] \<and> \<not> is_ongoing (sb_recovery_meta s) \<and> sync_wf s"

lemma not_later [simp]: "ready s \<Longrightarrow> \<not> is_sbentry_being_recover_later i s"
  by (simp add: ready_def is_sbentry_being_recover_later_def)

lemma ready_io [simp]: "ready s \<Longrightarrow> sb_io s = []"
  by (simp add: ready_def)

definition sync_only :: "sb_state \<Rightarrow> sb_state \<Rightarrow> bool" where
  "sync_only s s' \<longleftrightarrow>
     sb_head s' = sb_head s \<and> disk_head s' = disk_head s \<and> sb_entries s' = sb_entries s \<and>
     hcfs_system s' = hcfs_system s \<and> sb_io s' = sb_io s \<and> same_env s s'"

lemma sync_only_refl [simp]: "sync_only s s"
  by (simp add: sync_only_def)

lemma sync_only_trans: "sync_only s t \<Longrightarrow> sync_only t u \<Longrightarrow> sync_only s u"
  by (auto simp: sync_only_def intro: same_env_trans)

lemma sync_only_simps [simp]:
  "sync_only s (s'\<lparr>sync_point_info := a\<rparr>) = sync_only s s'"
  "sync_only s (s'\<lparr>sync_point_file := b\<rparr>) = sync_only s s'"
  "sync_only s (s'\<lparr>sync_events := c\<rparr>) = sync_only s s'"
  "sync_only s (s'\<lparr>sync_point_is_set := d\<rparr>) = sync_only s s'"
  by (simp_all add: sync_only_def same_env_def)

lemma sync_only_steps [simp]:
  "sync_only s (upd_sync_info f s') = sync_only s s'"
  "sync_only s (reset_upload_sync_point s') = sync_only s s'"
  "sync_only s (reset_delete_sync_point s') = sync_only s s'"
  "sync_only s (free_syncpoint_resource b s') = sync_only s s'"
  by (auto simp: upd_sync_info_def reset_upload_sync_point_def reset_delete_sync_point_def
      free_syncpoint_resource_def Let_def split: option.split)

lemma write_syncpoint_quiet:
  assumes "sb_io s = []" and "sync_wf s" and "sync_point_info s = Some info"
  shows "write_syncpoint_data s = (Inr (), s\<lparr>sync_point_file := Some (sp_data info)\<rparr>)"
  using assms by (simp add: write_syncpoint_data_def sync_wf_def)

lemma check_sync_complete_quiet:
  assumes "sb_io s = []" and "sync_wf s" and "sync_point_info s \<noteq> None"
  shows "\<exists>s'. check_sync_complete w i s = (Inr (), s') \<and> sync_only s s' \<and> sync_wf s'"
proof -
  obtain info where info: "sync_point_info s = Some info" using assms(3) by blast
  have wf: "0 < ctl_sem info" "sp_fptr info"
    using assms(2) info by (simp_all add: sync_wf_def)
  obtain up del where q: "(if sync_retry_times info > 0 then sync_queues_left w i s
      else (False, False)) = (up, del)" by (metis prod.exhaust)
  let ?s2 = "let s1 = (if up then reset_upload_sync_point s else s) in
      if del then reset_delete_sync_point s1 else s1"
  let ?s3 = "if sync_retry_times info > 0
      then upd_sync_info (\<lambda>i. i\<lparr>sync_retry_times := sync_retry_times i - 1\<rparr>) ?s2 else ?s2"
  have s3: "sync_only s ?s3" "sync_wf ?s3" "sync_point_info ?s3 \<noteq> None" "sb_io ?s3 = []"
    using wf info assms(1)
    by (auto simp: sync_wf_def upd_sync_info_def reset_upload_sync_point_def
        reset_delete_sync_point_def Let_def)
  then obtain info3 where info3: "sync_point_info ?s3 = Some info3" by blast
  have w3: "ignore_errno write_syncpoint_data ?s3 = (Inr (), ?s3\<lparr>sync_point_file := Some (sp_data info3)\<rparr>)"
    using write_syncpoint_quiet [OF s3(4,2) info3] by (simp add: ignore_errno_def)
  have "sync_only s (?s3\<lparr>sync_point_file := Some (sp_data info3)\<rparr>)"
    using s3(1) by simp
  moreover have "sync_wf (?s3\<lparr>sync_point_file := Some (sp_data info3)\<rparr>)"
    using s3(2) by (simp add: sync_wf_def)
  moreover have "sync_only s ((free_syncpoint_resource True ?s3)\<lparr>sync_events := e\<rparr>)" for e
    using s3(1) by simp
  moreover have "sync_wf ((free_syncpoint_resource True ?s3)\<lparr>sync_events := e\<rparr>)" for e
    using s3(2) by (auto simp: sync_wf_def free_syncpoint_resource_def Let_def split: option.split)
  ultimately show ?thesis
    using info w3 assms(2) by (auto simp: check_sync_complete_def q Let_def)
qed

lemma move_sync_point_quiet:
  assumes "sb_io s = []" and "sync_wf s"
  shows "\<exists>s'. move_sync_point w i e s = (Inr (), s') \<and> sync_only s s' \<and> sync_wf s'"
proof (cases "sync_point_info s")
  case None
  then show ?thesis using assms by (simp add: move_sync_point_def)
next
  case (Some info)
  have step: "\<exists>s'. bindE (ignore_errno write_syncpoint_data) (\<lambda>_. check_sync_complete w i)
        (s\<lparr>sync_point_info := Some (info\<lparr>sp_data := d\<rparr>)\<rparr>) = (Inr (), s') \<and>
      sync_only s s' \<and> sync_wf s'" for d
  proof -
    let ?s1 = "s\<lparr>sync_point_info := Some (info\<lparr>sp_data := d\<rparr>)\<rparr>"
    let ?s2 = "?s1\<lparr>sync_point_file := Some d\<rparr>"
    have wf1: "sync_wf ?s1" using assms(2) Some by (simp add: sync_wf_def)
    have "ignore_errno write_syncpoint_data ?s1 = (Inr (), ?s2)"
      using write_syncpoint_quiet [OF _ wf1, of "info\<lparr>sp_data := d\<rparr>"] assms(1)
      by (simp add: ignore_errno_def)
    moreover have "sync_only s ?s2" by simp
    moreover obtain s' where "check_sync_complete w i ?s2 = (Inr (), s')" "sync_only ?s2 s'" "sync_wf s'"
      using check_sync_complete_quiet [of ?s2 w i] assms(1) wf1 by (auto simp: sync_wf_def)
    ultimately show ?thesis using sync_only_trans [of s ?s2] by auto
  qed
  have "sync_only s (s\<lparr>sync_point_info := Some (info\<lparr>sp_data := d\<rparr>)\<rparr>)"
    "sync_wf (s\<lparr>sync_point_info := Some (info\<lparr>sp_data := d\<rparr>)\<rparr>)" for d
    using assms(2) Some by (auto simp: sync_wf_def)
  then show ?thesis
    using step Some by (simp add: move_sync_point_def Let_def)
qed


subsection \<open>The queue invariant\<close>

interpretation util: link_fields util_ll_next util_ll_prev
  "\<lambda>v e. e\<lparr>util_ll_next := v\<rparr>" "\<lambda>v e. e\<lparr>util_ll_prev := v\<rparr>"
  by unfold_locales simp_all

interpretation pinq: link_fields pin_ll_next pin_ll_prev
  "\<lambda>v e. e\<lparr>pin_ll_next := v\<rparr>" "\<lambda>v e. e\<lparr>pin_ll_prev := v\<rparr>"
  by unfold_locales simp_all

definition q_inv ::
  "(ino_t \<Rightarrow> SUPER_BLOCK_ENTRY) \<Rightarrow> SUPER_BLOCK_HEAD \<Rightarrow> ino_t list \<Rightarrow> ino_t list \<Rightarrow> ino_t list \<Rightarrow> bool" where
  "q_inv E h D T P \<longleftrightarrow>
     util.queued E (first_dirty_inode h) (last_dirty_inode h) D \<and> num_dirty h = int (length D) \<and>
     util.queued E (first_to_delete_inode h) (last_to_delete_inode h) T \<and>
     num_to_be_deleted h = int (length T) \<and>
     pinq.queued E (first_pin_inode h) (last_pin_inode h) P \<and> num_pinning_inodes h = int (length P) \<and>
     (\<forall>i. i \<in> set D \<longleftrightarrow> status (E i) = IS_DIRTY) \<and>
     (\<forall>i. i \<in> set T \<longleftrightarrow> status (E i) = TO_BE_DELETED) \<and>
     (\<forall>i. i \<in> set P \<longleftrightarrow> pin_status (E i) = ST_PINNING)"

definition sb_inv :: "sb_state \<Rightarrow> ino_t list \<Rightarrow> ino_t list \<Rightarrow> ino_t list \<Rightarrow> bool" where
  "sb_inv s D T P \<longleftrightarrow> q_inv (ents s) (sb_head s) D T P"

text \<open>Two entries the queues of an inode cannot tell apart.\<close>

definition same_pin :: "SUPER_BLOCK_ENTRY \<Rightarrow> SUPER_BLOCK_ENTRY \<Rightarrow> bool" where
  "same_pin e e' \<longleftrightarrow> pin_status e' = pin_status e \<and> pin_ll_next e' = pin_ll_next e \<and>
     pin_ll_prev e' = pin_ll_prev e"

definition same_util :: "SUPER_BLOCK_ENTRY \<Rightarrow> SUPER_BLOCK_ENTRY \<Rightarrow> bool" where
  "same_util e e' \<longleftrightarrow> status e' = status e \<and> util_ll_next e' = util_ll_next e \<and>
     util_ll_prev e' = util_ll_prev e"

definition idle_status :: "sb_status \<Rightarrow> bool" where
  "idle_status st \<longleftrightarrow> st \<noteq> IS_DIRTY \<and> st \<noteq> TO_BE_DELETED"

lemma idle_status_simps [simp]:
  "idle_status NO_LL" "idle_status TO_BE_RECLAIMED" "idle_status RECLAIMED"
  "\<not> idle_status IS_DIRTY" "\<not> idle_status TO_BE_DELETED"
  by (simp_all add: idle_status_def)

lemma util_unlinked_other [simp]:
  "status (util.unlinked E n p i) = status (E i)" "pin_status (util.unlinked E n p i) = pin_status (E i)"
  "pin_ll_next (util.unlinked E n p i) = pin_ll_next (E i)"
  "pin_ll_prev (util.unlinked E n p i) = pin_ll_prev (E i)"
  by (auto simp: util.unlinked_def)

lemma util_unlinked_outside: "i \<noteq> n \<Longrightarrow> i \<noteq> p \<Longrightarrow> util.unlinked E n p i = E i"
  by (auto simp: util.unlinked_def)

lemma q_inv_disjoint: "q_inv E h D T P \<Longrightarrow> set D \<inter> set T = {}"
  by (auto simp: q_inv_def)

lemma q_inv_idle: "q_inv E h D T P \<Longrightarrow> idle_status (status (E i)) \<longleftrightarrow> i \<notin> set D \<and> i \<notin> set T"
  by (auto simp: q_inv_def idle_status_def)

text \<open>Changing an entry in the fields the queues do not use.\<close>

lemma q_inv_upd_same:
  assumes "q_inv E h D T P" and "same_util (E i) e" and "same_pin (E i) e"
  shows "q_inv (E(i := e)) h D T P"
proof -
  have "util.queued (E(i := e)) f l xs = util.queued E f l xs" for f l xs
    using assms(2) by (intro util.queued_cong) (auto simp: same_util_def)
  moreover have "pinq.queued (E(i := e)) f l xs = pinq.queued E f l xs" for f l xs
    using assms(3) by (intro pinq.queued_cong) (auto simp: same_pin_def)
  ultimately show ?thesis
    using assms by (auto simp: q_inv_def same_util_def same_pin_def)
qed

text \<open>An entry outside the two utility queues may change its utility links and stay outside.\<close>

lemma q_inv_upd_idle:
  assumes inv: "q_inv E h D T P" and "idle_status (status (E i))" and "idle_status (status e)"
    and "same_pin (E i) e"
  shows "q_inv (E(i := e)) h D T P"
proof -
  have out: "i \<notin> set D" "i \<notin> set T" using q_inv_idle [OF inv, of i] assms(2) by auto
  have "util.queued (E(i := e)) f l xs = util.queued E f l xs" if "i \<notin> set xs" for f l xs
    using that by (intro util.queued_cong) auto
  moreover have "pinq.queued (E(i := e)) f l xs = pinq.queued E f l xs" for f l xs
    using assms(4) by (intro pinq.queued_cong) (auto simp: same_pin_def)
  ultimately show ?thesis
    using assms out by (auto simp: q_inv_def same_pin_def idle_status_def)
qed


subsection \<open>Leaving and joining the utility queues\<close>

text \<open>The parts of the header that belong to each queue.\<close>

definition dirty_part :: "SUPER_BLOCK_HEAD \<Rightarrow> ino_t \<times> ino_t \<times> int" where
  "dirty_part h = (first_dirty_inode h, last_dirty_inode h, num_dirty h)"

definition delete_part :: "SUPER_BLOCK_HEAD \<Rightarrow> ino_t \<times> ino_t \<times> int" where
  "delete_part h = (first_to_delete_inode h, last_to_delete_inode h, num_to_be_deleted h)"

definition pin_part :: "SUPER_BLOCK_HEAD \<Rightarrow> ino_t \<times> ino_t \<times> int" where
  "pin_part h = (first_pin_inode h, last_pin_inode h, num_pinning_inodes h)"

lemmas part_defs = dirty_part_def delete_part_def pin_part_def

lemma q_inv_head_cong:
  "dirty_part h' = dirty_part h \<Longrightarrow> delete_part h' = delete_part h \<Longrightarrow> pin_part h' = pin_part h \<Longrightarrow>
    q_inv E h' D T P = q_inv E h D T P"
  by (simp add: q_inv_def part_defs)

lemma util_queued_unlinked_outside:
  assumes "n \<noteq> 0 \<Longrightarrow> n \<notin> set xs" and "p \<noteq> 0 \<Longrightarrow> p \<notin> set xs" and "i \<notin> set xs" and "0 \<notin> set xs"
  shows "util.queued ((util.unlinked E n p)(i := e)) f l xs = util.queued E f l xs"
proof (rule util.queued_cong)
  fix x
  assume "x \<in> set xs"
  with assms have "x \<noteq> i" "n = 0 \<or> x \<noteq> n" "p = 0 \<or> x \<noteq> p" by auto
  then show "util_ll_next (((util.unlinked E n p)(i := e)) x) = util_ll_next (E x) \<and>
      util_ll_prev (((util.unlinked E n p)(i := e)) x) = util_ll_prev (E x)"
    by (auto simp: util.unlinked_def)
qed

lemma util_queued_props:
  assumes "util.queued E f l xs"
  shows "distinct xs" "0 \<notin> set xs" "f = 0 \<longleftrightarrow> xs = []" "l = 0 \<longleftrightarrow> xs = []"
  using assms unfolding util.queued_def
  by (auto simp: dqueue_def dest: dqueue_first_0 dqueue_last_0)

lemma pin_queued_props:
  assumes "pinq.queued E f l xs"
  shows "distinct xs" "0 \<notin> set xs" "f = 0 \<longleftrightarrow> xs = []" "l = 0 \<longleftrightarrow> xs = []"
  using assms unfolding pinq.queued_def
  by (auto simp: dqueue_def dest: dqueue_first_0 dqueue_last_0)

lemma q_inv_queued:
  assumes "q_inv E h D T P"
  shows "util.queued E (first_dirty_inode h) (last_dirty_inode h) D"
    and "util.queued E (first_to_delete_inode h) (last_to_delete_inode h) T"
    and "pinq.queued E (first_pin_inode h) (last_pin_inode h) P"
  using assms by (simp_all add: q_inv_def)

lemma pin_queued_unlinked:
  "same_pin (E i) e \<Longrightarrow>
    pinq.queued ((util.unlinked E n p)(i := e)) f l xs = pinq.queued E f l xs"
  by (intro pinq.queued_cong) (auto simp: same_pin_def)

lemma util_queued_unlink_self:
  assumes "util.queued E f l xs" and "i \<in> set xs"
    and "n = util_ll_next (E i)" and "p = util_ll_prev (E i)"
  shows "util.queued ((util.unlinked E n p)(i := e)) (if p = 0 then n else f)
    (if n = 0 then p else l) (remove1 i xs)"
proof -
  have "i \<notin> set (remove1 i xs)"
    using util_queued_props(1) [OF assms(1)] by simp
  then show ?thesis
    using util.queued_unlink [OF assms]
    by (subst util.queued_cong [where E' = "util.unlinked E n p"]) auto
qed

lemma util_neighbours:
  assumes "util.queued E f l xs" and "i \<in> set xs"
  shows "util_ll_next (E i) \<noteq> 0 \<Longrightarrow> util_ll_next (E i) \<in> set xs \<and> util_ll_next (E i) \<noteq> i"
    and "util_ll_prev (E i) \<noteq> 0 \<Longrightarrow> util_ll_prev (E i) \<in> set xs \<and> util_ll_prev (E i) \<noteq> i"
    and "util_ll_next (E i) \<noteq> 0 \<Longrightarrow> util_ll_prev (E i) \<noteq> 0 \<Longrightarrow> util_ll_next (E i) \<noteq> util_ll_prev (E i)"
    and "util_ll_next (E i) \<noteq> 0 \<Longrightarrow> util_ll_prev (E (util_ll_next (E i))) = i"
    and "util_ll_prev (E i) \<noteq> 0 \<Longrightarrow> util_ll_next (E (util_ll_prev (E i))) = i"
    and "util_ll_next (E i) = 0 \<Longrightarrow> l = i" and "util_ll_prev (E i) = 0 \<Longrightarrow> f = i"
proof -
  have q: "dqueue (\<lambda>i. util_ll_next (E i)) (\<lambda>i. util_ll_prev (E i)) f l xs"
    using assms(1) by (simp add: util.queued_def)
  obtain as bs where xs: "xs = as @ i # bs" using assms(2) by (meson split_list)
  show "util_ll_next (E i) = 0 \<Longrightarrow> l = i" and "util_ll_prev (E i) = 0 \<Longrightarrow> f = i"
    using dqueue_node(5,6) [OF q xs] by simp_all
qed (use assms in \<open>auto simp: util.queued_def dest: dqueue_nbrs_mem dqueue_linked_back\<close>)

lemma q_inv_leave_dirty:
  assumes inv: "q_inv E h D T P" and i: "i \<in> set D"
    and n: "n = util_ll_next (E i)" and p: "p = util_ll_prev (E i)"
    and e: "idle_status (status e)" "same_pin (E i) e"
    and h': "dirty_part h' = (if p = 0 then n else first_dirty_inode h,
        if n = 0 then p else last_dirty_inode h, num_dirty h - 1)"
      "delete_part h' = delete_part h" "pin_part h' = pin_part h"
  shows "q_inv ((util.unlinked E n p)(i := e)) h' (remove1 i D) T P"
proof -
  have qD: "util.queued E (first_dirty_inode h) (last_dirty_inode h) D"
    using inv by (simp add: q_inv_def)
  note nb = util_neighbours [OF qD i]
  have "0 \<notin> set T" by (rule util_queued_props(2) [OF q_inv_queued(2) [OF inv]])
  then have T: "util.queued ((util.unlinked E n p)(i := e)) f l T = util.queued E f l T" for f l
    using q_inv_disjoint [OF inv] nb(1,2) n p i by (intro util_queued_unlinked_outside) auto
  have "distinct D" by (rule util_queued_props(1) [OF qD])
  then show ?thesis
    using inv util_queued_unlink_self [OF qD i n p, of e] T i e h'
    by (auto simp: q_inv_def part_defs pin_queued_unlinked int_length_remove1
        same_pin_def idle_status_def)
qed

lemma q_inv_leave_delete:
  assumes inv: "q_inv E h D T P" and i: "i \<in> set T"
    and n: "n = util_ll_next (E i)" and p: "p = util_ll_prev (E i)"
    and e: "idle_status (status e)" "same_pin (E i) e"
    and h': "delete_part h' = (if p = 0 then n else first_to_delete_inode h,
        if n = 0 then p else last_to_delete_inode h, num_to_be_deleted h - 1)"
      "dirty_part h' = dirty_part h" "pin_part h' = pin_part h"
  shows "q_inv ((util.unlinked E n p)(i := e)) h' D (remove1 i T) P"
proof -
  have qT: "util.queued E (first_to_delete_inode h) (last_to_delete_inode h) T"
    using inv by (simp add: q_inv_def)
  note nb = util_neighbours [OF qT i]
  have "0 \<notin> set D" by (rule util_queued_props(2) [OF q_inv_queued(1) [OF inv]])
  then have D: "util.queued ((util.unlinked E n p)(i := e)) f l D = util.queued E f l D" for f l
    using q_inv_disjoint [OF inv] nb(1,2) n p i by (intro util_queued_unlinked_outside) auto
  have "distinct T" by (rule util_queued_props(1) [OF qT])
  then show ?thesis
    using inv util_queued_unlink_self [OF qT i n p, of e] D i e h'
    by (auto simp: q_inv_def part_defs pin_queued_unlinked int_length_remove1
        same_pin_def idle_status_def)
qed

text \<open>Appending: the old last entry, if there is one, is pointed at the new one.\<close>

definition linked_after :: "ino_t list \<Rightarrow> ino_t \<Rightarrow> ino_t \<Rightarrow> (ino_t \<Rightarrow> SUPER_BLOCK_ENTRY) \<Rightarrow> ino_t \<Rightarrow> SUPER_BLOCK_ENTRY" where
  "linked_after xs l i E = (if xs = [] then E else E(l := (E l)\<lparr>util_ll_next := i\<rparr>))"

lemma linked_after_other [simp]:
  "status (linked_after xs l i E j) = status (E j)"
  "pin_status (linked_after xs l i E j) = pin_status (E j)"
  "pin_ll_next (linked_after xs l i E j) = pin_ll_next (E j)"
  "pin_ll_prev (linked_after xs l i E j) = pin_ll_prev (E j)"
  by (auto simp: linked_after_def)

lemma util_queued_linked_outside:
  assumes "xs \<noteq> [] \<Longrightarrow> l \<notin> set ys" and "i \<notin> set ys"
  shows "util.queued ((linked_after xs l i E)(i := e)) f' l' ys = util.queued E f' l' ys"
  using assms by (intro util.queued_cong) (auto simp: linked_after_def)

lemma pin_queued_linked:
  "same_pin (E i) e \<Longrightarrow>
    pinq.queued ((linked_after xs l i E)(i := e)) f' l' ys = pinq.queued E f' l' ys"
  by (intro pinq.queued_cong) (auto simp: same_pin_def)

lemma util_queued_last_mem: "util.queued E f l xs \<Longrightarrow> xs \<noteq> [] \<Longrightarrow> l \<in> set xs"
  by (auto simp: util.queued_def dest: dqueue_last_mem)

lemma q_inv_join_dirty:
  assumes inv: "q_inv E h D T P" and i: "idle_status (status (E i))" "i \<noteq> 0"
    and l: "l = last_dirty_inode h"
    and e: "status e = IS_DIRTY" "util_ll_next e = 0" "util_ll_prev e = l" "same_pin (E i) e"
    and h': "dirty_part h' = (if D = [] then i else first_dirty_inode h, i, num_dirty h + 1)"
      "delete_part h' = delete_part h" "pin_part h' = pin_part h"
  shows "q_inv ((linked_after D l i E)(i := e)) h' (D @ [i]) T P"
proof -
  have qD: "util.queued E (first_dirty_inode h) (last_dirty_inode h) D"
    using inv by (simp add: q_inv_def)
  have out: "i \<notin> set D" "i \<notin> set T" using q_inv_idle [OF inv, of i] i(1) by auto
  have T: "util.queued ((linked_after D l i E)(i := e)) f' l' T = util.queued E f' l' T" for f' l'
    using util_queued_last_mem [OF qD] q_inv_disjoint [OF inv] out(2) l
    by (intro util_queued_linked_outside) auto
  from util.queued_snoc [OF qD out(1) i(2) e(2)] e(3) l
  have "util.queued ((linked_after D l i E)(i := e)) (if D = [] then i else first_dirty_inode h) i (D @ [i])"
    by (simp add: linked_after_def)
  then show ?thesis
    using inv T e out h' by (auto simp: q_inv_def part_defs pin_queued_linked same_pin_def)
qed

lemma q_inv_join_delete:
  assumes inv: "q_inv E h D T P" and i: "idle_status (status (E i))" "i \<noteq> 0"
    and l: "l = last_to_delete_inode h"
    and e: "status e = TO_BE_DELETED" "util_ll_next e = 0" "util_ll_prev e = l" "same_pin (E i) e"
    and h': "delete_part h' = (if T = [] then i else first_to_delete_inode h, i, num_to_be_deleted h + 1)"
      "dirty_part h' = dirty_part h" "pin_part h' = pin_part h"
  shows "q_inv ((linked_after T l i E)(i := e)) h' D (T @ [i]) P"
proof -
  have qT: "util.queued E (first_to_delete_inode h) (last_to_delete_inode h) T"
    using inv by (simp add: q_inv_def)
  have out: "i \<notin> set D" "i \<notin> set T" using q_inv_idle [OF inv, of i] i(1) by auto
  have D: "util.queued ((linked_after T l i E)(i := e)) f' l' D = util.queued E f' l' D" for f' l'
    using util_queued_last_mem [OF qT] q_inv_disjoint [OF inv] out(1) l
    by (intro util_queued_linked_outside) auto
  from util.queued_snoc [OF qT out(2) i(2) e(2)] e(3) l
  have "util.queued ((linked_after T l i E)(i := e)) (if T = [] then i else first_to_delete_inode h) i (T @ [i])"
    by (simp add: linked_after_def)
  then show ?thesis
    using inv D e out h' by (auto simp: q_inv_def part_defs pin_queued_linked same_pin_def)
qed

end
