(* ===== verification/Super_Block_Prims.thy ===== *)
theory Super_Block_Prims
  imports Super_Block_Inv
begin

text \<open>
  The queue primitives against their list specification: \<^verbatim>\<open>ll_dequeue\<close> removes the inode from
  whichever queue it is in, \<^verbatim>\<open>ll_enqueue\<close> appends it to the queue asked for, \<^verbatim>\<open>pin_ll_enqueue\<close> and
  \<^verbatim>\<open>pin_ll_dequeue\<close> do the same on the pinning queue.  On a state that satisfies the invariant the
  repair code is never entered.
\<close>

subsection \<open>Frames\<close>

definition head_rest :: "SUPER_BLOCK_HEAD \<Rightarrow> int \<times> ino_t \<times> ino_t \<times> int \<times> int \<times> nat \<times> int" where
  "head_rest h = (num_inode_reclaimed h, first_reclaimed_inode h, last_reclaimed_inode h,
     num_to_be_reclaimed h, num_block_cached h, num_total_inodes h, num_active_inodes h)"

definition queue_only :: "sb_state \<Rightarrow> sb_state \<Rightarrow> bool" where
  "queue_only s s' \<longleftrightarrow> same_env s s' \<and> disk_head s' = disk_head s \<and> sb_io s' = sb_io s \<and>
     sync_point_info s' = sync_point_info s \<and> hcfs_system s' = hcfs_system s \<and>
     head_rest (sb_head s') = head_rest (sb_head s)"

text \<open>What a primitive leaves alone: everything but queue links, queue heads, statistics, sync point.\<close>

definition same_but_util :: "SUPER_BLOCK_ENTRY \<Rightarrow> SUPER_BLOCK_ENTRY \<Rightarrow> bool" where
  "same_but_util e e' \<longleftrightarrow>
     e'\<lparr>util_ll_next := 0, util_ll_prev := 0\<rparr> = e\<lparr>util_ll_next := 0, util_ll_prev := 0\<rparr>"

definition prim_frame :: "sb_state \<Rightarrow> sb_state \<Rightarrow> bool" where
  "prim_frame s s' \<longleftrightarrow> same_env s s' \<and> disk_head s' = disk_head s \<and> sb_io s' = sb_io s \<and>
     head_rest (sb_head s') = head_rest (sb_head s) \<and>
     (\<forall>j. same_but_util (ents s j) (ents s' j)) \<and>
     (\<forall>j. idle_status (status (ents s j)) \<longrightarrow> ents s' j = ents s j)"

lemma same_but_util_refl [simp]: "same_but_util e e"
  by (simp add: same_but_util_def)

lemma same_but_util_trans: "same_but_util a b \<Longrightarrow> same_but_util b c \<Longrightarrow> same_but_util a c"
  by (simp add: same_but_util_def)

lemma same_but_utilI [simp]:
  "same_but_util e (e\<lparr>util_ll_next := n\<rparr>)" "same_but_util e (e\<lparr>util_ll_prev := p\<rparr>)"
  by (simp_all add: same_but_util_def)

lemma same_but_util_fields:
  assumes "same_but_util e e'"
  shows "status e' = status e" "same_pin e e'" "this_index e' = this_index e"
    and "generation e' = generation e" "inode_stat e' = inode_stat e"
    and "dirty_meta_size e' = dirty_meta_size e" "pin_status e' = pin_status e"
proof -
  let ?z = "\<lambda>e. e\<lparr>util_ll_next := 0, util_ll_prev := 0\<rparr>"
  have eq: "?z e' = ?z e" using assms by (simp add: same_but_util_def)
  show "status e' = status e" using arg_cong [OF eq, of status] by simp
  show "this_index e' = this_index e" using arg_cong [OF eq, of this_index] by simp
  show "generation e' = generation e" using arg_cong [OF eq, of generation] by simp
  show "inode_stat e' = inode_stat e" using arg_cong [OF eq, of inode_stat] by simp
  show "dirty_meta_size e' = dirty_meta_size e" using arg_cong [OF eq, of dirty_meta_size] by simp
  show "pin_status e' = pin_status e" using arg_cong [OF eq, of pin_status] by simp
  show "same_pin e e'"
    using arg_cong [OF eq, of pin_status] arg_cong [OF eq, of pin_ll_next]
      arg_cong [OF eq, of pin_ll_prev] by (simp add: same_pin_def)
qed

lemma prim_frame_refl [simp]: "prim_frame s s"
  by (simp add: prim_frame_def)

lemma prim_frame_trans:
  assumes "prim_frame s t" and "prim_frame t u"
  shows "prim_frame s u"
proof -
  have "status (ents t j) = status (ents s j)" for j
    using assms(1) same_but_util_fields(1) by (auto simp: prim_frame_def)
  then show ?thesis
    using assms by (auto simp: prim_frame_def intro: same_env_trans same_but_util_trans)
qed

lemma prim_frame_sync: "sync_only s s' \<Longrightarrow> prim_frame s s'"
  by (simp add: prim_frame_def sync_only_def)

lemma prim_frame_env: "prim_frame s s' \<Longrightarrow> same_env s s'"
  by (simp add: prim_frame_def)

lemma same_env_simps [simp]:
  "same_env s (s'\<lparr>sb_head := h\<rparr>) = same_env s s'"
  "same_env s (s'\<lparr>hcfs_system := y\<rparr>) = same_env s s'"
  "same_env s (s'\<lparr>disk_head := h\<rparr>) = same_env s s'"
  "same_env s (upd_head f s') = same_env s s'"
  "same_env s (sb_change_system_meta d s') = same_env s s'"
  "same_env s (wake_sync s') = same_env s s'" "same_env s (wake_dsync s') = same_env s s'"
  "same_env s (wake_pin s') = same_env s s'"
  by (simp_all add: same_env_def upd_head_def sb_change_system_meta_def wake_sync_def
      wake_dsync_def wake_pin_def)

lemma step_fields [simp]:
  "sb_entries (upd_head f s) = sb_entries s" "sb_head (upd_head f s) = f (sb_head s)"
  "sb_io (upd_head f s) = sb_io s" "disk_head (upd_head f s) = disk_head s"
  "sync_point_info (upd_head f s) = sync_point_info s" "hcfs_system (upd_head f s) = hcfs_system s"
  "sb_recovery_meta (upd_head f s) = sb_recovery_meta s"
  "meta_local_size (upd_head f s) = meta_local_size s"
  "sb_entries (sb_change_system_meta d s) = sb_entries s"
  "sb_head (sb_change_system_meta d s) = sb_head s"
  "sb_io (sb_change_system_meta d s) = sb_io s"
  "disk_head (sb_change_system_meta d s) = disk_head s"
  "sync_point_info (sb_change_system_meta d s) = sync_point_info s"
  "sb_recovery_meta (sb_change_system_meta d s) = sb_recovery_meta s"
  "sb_entries (wake_sync s) = sb_entries s" "sb_head (wake_sync s) = sb_head s"
  "sb_io (wake_sync s) = sb_io s" "disk_head (wake_sync s) = disk_head s"
  "sync_point_info (wake_sync s) = sync_point_info s"
  "sb_recovery_meta (wake_sync s) = sb_recovery_meta s"
  "meta_local_size (wake_sync s) = meta_local_size s"
  "sb_entries (wake_dsync s) = sb_entries s" "sb_head (wake_dsync s) = sb_head s"
  "sb_io (wake_dsync s) = sb_io s" "disk_head (wake_dsync s) = disk_head s"
  "sync_point_info (wake_dsync s) = sync_point_info s"
  "sb_recovery_meta (wake_dsync s) = sb_recovery_meta s"
  "sb_entries (wake_pin s) = sb_entries s" "sb_head (wake_pin s) = sb_head s"
  "sb_io (wake_pin s) = sb_io s" "disk_head (wake_pin s) = disk_head s"
  "sync_point_info (wake_pin s) = sync_point_info s"
  "sb_recovery_meta (wake_pin s) = sb_recovery_meta s"
  by (simp_all add: upd_head_def sb_change_system_meta_def wake_sync_def wake_dsync_def wake_pin_def)

lemma step_present [simp]:
  "present (upd_head f s) = present s" "present (sb_change_system_meta d s) = present s"
  "present (wake_sync s) = present s" "present (wake_dsync s) = present s"
  "present (wake_pin s) = present s"
  by (simp_all add: present_def fun_eq_iff)

lemma present_put [simp]:
  "present s i \<Longrightarrow> present (s\<lparr>sb_entries := sb_put i e (sb_entries s)\<rparr>) = present s"
  by (simp add: present_def fun_eq_iff)

lemma ents_put [simp]:
  "present s i \<Longrightarrow> entry_at (sb_put i e (sb_entries s)) = (ents s)(i := e)"
  by (simp add: present_def entry_at_put)

lemma same_env_put [simp]:
  "present s i \<Longrightarrow> same_env s (s\<lparr>sb_entries := sb_put i e (sb_entries s)\<rparr>)"
  by (simp add: same_env_def present_def)

text \<open>The bytes of dirty data the statistics report.\<close>

definition dirty_bytes :: "sb_state \<Rightarrow> int" where
  "dirty_bytes s = dirty_cache_size (systemdata (hcfs_system s))"

lemma dirty_bytes_simps [simp]:
  "dirty_bytes (upd_head f s) = dirty_bytes s" "dirty_bytes (wake_sync s) = dirty_bytes s"
  "dirty_bytes (wake_dsync s) = dirty_bytes s" "dirty_bytes (wake_pin s) = dirty_bytes s"
  "dirty_bytes (sb_change_system_meta d s) = add_clamp (dirty_bytes s) d"
  "dirty_bytes (s\<lparr>sb_entries := es\<rparr>) = dirty_bytes s" "dirty_bytes (s\<lparr>disk_head := h\<rparr>) = dirty_bytes s"
  by (simp_all add: dirty_bytes_def upd_head_def wake_sync_def wake_dsync_def wake_pin_def
      sb_change_system_meta_def systemdata_change_system_meta change_system_counters_def)

subsection \<open>Unlinking\<close>

definition unlink_head :: "sb_status \<Rightarrow> ino_t \<Rightarrow> ino_t \<Rightarrow> SUPER_BLOCK_HEAD \<Rightarrow> SUPER_BLOCK_HEAD" where
  "unlink_head w n p h =
     (let h1 = (if n = 0 then (case w of IS_DIRTY \<Rightarrow> h\<lparr>last_dirty_inode := p\<rparr>
                  | TO_BE_DELETED \<Rightarrow> h\<lparr>last_to_delete_inode := p\<rparr> | _ \<Rightarrow> h) else h)
      in if p = 0 then (case w of IS_DIRTY \<Rightarrow> h1\<lparr>first_dirty_inode := n\<rparr>
           | TO_BE_DELETED \<Rightarrow> h1\<lparr>first_to_delete_inode := n\<rparr> | _ \<Rightarrow> h1) else h1)"

lemma head_rest_unlink [simp]: "head_rest (unlink_head w n p h) = head_rest h"
  by (simp add: unlink_head_def head_rest_def Let_def split: sb_status.split)

lemma ll_unlink_quiet:
  assumes io: "sb_io s = []" and n: "n = util_ll_next ent" and p: "p = util_ll_prev ent"
    and pres: "n \<noteq> 0 \<Longrightarrow> present s n" "p \<noteq> 0 \<Longrightarrow> present s p" "n \<noteq> 0 \<Longrightarrow> p \<noteq> 0 \<Longrightarrow> n \<noteq> p"
    and copies: "\<not> reread \<Longrightarrow> (n \<noteq> 0 \<longrightarrow> nx = ents s n) \<and> (p \<noteq> 0 \<longrightarrow> pv = ents s p)"
  shows "\<exists>s'. ll_unlink w reread ent nx pv s = (Inr (), s') \<and> queue_only s s' \<and>
    ents s' = util.unlinked (ents s) n p \<and> sb_head s' = unlink_head w n p (sb_head s)"
proof -
  let ?rd = "\<lambda>b i e. if b then read_super_block_entry i else returnE e"
  define s1 where "s1 = (if n = 0
    then upd_head (\<lambda>h. case w of IS_DIRTY \<Rightarrow> h\<lparr>last_dirty_inode := p\<rparr>
      | TO_BE_DELETED \<Rightarrow> h\<lparr>last_to_delete_inode := p\<rparr> | _ \<Rightarrow> h) s
    else s\<lparr>sb_entries := sb_put n ((ents s n)\<lparr>util_ll_prev := p\<rparr>) (sb_entries s)\<rparr>)"
  define s2 where "s2 = (if p = 0
    then upd_head (\<lambda>h. case w of IS_DIRTY \<Rightarrow> h\<lparr>first_dirty_inode := n\<rparr>
      | TO_BE_DELETED \<Rightarrow> h\<lparr>first_to_delete_inode := n\<rparr> | _ \<Rightarrow> h) s1
    else s1\<lparr>sb_entries := sb_put p ((ents s1 p)\<lparr>util_ll_next := n\<rparr>) (sb_entries s1)\<rparr>)"
  have rd1: "?rd reread n nx s = (Inr (ents s n), s)" if "n \<noteq> 0"
    using that copies pres(1) io by simp
  have e1: "ents s1 = (if n = 0 then ents s else (ents s)(n := (ents s n)\<lparr>util_ll_prev := p\<rparr>))"
    using pres(1) by (simp add: s1_def)
  have io1: "sb_io s1 = []" using io by (simp add: s1_def)
  have pr1: "present s1 = present s" using pres(1) by (simp add: s1_def)
  have rd2: "?rd reread p pv s1 = (Inr (ents s1 p), s1)" if "p \<noteq> 0"
    using that copies pres(2,3) io1 pr1 e1 by auto
  have "ll_unlink w reread ent nx pv s = (Inr (), s2)"
    using rd1 rd2 io io1 pres unfolding ll_unlink_def n [symmetric] p [symmetric]
    by (auto simp: s1_def s2_def)
  moreover have "queue_only s s2"
    using pres by (auto simp: s2_def s1_def queue_only_def same_env_def present_def
        upd_head_def head_rest_def split: sb_status.split)
  moreover have "ents s2 = util.unlinked (ents s) n p"
    using e1 pres(2) pr1 by (auto simp: s2_def util.unlinked_def fun_eq_iff Let_def)
  moreover have "sb_head s2 = unlink_head w n p (sb_head s)"
    by (simp add: s2_def s1_def unlink_head_def Let_def split: sb_status.split)
  ultimately show ?thesis by blast
qed

lemma same_but_util_unlinked [simp]: "same_but_util (E i) (util.unlinked E n p i)"
  by (auto simp: util.unlinked_def same_but_util_def)

text \<open>
  The state between two primitives: \<open>ent\<close> is the caller's copy of the entry of \<open>i\<close>, which agrees with the
  stored one in the queue links, and the invariant holds for the entries with \<open>e0\<close> in place, which
  agrees with the copy in the queue links too.  (The pinning fields of \<open>e0\<close> say in which state the
  caller is going to write the entry back.)
\<close>

definition pending ::
  "sb_state \<Rightarrow> ino_t \<Rightarrow> SUPER_BLOCK_ENTRY \<Rightarrow> SUPER_BLOCK_ENTRY \<Rightarrow>
    ino_t list \<Rightarrow> ino_t list \<Rightarrow> ino_t list \<Rightarrow> bool" where
  "pending s i ent e0 D T P \<longleftrightarrow> same_util (ents s i) ent \<and> same_util ent e0 \<and>
     q_inv ((ents s)(i := e0)) (sb_head s) D T P"

lemma pending_start: "sb_inv s D T P \<Longrightarrow> pending s i (ents s i) (ents s i) D T P"
  by (simp add: pending_def sb_inv_def same_util_def)

lemma pending_copy: "pending s i ent e0 D T P \<Longrightarrow> same_util ent ent' \<Longrightarrow> pending s i ent' e0 D T P"
  by (simp add: pending_def same_util_def)

lemma q_inv_busy:
  assumes "q_inv E h D T P"
  shows "j \<in> set D \<Longrightarrow> \<not> idle_status (status (E j))" "j \<in> set T \<Longrightarrow> \<not> idle_status (status (E j))"
  using assms by (auto simp: q_inv_def)

lemma pending_props:
  assumes "pending s i ent e0 D T P"
  shows "util.queued (ents s) (first_dirty_inode (sb_head s)) (last_dirty_inode (sb_head s)) D"
    and "util.queued (ents s) (first_to_delete_inode (sb_head s)) (last_to_delete_inode (sb_head s)) T"
    and "i \<in> set D \<longleftrightarrow> status ent = IS_DIRTY" "i \<in> set T \<longleftrightarrow> status ent = TO_BE_DELETED"
    and "j \<in> set D \<Longrightarrow> \<not> idle_status (status (ents s j))"
    and "j \<in> set T \<Longrightarrow> \<not> idle_status (status (ents s j))"
proof -
  have su: "same_util (ents s i) ent" "same_util ent e0" and q: "q_inv ((ents s)(i := e0)) (sb_head s) D T P"
    using assms by (simp_all add: pending_def)
  have "util.queued ((ents s)(i := e0)) f l Q = util.queued (ents s) f l Q" for f l Q
    using su by (intro util.queued_cong) (auto simp: same_util_def)
  then show "util.queued (ents s) (first_dirty_inode (sb_head s)) (last_dirty_inode (sb_head s)) D"
    and "util.queued (ents s) (first_to_delete_inode (sb_head s)) (last_to_delete_inode (sb_head s)) T"
    using q_inv_queued(1,2) [OF q] by simp_all
  show "i \<in> set D \<longleftrightarrow> status ent = IS_DIRTY" "i \<in> set T \<longleftrightarrow> status ent = TO_BE_DELETED"
    using q su(2) by (auto simp: q_inv_def same_util_def)
  show "j \<in> set D \<Longrightarrow> \<not> idle_status (status (ents s j))"
    and "j \<in> set T \<Longrightarrow> \<not> idle_status (status (ents s j))"
    using q_inv_busy [OF q, of j] su by (auto simp: same_util_def split: if_splits)
qed

lemma unlinked_pending:
  "(n \<noteq> 0 \<Longrightarrow> n \<noteq> i) \<Longrightarrow> (p \<noteq> 0 \<Longrightarrow> p \<noteq> i) \<Longrightarrow>
    (util.unlinked (E(i := x)) n p)(i := e) = (util.unlinked E n p)(i := e)"
  by (auto simp: util.unlinked_def Let_def fun_eq_iff)

lemma ll_dequeue_check_quiet:
  assumes io: "sb_io s = []" and pend: "pending s i ent e0 D T P" and st: "status ent = IS_DIRTY"
  shows "\<exists>nx pv. ll_dequeue_check i ent s = (Inr (False, nx, pv), s) \<and>
    (util_ll_next ent \<noteq> 0 \<longrightarrow> nx = ents s (util_ll_next ent)) \<and>
    (util_ll_prev ent \<noteq> 0 \<longrightarrow> pv = ents s (util_ll_prev ent))"
proof -
  have i: "i \<in> set D" and ent: "same_util (ents s i) ent"
    using pending_props(3) [OF pend] st pend by (simp_all add: pending_def)
  note nb = util_neighbours [OF pending_props(1) [OF pend] i]
  have pres: "present s j" if "j \<in> set D" for j
    using pending_props(5) [OF pend that] present_if_status [of s j] by (auto simp: idle_status_def)
  let ?n = "util_ll_next (ents s i)" and ?p = "util_ll_prev (ents s i)"
  let ?nx = "if ?n = 0 then zero_entry else ents s ?n"
  let ?pv = "if ?p = 0 then zero_entry else ents s ?p"
  have links: "util_ll_next ent = ?n" "util_ll_prev ent = ?p" using ent by (simp_all add: same_util_def)
  have ends: "?n = 0 \<Longrightarrow> last_dirty_inode (sb_head s) = i" "?p = 0 \<Longrightarrow> first_dirty_inode (sb_head s) = i"
    using nb(6,7) by simp_all
  have "ll_dequeue_check i ent s = (Inr (False, ?nx, ?pv), s)"
    using nb(1,2,4,5) pres io ends unfolding ll_dequeue_check_def links
    by (cases "?n = 0"; cases "?p = 0") simp_all
  then show ?thesis unfolding links by (intro exI [of _ ?nx] exI [of _ ?pv]) simp
qed

subsection \<open>Leaving a queue\<close>

definition dequeued :: "SUPER_BLOCK_ENTRY \<Rightarrow> SUPER_BLOCK_ENTRY" where
  "dequeued e = (if idle_status (status e) then e
     else detached (if status e = IS_DIRTY then e\<lparr>dirty_meta_size := 0\<rparr> else e))"

lemma dequeued_fields [simp]:
  "idle_status (status (dequeued e))" "same_pin e (dequeued e)" "this_index (dequeued e) = this_index e"
  "generation (dequeued e) = generation e" "inode_stat (dequeued e) = inode_stat e"
  "pin_status (dequeued e) = pin_status e"
  by (auto simp: dequeued_def detached_def same_pin_def)

lemma unlink_head_parts:
  "dirty_part (unlink_head w n p h) =
     (if w = IS_DIRTY then (if p = 0 then n else first_dirty_inode h,
        if n = 0 then p else last_dirty_inode h, num_dirty h) else dirty_part h)"
  "delete_part (unlink_head w n p h) =
     (if w = TO_BE_DELETED then (if p = 0 then n else first_to_delete_inode h,
        if n = 0 then p else last_to_delete_inode h, num_to_be_deleted h) else delete_part h)"
  "pin_part (unlink_head w n p h) = pin_part h"
  by (simp_all add: unlink_head_def part_defs Let_def split: sb_status.split)

lemma ready_cong:
  "sb_io s' = sb_io s \<Longrightarrow> sb_recovery_meta s' = sb_recovery_meta s \<Longrightarrow>
    sync_point_info s' = sync_point_info s \<Longrightarrow> ready s' = ready s"
  by (simp add: ready_def sync_wf_def)

lemma maybe_move_quiet:
  assumes "ready s"
  shows "\<exists>s'. (if sync_point_is_set s then move_sync_point w i e s else (Inr (), s)) = (Inr (), s') \<and>
    sync_only s s' \<and> ready s'"
proof (cases "sync_point_is_set s")
  case True
  obtain s' where s': "move_sync_point w i e s = (Inr (), s')" "sync_only s s'" "sync_wf s'"
    using move_sync_point_quiet [of s w i e] assms by (auto simp: ready_def)
  moreover have "ready s'"
    using s' assms by (simp add: ready_def sync_only_def same_env_def)
  ultimately show ?thesis using True by auto
qed (use assms in auto)

text \<open>The part of \<^verbatim>\<open>ll_dequeue\<close> after the consistency check, common to the two queues.\<close>

lemma ll_dequeue_finish:
  assumes rd: "ready s" and q: "util.queued (ents s) f l Q" and i: "i \<in> set Q"
    and busy: "\<And>j. j \<in> set Q \<Longrightarrow> \<not> idle_status (status (ents s j))" and ent: "same_util (ents s i) ent"
    and copies: "\<not> reread \<Longrightarrow> (util_ll_next ent \<noteq> 0 \<longrightarrow> nx = ents s (util_ll_next ent)) \<and>
      (util_ll_prev ent \<noteq> 0 \<longrightarrow> pv = ents s (util_ll_prev ent))"
    and n: "n = util_ll_next (ents s i)" and p: "p = util_ll_prev (ents s i)"
  shows "\<exists>s'. ent_bind ent (\<lambda>s'. if sync_point_is_set s' then move_sync_point w i ent s' else (Inr (), s'))
      (\<lambda>_. ent_bind ent (ll_unlink w reread ent nx pv) k) s = k () s' \<and>
    ready s' \<and> prim_frame s s' \<and> ents s' = util.unlinked (ents s) n p \<and>
    sb_head s' = unlink_head w n p (sb_head s) \<and> dirty_bytes s' = dirty_bytes s"
proof -
  obtain s1 where s1: "(if sync_point_is_set s then move_sync_point w i ent s else (Inr (), s)) = (Inr (), s1)"
    "sync_only s s1" "ready s1"
    using maybe_move_quiet [OF rd, of w i ent] by blast
  have same: "ents s1 = ents s" "sb_head s1 = sb_head s" "present s1 = present s"
    using s1(2) same_env_present by (auto simp: sync_only_def)
  have np: "n = util_ll_next ent" "p = util_ll_prev ent" using ent n p by (simp_all add: same_util_def)
  note nb = util_neighbours [OF q i, folded n p]
  have pres: "present s j" if "j \<in> set Q" for j
    using busy [OF that] present_if_status [of s j] by (auto simp: idle_status_def)
  obtain s2 where s2: "ll_unlink w reread ent nx pv s1 = (Inr (), s2)" "queue_only s1 s2"
    "ents s2 = util.unlinked (ents s1) n p" "sb_head s2 = unlink_head w n p (sb_head s1)"
    using ll_unlink_quiet [of s1 n ent p reread nx pv w] s1(3) np nb(1-3) pres copies same by auto
  have "util.unlinked (ents s) n p j = ents s j" if "idle_status (status (ents s j))" for j
    using that busy nb(1,2) by (auto simp: util.unlinked_def Let_def)
  then have "prim_frame s1 s2"
    using s2 same by (simp add: prim_frame_def queue_only_def)
  then have "prim_frame s s2" using s1(2) prim_frame_sync prim_frame_trans by blast
  moreover have "ready s2"
    using s2(2) s1(3) ready_cong [of s2 s1] by (simp add: queue_only_def same_env_def)
  moreover have "dirty_bytes s2 = dirty_bytes s"
    using s2(2) s1(2) by (simp add: dirty_bytes_def queue_only_def sync_only_def)
  ultimately show ?thesis using s1(1) s2 same by (intro exI [of _ s2]) simp
qed

lemma q_inv_present:
  assumes "sb_inv s D T P"
  shows "j \<in> set D \<Longrightarrow> present s j" "j \<in> set T \<Longrightarrow> present s j" "j \<in> set P \<Longrightarrow> present s j"
  using assms present_if_status [of s j] present_if_pin [of s j] by (auto simp: sb_inv_def q_inv_def)

definition dequeue_post ::
  "ino_t \<Rightarrow> SUPER_BLOCK_ENTRY \<Rightarrow> sb_state \<Rightarrow> sb_state \<Rightarrow> ino_t list \<Rightarrow> ino_t list \<Rightarrow> ino_t list \<Rightarrow> bool" where
  "dequeue_post i e0 s s' D T P \<longleftrightarrow> ready s' \<and> prim_frame s s' \<and>
     (\<forall>e. idle_status (status e) \<longrightarrow> same_pin e0 e \<longrightarrow>
        q_inv ((ents s')(i := e)) (sb_head s') (remove1 i D) (remove1 i T) P)"

lemma ll_dequeue_dirty:
  assumes rd: "ready s" and pend: "pending s i ent e0 D T P" and st: "status ent = IS_DIRTY"
  shows "\<exists>s'. ll_dequeue i ent s = (Inr (), dequeued ent, s') \<and> dequeue_post i e0 s s' D T P \<and>
    dirty_bytes s' = add_clamp (dirty_bytes s) (- dirty_meta_size ent)"
proof -
  note pr = pending_props [OF pend]
  have ent: "same_util (ents s i) ent" "same_util ent e0"
    and q: "q_inv ((ents s)(i := e0)) (sb_head s) D T P"
    using pend by (simp_all add: pending_def)
  have i: "i \<in> set D" "i \<notin> set T" using pr(3,4) st by simp_all
  obtain nx pv where chk: "ll_dequeue_check i ent s = (Inr (False, nx, pv), s)"
    "util_ll_next ent \<noteq> 0 \<longrightarrow> nx = ents s (util_ll_next ent)"
    "util_ll_prev ent \<noteq> 0 \<longrightarrow> pv = ents s (util_ll_prev ent)"
    using ll_dequeue_check_quiet [OF _ pend st] rd by auto
  let ?k = "\<lambda>_ s'. (Inr (), dequeued ent, ll_count_down IS_DIRTY ent s')"
  let ?n = "util_ll_next (ents s i)" and ?p = "util_ll_prev (ents s i)"
  obtain s2 where s2: "ent_bind ent (\<lambda>s'. if sync_point_is_set s' then move_sync_point IS_DIRTY i ent s' else (Inr (), s'))
      (\<lambda>_. ent_bind ent (ll_unlink IS_DIRTY False ent nx pv) ?k) s = ?k () s2"
    "ready s2" "prim_frame s s2" "ents s2 = util.unlinked (ents s) ?n ?p"
    "sb_head s2 = unlink_head IS_DIRTY ?n ?p (sb_head s)" "dirty_bytes s2 = dirty_bytes s"
    using ll_dequeue_finish [OF rd pr(1) i(1) _ ent(1), of False nx pv _ _ IS_DIRTY ?k] pr(5) chk(2,3) by blast
  let ?s3 = "ll_count_down IS_DIRTY ent s2"
  have run: "ll_dequeue i ent s = (Inr (), dequeued ent, ?s3)"
    using s2(1) chk(1) rd st by (simp add: ll_dequeue_def dequeued_def)
  have "ready ?s3" using s2(2) ready_cong [of ?s3 s2] by (simp add: ll_count_down_def)
  moreover have "prim_frame s ?s3"
    using s2(3) by (simp add: prim_frame_def ll_count_down_def head_rest_def)
  moreover have "q_inv ((ents ?s3)(i := e)) (sb_head ?s3) (remove1 i D) (remove1 i T) P"
    if "idle_status (status e)" "same_pin e0 e" for e
    using q_inv_leave_dirty [OF q i(1), of ?n ?p e "sb_head ?s3"] that ent
      unlink_head_parts [of IS_DIRTY ?n ?p "sb_head s"] s2(4,5) i(2)
      unlinked_pending [of ?n i ?p "ents s" e0 e] util_neighbours(1,2) [OF pr(1) i(1)]
    by (simp add: ll_count_down_def part_defs remove1_idem same_util_def)
  ultimately show ?thesis
    using run s2(6) by (auto simp: dequeue_post_def ll_count_down_def)
qed

lemma ll_dequeue_delete:
  assumes rd: "ready s" and pend: "pending s i ent e0 D T P" and st: "status ent = TO_BE_DELETED"
  shows "\<exists>s'. ll_dequeue i ent s = (Inr (), dequeued ent, s') \<and> dequeue_post i e0 s s' D T P \<and>
    dirty_bytes s' = dirty_bytes s"
proof -
  note pr = pending_props [OF pend]
  have ent: "same_util (ents s i) ent" "same_util ent e0"
    and q: "q_inv ((ents s)(i := e0)) (sb_head s) D T P"
    using pend by (simp_all add: pending_def)
  have i: "i \<in> set T" "i \<notin> set D" using pr(3,4) st by simp_all
  let ?k = "\<lambda>_ s'. (Inr (), dequeued ent, ll_count_down TO_BE_DELETED ent s')"
  let ?n = "util_ll_next (ents s i)" and ?p = "util_ll_prev (ents s i)"
  obtain s2 where s2: "ent_bind ent (\<lambda>s'. if sync_point_is_set s' then move_sync_point TO_BE_DELETED i ent s' else (Inr (), s'))
      (\<lambda>_. ent_bind ent (ll_unlink TO_BE_DELETED True ent zero_entry zero_entry) ?k) s = ?k () s2"
    "ready s2" "prim_frame s s2" "ents s2 = util.unlinked (ents s) ?n ?p"
    "sb_head s2 = unlink_head TO_BE_DELETED ?n ?p (sb_head s)" "dirty_bytes s2 = dirty_bytes s"
    using ll_dequeue_finish [OF rd pr(2) i(1) _ ent(1),
        of True zero_entry zero_entry _ _ TO_BE_DELETED ?k] pr(6) by blast
  let ?s3 = "ll_count_down TO_BE_DELETED ent s2"
  have run: "ll_dequeue i ent s = (Inr (), dequeued ent, ?s3)"
    using s2(1) rd st by (simp add: ll_dequeue_def dequeued_def)
  have "ready ?s3" using s2(2) ready_cong [of ?s3 s2] by (simp add: ll_count_down_def)
  moreover have "prim_frame s ?s3"
    using s2(3) by (simp add: prim_frame_def ll_count_down_def head_rest_def)
  moreover have "q_inv ((ents ?s3)(i := e)) (sb_head ?s3) (remove1 i D) (remove1 i T) P"
    if "idle_status (status e)" "same_pin e0 e" for e
    using q_inv_leave_delete [OF q i(1), of ?n ?p e "sb_head ?s3"] that ent
      unlink_head_parts [of TO_BE_DELETED ?n ?p "sb_head s"] s2(4,5) i(2)
      unlinked_pending [of ?n i ?p "ents s" e0 e] util_neighbours(1,2) [OF pr(2) i(1)]
    by (simp add: ll_count_down_def part_defs remove1_idem same_util_def)
  ultimately show ?thesis
    using run s2(6) by (auto simp: dequeue_post_def ll_count_down_def)
qed

lemma ll_dequeue_idle:
  assumes "ready s" and pend: "pending s i ent e0 D T P" and idle: "idle_status (status ent)"
  shows "ll_dequeue i ent s = (Inr (), dequeued ent, s)" and "dequeue_post i e0 s s D T P"
proof -
  show "ll_dequeue i ent s = (Inr (), dequeued ent, s)"
    using idle by (cases "status ent") (auto simp: ll_dequeue_def dequeued_def)
  have q: "q_inv ((ents s)(i := e0)) (sb_head s) D T P" and "idle_status (status e0)"
    using pend idle by (simp_all add: pending_def same_util_def)
  moreover have "i \<notin> set D" "i \<notin> set T" using pending_props(3,4) [OF pend] idle by auto
  ultimately show "dequeue_post i e0 s s D T P"
    using assms(1) q_inv_upd_idle [OF q, of i] by (simp add: dequeue_post_def remove1_idem)
qed

text \<open>How much the dirty statistics drop when an entry leaves its queue.\<close>

definition dirty_drop :: "SUPER_BLOCK_ENTRY \<Rightarrow> int \<Rightarrow> int" where
  "dirty_drop e b = (if status e = IS_DIRTY then add_clamp b (- dirty_meta_size e) else b)"

lemma ll_dequeue_quiet:
  assumes "ready s" and "pending s i ent e0 D T P"
  shows "\<exists>s'. ll_dequeue i ent s = (Inr (), dequeued ent, s') \<and> dequeue_post i e0 s s' D T P \<and>
    dirty_bytes s' = dirty_drop ent (dirty_bytes s)"
proof (cases "status ent")
  case IS_DIRTY
  then show ?thesis using ll_dequeue_dirty [OF assms] by (simp add: dirty_drop_def)
next
  case TO_BE_DELETED
  then show ?thesis using ll_dequeue_delete [OF assms] by (simp add: dirty_drop_def)
qed (use ll_dequeue_idle [OF assms] in \<open>auto simp: dirty_drop_def\<close>)

end
