(* ===== verification/Super_Block_Enq.thy ===== *)
theory Super_Block_Enq
  imports Super_Block_Prims
begin

text \<open>
  Joining a queue.  \<^verbatim>\<open>ll_enqueue\<close> appends an inode to the dirty or to the delete queue, taking it out
  of the queue it was in; the entry itself is written back by the caller, so the invariant is stated
  for the entries as they will be once the caller has written the returned copy.  The same for
  the pinning queue, whose primitives write the entry themselves.
\<close>

subsection \<open>Appending to the dirty queue\<close>

definition dirty_raise :: "int \<Rightarrow> int \<Rightarrow> int" where
  "dirty_raise sz b = (if sz \<noteq> 0 then add_clamp b sz else b)"

definition dirty_entry :: "ino_t \<Rightarrow> int \<Rightarrow> SUPER_BLOCK_ENTRY \<Rightarrow> SUPER_BLOCK_ENTRY" where
  "dirty_entry l sz e = e\<lparr>util_ll_next := 0, util_ll_prev := l, status := IS_DIRTY,
     dirty_meta_size := (if sz \<noteq> 0 then sz else dirty_meta_size e)\<rparr>"

definition delete_entry :: "ino_t \<Rightarrow> SUPER_BLOCK_ENTRY \<Rightarrow> SUPER_BLOCK_ENTRY" where
  "delete_entry l e = e\<lparr>util_ll_next := 0, util_ll_prev := l, status := TO_BE_DELETED\<rparr>"

lemma get_meta_size_steps [simp]:
  "get_meta_size i (upd_head f s) = get_meta_size i s" "get_meta_size i (wake_sync s) = get_meta_size i s"
  "get_meta_size i (s\<lparr>sb_entries := es\<rparr>) = get_meta_size i s"
  by (simp_all add: get_meta_size_def)

lemma same_env_put_late:
  "same_env s s' \<Longrightarrow> present s l \<Longrightarrow> same_env s (s'\<lparr>sb_entries := sb_put l e (sb_entries s)\<rparr>)"
  by (simp add: same_env_def present_def)

lemma same_but_util_linked [simp]: "same_but_util (E j) (linked_after Q l i E j)"
  by (simp add: linked_after_def)

lemma finish_dirty_quiet:
  shows "\<exists>s'. finish_dirty i (e\<lparr>util_ll_prev := l, util_ll_next := 0\<rparr>) s = (Inr (), dirty_entry l (get_meta_size i s) e, s') \<and>
    sb_entries s' = sb_entries s \<and> sb_head s' = sb_head s \<and> (ready s \<longrightarrow> ready s') \<and>
    prim_frame s s' \<and> dirty_bytes s' = dirty_raise (get_meta_size i s) (dirty_bytes s)"
proof (cases "get_meta_size i s = 0")
  case True
  then show ?thesis
    by (auto simp: finish_dirty_def dirty_entry_def dirty_raise_def)
next
  case False
  let ?s = "sb_change_system_meta (get_meta_size i s) s"
  have "finish_dirty i (e\<lparr>util_ll_prev := l, util_ll_next := 0\<rparr>) s =
      (Inr (), dirty_entry l (get_meta_size i s) e, ?s)"
    using False by (simp add: finish_dirty_def dirty_entry_def Let_def)
  moreover have "ready s \<longrightarrow> ready ?s" using ready_cong [of ?s s] by simp
  ultimately show ?thesis
    using False by (intro exI [of _ ?s]) (simp add: prim_frame_def dirty_raise_def)
qed

lemma tail_check_quiet:
  assumes "sb_io s = []" and q: "util.queued (ents s) f (last_dirty_inode (sb_head s)) D" and "D \<noteq> []"
    and pres: "\<And>j. j \<in> set D \<Longrightarrow> present s j"
  shows "tail_check s = (Inr False, s)"
proof -
  let ?l = "last_dirty_inode (sb_head s)"
  have l: "?l \<in> set D" using util_queued_last_mem [OF q assms(3)] .
  note nb = util_neighbours [OF q l]
  obtain as where "D = as @ [?l]"
    using q assms(3) unfolding util.queued_def dqueue_def
    by (metis append_butlast_last_id last_or_def)
  then have "util_ll_next (ents s ?l) = 0"
    using q dqueue_node(1) [of _ _ _ _ D as ?l "[]"] by (simp add: util.queued_def)
  then show ?thesis
    using nb(2,5) pres l assms(1) by (simp add: tail_check_def Let_def)
qed

lemma link_after_quiet:
  assumes "sb_io s = []" and "present s l"
  shows "link_after l i s =
    (Inr (), s\<lparr>sb_entries := sb_put l ((ents s l)\<lparr>util_ll_next := i\<rparr>) (sb_entries s)\<rparr>)"
  using assms by (simp add: link_after_def present_def)

text \<open>Reading the queue through the entries while one entry is still to be written.\<close>

lemma util_queued_pending: "i \<notin> set Q \<Longrightarrow> util.queued (E(i := e)) f l Q = util.queued E f l Q"
  by (rule util.queued_cong) auto

lemma linked_after_pending:
  "i \<notin> set Q \<Longrightarrow> (Q \<noteq> [] \<Longrightarrow> l \<in> set Q) \<Longrightarrow>
    (linked_after Q l i (E(i := e)))(i := e') = (linked_after Q l i E)(i := e')"
  by (auto simp: linked_after_def fun_eq_iff)

lemma ll_enqueue_dirty_quiet:
  assumes rd: "ready s" and i0: "i \<noteq> 0" and idle: "idle_status (status e0)"
    and q: "q_inv ((ents s)(i := e0)) (sb_head s) D T P"
  shows "\<exists>s'. ll_enqueue_dirty i ent s =
      (Inr (), dirty_entry (last_or 0 D) (get_meta_size i s) ent, s') \<and> ready s' \<and> prim_frame s s' \<and>
    (\<forall>e. status e = IS_DIRTY \<longrightarrow> util_ll_next e = 0 \<longrightarrow> util_ll_prev e = last_or 0 D \<longrightarrow> same_pin e0 e \<longrightarrow>
      q_inv ((ents s')(i := e)) (sb_head s') (D @ [i]) T P) \<and>
    dirty_bytes s' = dirty_raise (get_meta_size i s) (dirty_bytes s)"
proof -
  let ?l = "last_dirty_inode (sb_head s)" and ?sz = "get_meta_size i s"
  have out: "i \<notin> set D" using q_inv_idle [OF q, of i] idle by auto
  have qD: "util.queued (ents s) (first_dirty_inode (sb_head s)) ?l D"
    using q_inv_queued(1) [OF q] util_queued_pending [OF out, of "ents s" e0] by simp
  have pres: "present s j" if "j \<in> set D" for j
    using q that out present_if_status [of s j] by (auto simp: q_inv_def split: if_splits)
  have l: "?l = last_or 0 D" using qD by (simp add: util.queued_def dqueue_def)
  have lD: "D \<noteq> [] \<Longrightarrow> ?l \<in> set D" using util_queued_last_mem [OF qD] .
  have first: "first_dirty_inode (sb_head s) = 0 \<longleftrightarrow> D = []" using util_queued_props(3) [OF qD] .
  let ?ent2 = "ent\<lparr>util_ll_prev := ?l, util_ll_next := 0\<rparr>"
  let ?h = "\<lambda>h. if D = [] then h\<lparr>first_dirty_inode := i, last_dirty_inode := i, num_dirty := num_dirty h + 1\<rparr>
    else h\<lparr>last_dirty_inode := i, num_dirty := num_dirty h + 1\<rparr>"
  define s2 where "s2 = wake_sync (upd_head ?h s)"
  define s3 where "s3 = (if D = [] then s2
    else s2\<lparr>sb_entries := sb_put ?l ((ents s ?l)\<lparr>util_ll_next := i\<rparr>) (sb_entries s)\<rparr>)"
  have e3: "ents s3 = linked_after D ?l i (ents s)" and h3: "sb_head s3 = ?h (sb_head s)"
    and sz3: "get_meta_size i s3 = ?sz" and b3: "dirty_bytes s3 = dirty_bytes s"
    using pres lD by (auto simp: s3_def s2_def linked_after_def)
  have rd3: "ready s3" using rd ready_cong [of s3 s] by (simp add: s3_def s2_def)
  have pf3: "prim_frame s s3"
  proof -
    have "same_env s s3"
      using pres lD same_env_put_late [of s s2 ?l] by (auto simp: s3_def s2_def)
    moreover have "linked_after D ?l i (ents s) j = ents s j" if "idle_status (status (ents s j))" for j
      using that lD q_inv_busy(1) [OF q, of ?l] out by (auto simp: linked_after_def split: if_splits)
    ultimately show ?thesis
      by (simp add: prim_frame_def e3) (simp add: s3_def s2_def head_rest_def)
  qed
  obtain s4 where s4: "finish_dirty i ?ent2 s3 = (Inr (), dirty_entry ?l ?sz ent, s4)"
    "sb_entries s4 = sb_entries s3" "sb_head s4 = sb_head s3" "ready s4"
    "prim_frame s3 s4" "dirty_bytes s4 = dirty_raise ?sz (dirty_bytes s)"
    using finish_dirty_quiet [where i = i and e = ent and l = ?l and s = s3] rd3 sz3 b3 by auto
  have "ll_enqueue_dirty i ent s = (Inr (), dirty_entry ?l ?sz ent, s4)"
  proof (cases "D = []")
    case True
    moreover have l0: "?l = 0" using True l by simp
    moreover have "ent\<lparr>util_ll_next := 0, util_ll_prev := 0\<rparr> = ?ent2" using l0 by simp
    then have "finish_dirty i (ent\<lparr>util_ll_next := 0, util_ll_prev := 0\<rparr>) s3 =
        (Inr (), dirty_entry ?l ?sz ent, s4)"
      by (simp only: s4(1))
    ultimately show ?thesis using first rd
      by (simp add: ll_enqueue_dirty_def s3_def s2_def)
  next
    case False
    have "link_after ?l i s2 = (Inr (), s3)"
      using False pres [OF lD [OF False]] rd link_after_quiet [of s2 ?l i] by (simp add: s3_def s2_def)
    then show ?thesis
      using s4(1) tail_check_quiet [OF ready_io [OF rd] qD False pres] rd first False
      by (simp add: ll_enqueue_dirty_def Let_def s2_def)
  qed
  moreover have "q_inv ((ents s4)(i := e)) (sb_head s4) (D @ [i]) T P"
    if "status e = IS_DIRTY" "util_ll_next e = 0" "util_ll_prev e = ?l" "same_pin e0 e" for e
    using q_inv_join_dirty [OF q _ i0, of ?l e "sb_head s4"] that idle s4(2,3) e3 h3
      linked_after_pending [OF out lD] by (simp add: part_defs)
  moreover have "prim_frame s s4" using prim_frame_trans [OF pf3 s4(5)] .
  ultimately show ?thesis
    using s4(4,6) unfolding l by blast
qed

subsection \<open>Appending to the delete queue\<close>

lemma ll_enqueue_delete_quiet:
  assumes rd: "ready s" and i0: "i \<noteq> 0" and idle: "idle_status (status e0)"
    and q: "q_inv ((ents s)(i := e0)) (sb_head s) D T P"
  shows "\<exists>s'. ll_enqueue_delete i ent s = (Inr (), delete_entry (last_or 0 T) ent, s') \<and>
    ready s' \<and> prim_frame s s' \<and>
    (\<forall>e. status e = TO_BE_DELETED \<longrightarrow> util_ll_next e = 0 \<longrightarrow> util_ll_prev e = last_or 0 T \<longrightarrow> same_pin e0 e \<longrightarrow>
      q_inv ((ents s')(i := e)) (sb_head s') D (T @ [i]) P) \<and>
    dirty_bytes s' = dirty_bytes s"
proof -
  let ?l = "last_to_delete_inode (sb_head s)"
  have out: "i \<notin> set T" using q_inv_idle [OF q, of i] idle by auto
  have qT: "util.queued (ents s) (first_to_delete_inode (sb_head s)) ?l T"
    using q_inv_queued(2) [OF q] util_queued_pending [OF out, of "ents s" e0] by simp
  have l: "?l = last_or 0 T" using qT by (simp add: util.queued_def dqueue_def)
  have lT: "T \<noteq> [] \<Longrightarrow> ?l \<in> set T" using util_queued_last_mem [OF qT] .
  have pres: "T \<noteq> [] \<Longrightarrow> present s ?l"
    using q lT out present_if_status [of s ?l] by (auto simp: q_inv_def split: if_splits)
  have first: "first_to_delete_inode (sb_head s) = 0 \<longleftrightarrow> T = []" using util_queued_props(3) [OF qT] .
  let ?h = "\<lambda>h. if T = [] then h\<lparr>first_to_delete_inode := i, last_to_delete_inode := i,
      num_to_be_deleted := num_to_be_deleted h + 1\<rparr>
    else h\<lparr>last_to_delete_inode := i, num_to_be_deleted := num_to_be_deleted h + 1\<rparr>"
  define s2 where "s2 = wake_dsync (upd_head ?h s)"
  define s3 where "s3 = (if T = [] then s2
    else s2\<lparr>sb_entries := sb_put ?l ((ents s ?l)\<lparr>util_ll_next := i\<rparr>) (sb_entries s)\<rparr>)"
  have e3: "ents s3 = linked_after T ?l i (ents s)" and h3: "sb_head s3 = ?h (sb_head s)"
    and b3: "dirty_bytes s3 = dirty_bytes s"
    using pres by (auto simp: s3_def s2_def linked_after_def)
  have rd3: "ready s3" using rd ready_cong [of s3 s] by (simp add: s3_def s2_def)
  have "same_env s s3"
    using pres same_env_put_late [of s s2 ?l] by (auto simp: s3_def s2_def)
  moreover have "linked_after T ?l i (ents s) j = ents s j" if "idle_status (status (ents s j))" for j
    using that lT q_inv_busy(2) [OF q, of ?l] out by (auto simp: linked_after_def split: if_splits)
  ultimately have pf3: "prim_frame s s3"
    by (simp add: prim_frame_def e3) (simp add: s3_def s2_def head_rest_def)
  have "ll_enqueue_delete i ent s = (Inr (), delete_entry ?l ent, s3)"
  proof (cases "T = []")
    case True
    moreover have "?l = 0" using True l by simp
    ultimately show ?thesis using first
      by (simp add: ll_enqueue_delete_def s3_def s2_def delete_entry_def)
  next
    case False
    have "link_after ?l i s2 = (Inr (), s3)"
      using False pres rd link_after_quiet [of s2 ?l i] by (simp add: s3_def s2_def)
    then show ?thesis
      using first False by (simp add: ll_enqueue_delete_def Let_def s2_def delete_entry_def)
  qed
  moreover have "q_inv ((ents s3)(i := e)) (sb_head s3) D (T @ [i]) P"
    if "status e = TO_BE_DELETED" "util_ll_next e = 0" "util_ll_prev e = ?l" "same_pin e0 e" for e
    using q_inv_join_delete [OF q _ i0, of ?l e "sb_head s3"] that idle e3 h3
      linked_after_pending [OF out lT] by (simp add: part_defs)
  ultimately show ?thesis
    using rd3 pf3 b3 unfolding l by blast
qed

subsection \<open>Enqueueing\<close>

text \<open>What enqueueing does to the queues, as lists.\<close>

definition enq_lists :: "sb_status \<Rightarrow> sb_status \<Rightarrow> ino_t \<Rightarrow> ino_t list \<times> ino_t list \<Rightarrow> ino_t list \<times> ino_t list" where
  "enq_lists which old i = (\<lambda>(D, T).
     if old = which then (D, T)
     else (case which of
         IS_DIRTY \<Rightarrow> (remove1 i D @ [i], remove1 i T)
       | TO_BE_DELETED \<Rightarrow> (remove1 i D, remove1 i T @ [i])
       | _ \<Rightarrow> (remove1 i D, remove1 i T)))"

definition enq_post ::
  "ino_t \<Rightarrow> sb_state \<Rightarrow> sb_state \<Rightarrow> SUPER_BLOCK_ENTRY \<Rightarrow> SUPER_BLOCK_ENTRY \<Rightarrow>
    ino_t list \<times> ino_t list \<Rightarrow> ino_t list \<Rightarrow> bool" where
  "enq_post i s s' e' e0 Q P \<longleftrightarrow> ready s' \<and> prim_frame s s' \<and>
     (\<forall>e. same_util e' e \<longrightarrow> same_pin e0 e \<longrightarrow> q_inv ((ents s')(i := e)) (sb_head s') (fst Q) (snd Q) P)"

text \<open>The entry the caller gets back.\<close>

definition enq_entry :: "sb_status \<Rightarrow> ino_t \<Rightarrow> int \<Rightarrow> ino_t list \<times> ino_t list \<Rightarrow> SUPER_BLOCK_ENTRY \<Rightarrow> SUPER_BLOCK_ENTRY" where
  "enq_entry which i sz = (\<lambda>(D, T) e.
     if status e = which then
       (if which = IS_DIRTY \<and> sz \<noteq> 0 then e\<lparr>dirty_meta_size := sz\<rparr> else e)
     else (case which of
         IS_DIRTY \<Rightarrow> dirty_entry (last_or 0 (remove1 i D)) sz (dequeued e)
       | TO_BE_DELETED \<Rightarrow> delete_entry (last_or 0 (remove1 i T)) (dequeued e)
       | _ \<Rightarrow> dequeued e))"

definition enq_bytes :: "sb_status \<Rightarrow> int \<Rightarrow> SUPER_BLOCK_ENTRY \<Rightarrow> int \<Rightarrow> int" where
  "enq_bytes which sz e b =
     (if status e = which then
        (if which = IS_DIRTY \<and> sz \<noteq> 0 then add_clamp b (sz - dirty_meta_size e) else b)
      else (if which = IS_DIRTY then dirty_raise sz (dirty_drop e b) else dirty_drop e b))"

lemma prim_frame_meta_size: "prim_frame s s' \<Longrightarrow> get_meta_size i s' = get_meta_size i s"
  by (simp add: prim_frame_def same_env_def get_meta_size_def)

lemma ll_enqueue_same:
  assumes rd: "ready s" and pend: "pending s i ent e0 D T P" and st: "status ent = w"
  shows "\<exists>s'. ll_enqueue i w ent s = (Inr (), enq_entry w i (get_meta_size i s) (D, T) ent, s') \<and>
    enq_post i s s' (enq_entry w i (get_meta_size i s) (D, T) ent) e0 (D, T) P \<and>
    dirty_bytes s' = enq_bytes w (get_meta_size i s) ent (dirty_bytes s)"
proof -
  let ?sz = "get_meta_size i s" and ?e = "enq_entry w i (get_meta_size i s) (D, T) ent"
  let ?s = "if w = IS_DIRTY \<and> ?sz \<noteq> 0 then sb_change_system_meta (?sz - dirty_meta_size ent) s else s"
  have "ll_enqueue i w ent s = (Inr (), ?e, ?s)"
    using st rd by (simp add: ll_enqueue_def enq_entry_def Let_def)
  moreover have q: "q_inv ((ents s)(i := e0)) (sb_head s) D T P" and su: "same_util ?e e0"
    using pend st by (auto simp: pending_def same_util_def enq_entry_def)
  then have "q_inv ((ents ?s)(i := e)) (sb_head ?s) D T P" if "same_util ?e e" "same_pin e0 e" for e
    using q_inv_upd_same [OF q, of i e] su that by (simp add: same_util_def)
  moreover have "ready ?s" using rd ready_cong [of ?s s] by simp
  moreover have "dirty_bytes ?s = enq_bytes w ?sz ent (dirty_bytes s)"
    using st by (simp add: enq_bytes_def)
  moreover have "prim_frame s ?s" using rd by (simp add: prim_frame_def)
  ultimately show ?thesis
    unfolding enq_post_def by (intro exI [of _ ?s]) simp
qed

lemma ll_enqueue_quiet:
  assumes rd: "ready s" and pend: "pending s i ent e0 D T P" and i0: "i \<noteq> 0"
    and w: "w = IS_DIRTY \<or> w = TO_BE_DELETED"
  shows "\<exists>s'. ll_enqueue i w ent s = (Inr (), enq_entry w i (get_meta_size i s) (D, T) ent, s') \<and>
    enq_post i s s' (enq_entry w i (get_meta_size i s) (D, T) ent) e0 (enq_lists w (status ent) i (D, T)) P \<and>
    dirty_bytes s' = enq_bytes w (get_meta_size i s) ent (dirty_bytes s)"
proof (cases "status ent = w")
  case True
  then show ?thesis using ll_enqueue_same [OF rd pend True] by (simp add: enq_lists_def)
next
  case False
  let ?sz = "get_meta_size i s"
  obtain s1 where s1: "ll_dequeue i ent s = (Inr (), dequeued ent, s1)" "dequeue_post i e0 s s1 D T P"
    "dirty_bytes s1 = dirty_drop ent (dirty_bytes s)"
    using ll_dequeue_quiet [OF rd pend] by blast
  have start: "(if status ent \<noteq> NO_LL then ll_dequeue i ent s else (Inr (), ent, s)) =
      (Inr (), dequeued ent, s1)"
    using s1(1) by (auto simp: ll_dequeue_def dequeued_def)
  have post: "ready s1" "prim_frame s s1" using s1(2) by (simp_all add: dequeue_post_def)
  let ?e1 = "e0\<lparr>status := NO_LL\<rparr>"
  have q1: "q_inv ((ents s1)(i := ?e1)) (sb_head s1) (remove1 i D) (remove1 i T) P"
    using s1(2) by (simp add: dequeue_post_def same_pin_def)
  have sz: "get_meta_size i s1 = ?sz" using prim_frame_meta_size [OF post(2)] .
  have "idle_status (status ?e1)" by simp
  note dirty = ll_enqueue_dirty_quiet [OF post(1) i0 this q1, of "dequeued ent"]
    and del = ll_enqueue_delete_quiet [OF post(1) i0 this q1, of "dequeued ent"]
  show ?thesis
  proof (cases "w = IS_DIRTY")
    case True
    with False start dirty sz s1(3) prim_frame_trans [OF post(2)] show ?thesis
      by (auto simp: ll_enqueue_def enq_entry_def enq_lists_def enq_bytes_def enq_post_def
          same_util_def dirty_entry_def same_pin_def)
  next
    case nd: False
    with w have "w = TO_BE_DELETED" by simp
    with False start del sz s1(3) prim_frame_trans [OF post(2)] show ?thesis
      by (auto simp: ll_enqueue_def enq_entry_def enq_lists_def enq_bytes_def enq_post_def
          same_util_def delete_entry_def same_pin_def)
  qed
qed

end
