(* ===== verification/Super_Block_Pin.thy ===== *)
theory Super_Block_Pin
  imports Super_Block_Enq
begin

text \<open>
  The pinning queue against its list specification: \<^verbatim>\<open>pin_ll_enqueue\<close> appends an unpinned inode and
  \<^verbatim>\<open>pin_ll_dequeue\<close> removes one that is being pinned.
\<close>

subsection \<open>The invariant\<close>

definition pin_linked :: "ino_t list \<Rightarrow> ino_t \<Rightarrow> ino_t \<Rightarrow> (ino_t \<Rightarrow> SUPER_BLOCK_ENTRY) \<Rightarrow> ino_t \<Rightarrow> SUPER_BLOCK_ENTRY" where
  "pin_linked xs l i E = (if xs = [] then E else E(l := (E l)\<lparr>pin_ll_next := i\<rparr>))"

lemma pin_linked_other [simp]:
  "status (pin_linked xs l i E j) = status (E j)"
  "pin_status (pin_linked xs l i E j) = pin_status (E j)"
  "util_ll_next (pin_linked xs l i E j) = util_ll_next (E j)"
  "util_ll_prev (pin_linked xs l i E j) = util_ll_prev (E j)"
  by (auto simp: pin_linked_def)

lemma pin_unlinked_other [simp]:
  "status (pinq.unlinked E n p i) = status (E i)" "pin_status (pinq.unlinked E n p i) = pin_status (E i)"
  "util_ll_next (pinq.unlinked E n p i) = util_ll_next (E i)"
  "util_ll_prev (pinq.unlinked E n p i) = util_ll_prev (E i)"
  by (auto simp: pinq.unlinked_def Let_def)

lemma util_queued_pin_changes:
  assumes "same_util (E i) e"
  shows "util.queued ((pin_linked ys l i E)(i := e)) f' l' xs = util.queued E f' l' xs"
    and "util.queued ((pinq.unlinked E n p)(i := e)) f' l' xs = util.queued E f' l' xs"
  by (intro util.queued_cong; use assms in \<open>auto simp: same_util_def\<close>)+

lemma q_inv_join_pin:
  assumes inv: "q_inv E h D T P" and i: "pin_status (E i) \<noteq> ST_PINNING" "i \<noteq> 0"
    and l: "l = last_pin_inode h"
    and e: "pin_status e = ST_PINNING" "pin_ll_next e = 0" "pin_ll_prev e = l" "same_util (E i) e"
    and h': "pin_part h' = (if P = [] then i else first_pin_inode h, i, num_pinning_inodes h + 1)"
      "dirty_part h' = dirty_part h" "delete_part h' = delete_part h"
  shows "q_inv ((pin_linked P l i E)(i := e)) h' D T (P @ [i])"
proof -
  have qP: "pinq.queued E (first_pin_inode h) (last_pin_inode h) P"
    using inv by (simp add: q_inv_def)
  have out: "i \<notin> set P" using inv i(1) by (auto simp: q_inv_def)
  from pinq.queued_snoc [OF qP out i(2) e(2)] e(3) l
  have "pinq.queued ((pin_linked P l i E)(i := e)) (if P = [] then i else first_pin_inode h) i (P @ [i])"
    by (simp add: pin_linked_def)
  then show ?thesis
    using inv e h' by (auto simp: q_inv_def part_defs util_queued_pin_changes same_util_def)
qed

lemma pin_queued_unlink_self:
  assumes "pinq.queued E f l xs" and "i \<in> set xs"
    and "n = pin_ll_next (E i)" and "p = pin_ll_prev (E i)"
  shows "pinq.queued ((pinq.unlinked E n p)(i := e)) (if p = 0 then n else f)
    (if n = 0 then p else l) (remove1 i xs)"
proof -
  have "i \<notin> set (remove1 i xs)"
    using pin_queued_props(1) [OF assms(1)] by simp
  then show ?thesis
    using pinq.queued_unlink [OF assms]
    by (subst pinq.queued_cong [where E' = "pinq.unlinked E n p"]) auto
qed

lemma q_inv_leave_pin:
  assumes inv: "q_inv E h D T P" and i: "i \<in> set P"
    and n: "n = pin_ll_next (E i)" and p: "p = pin_ll_prev (E i)"
    and e: "pin_status e \<noteq> ST_PINNING" "same_util (E i) e"
    and h': "pin_part h' = (if p = 0 then n else first_pin_inode h,
        if n = 0 then p else last_pin_inode h, num_pinning_inodes h - 1)"
      "dirty_part h' = dirty_part h" "delete_part h' = delete_part h"
  shows "q_inv ((pinq.unlinked E n p)(i := e)) h' D T (remove1 i P)"
proof -
  have qP: "pinq.queued E (first_pin_inode h) (last_pin_inode h) P"
    using inv by (simp add: q_inv_def)
  have "distinct P" by (rule pin_queued_props(1) [OF qP])
  then show ?thesis
    using inv pin_queued_unlink_self [OF qP i n p, of e] i e h'
    by (auto simp: q_inv_def part_defs util_queued_pin_changes int_length_remove1 same_util_def)
qed

lemma pin_neighbours:
  assumes "pinq.queued E f l xs" and "i \<in> set xs"
  shows "pin_ll_next (E i) \<noteq> 0 \<Longrightarrow> pin_ll_next (E i) \<in> set xs \<and> pin_ll_next (E i) \<noteq> i"
    and "pin_ll_prev (E i) \<noteq> 0 \<Longrightarrow> pin_ll_prev (E i) \<in> set xs \<and> pin_ll_prev (E i) \<noteq> i"
    and "pin_ll_next (E i) \<noteq> 0 \<Longrightarrow> pin_ll_prev (E i) \<noteq> 0 \<Longrightarrow> pin_ll_next (E i) \<noteq> pin_ll_prev (E i)"
    and "pin_ll_prev (E i) = 0 \<Longrightarrow> f = i"
proof -
  have q: "dqueue (\<lambda>i. pin_ll_next (E i)) (\<lambda>i. pin_ll_prev (E i)) f l xs"
    using assms(1) by (simp add: pinq.queued_def)
  obtain as bs where xs: "xs = as @ i # bs" using assms(2) by (meson split_list)
  show "pin_ll_prev (E i) = 0 \<Longrightarrow> f = i"
    using dqueue_node(6) [OF q xs] by simp
qed (use assms in \<open>auto simp: pinq.queued_def dest: dqueue_nbrs_mem\<close>)

subsection \<open>Frames\<close>

definition same_but_pin :: "SUPER_BLOCK_ENTRY \<Rightarrow> SUPER_BLOCK_ENTRY \<Rightarrow> bool" where
  "same_but_pin e e' \<longleftrightarrow>
     e'\<lparr>pin_ll_next := 0, pin_ll_prev := 0\<rparr> = e\<lparr>pin_ll_next := 0, pin_ll_prev := 0\<rparr>"

definition pin_frame :: "ino_t \<Rightarrow> sb_state \<Rightarrow> sb_state \<Rightarrow> bool" where
  "pin_frame i s s' \<longleftrightarrow> same_env s s' \<and> sb_io s' = sb_io s \<and> sync_point_info s' = sync_point_info s \<and>
     head_rest (sb_head s') = head_rest (sb_head s) \<and> dirty_bytes s' = dirty_bytes s \<and>
     disk_head s' = sb_head s' \<and> (\<forall>j. j \<noteq> i \<longrightarrow> same_but_pin (ents s j) (ents s' j))"

lemma same_but_pin_refl [simp]: "same_but_pin e e"
  by (simp add: same_but_pin_def)

lemma same_but_pin_changes [simp]:
  "same_but_pin (E j) (pin_linked P l i E j)" "same_but_pin (E j) (pinq.unlinked E n p j)"
  by (auto simp: same_but_pin_def pin_linked_def pinq.unlinked_def Let_def)

lemma same_but_pin_fields:
  assumes "same_but_pin e e'"
  shows "status e' = status e" "util_ll_next e' = util_ll_next e" "util_ll_prev e' = util_ll_prev e"
    and "this_index e' = this_index e" "pin_status e' = pin_status e"
    and "generation e' = generation e" "inode_stat e' = inode_stat e"
    and "dirty_meta_size e' = dirty_meta_size e"
proof -
  let ?z = "\<lambda>e. e\<lparr>pin_ll_next := 0, pin_ll_prev := 0\<rparr>"
  have eq: "?z e' = ?z e" using assms by (simp add: same_but_pin_def)
  show "status e' = status e" using arg_cong [OF eq, of status] by simp
  show "util_ll_next e' = util_ll_next e" using arg_cong [OF eq, of util_ll_next] by simp
  show "util_ll_prev e' = util_ll_prev e" using arg_cong [OF eq, of util_ll_prev] by simp
  show "this_index e' = this_index e" using arg_cong [OF eq, of this_index] by simp
  show "pin_status e' = pin_status e" using arg_cong [OF eq, of pin_status] by simp
  show "generation e' = generation e" using arg_cong [OF eq, of generation] by simp
  show "inode_stat e' = inode_stat e" using arg_cong [OF eq, of inode_stat] by simp
  show "dirty_meta_size e' = dirty_meta_size e" using arg_cong [OF eq, of dirty_meta_size] by simp
qed

lemma pin_frame_ready: "pin_frame i s s' \<Longrightarrow> ready s \<Longrightarrow> ready s'"
  using ready_cong [of s' s] by (simp add: pin_frame_def same_env_def)

subsection \<open>Joining\<close>

definition pinning_entry :: "ino_t \<Rightarrow> SUPER_BLOCK_ENTRY \<Rightarrow> SUPER_BLOCK_ENTRY" where
  "pinning_entry l e = e\<lparr>pin_ll_next := 0, pin_ll_prev := l, pin_status := ST_PINNING\<rparr>"

lemma pin_ll_enqueue_quiet:
  assumes rd: "ready s" and inv: "sb_inv s D T P" and i: "present s i"
    and ent: "same_util (ents s i) ent" "pin_status (ents s i) \<noteq> ST_PINNING" "pin_status ent = ST_UNPIN"
  shows "\<exists>s'. pin_ll_enqueue i ent s = (Inr 0, pinning_entry (last_or 0 P) ent, s') \<and>
    ents s' i = pinning_entry (last_or 0 P) ent \<and> sb_inv s' D T (P @ [i]) \<and> pin_frame i s s'"
proof -
  have q: "q_inv (ents s) (sb_head s) D T P" using inv by (simp add: sb_inv_def)
  let ?l = "last_pin_inode (sb_head s)" and ?e = "pinning_entry (last_pin_inode (sb_head s)) ent"
  have qP: "pinq.queued (ents s) (first_pin_inode (sb_head s)) ?l P" using q_inv_queued(3) [OF q] .
  have l: "?l = last_or 0 P" using qP by (simp add: pinq.queued_def dqueue_def)
  have l0: "?l = 0 \<longleftrightarrow> P = []" using pin_queued_props(4) [OF qP] .
  have i0: "i \<noteq> 0" using i by (simp add: present_def)
  have out: "i \<notin> set P" using q ent(2) by (auto simp: q_inv_def)
  have lP: "P \<noteq> [] \<Longrightarrow> ?l \<in> set P" using l by (simp add: last_or_def)
  then have pres: "P \<noteq> [] \<Longrightarrow> present s ?l" using q_inv_present(3) [OF inv] by blast
  let ?h = "\<lambda>h. if P = [] then h\<lparr>first_pin_inode := i, last_pin_inode := i\<rparr> else h\<lparr>last_pin_inode := i\<rparr>"
  let ?h2 = "\<lambda>h. h\<lparr>num_pinning_inodes := num_pinning_inodes h + 1\<rparr>"
  define s1 where "s1 = s\<lparr>sb_entries := sb_put i ?e (sb_entries s)\<rparr>"
  define s2 where "s2 = (if P = [] then s1
    else s1\<lparr>sb_entries := sb_put ?l ((ents s1 ?l)\<lparr>pin_ll_next := i\<rparr>) (sb_entries s1)\<rparr>)"
  define s3 where "s3 = wake_pin (upd_head ?h2 (upd_head ?h s2))"
  define s4 where "s4 = s3\<lparr>disk_head := sb_head s3\<rparr>"
  have e1: "ents s1 = (ents s)(i := ?e)" "present s1 = present s" "sb_io s1 = []"
    using i rd by (simp_all add: s1_def)
  have e2: "ents s2 = (pin_linked P ?l i (ents s))(i := ?e)" "sb_io s2 = []"
    using e1 pres lP out by (auto simp: s2_def pin_linked_def fun_eq_iff)
  have "pin_ll_enqueue i ent s = (Inr 0, ?e, s4)"
  proof (cases "P = []")
    case True
    with l0 i0 rd ent(3) e1(3) show ?thesis
      by (simp add: pin_ll_enqueue_def Let_def s4_def s3_def s2_def s1_def pinning_entry_def)
  next
    case False
    have w1: "write_super_block_entry i ?e s = (Inr (), s1)" using i0 rd by (simp add: s1_def)
    have r1: "read_super_block_entry ?l s1 = (Inr (ents s1 ?l), s1)" using e1 pres False by simp
    have w2: "write_super_block_entry ?l ((ents s1 ?l)\<lparr>pin_ll_next := i\<rparr>) s1 = (Inr (), s2)"
      using False l0 e1(3) by (simp add: s2_def)
    from False l0 ent(3) e2(2) w1 r1 w2 show ?thesis
      by (simp add: pin_ll_enqueue_def Let_def s4_def s3_def pinning_entry_def)
  qed
  moreover have e4: "ents s4 = ents s2" and h4: "sb_head s4 = ?h2 (?h (sb_head s))"
    by (simp_all add: s4_def s3_def s2_def s1_def)
  moreover have "sb_inv s4 D T (P @ [i])"
    using q_inv_join_pin [OF q ent(2) i0, of ?l ?e "sb_head s4"] ent(1) e4 h4 e2(1)
    by (auto simp: sb_inv_def part_defs pinning_entry_def same_util_def)
  moreover have "same_env s s4"
    using i pres by (auto simp: s4_def s3_def s2_def s1_def same_env_def present_def
        wake_pin_def upd_head_def)
  moreover have "dirty_bytes s4 = dirty_bytes s" "sb_io s4 = sb_io s" "disk_head s4 = sb_head s4"
    "sync_point_info s4 = sync_point_info s"
    by (simp_all add: s4_def s3_def s2_def s1_def)
  ultimately show ?thesis
    using e2(1) unfolding l by (auto simp: pin_frame_def head_rest_def)
qed

subsection \<open>Leaving\<close>

definition unpinned_links :: "SUPER_BLOCK_ENTRY \<Rightarrow> SUPER_BLOCK_ENTRY" where
  "unpinned_links e = e\<lparr>pin_ll_next := 0, pin_ll_prev := 0\<rparr>"

lemma pin_ll_dequeue_quiet:
  assumes rd: "ready s" and inv: "sb_inv s D T P" and ent: "same_pin (ents s i) ent"
    and st: "pin_status ent = ST_PINNING"
  shows "\<exists>s'. pin_ll_dequeue i ent s = (Inr 0, unpinned_links ent, s') \<and> pin_frame i s s' \<and>
    ents s' i = unpinned_links ent \<and>
    (\<forall>e. pin_status e \<noteq> ST_PINNING \<longrightarrow> same_util (ents s i) e \<longrightarrow>
      q_inv ((ents s')(i := e)) (sb_head s') D T (remove1 i P))"
proof -
  have q: "q_inv (ents s) (sb_head s) D T P" using inv by (simp add: sb_inv_def)
  have qP: "pinq.queued (ents s) (first_pin_inode (sb_head s)) (last_pin_inode (sb_head s)) P"
    using q_inv_queued(3) [OF q] .
  have i: "i \<in> set P" using q ent st by (auto simp: q_inv_def same_pin_def)
  define n p where "n = pin_ll_next (ents s i)" and "p = pin_ll_prev (ents s i)"
  have np: "pin_ll_next ent = n" "pin_ll_prev ent = p" using ent by (simp_all add: n_def p_def same_pin_def)
  note nb = pin_neighbours [OF qP i, folded n_def p_def]
  have pres: "present s j" if "j \<in> set P" for j using q_inv_present(3) [OF inv that] .
  let ?e = "unpinned_links ent"
  define s1 where "s1 = (if p \<noteq> 0 then s\<lparr>sb_entries := sb_put p ((ents s p)\<lparr>pin_ll_next := n\<rparr>) (sb_entries s)\<rparr>
    else upd_head (\<lambda>h. h\<lparr>first_pin_inode := n\<rparr>) s)"
  define s2 where "s2 = (if n \<noteq> 0 then s1\<lparr>sb_entries := sb_put n ((ents s1 n)\<lparr>pin_ll_prev := p\<rparr>) (sb_entries s1)\<rparr>
    else upd_head (\<lambda>h. h\<lparr>last_pin_inode := p\<rparr>) s1)"
  define s3 where "s3 = s2\<lparr>sb_entries := sb_put i ?e (sb_entries s2)\<rparr>"
  define s4 where "s4 = upd_head (\<lambda>h. h\<lparr>num_pinning_inodes := num_pinning_inodes h - 1\<rparr>) s3"
  define s5 where "s5 = s4\<lparr>disk_head := sb_head s4\<rparr>"
  have p1: "present s1 = present s" "sb_io s1 = []" using pres nb(2) rd by (auto simp: s1_def)
  have p2: "present s2 = present s" "sb_io s2 = []" using pres nb(1) p1 by (auto simp: s2_def)
  have e1: "ents s1 = (if p = 0 then ents s else (ents s)(p := (ents s p)\<lparr>pin_ll_next := n\<rparr>))"
    using pres nb(2) by (simp add: s1_def)
  have "ents s2 = (if n = 0 then ents s1 else (ents s1)(n := (ents s1 n)\<lparr>pin_ll_prev := p\<rparr>))"
    using pres nb(1) p1 by (simp add: s2_def)
  then have e2: "ents s2 = pinq.unlinked (ents s) n p"
    using e1 nb(3) by (auto simp: pinq.unlinked_def Let_def fun_eq_iff)
  have e5: "ents s5 = (pinq.unlinked (ents s) n p)(i := ?e)"
    using e2 p2 pres [OF i] by (simp add: s5_def s4_def s3_def)
  have h5: "sb_head s5 = (sb_head s)\<lparr>first_pin_inode := (if p = 0 then n else first_pin_inode (sb_head s)),
      last_pin_inode := (if n = 0 then p else last_pin_inode (sb_head s)),
      num_pinning_inodes := num_pinning_inodes (sb_head s) - 1\<rparr>"
    by (simp add: s5_def s4_def s3_def s2_def s1_def)
  have m1: "(if p \<noteq> 0 then bindE (read_super_block_entry p) (\<lambda>e. write_super_block_entry p (e\<lparr>pin_ll_next := n\<rparr>))
      else modifyE (upd_head (\<lambda>h. h\<lparr>first_pin_inode := n\<rparr>))) s = (Inr (), s1)"
    using pres nb(2) rd by (simp add: s1_def)
  have m2: "(if n \<noteq> 0 then bindE (read_super_block_entry n) (\<lambda>e. write_super_block_entry n (e\<lparr>pin_ll_prev := p\<rparr>))
      else modifyE (upd_head (\<lambda>h. h\<lparr>last_pin_inode := p\<rparr>))) s1 = (Inr (), s2)"
    using pres nb(1) p1 by (simp add: s2_def)
  have m3: "write_super_block_entry i ?e s2 = (Inr (), s3)"
    using pres [OF i] p2 by (simp add: s3_def present_def)
  have "pin_ll_dequeue i ent s = (Inr 0, ?e, s5)"
    using m1 m2 m3 nb(4) st p2(2)
    by (auto simp: pin_ll_dequeue_def np Let_def unpinned_links_def s5_def s4_def s3_def)
  moreover have "pin_frame i s s5"
  proof -
    have "same_env s s5"
      using pres nb(1,2) i by (auto simp: s5_def s4_def s3_def s2_def s1_def same_env_def present_def upd_head_def)
    moreover have "dirty_bytes s5 = dirty_bytes s" "sb_io s5 = sb_io s" "disk_head s5 = sb_head s5"
      "sync_point_info s5 = sync_point_info s"
      by (simp_all add: s5_def s4_def s3_def s2_def s1_def)
    ultimately show ?thesis by (simp add: pin_frame_def e5 h5 head_rest_def)
  qed
  moreover have "q_inv ((ents s5)(i := e)) (sb_head s5) D T (remove1 i P)"
    if "pin_status e \<noteq> ST_PINNING" "same_util (ents s i) e" for e
    using q_inv_leave_pin [OF q i n_def p_def that, of "sb_head s5"] e5 h5 by (simp add: part_defs)
  ultimately show ?thesis using e5 by auto
qed

end
