(* ===== verification/Super_Block_Spec.thy ===== *)
theory Super_Block_Spec
  imports Super_Block_Ops Super_Block_Pin
begin

text \<open>
  The specification of the super block and the proof that the handlers implement it.  The abstract
  state \<open>sb_lists\<close> has four lists of inode numbers: the dirty queue, the delete queue, the pinning queue
  and the list of reclaimed inodes ready for reuse.  \<open>sb_ok s A\<close> says that the concrete state
  represents \<open>A\<close>; each handler, when no system call fails, takes a represented state to one that represents
  the abstract result.
\<close>

subsection \<open>The abstract state and the representation relation\<close>

record sb_lists =
  dirty_q :: "ino_t list"
  delete_q :: "ino_t list"
  pin_q :: "ino_t list"
  reclaimed_q :: "ino_t list"

fun slinked :: "(nat \<Rightarrow> nat) \<Rightarrow> nat list \<Rightarrow> bool" where
  "slinked nx [] \<longleftrightarrow> True"
| "slinked nx (x # xs) \<longleftrightarrow> nx x = first_or 0 xs \<and> slinked nx xs"

definition r_inv :: "(ino_t \<Rightarrow> SUPER_BLOCK_ENTRY) \<Rightarrow> SUPER_BLOCK_HEAD \<Rightarrow> ino_t list \<Rightarrow> bool" where
  "r_inv E h R \<longleftrightarrow> distinct R \<and> 0 \<notin> set R \<and> first_reclaimed_inode h = first_or 0 R \<and>
     last_reclaimed_inode h = last_or 0 R \<and> num_inode_reclaimed h = int (length R) \<and>
     slinked (\<lambda>i. util_ll_next (E i)) R \<and> (\<forall>i. i \<in> set R \<longleftrightarrow> status (E i) = RECLAIMED)"

definition size_ok :: "sb_state \<Rightarrow> bool" where
  "size_ok s \<longleftrightarrow> length (sb_entries s) =
     (if num_total_inodes (sb_head s) = 0 then 0 else num_total_inodes (sb_head s) + 1)"

text \<open>An inode that is waiting to be reclaimed, or reclaimed, is not pinned.\<close>

definition gone_ok :: "(ino_t \<Rightarrow> SUPER_BLOCK_ENTRY) \<Rightarrow> bool" where
  "gone_ok E \<longleftrightarrow> (\<forall>i. status (E i) = TO_BE_RECLAIMED \<or> status (E i) = RECLAIMED \<longrightarrow>
     pin_status (E i) = ST_DEL)"

definition sb_ok :: "sb_state \<Rightarrow> sb_lists \<Rightarrow> bool" where
  "sb_ok s A \<longleftrightarrow> ready s \<and> sb_inv s (dirty_q A) (delete_q A) (pin_q A) \<and>
     r_inv (ents s) (sb_head s) (reclaimed_q A) \<and> size_ok s \<and> gone_ok (ents s)"

lemma slinked_cong: "(\<And>x. x \<in> set xs \<Longrightarrow> nx x = nx' x) \<Longrightarrow> slinked nx xs = slinked nx' xs"
  by (induction xs) auto

lemma sb_ok_locked [simp]: "sb_ok (s\<lparr>sb_locked := b\<rparr>) A = sb_ok s A"
  by (simp add: sb_ok_def sb_inv_def size_ok_def ready_def sync_wf_def)

lemma sb_ok_disk [simp]: "sb_ok (s\<lparr>disk_head := h\<rparr>) A = sb_ok s A"
  by (simp add: sb_ok_def sb_inv_def size_ok_def ready_def sync_wf_def)

lemma sb_ok_ready: "sb_ok s A \<Longrightarrow> ready s"
  by (simp add: sb_ok_def)

subsection \<open>Storing the entry at the end of a handler\<close>

definition reclaim_part :: "SUPER_BLOCK_HEAD \<Rightarrow> int \<times> ino_t \<times> ino_t \<times> nat" where
  "reclaim_part h = (num_inode_reclaimed h, first_reclaimed_inode h, last_reclaimed_inode h, num_total_inodes h)"

lemma reclaim_part_rest: "head_rest h' = head_rest h \<Longrightarrow> reclaim_part h' = reclaim_part h"
  by (simp add: head_rest_def reclaim_part_def)

text \<open>What a handler working on inode \<open>i\<close> leaves alone.\<close>

definition op_frame :: "ino_t \<Rightarrow> sb_state \<Rightarrow> sb_state \<Rightarrow> bool" where
  "op_frame i s s' \<longleftrightarrow> same_env s s' \<and> reclaim_part (sb_head s') = reclaim_part (sb_head s) \<and>
     (\<forall>j. j \<noteq> i \<longrightarrow> status (ents s' j) = status (ents s j) \<and> generation (ents s' j) = generation (ents s j) \<and>
        inode_stat (ents s' j) = inode_stat (ents s j) \<and> pin_status (ents s' j) = pin_status (ents s j) \<and>
        (idle_status (status (ents s j)) \<longrightarrow> util_ll_next (ents s' j) = util_ll_next (ents s j)))"

lemma op_frame_refl [simp]: "op_frame i s s"
  by (simp add: op_frame_def)

lemma op_frame_trans: "op_frame i s t \<Longrightarrow> op_frame i t u \<Longrightarrow> op_frame i s u"
  by (auto simp: op_frame_def intro: same_env_trans)

lemma op_frame_prim: "prim_frame s s' \<Longrightarrow> op_frame i s s'"
  using same_but_util_fields(1,4,5,7) reclaim_part_rest [of "sb_head s'" "sb_head s"] by (auto simp: prim_frame_def op_frame_def)

lemma op_frame_pin: "pin_frame i s s' \<Longrightarrow> op_frame i s s'"
  using same_but_pin_fields reclaim_part_rest [of "sb_head s'" "sb_head s"] by (auto simp: pin_frame_def op_frame_def)

lemma op_frame_disk [simp]: "op_frame i s (s'\<lparr>disk_head := h\<rparr>) = op_frame i s s'"
  by (simp add: op_frame_def)

lemma r_inv_store:
  assumes "r_inv (ents s) (sb_head s) R" and fr: "op_frame i s s'"
    and "status (ents s i) \<noteq> RECLAIMED" "status e \<noteq> RECLAIMED"
  shows "r_inv ((ents s')(i := e)) (sb_head s') R"
proof -
  have st: "\<forall>j. j \<in> set R \<longleftrightarrow> status (ents s j) = RECLAIMED" using assms(1) by (simp add: r_inv_def)
  have "slinked (\<lambda>j. util_ll_next (((ents s')(i := e)) j)) R = slinked (\<lambda>j. util_ll_next (ents s j)) R"
    using st assms(3) fr by (intro slinked_cong) (auto simp: op_frame_def)
  then show ?thesis
    using assms by (auto simp: r_inv_def op_frame_def reclaim_part_def)
qed

lemma sb_ok_store:
  assumes "sb_ok s A" and "ready s1" and fr: "op_frame i s s1" and i: "present s i"
    and "status (ents s i) \<noteq> RECLAIMED" "status e \<noteq> RECLAIMED"
    and gone: "status e = TO_BE_RECLAIMED \<Longrightarrow> pin_status e = ST_DEL"
    and q: "q_inv ((ents s1)(i := e)) (sb_head s1) D T P"
  shows "sb_ok (s1\<lparr>sb_entries := sb_put i e (sb_entries s1)\<rparr>)
    (A\<lparr>dirty_q := D, delete_q := T, pin_q := P\<rparr>)"
proof -
  have len: "length (sb_entries s1) = length (sb_entries s)" using fr by (simp add: op_frame_def same_env_def)
  then have p1: "present s1 i" using i by (simp add: present_def)
  let ?s = "s1\<lparr>sb_entries := sb_put i e (sb_entries s1)\<rparr>"
  have E: "ents ?s = (ents s1)(i := e)" using p1 by simp
  have "r_inv (ents ?s) (sb_head ?s) (reclaimed_q A)"
    unfolding E using r_inv_store [OF _ fr assms(5,6)] assms(1) by (simp add: sb_ok_def)
  moreover have "size_ok ?s"
    using assms(1) len p1 fr by (simp add: sb_ok_def size_ok_def present_def op_frame_def reclaim_part_def)
  moreover have "ready ?s" using assms(2) ready_cong [of ?s s1] by simp
  moreover have "gone_ok (ents ?s)"
    unfolding E using assms(1,6) gone fr by (auto simp: sb_ok_def gone_ok_def op_frame_def)
  ultimately show ?thesis
    using q E by (simp add: sb_ok_def sb_inv_def)
qed

lemma op_frame_store:
  "op_frame i s s1 \<Longrightarrow> present s i \<Longrightarrow> op_frame i s (s1\<lparr>sb_entries := sb_put i e (sb_entries s1)\<rparr>)"
proof -
  assume fr: "op_frame i s s1" and i: "present s i"
  have p1: "present s1 i" using fr i by (simp add: op_frame_def same_env_def present_def)
  then have "same_env s (s1\<lparr>sb_entries := sb_put i e (sb_entries s1)\<rparr>)"
    using fr by (simp add: op_frame_def same_env_def present_def)
  with p1 fr show ?thesis by (auto simp: op_frame_def)
qed

lemma with_exclusive_Inr:
  "m (s\<lparr>sb_locked := True\<rparr>) = (r, s') \<Longrightarrow> with_exclusive m s = (r, s'\<lparr>sb_locked := False\<rparr>)"
  by (simp add: with_exclusive_def super_block_exclusive_locking_def super_block_exclusive_release_def)

lemma entE_Inr [simp]: "opr e s = (Inr x, e', s') \<Longrightarrow> entE opr e s = (Inr e', s')"
  by (simp add: entE_def)

lemma entI_Inr [simp]: "opr e s = (Inr x, e', s') \<Longrightarrow> entI opr e s = (Inr e', s')"
  by (simp add: entI_def)

subsection \<open>Enqueueing an entry that is in no queue\<close>

definition enq_idle_entry ::
  "sb_status \<Rightarrow> int \<Rightarrow> ino_t list \<Rightarrow> ino_t list \<Rightarrow> SUPER_BLOCK_ENTRY \<Rightarrow> SUPER_BLOCK_ENTRY" where
  "enq_idle_entry w sz D T e =
     (if w = IS_DIRTY then dirty_entry (last_or 0 D) sz e else delete_entry (last_or 0 T) e)"

definition enq_idle_lists :: "sb_status \<Rightarrow> ino_t \<Rightarrow> ino_t list \<Rightarrow> ino_t list \<Rightarrow> ino_t list \<times> ino_t list" where
  "enq_idle_lists w i D T = (if w = IS_DIRTY then (D @ [i], T) else (D, T @ [i]))"

lemma ll_enqueue_idle:
  assumes rd: "ready s" and i0: "i \<noteq> 0" and idle: "idle_status (status ent)" "idle_status (status e0)"
    and q: "q_inv ((ents s)(i := e0)) (sb_head s) D T P" and w: "w = IS_DIRTY \<or> w = TO_BE_DELETED"
  shows "\<exists>s'. ll_enqueue i w ent s = (Inr (), enq_idle_entry w (get_meta_size i s) D T ent, s') \<and>
    enq_post i s s' (enq_idle_entry w (get_meta_size i s) D T ent) e0 (enq_idle_lists w i D T) P \<and>
    dirty_bytes s' = (if w = IS_DIRTY then dirty_raise (get_meta_size i s) (dirty_bytes s) else dirty_bytes s)"
proof -
  have st: "status ent \<noteq> w" using idle(1) w by auto
  have start: "(if status ent \<noteq> NO_LL then ll_dequeue i ent s else (Inr (), ent, s)) = (Inr (), ent, s)"
    using idle(1) by (cases "status ent") (auto simp: ll_dequeue_def)
  show ?thesis
  proof (cases "w = IS_DIRTY")
    case True
    with st start ll_enqueue_dirty_quiet [OF rd i0 idle(2) q, of ent] show ?thesis
      by (auto simp: ll_enqueue_def enq_idle_entry_def enq_idle_lists_def enq_post_def
          same_util_def dirty_entry_def)
  next
    case False
    with w have "w = TO_BE_DELETED" by simp
    with st start ll_enqueue_delete_quiet [OF rd i0 idle(2) q, of ent] show ?thesis
      by (auto simp: ll_enqueue_def enq_idle_entry_def enq_idle_lists_def enq_post_def
          same_util_def delete_entry_def)
  qed
qed

text \<open>Out of whichever queue the inode is in, and into queue \<open>w\<close>.\<close>

lemma dequeue_enqueue_quiet:
  assumes rd: "ready s" and pend: "pending s i ent e0 D T P" and i0: "i \<noteq> 0"
    and w: "w = IS_DIRTY \<or> w = TO_BE_DELETED"
  shows "\<exists>s'. bindE (entE (ll_dequeue i) ent) (entE (ll_enqueue i w)) s =
      (Inr (enq_idle_entry w (get_meta_size i s) (remove1 i D) (remove1 i T) (dequeued ent)), s') \<and>
    enq_post i s s' (enq_idle_entry w (get_meta_size i s) (remove1 i D) (remove1 i T) (dequeued ent)) e0
      (enq_idle_lists w i (remove1 i D) (remove1 i T)) P \<and>
    dirty_bytes s' = (if w = IS_DIRTY
      then dirty_raise (get_meta_size i s) (dirty_drop ent (dirty_bytes s))
      else dirty_drop ent (dirty_bytes s))"
proof -
  obtain s1 where s1: "ll_dequeue i ent s = (Inr (), dequeued ent, s1)" "dequeue_post i e0 s s1 D T P"
    "dirty_bytes s1 = dirty_drop ent (dirty_bytes s)"
    using ll_dequeue_quiet [OF rd pend] by blast
  let ?e1 = "e0\<lparr>status := NO_LL\<rparr>"
  have p1: "ready s1" "prim_frame s s1"
    and q1: "q_inv ((ents s1)(i := ?e1)) (sb_head s1) (remove1 i D) (remove1 i T) P"
    using s1(2) by (simp_all add: dequeue_post_def same_pin_def)
  have sz: "get_meta_size i s1 = get_meta_size i s" using prim_frame_meta_size [OF p1(2)] .
  have idle: "idle_status (status (dequeued ent))" "idle_status (status ?e1)" by simp_all
  obtain s2 where s2: "ll_enqueue i w (dequeued ent) s1 = (Inr (),
      enq_idle_entry w (get_meta_size i s) (remove1 i D) (remove1 i T) (dequeued ent), s2)"
    "enq_post i s1 s2 (enq_idle_entry w (get_meta_size i s) (remove1 i D) (remove1 i T) (dequeued ent)) ?e1
      (enq_idle_lists w i (remove1 i D) (remove1 i T)) P"
    "dirty_bytes s2 = (if w = IS_DIRTY then dirty_raise (get_meta_size i s) (dirty_bytes s1) else dirty_bytes s1)"
    using ll_enqueue_idle [OF p1(1) i0 idle q1 w] sz by auto
  then have "enq_post i s s2 (enq_idle_entry w (get_meta_size i s) (remove1 i D) (remove1 i T) (dequeued ent)) e0
      (enq_idle_lists w i (remove1 i D) (remove1 i T)) P"
    using prim_frame_trans [OF p1(2)] by (auto simp: enq_post_def same_pin_def)
  with s1 s2 show ?thesis by simp
qed

end
