(* ===== verification/Super_Block_Handlers.thy ===== *)
theory Super_Block_Handlers
  imports Super_Block_Spec
begin

text \<open>
  Refinement of the super block handlers: for each, the abstract operation on the four lists and the lemma
  that the code implements it when no system call fails.  A handler is called on an inode number inside the
  file whose entry is not on the reclaimed list (\<open>live\<close>).
\<close>

definition live :: "sb_state \<Rightarrow> ino_t \<Rightarrow> bool" where
  "live s i \<longleftrightarrow> present s i \<and> status (ents s i) \<noteq> RECLAIMED"

lemma live_locked [simp]: "live (s\<lparr>sb_locked := b\<rparr>) i = live s i"
  by (simp add: live_def)

text \<open>How a handler ends: the lock is free, and the state represents \<open>A\<close>.\<close>

definition ends_ok :: "ino_t \<Rightarrow> sb_state \<Rightarrow> sb_state \<Rightarrow> sb_lists \<Rightarrow> bool" where
  "ends_ok i s s' A \<longleftrightarrow> sb_ok s' A \<and> \<not> sb_locked s' \<and> op_frame i (s\<lparr>sb_locked := False\<rparr>) s'"

lemma op_frame_lock: "op_frame i (s\<lparr>sb_locked := b\<rparr>) s' \<Longrightarrow> op_frame i (s\<lparr>sb_locked := c\<rparr>) (s'\<lparr>sb_locked := c\<rparr>)"
  by (simp add: op_frame_def same_env_def)

lemma sb_ok_lists: "A\<lparr>dirty_q := dirty_q A, delete_q := delete_q A, pin_q := pin_q A\<rparr> = A"
  by (cases A) simp

text \<open>The last step of most handlers: storing the entry.\<close>

lemma finish_store:
  assumes ok: "sb_ok s A" and rd: "ready s1" and fr: "op_frame i (s\<lparr>sb_locked := True\<rparr>) s1"
    and i: "live s i" and e: "status e \<noteq> RECLAIMED" "status e = TO_BE_RECLAIMED \<Longrightarrow> pin_status e = ST_DEL"
    and q: "q_inv ((ents s1)(i := e)) (sb_head s1) D T P"
  shows "\<exists>s'. write_super_block_entry i e s1 = (Inr (), s') \<and> ents s' i = e \<and>
    dirty_bytes s' = dirty_bytes s1 \<and> sb_head s' = sb_head s1 \<and> disk_head s' = disk_head s1 \<and>
    ends_ok i s (s'\<lparr>sb_locked := False\<rparr>) (A\<lparr>dirty_q := D, delete_q := T, pin_q := P\<rparr>)"
proof -
  let ?s = "s\<lparr>sb_locked := True\<rparr>" and ?s' = "s1\<lparr>sb_entries := sb_put i e (sb_entries s1)\<rparr>"
  have i': "present ?s i" "status (ents ?s i) \<noteq> RECLAIMED" using i by (simp_all add: live_def)
  have p1: "present s1 i" using fr i' by (simp add: op_frame_def same_env_def present_def)
  then have "write_super_block_entry i e s1 = (Inr (), ?s')"
    using rd by (simp add: present_def)
  moreover have "sb_ok ?s' (A\<lparr>dirty_q := D, delete_q := T, pin_q := P\<rparr>)"
    using sb_ok_store [OF _ rd fr i' e(1) _ q] e(2) ok by simp
  moreover have "op_frame i (s\<lparr>sb_locked := False\<rparr>) (?s'\<lparr>sb_locked := False\<rparr>)"
    by (rule op_frame_lock [OF op_frame_store [OF fr i'(1)]])
  ultimately show ?thesis using p1 by (simp add: ends_ok_def)
qed

lemma start_facts:
  assumes "sb_ok s A" and "live s i"
  defines "s0 \<equiv> s\<lparr>sb_locked := True\<rparr>"
  shows "ready s0" "i \<noteq> 0" "read_super_block_entry i s0 = (Inr (ents s i), s0)"
    and "pending s0 i (ents s i) (ents s i) (dirty_q A) (delete_q A) (pin_q A)"
    and "dirty_bytes s0 = dirty_bytes s" "get_meta_size j s0 = get_meta_size j s"
    and "sb_inv s0 (dirty_q A) (delete_q A) (pin_q A)"
proof -
  show r: "ready s0" using assms ready_cong [of s0 s] by (simp add: sb_ok_def)
  have p: "present s i" using assms(2) by (simp add: live_def)
  then show "i \<noteq> 0" by (simp add: present_def)
  show "read_super_block_entry i s0 = (Inr (ents s i), s0)" using r p by (simp add: s0_def)
  show inv: "sb_inv s0 (dirty_q A) (delete_q A) (pin_q A)"
    using assms by (simp add: sb_ok_def sb_inv_def)
  show "pending s0 i (ents s i) (ents s i) (dirty_q A) (delete_q A) (pin_q A)"
    using pending_start [OF inv, of i] by (simp add: s0_def)
  show "dirty_bytes s0 = dirty_bytes s" "get_meta_size j s0 = get_meta_size j s"
    by (simp_all add: s0_def dirty_bytes_def get_meta_size_def)
qed

subsection \<open>Marking dirty\<close>

definition requeued_entry :: "ino_t \<Rightarrow> int \<Rightarrow> ino_t list \<Rightarrow> SUPER_BLOCK_ENTRY \<Rightarrow> SUPER_BLOCK_ENTRY" where
  "requeued_entry i sz D e = dirty_entry (last_or 0 (remove1 i D)) sz (dequeued e)"

lemma requeue_dirty_quiet:
  assumes rd: "ready s" and pend: "pending s i ent e0 D T P" and i0: "i \<noteq> 0"
  shows "\<exists>s'. requeue_dirty i ent s = (Inr (requeued_entry i (get_meta_size i s) D ent), s') \<and> ready s' \<and>
    op_frame i s s' \<and> disk_head s' = sb_head s' \<and>
    (\<forall>e. same_util (requeued_entry i (get_meta_size i s) D ent) e \<longrightarrow> same_pin e0 e \<longrightarrow>
      q_inv ((ents s')(i := e)) (sb_head s') (remove1 i D @ [i]) (remove1 i T) P) \<and>
    dirty_bytes s' = dirty_raise (get_meta_size i s) (dirty_drop ent (dirty_bytes s))"
proof -
  let ?e = "requeued_entry i (get_meta_size i s) D ent"
  obtain s1 where s1: "bindE (entE (ll_dequeue i) ent) (entE (ll_enqueue i IS_DIRTY)) s = (Inr ?e, s1)"
    "enq_post i s s1 ?e e0 (remove1 i D @ [i], remove1 i T) P"
    "dirty_bytes s1 = dirty_raise (get_meta_size i s) (dirty_drop ent (dirty_bytes s))"
    using dequeue_enqueue_quiet [OF rd pend i0, of IS_DIRTY]
    by (auto simp: enq_idle_entry_def enq_idle_lists_def requeued_entry_def)
  let ?s' = "s1\<lparr>disk_head := sb_head s1\<rparr>"
  have p: "ready s1" "prim_frame s s1" using s1(2) by (simp_all add: enq_post_def)
  have "requeue_dirty i ent s = bindE (bindE (entE (ll_dequeue i) ent) (entE (ll_enqueue i IS_DIRTY)))
      (\<lambda>e2. bindE write_super_block_head (\<lambda>_. returnE e2)) s"
    by (simp add: requeue_dirty_def bindE_assoc)
  also have "\<dots> = (Inr ?e, ?s')" using s1(1) p(1) by simp
  finally show ?thesis
    using s1(2,3) p op_frame_prim [OF p(2), of i] ready_cong [of ?s' s1] by (auto simp: enq_post_def)
qed

definition a_requeue :: "ino_t \<Rightarrow> sb_lists \<Rightarrow> sb_lists" where
  "a_requeue i A = A\<lparr>dirty_q := remove1 i (dirty_q A) @ [i], delete_q := remove1 i (delete_q A)\<rparr>"

lemma a_requeue_store:
  "A\<lparr>dirty_q := remove1 i (dirty_q A) @ [i], delete_q := remove1 i (delete_q A), pin_q := pin_q A\<rparr> =
    a_requeue i A"
  by (cases A) (simp add: a_requeue_def)

lemma touch_transit_same [simp]: "same_util e (touch_transit e)" "same_pin e (touch_transit e)"
  "status (touch_transit e) = status e" "dirty_meta_size (touch_transit e) = dirty_meta_size e"
  "generation (touch_transit e) = generation e"
  by (simp_all add: touch_transit_def same_util_def same_pin_def)

lemma same_util_trans: "same_util a b \<Longrightarrow> same_util b c \<Longrightarrow> same_util a c"
  by (simp add: same_util_def)

lemma same_pin_trans: "same_pin a b \<Longrightarrow> same_pin b c \<Longrightarrow> same_pin a c"
  by (simp add: same_pin_def)

lemma same_pin_requeued: "same_pin e (requeued_entry i sz D e)"
  by (simp add: requeued_entry_def same_pin_def dirty_entry_def dequeued_def detached_def)

lemma requeued_status [simp]: "status (requeued_entry i sz D e) = IS_DIRTY"
  by (simp add: requeued_entry_def dirty_entry_def)

text \<open>Requeueing a live inode and storing any entry that agrees with the requeued one on the links.\<close>

lemma requeue_store:
  assumes ok: "sb_ok s A" and i: "live s i"
    and ent: "same_util (ents s i) ent" "same_pin (ents s i) ent"
    and f: "\<And>e. same_util e (f e)" "\<And>e. same_pin e (f e)"
  shows "\<exists>s'. bindE (requeue_dirty i ent) (\<lambda>e. write_super_block_entry i (f e)) (s\<lparr>sb_locked := True\<rparr>) = (Inr (), s') \<and>
    ents s' i = f (requeued_entry i (get_meta_size i s) (dirty_q A) ent) \<and>
    dirty_bytes s' = dirty_raise (get_meta_size i s) (dirty_drop ent (dirty_bytes s)) \<and>
    disk_head s' = sb_head s' \<and> ends_ok i s (s'\<lparr>sb_locked := False\<rparr>) (a_requeue i A)"
proof -
  let ?s0 = "s\<lparr>sb_locked := True\<rparr>"
  note st = start_facts [OF ok i]
  let ?e = "requeued_entry i (get_meta_size i s) (dirty_q A) ent"
  obtain s1 where s1: "requeue_dirty i ent ?s0 = (Inr ?e, s1)" "ready s1" "op_frame i ?s0 s1"
    "disk_head s1 = sb_head s1"
    "\<forall>e. same_util ?e e \<longrightarrow> same_pin (ents s i) e \<longrightarrow> q_inv ((ents s1)(i := e)) (sb_head s1)
      (remove1 i (dirty_q A) @ [i]) (remove1 i (delete_q A)) (pin_q A)"
    "dirty_bytes s1 = dirty_raise (get_meta_size i s) (dirty_drop ent (dirty_bytes s))"
    using requeue_dirty_quiet [OF st(1) pending_copy [OF st(4) ent(1)] st(2)] st(5,6) by auto
  have "same_pin (ents s i) (f ?e)"
    using same_pin_trans [OF ent(2) same_pin_trans [OF same_pin_requeued f(2)]] .
  then have q: "q_inv ((ents s1)(i := f ?e)) (sb_head s1) (remove1 i (dirty_q A) @ [i])
      (remove1 i (delete_q A)) (pin_q A)"
    using s1(5) f(1) by blast
  have "status (f ?e) = IS_DIRTY" using f(1) [of ?e] by (simp add: same_util_def)
  with finish_store [OF ok s1(2,3) i _ _ q] s1(1,4,6) show ?thesis
    by (auto simp: a_requeue_store)
qed

text \<open>Storing an entry that agrees with the old one on the links.\<close>

lemma plain_store:
  assumes ok: "sb_ok s A" and i: "live s i"
    and e: "same_util (ents s i) e" "same_pin (ents s i) e"
  shows "\<exists>s'. write_super_block_entry i e (s\<lparr>sb_locked := True\<rparr>) = (Inr (), s') \<and> ents s' i = e \<and>
    dirty_bytes s' = dirty_bytes s \<and> ends_ok i s (s'\<lparr>sb_locked := False\<rparr>) A"
proof -
  note st = start_facts [OF ok i]
  have q: "q_inv ((ents s)(i := e)) (sb_head s) (dirty_q A) (delete_q A) (pin_q A)"
    using q_inv_upd_same e ok by (auto simp: sb_ok_def sb_inv_def)
  have "status e \<noteq> RECLAIMED" using e(1) i by (simp add: same_util_def live_def)
  moreover have "status e = TO_BE_RECLAIMED \<Longrightarrow> pin_status e = ST_DEL"
    using e ok by (simp add: same_util_def same_pin_def sb_ok_def gone_ok_def)
  ultimately show ?thesis
    using finish_store [OF ok st(1) op_frame_refl i, of e "dirty_q A" "delete_q A" "pin_q A"] q st(5)
    by (auto simp: sb_ok_lists)
qed

lemma super_block_mark_dirty_new:
  assumes ok: "sb_ok s A" and i: "live s i" and ino: "st_ino (inode_stat (ents s i)) \<noteq> 0"
    and st: "status (ents s i) = NO_LL"
  shows "\<exists>s'. super_block_mark_dirty i s = (Inr (), s') \<and>
    ends_ok i s s' (A\<lparr>dirty_q := dirty_q A @ [i]\<rparr>) \<and> status (ents s' i) = IS_DIRTY \<and>
    dirty_bytes s' = dirty_raise (get_meta_size i s) (dirty_bytes s)"
proof -
  let ?s0 = "s\<lparr>sb_locked := True\<rparr>" and ?D = "dirty_q A" and ?T = "delete_q A"
  note sf = start_facts [OF ok i]
  have idle: "idle_status (status (ents s i))" using st by simp
  have q0: "q_inv ((ents ?s0)(i := ents s i)) (sb_head ?s0) ?D ?T (pin_q A)"
    using sf(4) by (simp add: pending_def)
  let ?e = "dirty_entry (last_or 0 ?D) (get_meta_size i s) (ents s i)"
  obtain s1 where s1: "ll_enqueue i IS_DIRTY (ents s i) ?s0 = (Inr (), ?e, s1)"
    "enq_post i ?s0 s1 ?e (ents s i) (?D @ [i], ?T) (pin_q A)"
    "dirty_bytes s1 = dirty_raise (get_meta_size i s) (dirty_bytes s)"
    using ll_enqueue_idle [OF sf(1,2) idle idle q0, of IS_DIRTY] sf(5,6)
    by (auto simp: enq_idle_entry_def enq_idle_lists_def)
  let ?s2 = "s1\<lparr>disk_head := sb_head s1\<rparr>" and ?t = "touch_transit ?e"
  have p: "ready s1" "prim_frame ?s0 s1" using s1(2) by (simp_all add: enq_post_def)
  have pe: "same_pin (ents s i) ?e" by (simp add: dirty_entry_def same_pin_def)
  have q2: "q_inv ((ents ?s2)(i := ?t)) (sb_head ?s2) (?D @ [i]) ?T (pin_q A)"
    using s1(2) same_pin_trans [OF pe] by (auto simp: enq_post_def)
  have r2: "ready ?s2" using p(1) ready_cong [of ?s2 s1] by simp
  obtain s3 where s3: "write_super_block_entry i ?t ?s2 = (Inr (), s3)" "ents s3 i = ?t"
    "dirty_bytes s3 = dirty_bytes s1"
    "ends_ok i s (s3\<lparr>sb_locked := False\<rparr>) (A\<lparr>dirty_q := ?D @ [i], delete_q := ?T, pin_q := pin_q A\<rparr>)"
    using finish_store [OF ok r2 _ i _ _ q2] op_frame_prim [OF p(2), of i] by (auto simp: dirty_entry_def)
  have "A\<lparr>dirty_q := ?D @ [i], delete_q := ?T, pin_q := pin_q A\<rparr> = A\<lparr>dirty_q := ?D @ [i]\<rparr>" by (cases A) simp
  moreover have "super_block_mark_dirty i s = (Inr (), s3\<lparr>sb_locked := False\<rparr>)"
    unfolding super_block_mark_dirty_def using sf(3) ino st s1(1) s3(1) p(1)
    by (intro with_exclusive_Inr) (simp add: mark_dirty_status_def)
  ultimately show ?thesis using s3 s1(3) by (simp add: dirty_entry_def dirty_bytes_def)
qed

end
