(* ===== verification/Super_Block_Handlers2.thy ===== *)
theory Super_Block_Handlers2
  imports Super_Block_Handlers
begin

text \<open>
  Refinement, continued: updating the stat, the end of an upload, deletion, and pinning.
\<close>

subsection \<open>Updating the stat of an inode\<close>

lemma super_block_update_stat_sync:
  assumes ok: "sb_ok s A" and i: "live s i" and ino: "st_ino (inode_stat (ents s i)) \<noteq> 0"
  shows "\<exists>s'. super_block_update_stat i st False s = (Inr (), s') \<and>
    ends_ok i s s' (if status (ents s i) = IS_DIRTY then A else a_requeue i A) \<and>
    inode_stat (ents s' i) = st \<and> status (ents s' i) = IS_DIRTY"
proof -
  let ?s0 = "s\<lparr>sb_locked := True\<rparr>"
  let ?f = "\<lambda>e. (touch_transit e)\<lparr>inode_stat := st\<rparr>"
  note sf = start_facts [OF ok i]
  have f: "same_util e (?f e)" "same_pin e (?f e)" for e
    by (simp_all add: same_util_def same_pin_def touch_transit_def)
  show ?thesis
  proof (cases "status (ents s i) = IS_DIRTY")
    case True
    obtain s' where s': "write_super_block_entry i (?f (ents s i)) ?s0 = (Inr (), s')"
      "ents s' i = ?f (ents s i)" "ends_ok i s (s'\<lparr>sb_locked := False\<rparr>) A"
      using plain_store [OF ok i f] by blast
    have "super_block_update_stat i st False s = (Inr (), s'\<lparr>sb_locked := False\<rparr>)"
      unfolding super_block_update_stat_def using sf(3) ino True s'(1)
      by (intro with_exclusive_Inr) simp
    with s' True show ?thesis by simp
  next
    case False
    have su: "same_util (ents s i) (ents s i)" "same_pin (ents s i) (ents s i)"
      by (simp_all add: same_util_def same_pin_def)
    obtain s' where s': "bindE (requeue_dirty i (ents s i)) (\<lambda>e. write_super_block_entry i (?f e)) ?s0 = (Inr (), s')"
      "ents s' i = ?f (requeued_entry i (get_meta_size i s) (dirty_q A) (ents s i))"
      "ends_ok i s (s'\<lparr>sb_locked := False\<rparr>) (a_requeue i A)"
      using requeue_store [OF ok i su, of ?f] f by blast
    have "super_block_update_stat i st False s = (Inr (), s'\<lparr>sb_locked := False\<rparr>)"
      unfolding super_block_update_stat_def using sf(3) ino False s'(1)
      by (intro with_exclusive_Inr) simp
    with s' False show ?thesis by simp
  qed
qed

subsection \<open>The end of an upload\<close>

lemma a_lists_leave:
  "A\<lparr>dirty_q := D, delete_q := T, pin_q := pin_q A\<rparr> = A\<lparr>dirty_q := D, delete_q := T\<rparr>"
  by (cases A) simp

text \<open>An upload that completed with no modification in between: the inode leaves the dirty queue.\<close>

lemma super_block_transit_clean:
  assumes ok: "sb_ok s A" and i: "live s i" and st: "status (ents s i) = IS_DIRTY"
    and "\<not> mod_after_in_transit (ents s i)"
  shows "\<exists>s'. super_block_update_transit i False False s = (Inr (), s') \<and>
    ends_ok i s s' (A\<lparr>dirty_q := remove1 i (dirty_q A)\<rparr>) \<and> status (ents s' i) = NO_LL \<and>
    lastsync_time (ents s' i) = sb_clock s \<and>
    dirty_bytes s' = add_clamp (dirty_bytes s) (- dirty_meta_size (ents s i))"
proof -
  let ?s0 = "s\<lparr>sb_locked := True\<rparr>" and ?D = "dirty_q A" and ?T = "delete_q A"
  let ?e = "(ents s i)\<lparr>lastsync_time := sb_clock s\<rparr>"
  note sf = start_facts [OF ok i]
  have pend: "pending ?s0 i ?e (ents s i) ?D ?T (pin_q A)"
    using pending_copy [OF sf(4)] by (simp add: same_util_def)
  obtain s1 where s1: "ll_dequeue i ?e ?s0 = (Inr (), dequeued ?e, s1)"
    "dequeue_post i (ents s i) ?s0 s1 ?D ?T (pin_q A)" "dirty_bytes s1 = dirty_drop ?e (dirty_bytes s)"
    using ll_dequeue_quiet [OF sf(1) pend] sf(5) by auto
  have p: "ready s1" "prim_frame ?s0 s1" using s1(2) by (simp_all add: dequeue_post_def)
  have iT: "i \<notin> set ?T" using pending_props(4) [OF pend] st by simp
  let ?s2 = "s1\<lparr>disk_head := sb_head s1\<rparr>"
  let ?t = "(dequeued ?e)\<lparr>in_transit := False, mod_after_in_transit := False\<rparr>"
  have t: "status ?t = NO_LL" "lastsync_time ?t = sb_clock s" "same_pin (ents s i) ?t"
    using st by (simp_all add: dequeued_def detached_def same_pin_def)
  have q2: "q_inv ((ents ?s2)(i := ?t)) (sb_head ?s2) (remove1 i ?D) (remove1 i ?T) (pin_q A)"
    using s1(2) t by (simp add: dequeue_post_def)
  have r2: "ready ?s2" using p(1) ready_cong [of ?s2 s1] by simp
  obtain s3 where s3: "write_super_block_entry i ?t ?s2 = (Inr (), s3)" "ents s3 i = ?t"
    "dirty_bytes s3 = dirty_bytes s1"
    "ends_ok i s (s3\<lparr>sb_locked := False\<rparr>) (A\<lparr>dirty_q := remove1 i ?D, delete_q := remove1 i ?T, pin_q := pin_q A\<rparr>)"
    using finish_store [OF ok r2 _ i _ _ q2] op_frame_prim [OF p(2), of i] t(1) by auto
  have "super_block_update_transit i False False s = (Inr (), s3\<lparr>sb_locked := False\<rparr>)"
    unfolding super_block_update_transit_def using sf(3) st assms(4) s1(1) s3(1) p(1)
    by (intro with_exclusive_Inr) (simp add: transit_done_def get_current_sectime_def Let_def)
  moreover have "A\<lparr>dirty_q := remove1 i ?D, delete_q := remove1 i ?T, pin_q := pin_q A\<rparr> =
      A\<lparr>dirty_q := remove1 i ?D\<rparr>"
    using iT by (cases A) (simp add: remove1_idem)
  ultimately show ?thesis
    using s3 s1(3) t st by (simp add: dirty_drop_def dirty_bytes_def)
qed

text \<open>
  An upload during which the inode was modified again, with a sync point set: the inode goes to the end
  of the dirty queue and stays dirty.
\<close>

lemma super_block_transit_again:
  assumes ok: "sb_ok s A" and i: "live s i" and st: "status (ents s i) = IS_DIRTY"
    and "mod_after_in_transit (ents s i)" and "sync_point_is_set s"
  shows "\<exists>s'. super_block_update_transit i False False s = (Inr (), s') \<and>
    ends_ok i s s' (a_requeue i A) \<and> status (ents s' i) = IS_DIRTY \<and>
    \<not> mod_after_in_transit (ents s' i)"
proof -
  let ?s0 = "s\<lparr>sb_locked := True\<rparr>" and ?e = "(ents s i)\<lparr>lastsync_time := sb_clock s\<rparr>"
  let ?f = "\<lambda>e. e\<lparr>in_transit := False, mod_after_in_transit := False\<rparr>"
  note sf = start_facts [OF ok i]
  have su: "same_util (ents s i) ?e" "same_pin (ents s i) ?e"
    by (simp_all add: same_util_def same_pin_def)
  have f: "same_util e (?f e)" "same_pin e (?f e)" for e
    by (simp_all add: same_util_def same_pin_def)
  obtain s' where s': "bindE (requeue_dirty i ?e) (\<lambda>e. write_super_block_entry i (?f e)) ?s0 = (Inr (), s')"
    "ents s' i = ?f (requeued_entry i (get_meta_size i s) (dirty_q A) ?e)"
    "ends_ok i s (s'\<lparr>sb_locked := False\<rparr>) (a_requeue i A)"
    using requeue_store [OF ok i su, of ?f] f by blast
  have "super_block_update_transit i False False s = (Inr (), s'\<lparr>sb_locked := False\<rparr>)"
    unfolding super_block_update_transit_def using sf(3) st assms(4,5) s'(1)
    by (intro with_exclusive_Inr) (simp add: transit_done_def get_current_sectime_def bindE_def Let_def)
  with s' show ?thesis by simp
qed

subsection \<open>Pinning\<close>

lemma super_block_mark_pin_file:
  assumes ok: "sb_ok s A" and i: "live s i" and pst: "pin_status (ents s i) = ST_UNPIN"
    and m: "S_ISREG m" and "system_restoring (hcfs_system s) \<noteq> RESTORING_STAGE2"
  shows "\<exists>s'. super_block_mark_pin restore i m s = (Inr (), s') \<and>
    ends_ok i s s' (A\<lparr>pin_q := pin_q A @ [i]\<rparr>) \<and> pin_status (ents s' i) = ST_PINNING"
proof -
  let ?s0 = "s\<lparr>sb_locked := True\<rparr>" and ?P = "pin_q A"
  let ?e = "pinning_entry (last_or 0 ?P) (ents s i)"
  note sf = start_facts [OF ok i]
  have pr: "present ?s0 i" using i by (simp add: live_def)
  obtain s1 where s1: "pin_ll_enqueue i (ents s i) ?s0 = (Inr 0, ?e, s1)" "ents s1 i = ?e"
    "sb_inv s1 (dirty_q A) (delete_q A) (?P @ [i])" "pin_frame i ?s0 s1"
    using pin_ll_enqueue_quiet [OF sf(1,7) pr, of "ents s i"] pst by (auto simp: same_util_def)
  have "status ?e \<noteq> TO_BE_RECLAIMED" using ok pst by (auto simp: pinning_entry_def sb_ok_def gone_ok_def)
  have st: "status ?e \<noteq> RECLAIMED" "?e\<lparr>pin_status := ST_PINNING\<rparr> = ?e"
    using i by (simp_all add: pinning_entry_def live_def)
  have q: "q_inv ((ents s1)(i := ?e)) (sb_head s1) (dirty_q A) (delete_q A) (?P @ [i])"
    using s1(2,3) by (metis fun_upd_triv sb_inv_def)
  obtain s3 where s3: "write_super_block_entry i ?e s1 = (Inr (), s3)" "ents s3 i = ?e"
    "ends_ok i s (s3\<lparr>sb_locked := False\<rparr>) (A\<lparr>dirty_q := dirty_q A, delete_q := delete_q A, pin_q := ?P @ [i]\<rparr>)"
    using finish_store [OF ok pin_frame_ready [OF s1(4) sf(1)] op_frame_pin [OF s1(4)] i st(1) _ q]
      \<open>status ?e \<noteq> TO_BE_RECLAIMED\<close> by blast
  have "super_block_mark_pin restore i m s = (Inr (), s3\<lparr>sb_locked := False\<rparr>)"
    using with_exclusive_Inr [of _ s "Inr ()" s3] sf(3) pst m assms(5) s1(1) s3(1) st(2)
    by (simp add: super_block_mark_pin_def restore_first_def)
  moreover have "A\<lparr>dirty_q := dirty_q A, delete_q := delete_q A, pin_q := ?P @ [i]\<rparr> = A\<lparr>pin_q := ?P @ [i]\<rparr>"
    by (cases A) simp
  ultimately show ?thesis using s3 by (simp add: pinning_entry_def)
qed

text \<open>Leaving the pinning queue, with the pin status \<open>p\<close> afterwards.\<close>

lemma pin_leave:
  assumes ok: "sb_ok s A" and i: "live s i" and pst: "pin_status (ents s i) = ST_PINNING"
    and p: "p \<noteq> ST_PINNING"
  shows "\<exists>s'. bindE (entE (pin_ll_dequeue i) (ents s i))
      (\<lambda>e. write_super_block_entry i (e\<lparr>pin_status := p\<rparr>)) (s\<lparr>sb_locked := True\<rparr>) = (Inr (), s') \<and>
    pin_status (ents s' i) = p \<and>
    ends_ok i s (s'\<lparr>sb_locked := False\<rparr>) (A\<lparr>pin_q := remove1 i (pin_q A)\<rparr>)"
proof -
  let ?s0 = "s\<lparr>sb_locked := True\<rparr>" and ?P = "pin_q A"
  let ?e = "(unpinned_links (ents s i))\<lparr>pin_status := p\<rparr>"
  note sf = start_facts [OF ok i]
  obtain s1 where s1: "pin_ll_dequeue i (ents s i) ?s0 = (Inr 0, unpinned_links (ents s i), s1)"
    "pin_frame i ?s0 s1"
    "\<forall>e. pin_status e \<noteq> ST_PINNING \<longrightarrow> same_util (ents ?s0 i) e \<longrightarrow>
      q_inv ((ents s1)(i := e)) (sb_head s1) (dirty_q A) (delete_q A) (remove1 i ?P)"
    using pin_ll_dequeue_quiet [OF sf(1,7), of i "ents s i"] pst by (auto simp: same_pin_def)
  have q: "q_inv ((ents s1)(i := ?e)) (sb_head s1) (dirty_q A) (delete_q A) (remove1 i ?P)"
    using s1(3) p by (simp add: unpinned_links_def same_util_def)
  have "status ?e \<noteq> RECLAIMED" using i by (simp add: unpinned_links_def live_def)
  moreover have "status ?e \<noteq> TO_BE_RECLAIMED" using ok pst by (auto simp: unpinned_links_def sb_ok_def gone_ok_def)
  ultimately show ?thesis
    using finish_store [OF ok pin_frame_ready [OF s1(2) sf(1)] op_frame_pin [OF s1(2)] i _ _ q] s1(1)
    by (cases A) (auto simp: bindE_def)
qed

lemma super_block_finish_pinning_done:
  assumes ok: "sb_ok s A" and i: "live s i" and pst: "pin_status (ents s i) = ST_PINNING"
  shows "\<exists>s'. super_block_finish_pinning i s = (Inr (), s') \<and>
    ends_ok i s s' (A\<lparr>pin_q := remove1 i (pin_q A)\<rparr>) \<and> pin_status (ents s' i) = ST_PIN"
proof -
  obtain s' where s': "bindE (entE (pin_ll_dequeue i) (ents s i))
      (\<lambda>e. write_super_block_entry i (e\<lparr>pin_status := ST_PIN\<rparr>)) (s\<lparr>sb_locked := True\<rparr>) = (Inr (), s')"
    "pin_status (ents s' i) = ST_PIN" "ends_ok i s (s'\<lparr>sb_locked := False\<rparr>) (A\<lparr>pin_q := remove1 i (pin_q A)\<rparr>)"
    using pin_leave [OF ok i pst, of ST_PIN] by auto
  have "super_block_finish_pinning i s = (Inr (), s'\<lparr>sb_locked := False\<rparr>)"
    unfolding super_block_finish_pinning_def using start_facts(3) [OF ok i] pst s'(1)
    by (intro with_exclusive_Inr) simp
  with s' show ?thesis by simp
qed

lemma super_block_mark_unpin_pinning:
  assumes ok: "sb_ok s A" and i: "live s i" and pst: "pin_status (ents s i) = ST_PINNING"
    and "system_restoring (hcfs_system s) \<noteq> RESTORING_STAGE2"
  shows "\<exists>s'. super_block_mark_unpin restore i m s = (Inr (), s') \<and>
    ends_ok i s s' (A\<lparr>pin_q := remove1 i (pin_q A)\<rparr>) \<and> pin_status (ents s' i) = ST_UNPIN"
proof -
  obtain s' where s': "bindE (entE (pin_ll_dequeue i) (ents s i))
      (\<lambda>e. write_super_block_entry i (e\<lparr>pin_status := ST_UNPIN\<rparr>)) (s\<lparr>sb_locked := True\<rparr>) = (Inr (), s')"
    "pin_status (ents s' i) = ST_UNPIN" "ends_ok i s (s'\<lparr>sb_locked := False\<rparr>) (A\<lparr>pin_q := remove1 i (pin_q A)\<rparr>)"
    using pin_leave [OF ok i pst, of ST_UNPIN] by auto
  have "super_block_mark_unpin restore i m s = (Inr (), s'\<lparr>sb_locked := False\<rparr>)"
    using with_exclusive_Inr [of _ s "Inr ()" s'] start_facts(3) [OF ok i] pst s'(1) assms(4)
    by (simp add: super_block_mark_unpin_def restore_first_def)
  with s' show ?thesis by simp
qed

end
