(* ===== verification/Super_Block_Delete.thy ===== *)
theory Super_Block_Delete
  imports Super_Block_Handlers2
begin

text \<open>
  Refinement of deletion and reuse of inode numbers: \<^verbatim>\<open>super_block_to_delete\<close>,
  \<^verbatim>\<open>super_block_enqueue_delete\<close>, \<^verbatim>\<open>super_block_delete\<close>, \<^verbatim>\<open>super_block_reclaim\<close> and
  \<^verbatim>\<open>super_block_new_inode\<close>.
\<close>

subsection \<open>Leaving the pinning queue on the way out\<close>

lemma q_inv_upd_unpinned:
  assumes inv: "q_inv E h D T P" and "same_util (E i) e"
    and "pin_status (E i) \<noteq> ST_PINNING" "pin_status e \<noteq> ST_PINNING"
  shows "q_inv (E(i := e)) h D T P"
proof -
  have out: "i \<notin> set P" using inv assms(3) by (auto simp: q_inv_def)
  have "util.queued (E(i := e)) f l xs = util.queued E f l xs" for f l xs
    using assms(2) by (intro util.queued_cong) (auto simp: same_util_def)
  moreover have "pinq.queued (E(i := e)) f l P = pinq.queued E f l P" for f l
    using out by (intro pinq.queued_cong) auto
  ultimately show ?thesis
    using assms out by (auto simp: q_inv_def same_util_def)
qed

text \<open>The copy after the inode has left the pinning queue; \<open>st_del\<close> is how it is going to be stored.\<close>

definition st_del :: "SUPER_BLOCK_ENTRY \<Rightarrow> SUPER_BLOCK_ENTRY" where
  "st_del e = e\<lparr>pin_status := ST_DEL\<rparr>"

lemma unpin_if_pinning_quiet:
  assumes rd: "ready s" and inv: "sb_inv s D T P" and e: "e = ents s i"
  shows "\<exists>e1 s1. unpin_if_pinning i e s = (Inr e1, s1) \<and> ready s1 \<and> op_frame i s s1 \<and>
    head_rest (sb_head s1) = head_rest (sb_head s) \<and> pending s1 i e1 (st_del e1) D T (remove1 i P) \<and> same_util e e1 \<and>
    dirty_bytes s1 = dirty_bytes s \<and> dirty_meta_size e1 = dirty_meta_size e \<and>
    inode_stat e1 = inode_stat e \<and> generation e1 = generation e \<and> this_index e1 = this_index e"
proof (cases "pin_status e = ST_PINNING")
  case True
  let ?e1 = "unpinned_links e"
  obtain s1 where s1: "pin_ll_dequeue i e s = (Inr 0, ?e1, s1)" "pin_frame i s s1" "ents s1 i = ?e1"
    "\<forall>e'. pin_status e' \<noteq> ST_PINNING \<longrightarrow> same_util (ents s i) e' \<longrightarrow>
      q_inv ((ents s1)(i := e')) (sb_head s1) D T (remove1 i P)"
    using pin_ll_dequeue_quiet [OF rd inv _ True] e by (auto simp: same_pin_def)
  have "pending s1 i ?e1 (st_del ?e1) D T (remove1 i P)"
    using s1(3,4) e by (simp add: pending_def same_util_def unpinned_links_def st_del_def)
  with s1 True show ?thesis
    using pin_frame_ready [OF s1(2) rd] op_frame_pin [OF s1(2)]
    by (intro exI [of _ ?e1] exI [of _ s1])
      (simp add: unpin_if_pinning_def same_util_def unpinned_links_def pin_frame_def)
next
  case False
  have q: "q_inv (ents s) (sb_head s) D T P" using inv by (simp add: sb_inv_def)
  have "i \<notin> set P" using q False e by (auto simp: q_inv_def)
  moreover have "q_inv ((ents s)(i := st_del e)) (sb_head s) D T P"
    using q_inv_upd_unpinned [OF q, of i "st_del e"] False e by (simp add: st_del_def same_util_def)
  ultimately have "pending s i e (st_del e) D T (remove1 i P)"
    using e by (simp add: pending_def same_util_def st_del_def remove1_idem)
  with False rd show ?thesis
    by (intro exI [of _ e] exI [of _ s]) (simp add: unpin_if_pinning_def same_util_def)
qed

subsection \<open>To be deleted\<close>

definition a_to_delete :: "ino_t \<Rightarrow> sb_lists \<Rightarrow> sb_lists" where
  "a_to_delete i A = A\<lparr>dirty_q := remove1 i (dirty_q A), delete_q := remove1 i (delete_q A) @ [i],
     pin_q := remove1 i (pin_q A)\<rparr>"

lemma op_frame_head: "op_frame i s s1 \<Longrightarrow> reclaim_part (f (sb_head s1)) = reclaim_part (sb_head s1) \<Longrightarrow>
    op_frame i s (upd_head f s1)"
  by (simp add: op_frame_def)

lemma same_util_delete: "same_util (delete_entry l (dequeued e)) (removed_entry (delete_entry l (dequeued e)))"
  by (simp add: same_util_def removed_entry_def)

lemma to_delete_queue_quiet:
  assumes rd: "ready s" and pend: "pending s i e (st_del e) D T P" and i0: "i \<noteq> 0"
    and st: "status e \<noteq> TO_BE_DELETED"
  shows "\<exists>e2 s2. to_delete_queue i True e s = (Inr e2, s2) \<and> ready s2 \<and> op_frame i s s2 \<and>
    head_rest (sb_head s2) = head_rest (sb_head s) \<and> status e2 = TO_BE_DELETED \<and> inode_stat e2 = inode_stat e \<and>
    q_inv ((ents s2)(i := removed_entry e2)) (sb_head s2) (remove1 i D) (remove1 i T @ [i]) P \<and>
    dirty_bytes s2 = dirty_drop e (dirty_bytes s)"
proof -
  let ?e = "delete_entry (last_or 0 (remove1 i T)) (dequeued e)"
  obtain s2 where s2: "bindE (entE (ll_dequeue i) e) (entE (ll_enqueue i TO_BE_DELETED)) s = (Inr ?e, s2)"
    "enq_post i s s2 ?e (st_del e) (remove1 i D, remove1 i T @ [i]) P"
    "dirty_bytes s2 = dirty_drop e (dirty_bytes s)"
    using dequeue_enqueue_quiet [OF rd pend i0, of TO_BE_DELETED]
    by (auto simp: enq_idle_entry_def enq_idle_lists_def)
  have p: "ready s2" "prim_frame s s2" using s2(2) by (simp_all add: enq_post_def)
  have "same_pin (st_del e) (removed_entry ?e)"
    by (simp add: same_pin_def st_del_def removed_entry_def delete_entry_def dequeued_def detached_def)
  then have "q_inv ((ents s2)(i := removed_entry ?e)) (sb_head s2) (remove1 i D) (remove1 i T @ [i]) P"
    using s2(2) same_util_delete by (simp add: enq_post_def)
  moreover have "?e\<lparr>status := TO_BE_DELETED\<rparr> = ?e" "inode_stat ?e = inode_stat e" "status ?e = TO_BE_DELETED"
    by (simp_all add: delete_entry_def)
  moreover have "to_delete_queue i True e s = bindE (bindE (entE (ll_dequeue i) e)
      (entE (ll_enqueue i TO_BE_DELETED))) (\<lambda>e2. returnE (e2\<lparr>status := TO_BE_DELETED\<rparr>)) s"
    using st by (simp add: to_delete_queue_def bindE_assoc)
  moreover have "head_rest (sb_head s2) = head_rest (sb_head s)" using p(2) by (simp add: prim_frame_def)
  ultimately show ?thesis
    using s2(1,3) p op_frame_prim [OF p(2), of i] by (intro exI [of _ ?e] exI [of _ s2]) simp
qed

lemma super_block_to_delete_now:
  assumes ok: "sb_ok s A" and i: "live s i" and st: "status (ents s i) \<noteq> TO_BE_DELETED"
  shows "\<exists>s'. super_block_to_delete i True s = (Inr (), s') \<and> ends_ok i s s' (a_to_delete i A) \<and>
    status (ents s' i) = TO_BE_DELETED \<and> pin_status (ents s' i) = ST_DEL \<and>
    st_ino (inode_stat (ents s' i)) = 0 \<and>
    st_mode (inode_stat (ents s' i)) = st_mode (inode_stat (ents s i)) \<and>
    num_active_inodes (sb_head s') = num_active_inodes (sb_head s) - 1 \<and>
    dirty_bytes s' = dirty_drop (ents s i) (dirty_bytes s)"
proof -
  let ?s0 = "s\<lparr>sb_locked := True\<rparr>" and ?D = "dirty_q A" and ?T = "delete_q A" and ?P = "remove1 i (pin_q A)"
  note sf = start_facts [OF ok i]
  obtain e1 s1 where s1: "unpin_if_pinning i (ents s i) ?s0 = (Inr e1, s1)" "ready s1" "op_frame i ?s0 s1"
    "head_rest (sb_head s1) = head_rest (sb_head ?s0)" "pending s1 i e1 (st_del e1) ?D ?T ?P"
    "same_util (ents s i) e1" "dirty_bytes s1 = dirty_bytes s"
    "dirty_meta_size e1 = dirty_meta_size (ents s i)" "inode_stat e1 = inode_stat (ents s i)"
    using unpin_if_pinning_quiet [OF sf(1,7), of "ents s i" i] sf(5) by auto
  have st1: "status e1 = status (ents s i)" using s1(6) by (simp add: same_util_def)
  obtain e2 s2 where s2: "to_delete_queue i True e1 s1 = (Inr e2, s2)" "ready s2" "op_frame i s1 s2"
    "head_rest (sb_head s2) = head_rest (sb_head s1)" "status e2 = TO_BE_DELETED"
    "inode_stat e2 = inode_stat e1"
    "q_inv ((ents s2)(i := removed_entry e2)) (sb_head s2) (remove1 i ?D) (remove1 i ?T @ [i]) ?P"
    "dirty_bytes s2 = dirty_drop e1 (dirty_bytes s1)"
    using to_delete_queue_quiet [OF s1(2,5) sf(2)] st st1 by auto
  let ?f = "\<lambda>h. h\<lparr>num_active_inodes := num_active_inodes h - 1\<rparr>"
  define s3 where "s3 = (upd_head ?f s2)\<lparr>disk_head := ?f (sb_head s2)\<rparr>"
  have r3: "ready s3" using s2(2) ready_cong [of s3 s2] by (simp add: s3_def)
  have f3: "op_frame i ?s0 s3"
    using op_frame_head [OF op_frame_trans [OF s1(3) s2(3)], of ?f] by (simp add: s3_def reclaim_part_def)
  have q3: "q_inv ((ents s3)(i := removed_entry e2)) (sb_head s3) (remove1 i ?D) (remove1 i ?T @ [i]) ?P"
    using s2(7) q_inv_head_cong [of "?f (sb_head s2)" "sb_head s2"] by (simp add: s3_def part_defs)
  have rem: "status (removed_entry e2) = TO_BE_DELETED" using s2(5) by (simp add: removed_entry_def)
  obtain s4 where s4: "write_super_block_entry i (removed_entry e2) s3 = (Inr (), s4)" "ents s4 i = removed_entry e2"
    "dirty_bytes s4 = dirty_bytes s3" "sb_head s4 = sb_head s3" "ends_ok i s (s4\<lparr>sb_locked := False\<rparr>) (a_to_delete i A)"
    using finish_store [OF ok r3 f3 i _ _ q3] rem by (auto simp: a_to_delete_def)
  have "super_block_to_delete i True s = (Inr (), s4\<lparr>sb_locked := False\<rparr>)"
    unfolding super_block_to_delete_def using sf(3) s1(1) s2(1,2) s4(1)
    by (intro with_exclusive_Inr) (simp add: s3_def)
  moreover have "num_active_inodes (sb_head s3) = num_active_inodes (sb_head s) - 1"
    using s1(4) s2(4) by (simp add: s3_def head_rest_def)
  moreover have "dirty_bytes s3 = dirty_drop (ents s i) (dirty_bytes s)"
    using s2(8) s1(7,8) st1 by (simp add: s3_def dirty_drop_def)
  ultimately show ?thesis
    using s4 rem s2(6) s1(9) by (simp add: removed_entry_def init_hcfs_stat_def zero_stat_def dirty_bytes_def)
qed

subsection \<open>The delete queue, later\<close>

lemma super_block_enqueue_delete_quiet:
  assumes ok: "sb_ok s A" and i: "live s i" and st: "status (ents s i) = NO_LL"
  shows "\<exists>s'. super_block_enqueue_delete i s = (Inr (), s') \<and>
    ends_ok i s s' (A\<lparr>delete_q := delete_q A @ [i]\<rparr>) \<and> status (ents s' i) = TO_BE_DELETED"
proof -
  let ?s0 = "s\<lparr>sb_locked := True\<rparr>" and ?D = "dirty_q A" and ?T = "delete_q A"
  note sf = start_facts [OF ok i]
  have idle: "idle_status (status (ents s i))" using st by simp
  have q0: "q_inv ((ents ?s0)(i := ents s i)) (sb_head ?s0) ?D ?T (pin_q A)"
    using sf(4) by (simp add: pending_def)
  let ?e = "delete_entry (last_or 0 ?T) (ents s i)"
  obtain s1 where s1: "ll_enqueue i TO_BE_DELETED (ents s i) ?s0 = (Inr (), ?e, s1)"
    "enq_post i ?s0 s1 ?e (ents s i) (?D, ?T @ [i]) (pin_q A)"
    using ll_enqueue_idle [OF sf(1,2) idle idle q0, of TO_BE_DELETED]
    by (auto simp: enq_idle_entry_def enq_idle_lists_def)
  have p: "ready s1" "prim_frame ?s0 s1" using s1(2) by (simp_all add: enq_post_def)
  have q: "q_inv ((ents s1)(i := ?e)) (sb_head s1) ?D (?T @ [i]) (pin_q A)"
    using s1(2) by (simp add: enq_post_def same_util_def same_pin_def delete_entry_def)
  obtain s2 where s2: "write_super_block_entry i ?e s1 = (Inr (), s2)" "ents s2 i = ?e"
    "ends_ok i s (s2\<lparr>sb_locked := False\<rparr>) (A\<lparr>dirty_q := ?D, delete_q := ?T @ [i], pin_q := pin_q A\<rparr>)"
    using finish_store [OF ok p(1) op_frame_prim [OF p(2)] i _ _ q] by (auto simp: delete_entry_def)
  have r2: "sb_io s2 = []" using s2(3) by (simp add: ends_ok_def sb_ok_def ready_def)
  let ?s3 = "s2\<lparr>disk_head := sb_head s2, sb_locked := False\<rparr>"
  have "super_block_enqueue_delete i s = (Inr (), ?s3)"
    unfolding super_block_enqueue_delete_def using sf(3) st s1(1) s2(1) r2
    by (subst with_exclusive_Inr [of _ _ "Inr ()" "s2\<lparr>disk_head := sb_head s2\<rparr>"]) simp_all
  moreover have "ends_ok i s ?s3 (A\<lparr>delete_q := ?T @ [i]\<rparr>)"
  proof -
    have eq: "?s3 = (s2\<lparr>sb_locked := False\<rparr>)\<lparr>disk_head := sb_head s2\<rparr>" by simp
    have "A\<lparr>dirty_q := ?D, delete_q := ?T @ [i], pin_q := pin_q A\<rparr> = A\<lparr>delete_q := ?T @ [i]\<rparr>"
      by (cases A) simp
    with s2(3) show ?thesis unfolding eq ends_ok_def by (simp del: sb_ok_locked)
  qed
  ultimately show ?thesis using s2(2) by (simp add: delete_entry_def)
qed

subsection \<open>To be reclaimed\<close>

lemma sb_ok_unclaimed [simp]: "sb_ok (s\<lparr>unclaimed_list := xs\<rparr>) A = sb_ok s A"
  by (simp add: sb_ok_def sb_inv_def size_ok_def ready_def sync_wf_def)

lemma r_inv_cong: "reclaim_part h' = reclaim_part h \<Longrightarrow> r_inv E h' R = r_inv E h R"
  by (simp add: r_inv_def reclaim_part_def)

lemma sb_ok_upd_head:
  assumes "dirty_part (f (sb_head s)) = dirty_part (sb_head s)"
    and "delete_part (f (sb_head s)) = delete_part (sb_head s)"
    and "pin_part (f (sb_head s)) = pin_part (sb_head s)"
    and "reclaim_part (f (sb_head s)) = reclaim_part (sb_head s)"
  shows "sb_ok (upd_head f s) A = sb_ok s A"
proof -
  have "size_ok (upd_head f s) = size_ok s" using assms(4) by (simp add: size_ok_def reclaim_part_def)
  then show ?thesis
    using q_inv_head_cong [OF assms(1-3)] r_inv_cong [OF assms(4)] ready_cong [of "upd_head f s" s]
    by (simp add: sb_ok_def sb_inv_def)
qed

definition a_delete :: "ino_t \<Rightarrow> sb_lists \<Rightarrow> sb_lists" where
  "a_delete i A = A\<lparr>dirty_q := remove1 i (dirty_q A), delete_q := remove1 i (delete_q A),
     pin_q := remove1 i (pin_q A)\<rparr>"

lemma delete_entry_part_quiet:
  assumes ok: "sb_ok s A" and i: "live s i" and "\<not> now_reclaim_fullscan s"
  shows "\<exists>s1. delete_entry_part i (s\<lparr>sb_locked := True\<rparr>) = (Inr (), s1) \<and>
    status (ents s1 i) = TO_BE_RECLAIMED \<and> pin_status (ents s1 i) = ST_DEL \<and>
    generation (ents s1 i) = generation (ents s i) \<and>
    ends_ok i s (s1\<lparr>sb_locked := False\<rparr>) (a_delete i A)"
proof -
  let ?s0 = "s\<lparr>sb_locked := True\<rparr>" and ?D = "dirty_q A" and ?T = "delete_q A" and ?P = "remove1 i (pin_q A)"
  note sf = start_facts [OF ok i]
  obtain e1 s1 where s1: "unpin_if_pinning i (ents s i) ?s0 = (Inr e1, s1)" "ready s1" "op_frame i ?s0 s1"
    "pending s1 i e1 (st_del e1) ?D ?T ?P" "same_util (ents s i) e1" "generation e1 = generation (ents s i)"
    using unpin_if_pinning_quiet [OF sf(1,7), of "ents s i" i] by auto
  obtain s2 where s2: "ll_dequeue i e1 s1 = (Inr (), dequeued e1, s2)" "dequeue_post i (st_del e1) s1 s2 ?D ?T ?P"
    using ll_dequeue_quiet [OF s1(2,4)] by blast
  define e3 where "e3 = (dequeued e1)\<lparr>status := TO_BE_RECLAIMED, in_transit := False, pin_status := ST_DEL\<rparr>"
  have p: "ready s2" "prim_frame s1 s2" using s2(2) by (simp_all add: dequeue_post_def)
  have f2: "op_frame i ?s0 s2" using op_frame_trans [OF s1(3) op_frame_prim [OF p(2)]] .
  have "same_pin (st_del e1) e3"
    by (simp add: same_pin_def st_del_def e3_def dequeued_def detached_def)
  then have q: "q_inv ((ents s2)(i := e3)) (sb_head s2) (remove1 i ?D) (remove1 i ?T) ?P"
    using s2(2) by (simp add: dequeue_post_def e3_def)
  obtain s3 where s3: "write_super_block_entry i e3 s2 = (Inr (), s3)" "ents s3 i = e3"
    "ends_ok i s (s3\<lparr>sb_locked := False\<rparr>) (a_delete i A)"
    using finish_store [OF ok p(1) f2 i _ _ q] by (auto simp: e3_def a_delete_def)
  have fs: "\<not> now_reclaim_fullscan s2" using f2 assms(3) by (simp add: op_frame_def same_env_def)
  have run: "delete_entry_part i ?s0 = (Inr (), s3)"
  proof (cases "status e1 = TO_BE_RECLAIMED")
    case True
    then have "s2 = s1" "e3 = e1\<lparr>in_transit := False, pin_status := ST_DEL\<rparr>"
      using s2(1) by (auto simp: ll_dequeue_def dequeued_def e3_def)
    with True sf(3) s1(1) s3(1) show ?thesis by (simp add: delete_entry_part_def)
  next
    case False
    with sf(3) s1(1) s2(1) s3(1) fs show ?thesis
      by (simp add: delete_entry_part_def bindE_def entE_def e3_def)
  qed
  with s3 s1(6) show ?thesis by (simp add: e3_def)
qed

lemma super_block_delete_quiet:
  assumes ok: "sb_ok s A" and i: "live s i" and fs: "\<not> now_reclaim_fullscan s"
  shows "\<exists>s'. super_block_delete i s = (Inr (), s') \<and> sb_ok s' (a_delete i A) \<and> \<not> sb_locked s' \<and>
    status (ents s' i) = TO_BE_RECLAIMED \<and> pin_status (ents s' i) = ST_DEL \<and>
    generation (ents s' i) = generation (ents s i) \<and>
    unclaimed_list s' = unclaimed_list s @ [i] \<and> disk_head s' = sb_head s'"
proof -
  let ?s0 = "s\<lparr>sb_locked := True\<rparr>"
  obtain s1 where s1: "delete_entry_part i ?s0 = (Inr (), s1)" "status (ents s1 i) = TO_BE_RECLAIMED"
    "pin_status (ents s1 i) = ST_DEL" "generation (ents s1 i) = generation (ents s i)"
    "ends_ok i s (s1\<lparr>sb_locked := False\<rparr>) (a_delete i A)"
    using delete_entry_part_quiet [OF ok i fs] by blast
  have s1ok: "sb_ok s1 (a_delete i A)" "unclaimed_list s1 = unclaimed_list s" "\<not> now_reclaim_fullscan s1"
    using s1(5) fs by (auto simp: ends_ok_def op_frame_def same_env_def)
  have io: "sb_io s1 = []" using s1ok(1) by (simp add: sb_ok_def)
  let ?f = "\<lambda>h. h\<lparr>num_to_be_reclaimed := num_to_be_reclaimed h + 1\<rparr>"
  let ?s2 = "upd_head ?f (s1\<lparr>unclaimed_list := unclaimed_list s @ [i]\<rparr>)"
  let ?s3 = "?s2\<lparr>disk_head := sb_head ?s2, sb_locked := False\<rparr>"
  have run: "super_block_delete i s = (Inr (), ?s3)"
    unfolding super_block_delete_def using s1(1) s1ok(2,3) io
    by (subst with_exclusive_Inr [of _ _ "Inr ()" "?s2\<lparr>disk_head := sb_head ?s2\<rparr>"])
      (simp_all add: fappend_def bindE_def)
  have "sb_ok ?s3 (a_delete i A)"
    using s1ok(1) sb_ok_upd_head [of ?f "s1\<lparr>unclaimed_list := unclaimed_list s @ [i]\<rparr>"]
    by (simp add: part_defs reclaim_part_def)
  moreover have "ents ?s3 i = ents s1 i" "unclaimed_list ?s3 = unclaimed_list s @ [i]" "\<not> sb_locked ?s3"
    "disk_head ?s3 = sb_head ?s3"
    by (simp_all add: upd_head_def)
  ultimately show ?thesis using run s1(2-4) by auto
qed

end
