(* ===== verification/Super_Block_Alloc.thy ===== *)
theory Super_Block_Alloc
  imports Super_Block_Delete
begin

text \<open>
  Allocation and reuse of inode numbers.  \<^verbatim>\<open>super_block_new_inode\<close> takes the first reclaimed number, with
  the next generation, or extends the file; \<^verbatim>\<open>super_block_reclaim\<close> puts the deleted inodes of the
  unclaimed list in front of the reclaimed list, in ascending order.
\<close>

subsection \<open>The reclaimed list\<close>

lemma q_inv_upd_out:
  assumes inv: "q_inv E h D T P" and "idle_status (status (E i))" "idle_status (status e)"
    and "pin_status (E i) \<noteq> ST_PINNING" "pin_status e \<noteq> ST_PINNING"
  shows "q_inv (E(i := e)) h D T P"
proof -
  let ?e = "(E i)\<lparr>status := status e, util_ll_next := util_ll_next e, util_ll_prev := util_ll_prev e\<rparr>"
  have "q_inv (E(i := ?e)) h D T P"
    using assms by (intro q_inv_upd_idle) (auto simp: same_pin_def)
  from q_inv_upd_unpinned [OF this, of i e] assms(4,5) show ?thesis by (simp add: same_util_def)
qed

lemma r_inv_pop:
  assumes inv: "r_inv E h (i # R)" and e: "status e \<noteq> RECLAIMED"
    and h': "reclaim_part h' = (if R = [] then (0, 0, 0, n)
      else (num_inode_reclaimed h - 1, first_or 0 R, last_reclaimed_inode h, n))"
  shows "r_inv (E(i := e)) h' R"
proof -
  have d: "i \<notin> set R" "distinct R" using inv by (auto simp: r_inv_def)
  have "slinked (\<lambda>j. util_ll_next ((E(i := e)) j)) R = slinked (\<lambda>j. util_ll_next (E j)) R"
    using d(1) by (intro slinked_cong) auto
  moreover have "last_or i R = last_or 0 R" if "R \<noteq> []" using that by (simp add: last_or_def)
  ultimately show ?thesis
    using inv e h' d by (cases "R = []") (auto simp: r_inv_def reclaim_part_def)
qed

lemma r_inv_push:
  assumes inv: "r_inv E h R" and i: "i \<noteq> 0" "status (E i) \<noteq> RECLAIMED"
    and e: "status e = RECLAIMED" "util_ll_next e = first_reclaimed_inode h"
  shows "r_inv (E(i := e)) (reclaim_head i h) (i # R)"
proof -
  have out: "i \<notin> set R" using inv i(2) by (auto simp: r_inv_def)
  have "slinked (\<lambda>j. util_ll_next ((E(i := e)) j)) R = slinked (\<lambda>j. util_ll_next (E j)) R"
    using out by (intro slinked_cong) auto
  moreover have "last_reclaimed_inode h = last_or 0 R" "0 \<notin> set R" using inv unfolding r_inv_def by blast+
  then have "last_reclaimed_inode h = 0 \<longleftrightarrow> R = []" by simp
  moreover have "last_or i R = last_or 0 R" if "R \<noteq> []" using that by (simp add: last_or_def)
  ultimately show ?thesis
    using inv i out e by (cases "R = []") (auto simp: r_inv_def reclaim_head_def)
qed

subsection \<open>New inodes\<close>

lemma new_entry_fields [simp]:
  "status (new_entry c st lp i g s) = NO_LL" "this_index (new_entry c st lp i g s) = i"
  "generation (new_entry c st lp i g s) = g" "st_ino (inode_stat (new_entry c st lp i g s)) = i"
  "pin_status (new_entry c st lp i g s) = (if P_IS_PIN lp then ST_PIN else ST_UNPIN)"
  by (simp_all add: new_entry_def)

lemma super_block_new_inode_reuse:
  assumes ok: "sb_ok s A" and R: "reclaimed_q A = i # R"
  shows "\<exists>s'. super_block_new_inode c b st lp s = ((i, Some (generation (ents s i) + 1)), s') \<and>
    sb_ok s' (A\<lparr>reclaimed_q := R\<rparr>) \<and> \<not> sb_locked s' \<and> status (ents s i) = RECLAIMED \<and>
    ents s' = (ents s)(i := new_entry c st lp i (generation (ents s i) + 1) s) \<and>
    num_active_inodes (sb_head s') = num_active_inodes (sb_head s) + 1"
proof -
  let ?s0 = "s\<lparr>sb_locked := True\<rparr>" and ?g = "generation (ents s i) + 1"
  have r: "r_inv (ents s) (sb_head s) (i # R)" and rd: "ready s" and sz: "size_ok s" and g: "gone_ok (ents s)"
    and q: "q_inv (ents s) (sb_head s) (dirty_q A) (delete_q A) (pin_q A)"
    using ok R by (simp_all add: sb_ok_def sb_inv_def)
  have st: "status (ents s i) = RECLAIMED" and fi: "first_reclaimed_inode (sb_head s) = i"
    and n: "num_inode_reclaimed (sb_head s) > 0" and nx: "util_ll_next (ents s i) = first_or 0 R"
    and R0: "0 \<notin> set R"
    using r by (auto simp: r_inv_def)
  have pres: "present s i" using st present_if_status [of s i] by simp
  have pin: "pin_status (ents s i) \<noteq> ST_PINNING" using g st by (simp add: gone_ok_def)
  let ?f = "\<lambda>h. if first_or 0 R = 0
    then h\<lparr>num_inode_reclaimed := 0, first_reclaimed_inode := 0, last_reclaimed_inode := 0\<rparr>
    else h\<lparr>num_inode_reclaimed := num_inode_reclaimed h - 1, first_reclaimed_inode := first_or 0 R\<rparr>"
  let ?a = "\<lambda>h. h\<lparr>num_active_inodes := num_active_inodes h + 1\<rparr>"
  let ?h = "?a (?f (sb_head s))"
  have ch: "choose_inode c ?s0 = (Inr (i, ?g, False), upd_head ?f ?s0)"
    using n fi nx pres rd by (simp add: choose_inode_def pop_reclaimed_def Let_def cong: if_cong)
  let ?s2 = "upd_head ?a (upd_head ?f ?s0)"
  let ?e = "new_entry c st lp i ?g s"
  have e2: "new_entry c st lp i ?g ?s2 = ?e"
    by (simp add: new_entry_def init_lastsync_time_def upd_head_def Let_def)
  have i0: "0 < i" and io: "sb_io s = []" using pres rd by (auto simp: present_def)
  let ?s' = "s\<lparr>sb_entries := sb_put i ?e (sb_entries s), sb_head := ?h, disk_head := ?h, sb_locked := False\<rparr>"
  have run: "super_block_new_inode c b st lp s = ((i, Some ?g), ?s')"
    using ch i0 io e2 by (simp add: super_block_new_inode_def super_block_exclusive_locking_def
        super_block_exclusive_release_def Let_def upd_head_def)
  have E: "ents ?s' = (ents s)(i := ?e)" using pres by simp
  have "q_inv ((ents s)(i := ?e)) ?h (dirty_q A) (delete_q A) (pin_q A)"
    using q_inv_upd_out [OF q, of i ?e] st pin q_inv_head_cong [of ?h "sb_head s"] by (simp add: part_defs)
  moreover have "r_inv ((ents s)(i := ?e)) ?h R"
    using R0 by (intro r_inv_pop [OF r, where n = "num_total_inodes (sb_head s)"]) (auto simp: reclaim_part_def)
  moreover have "size_ok ?s'" using sz pres by (auto simp: size_ok_def present_def split: if_splits)
  moreover have "gone_ok ((ents s)(i := ?e))" using g by (simp add: gone_ok_def)
  moreover have "ready ?s'" using rd ready_cong [of ?s' s] by simp
  ultimately have "sb_ok ?s' (A\<lparr>reclaimed_q := R\<rparr>)" using E by (simp add: sb_ok_def sb_inv_def)
  with run st E show ?thesis by (intro exI [of _ ?s']) simp
qed

text \<open>With nothing to reuse, the new number is the next one behind the end of the file.\<close>

lemma entry_at_beyond:
  "length es < i \<Longrightarrow> entry_at (sb_put i e es) = (entry_at es)(i := e)"
proof
  fix j
  assume l: "length es < i"
  let ?m = "length es" and ?z = "replicate (i - 1 - length es) zero_entry @ [e]"
  have put: "sb_put i e es = es @ ?z" and len: "length (sb_put i e es) = i"
    using l by (simp_all add: sb_put_def)
  show "entry_at (sb_put i e es) j = ((entry_at es)(i := e)) j"
  proof (cases "0 < j \<and> j \<le> i")
    case True
    then consider "j \<le> ?m" | "?m < j" "j < i" | "j = i" by linarith
    then show ?thesis
      using True l len by cases (auto simp: entry_at_def put nth_append)
  next
    case False
    with l len show ?thesis by (auto simp: entry_at_def)
  qed
qed

lemma super_block_new_inode_extend:
  assumes ok: "sb_ok s A" and R: "reclaimed_q A = []" and sp: "\<not> NO_META_SPACE c s"
    and i: "i = num_total_inodes (sb_head s) + 2"
  shows "\<exists>s'. super_block_new_inode c (Inr blocks) st lp s = ((i, Some 1), s') \<and>
    sb_ok s' A \<and> \<not> sb_locked s' \<and> \<not> present s i \<and> present s' i \<and>
    ents s' = (ents s)(i := new_entry c st lp i 1 s) \<and>
    num_total_inodes (sb_head s') = num_total_inodes (sb_head s) + 1 \<and>
    num_active_inodes (sb_head s') = num_active_inodes (sb_head s) + 1"
proof -
  let ?s0 = "s\<lparr>sb_locked := True\<rparr>"
  have r: "r_inv (ents s) (sb_head s) []" and rd: "ready s" and sz: "size_ok s" and g: "gone_ok (ents s)"
    and q: "q_inv (ents s) (sb_head s) (dirty_q A) (delete_q A) (pin_q A)"
    using ok R by (simp_all add: sb_ok_def sb_inv_def)
  have len: "length (sb_entries s) < i" using sz i by (auto simp: size_ok_def split: if_splits)
  have beyond: "ents s i = zero_entry" using len by (simp add: entry_at_def)
  let ?e = "new_entry c st lp i 1 s"
  let ?h = "(sb_head s)\<lparr>num_total_inodes := num_total_inodes (sb_head s) + 1,
    num_active_inodes := num_active_inodes (sb_head s) + 1\<rparr>"
  let ?s3 = "s\<lparr>sb_entries := sb_put i ?e (sb_entries s), sb_head := ?h, disk_head := ?h, sb_locked := True\<rparr>"
  obtain y where y: "update_sb_size (Inr blocks) (hcfs_system s) = (Inr (), y)"
    by (cases "blocks * 512 = super_block_size (systemdata (hcfs_system s))")
      (auto simp: update_sb_size_def Let_def)
  let ?s' = "?s3\<lparr>hcfs_system := y, sb_locked := False\<rparr>"
  have n: "num_inode_reclaimed (sb_head s) = 0" using r by (simp add: r_inv_def)
  have ch: "choose_inode c ?s0 = (Inr (i, 1, True), ?s0\<lparr>sb_head := (sb_head s)\<lparr>num_total_inodes := num_total_inodes (sb_head s) + 1\<rparr>\<rparr>)"
    using n sp i by (simp add: choose_inode_def NO_META_SPACE_def upd_head_def Let_def)
  have e2: "new_entry c st lp i (Suc 0) (s\<lparr>sb_locked := True, sb_head := h\<rparr>) = new_entry c st lp i (Suc 0) s" for h
    by (simp add: new_entry_def init_lastsync_time_def Let_def)
  have run: "super_block_new_inode c (Inr blocks) st lp s = ((i, Some 1), ?s')"
    using ch i rd e2 y by (simp add: super_block_new_inode_def super_block_exclusive_locking_def
        super_block_exclusive_release_def Let_def upd_head_def sb_update_size_def)
  have E: "ents ?s' = (ents s)(i := ?e)" using entry_at_beyond [OF len] by simp
  have l': "length (sb_entries ?s') = i" using len by (simp add: sb_put_def)
  have "q_inv ((ents s)(i := ?e)) ?h (dirty_q A) (delete_q A) (pin_q A)"
    using q_inv_upd_out [OF q, of i ?e] beyond q_inv_head_cong [of ?h "sb_head s"] by (simp add: part_defs)
  moreover have "r_inv ((ents s)(i := ?e)) ?h (reclaimed_q A)"
    using r R by (simp add: r_inv_def)
  moreover have "size_ok ?s'" using l' i by (simp add: size_ok_def)
  moreover have "gone_ok ((ents s)(i := ?e))" using g by (simp add: gone_ok_def)
  moreover have "ready ?s'" using rd ready_cong [of ?s' s] by simp
  ultimately have "sb_ok ?s' A" using E by (simp add: sb_ok_def sb_inv_def)
  with run E l' len i show ?thesis by (intro exI [of _ ?s']) (simp add: present_def)
qed

end
