(* ===== verification/Super_Block_Reclaim.thy ===== *)
theory Super_Block_Reclaim
  imports Super_Block_Alloc
begin

text \<open>
  Refinement of \<^verbatim>\<open>super_block_reclaim\<close>: the inodes of the unclaimed list that are to be reclaimed go,
  each once and in ascending order, to the front of the reclaimed list.
\<close>

subsection \<open>The loop on lists\<close>

fun reclaim_list :: "(ino_t \<Rightarrow> bool) \<Rightarrow> ino_t list \<Rightarrow> ino_t list \<Rightarrow> ino_t list" where
  "reclaim_list ok [] R = R"
| "reclaim_list ok (x # xs) R = reclaim_list ok xs (if ok x \<and> x \<notin> set R then x # R else R)"

lemma reclaim_list_cong:
  "(\<And>y. y \<notin> set R \<Longrightarrow> ok y = ok' y) \<Longrightarrow> reclaim_list ok xs R = reclaim_list ok' xs R"
proof (induction xs arbitrary: R)
  case (Cons x xs)
  have "reclaim_list ok xs S = reclaim_list ok' xs S" if "set R \<subseteq> set S" for S
    using Cons that by auto
  moreover have "(ok x \<and> x \<notin> set R) = (ok' x \<and> x \<notin> set R)" using Cons.prems by blast
  moreover have "set R \<subseteq> set (if ok' x \<and> x \<notin> set R then x # R else R)" by auto
  ultimately show ?case by (simp only: reclaim_list.simps)
qed simp

lemma reclaim_list_sorted:
  assumes "sorted (rev xs)" and "sorted acc" "distinct acc" and "\<forall>x \<in> set xs. \<forall>y \<in> set acc. x \<le> y"
    and "\<forall>x. ok x \<longrightarrow> x \<notin> set R"
  shows "\<exists>L. reclaim_list ok xs (acc @ R) = L @ R \<and> sorted L \<and> distinct L \<and>
    set L = {x \<in> set xs. ok x} \<union> set acc"
  using assms
proof (induction xs arbitrary: acc)
  case (Cons x xs)
  let ?acc = "if ok x \<and> x \<notin> set acc then x # acc else acc"
  have "\<exists>L. reclaim_list ok xs (?acc @ R) = L @ R \<and> sorted L \<and> distinct L \<and>
      set L = {x \<in> set xs. ok x} \<union> set ?acc"
    using Cons.prems by (intro Cons.IH) (auto simp: sorted_append)
  moreover have "reclaim_list ok (x # xs) (acc @ R) = reclaim_list ok xs (?acc @ R)"
    using Cons.prems(5) by auto
  moreover have "{y \<in> set xs. ok y} \<union> set ?acc = {y \<in> set (x # xs). ok y} \<union> set acc" by auto
  ultimately show ?case by simp
qed auto

lemma reclaim_list_sort:
  assumes "\<forall>x. ok x \<longrightarrow> x \<notin> set R"
  shows "reclaim_list ok (rev (sort U)) R = sorted_list_of_set {x \<in> set U. ok x} @ R"
proof -
  obtain L where L: "reclaim_list ok (rev (sort U)) ([] @ R) = L @ R" "sorted L" "distinct L"
    "set L = {x \<in> set (rev (sort U)). ok x} \<union> set []"
    using reclaim_list_sorted [of "rev (sort U)" "[]" ok R] assms by auto
  then have "L = sorted_list_of_set {x \<in> set U. ok x}"
    using sorted_list_of_set.idem_if_sorted_distinct [of L] by simp
  with L(1) show ?thesis by simp
qed

subsection \<open>The loop on the super block\<close>

definition to_reclaim :: "sb_state \<Rightarrow> ino_t \<Rightarrow> bool" where
  "to_reclaim s i \<longleftrightarrow> status (ents s i) = TO_BE_RECLAIMED"

text \<open>One inode that is to be reclaimed.\<close>

definition reclaimed_state :: "ino_t \<Rightarrow> sb_state \<Rightarrow> sb_state" where
  "reclaimed_state i s = (upd_head (reclaim_head i) s)\<lparr>sb_entries := sb_put i ((ents s i)\<lparr>status := RECLAIMED,
     util_ll_next := first_reclaimed_inode (sb_head s)\<rparr>) (sb_entries s)\<rparr>"

lemma sb_ok_reclaimed_state:
  assumes ok: "sb_ok s A" and st: "to_reclaim s i"
  shows "sb_ok (reclaimed_state i s) (A\<lparr>reclaimed_q := i # reclaimed_q A\<rparr>)"
    and "to_reclaim (reclaimed_state i s) j \<longleftrightarrow> to_reclaim s j \<and> j \<noteq> i"
    and "first_reclaimed_inode (sb_head (reclaimed_state i s)) = i"
    and "num_total_inodes (sb_head (reclaimed_state i s)) = num_total_inodes (sb_head s)"
    and "unclaimed_list (reclaimed_state i s) = unclaimed_list s"
proof -
  let ?e = "(ents s i)\<lparr>status := RECLAIMED, util_ll_next := first_reclaimed_inode (sb_head s)\<rparr>"
  have pres: "present s i" using st present_if_status [of s i] by (simp add: to_reclaim_def)
  then have E: "ents (reclaimed_state i s) = (ents s)(i := ?e)" by (simp add: reclaimed_state_def)
  have H: "sb_head (reclaimed_state i s) = reclaim_head i (sb_head s)" by (simp add: reclaimed_state_def)
  have q: "q_inv (ents s) (sb_head s) (dirty_q A) (delete_q A) (pin_q A)"
    and r: "r_inv (ents s) (sb_head s) (reclaimed_q A)" and g: "gone_ok (ents s)" and rd: "ready s"
    using ok by (simp_all add: sb_ok_def sb_inv_def)
  have "q_inv ((ents s)(i := ?e)) (sb_head s) (dirty_q A) (delete_q A) (pin_q A)"
    using st by (intro q_inv_upd_idle [OF q]) (simp_all add: to_reclaim_def same_pin_def)
  then have "q_inv ((ents s)(i := ?e)) (reclaim_head i (sb_head s)) (dirty_q A) (delete_q A) (pin_q A)"
    using q_inv_head_cong [of "reclaim_head i (sb_head s)" "sb_head s"] by (simp add: part_defs reclaim_head_def)
  moreover have "r_inv ((ents s)(i := ?e)) (reclaim_head i (sb_head s)) (i # reclaimed_q A)"
    using st pres by (intro r_inv_push [OF r]) (simp_all add: to_reclaim_def present_def)
  moreover have "gone_ok ((ents s)(i := ?e))" using g st by (simp add: gone_ok_def to_reclaim_def)
  moreover have "size_ok (reclaimed_state i s)"
    using ok pres by (auto simp: sb_ok_def size_ok_def reclaimed_state_def reclaim_head_def present_def)
  moreover have "ready (reclaimed_state i s)"
    using rd ready_cong [of "reclaimed_state i s" s] by (simp add: reclaimed_state_def)
  ultimately show "sb_ok (reclaimed_state i s) (A\<lparr>reclaimed_q := i # reclaimed_q A\<rparr>)"
    by (simp add: sb_ok_def sb_inv_def E H)
  show "to_reclaim (reclaimed_state i s) j \<longleftrightarrow> to_reclaim s j \<and> j \<noteq> i" by (simp add: to_reclaim_def E)
  show "first_reclaimed_inode (sb_head (reclaimed_state i s)) = i"
    and "num_total_inodes (sb_head (reclaimed_state i s)) = num_total_inodes (sb_head s)"
    by (simp_all add: H reclaim_head_def)
  show "unclaimed_list (reclaimed_state i s) = unclaimed_list s"
    by (simp add: reclaimed_state_def upd_head_def)
qed

lemma reclaim_loop_quiet:
  assumes "sb_ok s A" and "0 < num_total_inodes (sb_head s)"
  shows "\<exists>s'. reclaim_loop xs (first_reclaimed_inode (sb_head s)) s = (Inr (), s') \<and>
    sb_ok s' (A\<lparr>reclaimed_q := reclaim_list (to_reclaim s) xs (reclaimed_q A)\<rparr>) \<and>
    unclaimed_list s' = unclaimed_list s"
  using assms
proof (induction xs arbitrary: s A)
  case Nil
  then show ?case by (cases A) simp
next
  case (Cons x xs)
  let ?R = "reclaimed_q A"
  have rd: "ready s" and len: "length (sb_entries s) = num_total_inodes (sb_head s) + 1"
    and R: "\<forall>i. i \<in> set ?R \<longleftrightarrow> status (ents s i) = RECLAIMED"
    using Cons.prems by (simp_all add: sb_ok_def size_ok_def r_inv_def)
  show ?case
  proof (cases "to_reclaim s x")
    case True
    have pres: "present s x" using True present_if_status [of s x] by (simp add: to_reclaim_def)
    have xR: "x \<notin> set ?R" using True R by (simp add: to_reclaim_def)
    note rs = sb_ok_reclaimed_state [OF Cons.prems(1) True]
    have step: "reclaim_loop (x # xs) (first_reclaimed_inode (sb_head s)) s =
        reclaim_loop xs x (reclaimed_state x s)"
      using True pres rd len
      by (simp add: to_reclaim_def present_def reclaimed_state_def upd_head_def entry_at_def
          read_super_block_entry_def pread_entry_def)
    have "reclaim_list (to_reclaim (reclaimed_state x s)) xs (x # ?R) = reclaim_list (to_reclaim s) xs (x # ?R)"
      by (rule reclaim_list_cong) (use rs(2) in auto)
    with Cons.IH [OF rs(1)] rs(3-5) Cons.prems(2) step True xR show ?thesis by auto
  next
    case False
    have "reclaim_loop (x # xs) (first_reclaimed_inode (sb_head s)) s =
        reclaim_loop xs (first_reclaimed_inode (sb_head s)) s"
      using False rd len by (auto simp: to_reclaim_def entry_at_def read_super_block_entry_def pread_entry_def)
    with Cons.IH [OF Cons.prems] False show ?thesis by simp
  qed
qed

lemma super_block_reclaim_quiet:
  assumes ok: "sb_ok s A" and n: "0 < num_total_inodes (sb_head s)"
    and tr: "num_to_be_reclaimed (sb_head s) \<ge> RECLAIM_TRIGGER"
  shows "\<exists>s'. super_block_reclaim s = (Inr (), s') \<and> \<not> sb_locked s' \<and> unclaimed_list s' = [] \<and>
    num_to_be_reclaimed (sb_head s') = 0 \<and> disk_head s' = sb_head s' \<and>
    sb_ok s' (A\<lparr>reclaimed_q :=
      sorted_list_of_set {i \<in> set (unclaimed_list s). status (ents s i) = TO_BE_RECLAIMED} @ reclaimed_q A\<rparr>)"
proof -
  let ?s0 = "s\<lparr>sb_locked := True\<rparr>" and ?U = "unclaimed_list s"
  have ok0: "sb_ok ?s0 A" using ok by simp
  have io: "sb_io s = []" using ok by (simp add: sb_ok_def)
  obtain s1 where s1: "reclaim_loop (rev (sort ?U)) (first_reclaimed_inode (sb_head ?s0)) ?s0 = (Inr (), s1)"
    "sb_ok s1 (A\<lparr>reclaimed_q := reclaim_list (to_reclaim ?s0) (rev (sort ?U)) (reclaimed_q A)\<rparr>)"
    using reclaim_loop_quiet [OF ok0] n by auto
  have disj: "\<forall>x. to_reclaim ?s0 x \<longrightarrow> x \<notin> set (reclaimed_q A)"
    using ok by (auto simp: to_reclaim_def sb_ok_def r_inv_def)
  let ?f = "\<lambda>h. h\<lparr>num_to_be_reclaimed := 0\<rparr>"
  let ?s2 = "(upd_head ?f s1)\<lparr>disk_head := ?f (sb_head s1), unclaimed_list := []\<rparr>"
  have io1: "sb_io s1 = []" using s1(2) by (simp add: sb_ok_def)
  have "super_block_reclaim s = (Inr (), ?s2\<lparr>sb_locked := False\<rparr>)"
    using s1(1) tr io io1 with_exclusive_Inr [of _ s "Inr ()" ?s2]
    by (simp add: super_block_reclaim_def alloc_mem_def read_unclaimed_def)
  moreover have "sb_ok ?s2 (A\<lparr>reclaimed_q := reclaim_list (to_reclaim ?s0) (rev (sort ?U)) (reclaimed_q A)\<rparr>)"
    using s1(2) sb_ok_upd_head [of ?f s1] by (simp add: part_defs reclaim_part_def)
  moreover have "{x \<in> set ?U. to_reclaim ?s0 x} = {i \<in> set ?U. status (ents s i) = TO_BE_RECLAIMED}"
    by (simp add: to_reclaim_def)
  ultimately show ?thesis
    using reclaim_list_sort [OF disj, of ?U] by (intro exI [of _ "?s2\<lparr>sb_locked := False\<rparr>"]) simp
qed

end
