(* ===== verification/Super_Block_Reach.thy ===== *)
theory Super_Block_Reach
  imports Super_Block_Reclaim
begin

text \<open>
  The super block as a state machine.  \<open>sb_step\<close> is one call of a handler on a live inode while no system
  call fails and no restoration or full scan is going on; \<open>sb_reachable\<close> are the states reached from
  a freshly created super block.  Every reachable state represents four lists, so all queues are intact.
\<close>

subsection \<open>The remaining cases of the handlers\<close>

text \<open>\<open>sb_good s\<close>: the state represents some lists.\<close>

definition sb_good :: "sb_state \<Rightarrow> bool" where
  "sb_good s \<longleftrightarrow> (\<exists>A. sb_ok s A)"

lemma ends_good: "ends_ok i s s' A \<Longrightarrow> sb_good s'"
  by (auto simp: ends_ok_def sb_good_def)

lemma sb_good_locked [simp]: "sb_good (s\<lparr>sb_locked := b\<rparr>) = sb_good s"
  by (simp add: sb_good_def)

lemma sb_goodI: "sb_ok s A \<Longrightarrow> sb_good s"
  by (auto simp: sb_good_def)

lemma sb_ok_hcfs:
  "sb_ok (s\<lparr>hcfs_system := y\<rparr>) A = sb_ok s A"
  by (simp add: sb_ok_def sb_inv_def size_ok_def ready_def sync_wf_def)

lemma mark_dirty_status_again:
  assumes "status e \<noteq> NO_LL"
  shows "\<exists>w e' y. mark_dirty_status i e s = (Inr (w, e'), s\<lparr>hcfs_system := y\<rparr>) \<and> same_util e e' \<and> same_pin e e'"
proof -
  let ?n = "get_meta_size i s" and ?d = "get_meta_size i s - dirty_meta_size e"
  let ?s1 = "snd (change_system_meta_ignore_dirty i 0 0 0 0 ?d 0 True s)"
  have same: "s = s\<lparr>hcfs_system := hcfs_system s\<rparr>" by simp
  have "\<exists>y. ?s1 = s\<lparr>hcfs_system := y\<rparr>"
    unfolding change_system_meta_ignore_dirty_def Let_def case_prod_beta snd_conv by blast
  then obtain y where y: "?s1 = s\<lparr>hcfs_system := y\<rparr>" by blast
  show ?thesis
  proof (cases "status e = IS_DIRTY \<and> ?n > 0 \<and> ?d \<noteq> 0")
    case True
    then have "mark_dirty_status i e s = (Inr (True, e\<lparr>dirty_meta_size := ?n\<rparr>), s\<lparr>hcfs_system := y\<rparr>)"
      using y by (simp add: mark_dirty_status_def Let_def)
    then show ?thesis by (fastforce simp: same_util_def same_pin_def)
  next
    case False
    then have "mark_dirty_status i e s = (Inr (False, e), s)"
      using assms by (auto simp: mark_dirty_status_def Let_def)
    with same show ?thesis by (metis same_pin_def same_util_def)
  qed
qed

lemma mark_dirty_good:
  assumes ok: "sb_ok s A" and i: "live s i"
  shows "\<exists>s'. super_block_mark_dirty i s = (Inr (), s') \<and> sb_good s'"
proof -
  let ?s0 = "s\<lparr>sb_locked := True\<rparr>" and ?e = "ents s i"
  note sf = start_facts [OF ok i]
  consider (gone) "st_ino (inode_stat ?e) = 0"
    | (new) "st_ino (inode_stat ?e) \<noteq> 0" "status ?e = NO_LL"
    | (again) "st_ino (inode_stat ?e) \<noteq> 0" "status ?e \<noteq> NO_LL" by blast
  then show ?thesis
  proof cases
    case gone
    then have "super_block_mark_dirty i s = (Inr (), ?s0\<lparr>sb_locked := False\<rparr>)"
      unfolding super_block_mark_dirty_def using sf(3) by (intro with_exclusive_Inr) simp
    with ok show ?thesis by (auto intro: sb_goodI)
  next
    case new
    with super_block_mark_dirty_new [OF ok i] ends_good show ?thesis by blast
  next
    case again
    obtain w e y where m: "mark_dirty_status i ?e ?s0 = (Inr (w, e), ?s0\<lparr>hcfs_system := y\<rparr>)"
      "same_util ?e e" "same_pin ?e e"
      using mark_dirty_status_again [OF again(2)] by blast
    define s1 where s1: "s1 = ?s0\<lparr>hcfs_system := y\<rparr>"
    let ?sy = "s\<lparr>hcfs_system := y\<rparr>"
    have ok': "sb_ok ?sy A" using ok by (simp add: sb_ok_hcfs)
    have i': "live ?sy i" using i by (simp add: live_def)
    have t: "same_util (ents ?sy i) (touch_transit e)" "same_pin (ents ?sy i) (touch_transit e)"
      using same_util_trans [OF m(2)] same_pin_trans [OF m(3)] by simp_all
    obtain s2 where s2: "write_super_block_entry i (touch_transit e) s1 = (Inr (), s2)" "sb_good s2"
    proof -
      have "s1 = ?sy\<lparr>sb_locked := True\<rparr>" by (simp add: s1)
      with plain_store [OF ok' i' t] obtain s2 where
        "write_super_block_entry i (touch_transit e) s1 = (Inr (), s2)" "ends_ok i ?sy (s2\<lparr>sb_locked := False\<rparr>) A"
        by auto
      with ends_good [OF this(2)] that show thesis by simp
    qed
    have "sb_good s1" using ok by (auto simp: s1 sb_good_def sb_ok_hcfs)
    have "super_block_mark_dirty i s =
        (Inr (), (if w \<or> in_transit e then s2 else s1)\<lparr>sb_locked := False\<rparr>)"
      unfolding super_block_mark_dirty_def using sf(3) again m(1) s2(1)
      by (intro with_exclusive_Inr) (auto simp: s1)
    with s2(2) \<open>sb_good s1\<close> show ?thesis by auto
  qed
qed

lemma update_stat_good:
  assumes ok: "sb_ok s A" and i: "live s i"
  shows "\<exists>s'. super_block_update_stat i st no_sync s = (Inr (), s') \<and> sb_good s'"
proof -
  let ?s0 = "s\<lparr>sb_locked := True\<rparr>" and ?e = "ents s i"
  note sf = start_facts [OF ok i]
  consider (gone) "st_ino (inode_stat ?e) = 0" | (sync) "st_ino (inode_stat ?e) \<noteq> 0" "\<not> no_sync"
    | (nosync) "st_ino (inode_stat ?e) \<noteq> 0" no_sync by blast
  then show ?thesis
  proof cases
    case gone
    then have "super_block_update_stat i st no_sync s = (Inr (), ?s0\<lparr>sb_locked := False\<rparr>)"
      unfolding super_block_update_stat_def using sf(3) by (intro with_exclusive_Inr) simp
    with ok show ?thesis by (auto intro: sb_goodI)
  next
    case sync
    with super_block_update_stat_sync [OF ok i, of st] ends_good show ?thesis by auto
  next
    case nosync
    obtain s' where s': "write_super_block_entry i (?e\<lparr>inode_stat := st\<rparr>) ?s0 = (Inr (), s')"
      "ends_ok i s (s'\<lparr>sb_locked := False\<rparr>) A"
      using plain_store [OF ok i, of "?e\<lparr>inode_stat := st\<rparr>"] by (auto simp: same_util_def same_pin_def)
    have "super_block_update_stat i st no_sync s = (Inr (), s'\<lparr>sb_locked := False\<rparr>)"
      unfolding super_block_update_stat_def using sf(3) nosync s'(1) by (intro with_exclusive_Inr) simp
    with ends_good [OF s'(2)] show ?thesis by auto
  qed
qed

lemma update_transit_good:
  assumes ok: "sb_ok s A" and i: "live s i"
  shows "\<exists>s'. super_block_update_transit i start incomplete s = (Inr (), s') \<and> sb_good s'"
proof -
  let ?s0 = "s\<lparr>sb_locked := True\<rparr>" and ?e = "ents s i"
  let ?f = "\<lambda>e. e\<lparr>in_transit := start, mod_after_in_transit := False\<rparr>"
  note sf = start_facts [OF ok i]
  let ?fin = "\<not> start \<and> status ?e = IS_DIRTY \<and> \<not> incomplete"
  consider (clean) ?fin "\<not> mod_after_in_transit ?e" | (again) ?fin "mod_after_in_transit ?e" "sync_point_is_set s"
    | (stay) ?fin "mod_after_in_transit ?e" "\<not> sync_point_is_set s" | (other) "\<not> ?fin" by blast
  then show ?thesis
  proof cases
    case clean
    with super_block_transit_clean [OF ok i] ends_good show ?thesis by auto
  next
    case again
    with super_block_transit_again [OF ok i] ends_good show ?thesis by auto
  next
    case stay
    let ?e1 = "?e\<lparr>lastsync_time := sb_clock s\<rparr>"
    obtain s' where s': "write_super_block_entry i (?f ?e1) ?s0 = (Inr (), s')"
      "ends_ok i s (s'\<lparr>sb_locked := False\<rparr>) A"
      using plain_store [OF ok i, of "?f ?e1"] by (auto simp: same_util_def same_pin_def)
    have "super_block_update_transit i start incomplete s = (Inr (), s'\<lparr>sb_locked := False\<rparr>)"
      unfolding super_block_update_transit_def using sf(3) stay s'(1)
      by (intro with_exclusive_Inr) (simp add: transit_done_def get_current_sectime_def Let_def bindE_def)
    with ends_good [OF s'(2)] show ?thesis by auto
  next
    case other
    obtain s' where s': "write_super_block_entry i (?f ?e) ?s0 = (Inr (), s')"
      "ends_ok i s (s'\<lparr>sb_locked := False\<rparr>) A"
      using plain_store [OF ok i, of "?f ?e"] by (auto simp: same_util_def same_pin_def)
    have "super_block_update_transit i start incomplete s = (Inr (), s'\<lparr>sb_locked := False\<rparr>)"
      unfolding super_block_update_transit_def using sf(3) other s'(1)
      by (intro with_exclusive_Inr) auto
    with ends_good [OF s'(2)] show ?thesis by auto
  qed
qed

lemma to_delete_queue_any:
  assumes rd: "ready s" and pend: "pending s i e (st_del e) D T P" and i0: "i \<noteq> 0"
  shows "\<exists>e2 s2 D' T'. to_delete_queue i b e s = (Inr e2, s2) \<and> ready s2 \<and> op_frame i s s2 \<and>
    status e2 \<noteq> RECLAIMED \<and> status e2 \<noteq> TO_BE_RECLAIMED \<and>
    q_inv ((ents s2)(i := removed_entry e2)) (sb_head s2) D' T' P"
proof -
  consider (twice) "status e = TO_BE_DELETED" | (now) "status e \<noteq> TO_BE_DELETED" b
    | (later) "status e \<noteq> TO_BE_DELETED" "\<not> b" by blast
  then show ?thesis
  proof cases
    case twice
    have q: "q_inv ((ents s)(i := st_del e)) (sb_head s) D T P" using pend by (simp add: pending_def)
    from q_inv_upd_same [OF q, of i "removed_entry e"]
    have "q_inv ((ents s)(i := removed_entry e)) (sb_head s) D T P"
      by (simp add: same_util_def same_pin_def st_del_def removed_entry_def)
    moreover have "to_delete_queue i b e s = (Inr e, s)" using twice by (simp add: to_delete_queue_def)
    ultimately show ?thesis using twice rd op_frame_refl by (metis sb_status.distinct(15,17))
  next
    case now
    with to_delete_queue_quiet [OF rd pend i0] show ?thesis by fastforce
  next
    case later
    obtain s2 where s2: "ll_dequeue i e s = (Inr (), dequeued e, s2)" "dequeue_post i (st_del e) s s2 D T P"
      using ll_dequeue_quiet [OF rd pend] by blast
    let ?e2 = "(dequeued e)\<lparr>status := NO_LL\<rparr>"
    have "to_delete_queue i b e s = (Inr ?e2, s2)" using later s2(1) by (simp add: to_delete_queue_def)
    moreover have "q_inv ((ents s2)(i := removed_entry ?e2)) (sb_head s2) (remove1 i D) (remove1 i T) P"
      using s2(2) by (simp add: dequeue_post_def removed_entry_def same_pin_def st_del_def dequeued_def detached_def)
    moreover have "ready s2" "op_frame i s s2" using s2(2) op_frame_prim by (auto simp: dequeue_post_def)
    ultimately show ?thesis by (intro exI [of _ ?e2] exI [of _ s2]) auto
  qed
qed

lemma to_delete_good:
  assumes ok: "sb_ok s A" and i: "live s i"
  shows "\<exists>s'. super_block_to_delete i b s = (Inr (), s') \<and> sb_good s'"
proof -
  let ?s0 = "s\<lparr>sb_locked := True\<rparr>" and ?D = "dirty_q A" and ?T = "delete_q A" and ?P = "remove1 i (pin_q A)"
  note sf = start_facts [OF ok i]
  obtain e1 s1 where s1: "unpin_if_pinning i (ents s i) ?s0 = (Inr e1, s1)" "ready s1" "op_frame i ?s0 s1"
    "pending s1 i e1 (st_del e1) ?D ?T ?P"
    using unpin_if_pinning_quiet [OF sf(1,7), of "ents s i" i] by auto
  obtain e2 s2 D' T' where s2: "to_delete_queue i b e1 s1 = (Inr e2, s2)" "ready s2" "op_frame i s1 s2"
    "status e2 \<noteq> RECLAIMED" "status e2 \<noteq> TO_BE_RECLAIMED"
    "q_inv ((ents s2)(i := removed_entry e2)) (sb_head s2) D' T' ?P"
    using to_delete_queue_any [OF s1(2,4) sf(2)] by blast
  let ?f = "\<lambda>h. h\<lparr>num_active_inodes := num_active_inodes h - 1\<rparr>"
  define s3 where "s3 = (upd_head ?f s2)\<lparr>disk_head := ?f (sb_head s2)\<rparr>"
  have r3: "ready s3" using s2(2) ready_cong [of s3 s2] by (simp add: s3_def)
  have f3: "op_frame i ?s0 s3"
    using op_frame_head [OF op_frame_trans [OF s1(3) s2(3)], of ?f] by (simp add: s3_def reclaim_part_def)
  have q3: "q_inv ((ents s3)(i := removed_entry e2)) (sb_head s3) D' T' ?P"
    using s2(6) q_inv_head_cong [of "?f (sb_head s2)" "sb_head s2"] by (simp add: s3_def part_defs)
  obtain s4 where s4: "write_super_block_entry i (removed_entry e2) s3 = (Inr (), s4)"
    "ends_ok i s (s4\<lparr>sb_locked := False\<rparr>) (A\<lparr>dirty_q := D', delete_q := T', pin_q := ?P\<rparr>)"
    using finish_store [OF ok r3 f3 i _ _ q3] s2(4,5) by (auto simp: removed_entry_def)
  have "super_block_to_delete i b s = (Inr (), s4\<lparr>sb_locked := False\<rparr>)"
    unfolding super_block_to_delete_def using sf(3) s1(1) s2(1,2) s4(1)
    by (intro with_exclusive_Inr) (simp add: s3_def)
  with ends_good [OF s4(2)] show ?thesis by auto
qed

lemma enqueue_delete_good:
  assumes ok: "sb_ok s A" and i: "live s i"
  shows "sb_good (snd (super_block_enqueue_delete i s))"
proof (cases "status (ents s i) = NO_LL")
  case True
  obtain s' where "super_block_enqueue_delete i s = (Inr (), s')" "sb_good s'"
    using super_block_enqueue_delete_quiet [OF ok i True] ends_good by blast
  then show ?thesis by simp
next
  case False
  have "super_block_enqueue_delete i s = (Inl (Errno EINVAL), s\<lparr>sb_locked := True, sb_locked := False\<rparr>)"
    unfolding super_block_enqueue_delete_def using start_facts(3) [OF ok i] False
    by (intro with_exclusive_Inr) simp
  with ok show ?thesis by (auto intro: sb_goodI)
qed

lemma new_inode_good:
  assumes ok: "sb_ok s A"
  shows "sb_good (snd (super_block_new_inode c (Inr blocks) st lp s))"
proof -
  consider (reuse) i R where "reclaimed_q A = i # R"
    | (full) "reclaimed_q A = []" "NO_META_SPACE c s" | (extend) "reclaimed_q A = []" "\<not> NO_META_SPACE c s"
    by (cases "reclaimed_q A") auto
  then show ?thesis
  proof cases
    case reuse
    with super_block_new_inode_reuse [OF ok reuse, of c "Inr blocks" st lp] show ?thesis by (auto intro: sb_goodI)
  next
    case extend
    with super_block_new_inode_extend [OF ok extend refl, of blocks st lp] show ?thesis by (auto intro: sb_goodI)
  next
    case full
    have "num_inode_reclaimed (sb_head s) = 0" using ok full by (simp add: sb_ok_def r_inv_def)
    with full(2) have "super_block_new_inode c (Inr blocks) st lp s = ((0, None), s\<lparr>sb_locked := True, sb_locked := False\<rparr>)"
      by (simp add: super_block_new_inode_def choose_inode_def NO_META_SPACE_def
          super_block_exclusive_locking_def super_block_exclusive_release_def)
    with ok show ?thesis by (auto intro: sb_goodI)
  qed
qed

lemma pin_good:
  assumes ok: "sb_ok s A" and i: "live s i" and nr: "system_restoring (hcfs_system s) \<noteq> RESTORING_STAGE2"
  shows "\<exists>s'. super_block_mark_pin restore i m s = (Inr (), s') \<and> sb_good s'"
    and "\<exists>s'. super_block_mark_unpin restore i m s = (Inr (), s') \<and> sb_good s'"
    and "\<exists>s'. super_block_finish_pinning i s = (Inr (), s') \<and> sb_good s'"
proof -
  let ?s0 = "s\<lparr>sb_locked := True\<rparr>" and ?e = "ents s i"
  note sf = start_facts [OF ok i]
  have noop: "\<exists>s'. with_exclusive m s = (Inr (), s') \<and> sb_good s'" if "m ?s0 = (Inr (), ?s0)" for m
    using with_exclusive_Inr [of m s "Inr ()" ?s0] that ok by (auto intro: sb_goodI)
  have direct: "\<exists>s'. with_exclusive m s = (Inr (), s') \<and> sb_good s'"
    if "pin_status ?e \<noteq> ST_PINNING" "p \<noteq> ST_PINNING" "p = ST_DEL \<or> pin_status ?e \<noteq> ST_DEL"
      "m ?s0 = write_super_block_entry i (?e\<lparr>pin_status := p\<rparr>) ?s0" for m p
  proof -
    have q: "q_inv (ents s) (sb_head s) (dirty_q A) (delete_q A) (pin_q A)" and g: "gone_ok (ents s)"
      using ok by (simp_all add: sb_ok_def sb_inv_def)
    let ?e' = "?e\<lparr>pin_status := p\<rparr>"
    have q': "q_inv ((ents ?s0)(i := ?e')) (sb_head ?s0) (dirty_q A) (delete_q A) (pin_q A)"
      using q_inv_upd_unpinned [OF q, of i ?e'] that by (simp add: same_util_def)
    have st: "status ?e' \<noteq> RECLAIMED" "status ?e' = TO_BE_RECLAIMED \<Longrightarrow> pin_status ?e' = ST_DEL"
      using i g that(3) by (auto simp: live_def gone_ok_def)
    note run = that(4)
    obtain s' where s': "m ?s0 = (Inr (), s')" "ends_ok i s (s'\<lparr>sb_locked := False\<rparr>)
        (A\<lparr>dirty_q := dirty_q A, delete_q := delete_q A, pin_q := pin_q A\<rparr>)"
      using finish_store [OF ok sf(1) op_frame_refl i st q'] run by metis
    from with_exclusive_Inr [of m s "Inr ()" s'] s'(1) ends_good [OF s'(2)] show ?thesis by auto
  qed
  show "\<exists>s'. super_block_mark_pin restore i m s = (Inr (), s') \<and> sb_good s'"
  proof (cases "pin_status ?e = ST_UNPIN")
    case True
    then show ?thesis
    proof (cases "S_ISREG m")
      case isreg: True
      with super_block_mark_pin_file [OF ok i True isreg nr] ends_good show ?thesis by blast
    next
      case False
      with direct [of ST_PIN] True sf(3) nr show ?thesis
        by (simp add: super_block_mark_pin_def restore_first_def)
    qed
  qed (use noop sf(3) nr in \<open>simp add: super_block_mark_pin_def restore_first_def\<close>)
  show "\<exists>s'. super_block_mark_unpin restore i m s = (Inr (), s') \<and> sb_good s'"
  proof (cases "pin_status ?e")
    case ST_PINNING
    with super_block_mark_unpin_pinning [OF ok i _ nr] ends_good show ?thesis by blast
  next
    case ST_PIN
    with direct [of ST_UNPIN] sf(3) nr show ?thesis by (simp add: super_block_mark_unpin_def restore_first_def)
  qed (use noop sf(3) nr in \<open>simp_all add: super_block_mark_unpin_def restore_first_def\<close>)
  show "\<exists>s'. super_block_finish_pinning i s = (Inr (), s') \<and> sb_good s'"
  proof (cases "pin_status ?e = ST_PINNING")
    case True
    with super_block_finish_pinning_done [OF ok i] ends_good show ?thesis by blast
  qed (use noop sf(3) in \<open>simp add: super_block_finish_pinning_def\<close>)
qed

subsection \<open>Reachable states\<close>

inductive sb_step :: "sb_state \<Rightarrow> sb_state \<Rightarrow> bool" where
  dirty: "live s i \<Longrightarrow> super_block_mark_dirty i s = (r, s') \<Longrightarrow> sb_step s s'"
| stat: "live s i \<Longrightarrow> super_block_update_stat i st no_sync s = (r, s') \<Longrightarrow> sb_step s s'"
| transit: "live s i \<Longrightarrow> super_block_update_transit i start incomplete s = (r, s') \<Longrightarrow> sb_step s s'"
| to_delete: "live s i \<Longrightarrow> super_block_to_delete i b s = (r, s') \<Longrightarrow> sb_step s s'"
| enqueue_delete: "live s i \<Longrightarrow> super_block_enqueue_delete i s = (r, s') \<Longrightarrow> sb_step s s'"
| delete: "live s i \<Longrightarrow> \<not> now_reclaim_fullscan s \<Longrightarrow> super_block_delete i s = (r, s') \<Longrightarrow> sb_step s s'"
| reclaim: "0 < num_total_inodes (sb_head s) \<Longrightarrow> super_block_reclaim s = (r, s') \<Longrightarrow> sb_step s s'"
| new_inode: "super_block_new_inode c (Inr blocks) st lp s = (res, s') \<Longrightarrow> sb_step s s'"
| pin: "live s i \<Longrightarrow> system_restoring (hcfs_system s) \<noteq> 2 \<Longrightarrow>
    super_block_mark_pin restore i m s = (r, s') \<Longrightarrow> sb_step s s'"
| unpin: "live s i \<Longrightarrow> system_restoring (hcfs_system s) \<noteq> 2 \<Longrightarrow>
    super_block_mark_unpin restore i m s = (r, s') \<Longrightarrow> sb_step s s'"
| pinned: "live s i \<Longrightarrow> system_restoring (hcfs_system s) \<noteq> 2 \<Longrightarrow>
    super_block_finish_pinning i s = (r, s') \<Longrightarrow> sb_step s s'"

inductive_cases sb_stepE: "sb_step s s'"

inductive sb_reachable :: "sb_state \<Rightarrow> bool" where
  init: "sb_head s = zero_head \<Longrightarrow> sb_entries s = [] \<Longrightarrow> ready s \<Longrightarrow> sb_reachable s"
| step: "sb_reachable s \<Longrightarrow> sb_step s s' \<Longrightarrow> sb_reachable s'"

lemma sb_step_good:
  assumes "sb_step s s'" and "sb_good s"
  shows "sb_good s'"
proof -
  obtain A where ok: "sb_ok s A" using assms(2) by (auto simp: sb_good_def)
  from assms(1) show ?thesis
  proof cases
    case (dirty i r)
    with mark_dirty_good [OF ok, of i] show ?thesis by auto
  next
    case (stat i st no_sync r)
    with update_stat_good [OF ok, of i st no_sync] show ?thesis by auto
  next
    case (transit i start incomplete r)
    with update_transit_good [OF ok, of i start incomplete] show ?thesis by auto
  next
    case (to_delete i b r)
    with to_delete_good [OF ok, of i b] show ?thesis by auto
  next
    case (enqueue_delete i r)
    with enqueue_delete_good [OF ok, of i] show ?thesis by simp
  next
    case (delete i r)
    with super_block_delete_quiet [OF ok, of i] show ?thesis by (auto intro: sb_goodI)
  next
    case (reclaim r)
    show ?thesis
    proof (cases "num_to_be_reclaimed (sb_head s) < RECLAIM_TRIGGER")
      case True
      with reclaim assms(2) show ?thesis by (simp add: super_block_reclaim_def)
    next
      case False
      with reclaim super_block_reclaim_quiet [OF ok] show ?thesis by (auto intro: sb_goodI)
    qed
  next
    case (new_inode c blocks st lp res)
    with new_inode_good [OF ok, of c blocks st lp] show ?thesis by simp
  next
    case (pin i restore m r)
    with pin_good(1) [OF ok, of i restore m] show ?thesis by auto
  next
    case (unpin i restore m r)
    with pin_good(2) [OF ok, of i restore m] show ?thesis by auto
  next
    case (pinned i r)
    with pin_good(3) [OF ok, of i] show ?thesis by auto
  qed
qed

lemma sb_good_init:
  assumes "sb_head s = zero_head" "sb_entries s = []" "ready s"
  shows "sb_ok s \<lparr>dirty_q = [], delete_q = [], pin_q = [], reclaimed_q = []\<rparr>"
proof -
  have E: "ents s i = zero_entry" for i using assms(2) by (auto simp: entry_at_def)
  then show ?thesis
    using assms by (simp add: sb_ok_def sb_inv_def q_inv_def r_inv_def size_ok_def gone_ok_def
        zero_head_def util.queued_def pinq.queued_def)
qed

lemma sb_reachable_good: "sb_reachable s \<Longrightarrow> sb_good s"
proof (induction rule: sb_reachable.induct)
  case (init s)
  then show ?case by (rule sb_goodI [OF sb_good_init])
next
  case (step s s')
  then show ?case using sb_step_good by blast
qed

end
