(* ===== verification/Super_Block_Repair.thy ===== *)
theory Super_Block_Repair
  imports Super_Block_Reach
begin

text \<open>
  Repair of the dirty queue after a crash.  \<^verbatim>\<open>ll_rebuild_dirty\<close> trusts the forward links: it restores all
  backward links, and it completes an enqueue of which only the link in the old last entry reached the
  disk.  The walk ends within one step per entry of the file, so it never hangs on such a queue.
\<close>

subsection \<open>The forward walk\<close>

text \<open>Setting the backward links of \<open>xs\<close>, starting behind \<open>p\<close>.\<close>

fun fix_prev :: "ino_t \<Rightarrow> ino_t list \<Rightarrow> (ino_t \<Rightarrow> SUPER_BLOCK_ENTRY) \<Rightarrow> ino_t \<Rightarrow> SUPER_BLOCK_ENTRY" where
  "fix_prev p [] E = E"
| "fix_prev p (x # xs) E = fix_prev x xs (E(x := (E x)\<lparr>util_ll_prev := p\<rparr>))"

lemma fix_prev_outside: "i \<notin> set xs \<Longrightarrow> fix_prev p xs E i = E i"
  by (induction xs arbitrary: p E) auto

lemma fix_prev_fields:
  "util_ll_next (fix_prev p xs E i) = util_ll_next (E i)" "status (fix_prev p xs E i) = status (E i)"
  "this_index (fix_prev p xs E i) = this_index (E i)"
  by (induction xs arbitrary: p E) auto

lemma fix_prev_chain:
  "distinct xs \<Longrightarrow> slinked (\<lambda>i. util_ll_next (E i)) xs \<Longrightarrow>
    dchain (\<lambda>i. util_ll_next (fix_prev p xs E i)) (\<lambda>i. util_ll_prev (fix_prev p xs E i)) p xs 0"
proof (induction xs arbitrary: p E)
  case (Cons x xs)
  let ?E = "E(x := (E x)\<lparr>util_ll_prev := p\<rparr>)"
  have "slinked (\<lambda>i. util_ll_next (?E i)) xs = slinked (\<lambda>i. util_ll_next (E i)) xs"
    by (rule slinked_cong) simp
  with Cons show ?case by (simp add: fix_prev_outside)
qed simp

lemma same_prev [simp]: "(e :: SUPER_BLOCK_ENTRY)\<lparr>util_ll_prev := util_ll_prev e\<rparr> = e"
  by simp

text \<open>What the repair leaves alone, besides the entries.\<close>

definition entries_only :: "sb_state \<Rightarrow> sb_state \<Rightarrow> bool" where
  "entries_only s s' \<longleftrightarrow> (\<exists>es. s' = s\<lparr>sb_entries := es\<rparr> \<and> length es = length (sb_entries s))"

lemma entries_only_refl [simp]: "entries_only s s"
  by (auto simp: entries_only_def intro: exI [of _ "sb_entries s"])

lemma entries_only_trans: "entries_only s t \<Longrightarrow> entries_only t u \<Longrightarrow> entries_only s u"
  by (auto simp: entries_only_def)

lemma entries_only_put: "present s i \<Longrightarrow> entries_only s (s\<lparr>sb_entries := sb_put i e (sb_entries s)\<rparr>)"
  by (auto simp: entries_only_def present_def)

lemma entries_only_fields:
  assumes "entries_only s s'"
  shows "sb_io s' = sb_io s" "sb_head s' = sb_head s" "present s' = present s" "disk_head s' = disk_head s"
  using assms by (auto simp: entries_only_def present_def fun_eq_iff)

lemma rebuild_forward_quiet:
  assumes "sb_io s = []" and "this_index e = p" "util_ll_next e = first_or 0 xs"
    and "slinked (\<lambda>i. util_ll_next (ents s i)) xs" "distinct xs"
    and "\<forall>i \<in> set xs. present s i \<and> this_index (ents s i) = i" and "length xs < fuel"
  shows "\<exists>s'. rebuild_forward fuel e s = (Inr (), s') \<and> entries_only s s' \<and> ents s' = fix_prev p xs (ents s)"
  using assms
proof (induction xs arbitrary: fuel e p s)
  case Nil
  then show ?case by (cases fuel) auto
next
  case (Cons x xs)
  obtain f where f: "fuel = Suc f" using Cons.prems(7) by (cases fuel) auto
  have x: "present s x" "this_index (ents s x) = x" "x \<noteq> 0" using Cons.prems(6) by (auto simp: present_def)
  let ?e2 = "(ents s x)\<lparr>util_ll_prev := p\<rparr>"
  define s1 where "s1 = (if util_ll_prev (ents s x) = p then s
    else s\<lparr>sb_entries := sb_put x ?e2 (sb_entries s)\<rparr>)"
  have e1: "ents s1 = (ents s)(x := ?e2)" using x by (auto simp: s1_def fun_upd_idem)
  have o1: "entries_only s s1" using x entries_only_put by (auto simp: s1_def)
  have p1: "present s1 = present s" "sb_io s1 = []" using entries_only_fields [OF o1] Cons.prems(1) by simp_all
  have step: "rebuild_forward fuel e s = rebuild_forward f ?e2 s1"
  proof (cases "util_ll_prev (ents s x) = p")
    case True
    then show ?thesis using f Cons.prems(1-3) x by (auto simp: s1_def)
  next
    case False
    then show ?thesis using f Cons.prems(1-3) x by (simp add: s1_def)
  qed
  have "slinked (\<lambda>i. util_ll_next (ents s1 i)) xs"
    using Cons.prems(4) by (subst slinked_cong [of _ _ "\<lambda>i. util_ll_next (ents s i)"]) (auto simp: e1)
  moreover have "\<forall>i \<in> set xs. present s1 i \<and> this_index (ents s1 i) = i"
    using Cons.prems(6) p1 by (auto simp: e1)
  moreover have "this_index ?e2 = x" "util_ll_next ?e2 = first_or 0 xs" using x Cons.prems(4) by simp_all
  ultimately obtain s2 where "rebuild_forward f ?e2 s1 = (Inr (), s2)" "entries_only s1 s2"
    "ents s2 = fix_prev x xs (ents s1)"
    using Cons.IH [of s1 ?e2 x f] p1(2) Cons.prems(5,7) f by auto
  with step e1 entries_only_trans [OF o1] show ?case by auto
qed

subsection \<open>Repair\<close>

text \<open>
  \<open>forward_ok s D t\<close>: the forward links starting at the header run through \<open>D\<close>, whose last entry is the last
  of the header, and then through \<open>t\<close>, which holds at most one inode, the one whose enqueue was
  interrupted.
\<close>

definition forward_ok :: "sb_state \<Rightarrow> ino_t list \<Rightarrow> ino_t list \<Rightarrow> bool" where
  "forward_ok s D t \<longleftrightarrow> D \<noteq> [] \<and> length t \<le> 1 \<and> distinct (D @ t) \<and>
     slinked (\<lambda>i. util_ll_next (ents s i)) (D @ t) \<and>
     first_dirty_inode (sb_head s) = hd D \<and> last_dirty_inode (sb_head s) = last D \<and>
     (\<forall>i \<in> set (D @ t). present s i \<and> this_index (ents s i) = i)"

lemma distinct_bounded:
  fixes xs :: "nat list"
  assumes "distinct xs" and "\<forall>i \<in> set xs. 0 < i \<and> i \<le> n"
  shows "length xs \<le> n"
proof -
  have "set xs \<subseteq> {1..n}" using assms(2) by auto
  then have "card (set xs) \<le> n" using card_mono [of "{1..n}" "set xs"] by simp
  with assms(1) show ?thesis by (simp add: distinct_card)
qed

text \<open>The part up to the backward step.\<close>

lemma rebuild_first_part:
  assumes io: "sb_io s = []" and fw: "forward_ok s D t"
  shows "\<exists>s'. ll_rebuild_dirty m s = rebuild_backward (last D) s' \<and> entries_only s s' \<and>
    ents s' = fix_prev 0 (D @ t) (ents s)"
proof -
  obtain x xs where D: "D = x # xs" using fw by (cases D) (auto simp: forward_ok_def)
  have x: "present s x" "this_index (ents s x) = x" "x \<noteq> 0" and hd: "first_dirty_inode (sb_head s) = x"
    and last: "last_dirty_inode (sb_head s) = last D"
    using fw D by (auto simp: forward_ok_def present_def)
  let ?e = "(ents s x)\<lparr>util_ll_prev := 0\<rparr>"
  define s1 where "s1 = (if util_ll_prev (ents s x) = 0 then s
    else s\<lparr>sb_entries := sb_put x ?e (sb_entries s)\<rparr>)"
  have e1: "ents s1 = (ents s)(x := ?e)" using x by (auto simp: s1_def fun_upd_idem)
  have o1: "entries_only s s1" using x entries_only_put by (auto simp: s1_def)
  have p1: "present s1 = present s" "sb_io s1 = []" using entries_only_fields [OF o1] io by simp_all
  have dist: "distinct (x # xs @ t)" and pr: "\<forall>i \<in> set (x # xs @ t). present s i \<and> this_index (ents s i) = i"
    using fw D by (auto simp: forward_ok_def)
  have len: "length (xs @ t) < Suc (length (sb_entries s1))"
    using distinct_bounded [OF dist, of "length (sb_entries s)"] pr o1
    by (auto simp: present_def entries_only_def)
  have sl: "slinked (\<lambda>i. util_ll_next (ents s1 i)) (xs @ t)"
    using fw D by (subst slinked_cong [of _ _ "\<lambda>i. util_ll_next (ents s i)"]) (auto simp: e1 forward_ok_def)
  obtain s2 where s2: "rebuild_forward (Suc (length (sb_entries s1))) ?e s1 = (Inr (), s2)"
    "entries_only s1 s2" "ents s2 = fix_prev x (xs @ t) (ents s1)"
  proof -
    have "this_index ?e = x" "util_ll_next ?e = first_or 0 (xs @ t)" "distinct (xs @ t)"
      using x fw D dist by (simp_all add: forward_ok_def)
    moreover have "\<forall>i \<in> set (xs @ t). present s1 i \<and> this_index (ents s1 i) = i"
      using pr p1 e1 by auto
    ultimately show thesis using rebuild_forward_quiet [OF p1(2) _ _ sl _ _ len] that by blast
  qed
  have "ll_rebuild_dirty m s = rebuild_backward (last D) s2"
  proof (cases "util_ll_prev (ents s x) = 0")
    case True
    then show ?thesis using s2(1) x io hd last
      by (simp add: ll_rebuild_dirty_def read_or_zero_def Let_def s1_def del: rebuild_forward.simps)
  next
    case False
    then show ?thesis using s2(1) x io hd last
      by (simp add: ll_rebuild_dirty_def read_or_zero_def Let_def s1_def del: rebuild_forward.simps)
  qed
  with s2 e1 D entries_only_trans [OF o1] show ?thesis by auto
qed

lemma queued_fix_prev:
  assumes "distinct Q" "0 \<notin> set Q" "Q \<noteq> []" and "slinked (\<lambda>i. util_ll_next (E i)) Q"
  shows "util.queued (fix_prev 0 Q E) (hd Q) (last Q) Q"
  using fix_prev_chain [OF assms(1,4), of 0] assms
  by (simp add: util.queued_def dqueue_def first_or_nonempty last_or_nonempty)

text \<open>A queue whose backward links are damaged.\<close>

lemma ll_rebuild_dirty_links:
  assumes io: "sb_io s = []" and fw: "forward_ok s D []"
  shows "\<exists>s'. ll_rebuild_dirty m s = (Inr (), s') \<and> entries_only s s' \<and>
    util.queued (ents s') (first_dirty_inode (sb_head s')) (last_dirty_inode (sb_head s')) D"
proof -
  obtain s1 where s1: "ll_rebuild_dirty m s = rebuild_backward (last D) s1" "entries_only s s1"
    "ents s1 = fix_prev 0 D (ents s)"
    using rebuild_first_part [OF io fw, of m] by auto
  have D: "D \<noteq> []" "distinct D" "0 \<notin> set D" "slinked (\<lambda>i. util_ll_next (ents s i)) D"
    using fw by (auto simp: forward_ok_def present_def)
  have q: "util.queued (ents s1) (hd D) (last D) D" using queued_fix_prev [OF D(2,3,1,4)] s1(3) by simp
  note nb = util_neighbours [OF q, of "last D"]
  have fi: "sb_io s1 = []" "sb_head s1 = sb_head s" "present s1 = present s"
    using entries_only_fields [OF s1(2)] io by simp_all
  have lD: "last D \<in> set D" using D(1) by simp
  have pr: "present s1 j \<and> this_index (ents s1 j) = j" if "j \<in> set D" for j
    using fw that fi(3) by (auto simp: forward_ok_def s1(3) fix_prev_fields)
  obtain as where "D = as @ [last D]" using D(1) by (metis append_butlast_last_id)
  then have nx: "util_ll_next (ents s1 (last D)) = 0"
    using q dqueue_node(1) [of _ _ _ _ D as "last D" "[]"] by (simp add: util.queued_def)
  have "rebuild_backward (last D) s1 = (Inr (), s1)"
  proof (cases "util_ll_prev (ents s1 (last D)) = 0")
    case True
    with nx fi(1) pr [OF lD] show ?thesis
      by (simp add: rebuild_backward_def read_or_zero_def present_def)
  next
    case False
    with nx fi(1) pr [OF lD] nb(2,5) lD pr show ?thesis
      by (simp add: rebuild_backward_def read_or_zero_def present_def)
  qed
  with s1 fi(2) q fw show ?thesis by (auto simp: forward_ok_def)
qed

text \<open>An enqueue of \<open>x\<close> of which only the link in the old last entry was written.\<close>

lemma ll_rebuild_dirty_pending:
  assumes io: "sb_io s = []" and fw: "forward_ok s D [x]"
  shows "\<exists>s'. ll_rebuild_dirty m s = (Inr (), s') \<and>
    util.queued (ents s') (first_dirty_inode (sb_head s')) (last_dirty_inode (sb_head s')) (D @ [x]) \<and>
    last_dirty_inode (sb_head s') = x \<and> status (ents s' x) = IS_DIRTY \<and>
    num_dirty (sb_head s') = num_dirty (sb_head s) + 1 \<and> disk_head s' = sb_head s'"
proof -
  obtain s1 where s1: "ll_rebuild_dirty m s = rebuild_backward (last D) s1" "entries_only s s1"
    "ents s1 = fix_prev 0 (D @ [x]) (ents s)"
    using rebuild_first_part [OF io fw, of m] by auto
  have D: "D \<noteq> []" "distinct (D @ [x])" "0 \<notin> set (D @ [x])" "slinked (\<lambda>i. util_ll_next (ents s i)) (D @ [x])"
    using fw by (auto simp: forward_ok_def present_def)
  have q: "util.queued (ents s1) (hd D) x (D @ [x])"
    using queued_fix_prev [OF D(2,3) _ D(4)] s1(3) D(1) by simp
  have fi: "sb_io s1 = []" "sb_head s1 = sb_head s" "present s1 = present s"
    using entries_only_fields [OF s1(2)] io by simp_all
  have pr: "present s1 j \<and> this_index (ents s1 j) = j" if "j \<in> set (D @ [x])" for j
    using fw that fi(3) by (auto simp: forward_ok_def s1(3) fix_prev_fields)
  obtain as where as: "D = as @ [last D]" using D(1) by (metis append_butlast_last_id)
  have q': "dqueue (\<lambda>i. util_ll_next (ents s1 i)) (\<lambda>i. util_ll_prev (ents s1 i)) (hd D) x (D @ [x])"
    using q by (simp add: util.queued_def)
  have ld: "util_ll_next (ents s1 (last D)) = x"
    using dqueue_node(1) [OF q', of as "last D" "[x]"] as by simp
  have xl: "util_ll_next (ents s1 x) = 0" "util_ll_prev (ents s1 x) = last D"
    using dqueue_node(1,2) [OF q', of D x "[]"] D(1) by (simp_all add: last_or_def)
  have lD: "last D \<in> set D" using D(1) by simp
  then have x0: "x \<noteq> 0" "last D \<noteq> 0" "last D \<in> set D" using D(3) by (simp_all, metis gr0I)
  let ?e = "(ents s1 x)\<lparr>status := IS_DIRTY, util_ll_next := 0, util_ll_prev := last D\<rparr>"
  let ?s2 = "wake_sync (upd_head (\<lambda>h. h\<lparr>last_dirty_inode := x, num_dirty := num_dirty h + 1\<rparr>)
    (s1\<lparr>sb_entries := sb_put x ?e (sb_entries s1)\<rparr>))"
  let ?s' = "?s2\<lparr>disk_head := sb_head ?s2\<rparr>"
  have "rebuild_backward (last D) s1 = (Inr (), ?s')"
    using fi(1) ld pr [of "last D"] pr [of x] x0
    by (simp add: rebuild_backward_def read_or_zero_def Let_def)
  moreover have E: "ents ?s' = (ents s1)(x := ?e)" using pr [of x] by simp
  moreover have "util.queued (ents ?s') (hd D) x (D @ [x])"
    unfolding E by (subst util.queued_cong [where E' = "ents s1"]) (auto simp: xl q)
  ultimately show ?thesis
    using s1(1) fi(2) fw by (intro exI [of _ ?s']) (simp add: forward_ok_def)
qed

end
