(* ===== verification/Super_Block_Sample.thy ===== *)
theory Super_Block_Sample
  imports Super_Block_Repair
begin

text \<open>
  A concrete super block of seven entries on which the hypotheses of the super block theorems hold.
  Inodes 2 and 7 are dirty, 2 is also being pinned, 3 is clean, 4 is to be deleted, 5 is reclaimed and 6 is on
  the unclaimed list; entry 1 is not used.
\<close>

definition sample_stats :: SYSTEM_DATA_TYPE where
  "sample_stats = \<lparr>system_size = 0, system_meta_size = 0, super_block_size = 0, cache_size = 0,
     cache_blocks = 0, pinned_size = 0, unpin_dirty_data_size = 0, backend_size = 0,
     backend_meta_size = 0, backend_inodes = 0, dirty_cache_size = 8192, system_quota = 0,
     cache_replace_status = 0, xfer_size_download = 0, xfer_size_upload = 0,
     xfer_throughput = [0, 0, 0, 0, 0, 0], xfer_total_obj = [0, 0, 0, 0, 0, 0], xfer_now_window = 0\<rparr>"

definition sample_system :: SYSTEM_DATA_HEAD where
  "sample_system = \<lparr>systemdata = sample_stats, system_val_file = sample_stats, writing_sys_data = False,
     sync_wait_sem = 0, sync_control_sem = 0, pin_wait_sem = 0, dsync_wait_sem = 0,
     something_to_replace = 0, last_xfer_shift_time = 0, system_restoring = 0, sys_io = []\<rparr>"

definition sample_entry :: "ino_t \<Rightarrow> sb_status \<Rightarrow> sb_pin_status \<Rightarrow> ino_t \<Rightarrow> ino_t \<Rightarrow> SUPER_BLOCK_ENTRY" where
  "sample_entry i st pst nx pv = zero_entry\<lparr>inode_stat := zero_stat\<lparr>st_ino := i, st_mode := 33188\<rparr>,
     status := st, pin_status := pst, util_ll_next := nx, util_ll_prev := pv, this_index := i,
     generation := 1\<rparr>"

definition sample_entries :: "SUPER_BLOCK_ENTRY list" where
  "sample_entries = [zero_entry,
     (sample_entry 2 IS_DIRTY ST_PINNING 7 0)\<lparr>dirty_meta_size := 4096, mod_after_in_transit := True\<rparr>,
     sample_entry 3 NO_LL ST_UNPIN 0 0, sample_entry 4 TO_BE_DELETED ST_DEL 0 0,
     sample_entry 5 RECLAIMED ST_DEL 0 0, sample_entry 6 TO_BE_RECLAIMED ST_DEL 0 0,
     (sample_entry 7 IS_DIRTY ST_UNPIN 0 2)\<lparr>dirty_meta_size := 4096\<rparr>]"

definition sample_head :: SUPER_BLOCK_HEAD where
  "sample_head = zero_head\<lparr>num_inode_reclaimed := 1, first_reclaimed_inode := 5, last_reclaimed_inode := 5,
     first_dirty_inode := 2, last_dirty_inode := 7, first_to_delete_inode := 4, last_to_delete_inode := 4,
     first_pin_inode := 2, last_pin_inode := 2, num_pinning_inodes := 1, num_to_be_reclaimed := 10000,
     num_to_be_deleted := 1, num_dirty := 2, num_total_inodes := 6, num_active_inodes := 3\<rparr>"

definition sample_sb :: sb_state where
  "sample_sb = \<lparr>sb_head = sample_head, disk_head = sample_head, sb_entries = sample_entries,
     unclaimed_list = [6], temp_unclaimed = None, temp_unclaimed_fptr = False,
     now_reclaim_fullscan = False, sync_point_is_set = False, sync_point_info = None,
     sync_point_file = None, sb_recovery_meta = \<lparr>is_ongoing = False, start_inode = 0, end_inode = 0\<rparr>,
     hcfs_system = sample_system, meta_local_size = (\<lambda>i. Some 4096), sb_locked = False,
     sb_clock = 1000, sync_events = 0, sb_io = []\<rparr>"

definition sample_lists :: sb_lists where
  "sample_lists = \<lparr>dirty_q = [2, 7], delete_q = [4], pin_q = [2], reclaimed_q = [5]\<rparr>"

lemmas sample_defs = sample_sb_def sample_head_def zero_head_def sample_entries_def sample_entry_def
  zero_entry_def zero_stat_def sample_lists_def

lemma sample_at:
  "entry_at sample_entries 2 = (sample_entry 2 IS_DIRTY ST_PINNING 7 0)\<lparr>dirty_meta_size := 4096, mod_after_in_transit := True\<rparr>"
  "entry_at sample_entries 3 = sample_entry 3 NO_LL ST_UNPIN 0 0"
  "entry_at sample_entries 4 = sample_entry 4 TO_BE_DELETED ST_DEL 0 0"
  "entry_at sample_entries 5 = sample_entry 5 RECLAIMED ST_DEL 0 0"
  "entry_at sample_entries 6 = sample_entry 6 TO_BE_RECLAIMED ST_DEL 0 0"
  "entry_at sample_entries 7 = (sample_entry 7 IS_DIRTY ST_UNPIN 0 2)\<lparr>dirty_meta_size := 4096\<rparr>"
  by (simp_all add: entry_at_def sample_entries_def)

lemma sample_entry_status [simp]:
  "status (sample_entry i st pst nx pv) = st" "pin_status (sample_entry i st pst nx pv) = pst"
  "util_ll_next (sample_entry i st pst nx pv) = nx" "util_ll_prev (sample_entry i st pst nx pv) = pv"
  "pin_ll_next (sample_entry i st pst nx pv) = 0" "pin_ll_prev (sample_entry i st pst nx pv) = 0"
  "this_index (sample_entry i st pst nx pv) = i" "st_ino (inode_stat (sample_entry i st pst nx pv)) = i"
  by (simp_all add: sample_entry_def)

lemma sample_outside:
  assumes "i \<notin> {2, 3, 4, 5, 6, 7}"
  shows "entry_at sample_entries i = zero_entry"
proof (cases "i = 0 \<or> 7 < i")
  case True
  then show ?thesis by (auto simp: entry_at_def sample_entries_def)
next
  case False
  with assms have "i = 1" by auto
  then show ?thesis by (simp add: entry_at_def sample_entries_def)
qed

lemma sample_status:
  "status (entry_at sample_entries i) = (if i = 2 \<or> i = 7 then IS_DIRTY else if i = 4 then TO_BE_DELETED
     else if i = 5 then RECLAIMED else if i = 6 then TO_BE_RECLAIMED else NO_LL)"
  "pin_status (entry_at sample_entries i) = (if i = 2 then ST_PINNING else if i = 3 \<or> i = 7 then ST_UNPIN
     else ST_DEL)"
  using sample_outside [of i] by (cases "i \<in> {2, 3, 4, 5, 6, 7}"; auto simp: sample_at)+

lemma sample_ready: "ready sample_sb"
  by (simp add: ready_def sync_wf_def sample_sb_def)

lemma sample_queues: "q_inv (entry_at sample_entries) sample_head [2, 7] [4] [2]"
proof -
  have "util.queued (entry_at sample_entries) 2 7 [2, 7]" "util.queued (entry_at sample_entries) 4 4 [4]"
    "pinq.queued (entry_at sample_entries) 2 2 [2]"
    by (simp_all add: util.queued_def pinq.queued_def dqueue_def sample_at)
  then show ?thesis by (simp add: q_inv_def sample_status sample_head_def zero_head_def)
qed

lemma sample_ok: "sb_ok sample_sb sample_lists"
proof -
  have "r_inv (entry_at sample_entries) sample_head [5]"
    by (simp add: r_inv_def sample_status sample_at sample_head_def zero_head_def)
  moreover have "gone_ok (entry_at sample_entries)" by (simp add: gone_ok_def sample_status)
  moreover have "size_ok sample_sb" by (simp add: size_ok_def sample_sb_def sample_head_def sample_entries_def)
  ultimately show ?thesis
    using sample_ready sample_queues by (simp add: sb_ok_def sb_inv_def sample_sb_def sample_lists_def)
qed

lemma sample_ents: "ents sample_sb = entry_at sample_entries" "sb_head sample_sb = sample_head"
  by (simp_all add: sample_sb_def)

lemma sample_live: "i \<in> {2, 3, 4, 6, 7} \<Longrightarrow> live sample_sb i"
  by (auto simp: live_def present_def sample_ents sample_status) (simp_all add: sample_sb_def sample_entries_def)

end
