(* ===== verification/Super_Block_Props.thy ===== *)
theory Super_Block_Props
  imports Super_Block_Sample
begin

text \<open>
  The properties of the super block: what its handlers guarantee, stated on the model of the code, each
  with a run on the sample super block.  The last section has the behaviour on error paths.
\<close>

subsection \<open>The queues are intact in every reachable state\<close>

text \<open>
  C1: Starting from a newly created super block, whatever sequence of handler calls on live inodes is made (no
  system call failing, no restoration or full scan in progress), the dirty queue, the delete
  queue, the pinning queue and the list of reclaimed inodes are properly linked lists whose ends and lengths
  are those in the header, and each entry has the status of the list it is on.
\<close>

theorem reachable_super_block_intact:
  assumes "sb_reachable s"
  shows "\<exists>D T P R. sb_ok s \<lparr>dirty_q = D, delete_q = T, pin_q = P, reclaimed_q = R\<rparr>"
proof -
  obtain A where "sb_ok s A" using sb_reachable_good [OF assms] by (auto simp: sb_good_def)
  then show ?thesis by (cases A) auto
qed

theorem reachable_super_block_intact_witness:
  "\<exists>D T P R. sb_ok (snd (super_block_new_inode \<lparr>meta_space_limit = 9, normal_upload_delay = 60,
     first_upload_delay = 30\<rparr> (Inr 8) zero_stat 1 (sample_sb\<lparr>sb_head := zero_head, sb_entries := []\<rparr>)))
     \<lparr>dirty_q = D, delete_q = T, pin_q = P, reclaimed_q = R\<rparr>"
proof -
  let ?s = "sample_sb\<lparr>sb_head := zero_head, sb_entries := []\<rparr>"
  let ?c = "\<lparr>meta_space_limit = 9, normal_upload_delay = 60, first_upload_delay = 30\<rparr>"
  have "ready ?s" by (simp add: ready_def sync_wf_def sample_sb_def)
  then have "sb_reachable ?s" by (intro sb_reachable.init) simp_all
  moreover have "sb_step ?s (snd (super_block_new_inode ?c (Inr 8) zero_stat 1 ?s))"
    by (rule sb_step.new_inode [where res = "fst (super_block_new_inode ?c (Inr 8) zero_stat 1 ?s)"]) simp
  ultimately show ?thesis by (intro reachable_super_block_intact) (rule sb_reachable.step)
qed

subsection \<open>Uploading\<close>

text \<open>
  C2: Marking a clean inode dirty appends it to the dirty queue, leaves every other list alone, sets its status,
  adds the size of its meta file to the dirty statistics and releases the lock.
\<close>

theorem mark_dirty_appends:
  assumes "sb_ok s A" and "live s i" and "st_ino (inode_stat (ents s i)) \<noteq> 0"
    and "status (ents s i) = NO_LL"
  shows "\<exists>s'. super_block_mark_dirty i s = (Inr (), s') \<and>
    ends_ok i s s' (A\<lparr>dirty_q := dirty_q A @ [i]\<rparr>) \<and> status (ents s' i) = IS_DIRTY \<and>
    dirty_bytes s' = dirty_raise (get_meta_size i s) (dirty_bytes s)"
  using super_block_mark_dirty_new [OF assms] .

theorem mark_dirty_appends_witness:
  "\<exists>s'. super_block_mark_dirty 3 sample_sb = (Inr (), s') \<and>
    ends_ok 3 sample_sb s' (sample_lists\<lparr>dirty_q := [2, 7] @ [3]\<rparr>) \<and> status (ents s' 3) = IS_DIRTY \<and>
    dirty_bytes s' = dirty_raise 4096 8192"
  using mark_dirty_appends [OF sample_ok, of 3]
  by (simp add: sample_live sample_ents sample_at sample_lists_def)
    (simp add: sample_sb_def get_meta_size_def dirty_bytes_def sample_system_def sample_stats_def)

text \<open>
  Updating the stat of an existing inode stores the new stat and leaves the inode dirty: where it was in the
  dirty queue if it was dirty before, at the end of the queue otherwise.
\<close>

theorem update_stat_stores_and_dirties:
  assumes "sb_ok s A" and "live s i" and "st_ino (inode_stat (ents s i)) \<noteq> 0"
  shows "\<exists>s'. super_block_update_stat i st False s = (Inr (), s') \<and>
    ends_ok i s s' (if status (ents s i) = IS_DIRTY then A else a_requeue i A) \<and>
    inode_stat (ents s' i) = st \<and> status (ents s' i) = IS_DIRTY"
  using super_block_update_stat_sync [OF assms] .

theorem update_stat_stores_and_dirties_witness:
  "\<exists>s'. super_block_update_stat 3 init_hcfs_stat False sample_sb = (Inr (), s') \<and>
    ends_ok 3 sample_sb s' (a_requeue 3 sample_lists) \<and>
    inode_stat (ents s' 3) = init_hcfs_stat \<and> status (ents s' 3) = IS_DIRTY"
  using update_stat_stores_and_dirties [OF sample_ok, of 3 init_hcfs_stat]
  by (simp add: sample_live sample_ents sample_at)

text \<open>
  C3: The end of a complete upload of an inode not modified meanwhile takes it, and only it, out of the
  dirty queue, records the time and subtracts its meta size from the dirty statistics.
\<close>

theorem upload_done_leaves_queue:
  assumes "sb_ok s A" and "live s i" and "status (ents s i) = IS_DIRTY"
    and "\<not> mod_after_in_transit (ents s i)"
  shows "\<exists>s'. super_block_update_transit i False False s = (Inr (), s') \<and>
    ends_ok i s s' (A\<lparr>dirty_q := remove1 i (dirty_q A)\<rparr>) \<and> status (ents s' i) = NO_LL \<and>
    lastsync_time (ents s' i) = sb_clock s \<and>
    dirty_bytes s' = add_clamp (dirty_bytes s) (- dirty_meta_size (ents s i))"
  using super_block_transit_clean [OF assms] .

theorem upload_done_leaves_queue_witness:
  "\<exists>s'. super_block_update_transit 7 False False sample_sb = (Inr (), s') \<and>
    ends_ok 7 sample_sb s' (sample_lists\<lparr>dirty_q := [2]\<rparr>) \<and> status (ents s' 7) = NO_LL"
  using upload_done_leaves_queue [OF sample_ok, of 7]
  by (auto simp: sample_live sample_ents sample_at sample_lists_def) (auto simp: sample_entry_def zero_entry_def)

text \<open>
  When the inode was modified during the upload and a sync point is set, it stays dirty and moves to the end
  of the dirty queue.
\<close>

theorem modified_upload_requeued:
  assumes "sb_ok s A" and "live s i" and "status (ents s i) = IS_DIRTY"
    and "mod_after_in_transit (ents s i)" and "sync_point_is_set s"
  shows "\<exists>s'. super_block_update_transit i False False s = (Inr (), s') \<and>
    ends_ok i s s' (a_requeue i A) \<and> status (ents s' i) = IS_DIRTY \<and> \<not> mod_after_in_transit (ents s' i)"
  using super_block_transit_again [OF assms] .

theorem modified_upload_requeued_witness:
  "\<exists>s'. super_block_update_transit 2 False False (sample_sb\<lparr>sync_point_is_set := True\<rparr>) = (Inr (), s') \<and>
    ends_ok 2 (sample_sb\<lparr>sync_point_is_set := True\<rparr>) s' (a_requeue 2 sample_lists) \<and>
    status (ents s' 2) = IS_DIRTY \<and> \<not> mod_after_in_transit (ents s' 2)"
proof -
  let ?s = "sample_sb\<lparr>sync_point_is_set := True\<rparr>"
  have "sb_ok ?s sample_lists"
    using sample_ok by (simp add: sb_ok_def sb_inv_def size_ok_def ready_def sync_wf_def)
  moreover have "live ?s 2" using sample_live [of 2] by (simp add: live_def present_def)
  ultimately show ?thesis
    by (intro modified_upload_requeued) (simp_all add: sample_ents sample_at)
qed

subsection \<open>Deletion\<close>

text \<open>
  C4: Marking an inode to be deleted takes it out of the dirty and pinning queues, appends it to the delete queue,
  clears its stat except for the mode and its pin status, and decrements the number of active inodes.
\<close>

theorem to_delete_moves_inode:
  assumes "sb_ok s A" and "live s i" and "status (ents s i) \<noteq> TO_BE_DELETED"
  shows "\<exists>s'. super_block_to_delete i True s = (Inr (), s') \<and> ends_ok i s s' (a_to_delete i A) \<and>
    status (ents s' i) = TO_BE_DELETED \<and> pin_status (ents s' i) = ST_DEL \<and>
    st_ino (inode_stat (ents s' i)) = 0 \<and>
    st_mode (inode_stat (ents s' i)) = st_mode (inode_stat (ents s i)) \<and>
    num_active_inodes (sb_head s') = num_active_inodes (sb_head s) - 1 \<and>
    dirty_bytes s' = dirty_drop (ents s i) (dirty_bytes s)"
  using super_block_to_delete_now [OF assms] .

theorem to_delete_moves_inode_witness:
  "\<exists>s'. super_block_to_delete 2 True sample_sb = (Inr (), s') \<and>
    ends_ok 2 sample_sb s' (sample_lists\<lparr>dirty_q := [7], delete_q := [4, 2], pin_q := []\<rparr>) \<and>
    status (ents s' 2) = TO_BE_DELETED"
  using to_delete_moves_inode [OF sample_ok, of 2]
  by (auto simp: sample_live sample_ents sample_at sample_lists_def a_to_delete_def)

text \<open>
  An inode whose enqueueing was deferred joins the end of the delete queue.
\<close>

theorem enqueue_delete_appends:
  assumes "sb_ok s A" and "live s i" and "status (ents s i) = NO_LL"
  shows "\<exists>s'. super_block_enqueue_delete i s = (Inr (), s') \<and>
    ends_ok i s s' (A\<lparr>delete_q := delete_q A @ [i]\<rparr>) \<and> status (ents s' i) = TO_BE_DELETED"
  using super_block_enqueue_delete_quiet [OF assms] .

theorem enqueue_delete_appends_witness:
  "\<exists>s'. super_block_enqueue_delete 3 sample_sb = (Inr (), s') \<and>
    ends_ok 3 sample_sb s' (sample_lists\<lparr>delete_q := [4, 3]\<rparr>) \<and> status (ents s' 3) = TO_BE_DELETED"
  using enqueue_delete_appends [OF sample_ok, of 3]
  by (simp add: sample_live sample_ents sample_at sample_lists_def)

text \<open>
  Deleting an inode for good takes it out of every queue, marks it to be reclaimed, keeps its generation and
  appends it to the unclaimed list.
\<close>

theorem delete_goes_to_unclaimed:
  assumes "sb_ok s A" and "live s i" and "\<not> now_reclaim_fullscan s"
  shows "\<exists>s'. super_block_delete i s = (Inr (), s') \<and> sb_ok s' (a_delete i A) \<and> \<not> sb_locked s' \<and>
    status (ents s' i) = TO_BE_RECLAIMED \<and> pin_status (ents s' i) = ST_DEL \<and>
    generation (ents s' i) = generation (ents s i) \<and>
    unclaimed_list s' = unclaimed_list s @ [i] \<and> disk_head s' = sb_head s'"
  using super_block_delete_quiet [OF assms] .

theorem delete_goes_to_unclaimed_witness:
  "\<exists>s'. super_block_delete 4 sample_sb = (Inr (), s') \<and> sb_ok s' (sample_lists\<lparr>delete_q := []\<rparr>) \<and>
    status (ents s' 4) = TO_BE_RECLAIMED \<and> unclaimed_list s' = [6, 4]"
  using delete_goes_to_unclaimed [OF sample_ok, of 4]
  by (auto simp: sample_live sample_lists_def a_delete_def) (auto simp: sample_sb_def)

subsection \<open>Reuse of inode numbers\<close>

text \<open>
  C6: Reclaiming puts exactly the inodes of the unclaimed list that wait to be reclaimed in front of the
  reclaimed list, each once and in ascending order, whatever else the unclaimed list contains, and empties it.
\<close>

theorem reclaim_collects_sorted:
  assumes "sb_ok s A" and "0 < num_total_inodes (sb_head s)"
    and "num_to_be_reclaimed (sb_head s) \<ge> 10000"
  shows "\<exists>s'. super_block_reclaim s = (Inr (), s') \<and> \<not> sb_locked s' \<and> unclaimed_list s' = [] \<and>
    num_to_be_reclaimed (sb_head s') = 0 \<and> disk_head s' = sb_head s' \<and>
    sb_ok s' (A\<lparr>reclaimed_q :=
      sorted_list_of_set {i \<in> set (unclaimed_list s). status (ents s i) = TO_BE_RECLAIMED} @ reclaimed_q A\<rparr>)"
  using super_block_reclaim_quiet [OF assms] .

theorem reclaim_collects_sorted_witness:
  "\<exists>s'. super_block_reclaim sample_sb = (Inr (), s') \<and> unclaimed_list s' = [] \<and>
    sb_ok s' (sample_lists\<lparr>reclaimed_q := [6, 5]\<rparr>)"
proof -
  have "{i \<in> set (unclaimed_list sample_sb). status (ents sample_sb i) = TO_BE_RECLAIMED} = {6}"
    by (auto simp: sample_ents sample_status) (simp_all add: sample_sb_def)
  with reclaim_collects_sorted [OF sample_ok] show ?thesis
    by (auto simp: sample_ents sample_head_def sample_lists_def)
qed

text \<open>
  C5: A new inode reuses the first reclaimed number when there is one, with the generation after the one the number
  had before, so that a stale reference can be told apart; no other entry changes.
\<close>

theorem new_inode_reuses_with_new_generation:
  assumes "sb_ok s A" and "reclaimed_q A = i # R"
  shows "\<exists>s'. super_block_new_inode c b st lp s = ((i, Some (generation (ents s i) + 1)), s') \<and>
    sb_ok s' (A\<lparr>reclaimed_q := R\<rparr>) \<and> \<not> sb_locked s' \<and> status (ents s i) = RECLAIMED \<and>
    ents s' = (ents s)(i := new_entry c st lp i (generation (ents s i) + 1) s) \<and>
    num_active_inodes (sb_head s') = num_active_inodes (sb_head s) + 1"
  using super_block_new_inode_reuse [OF assms] .

theorem new_inode_reuses_with_new_generation_witness:
  "\<exists>s'. super_block_new_inode \<lparr>meta_space_limit = 9, normal_upload_delay = 60, first_upload_delay = 30\<rparr>
     (Inr 8) zero_stat 1 sample_sb = ((5, Some 2), s') \<and> sb_ok s' (sample_lists\<lparr>reclaimed_q := []\<rparr>)"
  using new_inode_reuses_with_new_generation [OF sample_ok, of 5 "[]"
      "\<lparr>meta_space_limit = 9, normal_upload_delay = 60, first_upload_delay = 30\<rparr>" "Inr 8" zero_stat 1]
  by (auto simp: sample_lists_def sample_ents sample_at sample_entry_def)

text \<open>
  With no number to reuse, a new inode gets the next number behind the end of the file, which no entry had, and
  generation 1.
\<close>

theorem new_inode_extends_file:
  assumes "sb_ok s A" and "reclaimed_q A = []" and "\<not> NO_META_SPACE c s"
  shows "\<exists>s'. super_block_new_inode c (Inr blocks) st lp s = ((num_total_inodes (sb_head s) + 2, Some 1), s') \<and>
    sb_ok s' A \<and> \<not> sb_locked s' \<and> \<not> present s (num_total_inodes (sb_head s) + 2) \<and>
    present s' (num_total_inodes (sb_head s) + 2) \<and>
    ents s' = (ents s)(num_total_inodes (sb_head s) + 2 :=
      new_entry c st lp (num_total_inodes (sb_head s) + 2) 1 s) \<and>
    num_total_inodes (sb_head s') = num_total_inodes (sb_head s) + 1 \<and>
    num_active_inodes (sb_head s') = num_active_inodes (sb_head s) + 1"
  using super_block_new_inode_extend [OF assms refl] .

theorem new_inode_extends_file_witness:
  "\<exists>s'. super_block_new_inode \<lparr>meta_space_limit = 9, normal_upload_delay = 60, first_upload_delay = 30\<rparr>
     (Inr 8) zero_stat 1 (sample_sb\<lparr>sb_head := zero_head, sb_entries := []\<rparr>) = ((2, Some 1), s') \<and>
     sb_ok s' \<lparr>dirty_q = [], delete_q = [], pin_q = [], reclaimed_q = []\<rparr>"
proof -
  let ?s = "sample_sb\<lparr>sb_head := zero_head, sb_entries := []\<rparr>"
  let ?c = "\<lparr>meta_space_limit = 9, normal_upload_delay = 60, first_upload_delay = 30\<rparr>"
  have "ready ?s" by (simp add: ready_def sync_wf_def sample_sb_def)
  then have ok: "sb_ok ?s \<lparr>dirty_q = [], delete_q = [], pin_q = [], reclaimed_q = []\<rparr>"
    by (intro sb_good_init) simp_all
  have "\<not> NO_META_SPACE ?c ?s"
    by (simp add: NO_META_SPACE_def sample_sb_def sample_system_def sample_stats_def)
  with new_inode_extends_file [OF ok, of ?c 8 zero_stat 1] show ?thesis
    by (auto simp: zero_head_def)
qed

subsection \<open>Pinning\<close>

text \<open>
  Pinning an unpinned regular file appends it to the pinning queue with status \<open>ST_PINNING\<close>.
\<close>

theorem mark_pin_appends:
  assumes "sb_ok s A" and "live s i" and "pin_status (ents s i) = ST_UNPIN" and "S_ISREG m"
    and "system_restoring (hcfs_system s) \<noteq> 2"
  shows "\<exists>s'. super_block_mark_pin restore_meta i m s = (Inr (), s') \<and>
    ends_ok i s s' (A\<lparr>pin_q := pin_q A @ [i]\<rparr>) \<and> pin_status (ents s' i) = ST_PINNING"
  using super_block_mark_pin_file [OF assms] .

theorem mark_pin_appends_witness:
  "\<exists>s'. super_block_mark_pin (\<lambda>i s. (Inl (Errno EIO), s)) 3 33188 sample_sb = (Inr (), s') \<and>
    ends_ok 3 sample_sb s' (sample_lists\<lparr>pin_q := [2, 3]\<rparr>) \<and> pin_status (ents s' 3) = ST_PINNING"
proof -
  have "system_restoring (hcfs_system sample_sb) \<noteq> 2" by (simp add: sample_sb_def sample_system_def)
  with mark_pin_appends [OF sample_ok, of 3 33188] show ?thesis
    by (simp add: sample_live sample_ents sample_at S_ISREG_def sample_lists_def)
qed

text \<open>
  When all blocks of a file being pinned are local, it leaves the pinning queue with status \<open>ST_PIN\<close>; the
  remaining files keep their order.
\<close>

theorem finish_pinning_leaves_queue:
  assumes "sb_ok s A" and "live s i" and "pin_status (ents s i) = ST_PINNING"
  shows "\<exists>s'. super_block_finish_pinning i s = (Inr (), s') \<and>
    ends_ok i s s' (A\<lparr>pin_q := remove1 i (pin_q A)\<rparr>) \<and> pin_status (ents s' i) = ST_PIN"
  using super_block_finish_pinning_done [OF assms] .

theorem finish_pinning_leaves_queue_witness:
  "\<exists>s'. super_block_finish_pinning 2 sample_sb = (Inr (), s') \<and>
    ends_ok 2 sample_sb s' (sample_lists\<lparr>pin_q := []\<rparr>) \<and> pin_status (ents s' 2) = ST_PIN"
  using finish_pinning_leaves_queue [OF sample_ok, of 2]
  by (simp add: sample_live sample_ents sample_at sample_lists_def)

subsection \<open>Repair of the dirty queue\<close>

text \<open>
  If the forward links of the dirty queue are intact and its backward links are arbitrary, the repair
  terminates and restores the whole queue, changing nothing but entries.
\<close>

theorem repair_restores_back_links:
  assumes "sb_io s = []" and "forward_ok s D []"
  shows "\<exists>s'. ll_rebuild_dirty m s = (Inr (), s') \<and> entries_only s s' \<and>
    util.queued (ents s') (first_dirty_inode (sb_head s')) (last_dirty_inode (sb_head s')) D"
  using ll_rebuild_dirty_links [OF assms] .

text \<open>The sample super block with the backward link of inode 7 destroyed.\<close>

definition sample_damaged :: sb_state where
  "sample_damaged = sample_sb\<lparr>sb_entries := sample_entries[6 := sample_entry 7 IS_DIRTY ST_UNPIN 0 3]\<rparr>"

lemma sample_damaged_at:
  "ents sample_damaged 2 = entry_at sample_entries 2" "ents sample_damaged 7 = sample_entry 7 IS_DIRTY ST_UNPIN 0 3"
  "ents sample_damaged 3 = entry_at sample_entries 3"
  by (simp_all add: sample_damaged_def entry_at_def sample_entries_def)

theorem repair_restores_back_links_witness:
  "\<exists>s'. ll_rebuild_dirty 0 sample_damaged = (Inr (), s') \<and> util.queued (ents s') 2 7 [2, 7]"
proof -
  have io: "sb_io sample_damaged = []" by (simp add: sample_damaged_def sample_sb_def)
  have "present sample_damaged 2" "present sample_damaged 7"
    by (simp_all add: present_def sample_damaged_def sample_entries_def)
  then have fw: "forward_ok sample_damaged [2, 7] []"
    by (simp add: forward_ok_def sample_damaged_at sample_at)
      (simp add: sample_damaged_def sample_sb_def sample_head_def)
  obtain s' where s': "ll_rebuild_dirty 0 sample_damaged = (Inr (), s')" "entries_only sample_damaged s'"
    "util.queued (ents s') (first_dirty_inode (sb_head s')) (last_dirty_inode (sb_head s')) [2, 7]"
    using repair_restores_back_links [OF io fw, of 0] by blast
  moreover have "sb_head s' = sample_head"
    using entries_only_fields(2) [OF s'(2)] by (simp add: sample_damaged_def sample_sb_def)
  ultimately show ?thesis by (auto simp: sample_head_def)
qed

text \<open>
  C7: If an enqueue was interrupted after the old last entry had been pointed at the new inode, the repair
  completes it: the inode becomes the last of the dirty queue, with its status, and the header is written.
\<close>

theorem repair_completes_enqueue:
  assumes "sb_io s = []" and "forward_ok s D [x]"
  shows "\<exists>s'. ll_rebuild_dirty m s = (Inr (), s') \<and>
    util.queued (ents s') (first_dirty_inode (sb_head s')) (last_dirty_inode (sb_head s')) (D @ [x]) \<and>
    last_dirty_inode (sb_head s') = x \<and> status (ents s' x) = IS_DIRTY \<and>
    num_dirty (sb_head s') = num_dirty (sb_head s) + 1 \<and> disk_head s' = sb_head s'"
  using ll_rebuild_dirty_pending [OF assms] .

text \<open>The sample super block in the middle of an enqueue of inode 3.\<close>

definition sample_cut :: sb_state where
  "sample_cut = sample_sb\<lparr>sb_entries := sample_entries[6 := sample_entry 7 IS_DIRTY ST_UNPIN 3 2]\<rparr>"

lemma sample_cut_at:
  "ents sample_cut 2 = entry_at sample_entries 2" "ents sample_cut 7 = sample_entry 7 IS_DIRTY ST_UNPIN 3 2"
  "ents sample_cut 3 = entry_at sample_entries 3"
  by (simp_all add: sample_cut_def entry_at_def sample_entries_def)

theorem repair_completes_enqueue_witness:
  "\<exists>s'. ll_rebuild_dirty 0 sample_cut = (Inr (), s') \<and>
     last_dirty_inode (sb_head s') = 3 \<and> status (ents s' 3) = IS_DIRTY"
proof -
  have io: "sb_io sample_cut = []" by (simp add: sample_cut_def sample_sb_def)
  have "present sample_cut 2" "present sample_cut 7" "present sample_cut 3"
    by (simp_all add: present_def sample_cut_def sample_entries_def)
  moreover have "first_dirty_inode (sb_head sample_cut) = 2" "last_dirty_inode (sb_head sample_cut) = 7"
    by (simp_all add: sample_cut_def sample_sb_def sample_head_def)
  ultimately have "forward_ok sample_cut [2, 7] [3]" by (simp add: forward_ok_def sample_cut_at sample_at)
  from repair_completes_enqueue [OF io this, of 0] show ?thesis by blast
qed

subsection \<open>Error paths\<close>

text \<open>
  When the size of the super block file cannot be determined after a new inode has been appended, the call reports
  failure and returns with the exclusive lock still held.
\<close>

theorem new_inode_failure_keeps_lock:
  assumes ok: "sb_ok s A" and R: "reclaimed_q A = []" and sp: "\<not> NO_META_SPACE c s"
  shows "\<exists>s'. super_block_new_inode c (Inl e) st lp s = ((0, Some 1), s') \<and> sb_locked s'"
proof -
  have n: "num_inode_reclaimed (sb_head s) = 0" "sb_io s = []"
    using ok R by (simp_all add: sb_ok_def r_inv_def)
  with sp show ?thesis
    by (simp add: super_block_new_inode_def super_block_exclusive_locking_def choose_inode_def NO_META_SPACE_def
        Let_def sb_update_size_def update_sb_size_def upd_head_def)
qed

theorem new_inode_failure_keeps_lock_witness:
  "\<exists>s'. super_block_new_inode \<lparr>meta_space_limit = 9, normal_upload_delay = 60, first_upload_delay = 30\<rparr>
     (Inl EIO) zero_stat 1 (sample_sb\<lparr>sb_head := zero_head, sb_entries := []\<rparr>) = ((0, Some 1), s') \<and> sb_locked s'"
proof -
  let ?s = "sample_sb\<lparr>sb_head := zero_head, sb_entries := []\<rparr>"
  let ?c = "\<lparr>meta_space_limit = 9, normal_upload_delay = 60, first_upload_delay = 30\<rparr>"
  have "ready ?s" by (simp add: ready_def sync_wf_def sample_sb_def)
  then have ok: "sb_ok ?s \<lparr>dirty_q = [], delete_q = [], pin_q = [], reclaimed_q = []\<rparr>"
    by (intro sb_good_init) simp_all
  have "\<not> NO_META_SPACE ?c ?s"
    by (simp add: NO_META_SPACE_def sample_sb_def sample_system_def sample_stats_def)
  with new_inode_failure_keeps_lock [OF ok, of ?c EIO zero_stat 1] show ?thesis by simp
qed

text \<open>
  After one failed write of the sync point file, the next write never returns, because the
  failing call has not given the semaphore back.
\<close>

theorem syncpoint_write_failure_hangs:
  assumes "sync_point_info s = Some info" and "ctl_sem info = 1" and "sp_fptr info"
    and "sb_io s = [IO_Err e]"
  shows "\<exists>s1. write_syncpoint_data s = (Inl (Errno e), s1) \<and> write_syncpoint_data s1 = (Inl Hang, s1)"
  using assms by (simp add: write_syncpoint_data_def syscall_def io_step_def)

theorem syncpoint_write_failure_hangs_witness:
  "\<exists>s1. write_syncpoint_data (sample_sb\<lparr>sync_point_info := Some \<lparr>sp_fptr = True, sync_retry_times = 2,
       sp_data = zero_sync_data, ctl_sem = 1\<rparr>, sb_io := [IO_Err EIO]\<rparr>) = (Inl (Errno EIO), s1) \<and>
     write_syncpoint_data s1 = (Inl Hang, s1)"
  by (rule syncpoint_write_failure_hangs [where info = "\<lparr>sp_fptr = True, sync_retry_times = 2,
       sp_data = zero_sync_data, ctl_sem = 1\<rparr>"]) simp_all

text \<open>
  If setting the first sync point fails for lack of memory, the flag stays set without the structure behind
  it, and the next attempt dereferences a null pointer.
\<close>

theorem syncpoint_alloc_failure_then_crash:
  assumes "\<not> sync_point_is_set s" and "last_dirty_inode (sb_head s) \<noteq> 0" and "sb_io s = [IO_Err e]"
  shows "\<exists>s1. super_block_set_syncpoint s = (Inl (Errno 12), s1) \<and>
    fst (super_block_set_syncpoint s1) = Inl Crash"
  using assms
  by (simp add: super_block_set_syncpoint_def with_exclusive_def super_block_exclusive_locking_def
      super_block_exclusive_release_def init_syncpoint_resource_def syscall_def io_step_def Let_def)

theorem syncpoint_alloc_failure_then_crash_witness:
  "\<exists>s1. super_block_set_syncpoint (sample_sb\<lparr>sb_io := [IO_Err ENOMEM]\<rparr>) = (Inl (Errno 12), s1) \<and>
    fst (super_block_set_syncpoint s1) = Inl Crash"
  by (rule syncpoint_alloc_failure_then_crash) (simp_all add: sample_sb_def sample_head_def)

text \<open>What \<^verbatim>\<open>super_block_reclaim\<close> does to an entry that does not wait for it: nothing, whatever calls fail.\<close>

definition keeps_entry :: "ino_t \<Rightarrow> (sb_state, 'a) sm \<Rightarrow> bool" where
  "keeps_entry i m \<longleftrightarrow> (\<forall>s. present s i \<longrightarrow> status (ents s i) \<noteq> TO_BE_RECLAIMED \<longrightarrow> present (snd (m s)) i \<and> ents (snd (m s)) i = ents s i)"

lemma keeps_bind: "keeps_entry i m \<Longrightarrow> (\<And>x. keeps_entry i (f x)) \<Longrightarrow> keeps_entry i (bindE m f)"
  unfolding keeps_entry_def bindE_def by (auto split: prod.split sum.split)

lemma keeps_simple: "(\<And>s. sb_entries (snd (m s)) = sb_entries s) \<Longrightarrow> keeps_entry i m"
  by (simp add: keeps_entry_def present_def)

lemma keeps_calls: "keeps_entry i syscall" "keeps_entry i transfer" "keeps_entry i alloc_mem" "keeps_entry i read_unclaimed" "keeps_entry i write_super_block_head" "keeps_entry i (read_super_block_entry j)"
  by (rule keeps_simple, auto simp: syscall_def io_step_def transfer_def alloc_mem_def read_unclaimed_def write_super_block_head_def read_super_block_entry_def pread_entry_def bindE_def
    split: list.splits io_outcome.splits prod.splits sum.splits)+

lemma entry_at_put_other: "i \<noteq> j \<Longrightarrow> 0 < i \<Longrightarrow> i \<le> length es \<Longrightarrow> 0 < j \<Longrightarrow> entry_at (sb_put j e es) i = entry_at es i \<and> i \<le> length (sb_put j e es)"
  by (auto simp: entry_at_def sb_put_def nth_append)

lemma keeps_write: "j \<noteq> i \<Longrightarrow> keeps_entry i (write_super_block_entry j e)"
  using entry_at_put_other [of i j] by (auto simp: keeps_entry_def write_super_block_entry_def transfer_def syscall_def io_step_def bindE_def present_def
    split: list.splits io_outcome.splits prod.splits sum.splits)

lemma keeps_modify: "(\<And>s. sb_entries (f s) = sb_entries s) \<Longrightarrow> keeps_entry i (modifyE f)"
  by (rule keeps_simple) (simp add: modifyE_def)

lemma read_entry_result: "present s i \<Longrightarrow> read_super_block_entry i s = (Inr e, s') \<Longrightarrow> e = ents s i"
  by (auto simp: read_super_block_entry_def pread_entry_def transfer_def syscall_def io_step_def bindE_def present_def entry_at_def
    split: list.splits io_outcome.splits prod.splits sum.splits if_splits)

lemma keeps_reclaim_loop: "keeps_entry i (reclaim_loop xs last_reclaimed)"
proof (induction xs arbitrary: last_reclaimed)
  case Nil
  then show ?case by (simp add: keeps_entry_def returnE_def)
next
  case (Cons j xs)
  let ?f = "\<lambda>e. if status e = TO_BE_RECLAIMED then bindE (modifyE (upd_head (reclaim_head j))) (\<lambda>_.
      bindE (write_super_block_entry j (e\<lparr>status := RECLAIMED, util_ll_next := last_reclaimed\<rparr>)) (\<lambda>_. reclaim_loop xs j)) else reclaim_loop xs last_reclaimed"
  have f: "keeps_entry i (?f e)" if "j \<noteq> i \<or> status e \<noteq> TO_BE_RECLAIMED" for e
    using that Cons.IH by (auto intro!: keeps_bind keeps_modify keeps_write simp: upd_head_def)
  have b: "present (snd (bindE (read_super_block_entry j) ?f s)) i \<and> ents (snd (bindE (read_super_block_entry j) ?f s)) i = ents s i"
    if s: "present s i" "status (ents s i) \<noteq> TO_BE_RECLAIMED" for s
  proof (cases "read_super_block_entry j s")
    case (Pair r s1)
    have k: "present s1 i" "ents s1 i = ents s i" using keeps_calls(6) [of i j] s Pair by (auto simp: keeps_entry_def)
    show ?thesis
    proof (cases r)
      case (Inl e)
      then show ?thesis using Pair k by (simp add: bindE_def)
    next
      case (Inr e)
      have "j \<noteq> i \<or> status e \<noteq> TO_BE_RECLAIMED" using read_entry_result [of s i e s1] s Pair Inr by auto
      from f [OF this] show ?thesis using Pair Inr k s(2) by (simp add: bindE_def keeps_entry_def)
    qed
  qed
  show ?case using b Cons.IH by (auto simp: keeps_entry_def)
qed

lemma keeps_loop_head: "keeps_entry i (\<lambda>s. reclaim_loop xs (first_reclaimed_inode (sb_head s)) s)"
  using keeps_reclaim_loop by (simp add: keeps_entry_def)

lemma keeps_exclusive: "keeps_entry i m \<Longrightarrow> keeps_entry i (with_exclusive m)"
proof -
  assume k: "keeps_entry i m"
  have "snd (with_exclusive m s) = super_block_exclusive_release (snd (m (super_block_exclusive_locking s)))" for s by (simp add: with_exclusive_def split_beta)
  moreover have "sb_entries (super_block_exclusive_release s) = sb_entries s" "sb_entries (super_block_exclusive_locking s) = sb_entries s" for s
    by (simp_all add: super_block_exclusive_locking_def super_block_exclusive_release_def)
  ultimately show ?thesis using k by (simp add: keeps_entry_def present_def)
qed

lemma keeps_choice: "keeps_entry i m \<Longrightarrow> keeps_entry i (\<lambda>s. if P s then (Inr x, s) else m s)"
  by (auto simp: keeps_entry_def)

lemma keeps_reclaim: "keeps_entry i super_block_reclaim"
proof -
  let ?m = "bindE syscall (\<lambda>_. bindE syscall (\<lambda>_. bindE alloc_mem (\<lambda>_. bindE syscall (\<lambda>_.
        bindE read_unclaimed (\<lambda>unclaimed.
        bindE (\<lambda>s. reclaim_loop (rev (sort unclaimed)) (first_reclaimed_inode (sb_head s)) s) (\<lambda>_.
        bindE (modifyE (upd_head (\<lambda>h. h\<lparr>num_to_be_reclaimed := 0\<rparr>))) (\<lambda>_.
        bindE write_super_block_head (\<lambda>_.
        bindE syscall (\<lambda>_. modifyE (\<lambda>s. s\<lparr>unclaimed_list := []\<rparr>))))))))))"
  have "keeps_entry i ?m"
    by (intro keeps_bind keeps_calls keeps_modify keeps_loop_head) (simp_all add: upd_head_def)
  from keeps_choice [OF keeps_exclusive [OF this]] show ?thesis unfolding super_block_reclaim_def [abs_def] .
qed

text \<open>
  C40: A deletion that falls into the full scan, when the scan is behind the entry, loses an inode that is in no queue: the deletion leaves its entry at status \<open>NO_LL\<close> and records the inode for the end of the
  scan; the pass over the recorded inodes that ends the scan puts it into the list of unclaimed inodes but leaves the status at \<open>NO_LL\<close>, because it changes the status only of entries that are in a queue; and every
  later \<^verbatim>\<open>super_block_reclaim\<close>, whatever calls fail in it, leaves it so, because it reclaims only entries with status \<open>TO_BE_RECLAIMED\<close>.
\<close>

theorem delete_during_fullscan_lost:
  assumes ok: "sb_ok s A" and i: "live s i" and fs: "now_reclaim_fullscan s"
    and st: "status (ents s i) = NO_LL" "pin_status (ents s i) \<noteq> ST_PINNING"
    and tmp: "temp_unclaimed s = None" "\<not> temp_unclaimed_fptr s"
  shows "\<exists>s1 s2. super_block_delete i s = (Inr (), s1) \<and> handle_temp_unclaimed_file s1 = (Inr (), s2) \<and>
    i \<in> set (unclaimed_list s2) \<and> status (ents s2 i) = NO_LL \<and>
    (\<forall>s3. sb_entries s3 = sb_entries s2 \<longrightarrow> status (ents (snd (super_block_reclaim s3)) i) = NO_LL)"
proof -
  let ?s0 = "s\<lparr>sb_locked := True\<rparr>" and ?e = "(ents s i)\<lparr>in_transit := False, pin_status := ST_DEL\<rparr>"
  have io: "sb_io s = []" and p: "present s i" using ok i by (simp_all add: sb_ok_def live_def)
  let ?sa = "?s0\<lparr>sb_entries := sb_put i ?e (sb_entries s)\<rparr>"
  have "delete_entry_part i ?s0 = (Inr (), ?sa)"
    using io p fs st by (simp add: delete_entry_part_def unpin_if_pinning_def ll_dequeue_def bindE_def entE_def present_def
        entry_at_def read_super_block_entry_def pread_entry_def)
  then have "\<exists>s1. super_block_delete i s = (Inr (), s1) \<and> sb_entries s1 = sb_entries ?sa \<and> sb_io s1 = [] \<and> temp_unclaimed s1 = Some [i] \<and> temp_unclaimed_fptr s1"
    using io fs tmp by (auto simp: super_block_delete_def with_exclusive_def super_block_exclusive_locking_def
        super_block_exclusive_release_def fappend_def bindE_def)
  then obtain s1 where s1: "super_block_delete i s = (Inr (), s1)" "sb_entries s1 = sb_entries ?sa" "sb_io s1 = []"
    "temp_unclaimed s1 = Some [i]" "temp_unclaimed_fptr s1" by blast
  have p1: "present s1 i" "ents s1 i = ?e" using p s1(2) by (simp_all add: present_def entry_at_put)
  have "\<exists>u. temp_unclaimed_one i s1 = (Inr (), u) \<and> sb_io u = [] \<and> temp_unclaimed u = Some [i] \<and> present u i \<and> status (ents u i) = NO_LL"
    using s1(3,4) p1 st(1) by (simp add: temp_unclaimed_one_def unpin_if_pinning_def present_def entry_at_put)
  then obtain u where u: "temp_unclaimed_one i s1 = (Inr (), u)" "sb_io u = []" "temp_unclaimed u = Some [i]" "present u i" "status (ents u i) = NO_LL" by blast
  have "\<exists>s2. handle_temp_unclaimed_file s1 = (Inr (), s2) \<and> i \<in> set (unclaimed_list s2) \<and> sb_entries s2 = sb_entries u"
    using s1(3-5) u(1-3) by (simp add: handle_temp_unclaimed_file_def close_temp_unclaimed_def upd_head_def write_super_block_head_def numeral_eq_Suc)
  then obtain s2 where s2: "handle_temp_unclaimed_file s1 = (Inr (), s2)" "i \<in> set (unclaimed_list s2)" "sb_entries s2 = sb_entries u" by blast
  have "status (ents (snd (super_block_reclaim s3)) i) = NO_LL" if "sb_entries s3 = sb_entries s2" for s3
    using keeps_reclaim [of i] u(4,5) s2(3) that by (simp add: keeps_entry_def present_def)
  then show ?thesis using s1(1) s2 u(5) by auto
qed

theorem delete_during_fullscan_lost_witness:
  "\<exists>s1 s2. super_block_delete 3 (sample_sb\<lparr>now_reclaim_fullscan := True\<rparr>) = (Inr (), s1) \<and>
    handle_temp_unclaimed_file s1 = (Inr (), s2) \<and> 3 \<in> set (unclaimed_list s2) \<and> status (ents s2 3) = NO_LL"
proof -
  let ?s = "sample_sb\<lparr>now_reclaim_fullscan := True\<rparr>"
  have "sb_ok ?s sample_lists"
    using sample_ok by (simp add: sb_ok_def sb_inv_def size_ok_def ready_def sync_wf_def)
  moreover have "live ?s 3" using sample_live [of 3] by (simp add: live_def present_def)
  ultimately have "\<exists>s1 s2. super_block_delete 3 ?s = (Inr (), s1) \<and> handle_temp_unclaimed_file s1 = (Inr (), s2) \<and> 3 \<in> set (unclaimed_list s2) \<and> status (ents s2 3) = NO_LL \<and>
    (\<forall>s3. sb_entries s3 = sb_entries s2 \<longrightarrow> status (ents (snd (super_block_reclaim s3)) 3) = NO_LL)"
    by (rule delete_during_fullscan_lost) (simp_all add: sample_ents sample_status, simp_all add: sample_sb_def)
  then show ?thesis by blast
qed

end
