(* ===== verification/SB_Lock.thy ===== *)
theory SB_Lock
  imports HCFS_Prelude
begin

text \<open>
  The lock of the super block: \<^verbatim>\<open>super_block_share_locking\<close>, \<^verbatim>\<open>super_block_share_release\<close>,
  \<^verbatim>\<open>super_block_exclusive_locking\<close> and \<^verbatim>\<open>super_block_exclusive_release\<close> of
  \<^verbatim>\<open>src/HCFS/super_block.c\<close>, three semaphores and a counter, run by any number of threads.  Each
  semaphore operation is one step, so every interleaving of the calls is a run of the model; a thread
  whose semaphore is zero cannot step.  This theory justifies that the handlers are modelled as
  atomic bodies between the two calls of the exclusive lock.
\<close>

subsection \<open>Threads and steps\<close>

text \<open>
  Where a thread is: outside, inside the two locking calls, holding a lock, inside the two release calls.
  \<open>SL_n\<close> and \<open>SR_n\<close> count the steps of the shared calls, \<open>XL_1\<close> and \<open>XR_1\<close> those of the exclusive ones.
\<close>

datatype sb_pc = Idle | SL_1 | SL_2 | SL_3 | SL_4 | SL_5 | In_Share | SR_1 | SR_2 | SR_3
  | XL_1 | In_Excl | XR_1

record sb_lock =
  exclusive_lock_sem :: nat
  share_lock_sem :: nat
  share_CR_lock_sem :: nat
  share_counter :: nat
  pcs :: "sb_pc list"

definition at_pc :: "sb_lock \<Rightarrow> nat \<Rightarrow> sb_pc \<Rightarrow> bool" where
  "at_pc l t p \<longleftrightarrow> t < length (pcs l) \<and> pcs l ! t = p"

definition goto :: "nat \<Rightarrow> sb_pc \<Rightarrow> sb_lock \<Rightarrow> sb_lock" where
  "goto t p l = l\<lparr>pcs := (pcs l)[t := p]\<rparr>"

inductive lock_step :: "nat \<Rightarrow> sb_lock \<Rightarrow> sb_lock \<Rightarrow> bool" where
  share_locking1: "at_pc l t Idle \<Longrightarrow> exclusive_lock_sem l > 0 \<Longrightarrow>
    lock_step t l (goto t SL_1 (l\<lparr>exclusive_lock_sem := exclusive_lock_sem l - 1\<rparr>))"
| share_locking2: "at_pc l t SL_1 \<Longrightarrow> share_CR_lock_sem l > 0 \<Longrightarrow>
    lock_step t l (goto t SL_2 (l\<lparr>share_CR_lock_sem := share_CR_lock_sem l - 1\<rparr>))"
| share_locking3_first: "at_pc l t SL_2 \<Longrightarrow> share_counter l = 0 \<Longrightarrow> share_lock_sem l > 0 \<Longrightarrow>
    lock_step t l (goto t SL_3 (l\<lparr>share_lock_sem := share_lock_sem l - 1\<rparr>))"
| share_locking3_more: "at_pc l t SL_2 \<Longrightarrow> share_counter l > 0 \<Longrightarrow> lock_step t l (goto t SL_3 l)"
| share_locking4: "at_pc l t SL_3 \<Longrightarrow>
    lock_step t l (goto t SL_4 (l\<lparr>share_counter := share_counter l + 1\<rparr>))"
| share_locking5: "at_pc l t SL_4 \<Longrightarrow>
    lock_step t l (goto t SL_5 (l\<lparr>share_CR_lock_sem := share_CR_lock_sem l + 1\<rparr>))"
| share_locking6: "at_pc l t SL_5 \<Longrightarrow>
    lock_step t l (goto t In_Share (l\<lparr>exclusive_lock_sem := exclusive_lock_sem l + 1\<rparr>))"
| share_release1: "at_pc l t In_Share \<Longrightarrow> share_CR_lock_sem l > 0 \<Longrightarrow>
    lock_step t l (goto t SR_1 (l\<lparr>share_CR_lock_sem := share_CR_lock_sem l - 1\<rparr>))"
| share_release2_error: "at_pc l t SR_1 \<Longrightarrow> share_counter l = 0 \<Longrightarrow>
    lock_step t l (goto t Idle (l\<lparr>share_CR_lock_sem := share_CR_lock_sem l + 1\<rparr>))"
| share_release2: "at_pc l t SR_1 \<Longrightarrow> share_counter l > 0 \<Longrightarrow>
    lock_step t l (goto t SR_2 (l\<lparr>share_counter := share_counter l - 1\<rparr>))"
| share_release3_last: "at_pc l t SR_2 \<Longrightarrow> share_counter l = 0 \<Longrightarrow>
    lock_step t l (goto t SR_3 (l\<lparr>share_lock_sem := share_lock_sem l + 1\<rparr>))"
| share_release3_more: "at_pc l t SR_2 \<Longrightarrow> share_counter l > 0 \<Longrightarrow> lock_step t l (goto t SR_3 l)"
| share_release4: "at_pc l t SR_3 \<Longrightarrow>
    lock_step t l (goto t Idle (l\<lparr>share_CR_lock_sem := share_CR_lock_sem l + 1\<rparr>))"
| exclusive_locking1: "at_pc l t Idle \<Longrightarrow> exclusive_lock_sem l > 0 \<Longrightarrow>
    lock_step t l (goto t XL_1 (l\<lparr>exclusive_lock_sem := exclusive_lock_sem l - 1\<rparr>))"
| exclusive_locking2: "at_pc l t XL_1 \<Longrightarrow> share_lock_sem l > 0 \<Longrightarrow>
    lock_step t l (goto t In_Excl (l\<lparr>share_lock_sem := share_lock_sem l - 1\<rparr>))"
| exclusive_release1: "at_pc l t In_Excl \<Longrightarrow>
    lock_step t l (goto t XR_1 (l\<lparr>share_lock_sem := share_lock_sem l + 1\<rparr>))"
| exclusive_release2: "at_pc l t XR_1 \<Longrightarrow>
    lock_step t l (goto t Idle (l\<lparr>exclusive_lock_sem := exclusive_lock_sem l + 1\<rparr>))"

inductive_cases lock_stepE: "lock_step t l l'"

text \<open>\<^verbatim>\<open>super_block_init\<close> sets the semaphores to 1; \<open>n\<close> threads are outside.\<close>

definition lock_init :: "nat \<Rightarrow> sb_lock" where
  "lock_init n = \<lparr>exclusive_lock_sem = 1, share_lock_sem = 1, share_CR_lock_sem = 1, share_counter = 0,
     pcs = replicate n Idle\<rparr>"

inductive lock_reachable :: "nat \<Rightarrow> sb_lock \<Rightarrow> bool" for n where
  start: "lock_reachable n (lock_init n)"
| step: "lock_reachable n l \<Longrightarrow> lock_step t l l' \<Longrightarrow> lock_reachable n l'"

subsection \<open>Counting threads\<close>

definition cnt :: "sb_pc set \<Rightarrow> sb_lock \<Rightarrow> nat" where
  "cnt S l = length (filter (\<lambda>p. p \<in> S) (pcs l))"

lemma filter_upd_count:
  "t < length xs \<Longrightarrow> length (filter P (xs[t := b])) + (if P (xs ! t) then 1 else 0) =
    length (filter P xs) + (if P b then 1 else 0)"
proof (induction xs arbitrary: t)
  case (Cons x xs)
  show ?case
  proof (cases t)
    case (Suc k)
    with Cons.prems Cons.IH [of k] show ?thesis by (simp split: if_splits)
  qed simp
qed simp

lemma cnt_goto:
  assumes "at_pc l t p" and "pcs l' = pcs l"
  shows "cnt S (goto t q l') + (if p \<in> S then 1 else 0) = cnt S l + (if q \<in> S then 1 else 0)"
  using assms filter_upd_count [of t "pcs l" "\<lambda>x. x \<in> S" q] by (auto simp: cnt_def goto_def at_pc_def)

lemma cnt_pos: "at_pc l t p \<Longrightarrow> p \<in> S \<Longrightarrow> cnt S l > 0"
  by (auto simp: cnt_def at_pc_def length_greater_0_conv filter_empty_conv)

lemma cnt_two:
  assumes "at_pc l t p" "at_pc l u q" "t \<noteq> u" "p \<in> S" "q \<in> S"
  shows "cnt S l \<ge> 2"
proof -
  have "{t, u} \<subseteq> {i. i < length (pcs l) \<and> pcs l ! i \<in> S}" using assms by (auto simp: at_pc_def)
  then have "card {t, u} \<le> card {i. i < length (pcs l) \<and> pcs l ! i \<in> S}" by (intro card_mono) auto
  with assms(3) show ?thesis by (simp add: cnt_def length_filter_conv_card)
qed

lemma cnt_witness: "cnt S l > 0 \<Longrightarrow> \<exists>t p. at_pc l t p \<and> p \<in> S"
  by (auto simp: cnt_def at_pc_def length_greater_0_conv filter_empty_conv in_set_conv_nth)

subsection \<open>The invariant\<close>

text \<open>
  The threads between taking and giving back the exclusive semaphore, between taking and giving
  back the counter semaphore, the readers the counter counts, and the threads on whose behalf the readers hold the share
  semaphore.
\<close>

definition ex_holders :: "sb_pc set" where "ex_holders = {SL_1, SL_2, SL_3, SL_4, SL_5, XL_1, In_Excl, XR_1}"
definition cr_holders :: "sb_pc set" where "cr_holders = {SL_2, SL_3, SL_4, SR_1, SR_2, SR_3}"
definition counted :: "sb_pc set" where "counted = {SL_4, SL_5, In_Share, SR_1}"
definition sharers :: "sb_pc set" where "sharers = {SL_3, SR_2, SL_4, SL_5, In_Share, SR_1}"

lemmas pc_sets = ex_holders_def cr_holders_def counted_def sharers_def

definition lock_inv :: "sb_lock \<Rightarrow> bool" where
  "lock_inv l \<longleftrightarrow> exclusive_lock_sem l + cnt ex_holders l = 1 \<and> share_CR_lock_sem l + cnt cr_holders l = 1 \<and>
     share_counter l = cnt counted l \<and>
     share_lock_sem l + cnt {In_Excl} l + of_bool (cnt sharers l > 0) = 1"

lemma sharers_mem: "p \<in> sharers \<longleftrightarrow> p = SL_3 \<or> p = SR_2 \<or> p \<in> counted"
  by (auto simp: pc_sets)

lemma length_filter_split:
  assumes "S = A \<union> B" and "A \<inter> B = {}"
  shows "length (filter (\<lambda>p. p \<in> S) xs) = length (filter (\<lambda>p. p \<in> A) xs) + length (filter (\<lambda>p. p \<in> B) xs)"
  using assms by (induction xs) auto

lemma cnt_split: "S = A \<union> B \<Longrightarrow> A \<inter> B = {} \<Longrightarrow> cnt S l = cnt A l + cnt B l"
  unfolding cnt_def by (rule length_filter_split)

lemma group_split: "cnt sharers l = cnt {SL_3, SR_2} l + cnt counted l"
  by (rule cnt_split) (auto simp: pc_sets)

lemma cr_split: "cnt cr_holders l = cnt {SL_3, SR_2} l + cnt {SL_2, SL_4, SR_1, SR_3} l"
  by (rule cnt_split) (auto simp: pc_sets)

lemma ex_split: "cnt ex_holders l = cnt {In_Excl} l + cnt (ex_holders - {In_Excl}) l"
  by (rule cnt_split) (auto simp: pc_sets)

lemma lock_inv_init: "lock_inv (lock_init n)"
  by (simp add: lock_inv_def lock_init_def cnt_def pc_sets)

text \<open>The counts after a step in which thread \<open>t\<close> goes from \<open>p\<close> to \<open>q\<close>.\<close>

lemma lock_inv_move:
  assumes inv: "lock_inv l" and p: "at_pc l t p" and l': "pcs l' = pcs l"
    and eq: "exclusive_lock_sem l' + of_bool (q \<in> ex_holders) = exclusive_lock_sem l + of_bool (p \<in> ex_holders)"
      "share_CR_lock_sem l' + of_bool (q \<in> cr_holders) = share_CR_lock_sem l + of_bool (p \<in> cr_holders)"
      "share_counter l' + of_bool (p \<in> counted) = share_counter l + of_bool (q \<in> counted)"
      "share_lock_sem l' + of_bool (q = In_Excl) + of_bool (cnt sharers (goto t q l') > 0) =
        share_lock_sem l + of_bool (p = In_Excl) + of_bool (cnt sharers l > 0)"
  shows "lock_inv (goto t q l')"
proof -
  have c: "cnt S (goto t q l') + of_bool (p \<in> S) = cnt S l + of_bool (q \<in> S)" for S
    using cnt_goto [OF p l', of S q] by (simp add: of_bool_def)
  have g: "exclusive_lock_sem (goto t q l') = exclusive_lock_sem l'"
    "share_CR_lock_sem (goto t q l') = share_CR_lock_sem l'"
    "share_counter (goto t q l') = share_counter l'" "share_lock_sem (goto t q l') = share_lock_sem l'"
    by (simp_all add: goto_def)
  have i: "exclusive_lock_sem l + cnt ex_holders l = 1" "share_CR_lock_sem l + cnt cr_holders l = 1"
    "share_counter l = cnt counted l" "share_lock_sem l + cnt {In_Excl} l + of_bool (cnt sharers l > 0) = 1"
    using inv by (simp_all add: lock_inv_def)
  have "exclusive_lock_sem l' + cnt ex_holders (goto t q l') = 1" using i(1) eq(1) c [of ex_holders] by linarith
  moreover have "share_CR_lock_sem l' + cnt cr_holders (goto t q l') = 1"
    using i(2) eq(2) c [of cr_holders] by linarith
  moreover have "share_counter l' = cnt counted (goto t q l')" using i(3) eq(3) c [of counted] by linarith
  moreover have "share_lock_sem l' + cnt {In_Excl} (goto t q l') + of_bool (cnt sharers (goto t q l') > 0) = 1"
    using i(4) eq(4) c [of "{In_Excl}"] by simp
  ultimately show ?thesis unfolding lock_inv_def g by blast
qed

lemma group_move:
  assumes p: "at_pc l t p" and l': "pcs l' = pcs l" and same: "p \<in> sharers \<longleftrightarrow> q \<in> sharers"
  shows "cnt sharers (goto t q l') = cnt sharers l"
  using cnt_goto [OF p l', of sharers q] same by (simp split: if_splits)

lemma group_enter:
  assumes inv: "lock_inv l" and p: "at_pc l t SL_2" and l': "pcs l' = pcs l"
  shows "cnt sharers (goto t SL_3 l') > 0" and "cnt sharers l = share_counter l"
proof -
  show "cnt sharers (goto t SL_3 l') > 0" using cnt_goto [OF p l', of sharers SL_3] by (simp add: sharers_def)
  have "cnt {SL_2, SL_4, SR_1, SR_3} l > 0" using cnt_pos [OF p] by simp
  with inv show "cnt sharers l = share_counter l" unfolding lock_inv_def group_split cr_split by simp
qed

lemma group_leave:
  assumes inv: "lock_inv l" and p: "at_pc l t SR_2" and l': "pcs l' = pcs l"
  shows "cnt sharers (goto t SR_3 l') = share_counter l" and "cnt sharers l > 0"
proof -
  show pos: "cnt sharers l > 0" using cnt_pos [OF p] by (simp add: sharers_def)
  have "cnt {SL_3, SR_2} l > 0" using cnt_pos [OF p] by simp
  with inv have "cnt {SL_3, SR_2} l = 1" unfolding lock_inv_def cr_split by simp
  with inv show "cnt sharers (goto t SR_3 l') = share_counter l"
    using cnt_goto [OF p l', of sharers SR_3] unfolding lock_inv_def group_split by (simp add: sharers_def)
qed

text \<open>A thread inside \<^verbatim>\<open>super_block_share_release\<close> is counted, so the error branch is not taken.\<close>

lemma counted_pos: "lock_inv l \<Longrightarrow> at_pc l t p \<Longrightarrow> p \<in> counted \<Longrightarrow> share_counter l > 0"
  using cnt_pos [of l t p counted] by (simp add: lock_inv_def)

lemma lock_inv_step:
  assumes "lock_step t l l'" and inv: "lock_inv l"
  shows "lock_inv l'"
  using assms(1)
proof (cases rule: lock_step.cases)
  case share_locking3_first
  then show ?thesis using group_enter [OF inv, of t] by (auto intro!: lock_inv_move [OF inv] simp: pc_sets)
next
  case share_locking3_more
  then show ?thesis using group_enter [OF inv, of t] by (auto intro!: lock_inv_move [OF inv] simp: pc_sets)
next
  case share_release2_error
  then show ?thesis using counted_pos [OF inv, of t SR_1] by (simp add: counted_def)
next
  case share_release3_last
  then show ?thesis using group_leave [OF inv, of t] by (auto intro!: lock_inv_move [OF inv] simp: pc_sets)
next
  case share_release3_more
  then show ?thesis using group_leave [OF inv, of t] by (auto intro!: lock_inv_move [OF inv] simp: pc_sets)
qed (auto intro!: lock_inv_move [OF inv] simp: group_move sharers_mem ex_holders_def cr_holders_def counted_def)

lemma lock_reachable_inv: "lock_reachable n l \<Longrightarrow> lock_inv l"
  by (induction rule: lock_reachable.induct) (auto simp: lock_inv_init intro: lock_inv_step)

subsection \<open>Exclusion and progress\<close>

lemma excl_alone:
  assumes inv: "lock_inv l" and t: "at_pc l t In_Excl" and u: "at_pc l u p" and "t \<noteq> u"
  shows "p \<notin> ex_holders \<and> p \<notin> sharers"
proof (intro conjI notI)
  assume "p \<in> ex_holders"
  then have "cnt ex_holders l \<ge> 2" using cnt_two [OF t u \<open>t \<noteq> u\<close>, of ex_holders] by (simp add: ex_holders_def)
  with inv show False by (simp add: lock_inv_def)
next
  assume "p \<in> sharers"
  then have "cnt sharers l > 0" using cnt_pos [OF u] by simp
  moreover have "cnt {In_Excl} l > 0" using cnt_pos [OF t] by simp
  ultimately show False using inv by (simp add: lock_inv_def)
qed

lemma no_pc: "cnt S l = 0 \<longleftrightarrow> (\<forall>t p. at_pc l t p \<longrightarrow> p \<notin> S)"
  using cnt_pos [of l _ _ S] cnt_witness [of S l] by (metis gr0I less_irrefl)

text \<open>The program counters at which a thread never waits.\<close>

lemma free_steps: "at_pc l t p \<Longrightarrow> p \<in> {SL_3, SL_4, SL_5, SR_1, SR_2, SR_3, In_Excl, XR_1} \<Longrightarrow> \<exists>l'. lock_step t l l'"
  by (elim insertE) (cases "share_counter l = 0"; auto intro: lock_step.intros)+

lemma share_sem_free:
  assumes inv: "lock_inv l" and t: "at_pc l t p" "p \<in> {SL_2, XL_1}" and none: "cnt sharers l = 0"
  shows "share_lock_sem l > 0"
proof -
  have "cnt (ex_holders - {In_Excl}) l > 0" using cnt_pos [OF t(1)] t(2) by (auto simp: ex_holders_def)
  with inv have "cnt {In_Excl} l = 0" unfolding lock_inv_def ex_split by linarith
  with inv none show ?thesis by (simp add: lock_inv_def)
qed

lemma some_step:
  assumes inv: "lock_inv l" and t: "at_pc l t p" "p \<noteq> Idle"
  shows "\<exists>u q l'. at_pc l u q \<and> q \<noteq> Idle \<and> lock_step u l l'"
proof (cases "\<exists>u q. at_pc l u q \<and> q \<in> {SL_3, SL_4, SL_5, SR_1, SR_2, SR_3, In_Excl, XR_1}")
  case True
  then show ?thesis using free_steps by blast
next
  case False
  then have wait: "q \<in> {Idle, SL_1, SL_2, In_Share, XL_1}" if "at_pc l u q" for u q
    using that by (cases q) auto
  show ?thesis
  proof (cases "\<exists>u. at_pc l u SL_2")
    case True
    then obtain u where u: "at_pc l u SL_2" by blast
    have "share_counter l = 0 \<Longrightarrow> share_lock_sem l > 0"
      using share_sem_free [OF inv u] group_enter(2) [OF inv u refl] by simp
    then have "\<exists>l'. lock_step u l l'" using u by (cases "share_counter l = 0") (auto intro: lock_step.intros)
    with u show ?thesis by blast
  next
    case no2: False
    then have "cnt cr_holders l = 0" unfolding no_pc using wait by (fastforce simp: cr_holders_def)
    with inv have cr: "share_CR_lock_sem l > 0" by (simp add: lock_inv_def)
    show ?thesis
    proof (cases "p = SL_1 \<or> p = In_Share")
      case True
      then have "\<exists>l'. lock_step t l l'" using t(1) cr by (auto intro: lock_step.intros)
      with t show ?thesis by blast
    next
      case other: False
      then have x: "at_pc l t XL_1" using wait [OF t(1)] t no2 by auto
      show ?thesis
      proof (cases "\<exists>u. at_pc l u In_Share")
        case True
        then obtain u where u: "at_pc l u In_Share" by blast
        then show ?thesis using cr lock_step.share_release1 [of l u] by blast
      next
        case False
        then have "cnt sharers l = 0" unfolding no_pc using wait by (fastforce simp: sharers_def)
        then show ?thesis using share_sem_free [OF inv x] x lock_step.exclusive_locking2 [of l t] by blast
      qed
    qed
  qed
qed

subsection \<open>Properties\<close>

text \<open>
  C8: Mutual exclusion of the super block lock under every interleaving of any number of threads: while
  one thread holds the exclusive lock, no other thread holds the exclusive or the shared lock.
\<close>

theorem lock_mutual_exclusion:
  assumes "lock_reachable n l" and "at_pc l t In_Excl" and "at_pc l u p" and "t \<noteq> u"
  shows "p \<noteq> In_Excl \<and> p \<noteq> In_Share"
  using excl_alone [OF lock_reachable_inv [OF assms(1)] assms(2-4)] by (auto simp: pc_sets)

definition excl_run :: "sb_lock list" where
  "excl_run = [\<lparr>exclusive_lock_sem = 0, share_lock_sem = 1, share_CR_lock_sem = 1, share_counter = 0, pcs = [XL_1, Idle]\<rparr>,
     \<lparr>exclusive_lock_sem = 0, share_lock_sem = 0, share_CR_lock_sem = 1, share_counter = 0, pcs = [In_Excl, Idle]\<rparr>]"

lemma excl_run_reachable: "lock_reachable 2 (excl_run ! 0)" "lock_reachable 2 (excl_run ! 1)"
proof -
  have "lock_step 0 (lock_init 2) (excl_run ! 0)"
    using lock_step.exclusive_locking1 [of "lock_init 2" 0]
    by (simp add: at_pc_def lock_init_def excl_run_def goto_def numeral_2_eq_2)
  with lock_reachable.start show *: "lock_reachable 2 (excl_run ! 0)" by (rule lock_reachable.step)
  have "lock_step 0 (excl_run ! 0) (excl_run ! 1)"
    using lock_step.exclusive_locking2 [of "excl_run ! 0" 0] by (simp add: at_pc_def excl_run_def goto_def)
  with * show "lock_reachable 2 (excl_run ! 1)" by (rule lock_reachable.step)
qed

lemma excl_run_pcs: "at_pc (excl_run ! 0) 0 XL_1" "at_pc (excl_run ! 1) 0 In_Excl" "at_pc (excl_run ! 1) 1 Idle"
  by (simp_all add: at_pc_def excl_run_def)

theorem lock_mutual_exclusion_witness:
  "lock_reachable 2 (excl_run ! 1) \<and> at_pc (excl_run ! 1) 0 In_Excl \<and> Idle \<noteq> In_Excl \<and> Idle \<noteq> In_Share"
  using lock_mutual_exclusion [OF excl_run_reachable(2) excl_run_pcs(2,3)] excl_run_reachable(2) excl_run_pcs(2)
  by simp

text \<open>
  C9: The super block lock never deadlocks by itself: in every reachable state with a thread that is
  not outside the lock, some such thread can take its next step (the body it runs inside the lock apart).
\<close>

theorem lock_progress:
  assumes "lock_reachable n l" and "at_pc l t p" and "p \<noteq> Idle"
  shows "\<exists>u q l'. at_pc l u q \<and> q \<noteq> Idle \<and> lock_step u l l'"
  using some_step [OF lock_reachable_inv [OF assms(1)] assms(2,3)] .

theorem lock_progress_witness:
  "lock_reachable 2 (excl_run ! 0) \<and> (\<exists>u q l'. at_pc (excl_run ! 0) u q \<and> q \<noteq> Idle \<and> lock_step u (excl_run ! 0) l')"
  using lock_progress [OF excl_run_reachable(1) excl_run_pcs(1)] excl_run_reachable(1) by simp

text \<open>
  C10: The error return of \<^verbatim>\<open>super_block_share_release\<close> (share_counter already 0) is never taken by a
  thread that got the shared lock before, and a writer that waits for the readers admits no new thread: a thread outside
  cannot start either locking call before the writer is done.
\<close>

theorem lock_release_and_priority:
  assumes "lock_reachable n l"
  shows "(at_pc l t SR_1 \<longrightarrow> share_counter l > 0) \<and>
    (at_pc l w XL_1 \<and> lock_step u l l' \<longrightarrow> \<not> at_pc l u Idle)"
proof (intro conjI impI)
  have inv: "lock_inv l" by (rule lock_reachable_inv [OF assms])
  show "share_counter l > 0" if "at_pc l t SR_1" using counted_pos [OF inv that] by (simp add: counted_def)
  assume w: "at_pc l w XL_1 \<and> lock_step u l l'"
  then have "cnt ex_holders l > 0" using cnt_pos [of l w XL_1 ex_holders] by (simp add: ex_holders_def)
  with inv have "exclusive_lock_sem l = 0" by (simp add: lock_inv_def)
  then show "\<not> at_pc l u Idle" using w by (auto simp: at_pc_def elim!: lock_stepE)
qed

theorem lock_release_and_priority_witness:
  "at_pc (excl_run ! 0) 0 XL_1 \<and> lock_step 0 (excl_run ! 0) (excl_run ! 1) \<and> \<not> at_pc (excl_run ! 0) 0 Idle"
proof -
  have "lock_step 0 (excl_run ! 0) (excl_run ! 1)"
    using lock_step.exclusive_locking2 [of "excl_run ! 0" 0] by (simp add: at_pc_def excl_run_def goto_def)
  then show ?thesis
    using lock_release_and_priority [OF excl_run_reachable(1), of 0 0 0 "excl_run ! 1"] excl_run_pcs(1) by simp
qed

end
