(* ===== verification/Buckets.thy ===== *)
theory Buckets
  imports HCFS_Prelude "HOL-Library.Word"
begin

text \<open>
  What the in-memory tables of HCFS share: an array of buckets, each a singly linked list of nodes
  found by a key.  The \<open>while\<close> loops over a bucket are the recursive functions \<open>find_first\<close>, \<open>upd_first\<close> and
  \<open>del_first\<close>; semaphores are counters on which a call at zero never returns.  The locale \<open>buckets\<close>
  is the interface of such a table: a node's key and a slot for every key.  It is interpreted for the hash list of the
  minimal apk table and for the lookup count table.
\<close>

subsection \<open>Loops over a bucket\<close>

fun find_first :: "('n \<Rightarrow> bool) \<Rightarrow> 'n list \<Rightarrow> 'n option" where
  "find_first P [] = None"
| "find_first P (n # ns) = (if P n then Some n else find_first P ns)"

fun upd_first :: "('n \<Rightarrow> bool) \<Rightarrow> ('n \<Rightarrow> 'n) \<Rightarrow> 'n list \<Rightarrow> 'n list" where
  "upd_first P f [] = []"
| "upd_first P f (n # ns) = (if P n then f n # ns else n # upd_first P f ns)"

fun del_first :: "('n \<Rightarrow> bool) \<Rightarrow> 'n list \<Rightarrow> 'n list" where
  "del_first P [] = []"
| "del_first P (n # ns) = (if P n then ns else n # del_first P ns)"

lemma find_first_None: "find_first P ns = None \<longleftrightarrow> (\<forall>n \<in> set ns. \<not> P n)"
  by (induction ns) auto

lemma find_first_Some: "find_first P ns = Some n \<Longrightarrow> P n \<and> n \<in> set ns"
  by (induction ns) (auto split: if_splits)

lemma find_first_upd_other:
  "(\<And>n. key n = k \<Longrightarrow> key (f n) = k) \<Longrightarrow> k' \<noteq> k \<Longrightarrow>
    find_first (\<lambda>n. key n = k') (upd_first (\<lambda>n. key n = k) f ns) = find_first (\<lambda>n. key n = k') ns"
  by (induction ns) auto

lemma find_first_upd_same:
  "(\<And>n. P n \<Longrightarrow> P (f n)) \<Longrightarrow> find_first P (upd_first P f ns) = map_option f (find_first P ns)"
  by (induction ns) auto

lemma find_first_del_other:
  "k' \<noteq> k \<Longrightarrow> find_first (\<lambda>n. key n = k') (del_first (\<lambda>n. key n = k) ns) = find_first (\<lambda>n. key n = k') ns"
  by (induction ns) auto

lemma set_del_first: "set (del_first P ns) \<subseteq> set ns"
  by (induction ns) auto

lemma map_upd_first: "(\<And>n. P n \<Longrightarrow> g (f n) = g n) \<Longrightarrow> map g (upd_first P f ns) = map g ns"
  by (induction ns) auto

lemma length_del_first: "find_first P ns \<noteq> None \<Longrightarrow> Suc (length (del_first P ns)) = length ns"
  by (induction ns) auto

lemma map_del_first_distinct: "distinct (map g ns) \<Longrightarrow> distinct (map g (del_first P ns))"
  by (induction ns) (use set_del_first [of P] in \<open>auto simp: image_iff\<close>)

lemma find_first_del_same:
  "distinct (map key ns) \<Longrightarrow> find_first (\<lambda>n. key n = k) (del_first (\<lambda>n. key n = k) ns) = None"
  by (induction ns) (auto simp: find_first_None image_iff)

subsection \<open>The interface of a bucket table\<close>

locale buckets =
  fixes key :: "'n \<Rightarrow> 'k" and slot :: "'k \<Rightarrow> nat" and slots :: nat
  assumes slot_less: "slot k < slots"
begin

definition contents :: "'n list list \<Rightarrow> 'k \<Rightarrow> 'n option" where
  "contents tab k = find_first (\<lambda>n. key n = k) (tab ! slot k)"

definition wf_tab :: "'n list list \<Rightarrow> bool" where
  "wf_tab tab \<longleftrightarrow> length tab = slots \<and>
     (\<forall>i < slots. distinct (map key (tab ! i)) \<and> (\<forall>n \<in> set (tab ! i). slot (key n) = i))"

lemma wf_tabD:
  assumes "wf_tab tab"
  shows "length tab = slots" and "slot k < length tab" and "distinct (map key (tab ! slot k))"
  using assms slot_less by (auto simp: wf_tab_def)

lemma wf_tab_upd:
  assumes "wf_tab tab" and "distinct (map key ns)" and "\<And>n. n \<in> set ns \<Longrightarrow> slot (key n) = slot k"
  shows "wf_tab (tab[slot k := ns])"
  using assms slot_less [of k] by (auto simp: wf_tab_def nth_list_update)

lemma contents_upd:
  assumes "wf_tab tab"
  shows "contents (tab[slot k := ns]) k' =
    (if slot k' = slot k then find_first (\<lambda>n. key n = k') ns else contents tab k')"
  using wf_tabD(2) [OF assms, of k] by (auto simp: contents_def)

lemma contents_key: "contents tab k = Some n \<Longrightarrow> key n = k"
  by (auto simp: contents_def dest: find_first_Some)

lemma contents_empty: "contents (replicate slots []) k = None" "wf_tab (replicate slots [])"
  using slot_less by (simp_all add: contents_def wf_tab_def)

text \<open>Linking a node in front, changing the node of a key, unlinking it.\<close>

lemma link_front:
  assumes wf: "wf_tab tab" and new: "contents tab (key n) = None"
  shows "wf_tab (tab[slot (key n) := n # tab ! slot (key n)])"
    and "contents (tab[slot (key n) := n # tab ! slot (key n)]) = (contents tab)(key n \<mapsto> n)"
proof -
  have "\<forall>m \<in> set (tab ! slot (key n)). key m \<noteq> key n" "\<forall>m \<in> set (tab ! slot (key n)). slot (key m) = slot (key n)"
    using new wf slot_less by (auto simp: contents_def find_first_None wf_tab_def)
  then show "wf_tab (tab[slot (key n) := n # tab ! slot (key n)])"
    using wf_tabD(3) [OF wf, of "key n"] by (intro wf_tab_upd [OF wf]) auto
  show "contents (tab[slot (key n) := n # tab ! slot (key n)]) = (contents tab)(key n \<mapsto> n)"
    by (rule ext) (simp add: contents_upd [OF wf], simp add: contents_def)
qed

lemma change_node:
  assumes wf: "wf_tab tab" and f: "\<And>n. key n = k \<Longrightarrow> key (f n) = k"
  shows "wf_tab (tab[slot k := upd_first (\<lambda>n. key n = k) f (tab ! slot k)])"
    and "contents (tab[slot k := upd_first (\<lambda>n. key n = k) f (tab ! slot k)]) =
      (contents tab)(k := map_option f (contents tab k))"
proof -
  have m: "map key (upd_first (\<lambda>n. key n = k) f (tab ! slot k)) = map key (tab ! slot k)"
    using f by (intro map_upd_first) auto
  then have "slot (key n) = slot k" if "n \<in> set (upd_first (\<lambda>n. key n = k) f (tab ! slot k))" for n
  proof -
    from that have "key n \<in> key ` set (tab ! slot k)" using m by (metis image_eqI list.set_map)
    then show ?thesis using wf slot_less [of k] by (auto simp: wf_tab_def)
  qed
  then show "wf_tab (tab[slot k := upd_first (\<lambda>n. key n = k) f (tab ! slot k)])"
    using wf_tabD(3) [OF wf, of k] m by (intro wf_tab_upd [OF wf]) simp_all
  have "find_first (\<lambda>n. key n = k') (upd_first (\<lambda>n. key n = k) f (tab ! slot k)) =
    (if k' = k then map_option f (contents tab k) else find_first (\<lambda>n. key n = k') (tab ! slot k))" for k'
    using f by (auto simp: contents_def find_first_upd_same find_first_upd_other)
  then show "contents (tab[slot k := upd_first (\<lambda>n. key n = k) f (tab ! slot k)]) =
      (contents tab)(k := map_option f (contents tab k))"
    by (intro ext) (simp add: contents_upd [OF wf], simp add: contents_def)
qed

lemma unlink_node:
  assumes wf: "wf_tab tab"
  shows "wf_tab (tab[slot k := del_first (\<lambda>n. key n = k) (tab ! slot k)])"
    and "contents (tab[slot k := del_first (\<lambda>n. key n = k) (tab ! slot k)]) = (contents tab)(k := None)"
proof -
  show "wf_tab (tab[slot k := del_first (\<lambda>n. key n = k) (tab ! slot k)])"
    using wf wf_tabD(3) [OF wf, of k] set_del_first [of _ "tab ! slot k"] slot_less [of k]
    by (intro wf_tab_upd [OF wf]) (auto simp: map_del_first_distinct wf_tab_def)
  have "find_first (\<lambda>n. key n = k') (del_first (\<lambda>n. key n = k) (tab ! slot k)) =
    (if k' = k then None else find_first (\<lambda>n. key n = k') (tab ! slot k))" for k'
    using wf_tabD(3) [OF wf, of k] by (auto simp: find_first_del_same find_first_del_other)
  then show "contents (tab[slot k := del_first (\<lambda>n. key n = k) (tab ! slot k)]) = (contents tab)(k := None)"
    by (intro ext) (simp add: contents_upd [OF wf], simp add: contents_def)
qed

end

subsection \<open>Semaphores and memory\<close>

text \<open>
  \<^verbatim>\<open>sem_wait\<close> and \<^verbatim>\<open>sem_post\<close> on a semaphore given by its field, seen from the only running thread:
  waiting on a semaphore at zero never returns.  \<^verbatim>\<open>calloc\<close> and \<^verbatim>\<open>malloc\<close> take the next outcome
  of the script.
\<close>

definition sem_wait :: "('s \<Rightarrow> nat) \<Rightarrow> ((nat \<Rightarrow> nat) \<Rightarrow> 's \<Rightarrow> 's) \<Rightarrow> ('s, unit) sm" where
  "sem_wait get upd = (\<lambda>s. if get s = 0 then (Inl Hang, s) else (Inr (), upd (\<lambda>n. n - 1) s))"

definition sem_post :: "((nat \<Rightarrow> nat) \<Rightarrow> 's \<Rightarrow> 's) \<Rightarrow> ('s, unit) sm" where
  "sem_post upd = modifyE (upd Suc)"

definition alloc :: "('s \<Rightarrow> io_outcome list) \<Rightarrow> ((io_outcome list \<Rightarrow> io_outcome list) \<Rightarrow> 's \<Rightarrow> 's) \<Rightarrow> ('s, bool) sm" where
  "alloc get upd = (\<lambda>s. (Inr (case get s of [] \<Rightarrow> True | r # _ \<Rightarrow> r = IO_Ok), upd tl s))"

end
