(* ===== verification/Hash_List.thy ===== *)
theory Hash_List
  imports Buckets
begin

text \<open>
  The hash list of \<^verbatim>\<open>src/HCFS/hash_list_struct.c\<close> and its iterator (second part of
  \<^verbatim>\<open>src/HCFS/meta_iterator.c\<close>).  A bucket is the list of its nodes, a pointer to a node is the part of the
  list that starts there; a null pointer argument is \<open>None\<close>.  The lock of a bucket and the lock of the
  table are the semaphores and the counter of the source, seen from one thread: a call that
  would wait for ever ends in \<open>Hang\<close>.
\<close>

subsection \<open>Data\<close>

record ('k, 'd) LIST_HEAD =
  first_entry :: "('k \<times> 'd) list"
  num_entries :: int
  bucket_sem :: nat

record ('k, 'd, 'u) HASH_LIST =
  table_size :: nat
  key_size :: nat
  data_size :: nat
  hash_ftn :: "'k \<Rightarrow> int"
  key_cmp_ftn :: "'k \<Rightarrow> 'k \<Rightarrow> int"
  data_update_ftn :: "('d \<Rightarrow> 'u \<Rightarrow> int \<times> 'd) option"
  hash_table :: "('k, 'd) LIST_HEAD list"
  table_sem :: nat
  num_lock_bucket :: "32 word"
  shared_var_sem :: nat
  can_lock_table_sem :: nat
  mem :: "io_outcome list"

abbreviation (input) ENOSYS :: errno where "ENOSYS \<equiv> 38"

subsection \<open>Locks\<close>

definition hash_list_global_lock :: "(('k, 'd, 'u) HASH_LIST, unit) sm" where
  "hash_list_global_lock =
     bindE (sem_wait table_sem table_sem_update) (\<lambda>_.
     sem_wait can_lock_table_sem can_lock_table_sem_update)"

definition hash_list_global_unlock :: "(('k, 'd, 'u) HASH_LIST, unit) sm" where
  "hash_list_global_unlock =
     bindE (sem_post can_lock_table_sem_update) (\<lambda>_. sem_post table_sem_update)"

definition at_bucket ::
  "nat \<Rightarrow> (('k, 'd) LIST_HEAD \<Rightarrow> ('k, 'd) LIST_HEAD) \<Rightarrow> ('k, 'd, 'u) HASH_LIST \<Rightarrow> ('k, 'd, 'u) HASH_LIST" where
  "at_bucket i f h = h\<lparr>hash_table := (hash_table h)[i := f (hash_table h ! i)]\<rparr>"

definition bucket_lock :: "nat \<Rightarrow> (('k, 'd, 'u) HASH_LIST, unit) sm" where
  "bucket_lock i =
     bindE (sem_wait (\<lambda>h. bucket_sem (hash_table h ! i)) (\<lambda>f. at_bucket i (bucket_sem_update f))) (\<lambda>_.
     bindE (sem_wait table_sem table_sem_update) (\<lambda>_.
     bindE (sem_wait shared_var_sem shared_var_sem_update) (\<lambda>_.
     bindE (\<lambda>h. if num_lock_bucket h = 0 then sem_wait can_lock_table_sem can_lock_table_sem_update h
                else (Inr (), h)) (\<lambda>_.
     bindE (modifyE (num_lock_bucket_update (\<lambda>n. n + 1))) (\<lambda>_.
     bindE (sem_post shared_var_sem_update) (\<lambda>_.
     sem_post table_sem_update))))))"

definition bucket_unlock :: "nat \<Rightarrow> (('k, 'd, 'u) HASH_LIST, unit) sm" where
  "bucket_unlock i =
     bindE (sem_wait shared_var_sem shared_var_sem_update) (\<lambda>_.
     bindE (modifyE (num_lock_bucket_update (\<lambda>n. n - 1))) (\<lambda>_.
     bindE (\<lambda>h. if num_lock_bucket h = 0 then sem_post can_lock_table_sem_update h else (Inr (), h)) (\<lambda>_.
     bindE (sem_post shared_var_sem_update) (\<lambda>_.
     sem_post (\<lambda>f. at_bucket i (bucket_sem_update f))))))"

subsection \<open>Creating and destroying\<close>

text \<open>
  The loop of \<^verbatim>\<open>sem_init\<close> calls for the buckets: the error of the first call that fails, if any.
\<close>

fun init_buckets :: "nat \<Rightarrow> io_outcome list \<Rightarrow> errno option \<times> io_outcome list" where
  "init_buckets 0 rs = (None, rs)"
| "init_buckets (Suc n) [] = (None, [])"
| "init_buckets (Suc n) (IO_Err e # rs) = (Some e, rs)"
| "init_buckets (Suc n) (_ # rs) = init_buckets n rs"

definition sem_init_errno :: "io_outcome list \<Rightarrow> errno option" where
  "sem_init_errno rs = (case rs of IO_Err e # _ \<Rightarrow> Some e | _ \<Rightarrow> None)"

definition last_errno :: "errno option list \<Rightarrow> errno option" where
  "last_errno es = (case filter (\<lambda>e. e \<noteq> None) es of [] \<Rightarrow> None | f # fs \<Rightarrow> last (f # fs))"

definition calloc_ok :: "io_outcome list \<Rightarrow> bool" where
  "calloc_ok rs = (case rs of [] \<Rightarrow> True | r # _ \<Rightarrow> r = IO_Ok)"

definition create_hash_list ::
  "('k \<Rightarrow> int) option \<Rightarrow> ('k \<Rightarrow> 'k \<Rightarrow> int) option \<Rightarrow> ('d \<Rightarrow> 'u \<Rightarrow> int \<times> 'd) option \<Rightarrow> nat \<Rightarrow> nat \<Rightarrow> nat \<Rightarrow>
    io_outcome list \<Rightarrow> errno + ('k, 'd, 'u) HASH_LIST" where
  "create_hash_list hf kf uf tsize ksize dsize rs =
    (case (hf, kf) of (Some hash, Some cmp) \<Rightarrow>
       if tsize \<le> 0 \<or> ksize \<le> 0 \<or> dsize \<le> 0 then Inl EINVAL
       else if \<not> calloc_ok rs then Inl ENOMEM
       else if \<not> calloc_ok (tl rs) then Inl ENOMEM
       else (case last_errno [sem_init_errno (drop 2 rs), sem_init_errno (drop 3 rs), sem_init_errno (drop 4 rs)] of
           Some e \<Rightarrow> Inl e
         | None \<Rightarrow> (case init_buckets tsize (drop 5 rs) of
             (Some e, _) \<Rightarrow> Inl e
           | (None, rs') \<Rightarrow> Inr \<lparr>table_size = tsize, key_size = ksize, data_size = dsize, hash_ftn = hash,
               key_cmp_ftn = cmp, data_update_ftn = uf,
               hash_table = replicate tsize \<lparr>first_entry = [], num_entries = 0, bucket_sem = 1\<rparr>,
               table_sem = 1, num_lock_bucket = 0, shared_var_sem = 1, can_lock_table_sem = 1, mem = rs'\<rparr>))
     | _ \<Rightarrow> Inl EINVAL)"

text \<open>
  Every node is freed and the table with it: what is left of the pointer is \<open>None\<close>.
\<close>

definition destroy_hash_list :: "(('k, 'd, 'u) HASH_LIST option, unit) sm" where
  "destroy_hash_list = (\<lambda>p. case p of
     None \<Rightarrow> (Inr (), None)
   | Some h \<Rightarrow> (case hash_list_global_lock h of
       (Inl e, h') \<Rightarrow> (Inl e, Some h')
     | (Inr _, h') \<Rightarrow> (Inr (), None)))"

subsection \<open>Entries\<close>

definition calloc_mem :: "(('k, 'd, 'u) HASH_LIST, bool) sm" where
  "calloc_mem = alloc mem mem_update"

definition hash_idx_ok :: "('k, 'd, 'u) HASH_LIST \<Rightarrow> 'k \<Rightarrow> bool" where
  "hash_idx_ok h k \<longleftrightarrow> \<not> (hash_ftn h k < 0 \<or> nat (hash_ftn h k) \<ge> table_size h)"

definition search_bucket :: "('k, 'd, 'u) HASH_LIST \<Rightarrow> nat \<Rightarrow> 'k \<Rightarrow> ('k \<times> 'd) option" where
  "search_bucket h i k = find_first (\<lambda>n. key_cmp_ftn h k (fst n) = 0) (first_entry (hash_table h ! i))"

definition unlock_fail :: "nat \<Rightarrow> errno \<Rightarrow> (('k, 'd, 'u) HASH_LIST, 'a) sm" where
  "unlock_fail i e = bindE (bucket_unlock i) (\<lambda>_. failE (Errno e))"

definition link_entry :: "'k \<Rightarrow> 'd \<Rightarrow> ('k, 'd) LIST_HEAD \<Rightarrow> ('k, 'd) LIST_HEAD" where
  "link_entry k d b = b\<lparr>first_entry := (k, d) # first_entry b, num_entries := num_entries b + 1\<rparr>"

definition insert_entry :: "'k \<Rightarrow> 'd \<Rightarrow> (('k, 'd, 'u) HASH_LIST, unit) sm" where
  "insert_entry k d = (\<lambda>h. if \<not> hash_idx_ok h k then (Inl (Errno EINVAL), h)
     else let i = nat (hash_ftn h k) in
       bindE (bucket_lock i) (\<lambda>_ h1.
         if search_bucket h1 i k \<noteq> None then unlock_fail i EEXIST h1
         else bindE calloc_mem (\<lambda>node_ok. if \<not> node_ok then unlock_fail i ENOMEM
           else bindE calloc_mem (\<lambda>key_ok. if \<not> key_ok then unlock_fail i ENOMEM
           else bindE calloc_mem (\<lambda>data_ok. if \<not> data_ok then unlock_fail i ENOMEM
           else bindE (modifyE (at_bucket i (link_entry k d))) (\<lambda>_. bucket_unlock i)))) h1) h)"

definition lookup_entry :: "'k \<Rightarrow> (('k, 'd, 'u) HASH_LIST, 'd) sm" where
  "lookup_entry k = (\<lambda>h. if \<not> hash_idx_ok h k then (Inl (Errno EINVAL), h)
     else let i = nat (hash_ftn h k) in
       bindE (bucket_lock i) (\<lambda>_ h1. case search_bucket h1 i k of
         None \<Rightarrow> unlock_fail i ENOENT h1
       | Some n \<Rightarrow> bindE (bucket_unlock i) (\<lambda>_. returnE (snd n)) h1) h)"

definition unlink_entry :: "('k \<Rightarrow> 'k \<Rightarrow> int) \<Rightarrow> 'k \<Rightarrow> ('k, 'd) LIST_HEAD \<Rightarrow> ('k, 'd) LIST_HEAD" where
  "unlink_entry cmp k b =
     b\<lparr>first_entry := del_first (\<lambda>n. cmp k (fst n) = 0) (first_entry b), num_entries := num_entries b - 1\<rparr>"

definition remove_entry :: "'k \<Rightarrow> (('k, 'd, 'u) HASH_LIST, unit) sm" where
  "remove_entry k = (\<lambda>h. if \<not> hash_idx_ok h k then (Inl (Errno EINVAL), h)
     else let i = nat (hash_ftn h k) in
       bindE (bucket_lock i) (\<lambda>_ h1. case search_bucket h1 i k of
         None \<Rightarrow> unlock_fail i ENOENT h1
       | Some n \<Rightarrow> bindE (modifyE (at_bucket i (unlink_entry (key_cmp_ftn h1) k))) (\<lambda>_. bucket_unlock i) h1) h)"

definition update_data :: "('k \<Rightarrow> 'k \<Rightarrow> int) \<Rightarrow> 'k \<Rightarrow> 'd \<Rightarrow> ('k, 'd) LIST_HEAD \<Rightarrow> ('k, 'd) LIST_HEAD" where
  "update_data cmp k d b =
     b\<lparr>first_entry := upd_first (\<lambda>n. cmp k (fst n) = 0) (\<lambda>n. (fst n, d)) (first_entry b)\<rparr>"

text \<open>The result is what the update function returned and the data after the update.\<close>

definition update_entry :: "'k \<Rightarrow> 'u \<Rightarrow> (('k, 'd, 'u) HASH_LIST, int \<times> 'd) sm" where
  "update_entry k u = (\<lambda>h. case data_update_ftn h of
     None \<Rightarrow> (Inl (Errno ENOSYS), h)
   | Some upd \<Rightarrow> if \<not> hash_idx_ok h k then (Inl (Errno EINVAL), h)
     else let i = nat (hash_ftn h k) in
       bindE (bucket_lock i) (\<lambda>_ h1. case search_bucket h1 i k of
         None \<Rightarrow> unlock_fail i ENOENT h1
       | Some n \<Rightarrow> (case upd (snd n) u of (r, d) \<Rightarrow>
           bindE (modifyE (at_bucket i (update_data (key_cmp_ftn h1) k d))) (\<lambda>_.
           bindE (bucket_unlock i) (\<lambda>_. returnE (r, d))) h1)) h)"

text \<open>The entry points check their pointers first; \<open>out\<close> says that the output buffer is given.\<close>

definition on_table :: "(('k, 'd, 'u) HASH_LIST, 'a) sm \<Rightarrow> (('k, 'd, 'u) HASH_LIST option, 'a) sm" where
  "on_table f = (\<lambda>p. case p of None \<Rightarrow> (Inl (Errno EINVAL), None)
     | Some h \<Rightarrow> (case f h of (r, h') \<Rightarrow> (r, Some h')))"

definition insert_hash_list_entry :: "'k option \<Rightarrow> 'd option \<Rightarrow> (('k, 'd, 'u) HASH_LIST option, unit) sm" where
  "insert_hash_list_entry key data = (case (key, data) of
     (Some k, Some d) \<Rightarrow> on_table (insert_entry k d) | _ \<Rightarrow> failE (Errno EINVAL))"

definition lookup_hash_list_entry :: "'k option \<Rightarrow> bool \<Rightarrow> (('k, 'd, 'u) HASH_LIST option, 'd) sm" where
  "lookup_hash_list_entry key out = (case key of
     Some k \<Rightarrow> if out then on_table (lookup_entry k) else failE (Errno EINVAL)
   | None \<Rightarrow> failE (Errno EINVAL))"

definition remove_hash_list_entry :: "'k option \<Rightarrow> (('k, 'd, 'u) HASH_LIST option, unit) sm" where
  "remove_hash_list_entry key = (case key of
     Some k \<Rightarrow> on_table (remove_entry k) | None \<Rightarrow> failE (Errno EINVAL))"

definition update_hash_list_entry :: "'k option \<Rightarrow> 'u \<Rightarrow> (('k, 'd, 'u) HASH_LIST option, int \<times> 'd) sm" where
  "update_hash_list_entry key u = (case key of
     Some k \<Rightarrow> on_table (update_entry k u) | None \<Rightarrow> failE (Errno EINVAL))"

subsection \<open>Iterator\<close>

text \<open>
  \<open>now_node\<close> is the bucket from the current node on, empty for the null pointer; the current key and data are
  those of its first node.
\<close>

record ('k, 'd) HASH_LIST_ITERATOR =
  now_bucket_idx :: "32 word"
  now_node :: "('k \<times> 'd) list"

definition init_hashlist_iter :: "(('k, 'd, 'u) HASH_LIST, ('k, 'd) HASH_LIST_ITERATOR option) sm" where
  "init_hashlist_iter = bindE calloc_mem (\<lambda>b. returnE
     (if b then Some \<lparr>now_bucket_idx = - 1, now_node = []\<rparr> else None))"

function next_bucket :: "('k, 'd, 'u) HASH_LIST \<Rightarrow> nat \<Rightarrow> nat option" where
  "next_bucket h idx = (if idx < table_size h then
     (if first_entry (hash_table h ! idx) \<noteq> [] then Some idx else next_bucket h (idx + 1)) else None)"
  by pat_completeness auto
termination by (relation "measure (\<lambda>(h, idx). table_size h - idx)") auto

declare next_bucket.simps [simp del]

definition next_entry ::
  "('k, 'd, 'u) HASH_LIST \<Rightarrow> ('k, 'd) HASH_LIST_ITERATOR \<Rightarrow> ('k, 'd) HASH_LIST_ITERATOR option" where
  "next_entry h it =
     (if now_node it \<noteq> [] \<and> tl (now_node it) \<noteq> [] then Some (it\<lparr>now_node := tl (now_node it)\<rparr>)
      else (case next_bucket h (unat (now_bucket_idx it + 1)) of
          Some idx \<Rightarrow> Some \<lparr>now_bucket_idx = of_nat idx, now_node = first_entry (hash_table h ! idx)\<rparr>
        | None \<Rightarrow> None))"

definition begin_entry ::
  "('k, 'd, 'u) HASH_LIST \<Rightarrow> ('k, 'd) HASH_LIST_ITERATOR \<Rightarrow> ('k, 'd) HASH_LIST_ITERATOR option" where
  "begin_entry h it = next_entry h \<lparr>now_bucket_idx = - 1, now_node = []\<rparr>"

subsection \<open>What one call sees\<close>

text \<open>A table no call is working on.\<close>

definition hl_quiet :: "('k, 'd, 'u) HASH_LIST \<Rightarrow> bool" where
  "hl_quiet h \<longleftrightarrow> table_sem h = 1 \<and> shared_var_sem h = 1 \<and> can_lock_table_sem h = 1 \<and> num_lock_bucket h = 0 \<and>
     length (hash_table h) = table_size h \<and> (\<forall>b \<in> set (hash_table h). bucket_sem b = 1)"

definition locked :: "nat \<Rightarrow> ('k, 'd, 'u) HASH_LIST \<Rightarrow> ('k, 'd, 'u) HASH_LIST" where
  "locked i h = (at_bucket i (bucket_sem_update (\<lambda>n. n - 1)) h)\<lparr>can_lock_table_sem := 0, num_lock_bucket := 1\<rparr>"

lemmas lock_defs = sem_wait_def sem_post_def at_bucket_def bindE_def modifyE_def

lemma hl_quiet_bucket: "hl_quiet h \<Longrightarrow> i < table_size h \<Longrightarrow> bucket_sem (hash_table h ! i) = 1"
  by (simp add: hl_quiet_def)

lemma bucket_lock_quiet: "hl_quiet h \<Longrightarrow> i < table_size h \<Longrightarrow> bucket_lock i h = (Inr (), locked i h)"
  by (simp add: bucket_lock_def lock_defs locked_def hl_quiet_bucket) (simp add: hl_quiet_def)

text \<open>A body that changes the bucket and the memory script, between the two calls of the lock.\<close>

lemma bucket_unlock_locked:
  assumes "hl_quiet h" and "i < table_size h" and f: "\<And>b. bucket_sem (f b) = bucket_sem b"
    "\<And>b g. f (bucket_sem_update g b) = bucket_sem_update g (f b)"
  shows "bucket_unlock i (at_bucket i f (locked i h)) = (Inr (), at_bucket i f h)"
proof -
  have i: "i < length (hash_table h)" and "bucket_sem (f (hash_table h ! i)) = 1"
    using assms hl_quiet_bucket by (auto simp: hl_quiet_def)
  then have b: "bucket_sem_update (Suc \<circ> (\<lambda>n. n - Suc 0)) (f (hash_table h ! i)) = f (hash_table h ! i)"
    by (cases "f (hash_table h ! i)") simp
  show ?thesis using assms(1) i
    by (simp add: bucket_unlock_def lock_defs locked_def f(2) hl_quiet_def b)
qed

lemma bucket_unlock_id: "hl_quiet h \<Longrightarrow> i < table_size h \<Longrightarrow> bucket_unlock i (locked i h) = (Inr (), h)"
  using bucket_unlock_locked [of h i id] by (simp add: at_bucket_def id_def)

lemma locked_simps [simp]:
  "hash_ftn (locked i h) = hash_ftn h" "key_cmp_ftn (locked i h) = key_cmp_ftn h" "mem (locked i h) = mem h"
  "table_size (locked i h) = table_size h"
  by (simp_all add: locked_def at_bucket_def)

lemma search_locked [simp]:
  "i < length (hash_table h) \<Longrightarrow> search_bucket (locked i h) j k = search_bucket h j k"
  by (simp add: search_bucket_def locked_def at_bucket_def nth_list_update)

lemma locked_mem: "(locked i h)\<lparr>mem := r\<rparr> = locked i (h\<lparr>mem := r\<rparr>)"
  by (simp add: locked_def at_bucket_def)

lemma hl_quiet_mem [simp]: "hl_quiet (h\<lparr>mem := r\<rparr>) = hl_quiet h"
  by (simp add: hl_quiet_def)

lemma unlock_fail_quiet: "hl_quiet h \<Longrightarrow> i < table_size h \<Longrightarrow> unlock_fail i e (locked i h) = (Inl (Errno e), h)"
  by (simp add: unlock_fail_def bindE_def bucket_unlock_id)

lemma calloc_mem_eval:
  "calloc_mem h = (Inr (case mem h of [] \<Rightarrow> True | r # _ \<Rightarrow> r = IO_Ok), h\<lparr>mem := tl (mem h)\<rparr>)"
  by (simp add: calloc_mem_def alloc_def)

subsection \<open>The contract of the table\<close>

text \<open>
  The functions the table was created with behave: the hash of every key is a bucket, the comparison
  returns zero for equal keys only.
\<close>

definition hl_slot :: "('k, 'd, 'u) HASH_LIST \<Rightarrow> 'k \<Rightarrow> nat" where
  "hl_slot h k = nat (hash_ftn h k)"

definition hl_buckets :: "('k, 'd, 'u) HASH_LIST \<Rightarrow> ('k \<times> 'd) list list" where
  "hl_buckets h = map first_entry (hash_table h)"

definition ftn_ok :: "('k, 'd, 'u) HASH_LIST \<Rightarrow> bool" where
  "ftn_ok h \<longleftrightarrow> (\<forall>k. 0 \<le> hash_ftn h k \<and> hash_ftn h k < int (table_size h)) \<and>
     (\<forall>k k'. key_cmp_ftn h k k' = 0 \<longleftrightarrow> k = k')"

definition hl_ok :: "('k, 'd, 'u) HASH_LIST \<Rightarrow> bool" where
  "hl_ok h \<longleftrightarrow> hl_quiet h \<and> ftn_ok h \<and> buckets.wf_tab fst (hl_slot h) (table_size h) (hl_buckets h) \<and>
     (\<forall>b \<in> set (hash_table h). num_entries b = int (length (first_entry b)))"

definition hl_map :: "('k, 'd, 'u) HASH_LIST \<Rightarrow> 'k \<rightharpoonup> 'd" where
  "hl_map h k = map_option snd (search_bucket h (hl_slot h k) k)"

lemma ftn_okD: "ftn_ok h \<Longrightarrow> hash_idx_ok h k \<and> hl_slot h k < table_size h"
  by (auto simp: ftn_ok_def hash_idx_ok_def hl_slot_def not_le nat_less_iff dest: spec [of _ k])

lemma ftn_ok_buckets: "ftn_ok h \<Longrightarrow> buckets (hl_slot h) (table_size h)"
  by unfold_locales (simp add: ftn_okD)

lemma ftn_ok_cmp: "ftn_ok h \<Longrightarrow> key_cmp_ftn h k k' = 0 \<longleftrightarrow> k' = k"
  by (auto simp: ftn_ok_def)

lemma search_contents:
  "ftn_ok h \<Longrightarrow> length (hash_table h) = table_size h \<Longrightarrow>
    search_bucket h (hl_slot h k) k = buckets.contents fst (hl_slot h) (hl_buckets h) k"
  by (simp add: search_bucket_def buckets.contents_def [OF ftn_ok_buckets] hl_buckets_def ftn_okD ftn_ok_cmp)

lemma hl_okD:
  assumes "hl_ok h"
  shows "hl_quiet h" "ftn_ok h" "length (hash_table h) = table_size h" "hl_slot h k < table_size h" "hash_idx_ok h k"
  using assms ftn_okD [of h k] by (auto simp: hl_ok_def hl_quiet_def)

lemma hl_map_contents:
  "hl_ok h \<Longrightarrow> hl_map h = (\<lambda>k. map_option snd (buckets.contents fst (hl_slot h) (hl_buckets h) k))"
  by (auto simp: hl_map_def search_contents hl_okD)

text \<open>
  A call that puts \<open>f b\<close> in place of bucket \<open>b\<close>: what has to be shown of the node lists.
\<close>

lemma hl_slot_mem [simp]: "hl_slot (h\<lparr>mem := r\<rparr>) = hl_slot h"
  by (simp add: hl_slot_def fun_eq_iff)

lemma at_bucket_simps [simp]:
  "hl_slot (at_bucket i f h) = hl_slot h" "table_size (at_bucket i f h) = table_size h"
  "ftn_ok (at_bucket i f h) = ftn_ok h" "ftn_ok (h\<lparr>mem := r\<rparr>) = ftn_ok h"
  "hl_buckets (h\<lparr>mem := r\<rparr>) = hl_buckets h" "hl_ok (h\<lparr>mem := r\<rparr>) = hl_ok h" "hl_map (h\<lparr>mem := r\<rparr>) = hl_map h"
  by (auto simp: at_bucket_def hl_slot_def ftn_ok_def hl_buckets_def hl_ok_def hl_map_def search_bucket_def fun_eq_iff)

lemma hl_buckets_at:
  "i < length (hash_table h) \<Longrightarrow> hl_buckets (at_bucket i f h) = (hl_buckets h)[i := first_entry (f (hash_table h ! i))]"
  by (simp add: hl_buckets_def at_bucket_def map_update)

lemma hl_ok_at:
  assumes ok: "hl_ok h" and i: "i < table_size h"
    and b: "bucket_sem (f (hash_table h ! i)) = 1" "num_entries (f (hash_table h ! i)) = int (length (first_entry (f (hash_table h ! i))))"
    and wf: "buckets.wf_tab fst (hl_slot h) (table_size h) ((hl_buckets h)[i := first_entry (f (hash_table h ! i))])"
  shows "hl_ok (at_bucket i f h)"
proof -
  have "i < length (hash_table h)" using hl_okD(3) [OF ok] i by simp
  then show ?thesis using ok b wf set_update_subset_insert [of "hash_table h" i "f (hash_table h ! i)"]
    unfolding hl_ok_def at_bucket_simps hl_buckets_at [OF \<open>i < length (hash_table h)\<close>]
    by (auto simp: hl_quiet_def at_bucket_def)
qed

subsection \<open>Each operation on the map\<close>

lemma list4_cases:
  obtains "xs = []" | x where "xs = [x]" | x y where "xs = [x, y]" | x y z zs where "xs = x # y # z # zs"
  by (metis list.exhaust)

lemma locked_run:
  assumes "hl_quiet h" and "i < table_size h"
  shows "bindE (bucket_lock i) f h = f () (locked i h)"
  using bucket_lock_quiet [OF assms] by simp

lemma lookup_entry_spec:
  assumes ok: "hl_ok h"
  shows "lookup_entry k h = ((case hl_map h k of None \<Rightarrow> Inl (Errno ENOENT) | Some d \<Rightarrow> Inr d), h)"
proof -
  note d = hl_okD(1-3) [OF ok] hl_okD(4,5) [OF ok, of k]
  have "lookup_entry k h = (case search_bucket h (hl_slot h k) k of
      None \<Rightarrow> unlock_fail (hl_slot h k) ENOENT (locked (hl_slot h k) h)
    | Some n \<Rightarrow> bindE (bucket_unlock (hl_slot h k)) (\<lambda>_. returnE (snd n)) (locked (hl_slot h k) h))"
    using d unfolding lookup_entry_def by (simp add: hl_slot_def [symmetric] Let_def locked_run)
  also have "\<dots> = ((case hl_map h k of None \<Rightarrow> Inl (Errno ENOENT) | Some d \<Rightarrow> Inr d), h)"
    using d by (auto simp: hl_map_def unlock_fail_quiet bucket_unlock_id split: option.split)
  finally show ?thesis .
qed

lemma insert_entry_dup:
  assumes ok: "hl_ok h" and k: "hl_map h k = Some d'"
  shows "insert_entry k d h = (Inl (Errno EEXIST), h)"
proof -
  note d = hl_okD(1-3) [OF ok] hl_okD(4,5) [OF ok, of k]
  have "search_bucket h (hl_slot h k) k \<noteq> None" using k by (auto simp: hl_map_def)
  then show ?thesis
    using d unfolding insert_entry_def
    by (simp add: hl_slot_def [symmetric] Let_def locked_run unlock_fail_quiet)
qed

text \<open>The memory for a node, its key and its data.\<close>

definition mem_ok :: "('k, 'd, 'u) HASH_LIST \<Rightarrow> bool" where
  "mem_ok h \<longleftrightarrow> (\<forall>r \<in> set (take 3 (mem h)). r = IO_Ok)"

lemma insert_entry_eval:
  assumes ok: "hl_ok h" and k: "hl_map h k = None"
  shows "mem_ok h \<Longrightarrow> insert_entry k d h = (Inr (), at_bucket (hl_slot h k) (link_entry k d) (h\<lparr>mem := drop 3 (mem h)\<rparr>))"
    and "\<not> mem_ok h \<Longrightarrow> \<exists>r. insert_entry k d h = (Inl (Errno ENOMEM), h\<lparr>mem := r\<rparr>)"
proof -
  note d = hl_okD(1-3) [OF ok] hl_okD(4,5) [OF ok, of k]
  have "search_bucket h (hl_slot h k) k = None" using k by (auto simp: hl_map_def)
  then have e: "insert_entry k d h = bindE calloc_mem (\<lambda>node_ok. if \<not> node_ok then unlock_fail (hl_slot h k) ENOMEM
           else bindE calloc_mem (\<lambda>key_ok. if \<not> key_ok then unlock_fail (hl_slot h k) ENOMEM
           else bindE calloc_mem (\<lambda>data_ok. if \<not> data_ok then unlock_fail (hl_slot h k) ENOMEM
           else bindE (modifyE (at_bucket (hl_slot h k) (link_entry k d))) (\<lambda>_. bucket_unlock (hl_slot h k)))))
         (locked (hl_slot h k) h)"
    using d unfolding insert_entry_def by (simp add: hl_slot_def [symmetric] Let_def locked_run)
  have u: "bucket_unlock (hl_slot h k) (at_bucket (hl_slot h k) (link_entry k d) (locked (hl_slot h k) (h\<lparr>mem := r\<rparr>))) =
      (Inr (), at_bucket (hl_slot h k) (link_entry k d) (h\<lparr>mem := r\<rparr>))" for r
    using d by (intro bucket_unlock_locked) (simp_all add: link_entry_def)
  have f: "unlock_fail (hl_slot h k) e (locked (hl_slot h k) (h\<lparr>mem := r\<rparr>)) = (Inl (Errno e), h\<lparr>mem := r\<rparr>)" for e r
    using d by (intro unlock_fail_quiet) simp_all
  show "mem_ok h \<Longrightarrow> insert_entry k d h = (Inr (), at_bucket (hl_slot h k) (link_entry k d) (h\<lparr>mem := drop 3 (mem h)\<rparr>))"
    unfolding e mem_ok_def
    by (cases "mem h" rule: list4_cases) (simp_all add: bindE_def calloc_mem_eval locked_mem u)
  show "\<not> mem_ok h \<Longrightarrow> \<exists>r. insert_entry k d h = (Inl (Errno ENOMEM), h\<lparr>mem := r\<rparr>)"
    unfolding e mem_ok_def
    by (cases "mem h" rule: list4_cases) (auto simp: bindE_def calloc_mem_eval locked_mem f)
qed

lemma remove_entry_eval:
  assumes ok: "hl_ok h"
  shows "remove_entry k h = (case hl_map h k of None \<Rightarrow> (Inl (Errno ENOENT), h)
    | Some _ \<Rightarrow> (Inr (), at_bucket (hl_slot h k) (unlink_entry (key_cmp_ftn h) k) h))"
proof -
  note d = hl_okD(1-3) [OF ok] hl_okD(4,5) [OF ok, of k]
  have u: "bucket_unlock (hl_slot h k) (at_bucket (hl_slot h k) (unlink_entry (key_cmp_ftn h) k) (locked (hl_slot h k) h)) =
      (Inr (), at_bucket (hl_slot h k) (unlink_entry (key_cmp_ftn h) k) h)"
    using d by (intro bucket_unlock_locked) (simp_all add: unlink_entry_def)
  show ?thesis using d unfolding remove_entry_def
    by (simp add: hl_slot_def [symmetric] Let_def locked_run hl_map_def unlock_fail_quiet u split: option.split)
qed

lemma update_entry_eval:
  assumes ok: "hl_ok h" and f: "data_update_ftn h = Some upd"
  shows "update_entry k u h = (case hl_map h k of None \<Rightarrow> (Inl (Errno ENOENT), h)
    | Some d \<Rightarrow> (Inr (upd d u), at_bucket (hl_slot h k) (update_data (key_cmp_ftn h) k (snd (upd d u))) h))"
proof -
  note d = hl_okD(1-3) [OF ok] hl_okD(4,5) [OF ok, of k]
  have u: "bucket_unlock (hl_slot h k) (at_bucket (hl_slot h k) (update_data (key_cmp_ftn h) k x) (locked (hl_slot h k) h)) =
      (Inr (), at_bucket (hl_slot h k) (update_data (key_cmp_ftn h) k x) h)" for x
    using d by (intro bucket_unlock_locked) (simp_all add: update_data_def)
  show ?thesis using d f unfolding update_entry_def
    by (simp add: hl_slot_def [symmetric] Let_def locked_run hl_map_def unlock_fail_quiet u
        split: option.split prod.split)
qed

text \<open>The three changes of a bucket, on the map and on the invariant.\<close>

lemma hl_wf: "hl_ok h \<Longrightarrow> buckets.wf_tab fst (hl_slot h) (table_size h) (hl_buckets h)"
  by (simp add: hl_ok_def)

lemma hl_nth: "hl_ok h \<Longrightarrow> i < table_size h \<Longrightarrow> hl_buckets h ! i = first_entry (hash_table h ! i)"
  by (simp add: hl_buckets_def hl_okD)

lemma hl_entries: "hl_ok h \<Longrightarrow> i < table_size h \<Longrightarrow>
    num_entries (hash_table h ! i) = int (length (first_entry (hash_table h ! i))) \<and> bucket_sem (hash_table h ! i) = 1"
  by (simp add: hl_ok_def hl_quiet_def)

lemma hl_map_at:
  assumes "hl_ok (at_bucket i f h)" and "hl_ok h" and "i < table_size h"
  shows "hl_map (at_bucket i f h) = (\<lambda>k. map_option snd
    (buckets.contents fst (hl_slot h) ((hl_buckets h)[i := first_entry (f (hash_table h ! i))]) k))"
  using assms by (simp add: hl_map_contents hl_buckets_at hl_okD)

lemma link_entry_map:
  assumes ok: "hl_ok h" and k: "hl_map h k = None"
  shows "hl_ok (at_bucket (hl_slot h k) (link_entry k d) h)"
    and "hl_map (at_bucket (hl_slot h k) (link_entry k d) h) = (hl_map h)(k \<mapsto> d)"
proof -
  note d = hl_okD(2) [OF ok] hl_okD(4) [OF ok, of k]
  have n: "buckets.contents fst (hl_slot h) (hl_buckets h) (fst (k, d)) = None"
    using k hl_map_contents [OF ok] by simp
  note b = buckets.link_front [OF ftn_ok_buckets [OF d(1)] hl_wf [OF ok] n]
  show ok': "hl_ok (at_bucket (hl_slot h k) (link_entry k d) h)"
    using hl_entries [OF ok d(2)] b(1) hl_nth [OF ok d(2)] by (intro hl_ok_at [OF ok d(2)]) (simp_all add: link_entry_def)
  show "hl_map (at_bucket (hl_slot h k) (link_entry k d) h) = (hl_map h)(k \<mapsto> d)"
    using b(2) hl_nth [OF ok d(2)] unfolding hl_map_at [OF ok' ok d(2)] hl_map_contents [OF ok]
    by (simp add: link_entry_def fun_eq_iff)
qed

lemma unlink_entry_map:
  assumes ok: "hl_ok h" and k: "hl_map h k \<noteq> None"
  shows "hl_ok (at_bucket (hl_slot h k) (unlink_entry (key_cmp_ftn h) k) h)"
    and "hl_map (at_bucket (hl_slot h k) (unlink_entry (key_cmp_ftn h) k) h) = (hl_map h)(k := None)"
proof -
  note d = hl_okD(2) [OF ok] hl_okD(4) [OF ok, of k]
  note b = buckets.unlink_node [OF ftn_ok_buckets [OF d(1)] hl_wf [OF ok], of k]
  have "find_first (\<lambda>n. fst n = k) (first_entry (hash_table h ! hl_slot h k)) \<noteq> None"
    using k by (simp add: hl_map_def search_bucket_def ftn_ok_cmp [OF d(1)])
  note l = length_del_first [OF this]
  show ok': "hl_ok (at_bucket (hl_slot h k) (unlink_entry (key_cmp_ftn h) k) h)"
    using hl_entries [OF ok d(2)] b(1) hl_nth [OF ok d(2)] l
    by (intro hl_ok_at [OF ok d(2)]) (simp_all add: unlink_entry_def ftn_ok_cmp [OF d(1)] flip: of_nat_Suc)
  show "hl_map (at_bucket (hl_slot h k) (unlink_entry (key_cmp_ftn h) k) h) = (hl_map h)(k := None)"
    using b(2) hl_nth [OF ok d(2)] unfolding hl_map_at [OF ok' ok d(2)] hl_map_contents [OF ok]
    by (simp add: unlink_entry_def fun_eq_iff ftn_ok_cmp [OF d(1)])
qed

lemma update_data_map:
  assumes ok: "hl_ok h" and k: "hl_map h k \<noteq> None"
  shows "hl_ok (at_bucket (hl_slot h k) (update_data (key_cmp_ftn h) k x) h)"
    and "hl_map (at_bucket (hl_slot h k) (update_data (key_cmp_ftn h) k x) h) = (hl_map h)(k \<mapsto> x)"
proof -
  note d = hl_okD(2) [OF ok] hl_okD(4) [OF ok, of k]
  note b = buckets.change_node [OF ftn_ok_buckets [OF d(1)] hl_wf [OF ok], of k "\<lambda>n. (fst n, x)"]
  have "map fst (upd_first (\<lambda>n. fst n = k) (\<lambda>n. (fst n, x)) ns) = map fst ns" for ns
    by (rule map_upd_first) simp
  from arg_cong [OF this, of length] have l: "length (upd_first (\<lambda>n. fst n = k) (\<lambda>n. (fst n, x)) ns) = length ns" for ns
    by simp
  show ok': "hl_ok (at_bucket (hl_slot h k) (update_data (key_cmp_ftn h) k x) h)"
    using hl_entries [OF ok d(2)] b(1) hl_nth [OF ok d(2)]
    by (intro hl_ok_at [OF ok d(2)]) (simp_all add: update_data_def ftn_ok_cmp [OF d(1)] l)
  show "hl_map (at_bucket (hl_slot h k) (update_data (key_cmp_ftn h) k x) h) = (hl_map h)(k \<mapsto> x)"
    using b(2) k hl_nth [OF ok d(2)] unfolding hl_map_at [OF ok' ok d(2)] hl_map_contents [OF ok]
    by (auto simp: update_data_def fun_eq_iff ftn_ok_cmp [OF d(1)])
qed

end
