(* ===== verification/Hash_List_Props.thy ===== *)
theory Hash_List_Props
  imports Hash_List
begin

text \<open>
  The hash list as a map: the locale \<open>keyed_table\<close> states the contract the table offers its clients, the
  interpretation discharges it for the entry points of \<^verbatim>\<open>hash_list_struct.c\<close>, and the properties
  say that every sequence of calls returns what a map returns, that no call leaves a lock
  taken, and that the iterator visits every entry once.
\<close>

subsection \<open>The contract\<close>

datatype ('k, 'd) tab_op = Ins 'k 'd | Get 'k | Del 'k

fun run_ops :: "('o \<Rightarrow> ('s, 'r) sm) \<Rightarrow> 'o list \<Rightarrow> 's \<Rightarrow> (failure + 'r) list \<times> 's" where
  "run_ops f [] s = ([], s)"
| "run_ops f (p # ps) s = (case f p s of (r, s') \<Rightarrow> case run_ops f ps s' of (rs, t) \<Rightarrow> (r # rs, t))"

definition map_op :: "('k, 'd) tab_op \<Rightarrow> ('k \<rightharpoonup> 'd, 'd option) sm" where
  "map_op p = (\<lambda>m. case p of
     Ins k d \<Rightarrow> if m k = None then (Inr None, m(k \<mapsto> d)) else (Inl (Errno EEXIST), m)
   | Get k \<Rightarrow> (case m k of None \<Rightarrow> (Inl (Errno ENOENT), m) | Some d \<Rightarrow> (Inr (Some d), m))
   | Del k \<Rightarrow> if m k = None then (Inl (Errno ENOENT), m) else (Inr None, m(k := None)))"

locale keyed_table =
  fixes good :: "'s \<Rightarrow> bool" and view :: "'s \<Rightarrow> 'k \<rightharpoonup> 'd"
    and ins :: "'k \<Rightarrow> 'd \<Rightarrow> ('s, unit) sm" and get :: "'k \<Rightarrow> ('s, 'd) sm" and del :: "'k \<Rightarrow> ('s, unit) sm"
  assumes get_law: "good s \<Longrightarrow> get k s = ((case view s k of None \<Rightarrow> Inl (Errno ENOENT) | Some d \<Rightarrow> Inr d), s)"
    and ins_dup: "good s \<Longrightarrow> view s k \<noteq> None \<Longrightarrow> ins k d s = (Inl (Errno EEXIST), s)"
    and ins_new: "good s \<Longrightarrow> view s k = None \<Longrightarrow>
      \<exists>s'. ins k d s = (Inr (), s') \<and> good s' \<and> view s' = (view s)(k \<mapsto> d)"
    and del_miss: "good s \<Longrightarrow> view s k = None \<Longrightarrow> del k s = (Inl (Errno ENOENT), s)"
    and del_hit: "good s \<Longrightarrow> view s k \<noteq> None \<Longrightarrow>
      \<exists>s'. del k s = (Inr (), s') \<and> good s' \<and> view s' = (view s)(k := None)"
begin

definition tab_do :: "('k, 'd) tab_op \<Rightarrow> ('s, 'd option) sm" where
  "tab_do p = (case p of
     Ins k d \<Rightarrow> bindE (ins k d) (\<lambda>_. returnE None)
   | Get k \<Rightarrow> bindE (get k) (\<lambda>d. returnE (Some d))
   | Del k \<Rightarrow> bindE (del k) (\<lambda>_. returnE None))"

lemma tab_do_sim:
  assumes "good s"
  shows "good (snd (tab_do p s)) \<and> fst (tab_do p s) = fst (map_op p (view s)) \<and>
    view (snd (tab_do p s)) = snd (map_op p (view s))"
proof (cases p)
  case (Ins k d)
  then show ?thesis
    using ins_dup [OF assms, of k d] ins_new [OF assms, of k d] assms
    by (cases "view s k = None") (auto simp: tab_do_def map_op_def bindE_def)
next
  case (Get k)
  then show ?thesis
    using get_law [OF assms, of k] assms by (cases "view s k") (auto simp: tab_do_def map_op_def bindE_def)
next
  case (Del k)
  then show ?thesis
    using del_miss [OF assms, of k] del_hit [OF assms, of k] assms
    by (cases "view s k = None") (auto simp: tab_do_def map_op_def bindE_def)
qed

lemma runs_sim:
  "good s \<Longrightarrow> good (snd (run_ops tab_do ps s)) \<and> fst (run_ops tab_do ps s) = fst (run_ops map_op ps (view s)) \<and>
    view (snd (run_ops tab_do ps s)) = snd (run_ops map_op ps (view s))"
proof (induction ps arbitrary: s)
  case (Cons p ps)
  show ?case using tab_do_sim [OF Cons.prems, of p] Cons.IH [of "snd (tab_do p s)"]
    by (auto simp: split_beta)
qed simp

end

subsection \<open>The hash list keeps it\<close>

definition hl_good :: "('k, 'd, 'u) HASH_LIST option \<Rightarrow> bool" where
  "hl_good p \<longleftrightarrow> (case p of None \<Rightarrow> False | Some h \<Rightarrow> hl_ok h \<and> mem h = [])"

definition hl_view :: "('k, 'd, 'u) HASH_LIST option \<Rightarrow> 'k \<rightharpoonup> 'd" where
  "hl_view p = (case p of None \<Rightarrow> Map.empty | Some h \<Rightarrow> hl_map h)"

lemma hl_goodE:
  assumes "hl_good p"
  obtains h where "p = Some h" "hl_ok h" "mem h = []" "hl_view p = hl_map h" "mem_ok h"
  using assms by (cases p) (auto simp: hl_good_def hl_view_def mem_ok_def)

lemma mem_at_bucket [simp]: "mem (at_bucket i f h) = mem h"
  by (simp add: at_bucket_def)

lemma insert_new_spec:
  assumes ok: "hl_ok h" and k: "hl_map h k = None" and m: "mem_ok h"
  shows "\<exists>h'. insert_entry k d h = (Inr (), h') \<and> hl_ok h' \<and> hl_map h' = (hl_map h)(k \<mapsto> d) \<and> mem h' = drop 3 (mem h)"
proof -
  have "hl_ok (h\<lparr>mem := drop 3 (mem h)\<rparr>)" "hl_map (h\<lparr>mem := drop 3 (mem h)\<rparr>) k = None" using ok k by simp_all
  from link_entry_map [OF this, of d] show ?thesis
    using insert_entry_eval(1) [OF ok k m, of d] by simp
qed

interpretation hl: keyed_table hl_good hl_view "\<lambda>k d. insert_hash_list_entry (Some k) (Some d)"
  "\<lambda>k. lookup_hash_list_entry (Some k) True" "\<lambda>k. remove_hash_list_entry (Some k)"
proof
  fix s :: "('k, 'd, 'u) HASH_LIST option" and k d
  assume "hl_good s"
  then obtain h where h: "s = Some h" "hl_ok h" "mem h = []" "hl_view s = hl_map h" "mem_ok h" by (rule hl_goodE)
  show "lookup_hash_list_entry (Some k) True s = ((case hl_view s k of None \<Rightarrow> Inl (Errno ENOENT) | Some d \<Rightarrow> Inr d), s)"
    using h lookup_entry_spec [OF h(2), of k] by (simp add: lookup_hash_list_entry_def on_table_def)
  show "insert_hash_list_entry (Some k) (Some d) s = (Inl (Errno EEXIST), s)" if "hl_view s k \<noteq> None"
    using h that insert_entry_dup [OF h(2), of k] by (auto simp: insert_hash_list_entry_def on_table_def)
  show "\<exists>s'. insert_hash_list_entry (Some k) (Some d) s = (Inr (), s') \<and> hl_good s' \<and> hl_view s' = (hl_view s)(k \<mapsto> d)"
    if "hl_view s k = None"
    using h that insert_new_spec [OF h(2) _ h(5), of k d]
    by (auto simp: insert_hash_list_entry_def on_table_def hl_good_def hl_view_def)
  show "remove_hash_list_entry (Some k) s = (Inl (Errno ENOENT), s)" if "hl_view s k = None"
    using h that remove_entry_eval [OF h(2), of k] by (simp add: remove_hash_list_entry_def on_table_def)
  show "\<exists>s'. remove_hash_list_entry (Some k) s = (Inr (), s') \<and> hl_good s' \<and> hl_view s' = (hl_view s)(k := None)"
    if "hl_view s k \<noteq> None"
    using h that remove_entry_eval [OF h(2), of k] unlink_entry_map [OF h(2), of k]
    by (auto simp: remove_hash_list_entry_def on_table_def hl_good_def hl_view_def)
qed

text \<open>The operations of a sequence by the calls of the source.\<close>

definition hash_list_do :: "('k, 'd) tab_op \<Rightarrow> (('k, 'd, 'u) HASH_LIST option, 'd option) sm" where
  "hash_list_do p = (case p of
     Ins k d \<Rightarrow> bindE (insert_hash_list_entry (Some k) (Some d)) (\<lambda>_. returnE None)
   | Get k \<Rightarrow> bindE (lookup_hash_list_entry (Some k) True) (\<lambda>d. returnE (Some d))
   | Del k \<Rightarrow> bindE (remove_hash_list_entry (Some k)) (\<lambda>_. returnE None))"

lemma hash_list_do_eq: "hash_list_do = hl.tab_do"
  by (rule ext) (simp add: hash_list_do_def hl.tab_do_def)

text \<open>A new table is empty and ready.\<close>

lemma init_buckets_ok: "init_buckets n [] = (None, [])"
  by (cases n) simp_all

lemma create_ok:
  assumes "0 < n" "0 < ks" "0 < ds" and "\<And>k. 0 \<le> hash k \<and> hash k < int n" and "\<And>a b. cmp a b = 0 \<longleftrightarrow> a = b"
  shows "\<exists>h. create_hash_list (Some hash) (Some cmp) uf n ks ds [] = Inr h \<and> hl_good (Some h) \<and> hl_map h = Map.empty \<and>
    data_update_ftn h = uf"
proof -
  let ?h = "\<lparr>table_size = n, key_size = ks, data_size = ds, hash_ftn = hash, key_cmp_ftn = cmp, data_update_ftn = uf,
      hash_table = replicate n \<lparr>first_entry = [], num_entries = 0, bucket_sem = 1\<rparr>,
      table_sem = 1, num_lock_bucket = 0, shared_var_sem = 1, can_lock_table_sem = 1, mem = []\<rparr>"
  have c: "create_hash_list (Some hash) (Some cmp) uf n ks ds [] = Inr ?h"
    using assms(1-3) by (simp add: create_hash_list_def calloc_ok_def sem_init_errno_def last_errno_def init_buckets_ok)
  have f: "ftn_ok ?h" using assms(4,5) by (simp add: ftn_ok_def)
  note b = buckets.contents_empty [OF ftn_ok_buckets [OF f]]
  have ok: "hl_ok ?h" using f b(2) [of fst] by (simp add: hl_ok_def hl_quiet_def hl_buckets_def)
  have "hl_map ?h = Map.empty"
    using ftn_okD [OF f] by (auto simp: hl_map_def search_bucket_def fun_eq_iff)
  with c ok show ?thesis by (auto simp: hl_good_def)
qed

subsection \<open>The iterator\<close>

text \<open>The entries the iterator has not reached yet, in the order of the buckets.\<close>

definition iter_rest :: "('k, 'd, 'u) HASH_LIST \<Rightarrow> ('k, 'd) HASH_LIST_ITERATOR \<Rightarrow> ('k \<times> 'd) list" where
  "iter_rest h it = tl (now_node it) @ concat (drop (unat (now_bucket_idx it + 1)) (hl_buckets h))"

definition iter_fits :: "('k, 'd, 'u) HASH_LIST \<Rightarrow> bool" where
  "iter_fits h \<longleftrightarrow> length (hash_table h) = table_size h \<and> table_size h < 2 ^ 32"

lemma unat_of_nat_32: "n < 2 ^ 32 \<Longrightarrow> unat (of_nat n :: 32 word) = n"
  by (simp add: unsigned_of_nat take_bit_nat_eq_self)

lemma next_bucket_rest:
  assumes "length (hash_table h) = table_size h"
  shows "case next_bucket h i of
      None \<Rightarrow> concat (drop i (hl_buckets h)) = []
    | Some j \<Rightarrow> j < table_size h \<and> first_entry (hash_table h ! j) \<noteq> [] \<and>
        concat (drop i (hl_buckets h)) = first_entry (hash_table h ! j) @ concat (drop (Suc j) (hl_buckets h))"
  using assms
proof (induction h i rule: next_bucket.induct)
  case (1 h i)
  show ?case
  proof (cases "i < table_size h")
    case True
    then have d: "drop i (hl_buckets h) = first_entry (hash_table h ! i) # drop (Suc i) (hl_buckets h)"
      using 1(2) Cons_nth_drop_Suc [of i "hl_buckets h"] by (simp add: hl_buckets_def)
    show ?thesis using 1 True d
      by (cases "first_entry (hash_table h ! i) = []") (auto simp: next_bucket.simps [of h i] split: option.splits)
  next
    case False
    then show ?thesis using 1(2) by (simp add: next_bucket.simps [of h i] hl_buckets_def)
  qed
qed

lemma next_entry_rest:
  assumes fits: "iter_fits h"
  shows "case next_entry h it of
      None \<Rightarrow> iter_rest h it = []
    | Some it' \<Rightarrow> iter_rest h it \<noteq> [] \<and> now_node it' \<noteq> [] \<and> hd (now_node it') = hd (iter_rest h it) \<and>
        iter_rest h it' = tl (iter_rest h it)"
proof (cases "tl (now_node it) = []")
  case True
  have l: "length (hash_table h) = table_size h" and s: "table_size h < 2 ^ 32"
    using fits by (simp_all add: iter_fits_def)
  have r: "iter_rest h it = concat (drop (unat (now_bucket_idx it + 1)) (hl_buckets h))"
    using True by (simp add: iter_rest_def)
  note b = next_bucket_rest [OF l, of "unat (now_bucket_idx it + 1)"]
  have "next_bucket h i = Some j \<Longrightarrow> j < table_size h \<Longrightarrow> unat (of_nat j + 1 :: 32 word) = Suc j" for i j
  proof -
    assume "j < table_size h"
    with s have "Suc j < 2 ^ 32" by simp
    moreover have "(of_nat j + 1 :: 32 word) = of_nat (Suc j)" by simp
    ultimately show ?thesis by (simp only: unat_of_nat_32)
  qed
  with b show ?thesis unfolding r using True
    by (auto simp: next_entry_def iter_rest_def simp del: concat_eq_Nil_conv split: option.splits)
next
  case False
  then have "now_node it \<noteq> []" by auto
  with False show ?thesis
    by (simp add: next_entry_def iter_rest_def hd_append tl_append split: list.splits)
qed

text \<open>The loop \<^verbatim>\<open>while (iter_next(iter) != NULL)\<close> of the header's usage note, collecting what it sees.\<close>

function iter_collect :: "('k, 'd, 'u) HASH_LIST \<Rightarrow> ('k, 'd) HASH_LIST_ITERATOR \<Rightarrow> ('k \<times> 'd) list" where
  "iter_collect h it = (if \<not> iter_fits h then [] else case next_entry h it of
     None \<Rightarrow> [] | Some it' \<Rightarrow> hd (now_node it') # iter_collect h it')"
  by pat_completeness auto
termination
proof (relation "measure (\<lambda>(h, it). length (iter_rest h it))", goal_cases)
  case (2 h it it')
  then show ?case using next_entry_rest [of h it] by (cases "iter_rest h it") auto
qed simp

declare iter_collect.simps [simp del]

lemma iter_collect_rest: "iter_fits h \<Longrightarrow> iter_collect h it = iter_rest h it"
proof (induction h it rule: iter_collect.induct)
  case (1 h it)
  show ?case
    using 1 next_entry_rest [OF 1(2), of it]
    by (cases "next_entry h it") (auto simp: iter_collect.simps [of h it])
qed

subsection \<open>Properties\<close>

text \<open>
  C11: The hash list implements a map.  As long as memory is available, every sequence of calls of
  \<^verbatim>\<open>insert_hash_list_entry\<close>, \<^verbatim>\<open>lookup_hash_list_entry\<close> and \<^verbatim>\<open>remove_hash_list_entry\<close> on an
  intact table returns, call by call, what the same sequence returns on a map: EEXIST for a key that is present,
  ENOENT for one that is not, the stored data otherwise; the table stays intact and represents the same map.
\<close>

theorem hash_list_refines_map:
  assumes "hl_good p"
  shows "fst (run_ops hash_list_do ops p) = fst (run_ops map_op ops (hl_view p)) \<and>
    hl_good (snd (run_ops hash_list_do ops p)) \<and>
    hl_view (snd (run_ops hash_list_do ops p)) = snd (run_ops map_op ops (hl_view p))"
  using hl.runs_sim [OF assms, of ops] unfolding hash_list_do_eq by blast

definition demo_cmp :: "nat \<Rightarrow> nat \<Rightarrow> int" where "demo_cmp a b = (if a = b then 0 else - 1)"

lemma demo_table:
  "\<exists>h :: (nat, nat, nat) HASH_LIST. create_hash_list (Some (\<lambda>k. int k mod 4)) (Some demo_cmp) None 4 8 8 [] = Inr h \<and>
    hl_good (Some h) \<and> hl_map h = Map.empty \<and> data_update_ftn h = None"
  by (rule create_ok) (simp_all add: demo_cmp_def)

theorem hash_list_refines_map_witness:
  "\<exists>p :: (nat, nat, nat) HASH_LIST option. hl_good p \<and>
    fst (run_ops hash_list_do [Ins 1 7, Ins 5 8, Get 1, Ins 5 9, Del 1, Get 1] p) =
      [Inr None, Inr None, Inr (Some 7), Inl (Errno EEXIST), Inr None, Inl (Errno ENOENT)]"
proof -
  obtain h :: "(nat, nat, nat) HASH_LIST" where h: "hl_good (Some h)" "hl_map h = Map.empty"
    using demo_table by blast
  show ?thesis
    using hash_list_refines_map [OF h(1), of "[Ins 1 7, Ins 5 8, Get 1, Ins 5 9, Del 1, Get 1]"] h
    by (intro exI [of _ "Some h"]) (simp add: map_op_def hl_view_def)
qed

text \<open>
  C12: No operation of the hash list leaves a lock taken or the table damaged, whatever memory
  allocation fails: after \<^verbatim>\<open>insert\<close>, \<^verbatim>\<open>lookup\<close>, \<^verbatim>\<open>remove\<close> and \<^verbatim>\<open>update\<close> the
  semaphores, the counter of locked buckets and the buckets are again those of an intact table, no call blocks, and an
  insertion that runs out of memory returns ENOMEM and changes no entry.
\<close>

theorem hash_list_calls_release:
  assumes ok: "hl_ok h"
  shows "(\<exists>r h'. insert_entry k d h = (r, h') \<and> r \<noteq> Inl Hang \<and> hl_ok h' \<and>
      (hl_map h k = None \<and> \<not> mem_ok h \<longrightarrow> r = Inl (Errno ENOMEM) \<and> hl_map h' = hl_map h)) \<and>
    lookup_entry k h = ((case hl_map h k of None \<Rightarrow> Inl (Errno ENOENT) | Some d \<Rightarrow> Inr d), h) \<and>
    (\<exists>r h'. remove_entry k h = (r, h') \<and> r \<noteq> Inl Hang \<and> hl_ok h') \<and>
    (\<exists>r h'. update_entry k u h = (r, h') \<and> r \<noteq> Inl Hang \<and> hl_ok h')"
proof (intro conjI)
  show "\<exists>r h'. insert_entry k d h = (r, h') \<and> r \<noteq> Inl Hang \<and> hl_ok h' \<and>
      (hl_map h k = None \<and> \<not> mem_ok h \<longrightarrow> r = Inl (Errno ENOMEM) \<and> hl_map h' = hl_map h)"
  proof (cases "hl_map h k")
    case None
    then show ?thesis
      using insert_new_spec [OF ok None, of d] insert_entry_eval(2) [OF ok None, of d] ok
      by (cases "mem_ok h") auto
  next
    case (Some d')
    then show ?thesis using insert_entry_dup [OF ok Some, of d] ok by simp
  qed
  show "lookup_entry k h = ((case hl_map h k of None \<Rightarrow> Inl (Errno ENOENT) | Some d \<Rightarrow> Inr d), h)"
    by (rule lookup_entry_spec [OF ok])
  show "\<exists>r h'. remove_entry k h = (r, h') \<and> r \<noteq> Inl Hang \<and> hl_ok h'"
    using remove_entry_eval [OF ok, of k] unlink_entry_map(1) [OF ok, of k] ok by (cases "hl_map h k") auto
  show "\<exists>r h'. update_entry k u h = (r, h') \<and> r \<noteq> Inl Hang \<and> hl_ok h'"
  proof (cases "data_update_ftn h")
    case None
    then show ?thesis using ok by (simp add: update_entry_def)
  next
    case (Some upd)
    then show ?thesis
      using update_entry_eval [OF ok Some, of k u] update_data_map(1) [OF ok, of k] ok by (cases "hl_map h k") auto
  qed
qed

theorem hash_list_calls_release_witness:
  "\<exists>h :: (nat, nat, nat) HASH_LIST. hl_ok h \<and> lookup_entry 3 h = (Inl (Errno ENOENT), h) \<and>
    (\<exists>r h'. insert_entry 3 5 h = (r, h') \<and> r \<noteq> Inl Hang \<and> hl_ok h')"
proof -
  obtain h :: "(nat, nat, nat) HASH_LIST" where h: "hl_ok h" "hl_map h = Map.empty"
    using demo_table by (auto simp: hl_good_def)
  show ?thesis using hash_list_calls_release [OF h(1), of 3 5 0] h by (intro exI [of _ h]) auto
qed

text \<open>
  C13: The loop over \<^verbatim>\<open>iter_next\<close> of a new hash list iterator ends and visits the entries of all
  buckets, each once, in the order of the buckets.
\<close>

theorem iterator_visits_all_entries:
  assumes "iter_fits h" and "init_hashlist_iter h = (Inr (Some it), h')"
  shows "iter_collect h' it = concat (map first_entry (hash_table h))"
proof -
  have "hash_table h' = hash_table h" "iter_fits h'" "it = \<lparr>now_bucket_idx = - 1, now_node = []\<rparr>"
    using assms by (auto simp: init_hashlist_iter_def calloc_mem_eval bindE_def iter_fits_def split: if_splits)
  then show ?thesis by (simp add: iter_collect_rest iter_rest_def hl_buckets_def)
qed

definition demo_iter_table :: "(nat, nat, nat) HASH_LIST" where
  "demo_iter_table = \<lparr>table_size = 3, key_size = 8, data_size = 8, hash_ftn = (\<lambda>k. int k mod 3), key_cmp_ftn = demo_cmp,
     data_update_ftn = None, hash_table = [
       \<lparr>first_entry = [(3, 30), (0, 1)], num_entries = 2, bucket_sem = 1\<rparr>,
       \<lparr>first_entry = [], num_entries = 0, bucket_sem = 1\<rparr>,
       \<lparr>first_entry = [(2, 20)], num_entries = 1, bucket_sem = 1\<rparr>],
     table_sem = 1, num_lock_bucket = 0, shared_var_sem = 1, can_lock_table_sem = 1, mem = []\<rparr>"

theorem iterator_visits_all_entries_witness:
  "iter_fits demo_iter_table \<and>
    iter_collect demo_iter_table \<lparr>now_bucket_idx = - 1, now_node = []\<rparr> = [(3, 30), (0, 1), (2, 20)]"
proof -
  have f: "iter_fits demo_iter_table" by (simp add: iter_fits_def demo_iter_table_def)
  have i: "init_hashlist_iter demo_iter_table = (Inr (Some \<lparr>now_bucket_idx = - 1, now_node = []\<rparr>), demo_iter_table)"
    by (simp add: init_hashlist_iter_def calloc_mem_eval bindE_def demo_iter_table_def)
  show ?thesis using iterator_visits_all_entries [OF f i] f by (simp add: demo_iter_table_def)
qed

end
