(* ===== verification/Apk_Mgmt.thy ===== *)
theory Apk_Mgmt
  imports Hash_List_Props
begin

text \<open>
  Minimal apks, \<^verbatim>\<open>src/HCFS/apk_mgmt.c\<close>: a client of the hash list and its iterator.  The flags are those of
  \<^verbatim>\<open>hcfs_system\<close>; the two globals of the header are the table and its iterator.  A C string is the
  list of its characters before the terminating null.  Parameters of the model: \<open>location\<close>, the result of
  \<^verbatim>\<open>check_data_location\<close> for an inode, and \<open>mount\<close>, the result of \<^verbatim>\<open>search_mount\<close> for
  the application volume.  The entries reported to \<^verbatim>\<open>hfuse_ll_notify_inval_ent\<close> are logged.
\<close>

abbreviation (input) MAX_FILENAME_LEN :: nat where "MAX_FILENAME_LEN \<equiv> 255"
abbreviation (input) MINAPK_TABLE_SIZE :: nat where "MINAPK_TABLE_SIZE \<equiv> 128"
abbreviation (input) RESTORING_STAGE2 :: int where "RESTORING_STAGE2 \<equiv> 2"

subsection \<open>Data\<close>

text \<open>The array \<^verbatim>\<open>char apk_name[MAX_FILENAME_LEN]\<close>, and \<^verbatim>\<open>strncpy\<close> into it.\<close>

typedef filename = "{s :: string. length s \<le> MAX_FILENAME_LEN}" morphisms chars_of filename_of
  by (rule exI [of _ "[]"]) simp

setup_lifting type_definition_filename

lift_definition strncpy :: "string \<Rightarrow> filename" is "take MAX_FILENAME_LEN"
  by simp

lemma chars_of_strncpy [simp]: "chars_of (strncpy s) = take MAX_FILENAME_LEN s"
  by transfer simp

lemma take_chars_of [simp]: "take MAX_FILENAME_LEN (chars_of f) = chars_of f"
  by transfer simp

record MIN_APK_LOOKUP_KEY =
  parent_ino :: ino_t
  apk_name :: filename

record MIN_APK_LOOKUP_DATA =
  min_apk_ino :: ino_t
  org_apk_ino :: ino_t
  is_complete_apk :: bool

type_synonym minapk_table = "(MIN_APK_LOOKUP_KEY, MIN_APK_LOOKUP_DATA, MIN_APK_LOOKUP_DATA) HASH_LIST"
type_synonym minapk_iter = "(MIN_APK_LOOKUP_KEY, MIN_APK_LOOKUP_DATA) HASH_LIST_ITERATOR"

record apk_state =
  set_minimal_apk :: bool
  use_minimal_apk :: bool
  system_restoring :: int
  backend_is_online :: bool
  sync_paused :: bool
  minapk_lookup_table :: "minapk_table option"
  minapk_lookup_iter :: "minapk_iter option"
  notified :: "(ino_t \<times> string) list"
  table_os :: "io_outcome list"

subsection \<open>The table\<close>

definition minapk_hash :: "MIN_APK_LOOKUP_KEY \<Rightarrow> int" where
  "minapk_hash k = int (parent_ino k mod MINAPK_TABLE_SIZE)"

definition minapk_cmp :: "MIN_APK_LOOKUP_KEY \<Rightarrow> MIN_APK_LOOKUP_KEY \<Rightarrow> int" where
  "minapk_cmp k1 k2 = (if parent_ino k1 = parent_ino k2 \<and>
     take MAX_FILENAME_LEN (chars_of (apk_name k1)) = take MAX_FILENAME_LEN (chars_of (apk_name k2)) then 0 else - 1)"

definition minapk_update :: "MIN_APK_LOOKUP_DATA \<Rightarrow> MIN_APK_LOOKUP_DATA \<Rightarrow> int \<times> MIN_APK_LOOKUP_DATA" where
  "minapk_update t1 u1 = (0, u1)"

text \<open>The sizes of the key and data structures: 8 + 255 bytes padded to 264, and 24 bytes.\<close>

definition create_minapk_table :: "(apk_state, unit) sm" where
  "create_minapk_table = (\<lambda>s.
     case create_hash_list (Some minapk_hash) (Some minapk_cmp) (Some minapk_update) MINAPK_TABLE_SIZE 264 24 (table_os s) of
       Inl e \<Rightarrow> (Inl (Errno e), s\<lparr>minapk_lookup_table := None, table_os := []\<rparr>)
     | Inr h \<Rightarrow> (Inr (), s\<lparr>minapk_lookup_table := Some h, table_os := []\<rparr>))"

definition destroy_minapk_table :: "(apk_state, unit) sm" where
  "destroy_minapk_table = (\<lambda>s. case minapk_lookup_table s of
     None \<Rightarrow> (Inr (), s\<lparr>minapk_lookup_table := None\<rparr>)
   | Some h \<Rightarrow> (case destroy_hash_list (Some h) of
       (Inl e, p) \<Rightarrow> (Inl e, s\<lparr>minapk_lookup_table := p\<rparr>)
     | (Inr _, p) \<Rightarrow> (Inr (), s\<lparr>minapk_lookup_table := None\<rparr>)))"

text \<open>A call on the table, writing the table back.\<close>

definition on_minapk :: "(minapk_table option, 'a) sm \<Rightarrow> (apk_state, 'a) sm" where
  "on_minapk f = (\<lambda>s. case f (minapk_lookup_table s) of (r, p) \<Rightarrow> (r, s\<lparr>minapk_lookup_table := p\<rparr>))"

definition temp_key :: "ino_t \<Rightarrow> string \<Rightarrow> MIN_APK_LOOKUP_KEY" where
  "temp_key p name = \<lparr>parent_ino = p, apk_name = strncpy name\<rparr>"

definition insert_minapk_data :: "ino_t \<Rightarrow> string \<Rightarrow> MIN_APK_LOOKUP_DATA option \<Rightarrow> (apk_state, unit) sm" where
  "insert_minapk_data p name minapk_data = (\<lambda>s.
     if minapk_lookup_table s = None then (Inl (Errno EINVAL), s)
     else on_minapk (insert_hash_list_entry (Some (temp_key p name)) minapk_data) s)"

definition query_minapk_data :: "(ino_t \<Rightarrow> int) \<Rightarrow> ino_t \<Rightarrow> string \<Rightarrow> (apk_state, ino_t) sm" where
  "query_minapk_data location p name = (\<lambda>s.
     if minapk_lookup_table s = None then (Inl (Errno EINVAL), s)
     else bindE (on_minapk (lookup_hash_list_entry (Some (temp_key p name)) True)) (\<lambda>temp_data.
       if is_complete_apk temp_data \<and> min_apk_ino temp_data > 0 then
         (let ret = location (org_apk_ino temp_data) in
          if ret < 0 then
            (\<lambda>s. case on_minapk (remove_hash_list_entry (Some (temp_key p name))) s of
               (Inl Hang, s') \<Rightarrow> (Inl Hang, s')
             | (_, s') \<Rightarrow> (Inl (Errno (- ret)), s'))
          else if ret > 0 then
            (\<lambda>s. case on_minapk (update_hash_list_entry (Some (temp_key p name)) (temp_data\<lparr>is_complete_apk := False\<rparr>)) s of
               (Inl Hang, s') \<Rightarrow> (Inl Hang, s')
             | (_, s') \<Rightarrow> (Inr (min_apk_ino temp_data), s'))
          else returnE 0)
       else returnE (if is_complete_apk temp_data then 0 else min_apk_ino temp_data)) s)"

definition remove_minapk_data :: "ino_t \<Rightarrow> string \<Rightarrow> (apk_state, unit) sm" where
  "remove_minapk_data p name = (\<lambda>s.
     if minapk_lookup_table s = None then (Inl (Errno EINVAL), s)
     else on_minapk (remove_hash_list_entry (Some (temp_key p name))) s)"

subsection \<open>Iterating\<close>

definition init_iterate_minapk_table :: "(apk_state, unit) sm" where
  "init_iterate_minapk_table = (\<lambda>s. case minapk_lookup_table s of
     None \<Rightarrow> (Inl (Errno EINVAL), s)
   | Some h \<Rightarrow> (case bindE hash_list_global_lock (\<lambda>_. init_hashlist_iter) h of
       (Inl e, h') \<Rightarrow> (Inl e, s\<lparr>minapk_lookup_table := Some h'\<rparr>)
     | (Inr None, h') \<Rightarrow> (Inl (Errno ENOMEM), s\<lparr>minapk_lookup_table := Some h'\<rparr>)
     | (Inr (Some it), h') \<Rightarrow> (Inr (), s\<lparr>minapk_lookup_table := Some h', minapk_lookup_iter := Some it\<rparr>)))"

definition iterate_minapk_table :: "(apk_state, ino_t \<times> string \<times> ino_t) sm" where
  "iterate_minapk_table = (\<lambda>s. case (minapk_lookup_table s, minapk_lookup_iter s) of
     (Some h, Some it) \<Rightarrow> (case next_entry h it of
         None \<Rightarrow> (Inl (Errno ENOENT), s)
       | Some it' \<Rightarrow> (case hd (now_node it') of (k, d) \<Rightarrow>
           (Inr (parent_ino k, take MAX_FILENAME_LEN (chars_of (apk_name k)), min_apk_ino d),
            s\<lparr>minapk_lookup_iter := Some it'\<rparr>)))
   | _ \<Rightarrow> (Inl (Errno EINVAL), s))"

definition end_iterate_minapk_table :: "(apk_state, unit) sm" where
  "end_iterate_minapk_table = (\<lambda>s. case (minapk_lookup_table s, minapk_lookup_iter s) of
     (Some h, Some it) \<Rightarrow> (case hash_list_global_unlock h of
         (_, h') \<Rightarrow> (Inr (), s\<lparr>minapk_lookup_iter := None, minapk_lookup_table := Some h'\<rparr>))
   | _ \<Rightarrow> (Inr (), s))"

text \<open>The loop of \<^verbatim>\<open>_invalid_all_minapk\<close>; its result is the return code that ended it.\<close>

partial_function (option) inval_loop :: "apk_state \<Rightarrow> (int \<times> apk_state) option" where
  "inval_loop s = (case iterate_minapk_table s of
     (Inl (Errno e), s') \<Rightarrow> Some (- e, s')
   | (Inl _, s') \<Rightarrow> None
   | (Inr (p, name, ino), s') \<Rightarrow>
       inval_loop (s'\<lparr>notified := notified s' @ [(p, take (MAX_FILENAME_LEN - 1) name)]\<rparr>))"

text \<open>
  \<open>mount\<close> is the return code of \<^verbatim>\<open>search_mount\<close> and whether it gave a mount.
\<close>

definition invalid_all_minapk :: "int \<times> bool \<Rightarrow> (apk_state, unit) sm" where
  "invalid_all_minapk mount = bindE init_iterate_minapk_table (\<lambda>_ s.
     let (ret, s1) = (if fst mount < 0 \<or> \<not> snd mount then (fst mount, Some s)
         else (case inval_loop s of
             None \<Rightarrow> (0, None)
           | Some (r, s') \<Rightarrow> (if r = - ENOENT then 0 else r, Some s')))
     in case s1 of None \<Rightarrow> (Inl Hang, s)
      | Some s2 \<Rightarrow> (case end_iterate_minapk_table s2 of
          (_, s3) \<Rightarrow> ((if ret < 0 then Inl (Errno (- ret)) else Inr ()), s3)))"

subsection \<open>Switching minimal apks on and off\<close>

definition initialize_minimal_apk :: "(apk_state, unit) sm" where
  "initialize_minimal_apk = bindE create_minapk_table (\<lambda>_. modifyE (use_minimal_apk_update (\<lambda>_. True)))"

definition terminate_minimal_apk :: "int \<times> bool \<Rightarrow> (apk_state, unit) sm" where
  "terminate_minimal_apk mount = (\<lambda>s.
     case invalid_all_minapk mount (s\<lparr>use_minimal_apk := False\<rparr>) of
       (Inl Hang, s1) \<Rightarrow> (Inl Hang, s1)
     | (ret, s1) \<Rightarrow> (case destroy_minapk_table s1 of (Inl e, s2) \<Rightarrow> (Inl e, s2) | (Inr _, s2) \<Rightarrow> (ret, s2)))"

definition can_download :: "apk_state \<Rightarrow> bool" where
  "can_download s = (if system_restoring s = RESTORING_STAGE2 then backend_is_online s else \<not> sync_paused s)"

definition update_use_minimal_apk :: "int \<times> bool \<Rightarrow> (apk_state, unit) sm" where
  "update_use_minimal_apk mount = (\<lambda>s.
     let new_val = (set_minimal_apk s \<or> \<not> can_download s)
     in if use_minimal_apk s = new_val then (Inr (), s)
        else if new_val then initialize_minimal_apk s else terminate_minimal_apk mount s)"

definition toggle_use_minimal_apk :: "int \<times> bool \<Rightarrow> bool \<Rightarrow> (apk_state, unit) sm" where
  "toggle_use_minimal_apk mount new_val = (\<lambda>s.
     if set_minimal_apk s = new_val then (Inr (), s)
     else update_use_minimal_apk mount (s\<lparr>set_minimal_apk := new_val\<rparr>))"

subsection \<open>The table is a map\<close>

lemma minapk_cmp_0: "minapk_cmp a b = 0 \<longleftrightarrow> a = b"
  by (auto simp: minapk_cmp_def chars_of_inject)

lemma minapk_hash_range: "0 \<le> minapk_hash k \<and> minapk_hash k < int MINAPK_TABLE_SIZE"
  by (simp add: minapk_hash_def)

text \<open>An intact table with the functions of this file, and memory for the next calls.\<close>

definition apk_ok :: "apk_state \<Rightarrow> bool" where
  "apk_ok s \<longleftrightarrow> hl_good (minapk_lookup_table s) \<and>
     (\<forall>h. minapk_lookup_table s = Some h \<longrightarrow> data_update_ftn h = Some minapk_update \<and> table_size h = MINAPK_TABLE_SIZE)"

definition apk_map :: "apk_state \<Rightarrow> ino_t \<Rightarrow> string \<Rightarrow> MIN_APK_LOOKUP_DATA option" where
  "apk_map s p name = hl_view (minapk_lookup_table s) (temp_key p name)"

lemma at_bucket_ftn [simp]:
  "data_update_ftn (at_bucket i f h) = data_update_ftn h" "data_update_ftn (h\<lparr>mem := r\<rparr>) = data_update_ftn h"
  by (simp_all add: at_bucket_def)

lemma apk_okE:
  assumes "apk_ok s"
  obtains h where "minapk_lookup_table s = Some h" "hl_ok h" "mem h = []" "data_update_ftn h = Some minapk_update"
    "table_size h = MINAPK_TABLE_SIZE" "hl_view (minapk_lookup_table s) = hl_map h"
  using assms by (cases "minapk_lookup_table s") (auto simp: apk_ok_def hl_good_def hl_view_def)

lemma apk_lookup:
  assumes "apk_ok s" and "apk_map s p name = Some d"
  shows "on_minapk (lookup_hash_list_entry (Some (temp_key p name)) True) s = (Inr d, s)"
proof -
  from assms(1) obtain h where h: "minapk_lookup_table s = Some h" "hl_view (minapk_lookup_table s) = hl_map h"
    by (rule apk_okE)
  have "hl_good (minapk_lookup_table s)" using assms(1) by (simp add: apk_ok_def)
  from hl.get_law [OF this, of "temp_key p name"] assms(2) show ?thesis
    by (simp add: on_minapk_def apk_map_def)
qed

lemma apk_remove:
  assumes "apk_ok s" and "apk_map s p name \<noteq> None"
  obtains s' where "on_minapk (remove_hash_list_entry (Some (temp_key p name))) s = (Inr (), s')" "apk_ok s'"
    "hl_view (minapk_lookup_table s') = (hl_view (minapk_lookup_table s))(temp_key p name := None)"
proof -
  from assms(1) obtain h where h: "minapk_lookup_table s = Some h" "hl_ok h" "mem h = []"
    "data_update_ftn h = Some minapk_update" "table_size h = MINAPK_TABLE_SIZE"
    "hl_view (minapk_lookup_table s) = hl_map h" by (rule apk_okE)
  have k: "hl_map h (temp_key p name) \<noteq> None" using assms(2) h(6) by (simp add: apk_map_def)
  show ?thesis
    using h k remove_entry_eval [OF h(2), of "temp_key p name"] unlink_entry_map [OF h(2) k]
    by (intro that [of "s\<lparr>minapk_lookup_table := Some (at_bucket (hl_slot h (temp_key p name))
          (unlink_entry (key_cmp_ftn h) (temp_key p name)) h)\<rparr>"])
      (auto simp: on_minapk_def remove_hash_list_entry_def on_table_def apk_ok_def hl_good_def hl_view_def)
qed

lemma apk_update:
  assumes "apk_ok s" and "apk_map s p name \<noteq> None"
  obtains s' where "on_minapk (update_hash_list_entry (Some (temp_key p name)) u) s = (Inr (0, u), s')" "apk_ok s'"
    "hl_view (minapk_lookup_table s') = (hl_view (minapk_lookup_table s))(temp_key p name \<mapsto> u)"
proof -
  from assms(1) obtain h where h: "minapk_lookup_table s = Some h" "hl_ok h" "mem h = []"
    "data_update_ftn h = Some minapk_update" "table_size h = MINAPK_TABLE_SIZE"
    "hl_view (minapk_lookup_table s) = hl_map h" by (rule apk_okE)
  have k: "hl_map h (temp_key p name) \<noteq> None" using assms(2) h(6) by (simp add: apk_map_def)
  show ?thesis
    using h k update_entry_eval [OF h(2,4), of "temp_key p name" u] update_data_map [OF h(2) k, of u]
    by (intro that [of "s\<lparr>minapk_lookup_table := Some (at_bucket (hl_slot h (temp_key p name))
          (update_data (key_cmp_ftn h) (temp_key p name) u) h)\<rparr>"])
      (auto simp: on_minapk_def update_hash_list_entry_def on_table_def apk_ok_def hl_good_def hl_view_def minapk_update_def)
qed

lemma apk_insert:
  assumes "apk_ok s" and "apk_map s p name = None"
  obtains s' where "insert_minapk_data p name (Some d) s = (Inr (), s')" "apk_ok s'" "apk_map s' p name = Some d"
proof -
  from assms(1) obtain h where h: "minapk_lookup_table s = Some h" "hl_ok h" "mem h = []"
    "data_update_ftn h = Some minapk_update" "table_size h = MINAPK_TABLE_SIZE"
    "hl_view (minapk_lookup_table s) = hl_map h" by (rule apk_okE)
  have k: "hl_map h (temp_key p name) = None" and m: "mem_ok h"
    using assms(2) h by (simp_all add: apk_map_def mem_ok_def)
  have hm: "h\<lparr>mem := []\<rparr> = h" using h(3) by (cases h) simp
  have e: "insert_entry (temp_key p name) d h =
      (Inr (), at_bucket (hl_slot h (temp_key p name)) (link_entry (temp_key p name) d) h)"
    using insert_entry_eval(1) [OF h(2) k m, of d] h(3) by (simp add: hm)
  show ?thesis
    using h k e link_entry_map [OF h(2) k, of d]
    by (intro that [of "s\<lparr>minapk_lookup_table := Some (at_bucket (hl_slot h (temp_key p name))
          (link_entry (temp_key p name) d) h)\<rparr>"])
      (auto simp: on_minapk_def insert_minapk_data_def insert_hash_list_entry_def on_table_def apk_ok_def hl_good_def
        hl_view_def apk_map_def)
qed

lemma create_minapk_ok:
  assumes "table_os s = []"
  obtains s' where "create_minapk_table s = (Inr (), s')" "apk_ok s'" "hl_view (minapk_lookup_table s') = Map.empty"
proof -
  obtain h :: minapk_table where h: "create_hash_list (Some minapk_hash) (Some minapk_cmp) (Some minapk_update) MINAPK_TABLE_SIZE 264 24 [] = Inr h"
    "hl_good (Some h)" "hl_map h = Map.empty" "data_update_ftn h = Some minapk_update"
    using create_ok [of MINAPK_TABLE_SIZE 264 24 minapk_hash minapk_cmp "Some minapk_update"]
      minapk_hash_range minapk_cmp_0 by auto
  have "table_size h = MINAPK_TABLE_SIZE"
    using h(1) by (auto simp: create_hash_list_def split: if_splits option.splits prod.splits)
  with h assms show ?thesis
    by (intro that [of "s\<lparr>minapk_lookup_table := Some h, table_os := []\<rparr>"])
      (simp_all add: create_minapk_table_def apk_ok_def apk_map_def hl_view_def)
qed

subsection \<open>The invalidation loop\<close>

definition notes_of :: "(MIN_APK_LOOKUP_KEY \<times> MIN_APK_LOOKUP_DATA) list \<Rightarrow> (ino_t \<times> string) list" where
  "notes_of es = map (\<lambda>(k, d). (parent_ino k, take (MAX_FILENAME_LEN - 1) (chars_of (apk_name k)))) es"

lemma inval_loop_runs:
  assumes "minapk_lookup_table s = Some h" and "minapk_lookup_iter s = Some it" and "iter_fits h"
  shows "\<exists>it'. inval_loop s = Some (- ENOENT, s\<lparr>minapk_lookup_iter := Some it', notified := notified s @ notes_of (iter_rest h it)\<rparr>)"
  using assms
proof (induction h it arbitrary: s rule: iter_collect.induct)
  case (1 h it)
  note r = next_entry_rest [OF 1(4), of it]
  show ?case
  proof (cases "next_entry h it")
    case None
    with r 1(2-4) show ?thesis
      by (intro exI [of _ it]) (simp add: inval_loop.simps [of s] iterate_minapk_table_def notes_of_def)
  next
    case (Some it')
    obtain k d where kd: "hd (now_node it') = (k, d)" by (cases "hd (now_node it')")
    have e: "iter_rest h it = (k, d) # iter_rest h it'" using r Some kd by (cases "iter_rest h it") auto
    let ?s = "s\<lparr>minapk_lookup_iter := Some it',
        notified := notified s @ [(parent_ino k, take (MAX_FILENAME_LEN - 1) (chars_of (apk_name k)))]\<rparr>"
    have "inval_loop s = inval_loop ?s"
      using 1(2,3) Some kd by (simp add: inval_loop.simps [of s] iterate_minapk_table_def min_def)
    moreover have "\<exists>it''. inval_loop ?s = Some (- ENOENT, ?s\<lparr>minapk_lookup_iter := Some it'',
        notified := notified ?s @ notes_of (iter_rest h it')\<rparr>)"
      using 1(1) [OF _ Some, of ?s] 1(2,4) by simp
    ultimately show ?thesis by (auto simp: e notes_of_def)
  qed
qed

lemma apk_ok_fits: "apk_ok s \<Longrightarrow> minapk_lookup_table s = Some h \<Longrightarrow> iter_fits h"
  by (auto simp: apk_ok_def hl_good_def iter_fits_def hl_okD)

lemma global_lock_quiet:
  "hl_quiet h \<Longrightarrow> hash_list_global_lock h = (Inr (), h\<lparr>table_sem := 0, can_lock_table_sem := 0\<rparr>)"
  by (simp add: hash_list_global_lock_def sem_wait_def bindE_def hl_quiet_def)

lemma global_unlock_locked:
  "hl_quiet h \<Longrightarrow> hash_list_global_unlock (h\<lparr>table_sem := 0, can_lock_table_sem := 0\<rparr>) = (Inr (), h)"
  by (simp add: hash_list_global_unlock_def sem_post_def bindE_def modifyE_def hl_quiet_def)

lemma iter_rest_start:
  "iter_rest h \<lparr>now_bucket_idx = - 1, now_node = []\<rparr> = concat (map first_entry (hash_table h))"
  by (simp add: iter_rest_def hl_buckets_def)

lemma init_iterate_ok:
  assumes "apk_ok s" and "minapk_lookup_table s = Some h"
  shows "init_iterate_minapk_table s = (Inr (), s\<lparr>
    minapk_lookup_table := Some (h\<lparr>table_sem := 0, can_lock_table_sem := 0\<rparr>),
    minapk_lookup_iter := Some \<lparr>now_bucket_idx = - 1, now_node = []\<rparr>\<rparr>)"
proof -
  have "hl_quiet h" "mem h = []" using assms by (auto simp: apk_ok_def hl_good_def hl_okD)
  then show ?thesis
    using assms(2) global_lock_quiet [of h]
    by (simp add: init_iterate_minapk_table_def init_hashlist_iter_def calloc_mem_eval bindE_def)
qed

lemma invalid_all_ok:
  assumes "apk_ok s" and h: "minapk_lookup_table s = Some h"
  shows "invalid_all_minapk (0, True) s =
    (Inr (), s\<lparr>minapk_lookup_iter := None, notified := notified s @ notes_of (concat (map first_entry (hash_table h)))\<rparr>)"
proof -
  let ?h = "h\<lparr>table_sem := 0, can_lock_table_sem := 0\<rparr>" and ?it = "\<lparr>now_bucket_idx = - 1, now_node = []\<rparr>"
  let ?s = "s\<lparr>minapk_lookup_table := Some ?h, minapk_lookup_iter := Some ?it\<rparr>"
  have "hl_quiet h" using assms by (auto simp: apk_ok_def hl_good_def hl_okD)
  note u = global_unlock_locked [OF this]
  have "iter_fits ?h" using apk_ok_fits [OF assms] by (simp add: iter_fits_def)
  then obtain it' where l: "inval_loop ?s = Some (- ENOENT, ?s\<lparr>minapk_lookup_iter := Some it',
      notified := notified s @ notes_of (concat (map first_entry (hash_table h)))\<rparr>)"
    using inval_loop_runs [of ?s ?h ?it] by (auto simp: iter_rest_start)
  show ?thesis unfolding invalid_all_minapk_def
    using init_iterate_ok [OF assms] l u h by (simp add: end_iterate_minapk_table_def)
qed

subsection \<open>Properties\<close>

text \<open>
  \<^verbatim>\<open>query_minapk_data\<close> on an entry that exists, in every case.  The inode of the minimal apk is
  returned unless the apk is complete, in which case 0 is returned.  For a complete apk with a minimal apk the location is
  checked: if the check fails, the entry is removed and the error returned; if the data is no longer local, the
  entry is stored as not complete and the minimal apk is returned.  All other entries stay.
\<close>

theorem query_minapk_cases:
  assumes ok: "apk_ok s" and d: "apk_map s p name = Some d"
  shows "\<exists>s'. apk_ok s' \<and>
    (let loc = location (org_apk_ino d); check = (is_complete_apk d \<and> min_apk_ino d > 0); k = temp_key p name in
     query_minapk_data location p name s =
       ((if check \<and> loc < 0 then Inl (Errno (- loc))
         else Inr (if is_complete_apk d \<and> \<not> (check \<and> loc > 0) then 0 else min_apk_ino d)), s') \<and>
     hl_view (minapk_lookup_table s') =
       (if check \<and> loc < 0 then (hl_view (minapk_lookup_table s))(k := None)
        else if check \<and> loc > 0 then (hl_view (minapk_lookup_table s))(k \<mapsto> d\<lparr>is_complete_apk := False\<rparr>)
        else hl_view (minapk_lookup_table s)))"
proof -
  obtain h where t: "minapk_lookup_table s = Some h" using ok by (rule apk_okE)
  have some: "apk_map s p name \<noteq> None" using d by simp
  obtain s1 where r: "on_minapk (remove_hash_list_entry (Some (temp_key p name))) s = (Inr (), s1)" "apk_ok s1"
    "hl_view (minapk_lookup_table s1) = (hl_view (minapk_lookup_table s))(temp_key p name := None)"
    using ok some by (rule apk_remove)
  obtain s2 where u: "on_minapk (update_hash_list_entry (Some (temp_key p name)) (d\<lparr>is_complete_apk := False\<rparr>)) s =
      (Inr (0, d\<lparr>is_complete_apk := False\<rparr>), s2)" "apk_ok s2"
    "hl_view (minapk_lookup_table s2) = (hl_view (minapk_lookup_table s))(temp_key p name \<mapsto> d\<lparr>is_complete_apk := False\<rparr>)"
    using ok some by (rule apk_update)
  let ?c = "is_complete_apk d \<and> min_apk_ino d > 0" and ?l = "location (org_apk_ino d)"
  consider "?c \<and> ?l < 0" | "?c \<and> ?l > 0" | "\<not> ?c \<or> ?l = 0" by linarith
  then show ?thesis
  proof cases
    case 1
    then show ?thesis using r t apk_lookup [OF ok d] by (intro exI [of _ s1]) (simp add: query_minapk_data_def Let_def)
  next
    case 2
    then show ?thesis using u t apk_lookup [OF ok d] by (intro exI [of _ s2]) (simp add: query_minapk_data_def Let_def)
  next
    case 3
    then show ?thesis using ok t apk_lookup [OF ok d]
      by (intro exI [of _ s]) (auto simp: query_minapk_data_def Let_def)
  qed
qed

definition demo_apk0 :: apk_state where
  "demo_apk0 = \<lparr>set_minimal_apk = True, use_minimal_apk = False, system_restoring = 0, backend_is_online = True,
     sync_paused = False, minapk_lookup_table = None, minapk_lookup_iter = None, notified = [], table_os = []\<rparr>"

definition demo_data :: MIN_APK_LOOKUP_DATA where
  "demo_data = \<lparr>min_apk_ino = 31, org_apk_ino = 30, is_complete_apk = True\<rparr>"

definition demo_apk1 :: apk_state where
  "demo_apk1 = snd (insert_minapk_data 5 ''base.apk'' (Some demo_data) (snd (create_minapk_table demo_apk0)))"

lemma demo_apk1_ok: "apk_ok demo_apk1 \<and> apk_map demo_apk1 5 ''base.apk'' = Some demo_data"
proof -
  have "table_os demo_apk0 = []" by (simp add: demo_apk0_def)
  then obtain s where s: "create_minapk_table demo_apk0 = (Inr (), s)" "apk_ok s" "hl_view (minapk_lookup_table s) = Map.empty"
    by (rule create_minapk_ok)
  from s(3) have "apk_map s 5 ''base.apk'' = None" by (simp add: apk_map_def)
  with s(2) obtain s' where "insert_minapk_data 5 ''base.apk'' (Some demo_data) s = (Inr (), s')"
    "apk_ok s'" "apk_map s' 5 ''base.apk'' = Some demo_data" by (rule apk_insert)
  with s(1) show ?thesis by (simp add: demo_apk1_def)
qed

theorem query_minapk_cases_witness:
  "\<exists>s'. apk_ok s' \<and> query_minapk_data (\<lambda>_. 1) 5 ''base.apk'' demo_apk1 = (Inr 31, s') \<and>
    apk_map s' 5 ''base.apk'' = Some (demo_data\<lparr>is_complete_apk := False\<rparr>)"
proof -
  from demo_apk1_ok have ok: "apk_ok demo_apk1" and m: "apk_map demo_apk1 5 ''base.apk'' = Some demo_data" by simp_all
  from query_minapk_cases [OF ok m, of "\<lambda>_. 1"] show ?thesis by (auto simp: demo_data_def apk_map_def Let_def)
qed

text \<open>
  C14: \<^verbatim>\<open>terminate_minimal_apk\<close>, when the application volume is mounted and memory is available: the flag is
  cleared, every entry of the table is reported to the kernel once (its parent and name), the table is destroyed and 0 is returned.
\<close>

theorem terminate_invalidates_all:
  assumes ok: "apk_ok s" and h: "minapk_lookup_table s = Some h"
  shows "terminate_minimal_apk (0, True) s = (Inr (), s\<lparr>use_minimal_apk := False, minapk_lookup_table := None,
    minapk_lookup_iter := None, notified := notified s @ notes_of (concat (map first_entry (hash_table h)))\<rparr>)"
proof -
  have ok': "apk_ok (s\<lparr>use_minimal_apk := False\<rparr>)" using ok by (simp add: apk_ok_def)
  have q: "hl_quiet h" using assms by (auto simp: apk_ok_def hl_good_def hl_okD)
  show ?thesis unfolding terminate_minimal_apk_def
    using invalid_all_ok [OF ok', of h] h global_lock_quiet [OF q]
    by (simp add: destroy_minapk_table_def destroy_hash_list_def)
qed

theorem terminate_invalidates_all_witness:
  "\<exists>h. minapk_lookup_table demo_apk1 = Some h \<and> terminate_minimal_apk (0, True) demo_apk1 = (Inr (),
    demo_apk1\<lparr>use_minimal_apk := False, minapk_lookup_table := None, minapk_lookup_iter := None,
      notified := notified demo_apk1 @ notes_of (concat (map first_entry (hash_table h)))\<rparr>)"
proof -
  from demo_apk1_ok have ok: "apk_ok demo_apk1" by simp
  then obtain h where h: "minapk_lookup_table demo_apk1 = Some h" by (rule apk_okE)
  from terminate_invalidates_all [OF ok h] h show ?thesis by blast
qed

text \<open>
  A flaw: when the iterator cannot be allocated, \<^verbatim>\<open>init_iterate_minapk_table\<close> returns with the
  lock of the table taken and no iterator, so that \<^verbatim>\<open>terminate_minimal_apk\<close>, which goes on to destroy the
  table, waits for that lock for ever.
\<close>

theorem terminate_hangs_without_memory:
  assumes ok: "apk_ok (s\<lparr>minapk_lookup_table := Some (h\<lparr>mem := []\<rparr>)\<rparr>)" and s: "minapk_lookup_table s = Some h"
    and m: "mem h = r # rs" "r \<noteq> IO_Ok"
  shows "fst (terminate_minimal_apk mount s) = Inl Hang"
proof -
  have "hl_ok h" using ok by (simp add: apk_ok_def hl_good_def)
  then have q: "hl_quiet h" by (rule hl_okD)
  have "invalid_all_minapk mount (s\<lparr>use_minimal_apk := False\<rparr>) = (Inl (Errno ENOMEM), s\<lparr>use_minimal_apk := False,
      minapk_lookup_table := Some (h\<lparr>table_sem := 0, can_lock_table_sem := 0, mem := rs\<rparr>)\<rparr>)"
    using s m global_lock_quiet [OF q]
    by (simp add: invalid_all_minapk_def init_iterate_minapk_table_def bindE_def init_hashlist_iter_def calloc_mem_eval)
  then show ?thesis
    by (simp add: terminate_minimal_apk_def destroy_minapk_table_def destroy_hash_list_def hash_list_global_lock_def
        sem_wait_def bindE_def)
qed

theorem terminate_hangs_without_memory_witness:
  "\<exists>s h. minapk_lookup_table s = Some h \<and> mem h = [IO_Err ENOMEM] \<and> hl_ok h \<and>
    fst (terminate_minimal_apk (0, True) s) = Inl Hang"
proof -
  from demo_apk1_ok have ok: "apk_ok demo_apk1" by simp
  then obtain h where h: "minapk_lookup_table demo_apk1 = Some h" "hl_ok h" "mem h = []" by (rule apk_okE)
  let ?h = "h\<lparr>mem := [IO_Err ENOMEM]\<rparr>"
  let ?s = "demo_apk1\<lparr>minapk_lookup_table := Some ?h\<rparr>"
  have "h\<lparr>mem := []\<rparr> = h" using h(3) by simp
  then have "apk_ok (?s\<lparr>minapk_lookup_table := Some (?h\<lparr>mem := []\<rparr>)\<rparr>)"
    using ok h by (simp add: apk_ok_def hl_good_def)
  from terminate_hangs_without_memory [OF this] show ?thesis
    using h by (intro exI [of _ ?s] exI [of _ ?h]) simp
qed

end
