(* ===== verification/Lookup_Count.thy ===== *)
theory Lookup_Count
  imports Buckets
begin

text \<open>
  The inode lookup counts, \<^verbatim>\<open>src/HCFS/lookup_count.c\<close>, and its two clients: \<^verbatim>\<open>hfuse_ll_forget\<close> of
  \<^verbatim>\<open>src/HCFS/fuseop.c\<close>, which deletes an inode when the kernel forgets it, and \<^verbatim>\<open>mark_inode_delete\<close> of
  \<^verbatim>\<open>src/HCFS/metaops.c\<close>.  The table has \<^verbatim>\<open>NUM_LOOKUP_ENTRIES\<close> buckets with a
  semaphore each; every semaphore call and allocation takes the next outcome of a script.  Calls
  of \<^verbatim>\<open>actual_delete_inode\<close>, \<^verbatim>\<open>delete_in_alias_group\<close> and the wake-up at an unmount are logged; the
  markers on disk are a predicate on inodes.
\<close>

abbreviation (input) NUM_LOOKUP_ENTRIES :: nat where "NUM_LOOKUP_ENTRIES \<equiv> 65536"

subsection \<open>Data\<close>

record LOOKUP_NODE_TYPE =
  this_inode :: ino_t
  lookup_count :: int
  to_delete :: bool
  d_type :: nat

record LOOKUP_HEAD_TYPE =
  entry_sem :: nat
  head :: "LOOKUP_NODE_TYPE list"

text \<open>What the operations make other components do.\<close>

datatype lk_event = Actual_Delete ino_t nat | Delete_In_Alias_Group ino_t | Umount_Broadcast

record lk_state =
  lookup_table :: "LOOKUP_HEAD_TYPE list option"
  lk_os :: "io_outcome list"
  disk_marked :: "ino_t \<Rightarrow> bool"
  lk_log :: "lk_event list"

subsection \<open>Semaphores and memory\<close>

definition lk_heads :: "lk_state \<Rightarrow> LOOKUP_HEAD_TYPE list" where
  "lk_heads s = (case lookup_table s of None \<Rightarrow> [] | Some t \<Rightarrow> t)"

definition at_head :: "nat \<Rightarrow> (LOOKUP_HEAD_TYPE \<Rightarrow> LOOKUP_HEAD_TYPE) \<Rightarrow> lk_state \<Rightarrow> lk_state" where
  "at_head i f s = s\<lparr>lookup_table := map_option (\<lambda>t. t[i := f (t ! i)]) (lookup_table s)\<rparr>"

text \<open>A call that can fail with an error number.\<close>

definition lk_call :: "(lk_state, unit) sm" where
  "lk_call = (\<lambda>s. (case lk_os s of IO_Err e # _ \<Rightarrow> Inl (Errno e) | _ \<Rightarrow> Inr (), s\<lparr>lk_os := tl (lk_os s)\<rparr>))"

definition entry_wait :: "nat \<Rightarrow> (lk_state, unit) sm" where
  "entry_wait i = bindE lk_call (\<lambda>_.
     sem_wait (\<lambda>s. entry_sem (lk_heads s ! i)) (\<lambda>f. at_head i (entry_sem_update f)))"

definition entry_post :: "nat \<Rightarrow> (lk_state, unit) sm" where
  "entry_post i = bindE lk_call (\<lambda>_. sem_post (\<lambda>f. at_head i (entry_sem_update f)))"

text \<open>An unlock whose return code is not used.\<close>

definition entry_post_ignored :: "nat \<Rightarrow> (lk_state, unit) sm" where
  "entry_post_ignored i = (\<lambda>s. (Inr (), snd (entry_post i s)))"

definition lk_malloc :: "(lk_state, bool) sm" where
  "lk_malloc = alloc lk_os lk_os_update"

subsection \<open>Operations\<close>

fun init_heads :: "nat \<Rightarrow> (lk_state, unit) sm" where
  "init_heads 0 s = (Inr (), s)"
| "init_heads (Suc n) s =
     bindE lk_call (\<lambda>_. bindE (modifyE (at_head (NUM_LOOKUP_ENTRIES - Suc n) (\<lambda>b. b\<lparr>entry_sem := 1, head := []\<rparr>)))
       (\<lambda>_. init_heads n)) s"

definition lookup_init :: "(lk_state, unit) sm" where
  "lookup_init = (\<lambda>s. if lookup_table s = None then (Inl (Errno ENOMEM), s) else init_heads NUM_LOOKUP_ENTRIES s)"

definition find_inode :: "lk_state \<Rightarrow> nat \<Rightarrow> ino_t \<Rightarrow> LOOKUP_NODE_TYPE option" where
  "find_inode s i ino = find_first (\<lambda>n. this_inode n = ino) (head (lk_heads s ! i))"

definition on_node :: "ino_t \<Rightarrow> (LOOKUP_NODE_TYPE \<Rightarrow> LOOKUP_NODE_TYPE) \<Rightarrow> LOOKUP_HEAD_TYPE \<Rightarrow> LOOKUP_HEAD_TYPE" where
  "on_node ino f b = b\<lparr>head := upd_first (\<lambda>n. this_inode n = ino) f (head b)\<rparr>"

definition lookup_increase :: "ino_t \<Rightarrow> int \<Rightarrow> nat \<Rightarrow> (lk_state, int) sm" where
  "lookup_increase ino amount dt = (\<lambda>s. if lookup_table s = None then (Inl (Errno ENOMEM), s)
     else let i = ino mod NUM_LOOKUP_ENTRIES in
       bindE (entry_wait i) (\<lambda>_ s1. case find_inode s1 i ino of
         Some n \<Rightarrow> (let c = to_int32 (lookup_count n + amount) in
           bindE (modifyE (at_head i (on_node ino (lookup_count_update (\<lambda>_. c))))) (\<lambda>_.
           bindE (entry_post i) (\<lambda>_. returnE c)) s1)
       | None \<Rightarrow> bindE lk_malloc (\<lambda>ok. if \<not> ok then
             bindE (entry_post_ignored i) (\<lambda>_. failE (Errno ENOMEM))
           else bindE (modifyE (at_head i (head_update (\<lambda>ns.
               \<lparr>this_inode = ino, lookup_count = amount, to_delete = False, d_type = dt\<rparr> # ns)))) (\<lambda>_.
             bindE (entry_post i) (\<lambda>_. returnE amount))) s1) s)"

text \<open>
  The result is the new count with what is written through the two pointers, the type and whether
  the inode has to be deleted; \<open>given\<close> says that \<^verbatim>\<open>need_delete\<close> is not null.
\<close>

definition lookup_decrease :: "ino_t \<Rightarrow> int \<Rightarrow> bool \<Rightarrow> (lk_state, int \<times> nat \<times> bool) sm" where
  "lookup_decrease ino amount given = (\<lambda>s. if lookup_table s = None then (Inl (Errno ENOMEM), s)
     else if \<not> given then (Inl (Errno EPERM), s)
     else let i = ino mod NUM_LOOKUP_ENTRIES in
       bindE (entry_wait i) (\<lambda>_ s1. case find_inode s1 i ino of
         Some n \<Rightarrow>
           (let c = to_int32 (lookup_count n - amount); c' = (if c < 0 then 0 else c) in
            bindE (modifyE (at_head i (if c' = 0 then head_update (del_first (\<lambda>n. this_inode n = ino))
                else on_node ino (lookup_count_update (\<lambda>_. c'))))) (\<lambda>_.
            bindE (entry_post i) (\<lambda>_. returnE (c', d_type n, to_delete n))) s1)
       | None \<Rightarrow> bindE (entry_post_ignored i) (\<lambda>_. failE (Errno EINVAL)) s1) s)"

definition lookup_markdelete :: "ino_t \<Rightarrow> (lk_state, unit) sm" where
  "lookup_markdelete ino = (\<lambda>s. if lookup_table s = None then (Inl (Errno ENOMEM), s)
     else let i = ino mod NUM_LOOKUP_ENTRIES in
       bindE (entry_wait i) (\<lambda>_ s1. case find_inode s1 i ino of
         Some n \<Rightarrow> bindE (modifyE (at_head i (on_node ino (to_delete_update (\<lambda>_. True))))) (\<lambda>_. entry_post i) s1
       | None \<Rightarrow> bindE (entry_post_ignored i) (\<lambda>_. failE (Errno EINVAL)) s1) s)"

text \<open>The nodes of one bucket at the end: those marked on disk are deleted.\<close>

definition destroy_nodes :: "LOOKUP_NODE_TYPE list \<Rightarrow> lk_state \<Rightarrow> lk_state" where
  "destroy_nodes ns s = s\<lparr>lk_log := lk_log s @
     map (\<lambda>n. Actual_Delete (this_inode n) (d_type n)) (filter (\<lambda>n. disk_marked s (this_inode n)) ns)\<rparr>"

fun destroy_heads :: "nat \<Rightarrow> (lk_state, unit) sm" where
  "destroy_heads 0 s = (Inr (), s)"
| "destroy_heads (Suc n) s = (let i = NUM_LOOKUP_ENTRIES - Suc n in
     bindE (entry_wait i) (\<lambda>_ s1.
       bindE (modifyE (\<lambda>s. at_head i (head_update (\<lambda>_. [])) (destroy_nodes (head (lk_heads s ! i)) s))) (\<lambda>_.
       bindE (entry_post i) (\<lambda>_. destroy_heads n)) s1) s)"

definition lookup_destroy :: "(lk_state, unit) sm" where
  "lookup_destroy = (\<lambda>s. if lookup_table s = None then (Inl (Errno ENOMEM), s) else destroy_heads NUM_LOOKUP_ENTRIES s)"

subsection \<open>Clients\<close>

text \<open>
  \<^verbatim>\<open>hfuse_ll_forget\<close> for the inode \<open>ino\<close> of the request, as an alias of \<open>org_ino\<close> (\<open>is_alias\<close> is
  \<^verbatim>\<open>IS_ALIAS_INODE\<close>) and with the real number \<open>thisinode\<close>.  The count the kernel gives back is converted to
  \<^verbatim>\<open>int32_t\<close>; a failing call is only logged.
\<close>

definition lk_emit :: "lk_event list \<Rightarrow> lk_state \<Rightarrow> lk_state" where
  "lk_emit es s = s\<lparr>lk_log := lk_log s @ es\<rparr>"

definition hfuse_ll_forget :: "(ino_t \<Rightarrow> bool) \<Rightarrow> ino_t \<Rightarrow> ino_t \<Rightarrow> ino_t \<Rightarrow> nat \<Rightarrow> (lk_state, unit) sm" where
  "hfuse_ll_forget is_alias ino org_ino thisinode nlookup = (\<lambda>s0.
     let s = (if is_alias org_ino then lk_emit [Delete_In_Alias_Group org_ino] s0 else s0)
     in case lookup_decrease thisinode (to_int32 (int nlookup)) True s of
        (Inl (Errno e), s') \<Rightarrow> (Inr (), s')
      | (Inl f, s') \<Rightarrow> (Inl f, s')
      | (Inr (current_val, dt, del), s') \<Rightarrow>
          if current_val < 0 then (Inr (), s')
          else if current_val > 0 then (Inr (), s')
          else let s1 = (if current_val = 0 \<and> del
                then lk_emit [Delete_In_Alias_Group thisinode, Actual_Delete thisinode dt] s' else s')
               in (Inr (), if ino = 1 then lk_emit [Umount_Broadcast] s1 else s1))"

text \<open>\<^verbatim>\<open>disk_markdelete\<close> puts the marker on disk; it can fail with an I/O error.\<close>

definition disk_markdelete :: "ino_t \<Rightarrow> (lk_state, unit) sm" where
  "disk_markdelete ino = bindE lk_call (\<lambda>_. modifyE (\<lambda>s. s\<lparr>disk_marked := (disk_marked s)(ino := True)\<rparr>))"

definition mark_inode_delete :: "ino_t \<Rightarrow> (lk_state, unit) sm" where
  "mark_inode_delete ino = bindE (disk_markdelete ino) (\<lambda>_. lookup_markdelete ino)"

subsection \<open>The table as a map\<close>

definition lk_slot :: "ino_t \<Rightarrow> nat" where
  "lk_slot ino = ino mod NUM_LOOKUP_ENTRIES"

interpretation lk: buckets this_inode lk_slot NUM_LOOKUP_ENTRIES
  by unfold_locales (simp add: lk_slot_def)

definition lk_tab :: "lk_state \<Rightarrow> LOOKUP_NODE_TYPE list list" where
  "lk_tab s = map head (lk_heads s)"

definition lk_ok :: "lk_state \<Rightarrow> bool" where
  "lk_ok s \<longleftrightarrow> lookup_table s \<noteq> None \<and> lk_os s = [] \<and> lk.wf_tab (lk_tab s) \<and>
     (\<forall>b \<in> set (lk_heads s). entry_sem b = 1)"

definition lk_view :: "lk_state \<Rightarrow> ino_t \<rightharpoonup> LOOKUP_NODE_TYPE" where
  "lk_view s = lk.contents (lk_tab s)"

lemma lk_okD:
  assumes "lk_ok s"
  shows "lookup_table s = Some (lk_heads s)" "lk_os s = []" "length (lk_heads s) = NUM_LOOKUP_ENTRIES"
    "lk_slot ino < length (lk_heads s)" "entry_sem (lk_heads s ! lk_slot ino) = 1" "lk.wf_tab (lk_tab s)"
proof -
  show l: "length (lk_heads s) = NUM_LOOKUP_ENTRIES" using assms lk.wf_tabD(1) [of "lk_tab s"] by (simp add: lk_ok_def lk_tab_def)
  show "lk_slot ino < length (lk_heads s)" using l lk.slot_less by simp
  then show "entry_sem (lk_heads s ! lk_slot ino) = 1" using assms by (simp add: lk_ok_def)
qed (use assms in \<open>auto simp: lk_ok_def lk_heads_def\<close>)

lemma lk_heads_at [simp]: "lk_heads (at_head i f s) = (lk_heads s)[i := f (lk_heads s ! i)]"
  by (cases "lookup_table s") (simp_all add: lk_heads_def at_head_def)

lemma at_head_other [simp]:
  "lk_os (at_head i f s) = lk_os s" "disk_marked (at_head i f s) = disk_marked s" "lk_log (at_head i f s) = lk_log s"
  "lookup_table (at_head i f s) = None \<longleftrightarrow> lookup_table s = None"
  by (simp_all add: at_head_def)

lemma lk_tab_at: "i < length (lk_heads s) \<Longrightarrow> lk_tab (at_head i f s) = (lk_tab s)[i := head (f (lk_heads s ! i))]"
  by (simp add: lk_tab_def map_update)

lemma at_head_twice: "i < length (lk_heads s) \<Longrightarrow> at_head i f (at_head i g s) = at_head i (f \<circ> g) s"
  by (cases "lookup_table s") (simp_all add: at_head_def lk_heads_def)

lemma at_head_id: "f (lk_heads s ! i) = lk_heads s ! i \<Longrightarrow> at_head i f s = s"
  by (cases "lookup_table s") (simp_all add: at_head_def lk_heads_def)

text \<open>Between the two semaphore calls of an operation.\<close>

definition held :: "nat \<Rightarrow> lk_state \<Rightarrow> lk_state" where
  "held i s = at_head i (entry_sem_update (\<lambda>n. n - 1)) s"

lemma lk_call_ok [simp]: "lk_os s = [] \<Longrightarrow> lk_call s = (Inr (), s)"
  by (simp add: lk_call_def)

lemma entry_wait_ok: "lk_ok s \<Longrightarrow> entry_wait (lk_slot ino) s = (Inr (), held (lk_slot ino) s)"
  using lk_okD(2) [of s] lk_okD(5) [of s ino] by (simp add: entry_wait_def bindE_def sem_wait_def held_def)

lemma entry_post_held:
  assumes ok: "lk_ok s" and f: "\<And>b. entry_sem (f b) = entry_sem b" "\<And>b g. f (entry_sem_update g b) = entry_sem_update g (f b)"
  shows "entry_post (lk_slot ino) (at_head (lk_slot ino) f (held (lk_slot ino) s)) = (Inr (), at_head (lk_slot ino) f s)"
proof -
  note d = lk_okD(2) [OF ok] lk_okD(4,5) [OF ok, of ino]
  have "entry_sem_update (Suc \<circ> (\<lambda>n. n - Suc 0)) (f (lk_heads s ! lk_slot ino)) = f (lk_heads s ! lk_slot ino)"
    using f(1) d(3) by (cases "f (lk_heads s ! lk_slot ino)") (metis LOOKUP_HEAD_TYPE.select_convs(1) One_nat_def
        LOOKUP_HEAD_TYPE.update_convs(1) comp_apply diff_self_eq_0)
  then have "at_head (lk_slot ino) (entry_sem_update Suc \<circ> (f \<circ> entry_sem_update (\<lambda>n. n - 1))) s = at_head (lk_slot ino) f s"
    using d(2) by (cases "lookup_table s") (simp_all add: at_head_def f(2) lk_heads_def)
  then show ?thesis using d
    by (simp add: entry_post_def bindE_def sem_post_def held_def at_head_twice)
qed

lemma find_held: "lk_ok s \<Longrightarrow> find_inode (held (lk_slot ino) s) (lk_slot ino) ino = lk_view s ino"
  using lk_okD(4) [of s ino] lk.slot_less
  by (simp add: find_inode_def held_def lk_view_def lk.contents_def lk_tab_def)

text \<open>What an operation has to show of the node list of its bucket.\<close>

lemma lk_ok_at:
  assumes ok: "lk_ok s" and sem: "\<And>b. entry_sem (f b) = entry_sem b"
    and wf: "lk.wf_tab ((lk_tab s)[lk_slot ino := head (f (lk_heads s ! lk_slot ino))])"
  shows "lk_ok (at_head (lk_slot ino) f s)"
  using ok sem wf lk_okD(4,5) [OF ok, of ino] 
  unfolding lk_ok_def lk_tab_at [OF lk_okD(4) [OF ok, of ino]] by (auto dest!: subsetD [OF set_update_subset_insert])

lemma head_nth: "lk_ok s \<Longrightarrow> head (lk_heads s ! lk_slot ino) = lk_tab s ! lk_slot ino"
  using lk_okD(4) [of s ino] by (simp add: lk_tab_def)

lemma insert_node_view:
  assumes ok: "lk_ok s" and new: "lk_view s (this_inode n) = None"
  shows "lk_ok (at_head (lk_slot (this_inode n)) (head_update (\<lambda>ns. n # ns)) s)"
    and "lk_view (at_head (lk_slot (this_inode n)) (head_update (\<lambda>ns. n # ns)) s) = (lk_view s)(this_inode n \<mapsto> n)"
  using lk.link_front [OF lk_okD(6) [OF ok] new [unfolded lk_view_def]] head_nth [OF ok] lk_okD(4) [OF ok]
  by (auto intro!: lk_ok_at [OF ok] simp: lk_view_def lk_tab_at)

lemma change_node_view:
  assumes ok: "lk_ok s" and f: "\<And>n. this_inode (f n) = this_inode n"
  shows "lk_ok (at_head (lk_slot ino) (on_node ino f) s)"
    and "lk_view (at_head (lk_slot ino) (on_node ino f) s) = (lk_view s)(ino := map_option f (lk_view s ino))"
  using lk.change_node [OF lk_okD(6) [OF ok], of ino f] f head_nth [OF ok, of ino] lk_okD(4) [OF ok, of ino]
  by (auto intro!: lk_ok_at [OF ok] simp: lk_view_def lk_tab_at on_node_def)

lemma delete_node_view:
  assumes ok: "lk_ok s"
  shows "lk_ok (at_head (lk_slot ino) (head_update (del_first (\<lambda>n. this_inode n = ino))) s)"
    and "lk_view (at_head (lk_slot ino) (head_update (del_first (\<lambda>n. this_inode n = ino))) s) = (lk_view s)(ino := None)"
  using lk.unlink_node [OF lk_okD(6) [OF ok], of ino] head_nth [OF ok, of ino] lk_okD(4) [OF ok, of ino]
  by (auto intro!: lk_ok_at [OF ok] simp: lk_view_def lk_tab_at)

subsection \<open>The operations on the map\<close>

lemma held_run: "lk_ok s \<Longrightarrow> bindE (entry_wait (lk_slot ino)) f s = f () (held (lk_slot ino) s)"
  using entry_wait_ok by simp

lemma lk_os_held [simp]: "lk_os (held i s) = lk_os s"
  by (simp add: held_def)

lemma lookup_increase_ok:
  assumes ok: "lk_ok s"
  shows "lookup_increase ino amount dt s = (case lk_view s ino of
      Some n \<Rightarrow> (Inr (to_int32 (lookup_count n + amount)), at_head (lk_slot ino)
        (on_node ino (lookup_count_update (\<lambda>_. to_int32 (lookup_count n + amount)))) s)
    | None \<Rightarrow> (Inr amount, at_head (lk_slot ino) (head_update (\<lambda>ns.
        \<lparr>this_inode = ino, lookup_count = amount, to_delete = False, d_type = dt\<rparr> # ns)) s))"
proof (cases "lk_view s ino")
  case None
  have m: "lk_malloc (held (lk_slot ino) s) = (Inr True, held (lk_slot ino) s)"
    using lk_okD(2) [OF ok] by (simp add: lk_malloc_def alloc_def)
  show ?thesis
    using None lk_okD(1) [OF ok] m entry_post_held [OF ok, of "head_update (\<lambda>ns.
        \<lparr>this_inode = ino, lookup_count = amount, to_delete = False, d_type = dt\<rparr> # ns)" ino]
    by (simp add: lookup_increase_def Let_def lk_slot_def [symmetric] held_run [OF ok] find_held [OF ok])
next
  case (Some n)
  let ?f = "on_node ino (lookup_count_update (\<lambda>_. to_int32 (lookup_count n + amount)))"
  have "entry_post (lk_slot ino) (at_head (lk_slot ino) ?f (held (lk_slot ino) s)) = (Inr (), at_head (lk_slot ino) ?f s)"
    by (rule entry_post_held [OF ok]) (simp_all add: on_node_def)
  then show ?thesis
    using Some lk_okD(1) [OF ok]
    by (simp add: lookup_increase_def Let_def lk_slot_def [symmetric] held_run [OF ok] find_held [OF ok])
qed

lemma lookup_decrease_ok:
  assumes ok: "lk_ok s" and n: "lk_view s ino = Some n" and c: "c = max 0 (to_int32 (lookup_count n - amount))"
  shows "lookup_decrease ino amount True s = (Inr (c, d_type n, to_delete n), at_head (lk_slot ino)
    (if c = 0 then head_update (del_first (\<lambda>n. this_inode n = ino)) else on_node ino (lookup_count_update (\<lambda>_. c))) s)"
proof -
  let ?f = "if c = 0 then head_update (del_first (\<lambda>n. this_inode n = ino)) else on_node ino (lookup_count_update (\<lambda>_. c))"
  have "entry_post (lk_slot ino) (at_head (lk_slot ino) ?f (held (lk_slot ino) s)) = (Inr (), at_head (lk_slot ino) ?f s)"
    by (rule entry_post_held [OF ok]) (simp_all add: on_node_def)
  moreover have "(if to_int32 (lookup_count n - amount) < 0 then 0 else to_int32 (lookup_count n - amount)) = c"
    using c by simp
  ultimately show ?thesis
    using n lk_okD(1) [OF ok]
    by (cases "c = 0") (simp_all add: lookup_decrease_def Let_def lk_slot_def [symmetric] held_run [OF ok] find_held [OF ok])
qed

lemma lookup_markdelete_ok:
  assumes ok: "lk_ok s" and n: "lk_view s ino = Some n"
  shows "lookup_markdelete ino s = (Inr (), at_head (lk_slot ino) (on_node ino (to_delete_update (\<lambda>_. True))) s)"
proof -
  let ?f = "on_node ino (to_delete_update (\<lambda>_. True))"
  have "entry_post (lk_slot ino) (at_head (lk_slot ino) ?f (held (lk_slot ino) s)) = (Inr (), at_head (lk_slot ino) ?f s)"
    by (rule entry_post_held [OF ok]) (simp_all add: on_node_def)
  then show ?thesis
    using n lk_okD(1) [OF ok]
    by (simp add: lookup_markdelete_def Let_def lk_slot_def [symmetric] held_run [OF ok] find_held [OF ok])
qed

lemma lk_emit_ok [simp]: "lk_ok (lk_emit es s) = lk_ok s" "lk_view (lk_emit es s) = lk_view s"
  by (simp_all add: lk_emit_def lk_ok_def lk_view_def lk_tab_def lk_heads_def)

lemma lk_view_key: "lk_view s ino = Some n \<Longrightarrow> this_inode n = ino"
  by (simp add: lk_view_def lk.contents_key)

text \<open>What \<^verbatim>\<open>hfuse_ll_forget\<close> does with an inode that has a count.\<close>

lemma forget_ok:
  assumes ok: "lk_ok s" and n: "lk_view s ino = Some n" and c: "0 < lookup_count n" "lookup_count n < 2 ^ 31"
    and m: "nlookup < 2 ^ 31"
  shows "\<exists>s'. hfuse_ll_forget is_alias req org ino nlookup s = (Inr (), s') \<and> lk_ok s' \<and>
    lk_view s' = (lk_view s)(ino :=
      if int nlookup < lookup_count n then Some (n\<lparr>lookup_count := lookup_count n - int nlookup\<rparr>) else None) \<and>
    lk_log s' = lk_log s @ (if is_alias org then [Delete_In_Alias_Group org] else []) @
      (if int nlookup < lookup_count n then [] else
        (if to_delete n then [Delete_In_Alias_Group ino, Actual_Delete ino (d_type n)] else []) @
        (if req = 1 then [Umount_Broadcast] else []))"
proof -
  let ?s = "if is_alias org then lk_emit [Delete_In_Alias_Group org] s else s"
  have s: "lk_ok ?s" "lk_view ?s = lk_view s" using ok by simp_all
  have a: "to_int32 (int nlookup) = int nlookup" using m by (intro to_int32_id) simp_all
  have b: "to_int32 (lookup_count n - int nlookup) = lookup_count n - int nlookup"
    using c m by (intro to_int32_id) simp_all
  note d = lookup_decrease_ok [OF s(1), of ino n, OF _ refl, of "int nlookup", unfolded b, unfolded s(2), OF n]
  show ?thesis
  proof (cases "int nlookup < lookup_count n")
    case True
    then show ?thesis
      using d change_node_view [OF s(1), of "lookup_count_update (\<lambda>_. lookup_count n - int nlookup)" ino] s(2) n
      by (simp add: hfuse_ll_forget_def Let_def a max_def lk_emit_def)
  next
    case False
    then show ?thesis
      using d delete_node_view [OF s(1), of ino] s(2) n
      by (simp add: hfuse_ll_forget_def Let_def a max_def) (simp add: lk_emit_def)
  qed
qed

subsection \<open>Sequences of calls on one inode\<close>

text \<open>What the kernel and the file system do with one inode: look it up, forget it, mark it deleted.\<close>

datatype lk_op = Lk_Increase nat | Lk_Forget nat | Lk_Mark

fun lk_do :: "ino_t \<Rightarrow> nat \<Rightarrow> lk_op \<Rightarrow> lk_state \<Rightarrow> lk_state" where
  "lk_do ino dt (Lk_Increase a) s = snd (lookup_increase ino (int a) dt s)"
| "lk_do ino dt (Lk_Forget m) s = snd (hfuse_ll_forget (\<lambda>_. False) ino ino ino m s)"
| "lk_do ino dt Lk_Mark s = snd (mark_inode_delete ino s)"

fun lk_delta :: "lk_op \<Rightarrow> int" where
  "lk_delta (Lk_Increase a) = int a"
| "lk_delta (Lk_Forget m) = - int m"
| "lk_delta Lk_Mark = 0"

text \<open>The count stays positive and an \<^verbatim>\<open>int32_t\<close> all the way.\<close>

fun lk_alive :: "int \<Rightarrow> lk_op list \<Rightarrow> bool" where
  "lk_alive c [] \<longleftrightarrow> True"
| "lk_alive c (p # ps) \<longleftrightarrow> \<bar>lk_delta p\<bar> < 2 ^ 31 \<and> 0 < c + lk_delta p \<and> c + lk_delta p < 2 ^ 31 \<and> lk_alive (c + lk_delta p) ps"

lemma disk_markdelete_ok:
  "lk_ok s \<Longrightarrow> mark_inode_delete ino s = lookup_markdelete ino (s\<lparr>disk_marked := (disk_marked s)(ino := True)\<rparr>)"
  using lk_okD(2) [of s] by (simp add: mark_inode_delete_def disk_markdelete_def bindE_def)

lemma lk_ok_marked [simp]:
  "lk_ok (s\<lparr>disk_marked := d\<rparr>) = lk_ok s" "lk_view (s\<lparr>disk_marked := d\<rparr>) = lk_view s"
  by (simp_all add: lk_ok_def lk_view_def lk_tab_def lk_heads_def)

lemma lk_do_step:
  assumes ok: "lk_ok s" and n: "lk_view s ino = Some n" and c: "0 < lookup_count n" "lookup_count n < 2 ^ 31"
    and p: "\<bar>lk_delta p\<bar> < 2 ^ 31" "0 < lookup_count n + lk_delta p" "lookup_count n + lk_delta p < 2 ^ 31"
  shows "lk_ok (lk_do ino dt p s) \<and> lk_log (lk_do ino dt p s) = lk_log s \<and> lk_view (lk_do ino dt p s) = (lk_view s)(ino \<mapsto>
    n\<lparr>lookup_count := lookup_count n + lk_delta p, to_delete := (to_delete n \<or> p = Lk_Mark)\<rparr>)"
proof (cases p)
  case (Lk_Increase a)
  then have t: "to_int32 (lookup_count n + int a) = lookup_count n + int a" using c p by (intro to_int32_id) simp_all
  show ?thesis
    using Lk_Increase change_node_view [OF ok, of "lookup_count_update (\<lambda>_. lookup_count n + int a)" ino] n
      lookup_increase_ok [OF ok, of ino "int a" dt] by (simp add: t)
next
  case (Lk_Forget m)
  then have "m < 2 ^ 31" using p(1) by simp
  then obtain s' where "hfuse_ll_forget (\<lambda>_. False) ino ino ino m s = (Inr (), s')" "lk_ok s'" "lk_log s' = lk_log s"
    "lk_view s' = (lk_view s)(ino \<mapsto> n\<lparr>lookup_count := lookup_count n - int m\<rparr>)"
    using forget_ok [OF ok n c, of m "\<lambda>_. False" ino ino] p(2) Lk_Forget by auto
  then show ?thesis using Lk_Forget by simp
next
  case Lk_Mark
  let ?s = "s\<lparr>disk_marked := (disk_marked s)(ino := True)\<rparr>"
  have s: "lk_ok ?s" "lk_view ?s ino = Some n" using ok n by simp_all
  show ?thesis
    using Lk_Mark lookup_markdelete_ok [OF s] change_node_view [OF s(1), of "to_delete_update (\<lambda>_. True)" ino] s(2)
    by (simp add: disk_markdelete_ok [OF ok])
qed

lemma lk_do_run:
  assumes "lk_ok s" and "lk_view s ino = Some n" and "0 < lookup_count n" "lookup_count n < 2 ^ 31" and "lk_alive (lookup_count n) ps"
  shows "lk_ok (fold (lk_do ino dt) ps s) \<and> lk_log (fold (lk_do ino dt) ps s) = lk_log s \<and>
    lk_view (fold (lk_do ino dt) ps s) = (lk_view s)(ino \<mapsto>
      n\<lparr>lookup_count := lookup_count n + (\<Sum>p\<leftarrow>ps. lk_delta p), to_delete := (to_delete n \<or> Lk_Mark \<in> set ps)\<rparr>) \<and>
    0 < lookup_count n + (\<Sum>p\<leftarrow>ps. lk_delta p) \<and> lookup_count n + (\<Sum>p\<leftarrow>ps. lk_delta p) < 2 ^ 31"
  using assms
proof (induction ps arbitrary: s n)
  case Nil
  then show ?case by (simp add: fun_upd_idem)
next
  case (Cons p ps)
  let ?n = "n\<lparr>lookup_count := lookup_count n + lk_delta p, to_delete := (to_delete n \<or> p = Lk_Mark)\<rparr>"
  have a: "\<bar>lk_delta p\<bar> < 2 ^ 31" "0 < lookup_count n + lk_delta p" "lookup_count n + lk_delta p < 2 ^ 31"
    "lk_alive (lookup_count n + lk_delta p) ps" using Cons.prems(5) by simp_all
  note st = lk_do_step [OF Cons.prems(1-4) a(1-3), of dt]
  have "lk_view (lk_do ino dt p s) ino = Some ?n" using st by simp
  from Cons.IH [OF _ this] st a show ?case by (auto simp: add.assoc fun_eq_iff eq_commute [of Lk_Mark p])
qed

subsection \<open>Properties\<close>

text \<open>
  C15: The lookup count of an inode is the sum of the increases minus the sum of the forgets, and the inode is deleted
  exactly when it is forgotten completely after having been marked.  After any
  sequence of \<^verbatim>\<open>lookup_increase\<close>, \<^verbatim>\<open>hfuse_ll_forget\<close> and \<^verbatim>\<open>mark_inode_delete\<close> calls in which the count stays
  positive, nothing has been deleted; the forget of the remaining count then removes the entry and
  calls \<^verbatim>\<open>actual_delete_inode\<close> once if a mark is among the calls, and not otherwise.
\<close>

theorem deleted_when_forgotten:
  assumes "lk_ok s" and "lk_view s ino = Some n" and "0 < lookup_count n" "lookup_count n < 2 ^ 31"
    and "lk_alive (lookup_count n) ps" and "\<not> to_delete n" and "ino \<noteq> 1"
    and left: "left = nat (lookup_count n + (\<Sum>p\<leftarrow>ps. lk_delta p))"
  shows "lk_log (fold (lk_do ino dt) ps s) = lk_log s \<and>
    lk_view (lk_do ino dt (Lk_Forget left) (fold (lk_do ino dt) ps s)) = (lk_view s)(ino := None) \<and>
    lk_log (lk_do ino dt (Lk_Forget left) (fold (lk_do ino dt) ps s)) =
      lk_log s @ (if Lk_Mark \<in> set ps then [Delete_In_Alias_Group ino, Actual_Delete ino (d_type n)] else [])"
proof -
  let ?t = "fold (lk_do ino dt) ps s"
  let ?m = "n\<lparr>lookup_count := lookup_count n + (\<Sum>p\<leftarrow>ps. lk_delta p), to_delete := (to_delete n \<or> Lk_Mark \<in> set ps)\<rparr>"
  note r = lk_do_run [OF assms(1-5), of dt]
  have v: "lk_view ?t ino = Some ?m" and ok: "lk_ok ?t" and c: "0 < lookup_count ?m" "lookup_count ?m < 2 ^ 31"
    using r by simp_all
  have "left < 2 ^ 31" "int left = lookup_count ?m" using c left by (simp_all add: nat_less_iff)
  with forget_ok [OF ok v c, of left "\<lambda>_. False" ino ino] obtain s' where
    "hfuse_ll_forget (\<lambda>_. False) ino ino ino left ?t = (Inr (), s')" "lk_view s' = (lk_view ?t)(ino := None)"
    "lk_log s' = lk_log ?t @ (if to_delete ?m then [Delete_In_Alias_Group ino, Actual_Delete ino (d_type ?m)] else [])"
    using assms(7) by auto
  with r assms(6) show ?thesis by simp
qed

definition demo_lk :: lk_state where
  "demo_lk = \<lparr>lookup_table = Some ((replicate NUM_LOOKUP_ENTRIES \<lparr>entry_sem = 1, head = []\<rparr>)
     [7 := \<lparr>entry_sem = 1, head = [\<lparr>this_inode = 7, lookup_count = 1, to_delete = False, d_type = 1\<rparr>]\<rparr>]),
     lk_os = [], disk_marked = (\<lambda>_. False), lk_log = []\<rparr>"

lemma demo_lk_ok:
  "lk_ok demo_lk \<and> lk_view demo_lk 7 = Some \<lparr>this_inode = 7, lookup_count = 1, to_delete = False, d_type = 1\<rparr>"
  by (auto simp: lk_ok_def demo_lk_def lk_heads_def lk_view_def lk_tab_def lk.contents_def lk.wf_tab_def lk_slot_def
      map_update nth_list_update dest!: subsetD [OF set_update_subset_insert])

theorem deleted_when_forgotten_witness:
  "lk_log (lk_do 7 1 (Lk_Forget 3) (fold (lk_do 7 1) [Lk_Increase 4, Lk_Mark, Lk_Forget 2] demo_lk)) =
    [Delete_In_Alias_Group 7, Actual_Delete 7 1]"
proof -
  from demo_lk_ok have k: "lk_ok demo_lk"
    "lk_view demo_lk 7 = Some \<lparr>this_inode = 7, lookup_count = 1, to_delete = False, d_type = 1\<rparr>" by simp_all
  show ?thesis
    using deleted_when_forgotten [OF k, of "[Lk_Increase 4, Lk_Mark, Lk_Forget 2]" 3 1] by (simp add: demo_lk_def)
qed

end
