(* ===== verification/B64.thy ===== *)
theory B64
  imports HCFS_Prelude
begin

text \<open>
  Base64, \<^verbatim>\<open>src/HCFS/b64encode.c\<close>.  Bytes are natural numbers below 256, the \<^verbatim>\<open>uint64_t\<close> accumulator a
  natural number (it stays below \<open>2 ^ 24\<close>); stores into \<^verbatim>\<open>uint8_t\<close> are taken modulo 256.  The encoder's loop over
  the padded copy is compared with a reference that recurses over the input in groups of three, and the decoder is
  shown to write the input back.
\<close>

unbundle bit_operations_syntax

subsection \<open>Encoding\<close>

definition base64_codes :: string where
  "base64_codes = ''ABCDEFGHIJKLMNOPQRSTUVWXYZabcdefghijklmnopqrstuvwxyz0123456789+/''"

definition padded_len :: "nat \<Rightarrow> nat" where
  "padded_len n = ((n + 2) div 3) * 3"

text \<open>\<^verbatim>\<open>tmpstr\<close>: the input, filled with zeros.\<close>

definition tmpstr :: "nat list \<Rightarrow> nat list" where
  "tmpstr inputstr = inputstr @ replicate (1 + padded_len (length inputstr) - length inputstr) 0"

definition enc_tmp :: "nat \<Rightarrow> nat \<Rightarrow> nat \<Rightarrow> nat" where
  "enc_tmp a b c = push_bit 16 a + push_bit 8 b + c"

definition enc_step :: "nat list \<Rightarrow> nat \<Rightarrow> nat \<Rightarrow> string" where
  "enc_step t origin_str_len i =
     (let tmp = enc_tmp (t ! i) (t ! (i + 1)) (t ! (i + 2)) in
      [base64_codes ! drop_bit 18 (tmp AND 0xFC0000), base64_codes ! drop_bit 12 (tmp AND 0x3F000)] @
      (if i + 1 \<ge> origin_str_len then ''==''
       else [base64_codes ! drop_bit 6 (tmp AND 0xFC0)] @
         (if i + 2 \<ge> origin_str_len then ''='' else [base64_codes ! (tmp AND 0x3F)])))"

function enc_loop :: "nat list \<Rightarrow> nat \<Rightarrow> nat \<Rightarrow> string" where
  "enc_loop t n i = (if i < padded_len n then enc_step t n i @ enc_loop t n (i + 3) else [])"
  by pat_completeness auto
termination by (relation "measure (\<lambda>(t, n, i). padded_len n - i)") auto

declare enc_loop.simps [simp del]

text \<open>The encoded string, or the error when there is no memory for the copy.\<close>

definition b64encode_str :: "bool \<Rightarrow> nat list \<Rightarrow> errno + string" where
  "b64encode_str malloc_ok inputstr =
     (if \<not> malloc_ok then Inl ENOMEM else Inr (enc_loop (tmpstr inputstr) (length inputstr) 0))"

subsection \<open>Decoding\<close>

definition code :: "char \<Rightarrow> int" where
  "code c = of_char c"

definition decode_table :: "char \<Rightarrow> int" where
  "decode_table c =
     (if code CHR ''A'' \<le> code c \<and> code c \<le> code CHR ''Z'' then code c - code CHR ''A''
      else if code CHR ''a'' \<le> code c \<and> code c \<le> code CHR ''z'' then code c - code CHR ''a'' + 26
      else if code CHR ''0'' \<le> code c \<and> code c \<le> code CHR ''9'' then code c - code CHR ''0'' + 52
      else if c = CHR ''+'' then 62
      else if c = CHR ''/'' then 63
      else if c = CHR 0x0A \<or> c = CHR 0x0D \<or> c = CHR 0x09 \<or> c = CHR '' '' \<or> c = CHR ''='' \<or> c = CHR 0x00 then 64
      else - 1)"

definition out1 :: "nat \<Rightarrow> nat \<Rightarrow> nat" where "out1 b0 b1 = (push_bit 2 b0 + drop_bit 4 (b1 AND 0x30)) mod 256"
definition out2 :: "nat \<Rightarrow> nat \<Rightarrow> nat" where "out2 b1 b2 = (push_bit 4 b1 + drop_bit 2 b2) mod 256"
definition out3 :: "nat \<Rightarrow> nat \<Rightarrow> nat" where "out3 b2 b3 = (push_bit 6 b2 + b3) mod 256"

text \<open>
  The loop: input left, bytes written, \<^verbatim>\<open>buf\<close> up to \<^verbatim>\<open>group_count\<close>.  The result is the return code, or
  what was written with \<^verbatim>\<open>*outlen\<close>.
\<close>

fun dec_loop :: "string \<Rightarrow> nat list \<Rightarrow> nat list \<Rightarrow> int + nat list \<times> int" where
  "dec_loop [] out buf = (case buf of
       [b0, b1, b2] \<Rightarrow> (let o' = out @ [out1 b0 b1, out2 b1 b2, push_bit 6 b2 mod 256] in Inr (o', int (length o') - 1))
     | [b0, b1] \<Rightarrow> (let o' = out @ [out1 b0 b1, push_bit 4 b1 mod 256] in Inr (o', int (length o') - 1))
     | [] \<Rightarrow> Inr (out, int (length out) - 1)
     | _ \<Rightarrow> Inl (- 2))"
| "dec_loop (c # cs) out buf =
     (let d = decode_table c in
      if d = - 1 then Inl (- 1)
      else if d = 64 then dec_loop cs out buf
      else (case buf @ [nat d] of
          [b0, b1, b2, b3] \<Rightarrow> dec_loop cs (out @ [out1 b0 b1, out2 b1 b2, out3 b2 b3]) []
        | buf' \<Rightarrow> dec_loop cs out buf'))"

definition b64decode_str :: "string \<Rightarrow> int + nat list \<times> int" where
  "b64decode_str inputstr = dec_loop inputstr [] []"

subsection \<open>Reference\<close>

fun b64_ref :: "nat list \<Rightarrow> string" where
  "b64_ref [] = []"
| "b64_ref [a] = [base64_codes ! (a div 4), base64_codes ! (a mod 4 * 16)] @ ''==''"
| "b64_ref [a, b] = [base64_codes ! (a div 4), base64_codes ! (a mod 4 * 16 + b div 16), base64_codes ! (b mod 16 * 4)] @ ''=''"
| "b64_ref (a # b # c # xs) = [base64_codes ! (a div 4), base64_codes ! (a mod 4 * 16 + b div 16),
     base64_codes ! (b mod 16 * 4 + c div 64), base64_codes ! (c mod 64)] @ b64_ref xs"

lemma drop_and_field: "drop_bit n (x AND push_bit n (mask k)) = take_bit k (drop_bit n (x :: nat))"
  by (rule bit_eqI) (auto simp: bit_simps)

lemma enc_fields:
  assumes "a < 256" "b < 256" "c < 256"
  shows "drop_bit 18 (enc_tmp a b c AND 0xFC0000) = a div 4"
    and "drop_bit 12 (enc_tmp a b c AND 0x3F000) = a mod 4 * 16 + b div 16"
    and "drop_bit 6 (enc_tmp a b c AND 0xFC0) = b mod 16 * 4 + c div 64"
    and "enc_tmp a b c AND 0x3F = c mod 64"
proof -
  have t: "enc_tmp a b c = a * 65536 + b * 256 + c" by (simp add: enc_tmp_def push_bit_eq_mult)
  have m: "0xFC0000 = (push_bit 18 (mask 6) :: nat)" "0x3F000 = (push_bit 12 (mask 6) :: nat)"
    "0xFC0 = (push_bit 6 (mask 6) :: nat)" "0x3F = (mask 6 :: nat)"
    by (simp_all add: mask_eq_exp_minus_1 push_bit_eq_mult)
  show "drop_bit 18 (enc_tmp a b c AND 0xFC0000) = a div 4"
    unfolding m(1) drop_and_field t using assms by (simp add: take_bit_eq_mod drop_bit_eq_div)
  have "(a * 65536 + b * 256 + c) div 4096 = a * 16 + b div 16" using assms by linarith
  moreover have "(a * 16 + b div 16) mod 64 = a mod 4 * 16 + b div 16"
  proof -
    have "a * 16 + b div 16 = (a mod 4 * 16 + b div 16) + a div 4 * 64"
      using div_mult_mod_eq [of a 4] by linarith
    moreover have "a mod 4 * 16 + b div 16 < 64" using assms by linarith
    ultimately show ?thesis by (simp only: mod_mult_self1 mod_less)
  qed
  ultimately show "drop_bit 12 (enc_tmp a b c AND 0x3F000) = a mod 4 * 16 + b div 16"
    unfolding m(2) drop_and_field t by (simp add: take_bit_eq_mod drop_bit_eq_div)
  have "(a * 65536 + b * 256 + c) div 64 = a * 1024 + b * 4 + c div 64" by linarith
  moreover have "b * 4 = b mod 16 * 4 + b div 16 * 64" by presburger
  ultimately have "(a * 65536 + b * 256 + c) div 64 = (b mod 16 * 4 + c div 64) + (a * 16 + b div 16) * 64"
    by simp
  moreover have "b mod 16 * 4 + c div 64 < 64" using assms by linarith
  ultimately have "(a * 65536 + b * 256 + c) div 64 mod 64 = b mod 16 * 4 + c div 64"
    by (simp only: mod_mult_self1 mod_less)
  then show "drop_bit 6 (enc_tmp a b c AND 0xFC0) = b mod 16 * 4 + c div 64"
    unfolding m(3) drop_and_field t by (simp add: take_bit_eq_mod drop_bit_eq_div)
  have "a * 65536 + b * 256 + c = c + (a * 1024 + b * 4) * 64" by simp
  then have "(a * 65536 + b * 256 + c) mod 64 = c mod 64" by (simp only: mod_mult_self1)
  then show "enc_tmp a b c AND 0x3F = c mod 64"
    unfolding m(4) t by (simp flip: take_bit_eq_mask add: take_bit_eq_mod)
qed

subsection \<open>The encoder is the reference\<close>

lemma padded_len_bounds: "n \<le> padded_len n" "padded_len n \<le> n + 2" "padded_len n mod 3 = 0"
  unfolding padded_len_def by (linarith, linarith, simp)

lemma tmpstr_nth:
  "i < length xs \<Longrightarrow> tmpstr xs ! i = xs ! i"
  "length xs \<le> i \<Longrightarrow> i < 1 + padded_len (length xs) \<Longrightarrow> tmpstr xs ! i = 0"
  by (auto simp: tmpstr_def nth_append)

text \<open>One group, from the position of its first byte.\<close>

lemma enc_step_group:
  assumes i: "i < length xs" and m3: "i mod 3 = 0" and bytes: "\<forall>x \<in> set xs. x < 256"
  shows "enc_step (tmpstr xs) (length xs) i = b64_ref (take 3 (drop i xs))"
proof -
  have p: "i + 2 < 1 + padded_len (length xs)"
    using i m3 padded_len_bounds(1,3) [of "length xs"] by presburger
  have a: "tmpstr xs ! i = xs ! i" "xs ! i < 256" using i by (simp_all add: tmpstr_nth bytes)
  consider "length xs = i + 1" | "length xs = i + 2" | "i + 2 < length xs" using i by linarith
  then show ?thesis
  proof cases
    case 1
    then have "take 3 (drop i xs) = [xs ! i]" by (simp add: Cons_nth_drop_Suc [symmetric] numeral_3_eq_3)
    moreover have "tmpstr xs ! (i + 1) = 0" "tmpstr xs ! (i + 2) = 0"
      using 1 p by (simp_all add: tmpstr_nth)
    ultimately show ?thesis using 1 a enc_fields [of "xs ! i" 0 0] by (simp add: enc_step_def)
  next
    case 2
    then have "take 3 (drop i xs) = [xs ! i, xs ! (i + 1)]"
      by (simp add: Cons_nth_drop_Suc [symmetric] numeral_3_eq_3)
    moreover have "tmpstr xs ! (i + 1) = xs ! (i + 1)" "xs ! (i + 1) < 256" using 2 by (simp_all add: tmpstr_nth bytes)
    moreover have "tmpstr xs ! (i + 2) = 0" using 2 p by (simp add: tmpstr_nth)
    ultimately show ?thesis using 2 a enc_fields [of "xs ! i" "xs ! (i + 1)" 0] by (simp add: enc_step_def)
  next
    case 3
    then have "take 3 (drop i xs) = [xs ! i, xs ! (i + 1), xs ! (i + 2)]"
      by (simp add: Cons_nth_drop_Suc [symmetric] numeral_3_eq_3)
    moreover have "tmpstr xs ! (i + 1) = xs ! (i + 1)" "tmpstr xs ! (i + 2) = xs ! (i + 2)"
      "xs ! (i + 1) < 256" "xs ! (i + 2) < 256" using 3 by (simp_all add: tmpstr_nth bytes)
    ultimately show ?thesis
      using 3 a enc_fields [of "xs ! i" "xs ! (i + 1)" "xs ! (i + 2)"] by (simp add: enc_step_def)
  qed
qed

lemma b64_ref_split: "b64_ref xs = b64_ref (take 3 xs) @ b64_ref (drop 3 xs)"
  by (cases xs rule: b64_ref.cases) simp_all

lemma enc_loop_ref:
  assumes bytes: "\<forall>x \<in> set xs. x < 256" and "i mod 3 = 0"
  shows "enc_loop (tmpstr xs) (length xs) i = b64_ref (drop i xs)"
  using assms(2)
proof (induction "length xs - i" arbitrary: i rule: less_induct)
  case less
  show ?case
  proof (cases "i < length xs")
    case True
    then have "i < padded_len (length xs)" using padded_len_bounds(1) [of "length xs"] by linarith
    moreover have "enc_loop (tmpstr xs) (length xs) (i + 3) = b64_ref (drop (i + 3) xs)"
      using True less.prems by (intro less.hyps) presburger+
    ultimately show ?thesis
      using enc_step_group [OF True less.prems bytes] b64_ref_split [of "drop i xs"]
      by (simp add: enc_loop.simps [of _ _ i] add.commute)
  next
    case False
    then have "\<not> i < padded_len (length xs)"
      using less.prems padded_len_bounds [of "length xs"] by presburger
    with False show ?thesis by (simp add: enc_loop.simps [of _ _ i])
  qed
qed

subsection \<open>Decoding the reference\<close>

lemma decode_codes: "k < 64 \<Longrightarrow> decode_table (base64_codes ! k) = int k"
proof -
  have "list_all (\<lambda>k. decode_table (base64_codes ! k) = int k) [0..<64]" by code_simp
  then show "k < 64 \<Longrightarrow> decode_table (base64_codes ! k) = int k" by (simp add: list_all_iff)
qed

lemma decode_pad: "decode_table CHR ''='' = 64"
  by code_simp

lemma out_bytes:
  assumes "a < 256" "b < 256" "c < 256"
  shows "out1 (a div 4) (a mod 4 * 16 + b div 16) = a" "out2 (a mod 4 * 16 + b div 16) (b mod 16 * 4 + c div 64) = b"
    "out3 (b mod 16 * 4 + c div 64) (c mod 64) = c"
proof -
  have m: "0x30 = (push_bit 4 (mask 2) :: nat)" by (simp add: mask_eq_exp_minus_1 push_bit_eq_mult)
  show "out1 (a div 4) (a mod 4 * 16 + b div 16) = a"
    unfolding out1_def m drop_and_field using assms by (simp add: take_bit_eq_mod drop_bit_eq_div push_bit_eq_mult)
  show "out2 (a mod 4 * 16 + b div 16) (b mod 16 * 4 + c div 64) = b" "out3 (b mod 16 * 4 + c div 64) (c mod 64) = c"
    unfolding out2_def out3_def push_bit_eq_mult drop_bit_eq_div using assms by simp_all
qed

lemma sextets:
  fixes a b c :: nat
  assumes "a < 256" "b < 256" "c < 256"
  shows "a div 4 < 64" "a mod 4 * 16 < 64" "a mod 4 * 16 + b div 16 < 64" "b mod 16 * 4 < 64"
    "b mod 16 * 4 + c div 64 < 64" "c mod 64 < 64"
  using assms by linarith+

text \<open>Complete and incomplete groups of characters.\<close>

lemma dec_loop_4:
  "w < 64 \<Longrightarrow> x < 64 \<Longrightarrow> y < 64 \<Longrightarrow> z < 64 \<Longrightarrow>
    dec_loop ([base64_codes ! w, base64_codes ! x, base64_codes ! y, base64_codes ! z] @ cs) out [] =
      dec_loop cs (out @ [out1 w x, out2 x y, out3 y z]) []"
  by (simp add: decode_codes Let_def)

lemma dec_loop_3:
  "w < 64 \<Longrightarrow> x < 64 \<Longrightarrow> y < 64 \<Longrightarrow> dec_loop ([base64_codes ! w, base64_codes ! x, base64_codes ! y] @ ''='') out [] =
    Inr (out @ [out1 w x, out2 x y, push_bit 6 y mod 256], int (length out) + 2)"
  by (simp add: decode_codes decode_pad Let_def)

lemma dec_loop_2:
  "w < 64 \<Longrightarrow> x < 64 \<Longrightarrow> dec_loop ([base64_codes ! w, base64_codes ! x] @ ''=='') out [] =
    Inr (out @ [out1 w x, push_bit 4 x mod 256], int (length out) + 1)"
  by (simp add: decode_codes decode_pad Let_def)

lemma out_tail:
  assumes "a < 256" "b < 256"
  shows "out1 (a div 4) (a mod 4 * 16) = a" "out2 (a mod 4 * 16 + b div 16) (b mod 16 * 4) = b"
  using out_bytes(1) [of a 0 0] out_bytes(2) [of a b 0] assms by simp_all

lemma dec_loop_ref:
  assumes "\<forall>x \<in> set xs. x < 256"
  shows "\<exists>z. dec_loop (b64_ref xs) out [] =
    Inr (out @ xs @ z, int (length out) + int (length xs) - (if length xs mod 3 = 0 then 1 else 0))"
  using assms
proof (induction xs arbitrary: out rule: b64_ref.induct)
  case 1
  show ?case by simp
next
  case (2 a)
  then have "a < 256" by simp
  with dec_loop_2 [of "a div 4" "a mod 4 * 16" out] sextets [of a 0 0] out_tail(1) [of a 0] show ?case by simp
next
  case (3 a b)
  then have "a < 256" "b < 256" by simp_all
  with dec_loop_3 [of "a div 4" "a mod 4 * 16 + b div 16" "b mod 16 * 4" out] sextets [of a b 0] out_tail(2) [of a b]
    out_bytes(1) [of a b 0] show ?case by simp
next
  case (4 a b c xs)
  then have l: "a < 256" "b < 256" "c < 256" "\<forall>x \<in> set xs. x < 256" by simp_all
  have "dec_loop (b64_ref (a # b # c # xs)) out [] = dec_loop (b64_ref xs) (out @ [a, b, c]) []"
    unfolding b64_ref.simps using sextets [OF l(1-3)] by (subst dec_loop_4) (simp_all add: out_bytes [OF l(1-3)])
  with 4(1) [OF l(4), of "out @ [a, b, c]"] show ?case by auto
qed

subsection \<open>Properties\<close>

text \<open>
  C17: The encoder, which works on a zero-filled copy by masks and shifts, equals the reference encoding in groups of three
  bytes, for every input; without memory it returns ENOMEM.
\<close>

theorem b64encode_reference:
  assumes "\<forall>x \<in> set xs. x < 256"
  shows "b64encode_str malloc_ok xs = (if malloc_ok then Inr (b64_ref xs) else Inl ENOMEM)"
  using enc_loop_ref [OF assms, of 0] by (simp add: b64encode_str_def)

theorem b64encode_reference_witness: "b64encode_str True [77, 97] = Inr ''TWE=''"
  using b64encode_reference [of "[77, 97]" True] by (simp add: base64_codes_def)

text \<open>
  C16: Decoding an encoded input succeeds and writes the input back at the start of the output buffer.  The length it reports is
  the length of the input, except for an input whose length is a multiple of three: there it is one too small
  (the final \<^verbatim>\<open>out_index - 1\<close> assumes the extra byte that only an incomplete group writes).
\<close>

theorem b64_roundtrip:
  assumes "\<forall>x \<in> set xs. x < 256" and "b64encode_str True xs = Inr cs"
  shows "\<exists>out len. b64decode_str cs = Inr (out, len) \<and> take (length xs) out = xs \<and>
    len = int (length xs) - (if length xs mod 3 = 0 then 1 else 0)"
proof -
  have "cs = b64_ref xs" using assms(2) enc_loop_ref [OF assms(1), of 0] by (simp add: b64encode_str_def)
  with dec_loop_ref [OF assms(1), of "[]"] show ?thesis by (auto simp: b64decode_str_def)
qed

theorem b64_roundtrip_witness:
  "\<exists>out len. b64decode_str ''TWE='' = Inr (out, len) \<and> take 2 out = [77, 97] \<and> len = 2"
proof -
  have "b64encode_str True [77, 97] = Inr ''TWE=''"
    using enc_loop_ref [of "[77, 97]" 0] by (simp add: b64encode_str_def base64_codes_def)
  from b64_roundtrip [OF _ this] show ?thesis by (simp add: numeral_2_eq_2)
qed

end
