(* ===== verification/Fuse_Notify.thy ===== *)
theory Fuse_Notify
  imports Buckets
begin

text \<open>
  The queue of notifications to the kernel, \<^verbatim>\<open>src/HCFS/fuse_notify.c\<close>: a ring buffer of 1024 slots that
  overflows into a linked list, filled by the FUSE threads and emptied by the notify thread.  The two views of one
  buffer entry (a deletion, an invalidation) are the constructors of a datatype; a pointer to a name is an option, \<open>None\<close> after
  \<^verbatim>\<open>free\<close>.  Allocations take the next outcome of a script; the calls into libfuse are logged, their result is the
  argument \<open>libfuse\<close>.  A wait on a semaphore at zero ends in \<open>Hang\<close>.
\<close>

abbreviation (input) FUSE_NOTIFY_RINGBUF_MAXLEN :: nat where "FUSE_NOTIFY_RINGBUF_MAXLEN \<equiv> 1024"
abbreviation (input) MP_TYPE_NUM :: nat where "MP_TYPE_NUM \<equiv> 3"

subsection \<open>Data\<close>

datatype FUSE_NOTIFY_PROTO =
    NOOP
  | DELETE (ch: nat) (parent: ino_t) (child: ino_t) (name: "string option") (namelen: nat)
  | INVAL_ENT (ch: nat) (parent: ino_t) (name: "string option") (namelen: nat)

record FUES_NOTIFY_SHARED_DATA =
  ring_buf :: "FUSE_NOTIFY_PROTO list"
  linked_list :: "FUSE_NOTIFY_PROTO list"
  nf_len :: nat
  nf_in :: nat
  nf_out :: nat
  not_empty :: nat
  access_sem :: nat
  system_going_down :: bool
  nf_os :: "io_outcome list"
  nf_sent :: "FUSE_NOTIFY_PROTO list"

subsection \<open>The buffer\<close>

definition inc_buf_idx :: "nat \<Rightarrow> nat" where
  "inc_buf_idx x = (if x + 1 = FUSE_NOTIFY_RINGBUF_MAXLEN then 0 else x + 1)"

definition nf_call :: "(FUES_NOTIFY_SHARED_DATA, unit) sm" where
  "nf_call = (\<lambda>s. (case nf_os s of IO_Err e # _ \<Rightarrow> Inl (Errno e) | _ \<Rightarrow> Inr (), s\<lparr>nf_os := tl (nf_os s)\<rparr>))"

definition nf_malloc :: "(FUES_NOTIFY_SHARED_DATA, bool) sm" where
  "nf_malloc = alloc nf_os nf_os_update"

definition init_notify_buf :: "(FUES_NOTIFY_SHARED_DATA, unit) sm" where
  "init_notify_buf =
     bindE (modifyE (\<lambda>s. s\<lparr>ring_buf := replicate FUSE_NOTIFY_RINGBUF_MAXLEN NOOP, linked_list := [],
       nf_len := 0, nf_in := FUSE_NOTIFY_RINGBUF_MAXLEN - 1, nf_out := 0, not_empty := 0, access_sem := 0\<rparr>)) (\<lambda>_.
     bindE nf_call (\<lambda>_. bindE (modifyE (not_empty_update (\<lambda>_. 0))) (\<lambda>_.
     bindE nf_call (\<lambda>_. modifyE (access_sem_update (\<lambda>_. 1))))))"

text \<open>The results of the two enqueue functions are their return codes.\<close>

definition linked_list_enqueue :: "FUSE_NOTIFY_PROTO \<Rightarrow> (FUES_NOTIFY_SHARED_DATA, int) sm" where
  "linked_list_enqueue d = bindE nf_malloc (\<lambda>node_ok. if \<not> node_ok then returnE (- 1)
     else bindE nf_malloc (\<lambda>data_ok. if \<not> data_ok then returnE (- 1)
     else bindE (modifyE (linked_list_update (\<lambda>l. l @ [d]))) (\<lambda>_. returnE 0)))"

definition put_ring :: "FUSE_NOTIFY_PROTO \<Rightarrow> FUES_NOTIFY_SHARED_DATA \<Rightarrow> FUES_NOTIFY_SHARED_DATA" where
  "put_ring d s = (let i = inc_buf_idx (nf_in s) in s\<lparr>nf_in := i, ring_buf := (ring_buf s)[i := d]\<rparr>)"

definition ring_buffer_enqueue :: "FUSE_NOTIFY_PROTO \<Rightarrow> (FUES_NOTIFY_SHARED_DATA, int) sm" where
  "ring_buffer_enqueue d = bindE (modifyE (put_ring d)) (\<lambda>_. returnE 0)"

definition notify_buf_enqueue :: "FUSE_NOTIFY_PROTO \<Rightarrow> (FUES_NOTIFY_SHARED_DATA, int) sm" where
  "notify_buf_enqueue d = (\<lambda>s0. if system_going_down s0 then (Inr (- 1), s0)
     else bindE (sem_wait access_sem access_sem_update) (\<lambda>_ s1.
       bindE (if nf_len s1 \<ge> FUSE_NOTIFY_RINGBUF_MAXLEN then linked_list_enqueue d else ring_buffer_enqueue d) (\<lambda>ret.
       if ret < 0 then bindE (sem_post access_sem_update) (\<lambda>_. returnE ret)
       else bindE (modifyE (nf_len_update Suc)) (\<lambda>_.
         bindE (\<lambda>s. if nf_len s = 1 then sem_post not_empty_update s else (Inr (), s)) (\<lambda>_.
         bindE (sem_post access_sem_update) (\<lambda>_. returnE ret)))) s1) s0)"

definition linked_list_dequeue :: "(FUES_NOTIFY_SHARED_DATA, FUSE_NOTIFY_PROTO) sm" where
  "linked_list_dequeue = (\<lambda>s. (Inr (hd (linked_list s)), s\<lparr>linked_list := tl (linked_list s)\<rparr>))"

definition ring_buffer_dequeue :: "(FUES_NOTIFY_SHARED_DATA, FUSE_NOTIFY_PROTO option) sm" where
  "ring_buffer_dequeue = bindE nf_malloc (\<lambda>ok. if \<not> ok then returnE None
     else (\<lambda>s. (Inr (Some (ring_buf s ! nf_out s)), s\<lparr>nf_out := inc_buf_idx (nf_out s)\<rparr>)))"

text \<open>
  The body of the loop once there is something to take, and the loop: each turn with an empty
  buffer consumes one count of \<^verbatim>\<open>not_empty\<close>, the next one at zero waits.  \<^verbatim>\<open>access_sem\<close> is given back at the end whatever
  ended the loop.
\<close>

definition take_one :: "(FUES_NOTIFY_SHARED_DATA, FUSE_NOTIFY_PROTO option) sm" where
  "take_one = bindE ring_buffer_dequeue (\<lambda>d. case d of None \<Rightarrow> returnE None
     | Some p \<Rightarrow> bindE (modifyE (nf_len_update (\<lambda>n. n - 1))) (\<lambda>_ s.
         if linked_list s \<noteq> [] then bindE linked_list_dequeue (\<lambda>t. bindE (ring_buffer_enqueue t) (\<lambda>_. returnE (Some p))) s
         else (Inr (Some p), s)))"

function dequeue_loop :: "(FUES_NOTIFY_SHARED_DATA, FUSE_NOTIFY_PROTO option) sm" where
  "dequeue_loop s = (if system_going_down s then (Inr None, s)
     else if access_sem s = 0 then (Inl Hang, s)
     else if nf_len s = 0 then
       (if not_empty s = 0 then (Inl Hang, s) else dequeue_loop (s\<lparr>not_empty := not_empty s - 1\<rparr>))
     else take_one (s\<lparr>access_sem := access_sem s - 1\<rparr>))"
  by pat_completeness auto
termination by (relation "measure not_empty") auto

declare dequeue_loop.simps [simp del]

definition notify_buf_dequeue :: "(FUES_NOTIFY_SHARED_DATA, FUSE_NOTIFY_PROTO option) sm" where
  "notify_buf_dequeue = bindE dequeue_loop (\<lambda>d. bindE (sem_post access_sem_update) (\<lambda>_. returnE d))"

subsection \<open>Sending\<close>

definition free_name :: "FUSE_NOTIFY_PROTO \<Rightarrow> FUSE_NOTIFY_PROTO" where
  "free_name d = (case d of NOOP \<Rightarrow> NOOP | DELETE c p k n l \<Rightarrow> DELETE c p k None l | INVAL_ENT c p n l \<Rightarrow> INVAL_ENT c p None l)"

text \<open>
  \<^verbatim>\<open>notify_fn[func](data, RUN)\<close>: the call into libfuse and the return code; ENOENT is no error.
\<close>

definition run_notify :: "(FUSE_NOTIFY_PROTO \<Rightarrow> int) \<Rightarrow> FUSE_NOTIFY_PROTO \<Rightarrow> (FUES_NOTIFY_SHARED_DATA, int) sm" where
  "run_notify libfuse d = (case d of
     NOOP \<Rightarrow> returnE 0
   | _ \<Rightarrow> bindE (modifyE (nf_sent_update (\<lambda>l. l @ [d]))) (\<lambda>_. returnE (if libfuse d = - ENOENT then 0 else libfuse d)))"

text \<open>One turn of \<^verbatim>\<open>hfuse_ll_notify_loop\<close>; the result says whether the loop goes on.\<close>

definition notify_loop_turn :: "(FUSE_NOTIFY_PROTO \<Rightarrow> int) \<Rightarrow> (FUES_NOTIFY_SHARED_DATA, bool) sm" where
  "notify_loop_turn libfuse = bindE notify_buf_dequeue (\<lambda>d s.
     if system_going_down s then (Inr False, s)
     else (case d of None \<Rightarrow> (Inr True, s) | Some p \<Rightarrow> bindE (run_notify libfuse p) (\<lambda>_. returnE True) s))"

text \<open>
  \<^verbatim>\<open>destory_notify_buf\<close> frees the names in the slots it passes, \<^verbatim>\<open>notify.len\<close> of them from \<^verbatim>\<open>notify.out\<close> on.
\<close>

fun destroy_slots :: "nat \<Rightarrow> nat \<Rightarrow> FUSE_NOTIFY_PROTO list \<Rightarrow> FUSE_NOTIFY_PROTO list" where
  "destroy_slots 0 idx r = r"
| "destroy_slots (Suc n) idx r = destroy_slots n (inc_buf_idx idx) (r[idx := free_name (r ! idx)])"

definition destory_notify_buf :: "FUES_NOTIFY_SHARED_DATA \<Rightarrow> FUES_NOTIFY_SHARED_DATA" where
  "destory_notify_buf s = s\<lparr>ring_buf := destroy_slots (nf_len s) (nf_out s) (ring_buf s)\<rparr>"

subsection \<open>Requests\<close>

text \<open>\<^verbatim>\<open>strndup\<close>: at most \<open>n\<close> characters of the name.\<close>

definition strndup :: "string \<Rightarrow> nat \<Rightarrow> (FUES_NOTIFY_SHARED_DATA, string option) sm" where
  "strndup s n = bindE nf_malloc (\<lambda>ok. returnE (if ok then Some (take n s) else None))"

definition hfuse_ll_notify_delete ::
  "nat \<Rightarrow> ino_t \<Rightarrow> ino_t \<Rightarrow> string option \<Rightarrow> nat \<Rightarrow> (FUES_NOTIFY_SHARED_DATA, int) sm" where
  "hfuse_ll_notify_delete c p k nm l = (case nm of None \<Rightarrow> returnE (- 1)
     | Some n \<Rightarrow> bindE (strndup n l) (\<lambda>e. case e of None \<Rightarrow> returnE (- ENOMEM)
         | Some n' \<Rightarrow> notify_buf_enqueue (DELETE c p k (Some n') l)))"

text \<open>The loop over the mounted views; \<open>chs\<close> are the channels of the views, \<open>None\<close> where nothing is mounted.\<close>

fun notify_views ::
  "nat option list \<Rightarrow> bool \<Rightarrow> nat \<Rightarrow> ino_t \<Rightarrow> ino_t \<Rightarrow> string \<Rightarrow> nat \<Rightarrow> (FUES_NOTIFY_SHARED_DATA, int) sm" where
  "notify_views [] same c p k n l = returnE 0"
| "notify_views (v # vs) same c p k n l = (case v of
     None \<Rightarrow> notify_views vs same c p k n l
   | Some d \<Rightarrow> if same \<and> d = c then notify_views vs same c p k n l
       else bindE (hfuse_ll_notify_delete d p k (Some n) l) (\<lambda>ret.
         if ret < 0 then returnE ret else notify_views vs same c p k n l))"

definition hfuse_ll_notify_delete_mp ::
  "nat option list \<Rightarrow> nat \<Rightarrow> ino_t \<Rightarrow> ino_t \<Rightarrow> string \<Rightarrow> nat \<Rightarrow> string \<Rightarrow> (FUES_NOTIFY_SHARED_DATA, int) sm" where
  "hfuse_ll_notify_delete_mp chs c p k n l selfname = notify_views (take MP_TYPE_NUM chs) (n = selfname) c p k n l"

definition hfuse_ll_notify_inval_ent :: "nat \<Rightarrow> ino_t \<Rightarrow> string \<Rightarrow> nat \<Rightarrow> (FUES_NOTIFY_SHARED_DATA, int) sm" where
  "hfuse_ll_notify_inval_ent c p n l = bindE (strndup n l) (\<lambda>e. case e of None \<Rightarrow> returnE (- ENOMEM)
     | Some n' \<Rightarrow> notify_buf_enqueue (INVAL_ENT c p (Some n') l))"

subsection \<open>The contract of a queue\<close>

text \<open>
  What the threads rely on: entries come out in the order in which they went in.  \<open>enq\<close> reports 0, \<open>deq\<close> gives the oldest entry and
  waits when there is none.
\<close>

datatype 'a fifo_op = Enq 'a | Deq

fun list_fifo :: "'a fifo_op list \<Rightarrow> 'a list \<Rightarrow> 'a option list \<times> 'a list" where
  "list_fifo [] q = ([], q)"
| "list_fifo (Enq x # ps) q = (case list_fifo ps (q @ [x]) of (rs, q') \<Rightarrow> (None # rs, q'))"
| "list_fifo (Deq # ps) q = (case q of [] \<Rightarrow> ([], []) | x # q' \<Rightarrow>
     (case list_fifo ps q' of (rs, q'') \<Rightarrow> (Some x # rs, q'')))"

locale fifo =
  fixes good :: "'s \<Rightarrow> bool" and view :: "'s \<Rightarrow> 'a list"
    and enq :: "'a \<Rightarrow> ('s, int) sm" and deq :: "('s, 'a option) sm"
  assumes enq_law: "good s \<Longrightarrow> \<exists>s'. enq x s = (Inr 0, s') \<and> good s' \<and> view s' = view s @ [x]"
    and deq_law: "good s \<Longrightarrow> view s = x # q \<Longrightarrow> \<exists>s'. deq s = (Inr (Some x), s') \<and> good s' \<and> view s' = q"
    and deq_wait: "good s \<Longrightarrow> view s = [] \<Longrightarrow> \<exists>s'. deq s = (Inl Hang, s')"
begin

text \<open>The results of a sequence of calls, each with the state it leaves, up to the first that does not return.\<close>

fun fifo_run :: "'a fifo_op list \<Rightarrow> 's \<Rightarrow> ('a option \<times> 's) list" where
  "fifo_run [] s = []"
| "fifo_run (Enq x # ps) s = (case enq x s of (Inr _, s') \<Rightarrow> (None, s') # fifo_run ps s' | (Inl _, s') \<Rightarrow> [])"
| "fifo_run (Deq # ps) s = (case deq s of (Inr d, s') \<Rightarrow> (d, s') # fifo_run ps s' | (Inl _, s') \<Rightarrow> [])"

lemma fifo_run_list: "good s \<Longrightarrow> map fst (fifo_run ps s) = fst (list_fifo ps (view s)) \<and> (\<forall>u \<in> set (map snd (fifo_run ps s)). good u)"
proof (induction ps arbitrary: s)
  case (Cons p ps)
  show ?case
  proof (cases p)
    case (Enq x)
    obtain s' where e: "enq x s = (Inr 0, s')" "good s'" "view s' = view s @ [x]" using enq_law [OF Cons.prems] by blast
    show ?thesis using Cons.IH [OF e(2)] e by (simp add: Enq split_beta)
  next
    case Deq
    show ?thesis
    proof (cases "view s")
      case Nil
      with deq_wait [OF Cons.prems] show ?thesis by (auto simp: Deq)
    next
      case (Cons x q)
      obtain s' where e: "deq s = (Inr (Some x), s')" "good s'" "view s' = q" using deq_law [OF \<open>good s\<close> Cons] by blast
      show ?thesis using Cons.IH [OF e(2)] e Cons by (simp add: Deq split_beta)
    qed
  qed
qed simp

end

subsection \<open>The buffer keeps it\<close>

definition slots :: "'a list \<Rightarrow> nat \<Rightarrow> nat \<Rightarrow> 'a list" where
  "slots r out n = map (\<lambda>k. r ! ((out + k) mod FUSE_NOTIFY_RINGBUF_MAXLEN)) [0..<n]"

definition nf_view :: "FUES_NOTIFY_SHARED_DATA \<Rightarrow> FUSE_NOTIFY_PROTO list" where
  "nf_view s = slots (ring_buf s) (nf_out s) (nf_len s - length (linked_list s)) @ linked_list s"

text \<open>
  Indices are inside the ring, \<open>nf_in\<close> is the slot of the youngest ring entry, and the list is used only when the ring is full.
\<close>

definition ring_ok :: "FUES_NOTIFY_SHARED_DATA \<Rightarrow> bool" where
  "ring_ok s \<longleftrightarrow> length (ring_buf s) = FUSE_NOTIFY_RINGBUF_MAXLEN \<and>
     nf_in s < FUSE_NOTIFY_RINGBUF_MAXLEN \<and> nf_out s < FUSE_NOTIFY_RINGBUF_MAXLEN \<and>
     length (linked_list s) \<le> nf_len s \<and> nf_len s - length (linked_list s) \<le> FUSE_NOTIFY_RINGBUF_MAXLEN \<and>
     (linked_list s \<noteq> [] \<longrightarrow> nf_len s - length (linked_list s) = FUSE_NOTIFY_RINGBUF_MAXLEN) \<and>
     inc_buf_idx (nf_in s) = (nf_out s + (nf_len s - length (linked_list s))) mod FUSE_NOTIFY_RINGBUF_MAXLEN"

definition nf_good :: "FUES_NOTIFY_SHARED_DATA \<Rightarrow> bool" where
  "nf_good s \<longleftrightarrow> ring_ok s \<and> access_sem s = 1 \<and> \<not> system_going_down s \<and> nf_os s = []"

lemma inc_buf_idx_mod: "x < FUSE_NOTIFY_RINGBUF_MAXLEN \<Longrightarrow> inc_buf_idx x = Suc x mod FUSE_NOTIFY_RINGBUF_MAXLEN"
  by (auto simp: inc_buf_idx_def)

lemma inc_buf_idx_less: "x < FUSE_NOTIFY_RINGBUF_MAXLEN \<Longrightarrow> inc_buf_idx x < FUSE_NOTIFY_RINGBUF_MAXLEN"
  by (auto simp: inc_buf_idx_def)

lemma mod_add_neq: "k < n \<Longrightarrow> n < m \<Longrightarrow> (x + n) mod m \<noteq> (x + k) mod (m :: nat)"
proof
  assume k: "k < n" "n < m" and e: "(x + n) mod m = (x + k) mod m"
  from e k(1) have "m dvd (x + n) - (x + k)" using mod_eq_dvd_iff_nat [of "x + k" "x + n" m] by simp
  with k show False by (auto dest: dvd_imp_le)
qed

lemma slots_put:
  assumes "n < FUSE_NOTIFY_RINGBUF_MAXLEN" and "length r = FUSE_NOTIFY_RINGBUF_MAXLEN"
  shows "slots (r[(out + n) mod FUSE_NOTIFY_RINGBUF_MAXLEN := d]) out (Suc n) = slots r out n @ [d]"
proof -
  have "r[(out + n) mod FUSE_NOTIFY_RINGBUF_MAXLEN := d] ! ((out + k) mod FUSE_NOTIFY_RINGBUF_MAXLEN) =
      r ! ((out + k) mod FUSE_NOTIFY_RINGBUF_MAXLEN)" if "k < n" for k
    using mod_add_neq [OF that assms(1), of out] by (rule nth_list_update_neq)
  then show ?thesis using assms by (simp add: slots_def)
qed

lemma slots_take:
  assumes "out < FUSE_NOTIFY_RINGBUF_MAXLEN"
  shows "slots r out (Suc n) = r ! out # slots r (inc_buf_idx out) n"
proof -
  have "(inc_buf_idx out + k) mod FUSE_NOTIFY_RINGBUF_MAXLEN = (out + Suc k) mod FUSE_NOTIFY_RINGBUF_MAXLEN" for k
    using assms by (simp add: inc_buf_idx_mod mod_simps)
  then show ?thesis using assms
    by (simp add: slots_def upt_conv_Cons map_Suc_upt [symmetric] del: upt_Suc)
qed

lemma nf_malloc_ok: "nf_os s = [] \<Longrightarrow> nf_malloc s = (Inr True, s)"
  by (simp add: nf_malloc_def alloc_def)

text \<open>Filling one free slot.\<close>

lemma put_ring_view:
  assumes ok: "ring_ok s" and free: "nf_len s < FUSE_NOTIFY_RINGBUF_MAXLEN" "linked_list s = []"
  shows "ring_ok (put_ring d s\<lparr>nf_len := Suc (nf_len s)\<rparr>)" "nf_view (put_ring d s\<lparr>nf_len := Suc (nf_len s)\<rparr>) = nf_view s @ [d]"
proof -
  have i: "inc_buf_idx (nf_in s) = (nf_out s + nf_len s) mod FUSE_NOTIFY_RINGBUF_MAXLEN"
    using ok free(2) by (simp add: ring_ok_def)
  have "inc_buf_idx ((nf_out s + nf_len s) mod FUSE_NOTIFY_RINGBUF_MAXLEN) = (nf_out s + Suc (nf_len s)) mod FUSE_NOTIFY_RINGBUF_MAXLEN"
    by (simp add: inc_buf_idx_mod mod_simps)
  then show "ring_ok (put_ring d s\<lparr>nf_len := Suc (nf_len s)\<rparr>)"
    using ok free by (simp add: ring_ok_def put_ring_def Let_def i)
  show "nf_view (put_ring d s\<lparr>nf_len := Suc (nf_len s)\<rparr>) = nf_view s @ [d]"
    using ok free slots_put [of "nf_len s" "ring_buf s" "nf_out s" d]
    by (simp add: nf_view_def put_ring_def Let_def i ring_ok_def)
qed

text \<open>Taking the oldest entry, and moving one entry from the list into the freed slot.\<close>

lemma take_view:
  assumes ok: "ring_ok s" and l: "linked_list s = []" "nf_len s = Suc n"
  shows "ring_ok (s\<lparr>nf_out := inc_buf_idx (nf_out s), nf_len := n\<rparr>)"
    "nf_view s = ring_buf s ! nf_out s # nf_view (s\<lparr>nf_out := inc_buf_idx (nf_out s), nf_len := n\<rparr>)"
proof -
  have "(inc_buf_idx (nf_out s) + n) mod FUSE_NOTIFY_RINGBUF_MAXLEN = (nf_out s + Suc n) mod FUSE_NOTIFY_RINGBUF_MAXLEN"
    using ok by (simp add: ring_ok_def inc_buf_idx_mod mod_simps)
  then show "ring_ok (s\<lparr>nf_out := inc_buf_idx (nf_out s), nf_len := n\<rparr>)"
    using ok l by (simp add: ring_ok_def inc_buf_idx_less)
  show "nf_view s = ring_buf s ! nf_out s # nf_view (s\<lparr>nf_out := inc_buf_idx (nf_out s), nf_len := n\<rparr>)"
    using ok l slots_take [of "nf_out s" "ring_buf s" n] by (simp add: nf_view_def ring_ok_def)
qed

lemma shift_view:
  assumes ok: "ring_ok s" and l: "linked_list s = x # xs"
    and t: "t = put_ring x (s\<lparr>nf_out := inc_buf_idx (nf_out s), nf_len := nf_len s - 1, linked_list := xs\<rparr>)"
  shows "ring_ok t" "nf_view s = ring_buf s ! nf_out s # nf_view t"
proof -
  have n: "nf_len s = FUSE_NOTIFY_RINGBUF_MAXLEN + Suc (length xs)" and out: "nf_out s < FUSE_NOTIFY_RINGBUF_MAXLEN"
    and r: "length (ring_buf s) = FUSE_NOTIFY_RINGBUF_MAXLEN" and i: "inc_buf_idx (nf_in s) = nf_out s"
    using ok l by (auto simp: ring_ok_def)
  have o1: "(inc_buf_idx (nf_out s) + 1023) mod FUSE_NOTIFY_RINGBUF_MAXLEN = nf_out s"
    using out by (simp add: inc_buf_idx_mod mod_simps)
  have tt: "t = s\<lparr>nf_out := inc_buf_idx (nf_out s), nf_len := nf_len s - 1, linked_list := xs, nf_in := nf_out s,
      ring_buf := (ring_buf s)[nf_out s := x]\<rparr>"
    unfolding t put_ring_def by (simp add: i Let_def)
  show "ring_ok t" unfolding tt using n out r i by (simp add: ring_ok_def inc_buf_idx_less)
  show "nf_view s = ring_buf s ! nf_out s # nf_view t"
  proof -
    have e: "FUSE_NOTIFY_RINGBUF_MAXLEN = Suc 1023" by simp
    have "slots (ring_buf s) (nf_out s) FUSE_NOTIFY_RINGBUF_MAXLEN = ring_buf s ! nf_out s # slots (ring_buf s) (inc_buf_idx (nf_out s)) 1023"
      unfolding e by (rule slots_take) (use out in simp)
    moreover have "slots ((ring_buf s)[nf_out s := x]) (inc_buf_idx (nf_out s)) FUSE_NOTIFY_RINGBUF_MAXLEN =
        slots (ring_buf s) (inc_buf_idx (nf_out s)) 1023 @ [x]"
      using slots_put [of 1023 "ring_buf s" "inc_buf_idx (nf_out s)" x] r unfolding o1 by simp
    ultimately show ?thesis unfolding tt using n l by (simp add: nf_view_def)
  qed
qed

lemma ring_ok_sems [simp]:
  "ring_ok (s\<lparr>access_sem := a\<rparr>) = ring_ok s" "nf_view (s\<lparr>access_sem := a\<rparr>) = nf_view s"
  "ring_ok (s\<lparr>not_empty := e\<rparr>) = ring_ok s" "nf_view (s\<lparr>not_empty := e\<rparr>) = nf_view s"
  by (simp_all add: ring_ok_def nf_view_def)

lemma list_enqueue_view:
  assumes ok: "ring_ok s" and full: "nf_len s \<ge> FUSE_NOTIFY_RINGBUF_MAXLEN"
  shows "ring_ok (s\<lparr>linked_list := linked_list s @ [d], nf_len := Suc (nf_len s)\<rparr>)"
    "nf_view (s\<lparr>linked_list := linked_list s @ [d], nf_len := Suc (nf_len s)\<rparr>) = nf_view s @ [d]"
  using assms by (auto simp: ring_ok_def nf_view_def)

lemma ring_full_list: "ring_ok s \<Longrightarrow> nf_len s < FUSE_NOTIFY_RINGBUF_MAXLEN \<Longrightarrow> linked_list s = []"
  by (auto simp: ring_ok_def)

lemma notify_buf_enqueue_good:
  assumes good: "nf_good s"
  shows "\<exists>s'. notify_buf_enqueue d s = (Inr 0, s') \<and> nf_good s' \<and> nf_view s' = nf_view s @ [d]"
proof -
  have g: "ring_ok s" "access_sem s = 1" "\<not> system_going_down s" "nf_os s = []" using good by (simp_all add: nf_good_def)
  show ?thesis
  proof (cases "nf_len s \<ge> FUSE_NOTIFY_RINGBUF_MAXLEN")
    case True
    let ?t = "s\<lparr>linked_list := linked_list s @ [d], nf_len := Suc (nf_len s)\<rparr>"
    have "notify_buf_enqueue d s = (Inr 0, ?t)"
      using g True by (simp add: notify_buf_enqueue_def bindE_def sem_wait_def sem_post_def linked_list_enqueue_def nf_malloc_ok)
    with list_enqueue_view [OF g(1) True, of d] g show ?thesis by (simp add: nf_good_def)
  next
    case False
    then have l: "nf_len s < FUSE_NOTIFY_RINGBUF_MAXLEN" by simp
    let ?t = "put_ring d s\<lparr>nf_len := Suc (nf_len s)\<rparr>"
    let ?u = "if nf_len s = 0 then ?t\<lparr>not_empty := Suc (not_empty s)\<rparr> else ?t"
    have "notify_buf_enqueue d s = (Inr 0, ?u)"
      using g l by (simp add: notify_buf_enqueue_def bindE_def sem_wait_def sem_post_def ring_buffer_enqueue_def put_ring_def Let_def)
    moreover have "nf_good ?u \<and> nf_view ?u = nf_view s @ [d]"
      using put_ring_view [OF g(1) l ring_full_list [OF g(1) l], of d] g
      by (cases "nf_len s = 0") (simp_all add: nf_good_def put_ring_def Let_def)
    ultimately show ?thesis by blast
  qed
qed

lemma nf_good_bounds:
  assumes "nf_good u"
  shows "length (ring_buf u) = FUSE_NOTIFY_RINGBUF_MAXLEN \<and> nf_in u < FUSE_NOTIFY_RINGBUF_MAXLEN \<and> nf_out u < FUSE_NOTIFY_RINGBUF_MAXLEN \<and>
    nf_len u = length (nf_view u) \<and> length (nf_view u) = min FUSE_NOTIFY_RINGBUF_MAXLEN (nf_len u) + length (linked_list u) \<and> access_sem u = 1"
proof -
  have r: "ring_ok u" using assms by (simp add: nf_good_def)
  then have "nf_len u = length (nf_view u)" by (simp add: ring_ok_def nf_view_def slots_def)
  moreover have "nf_len u = min FUSE_NOTIFY_RINGBUF_MAXLEN (nf_len u) + length (linked_list u)" using r by (cases "linked_list u = []") (auto simp: ring_ok_def)
  ultimately show ?thesis using assms r by (simp add: nf_good_def ring_ok_def)
qed

lemma take_one_good:
  assumes g: "ring_ok s" "nf_os s = []" and l: "nf_len s > 0"
  shows "\<exists>t x. take_one s = (Inr (Some x), t) \<and> ring_ok t \<and> nf_view s = x # nf_view t \<and>
    access_sem t = access_sem s \<and> system_going_down t = system_going_down s \<and> nf_os t = []"
proof (cases "linked_list s")
  case Nil
  obtain n where n: "nf_len s = Suc n" using l by (cases "nf_len s") auto
  have "take_one s = (Inr (Some (ring_buf s ! nf_out s)), s\<lparr>nf_out := inc_buf_idx (nf_out s), nf_len := n\<rparr>)"
    using g Nil n by (simp add: take_one_def bindE_def ring_buffer_dequeue_def nf_malloc_ok)
  then show ?thesis using take_view [OF g(1) Nil n] g by auto
next
  case (Cons x xs)
  let ?t = "put_ring x (s\<lparr>nf_out := inc_buf_idx (nf_out s), nf_len := nf_len s - 1, linked_list := xs\<rparr>)"
  have "take_one s = (Inr (Some (ring_buf s ! nf_out s)), ?t)"
    using g Cons by (simp add: take_one_def bindE_def ring_buffer_dequeue_def nf_malloc_ok linked_list_dequeue_def
        ring_buffer_enqueue_def put_ring_def Let_def)
  then show ?thesis using shift_view [OF g(1) Cons refl] g by (auto simp: put_ring_def Let_def)
qed

lemma nf_view_empty: "ring_ok s \<Longrightarrow> nf_view s = [] \<longleftrightarrow> nf_len s = 0"
  by (auto simp: nf_view_def ring_ok_def slots_def)

lemma notify_buf_dequeue_good:
  assumes good: "nf_good s" and v: "nf_view s = x # q"
  shows "\<exists>s'. notify_buf_dequeue s = (Inr (Some x), s') \<and> nf_good s' \<and> nf_view s' = q"
proof -
  have g: "ring_ok s" "access_sem s = 1" "\<not> system_going_down s" "nf_os s = []" using good by (simp_all add: nf_good_def)
  have l: "nf_len s > 0" using nf_view_empty [OF g(1)] v by auto
  let ?s = "s\<lparr>access_sem := 0\<rparr>"
  obtain t y where t: "take_one ?s = (Inr (Some y), t)" "ring_ok t" "nf_view ?s = y # nf_view t" "access_sem t = 0"
      "\<not> system_going_down t" "nf_os t = []"
    using take_one_good [of ?s] g l by auto
  have "notify_buf_dequeue s = (Inr (Some x), t\<lparr>access_sem := 1\<rparr>)"
    using g l t v by (simp add: notify_buf_dequeue_def dequeue_loop.simps [of s] bindE_def sem_post_def)
  with t v show ?thesis by (simp add: nf_good_def)
qed

lemma dequeue_loop_waits: "nf_good s \<Longrightarrow> nf_len s = 0 \<Longrightarrow> \<exists>s'. dequeue_loop s = (Inl Hang, s')"
proof (induction "not_empty s" arbitrary: s)
  case 0
  then show ?case by (simp add: dequeue_loop.simps [of s] nf_good_def)
next
  case (Suc n)
  have "\<exists>s'. dequeue_loop (s\<lparr>not_empty := n\<rparr>) = (Inl Hang, s')"
    by (rule Suc.hyps(1)) (use Suc in \<open>simp_all add: nf_good_def\<close>)
  with Suc show ?case by (simp add: dequeue_loop.simps [of s] nf_good_def flip: Suc.hyps(2))
qed

interpretation nf: fifo nf_good nf_view notify_buf_enqueue notify_buf_dequeue
proof
  fix s :: FUES_NOTIFY_SHARED_DATA and x q
  assume good: "nf_good s"
  show "\<exists>s'. notify_buf_enqueue x s = (Inr 0, s') \<and> nf_good s' \<and> nf_view s' = nf_view s @ [x]"
    by (rule notify_buf_enqueue_good [OF good])
  show "\<exists>s'. notify_buf_dequeue s = (Inr (Some x), s') \<and> nf_good s' \<and> nf_view s' = q" if "nf_view s = x # q"
    by (rule notify_buf_dequeue_good [OF good that])
  show "\<exists>s'. notify_buf_dequeue s = (Inl Hang, s')" if "nf_view s = []"
  proof -
    have "nf_len s = 0" using that good nf_view_empty by (simp add: nf_good_def)
    then show ?thesis using dequeue_loop_waits [OF good] by (auto simp: notify_buf_dequeue_def)
  qed
qed

text \<open>A sequence of calls on the buffer, with the result and the state after each.\<close>

fun notify_run :: "FUSE_NOTIFY_PROTO fifo_op list \<Rightarrow> FUES_NOTIFY_SHARED_DATA \<Rightarrow> (FUSE_NOTIFY_PROTO option \<times> FUES_NOTIFY_SHARED_DATA) list" where
  "notify_run [] s = []"
| "notify_run (Enq x # ps) s = (case notify_buf_enqueue x s of (Inr _, s') \<Rightarrow> (None, s') # notify_run ps s' | (Inl _, s') \<Rightarrow> [])"
| "notify_run (Deq # ps) s = (case notify_buf_dequeue s of (Inr d, s') \<Rightarrow> (d, s') # notify_run ps s' | (Inl _, s') \<Rightarrow> [])"

lemma notify_run_fifo: "notify_run ps s = nf.fifo_run ps s"
proof (induction ps arbitrary: s)
  case (Cons p ps)
  then show ?case by (cases p) (auto split: prod.split sum.split)
qed simp

lemma init_notify_buf_good:
  assumes "nf_os s = []" and "\<not> system_going_down s"
  obtains s' where "init_notify_buf s = (Inr (), s')" "nf_good s'" "nf_view s' = []"
  using assms by (intro that [of "s\<lparr>ring_buf := replicate FUSE_NOTIFY_RINGBUF_MAXLEN NOOP, linked_list := [],
       nf_len := 0, nf_in := FUSE_NOTIFY_RINGBUF_MAXLEN - 1, nf_out := 0, not_empty := 0, access_sem := 1\<rparr>"])
    (simp_all add: init_notify_buf_def bindE_def nf_call_def nf_good_def ring_ok_def nf_view_def slots_def inc_buf_idx_def)

subsection \<open>Properties\<close>

text \<open>
  C18: The notification buffer is a queue without bound whose indexes stay inside the ring: after \<^verbatim>\<open>init_notify_buf\<close>, with no failing call and while the system is up, any sequence of
  \<^verbatim>\<open>notify_buf_enqueue\<close> and \<^verbatim>\<open>notify_buf_dequeue\<close> calls gives the entries back in the order of their insertion, also across the overflow into the linked list and the wrap-around of the ring,
  and ends where a list would run empty.  After every call both indexes are inside the ring of 1024 slots, the ring and the list together have as many entries as are counted, and the list is used only when the
  ring is full; the semaphore of the buffer is free.
\<close>

theorem notify_queue_fifo:
  assumes "nf_os s = []" and "\<not> system_going_down s"
  shows "\<exists>s0. init_notify_buf s = (Inr (), s0) \<and> map fst (notify_run ops s0) = fst (list_fifo ops []) \<and>
    (\<forall>u \<in> set (map snd (notify_run ops s0)). length (ring_buf u) = FUSE_NOTIFY_RINGBUF_MAXLEN \<and> nf_in u < FUSE_NOTIFY_RINGBUF_MAXLEN \<and> nf_out u < FUSE_NOTIFY_RINGBUF_MAXLEN \<and>
      nf_len u = length (nf_view u) \<and> length (nf_view u) = min FUSE_NOTIFY_RINGBUF_MAXLEN (nf_len u) + length (linked_list u) \<and> access_sem u = 1)"
proof -
  obtain s0 where i: "init_notify_buf s = (Inr (), s0)" "nf_good s0" "nf_view s0 = []" using assms by (rule init_notify_buf_good)
  have r: "map fst (notify_run ops s0) = fst (list_fifo ops [])" "\<forall>u \<in> set (map snd (notify_run ops s0)). nf_good u"
    using nf.fifo_run_list [OF i(2), of ops] i(3) by (simp_all add: notify_run_fifo)
  have "\<forall>u \<in> set (map snd (notify_run ops s0)). length (ring_buf u) = FUSE_NOTIFY_RINGBUF_MAXLEN \<and> nf_in u < FUSE_NOTIFY_RINGBUF_MAXLEN \<and> nf_out u < FUSE_NOTIFY_RINGBUF_MAXLEN \<and>
      nf_len u = length (nf_view u) \<and> length (nf_view u) = min FUSE_NOTIFY_RINGBUF_MAXLEN (nf_len u) + length (linked_list u) \<and> access_sem u = 1"
    using r(2) nf_good_bounds by blast
  then show ?thesis using i(1) r(1) by blast
qed

definition demo_nf :: FUES_NOTIFY_SHARED_DATA where
  "demo_nf = \<lparr>ring_buf = [], linked_list = [], nf_len = 0, nf_in = 0, nf_out = 0, not_empty = 0, access_sem = 0,
     system_going_down = False, nf_os = [], nf_sent = []\<rparr>"

theorem notify_queue_fifo_witness:
  "\<exists>s0. init_notify_buf demo_nf = (Inr (), s0) \<and>
    map fst (notify_run [Enq NOOP, Enq (INVAL_ENT 1 5 None 0), Deq, Deq, Deq] s0) = [None, None, Some NOOP, Some (INVAL_ENT 1 5 None 0)]"
proof -
  have "nf_os demo_nf = []" "\<not> system_going_down demo_nf" by (simp_all add: demo_nf_def)
  then obtain s0 where "init_notify_buf demo_nf = (Inr (), s0)"
      "map fst (notify_run [Enq NOOP, Enq (INVAL_ENT 1 5 None 0), Deq, Deq, Deq] s0) = fst (list_fifo [Enq NOOP, Enq (INVAL_ENT 1 5 None 0), Deq, Deq, Deq] [])"
    using notify_queue_fifo by blast
  then show ?thesis by (simp del: notify_run.simps)
qed

text \<open>
  While the system goes down, \<^verbatim>\<open>notify_buf_dequeue\<close> gives back a semaphore it has not taken: two
  threads can be inside the buffer afterwards.
\<close>

lemma dequeue_shutdown_posts_twice:
  assumes "system_going_down s" and "access_sem s = 1"
  shows "notify_buf_dequeue s = (Inr None, s\<lparr>access_sem := 2\<rparr>)"
  using assms by (simp add: notify_buf_dequeue_def dequeue_loop.simps [of s] bindE_def sem_post_def numeral_2_eq_2)

end
