(* ===== verification/Dir_Btree.thy ===== *)
theory Dir_Btree
  imports HCFS_Prelude "HOL-Library.List_Lexorder"
begin

text \<open>
  The B-tree of directory entries in a directory's meta file: search and insertion of
  \<^verbatim>\<open>src/HCFS/dir_entry_btree.c\<close>.
  The file is a map from positions to pages; a page in memory (\<^verbatim>\<open>tnode\<close>) is a value, written back
  where the code writes it.  Arrays are lists of their full length, of which \<^verbatim>\<open>num_entries\<close> elements count;
  \<^verbatim>\<open>memcpy\<close> between arrays is \<open>memcpy_at\<close>.  The scratch array \<^verbatim>\<open>temp_child_page_pos\<close> of the caller is part of the state, because
  the code reads an element of it that it has not always written.  The recursion of the C functions down the tree is
  bounded by a depth; a tree of that height never reaches the bound.
\<close>

abbreviation (input) MAX_DIR_ENTRIES_PER_PAGE :: nat where "MAX_DIR_ENTRIES_PER_PAGE \<equiv> 99"
abbreviation (input) MIN_DIR_ENTRIES_PER_PAGE :: nat where "MIN_DIR_ENTRIES_PER_PAGE \<equiv> 30"

subsection \<open>Names\<close>

record DIR_ENTRY =
  d_ino :: ino_t
  d_name :: string
  d_type :: nat

text \<open>
  \<^verbatim>\<open>strcmp\<close> compares bytes, \<^verbatim>\<open>strcasecmp\<close> bytes with upper case letters as lower case ones; only the sign of the
  result is used.
\<close>

definition tolower :: "nat \<Rightarrow> nat" where
  "tolower c = (if 65 \<le> c \<and> c \<le> 90 then c + 32 else c)"

definition name_key :: "bool \<Rightarrow> string \<Rightarrow> nat list" where
  "name_key is_external s = map (\<lambda>c. if is_external then tolower (of_char c) else of_char c) s"

fun compare_bytes :: "nat list \<Rightarrow> nat list \<Rightarrow> int" where
  "compare_bytes [] [] = 0"
| "compare_bytes [] (b # bs) = - 1"
| "compare_bytes (a # as) [] = 1"
| "compare_bytes (a # as) (b # bs) = (if a = b then compare_bytes as bs else if a < b then - 1 else 1)"

definition compare_names :: "bool \<Rightarrow> string \<Rightarrow> string \<Rightarrow> int" where
  "compare_names is_external a b = compare_bytes (name_key is_external a) (name_key is_external b)"

subsection \<open>Binary search in a page\<close>

datatype search_result = Found nat | Insert_At nat

function search_between :: "bool \<Rightarrow> DIR_ENTRY list \<Rightarrow> nat \<Rightarrow> DIR_ENTRY \<Rightarrow> nat \<Rightarrow> nat \<Rightarrow> search_result" where
  "search_between is_external entry_array num new_entry start_index end_index =
     (if end_index > start_index then
        let c0 = (if end_index = start_index + 1 then start_index else (end_index + start_index) div 2);
            compare_entry = (if c0 \<ge> num then num - 1 else c0);
            compare_result = compare_names is_external (d_name new_entry) (d_name (entry_array ! compare_entry))
        in if compare_result = 0 then Found compare_entry
           else if compare_result < 0 then
             (if compare_entry < end_index
              then search_between is_external entry_array num new_entry start_index compare_entry else Insert_At start_index)
           else
             (if start_index < compare_entry + 1
              then search_between is_external entry_array num new_entry (compare_entry + 1) end_index else Insert_At start_index)
      else Insert_At start_index)"
  by pat_completeness auto
termination
  by (relation "measure (\<lambda>(x, a, n, e, i, j). j - i)") auto

declare search_between.simps [simp del]

definition dentry_binary_search :: "bool \<Rightarrow> DIR_ENTRY list \<Rightarrow> nat \<Rightarrow> DIR_ENTRY \<Rightarrow> search_result" where
  "dentry_binary_search is_external entry_array num new_entry =
     (if num < 1 then Insert_At 0 else search_between is_external entry_array num new_entry 0 num)"

subsection \<open>Pages and the file\<close>

record DIR_ENTRY_PAGE =
  num_entries :: nat
  dir_entries :: "DIR_ENTRY list"
  this_page_pos :: nat
  child_page_pos :: "nat list"
  parent_page_pos :: nat
  gc_list_next :: nat
  tree_walk_next :: nat
  tree_walk_prev :: nat

record DIR_META_TYPE =
  total_children :: int
  root_entry_page :: nat
  entry_page_gc_list :: nat
  tree_walk_list_head :: nat

record bt_state =
  pages :: "nat \<Rightarrow> DIR_ENTRY_PAGE"
  file_end :: nat
  disk_meta :: DIR_META_TYPE
  this_meta :: DIR_META_TYPE
  temp_child_page_pos :: "nat list"
  dir_nlink :: nat
  meta_locked :: bool
  no_meta_space :: bool
  bt_os :: "io_outcome list"

definition zero_dentry :: DIR_ENTRY where
  "zero_dentry = \<lparr>d_ino = 0, d_name = [], d_type = 0\<rparr>"

definition zero_page :: DIR_ENTRY_PAGE where
  "zero_page = \<lparr>num_entries = 0, dir_entries = replicate MAX_DIR_ENTRIES_PER_PAGE zero_dentry, this_page_pos = 0,
     child_page_pos = replicate (MAX_DIR_ENTRIES_PER_PAGE + 1) 0, parent_page_pos = 0, gc_list_next = 0,
     tree_walk_next = 0, tree_walk_prev = 0\<rparr>"

text \<open>The size of a page in the file: 99 entries of 271 bytes, 105 positions and the count.\<close>

abbreviation (input) sizeof_page :: nat where "sizeof_page \<equiv> 27673"

definition memcpy_at :: "'a list \<Rightarrow> nat \<Rightarrow> 'a list \<Rightarrow> nat \<Rightarrow> nat \<Rightarrow> 'a list" where
  "memcpy_at dst i src j n = take i dst @ take n (drop j src) @ drop (i + n) dst"

definition bt_call :: "(bt_state, unit) sm" where
  "bt_call = (\<lambda>s. (case bt_os s of IO_Err e # _ \<Rightarrow> Inl (Errno e) | _ \<Rightarrow> Inr (), s\<lparr>bt_os := tl (bt_os s)\<rparr>))"

definition PREAD :: "nat \<Rightarrow> (bt_state, DIR_ENTRY_PAGE) sm" where
  "PREAD pos = bindE bt_call (\<lambda>_ s. (Inr (if pos < file_end s then pages s pos else zero_page), s))"

definition PWRITE :: "DIR_ENTRY_PAGE \<Rightarrow> nat \<Rightarrow> (bt_state, unit) sm" where
  "PWRITE p pos = bindE bt_call (\<lambda>_. modifyE (\<lambda>s. s\<lparr>pages := (pages s)(pos := p), file_end := max (file_end s) (pos + sizeof_page)\<rparr>))"

definition PWRITE_meta :: "(bt_state, unit) sm" where
  "PWRITE_meta = bindE bt_call (\<lambda>_. modifyE (\<lambda>s. s\<lparr>disk_meta := this_meta s\<rparr>))"

definition upd_meta :: "(DIR_META_TYPE \<Rightarrow> DIR_META_TYPE) \<Rightarrow> (bt_state, unit) sm" where
  "upd_meta f = modifyE (\<lambda>s. s\<lparr>this_meta := f (this_meta s)\<rparr>)"

subsection \<open>Search\<close>

fun search_dir_entry_btree ::
  "nat \<Rightarrow> bool \<Rightarrow> string \<Rightarrow> DIR_ENTRY_PAGE \<Rightarrow> (bt_state, nat \<times> DIR_ENTRY_PAGE) sm" where
  "search_dir_entry_btree 0 is_external target_name tnode = failE Hang"
| "search_dir_entry_btree (Suc depth) is_external target_name tnode =
     (case dentry_binary_search is_external (dir_entries tnode) (num_entries tnode) (zero_dentry\<lparr>d_name := target_name\<rparr>) of
        Found i \<Rightarrow> returnE (i, tnode)
      | Insert_At s_index \<Rightarrow>
          if child_page_pos tnode ! s_index = 0 then failE (Errno ENOENT)
          else bindE (PREAD (child_page_pos tnode ! s_index)) (\<lambda>temp_page.
            search_dir_entry_btree depth is_external target_name temp_page))"

subsection \<open>Insertion\<close>

text \<open>Shifting the array to the right of the index and storing the new element.\<close>

definition array_insert :: "nat \<Rightarrow> 'a \<Rightarrow> nat \<Rightarrow> 'a list \<Rightarrow> 'a list" where
  "array_insert s_index x n arr =
     (if s_index < n then memcpy_at arr (s_index + 1) arr s_index (n - s_index) else arr)[s_index := x]"

text \<open>The contents of \<^verbatim>\<open>tmp_entries\<close> when a page has to be split: the entries with the new one.\<close>

definition pooled :: "nat \<Rightarrow> 'a \<Rightarrow> nat \<Rightarrow> 'a list \<Rightarrow> 'a list" where
  "pooled s_index x n arr = take s_index arr @ [x] @ take (n - s_index) (drop s_index arr)"

text \<open>A page for the new node: from the list of free pages, or at the end of the file.\<close>

definition take_page :: "bool \<Rightarrow> (bt_state, DIR_ENTRY_PAGE) sm" where
  "take_page check_space = (\<lambda>s.
     let gc = entry_page_gc_list (this_meta s) in
     if gc \<noteq> 0 then
       bindE (PREAD gc) (\<lambda>newpage.
       bindE (upd_meta (\<lambda>m. m\<lparr>entry_page_gc_list := gc_list_next newpage\<rparr>)) (\<lambda>_.
       returnE (newpage\<lparr>this_page_pos := gc\<rparr>))) s
     else if check_space \<and> no_meta_space s then (Inl (Errno ENOSPC), s)
     else bindE bt_call (\<lambda>_ s1. (Inr (zero_page\<lparr>this_page_pos := file_end s1\<rparr>), s1)) s)"

text \<open>
  The new page becomes the head of the tree walk list; the old head is \<^verbatim>\<open>tnode\<close> in memory or a page in the file.
\<close>

definition link_walk :: "nat \<Rightarrow> DIR_ENTRY_PAGE \<Rightarrow> (bt_state, DIR_ENTRY_PAGE) sm" where
  "link_walk newpos tnode = (\<lambda>s.
     let head = tree_walk_list_head (this_meta s) in
     if head = this_page_pos tnode then (Inr (tnode\<lparr>tree_walk_prev := newpos\<rparr>), s)
     else bindE (PREAD head) (\<lambda>temp_page2.
       bindE (PWRITE (temp_page2\<lparr>tree_walk_prev := newpos\<rparr>) head) (\<lambda>_. returnE tnode)) s)"

text \<open>
  The second half of a split: \<^verbatim>\<open>tnode\<close> has the entries left of the median already; \<open>right\<close> are those right of it
  and \<open>right_children\<close> their children, none for a leaf.  The result is the page in memory and the position of the new page.
\<close>

definition finish_split ::
  "bool \<Rightarrow> DIR_ENTRY_PAGE \<Rightarrow> DIR_ENTRY list \<Rightarrow> nat list \<Rightarrow> (bt_state, DIR_ENTRY_PAGE \<times> nat) sm" where
  "finish_split check_space tnode right right_children =
     bindE (take_page check_space) (\<lambda>page0 s.
       let newpos = this_page_pos page0;
           page1 = page0\<lparr>gc_list_next := 0, tree_walk_next := tree_walk_list_head (this_meta s), tree_walk_prev := 0\<rparr>
       in bindE (link_walk newpos tnode) (\<lambda>tnode1.
          bindE (PWRITE tnode1 (this_page_pos tnode1)) (\<lambda>_.
          bindE (upd_meta (\<lambda>m. m\<lparr>tree_walk_list_head := newpos\<rparr>)) (\<lambda>_.
          bindE PWRITE_meta (\<lambda>_.
          let page2 = page1\<lparr>parent_page_pos := parent_page_pos tnode1,
                child_page_pos := memcpy_at (replicate (MAX_DIR_ENTRIES_PER_PAGE + 1) 0) 0 right_children 0 (length right_children),
                num_entries := length right,
                dir_entries := memcpy_at (dir_entries page1) 0 right 0 (length right)\<rparr>
          in bindE (PWRITE page2 newpos) (\<lambda>_. returnE (tnode1, newpos)))))) s)"

datatype ins_result = Inserted DIR_ENTRY_PAGE | Overflow DIR_ENTRY_PAGE DIR_ENTRY nat

definition insert_leaf :: "nat \<Rightarrow> DIR_ENTRY \<Rightarrow> DIR_ENTRY_PAGE \<Rightarrow> (bt_state, ins_result) sm" where
  "insert_leaf s_index new_entry tnode =
     (let n = num_entries tnode in
      if n < MAX_DIR_ENTRIES_PER_PAGE then
        let tnode' = tnode\<lparr>dir_entries := array_insert s_index new_entry n (dir_entries tnode), num_entries := n + 1\<rparr>
        in bindE (PWRITE tnode' (this_page_pos tnode')) (\<lambda>_. returnE (Inserted tnode'))
      else
        let tmp_entries = pooled s_index new_entry n (dir_entries tnode);
            median_entry = (n + 1) div 2;
            tnode' = tnode\<lparr>num_entries := median_entry, dir_entries := memcpy_at (dir_entries tnode) 0 tmp_entries 0 median_entry\<rparr>
        in bindE (finish_split True tnode' (drop (median_entry + 1) tmp_entries) []) (\<lambda>(tnode1, newpos).
           returnE (Overflow tnode1 (tmp_entries ! median_entry) newpos)))"

text \<open>
  The children when the median of a child goes up.  With room in the page they are shifted through the
  scratch array; for a split the scratch array is filled, the part up to the index only when the index is not 0.
\<close>

definition shift_children :: "nat \<Rightarrow> nat \<Rightarrow> DIR_ENTRY_PAGE \<Rightarrow> (bt_state, nat list) sm" where
  "shift_children s_index new_page tnode = (\<lambda>s.
     let n = num_entries tnode; child = child_page_pos tnode in
     if s_index < n then
       let temp = memcpy_at (temp_child_page_pos s) 0 child (s_index + 1) (n - s_index)
       in (Inr ((memcpy_at child (s_index + 2) temp 0 (n - s_index))[s_index + 1 := new_page]),
           s\<lparr>temp_child_page_pos := temp\<rparr>)
     else (Inr (child[s_index + 1 := new_page]), s))"

definition pool_children :: "nat \<Rightarrow> nat \<Rightarrow> DIR_ENTRY_PAGE \<Rightarrow> (bt_state, nat list) sm" where
  "pool_children s_index new_page tnode = (\<lambda>s.
     let n = num_entries tnode; child = child_page_pos tnode;
         temp1 = (if s_index > 0 then memcpy_at (temp_child_page_pos s) 0 child 0 (s_index + 1) else temp_child_page_pos s);
         temp2 = temp1[s_index + 1 := new_page];
         temp3 = (if s_index < n then memcpy_at temp2 (s_index + 2) child (s_index + 1) (n - s_index) else temp2)
     in (Inr temp3, s\<lparr>temp_child_page_pos := temp3\<rparr>))"

definition insert_median :: "nat \<Rightarrow> DIR_ENTRY \<Rightarrow> nat \<Rightarrow> DIR_ENTRY_PAGE \<Rightarrow> (bt_state, ins_result) sm" where
  "insert_median s_index median new_page tnode =
     (let n = num_entries tnode in
      if n < MAX_DIR_ENTRIES_PER_PAGE then
        bindE (shift_children s_index new_page tnode) (\<lambda>child'.
        let tnode' = tnode\<lparr>dir_entries := array_insert s_index median n (dir_entries tnode), child_page_pos := child', num_entries := n + 1\<rparr>
        in bindE (PWRITE tnode' (this_page_pos tnode')) (\<lambda>_. returnE (Inserted tnode')))
      else
        bindE (pool_children s_index new_page tnode) (\<lambda>temp.
        let tmp_entries = pooled s_index median n (dir_entries tnode);
            median_entry = (n + 1) div 2;
            right = drop (median_entry + 1) tmp_entries;
            tnode' = tnode\<lparr>num_entries := median_entry,
              dir_entries := memcpy_at (dir_entries tnode) 0 tmp_entries 0 median_entry,
              child_page_pos := memcpy_at (child_page_pos tnode) 0 temp 0 (median_entry + 1)\<rparr>
        in bindE (finish_split False tnode' right (take (length right + 1) (drop (median_entry + 1) temp))) (\<lambda>(tnode1, newpos).
           returnE (Overflow tnode1 (tmp_entries ! median_entry) newpos))))"

fun insert_dir_entry_btree :: "nat \<Rightarrow> bool \<Rightarrow> DIR_ENTRY \<Rightarrow> DIR_ENTRY_PAGE \<Rightarrow> (bt_state, ins_result) sm" where
  "insert_dir_entry_btree 0 is_external new_entry tnode = failE Hang"
| "insert_dir_entry_btree (Suc depth) is_external new_entry tnode =
     (case dentry_binary_search is_external (dir_entries tnode) (num_entries tnode) new_entry of
        Found i \<Rightarrow> failE (Errno EEXIST)
      | Insert_At s_index \<Rightarrow>
          if child_page_pos tnode ! s_index = 0 then insert_leaf s_index new_entry tnode
          else bindE (PREAD (child_page_pos tnode ! s_index)) (\<lambda>temppage.
            bindE (insert_dir_entry_btree depth is_external new_entry temppage) (\<lambda>r. case r of
              Inserted _ \<Rightarrow> returnE (Inserted tnode)
            | Overflow _ median new_page \<Rightarrow>
                bindE (PREAD (this_page_pos tnode)) (\<lambda>tnode'. insert_median s_index median new_page tnode'))))"

end
