(* ===== verification/Dir_Add.thy ===== *)
theory Dir_Add
  imports Dir_Btree
begin

text \<open>
  Directories as \<^verbatim>\<open>metaops.c\<close> uses the B-tree: the first page of a new directory (\<^verbatim>\<open>init_dir_page\<close>) and \<^verbatim>\<open>dir_add_entry\<close>,
  which inserts an entry and puts a new root on top of the tree when the old one is split.  The head of the meta file is loaded
  into \<open>this_meta\<close> at the start and stored back at the end; the
  calls of the meta cache around the tree operations can fail like system calls.
\<close>

datatype file_kind = S_IFREG | S_IFDIR | S_IFLNK | S_IFIFO | S_IFSOCK | S_OTHER

abbreviation (input) D_ISDIR :: nat where "D_ISDIR \<equiv> 0"
abbreviation (input) MAX_FILENAME_LEN :: nat where "MAX_FILENAME_LEN \<equiv> 255"

definition d_type_of :: "file_kind \<Rightarrow> nat" where
  "d_type_of k = (case k of S_IFREG \<Rightarrow> 1 | S_IFDIR \<Rightarrow> D_ISDIR | S_IFLNK \<Rightarrow> 2 | S_IFIFO \<Rightarrow> 3 | S_IFSOCK \<Rightarrow> 4 | S_OTHER \<Rightarrow> 0)"

definition new_dir_entry :: "ino_t \<Rightarrow> string \<Rightarrow> file_kind \<Rightarrow> DIR_ENTRY" where
  "new_dir_entry child_inode childname kind =
     \<lparr>d_ino = child_inode, d_name = take MAX_FILENAME_LEN childname, d_type = d_type_of kind\<rparr>"

definition init_dir_page :: "ino_t \<Rightarrow> ino_t \<Rightarrow> nat \<Rightarrow> DIR_ENTRY_PAGE" where
  "init_dir_page self_inode parent_inode page_pos = zero_page\<lparr>num_entries := 2,
     dir_entries := (dir_entries zero_page)[0 := \<lparr>d_ino = self_inode, d_name = ''.'', d_type = D_ISDIR\<rparr>,
       1 := \<lparr>d_ino = parent_inode, d_name = ''..'', d_type = D_ISDIR\<rparr>],
     this_page_pos := page_pos\<rparr>"

subsection \<open>A new root\<close>

text \<open>
  The new root becomes the head of the tree walk list.  The old head is the old root in memory, or a page of the file; when it is the
  page of the overflow, its parent is set with the same write.
\<close>

definition link_root :: "nat \<Rightarrow> nat \<Rightarrow> DIR_ENTRY_PAGE \<Rightarrow> (bt_state, DIR_ENTRY_PAGE \<times> bool) sm" where
  "link_root rootpos overflow_new_page tpage = (\<lambda>s.
     let head = tree_walk_list_head (this_meta s) in
     if head = this_page_pos tpage then (Inr (tpage\<lparr>tree_walk_prev := rootpos\<rparr>, False), s)
     else bindE (PREAD head) (\<lambda>tpage2.
       let no_need_rewrite = (this_page_pos tpage2 = overflow_new_page);
           t1 = tpage2\<lparr>tree_walk_prev := rootpos\<rparr>;
           t2 = (if no_need_rewrite then t1\<lparr>parent_page_pos := rootpos\<rparr> else t1)
       in bindE (PWRITE t2 head) (\<lambda>_. returnE (tpage, no_need_rewrite))) s)"

definition new_root_page :: "nat \<Rightarrow> nat \<Rightarrow> nat \<Rightarrow> DIR_ENTRY \<Rightarrow> DIR_ENTRY_PAGE \<Rightarrow> DIR_ENTRY_PAGE" where
  "new_root_page walk_head old_root overflow_new_page overflow_entry page =
     page\<lparr>gc_list_next := 0, tree_walk_next := walk_head, tree_walk_prev := 0, parent_page_pos := 0,
       child_page_pos := (replicate (MAX_DIR_ENTRIES_PER_PAGE + 1) 0)[0 := old_root, 1 := overflow_new_page],
       num_entries := 1, dir_entries := (dir_entries page)[0 := overflow_entry]\<rparr>"

definition set_parent :: "nat \<Rightarrow> nat \<Rightarrow> (bt_state, unit) sm" where
  "set_parent rootpos pos = bindE (PREAD pos) (\<lambda>tpage2. PWRITE (tpage2\<lparr>parent_page_pos := rootpos\<rparr>) pos)"

definition grow_root :: "DIR_ENTRY \<Rightarrow> nat \<Rightarrow> (bt_state, unit) sm" where
  "grow_root overflow_entry overflow_new_page = (\<lambda>s0.
     let old_root = root_entry_page (this_meta s0) in
     bindE (PREAD old_root) (\<lambda>tpage.
     bindE (take_page False) (\<lambda>page s.
       let walk_head = tree_walk_list_head (this_meta s); rootpos = this_page_pos page in
       bindE (link_root rootpos overflow_new_page tpage) (\<lambda>(tpage1, no_need_rewrite).
       bindE (upd_meta (\<lambda>m. m\<lparr>tree_walk_list_head := rootpos, root_entry_page := rootpos\<rparr>)) (\<lambda>_.
       bindE (PWRITE (new_root_page walk_head old_root overflow_new_page overflow_entry page) rootpos) (\<lambda>_.
       bindE (PWRITE (tpage1\<lparr>parent_page_pos := rootpos\<rparr>) (this_page_pos tpage1)) (\<lambda>_.
       bindE (if no_need_rewrite then returnE () else set_parent rootpos overflow_new_page) (\<lambda>_.
       PWRITE_meta))))) s)) s0)"

definition handle_overflow :: "ins_result \<Rightarrow> (bt_state, unit) sm" where
  "handle_overflow r = (case r of Inserted _ \<Rightarrow> returnE () | Overflow _ median new_page \<Rightarrow> grow_root median new_page)"

subsection \<open>Adding an entry\<close>

text \<open>
  The depth given to the recursion is the size of the file: the pages of a path are different positions in it.  The local array
  \<^verbatim>\<open>temp_child_page_pos\<close> starts with what the stack holds.
\<close>

definition load_meta :: "nat list \<Rightarrow> bt_state \<Rightarrow> bt_state" where
  "load_meta stack s = s\<lparr>this_meta := disk_meta s, temp_child_page_pos := stack\<rparr>"

definition dir_add_entry :: "nat list \<Rightarrow> bool \<Rightarrow> ino_t \<Rightarrow> string \<Rightarrow> file_kind \<Rightarrow> (bt_state, unit) sm" where
  "dir_add_entry stack is_external child_inode childname kind = (\<lambda>s0.
     if \<not> meta_locked s0 then (Inl (Errno EPERM), s0)
     else
       bindE bt_call (\<lambda>_.
       bindE (modifyE (load_meta stack)) (\<lambda>_.
       bindE bt_call (\<lambda>_.
       bindE bt_call (\<lambda>_ s.
       bindE (PREAD (root_entry_page (this_meta s))) (\<lambda>tpage.
       bindE bt_call (\<lambda>_.
       bindE (insert_dir_entry_btree (file_end s) is_external (new_dir_entry child_inode childname kind) tpage) (\<lambda>r.
       bindE (handle_overflow r) (\<lambda>_.
       bindE (upd_meta (\<lambda>m. m\<lparr>total_children := total_children m + 1\<rparr>)) (\<lambda>_.
       bindE PWRITE_meta (\<lambda>_.
       modifyE (\<lambda>s. s\<lparr>dir_nlink := (if kind = S_IFDIR then dir_nlink s + 1 else dir_nlink s)\<rparr>))))))) s)))) s0)"

end
