(* ===== verification/Dir_Btree_Del.thy ===== *)
theory Dir_Btree_Del
  imports Dir_Btree
begin

text \<open>
  Deletion from the B-tree of directory entries: \<^verbatim>\<open>rebalance_btree\<close>, \<^verbatim>\<open>extract_largest_child\<close> and \<^verbatim>\<open>delete_dir_entry_btree\<close> of
  \<^verbatim>\<open>src/HCFS/dir_entry_btree.c\<close>.  The page \<^verbatim>\<open>tnode\<close> in memory is an argument and part of the result where the C function changes it
  for its caller.  A read of an array at index -1 is a \<open>Crash\<close>.
\<close>

subsection \<open>Pages taken out of the tree\<close>

definition rewrite_page :: "nat \<Rightarrow> (DIR_ENTRY_PAGE \<Rightarrow> DIR_ENTRY_PAGE) \<Rightarrow> (bt_state, unit) sm" where
  "rewrite_page pos f = bindE (PREAD pos) (\<lambda>temp_page. PWRITE (f temp_page) pos)"

text \<open>The page becomes the head of the list of free pages.\<close>

definition free_page :: "nat \<Rightarrow> (bt_state, unit) sm" where
  "free_page pos = (\<lambda>s.
     let temp_page = zero_page\<lparr>this_page_pos := pos, gc_list_next := entry_page_gc_list (this_meta s)\<rparr>
     in bindE (upd_meta (\<lambda>m. m\<lparr>entry_page_gc_list := pos\<rparr>)) (\<lambda>_. PWRITE temp_page pos) s)"

definition walk_head_past :: "DIR_ENTRY_PAGE \<Rightarrow> (bt_state, unit) sm" where
  "walk_head_past pg = upd_meta (\<lambda>m. if tree_walk_list_head m = this_page_pos pg
     then m\<lparr>tree_walk_list_head := tree_walk_next pg\<rparr> else m)"

text \<open>
  The neighbours of the dropped right page in the tree walk list: the left page or \<^verbatim>\<open>tnode\<close> in memory, or a page in the file.
\<close>

definition relink_next :: "DIR_ENTRY_PAGE \<Rightarrow> DIR_ENTRY_PAGE \<Rightarrow> DIR_ENTRY_PAGE \<Rightarrow> (bt_state, DIR_ENTRY_PAGE \<times> DIR_ENTRY_PAGE) sm" where
  "relink_next right left tnode =
     (let nxt = tree_walk_next right; prv = tree_walk_prev right in
      if nxt = 0 then returnE (left, tnode)
      else if nxt = this_page_pos left then returnE (left\<lparr>tree_walk_prev := prv\<rparr>, tnode)
      else if nxt = this_page_pos tnode then returnE (left, tnode\<lparr>tree_walk_prev := prv\<rparr>)
      else bindE (rewrite_page nxt (\<lambda>p. p\<lparr>tree_walk_prev := prv\<rparr>)) (\<lambda>_. returnE (left, tnode)))"

definition relink_prev :: "DIR_ENTRY_PAGE \<Rightarrow> DIR_ENTRY_PAGE \<Rightarrow> DIR_ENTRY_PAGE \<Rightarrow> (bt_state, DIR_ENTRY_PAGE \<times> DIR_ENTRY_PAGE) sm" where
  "relink_prev right left tnode =
     (let nxt = tree_walk_next right; prv = tree_walk_prev right in
      if prv = 0 then returnE (left, tnode)
      else if prv = this_page_pos left then returnE (left\<lparr>tree_walk_next := nxt\<rparr>, tnode)
      else if prv = this_page_pos tnode then returnE (left, tnode\<lparr>tree_walk_next := nxt\<rparr>)
      else bindE (rewrite_page prv (\<lambda>p. p\<lparr>tree_walk_next := nxt\<rparr>)) (\<lambda>_. returnE (left, tnode)))"

text \<open>The same for a dropped root, whose only neighbour in memory is the left page.\<close>

definition relink_root :: "DIR_ENTRY_PAGE \<Rightarrow> DIR_ENTRY_PAGE \<Rightarrow> (bt_state, DIR_ENTRY_PAGE) sm" where
  "relink_root tnode left =
     (let nxt = tree_walk_next tnode; prv = tree_walk_prev tnode in
      bindE (if nxt = this_page_pos left then returnE (left\<lparr>tree_walk_prev := prv\<rparr>)
             else if nxt \<noteq> 0 then bindE (rewrite_page nxt (\<lambda>p. p\<lparr>tree_walk_prev := prv\<rparr>)) (\<lambda>_. returnE left)
             else returnE left) (\<lambda>left1.
      if prv = this_page_pos left1 then returnE (left1\<lparr>tree_walk_next := nxt\<rparr>)
      else if prv \<noteq> 0 then bindE (rewrite_page prv (\<lambda>p. p\<lparr>tree_walk_next := nxt\<rparr>)) (\<lambda>_. returnE left1)
      else returnE left1))"

subsection \<open>Rebalancing\<close>

definition pool_entries :: "DIR_ENTRY_PAGE \<Rightarrow> DIR_ENTRY \<Rightarrow> DIR_ENTRY_PAGE \<Rightarrow> DIR_ENTRY list" where
  "pool_entries left sep right =
     take (num_entries left) (dir_entries left) @ [sep] @ take (num_entries right) (dir_entries right)"

definition pool_positions :: "DIR_ENTRY_PAGE \<Rightarrow> DIR_ENTRY_PAGE \<Rightarrow> nat list \<Rightarrow> nat list" where
  "pool_positions left right temp =
     memcpy_at (memcpy_at temp 0 (child_page_pos left) 0 (num_entries left + 1))
       (num_entries left + 1) (child_page_pos right) 0 (num_entries right + 1)"

text \<open>A page with the first \<open>n\<close> entries of \<open>es\<close> and the first \<open>n + 1\<close> positions of \<open>ps\<close>.\<close>

definition refill :: "DIR_ENTRY_PAGE \<Rightarrow> nat \<Rightarrow> DIR_ENTRY list \<Rightarrow> nat list \<Rightarrow> DIR_ENTRY_PAGE" where
  "refill pg n es ps = pg\<lparr>dir_entries := memcpy_at (dir_entries pg) 0 es 0 n,
     child_page_pos := memcpy_at (child_page_pos pg) 0 ps 0 (n + 1), num_entries := n\<rparr>"

text \<open>\<^verbatim>\<open>tnode\<close> without entry \<open>left_node\<close> and the child right of it; the positions go through the scratch array.\<close>

definition drop_item :: "nat \<Rightarrow> DIR_ENTRY_PAGE \<Rightarrow> (bt_state, DIR_ENTRY_PAGE) sm" where
  "drop_item left_node tnode = (\<lambda>s.
     let n = num_entries tnode - (left_node + 1); child = child_page_pos tnode;
         temp = memcpy_at (temp_child_page_pos s) 0 child (left_node + 2) n
     in (Inr (tnode\<lparr>dir_entries := memcpy_at (dir_entries tnode) left_node (dir_entries tnode) (left_node + 1) n,
           child_page_pos := memcpy_at child (left_node + 1) temp 0 n, num_entries := num_entries tnode - 1\<rparr>),
         s\<lparr>temp_child_page_pos := temp\<rparr>))"

text \<open>
  The parent of two merged pages.  When it loses its only entry it was the root: the left page becomes the root.  Otherwise it loses the entry.  The
  result is the return value of \<^verbatim>\<open>rebalance_btree\<close>, the left page and \<^verbatim>\<open>tnode\<close>.
\<close>

definition drop_old_root :: "DIR_ENTRY_PAGE \<Rightarrow> DIR_ENTRY_PAGE \<Rightarrow> (bt_state, nat \<times> DIR_ENTRY_PAGE \<times> DIR_ENTRY_PAGE) sm" where
  "drop_old_root left tnode =
     bindE (free_page (this_page_pos tnode)) (\<lambda>_.
     bindE (walk_head_past tnode) (\<lambda>_.
     bindE (relink_root tnode left) (\<lambda>left1.
     bindE (upd_meta (\<lambda>m. m\<lparr>root_entry_page := this_page_pos left1\<rparr>)) (\<lambda>_.
     returnE (2, left1\<lparr>parent_page_pos := 0\<rparr>, tnode)))))"

definition drop_merged_item :: "nat \<Rightarrow> DIR_ENTRY_PAGE \<Rightarrow> DIR_ENTRY_PAGE \<Rightarrow> (bt_state, nat \<times> DIR_ENTRY_PAGE \<times> DIR_ENTRY_PAGE) sm" where
  "drop_merged_item left_node left tnode =
     bindE (drop_item left_node tnode) (\<lambda>tnode1.
     bindE (PWRITE tnode1 (this_page_pos tnode1)) (\<lambda>_.
     returnE (1, left, tnode1)))"

definition write_merged :: "nat \<times> DIR_ENTRY_PAGE \<times> DIR_ENTRY_PAGE \<Rightarrow> (bt_state, nat \<times> DIR_ENTRY_PAGE) sm" where
  "write_merged = (\<lambda>(to_return, left, tnode).
     bindE PWRITE_meta (\<lambda>_. bindE (PWRITE left (this_page_pos left)) (\<lambda>_. returnE (to_return, tnode))))"

definition finish_merge :: "nat \<Rightarrow> DIR_ENTRY_PAGE \<times> DIR_ENTRY_PAGE \<Rightarrow> (bt_state, nat \<times> DIR_ENTRY_PAGE) sm" where
  "finish_merge left_node = (\<lambda>(left, tnode).
     bindE (if num_entries tnode = 1 then drop_old_root left tnode else drop_merged_item left_node left tnode) write_merged)"

text \<open>Merging into the left page: the right page is freed and taken out of the tree walk list.\<close>

definition merge_pages ::
  "nat \<Rightarrow> DIR_ENTRY_PAGE \<Rightarrow> DIR_ENTRY_PAGE \<Rightarrow> DIR_ENTRY list \<Rightarrow> nat list \<Rightarrow> DIR_ENTRY_PAGE \<Rightarrow> (bt_state, nat \<times> DIR_ENTRY_PAGE) sm" where
  "merge_pages left_node left right tmp_entries temp tnode =
     bindE (free_page (this_page_pos right)) (\<lambda>_.
     bindE (walk_head_past right) (\<lambda>_.
     bindE (relink_next right (refill left (length tmp_entries) tmp_entries temp) tnode) (\<lambda>(left1, tnode1).
     bindE (relink_prev right left1 tnode1) (finish_merge left_node))))"

text \<open>Splitting the pooled entries at their median.\<close>

definition split_pages ::
  "nat \<Rightarrow> DIR_ENTRY_PAGE \<Rightarrow> DIR_ENTRY_PAGE \<Rightarrow> DIR_ENTRY list \<Rightarrow> nat list \<Rightarrow> DIR_ENTRY_PAGE \<Rightarrow> (bt_state, nat \<times> DIR_ENTRY_PAGE) sm" where
  "split_pages left_node left right tmp_entries temp tnode =
     (let temp_total = length tmp_entries; median_entry = temp_total div 2;
          left' = refill left median_entry tmp_entries temp;
          right' = refill right (temp_total - median_entry - 1) (drop (median_entry + 1) tmp_entries) (drop (median_entry + 1) temp);
          tnode' = tnode\<lparr>dir_entries := (dir_entries tnode)[left_node := tmp_entries ! median_entry]\<rparr>
      in bindE (PWRITE left' (this_page_pos left')) (\<lambda>_.
         bindE (PWRITE right' (this_page_pos right')) (\<lambda>_.
         bindE (PWRITE tnode' (this_page_pos tnode')) (\<lambda>_.
         returnE (1, tnode')))))"

definition pool_pages ::
  "nat \<Rightarrow> bool \<Rightarrow> DIR_ENTRY_PAGE \<Rightarrow> DIR_ENTRY_PAGE \<Rightarrow> DIR_ENTRY_PAGE \<Rightarrow> (bt_state, nat \<times> DIR_ENTRY_PAGE) sm" where
  "pool_pages left_node merging left right tnode = (\<lambda>s.
     let tmp_entries = pool_entries left (dir_entries tnode ! left_node) right;
         temp = pool_positions left right (temp_child_page_pos s)
     in (if merging then merge_pages else split_pages) left_node left right tmp_entries temp tnode (s\<lparr>temp_child_page_pos := temp\<rparr>))"

definition rebalance_btree :: "nat \<Rightarrow> DIR_ENTRY_PAGE \<Rightarrow> (bt_state, nat \<times> DIR_ENTRY_PAGE) sm" where
  "rebalance_btree selected_child tnode =
     (let child = child_page_pos tnode; n = num_entries tnode in
      if selected_child > n then failE (Errno EPERM)
      else if child ! selected_child = 0 then failE (Errno EPERM)
      else if selected_child = n then
        bindE (PREAD (child ! selected_child)) (\<lambda>right.
        if num_entries right > MIN_DIR_ENTRIES_PER_PAGE then returnE (0, tnode)
        else if selected_child = 0 then failE Crash
        else bindE (PREAD (child ! (selected_child - 1))) (\<lambda>left.
          pool_pages (selected_child - 1) (num_entries left < MAX_DIR_ENTRIES_PER_PAGE div 2) left right tnode))
      else
        bindE (PREAD (child ! selected_child)) (\<lambda>left.
        if num_entries left > MIN_DIR_ENTRIES_PER_PAGE then returnE (0, tnode)
        else bindE (PREAD (child ! (selected_child + 1))) (\<lambda>right.
          pool_pages selected_child (num_entries right < MAX_DIR_ENTRIES_PER_PAGE div 2) left right tnode)))"

subsection \<open>Deletion\<close>

definition read_root :: "(bt_state, DIR_ENTRY_PAGE) sm" where
  "read_root = (\<lambda>s. PREAD (root_entry_page (this_meta s)) s)"

text \<open>The page without its entry at the index.\<close>

definition remove_entry_at :: "nat \<Rightarrow> DIR_ENTRY_PAGE \<Rightarrow> DIR_ENTRY_PAGE" where
  "remove_entry_at i tnode = tnode\<lparr>dir_entries := memcpy_at (dir_entries tnode) i (dir_entries tnode) (i + 1) (num_entries tnode - i - 1),
     num_entries := num_entries tnode - 1\<rparr>"

fun extract_largest_child :: "nat \<Rightarrow> DIR_ENTRY_PAGE \<Rightarrow> (bt_state, DIR_ENTRY) sm" where
  "extract_largest_child 0 tnode = failE Hang"
| "extract_largest_child (Suc n) tnode =
     (let s_index = num_entries tnode in
      if child_page_pos tnode ! s_index = 0 then
        (if s_index = 0 then failE Crash
         else let tnode' = tnode\<lparr>num_entries := s_index - 1\<rparr>
           in bindE (PWRITE tnode' (this_page_pos tnode')) (\<lambda>_. returnE (dir_entries tnode ! (s_index - 1))))
      else
        bindE (rebalance_btree s_index tnode) (\<lambda>(ret_val, tnode1).
        if ret_val = 2 then bindE read_root (extract_largest_child n)
        else if ret_val > 0 then extract_largest_child n tnode1
        else bindE (PREAD (child_page_pos tnode1 ! s_index)) (extract_largest_child n)))"

fun delete_dir_entry_btree :: "nat \<Rightarrow> bool \<Rightarrow> DIR_ENTRY \<Rightarrow> DIR_ENTRY_PAGE \<Rightarrow> (bt_state, unit) sm" where
  "delete_dir_entry_btree 0 is_external to_delete_entry tnode = failE Hang"
| "delete_dir_entry_btree (Suc n) is_external to_delete_entry tnode =
     (case dentry_binary_search is_external (dir_entries tnode) (num_entries tnode) to_delete_entry of
        Found i \<Rightarrow>
          if child_page_pos tnode ! i = 0 then
            let tnode' = remove_entry_at i tnode in PWRITE tnode' (this_page_pos tnode')
          else
            bindE (rebalance_btree i tnode) (\<lambda>(ret_val, tnode1).
            if ret_val = 2 then bindE read_root (delete_dir_entry_btree n is_external to_delete_entry)
            else if ret_val > 0 then delete_dir_entry_btree n is_external to_delete_entry tnode1
            else bindE (PREAD (child_page_pos tnode1 ! i)) (\<lambda>temppage.
              bindE (extract_largest_child n temppage) (\<lambda>extracted_child.
              let tnode' = tnode1\<lparr>dir_entries := (dir_entries tnode1)[i := extracted_child]\<rparr>
              in PWRITE tnode' (this_page_pos tnode'))))
      | Insert_At s_index \<Rightarrow>
          if child_page_pos tnode ! s_index = 0 then failE (Errno ENOENT)
          else
            bindE (rebalance_btree s_index tnode) (\<lambda>(ret_val, tnode1).
            if ret_val = 2 then bindE read_root (delete_dir_entry_btree n is_external to_delete_entry)
            else if ret_val > 0 then delete_dir_entry_btree n is_external to_delete_entry tnode1
            else bindE (PREAD (child_page_pos tnode1 ! s_index)) (\<lambda>temppage.
              delete_dir_entry_btree n is_external to_delete_entry temppage)))"

end
