(* ===== verification/Dir_Remove.thy ===== *)
theory Dir_Remove
  imports Dir_Add Dir_Btree_Del
begin

text \<open>
  \<^verbatim>\<open>dir_remove_entry\<close> of \<^verbatim>\<open>metaops.c\<close>: an entry is deleted from the B-tree of a directory and the counts of the directory follow.
  The meta is loaded into \<open>this_meta\<close> and stored back at the end, as in \<^verbatim>\<open>dir_add_entry\<close>.
\<close>

text \<open>The name is copied with \<^verbatim>\<open>strcpy\<close>, so a name longer than the array is written behind it.\<close>

definition removed_entry :: "ino_t \<Rightarrow> string \<Rightarrow> file_kind \<Rightarrow> (bt_state, DIR_ENTRY) sm" where
  "removed_entry child_inode childname kind =
     (if length childname > MAX_FILENAME_LEN then failE Crash
      else returnE \<lparr>d_ino = child_inode, d_name = childname, d_type = d_type_of kind\<rparr>)"

text \<open>The link count is unsigned and 64 bits wide.\<close>

definition nlink_dec :: "nat \<Rightarrow> nat" where
  "nlink_dec n = (if n = 0 then 2 ^ 64 - 1 else n - 1)"

text \<open>
  The fuel of the recursion: on every level of the tree a child is rebalanced at most once before the code goes down, and the tree is not
  higher than the file is long.
\<close>

definition dir_remove_entry :: "nat list \<Rightarrow> bool \<Rightarrow> ino_t \<Rightarrow> string \<Rightarrow> file_kind \<Rightarrow> (bt_state, unit) sm" where
  "dir_remove_entry stack is_external child_inode childname kind = (\<lambda>s0.
     if \<not> meta_locked s0 then (Inl (Errno EPERM), s0)
     else
       bindE (removed_entry child_inode childname kind) (\<lambda>temp_entry.
       bindE bt_call (\<lambda>_.
       bindE (modifyE (load_meta stack)) (\<lambda>_.
       bindE bt_call (\<lambda>_.
       bindE bt_call (\<lambda>_.
       bindE bt_call (\<lambda>_ s.
       bindE (PREAD (root_entry_page (this_meta s))) (\<lambda>tpage.
       bindE (delete_dir_entry_btree (2 * file_end s + 1) is_external temp_entry tpage) (\<lambda>_.
       bindE (upd_meta (\<lambda>m. m\<lparr>total_children := total_children m - 1\<rparr>)) (\<lambda>_.
       bindE PWRITE_meta (\<lambda>_.
       modifyE (\<lambda>s. s\<lparr>dir_nlink := (if kind = S_IFDIR then nlink_dec (dir_nlink s) else dir_nlink s)\<rparr>))))) s)))))) s0)"

end
