(* ===== verification/Dir_Btree_Search.thy ===== *)
theory Dir_Btree_Search
  imports Dir_Btree
begin

text \<open>
  Search in the directory B-tree.  The binary search of a page is a linear search in the sorted keys of its entries; a
  tree of pages in the file represents a tree of entries (\<open>bt\<close>), and the search finds an entry exactly when the
  sorted list of all entries (\<open>inorder\<close>) has it.
\<close>

named_theorems page_simps \<open>fields of a page after an update\<close>

subsection \<open>Names are linearly ordered\<close>

lemma compare_bytes_order:
  "compare_bytes a b = 0 \<longleftrightarrow> a = b" "compare_bytes a b < 0 \<longleftrightarrow> a < b"
  by (induction a b rule: compare_bytes.induct) auto

definition entry_key :: "bool \<Rightarrow> DIR_ENTRY \<Rightarrow> nat list" where
  "entry_key x e = name_key x (d_name e)"

lemma compare_names_order:
  "compare_names x (d_name a) (d_name b) = 0 \<longleftrightarrow> entry_key x a = entry_key x b"
  "compare_names x (d_name a) (d_name b) < 0 \<longleftrightarrow> entry_key x a < entry_key x b"
  by (simp_all add: compare_names_def entry_key_def compare_bytes_order)

subsection \<open>Positions in a sorted list\<close>

text \<open>The number of elements smaller than \<open>k\<close>, and the search result it gives.\<close>

definition below :: "'k::linorder list \<Rightarrow> 'k \<Rightarrow> nat" where
  "below ks k = length (takeWhile (\<lambda>x. x < k) ks)"

definition linear_search :: "'k::linorder list \<Rightarrow> 'k \<Rightarrow> search_result" where
  "linear_search ks k = (let i = below ks k in if i < length ks \<and> ks ! i = k then Found i else Insert_At i)"

lemma below_le: "below ks k \<le> length ks"
  by (simp add: below_def length_takeWhile_le)

lemma below_eqI:
  assumes "i \<le> length ks" and "\<And>j. j < i \<Longrightarrow> ks ! j < k" and "i < length ks \<Longrightarrow> \<not> ks ! i < k"
  shows "below ks k = i"
proof -
  have "takeWhile (\<lambda>x. x < k) (take i ks @ drop i ks) = take i ks @ takeWhile (\<lambda>x. x < k) (drop i ks)"
    by (rule takeWhile_append2) (use assms(2) in \<open>auto simp: in_set_conv_nth\<close>)
  moreover have "takeWhile (\<lambda>x. x < k) (drop i ks) = []"
    using assms(3) by (cases "i < length ks") (simp_all add: Cons_nth_drop_Suc [symmetric])
  ultimately show ?thesis using assms(1) by (simp add: below_def)
qed

lemma linear_search_Found:
  "i < length ks \<Longrightarrow> sorted_wrt (<) ks \<Longrightarrow> ks ! i = k \<Longrightarrow> linear_search ks k = Found i"
  using below_eqI [of i ks k] by (auto simp: linear_search_def sorted_wrt_iff_nth_less)

lemma linear_search_Insert_At:
  assumes "i \<le> length ks" and "\<And>j. j < i \<Longrightarrow> ks ! j < k" and "\<And>j. i \<le> j \<Longrightarrow> j < length ks \<Longrightarrow> k < ks ! j"
  shows "linear_search ks k = Insert_At i"
proof -
  have "below ks k = i" by (rule below_eqI) (use assms in \<open>auto dest: less_not_sym\<close>)
  then show ?thesis using assms(3) [of i] by (auto simp: linear_search_def)
qed

lemma linear_search_FoundD: "linear_search ks k = Found i \<Longrightarrow> i < length ks \<and> ks ! i = k"
  by (auto simp: linear_search_def Let_def split: if_splits)

lemma linear_search_Insert_AtD:
  assumes "sorted_wrt (<) ks" and "linear_search ks k = Insert_At i"
  shows "i \<le> length ks \<and> (\<forall>x \<in> set (take i ks). x < k) \<and> (\<forall>x \<in> set (drop i ks). k < x)"
proof -
  have i: "i = below ks k" and ne: "\<not> (i < length ks \<and> ks ! i = k)"
    using assms(2) by (auto simp: linear_search_def Let_def split: if_splits)
  have tk: "take i ks = takeWhile (\<lambda>x. x < k) ks"
    unfolding i below_def by (rule takeWhile_eq_take [symmetric])
  have "k < x" if x: "x \<in> set (drop i ks)" for x
  proof -
    have "i < length ks" using x by (cases "i < length ks") auto
    then have "\<not> ks ! i < k" unfolding i below_def using nth_length_takeWhile [of "\<lambda>x. x < k" ks] by blast
    then have "k < ks ! i" using ne \<open>i < length ks\<close> by auto
    moreover obtain j where "j < length (drop i ks)" "drop i ks ! j = x"
      using x unfolding in_set_conv_nth by blast
    then have "ks ! i \<le> x"
      using assms(1) by (cases "j = 0") (auto simp: sorted_wrt_iff_nth_less intro!: less_imp_le)
    ultimately show ?thesis by (rule less_le_trans)
  qed
  then show ?thesis using tk i below_le by (auto dest: set_takeWhileD)
qed

subsection \<open>The binary search\<close>

text \<open>One turn of the loop, when the bounds are inside the array; the guards that only serve termination are gone.\<close>

lemma search_between_step:
  assumes "start_index < end_index" and "end_index \<le> num"
  obtains c where "start_index \<le> c" "c < end_index"
    "search_between x arr num e start_index end_index =
      (if entry_key x e = entry_key x (arr ! c) then Found c
       else if entry_key x e < entry_key x (arr ! c) then search_between x arr num e start_index c
       else search_between x arr num e (c + 1) end_index)"
proof -
  define c where "c = (if end_index = start_index + 1 then start_index else (end_index + start_index) div 2)"
  have c: "start_index \<le> c" "c < end_index" using assms(1) by (auto simp: c_def)
  have cn: "\<not> num \<le> c" using c(2) assms(2) by simp
  have "search_between x arr num e start_index end_index =
      (if entry_key x e = entry_key x (arr ! c) then Found c
       else if entry_key x e < entry_key x (arr ! c) then search_between x arr num e start_index c
       else search_between x arr num e (c + 1) end_index)"
    unfolding search_between.simps [of x arr num e start_index end_index] c_def [symmetric] Let_def
      if_not_P [OF cn] if_P [OF assms(1)] compare_names_order if_P [OF c(2)]
    using c(1) by (simp only: less_Suc_eq_le Suc_eq_plus1 [symmetric] if_True)
  then show ?thesis by (rule that [OF c])
qed

lemma search_between_linear:
  fixes arr num k x
  defines "ks \<equiv> map (entry_key x) (take num arr)"
  assumes "sorted_wrt (<) ks" and "num \<le> length arr" and "end_index \<le> num" and "start_index \<le> end_index"
    and "\<And>j. j < start_index \<Longrightarrow> ks ! j < entry_key x e"
    and "\<And>j. end_index \<le> j \<Longrightarrow> j < num \<Longrightarrow> entry_key x e < ks ! j"
  shows "search_between x arr num e start_index end_index = linear_search ks (entry_key x e)"
  using assms(4-)
proof (induction "end_index - start_index" arbitrary: start_index end_index rule: less_induct)
  case less
  have len: "length ks = num" using assms(3) by (simp add: ks_def)
  show ?case
  proof (cases "start_index < end_index")
    case False
    then have "linear_search ks (entry_key x e) = Insert_At start_index"
      using less.prems len by (intro linear_search_Insert_At) auto
    then show ?thesis using False by (simp add: search_between.simps)
  next
    case True
    obtain c where c: "start_index \<le> c" "c < end_index"
      and step: "search_between x arr num e start_index end_index =
        (if entry_key x e = entry_key x (arr ! c) then Found c
         else if entry_key x e < entry_key x (arr ! c) then search_between x arr num e start_index c
         else search_between x arr num e (c + 1) end_index)"
      by (rule search_between_step [OF True less.prems(1), of x arr e])
    have key: "entry_key x (arr ! c) = ks ! c" using c less.prems(1) assms(3) by (simp add: ks_def)
    have srt: "ks ! i < ks ! j" if "i < j" "j < num" for i j
      using assms(2) that len by (simp add: sorted_wrt_iff_nth_less)
    consider "entry_key x e = ks ! c" | "entry_key x e < ks ! c" | "ks ! c < entry_key x e" by fastforce
    then show ?thesis
    proof cases
      case 1
      then have "linear_search ks (entry_key x e) = Found c"
        using assms(2) c less.prems(1) len by (intro linear_search_Found) auto
      then show ?thesis using 1 by (simp add: step key)
    next
      case 2
      have "search_between x arr num e start_index c = linear_search ks (entry_key x e)"
      proof (rule less.hyps)
        fix j assume "c \<le> j" "j < num"
        then show "entry_key x e < ks ! j" using 2 srt [of c j] by (cases "c = j") (auto dest: less_trans)
      qed (use c less.prems True in auto)
      then show ?thesis using 2 by (auto simp: step key)
    next
      case 3
      have "search_between x arr num e (c + 1) end_index = linear_search ks (entry_key x e)"
      proof (rule less.hyps)
        fix j assume "j < c + 1"
        then show "ks ! j < entry_key x e" using 3 srt [of j c] c less.prems(1) by (cases "c = j") (auto dest: less_trans)
      qed (use c less.prems True in auto)
      then show ?thesis using 3 by (auto simp: step key)
    qed
  qed
qed

lemma dentry_binary_search_eq:
  assumes "sorted_wrt (<) (map (entry_key x) (take num arr))" and "num \<le> length arr"
  shows "dentry_binary_search x arr num e = linear_search (map (entry_key x) (take num arr)) (entry_key x e)"
  using assms search_between_linear [of x num arr num 0 e]
  by (auto simp: dentry_binary_search_def linear_search_def below_def)

end
