(* ===== verification/Dir_Btree_Tree.thy ===== *)
theory Dir_Btree_Tree
  imports Dir_Btree_Search
begin

text \<open>
  Trees of pages.  \<open>bt\<close> is a tree with the position, the entries and the children of each node; \<open>rep\<close> says that the
  pages of the file hold such a tree.  Only the entries, the children and the position of a page matter, not
  the links of the tree walk list.  The list of all entries in order is the contents of the directory.
\<close>

subsection \<open>Joining entries and the lists of the children\<close>

fun join :: "'a list \<Rightarrow> 'a list list \<Rightarrow> 'a list" where
  "join es [] = es"
| "join [] (x # xs) = x"
| "join (e # es) (x # xs) = x @ e # join es xs"

fun pre :: "'a list \<Rightarrow> 'a list list \<Rightarrow> 'a list" where
  "pre (e # es) (x # xs) = x @ e # pre es xs"
| "pre es xs = []"

fun post :: "'a list \<Rightarrow> 'a list list \<Rightarrow> 'a list" where
  "post (e # es) (x # xs) = e # x @ post es xs"
| "post es xs = []"

lemma join_pre: "length es = length xs \<Longrightarrow> ys \<noteq> [] \<Longrightarrow> join (es @ fs) (xs @ ys) = pre es xs @ join fs ys"
  by (induction es xs rule: list_induct2) auto

lemma join_post: "length es = length xs \<Longrightarrow> join es (y # xs) = y @ post es xs"
  by (induction es xs arbitrary: y rule: list_induct2) auto

lemma join_suffix:
  "length xs = Suc (length ms) \<Longrightarrow> length es = length ys \<Longrightarrow> join (ms @ es) (xs @ ys) = join ms xs @ post es ys"
proof (induction ms xs rule: join.induct)
  case (2 x xs)
  then show ?case by (simp add: join_post)
qed auto

lemma join_split:
  assumes "length xs = Suc (length es)" and "i \<le> length es"
  shows "join es xs = pre (take i es) (take i xs) @ xs ! i @ post (drop i es) (drop (Suc i) xs)"
proof -
  have "join es xs = join (take i es @ drop i es) (take i xs @ xs ! i # drop (Suc i) xs)"
    using assms by (simp add: Cons_nth_drop_Suc)
  also have "\<dots> = pre (take i es) (take i xs) @ join (drop i es) (xs ! i # drop (Suc i) xs)"
    using assms by (intro join_pre) auto
  finally show ?thesis using assms by (simp add: join_post)
qed

lemma join_at:
  assumes "length es = length xs" and "length fs = length ys"
  shows "join (es @ fs) (xs @ y # ys) = pre es xs @ y @ post fs ys"
    "join (es @ e # fs) (xs @ a # b # ys) = pre es xs @ a @ e # b @ post fs ys"
  using assms by (simp_all add: join_pre join_post)

lemma join_update:
  "length xs = Suc (length es) \<Longrightarrow> i \<le> length es \<Longrightarrow>
    join es (xs[i := y]) = pre (take i es) (take i xs) @ y @ post (drop i es) (drop (Suc i) xs)"
  by (subst join_split [of _ _ i]) auto

lemma join_insert:
  assumes "length xs = Suc (length es)" and "i \<le> length es"
  shows "join (take i es @ m # drop i es) (take i xs @ l # r # drop (Suc i) xs) =
    pre (take i es) (take i xs) @ l @ m # r @ post (drop i es) (drop (Suc i) xs)"
  using assms by (subst join_pre) (auto simp: join_post)

lemma join_median:
  assumes "length xs = Suc (length es)" and "m < length es"
  shows "join es xs = join (take m es) (take (Suc m) xs) @ es ! m # join (drop (Suc m) es) (drop (Suc m) xs)"
proof -
  have *: "join es xs = pre (take (Suc m) es) (take (Suc m) xs) @ join (drop (Suc m) es) (drop (Suc m) xs)"
    using assms join_pre [of "take (Suc m) es" "take (Suc m) xs" "drop (Suc m) xs" "drop (Suc m) es"] by simp
  have "pre (es @ [e]) (xs @ [x]) = join es (xs @ [x]) @ [e]" if "length es = length xs" for e x and es :: "'a list" and xs
    using that by (induction es xs rule: list_induct2) auto
  from this [of "take m es" "take m xs" "es ! m" "xs ! m"] show ?thesis
    using assms * by (simp add: take_Suc_conv_app_nth)
qed

lemma set_join: "length xs = Suc (length es) \<Longrightarrow> set (join es xs) = set es \<union> \<Union> (set ` set xs)"
  by (induction es xs rule: join.induct) auto

lemma sorted_join_entries: "sorted_wrt P (map f (join es xs)) \<Longrightarrow> sorted_wrt P (map f es)"
proof (induction es xs rule: join.induct)
  case (3 e es x xs)
  have "set es \<subseteq> set (join es xs)" by (induction es xs rule: join.induct) auto
  then show ?case using 3 by (auto simp: sorted_wrt_append)
qed auto

lemma pre_less:
  fixes f :: "'a \<Rightarrow> 'k::linorder"
  assumes "sorted_wrt (<) (map f (pre es xs))" and "\<forall>e \<in> set es. f e < k" and "y \<in> set (pre es xs)"
  shows "f y < k"
  using assms
proof (induction es xs rule: pre.induct)
  case (1 e es x xs)
  then have "\<forall>z \<in> set x. f z < f e" by (simp add: sorted_wrt_append)
  then show ?case using 1 by (auto simp: sorted_wrt_append intro: less_trans [of _ "f e"])
qed simp_all

lemma post_less:
  fixes f :: "'a \<Rightarrow> 'k::linorder"
  assumes "sorted_wrt (<) (map f (post es xs))" and "\<forall>e \<in> set es. k < f e" and "y \<in> set (post es xs)"
  shows "k < f y"
  using assms
proof (induction es xs rule: post.induct)
  case (1 e es x xs)
  then have "\<forall>z \<in> set x. f e < f z" by (simp add: sorted_wrt_append)
  then show ?case using 1 by (auto simp: sorted_wrt_append intro: less_trans [of _ "f e"])
qed simp_all

text \<open>With the entries left of \<open>i\<close> below \<open>k\<close> and the others above, only child \<open>i\<close> can hold \<open>k\<close>.\<close>

lemma join_bounds:
  fixes f :: "'a \<Rightarrow> 'k::linorder"
  assumes "sorted_wrt (<) (map f (join es xs))" and "length xs = Suc (length es)" and "i \<le> length es"
    and "\<forall>e \<in> set (take i es). f e < k" and "\<forall>e \<in> set (drop i es). k < f e"
  shows "\<forall>y \<in> set (pre (take i es) (take i xs)). f y < k" "\<forall>y \<in> set (post (drop i es) (drop (Suc i) xs)). k < f y"
    "sorted_wrt (<) (map f (xs ! i))"
  using assms by (auto simp: join_split [OF assms(2,3)] sorted_wrt_append intro: pre_less post_less)

subsection \<open>Trees\<close>

datatype bt = Node nat "DIR_ENTRY list" "bt list"

primrec root :: "bt \<Rightarrow> nat" where "root (Node p es cs) = p"

fun inorder :: "bt \<Rightarrow> DIR_ENTRY list" where
  "inorder (Node p es cs) = join es (map inorder cs)"

fun poss :: "bt \<Rightarrow> nat list" where
  "poss (Node p es cs) = p # concat (map poss cs)"

primrec fill :: "bt \<Rightarrow> nat" where "fill (Node p es cs) = length es"

text \<open>
  All leaves are at depth \<open>h\<close>, an inner node has one child more than it has entries, and every node except the root
  has at least \<^verbatim>\<open>MIN_DIR_ENTRIES_PER_PAGE\<close> entries.
\<close>

fun bal :: "nat \<Rightarrow> bt \<Rightarrow> bool" where
  "bal 0 (Node p es cs) \<longleftrightarrow> cs = []"
| "bal (Suc h) (Node p es cs) \<longleftrightarrow> es \<noteq> [] \<and> length cs = Suc (length es) \<and>
     (\<forall>c \<in> set cs. bal h c \<and> MIN_DIR_ENTRIES_PER_PAGE \<le> fill c)"

text \<open>A page holds entries and children; the rest of its arrays is arbitrary, in a leaf the children are 0.\<close>

definition holds :: "DIR_ENTRY_PAGE \<Rightarrow> nat \<Rightarrow> DIR_ENTRY list \<Rightarrow> nat list \<Rightarrow> bool" where
  "holds pg p es ps \<longleftrightarrow> this_page_pos pg = p \<and> num_entries pg = length es \<and> length es \<le> MAX_DIR_ENTRIES_PER_PAGE \<and>
     length (dir_entries pg) = MAX_DIR_ENTRIES_PER_PAGE \<and> take (length es) (dir_entries pg) = es \<and>
     length (child_page_pos pg) = MAX_DIR_ENTRIES_PER_PAGE + 1 \<and>
     (if ps = [] then child_page_pos pg = replicate (MAX_DIR_ENTRIES_PER_PAGE + 1) 0
      else length ps = Suc (length es) \<and> take (length ps) (child_page_pos pg) = ps)"

fun rep :: "(nat \<Rightarrow> DIR_ENTRY_PAGE) \<Rightarrow> bt \<Rightarrow> bool" where
  "rep P (Node p es cs) \<longleftrightarrow> p \<noteq> 0 \<and> holds (P p) p es (map root cs) \<and> (\<forall>c \<in> set cs. rep P c)"

definition same_core :: "DIR_ENTRY_PAGE \<Rightarrow> DIR_ENTRY_PAGE \<Rightarrow> bool" where
  "same_core a b \<longleftrightarrow> this_page_pos a = this_page_pos b \<and> num_entries a = num_entries b \<and>
     dir_entries a = dir_entries b \<and> child_page_pos a = child_page_pos b"

lemma same_core_refl [simp]: "same_core a a"
  by (simp add: same_core_def)

lemma same_core_trans: "same_core a b \<Longrightarrow> same_core b c \<Longrightarrow> same_core a c"
  by (simp add: same_core_def)

lemma same_core_walk [simp]:
  "same_core (p\<lparr>tree_walk_prev := a\<rparr>) p" "same_core (p\<lparr>tree_walk_next := a\<rparr>) p" "same_core (p\<lparr>parent_page_pos := a\<rparr>) p"
  by (simp_all add: same_core_def)

lemma holds_core: "same_core a b \<Longrightarrow> holds a p es ps = holds b p es ps"
  by (simp add: same_core_def holds_def)

lemma root_in_poss [simp]: "root t \<in> set (poss t)"
  by (cases t) simp

lemma poss_child: "c \<in> set cs \<Longrightarrow> q \<in> set (poss c) \<Longrightarrow> q \<in> set (poss (Node p es cs))"
  by auto

lemma rep_cong: "(\<And>q. q \<in> set (poss t) \<Longrightarrow> same_core (P q) (Q q)) \<Longrightarrow> rep P t = rep Q t"
proof (induction t)
  case (Node p es cs)
  have "rep P c = rep Q c" if "c \<in> set cs" for c
    using that by (rule Node.IH) (rule Node.prems, use that in auto)
  then show ?case using Node.prems [of p] by (simp add: holds_core)
qed

lemma rep_root: "rep P t \<Longrightarrow> root t \<noteq> 0"
  by (cases t) simp

lemma rep_holds: "rep P (Node p es cs) \<Longrightarrow> holds (P p) p es (map root cs)"
  by simp

text \<open>The child the code follows: 0 in a leaf, the root of the child otherwise.\<close>

lemma holds_leaf: "holds pg p es [] \<Longrightarrow> i \<le> length es \<Longrightarrow> child_page_pos pg ! i = 0"
  by (simp add: holds_def)

lemma holds_child:
  assumes "holds pg p es (map root cs)" and "cs \<noteq> []" and "i \<le> length es"
  shows "child_page_pos pg ! i = root (cs ! i)"
proof -
  have "take (length cs) (child_page_pos pg) = map root cs" "i < length cs"
    using assms by (auto simp: holds_def)
  then show ?thesis using assms(3) by (metis nth_map nth_take)
qed

lemma holds_search:
  assumes "holds pg p es ps" and "sorted_wrt (<) (map (entry_key x) es)"
  shows "dentry_binary_search x (dir_entries pg) (num_entries pg) e = linear_search (map (entry_key x) es) (entry_key x e)"
  using assms dentry_binary_search_eq [of x "num_entries pg" "dir_entries pg" e] by (simp add: holds_def)

subsection \<open>The search\<close>

lemma bt_call_ok [simp]: "bt_os s = [] \<Longrightarrow> bt_call s = (Inr (), s)"
  by (simp add: bt_call_def)

lemma PREAD_ok [simp]: "bt_os s = [] \<Longrightarrow> p < file_end s \<Longrightarrow> PREAD p s = (Inr (pages s p), s)"
  by (simp add: PREAD_def)

text \<open>A tree of height \<open>h\<close> in the file: its pages are different and inside the file.\<close>

definition tree_in :: "bt_state \<Rightarrow> nat \<Rightarrow> bt \<Rightarrow> bool" where
  "tree_in s h t \<longleftrightarrow> rep (pages s) t \<and> bal h t \<and> distinct (poss t) \<and> (\<forall>p \<in> set (poss t). p + sizeof_page \<le> file_end s)"

definition is_sorted :: "bool \<Rightarrow> bt \<Rightarrow> bool" where
  "is_sorted x t \<longleftrightarrow> sorted_wrt (<) (map (entry_key x) (inorder t))"

lemma distinct_concat_nth:
  "distinct (concat xss) \<Longrightarrow> i < length xss \<Longrightarrow> distinct (xss ! i)"
  by (simp add: distinct_concat_iff)

lemma tree_in_child:
  assumes "tree_in s (Suc h) (Node p es cs)" and "i \<le> length es"
  shows "tree_in s h (cs ! i)" "cs ! i \<in> set cs"
proof -
  have i: "i < length cs" using assms by (simp add: tree_in_def)
  then show "cs ! i \<in> set cs" by simp
  moreover have "distinct (poss (cs ! i))"
    using assms(1) i distinct_concat_nth [of "map poss cs" i] by (simp add: tree_in_def)
  ultimately show "tree_in s h (cs ! i)" using assms(1) by (auto simp: tree_in_def)
qed

text \<open>What the binary search of the root's page says about the whole tree.\<close>

lemma root_search:
  assumes "tree_in s h (Node p es cs)" and "is_sorted x (Node p es cs)" and "same_core tnode (pages s p)"
  shows "dentry_binary_search x (dir_entries tnode) (num_entries tnode) e = linear_search (map (entry_key x) es) (entry_key x e)"
    "sorted_wrt (<) (map (entry_key x) es)" "holds tnode p es (map root cs)"
proof -
  show h: "holds tnode p es (map root cs)" using assms(1) holds_core [OF assms(3)] by (simp add: tree_in_def)
  show srt: "sorted_wrt (<) (map (entry_key x) es)"
    using assms(2) sorted_join_entries [of "(<)" "entry_key x" es "map inorder cs"] by (simp add: is_sorted_def)
  show "dentry_binary_search x (dir_entries tnode) (num_entries tnode) e = linear_search (map (entry_key x) es) (entry_key x e)"
    by (rule holds_search [OF h srt])
qed

lemma entries_in_inorder: "bal h (Node p es cs) \<Longrightarrow> set es \<subseteq> set (inorder (Node p es cs))"
  by (cases h) (auto simp: set_join)

lemma descend:
  assumes "bal (Suc h) (Node p es cs)" and "is_sorted x (Node p es cs)"
    and "linear_search (map (entry_key x) es) k = Insert_At i"
  obtains A B where "i \<le> length es" "inorder (Node p es cs) = A @ inorder (cs ! i) @ B"
    "\<forall>y \<in> set A. entry_key x y < k" "\<forall>y \<in> set B. k < entry_key x y" "is_sorted x (cs ! i)"
    "A = pre (take i es) (take i (map inorder cs))" "B = post (drop i es) (drop (Suc i) (map inorder cs))"
proof -
  have srt: "sorted_wrt (<) (map (entry_key x) (join es (map inorder cs)))" using assms(2) by (simp add: is_sorted_def)
  have len: "length (map inorder cs) = Suc (length es)" using assms(1) by simp
  have i: "i \<le> length es \<and> (\<forall>y \<in> set (take i es). entry_key x y < k) \<and> (\<forall>y \<in> set (drop i es). k < entry_key x y)"
    using linear_search_Insert_AtD [OF sorted_join_entries [OF srt] assms(3)] by (auto simp: take_map drop_map)
  show ?thesis
    by (rule that [OF _ _ join_bounds(1,2) [OF srt len] _ refl refl])
      (use i join_split [OF len, of i] join_bounds(3) [OF srt len] len in \<open>auto simp: is_sorted_def\<close>)
qed

lemma leaf_not_found:
  assumes "sorted_wrt (<) (map f es)" and "linear_search (map f es) k = Insert_At i"
  shows "k \<notin> f ` set es"
proof -
  have "map f es = take i (map f es) @ drop i (map f es)" by simp
  then have "f ` set es = set (take i (map f es)) \<union> set (drop i (map f es))" by (metis list.set_map set_append)
  then show ?thesis using linear_search_Insert_AtD [OF assms] by (auto simp: take_map drop_map)
qed

lemma child_in_inorder: "bal (Suc h) (Node p es cs) \<Longrightarrow> c \<in> set cs \<Longrightarrow> set (inorder c) \<subseteq> set (inorder (Node p es cs))"
  by (auto simp: set_join)

lemma follow_child:
  assumes "tree_in s (Suc h) (Node p es cs)" and "holds tnode p es (map root cs)" and "i \<le> length es"
  shows "child_page_pos tnode ! i = root (cs ! i)" "root (cs ! i) \<noteq> 0" "root (cs ! i) < file_end s"
proof -
  have "cs \<noteq> []" using assms(1) by (auto simp: tree_in_def)
  then show "child_page_pos tnode ! i = root (cs ! i)" using assms holds_child by blast
  have "tree_in s h (cs ! i)" by (rule tree_in_child(1) [OF assms(1,3)])
  then have "root (cs ! i) + sizeof_page \<le> file_end s" "rep (pages s) (cs ! i)"
    using root_in_poss unfolding tree_in_def by blast+
  then show "root (cs ! i) \<noteq> 0" "root (cs ! i) < file_end s" using rep_root by auto
qed

lemma search_dir_entry_btree_spec:
  assumes "tree_in s h t" and "is_sorted x t" and "bt_os s = []" and "h < depth" and "same_core tnode (pages s (root t))"
  shows "search_dir_entry_btree depth x nm tnode s = (Inl (Errno ENOENT), s) \<and> name_key x nm \<notin> entry_key x ` set (inorder t) \<or>
    (\<exists>i pg. search_dir_entry_btree depth x nm tnode s = (Inr (i, pg), s) \<and> i < num_entries pg \<and>
       dir_entries pg ! i \<in> set (inorder t) \<and> entry_key x (dir_entries pg ! i) = name_key x nm \<and>
       (\<exists>q \<in> set (poss t). same_core pg (pages s q)))"
  using assms
proof (induction depth arbitrary: h t tnode)
  case (Suc depth)
  obtain p es cs where t: "t = Node p es cs" by (cases t)
  define e where "e = zero_dentry\<lparr>d_name := nm\<rparr>"
  have key: "entry_key x e = name_key x nm" by (simp add: e_def entry_key_def)
  note rs = root_search [OF Suc.prems(1,2,5) [unfolded t root.simps]]
  note rs1 = rs(1) [of e, unfolded key]
  show ?case
  proof (cases "linear_search (map (entry_key x) es) (name_key x nm)")
    case (Found i)
    from linear_search_FoundD [OF this] have i: "i < length es" "entry_key x (es ! i) = name_key x nm" by auto
    then have "dir_entries tnode ! i = es ! i" "i < num_entries tnode"
      using rs(3) by (auto simp: holds_def) (metis nth_take)
    moreover have "es ! i \<in> set (inorder t)"
      using i(1) Suc.prems(1) entries_in_inorder [of h p es cs] by (auto simp: t tree_in_def)
    moreover have "\<exists>q \<in> set (poss t). same_core tnode (pages s q)" using Suc.prems(5) by (rule_tac bexI [of _ "root t"]) auto
    ultimately show ?thesis using rs1 Found i(2) by (simp add: e_def)
  next
    case (Insert_At i)
    note at = linear_search_Insert_AtD [OF rs(2) Insert_At]
    then have i: "i \<le> length es" by simp
    show ?thesis
    proof (cases h)
      case 0
      then have cs: "cs = []" using Suc.prems(1) by (simp add: t tree_in_def)
      then have "child_page_pos tnode ! i = 0" using rs(3) i holds_leaf [of tnode p es i] by simp
      moreover have "name_key x nm \<notin> entry_key x ` set (inorder t)"
        using leaf_not_found [OF rs(2) Insert_At] by (simp add: t cs)
      ultimately show ?thesis using rs1 Insert_At by (simp add: e_def)
    next
      case (Suc h')
      note tr = Suc.prems(1) [unfolded t Suc]
      note ci = follow_child [OF tr rs(3) i]
      obtain A B where AB: "inorder t = A @ inorder (cs ! i) @ B" "\<forall>y \<in> set A. entry_key x y < name_key x nm"
        "\<forall>y \<in> set B. name_key x nm < entry_key x y" "is_sorted x (cs ! i)"
        using descend [of h' p es cs x _ i] tr Suc.prems(2) Insert_At unfolding t by (metis tree_in_def)
      have step: "search_dir_entry_btree (Suc depth) x nm tnode s = search_dir_entry_btree depth x nm (pages s (root (cs ! i))) s"
        using rs1 Insert_At ci Suc.prems(3) by (simp add: e_def)
      have "name_key x nm \<notin> entry_key x ` set A" "name_key x nm \<notin> entry_key x ` set B" using AB by auto
      moreover have "set (poss (cs ! i)) \<subseteq> set (poss t)" using tree_in_child(2) [OF tr i] by (auto simp: t)
      moreover have "set (inorder (cs ! i)) \<subseteq> set (inorder t)" by (auto simp: AB(1))
      moreover have "h' < depth" using Suc.prems(4) Suc by simp
      ultimately show ?thesis unfolding step
        using Suc.IH [OF tree_in_child(1) [OF tr i] AB(4) Suc.prems(3), of "pages s (root (cs ! i))"]
        by (auto simp: AB(1) image_Un)
    qed
  qed
qed simp

end
