(* ===== verification/Dir_Btree_Insert.thy ===== *)
theory Dir_Btree_Insert
  imports Dir_Btree_Tree "HOL-Library.Multiset"
begin

text \<open>
  Insertion into the directory B-tree, against insertion into the sorted list of entries.
\<close>

subsection \<open>Arrays\<close>

lemma array_insert_eq:
  assumes "i \<le> n" and "n < length arr"
  shows "array_insert i x n arr = take i arr @ x # take (n - i) (drop i arr) @ drop (Suc n) arr"
proof (cases "i < n")
  case True
  have "take (Suc i) arr = take i arr @ [arr ! i]" using assms by (simp add: take_Suc_conv_app_nth)
  then show ?thesis using assms True by (simp add: array_insert_def memcpy_at_def list_update_append)
next
  case False
  then show ?thesis using assms by (simp add: array_insert_def upd_conv_take_nth_drop)
qed

lemma array_insert_take:
  assumes "i \<le> n" and "n < length arr"
  shows "take (Suc n) (array_insert i x n arr) = take i (take n arr) @ x # drop i (take n arr)"
    "length (array_insert i x n arr) = length arr"
proof -
  have "array_insert i x n arr = (take i (take n arr) @ x # drop i (take n arr)) @ drop (Suc n) arr"
    using assms by (simp add: array_insert_eq drop_take min_def)
  then show "take (Suc n) (array_insert i x n arr) = take i (take n arr) @ x # drop i (take n arr)"
    "length (array_insert i x n arr) = length arr" using assms by (simp_all add: Suc_diff_le)
qed

lemma pooled_eq: "n \<le> length arr \<Longrightarrow> i \<le> n \<Longrightarrow> pooled i x n arr = take i (take n arr) @ x # drop i (take n arr)"
  by (simp add: pooled_def drop_take min_def)

lemma shift_children_eq:
  assumes "i \<le> n" and "n = num_entries tnode" and "Suc n < length (child_page_pos tnode)" and "n \<le> length (temp_child_page_pos s)"
  obtains tmp where "length tmp = length (temp_child_page_pos s)"
    "shift_children i np tnode s = (Inr (take (Suc i) (child_page_pos tnode) @ np #
       take (n - i) (drop (Suc i) (child_page_pos tnode)) @ drop (Suc (Suc n)) (child_page_pos tnode)), s\<lparr>temp_child_page_pos := tmp\<rparr>)"
proof (cases "i < n")
  case True
  define c where "c = child_page_pos tnode"
  define tmp where "tmp = memcpy_at (temp_child_page_pos s) 0 c (i + 1) (n - i)"
  have tk: "take (n - i) tmp = take (n - i) (drop (Suc i) c)" "length tmp = length (temp_child_page_pos s)"
    using assms True by (auto simp: tmp_def c_def memcpy_at_def)
  have "take (i + 2) c = take (Suc i) c @ [c ! Suc i]" using assms(1,3) by (simp add: take_Suc_conv_app_nth c_def)
  then have "(memcpy_at c (i + 2) tmp 0 (n - i))[i + 1 := np] =
      take (Suc i) c @ np # take (n - i) (drop (Suc i) c) @ drop (Suc (Suc n)) c"
    using tk assms True by (simp add: memcpy_at_def list_update_append c_def)
  then have "shift_children i np tnode s = (Inr (take (Suc i) c @ np # take (n - i) (drop (Suc i) c) @ drop (Suc (Suc n)) c),
      s\<lparr>temp_child_page_pos := tmp\<rparr>)"
    using True assms(2) unfolding shift_children_def Let_def c_def [symmetric] by (simp add: tmp_def)
  then show ?thesis using that [OF tk(2)] by (simp add: c_def)
next
  case False
  then show ?thesis using assms that [of "temp_child_page_pos s"]
    by (simp add: shift_children_def Let_def upd_conv_take_nth_drop)
qed

lemma pool_children_eq:
  assumes "i \<le> n" and "n = num_entries tnode" and "n < length (child_page_pos tnode)" and "n + 2 < length (temp_child_page_pos s)"
  obtains tmp where "length tmp = length (temp_child_page_pos s)"
    "pool_children i np tnode s = (Inr tmp, s\<lparr>temp_child_page_pos := tmp\<rparr>)"
    "take (n + 2) tmp = (if i = 0 then [temp_child_page_pos s ! 0] else take (Suc i) (child_page_pos tnode)) @ np #
       take (n - i) (drop (Suc i) (child_page_pos tnode))"
proof -
  define c where "c = child_page_pos tnode"
  define hd1 where "hd1 = (if i = 0 then [temp_child_page_pos s ! 0] else take (Suc i) c)"
  define t1 where "t1 = (if i > 0 then memcpy_at (temp_child_page_pos s) 0 c 0 (i + 1) else temp_child_page_pos s)"
  define t2 where "t2 = t1[i + 1 := np]"
  define t3 where "t3 = (if i < n then memcpy_at t2 (i + 2) c (i + 1) (n - i) else t2)"
  have len: "length t1 = length (temp_child_page_pos s)" using assms by (auto simp: t1_def memcpy_at_def c_def)
  have "take (Suc 0) (temp_child_page_pos s) = [temp_child_page_pos s ! 0]"
    using assms(4) by (cases "temp_child_page_pos s") auto
  then have h1: "take (Suc i) t1 = hd1" "length hd1 = Suc i"
    using assms by (auto simp: t1_def hd1_def memcpy_at_def c_def)
  have t2: "take (i + 2) t2 = hd1 @ [np]" "length t2 = length (temp_child_page_pos s)"
    using len h1 assms(1,4) by (simp_all add: t2_def take_Suc_conv_app_nth)
  have "take (n + 2) t3 = hd1 @ np # take (n - i) (drop (Suc i) c)" "length t3 = length (temp_child_page_pos s)"
    using t2 h1 assms by (auto simp: t3_def memcpy_at_def c_def Suc_diff_le)
  moreover have "pool_children i np tnode s = (Inr t3, s\<lparr>temp_child_page_pos := t3\<rparr>)"
    by (simp add: pool_children_def Let_def assms(2) t1_def t2_def t3_def c_def)
  ultimately show ?thesis using that by (simp add: hd1_def c_def)
qed

subsection \<open>Free pages\<close>

fun gc_chain :: "(nat \<Rightarrow> DIR_ENTRY_PAGE) \<Rightarrow> nat \<Rightarrow> nat list \<Rightarrow> bool" where
  "gc_chain P g [] \<longleftrightarrow> g = 0"
| "gc_chain P g (a # as) \<longleftrightarrow> g = a \<and> a \<noteq> 0 \<and> length (dir_entries (P a)) = MAX_DIR_ENTRIES_PER_PAGE \<and>
     gc_chain P (gc_list_next (P a)) as"

lemma gc_chain_cong:
  "(\<And>q. q \<in> set gcl \<Longrightarrow> gc_list_next (P q) = gc_list_next (Q q) \<and> length (dir_entries (P q)) = length (dir_entries (Q q))) \<Longrightarrow>
    gc_chain P g gcl = gc_chain Q g gcl"
  by (induction gcl arbitrary: g) auto

text \<open>
  The pages of the file: \<open>U\<close> are in use, \<open>gcl\<close> is the list of free pages.  The head of the tree walk list is a page of the file;
  no call fails and there is space for a page.
\<close>

definition space_ok :: "bt_state \<Rightarrow> nat list \<Rightarrow> nat set \<Rightarrow> bool" where
  "space_ok s gcl U \<longleftrightarrow> gc_chain (pages s) (entry_page_gc_list (this_meta s)) gcl \<and> distinct gcl \<and> set gcl \<inter> U = {} \<and>
     (\<forall>p \<in> set gcl \<union> U. p + sizeof_page \<le> file_end s) \<and> 0 < file_end s \<and>
     tree_walk_list_head (this_meta s) + sizeof_page \<le> file_end s \<and>
     MAX_DIR_ENTRIES_PER_PAGE + 3 \<le> length (temp_child_page_pos s) \<and> \<not> no_meta_space s \<and> bt_os s = []"

text \<open>
  The links of the tree walk list in the pages in use, and its head, lead to pages of the directory \<open>A\<close>, maybe to free ones.
\<close>

definition page_links :: "nat set \<Rightarrow> DIR_ENTRY_PAGE \<Rightarrow> bool" where
  "page_links A pg \<longleftrightarrow> tree_walk_next pg \<in> insert 0 A \<and> tree_walk_prev pg \<in> insert 0 A"

definition links :: "nat set \<Rightarrow> bt_state \<Rightarrow> nat set \<Rightarrow> bool" where
  "links A s U \<longleftrightarrow> (\<forall>p \<in> U. page_links A (pages s p)) \<and> tree_walk_list_head (this_meta s) \<in> insert 0 A \<and> 0 \<notin> A"

definition pages_ok :: "bt_state \<Rightarrow> nat list \<Rightarrow> nat set \<Rightarrow> bool" where
  "pages_ok s gcl U \<longleftrightarrow> space_ok s gcl U \<and> links (U \<union> set gcl) s U"

lemma page_links_mono: "page_links A pg \<Longrightarrow> A \<subseteq> B \<Longrightarrow> page_links B pg"
  by (auto simp: page_links_def)

lemma links_mono: "links A s U \<Longrightarrow> A \<subseteq> B \<Longrightarrow> 0 \<notin> B \<Longrightarrow> links B s U"
  by (auto simp: links_def page_links_def)

text \<open>What insertion keeps of the state, apart from the pages \<open>X\<close>.\<close>

definition kept :: "nat set \<Rightarrow> bt_state \<Rightarrow> bt_state \<Rightarrow> bool" where
  "kept X s s' \<longleftrightarrow> (\<forall>q. q \<notin> X \<longrightarrow> same_core (pages s' q) (pages s q)) \<and> file_end s \<le> file_end s' \<and>
     root_entry_page (this_meta s') = root_entry_page (this_meta s) \<and>
     total_children (this_meta s') = total_children (this_meta s) \<and> dir_nlink s' = dir_nlink s \<and> meta_locked s' = meta_locked s \<and>
     length (temp_child_page_pos s') = length (temp_child_page_pos s) \<and>
     (tree_walk_list_head (this_meta s) \<noteq> 0 \<longrightarrow> tree_walk_list_head (this_meta s') \<noteq> 0)"

lemma kept_refl [simp]: "kept X s s"
  by (simp add: kept_def)

lemma kept_trans: "kept X s s' \<Longrightarrow> kept Y s' s'' \<Longrightarrow> kept (X \<union> Y) s s''"
  by (auto simp: kept_def intro: same_core_trans)

lemma kept_mono: "kept X s s' \<Longrightarrow> X \<subseteq> Y \<Longrightarrow> kept Y s s'"
  by (auto simp: kept_def)

lemma PWRITE_ok [simp]:
  "bt_os s = [] \<Longrightarrow> p + sizeof_page \<le> file_end s \<Longrightarrow> PWRITE pg p s = (Inr (), s\<lparr>pages := (pages s)(p := pg)\<rparr>)"
  by (simp add: PWRITE_def)

lemma space_ok_write:
  assumes "space_ok s gcl U" and "p \<notin> set gcl"
  shows "space_ok (s\<lparr>pages := (pages s)(p := pg)\<rparr>) gcl U"
proof -
  have "gc_chain ((pages s)(p := pg)) g gcl = gc_chain (pages s) g gcl" for g
    by (rule gc_chain_cong) (use assms(2) in auto)
  then show ?thesis using assms(1) by (simp add: space_ok_def)
qed

lemma pages_ok_write:
  assumes "pages_ok s gcl U" and "p \<in> U" and "page_links (U \<union> set gcl) pg"
  shows "pages_ok (s\<lparr>pages := (pages s)(p := pg)\<rparr>) gcl U"
proof -
  have "p \<notin> set gcl" "space_ok s gcl U" using assms(1,2) by (auto simp: pages_ok_def space_ok_def)
  from space_ok_write [OF this(2,1), of pg] show ?thesis using assms by (auto simp: pages_ok_def links_def)
qed

lemma pages_ok_temp:
  assumes "pages_ok s gcl U" and "length tmp = length (temp_child_page_pos s)"
  shows "pages_ok (s\<lparr>temp_child_page_pos := tmp\<rparr>) gcl U"
  using assms by (simp add: pages_ok_def space_ok_def links_def)

lemma take_page_spec:
  assumes "space_ok s gcl U"
  obtains pg gcl' g where
    "take_page c s = (Inr pg, s\<lparr>this_meta := (this_meta s)\<lparr>entry_page_gc_list := g\<rparr>\<rparr>)"
    "this_page_pos pg \<noteq> 0" "this_page_pos pg \<notin> U \<union> set gcl'" "length (dir_entries pg) = MAX_DIR_ENTRIES_PER_PAGE"
    "this_page_pos pg \<le> file_end s" "set gcl \<subseteq> insert (this_page_pos pg) (set gcl')" "set gcl' \<subseteq> set gcl"
    "space_ok (s\<lparr>this_meta := (this_meta s)\<lparr>entry_page_gc_list := g\<rparr>\<rparr>) gcl' U"
proof (cases gcl)
  case Nil
  then have g: "entry_page_gc_list (this_meta s) = 0" using assms by (simp add: space_ok_def)
  then have eq: "s\<lparr>this_meta := (this_meta s)\<lparr>entry_page_gc_list := 0\<rparr>\<rparr> = s" by (simp flip: g)
  show ?thesis
    by (rule that [of "zero_page\<lparr>this_page_pos := file_end s\<rparr>" 0 "[]"])
      (use assms Nil g in \<open>auto simp: take_page_def space_ok_def zero_page_def eq\<close>)
next
  case (Cons a as)
  then have a: "entry_page_gc_list (this_meta s) = a" "a \<noteq> 0" "a < file_end s" using assms by (auto simp: space_ok_def)
  show ?thesis
    by (rule that [of "(pages s a)\<lparr>this_page_pos := a\<rparr>" "gc_list_next (pages s a)" as])
      (use assms Cons a in \<open>auto simp: take_page_def space_ok_def upd_meta_def\<close>)
qed

text \<open>Linking the new page into the tree walk list changes no entries, children or free list links.\<close>

lemma link_walk_spec:
  assumes "space_ok s gcl U"
  obtains tn P' where "link_walk np tnode s = (Inr tn, s\<lparr>pages := P'\<rparr>)" "same_core tn tnode"
    "\<And>q. same_core (P' q) (pages s q)" "space_ok (s\<lparr>pages := P'\<rparr>) gcl U"
    "np \<in> A \<Longrightarrow> page_links A tnode \<Longrightarrow> page_links A tn"
    "np \<in> A \<Longrightarrow> links A s U \<Longrightarrow> links A (s\<lparr>pages := P'\<rparr>) U"
proof (cases "tree_walk_list_head (this_meta s) = this_page_pos tnode")
  case True
  then show ?thesis using assms
    by (intro that [of "tnode\<lparr>tree_walk_prev := np\<rparr>" "pages s"]) (auto simp: link_walk_def page_links_def)
next
  case False
  define hd1 where "hd1 = tree_walk_list_head (this_meta s)"
  have hd1: "hd1 + sizeof_page \<le> file_end s" "bt_os s = []" using assms by (auto simp: space_ok_def hd1_def)
  define P' where "P' = (pages s)(hd1 := (pages s hd1)\<lparr>tree_walk_prev := np\<rparr>)"
  have "gc_chain P' g gcl = gc_chain (pages s) g gcl" for g by (rule gc_chain_cong) (simp add: P'_def)
  then have "space_ok (s\<lparr>pages := P'\<rparr>) gcl U" using assms by (simp add: space_ok_def)
  moreover have "links A (s\<lparr>pages := P'\<rparr>) U" if "np \<in> A" "links A s U"
    using that by (auto simp: links_def page_links_def P'_def)
  ultimately show ?thesis using hd1 False
    by (intro that [of tnode P']) (simp_all add: link_walk_def P'_def Let_def flip: hd1_def)
qed

text \<open>The state after the writes of a split: the old page, the new page and the head of the tree walk list.\<close>

lemma split_writes:
  assumes "space_ok s gcl U" and "p \<in> U" and "np \<notin> U \<union> set gcl"
  shows "space_ok (s\<lparr>pages := (pages s)(p := a, np := b), this_meta := (this_meta s)\<lparr>tree_walk_list_head := np\<rparr>,
     disk_meta := (this_meta s)\<lparr>tree_walk_list_head := np\<rparr>, file_end := max (file_end s) (np + sizeof_page)\<rparr>) gcl (insert np U)"
proof -
  have "gc_chain ((pages s)(p := a, np := b)) g gcl = gc_chain (pages s) g gcl" for g
    by (rule gc_chain_cong) (use assms in \<open>auto simp: space_ok_def\<close>)
  moreover have "q + sizeof_page \<le> max (file_end s) (np + sizeof_page)" if "q \<in> set gcl \<union> U \<or> q = tree_walk_list_head (this_meta s)" for q
    using that assms(1) by (auto simp: space_ok_def intro!: max.coboundedI1)
  ultimately show ?thesis using assms by (auto simp: space_ok_def)
qed

lemma new_page_holds:
  assumes "length right \<le> MAX_DIR_ENTRIES_PER_PAGE" and "length arr = MAX_DIR_ENTRIES_PER_PAGE"
    and "rc = [] \<or> length rc = Suc (length right)"
    and "this_page_pos pg = np" and "num_entries pg = length right" and "dir_entries pg = memcpy_at arr 0 right 0 (length right)"
    and "child_page_pos pg = memcpy_at (replicate (MAX_DIR_ENTRIES_PER_PAGE + 1) 0) 0 rc 0 (length rc)"
  shows "holds pg np right rc"
  using assms by (auto simp: holds_def memcpy_at_def)

lemma finish_split_spec:
  assumes ok: "pages_ok s gcl U" and "this_page_pos tnode \<in> U" and "length right \<le> MAX_DIR_ENTRIES_PER_PAGE"
    and "rc = [] \<or> length rc = Suc (length right)" and lk: "page_links (U \<union> set gcl) tnode"
  obtains tn np gcl' s' where "finish_split c tnode right rc s = (Inr (tn, np), s')"
    "np \<noteq> 0" "np \<notin> U" "same_core (pages s' (this_page_pos tnode)) tnode" "holds (pages s' np) np right rc"
    "kept {this_page_pos tnode, np} s s'" "pages_ok s' gcl' (insert np U)"
proof -
  have sp: "space_ok s gcl U" and lks: "links (U \<union> set gcl) s U" using ok by (simp_all add: pages_ok_def)
  obtain pg gcl' g where tp: "take_page c s = (Inr pg, s\<lparr>this_meta := (this_meta s)\<lparr>entry_page_gc_list := g\<rparr>\<rparr>)"
    and np: "this_page_pos pg \<noteq> 0" "this_page_pos pg \<notin> U \<union> set gcl'"
    and len: "length (dir_entries pg) = MAX_DIR_ENTRIES_PER_PAGE" and gl: "set gcl \<subseteq> insert (this_page_pos pg) (set gcl')" "set gcl' \<subseteq> set gcl"
    and sp1: "space_ok (s\<lparr>this_meta := (this_meta s)\<lparr>entry_page_gc_list := g\<rparr>\<rparr>) gcl' U"
    by (rule take_page_spec [OF sp, of c])
  define s1 where "s1 = s\<lparr>this_meta := (this_meta s)\<lparr>entry_page_gc_list := g\<rparr>\<rparr>"
  define np where "np = this_page_pos pg"
  define A where "A = insert np U \<union> set gcl'"
  have sub: "U \<union> set gcl \<subseteq> A" "np \<in> A" "0 \<notin> A" using gl lks np(1) by (auto simp: A_def np_def links_def)
  obtain tn P where lw: "link_walk np tnode s1 = (Inr tn, s1\<lparr>pages := P\<rparr>)" and tn: "same_core tn tnode"
    and P: "\<And>q. same_core (P q) (pages s1 q)" and sp2: "space_ok (s1\<lparr>pages := P\<rparr>) gcl' U"
    and tnl: "page_links A tnode \<Longrightarrow> page_links A tn" and ls: "links A s1 U \<Longrightarrow> links A (s1\<lparr>pages := P\<rparr>) U"
    using link_walk_spec [OF sp1, folded s1_def, of np tnode A] sub(2) by blast
  have "links A s1 U" using links_mono [OF lks sub(1,3)] by (simp add: links_def s1_def)
  note ls = ls [OF this] and tnl = tnl [OF page_links_mono [OF lk sub(1)]]
  have p: "this_page_pos tn = this_page_pos tnode" using tn by (simp add: same_core_def)
  have io: "bt_os s1 = []" "this_page_pos tnode + sizeof_page \<le> file_end s1" using sp2 assms(2) by (auto simp: space_ok_def)
  define page2 where "page2 = pg\<lparr>gc_list_next := 0, tree_walk_next := tree_walk_list_head (this_meta s1), tree_walk_prev := 0,
     parent_page_pos := parent_page_pos tn, child_page_pos := memcpy_at (replicate (MAX_DIR_ENTRIES_PER_PAGE + 1) 0) 0 rc 0 (length rc),
     num_entries := length right, dir_entries := memcpy_at (dir_entries pg) 0 right 0 (length right)\<rparr>"
  define s' where "s' = (s1\<lparr>pages := P\<rparr>)\<lparr>pages := P(this_page_pos tnode := tn, np := page2),
     this_meta := (this_meta s1)\<lparr>tree_walk_list_head := np\<rparr>,
     disk_meta := (this_meta s1)\<lparr>tree_walk_list_head := np\<rparr>, file_end := max (file_end s1) (np + sizeof_page)\<rparr>"
  have run: "finish_split c tnode right rc s = (Inr (tn, np), s')"
    using tp lw io by (simp add: finish_split_def Let_def p PWRITE_def PWRITE_meta_def upd_meta_def page2_def s'_def
      flip: s1_def np_def)
  have "space_ok s' gcl' (insert np U)"
    using split_writes [OF sp2 assms(2) np(2) [folded np_def], of tn page2] by (simp add: s'_def)
  moreover have "links A s' (insert np U)" using ls tnl sub(2) by (auto simp: links_def s'_def page2_def page_links_def)
  ultimately have sp': "pages_ok s' gcl' (insert np U)" by (simp add: pages_ok_def A_def)
  have "holds page2 np right rc"
    by (rule new_page_holds [OF assms(3) len assms(4)]) (simp_all add: page2_def np_def)
  then have "holds (pages s' np) np right rc" by (simp add: s'_def)
  moreover have "same_core (pages s' (this_page_pos tnode)) tnode"
    using np(2) assms(2) tn by (auto simp: s'_def np_def)
  moreover have "kept {this_page_pos tnode, np} s s'"
    using P np(1) by (auto simp: kept_def s'_def s1_def np_def)
  ultimately show ?thesis using that [OF run _ _ _ _ _ sp'] np by (auto simp: np_def)
qed

subsection \<open>Storing a node\<close>

primrec seps :: "ins_result \<Rightarrow> DIR_ENTRY list" where
  "seps (Inserted pg) = []"
| "seps (Overflow pg m np) = [m]"

primrec new_roots :: "ins_result \<Rightarrow> nat list" where
  "new_roots (Inserted pg) = []"
| "new_roots (Overflow pg m np) = [np]"

text \<open>
  The entries \<open>es\<close> and children \<open>ps\<close> of the node at \<open>p\<close> are stored in one page, or, when there is one entry too many, in
  two with the entry number 50 between them.
\<close>

definition stored :: "bt_state \<Rightarrow> bt_state \<Rightarrow> nat set \<Rightarrow> nat \<Rightarrow> DIR_ENTRY list \<Rightarrow> nat list \<Rightarrow> ins_result \<Rightarrow> bool" where
  "stored s s' U p es ps r \<longleftrightarrow>
     seps r = [] \<and> length es \<le> MAX_DIR_ENTRIES_PER_PAGE \<and> new_roots r = [] \<and> holds (pages s' p) p es ps \<and> kept {p} s s' \<and> (\<exists>gcl. pages_ok s' gcl U) \<or>
     (\<exists>np. seps r = [es ! 50] \<and> length es = MAX_DIR_ENTRIES_PER_PAGE + 1 \<and> new_roots r = [np] \<and> np \<noteq> 0 \<and> np \<notin> U \<and>
        holds (pages s' p) p (take 50 es) (take 51 ps) \<and> holds (pages s' np) np (drop 51 es) (drop 51 ps) \<and>
        kept {p, np} s s' \<and> (\<exists>gcl. pages_ok s' gcl (insert np U)))"

lemma stored_write:
  assumes "pages_ok s gcl U" and "p \<in> U" and "holds pg p es ps" and "length es \<le> MAX_DIR_ENTRIES_PER_PAGE" and "pages s' = (pages s)(p := pg)"
    and "kept {p} s s'" and "pages_ok s' gcl U"
  shows "stored s s' U p es ps (Inserted pg)"
  using assms by (auto simp: stored_def)

lemma insert_leaf_stored:
  assumes "pages_ok s gcl U" and "p \<in> U" and "holds tnode p es []" and "i \<le> length es" and lk: "page_links (U \<union> set gcl) tnode"
  obtains r s' where "insert_leaf i e tnode s = (Inr r, s')" "stored s s' U p (take i es @ e # drop i es) [] r"
proof (cases "length es < MAX_DIR_ENTRIES_PER_PAGE")
  case True
  define tn where "tn = tnode\<lparr>dir_entries := array_insert i e (length es) (dir_entries tnode), num_entries := length es + 1\<rparr>"
  have tn: "holds tn p (take i es @ e # drop i es) []"
    using assms(3,4) True array_insert_take [of i "length es" "dir_entries tnode" e] by (simp add: tn_def holds_def)
  have io: "bt_os s = []" "p + sizeof_page \<le> file_end s" using assms(1,2) by (auto simp: pages_ok_def space_ok_def)
  have tl: "page_links (U \<union> set gcl) tn" using lk by (simp add: tn_def page_links_def)
  have "insert_leaf i e tnode s = (Inr (Inserted tn), s\<lparr>pages := (pages s)(p := tn)\<rparr>)"
    using assms(3) True io by (simp add: insert_leaf_def Let_def holds_def tn_def)
  moreover have "stored s (s\<lparr>pages := (pages s)(p := tn)\<rparr>) U p (take i es @ e # drop i es) [] (Inserted tn)"
    using assms True io by (intro stored_write [OF assms(1,2) tn]) (use tl in \<open>auto simp: kept_def intro: pages_ok_write\<close>)
  ultimately show ?thesis by (rule that)
next
  case False
  then have n: "length es = 99" "num_entries tnode = 99" using assms(3) by (auto simp: holds_def)
  define tmp where "tmp = take i es @ e # drop i es"
  have tmp: "pooled i e 99 (dir_entries tnode) = tmp" "length tmp = 100"
    using assms(3,4) n by (auto simp: tmp_def holds_def pooled_eq)
  define tn where "tn = tnode\<lparr>num_entries := 50, dir_entries := memcpy_at (dir_entries tnode) 0 tmp 0 50\<rparr>"
  have tn: "holds tn p (take 50 tmp) []" using assms(3) tmp by (auto simp: tn_def holds_def memcpy_at_def)
  then have pos: "this_page_pos tn = p" by (simp add: holds_def)
  obtain tn1 np gcl' s' where run: "finish_split True tn (drop 51 tmp) [] s = (Inr (tn1, np), s')"
    "np \<noteq> 0" "np \<notin> U" "same_core (pages s' p) tn" "holds (pages s' np) np (drop 51 tmp) []"
    "kept {p, np} s s'" "pages_ok s' gcl' (insert np U)"
    by (rule finish_split_spec [OF assms(1), of tn "drop 51 tmp" "[]" True]) (use assms(2) tmp pos lk in \<open>auto simp: tn_def page_links_def\<close>)
  have "insert_leaf i e tnode s = (Inr (Overflow tn1 (tmp ! 50) np), s')"
    using run(1) n by (simp add: insert_leaf_def Let_def tmp(1) flip: tn_def)
  moreover have "stored s s' U p tmp [] (Overflow tn1 (tmp ! 50) np)"
    using run tmp tn by (auto simp: stored_def holds_core)
  ultimately show ?thesis using that by (simp add: tmp_def)
qed

lemma take_prefix_shift:
  assumes "take (Suc n) c = ps" and "length ps = Suc n" and "i \<le> n"
  shows "take (Suc i) c = take (Suc i) ps" "take (n - i) (drop (Suc i) c) = drop (Suc i) ps"
  using assms by (auto simp: drop_take)

lemma insert_median_stored_room:
  assumes "pages_ok s gcl U" and "p \<in> U" and "holds tnode p es ps" and "ps \<noteq> []" and "i \<le> length es"
    and "length es < MAX_DIR_ENTRIES_PER_PAGE" and lk: "page_links (U \<union> set gcl) tnode"
  obtains r s' where "insert_median i m np tnode s = (Inr r, s')"
    "stored s s' U p (take i es @ m # drop i es) (take (Suc i) ps @ np # drop (Suc i) ps) r"
proof -
  have h: "num_entries tnode = length es" "length (dir_entries tnode) = 99" "take (length es) (dir_entries tnode) = es"
    "this_page_pos tnode = p" "length (child_page_pos tnode) = 100" "length ps = Suc (length es)"
    "take (Suc (length es)) (child_page_pos tnode) = ps"
    using assms(3,4) by (auto simp: holds_def)
  have sp: "102 \<le> length (temp_child_page_pos s)" "bt_os s = []" "p + sizeof_page \<le> file_end s"
    using assms(1,2) by (auto simp: pages_ok_def space_ok_def)
  obtain tmp where tmp: "length tmp = length (temp_child_page_pos s)"
    and sh: "shift_children i np tnode s = (Inr (take (Suc i) (child_page_pos tnode) @ np #
       take (length es - i) (drop (Suc i) (child_page_pos tnode)) @ drop (Suc (Suc (length es))) (child_page_pos tnode)), s\<lparr>temp_child_page_pos := tmp\<rparr>)"
    by (rule shift_children_eq [of i "length es" tnode s np]) (use assms(5,6) h sp in auto)
  define ch where "ch = (take (Suc i) ps @ np # drop (Suc i) ps) @ drop (Suc (Suc (length es))) (child_page_pos tnode)"
  have ch: "shift_children i np tnode s = (Inr ch, s\<lparr>temp_child_page_pos := tmp\<rparr>)"
    using sh take_prefix_shift [OF h(7,6) assms(5)] by (simp add: ch_def)
  define tn where "tn = tnode\<lparr>dir_entries := array_insert i m (length es) (dir_entries tnode), child_page_pos := ch, num_entries := length es + 1\<rparr>"
  define s1 where "s1 = s\<lparr>temp_child_page_pos := tmp\<rparr>"
  have tn: "holds tn p (take i es @ m # drop i es) (take (Suc i) ps @ np # drop (Suc i) ps)"
    using h assms(5,6) array_insert_take [of i "length es" "dir_entries tnode" m] by (simp add: tn_def holds_def ch_def Suc_diff_le)
  have s1: "pages_ok s1 gcl U" unfolding s1_def by (rule pages_ok_temp [OF assms(1) tmp])
  have "insert_median i m np tnode s = (Inr (Inserted tn), s1\<lparr>pages := (pages s1)(p := tn)\<rparr>)"
    using ch h(1,4) assms(6) sp by (simp add: insert_median_def Let_def s1_def tn_def)
  moreover have "stored s (s1\<lparr>pages := (pages s1)(p := tn)\<rparr>) U p (take i es @ m # drop i es) (take (Suc i) ps @ np # drop (Suc i) ps) (Inserted tn)"
    by (rule stored_write [OF assms(1,2) tn])
      (use assms(5,6) pages_ok_write [OF s1 assms(2), of tn] lk tmp in \<open>auto simp: s1_def kept_def tn_def page_links_def\<close>)
  ultimately show ?thesis by (rule that)
qed

text \<open>With a full node the first child comes from the scratch array when the index is 0: the code does not copy it there.\<close>

lemma insert_median_stored_split:
  assumes "pages_ok s gcl U" and "p \<in> U" and "holds tnode p es ps" and "ps \<noteq> []" and "i \<le> length es"
    and "length es = MAX_DIR_ENTRIES_PER_PAGE" and lk: "page_links (U \<union> set gcl) tnode"
  obtains r s' where "insert_median i m np tnode s = (Inr r, s')"
    "stored s s' U p (take i es @ m # drop i es)
      ((if i = 0 then [temp_child_page_pos s ! 0] else take (Suc i) ps) @ np # drop (Suc i) ps) r"
proof -
  have h: "num_entries tnode = 99" "length (dir_entries tnode) = 99" "take 99 (dir_entries tnode) = es"
    "this_page_pos tnode = p" "length (child_page_pos tnode) = 100" "length ps = Suc 99" "take (Suc 99) (child_page_pos tnode) = ps"
    using assms(3,4,6) by (auto simp: holds_def)
  have sp: "102 \<le> length (temp_child_page_pos s)" using assms(1) by (simp add: pages_ok_def space_ok_def)
  obtain tmp where tmp: "length tmp = length (temp_child_page_pos s)"
    and run1: "pool_children i np tnode s = (Inr tmp, s\<lparr>temp_child_page_pos := tmp\<rparr>)"
    and tmp2: "take (99 + 2) tmp = (if i = 0 then [temp_child_page_pos s ! 0] else take (Suc i) (child_page_pos tnode)) @ np #
       take (99 - i) (drop (Suc i) (child_page_pos tnode))"
    by (rule pool_children_eq [of i 99 tnode s np]) (use assms(5,6) h sp in auto)
  define qs where "qs = (if i = 0 then [temp_child_page_pos s ! 0] else take (Suc i) ps) @ np # drop (Suc i) ps"
  have qs: "take 101 tmp = qs" "length qs = 101"
    using tmp2 assms(5,6) take_prefix_shift [OF h(7,6), of i] h(6) by (simp_all add: qs_def)
  define es' where "es' = take i es @ m # drop i es"
  have es': "pooled i m 99 (dir_entries tnode) = es'" "length es' = 100"
    using h(2,3) assms(5,6) by (auto simp: es'_def pooled_eq)
  define tn where "tn = tnode\<lparr>num_entries := 50, dir_entries := memcpy_at (dir_entries tnode) 0 es' 0 50,
     child_page_pos := memcpy_at (child_page_pos tnode) 0 tmp 0 51\<rparr>"
  have "take 51 tmp = take 51 qs" "take 50 (drop 51 tmp) = drop 51 qs"
    by (simp_all add: qs(1) [symmetric] drop_take)
  then have tn: "holds tn p (take 50 es') (take 51 qs)" and rc: "take 50 (drop 51 tmp) = drop 51 qs"
    using h(2,4,5) es'(2) qs(2) by (auto simp: tn_def holds_def memcpy_at_def)
  define s1 where "s1 = s\<lparr>temp_child_page_pos := tmp\<rparr>"
  have s1: "pages_ok s1 gcl U" unfolding s1_def by (rule pages_ok_temp [OF assms(1) tmp])
  have pos: "this_page_pos tn = p" using tn by (simp add: holds_def)
  obtain tn1 np2 gcl' s' where run: "finish_split False tn (drop 51 es') (drop 51 qs) s1 = (Inr (tn1, np2), s')"
    "np2 \<noteq> 0" "np2 \<notin> U" "same_core (pages s' p) tn" "holds (pages s' np2) np2 (drop 51 es') (drop 51 qs)"
    "kept {p, np2} s1 s'" "pages_ok s' gcl' (insert np2 U)"
    by (rule finish_split_spec [OF s1, of tn "drop 51 es'" "drop 51 qs" False]) (use assms(2) es'(2) qs(2) pos lk in \<open>auto simp: tn_def page_links_def\<close>)
  have "insert_median i m np tnode s = (Inr (Overflow tn1 (es' ! 50) np2), s')"
    using run(1) h(1) es' run1 by (simp add: insert_median_def Let_def rc flip: tn_def s1_def)
  moreover have "stored s s' U p es' qs (Overflow tn1 (es' ! 50) np2)"
    using run es' tn tmp by (auto simp: stored_def holds_core kept_def s1_def)
  ultimately show ?thesis using that by (simp add: es'_def qs_def)
qed

subsection \<open>Trees after an insertion\<close>

text \<open>
  The tree with positions \<open>V\<close>, root \<open>p\<close> and \<open>f\<close> entries there has become one tree or two trees with a median between them; together they have the
  entries \<open>ys\<close>.  Pages not in use before may be in use now.
\<close>

definition became ::
  "bt_state \<Rightarrow> bt_state \<Rightarrow> nat set \<Rightarrow> nat set \<Rightarrow> nat \<Rightarrow> nat \<Rightarrow> nat \<Rightarrow> DIR_ENTRY list \<Rightarrow> ins_result \<Rightarrow> bt list \<Rightarrow> nat set \<Rightarrow> bool" where
  "became s s' U V h p f ys r ts N \<longleftrightarrow> (\<forall>t \<in> set ts. (if seps r = [] then f else MIN_DIR_ENTRIES_PER_PAGE) \<le> fill t) \<and> (\<forall>t \<in> set ts. rep (pages s') t \<and> bal h t) \<and> distinct (concat (map poss ts)) \<and>
     set (concat (map poss ts)) = V \<union> N \<and> N \<inter> U = {} \<and> (\<exists>gcl. pages_ok s' gcl (U \<union> N)) \<and> kept (V \<union> N) s s' \<and>
     ts \<noteq> [] \<and> root (hd ts) = p \<and> map root (tl ts) = new_roots r \<and> join (seps r) (map inorder ts) = ys"

lemma became_length: "became s s' U V h p f ys r ts N \<Longrightarrow> length ts = Suc (length (seps r))"
  by (cases r; cases ts) (auto simp: became_def)

text \<open>Dividing a node at an entry.\<close>

lemma bal_divide:
  assumes "bal h (Node p es cs)" and "0 < m" and "Suc m < length es"
  shows "bal h (Node q (take m es) (take (Suc m) cs))" "bal h (Node q' (drop (Suc m) es) (drop (Suc m) cs))"
  using assms by (cases h; fastforce dest: in_set_takeD in_set_dropD)+

lemma inorder_divide:
  assumes "bal h (Node p es cs)" and "m < length es"
  shows "inorder (Node p es cs) = inorder (Node q (take m es) (take (Suc m) cs)) @ es ! m # inorder (Node q' (drop (Suc m) es) (drop (Suc m) cs))"
proof (cases h)
  case 0
  then show ?thesis using assms id_take_nth_drop [of m es] by simp
next
  case (Suc h')
  then show ?thesis using assms join_median [of "map inorder cs" es m] by (simp add: take_map drop_map)
qed

lemma poss_split:
  "mset (concat (map poss [Node p es (take n cs), Node q es' (drop n cs)])) = add_mset q (mset (poss (Node p fs cs)))"
proof -
  have "mset (concat (map poss cs)) = mset (concat (map poss (take n cs))) + mset (concat (map poss (drop n cs)))"
    by (metis append_take_drop_id concat_append map_append mset_append)
  then show ?thesis by simp
qed

lemma distinct_mset: "mset xs = mset ys \<Longrightarrow> distinct ys \<Longrightarrow> distinct xs"
  by (metis mset_eq_imp_distinct_iff)

lemma stored_became:
  assumes "stored s s' U p es (map root cs) r" and "bal h (Node p es cs)" and "\<forall>c \<in> set cs. rep (pages s) c"
    and "distinct (poss (Node p es cs))" and "set (poss (Node p es cs)) \<subseteq> U" and "p \<noteq> 0" and "f \<le> length es"
  obtains ts N where "became s s' U (set (poss (Node p es cs))) h p f (inorder (Node p es cs)) r ts N"
proof -
  have child: "rep (pages s') c" if "c \<in> set cs" "kept X s s'" "X \<inter> set (poss c) = {}" for c X
    using rep_cong [of c "pages s'" "pages s"] that assms(3) by (auto simp: kept_def)
  from assms(1) consider (one) "seps r = []" "new_roots r = []" "holds (pages s' p) p es (map root cs)" "kept {p} s s'" "\<exists>gcl. pages_ok s' gcl U"
    | (two) np where "seps r = [es ! 50]" "length es = 100" "new_roots r = [np]" "np \<noteq> 0" "np \<notin> U"
      "holds (pages s' p) p (take 50 es) (take 51 (map root cs))" "holds (pages s' np) np (drop 51 es) (drop 51 (map root cs))"
      "kept {p, np} s s'" "\<exists>gcl. pages_ok s' gcl (insert np U)"
    unfolding stored_def by auto
  then show ?thesis
  proof cases
    case one
    have "rep (pages s') (Node p es cs)" using one assms(4,6) child [OF _ one(4)] by auto
    then show ?thesis using one assms(2,4,7) kept_mono [OF one(4)]
      by (intro that [of "[Node p es cs]" "{}"]) (auto simp: became_def)
  next
    case two
    define l where "l = Node p (take 50 es) (take 51 cs)"
    define r' where "r' = Node np (drop 51 es) (drop 51 cs)"
    have ms: "mset (concat (map poss [l, r'])) = add_mset np (mset (poss (Node p es cs)))" by (simp only: l_def r'_def poss_split)
    have np: "np \<notin> set (poss (Node p es cs))" using two(5) assms(5) by blast
    have ch: "\<forall>c \<in> set cs. rep (pages s') c" using assms(4) np child [OF _ two(8)] by auto
    then have "rep (pages s') l" "rep (pages s') r'" using two assms(6)
      by (auto simp: l_def r'_def take_map drop_map dest: in_set_takeD in_set_dropD)
    moreover have "distinct (concat (map poss [l, r']))"
      by (rule distinct_mset [of _ "np # poss (Node p es cs)"]) (use ms np assms(4) in simp_all)
    moreover have "set (concat (map poss [l, r'])) = insert np (set (poss (Node p es cs)))"
      using arg_cong [OF ms, of set_mset] by (simp only: set_mset_mset set_mset_add_mset_insert)
    moreover have "bal h l" "bal h r'" unfolding l_def r'_def using bal_divide [OF assms(2), of 50] two(2) by simp_all
    moreover have "inorder (Node p es cs) = inorder l @ es ! 50 # inorder r'"
      unfolding l_def r'_def using inorder_divide [OF assms(2), of 50] two(2) by simp
    moreover have "root l = p" "root r' = np" "fill l = 50" "fill r' = 49" using two(2) by (simp_all add: l_def r'_def)
    moreover have "kept (set (poss (Node p es cs)) \<union> {np}) s s'" using kept_mono [OF two(8)] by simp
    ultimately show ?thesis using two
      by (intro that [of "[l, r']" "{np}"]) (simp add: became_def del: poss.simps inorder.simps)
  qed
qed

lemma became_compose:
  assumes "kept (V \<union> N) s s1" and "became s1 s2 (U \<union> N) (V \<union> N) h p f ys r ts M" and "N \<inter> U = {}"
  shows "became s s2 U V h p f ys r ts (N \<union> M)"
proof -
  have "kept ((V \<union> N) \<union> (V \<union> N \<union> M)) s s2"
    by (rule kept_trans [OF assms(1)]) (use assms(2) in \<open>simp add: became_def\<close>)
  then have "kept (V \<union> (N \<union> M)) s s2" by (rule kept_mono) auto
  then show ?thesis using assms(2,3) by (auto simp: became_def Un_assoc)
qed

lemma concat_replace:
  assumes "i < length xss" and "distinct (concat xss)" and "distinct ys" and "set ys = set (xss ! i) \<union> N" and "N \<inter> set (concat xss) = {}"
  shows "distinct (concat (take i xss) @ ys @ concat (drop (Suc i) xss))"
    "set (concat (take i xss) @ ys @ concat (drop (Suc i) xss)) = set (concat xss) \<union> N"
proof -
  have eq: "concat xss = concat (take i xss) @ xss ! i @ concat (drop (Suc i) xss)"
    using id_take_nth_drop [OF assms(1)] by (metis concat.simps(2) concat_append)
  show "set (concat (take i xss) @ ys @ concat (drop (Suc i) xss)) = set (concat xss) \<union> N"
    unfolding eq using assms(4) by auto
  show "distinct (concat (take i xss) @ ys @ concat (drop (Suc i) xss))"
    using assms(2-5) unfolding eq distinct_append set_append by blast
qed

text \<open>The node whose child \<open>i\<close> has become other trees.\<close>

lemma graft:
  assumes tr: "tree_in s (Suc h) (Node p es cs)" and i: "i \<le> length es" and U: "set (poss (Node p es cs)) \<subseteq> U"
    and bc: "became s s1 U (set (poss (cs ! i))) h (root (cs ! i)) 30 ys r ts N"
  defines "cs' \<equiv> take i cs @ ts @ drop (Suc i) cs" and "es' \<equiv> take i es @ seps r @ drop i es"
  shows "bal (Suc h) (Node p es' cs')" "\<forall>c \<in> set cs'. rep (pages s1) c"
    "distinct (poss (Node p es' cs'))" "set (poss (Node p es' cs')) = set (poss (Node p es cs)) \<union> N"
    "map root cs' = take (Suc i) (map root cs) @ new_roots r @ drop (Suc i) (map root cs)"
    "same_core (pages s1 p) (pages s p)"
proof -
  have i': "i < length cs" and len: "length ts = Suc (length (seps r))"
    using tr i bc became_length by (auto simp: tree_in_def)
  show "bal (Suc h) (Node p es' cs')"
    using tr bc len i by (auto simp: tree_in_def es'_def cs'_def became_def dest: in_set_takeD in_set_dropD)
  have N: "N \<inter> U = {}" "kept (set (poss (cs ! i)) \<union> N) s s1" using bc by (auto simp: became_def)
  have dc: "distinct (concat (map poss cs))" "p \<notin> set (concat (map poss cs))" using tr by (auto simp: tree_in_def)
  have dj: "N \<inter> set (concat (map poss cs)) = {}" using U N(1) by auto
  have cr: "distinct (concat (map poss cs'))" "set (concat (map poss cs')) = set (concat (map poss cs)) \<union> N"
    using concat_replace [OF _ dc(1) _ _ dj, of i "concat (map poss ts)"] bc i'
    by (simp_all add: became_def cs'_def take_map drop_map)
  then show "set (poss (Node p es' cs')) = set (poss (Node p es cs)) \<union> N" by simp
  have pN: "p \<notin> N" "p \<notin> set (poss (cs ! i))" using U N(1) dc(2) i' by auto
  then show "distinct (poss (Node p es' cs'))" using cr dc(2) by auto
  show "same_core (pages s1 p) (pages s p)" using N(2) pN by (simp add: kept_def)
  have other: "rep (pages s1) c" if "c \<in> set (take i cs) \<union> set (drop (Suc i) cs)" for c
  proof -
    have c: "c \<in> set cs" using that by (auto dest: in_set_takeD in_set_dropD)
    have "distinct (concat (map poss (take i cs)) @ poss (cs ! i) @ concat (map poss (drop (Suc i) cs)))"
      using dc(1) id_take_nth_drop [OF i'] by (metis concat.simps(2) concat_append list.simps(9) map_append)
    then have "set (poss c) \<inter> set (poss (cs ! i)) = {}" using that by auto
    moreover have "set (poss c) \<inter> N = {}" using c U N(1) by fastforce
    ultimately have "rep (pages s1) c = rep (pages s) c" using N(2) by (intro rep_cong) (auto simp: kept_def)
    then show ?thesis using tr c by (simp add: tree_in_def)
  qed
  then show "\<forall>c \<in> set cs'. rep (pages s1) c" using bc by (auto simp: cs'_def became_def)
  have "map root ts = root (cs ! i) # new_roots r" using bc by (cases ts) (auto simp: became_def)
  then show "map root cs' = take (Suc i) (map root cs) @ new_roots r @ drop (Suc i) (map root cs)"
    using i' by (simp add: cs'_def take_map drop_map take_Suc_conv_app_nth)
qed

lemma graft_inorder:
  assumes "bal (Suc h) (Node p es cs)" and "i \<le> length es" and "length ts = Suc (length ms)"
  shows "inorder (Node p (take i es @ ms @ drop i es) (take i cs @ ts @ drop (Suc i) cs)) =
    pre (take i es) (take i (map inorder cs)) @ join ms (map inorder ts) @ post (drop i es) (drop (Suc i) (map inorder cs))"
proof -
  have "join (ms @ drop i es) (map inorder ts @ drop (Suc i) (map inorder cs)) =
      join ms (map inorder ts) @ post (drop i es) (drop (Suc i) (map inorder cs))"
    using assms join_suffix [of "map inorder ts" ms "drop i es" "drop (Suc i) (map inorder cs)"] by simp
  moreover have "ts \<noteq> []" using assms(3) by auto
  ultimately show ?thesis using assms by (simp add: take_map drop_map join_pre)
qed

end
