(* ===== verification/Dir_Btree_Ins.thy ===== *)
theory Dir_Btree_Ins
  imports Dir_Btree_Insert
begin

text \<open>
  The recursion of \<^verbatim>\<open>insert_dir_entry_btree\<close> refines insertion into the sorted list of entries, as long as no full inner
  node is split at its first child.
\<close>

definition ins_list :: "bool \<Rightarrow> DIR_ENTRY \<Rightarrow> DIR_ENTRY list \<Rightarrow> DIR_ENTRY list" where
  "ins_list x e ys = takeWhile (\<lambda>y. entry_key x y < entry_key x e) ys @ e # dropWhile (\<lambda>y. entry_key x y < entry_key x e) ys"

lemma takeWhile_above: "\<forall>y \<in> set ys. \<not> P y \<Longrightarrow> takeWhile P ys = []"
  by (cases ys) auto

lemma dropWhile_above: "\<forall>y \<in> set ys. \<not> P y \<Longrightarrow> dropWhile P ys = ys"
  by (cases ys) auto

lemma ins_list_middle:
  assumes "\<forall>y \<in> set A. entry_key x y < entry_key x e" and "\<forall>y \<in> set B. entry_key x e < entry_key x y"
  shows "ins_list x e (A @ ys @ B) = A @ ins_list x e ys @ B"
proof -
  have "\<forall>y \<in> set B. \<not> entry_key x y < entry_key x e" using assms(2) by (auto dest: less_not_sym)
  then show ?thesis using assms(1)
    by (cases "\<forall>y \<in> set ys. entry_key x y < entry_key x e")
      (auto simp: ins_list_def takeWhile_append dropWhile_append takeWhile_above dropWhile_above takeWhile_eq_all_conv [THEN iffD2])
qed

lemma set_ins_list: "set (ins_list x e ys) = insert e (set ys)"
  using takeWhile_dropWhile_id [of "\<lambda>y. entry_key x y < entry_key x e" ys]
  by (metis Un_insert_right ins_list_def list.simps(15) set_append)

text \<open>The entry is new: it leaves the list sorted.\<close>

lemma sorted_ins_list:
  assumes "sorted_wrt (<) (map (entry_key x) ys)" and "entry_key x e \<notin> entry_key x ` set ys"
  shows "sorted_wrt (<) (map (entry_key x) (ins_list x e ys))"
  using assms
proof (induction ys)
  case (Cons y ys)
  then have IH: "sorted_wrt (<) (map (entry_key x) (ins_list x e ys))" by simp
  show ?case
  proof (cases "entry_key x y < entry_key x e")
    case True
    then have "ins_list x e (y # ys) = y # ins_list x e ys" by (simp add: ins_list_def)
    then show ?thesis using IH Cons.prems(1) True by (simp add: set_ins_list)
  next
    case False
    then have "entry_key x e < entry_key x y" using Cons.prems(2) by (auto simp: not_less le_less)
    then show ?thesis using False Cons.prems(1) by (auto simp: ins_list_def intro: less_trans)
  qed
qed (simp add: ins_list_def)

subsection \<open>Which nodes overflow\<close>

definition child_at :: "bool \<Rightarrow> nat list \<Rightarrow> DIR_ENTRY list \<Rightarrow> nat" where
  "child_at x k es = below (map (entry_key x) es) k"

primrec overflows :: "nat \<Rightarrow> bool \<Rightarrow> nat list \<Rightarrow> bt \<Rightarrow> bool" where
  "overflows 0 x k t = (case t of Node p es cs \<Rightarrow> length es = MAX_DIR_ENTRIES_PER_PAGE)"
| "overflows (Suc h) x k t = (case t of Node p es cs \<Rightarrow>
     length es = MAX_DIR_ENTRIES_PER_PAGE \<and> overflows h x k (cs ! child_at x k es))"

text \<open>On the way to the leaf no inner node is split because its first child overflows.\<close>

primrec left_safe :: "nat \<Rightarrow> bool \<Rightarrow> nat list \<Rightarrow> bt \<Rightarrow> bool" where
  "left_safe 0 x k t = True"
| "left_safe (Suc h) x k t = (case t of Node p es cs \<Rightarrow>
     (child_at x k es = 0 \<and> length es = MAX_DIR_ENTRIES_PER_PAGE \<longrightarrow> \<not> overflows h x k (cs ! 0)) \<and>
     left_safe h x k (cs ! child_at x k es))"

lemma linear_search_child_at: "linear_search (map (entry_key x) es) k = Insert_At i \<Longrightarrow> child_at x k es = i"
  by (auto simp: linear_search_def child_at_def Let_def split: if_splits)

subsection \<open>The recursion\<close>

definition insert_ok :: "nat \<Rightarrow> bool \<Rightarrow> DIR_ENTRY \<Rightarrow> DIR_ENTRY_PAGE \<Rightarrow> bt_state \<Rightarrow> nat set \<Rightarrow> nat \<Rightarrow> bt \<Rightarrow> bool" where
  "insert_ok depth x e tnode s U h t \<longleftrightarrow>
     (if entry_key x e \<in> entry_key x ` set (inorder t) then insert_dir_entry_btree depth x e tnode s = (Inl (Errno EEXIST), s)
      else \<exists>r s' ts N. insert_dir_entry_btree depth x e tnode s = (Inr r, s') \<and>
        became s s' U (set (poss t)) h (root t) (min 30 (fill t)) (ins_list x e (inorder t)) r ts N \<and> (seps r \<noteq> [] \<longleftrightarrow> overflows h x (entry_key x e) t))"

lemma stored_seps: "stored s s' U p es ps r \<Longrightarrow> seps r \<noteq> [] \<longleftrightarrow> length es = MAX_DIR_ENTRIES_PER_PAGE + 1"
  by (auto simp: stored_def)

lemma insert_ok_leaf:
  assumes "tree_in s 0 (Node p es [])" and "is_sorted x (Node p es [])" and "pages_ok s gcl U" and "p \<in> U"
    and "same_core tnode (pages s p)"
    and "linear_search (map (entry_key x) es) (entry_key x e) = Insert_At i" and lk: "page_links (U \<union> set gcl) tnode"
  shows "insert_ok (Suc depth) x e tnode s U 0 (Node p es [])"
proof -
  note rs = root_search [OF assms(1,2,5)]
  have i: "i \<le> length es" "\<forall>y \<in> set (take i es). entry_key x y < entry_key x e" "\<forall>y \<in> set (drop i es). entry_key x e < entry_key x y"
    using linear_search_Insert_AtD [OF rs(2) assms(6)] by (auto simp: take_map drop_map)
  have holds: "holds tnode p es []" using rs(3) by simp
  obtain r s' where run: "insert_leaf i e tnode s = (Inr r, s')" and st: "stored s s' U p (take i es @ e # drop i es) [] r"
    by (rule insert_leaf_stored [OF assms(3,4) holds i(1) lk])
  have "insert_dir_entry_btree (Suc depth) x e tnode s = (Inr r, s')"
    using rs(1) [of e] assms(6) holds_leaf [OF holds i(1)] run by simp
  moreover have "ins_list x e es = take i es @ e # drop i es"
    using ins_list_middle [OF i(2,3), of "[]"] by (simp add: ins_list_def)
  moreover have "min 30 (length es) \<le> Suc (length es)" by simp
  then obtain ts N where "became s s' U {p} 0 p (min 30 (length es)) (take i es @ e # drop i es) r ts N"
    using stored_became [of s s' U p "take i es @ e # drop i es" "[]" r 0 "min 30 (length es)"] st i(1) assms(1,4) by (auto simp: tree_in_def)
  ultimately show ?thesis using stored_seps [OF st] leaf_not_found [OF rs(2) assms(6)] i(1)
    by (auto simp: insert_ok_def)
qed

lemma insert_median_stored:
  assumes "pages_ok s gcl U" and "p \<in> U" and "holds tnode p es ps" and "ps \<noteq> []" and "i \<le> length es"
    and "0 < i \<or> length es < MAX_DIR_ENTRIES_PER_PAGE" and lk: "page_links (U \<union> set gcl) tnode"
  obtains r s' where "insert_median i m np tnode s = (Inr r, s')"
    "stored s s' U p (take i es @ m # drop i es) (take (Suc i) ps @ np # drop (Suc i) ps) r"
proof (cases "length es < MAX_DIR_ENTRIES_PER_PAGE")
  case True
  then show ?thesis using insert_median_stored_room [OF assms(1-5) _ lk] that by blast
next
  case False
  moreover from this have "length es = MAX_DIR_ENTRIES_PER_PAGE" using assms(3) by (simp add: holds_def)
  ultimately show ?thesis using insert_median_stored_split [OF assms(1-5) _ lk, of m np] assms(6) that by auto
qed

text \<open>An inner node whose child took the entry without overflowing: nothing is written.\<close>

lemma became_inserted:
  assumes "tree_in s (Suc h) (Node p es cs)" and "i \<le> length es" and "set (poss (Node p es cs)) \<subseteq> U"
    and "became s s1 U (set (poss (cs ! i))) h (root (cs ! i)) 30 ys (Inserted pg) ts N"
  shows "became s s1 U (set (poss (Node p es cs))) (Suc h) p (min 30 (length es))
    (pre (take i es) (take i (map inorder cs)) @ ys @ post (drop i es) (drop (Suc i) (map inorder cs)))
    (Inserted pg') [Node p es (take i cs @ ts @ drop (Suc i) cs)] N"
proof -
  note g = graft [OF assms]
  define cs' where "cs' = take i cs @ ts @ drop (Suc i) cs"
  have es: "take i es @ seps (Inserted pg) @ drop i es = es" by simp
  have len: "length ts = Suc 0" using became_length [OF assms(4)] by simp
  have io: "inorder (Node p es cs') =
      pre (take i es) (take i (map inorder cs)) @ ys @ post (drop i es) (drop (Suc i) (map inorder cs))"
    using graft_inorder [of h p es cs i ts "[]"] assms(1,2,4) len by (simp add: tree_in_def cs'_def became_def)
  have "holds (pages s1 p) p es (map root cs')"
    using assms(1) holds_core [OF g(6)] g(5) by (simp add: tree_in_def cs'_def)
  then have "rep (pages s1) (Node p es cs')" using g(2) assms(1) by (simp add: cs'_def tree_in_def)
  moreover have "kept (set (poss (Node p es cs)) \<union> N) s s1"
    using assms(4) tree_in_child(2) [OF assms(1,2)] by (auto simp: became_def intro: kept_mono)
  ultimately show ?thesis using g(1,3,4) [unfolded es, folded cs'_def] assms(4) io
    unfolding cs'_def [symmetric] by (simp add: became_def del: bal.simps poss.simps inorder.simps rep.simps)
qed

lemma became_overflow:
  assumes "tree_in s (Suc h) (Node p es cs)" and "i \<le> length es" and "set (poss (Node p es cs)) \<subseteq> U"
    and "became s s1 U (set (poss (cs ! i))) h (root (cs ! i)) 30 ys (Overflow pg m np) ts N"
    and "0 < i \<or> length es < MAX_DIR_ENTRIES_PER_PAGE"
  obtains r s2 ts2 M where "insert_median i m np (pages s1 p) s1 = (Inr r, s2)"
    "became s s2 U (set (poss (Node p es cs))) (Suc h) p (min 30 (length es))
      (pre (take i es) (take i (map inorder cs)) @ ys @ post (drop i es) (drop (Suc i) (map inorder cs))) r ts2 M"
    "seps r \<noteq> [] \<longleftrightarrow> length es = MAX_DIR_ENTRIES_PER_PAGE"
proof -
  define cs' where "cs' = take i cs @ ts @ drop (Suc i) cs"
  define es' where "es' = take i es @ m # drop i es"
  note g = graft [OF assms(1-4), simplified seps.simps append_Cons append_Nil new_roots.simps, folded cs'_def es'_def]
  have len: "length ts = Suc (length [m])" using became_length [OF assms(4)] by simp
  have io: "inorder (Node p es' cs') =
      pre (take i es) (take i (map inorder cs)) @ ys @ post (drop i es) (drop (Suc i) (map inorder cs))"
    using graft_inorder [of h p es cs i ts "[m]"] assms(1,2,4) len by (simp add: tree_in_def cs'_def es'_def became_def)
  obtain gcl where sp: "pages_ok s1 gcl (U \<union> N)" using assms(4) by (auto simp: became_def)
  have hd: "holds (pages s1 p) p es (map root cs)" "map root cs \<noteq> []" "p \<in> U \<union> N" "p \<noteq> 0"
    using assms(1,3) holds_core [OF g(6)] by (auto simp: tree_in_def)
  then have lk: "page_links (U \<union> N \<union> set gcl) (pages s1 p)" using sp by (simp add: pages_ok_def links_def)
  obtain r s2 where run: "insert_median i m np (pages s1 p) s1 = (Inr r, s2)" and st: "stored s1 s2 (U \<union> N) p es' (map root cs') r"
    using insert_median_stored [OF sp hd(3,1,2) assms(2,5) lk] g(5) unfolding es'_def by metis
  obtain ts2 M where bc: "became s1 s2 (U \<union> N) (set (poss (Node p es' cs'))) (Suc h) p (min 30 (length es)) (inorder (Node p es' cs')) r ts2 M"
  proof (rule stored_became [OF st g(1,2,3) _ hd(4)])
    show "set (poss (Node p es' cs')) \<subseteq> U \<union> N" using g(4) assms(3) by auto
    show "min 30 (length es) \<le> length es'" using assms(2) by (simp add: es'_def)
  qed
  have "kept (set (poss (Node p es cs)) \<union> N) s s1" "N \<inter> U = {}"
    using assms(4) tree_in_child(2) [OF assms(1,2)] by (auto simp: became_def intro: kept_mono)
  from became_compose [OF this(1) bc [unfolded g(4)] this(2)] show ?thesis
    using that [OF run] io stored_seps [OF st] assms(2) by (simp add: es'_def)
qed

lemma insert_ok_inner:
  assumes "tree_in s (Suc h) (Node p es cs)" and "is_sorted x (Node p es cs)" and "pages_ok s gcl U"
    and "set (poss (Node p es cs)) \<subseteq> U" and "same_core tnode (pages s p)"
    and at: "linear_search (map (entry_key x) es) (entry_key x e) = Insert_At i"
    and safe: "left_safe (Suc h) x (entry_key x e) (Node p es cs)"
    and IH: "insert_ok depth x e (pages s (root (cs ! i))) s U h (cs ! i)"
  shows "insert_ok (Suc depth) x e tnode s U (Suc h) (Node p es cs)"
proof -
  note rs = root_search [OF assms(1,2,5)]
  note ca = linear_search_child_at [OF at]
  have bal: "bal (Suc h) (Node p es cs)" using assms(1) by (simp add: tree_in_def)
  obtain A B where AB: "i \<le> length es" "inorder (Node p es cs) = A @ inorder (cs ! i) @ B"
    "\<forall>y \<in> set A. entry_key x y < entry_key x e" "\<forall>y \<in> set B. entry_key x e < entry_key x y"
    "A = pre (take i es) (take i (map inorder cs))" "B = post (drop i es) (drop (Suc i) (map inorder cs))"
    by (rule descend [OF bal assms(2) at])
  have mem: "entry_key x e \<in> entry_key x ` set (inorder (Node p es cs)) \<longleftrightarrow> entry_key x e \<in> entry_key x ` set (inorder (cs ! i))"
    using AB(2-4) by auto
  have ins: "ins_list x e (inorder (Node p es cs)) = A @ ins_list x e (inorder (cs ! i)) @ B"
    unfolding AB(2) by (rule ins_list_middle [OF AB(3,4)])
  note ch = follow_child [OF assms(1) rs(3) AB(1)]
  have io: "bt_os s = []" "p < file_end s" using assms(1,3) by (auto simp: pages_ok_def space_ok_def tree_in_def)
  have pos: "this_page_pos tnode = p" using rs(3) by (simp add: holds_def)
  have step: "insert_dir_entry_btree (Suc depth) x e tnode s =
      bindE (insert_dir_entry_btree depth x e (pages s (root (cs ! i)))) (\<lambda>r. case r of
        Inserted _ \<Rightarrow> returnE (Inserted tnode)
      | Overflow _ median new_page \<Rightarrow> bindE (PREAD p) (\<lambda>tnode'. insert_median i median new_page tnode')) s"
    using rs(1) [of e] at ch io pos by simp
  show ?thesis
  proof (cases "entry_key x e \<in> entry_key x ` set (inorder (cs ! i))")
    case True
    then show ?thesis using IH mem step by (simp add: insert_ok_def)
  next
    case False
    with IH obtain r s1 ts N where run: "insert_dir_entry_btree depth x e (pages s (root (cs ! i))) s = (Inr r, s1)"
      and bc: "became s s1 U (set (poss (cs ! i))) h (root (cs ! i)) 30 (ins_list x e (inorder (cs ! i))) r ts N"
      and ov: "seps r \<noteq> [] \<longleftrightarrow> overflows h x (entry_key x e) (cs ! i)"
      using tree_in_child(2) [OF assms(1) AB(1)] bal by (auto simp: insert_ok_def min_def split: if_splits)
    show ?thesis
    proof (cases r)
      case (Inserted pg)
      with became_inserted [OF assms(1) AB(1) assms(4) bc [unfolded Inserted], of tnode] show ?thesis
        using False mem step run ov unfolding insert_ok_def ins AB(5,6) root.simps fill.simps
        by (auto simp: ca simp del: poss.simps insert_dir_entry_btree.simps)
    next
      case (Overflow pg m np)
      have "0 < i \<or> length es < MAX_DIR_ENTRIES_PER_PAGE"
        using safe ca ov Overflow rs(3) by (cases "i = 0") (auto simp: holds_def)
      then obtain r2 s2 ts2 M where md: "insert_median i m np (pages s1 p) s1 = (Inr r2, s2)"
        and bc2: "became s s2 U (set (poss (Node p es cs))) (Suc h) p (min 30 (length es)) (A @ ins_list x e (inorder (cs ! i)) @ B) r2 ts2 M"
        and ov2: "seps r2 \<noteq> [] \<longleftrightarrow> length es = MAX_DIR_ENTRIES_PER_PAGE"
        using became_overflow [OF assms(1) AB(1) assms(4) bc [unfolded Overflow]] unfolding AB(5,6) by metis
      have "bt_os s1 = []" "p < file_end s1" using bc io(2) by (auto simp: became_def pages_ok_def space_ok_def kept_def)
      then have "insert_dir_entry_btree (Suc depth) x e tnode s = (Inr r2, s2)" using step run Overflow md by simp
      moreover have "seps r2 \<noteq> [] \<longleftrightarrow> overflows (Suc h) x (entry_key x e) (Node p es cs)"
        using ov ov2 Overflow ca by simp
      ultimately show ?thesis using False mem bc2 unfolding insert_ok_def ins root.simps fill.simps
        by (auto simp del: poss.simps insert_dir_entry_btree.simps)
    qed
  qed
qed

lemma insert_ok_found:
  assumes "tree_in s h (Node p es cs)" and "is_sorted x (Node p es cs)" and "same_core tnode (pages s p)"
    and "linear_search (map (entry_key x) es) (entry_key x e) = Found i"
  shows "insert_ok (Suc depth) x e tnode s U h (Node p es cs)"
proof -
  have "es ! i \<in> set (inorder (Node p es cs))" "entry_key x (es ! i) = entry_key x e"
    using linear_search_FoundD [OF assms(4)] entries_in_inorder [of h p es cs] assms(1) by (auto simp: tree_in_def)
  then have "entry_key x e \<in> entry_key x ` set (inorder (Node p es cs))" by (metis imageI)
  then show ?thesis using root_search(1) [OF assms(1-3), of e] assms(4) by (simp add: insert_ok_def del: inorder.simps)
qed

lemma insert_dir_entry_btree_spec:
  assumes "tree_in s h t" and "is_sorted x t" and "pages_ok s gcl U" and "set (poss t) \<subseteq> U" and "h < depth"
    and "same_core tnode (pages s (root t))" and "left_safe h x (entry_key x e) t"
    and "page_links (U \<union> set gcl) tnode"
  shows "insert_ok depth x e tnode s U h t"
  using assms
proof (induction depth arbitrary: h t tnode)
  case (Suc depth)
  obtain p es cs where t: "t = Node p es cs" by (cases t)
  note prems = Suc.prems [unfolded t root.simps]
  show ?case
  proof (cases "linear_search (map (entry_key x) es) (entry_key x e)")
    case (Found i)
    then show ?thesis unfolding t by (rule insert_ok_found [OF prems(1,2,6)])
  next
    case (Insert_At i)
    note i = linear_search_child_at [OF Insert_At]
    show ?thesis
    proof (cases h)
      case 0
      then have "cs = []" using prems(1) by (simp add: tree_in_def)
      then show ?thesis using insert_ok_leaf [of s p es x gcl U tnode e i depth] prems Insert_At 0 t by simp
    next
      case (Suc h')
      note tr = prems(1) [unfolded Suc]
      have bal: "bal (Suc h') (Node p es cs)" using tr by (simp add: tree_in_def)
      obtain i': "i \<le> length es" and "is_sorted x (cs ! i)" by (rule descend [OF bal prems(2) Insert_At])
      moreover have "left_safe h' x (entry_key x e) (cs ! i)" using prems(7) Suc i by simp
      moreover have sub: "set (poss (cs ! i)) \<subseteq> U" using prems(4) tree_in_child(2) [OF tr i'] by auto
      moreover have "page_links (U \<union> set gcl) (pages s (root (cs ! i)))"
        using sub root_in_poss [of "cs ! i"] prems(3) unfolding pages_ok_def links_def by blast
      ultimately have "insert_ok depth x e (pages s (root (cs ! i))) s U h' (cs ! i)"
        using Suc.prems(5) Suc by (intro Suc.IH [OF tree_in_child(1) [OF tr i'] _ prems(3)]) auto
      then show ?thesis unfolding t Suc
        using prems Suc by (intro insert_ok_inner [OF tr prems(2,3,4,6) Insert_At]) auto
    qed
  qed
qed simp

end
