(* ===== verification/Dir_Btree_Rebal.thy ===== *)
theory Dir_Btree_Rebal
  imports Dir_Btree_Del Dir_Btree_Ins
begin

text \<open>
  \<^verbatim>\<open>rebalance_btree\<close> keeps the entries of the tree and their order: it merges two neighbours or shares their entries out,
  and puts the pages it no longer needs on the list of free pages.
\<close>

subsection \<open>States of a deletion\<close>

text \<open>\<open>A\<close> are the pages of the directory, in use or free; the scratch array is that of \<^verbatim>\<open>dir_remove_entry\<close>.\<close>

definition del_state :: "nat set \<Rightarrow> bt_state \<Rightarrow> nat list \<Rightarrow> nat set \<Rightarrow> bool" where
  "del_state A s gcl U \<longleftrightarrow> space_ok s gcl U \<and> A = U \<union> set gcl \<and> (\<forall>p \<in> U. page_links A (pages s p)) \<and> 0 \<notin> A \<and>
     tree_walk_list_head (this_meta s) \<in> insert 0 A \<and> 2 * (MAX_DIR_ENTRIES_PER_PAGE + 3) \<le> length (temp_child_page_pos s)"

definition same_free :: "DIR_ENTRY_PAGE \<Rightarrow> DIR_ENTRY_PAGE \<Rightarrow> bool" where
  "same_free a b \<longleftrightarrow> same_core a b \<and> gc_list_next a = gc_list_next b"

lemma page_in_file:
  assumes "del_state A s gcl U" and "p \<in> A"
  shows "p + sizeof_page \<le> file_end s" "p < file_end s" "bt_os s = []"
proof -
  show "p + sizeof_page \<le> file_end s" "bt_os s = []" using assms by (auto simp: del_state_def space_ok_def)
  then show "p < file_end s" by simp
qed

lemma PREAD_del [simp]: "del_state A s gcl U \<Longrightarrow> p \<in> A \<Longrightarrow> PREAD p s = (Inr (pages s p), s)"
  using page_in_file by simp

lemma PWRITE_del [simp]:
  "del_state A s gcl U \<Longrightarrow> p \<in> A \<Longrightarrow> PWRITE pg p s = (Inr (), s\<lparr>pages := (pages s)(p := pg)\<rparr>)"
  using page_in_file by simp

lemma del_state_write:
  assumes "del_state A s gcl U" and "p \<in> U" and "page_links A pg"
  shows "del_state A (s\<lparr>pages := (pages s)(p := pg)\<rparr>) gcl U"
proof -
  have "p \<notin> set gcl" "space_ok s gcl U" using assms(1,2) by (auto simp: del_state_def space_ok_def)
  from space_ok_write [OF this(2,1), of pg] show ?thesis using assms by (auto simp: del_state_def)
qed

text \<open>Changes of links only.\<close>

definition relinked :: "nat set \<Rightarrow> nat list \<Rightarrow> nat set \<Rightarrow> bt_state \<Rightarrow> bt_state \<Rightarrow> bool" where
  "relinked A gcl U s s' \<longleftrightarrow> (\<exists>P'. s' = s\<lparr>pages := P'\<rparr> \<and> (\<forall>q. same_core (P' q) (pages s q))) \<and> del_state A s' gcl U"

lemma relinked_refl: "del_state A s gcl U \<Longrightarrow> relinked A gcl U s s"
  by (auto simp: relinked_def intro!: exI [of _ "pages s"])

lemma relinked_trans: "relinked A gcl U s s' \<Longrightarrow> relinked A gcl U s' s'' \<Longrightarrow> relinked A gcl U s s''"
  unfolding relinked_def by clarsimp (metis bt_state.update_convs(1) same_core_trans)

lemma relinkedD:
  assumes "relinked A gcl U s s'"
  shows "del_state A s' gcl U" "this_meta s' = this_meta s \<and> disk_meta s' = disk_meta s" "same_core (pages s' q) (pages s q)"
    "dir_nlink s' = dir_nlink s" "meta_locked s' = meta_locked s" "file_end s' = file_end s"
    "temp_child_page_pos s' = temp_child_page_pos s"
  using assms by (auto simp: relinked_def)

lemma rewrite_page_relinked:
  assumes "del_state A s gcl U" and "q \<in> A" and "same_free (f (pages s q)) (pages s q)"
    and "page_links A (pages s q) \<Longrightarrow> page_links A (f (pages s q))"
  obtains s' where "rewrite_page q f s = (Inr (), s')" "relinked A gcl U s s'"
proof -
  define P' where "P' = (pages s)(q := f (pages s q))"
  have "gc_chain P' g gcl = gc_chain (pages s) g gcl" for g
    by (rule gc_chain_cong) (use assms(3) in \<open>simp add: P'_def same_free_def same_core_def\<close>)
  then have "del_state A (s\<lparr>pages := P'\<rparr>) gcl U"
    using assms(1,4) by (auto simp: del_state_def space_ok_def P'_def)
  then have "relinked A gcl U s (s\<lparr>pages := P'\<rparr>)" using assms(3) by (auto simp: relinked_def P'_def same_free_def)
  moreover have "rewrite_page q f s = (Inr (), s\<lparr>pages := P'\<rparr>)"
    using assms(1,2) by (simp add: rewrite_page_def P'_def)
  ultimately show ?thesis using that by blast
qed

text \<open>A page in memory whose links may have changed.\<close>

definition like :: "nat set \<Rightarrow> DIR_ENTRY_PAGE \<Rightarrow> DIR_ENTRY_PAGE \<Rightarrow> bool" where
  "like A a b \<longleftrightarrow> same_core a b \<and> page_links A a"

lemma like_trans: "like A a b \<Longrightarrow> like A b c \<Longrightarrow> like A a c"
  by (auto simp: like_def intro: same_core_trans)

lemma like_refl: "page_links A a \<Longrightarrow> like A a a"
  by (simp add: like_def)

lemma like_links:
  "page_links A a \<Longrightarrow> v \<in> insert 0 A \<Longrightarrow> like A (a\<lparr>tree_walk_prev := v\<rparr>) a"
  "page_links A a \<Longrightarrow> v \<in> insert 0 A \<Longrightarrow> like A (a\<lparr>tree_walk_next := v\<rparr>) a"
  by (auto simp: like_def page_links_def)

lemma rewrite_prev:
  assumes "del_state A s gcl U" and "q \<in> A" and "v \<in> insert 0 A"
  obtains s' where "rewrite_page q (\<lambda>p. p\<lparr>tree_walk_prev := v\<rparr>) s = (Inr (), s')" "relinked A gcl U s s'"
  by (rule rewrite_page_relinked [OF assms(1,2), of "\<lambda>p. p\<lparr>tree_walk_prev := v\<rparr>"])
    (use assms(3) in \<open>auto simp: same_free_def page_links_def\<close>)

lemma rewrite_next:
  assumes "del_state A s gcl U" and "q \<in> A" and "v \<in> insert 0 A"
  obtains s' where "rewrite_page q (\<lambda>p. p\<lparr>tree_walk_next := v\<rparr>) s = (Inr (), s')" "relinked A gcl U s s'"
  by (rule rewrite_page_relinked [OF assms(1,2), of "\<lambda>p. p\<lparr>tree_walk_next := v\<rparr>"])
    (use assms(3) in \<open>auto simp: same_free_def page_links_def\<close>)

lemma relink_next_spec:
  assumes "del_state A s gcl U" and "page_links A right" and "page_links A left" and "page_links A tnode"
  obtains left' tnode' s' where "relink_next right left tnode s = (Inr (left', tnode'), s')"
    "like A left' left" "like A tnode' tnode" "relinked A gcl U s s'"
proof -
  have lk: "tree_walk_next right \<in> insert 0 A" "tree_walk_prev right \<in> insert 0 A" using assms(2) by (auto simp: page_links_def)
  note likes = like_refl [OF assms(3)] like_refl [OF assms(4)] like_links(1) [OF assms(3) lk(2)] like_links(1) [OF assms(4) lk(2)]
  consider "tree_walk_next right = 0" | "tree_walk_next right \<noteq> 0" "tree_walk_next right = this_page_pos left"
    | "tree_walk_next right \<noteq> 0" "tree_walk_next right \<noteq> this_page_pos left" "tree_walk_next right = this_page_pos tnode"
    | "tree_walk_next right \<noteq> 0" "tree_walk_next right \<noteq> this_page_pos left" "tree_walk_next right \<noteq> this_page_pos tnode" by blast
  then show ?thesis
  proof cases
    case 4
    then have "tree_walk_next right \<in> A" using lk by simp
    then obtain s' where "rewrite_page (tree_walk_next right) (\<lambda>p. p\<lparr>tree_walk_prev := tree_walk_prev right\<rparr>) s = (Inr (), s')"
      "relinked A gcl U s s'" by (rule rewrite_prev [OF assms(1) _ lk(2)])
    then show ?thesis using that likes 4 by (simp add: relink_next_def Let_def)
  qed (use that likes relinked_refl [OF assms(1)] in \<open>simp_all add: relink_next_def Let_def\<close>)
qed

lemma relink_prev_spec:
  assumes "del_state A s gcl U" and "page_links A right" and "page_links A left" and "page_links A tnode"
  obtains left' tnode' s' where "relink_prev right left tnode s = (Inr (left', tnode'), s')"
    "like A left' left" "like A tnode' tnode" "relinked A gcl U s s'"
proof -
  have lk: "tree_walk_next right \<in> insert 0 A" "tree_walk_prev right \<in> insert 0 A" using assms(2) by (auto simp: page_links_def)
  note likes = like_refl [OF assms(3)] like_refl [OF assms(4)] like_links(2) [OF assms(3) lk(1)] like_links(2) [OF assms(4) lk(1)]
  consider "tree_walk_prev right = 0" | "tree_walk_prev right \<noteq> 0" "tree_walk_prev right = this_page_pos left"
    | "tree_walk_prev right \<noteq> 0" "tree_walk_prev right \<noteq> this_page_pos left" "tree_walk_prev right = this_page_pos tnode"
    | "tree_walk_prev right \<noteq> 0" "tree_walk_prev right \<noteq> this_page_pos left" "tree_walk_prev right \<noteq> this_page_pos tnode" by blast
  then show ?thesis
  proof cases
    case 4
    then have "tree_walk_prev right \<in> A" using lk by simp
    then obtain s' where "rewrite_page (tree_walk_prev right) (\<lambda>p. p\<lparr>tree_walk_next := tree_walk_next right\<rparr>) s = (Inr (), s')"
      "relinked A gcl U s s'" by (rule rewrite_next [OF assms(1) _ lk(1)])
    then show ?thesis using that likes 4 by (simp add: relink_prev_def Let_def)
  qed (use that likes relinked_refl [OF assms(1)] in \<open>simp_all add: relink_prev_def Let_def\<close>)
qed

lemma link_choice:
  assumes "del_state A s gcl U" and "q \<in> insert 0 A" and "page_links A left" and "like A (g left) left"
    and "q \<in> A \<Longrightarrow> \<exists>s'. rewrite_page q g s = (Inr (), s') \<and> relinked A gcl U s s'"
  shows "\<exists>left' s'. (if q = this_page_pos left then returnE (g left)
      else if q \<noteq> 0 then bindE (rewrite_page q g) (\<lambda>_. returnE left) else returnE left) s = (Inr left', s') \<and>
    like A left' left \<and> relinked A gcl U s s'"
proof -
  consider "q = this_page_pos left" | "q \<noteq> this_page_pos left" "q = 0" | "q \<noteq> this_page_pos left" "q \<noteq> 0" "q \<in> A" using assms(2) by blast
  then show ?thesis
  proof cases
    case 3
    then show ?thesis using assms(5) like_refl [OF assms(3)] by auto
  qed (use assms(4) like_refl [OF assms(3)] relinked_refl [OF assms(1)] in auto)
qed

lemma relink_root_spec:
  assumes "del_state A s gcl U" and "page_links A tnode" and "page_links A left"
  obtains left' s' where "relink_root tnode left s = (Inr left', s')" "like A left' left" "relinked A gcl U s s'"
proof -
  have lk: "tree_walk_next tnode \<in> insert 0 A" "tree_walk_prev tnode \<in> insert 0 A" using assms(2) by (auto simp: page_links_def)
  define m where "m = (if tree_walk_next tnode = this_page_pos left then returnE (left\<lparr>tree_walk_prev := tree_walk_prev tnode\<rparr>)
     else if tree_walk_next tnode \<noteq> 0 then bindE (rewrite_page (tree_walk_next tnode) (\<lambda>p. p\<lparr>tree_walk_prev := tree_walk_prev tnode\<rparr>)) (\<lambda>_. returnE left)
     else returnE left)"
  obtain left1 s1 where m: "m s = (Inr left1, s1)" and l1: "like A left1 left" and r1: "relinked A gcl U s s1"
    using link_choice [OF assms(1) lk(1) assms(3), where g = "\<lambda>p. p\<lparr>tree_walk_prev := tree_walk_prev tnode\<rparr>"] like_links(1) [OF assms(3) lk(2)] rewrite_prev [OF assms(1) _ lk(2)]
    unfolding m_def by metis
  define k where "k = (if tree_walk_prev tnode = this_page_pos left1 then returnE (left1\<lparr>tree_walk_next := tree_walk_next tnode\<rparr>)
     else if tree_walk_prev tnode \<noteq> 0 then bindE (rewrite_page (tree_walk_prev tnode) (\<lambda>p. p\<lparr>tree_walk_next := tree_walk_next tnode\<rparr>)) (\<lambda>_. returnE left1)
     else returnE left1)"
  have pl: "page_links A left1" using l1 by (simp add: like_def)
  obtain left2 s2 where k: "k s1 = (Inr left2, s2)" and l2: "like A left2 left1" and r2: "relinked A gcl U s1 s2"
    using link_choice [OF relinkedD(1) [OF r1] lk(2) pl, where g = "\<lambda>p. p\<lparr>tree_walk_next := tree_walk_next tnode\<rparr>"] like_links(2) [OF pl lk(1)] rewrite_next [OF relinkedD(1) [OF r1] _ lk(1)]
    unfolding k_def by metis
  have "relink_root tnode left s = (Inr left2, s2)"
    using m k unfolding relink_root_def Let_def m_def [symmetric] by (simp add: k_def)
  then show ?thesis using that like_trans [OF l2 l1] relinked_trans [OF r1 r2] by blast
qed

text \<open>What a deletion keeps besides the pages.\<close>

definition side :: "bt_state \<Rightarrow> bt_state \<Rightarrow> bool" where
  "side s s' \<longleftrightarrow> total_children (this_meta s') = total_children (this_meta s) \<and> dir_nlink s' = dir_nlink s \<and>
     meta_locked s' = meta_locked s \<and> length (temp_child_page_pos s') = length (temp_child_page_pos s)"

lemma side_trans: "side s s' \<Longrightarrow> side s' s'' \<Longrightarrow> side s s''"
  by (simp add: side_def)

lemma side_refl [simp]: "side s s"
  by (simp add: side_def)

lemma side_relinked: "relinked A gcl U s s' \<Longrightarrow> side s s'"
  by (auto simp: relinked_def side_def)

lemma free_page_spec:
  assumes "del_state A s gcl U" and "p \<in> U"
  obtains s' where "free_page p s = (Inr (), s')" "del_state A s' (p # gcl) (U - {p})"
    "\<forall>q. q \<noteq> p \<longrightarrow> pages s' q = pages s q" "side s s'" "root_entry_page (this_meta s') = root_entry_page (this_meta s)"
proof -
  have p: "p \<in> A" "p \<noteq> 0" "p \<notin> set gcl" using assms by (auto simp: del_state_def space_ok_def)
  note fe = page_in_file [OF assms(1) p(1)]
  define zp where "zp = zero_page\<lparr>this_page_pos := p, gc_list_next := entry_page_gc_list (this_meta s)\<rparr>"
  define s' where "s' = s\<lparr>this_meta := (this_meta s)\<lparr>entry_page_gc_list := p\<rparr>, pages := (pages s)(p := zp)\<rparr>"
  have "gc_chain ((pages s)(p := zp)) g gcl = gc_chain (pages s) g gcl" for g
    by (rule gc_chain_cong) (use p(3) in auto)
  moreover have "gc_list_next zp = entry_page_gc_list (this_meta s)" "length (dir_entries zp) = 99" by (simp_all add: zp_def zero_page_def)
  ultimately have "del_state A s' (p # gcl) (U - {p})" using assms p by (auto simp: del_state_def space_ok_def s'_def)
  moreover have "free_page p s = (Inr (), s')" using fe by (simp add: free_page_def Let_def upd_meta_def s'_def zp_def)
  ultimately show ?thesis using that by (simp add: s'_def side_def)
qed

lemma walk_head_past_spec:
  assumes "del_state A s gcl U" and "page_links A pg" and "U \<noteq> {}"
  obtains s' where "walk_head_past pg s = (Inr (), s')" "del_state A s' gcl U" "pages s' = pages s" "side s s'"
    "root_entry_page (this_meta s') = root_entry_page (this_meta s)"
proof -
  define m where "m = (if tree_walk_list_head (this_meta s) = this_page_pos pg then (this_meta s)\<lparr>tree_walk_list_head := tree_walk_next pg\<rparr> else this_meta s)"
  obtain u where "u \<in> U" using assms(3) by blast
  then have "sizeof_page \<le> file_end s" using assms(1) page_in_file(1) [OF assms(1), of u] by (simp add: del_state_def)
  moreover have "tree_walk_next pg \<in> A \<Longrightarrow> tree_walk_next pg + sizeof_page \<le> file_end s" by (rule page_in_file(1) [OF assms(1)])
  ultimately have "del_state A (s\<lparr>this_meta := m\<rparr>) gcl U"
    using assms(1,2) by (auto simp: del_state_def space_ok_def m_def page_links_def)
  moreover have "walk_head_past pg s = (Inr (), s\<lparr>this_meta := m\<rparr>)" by (simp add: walk_head_past_def upd_meta_def m_def)
  ultimately show ?thesis using that by (simp add: side_def m_def)
qed

subsection \<open>Pages with other contents\<close>

text \<open>The positions in a page that count: zeros in a leaf.\<close>

definition pos_of :: "'a list \<Rightarrow> nat list \<Rightarrow> nat list" where
  "pos_of es ps = (if ps = [] then replicate (Suc (length es)) 0 else ps)"

lemma holds_pos: "holds pg p es ps \<Longrightarrow> take (Suc (length es)) (child_page_pos pg) = pos_of es ps"
  by (auto simp: holds_def pos_of_def min_def)

lemma pos_of_append: "(lps = [] \<longleftrightarrow> rps = []) \<Longrightarrow> pos_of les lps @ pos_of res rps = pos_of (les @ e # res) (lps @ rps)"
  by (auto simp: pos_of_def replicate_add [symmetric] replicate_app_Cons_same)

lemma pos_of_take:
  "ps = [] \<or> length ps = Suc (length es) \<Longrightarrow> m \<le> length es \<Longrightarrow> take (Suc m) (pos_of es ps) = pos_of (take m es) (take (Suc m) ps)"
  by (auto simp: pos_of_def min_def)

lemma pos_of_drop:
  "ps = [] \<or> length ps = Suc (length es) \<Longrightarrow> m < length es \<Longrightarrow>
    drop (Suc m) (pos_of es ps) = pos_of (drop (Suc m) es) (drop (Suc m) ps)"
  by (auto simp: pos_of_def Suc_diff_Suc simp flip: replicate_Suc)

lemma length_pos_of: "ps = [] \<or> length ps = Suc (length es) \<Longrightarrow> length (pos_of es ps) = Suc (length es)"
  by (auto simp: pos_of_def)

lemma refill_holds:
  assumes "holds pg p es0 ps0" and "length es \<le> MAX_DIR_ENTRIES_PER_PAGE" and "take (length es) tmp = es"
    and "take (Suc (length es)) temp = pos_of es ps" and "ps = [] \<longleftrightarrow> ps0 = []" and "ps = [] \<or> length ps = Suc (length es)"
  shows "holds (refill pg (length es) tmp temp) p es ps"
proof -
  define n where "n = length es"
  have len: "length (take n tmp) = n" "length (take (Suc n) temp) = Suc n"
    using assms(3,4) length_pos_of [OF assms(6)] by (simp_all add: n_def)
  have de: "dir_entries (refill pg n tmp temp) = es @ drop n (dir_entries pg)"
    using assms(3) by (simp add: refill_def memcpy_at_def n_def)
  have ce: "child_page_pos (refill pg n tmp temp) = pos_of es ps @ drop (Suc n) (child_page_pos pg)"
    using assms(4) by (simp add: refill_def memcpy_at_def n_def)
  have "ps = [] \<Longrightarrow> pos_of es ps @ drop (Suc n) (child_page_pos pg) = replicate 100 0"
    using assms(1,2,5) by (simp add: holds_def pos_of_def n_def replicate_add [symmetric] del: replicate_Suc)
  then show ?thesis using assms(1,2,6) de ce length_pos_of [OF assms(6)]
    by (auto simp: holds_def n_def [symmetric] pos_of_def) (auto simp: refill_def n_def)
qed

lemma pool_positions_take:
  assumes "holds left lp les lps" and "holds right rp res rps"
    and "2 * (MAX_DIR_ENTRIES_PER_PAGE + 3) \<le> length temp"
  shows "take (length les + length res + 2) (pool_positions left right temp) = pos_of les lps @ pos_of res rps"
    "length (pool_positions left right temp) = length temp"
proof -
  have n: "num_entries left = length les" "num_entries right = length res" "length les \<le> 99" "length res \<le> 99"
    "length (child_page_pos left) = 100" "length (child_page_pos right) = 100"
    using assms(1,2) by (auto simp: holds_def)
  have p: "take (Suc (length les)) (child_page_pos left) = pos_of les lps" "take (Suc (length res)) (child_page_pos right) = pos_of res rps"
    using holds_pos assms(1,2) by blast+
  have l: "length (pos_of les lps) = Suc (length les)" "length (pos_of res rps) = Suc (length res)"
    using n by (simp_all flip: p)
  have eq: "pool_positions left right temp = (pos_of les lps @ pos_of res rps) @ drop (length les + length res + 2) temp"
    using n p l assms(3) by (simp add: pool_positions_def memcpy_at_def add.commute)
  show "take (length les + length res + 2) (pool_positions left right temp) = pos_of les lps @ pos_of res rps"
    "length (pool_positions left right temp) = length temp"
    unfolding eq using l assms(3) n by simp_all
qed

lemma drop_item_spec:
  assumes "holds tnode p es ps" and "ps \<noteq> []" and "j < length es" and "2 * (MAX_DIR_ENTRIES_PER_PAGE + 3) \<le> length (temp_child_page_pos s)"
  obtains tn tmp where "drop_item j tnode s = (Inr tn, s\<lparr>temp_child_page_pos := tmp\<rparr>)" "length tmp = length (temp_child_page_pos s)"
    "holds tn p (take j es @ drop (Suc j) es) (take (Suc j) ps @ drop (Suc (Suc j)) ps)"
    "tree_walk_next tn = tree_walk_next tnode" "tree_walk_prev tn = tree_walk_prev tnode"
proof -
  define n where "n = length es - (j + 1)"
  define c where "c = child_page_pos tnode"
  define tmp where "tmp = memcpy_at (temp_child_page_pos s) 0 c (j + 2) n"
  have h: "num_entries tnode = length es" "length (dir_entries tnode) = 99" "take (length es) (dir_entries tnode) = es" "length es \<le> 99"
    "length c = 100" "take (Suc (length es)) c = ps" "length ps = Suc (length es)" "this_page_pos tnode = p"
    using assms(1,2) by (auto simp: holds_def c_def)
  have tmp: "take n tmp = take n (drop (j + 2) c)" "length tmp = length (temp_child_page_pos s)"
    using h assms(3,4) by (auto simp: tmp_def memcpy_at_def n_def)
  have de: "memcpy_at (dir_entries tnode) j (dir_entries tnode) (j + 1) n = (take j es @ drop (Suc j) es) @ drop (j + n) (dir_entries tnode)"
  proof -
    have "take j (dir_entries tnode) = take j es" using arg_cong [OF h(3), of "take j"] assms(3) by (simp add: min_def)
    moreover have "take n (drop (j + 1) (dir_entries tnode)) = drop (Suc j) es" using arg_cong [OF h(3), of "drop (Suc j)"] assms(3) by (simp add: n_def drop_take)
    ultimately show ?thesis by (simp add: memcpy_at_def)
  qed
  have ce: "memcpy_at c (j + 1) tmp 0 n = (take (Suc j) ps @ drop (Suc (Suc j)) ps) @ drop (j + 1 + n) c"
  proof -
    have "take (Suc j) c = take (Suc j) ps" using arg_cong [OF h(6), of "take (Suc j)"] assms(3) by (simp add: min_def)
    moreover have "take n (drop (j + 2) c) = drop (Suc (Suc j)) ps" using arg_cong [OF h(6), of "drop (Suc (Suc j))"] assms(3) by (simp add: n_def drop_take)
    ultimately show ?thesis using tmp by (simp add: memcpy_at_def)
  qed
  define tn where "tn = tnode\<lparr>dir_entries := memcpy_at (dir_entries tnode) j (dir_entries tnode) (j + 1) n,
     child_page_pos := memcpy_at c (j + 1) tmp 0 n, num_entries := length es - 1\<rparr>"
  have "drop_item j tnode s = (Inr tn, s\<lparr>temp_child_page_pos := tmp\<rparr>)"
    by (simp add: drop_item_def Let_def h(1) tn_def tmp_def c_def n_def)
  moreover have "holds tn p (take j es @ drop (Suc j) es) (take (Suc j) ps @ drop (Suc (Suc j)) ps)"
    unfolding holds_def tn_def de ce using h assms(2,3) by (auto simp: n_def)
  ultimately show ?thesis using that tmp(2) by (simp add: tn_def)
qed

end
