(* ===== verification/Dir_Btree_Merge.thy ===== *)
theory Dir_Btree_Merge
  imports Dir_Btree_Rebal
begin

text \<open>
  The two ways of rebalancing on the pages of the file: merging a child with its right neighbour, with or without the root of the tree, and sharing
  the entries out between the two.
\<close>

subsection \<open>Merging\<close>

lemma holds_like: "like A a b \<Longrightarrow> holds b p es ps \<Longrightarrow> holds a p es ps"
  using holds_core by (auto simp: like_def)

definition same_elsewhere :: "nat set \<Rightarrow> bt_state \<Rightarrow> bt_state \<Rightarrow> bool" where
  "same_elsewhere X s s' \<longleftrightarrow> (\<forall>q. q \<notin> X \<longrightarrow> same_core (pages s' q) (pages s q))"

lemma same_elsewhere_trans: "same_elsewhere X s s' \<Longrightarrow> same_elsewhere Y s' s'' \<Longrightarrow> same_elsewhere (X \<union> Y) s s''"
  by (auto simp: same_elsewhere_def intro: same_core_trans)

lemma same_elsewhere_relinked: "relinked A gcl U s s' \<Longrightarrow> same_elsewhere {} s s'"
  using relinkedD(3) by (auto simp: same_elsewhere_def)

lemma del_state_meta [simp]:
  "del_state A (s\<lparr>disk_meta := m\<rparr>) gcl U = del_state A s gcl U"
  "del_state A (s\<lparr>this_meta := (this_meta s)\<lparr>root_entry_page := r\<rparr>\<rparr>) gcl U = del_state A s gcl U"
  by (simp_all add: del_state_def space_ok_def)

text \<open>A page leaves the tree: it is freed and taken out of the tree walk list, as far as the two pages in memory tell.\<close>

lemma drop_right_page:
  assumes "del_state A s gcl U" and "rp \<in> U" and "U - {rp} \<noteq> {}" and "this_page_pos right = rp"
    and "page_links A right" and "page_links A left" and "page_links A tnode"
  obtains left' tnode' s' where
    "bindE (free_page (this_page_pos right)) (\<lambda>_. bindE (walk_head_past right) (\<lambda>_.
      bindE (relink_next right left tnode) (\<lambda>(left1, tnode1). bindE (relink_prev right left1 tnode1) k))) s = k (left', tnode') s'"
    "like A left' left" "like A tnode' tnode" "del_state A s' (rp # gcl) (U - {rp})" "same_elsewhere {rp} s s'" "side s s'"
    "root_entry_page (this_meta s') = root_entry_page (this_meta s)"
proof -
  obtain s1 where f: "free_page rp s = (Inr (), s1)" "del_state A s1 (rp # gcl) (U - {rp})" "\<forall>q. q \<noteq> rp \<longrightarrow> pages s1 q = pages s q"
    "side s s1" "root_entry_page (this_meta s1) = root_entry_page (this_meta s)"
    by (rule free_page_spec [OF assms(1,2)])
  obtain s2 where w: "walk_head_past right s1 = (Inr (), s2)" "del_state A s2 (rp # gcl) (U - {rp})" "pages s2 = pages s1" "side s1 s2"
    "root_entry_page (this_meta s2) = root_entry_page (this_meta s1)"
    by (rule walk_head_past_spec [OF f(2) assms(5,3)])
  obtain l3 t3 s3 where n: "relink_next right left tnode s2 = (Inr (l3, t3), s3)" "like A l3 left" "like A t3 tnode"
    "relinked A (rp # gcl) (U - {rp}) s2 s3"
    by (rule relink_next_spec [OF w(2) assms(5,6,7)])
  have pl: "page_links A l3" "page_links A t3" using n by (auto simp: like_def)
  obtain l4 t4 s4 where v: "relink_prev right l3 t3 s3 = (Inr (l4, t4), s4)" "like A l4 l3" "like A t4 t3"
    "relinked A (rp # gcl) (U - {rp}) s3 s4"
    by (rule relink_prev_spec [OF relinkedD(1) [OF n(4)] assms(5) pl])
  note rl = relinked_trans [OF n(4) v(4)]
  have "same_elsewhere {rp} s s2" using f(3) w(3) by (simp add: same_elsewhere_def)
  from same_elsewhere_trans [OF this same_elsewhere_relinked [OF rl]] have "same_elsewhere {rp} s s4" by simp
  moreover have "side s s4" using side_trans [OF side_trans [OF f(4) w(4)] side_relinked [OF rl]] .
  moreover have "root_entry_page (this_meta s4) = root_entry_page (this_meta s)" using relinkedD(2) [OF rl] w(5) f(5) by simp
  ultimately show ?thesis using that [of l4 t4 s4] like_trans [OF v(2) n(2)] like_trans [OF v(3) n(3)] relinkedD(1) [OF rl] f(1) w(1) n(1) v(1) assms(4)
    by simp
qed

lemma merge_front:
  assumes ds: "del_state A s gcl U" and tn: "holds tnode p es ps" "page_links A tnode"
    and left: "holds left lp les lps" "page_links A left" and right: "this_page_pos right = rp" "page_links A right"
    and pos: "p \<in> U" "rp \<in> U" "p \<noteq> rp"
    and new: "length mes \<le> MAX_DIR_ENTRIES_PER_PAGE" "take (Suc (length mes)) temp = pos_of mes mps"
      "mps = [] \<longleftrightarrow> lps = []" "mps = [] \<or> length mps = Suc (length mes)"
  obtains left' tnode' s' where "merge_pages j left right mes temp tnode s = finish_merge j (left', tnode') s'"
    "holds left' lp mes mps" "page_links A left'" "holds tnode' p es ps" "page_links A tnode'"
    "del_state A s' (rp # gcl) (U - {rp})" "same_elsewhere {rp} s s'" "side s s'"
    "root_entry_page (this_meta s') = root_entry_page (this_meta s)"
proof -
  define left0 where "left0 = refill left (length mes) mes temp"
  have l0: "holds left0 lp mes mps" unfolding left0_def by (rule refill_holds [OF left(1) new(1) _ new(2,3,4)]) simp
  have pl0: "page_links A left0" using left(2) by (simp add: left0_def refill_def page_links_def)
  have ne: "U - {rp} \<noteq> {}" using pos by auto
  show ?thesis
  proof (rule drop_right_page [OF ds pos(2) ne right pl0 tn(2), of "finish_merge j"])
    fix l' t' s'
    assume "bindE (free_page (this_page_pos right)) (\<lambda>_. bindE (walk_head_past right) (\<lambda>_.
        bindE (relink_next right left0 tnode) (\<lambda>(left1, tnode1). bindE (relink_prev right left1 tnode1) (finish_merge j)))) s =
      finish_merge j (l', t') s'"
    then have "merge_pages j left right mes temp tnode s = finish_merge j (l', t') s'"
      by (simp only: merge_pages_def left0_def)
    moreover assume "like A l' left0" "like A t' tnode" "del_state A s' (rp # gcl) (U - {rp})" "same_elsewhere {rp} s s'" "side s s'"
      "root_entry_page (this_meta s') = root_entry_page (this_meta s)"
    ultimately show ?thesis using that [of l' t' s'] holds_like l0 tn(1) by (simp add: like_def holds_core)
  qed
qed

lemma merge_keeps_parent:
  assumes ds: "del_state A s gcl U" and tn: "holds tnode p es ps" "page_links A tnode" and left: "holds left lp mes mps" "page_links A left"
    and pos: "p \<in> U" "lp \<in> U" "p \<noteq> lp" and j: "j < length es" "length es \<noteq> 1" and ps: "ps \<noteq> []"
  obtains s' where "finish_merge j (left, tnode) s = (Inr (1, pages s' p), s')"
    "holds (pages s' p) p (take j es @ drop (Suc j) es) (take (Suc j) ps @ drop (Suc (Suc j)) ps)"
    "holds (pages s' lp) lp mes mps" "del_state A s' gcl U" "same_elsewhere {p, lp} s s'" "side s s'"
    "root_entry_page (this_meta s') = root_entry_page (this_meta s)" "disk_meta s' = this_meta s'"
proof -
  have tl: "2 * (MAX_DIR_ENTRIES_PER_PAGE + 3) \<le> length (temp_child_page_pos s)" using ds by (simp add: del_state_def)
  obtain t3 tmp where di: "drop_item j tnode s = (Inr t3, s\<lparr>temp_child_page_pos := tmp\<rparr>)" "length tmp = length (temp_child_page_pos s)"
    "holds t3 p (take j es @ drop (Suc j) es) (take (Suc j) ps @ drop (Suc (Suc j)) ps)"
    "tree_walk_next t3 = tree_walk_next tnode" "tree_walk_prev t3 = tree_walk_prev tnode"
    by (rule drop_item_spec [OF tn(1) ps j(1) tl])
  define s3 where "s3 = s\<lparr>temp_child_page_pos := tmp\<rparr>"
  define s4 where "s4 = s3\<lparr>pages := (pages s3)(p := t3)\<rparr>"
  define s5 where "s5 = s4\<lparr>disk_meta := this_meta s4\<rparr>"
  define s6 where "s6 = s5\<lparr>pages := (pages s5)(lp := left)\<rparr>"
  have A: "p \<in> A" "lp \<in> A" using ds pos by (auto simp: del_state_def)
  have ds3: "del_state A s3 gcl U" using ds di(2) by (auto simp: s3_def del_state_def space_ok_def)
  have ds4: "del_state A s4 gcl U" unfolding s4_def
    by (rule del_state_write [OF ds3 pos(1)]) (use tn(2) di(4,5) in \<open>simp add: page_links_def\<close>)
  have ds5: "del_state A s5 gcl U" using ds4 by (simp add: s5_def)
  have ds6: "del_state A s6 gcl U" unfolding s6_def by (rule del_state_write [OF ds5 pos(2) left(2)])
  have io: "bt_os s4 = []" using page_in_file(3) [OF ds4 A(1)] .
  have nn: "num_entries tnode \<noteq> 1" "this_page_pos t3 = p" "this_page_pos left = lp" using tn(1) di(3) left(1) j(2) by (auto simp: holds_def)
  have "drop_merged_item j left tnode s = (Inr (1, left, t3), s4)"
    using di(1) nn(2) PWRITE_del [OF ds3 A(1), of t3] by (simp add: drop_merged_item_def flip: s3_def s4_def)
  then have run: "finish_merge j (left, tnode) s = (Inr (1, t3), s6)"
    using nn io PWRITE_del [OF ds5 A(2), of left] by (simp add: finish_merge_def write_merged_def PWRITE_meta_def flip: s5_def s6_def)
  have pg: "pages s6 p = t3" "pages s6 lp = left" using pos(3) by (simp_all add: s6_def s5_def s4_def)
  have "same_elsewhere {p, lp} s s6" by (simp add: same_elsewhere_def s6_def s5_def s4_def s3_def)
  moreover have "side s s6" "root_entry_page (this_meta s6) = root_entry_page (this_meta s)" "disk_meta s6 = this_meta s6"
    using di(2) by (simp_all add: side_def s6_def s5_def s4_def s3_def)
  ultimately show ?thesis using that [of s6] run di(3) left(1) ds6 by (simp add: pg)
qed

lemma merge_drops_root:
  assumes ds: "del_state A s gcl U" and tn: "holds tnode p [e] ps" "page_links A tnode" and left: "holds left lp mes mps" "page_links A left"
    and pos: "p \<in> U" "lp \<in> U" "p \<noteq> lp"
  obtains tn' s' where "finish_merge j (left, tnode) s = (Inr (2, tn'), s')" "holds (pages s' lp) lp mes mps"
    "del_state A s' (p # gcl) (U - {p})" "same_elsewhere {p, lp} s s'" "side s s'"
    "root_entry_page (this_meta s') = lp" "disk_meta s' = this_meta s'"
proof -
  have ne: "U - {p} \<noteq> {}" using pos by auto
  have nn: "num_entries tnode = 1" "this_page_pos tnode = p" "this_page_pos left = lp" using tn(1) left(1) by (auto simp: holds_def)
  obtain s1 where f: "free_page p s = (Inr (), s1)" "del_state A s1 (p # gcl) (U - {p})" "\<forall>q. q \<noteq> p \<longrightarrow> pages s1 q = pages s q"
    "side s s1" "root_entry_page (this_meta s1) = root_entry_page (this_meta s)"
    by (rule free_page_spec [OF ds pos(1)])
  obtain s2 where w: "walk_head_past tnode s1 = (Inr (), s2)" "del_state A s2 (p # gcl) (U - {p})" "pages s2 = pages s1" "side s1 s2"
    "root_entry_page (this_meta s2) = root_entry_page (this_meta s1)"
    by (rule walk_head_past_spec [OF f(2) tn(2) ne])
  obtain l3 s3 where n: "relink_root tnode left s2 = (Inr l3, s3)" "like A l3 left" "relinked A (p # gcl) (U - {p}) s2 s3"
    by (rule relink_root_spec [OF w(2) tn(2) left(2)])
  note r3 = relinkedD [OF n(3)]
  define l4 where "l4 = l3\<lparr>parent_page_pos := 0\<rparr>"
  have l4: "holds l4 lp mes mps" "page_links A l4" "this_page_pos l3 = lp" "this_page_pos l4 = lp"
    using holds_like [OF n(2) left(1)] n(2) by (auto simp: l4_def holds_def like_def page_links_def)
  define s4 where "s4 = s3\<lparr>this_meta := (this_meta s3)\<lparr>root_entry_page := lp\<rparr>\<rparr>"
  define s5 where "s5 = s4\<lparr>disk_meta := this_meta s4\<rparr>"
  define s6 where "s6 = s5\<lparr>pages := (pages s5)(lp := l4)\<rparr>"
  have A: "lp \<in> A" "lp \<in> U - {p}" using ds pos by (auto simp: del_state_def)
  have ds5: "del_state A s5 (p # gcl) (U - {p})" using r3(1) by (simp add: s5_def s4_def)
  have ds6: "del_state A s6 (p # gcl) (U - {p})" unfolding s6_def by (rule del_state_write [OF ds5 A(2) l4(2)])
  have io: "bt_os s4 = []" using page_in_file(3) [OF ds5 A(1)] by (simp add: s5_def)
  have "drop_old_root left tnode s = (Inr (2, l4, tnode), s4)"
    using f(1) w(1) n(1) nn(2) l4(3) by (simp add: drop_old_root_def upd_meta_def s4_def l4_def)
  then have run: "finish_merge j (left, tnode) s = (Inr (2, tnode), s6)"
    using nn(1) io l4(4) PWRITE_del [OF ds5 A(1), of l4] by (simp add: finish_merge_def write_merged_def PWRITE_meta_def flip: s5_def s6_def)
  have "same_core (pages s6 q) (pages s q)" if "q \<notin> {p, lp}" for q
    using that f(3) w(3) r3(3) [of q] by (simp add: s6_def s5_def s4_def)
  then have "same_elsewhere {p, lp} s s6" by (simp add: same_elsewhere_def)
  moreover have "side s s6" using side_trans [OF side_trans [OF f(4) w(4)] side_relinked [OF n(3)]] by (simp add: side_def s6_def s5_def s4_def)
  moreover have "root_entry_page (this_meta s6) = lp" "disk_meta s6 = this_meta s6" "pages s6 lp = l4" by (simp_all add: s6_def s5_def s4_def)
  ultimately show ?thesis using that [OF run] l4(1) ds6 by simp
qed

subsection \<open>Sharing the entries out\<close>

lemma split_pages_spec:
  assumes ds: "del_state A s gcl U" and tn: "holds tnode p es ps" "page_links A tnode" and left: "holds left lp les lps" "page_links A left"
    and right: "holds right rp res rps" "page_links A right"
    and pos: "p \<in> U" "lp \<in> U" "rp \<in> U" "distinct [p, lp, rp]" and j: "j < length es"
    and new: "take (Suc (length mes)) temp = pos_of mes mps" "mps = [] \<longleftrightarrow> lps = []" "mps = [] \<longleftrightarrow> rps = []"
      "mps = [] \<or> length mps = Suc (length mes)" "mes \<noteq> []" "length mes \<le> 2 * MAX_DIR_ENTRIES_PER_PAGE"
    and m: "m = length mes div 2"
  obtains s' where "split_pages j left right mes temp tnode s = (Inr (1, pages s' p), s')"
    "holds (pages s' p) p (es[j := mes ! m]) ps" "holds (pages s' lp) lp (take m mes) (take (Suc m) mps)"
    "holds (pages s' rp) rp (drop (Suc m) mes) (drop (Suc m) mps)" "del_state A s' gcl U" "same_elsewhere {p, lp, rp} s s'" "side s s'"
    "this_meta s' = this_meta s" "disk_meta s' = disk_meta s"
proof -
  have ml: "m < length mes" "m \<le> 99" "length mes - m - 1 \<le> 99" using new(5,6) m by (auto simp: neq_Nil_conv)
  define l where "l = refill left m mes temp"
  define r where "r = refill right (length mes - m - 1) (drop (m + 1) mes) (drop (m + 1) temp)"
  define t where "t = tnode\<lparr>dir_entries := (dir_entries tnode)[j := mes ! m]\<rparr>"
  have tk: "take (Suc m) temp = pos_of (take m mes) (take (Suc m) mps)"
    using arg_cong [OF new(1), of "take (Suc m)"] pos_of_take [OF new(4), of m] ml by (simp add: min_def)
  have dr: "take (Suc (length mes - m - 1)) (drop (m + 1) temp) = pos_of (drop (Suc m) mes) (drop (Suc m) mps)"
    using arg_cong [OF new(1), of "drop (Suc m)"] pos_of_drop [OF new(4), of m] ml by (simp add: drop_take Suc_diff_Suc)
  have hl: "holds l lp (take m mes) (take (Suc m) mps)"
    using refill_holds [OF left(1), of "take m mes" mes temp "take (Suc m) mps"] tk new(2,4) ml by (auto simp: l_def min_def)
  have hr: "holds r rp (drop (Suc m) mes) (drop (Suc m) mps)"
    using refill_holds [OF right(1), of "drop (Suc m) mes" "drop (m + 1) mes" "drop (m + 1) temp" "drop (Suc m) mps"] dr new(3,4) ml
    by (auto simp: r_def)
  have ht: "holds t p (es[j := mes ! m]) ps"
    using tn(1) j by (auto simp: t_def holds_def take_update_swap)
  have lk: "page_links A l" "page_links A r" "page_links A t"
    using tn(2) left(2) right(2) by (auto simp: page_links_def l_def r_def t_def refill_def)
  have ps: "this_page_pos l = lp" "this_page_pos r = rp" "this_page_pos t = p" using hl hr ht by (auto simp: holds_def)
  define s1 where "s1 = s\<lparr>pages := (pages s)(lp := l)\<rparr>"
  define s2 where "s2 = s1\<lparr>pages := (pages s1)(rp := r)\<rparr>"
  define s3 where "s3 = s2\<lparr>pages := (pages s2)(p := t)\<rparr>"
  have d1: "del_state A s1 gcl U" unfolding s1_def by (rule del_state_write [OF ds pos(2) lk(1)])
  have d2: "del_state A s2 gcl U" unfolding s2_def by (rule del_state_write [OF d1 pos(3) lk(2)])
  have d3: "del_state A s3 gcl U" unfolding s3_def by (rule del_state_write [OF d2 pos(1) lk(3)])
  have A: "p \<in> A" "lp \<in> A" "rp \<in> A" using ds pos by (auto simp: del_state_def)
  have "split_pages j left right mes temp tnode s = (Inr (1, t), s3)"
    using PWRITE_del [OF ds A(2), of l] PWRITE_del [OF d1 A(3), of r] PWRITE_del [OF d2 A(1), of t] ps
    unfolding split_pages_def Let_def m [symmetric] l_def [symmetric] r_def [symmetric] t_def [symmetric]
    by (simp flip: s1_def s2_def s3_def)
  moreover have pg: "pages s3 p = t" "pages s3 lp = l" "pages s3 rp = r" using pos(4) by (auto simp: s3_def s2_def s1_def)
  moreover have "same_elsewhere {p, lp, rp} s s3" "side s s3" "this_meta s3 = this_meta s" "disk_meta s3 = disk_meta s"
    by (simp_all add: same_elsewhere_def side_def s3_def s2_def s1_def)
  ultimately show ?thesis using that [of s3] hl hr ht d3 by simp
qed

end
