(* ===== verification/Dir_Btree_Balance.thy ===== *)
theory Dir_Btree_Balance
  imports Dir_Btree_Merge
begin

text \<open>
  \<^verbatim>\<open>rebalance_btree\<close> on trees: the entries of the tree and their order stay, and the child the caller goes down to has more than the least number of
  entries afterwards.
\<close>

subsection \<open>Merged and divided nodes\<close>

primrec entries :: "bt \<Rightarrow> DIR_ENTRY list" where "entries (Node p es cs) = es"
primrec children :: "bt \<Rightarrow> bt list" where "children (Node p es cs) = cs"

definition merged :: "bt \<Rightarrow> DIR_ENTRY \<Rightarrow> bt \<Rightarrow> bt" where
  "merged l e r = Node (root l) (entries l @ e # entries r) (children l @ children r)"

lemma bt_collapse: "Node (root t) (entries t) (children t) = t"
  by (cases t) simp

lemma bal_merged: "bal h l \<Longrightarrow> bal h r \<Longrightarrow> bal h (merged l e r)"
  by (cases h; cases l; cases r) (auto simp: merged_def)

lemma bal_children:
  "bal h t \<Longrightarrow> children t = [] \<longleftrightarrow> h = 0" "bal h t \<Longrightarrow> children t = [] \<or> length (children t) = Suc (length (entries t))"
  by (cases h; cases t; auto)+

lemma inorder_merged:
  assumes "bal h l" and "bal h r"
  shows "inorder (merged l e r) = inorder l @ e # inorder r"
proof -
  obtain lp les lcs rp res rcs where lr: "l = Node lp les lcs" "r = Node rp res rcs" by (cases l; cases r)
  have "lcs = [] \<and> rcs = [] \<or> length lcs = Suc (length les)" using assms by (cases h) (auto simp: lr)
  moreover have "bal h (Node lp (les @ e # res) (lcs @ rcs))" using bal_merged [OF assms, of e] by (simp add: lr merged_def)
  ultimately show ?thesis using inorder_divide [of h lp "les @ e # res" "lcs @ rcs" "length les" lp rp]
    by (auto simp: lr merged_def simp del: inorder.simps)
qed

lemma fill_merged: "fill (merged l e r) = fill l + fill r + 1"
  by (cases l; cases r) (simp add: merged_def)

lemma poss_merged: "mset (poss l) + mset (poss r) = add_mset (root r) (mset (poss (merged l e r)))"
  by (cases l; cases r) (simp add: merged_def)

text \<open>The tree \<open>t\<close> of the directory has become \<open>t'\<close>, and the pages it no longer needs are free.\<close>

definition shrunk :: "nat set \<Rightarrow> bt_state \<Rightarrow> nat set \<Rightarrow> bt \<Rightarrow> bt_state \<Rightarrow> nat set \<Rightarrow> nat \<Rightarrow> bt \<Rightarrow> bool" where
  "shrunk A s U t s' U' h' t' \<longleftrightarrow> (\<exists>gcl. del_state A s' gcl U') \<and> tree_in s' h' t' \<and> set (poss t') \<subseteq> set (poss t) \<and>
     U' = U - (set (poss t) - set (poss t')) \<and> same_elsewhere (set (poss t)) s s' \<and> side s s' \<and> disk_meta s' = this_meta s'"

lemma shrunk_trans:
  assumes "shrunk A s U t s1 U1 h1 t1" and "shrunk A s1 U1 t1 s2 U2 h2 t2"
  shows "shrunk A s U t s2 U2 h2 t2"
proof -
  have "same_elsewhere (set (poss t) \<union> set (poss t1)) s s2"
    using assms same_elsewhere_trans by (auto simp: shrunk_def)
  moreover have "set (poss t) \<union> set (poss t1) = set (poss t)" using assms(1) by (auto simp: shrunk_def)
  moreover have "side s s2" using assms side_trans by (auto simp: shrunk_def)
  ultimately show ?thesis using assms by (auto simp: shrunk_def)
qed

lemma tree_inI:
  assumes "del_state A s gcl U" and "rep (pages s) t" and "bal h t" and "distinct (poss t)" and "set (poss t) \<subseteq> U"
  shows "tree_in s h t"
proof -
  have "p + sizeof_page \<le> file_end s" if "p \<in> set (poss t)" for p
    using page_in_file(1) [OF assms(1), of p] that assms(1,5) by (auto simp: del_state_def)
  then show ?thesis using assms by (simp add: tree_in_def)
qed

lemma rep_elsewhere:
  assumes "same_elsewhere X s s'" and "rep (pages s) c" and "X \<inter> set (poss c) = {}"
  shows "rep (pages s') c"
  using rep_cong [of c "pages s'" "pages s"] assms by (auto simp: same_elsewhere_def)

text \<open>
  A node with two neighbouring children \<open>l\<close> and \<open>r\<close>: the subtrees below and beside them do not use the three pages.
\<close>

lemma distinct_around:
  assumes "distinct (poss (Node p es (X @ l # r # Y)))" and "c \<in> set X \<union> set Y \<union> set (children l) \<union> set (children r)"
  shows "{p, root l, root r} \<inter> set (poss c) = {}"
  using assms by (cases l; cases r) auto

lemma distinct_roots:
  "distinct (poss (Node p es (X @ l # r # Y))) \<Longrightarrow> distinct [p, root l, root r]"
  by (cases l; cases r) auto

lemma roots_in_poss: "{p, root l, root r} \<subseteq> set (poss (Node p es (X @ l # r # Y)))"
  by (cases l; cases r) auto

lemma inorder_pair:
  assumes "length es1 = length X" and "length es2 = length Y"
  shows "inorder (Node p (es1 @ e # es2) (X @ l # r # Y)) =
      pre es1 (map inorder X) @ inorder l @ e # inorder r @ post es2 (map inorder Y)"
    "inorder (Node p (es1 @ es2) (X @ l # Y)) = pre es1 (map inorder X) @ inorder l @ post es2 (map inorder Y)"
  using assms by (simp_all add: join_at)

lemma bal_pair:
  assumes "bal (Suc h) (Node p (es1 @ e # es2) (X @ l # r # Y))" and "length es1 = length X"
  shows "bal h l" "bal h r" "30 \<le> fill l" "30 \<le> fill r" "length es2 = length Y" "\<forall>c \<in> set X \<union> set Y. bal h c \<and> 30 \<le> fill c"
  using assms by auto

lemma rep_children: "rep P t \<Longrightarrow> c \<in> set (children t) \<Longrightarrow> rep P c"
  by (cases t) auto

lemma rep_page: "rep P t \<Longrightarrow> holds (P (root t)) (root t) (entries t) (map root (children t)) \<and> root t \<noteq> 0"
  by (cases t) auto

subsection \<open>Merging two children\<close>

lemma merge_tree:
  assumes ds: "del_state A s gcl U" and tr: "tree_in s (Suc h) (Node p (es1 @ e # es2) (X @ l # r # Y))"
    and U: "set (poss (Node p (es1 @ e # es2) (X @ l # r # Y))) \<subseteq> U" and len: "length es1 = length X"
    and tn: "same_core tnode (pages s p)" "page_links A tnode" and fill: "fill l + fill r + 1 \<le> MAX_DIR_ENTRIES_PER_PAGE"
    and temp: "take (fill l + fill r + 2) temp = pos_of (entries l) (map root (children l)) @ pos_of (entries r) (map root (children r))"
  obtains l' t' s1 where
    "merge_pages (length es1) (pages s (root l)) (pages s (root r)) (entries l @ e # entries r) temp tnode s = finish_merge (length es1) (l', t') s1"
    "holds l' (root l) (entries l @ e # entries r) (map root (children l @ children r))" "page_links A l'"
    "holds t' p (es1 @ e # es2) (map root (X @ l # r # Y))" "page_links A t'"
    "del_state A s1 (root r # gcl) (U - {root r})" "same_elsewhere {root r} s s1" "side s s1"
    "root_entry_page (this_meta s1) = root_entry_page (this_meta s)"
proof -
  have bl: "bal (Suc h) (Node p (es1 @ e # es2) (X @ l # r # Y))" using tr unfolding tree_in_def by blast
  note b = bal_pair [OF bl len]
  have hd: "holds (pages s (root l)) (root l) (entries l) (map root (children l))" "this_page_pos (pages s (root r)) = root r"
    using tr rep_page [of "pages s" l] rep_page [of "pages s" r] by (simp_all add: tree_in_def) (simp add: holds_def)
  have ht: "holds tnode p (es1 @ e # es2) (map root (X @ l # r # Y))" using tr holds_core [OF tn(1)] by (simp add: tree_in_def)
  have pU: "p \<in> U" "root l \<in> U" "root r \<in> U" "p \<noteq> root r" using U tr root_in_poss by (auto simp: tree_in_def)
  have pl: "page_links A (pages s (root l))" "page_links A (pages s (root r))" using ds pU by (auto simp: del_state_def)
  have fl: "fill l = length (entries l)" "fill r = length (entries r)" by (cases l; cases r; simp)+
  have ch: "children l = [] \<longleftrightarrow> children r = []" "children l = [] \<or> length (children l @ children r) = Suc (length (entries l @ e # entries r))"
    using bal_children [OF b(1)] bal_children [OF b(2)] by auto
  have tk: "take (Suc (length (entries l @ e # entries r))) temp = pos_of (entries l @ e # entries r) (map root (children l @ children r))"
    using temp pos_of_append [of "map root (children l)" "map root (children r)" "entries l" "entries r" e] ch(1) fl by simp
  show ?thesis
    by (rule merge_front [OF ds ht tn(2) hd(1) pl(1) hd(2) pl(2) pU(1,3,4) _ tk, of "length es1"])
      (use fill fl ch that in auto)
qed

lemma mset_less_one:
  assumes "mset xs = add_mset a (mset ys)" and "distinct xs"
  shows "distinct ys" "a \<notin> set ys" "set xs = insert a (set ys)"
proof -
  have "mset xs = mset (a # ys)" using assms(1) by simp
  then have "distinct (a # ys)" "set xs = set (a # ys)" using assms(2) by (metis mset_eq_imp_distinct_iff, metis mset_eq_setD)
  then show "distinct ys" "a \<notin> set ys" "set xs = insert a (set ys)" by auto
qed

lemma poss_merge_node:
  "mset (poss (Node p es (X @ l # r # Y))) = add_mset (root r) (mset (poss (Node p fs (X @ merged l e r # Y))))"
  using poss_merged [of l r e] by simp

lemma rep_around:
  assumes "tree_in s h (Node p es (X @ l # r # Y))" and "same_elsewhere {p, root l, root r} s s'"
    and "c \<in> set X \<union> set Y \<union> set (children l) \<union> set (children r)"
  shows "rep (pages s') c"
proof (rule rep_elsewhere [OF assms(2)])
  show "rep (pages s) c" using assms(1,3) rep_children [of "pages s" l c] rep_children [of "pages s" r c] by (auto simp: tree_in_def)
  show "{p, root l, root r} \<inter> set (poss c) = {}" using assms(1,3) distinct_around unfolding tree_in_def by blast
qed

lemma merge_tree_parent:
  assumes ds: "del_state A s gcl U" and tr: "tree_in s (Suc h) (Node p (es1 @ e # es2) (X @ l # r # Y))"
    and U: "set (poss (Node p (es1 @ e # es2) (X @ l # r # Y))) \<subseteq> U" and len: "length es1 = length X"
    and tn: "same_core tnode (pages s p)" "page_links A tnode" and fill: "fill l + fill r + 1 \<le> MAX_DIR_ENTRIES_PER_PAGE"
    and temp: "take (fill l + fill r + 2) temp = pos_of (entries l) (map root (children l)) @ pos_of (entries r) (map root (children r))"
    and ne: "es1 @ es2 \<noteq> []"
  obtains s' where
    "merge_pages (length es1) (pages s (root l)) (pages s (root r)) (entries l @ e # entries r) temp tnode s = (Inr (1, pages s' p), s')"
    "shrunk A s U (Node p (es1 @ e # es2) (X @ l # r # Y)) s' (U - {root r}) (Suc h) (Node p (es1 @ es2) (X @ merged l e r # Y))"
    "root_entry_page (this_meta s') = root_entry_page (this_meta s)"
proof -
  define t where "t = Node p (es1 @ e # es2) (X @ l # r # Y)"
  define t1 where "t1 = Node p (es1 @ es2) (X @ merged l e r # Y)"
  have bl: "bal (Suc h) t" and dt: "distinct (poss t)" using tr unfolding tree_in_def t_def by blast+
  note b = bal_pair [OF bl [unfolded t_def] len]
  obtain l' t' s1 where fr: "merge_pages (length es1) (pages s (root l)) (pages s (root r)) (entries l @ e # entries r) temp tnode s =
      finish_merge (length es1) (l', t') s1"
    and l': "holds l' (root l) (entries l @ e # entries r) (map root (children l @ children r))" "page_links A l'"
    and t': "holds t' p (es1 @ e # es2) (map root (X @ l # r # Y))" "page_links A t'"
    and s1: "del_state A s1 (root r # gcl) (U - {root r})" "same_elsewhere {root r} s s1" "side s s1"
      "root_entry_page (this_meta s1) = root_entry_page (this_meta s)"
    by (rule merge_tree [OF ds tr U len tn fill temp])
  have pos: "p \<in> U - {root r}" "root l \<in> U - {root r}" "p \<noteq> root l"
    using U roots_in_poss [of p l r] distinct_roots [OF dt [unfolded t_def]] by auto
  have k: "length es1 < length (es1 @ e # es2)" "length (es1 @ e # es2) \<noteq> 1" "map root (X @ l # r # Y) \<noteq> []" using ne by auto
  obtain s' where fin: "finish_merge (length es1) (l', t') s1 = (Inr (1, pages s' p), s')"
    and hp: "holds (pages s' p) p (take (length es1) (es1 @ e # es2) @ drop (Suc (length es1)) (es1 @ e # es2))
       (take (Suc (length es1)) (map root (X @ l # r # Y)) @ drop (Suc (Suc (length es1))) (map root (X @ l # r # Y)))"
    and hl: "holds (pages s' (root l)) (root l) (entries l @ e # entries r) (map root (children l @ children r))"
    and d': "del_state A s' (root r # gcl) (U - {root r})" and se: "same_elsewhere {p, root l} s1 s'" and sd: "side s1 s'"
    and rt: "root_entry_page (this_meta s') = root_entry_page (this_meta s1)" "disk_meta s' = this_meta s'"
    by (rule merge_keeps_parent [OF s1(1) t' l' pos k(1,2,3)])
  have se': "same_elsewhere {p, root l, root r} s s'" using same_elsewhere_trans [OF s1(2) se] by (simp add: insert_commute)
  have nz: "p \<noteq> 0" "root l \<noteq> 0" using d' pos by (auto simp: del_state_def)
  have around: "rep (pages s') c" if "c \<in> set X \<union> set Y \<union> set (children l) \<union> set (children r)" for c
    using rep_around [OF tr se' that] .
  have "rep (pages s') (merged l e r)" using hl nz(2) around by (auto simp: merged_def)
  moreover have "holds (pages s' p) p (es1 @ es2) (map root (X @ merged l e r # Y))" using hp len by (simp add: merged_def)
  ultimately have "rep (pages s') t1" using nz(1) around by (auto simp: t1_def)
  moreover have "bal (Suc h) t1" using b ne len bal_merged [OF b(1,2), of e] fill_merged [of l e r] by (auto simp: t1_def)
  moreover note ml = mset_less_one [OF poss_merge_node [of p "es1 @ e # es2" X l r Y "es1 @ es2" e] dt [unfolded t_def], folded t1_def t_def]
  have "set (poss t1) \<subseteq> U - {root r}" using ml(2,3) U by (auto simp: t_def)
  ultimately have "tree_in s' (Suc h) t1" using ml(1) by (intro tree_inI [OF d'])
  moreover have "U - {root r} = U - (set (poss t) - set (poss t1))" using ml(2,3) by auto
  moreover have "same_elsewhere (set (poss t)) s s'"
    using se' roots_in_poss [of p l r "es1 @ e # es2" X Y] unfolding same_elsewhere_def t_def by blast
  ultimately have "shrunk A s U t s' (U - {root r}) (Suc h) t1"
    using d' ml(3) side_trans [OF s1(3) sd] rt(2) by (auto simp: shrunk_def)
  then show ?thesis using that fr fin rt(1) s1(4) by (simp add: t_def t1_def)
qed

lemma merge_tree_root:
  assumes ds: "del_state A s gcl U" and tr: "tree_in s (Suc h) (Node p [e] [l, r])"
    and U: "set (poss (Node p [e] [l, r])) \<subseteq> U"
    and tn: "same_core tnode (pages s p)" "page_links A tnode" and fill: "fill l + fill r + 1 \<le> MAX_DIR_ENTRIES_PER_PAGE"
    and temp: "take (fill l + fill r + 2) temp = pos_of (entries l) (map root (children l)) @ pos_of (entries r) (map root (children r))"
  obtains tn' s' where
    "merge_pages 0 (pages s (root l)) (pages s (root r)) (entries l @ e # entries r) temp tnode s = (Inr (2, tn'), s')"
    "shrunk A s U (Node p [e] [l, r]) s' (U - {root r} - {p}) h (merged l e r)" "root_entry_page (this_meta s') = root (merged l e r)"
proof -
  define t where "t = Node p [e] [l, r]"
  have bl: "bal h l" "bal h r" and dt: "distinct (poss (Node p ([] @ e # []) ([] @ l # r # [])))"
    using tr by (auto simp: tree_in_def)
  obtain l' t' s1 where fr: "merge_pages 0 (pages s (root l)) (pages s (root r)) (entries l @ e # entries r) temp tnode s = finish_merge 0 (l', t') s1"
    and l': "holds l' (root l) (entries l @ e # entries r) (map root (children l @ children r))" "page_links A l'"
    and t': "holds t' p [e] (map root [l, r])" "page_links A t'"
    and s1: "del_state A s1 (root r # gcl) (U - {root r})" "same_elsewhere {root r} s s1" "side s s1"
      "root_entry_page (this_meta s1) = root_entry_page (this_meta s)"
    using merge_tree [OF ds, of h p "[]" e "[]" "[]" l r "[]" tnode temp] tr U tn fill temp by auto
  have pos: "p \<in> U - {root r}" "root l \<in> U - {root r}" "p \<noteq> root l"
    using U roots_in_poss [of p l r "[e]" "[]" "[]"] distinct_roots [OF dt] by auto
  obtain tn' s' where fin: "finish_merge 0 (l', t') s1 = (Inr (2, tn'), s')"
    and hl: "holds (pages s' (root l)) (root l) (entries l @ e # entries r) (map root (children l @ children r))"
    and d': "del_state A s' (p # root r # gcl) (U - {root r} - {p})" and se: "same_elsewhere {p, root l} s1 s'" and sd: "side s1 s'"
    and rt: "root_entry_page (this_meta s') = root l" "disk_meta s' = this_meta s'"
    by (rule merge_drops_root [OF s1(1) t' l' pos])
  have se': "same_elsewhere {p, root l, root r} s s'" using same_elsewhere_trans [OF s1(2) se] by (simp add: insert_commute)
  have nz: "root l \<noteq> 0" using d' pos by (auto simp: del_state_def)
  have "rep (pages s') c" if "c \<in> set (children l) \<union> set (children r)" for c
    using rep_around [of s "Suc h" p "[e]" "[]" l r "[]"] tr se' that by simp
  then have "rep (pages s') (merged l e r)" using hl nz by (auto simp: merged_def)
  moreover note ml = mset_less_one [OF poss_merge_node [of p "[] @ e # []" "[]" l r "[]" "[]" e] dt]
  have dm: "distinct (poss (merged l e r))" "p \<notin> set (poss (merged l e r))" "root r \<notin> set (poss (merged l e r))"
    "set (poss t) = insert p (insert (root r) (set (poss (merged l e r))))"
    using ml by (auto simp: t_def)
  moreover have "bal h (merged l e r)" by (rule bal_merged [OF bl])
  ultimately have "tree_in s' h (merged l e r)"
    using U by (intro tree_inI [OF d']) (auto simp: t_def)
  moreover have "U - {root r} - {p} = U - (set (poss t) - set (poss (merged l e r)))" using dm by auto
  moreover have "same_elsewhere (set (poss t)) s s'"
    using se' roots_in_poss [of p l r "[e]" "[]" "[]"] unfolding same_elsewhere_def t_def by auto
  ultimately have "shrunk A s U t s' (U - {root r} - {p}) h (merged l e r)"
    using d' dm(4) side_trans [OF s1(3) sd] rt(2) by (auto simp: shrunk_def)
  then show ?thesis using that fr fin rt(1) by (simp add: t_def merged_def)
qed

subsection \<open>Sharing entries between two children\<close>

definition left_part :: "nat \<Rightarrow> bt \<Rightarrow> bt" where
  "left_part m t = Node (root t) (take m (entries t)) (take (Suc m) (children t))"

definition right_part :: "nat \<Rightarrow> nat \<Rightarrow> bt \<Rightarrow> bt" where
  "right_part q m t = Node q (drop (Suc m) (entries t)) (drop (Suc m) (children t))"

lemma parts:
  assumes "bal h t" and "0 < m" and "Suc m < fill t"
  shows "bal h (left_part m t)" "bal h (right_part q m t)" "fill (left_part m t) = m" "fill (right_part q m t) = fill t - Suc m"
    "inorder t = inorder (left_part m t) @ entries t ! m # inorder (right_part q m t)"
    "mset (poss (left_part m t)) + mset (poss (right_part q m t)) = add_mset q (mset (poss t))"
proof -
  obtain p es cs where t: "t = Node p es cs" by (cases t)
  note ml = assms [unfolded t fill.simps]
  show "bal h (left_part m t)" "bal h (right_part q m t)"
    using bal_divide [OF ml] by (simp_all add: t left_part_def right_part_def)
  show "fill (left_part m t) = m" "fill (right_part q m t) = fill t - Suc m" using ml by (simp_all add: t left_part_def right_part_def)
  show "inorder t = inorder (left_part m t) @ entries t ! m # inorder (right_part q m t)"
    using inorder_divide [OF ml(1), of m p q] ml(3) by (simp add: t left_part_def right_part_def del: inorder.simps)
  show "mset (poss (left_part m t)) + mset (poss (right_part q m t)) = add_mset q (mset (poss t))"
    using poss_split [of p "take m es" "Suc m" cs q "drop (Suc m) es" es] by (simp add: t left_part_def right_part_def)
qed

lemma split_tree:
  assumes ds: "del_state A s gcl U" "disk_meta s = this_meta s" and tr: "tree_in s (Suc h) (Node p (es1 @ e # es2) (X @ l # r # Y))"
    and U: "set (poss (Node p (es1 @ e # es2) (X @ l # r # Y))) \<subseteq> U" and len: "length es1 = length X"
    and tn: "same_core tnode (pages s p)" "page_links A tnode"
    and temp: "take (fill l + fill r + 2) temp = pos_of (entries l) (map root (children l)) @ pos_of (entries r) (map root (children r))"
    and M: "M = merged l e r" and fl: "64 \<le> fill M" "fill M \<le> 2 * MAX_DIR_ENTRIES_PER_PAGE" and m: "m = fill M div 2"
  obtains s' where
    "split_pages (length es1) (pages s (root l)) (pages s (root r)) (entries M) temp tnode s = (Inr (1, pages s' p), s')"
    "shrunk A s U (Node p (es1 @ e # es2) (X @ l # r # Y)) s' U (Suc h)
      (Node p (es1 @ entries M ! m # es2) (X @ left_part m M # right_part (root r) m M # Y))"
    "root_entry_page (this_meta s') = root_entry_page (this_meta s)"
proof -
  define t where "t = Node p (es1 @ e # es2) (X @ l # r # Y)"
  define t2 where "t2 = Node p (es1 @ entries M ! m # es2) (X @ left_part m M # right_part (root r) m M # Y)"
  have bl: "bal (Suc h) t" and dt: "distinct (poss t)" using tr unfolding tree_in_def t_def by blast+
  note b = bal_pair [OF bl [unfolded t_def] len]
  have bM: "bal h M" unfolding M by (rule bal_merged [OF b(1,2)])
  have eM: "entries M = entries l @ e # entries r" "children M = children l @ children r" "root M = root l" "fill M = length (entries M)"
    by (simp_all add: M merged_def)
  have mm: "0 < m" "Suc m < fill M" "30 \<le> m" "30 \<le> fill M - Suc m" using fl m by auto
  note pt = parts [OF bM mm(1,2)]
  have hd: "holds (pages s (root l)) (root l) (entries l) (map root (children l))" "holds (pages s (root r)) (root r) (entries r) (map root (children r))"
    using tr rep_page [of "pages s" l] rep_page [of "pages s" r] by (simp_all add: tree_in_def)
  have ht: "holds tnode p (es1 @ e # es2) (map root (X @ l # r # Y))" using tr holds_core [OF tn(1)] by (simp add: tree_in_def)
  have pU: "p \<in> U" "root l \<in> U" "root r \<in> U" "distinct [p, root l, root r]"
    using U roots_in_poss [of p l r] distinct_roots [OF dt [unfolded t_def]] by auto
  have pl: "page_links A (pages s (root l))" "page_links A (pages s (root r))" using ds pU by (auto simp: del_state_def)
  have ch: "children l = [] \<longleftrightarrow> children r = []" "children M = [] \<longleftrightarrow> children l = []" "children M = [] \<longleftrightarrow> children r = []"
    "map root (children M) = [] \<or> length (map root (children M)) = Suc (length (entries M))"
    using bal_children [OF b(1)] bal_children [OF b(2)] bal_children [OF bM] by auto
  have lf: "fill l = length (entries l)" "fill r = length (entries r)" by (cases l; cases r; simp)+
  have tk: "take (Suc (length (entries M))) temp = pos_of (entries M) (map root (children M))"
    using temp pos_of_append [of "map root (children l)" "map root (children r)" "entries l" "entries r" e] ch(1) lf by (simp add: eM)
  obtain s' where run: "split_pages (length es1) (pages s (root l)) (pages s (root r)) (entries M) temp tnode s = (Inr (1, pages s' p), s')"
    and hp: "holds (pages s' p) p ((es1 @ e # es2)[length es1 := entries M ! m]) (map root (X @ l # r # Y))"
    and hl: "holds (pages s' (root l)) (root l) (take m (entries M)) (take (Suc m) (map root (children M)))"
    and hr: "holds (pages s' (root r)) (root r) (drop (Suc m) (entries M)) (drop (Suc m) (map root (children M)))"
    and d': "del_state A s' gcl U" and se: "same_elsewhere {p, root l, root r} s s'" and sd: "side s s'"
    and mt: "this_meta s' = this_meta s" "disk_meta s' = disk_meta s"
    by (rule split_pages_spec [OF ds(1) ht tn(2) hd(1) pl(1) hd(2) pl(2) pU, of "length es1" "entries M" temp "map root (children M)" m])
      (use tk ch eM(4) fl m in auto)
  have nz: "p \<noteq> 0" "root l \<noteq> 0" "root r \<noteq> 0" using d' pU by (auto simp: del_state_def)
  have around: "rep (pages s') c" if "c \<in> set X \<union> set Y \<union> set (children M)" for c
    using rep_around [OF tr se, of c] that by (auto simp: eM(2))
  have "rep (pages s') (left_part m M)" "rep (pages s') (right_part (root r) m M)"
    using hl hr nz around by (auto simp: left_part_def right_part_def eM(3) take_map drop_map dest: in_set_takeD in_set_dropD)
  moreover have "map root (X @ left_part m M # right_part (root r) m M # Y) = map root (X @ l # r # Y)"
    by (simp add: left_part_def right_part_def eM(3))
  ultimately have "rep (pages s') t2" using hp nz(1) around by (auto simp: t2_def)
  moreover have "bal (Suc h) t2" using b len pt(1-4) mm(3,4) by (auto simp: t2_def)
  moreover have ms: "mset (poss t2) = mset (poss t)"
    using pt(6) [of "root r"] poss_merged [of l r e] by (simp add: t2_def t_def M ac_simps)
  then have "distinct (poss t2)" "set (poss t2) = set (poss t)" using dt by (metis mset_eq_imp_distinct_iff, metis mset_eq_setD)
  ultimately have "tree_in s' (Suc h) t2" using U by (intro tree_inI [OF d']) (auto simp: t_def)
  moreover have "same_elsewhere (set (poss t)) s s'"
    using se roots_in_poss [of p l r "es1 @ e # es2" X Y] unfolding same_elsewhere_def t_def by blast
  ultimately have "shrunk A s U t s' U (Suc h) t2"
    using d' \<open>set (poss t2) = set (poss t)\<close> sd mt ds(2) by (auto simp: shrunk_def)
  then show ?thesis using that run mt by (simp add: t_def t2_def)
qed

end
