(* ===== verification/Dir_Btree_Delete.thy ===== *)
theory Dir_Btree_Delete
  imports Dir_Btree_Balance
begin

text \<open>
  Deletion from the B-tree against deletion from the sorted list of entries.
\<close>

subsection \<open>Rebalancing a child\<close>

lemma shrunk_temp:
  assumes "shrunk A (s\<lparr>temp_child_page_pos := tmp\<rparr>) U t s' U' h' t'" and "length tmp = length (temp_child_page_pos s)"
  shows "shrunk A s U t s' U' h' t'"
  using assms by (auto simp: shrunk_def same_elsewhere_def side_def)

lemma pool_entries_eq:
  assumes "holds left lp les lps" and "holds right rp res rps" and "holds tnode p (es1 @ e # es2) ps"
  shows "pool_entries left (dir_entries tnode ! length es1) right = les @ e # res"
proof -
  have "take (length (es1 @ e # es2)) (dir_entries tnode) ! length es1 = e" using assms(3) by (simp add: holds_def)
  then show ?thesis using assms(1,2) by (simp add: pool_entries_def holds_def)
qed

lemma fill_bound: "rep P t \<Longrightarrow> fill t \<le> MAX_DIR_ENTRIES_PER_PAGE"
  by (cases t) (auto simp: holds_def)

lemma pool_tree:
  assumes ds: "del_state A s gcl U" "disk_meta s = this_meta s" and tr: "tree_in s (Suc h) (Node p (es1 @ e # es2) (X @ l # r # Y))"
    and U: "set (poss (Node p (es1 @ e # es2) (X @ l # r # Y))) \<subseteq> U" and len: "length es1 = length X"
    and tn: "same_core tnode (pages s p)" "page_links A tnode"
    and small: "fill l \<le> 30 \<and> merging = (fill r < 49) \<or> fill r \<le> 30 \<and> merging = (fill l < 49)"
  obtains
    (merge) s' where "pool_pages (length es1) merging (pages s (root l)) (pages s (root r)) tnode s = (Inr (1, pages s' p), s')"
      "shrunk A s U (Node p (es1 @ e # es2) (X @ l # r # Y)) s' (U - {root r}) (Suc h) (Node p (es1 @ es2) (X @ merged l e r # Y))"
      "root_entry_page (this_meta s') = root_entry_page (this_meta s)"
  | (root) tn' s' where "es1 = []" "es2 = []" "X = []" "Y = []"
      "pool_pages (length es1) merging (pages s (root l)) (pages s (root r)) tnode s = (Inr (2, tn'), s')"
      "shrunk A s U (Node p [e] [l, r]) s' (U - {root r} - {p}) h (merged l e r)" "root_entry_page (this_meta s') = root (merged l e r)"
  | (split) s' M m where "M = merged l e r" "m = fill M div 2" "64 \<le> fill M" "fill M \<le> 198"
      "pool_pages (length es1) merging (pages s (root l)) (pages s (root r)) tnode s = (Inr (1, pages s' p), s')"
      "shrunk A s U (Node p (es1 @ e # es2) (X @ l # r # Y)) s' U (Suc h)
        (Node p (es1 @ entries M ! m # es2) (X @ left_part m M # right_part (root r) m M # Y))"
      "root_entry_page (this_meta s') = root_entry_page (this_meta s)"
proof -
  define t where "t = Node p (es1 @ e # es2) (X @ l # r # Y)"
  have bl: "bal (Suc h) t" using tr unfolding tree_in_def t_def by blast
  note b = bal_pair [OF bl [unfolded t_def] len]
  have hd: "holds (pages s (root l)) (root l) (entries l) (map root (children l))" "holds (pages s (root r)) (root r) (entries r) (map root (children r))"
    "fill l \<le> 99" "fill r \<le> 99"
    using tr rep_page [of "pages s" l] rep_page [of "pages s" r] fill_bound [of "pages s" l] fill_bound [of "pages s" r] by (simp_all add: tree_in_def)
  have ht: "holds tnode p (es1 @ e # es2) (map root (X @ l # r # Y))" using tr holds_core [OF tn(1)] by (simp add: tree_in_def)
  have tl: "2 * (MAX_DIR_ENTRIES_PER_PAGE + 3) \<le> length (temp_child_page_pos s)" using ds by (simp add: del_state_def)
  define temp where "temp = pool_positions (pages s (root l)) (pages s (root r)) (temp_child_page_pos s)"
  have lf: "fill l = length (entries l)" "fill r = length (entries r)" by (cases l; cases r; simp)+
  note pp = pool_positions_take [OF hd(1,2) tl, folded temp_def lf]
  define s0 where "s0 = s\<lparr>temp_child_page_pos := temp\<rparr>"
  have ds0: "del_state A s0 gcl U" "disk_meta s0 = this_meta s0" using ds pp(2) by (auto simp: s0_def del_state_def space_ok_def)
  have tr0: "tree_in s0 (Suc h) t" using tr by (simp add: s0_def tree_in_def t_def)
  have tn0: "same_core tnode (pages s0 p)" using tn(1) by (simp add: s0_def)
  have run: "pool_pages (length es1) merging (pages s (root l)) (pages s (root r)) tnode s =
      (if merging then merge_pages else split_pages) (length es1) (pages s0 (root l)) (pages s0 (root r)) (entries l @ e # entries r) temp tnode s0"
    by (simp add: pool_pages_def Let_def pool_entries_eq [OF hd(1,2) ht] s0_def temp_def)
  have unload: "shrunk A s U ta s' Ua ha tb" if "shrunk A s0 U ta s' Ua ha tb" for ta s' Ua ha tb
    using that unfolding s0_def by (rule shrunk_temp) (rule pp(2))
  have rs: "root_entry_page (this_meta s0) = root_entry_page (this_meta s)" by (simp add: s0_def)
  show ?thesis
  proof (cases merging)
    case False
    then have f: "64 \<le> fill (merged l e r)" "fill (merged l e r) \<le> 2 * MAX_DIR_ENTRIES_PER_PAGE"
      using small b(3,4) hd(3,4) by (auto simp: fill_merged)
    have em: "entries (merged l e r) = entries l @ e # entries r" by (simp add: merged_def)
    show ?thesis
    proof (rule split_tree [OF ds0 tr0 [unfolded t_def] U len tn0 tn(2) pp(1) refl f refl])
      fix s'
      assume "split_pages (length es1) (pages s0 (root l)) (pages s0 (root r)) (entries (merged l e r)) temp tnode s0 = (Inr (1, pages s' p), s')"
      then have "pool_pages (length es1) merging (pages s (root l)) (pages s (root r)) tnode s = (Inr (1, pages s' p), s')"
        using run False em by simp
      moreover assume "shrunk A s0 U (Node p (es1 @ e # es2) (X @ l # r # Y)) s' U (Suc h)
         (Node p (es1 @ entries (merged l e r) ! (fill (merged l e r) div 2) # es2)
           (X @ left_part (fill (merged l e r) div 2) (merged l e r) # right_part (root r) (fill (merged l e r) div 2) (merged l e r) # Y))"
        "root_entry_page (this_meta s') = root_entry_page (this_meta s0)"
      ultimately show ?thesis using f rs by (intro split [OF refl refl, where s' = s']) (auto intro: unload)
    qed
  next
    case True
    then have fl: "fill l + fill r + 1 \<le> 99" using small by auto
    show ?thesis
    proof (cases "es1 @ es2 = []")
      case True
      then have e: "es1 = []" "es2 = []" "X = []" "Y = []" using len b(5) by auto
      obtain tn' s' where "merge_pages 0 (pages s0 (root l)) (pages s0 (root r)) (entries l @ e # entries r) temp tnode s0 = (Inr (2, tn'), s')"
        "shrunk A s0 U (Node p [e] [l, r]) s' (U - {root r} - {p}) h (merged l e r)" "root_entry_page (this_meta s') = root (merged l e r)"
        using tr0 U by (rule_tac merge_tree_root [OF ds0(1) _ _ tn0 tn(2) fl pp(1), of h e]) (simp_all add: e t_def)
      then show ?thesis using run \<open>merging\<close> e by (intro root [OF e]) (auto intro: unload)
    next
      case False
      obtain s' where "merge_pages (length es1) (pages s0 (root l)) (pages s0 (root r)) (entries l @ e # entries r) temp tnode s0 = (Inr (1, pages s' p), s')"
        "shrunk A s0 U (Node p (es1 @ e # es2) (X @ l # r # Y)) s' (U - {root r}) (Suc h) (Node p (es1 @ es2) (X @ merged l e r # Y))"
        "root_entry_page (this_meta s') = root_entry_page (this_meta s0)"
        by (rule merge_tree_parent [OF ds0(1) tr0 [unfolded t_def] U len tn0 tn(2) fl pp(1) False])
      then show ?thesis using run \<open>merging\<close> rs by (intro merge [of s']) (auto intro: unload)
    qed
  qed
qed

text \<open>A child with entries to spare is left alone; the others are pooled with a neighbour.\<close>

lemma child_page:
  assumes "tree_in s (Suc h) (Node p es cs)" and "holds tnode p es (map root cs)" and "i \<le> length es" and "bt_os s = []"
  shows "child_page_pos tnode ! i \<noteq> 0" "PREAD (child_page_pos tnode ! i) s = (Inr (pages s (root (cs ! i))), s)"
    "num_entries (pages s (root (cs ! i))) = fill (cs ! i)"
proof -
  note fc = follow_child [OF assms(1-3)]
  show "child_page_pos tnode ! i \<noteq> 0" "PREAD (child_page_pos tnode ! i) s = (Inr (pages s (root (cs ! i))), s)" using fc assms(4) by simp_all
  have "rep (pages s) (cs ! i)" using tree_in_child(1) [OF assms(1,3)] by (simp add: tree_in_def)
  then show "num_entries (pages s (root (cs ! i))) = fill (cs ! i)" by (cases "cs ! i") (simp add: holds_def)
qed

lemma rebalance_keep:
  assumes "tree_in s (Suc h) (Node p es cs)" and "holds tnode p es (map root cs)" and "i \<le> length es" and "bt_os s = []" and "30 < fill (cs ! i)"
  shows "rebalance_btree i tnode s = (Inr (0, tnode), s)"
proof -
  have "num_entries tnode = length es" using assms(2) by (simp add: holds_def)
  then show ?thesis using child_page [OF assms(1-4)] assms(3,5) by (auto simp: rebalance_btree_def Let_def)
qed

lemma rebalance_pools:
  assumes tr: "tree_in s (Suc h) (Node p (es1 @ e # es2) (X @ l # r # Y))" and ht: "holds tnode p (es1 @ e # es2) (map root (X @ l # r # Y))"
    and len: "length es1 = length X" and os: "bt_os s = []"
    and i: "i = length es1 \<and> fill l \<le> 30 \<and> merging = (fill r < 49) \<or> es2 = [] \<and> i = Suc (length es1) \<and> fill r \<le> 30 \<and> merging = (fill l < 49)"
  shows "rebalance_btree i tnode s = pool_pages (length es1) merging (pages s (root l)) (pages s (root r)) tnode s"
proof -
  note l = child_page [OF tr ht _ os, of "length es1"]
  note r = child_page [OF tr ht _ os, of "Suc (length es1)"]
  have n: "num_entries tnode = length es1 + Suc (length es2)" using ht by (simp add: holds_def)
  have nth: "(X @ l # r # Y) ! length es1 = l" "(X @ l # r # Y) ! Suc (length es1) = r" by (simp_all add: len nth_append)
  show ?thesis using i l r n unfolding nth by (auto simp: rebalance_btree_def Let_def)
qed

text \<open>
  After a merge or a split at an entry, the children at and right of that place have entries to spare.
\<close>

definition reselect :: "nat \<Rightarrow> DIR_ENTRY list \<Rightarrow> DIR_ENTRY list \<Rightarrow> bt list \<Rightarrow> bool" where
  "reselect i es es' cs' \<longleftrightarrow> (\<exists>es1 e es2 mid. es = es1 @ e # es2 \<and> es' = es1 @ mid @ es2 \<and> length mid \<le> 1 \<and>
     (i = length es1 \<or> es2 = [] \<and> i = length es) \<and> (\<forall>q. length es1 \<le> q \<and> q \<le> length es1 + length mid \<longrightarrow> 30 < fill (cs' ! q)))"

lemma reselectI:
  assumes "i = length es1 \<or> es2 = [] \<and> i = Suc (length es1)" and "length es1 = length X"
  shows "30 < fill c \<Longrightarrow> reselect i (es1 @ e # es2) (es1 @ es2) (X @ c # Y)"
    "30 < fill c \<Longrightarrow> 30 < fill d \<Longrightarrow> reselect i (es1 @ e # es2) (es1 @ m # es2) (X @ c # d # Y)"
proof -
  assume *: "30 < fill c"
  have "\<forall>q. length es1 \<le> q \<and> q \<le> length es1 + length ([] :: DIR_ENTRY list) \<longrightarrow> 30 < fill ((X @ c # Y) ! q)"
    using * assms(2) by (auto simp: nth_append)
  then show "reselect i (es1 @ e # es2) (es1 @ es2) (X @ c # Y)" unfolding reselect_def using assms(1)
    by (rule_tac exI [where x = es1], rule_tac exI [where x = e], rule_tac exI [where x = es2], rule_tac exI [where x = "[]"]) auto
  assume **: "30 < fill d"
  have "\<forall>q. length es1 \<le> q \<and> q \<le> length es1 + length [m] \<longrightarrow> 30 < fill ((X @ c # d # Y) ! q)"
    using * ** assms(2) by (auto simp: nth_append nth_Cons split: nat.split)
  then show "reselect i (es1 @ e # es2) (es1 @ m # es2) (X @ c # d # Y)" unfolding reselect_def using assms(1)
    by (rule_tac exI [where x = es1], rule_tac exI [where x = e], rule_tac exI [where x = es2], rule_tac exI [where x = "[m]"]) auto
qed

lemma pair_at:
  assumes "length cs = Suc (length es)" and "i \<le> length es" and "es \<noteq> []"
  obtains es1 e es2 X l r Y where "es = es1 @ e # es2" "cs = X @ l # r # Y" "length es1 = length X"
    "i = length es1 \<and> cs ! i = l \<or> es2 = [] \<and> i = Suc (length es1) \<and> cs ! i = r"
proof -
  define j where "j = min i (length es - 1)"
  have j: "j < length es" "j = i \<or> length es = Suc j \<and> i = Suc j" using assms by (cases es; auto simp: j_def min_def)+
  have "es = take j es @ es ! j # drop (Suc j) es" using j by (simp add: id_take_nth_drop)
  moreover have "cs = take j cs @ cs ! j # cs ! Suc j # drop (Suc (Suc j)) cs"
    using j(1) assms(1) by (simp add: Cons_nth_drop_Suc)
  moreover have "length (take j es) = length (take j cs)" using j(1) assms(1) by simp
  ultimately show ?thesis using that j by fastforce
qed

lemma rebalance_spec:
  assumes ds: "del_state A s gcl U" "disk_meta s = this_meta s" and tr: "tree_in s (Suc h) (Node p es cs)"
    and U: "set (poss (Node p es cs)) \<subseteq> U" and i: "i \<le> length es" "fill (cs ! i) \<le> 30"
    and tn: "same_core tnode (pages s p)" "page_links A tnode"
  obtains
    (one) s' U' es' cs' where "rebalance_btree i tnode s = (Inr (1, pages s' p), s')" "shrunk A s U (Node p es cs) s' U' (Suc h) (Node p es' cs')"
      "inorder (Node p es' cs') = inorder (Node p es cs)" "reselect i es es' cs'" "length es \<le> Suc (length es')"
      "root_entry_page (this_meta s') = root_entry_page (this_meta s)"
  | (two) tn' s' U' t' where "rebalance_btree i tnode s = (Inr (2, tn'), s')" "length es = 1" "shrunk A s U (Node p es cs) s' U' h t'"
      "inorder t' = inorder (Node p es cs)" "root_entry_page (this_meta s') = root t'"
proof -
  have bl: "bal (Suc h) (Node p es cs)" using tr unfolding tree_in_def by blast
  then have sz: "length cs = Suc (length es)" "es \<noteq> []" by auto
  obtain es1 e es2 X l r Y where ec: "es = es1 @ e # es2" "cs = X @ l # r # Y" and len: "length es1 = length X"
    and at: "i = length es1 \<and> cs ! i = l \<or> es2 = [] \<and> i = Suc (length es1) \<and> cs ! i = r"
    by (rule pair_at [OF sz(1) i(1) sz(2)])
  note b = bal_pair [OF bl [unfolded ec] len]
  define merging where "merging = (if i = length es1 then fill r < 49 else fill l < 49)"
  have ht: "holds tnode p es (map root cs)" using tr holds_core [OF tn(1)] by (simp add: tree_in_def)
  have os: "bt_os s = []" using ds by (simp add: del_state_def space_ok_def)
  have run: "rebalance_btree i tnode s = pool_pages (length es1) merging (pages s (root l)) (pages s (root r)) tnode s"
    by (rule rebalance_pools [OF tr [unfolded ec] ht [unfolded ec] len os]) (use at i(2) in \<open>auto simp: merging_def\<close>)
  have small: "fill l \<le> 30 \<and> merging = (fill r < 49) \<or> fill r \<le> 30 \<and> merging = (fill l < 49)"
    using at i(2) by (auto simp: merging_def)
  note io = inorder_pair [OF len b(5), of p] inorder_merged [OF b(1,2), of e]
  show ?thesis
  proof (cases rule: pool_tree [OF ds tr [unfolded ec] U [unfolded ec] len tn small, case_names merge root split])
    case (merge s')
    have "30 < fill (merged l e r)" using b(3,4) by (simp add: fill_merged)
    then have "reselect i es (es1 @ es2) (X @ merged l e r # Y)" using at len unfolding ec by (intro reselectI) auto
    then show ?thesis using merge run io by (intro one [of s']) (auto simp: ec simp del: inorder.simps)
  next
    case (root tn' s')
    then show ?thesis using run io by (intro two [of tn' s']) (auto simp: ec simp del: inorder.simps)
  next
    case (split s' M m)
    then have m: "0 < m" "Suc m < fill M" by auto
    note pt = parts [OF bal_merged [OF b(1,2), of e] m [unfolded split(1)], folded split(1)]
    have "30 < m" "30 < fill M - Suc m" using split(2,3) by auto
    then have "reselect i es (es1 @ entries M ! m # es2) (X @ left_part m M # right_part (root r) m M # Y)"
      using at len pt(3,4) unfolding ec by (intro reselectI) auto
    then show ?thesis using split(5-) run io pt(5) [of "root r"] split(1) by (intro one [of s']) (auto simp: ec simp del: inorder.simps)
  qed
qed

end
