(* ===== verification/Dir_Btree_Extract.thy ===== *)
theory Dir_Btree_Extract
  imports Dir_Btree_Delete
begin

text \<open>
  \<^verbatim>\<open>extract_largest_child\<close> takes the last entry out of a subtree; a subtree that has shrunk inside its tree.
\<close>

subsection \<open>A child that has shrunk\<close>

lemma shrunk_refl:
  assumes "del_state A s gcl U" and "disk_meta s = this_meta s" and "tree_in s h t"
  shows "shrunk A s U t s U h t"
  using assms by (auto simp: shrunk_def same_elsewhere_def)

lemma shrunk_child:
  assumes tr: "tree_in s (Suc h) (Node p es (X @ c # Y))" and U: "set (poss (Node p es (X @ c # Y))) \<subseteq> U"
    and sh: "shrunk A s U c s1 U1 h c'" and c': "root c' = root c" "30 \<le> fill c'"
  shows "shrunk A s U (Node p es (X @ c # Y)) s1 U1 (Suc h) (Node p es (X @ c' # Y))"
proof -
  define t' where "t' = Node p es (X @ c' # Y)"
  obtain gcl where d1: "del_state A s1 gcl U1" and sh': "tree_in s1 h c'" "set (poss c') \<subseteq> set (poss c)" "U1 = U - (set (poss c) - set (poss c'))"
    "same_elsewhere (set (poss c)) s s1" "side s s1" "disk_meta s1 = this_meta s1"
    using sh unfolding shrunk_def by blast
  have ds: "p \<notin> set (poss c)" "\<forall>b \<in> set X \<union> set Y. set (poss c) \<inter> set (poss b) = {}" "distinct (poss c)"
    using tr by (auto simp: tree_in_def)
  have "holds (pages s1 p) p es (map root (X @ c # Y))"
    using tr sh'(4) ds(1) holds_core [of "pages s1 p" "pages s p"] by (auto simp: tree_in_def same_elsewhere_def)
  moreover have "rep (pages s1) b" if "b \<in> set X \<union> set Y" for b
    using rep_elsewhere [OF sh'(4), of b] tr ds(2) that by (auto simp: tree_in_def)
  ultimately have "rep (pages s1) t'" using sh'(1) tr c'(1) by (auto simp: t'_def tree_in_def)
  moreover have "bal (Suc h) t'" using sh'(1) tr c'(2) by (auto simp: t'_def tree_in_def)
  moreover have "distinct (poss t')" using sh'(1,2) tr by (auto simp: t'_def tree_in_def)
  moreover have U1: "U1 = U - (set (poss (Node p es (X @ c # Y))) - set (poss t'))" "set (poss t') \<subseteq> U1"
    using sh'(2,3) ds(1,2) U by (auto simp: t'_def)
  ultimately have "tree_in s1 (Suc h) t'" by (intro tree_inI [OF d1])
  then show ?thesis using d1 sh' U1(1) unfolding shrunk_def t'_def by (auto simp: same_elsewhere_def)
qed

text \<open>The page of the node is written with one entry replaced; the page in memory may have older links.\<close>

lemma shrunk_write:
  assumes sh: "shrunk A s U t s1 U1 h1 (Node p es cs)" and U: "set (poss (Node p es cs)) \<subseteq> U1"
    and pg: "holds pg p es' (map root cs)" "page_links A pg" and es': "bal h1 (Node p es' cs)"
  shows "PWRITE pg p s1 = (Inr (), s1\<lparr>pages := (pages s1)(p := pg)\<rparr>)"
    "shrunk A s U t (s1\<lparr>pages := (pages s1)(p := pg)\<rparr>) U1 h1 (Node p es' cs)"
proof -
  obtain gcl where d1: "del_state A s1 gcl U1" and sh': "tree_in s1 h1 (Node p es cs)" "set (poss (Node p es cs)) \<subseteq> set (poss t)"
    "U1 = U - (set (poss t) - set (poss (Node p es cs)))" "same_elsewhere (set (poss t)) s s1" "side s s1" "disk_meta s1 = this_meta s1"
    using sh unfolding shrunk_def by blast
  have pU: "p \<in> U1" using U by simp
  then have "p \<in> A" using d1 by (simp add: del_state_def)
  then show "PWRITE pg p s1 = (Inr (), s1\<lparr>pages := (pages s1)(p := pg)\<rparr>)" using PWRITE_del [OF d1] by blast
  note d2 = del_state_write [OF d1 pU pg(2)]
  have "rep ((pages s1)(p := pg)) c" if "c \<in> set cs" for c
    by (subst rep_cong [of c _ "pages s1"]) (use sh'(1) that in \<open>auto simp: tree_in_def\<close>)
  then have "rep ((pages s1)(p := pg)) (Node p es' cs)" using sh'(1) pg(1) by (auto simp: tree_in_def)
  then have "tree_in (s1\<lparr>pages := (pages s1)(p := pg)\<rparr>) h1 (Node p es' cs)" using sh'(1) es' by (auto simp: tree_in_def)
  then show "shrunk A s U t (s1\<lparr>pages := (pages s1)(p := pg)\<rparr>) U1 h1 (Node p es' cs)"
    using d2 sh' unfolding shrunk_def by (auto simp: same_elsewhere_def side_def)
qed

lemma child_split:
  assumes "tree_in s (Suc h) (Node p es cs)" and "i \<le> length es"
  obtains X c Y where "cs = X @ c # Y" "length X = i" "cs ! i = c" "length Y = length es - i"
proof -
  have "i < length cs" "length cs = Suc (length es)" using assms by (simp_all add: tree_in_def)
  then show ?thesis using that [of "take i cs" "cs ! i" "drop (Suc i) cs"] by (simp add: id_take_nth_drop [symmetric])
qed

subsection \<open>The largest entry of a subtree\<close>

text \<open>A tree in the file with what a deletion below its root needs; \<open>tnode\<close> is the root's page in memory.\<close>

definition del_tree :: "nat set \<Rightarrow> bt_state \<Rightarrow> nat set \<Rightarrow> nat \<Rightarrow> bt \<Rightarrow> bool" where
  "del_tree A s U h t \<longleftrightarrow> (\<exists>gcl. del_state A s gcl U) \<and> disk_meta s = this_meta s \<and> tree_in s h t \<and> set (poss t) \<subseteq> U"

definition in_memory :: "nat set \<Rightarrow> bt_state \<Rightarrow> bt \<Rightarrow> DIR_ENTRY_PAGE \<Rightarrow> bool" where
  "in_memory A s t tnode \<longleftrightarrow> same_core tnode (pages s (root t)) \<and> page_links A tnode"

lemma del_tree_shrunk:
  assumes "del_tree A s U h t" and "shrunk A s U t s' U' h' t'"
  shows "del_tree A s' U' h' t'"
  using assms by (auto simp: del_tree_def shrunk_def)

lemma del_tree_child:
  assumes "del_tree A s U (Suc h) (Node p es cs)" and "i \<le> length es"
  shows "del_tree A s U h (cs ! i)" "30 \<le> fill (cs ! i)"
proof -
  have tr: "tree_in s (Suc h) (Node p es cs)" using assms(1) by (simp add: del_tree_def)
  note ch = tree_in_child [OF tr assms(2)]
  show "del_tree A s U h (cs ! i)" using assms(1) ch by (auto simp: del_tree_def)
  show "30 \<le> fill (cs ! i)" using tr ch(2) by (auto simp: tree_in_def)
qed

lemma in_memory_page:
  assumes "del_tree A s U h t"
  shows "in_memory A s t (pages s (root t))"
proof -
  have "root t \<in> U" using assms root_in_poss by (auto simp: del_tree_def simp del: root_in_poss)
  then show ?thesis using assms by (auto simp: in_memory_def del_tree_def del_state_def)
qed

lemma in_memory_holds:
  assumes "del_tree A s U h (Node p es cs)" and "in_memory A s (Node p es cs) tnode"
  shows "holds tnode p es (map root cs)" "num_entries tnode = length es" "this_page_pos tnode = p"
proof -
  show *: "holds tnode p es (map root cs)" using assms holds_core by (auto simp: in_memory_def del_tree_def tree_in_def)
  show "num_entries tnode = length es" "this_page_pos tnode = p" using * by (simp_all add: holds_def)
qed

lemma down:
  assumes "del_tree A s U (Suc h) (Node p es cs)" and "in_memory A s (Node p es cs) tnode" and "i \<le> length es"
  shows "child_page_pos tnode ! i \<noteq> 0" "PREAD (child_page_pos tnode ! i) s = (Inr (pages s (root (cs ! i))), s)"
    "30 < fill (cs ! i) \<Longrightarrow> rebalance_btree i tnode s = (Inr (0, tnode), s)"
proof -
  have a: "tree_in s (Suc h) (Node p es cs)" "bt_os s = []" using assms(1) by (auto simp: del_tree_def del_state_def space_ok_def)
  note m = in_memory_holds(1) [OF assms(1,2)]
  show "child_page_pos tnode ! i \<noteq> 0" "PREAD (child_page_pos tnode ! i) s = (Inr (pages s (root (cs ! i))), s)"
    using child_page(1,2) [OF a(1) m assms(3) a(2)] by simp_all
  show "30 < fill (cs ! i) \<Longrightarrow> rebalance_btree i tnode s = (Inr (0, tnode), s)" by (rule rebalance_keep [OF a(1) m assms(3) a(2)])
qed

definition extracted :: "nat set \<Rightarrow> bt_state \<Rightarrow> nat set \<Rightarrow> nat \<Rightarrow> bt \<Rightarrow> DIR_ENTRY \<Rightarrow> bt_state \<Rightarrow> bool" where
  "extracted A s U h t x s' \<longleftrightarrow> (\<exists>U' t'. shrunk A s U t s' U' h t' \<and> root t' = root t \<and> fill t \<le> Suc (fill t') \<and> inorder t = inorder t' @ [x] \<and>
     root_entry_page (this_meta s') = root_entry_page (this_meta s))"

lemma extractedI:
  assumes "shrunk A s U (Node p es cs) s' U' h (Node p es' cs')" and "length es \<le> Suc (length es')"
    and "inorder (Node p es cs) = inorder (Node p es' cs') @ [x]" and "root_entry_page (this_meta s') = root_entry_page (this_meta s)"
  shows "extracted A s U h (Node p es cs) x s'"
  unfolding extracted_def using assms by (rule_tac exI [where x = U'], rule_tac exI [where x = "Node p es' cs'"]) simp

lemma inorder_last_child:
  assumes "length es = length X"
  shows "inorder (Node p es (X @ [c])) = pre es (map inorder X) @ inorder c"
  using join_at(1) [of es "map inorder X" "[]" "[]"] assms by simp

lemma extract_leaf:
  assumes dt: "del_tree A s U 0 t" and m: "in_memory A s t tnode" and f: "30 < fill t"
  shows "\<exists>x s'. extract_largest_child (Suc n) tnode s = (Inr x, s') \<and> extracted A s U 0 t x s'"
proof -
  obtain p es where t: "t = Node p es []" using dt by (cases t) (simp add: del_tree_def tree_in_def)
  note h = in_memory_holds [OF dt [unfolded t] m [unfolded t]]
  obtain es' x where es: "es = es' @ [x]" using f by (cases es rule: rev_cases) (simp_all add: t)
  define pg where "pg = tnode\<lparr>num_entries := length es'\<rparr>"
  have tk: "take (Suc (length es')) (dir_entries tnode) = es' @ [x]" using h by (simp add: holds_def es)
  have hx: "dir_entries tnode ! length es' = x" using nth_take [of "length es'" "Suc (length es')" "dir_entries tnode"] tk by simp
  have "take (length es') (dir_entries tnode) = es'" using arg_cong [OF tk, of "take (length es')"] by (simp add: min_def)
  then have hp: "holds pg p es' (map root [])" "page_links A pg" using h m by (auto simp: holds_def pg_def es in_memory_def page_links_def)
  obtain gcl where d: "del_state A s gcl U" "disk_meta s = this_meta s" "tree_in s 0 t" "set (poss t) \<subseteq> U" using dt by (auto simp: del_tree_def)
  note w = shrunk_write [OF shrunk_refl [OF d(1-3), unfolded t] d(4) [unfolded t] hp, unfolded bal.simps, OF refl, folded t]
  have "extract_largest_child (Suc n) tnode s = (Inr x, s\<lparr>pages := (pages s)(p := pg)\<rparr>)"
    using w(1) h hx by (simp add: Let_def holds_def es pg_def)
  moreover have "extracted A s U 0 t x (s\<lparr>pages := (pages s)(p := pg)\<rparr>)" using w(2) unfolding t by (rule extractedI) (simp_all add: es)
  ultimately show ?thesis by blast
qed

text \<open>The last child has entries to spare: the code goes down without touching the node.\<close>

lemma extract_ready:
  assumes dt: "del_tree A s U (Suc h) (Node p es cs)" and m: "in_memory A s (Node p es cs) tnode" and f: "30 < fill (cs ! length es)"
    and IH: "\<exists>x s'. extract_largest_child n (pages s (root (cs ! length es))) s = (Inr x, s') \<and> extracted A s U h (cs ! length es) x s'"
  obtains x s' U' cs' where "extract_largest_child (Suc n) tnode s = (Inr x, s')" "shrunk A s U (Node p es cs) s' U' (Suc h) (Node p es cs')"
    "inorder (Node p es cs) = inorder (Node p es cs') @ [x]" "root_entry_page (this_meta s') = root_entry_page (this_meta s)"
proof -
  have tr: "tree_in s (Suc h) (Node p es cs)" and U: "set (poss (Node p es cs)) \<subseteq> U" using dt by (simp_all add: del_tree_def)
  obtain X c Y where c: "cs = X @ c # Y" "length X = length es" "cs ! length es = c" "length Y = length es - length es"
    by (rule child_split [OF tr order_refl])
  obtain x s' U' c' where run: "extract_largest_child n (pages s (root c)) s = (Inr x, s')" and sh: "shrunk A s U c s' U' h c'"
    and c': "root c' = root c" "fill c \<le> Suc (fill c')" "inorder c = inorder c' @ [x]" "root_entry_page (this_meta s') = root_entry_page (this_meta s)"
    using IH by (auto simp: extracted_def c(3))
  have "shrunk A s U (Node p es cs) s' U' (Suc h) (Node p es (X @ [c']))"
    using shrunk_child [OF tr [unfolded c(1)] U [unfolded c(1)] sh c'(1)] c f c'(2) by simp
  moreover have "inorder (Node p es cs) = inorder (Node p es (X @ [c'])) @ [x]"
    using inorder_last_child [of es X p c] inorder_last_child [of es X p c'] c c'(3) by (simp del: inorder.simps)
  moreover note d = down [OF dt m order_refl]
  have "extract_largest_child (Suc n) tnode s = (Inr x, s')"
    using d(1,2) d(3) [OF f] run in_memory_holds(2) [OF dt m] by (simp add: Let_def c(3))
  ultimately show ?thesis using that c'(4) by blast
qed

lemma reselect_last: "reselect (length es) es es' cs' \<Longrightarrow> 30 < fill (cs' ! length es')"
  by (auto simp: reselect_def)

lemma extract_spec:
  "del_tree A s U h t \<Longrightarrow> in_memory A s t tnode \<Longrightarrow> 30 < fill t \<Longrightarrow> 2 * h < n \<Longrightarrow>
    \<exists>x s'. extract_largest_child n tnode s = (Inr x, s') \<and> extracted A s U h t x s'"
proof (induction h arbitrary: s U t tnode n)
  case 0
  then show ?case using extract_leaf [of A s U t tnode "n - 1"] by simp
next
  case (Suc h)
  obtain p es cs where t: "t = Node p es cs" by (cases t)
  obtain m where n: "n = Suc (Suc m)" "2 * h < m" using Suc.prems(4) by (metis Suc_lessE less_Suc_eq_0_disj mult_Suc_right add_2_eq_Suc Suc_less_eq gr0_implies_Suc not_less_zero)
  note dt = Suc.prems(1) [unfolded t] and mem = Suc.prems(2) [unfolded t]
  have IH: "\<exists>x s'. extract_largest_child k (pages s (root (cs ! length es))) s = (Inr x, s') \<and> extracted A s U h (cs ! length es) x s'"
    if "del_tree A s U (Suc h) (Node p es cs)" "30 < fill (cs ! length es)" "m \<le> k" for s U es cs k
    using Suc.IH [OF del_tree_child(1) [OF that(1) order_refl] in_memory_page [OF del_tree_child(1) [OF that(1) order_refl]] that(2)] that(3) n(2) by simp
  show ?case
  proof (cases "30 < fill (cs ! length es)")
    case True
    obtain x s' U' cs' where "extract_largest_child (Suc (Suc m)) tnode s = (Inr x, s')" "shrunk A s U t s' U' (Suc h) (Node p es cs')"
      "inorder t = inorder (Node p es cs') @ [x]" "root_entry_page (this_meta s') = root_entry_page (this_meta s)"
      unfolding t by (rule extract_ready [OF dt mem True IH [OF dt True le_SucI [OF order_refl]]])
    then show ?thesis unfolding n(1) t using extractedI le_SucI [OF order_refl] by blast
  next
    case False
    obtain gcl where d: "del_state A s gcl U" "disk_meta s = this_meta s" "tree_in s (Suc h) (Node p es cs)" "set (poss (Node p es cs)) \<subseteq> U"
      using dt by (auto simp: del_tree_def)
    have tn: "same_core tnode (pages s p)" "page_links A tnode" using mem by (simp_all add: in_memory_def)
    from False have small: "fill (cs ! length es) \<le> 30" by simp
    show ?thesis
    proof (cases rule: rebalance_spec [OF d order_refl small tn, case_names one two])
      case (one s1 U1 es1 cs1)
      note dt1 = del_tree_shrunk [OF dt one(2)]
      have ready: "30 < fill (cs1 ! length es1)" by (rule reselect_last [OF one(4)])
      obtain x s' U' cs' where "extract_largest_child (Suc m) (pages s1 p) s1 = (Inr x, s')"
        "shrunk A s1 U1 (Node p es1 cs1) s' U' (Suc h) (Node p es1 cs')" "inorder (Node p es1 cs1) = inorder (Node p es1 cs') @ [x]"
        "root_entry_page (this_meta s') = root_entry_page (this_meta s1)"
        by (rule extract_ready [OF dt1 in_memory_page [OF dt1, unfolded root.simps] ready IH [OF dt1 ready order_refl]])
      moreover have "extract_largest_child n tnode s = extract_largest_child (Suc m) (pages s1 p) s1"
        using one(1) down(1) [OF dt mem order_refl] in_memory_holds(2) [OF dt mem] by (simp add: n(1) Let_def del: extract_largest_child.simps(2) [of "Suc m"])
      ultimately show ?thesis using extractedI [OF shrunk_trans [OF one(2)] one(5)] one(3,6) unfolding t by metis
    next
      case (two tn' s1 U1 t1)
      then show ?thesis using Suc.prems(3) by (simp add: t)
    qed
  qed
qed

end
