(* ===== verification/Dir_Btree_Remove.thy ===== *)
theory Dir_Btree_Remove
  imports Dir_Btree_Extract
begin

text \<open>
  \<^verbatim>\<open>delete_dir_entry_btree\<close> takes the entry with the name out of the sorted list of entries.
\<close>

subsection \<open>Sorted lists without an entry\<close>

definition del_list :: "bool \<Rightarrow> DIR_ENTRY \<Rightarrow> DIR_ENTRY list \<Rightarrow> DIR_ENTRY list" where
  "del_list x e ys = filter (\<lambda>y. entry_key x y \<noteq> entry_key x e) ys"

definition has_key :: "bool \<Rightarrow> DIR_ENTRY \<Rightarrow> DIR_ENTRY list \<Rightarrow> bool" where
  "has_key x e ys \<longleftrightarrow> entry_key x e \<in> entry_key x ` set ys"

lemma del_list_absent: "\<not> has_key x e ys \<Longrightarrow> del_list x e ys = ys"
  unfolding del_list_def has_key_def filter_id_conv by (metis image_eqI)

lemma del_list_middle:
  assumes "\<forall>y \<in> set A. entry_key x y < entry_key x e" and "\<forall>y \<in> set B. entry_key x e < entry_key x y"
  shows "del_list x e (A @ ys @ B) = A @ del_list x e ys @ B" "has_key x e (A @ ys @ B) = has_key x e ys"
proof -
  have "filter (\<lambda>y. entry_key x y \<noteq> entry_key x e) A = A" "filter (\<lambda>y. entry_key x y \<noteq> entry_key x e) B = B"
    using assms by (auto simp: filter_id_conv)
  then show "del_list x e (A @ ys @ B) = A @ del_list x e ys @ B" by (simp add: del_list_def)
  have "entry_key x e \<notin> entry_key x ` set A" "entry_key x e \<notin> entry_key x ` set B" using assms by (metis image_iff less_irrefl)+
  then show "has_key x e (A @ ys @ B) = has_key x e ys" by (auto simp: has_key_def)
qed

lemma del_list_at:
  assumes "sorted_wrt (<) (map (entry_key x) (A @ y # B))" and "entry_key x y = entry_key x e"
  shows "del_list x e (A @ y # B) = A @ B" "has_key x e (A @ y # B)"
proof -
  have "del_list x e (A @ [y] @ B) = A @ del_list x e [y] @ B" using assms by (intro del_list_middle) (auto simp: sorted_wrt_append)
  then show "del_list x e (A @ y # B) = A @ B" using assms(2) by (simp add: del_list_def)
  show "has_key x e (A @ y # B)" using assms(2) by (auto simp: has_key_def)
qed

subsection \<open>The child of the search\<close>

primrec place :: "search_result \<Rightarrow> nat" where
  "place (Found i) = i"
| "place (Insert_At i) = i"

lemma place_bounds:
  assumes "sorted_wrt (<) (map f es)" and "place (linear_search (map f es) k) = i"
  shows "i \<le> length es" "\<forall>y \<in> set (take i es). f y < k" "\<forall>y \<in> set (drop (Suc i) es). k < f y"
    "linear_search (map f es) k = Insert_At i \<Longrightarrow> \<forall>y \<in> set (drop i es). k < f y"
proof -
  consider (found) "linear_search (map f es) k = Found i" | (at) "linear_search (map f es) k = Insert_At i"
    using assms(2) by (cases "linear_search (map f es) k") auto
  then have "i \<le> length es \<and> (\<forall>y \<in> set (take i es). f y < k) \<and> (\<forall>y \<in> set (drop (Suc i) es). k < f y)"
  proof cases
    case found
    then have i: "i < length es" "f (es ! i) = k" using linear_search_FoundD by fastforce+
    have "sorted_wrt (<) (map f (take i es @ es ! i # drop (Suc i) es))" using assms(1) i(1) by (simp add: id_take_nth_drop [symmetric])
    then show ?thesis using i by (auto simp: sorted_wrt_append)
  next
    case at
    have "set (drop (Suc i) es) \<subseteq> set (drop i es)" by (rule set_drop_subset_set_drop) simp
    then show ?thesis using linear_search_Insert_AtD [OF assms(1) at] by (auto simp: take_map drop_map)
  qed
  then show "i \<le> length es" "\<forall>y \<in> set (take i es). f y < k" "\<forall>y \<in> set (drop (Suc i) es). k < f y" by auto
  show "\<forall>y \<in> set (drop i es). k < f y" if "linear_search (map f es) k = Insert_At i"
    using linear_search_Insert_AtD [OF assms(1) that] by (auto simp: drop_map)
qed

lemma below_range:
  fixes f :: "'a \<Rightarrow> 'k::linorder"
  assumes "\<forall>y \<in> set A. f y < k" and "\<forall>y \<in> set B. k < f y"
  shows "length A \<le> place (linear_search (map f (A @ mid @ B)) k)" "place (linear_search (map f (A @ mid @ B)) k) \<le> length A + length mid"
proof -
  have p: "place (linear_search ks k) = below ks k" for ks :: "'k list" by (simp add: linear_search_def Let_def)
  have "takeWhile (\<lambda>y. y < k) (map f B) = []" using assms(2) by (cases B) auto
  then show "length A \<le> place (linear_search (map f (A @ mid @ B)) k)" "place (linear_search (map f (A @ mid @ B)) k) \<le> length A + length mid"
    using assms(1) length_takeWhile_le [of "\<lambda>y. y < k" "map f mid"] by (auto simp: p below_def takeWhile_append)
qed

lemma reselect_search:
  assumes "sorted_wrt (<) (map f es)" and "place (linear_search (map f es) k) = i" and "reselect i es es' cs'"
  shows "30 < fill (cs' ! place (linear_search (map f es') k))"
proof -
  obtain es1 e es2 mid where es: "es = es1 @ e # es2" "es' = es1 @ mid @ es2" and i: "i = length es1 \<or> es2 = [] \<and> i = length es"
    and q: "\<forall>q. length es1 \<le> q \<and> q \<le> length es1 + length mid \<longrightarrow> 30 < fill (cs' ! q)"
    using assms(3) unfolding reselect_def by blast
  note pb = place_bounds [OF assms(1,2)]
  have "\<forall>y \<in> set es1. f y < k" "\<forall>y \<in> set es2. k < f y" using pb(2,3) i by (auto simp: es(1))
  from below_range [OF this, of mid] q show ?thesis unfolding es(2) by blast
qed

subsection \<open>Deletion\<close>

definition del_result :: "bool \<Rightarrow> DIR_ENTRY \<Rightarrow> DIR_ENTRY list \<Rightarrow> failure + unit" where
  "del_result x e ys = (if has_key x e ys then Inr () else Inl (Errno ENOENT))"

text \<open>
  The tree lost the entry, if it had it.  A node that had entries to spare stays the root of its subtree and has enough entries
  left; the root of the directory may be another page afterwards.
\<close>

definition deleted :: "nat set \<Rightarrow> bt_state \<Rightarrow> nat set \<Rightarrow> nat \<Rightarrow> bt \<Rightarrow> DIR_ENTRY list \<Rightarrow> bt_state \<Rightarrow> bool" where
  "deleted A s U h t L s' \<longleftrightarrow> (\<exists>U' h' t'. shrunk A s U t s' U' h' t' \<and> inorder t' = L \<and>
     (30 < fill t \<longrightarrow> h' = h \<and> root t' = root t \<and> 30 \<le> fill t') \<and>
     (root_entry_page (this_meta s') = root_entry_page (this_meta s) \<and> root t' = root t \<or>
      root_entry_page (this_meta s) = root t \<and> root_entry_page (this_meta s') = root t'))"

lemma deletedI:
  assumes "shrunk A s U (Node p es cs) s' U' h (Node p es' cs')" and "length es \<le> Suc (length es')"
    and "inorder (Node p es' cs') = L" and "root_entry_page (this_meta s') = root_entry_page (this_meta s)"
  shows "deleted A s U h (Node p es cs) L s'"
  unfolding deleted_def using assms
  by (rule_tac exI [where x = U'], rule_tac exI [where x = h], rule_tac exI [where x = "Node p es' cs'"]) simp

lemma remove_entry_at_holds:
  assumes "holds tnode p es []" and "i < length es"
  shows "holds (remove_entry_at i tnode) p (take i es @ drop (Suc i) es) []" "tree_walk_next (remove_entry_at i tnode) = tree_walk_next tnode"
    "tree_walk_prev (remove_entry_at i tnode) = tree_walk_prev tnode"
proof -
  have h: "num_entries tnode = length es" "length (dir_entries tnode) = 99" "take (length es) (dir_entries tnode) = es" "length es \<le> 99"
    using assms(1) by (auto simp: holds_def)
  define n where "n = length es - i - 1"
  have "take i (dir_entries tnode) = take i es" using arg_cong [OF h(3), of "take i"] assms(2) by (simp add: min_def)
  moreover have "take n (drop (i + 1) (dir_entries tnode)) = drop (Suc i) es"
    using arg_cong [OF h(3), of "drop (Suc i)"] assms(2) by (simp add: n_def drop_take)
  ultimately have "memcpy_at (dir_entries tnode) i (dir_entries tnode) (i + 1) n = (take i es @ drop (Suc i) es) @ drop (i + n) (dir_entries tnode)"
    by (simp add: memcpy_at_def)
  then show "holds (remove_entry_at i tnode) p (take i es @ drop (Suc i) es) []"
    unfolding holds_def remove_entry_at_def using assms h by (auto simp: n_def holds_def)
qed (simp_all add: remove_entry_at_def)

lemma delete_leaf:
  assumes dt: "del_tree A s U 0 t" and m: "in_memory A s t tnode" and srt: "is_sorted x t"
  shows "\<exists>s'. delete_dir_entry_btree (Suc n) x e tnode s = (del_result x e (inorder t), s') \<and> deleted A s U 0 t (del_list x e (inorder t)) s'"
proof -
  obtain p es where t: "t = Node p es []" using dt by (cases t) (simp add: del_tree_def tree_in_def)
  obtain gcl where d: "del_state A s gcl U" "disk_meta s = this_meta s" "tree_in s 0 t" "set (poss t) \<subseteq> U" using dt by (auto simp: del_tree_def)
  note h = in_memory_holds [OF dt [unfolded t] m [unfolded t]]
  have sc: "same_core tnode (pages s p)" and pl: "page_links A tnode" using m by (simp_all add: in_memory_def t)
  note rs = root_search [OF d(3) [unfolded t] srt [unfolded t] sc]
  have io: "inorder t = es" by (simp add: t)
  show ?thesis
  proof (cases "linear_search (map (entry_key x) es) (entry_key x e)")
    case (Found i)
    from linear_search_FoundD [OF this] have i: "i < length es" "entry_key x (es ! i) = entry_key x e" by auto
    then have es: "es = take i es @ es ! i # drop (Suc i) es" by (simp add: id_take_nth_drop)
    note dl = del_list_at [where A = "take i es" and y = "es ! i" and B = "drop (Suc i) es" and x = x and e = e, folded es, OF rs(2) i(2)]
    note re = remove_entry_at_holds [OF h(1) [simplified] i(1)]
    define pg where "pg = remove_entry_at i tnode"
    have hp: "holds pg p (take i es @ drop (Suc i) es) (map root [])" "page_links A pg" "this_page_pos pg = p" "child_page_pos tnode ! i = 0"
      using re pl i(1) h(1) by (simp_all add: pg_def page_links_def holds_def)
    note w = shrunk_write [OF shrunk_refl [OF d(1-3), unfolded t] d(4) [unfolded t] hp(1,2), unfolded bal.simps, OF refl, folded t]
    have "delete_dir_entry_btree (Suc n) x e tnode s = (Inr (), s\<lparr>pages := (pages s)(p := pg)\<rparr>)"
      using w(1) hp(3,4) by (simp add: rs(1) Found Let_def flip: pg_def)
    moreover have "deleted A s U 0 t (del_list x e es) (s\<lparr>pages := (pages s)(p := pg)\<rparr>)"
      using w(2) unfolding t by (rule deletedI) (use i(1) dl(1) in simp_all)
    ultimately show ?thesis unfolding io using dl(2) by (simp add: del_result_def)
  next
    case (Insert_At i)
    then have nk: "\<not> has_key x e es" using leaf_not_found [OF rs(2)] by (simp add: has_key_def)
    have "i \<le> length es" using linear_search_Insert_AtD [OF rs(2) Insert_At] by simp
    then have "delete_dir_entry_btree (Suc n) x e tnode s = (Inl (Errno ENOENT), s)"
      using holds_leaf [OF h(1) [simplified]] by (simp add: rs(1) Insert_At)
    moreover have "deleted A s U 0 t es s"
      using shrunk_refl [OF d(1-3)] unfolding t by (rule deletedI) simp_all
    ultimately show ?thesis unfolding io using nk by (simp add: del_result_def del_list_absent)
  qed
qed

text \<open>
  The child of the search has entries to spare: the code goes down to it, or takes the largest entry out of it for the place of
  the deleted one.
\<close>

lemma inorder_child:
  assumes "length cs = Suc (length es)" and "i \<le> length es"
  shows "inorder (Node p es (cs[i := c])) = pre (take i es) (take i (map inorder cs)) @ inorder c @ post (drop i es) (drop (Suc i) (map inorder cs))"
  using join_update [of "map inorder cs" es i "inorder c"] assms by (simp add: map_update)

lemma shrunk_child_at:
  assumes "del_tree A s U (Suc h) (Node p es cs)" and "i \<le> length es" and "shrunk A s U (cs ! i) s1 U1 h c'" and "root c' = root (cs ! i)" and "30 \<le> fill c'"
  shows "shrunk A s U (Node p es cs) s1 U1 (Suc h) (Node p es (cs[i := c']))"
proof -
  have tr: "tree_in s (Suc h) (Node p es cs)" and U: "set (poss (Node p es cs)) \<subseteq> U" using assms(1) by (simp_all add: del_tree_def)
  obtain X c Y where c: "cs = X @ c # Y" "length X = i" "cs ! i = c" "length Y = length es - i" by (rule child_split [OF tr assms(2)])
  have "cs[i := c'] = X @ c' # Y" using c(1,2) by (simp add: list_update_append)
  then show ?thesis using shrunk_child [OF tr [unfolded c(1)] U [unfolded c(1)] assms(3-5) [unfolded c(3)]] c(1) by simp
qed

lemma delete_ready_below:
  assumes dt: "del_tree A s U (Suc h) (Node p es cs)" and m: "in_memory A s (Node p es cs) tnode" and srt: "is_sorted x (Node p es cs)"
    and at: "linear_search (map (entry_key x) es) (entry_key x e) = Insert_At i" and f: "30 < fill (cs ! i)"
    and IH: "is_sorted x (cs ! i) \<Longrightarrow> \<exists>s'. delete_dir_entry_btree n x e (pages s (root (cs ! i))) s = (del_result x e (inorder (cs ! i)), s') \<and>
       deleted A s U h (cs ! i) (del_list x e (inorder (cs ! i))) s'"
  obtains s' U' es' cs' where "delete_dir_entry_btree (Suc n) x e tnode s = (del_result x e (inorder (Node p es cs)), s')"
    "shrunk A s U (Node p es cs) s' U' (Suc h) (Node p es' cs')" "length es' = length es"
    "inorder (Node p es' cs') = del_list x e (inorder (Node p es cs))" "root_entry_page (this_meta s') = root_entry_page (this_meta s)"
proof -
  have tr: "tree_in s (Suc h) (Node p es cs)" and sc: "same_core tnode (pages s p)" using dt m by (simp_all add: del_tree_def in_memory_def)
  then have bl: "bal (Suc h) (Node p es cs)" by (simp add: tree_in_def)
  then have lc: "length cs = Suc (length es)" by simp
  note rs = root_search [OF tr srt sc]
  obtain P Q where i: "i \<le> length es" and io: "inorder (Node p es cs) = P @ inorder (cs ! i) @ Q"
    and PQ: "\<forall>y \<in> set P. entry_key x y < entry_key x e" "\<forall>y \<in> set Q. entry_key x e < entry_key x y" "is_sorted x (cs ! i)"
      "P = pre (take i es) (take i (map inorder cs))" "Q = post (drop i es) (drop (Suc i) (map inorder cs))"
    by (rule descend [OF bl srt at])
  obtain s' U' h' c' where run: "delete_dir_entry_btree n x e (pages s (root (cs ! i))) s = (del_result x e (inorder (cs ! i)), s')"
    and sh: "shrunk A s U (cs ! i) s' U' h c'" "root c' = root (cs ! i)" "30 \<le> fill c'" "inorder c' = del_list x e (inorder (cs ! i))"
      "root_entry_page (this_meta s') = root_entry_page (this_meta s)"
    using IH [OF PQ(3)] f by (auto simp: deleted_def)
  note d = down [OF dt m i]
  have "delete_dir_entry_btree (Suc n) x e tnode s = (del_result x e (inorder (Node p es cs)), s')"
    using run d(1,2) d(3) [OF f] del_list_middle(2) [OF PQ(1,2)] unfolding io by (simp add: rs(1) at del_result_def)
  moreover have "inorder (Node p es (cs[i := c'])) = del_list x e (inorder (Node p es cs))"
    using inorder_child [OF lc i, of p c'] del_list_middle(1) [OF PQ(1,2)] sh(4) unfolding io by (simp add: PQ(4,5) del: inorder.simps)
  ultimately show ?thesis using that shrunk_child_at [OF dt i sh(1-3)] sh(5) by blast
qed

lemma inorder_replaced:
  assumes bl: "bal (Suc h) (Node p es cs)" and srt: "is_sorted x (Node p es cs)" and i: "i < length es" "entry_key x (es ! i) = entry_key x e"
    and c': "inorder (cs ! i) = inorder c' @ [y]"
  shows "inorder (Node p (es[i := y]) (cs[i := c'])) = del_list x e (inorder (Node p es cs))" "has_key x e (inorder (Node p es cs))"
proof -
  have sz: "length cs = Suc (length es)" "es \<noteq> []" using bl by auto
  obtain es1 e0 es2 X l r Y where ec: "es = es1 @ e0 # es2" "cs = X @ l # r # Y" and len: "length es1 = length X"
    and at: "i = length es1 \<and> cs ! i = l \<or> es2 = [] \<and> i = Suc (length es1) \<and> cs ! i = r"
    by (rule pair_at [OF sz(1) less_imp_le [OF i(1)] sz(2)])
  have ix: "i = length es1" "cs ! i = l" "es ! i = e0" using at i(1) by (auto simp: ec(1))
  note b = bal_pair [OF bl [unfolded ec] len]
  have io: "inorder (Node p es cs) = (pre es1 (map inorder X) @ inorder l) @ e0 # inorder r @ post es2 (map inorder Y)"
    unfolding ec using inorder_pair(1) [OF len b(5), of p e0 l r] by simp
  have "inorder (Node p (es[i := y]) (cs[i := c'])) = (pre es1 (map inorder X) @ inorder c') @ y # inorder r @ post es2 (map inorder Y)"
    using inorder_pair(1) [OF len b(5), of p y c' r] ix(1) len by (simp add: ec list_update_append del: inorder.simps)
  moreover have "entry_key x e0 = entry_key x e" "inorder l = inorder c' @ [y]" using i(2) c' unfolding ix(2,3) by blast+
  ultimately show "inorder (Node p (es[i := y]) (cs[i := c'])) = del_list x e (inorder (Node p es cs))" "has_key x e (inorder (Node p es cs))"
    using del_list_at [OF srt [unfolded is_sorted_def io], of e, folded io] by simp_all
qed

lemma delete_ready_here:
  assumes dt: "del_tree A s U (Suc h) (Node p es cs)" and m: "in_memory A s (Node p es cs) tnode" and srt: "is_sorted x (Node p es cs)"
    and at: "linear_search (map (entry_key x) es) (entry_key x e) = Found i" and f: "30 < fill (cs ! i)" and n: "2 * h < n"
  obtains s' U' es' cs' where "delete_dir_entry_btree (Suc n) x e tnode s = (del_result x e (inorder (Node p es cs)), s')"
    "shrunk A s U (Node p es cs) s' U' (Suc h) (Node p es' cs')" "length es' = length es"
    "inorder (Node p es' cs') = del_list x e (inorder (Node p es cs))" "root_entry_page (this_meta s') = root_entry_page (this_meta s)"
proof -
  have tr: "tree_in s (Suc h) (Node p es cs)" and sc: "same_core tnode (pages s p)" and pl: "page_links A tnode"
    using dt m by (simp_all add: del_tree_def in_memory_def)
  then have bl: "bal (Suc h) (Node p es cs)" by (simp add: tree_in_def)
  note rs = root_search [OF tr srt sc] and h = in_memory_holds [OF dt m]
  from linear_search_FoundD [OF at] have i: "i < length es" "entry_key x (es ! i) = entry_key x e" by auto
  then have i': "i \<le> length es" by simp
  note ch = del_tree_child(1) [OF dt i']
  obtain y s1 where ex: "extract_largest_child n (pages s (root (cs ! i))) s = (Inr y, s1)" "extracted A s U h (cs ! i) y s1"
    using extract_spec [OF ch in_memory_page [OF ch] f n] by blast
  then obtain U1 c' where c': "shrunk A s U (cs ! i) s1 U1 h c'" "root c' = root (cs ! i)" "30 \<le> fill c'" "inorder (cs ! i) = inorder c' @ [y]"
    "root_entry_page (this_meta s1) = root_entry_page (this_meta s)"
    using f by (auto simp: extracted_def)
  note sh = shrunk_child_at [OF dt i' c'(1-3)]
  define pg where "pg = tnode\<lparr>dir_entries := (dir_entries tnode)[i := y]\<rparr>"
  have U1: "set (poss (Node p es (cs[i := c']))) \<subseteq> U1" using del_tree_shrunk [OF dt sh] unfolding del_tree_def by blast
  have rts: "map root (cs[i := c']) = map root cs" using c'(2) by (metis list_update_id map_update)
  have hp: "holds pg p (es[i := y]) (map root (cs[i := c']))" "page_links A pg"
    using h pl unfolding rts by (auto simp: holds_def pg_def page_links_def take_update_swap)
  have b1: "bal (Suc h) (Node p es (cs[i := c']))" using sh unfolding shrunk_def tree_in_def by blast
  then have "bal (Suc h) (Node p (es[i := y]) (cs[i := c']))" by auto
  note w = shrunk_write [OF sh U1 hp(1,2) this]
  note d = down [OF dt m i']
  have io: "inorder (Node p (es[i := y]) (cs[i := c'])) = del_list x e (inorder (Node p es cs))" "has_key x e (inorder (Node p es cs))"
    by (rule inorder_replaced [OF bl srt i c'(4)])+
  have "delete_dir_entry_btree (Suc n) x e tnode s = (Inr (), s1\<lparr>pages := (pages s1)(p := pg)\<rparr>)"
    using ex(1) d(1,2) d(3) [OF f] w(1) h(3) by (simp add: rs(1) at Let_def flip: pg_def)
  then show ?thesis using that w(2) io c'(5) by (simp add: del_result_def)
qed

lemma delete_ready:
  assumes dt: "del_tree A s U (Suc h) (Node p es cs)" and m: "in_memory A s (Node p es cs) tnode" and srt: "is_sorted x (Node p es cs)"
    and i: "place (linear_search (map (entry_key x) es) (entry_key x e)) = i" and f: "30 < fill (cs ! i)" and n: "2 * h < n"
    and IH: "is_sorted x (cs ! i) \<Longrightarrow> \<exists>s'. delete_dir_entry_btree n x e (pages s (root (cs ! i))) s = (del_result x e (inorder (cs ! i)), s') \<and>
       deleted A s U h (cs ! i) (del_list x e (inorder (cs ! i))) s'"
  obtains s' U' es' cs' where "delete_dir_entry_btree (Suc n) x e tnode s = (del_result x e (inorder (Node p es cs)), s')"
    "shrunk A s U (Node p es cs) s' U' (Suc h) (Node p es' cs')" "length es' = length es"
    "inorder (Node p es' cs') = del_list x e (inorder (Node p es cs))" "root_entry_page (this_meta s') = root_entry_page (this_meta s)"
proof (cases "linear_search (map (entry_key x) es) (entry_key x e)")
  case (Found j)
  then have "linear_search (map (entry_key x) es) (entry_key x e) = Found i" using i by simp
  then show ?thesis by (rule delete_ready_here [OF dt m srt _ f n]) (rule that)
next
  case (Insert_At j)
  then have "linear_search (map (entry_key x) es) (entry_key x e) = Insert_At i" using i by simp
  then show ?thesis by (rule delete_ready_below [OF dt m srt _ f IH]) (assumption | rule that)+
qed

text \<open>The rebalanced page is searched again, and the recursion starts over.\<close>

lemma delete_rebalanced:
  assumes dt: "del_tree A s U (Suc h) (Node p es cs)" and m: "in_memory A s (Node p es cs) tnode" and srt: "is_sorted x (Node p es cs)"
    and i: "place (linear_search (map (entry_key x) es) (entry_key x e)) = i"
  shows "rebalance_btree i tnode s = (Inr (1, tn1), s1) \<Longrightarrow> delete_dir_entry_btree (Suc n) x e tnode s = delete_dir_entry_btree n x e tn1 s1"
    "rebalance_btree i tnode s = (Inr (2, tn1), s1) \<Longrightarrow> del_tree A s1 U1 h1 t1 \<Longrightarrow> root_entry_page (this_meta s1) = root t1 \<Longrightarrow>
      delete_dir_entry_btree (Suc n) x e tnode s = delete_dir_entry_btree n x e (pages s1 (root t1)) s1"
proof -
  have tr: "tree_in s (Suc h) (Node p es cs)" and sc: "same_core tnode (pages s p)" using dt m by (simp_all add: del_tree_def in_memory_def)
  note rs = root_search [OF tr srt sc]
  note nz = down(1) [OF dt m place_bounds(1) [OF rs(2) i]]
  show "rebalance_btree i tnode s = (Inr (1, tn1), s1) \<Longrightarrow> delete_dir_entry_btree (Suc n) x e tnode s = delete_dir_entry_btree n x e tn1 s1"
    using i nz by (cases "linear_search (map (entry_key x) es) (entry_key x e)") (simp_all add: rs(1))
  assume r: "rebalance_btree i tnode s = (Inr (2, tn1), s1)" "del_tree A s1 U1 h1 t1" "root_entry_page (this_meta s1) = root t1"
  then have "root t1 \<in> A" using root_in_poss [of t1] by (auto simp: del_tree_def del_state_def simp del: root_in_poss)
  then have "read_root s1 = (Inr (pages s1 (root t1)), s1)" using r(2,3) by (auto simp: read_root_def del_tree_def)
  then show "delete_dir_entry_btree (Suc n) x e tnode s = delete_dir_entry_btree n x e (pages s1 (root t1)) s1"
    using i nz r(1) by (cases "linear_search (map (entry_key x) es) (entry_key x e)") (simp_all add: rs(1))
qed

lemma delete_spec:
  "del_tree A s U h t \<Longrightarrow> in_memory A s t tnode \<Longrightarrow> is_sorted x t \<Longrightarrow> 30 < fill t \<or> root_entry_page (this_meta s) = root t \<Longrightarrow> 2 * h < n \<Longrightarrow>
    \<exists>s'. delete_dir_entry_btree n x e tnode s = (del_result x e (inorder t), s') \<and> deleted A s U h t (del_list x e (inorder t)) s'"
proof (induction h arbitrary: s U t tnode n)
  case 0
  then show ?case using delete_leaf [of A s U t tnode x "n - 1"] by simp
next
  case (Suc h)
  obtain p es cs where t: "t = Node p es cs" by (cases t)
  obtain m where n: "n = Suc (Suc m)" "2 * h < m" using Suc.prems(5) by (cases n; cases "n - 1") auto
  note dt = Suc.prems(1) [unfolded t] and mem = Suc.prems(2) [unfolded t] and srt = Suc.prems(3) [unfolded t]
  define at where "at es = place (linear_search (map (entry_key x) es) (entry_key x e))" for es
  have srts: "sorted_wrt (<) (map (entry_key x) es)" if "is_sorted x (Node p es cs)" for es cs
    using that sorted_join_entries [of "(<)" "entry_key x" es "map inorder cs"] by (simp add: is_sorted_def)
  have le: "at es \<le> length es" if "is_sorted x (Node p es cs)" for es cs using place_bounds(1) [OF srts [OF that]] by (simp add: at_def)
  have IH: "\<exists>s'. delete_dir_entry_btree k x e (pages s (root (cs ! at es))) s = (del_result x e (inorder (cs ! at es)), s') \<and>
      deleted A s U h (cs ! at es) (del_list x e (inorder (cs ! at es))) s'"
    if "del_tree A s U (Suc h) (Node p es cs)" "is_sorted x (Node p es cs)" "30 < fill (cs ! at es)" "m \<le> k" "is_sorted x (cs ! at es)" for s U es cs k
    using Suc.IH [OF del_tree_child(1) [OF that(1) le [OF that(2)]] in_memory_page [OF del_tree_child(1) [OF that(1) le [OF that(2)]]] that(5)]
      that(3,4) n(2) by simp
  show ?case
  proof (cases "30 < fill (cs ! at es)")
    case True
    obtain s' U' es' cs' where "delete_dir_entry_btree (Suc (Suc m)) x e tnode s = (del_result x e (inorder t), s')"
      "shrunk A s U t s' U' (Suc h) (Node p es' cs')" "length es' = length es"
      "inorder (Node p es' cs') = del_list x e (inorder t)" "root_entry_page (this_meta s') = root_entry_page (this_meta s)"
      unfolding t by (rule delete_ready [OF dt mem srt at_def [symmetric] True _ IH [OF dt srt True le_SucI [OF order_refl]]]) (use n(2) in simp)
    then show ?thesis unfolding n(1) t using deletedI by (metis le_SucI order_refl)
  next
    case False
    obtain gcl where d: "del_state A s gcl U" "disk_meta s = this_meta s" "tree_in s (Suc h) (Node p es cs)" "set (poss (Node p es cs)) \<subseteq> U"
      using dt by (auto simp: del_tree_def)
    have tn: "same_core tnode (pages s p)" "page_links A tnode" using mem by (simp_all add: in_memory_def)
    from False have small: "fill (cs ! at es) \<le> 30" by simp
    show ?thesis
    proof (cases rule: rebalance_spec [OF d le [OF srt] small tn, case_names one two])
      case (one s1 U1 es1 cs1)
      note dt1 = del_tree_shrunk [OF dt one(2)]
      have srt1: "is_sorted x (Node p es1 cs1)" using srt one(3) by (simp add: is_sorted_def del: inorder.simps)
      have ready: "30 < fill (cs1 ! at es1)" using reselect_search [OF srts [OF srt] at_def [symmetric] one(4)] by (simp add: at_def)
      obtain s' U' es' cs' where "delete_dir_entry_btree (Suc m) x e (pages s1 p) s1 = (del_result x e (inorder (Node p es1 cs1)), s')"
        "shrunk A s1 U1 (Node p es1 cs1) s' U' (Suc h) (Node p es' cs')" "length es' = length es1"
        "inorder (Node p es' cs') = del_list x e (inorder (Node p es1 cs1))" "root_entry_page (this_meta s') = root_entry_page (this_meta s1)"
        by (rule delete_ready [OF dt1 in_memory_page [OF dt1, unfolded root.simps] srt1 at_def [symmetric] ready n(2) IH [OF dt1 srt1 ready order_refl]])
      moreover note delete_rebalanced(1) [OF dt mem srt at_def [symmetric] one(1), of "Suc m"]
      ultimately show ?thesis using deletedI [OF shrunk_trans [OF one(2)]] one(3,5,6) unfolding n(1) t by metis
    next
      case (two tn' s1 U1 t1)
      note dt1 = del_tree_shrunk [OF dt two(3)]
      have "is_sorted x t1" using srt two(4) by (simp add: is_sorted_def del: inorder.simps)
      then obtain s' where run: "delete_dir_entry_btree (Suc m) x e (pages s1 (root t1)) s1 = (del_result x e (inorder t1), s')"
        and del: "deleted A s1 U1 h t1 (del_list x e (inorder t1)) s'"
        using Suc.IH [OF dt1 in_memory_page [OF dt1] _ disjI2 [OF two(5)] less_SucI [OF n(2)]] by blast
      have "root_entry_page (this_meta s) = root t" using Suc.prems(4) two(2) by (simp add: t)
      then have "deleted A s U (Suc h) t (del_list x e (inorder t)) s'"
        using del shrunk_trans [OF two(3)] two(2,4,5) unfolding deleted_def t by fastforce
      then show ?thesis using run delete_rebalanced(2) [OF dt mem srt at_def [symmetric] two(1) dt1 two(5), of "Suc m"] two(4)
        unfolding n(1) t by metis
    qed
  qed
qed

end
