(* ===== verification/Dir_Add_Props.thy ===== *)
theory Dir_Add_Props
  imports Dir_Add Dir_Btree_Ins
begin

text \<open>
  \<^verbatim>\<open>dir_add_entry\<close> inserts the new entry into the sorted contents of the directory; the properties of the search.
\<close>

subsection \<open>Writes that keep the tree\<close>

definition recored :: "nat set \<Rightarrow> nat list \<Rightarrow> nat set \<Rightarrow> bt_state \<Rightarrow> bt_state \<Rightarrow> bool" where
  "recored A gcl U s s' \<longleftrightarrow> (\<exists>P'. s' = s\<lparr>pages := P'\<rparr> \<and> (\<forall>q. same_core (P' q) (pages s q) \<and> (page_links A (pages s q) \<longrightarrow> page_links A (P' q)))) \<and>
     space_ok s' gcl U"

lemma recored_trans: "recored A gcl U s s' \<Longrightarrow> recored A gcl U s' s'' \<Longrightarrow> recored A gcl U s s''"
  unfolding recored_def by clarsimp (metis bt_state.update_convs(1) same_core_trans)

lemma recored_fields:
  assumes "recored A gcl U s s'"
  shows "this_meta s' = this_meta s" "disk_meta s' = disk_meta s" "file_end s' = file_end s" "dir_nlink s' = dir_nlink s"
    "meta_locked s' = meta_locked s" "bt_os s' = bt_os s" "space_ok s' gcl U" "same_core (pages s' q) (pages s q)"
    "temp_child_page_pos s' = temp_child_page_pos s" "page_links A (pages s q) \<Longrightarrow> page_links A (pages s' q)"
  using assms by (auto simp: recored_def)

lemma space_ok_page:
  assumes "space_ok s gcl U" and "p \<in> U"
  shows "p + sizeof_page \<le> file_end s" "p < file_end s" "p \<notin> set gcl" "bt_os s = []"
proof -
  show "p + sizeof_page \<le> file_end s" "p \<notin> set gcl" "bt_os s = []" using assms by (auto simp: space_ok_def)
  then show "p < file_end s" by simp
qed

lemma pages_ok_page:
  assumes "pages_ok s gcl U" and "p \<in> U"
  shows "p + sizeof_page \<le> file_end s" "p < file_end s" "p \<notin> set gcl" "bt_os s = []" "page_links (U \<union> set gcl) (pages s p)"
  using assms space_ok_page [of s gcl U p] by (simp_all add: pages_ok_def links_def)

lemma PWRITE_recored:
  assumes "space_ok s gcl U" and "p \<in> U" and "same_core pg (pages s p)" and "page_links A (pages s p) \<Longrightarrow> page_links A pg"
  obtains s' where "PWRITE pg p s = (Inr (), s')" "recored A gcl U s s'"
proof -
  note p = space_ok_page [OF assms(1,2)]
  have "recored A gcl U s (s\<lparr>pages := (pages s)(p := pg)\<rparr>)"
    unfolding recored_def
    by (intro conjI exI [of _ "(pages s)(p := pg)"] space_ok_write assms p) (use assms(3,4) in auto)
  then show ?thesis using that p by auto
qed

lemma set_parent_recored:
  assumes "space_ok s gcl U" and "p \<in> U"
  obtains s' where "set_parent rp p s = (Inr (), s')" "recored A gcl U s s'"
proof -
  have "bt_os s = []" "p < file_end s" using space_ok_page [OF assms] by auto
  moreover obtain s' where "PWRITE ((pages s p)\<lparr>parent_page_pos := rp\<rparr>) p s = (Inr (), s')" "recored A gcl U s s'"
    by (rule PWRITE_recored [OF assms, of "(pages s p)\<lparr>parent_page_pos := rp\<rparr>" A]) (auto simp: page_links_def)
  ultimately show ?thesis using that by (simp add: set_parent_def)
qed

lemma link_root_recored:
  assumes "space_ok s gcl U" and "rp \<in> A"
  obtains tp nn s' where "link_root rp np tpage s = (Inr (tp, nn), s')" "same_core tp tpage" "recored A gcl U s s'"
    "page_links A tpage \<Longrightarrow> page_links A tp"
proof (cases "tree_walk_list_head (this_meta s) = this_page_pos tpage")
  case True
  then show ?thesis using assms
    by (intro that [of "tpage\<lparr>tree_walk_prev := rp\<rparr>" False s])
      (auto simp: link_root_def recored_def page_links_def intro!: exI [of _ "pages s"])
next
  case False
  define hd1 where "hd1 = tree_walk_list_head (this_meta s)"
  have hd1: "hd1 + sizeof_page \<le> file_end s" "bt_os s = []" using assms by (auto simp: space_ok_def hd1_def)
  define nn where "nn = (this_page_pos (pages s hd1) = np)"
  define pg where "pg = (if nn then (pages s hd1)\<lparr>tree_walk_prev := rp, parent_page_pos := rp\<rparr> else (pages s hd1)\<lparr>tree_walk_prev := rp\<rparr>)"
  have pg: "same_core pg (pages s hd1)" "gc_list_next pg = gc_list_next (pages s hd1)" "dir_entries pg = dir_entries (pages s hd1)"
    by (simp_all add: pg_def same_core_def)
  have pl: "page_links A (pages s hd1) \<Longrightarrow> page_links A pg" using assms(2) by (auto simp: pg_def page_links_def)
  define P' where "P' = (pages s)(hd1 := pg)"
  have "gc_chain P' g gcl = gc_chain (pages s) g gcl" for g by (rule gc_chain_cong) (simp add: P'_def pg)
  then have "recored A gcl U s (s\<lparr>pages := P'\<rparr>)" using assms(1) pg(1) pl
    unfolding recored_def by (intro conjI exI [of _ P']) (auto simp: space_ok_def P'_def)
  moreover have "link_root rp np tpage s = (Inr (tpage, nn), s\<lparr>pages := P'\<rparr>)"
    using hd1 False by (simp add: link_root_def Let_def P'_def pg_def nn_def flip: hd1_def)
  ultimately show ?thesis using that by auto
qed

subsection \<open>A new root\<close>

lemma new_root_holds:
  "length (dir_entries pg) = MAX_DIR_ENTRIES_PER_PAGE \<Longrightarrow> holds (new_root_page wh p np m pg) (this_page_pos pg) [m] [p, np]"
  by (cases "dir_entries pg") (auto simp: holds_def new_root_page_def numeral_eq_Suc)

lemma grow_root_spec:
  assumes ok: "pages_ok s gcl U" and "root_entry_page (this_meta s) = p" and "p \<in> U" and "np \<in> U" and "this_page_pos (pages s p) = p"
  obtains rp gcl' s' where "grow_root m np s = (Inr (), s')" "rp \<noteq> 0" "rp \<notin> U" "holds (pages s' rp) rp [m] [p, np]"
    "\<And>q. q \<noteq> rp \<Longrightarrow> same_core (pages s' q) (pages s q)" "pages_ok s' gcl' (insert rp U)"
    "file_end s \<le> file_end s'" "this_meta s' = disk_meta s'" "root_entry_page (this_meta s') = rp"
    "total_children (this_meta s') = total_children (this_meta s)" "dir_nlink s' = dir_nlink s" "meta_locked s' = meta_locked s"
    "length (temp_child_page_pos s') = length (temp_child_page_pos s)" "tree_walk_list_head (this_meta s') \<noteq> 0"
proof -
  have sp: "space_ok s gcl U" and lks: "links (U \<union> set gcl) s U" using ok by (simp_all add: pages_ok_def)
  note io = space_ok_page [OF sp assms(3)]
  obtain pg gcl' g where tk: "take_page False s = (Inr pg, s\<lparr>this_meta := (this_meta s)\<lparr>entry_page_gc_list := g\<rparr>\<rparr>)"
    and rp: "this_page_pos pg \<noteq> 0" "this_page_pos pg \<notin> U \<union> set gcl'"
    and len: "length (dir_entries pg) = MAX_DIR_ENTRIES_PER_PAGE" and gl: "set gcl \<subseteq> insert (this_page_pos pg) (set gcl')" "set gcl' \<subseteq> set gcl"
    and sp1: "space_ok (s\<lparr>this_meta := (this_meta s)\<lparr>entry_page_gc_list := g\<rparr>\<rparr>) gcl' U"
    by (rule take_page_spec [OF sp, of False])
  define s1 where "s1 = s\<lparr>this_meta := (this_meta s)\<lparr>entry_page_gc_list := g\<rparr>\<rparr>"
  define rp where "rp = this_page_pos pg"
  define A where "A = insert rp U \<union> set gcl'"
  have sub: "U \<union> set gcl \<subseteq> A" "rp \<in> A" "0 \<notin> A" using gl lks rp(1) by (auto simp: A_def rp_def links_def)
  note lks1 = links_mono [OF lks sub(1,3)]
  obtain tp nn s2 where lk: "link_root rp np (pages s p) s1 = (Inr (tp, nn), s2)" and tp: "same_core tp (pages s p)"
    and rc2: "recored A gcl' U s1 s2" and tpl: "page_links A (pages s p) \<Longrightarrow> page_links A tp"
    using link_root_recored [OF sp1 [folded s1_def] sub(2), of np "pages s p"] by blast
  define nr where "nr = new_root_page (tree_walk_list_head (this_meta s1)) p np m pg"
  define s3 where "s3 = s2\<lparr>this_meta := (this_meta s2)\<lparr>tree_walk_list_head := rp, root_entry_page := rp\<rparr>,
     pages := (pages s2)(rp := nr), file_end := max (file_end s2) (rp + sizeof_page)\<rparr>"
  note f2 = recored_fields [OF rc2]
  have pU: "p \<noteq> rp" "np \<noteq> rp" using rp(2) assms(3,4) by (auto simp: rp_def)
  have sp3: "space_ok s3 gcl' (insert rp U)"
    using split_writes [OF f2(7) assms(3) rp(2), of "pages s2 p" nr] by (simp add: space_ok_def s3_def rp_def)
  have t3: "same_core (tp\<lparr>parent_page_pos := rp\<rparr>) (pages s3 p)" "this_page_pos tp = p"
    using tp f2(8) [of p] pU assms(5) by (auto simp: s3_def s1_def same_core_def)
  obtain s4 where w4: "PWRITE (tp\<lparr>parent_page_pos := rp\<rparr>) p s3 = (Inr (), s4)" and rc4: "recored A gcl' (insert rp U) s3 s4"
    by (rule PWRITE_recored [OF sp3 _ t3(1), of A]) (use assms(3) tpl lks1 in \<open>simp_all add: links_def page_links_def\<close>)
  obtain s5 where w5: "(if nn then returnE () else set_parent rp np) s4 = (Inr (), s5)" and rc5: "recored A gcl' (insert rp U) s4 s5"
  proof (cases nn)
    case True
    have "recored A gcl' (insert rp U) s4 s4"
      using recored_fields(7) [OF rc4] by (auto simp: recored_def intro!: exI [of _ "pages s4"])
    then show ?thesis using that [of s4] True by simp
  next
    case False
    then show ?thesis using that set_parent_recored [OF recored_fields(7) [OF rc4], of np rp A] assms(4) by auto
  qed
  note f5 = recored_fields [OF recored_trans [OF rc4 rc5]]
  define s6 where "s6 = s5\<lparr>disk_meta := this_meta s5\<rparr>"
  have w3: "PWRITE nr rp (s2\<lparr>this_meta := (this_meta s2)\<lparr>tree_walk_list_head := rp, root_entry_page := rp\<rparr>\<rparr>) = (Inr (), s3)"
    using io(4) f2(6) by (simp add: PWRITE_def s3_def s1_def)
  have "bt_os s5 = []" using f5(6) f2(6) io(4) by (simp add: s3_def s1_def)
  then have run: "grow_root m np s = (Inr (), s6)"
    using assms(2) io tk lk w3 w4 w5 t3(2)
    by (cases nn) (simp_all add: grow_root_def Let_def upd_meta_def PWRITE_meta_def s6_def nr_def flip: s1_def rp_def)
  have cores: "same_core (pages s6 q) (pages s q)" if "q \<noteq> rp" for q
    using that f5(8) [of q] f2(8) [of q] by (auto simp: s6_def s3_def s1_def intro: same_core_trans)
  moreover have "holds (pages s6 rp) rp [m] [p, np]"
    using new_root_holds [OF len] holds_core [OF f5(8) [of rp]] by (simp add: s6_def s3_def nr_def rp_def)
  moreover have "links A s6 (insert rp U)"
  proof -
    have "page_links A (pages s3 q)" if "q \<in> insert rp U" for q
      using that f2(10) [of q] lks1 sub by (auto simp: s3_def nr_def new_root_page_def links_def page_links_def s1_def)
    then show ?thesis using f5(1,10) sub by (auto simp: links_def s6_def s3_def)
  qed
  then have "pages_ok s6 gcl' (insert rp U)" using f5(7) by (simp add: pages_ok_def A_def s6_def space_ok_def)
  ultimately show ?thesis
    using that [OF run, of rp gcl'] rp f5(1-5,9) f2(1-5,9) by (simp add: s6_def s3_def s1_def rp_def)
qed

subsection \<open>Directories\<close>

lemma bal_length: "bal h t \<Longrightarrow> h < length (poss t)"
proof (induction h t rule: bal.induct)
  case (2 h p es cs)
  then obtain c where c: "c \<in> set cs" by (cases cs) auto
  then have "h < length (poss c)" using 2 by simp
  moreover have "length (poss c) \<le> length (concat (map poss cs))"
    using c by (simp add: length_concat member_le_sum_list)
  ultimately show ?case by simp
qed simp

text \<open>The file is larger than the tree is high.\<close>

lemma height_less_file: "tree_in s h t \<Longrightarrow> h < file_end s"
proof -
  assume t: "tree_in s h t"
  then have "set (poss t) \<subseteq> {..< file_end s}" by (fastforce simp: tree_in_def)
  then have "card (set (poss t)) \<le> file_end s" using card_mono [of "{..< file_end s}"] by simp
  then show ?thesis using t bal_length [of h t] by (simp add: tree_in_def distinct_card)
qed

text \<open>
  A directory whose meta is locked and has no failing call to come: the tree of height \<open>h\<close> that its file holds has sorted names,
  and the pages outside the tree are free.
\<close>

definition directory :: "bool \<Rightarrow> bt_state \<Rightarrow> nat \<Rightarrow> bt \<Rightarrow> bool" where
  "directory x s h t \<longleftrightarrow> meta_locked s \<and> tree_in s h t \<and> is_sorted x t \<and> root_entry_page (disk_meta s) = root t \<and>
     (\<exists>gcl. pages_ok (load_meta (replicate (MAX_DIR_ENTRIES_PER_PAGE + 3) 0) s) gcl (set (poss t)))"

lemma load_meta_fields [simp]:
  "pages (load_meta stack s) = pages s" "file_end (load_meta stack s) = file_end s" "this_meta (load_meta stack s) = disk_meta s"
  "disk_meta (load_meta stack s) = disk_meta s" "temp_child_page_pos (load_meta stack s) = stack" "bt_os (load_meta stack s) = bt_os s"
  "no_meta_space (load_meta stack s) = no_meta_space s" "dir_nlink (load_meta stack s) = dir_nlink s"
  "meta_locked (load_meta stack s) = meta_locked s"
  by (simp_all add: load_meta_def)

lemma directory_loaded:
  assumes "directory x s h t" and "MAX_DIR_ENTRIES_PER_PAGE + 3 \<le> length stack"
  obtains gcl where "pages_ok (load_meta stack s) gcl (set (poss t))" "tree_in (load_meta stack s) h t" "is_sorted x t"
    "bt_os s = []" "meta_locked s" "root_entry_page (disk_meta s) = root t" "root t < file_end s"
proof -
  obtain gcl where "pages_ok (load_meta (replicate (MAX_DIR_ENTRIES_PER_PAGE + 3) 0) s) gcl (set (poss t))"
    using assms(1) by (auto simp: directory_def)
  moreover from this have "root t < file_end s" using pages_ok_page(2) root_in_poss by fastforce
  ultimately show ?thesis using assms that [of gcl] by (simp add: directory_def pages_ok_def space_ok_def links_def tree_in_def)
qed

lemma tree_in_became:
  assumes "became s s' U V h p f ys r ts N" and "t \<in> set ts" and "V \<subseteq> U"
  shows "tree_in s' h t"
proof -
  have "distinct (poss t)"
    using assms(1,2) distinct_concat_nth [of "map poss ts"] by (auto simp: became_def in_set_conv_nth)
  moreover have "set (poss t) \<subseteq> U \<union> N" using assms by (auto simp: became_def)
  then have "\<forall>p \<in> set (poss t). p + sizeof_page \<le> file_end s'" using assms(1) pages_ok_page(1) by (fastforce simp: became_def)
  ultimately show ?thesis using assms(1,2) by (auto simp: tree_in_def became_def)
qed

lemma this_pos_root: "tree_in s h t \<Longrightarrow> this_page_pos (pages s (root t)) = root t"
  by (cases t) (simp add: tree_in_def holds_def)

text \<open>The tree after the overflow of the root is handled.\<close>

lemma handle_overflow_spec:
  assumes "became s s1 U U h p f ys r ts N" and "root_entry_page (this_meta s) = p"
  obtains s' h' t' gcl where "handle_overflow r s1 = (Inr (), s')" "tree_in s' h' t'" "inorder t' = ys"
    "root_entry_page (this_meta s') = root t'" "pages_ok s' gcl (set (poss t'))"
    "total_children (this_meta s') = total_children (this_meta s)" "dir_nlink s' = dir_nlink s" "meta_locked s' = meta_locked s"
    "length (temp_child_page_pos s') = length (temp_child_page_pos s)"
    "tree_walk_list_head (this_meta s) \<noteq> 0 \<Longrightarrow> tree_walk_list_head (this_meta s') \<noteq> 0"
proof (cases r)
  case (Inserted pg)
  then obtain t where ts: "ts = [t]" using became_length [OF assms(1)] by (cases ts) auto
  have t: "inorder t = ys" "set (poss t) = U \<union> N" "root t = p" using assms(1) Inserted ts by (auto simp: became_def)
  obtain gcl where "pages_ok s1 gcl (U \<union> N)" using assms(1) by (auto simp: became_def)
  then show ?thesis using that [of s1 h t gcl] tree_in_became [OF assms(1), of t] assms t ts Inserted
    by (auto simp: handle_overflow_def became_def kept_def)
next
  case (Overflow pg m np)
  then obtain l r' where ts: "ts = [l, r']" using became_length [OF assms(1)] by (cases ts; cases "tl ts") auto
  have lr: "root l = p" "root r' = np" "inorder l @ m # inorder r' = ys" "set (poss l @ poss r') = U \<union> N"
    "distinct (poss l @ poss r')" "tree_in s1 h l" "tree_in s1 h r'" "30 \<le> fill l" "30 \<le> fill r'"
    using assms(1) Overflow ts tree_in_became [OF assms(1)] by (auto simp: became_def)
  obtain gcl where sp: "pages_ok s1 gcl (U \<union> N)" using assms(1) by (auto simp: became_def)
  have in1: "p \<in> U \<union> N" "np \<in> U \<union> N" using lr(1,2,4) root_in_poss [of l] root_in_poss [of r'] by auto
  have "root_entry_page (this_meta s1) = p" using assms by (simp add: became_def kept_def)
  then obtain rp gcl' s' where gr: "grow_root m np s1 = (Inr (), s')" "rp \<noteq> 0" "rp \<notin> U \<union> N" "holds (pages s' rp) rp [m] [p, np]"
    "\<And>q. q \<noteq> rp \<Longrightarrow> same_core (pages s' q) (pages s1 q)" "pages_ok s' gcl' (insert rp (U \<union> N))" "file_end s1 \<le> file_end s'"
    "root_entry_page (this_meta s') = rp"
    "total_children (this_meta s') = total_children (this_meta s1)" "dir_nlink s' = dir_nlink s1" "meta_locked s' = meta_locked s1"
    "length (temp_child_page_pos s') = length (temp_child_page_pos s1)" "tree_walk_list_head (this_meta s') \<noteq> 0"
    using grow_root_spec [OF sp _ in1] this_pos_root [OF lr(6)] lr(1) by metis
  define t' where "t' = Node rp [m] [l, r']"
  have same: "same_core (pages s' q) (pages s1 q)" if "q \<in> set (poss l @ poss r')" for q
    using that gr(3,5) lr(4) by metis
  then have "rep (pages s') l = rep (pages s1) l" "rep (pages s') r' = rep (pages s1) r'"
    by (auto intro!: rep_cong)
  then have "rep (pages s') t'" using gr(2,4) lr by (simp add: t'_def tree_in_def)
  moreover have ps: "set (poss t') = insert rp (U \<union> N)" "distinct (poss t')" using lr(4,5) gr(3) by (auto simp: t'_def)
  ultimately have "tree_in s' (Suc h) t'"
    using lr(6-9) pages_ok_page(1) [OF gr(6)] by (auto simp: tree_in_def t'_def)
  moreover have "inorder t' = ys" "root t' = rp" using lr(3) by (simp_all add: t'_def)
  ultimately show ?thesis
    using that [of s' "Suc h" t' gcl'] gr ps(1) Overflow assms(1) by (auto simp: handle_overflow_def became_def kept_def)
qed

lemma directory_insert:
  assumes "directory x s h t" and "left_safe h x (entry_key x e) t" and "length stack = MAX_DIR_ENTRIES_PER_PAGE + 3"
  shows "insert_ok (file_end s) x e (pages s (root t)) (load_meta stack s) (set (poss t)) h t"
proof (rule directory_loaded [OF assms(1), of stack])
  fix gcl
  assume sp: "pages_ok (load_meta stack s) gcl (set (poss t))" and tr: "tree_in (load_meta stack s) h t" "is_sorted x t"
  show ?thesis
    using insert_dir_entry_btree_spec [OF tr sp _ _ _ assms(2), of "file_end s" "pages s (root t)"] height_less_file [OF tr(1)]
      pages_ok_page(5) [OF sp root_in_poss] by simp
qed (use assms(3) in simp)

lemma dir_add_entry_run:
  assumes "directory x s h t"
  shows "dir_add_entry stack x ino nm k s =
    bindE (insert_dir_entry_btree (file_end s) x (new_dir_entry ino nm k) (pages s (root t))) (\<lambda>r.
    bindE (handle_overflow r) (\<lambda>_.
    bindE (upd_meta (\<lambda>m. m\<lparr>total_children := total_children m + 1\<rparr>)) (\<lambda>_.
    bindE PWRITE_meta (\<lambda>_.
    modifyE (\<lambda>s. s\<lparr>dir_nlink := (if k = S_IFDIR then dir_nlink s + 1 else dir_nlink s)\<rparr>))))) (load_meta stack s)"
proof (rule directory_loaded [OF assms, of "replicate (MAX_DIR_ENTRIES_PER_PAGE + 3) 0"])
  assume "bt_os s = []" "meta_locked s" "root_entry_page (disk_meta s) = root t" "root t < file_end s"
  then show ?thesis by (simp add: dir_add_entry_def)
qed simp

lemma directory_of_tree:
  assumes "tree_in s h t" and "is_sorted x t" and "pages_ok s gcl (set (poss t))" and "root_entry_page (this_meta s) = root t"
    and "meta_locked s" and "s' = s\<lparr>this_meta := m, disk_meta := m, dir_nlink := n\<rparr>"
    and "m = (this_meta s)\<lparr>total_children := c\<rparr>"
  shows "directory x s' h t"
proof -
  have "pages_ok (load_meta (replicate (MAX_DIR_ENTRIES_PER_PAGE + 3) 0) s') gcl (set (poss t))"
    using assms(3) by (simp add: assms(6,7) pages_ok_def space_ok_def links_def load_meta_def)
  then show ?thesis using assms by (auto simp: directory_def tree_in_def)
qed

lemma dir_add_entry_spec:
  fixes x ino nm k
  defines "e \<equiv> new_dir_entry ino nm k"
  assumes "directory x s h t" and "left_safe h x (entry_key x e) t" and "length stack = MAX_DIR_ENTRIES_PER_PAGE + 3"
    and "tree_walk_list_head (disk_meta s) \<noteq> 0"
  shows "if entry_key x e \<in> entry_key x ` set (inorder t)
    then dir_add_entry stack x ino nm k s = (Inl (Errno EEXIST), load_meta stack s)
    else \<exists>s' h' t'. dir_add_entry stack x ino nm k s = (Inr (), s') \<and> directory x s' h' t' \<and> inorder t' = ins_list x e (inorder t) \<and>
      total_children (disk_meta s') = total_children (disk_meta s) + 1 \<and>
      dir_nlink s' = dir_nlink s + (if k = S_IFDIR then 1 else 0) \<and>
      length (temp_child_page_pos s') = length stack \<and> tree_walk_list_head (disk_meta s') \<noteq> 0"
proof -
  define s1 where "s1 = load_meta stack s"
  note run = dir_add_entry_run [OF assms(2), of stack ino nm k, folded e_def s1_def]
  note ok = directory_insert [OF assms(2,3,4), folded s1_def]
  show ?thesis
  proof (cases "entry_key x e \<in> entry_key x ` set (inorder t)")
    case True
    then show ?thesis using ok run by (simp add: insert_ok_def s1_def)
  next
    case False
    with ok obtain r s2 ts N where ins: "insert_dir_entry_btree (file_end s) x e (pages s (root t)) s1 = (Inr r, s2)"
      and bc: "became s1 s2 (set (poss t)) (set (poss t)) h (root t) (min 30 (fill t)) (ins_list x e (inorder t)) r ts N"
      by (auto simp: insert_ok_def)
    have "root_entry_page (this_meta s1) = root t" using assms(2) by (simp add: s1_def directory_def)
    then obtain s3 h' t' gcl where ho: "handle_overflow r s2 = (Inr (), s3)" "tree_in s3 h' t'" "inorder t' = ins_list x e (inorder t)"
      "root_entry_page (this_meta s3) = root t'" "pages_ok s3 gcl (set (poss t'))"
      "total_children (this_meta s3) = total_children (this_meta s1)" "dir_nlink s3 = dir_nlink s1" "meta_locked s3 = meta_locked s1"
      "length (temp_child_page_pos s3) = length (temp_child_page_pos s1)" "tree_walk_list_head (this_meta s1) \<noteq> 0 \<longrightarrow> tree_walk_list_head (this_meta s3) \<noteq> 0"
      by (rule handle_overflow_spec [OF bc]) blast
    define m where "m = (this_meta s3)\<lparr>total_children := total_children (this_meta s3) + 1\<rparr>"
    define s4 where "s4 = s3\<lparr>this_meta := m, disk_meta := m, dir_nlink := (if k = S_IFDIR then dir_nlink s3 + 1 else dir_nlink s3)\<rparr>"
    have "bt_os s3 = []" using ho(5) by (simp add: pages_ok_def space_ok_def)
    then have "dir_add_entry stack x ino nm k s = (Inr (), s4)"
      unfolding run using ins ho(1) by (simp add: upd_meta_def PWRITE_meta_def m_def s4_def)
    moreover have "is_sorted x t'"
      using sorted_ins_list [OF _ False] assms(2) ho(3) by (simp add: is_sorted_def directory_def)
    then have "directory x s4 h' t'"
      using ho(8) assms(2) by (intro directory_of_tree [OF ho(2) _ ho(5,4) _ s4_def m_def]) (auto simp: s1_def directory_def)
    moreover have "total_children (disk_meta s4) = total_children (disk_meta s) + 1"
      "dir_nlink s4 = dir_nlink s + (if k = S_IFDIR then 1 else 0)"
      "length (temp_child_page_pos s4) = length stack" "tree_walk_list_head (disk_meta s4) \<noteq> 0"
      using ho(6,7,9,10) assms(5) by (simp_all add: s4_def m_def s1_def)
    ultimately show ?thesis using False ho(3) by auto
  qed
qed

subsection \<open>Properties\<close>

text \<open>
  On a page with names sorted by \<^verbatim>\<open>strcmp\<close> (or \<^verbatim>\<open>strcasecmp\<close> on an external volume), the binary search \<^verbatim>\<open>dentry_binary_search\<close> gives what
  a search from left to right gives: the index of the entry with the name, or the index before which the name belongs.
\<close>

theorem binary_search_is_linear:
  assumes "sorted_wrt (<) (map (entry_key x) (take num arr))" and "num \<le> length arr"
  shows "dentry_binary_search x arr num e = linear_search (map (entry_key x) (take num arr)) (entry_key x e)"
  using assms by (rule dentry_binary_search_eq)

definition demo_entry :: "string \<Rightarrow> DIR_ENTRY" where
  "demo_entry nm = \<lparr>d_ino = 7, d_name = nm, d_type = 1\<rparr>"

theorem binary_search_is_linear_witness:
  "dentry_binary_search True (map demo_entry [''a'', ''B'', ''c'']) 3 (demo_entry ''C'') = Found 2"
  using binary_search_is_linear [of True 3 "map demo_entry [''a'', ''B'', ''c'']" "demo_entry ''C''"]
  by (simp add: demo_entry_def entry_key_def name_key_def tolower_def linear_search_def below_def)

text \<open>
  C20: \<^verbatim>\<open>search_dir_entry_btree\<close> started at the root of a directory ends, changes nothing, and finds the name exactly when some entry of the directory has it: it
  returns a page of the tree and the index of that entry there, or ENOENT.
\<close>

theorem dir_search_correct:
  assumes "directory x s h t"
  shows "\<exists>r. search_dir_entry_btree (file_end s) x nm (pages s (root t)) s = (r, s) \<and>
    (case r of Inl f \<Rightarrow> f = Errno ENOENT \<and> name_key x nm \<notin> entry_key x ` set (inorder t)
     | Inr (i, pg) \<Rightarrow> i < num_entries pg \<and> dir_entries pg ! i \<in> set (inorder t) \<and> entry_key x (dir_entries pg ! i) = name_key x nm \<and>
         (\<exists>q \<in> set (poss t). same_core pg (pages s q)))"
proof -
  have "tree_in s h t" "is_sorted x t" "bt_os s = []" using assms by (auto simp: directory_def pages_ok_def space_ok_def load_meta_def)
  from search_dir_entry_btree_spec [OF this height_less_file [OF this(1)], of "pages s (root t)" nm] show ?thesis by auto
qed

definition demo_dir :: bt_state where
  "demo_dir = (let m = \<lparr>total_children = 0, root_entry_page = 4096, entry_page_gc_list = 0, tree_walk_list_head = 4096\<rparr> in
     \<lparr>pages = (\<lambda>_. init_dir_page 3 1 4096), file_end = 4096 + sizeof_page, disk_meta = m, this_meta = m,
       temp_child_page_pos = replicate (MAX_DIR_ENTRIES_PER_PAGE + 3) 0, dir_nlink = 2, meta_locked = True, no_meta_space = False, bt_os = []\<rparr>)"

definition demo_tree :: bt where
  "demo_tree = Node 4096 [\<lparr>d_ino = 3, d_name = ''.'', d_type = D_ISDIR\<rparr>, \<lparr>d_ino = 1, d_name = ''..'', d_type = D_ISDIR\<rparr>] []"

lemma demo_directory: "directory False demo_dir 0 demo_tree"
proof -
  have "holds (init_dir_page 3 1 4096) 4096 [\<lparr>d_ino = 3, d_name = ''.'', d_type = D_ISDIR\<rparr>, \<lparr>d_ino = 1, d_name = ''..'', d_type = D_ISDIR\<rparr>] []"
    by (simp add: holds_def init_dir_page_def zero_page_def numeral_eq_Suc)
  then have "tree_in demo_dir 0 demo_tree" by (simp add: tree_in_def demo_tree_def demo_dir_def Let_def)
  moreover have "is_sorted False demo_tree" by (simp add: is_sorted_def demo_tree_def entry_key_def name_key_def)
  moreover have "pages_ok (load_meta (replicate (MAX_DIR_ENTRIES_PER_PAGE + 3) 0) demo_dir) [] (set (poss demo_tree))"
    by (simp add: pages_ok_def space_ok_def links_def page_links_def init_dir_page_def zero_page_def demo_tree_def demo_dir_def Let_def)
  ultimately show ?thesis by (auto simp: directory_def demo_tree_def demo_dir_def Let_def)
qed

theorem dir_search_correct_witness:
  "\<exists>i pg. search_dir_entry_btree (file_end demo_dir) False ''..'' (pages demo_dir 4096) demo_dir = (Inr (i, pg), demo_dir) \<and>
    d_ino (dir_entries pg ! i) = 1"
proof -
  from dir_search_correct [OF demo_directory, of "''..''"] obtain r where
    r: "search_dir_entry_btree (file_end demo_dir) False ''..'' (pages demo_dir 4096) demo_dir = (r, demo_dir)"
    and c: "case r of Inl f \<Rightarrow> f = Errno ENOENT \<and> name_key False ''..'' \<notin> entry_key False ` set (inorder demo_tree)
     | Inr (i, pg) \<Rightarrow> i < num_entries pg \<and> dir_entries pg ! i \<in> set (inorder demo_tree) \<and> entry_key False (dir_entries pg ! i) = name_key False ''..'' \<and>
         (\<exists>q \<in> set (poss demo_tree). same_core pg (pages demo_dir q))"
    by (auto simp: demo_tree_def)
  then show ?thesis by (auto simp: demo_tree_def entry_key_def name_key_def split: sum.splits prod.splits)
qed

text \<open>
  C19: \<^verbatim>\<open>dir_add_entry\<close> on a directory that has the name already returns EEXIST and changes nothing in the file.  Otherwise, when no full inner node
  is split at its first child, it succeeds and leaves a directory, again a balanced tree of different pages inside the file with sorted names,
  whose entries are the old ones with the new one at its place, whether pages are split, taken from the free list or appended, and the root grows or not; the number
  of children is one more, the link count too for a directory; nothing is written behind the end of the scratch array on the stack.
\<close>

theorem dir_add_entry_inserts:
  fixes x ino nm k
  defines "e \<equiv> new_dir_entry ino nm k"
  assumes "directory x s h t" and "left_safe h x (entry_key x e) t" and "length stack = MAX_DIR_ENTRIES_PER_PAGE + 3"
    and "tree_walk_list_head (disk_meta s) \<noteq> 0"
  shows "if entry_key x e \<in> entry_key x ` set (inorder t)
    then dir_add_entry stack x ino nm k s = (Inl (Errno EEXIST), load_meta stack s)
    else \<exists>s' h' t'. dir_add_entry stack x ino nm k s = (Inr (), s') \<and> directory x s' h' t' \<and> inorder t' = ins_list x e (inorder t) \<and>
      total_children (disk_meta s') = total_children (disk_meta s) + 1 \<and>
      dir_nlink s' = dir_nlink s + (if k = S_IFDIR then 1 else 0) \<and>
      length (temp_child_page_pos s') = length stack \<and> tree_walk_list_head (disk_meta s') \<noteq> 0"
  unfolding e_def by (rule dir_add_entry_spec [OF assms(2-5) [unfolded e_def]])

theorem dir_add_entry_inserts_witness:
  "\<exists>s' h' t'. dir_add_entry (replicate 102 5) False 9 ''a'' S_IFREG demo_dir = (Inr (), s') \<and> directory False s' h' t' \<and>
    map d_name (inorder t') = [''.'', ''..'', ''a''] \<and> total_children (disk_meta s') = 1"
proof -
  define e where "e = new_dir_entry 9 ''a'' S_IFREG"
  have key: "entry_key False e = [97]" by (simp add: e_def new_dir_entry_def entry_key_def name_key_def)
  then have "entry_key False e \<notin> entry_key False ` set (inorder demo_tree)"
    by (simp add: demo_tree_def entry_key_def name_key_def)
  then obtain s' h' t' where "dir_add_entry (replicate 102 5) False 9 ''a'' S_IFREG demo_dir = (Inr (), s')" "directory False s' h' t'"
    "inorder t' = ins_list False e (inorder demo_tree)" "total_children (disk_meta s') = total_children (disk_meta demo_dir) + 1"
    using dir_add_entry_inserts [OF demo_directory, of 9 "''a''" S_IFREG "replicate 102 5"] unfolding e_def by (auto simp: demo_dir_def Let_def)
  moreover have "map d_name (ins_list False e (inorder demo_tree)) = [''.'', ''..'', ''a'']"
    by (simp add: ins_list_def demo_tree_def key) (simp add: entry_key_def name_key_def e_def new_dir_entry_def)
  moreover have "total_children (disk_meta demo_dir) = 0" by (simp add: demo_dir_def Let_def)
  ultimately show ?thesis by (intro exI [of _ s'] exI [of _ h'] exI [of _ t']) simp
qed

text \<open>
  C21: When a full inner node is split because its first child was split, the first child of its left half is whatever \<^verbatim>\<open>temp_child_page_pos\<close>
  held before: \<^verbatim>\<open>insert_dir_entry_btree\<close> copies the children up to the index into that array only when the index is positive, and the array of
  \<^verbatim>\<open>dir_add_entry\<close> is an uninitialised local variable.
\<close>

theorem first_child_split_takes_garbage:
  assumes "pages_ok s gcl U" and "p \<in> U" and "holds tnode p es ps" and "ps \<noteq> []" and "length es = MAX_DIR_ENTRIES_PER_PAGE"
    and "page_links (U \<union> set gcl) tnode" and "tree_walk_list_head (this_meta s) \<noteq> 0"
  shows "\<exists>tn median newpos s'. insert_median 0 m np tnode s = (Inr (Overflow tn median newpos), s') \<and>
    child_page_pos (pages s' p) ! 0 = temp_child_page_pos s ! 0"
proof -
  obtain r s' where run: "insert_median 0 m np tnode s = (Inr r, s')"
    and st: "stored s s' U p (take 0 es @ m # drop 0 es) ((if (0 :: nat) = 0 then [temp_child_page_pos s ! 0] else take (Suc 0) ps) @ np # drop (Suc 0) ps) r"
    by (rule insert_median_stored_split [OF assms(1-4) _ assms(5,6), of 0 m np]) auto
  have "length ps = 100" using assms(3-5) by (simp add: holds_def)
  then have "take 51 (child_page_pos (pages s' p)) = temp_child_page_pos s ! 0 # np # take 49 (drop (Suc 0) ps)" "seps r \<noteq> []"
    using st assms(5) by (auto simp: stored_def holds_def)
  then have "child_page_pos (pages s' p) ! 0 = temp_child_page_pos s ! 0" by (metis nth_Cons_0 nth_take zero_less_numeral)
  then show ?thesis using run \<open>seps r \<noteq> []\<close> by (cases r) auto
qed

definition demo_stack :: bt_state where
  "demo_stack = demo_dir\<lparr>temp_child_page_pos := replicate (MAX_DIR_ENTRIES_PER_PAGE + 3) 77\<rparr>"

definition demo_full :: DIR_ENTRY_PAGE where
  "demo_full = zero_page\<lparr>num_entries := MAX_DIR_ENTRIES_PER_PAGE, this_page_pos := 4096, child_page_pos := replicate (MAX_DIR_ENTRIES_PER_PAGE + 1) 5\<rparr>"

theorem first_child_split_takes_garbage_witness:
  "\<exists>tn median newpos s'. insert_median 0 zero_dentry 6 demo_full demo_stack = (Inr (Overflow tn median newpos), s') \<and>
    child_page_pos (pages s' 4096) ! 0 = 77"
proof -
  have "pages_ok demo_stack [] {4096}" 
    by (simp add: pages_ok_def space_ok_def links_def page_links_def init_dir_page_def zero_page_def demo_stack_def demo_dir_def Let_def)
  moreover have "holds demo_full 4096 (replicate 99 zero_dentry) (replicate 100 5)" "page_links {4096} demo_full"
    by (simp_all add: holds_def page_links_def demo_full_def zero_page_def)
  ultimately show ?thesis using first_child_split_takes_garbage [of demo_stack "[]" "{4096}" 4096 demo_full "replicate 99 zero_dentry" "replicate 100 5" zero_dentry 6]
    by (simp add: demo_stack_def demo_dir_def Let_def)
qed

end
