(* ===== verification/Dir_Remove_Props.thy ===== *)
theory Dir_Remove_Props
  imports Dir_Remove Dir_Btree_Remove Dir_Add_Props
begin

text \<open>
  \<^verbatim>\<open>dir_remove_entry\<close> takes the entry with the name out of the sorted contents of the directory; adding an entry and removing it
  again gives the old contents.
\<close>

subsection \<open>The deletion in a directory\<close>

lemma del_state_pages_ok:
  "del_state A s gcl U \<longleftrightarrow> pages_ok s gcl U \<and> A = U \<union> set gcl \<and> 2 * (MAX_DIR_ENTRIES_PER_PAGE + 3) \<le> length (temp_child_page_pos s)"
  by (auto simp: del_state_def pages_ok_def links_def)

text \<open>The free pages of a directory file, in the order of their list.\<close>

definition free_list :: "bt_state \<Rightarrow> nat list \<Rightarrow> bool" where
  "free_list s gcl \<longleftrightarrow> gc_chain (pages s) (entry_page_gc_list (disk_meta s)) gcl \<and> distinct gcl"

lemma gc_chain_unique: "gc_chain P g as \<Longrightarrow> gc_chain P g bs \<Longrightarrow> as = bs"
proof (induction as arbitrary: g bs)
  case Nil
  then show ?case by (cases bs) auto
next
  case (Cons a as)
  then show ?case by (cases bs) auto
qed

lemma free_list_unique: "free_list s as \<Longrightarrow> free_list s bs \<Longrightarrow> as = bs"
  using gc_chain_unique by (auto simp: free_list_def)

lemma directory_del_tree:
  assumes "directory x s h t" and "length stack = 2 * (MAX_DIR_ENTRIES_PER_PAGE + 3)"
  obtains gcl where "del_tree (set (poss t) \<union> set gcl) (load_meta stack s) (set (poss t)) h t" "is_sorted x t" "bt_os s = []" "meta_locked s"
    "root_entry_page (disk_meta s) = root t" "root t < file_end s" "free_list s gcl"
proof (rule directory_loaded [OF assms(1), of stack])
  fix gcl
  assume ok: "pages_ok (load_meta stack s) gcl (set (poss t))" "tree_in (load_meta stack s) h t" and "is_sorted x t" "bt_os s = []" "meta_locked s"
    "root_entry_page (disk_meta s) = root t" "root t < file_end s"
  moreover have "del_state (set (poss t) \<union> set gcl) (load_meta stack s) gcl (set (poss t))" using ok assms(2) by (simp add: del_state_pages_ok)
  then have "del_tree (set (poss t) \<union> set gcl) (load_meta stack s) (set (poss t)) h t" using ok(2) by (auto simp: del_tree_def)
  moreover have "free_list s gcl" using ok(1) by (simp add: pages_ok_def space_ok_def free_list_def)
  ultimately show ?thesis using that by blast
qed (use assms(2) in simp)

lemma shrunk_directory:
  assumes "shrunk A s (set (poss t)) t s1 U' h' t'" and "is_sorted x t'" and "root_entry_page (this_meta s1) = root t'" and "meta_locked s1"
    and "s' = s1\<lparr>this_meta := m, disk_meta := m, dir_nlink := n\<rparr>" and "m = (this_meta s1)\<lparr>total_children := c\<rparr>"
  shows "directory x s' h' t'" "\<exists>gcl. free_list s' gcl \<and> set gcl \<inter> set (poss t') = {} \<and> set gcl \<union> set (poss t') = A"
proof -
  have "U' = set (poss t')" using assms(1) by (auto simp: shrunk_def)
  then obtain gcl where t: "tree_in s1 h' t'" "pages_ok s1 gcl (set (poss t'))" "A = set (poss t') \<union> set gcl" using assms(1) by (auto simp: shrunk_def del_state_pages_ok)
  show "directory x s' h' t'" using directory_of_tree [OF t(1) assms(2) t(2) assms(3-6)] .
  have "free_list s' gcl" "set gcl \<inter> set (poss t') = {}" using t(2) assms(5,6) by (auto simp: pages_ok_def space_ok_def free_list_def)
  then show "\<exists>gcl. free_list s' gcl \<and> set gcl \<inter> set (poss t') = {} \<and> set gcl \<union> set (poss t') = A" using t(3) by blast
qed

lemma dir_remove_entry_run:
  assumes "directory x s h t" and "length nm \<le> MAX_FILENAME_LEN"
  shows "dir_remove_entry stack x ino nm k s =
    bindE (delete_dir_entry_btree (2 * file_end s + 1) x \<lparr>d_ino = ino, d_name = nm, d_type = d_type_of k\<rparr> (pages s (root t))) (\<lambda>_.
    bindE (upd_meta (\<lambda>m. m\<lparr>total_children := total_children m - 1\<rparr>)) (\<lambda>_.
    bindE PWRITE_meta (\<lambda>_.
    modifyE (\<lambda>s. s\<lparr>dir_nlink := (if k = S_IFDIR then nlink_dec (dir_nlink s) else dir_nlink s)\<rparr>)))) (load_meta stack s)"
proof (rule directory_loaded [OF assms(1), of "replicate (MAX_DIR_ENTRIES_PER_PAGE + 3) 0"])
  assume "bt_os s = []" "meta_locked s" "root_entry_page (disk_meta s) = root t" "root t < file_end s"
  then show ?thesis using assms(2) by (simp add: dir_remove_entry_def removed_entry_def del: delete_dir_entry_btree.simps)
qed simp

text \<open>The whole call in one rule; \<open>e\<close> is the entry the code searches for.\<close>

lemma dir_remove_entry_spec:
  fixes x ino nm k
  defines "e \<equiv> \<lparr>d_ino = ino, d_name = nm, d_type = d_type_of k\<rparr>"
  assumes dir: "directory x s h t" and nm: "length nm \<le> MAX_FILENAME_LEN" and st: "length stack = 2 * (MAX_DIR_ENTRIES_PER_PAGE + 3)"
  obtains s' h' t' where "dir_remove_entry stack x ino nm k s = (del_result x e (inorder t), s')" "directory x s' h' t'"
    "inorder t' = del_list x e (inorder t)" "length (temp_child_page_pos s') = length stack"
    "total_children (disk_meta s') = total_children (disk_meta s) - (if has_key x e (inorder t) then 1 else 0)"
    "dir_nlink s' = (if k = S_IFDIR \<and> has_key x e (inorder t) then nlink_dec (dir_nlink s) else dir_nlink s)"
    "\<exists>gcl gcl'. free_list s gcl \<and> free_list s' gcl' \<and> set gcl' \<inter> set (poss t') = {} \<and> set gcl' \<union> set (poss t') = set gcl \<union> set (poss t)"
proof -
  define s1 where "s1 = load_meta stack s"
  obtain gcl where dt0: "del_tree (set (poss t) \<union> set gcl) s1 (set (poss t)) h t" and d: "is_sorted x t" "bt_os s = []" "meta_locked s"
    "root_entry_page (disk_meta s) = root t" "root t < file_end s" "free_list s gcl"
    using directory_del_tree [OF dir st] unfolding s1_def by blast
  define A where "A = set (poss t) \<union> set gcl"
  have dt: "del_tree A s1 (set (poss t)) h t" using dt0 by (simp add: A_def)
  have h: "2 * h < 2 * file_end s + 1" using height_less_file [of s1 h t] dt by (simp add: del_tree_def s1_def)
  have m: "in_memory A s1 t (pages s (root t))" using in_memory_page [OF dt] by (simp add: s1_def)
  obtain s2 where run: "delete_dir_entry_btree (2 * file_end s + 1) x e (pages s (root t)) s1 = (del_result x e (inorder t), s2)"
    and del: "deleted A s1 (set (poss t)) h t (del_list x e (inorder t)) s2"
    using delete_spec [OF dt m d(1) _ h, of e] d(4) by (auto simp: s1_def)
  then obtain U' h' t' where sh: "shrunk A s1 (set (poss t)) t s2 U' h' t'" and io: "inorder t' = del_list x e (inorder t)"
    and rt: "root_entry_page (this_meta s2) = root t'"
    using d(4) by (auto simp: deleted_def s1_def)
  have s2: "disk_meta s2 = this_meta s2" "meta_locked s2" "total_children (this_meta s2) = total_children (disk_meta s)" "dir_nlink s2 = dir_nlink s"
    "length (temp_child_page_pos s2) = length stack" "bt_os s2 = []"
    using sh d(3) by (auto simp: shrunk_def side_def s1_def del_state_def space_ok_def)
  have srt: "is_sorted x t'" using d(1) by (simp add: is_sorted_def io del_list_def sorted_wrt_filter sorted_wrt_map)
  define c where "c = total_children (disk_meta s) - (if has_key x e (inorder t) then 1 else 0)"
  define nl where "nl = (if k = S_IFDIR \<and> has_key x e (inorder t) then nlink_dec (dir_nlink s) else dir_nlink s)"
  define mt where "mt = (this_meta s2)\<lparr>total_children := c\<rparr>"
  define s3 where "s3 = s2\<lparr>this_meta := mt, disk_meta := mt, dir_nlink := nl\<rparr>"
  have "dir_remove_entry stack x ino nm k s = (del_result x e (inorder t), s3)"
    using run s2 unfolding dir_remove_entry_run [OF dir nm] e_def [symmetric] s1_def [symmetric]
    by (auto simp: del_result_def upd_meta_def PWRITE_meta_def s3_def mt_def c_def nl_def)
  moreover note shrunk_directory [OF sh srt rt s2(2) s3_def mt_def]
  moreover from this(2) have "\<exists>gcl gcl'. free_list s gcl \<and> free_list s3 gcl' \<and> set gcl' \<inter> set (poss t') = {} \<and> set gcl' \<union> set (poss t') = set gcl \<union> set (poss t)"
    using d(6) unfolding A_def by blast
  ultimately show ?thesis using that [of s3 h' t'] io s2(5) by (simp add: s3_def mt_def c_def nl_def)
qed

lemma del_ins_list:
  assumes "sorted_wrt (<) (map (entry_key x) ys)" and "\<not> has_key x e ys" and "entry_key x e' = entry_key x e"
  shows "del_list x e' (ins_list x e ys) = ys" "has_key x e' (ins_list x e ys)"
proof -
  have "sorted_wrt (<) (map (entry_key x) (ins_list x e ys))" using assms(1,2) sorted_ins_list by (simp add: has_key_def)
  from del_list_at [OF this [unfolded ins_list_def] assms(3) [symmetric]]
  show "del_list x e' (ins_list x e ys) = ys" "has_key x e' (ins_list x e ys)" by (simp_all add: ins_list_def)
qed

lemma entry_key_removed: "length nm \<le> MAX_FILENAME_LEN \<Longrightarrow> entry_key x \<lparr>d_ino = i, d_name = nm, d_type = y\<rparr> = entry_key x (new_dir_entry ino nm k)"
  by (simp add: entry_key_def new_dir_entry_def)

subsection \<open>Properties\<close>

text \<open>
  C22: \<^verbatim>\<open>dir_remove_entry\<close> on a directory ends with success when an entry has the name and with ENOENT otherwise.  Either way it leaves a directory, again a
  balanced tree of different pages inside the file with sorted names, whose entries are the old ones without the entry of that name, whether pages were merged or
  shared out their entries on the way down, the entry sat in an inner page, or the tree lost its root.  No page is lost: each page that the tree no longer needs is in the list of free pages afterwards, together with those that were in it
  before, so that tree and list share no page and have the same pages together as before.  The number of children is
  one less when the entry was there, and the link count too when it was a directory; nothing is written behind the end of the scratch array on the stack.
\<close>

theorem dir_remove_entry_removes:
  assumes "directory x s h t" and "length nm \<le> MAX_FILENAME_LEN" and "length stack = 2 * (MAX_DIR_ENTRIES_PER_PAGE + 3)" and "free_list s gcl"
  shows "\<exists>s' h' t' gcl'. dir_remove_entry stack x ino nm k s =
      (if name_key x nm \<in> entry_key x ` set (inorder t) then Inr () else Inl (Errno ENOENT), s') \<and>
    directory x s' h' t' \<and> inorder t' = filter (\<lambda>y. entry_key x y \<noteq> name_key x nm) (inorder t) \<and> length (temp_child_page_pos s') = length stack \<and>
    total_children (disk_meta s') = total_children (disk_meta s) - (if name_key x nm \<in> entry_key x ` set (inorder t) then 1 else 0) \<and>
    dir_nlink s' = (if k = S_IFDIR \<and> name_key x nm \<in> entry_key x ` set (inorder t) then nlink_dec (dir_nlink s) else dir_nlink s) \<and>
    free_list s' gcl' \<and> set gcl' \<inter> set (poss t') = {} \<and> set gcl' \<union> set (poss t') = set gcl \<union> set (poss t)"
proof -
  have n: "entry_key x \<lparr>d_ino = ino, d_name = nm, d_type = d_type_of k\<rparr> = name_key x nm" by (simp add: entry_key_def)
  obtain s' h' t' where r: "dir_remove_entry stack x ino nm k s = (del_result x \<lparr>d_ino = ino, d_name = nm, d_type = d_type_of k\<rparr> (inorder t), s')" "directory x s' h' t'"
      "inorder t' = del_list x \<lparr>d_ino = ino, d_name = nm, d_type = d_type_of k\<rparr> (inorder t)" "length (temp_child_page_pos s') = length stack"
      "total_children (disk_meta s') = total_children (disk_meta s) - (if has_key x \<lparr>d_ino = ino, d_name = nm, d_type = d_type_of k\<rparr> (inorder t) then 1 else 0)"
      "dir_nlink s' = (if k = S_IFDIR \<and> has_key x \<lparr>d_ino = ino, d_name = nm, d_type = d_type_of k\<rparr> (inorder t) then nlink_dec (dir_nlink s) else dir_nlink s)"
      "\<exists>gcl gcl'. free_list s gcl \<and> free_list s' gcl' \<and> set gcl' \<inter> set (poss t') = {} \<and> set gcl' \<union> set (poss t') = set gcl \<union> set (poss t)"
    using dir_remove_entry_spec [OF assms(1-3), of ino k] by blast
  obtain gcl' where "free_list s' gcl'" "set gcl' \<inter> set (poss t') = {}" "set gcl' \<union> set (poss t') = set gcl \<union> set (poss t)" using r(7) free_list_unique [OF assms(4)] by blast
  then show ?thesis using r(1-6) n unfolding del_result_def del_list_def has_key_def by (intro exI [of _ s'] exI [of _ h'] exI [of _ t'] exI [of _ gcl']) simp
qed

theorem dir_remove_entry_removes_witness:
  "\<exists>s' h' t'. dir_remove_entry (replicate 204 7) False 1 ''..'' S_IFDIR demo_dir = (Inr (), s') \<and> directory False s' h' t' \<and>
    map d_name (inorder t') = [''.''] \<and> total_children (disk_meta s') = - 1 \<and> dir_nlink s' = 1"
proof -
  have f: "free_list demo_dir []" by (simp add: free_list_def demo_dir_def Let_def)
  have "name_key False ''..'' \<in> entry_key False ` set (inorder demo_tree)" "total_children (disk_meta demo_dir) = 0" "nlink_dec (dir_nlink demo_dir) = 1"
    "map d_name (filter (\<lambda>y. entry_key False y \<noteq> name_key False ''..'') (inorder demo_tree)) = [''.'']"
    by (simp_all add: demo_tree_def entry_key_def name_key_def demo_dir_def Let_def nlink_dec_def)
  with dir_remove_entry_removes [OF demo_directory, of "''..''" "replicate 204 7" "[]" 1 S_IFDIR] f
  obtain s' h' t' where "dir_remove_entry (replicate 204 7) False 1 ''..'' S_IFDIR demo_dir = (Inr (), s')" "directory False s' h' t'"
    "map d_name (inorder t') = [''.'']" "total_children (disk_meta s') = - 1" "dir_nlink s' = 1" by auto
  then show ?thesis by (intro exI [of _ s'] exI [of _ h'] exI [of _ t']) simp
qed

text \<open>
  Adding an entry with a new name and removing the name again both succeed and give a directory with the entries, in their order, the number of children and
  the link count it had before, whatever pages were split, merged, taken from the free list or given back, and whatever the two local scratch arrays held.
\<close>

theorem dir_add_remove_roundtrip:
  assumes "directory x s h t" and "left_safe h x (entry_key x (new_dir_entry ino nm k)) t" and "tree_walk_list_head (disk_meta s) \<noteq> 0"
    and "entry_key x (new_dir_entry ino nm k) \<notin> entry_key x ` set (inorder t)" and "length nm \<le> MAX_FILENAME_LEN"
    and "length stack = MAX_DIR_ENTRIES_PER_PAGE + 3" and "length stack2 = 2 * (MAX_DIR_ENTRIES_PER_PAGE + 3)"
  shows "\<exists>s1 s2 h2 t2. dir_add_entry stack x ino nm k s = (Inr (), s1) \<and> dir_remove_entry stack2 x ino nm k s1 = (Inr (), s2) \<and> directory x s2 h2 t2 \<and>
    inorder t2 = inorder t \<and> total_children (disk_meta s2) = total_children (disk_meta s) \<and> dir_nlink s2 = dir_nlink s"
proof -
  define e where "e = new_dir_entry ino nm k"
  obtain s1 h1 t1 where add: "dir_add_entry stack x ino nm k s = (Inr (), s1)" and d1: "directory x s1 h1 t1" "inorder t1 = ins_list x e (inorder t)"
    "total_children (disk_meta s1) = total_children (disk_meta s) + 1" "dir_nlink s1 = dir_nlink s + (if k = S_IFDIR then 1 else 0)"
    using dir_add_entry_spec [OF assms(1,2,6,3)] assms(4) by (auto simp: e_def)
  define e' where "e' = \<lparr>d_ino = ino, d_name = nm, d_type = d_type_of k\<rparr>"
  obtain s2 h2 t2 where rm: "dir_remove_entry stack2 x ino nm k s1 = (del_result x e' (inorder t1), s2)" and d2: "directory x s2 h2 t2"
    "inorder t2 = del_list x e' (inorder t1)"
    "total_children (disk_meta s2) = total_children (disk_meta s1) - (if has_key x e' (inorder t1) then 1 else 0)"
    "dir_nlink s2 = (if k = S_IFDIR \<and> has_key x e' (inorder t1) then nlink_dec (dir_nlink s1) else dir_nlink s1)"
    by (rule dir_remove_entry_spec [OF d1(1) assms(5,7), of ino k, folded e'_def]) (rule that, assumption+)
  have "sorted_wrt (<) (map (entry_key x) (inorder t))" using assms(1) by (simp add: directory_def is_sorted_def)
  from del_ins_list [OF this, of e e'] have "inorder t2 = inorder t" "has_key x e' (inorder t1)"
    using assms(4) entry_key_removed [OF assms(5)] d1(2) d2(2) by (simp_all add: e_def e'_def has_key_def)
  then show ?thesis using add rm d2 d1(3,4) by (auto simp: del_result_def nlink_dec_def)
qed

theorem dir_add_remove_roundtrip_witness:
  "\<exists>s1 s2 h2 t2. dir_add_entry (replicate 102 5) False 9 ''a'' S_IFDIR demo_dir = (Inr (), s1) \<and>
    dir_remove_entry (replicate 204 7) False 9 ''a'' S_IFDIR s1 = (Inr (), s2) \<and> directory False s2 h2 t2 \<and>
    inorder t2 = inorder demo_tree \<and> total_children (disk_meta s2) = 0 \<and> dir_nlink s2 = 2"
  using dir_add_remove_roundtrip [OF demo_directory, of 9 "''a''" S_IFDIR "replicate 102 5" "replicate 204 7"]
  by (simp add: demo_tree_def entry_key_def name_key_def new_dir_entry_def demo_dir_def Let_def)

end
