(* ===== verification/File_Pages.thy ===== *)
theory File_Pages
  imports HCFS_Prelude
begin

text \<open>
  The block entry pages of a regular file, from \<^verbatim>\<open>src/HCFS/metaops.c\<close>.  The meta file of a regular file holds its block entries in pages
  of 100.  Page 0 is found through \<^verbatim>\<open>direct\<close>, the pages after it through up to four levels of
  pointer pages with 1024 positions each.  \<^verbatim>\<open>seek_page\<close> looks a page up, \<^verbatim>\<open>create_page\<close> puts it and the pointer pages on
  the way to it at the end of the file when they are missing.  Position 0 is the header of the file and stands for a missing page.
\<close>

subsection \<open>The meta file\<close>

abbreviation (input) POINTERS_PER_PAGE :: nat where "POINTERS_PER_PAGE \<equiv> 1024"
abbreviation (input) MAX_BLOCK_ENTRIES_PER_PAGE :: nat where "MAX_BLOCK_ENTRIES_PER_PAGE \<equiv> 100"

record FILE_META_TYPE =
  next_xattr_page :: nat
  direct :: nat
  single_indirect :: nat
  double_indirect :: nat
  triple_indirect :: nat
  quadruple_indirect :: nat
  fm_generation :: nat
  source_arch :: nat
  root_inode :: nat
  finished_seq :: int
  local_pin :: nat

record BLOCK_ENTRY =
  blk_status :: nat
  uploaded :: nat
  paged_out_count :: nat
  seqnum :: int
  blockID :: string

record BLOCK_ENTRY_PAGE =
  num_block_entries :: nat
  block_entries :: "BLOCK_ENTRY list"

definition zero_block_page :: BLOCK_ENTRY_PAGE where
  "zero_block_page = \<lparr>num_block_entries = 0, block_entries = replicate MAX_BLOCK_ENTRIES_PER_PAGE
     \<lparr>blk_status = 0, uploaded = 0, paged_out_count = 0, seqnum = 0, blockID = []\<rparr>\<rparr>"

text \<open>What starts at a position of the file: a pointer page, a page of block entries, or nothing that was written as a page.\<close>

datatype page = Ptr "nat list" | Block BLOCK_ENTRY_PAGE | Hole

definition empty_ptr_page :: "nat list" where
  "empty_ptr_page = replicate POINTERS_PER_PAGE 0"

text \<open>The sizes of a pointer page and of a page of block entries of 78 bytes.\<close>

primrec sizeof :: "page \<Rightarrow> nat" where
  "sizeof (Ptr xs) = 8192"
| "sizeof (Block b) = 7804"
| "sizeof Hole = 0"

record fp_state =
  contents :: "nat \<Rightarrow> page"
  fp_end :: nat
  file_meta :: FILE_META_TYPE
  fp_locked :: bool
  meta_space :: "bool list"
  fp_os :: "io_outcome list"

subsection \<open>Calls that can fail\<close>

definition fp_call :: "(fp_state, unit) sm" where
  "fp_call = (\<lambda>s. (case fp_os s of IO_Err e # _ \<Rightarrow> Inl (Errno e) | _ \<Rightarrow> Inr (), s\<lparr>fp_os := tl (fp_os s)\<rparr>))"

text \<open>
  \<^verbatim>\<open>MREAD\<close> of a pointer page.  What is read where no pointer page was written is not given a meaning: it counts as a \<open>Crash\<close>.
\<close>

definition MREAD :: "nat \<Rightarrow> (fp_state, nat list) sm" where
  "MREAD pos = bindE fp_call (\<lambda>_ s. (case contents s pos of Ptr xs \<Rightarrow> Inr xs | _ \<Rightarrow> Inl Crash, s))"

text \<open>
  \<^verbatim>\<open>MWRITE\<close> extends the file and its mapping, then copies.  It can fail before the file is extended (\<open>IO_Err\<close>) or after it, when the
  mapping fails (\<open>IO_Short\<close>).
\<close>

definition extend :: "nat \<Rightarrow> fp_state \<Rightarrow> fp_state" where
  "extend n s = s\<lparr>fp_end := max (fp_end s) n\<rparr>"

definition MWRITE :: "page \<Rightarrow> nat \<Rightarrow> (fp_state, unit) sm" where
  "MWRITE pg pos = (\<lambda>s. let s1 = s\<lparr>fp_os := tl (fp_os s)\<rparr> in
     case fp_os s of
       IO_Err e # _ \<Rightarrow> (Inl (Errno e), s1)
     | IO_Short # _ \<Rightarrow> (Inl (Errno ENOMEM), extend (pos + sizeof pg) s1)
     | _ \<Rightarrow> (Inr (), extend (pos + sizeof pg) (s1\<lparr>contents := (contents s)(pos := pg)\<rparr>)))"

text \<open>\<^verbatim>\<open>FSEEK\<close> to the end and \<^verbatim>\<open>FTELL\<close>.\<close>

definition seek_end :: "(fp_state, nat) sm" where
  "seek_end = bindE fp_call (\<lambda>_. bindE fp_call (\<lambda>_ s. (Inr (fp_end s), s)))"

text \<open>\<^verbatim>\<open>NO_META_SPACE\<close>: the answers to come are in the state, no more answers mean that there is space.\<close>

definition check_space :: "(fp_state, unit) sm" where
  "check_space = (\<lambda>s. let s1 = s\<lparr>meta_space := tl (meta_space s)\<rparr> in
     case meta_space s of False # _ \<Rightarrow> (Inl (Errno ENOSPC), s1) | _ \<Rightarrow> (Inr (), s1))"

text \<open>
  \<^verbatim>\<open>meta_cache_update_file_data\<close>: the file meta in the cache is set first, then the block page is written (after the file is opened, and before
  the inode is marked dirty), then the entry is flushed.
\<close>

definition meta_cache_update_file_data :: "FILE_META_TYPE option \<Rightarrow> (BLOCK_ENTRY_PAGE \<times> nat) option \<Rightarrow> (fp_state, unit) sm" where
  "meta_cache_update_file_data file_meta_ptr block_page =
     bindE (case file_meta_ptr of None \<Rightarrow> returnE () | Some m \<Rightarrow> modifyE (\<lambda>s. s\<lparr>file_meta := m\<rparr>)) (\<lambda>_.
     bindE (case block_page of None \<Rightarrow> returnE ()
            | Some (pg, page_pos) \<Rightarrow> bindE fp_call (\<lambda>_. bindE (MWRITE (Block pg) page_pos) (\<lambda>_. fp_call))) (\<lambda>_.
     fp_call))"

subsection \<open>Levels\<close>

primrec longpow :: "nat \<Rightarrow> nat \<Rightarrow> nat" where
  "longpow base 0 = 1"
| "longpow base (Suc n) = longpow base n * base"

definition check_page_level :: "nat \<Rightarrow> nat option" where
  "check_page_level page_index =
     (if page_index = 0 then Some 0
      else let t1 = page_index - 1 in
      if t1 < POINTERS_PER_PAGE then Some 1
      else let t2 = t1 - POINTERS_PER_PAGE in
      if t2 < longpow POINTERS_PER_PAGE 2 then Some 2
      else let t3 = t2 - longpow POINTERS_PER_PAGE 2 in
      if t3 < longpow POINTERS_PER_PAGE 3 then Some 3
      else let t4 = t3 - longpow POINTERS_PER_PAGE 3 in
      if t4 < longpow POINTERS_PER_PAGE 4 then Some 4 else None)"

text \<open>The index of a page among those of its level: the loop at the start of \<^verbatim>\<open>_load_indirect\<close> and \<^verbatim>\<open>_create_indirect\<close>.\<close>

definition index_in_level :: "nat \<Rightarrow> nat \<Rightarrow> nat" where
  "index_in_level target_page level = fold (\<lambda>count i. i - longpow POINTERS_PER_PAGE count) [1..<level] (target_page - 1)"

definition root_ptr :: "FILE_META_TYPE \<Rightarrow> nat \<Rightarrow> nat" where
  "root_ptr m level = (if level = 1 then single_indirect m else if level = 2 then double_indirect m
     else if level = 3 then triple_indirect m else quadruple_indirect m)"

definition set_root_ptr :: "FILE_META_TYPE \<Rightarrow> nat \<Rightarrow> nat \<Rightarrow> FILE_META_TYPE" where
  "set_root_ptr m level pos = (if level = 1 then m\<lparr>single_indirect := pos\<rparr> else if level = 2 then m\<lparr>double_indirect := pos\<rparr>
     else if level = 3 then m\<lparr>triple_indirect := pos\<rparr> else m\<lparr>quadruple_indirect := pos\<rparr>)"

subsection \<open>Looking up a page\<close>

text \<open>\<^verbatim>\<open>FSEEK\<close>, \<^verbatim>\<open>FTELL\<close> and the read of a pointer page; a successful \<^verbatim>\<open>FTELL\<close> gives the position of the \<^verbatim>\<open>FSEEK\<close>.\<close>

definition read_ptr_page :: "nat \<Rightarrow> (fp_state, nat list) sm" where
  "read_ptr_page pos = bindE fp_call (\<lambda>_. bindE fp_call (\<lambda>_. MREAD pos))"

primrec load_walk :: "nat \<Rightarrow> nat \<Rightarrow> nat \<Rightarrow> (fp_state, nat) sm" where
  "load_walk 0 tmp_ptr_index tmp_target_pos =
     bindE (read_ptr_page tmp_target_pos) (\<lambda>ptr. returnE (ptr ! tmp_ptr_index))"
| "load_walk (Suc n) tmp_ptr_index tmp_target_pos =
     bindE (read_ptr_page tmp_target_pos) (\<lambda>ptr.
       let tmp_ptr_page_index = tmp_ptr_index div longpow POINTERS_PER_PAGE (Suc n);
           tmp_ptr_index' = tmp_ptr_index mod longpow POINTERS_PER_PAGE (Suc n)
       in if ptr ! tmp_ptr_page_index = 0 then returnE 0 else load_walk n tmp_ptr_index' (ptr ! tmp_ptr_page_index))"

definition load_indirect :: "nat \<Rightarrow> FILE_META_TYPE \<Rightarrow> nat \<Rightarrow> (fp_state, nat) sm" where
  "load_indirect target_page temp_meta level =
     load_walk (level - 1) (index_in_level target_page level) (root_ptr temp_meta level)"

definition seek_page2 :: "FILE_META_TYPE \<Rightarrow> int \<Rightarrow> (fp_state, nat) sm" where
  "seek_page2 temp_meta target_page =
     (if target_page < 0 then failE (Errno EPERM)
      else case check_page_level (nat target_page) of
        None \<Rightarrow> failE (Errno EINVAL)
      | Some level \<Rightarrow>
          if level = 0 then returnE (direct temp_meta)
          else if root_ptr temp_meta level = 0 then returnE 0
          else load_indirect (nat target_page) temp_meta level)"

definition seek_page :: "int \<Rightarrow> (fp_state, nat) sm" where
  "seek_page target_page = (\<lambda>s0.
     if target_page < 0 then (Inl (Errno EPERM), s0)
     else if \<not> fp_locked s0 then (Inl (Errno EPERM), s0)
     else bindE fp_call (\<lambda>_ s. let temp_meta = file_meta s in
       (case check_page_level (nat target_page) of
          None \<Rightarrow> failE (Errno EINVAL)
        | Some level \<Rightarrow>
            if level = 0 then returnE (direct temp_meta)
            else bindE fp_call (\<lambda>_.
              if root_ptr temp_meta level = 0 then returnE 0
              else load_indirect (nat target_page) temp_meta level)) s) s0)"

subsection \<open>Creating a page\<close>

text \<open>The first pointer page of a level.\<close>

definition create_root :: "nat \<Rightarrow> FILE_META_TYPE \<Rightarrow> (fp_state, nat) sm" where
  "create_root level temp_meta =
     (if root_ptr temp_meta level \<noteq> 0 then returnE (root_ptr temp_meta level)
      else bindE check_space (\<lambda>_.
        bindE seek_end (\<lambda>ret_pos.
        bindE (MWRITE (Ptr empty_ptr_page) ret_pos) (\<lambda>_.
        bindE (meta_cache_update_file_data (Some (set_root_ptr temp_meta level ret_pos)) None) (\<lambda>_.
        returnE ret_pos)))))"

definition create_ptr :: "nat \<Rightarrow> nat list \<Rightarrow> nat \<Rightarrow> (fp_state, nat) sm" where
  "create_ptr i ptr tmp_target_pos =
     (if ptr ! i \<noteq> 0 then returnE (ptr ! i)
      else bindE check_space (\<lambda>_.
        bindE seek_end (\<lambda>ret_pos.
        bindE (MWRITE (Ptr empty_ptr_page) ret_pos) (\<lambda>_.
        bindE (MWRITE (Ptr (ptr[i := ret_pos])) tmp_target_pos) (\<lambda>_.
        returnE ret_pos)))))"

definition create_block :: "nat \<Rightarrow> nat list \<Rightarrow> nat \<Rightarrow> (fp_state, nat) sm" where
  "create_block i ptr tmp_target_pos =
     (if ptr ! i \<noteq> 0 then returnE (ptr ! i)
      else bindE check_space (\<lambda>_.
        bindE seek_end (\<lambda>ret_pos.
        bindE (meta_cache_update_file_data None (Some (zero_block_page, ret_pos))) (\<lambda>_.
        bindE (MWRITE (Ptr (ptr[i := ret_pos])) tmp_target_pos) (\<lambda>_.
        returnE ret_pos)))))"

primrec create_walk :: "nat \<Rightarrow> nat \<Rightarrow> nat \<Rightarrow> (fp_state, nat) sm" where
  "create_walk 0 tmp_ptr_index tmp_target_pos =
     bindE (read_ptr_page tmp_target_pos) (\<lambda>ptr. create_block tmp_ptr_index ptr tmp_target_pos)"
| "create_walk (Suc n) tmp_ptr_index tmp_target_pos =
     bindE (read_ptr_page tmp_target_pos) (\<lambda>ptr.
       bindE (create_ptr (tmp_ptr_index div longpow POINTERS_PER_PAGE (Suc n)) ptr tmp_target_pos)
         (create_walk n (tmp_ptr_index mod longpow POINTERS_PER_PAGE (Suc n))))"

definition create_indirect :: "nat \<Rightarrow> FILE_META_TYPE \<Rightarrow> nat \<Rightarrow> (fp_state, nat) sm" where
  "create_indirect target_page temp_meta level =
     bindE (create_root level temp_meta) (create_walk (level - 1) (index_in_level target_page level))"

definition create_direct :: "FILE_META_TYPE \<Rightarrow> (fp_state, nat) sm" where
  "create_direct temp_meta =
     (if direct temp_meta \<noteq> 0 then returnE (direct temp_meta)
      else bindE fp_call (\<lambda>_.
        bindE seek_end (\<lambda>ret_pos.
        bindE (meta_cache_update_file_data (Some (temp_meta\<lparr>direct := ret_pos\<rparr>)) (Some (zero_block_page, ret_pos))) (\<lambda>_.
        returnE ret_pos))))"

definition create_page :: "int \<Rightarrow> (fp_state, nat) sm" where
  "create_page target_page = (\<lambda>s0.
     if \<not> fp_locked s0 then (Inl (Errno EPERM), s0)
     else if target_page < 0 then (Inl (Errno EPERM), s0)
     else bindE fp_call (\<lambda>_ s. let temp_meta = file_meta s in
       (case check_page_level (nat target_page) of
          None \<Rightarrow> failE (Errno EINVAL)
        | Some level \<Rightarrow>
            if level = 0 then create_direct temp_meta
            else bindE fp_call (\<lambda>_. create_indirect (nat target_page) temp_meta level)) s) s0)"

end
