(* ===== verification/File_Pages_Inv.thy ===== *)
theory File_Pages_Inv
  imports File_Pages
begin

text \<open>
  The pointer pages of a regular file as a tree.  A slot names a place in it: the direct page, or a level and the indices on the way down from
  the first pointer page of the level, the last index first.  The invariant says that the pages at the slots are what they should be and do not overlap.
\<close>

subsection \<open>Slots\<close>

datatype slot = Direct | Ind nat "nat list"

primrec walk :: "(nat \<Rightarrow> nat list) \<Rightarrow> nat \<Rightarrow> nat list \<Rightarrow> nat" where
  "walk P p [] = p"
| "walk P p (d # ds) = (if walk P p ds = 0 then 0 else P (walk P p ds) ! d)"

definition ptrs :: "fp_state \<Rightarrow> nat \<Rightarrow> nat list" where
  "ptrs s q = (case contents s q of Ptr xs \<Rightarrow> xs | _ \<Rightarrow> [])"

primrec slot_pos :: "fp_state \<Rightarrow> slot \<Rightarrow> nat" where
  "slot_pos s Direct = direct (file_meta s)"
| "slot_pos s (Ind L ds) = walk (ptrs s) (root_ptr (file_meta s) L) ds"

primrec valid :: "slot \<Rightarrow> bool" where
  "valid Direct \<longleftrightarrow> True"
| "valid (Ind L ds) \<longleftrightarrow> 1 \<le> L \<and> L \<le> 4 \<and> length ds \<le> L \<and> (\<forall>d \<in> set ds. d < POINTERS_PER_PAGE)"

primrec is_block :: "slot \<Rightarrow> bool" where
  "is_block Direct \<longleftrightarrow> True"
| "is_block (Ind L ds) \<longleftrightarrow> length ds = L"

definition fits :: "slot \<Rightarrow> page \<Rightarrow> bool" where
  "fits x pg \<longleftrightarrow> (case pg of Ptr xs \<Rightarrow> \<not> is_block x \<and> length xs = POINTERS_PER_PAGE | Block b \<Rightarrow> is_block x | Hole \<Rightarrow> False)"

text \<open>The header of the meta file of a regular file has 329 bytes.\<close>

abbreviation (input) header_end :: nat where "header_end \<equiv> 329"

definition apart :: "fp_state \<Rightarrow> nat \<Rightarrow> nat \<Rightarrow> bool" where
  "apart s p q \<longleftrightarrow> p + sizeof (contents s p) \<le> q \<or> q + sizeof (contents s q) \<le> p"

definition used :: "fp_state \<Rightarrow> slot \<Rightarrow> bool" where
  "used s x \<longleftrightarrow> valid x \<and> slot_pos s x \<noteq> 0"

definition pages_wf :: "fp_state \<Rightarrow> bool" where
  "pages_wf s \<longleftrightarrow> header_end \<le> fp_end s \<and>
     (\<forall>x. used s x \<longrightarrow> fits x (contents s (slot_pos s x)) \<and> header_end \<le> slot_pos s x \<and>
        slot_pos s x + sizeof (contents s (slot_pos s x)) \<le> fp_end s) \<and>
     (\<forall>x y. used s x \<and> used s y \<and> x \<noteq> y \<longrightarrow> apart s (slot_pos s x) (slot_pos s y))"

lemma fits_size: "fits x pg \<Longrightarrow> 0 < sizeof pg"
  by (auto simp: fits_def split: page.splits)

lemma pages_wfD:
  assumes "pages_wf s" and "used s x"
  shows "fits x (contents s (slot_pos s x))" "header_end \<le> slot_pos s x" "slot_pos s x < fp_end s"
    "slot_pos s x + sizeof (contents s (slot_pos s x)) \<le> fp_end s"
proof -
  show f: "fits x (contents s (slot_pos s x))" "header_end \<le> slot_pos s x" "slot_pos s x + sizeof (contents s (slot_pos s x)) \<le> fp_end s"
    using assms unfolding pages_wf_def by blast+
  show "slot_pos s x < fp_end s" using fits_size [OF f(1)] f(3) by simp
qed

lemma slots_differ:
  assumes "pages_wf s" and "used s x" and "used s y" and "x \<noteq> y"
  shows "apart s (slot_pos s x) (slot_pos s y)" "slot_pos s x \<noteq> slot_pos s y"
proof -
  show a: "apart s (slot_pos s x) (slot_pos s y)" using assms unfolding pages_wf_def by blast
  show "slot_pos s x \<noteq> slot_pos s y" using a fits_size [OF pages_wfD(1) [OF assms(1,2)]] by (auto simp: apart_def)
qed

lemma inner_ptrs:
  assumes "pages_wf s" and "used s (Ind L ds)" and "length ds < L"
  shows "contents s (slot_pos s (Ind L ds)) = Ptr (ptrs s (slot_pos s (Ind L ds)))" "length (ptrs s (slot_pos s (Ind L ds))) = POINTERS_PER_PAGE"
  using pages_wfD(1) [OF assms(1,2)] assms(3) by (auto simp: fits_def ptrs_def split: page.splits)

lemma used_parent: "used s (Ind L (d # ds)) \<Longrightarrow> used s (Ind L ds)"
  by (auto simp: used_def split: if_splits)

subsection \<open>Writing at the end of the file\<close>

text \<open>Positions depend only on the contents of the pointer pages in use.\<close>

lemma slot_pos_cong:
  assumes "file_meta s' = file_meta s" and "\<And>L ds. used s (Ind L ds) \<Longrightarrow> length ds < L \<Longrightarrow> ptrs s' (slot_pos s (Ind L ds)) = ptrs s (slot_pos s (Ind L ds))"
    and "valid x"
  shows "slot_pos s' x = slot_pos s x"
proof (cases x)
  case (Ind L ds)
  have "valid (Ind L ds) \<Longrightarrow> slot_pos s' (Ind L ds) = slot_pos s (Ind L ds)"
  proof (induction ds)
    case (Cons d ds)
    have v: "valid (Ind L ds)" "length ds < L" using Cons.prems by auto
    show ?case
    proof (cases "slot_pos s (Ind L ds) = 0")
      case False
      then have "ptrs s' (slot_pos s (Ind L ds)) = ptrs s (slot_pos s (Ind L ds))" using v by (intro assms(2)) (auto simp: used_def)
      then show ?thesis using Cons.IH [OF v(1)] by simp
    qed (use Cons.IH [OF v(1)] in simp)
  qed (use assms(1) in simp)
  then show ?thesis using assms(3) Ind by simp
qed (use assms(1) in simp)

definition same_space :: "fp_state \<Rightarrow> fp_state \<Rightarrow> bool" where
  "same_space s s' \<longleftrightarrow> file_meta s' = file_meta s \<and> fp_end s \<le> fp_end s' \<and> (\<forall>q < fp_end s. contents s' q = contents s q)"

lemma same_space_refl [simp]: "same_space s s"
  by (simp add: same_space_def)

lemma same_space_trans: "same_space s s' \<Longrightarrow> same_space s' s'' \<Longrightarrow> same_space s s''"
  by (auto simp: same_space_def)

lemma same_space_slots:
  assumes "pages_wf s" and "same_space s s'" and "valid x"
  shows "slot_pos s' x = slot_pos s x"
proof (rule slot_pos_cong [OF _ _ assms(3)])
  show "file_meta s' = file_meta s" using assms(2) by (simp add: same_space_def)
  show "ptrs s' (slot_pos s (Ind L ds)) = ptrs s (slot_pos s (Ind L ds))" if "used s (Ind L ds)" for L ds
    using pages_wfD(3) [OF assms(1) that] assms(2) by (simp add: same_space_def ptrs_def)
qed

lemma same_space_wf:
  assumes "pages_wf s" and "same_space s s'"
  shows "pages_wf s'"
proof -
  have u: "used s' x = used s x" "used s x \<Longrightarrow> slot_pos s' x = slot_pos s x" "used s x \<Longrightarrow> contents s' (slot_pos s x) = contents s (slot_pos s x)" for x
    using same_space_slots [OF assms, of x] pages_wfD(3) [OF assms(1), of x] assms(2) by (auto simp: used_def same_space_def)
  have e: "fp_end s \<le> fp_end s'" using assms(2) by (simp add: same_space_def)
  have "apart s' (slot_pos s' x) (slot_pos s' y)" if "used s' x" "used s' y" "x \<noteq> y" for x y
    using slots_differ(1) [OF assms(1)] that u by (auto simp: apart_def)
  moreover have "fits x (contents s' (slot_pos s' x)) \<and> header_end \<le> slot_pos s' x \<and> slot_pos s' x + sizeof (contents s' (slot_pos s' x)) \<le> fp_end s'"
    if "used s' x" for x
  proof -
    have x: "used s x" using that u(1) by simp
    show ?thesis using pages_wfD(1,2,4) [OF assms(1) x] e by (simp add: u(2,3) [OF x])
  qed
  moreover have "header_end \<le> fp_end s'" using assms(1) e by (simp add: pages_wf_def)
  ultimately show ?thesis unfolding pages_wf_def by blast
qed

subsection \<open>Linking a page\<close>

text \<open>A page nobody points to, ready to be linked at the slot \<open>x\<close>.\<close>

definition fresh :: "fp_state \<Rightarrow> slot \<Rightarrow> nat \<Rightarrow> bool" where
  "fresh s x p \<longleftrightarrow> header_end \<le> p \<and> p + sizeof (contents s p) \<le> fp_end s \<and> fits x (contents s p) \<and>
     (\<not> is_block x \<longrightarrow> ptrs s p = empty_ptr_page) \<and> (\<forall>y. used s y \<longrightarrow> apart s p (slot_pos s y))"

lemma wf_linked:
  assumes wf: "pages_wf s" and x: "valid x" and fr: "fresh s x p"
    and pos: "\<And>y. valid y \<Longrightarrow> slot_pos s' y = (if y = x then p else slot_pos s y)"
    and size: "\<And>q. sizeof (contents s' q) = sizeof (contents s q)" and fit: "\<And>q y. fits y (contents s' q) = fits y (contents s q)"
    and e: "fp_end s' = fp_end s"
  shows "pages_wf s'"
proof -
  have px: "p \<noteq> 0" using fr by (auto simp: fresh_def)
  have u: "used s' y \<longleftrightarrow> y = x \<or> used s y" for y using pos x px by (auto simp: used_def)
  have pu: "used s' y \<Longrightarrow> slot_pos s' y = (if y = x then p else slot_pos s y)" for y using pos by (simp add: used_def)
  have ap: "apart s' a b = apart s a b" for a b by (simp add: apart_def size)
  have "apart s' (slot_pos s' y) (slot_pos s' z)" if "used s' y" "used s' z" "y \<noteq> z" for y z
    using that pu u slots_differ(1) [OF wf, of y z] fr by (auto simp: ap fresh_def) (auto simp: apart_def)
  moreover have "fits y (contents s' (slot_pos s' y)) \<and> header_end \<le> slot_pos s' y \<and> slot_pos s' y + sizeof (contents s' (slot_pos s' y)) \<le> fp_end s'"
    if "used s' y" for y
    using that pu u pages_wfD [OF wf, of y] fr by (auto simp: fresh_def size fit e)
  moreover have "header_end \<le> fp_end s'" using wf by (simp add: pages_wf_def e)
  ultimately show ?thesis unfolding pages_wf_def by blast
qed

lemma root_ptr_set:
  assumes "1 \<le> L" and "L \<le> 4" and "1 \<le> M" and "M \<le> 4"
  shows "root_ptr (set_root_ptr m L p) M = (if M = L then p else root_ptr m M)"
proof -
  have "L \<in> {1, 2, 3, 4}" "M \<in> {1, 2, 3, 4}" using assms by auto
  then show ?thesis by (auto simp: root_ptr_def set_root_ptr_def)
qed

lemma direct_set [simp]: "direct (set_root_ptr m L p) = direct m"
  by (simp add: set_root_ptr_def)

lemma fresh_not_used: "fresh s x p \<Longrightarrow> used s y \<Longrightarrow> slot_pos s y \<noteq> p"
  using fits_size [of x "contents s p"] by (auto simp: fresh_def apart_def)

lemma empty_ptr_nth: "d < POINTERS_PER_PAGE \<Longrightarrow> empty_ptr_page ! d = 0"
  by (simp add: empty_ptr_page_def)

text \<open>
  The walk after the link: below the linked slot there is nothing, before and now.  The assumption \<open>step\<close> compares one step of it.
\<close>

lemma slots_linked:
  assumes wf: "pages_wf s" and x: "valid x" "slot_pos s x = 0" and fr: "fresh s x p"
    and dir: "x \<noteq> Direct \<Longrightarrow> direct (file_meta s') = direct (file_meta s)" "x = Direct \<Longrightarrow> direct (file_meta s') = p"
    and root: "\<And>L. valid (Ind L []) \<Longrightarrow> root_ptr (file_meta s') L = (if x = Ind L [] then p else root_ptr (file_meta s) L)"
    and new: "ptrs s' p = ptrs s p"
    and step: "\<And>L d ds. valid (Ind L (d # ds)) \<Longrightarrow> used s (Ind L ds) \<Longrightarrow>
      ptrs s' (slot_pos s (Ind L ds)) ! d = (if x = Ind L (d # ds) then p else ptrs s (slot_pos s (Ind L ds)) ! d)"
    and par: "\<And>L d ds. x = Ind L (d # ds) \<Longrightarrow> used s (Ind L ds)"
    and y: "valid y"
  shows "slot_pos s' y = (if y = x then p else slot_pos s y)"
proof (cases y)
  case (Ind L ds)
  have "valid (Ind L ds) \<Longrightarrow> slot_pos s' (Ind L ds) = (if Ind L ds = x then p else slot_pos s (Ind L ds))"
  proof (induction ds)
    case (Cons d ds)
    have v: "valid (Ind L ds)" "length ds < L" "d < POINTERS_PER_PAGE" using Cons.prems by auto
    note IH = Cons.IH [OF v(1)]
    show ?case
    proof (cases "Ind L ds = x")
      case True
      then have "ptrs s p = empty_ptr_page" using fr v(2) by (auto simp: fresh_def)
      then have "ptrs s' p ! d = 0" using new empty_ptr_nth v(3) by simp
      then show ?thesis using IH True x(2) by auto
    next
      case False
      then have eq: "slot_pos s' (Ind L ds) = slot_pos s (Ind L ds)" using IH by simp
      show ?thesis
      proof (cases "slot_pos s (Ind L ds) = 0")
        case True
        then have "Ind L (d # ds) \<noteq> x" using par [of L d ds] by (auto simp: used_def)
        then show ?thesis using True eq by simp
      next
        case nz: False
        then have "used s (Ind L ds)" using v(1) by (simp add: used_def)
        from step [OF Cons.prems this] show ?thesis using nz eq by auto
      qed
    qed
  qed (use root in auto)
  then show ?thesis using y Ind by blast
qed (use dir in auto)

text \<open>The three places a link can be written to: a pointer page, the first pointer of a level, and the direct pointer.\<close>

lemma link_child:
  assumes wf: "pages_wf s" and x: "valid (Ind L (d # ds))" "slot_pos s (Ind L (d # ds)) = 0" and u: "used s (Ind L ds)"
    and fr: "fresh s (Ind L (d # ds)) p" and q: "q = slot_pos s (Ind L ds)"
    and s': "contents s' = (contents s)(q := Ptr ((ptrs s q)[d := p]))" "file_meta s' = file_meta s" "fp_end s' = fp_end s"
  shows "pages_wf s'" "valid y \<Longrightarrow> slot_pos s' y = (if y = Ind L (d # ds) then p else slot_pos s y)"
proof -
  have l: "length ds < L" "d < POINTERS_PER_PAGE" using x(1) by auto
  note ip = inner_ptrs [OF wf u l(1), folded q]
  have pq: "p \<noteq> q" using fresh_not_used [OF fr u] q by blast
  have other: "slot_pos s (Ind M es) \<noteq> q" if "used s (Ind M es)" "Ind M es \<noteq> Ind L ds" for M es
    using slots_differ(2) [OF wf that(1) u that(2)] q by blast
  have st: "ptrs s' (slot_pos s (Ind M es)) ! c = (if Ind L (d # ds) = Ind M (c # es) then p else ptrs s (slot_pos s (Ind M es)) ! c)"
    if v: "valid (Ind M (c # es))" and us: "used s (Ind M es)" for M c es
  proof (cases "Ind M es = Ind L ds")
    case True
    then have sp: "slot_pos s (Ind M es) = q" using q by simp
    show ?thesis using True ip(2) l(2) unfolding sp by (auto simp: ptrs_def s'(1) nth_list_update)
  next
    case False
    then show ?thesis using other [OF us False] by (auto simp: ptrs_def s'(1))
  qed
  show sp: "slot_pos s' y = (if y = Ind L (d # ds) then p else slot_pos s y)" if "valid y" for y
    by (rule slots_linked [OF wf x fr _ _ _ _ st _ that]) (use s' pq u in \<open>auto simp: ptrs_def\<close>)
  show "pages_wf s'" by (rule wf_linked [OF wf x(1) fr sp]) (use ip s' in \<open>auto simp: fits_def\<close>)
qed

lemma link_root:
  assumes wf: "pages_wf s" and x: "valid (Ind L [])" "slot_pos s (Ind L []) = 0" and fr: "fresh s (Ind L []) p"
    and s': "contents s' = contents s" "file_meta s' = set_root_ptr (file_meta s) L p" "fp_end s' = fp_end s"
  shows "pages_wf s'" "valid y \<Longrightarrow> slot_pos s' y = (if y = Ind L [] then p else slot_pos s y)"
proof -
  have l: "1 \<le> L" "L \<le> 4" using x(1) by auto
  show sp: "slot_pos s' y = (if y = Ind L [] then p else slot_pos s y)" if "valid y" for y
    by (rule slots_linked [OF wf x fr _ _ _ _ _ _ that]) (use s' root_ptr_set [OF l] in \<open>auto simp: ptrs_def\<close>)
  show "pages_wf s'" by (rule wf_linked [OF wf x(1) fr sp]) (use s' in \<open>auto simp: fits_def\<close>)
qed

lemma link_direct:
  assumes wf: "pages_wf s" and x: "direct (file_meta s) = 0" and fr: "fresh s Direct p"
    and s': "contents s' = contents s" "file_meta s' = (file_meta s)\<lparr>direct := p\<rparr>" "fp_end s' = fp_end s"
  shows "pages_wf s'" "valid y \<Longrightarrow> slot_pos s' y = (if y = Direct then p else slot_pos s y)"
proof -
  have x': "valid Direct" "slot_pos s Direct = 0" using x by simp_all
  show sp: "slot_pos s' y = (if y = Direct then p else slot_pos s y)" if "valid y" for y
    by (rule slots_linked [OF wf x' fr _ _ _ _ _ _ that]) (use s' in \<open>auto simp: ptrs_def root_ptr_def\<close>)
  show "pages_wf s'" by (rule wf_linked [OF wf x'(1) fr sp]) (use s' in \<open>auto simp: fits_def\<close>)
qed

end
