(* ===== verification/File_Pages_Run.thy ===== *)
theory File_Pages_Run
  imports File_Pages_Inv
begin

text \<open>
  The runs of \<^verbatim>\<open>create_page\<close> and \<^verbatim>\<open>seek_page\<close>, with any outcomes of the calls.  \<open>wp\<close> is the weakest precondition of a state
  transformer for a result and for a failure.
\<close>

declare slot_pos.simps(2) [simp del]

lemma slot_pos_Cons: "slot_pos s (Ind L (d # ds)) = (if slot_pos s (Ind L ds) = 0 then 0 else ptrs s (slot_pos s (Ind L ds)) ! d)"
  by (simp add: slot_pos.simps)

subsection \<open>Weakest preconditions\<close>

definition wp :: "'s \<Rightarrow> ('s, 'a) sm \<Rightarrow> ('a \<Rightarrow> 's \<Rightarrow> bool) \<Rightarrow> (failure \<Rightarrow> 's \<Rightarrow> bool) \<Rightarrow> bool" where
  "wp s m Q E \<longleftrightarrow> (case m s of (Inr x, s') \<Rightarrow> Q x s' | (Inl e, s') \<Rightarrow> E e s')"

lemma wp_bind: "wp s m (\<lambda>x s'. wp s' (f x) Q E) E \<Longrightarrow> wp s (bindE m f) Q E"
  by (auto simp: wp_def bindE_def split: prod.splits sum.splits)

lemma wp_return [simp]: "wp s (returnE x) Q E = Q x s"
  by (simp add: wp_def)

lemma wp_modify [simp]: "wp s (modifyE f) Q E = Q () (f s)"
  by (simp add: wp_def)

lemma wp_mono:
  assumes "wp s m Q E" and "\<And>x s'. Q x s' \<Longrightarrow> Q' x s'" and "\<And>e s'. E e s' \<Longrightarrow> E' e s'"
  shows "wp s m Q' E'"
  using assms by (auto simp: wp_def split: prod.splits sum.splits)

lemma wpI: "(\<And>x s'. m s = (Inr x, s') \<Longrightarrow> Q x s') \<Longrightarrow> (\<And>e s'. m s = (Inl e, s') \<Longrightarrow> E e s') \<Longrightarrow> wp s m Q E"
  by (auto simp: wp_def split: prod.splits sum.splits)

lemma wpD: "wp s m Q E \<Longrightarrow> m s = (r, s') \<Longrightarrow> (case r of Inr x \<Rightarrow> Q x s' | Inl e \<Rightarrow> E e s')"
  by (auto simp: wp_def split: sum.splits)

subsection \<open>The calls\<close>

text \<open>No call fails and there is space.\<close>

definition clean :: "fp_state \<Rightarrow> bool" where
  "clean s \<longleftrightarrow> fp_os s = [] \<and> meta_space s = []"

text \<open>Nothing but the outcomes to come has changed.\<close>

definition quiet :: "fp_state \<Rightarrow> fp_state \<Rightarrow> bool" where
  "quiet s s' \<longleftrightarrow> contents s' = contents s \<and> fp_end s' = fp_end s \<and> file_meta s' = file_meta s \<and> fp_locked s' = fp_locked s \<and> (clean s \<longrightarrow> s' = s)"

lemma quiet_refl [simp]: "quiet s s"
  by (simp add: quiet_def)

lemma quiet_trans: "quiet s s' \<Longrightarrow> quiet s' s'' \<Longrightarrow> quiet s s''"
  by (auto simp: quiet_def)

lemma quiet_slots: "quiet s s' \<Longrightarrow> slot_pos s' x = slot_pos s x" "quiet s s' \<Longrightarrow> ptrs s' = ptrs s"
proof -
  show p: "ptrs s' = ptrs s" if "quiet s s'" using that by (auto simp: quiet_def ptrs_def)
  show "slot_pos s' x = slot_pos s x" if "quiet s s'" using that p [OF that] by (cases x) (simp_all add: quiet_def slot_pos.simps)
qed

lemma quiet_clean: "quiet s s' \<Longrightarrow> clean s \<Longrightarrow> clean s'"
  by (auto simp: quiet_def)

lemma quiet_space: "quiet s s' \<Longrightarrow> same_space s s'"
  by (simp add: quiet_def same_space_def)

lemma wp_call:
  assumes "\<And>s'. quiet s s' \<Longrightarrow> Q () s'" and "\<And>e s'. quiet s s' \<Longrightarrow> \<not> clean s \<Longrightarrow> E (Errno e) s'"
  shows "wp s fp_call Q E"
proof -
  have "quiet s (s\<lparr>fp_os := tl (fp_os s)\<rparr>)" by (simp add: quiet_def clean_def)
  then show ?thesis using assms by (auto simp: wp_def fp_call_def clean_def split: list.splits io_outcome.splits)
qed

lemma wp_space:
  assumes "\<And>s'. quiet s s' \<Longrightarrow> Q () s'" and "\<And>e s'. quiet s s' \<Longrightarrow> \<not> clean s \<Longrightarrow> E (Errno e) s'"
  shows "wp s check_space Q E"
proof -
  have "quiet s (s\<lparr>meta_space := tl (meta_space s)\<rparr>)" by (simp add: quiet_def clean_def)
  then show ?thesis using assms by (auto simp: wp_def check_space_def Let_def clean_def split: list.splits bool.splits)
qed

lemma wp_seek_end:
  assumes "\<And>s'. quiet s s' \<Longrightarrow> Q (fp_end s) s'" and "\<And>e s'. quiet s s' \<Longrightarrow> \<not> clean s \<Longrightarrow> E (Errno e) s'"
  shows "wp s seek_end Q E"
  unfolding seek_end_def
proof (intro wp_bind wp_call)
  fix s1 s2
  assume q: "quiet s s1" "quiet s1 s2"
  then have "fp_end s2 = fp_end s" by (simp add: quiet_def)
  then show "wp s2 (\<lambda>s. (Inr (fp_end s), s)) Q E" using assms(1) [OF quiet_trans [OF q]] by (simp add: wp_def)
qed (use assms(2) quiet_trans quiet_clean in blast)+

lemma wp_read_ptr_page:
  assumes "contents s q = Ptr xs" and "\<And>s'. quiet s s' \<Longrightarrow> Q xs s'" and "\<And>e s'. quiet s s' \<Longrightarrow> \<not> clean s \<Longrightarrow> E (Errno e) s'"
  shows "wp s (read_ptr_page q) Q E"
  unfolding read_ptr_page_def MREAD_def
proof (intro wp_bind wp_call)
  fix s1 s2 s3
  assume q: "quiet s s1" "quiet s1 s2" "quiet s2 s3"
  then have "contents s3 q = Ptr xs" using assms(1) by (simp add: quiet_def)
  then show "wp s3 (\<lambda>s. (case contents s q of Ptr xs \<Rightarrow> Inr xs | _ \<Rightarrow> Inl Crash, s)) Q E"
    using assms(2) [OF quiet_trans [OF quiet_trans [OF q(1,2)] q(3)]] by (simp add: wp_def)
qed (use assms(3) quiet_trans quiet_clean in blast)+

text \<open>A write at the end of the file, and one over a page that is there.\<close>

definition appended :: "fp_state \<Rightarrow> page \<Rightarrow> fp_state \<Rightarrow> bool" where
  "appended s pg s' \<longleftrightarrow> same_space s s' \<and> contents s' (fp_end s) = pg \<and> fp_end s + sizeof pg \<le> fp_end s' \<and> fp_locked s' = fp_locked s \<and> (clean s \<longrightarrow> clean s')"

lemma wp_append:
  assumes "\<And>s'. appended s pg s' \<Longrightarrow> Q () s'" and "\<And>e s'. same_space s s' \<Longrightarrow> fp_locked s' = fp_locked s \<Longrightarrow> \<not> clean s \<Longrightarrow> E (Errno e) s'"
  shows "wp s (MWRITE pg (fp_end s)) Q E"
  using assms unfolding wp_def MWRITE_def Let_def
  by (auto simp: appended_def same_space_def clean_def extend_def split: list.splits io_outcome.splits)

lemma wp_overwrite:
  assumes "q + sizeof pg \<le> fp_end s" and "\<And>s'. quiet (s\<lparr>contents := (contents s)(q := pg)\<rparr>) s' \<Longrightarrow> Q () s'"
    and "\<And>e s'. quiet s s' \<Longrightarrow> \<not> clean s \<Longrightarrow> E (Errno e) s'"
  shows "wp s (MWRITE pg q) Q E"
proof -
  have e: "extend (q + sizeof pg) s' = s'" if "fp_end s' = fp_end s" for s'
    using that assms(1) by (simp add: extend_def max_def)
  have "quiet (s\<lparr>contents := (contents s)(q := pg)\<rparr>) (s\<lparr>fp_os := tl (fp_os s), contents := (contents s)(q := pg)\<rparr>)"
    "quiet s (s\<lparr>fp_os := tl (fp_os s)\<rparr>)"
    by (simp_all add: quiet_def clean_def)
  then show ?thesis using assms(2,3) e unfolding wp_def MWRITE_def Let_def
    by (auto simp: clean_def split: list.splits io_outcome.splits)
qed

subsection \<open>Added pages\<close>

text \<open>Slots in \<open>X\<close> may have got a page; all other slots and all block pages are as before.\<close>

definition adds :: "slot set \<Rightarrow> fp_state \<Rightarrow> fp_state \<Rightarrow> bool" where
  "adds X s s' \<longleftrightarrow> pages_wf s' \<and> fp_locked s' = fp_locked s \<and> (clean s \<longrightarrow> clean s') \<and>
     (\<forall>y. valid y \<longrightarrow> slot_pos s' y = slot_pos s y \<or> y \<in> X \<and> slot_pos s y = 0) \<and>
     (\<forall>y. used s y \<and> is_block y \<longrightarrow> contents s' (slot_pos s y) = contents s (slot_pos s y))"

lemma adds_used: "adds X s s' \<Longrightarrow> used s y \<Longrightarrow> used s' y \<and> slot_pos s' y = slot_pos s y"
  by (auto simp: adds_def used_def)

lemma adds_other: "adds X s s' \<Longrightarrow> valid y \<Longrightarrow> y \<notin> X \<Longrightarrow> slot_pos s' y = slot_pos s y"
  by (auto simp: adds_def)

lemma adds_clean: "adds X s s' \<Longrightarrow> clean s \<Longrightarrow> clean s'"
  by (simp add: adds_def)

lemma adds_wf: "adds X s s' \<Longrightarrow> pages_wf s'"
  by (simp add: adds_def)

lemma adds_trans:
  assumes "adds X s s1" and "adds X s1 s2"
  shows "adds X s s2"
proof -
  have "slot_pos s2 y = slot_pos s y \<or> y \<in> X \<and> slot_pos s y = 0" if "valid y" for y
    using that assms unfolding adds_def by metis
  moreover have "contents s2 (slot_pos s y) = contents s (slot_pos s y)" if "used s y" "is_block y" for y
    using adds_used [OF assms(1) that(1)] assms that unfolding adds_def by metis
  ultimately show ?thesis using assms by (simp add: adds_def)
qed

lemma adds_mono: "adds X s s' \<Longrightarrow> X \<subseteq> Y \<Longrightarrow> adds Y s s'"
  by (auto simp: adds_def)

lemma adds_space:
  assumes "pages_wf s" and "same_space s s'" and "fp_locked s' = fp_locked s" and "clean s \<longrightarrow> clean s'"
  shows "adds X s s'"
proof -
  have "contents s' (slot_pos s y) = contents s (slot_pos s y)" if "used s y" for y
    using assms(2) pages_wfD(3) [OF assms(1) that] by (simp add: same_space_def)
  then show ?thesis using assms(3,4) same_space_wf [OF assms(1,2)] same_space_slots [OF assms(1,2)] by (simp add: adds_def)
qed

lemma adds_quiet:
  assumes "pages_wf s" and "quiet s s'"
  shows "adds X s s'"
proof (rule adds_space [OF assms(1) quiet_space [OF assms(2)]])
  show "fp_locked s' = fp_locked s" using assms(2) by (simp add: quiet_def)
  show "clean s \<longrightarrow> clean s'" using quiet_clean [OF assms(2)] by simp
qed

lemma adds_link:
  assumes wf: "pages_wf s" "pages_wf s'" and x: "slot_pos s x = 0" "x \<in> X"
    and sp: "\<And>y. valid y \<Longrightarrow> slot_pos s' y = (if y = x then p else slot_pos s y)"
    and b: "\<And>y. used s y \<Longrightarrow> is_block y \<Longrightarrow> contents s' (slot_pos s y) = contents s (slot_pos s y)"
    and l: "fp_locked s' = fp_locked s" "clean s \<longrightarrow> clean s'"
  shows "adds X s s'"
  using assms by (auto simp: adds_def)

lemma fresh_appended:
  assumes wf: "pages_wf s" and a: "appended s c s'" and c: "fits x c" "\<not> is_block x \<longrightarrow> c = Ptr empty_ptr_page"
  shows "fresh s' x (fp_end s)"
proof -
  have ss: "same_space s s'" and e: "contents s' (fp_end s) = c" "fp_end s + sizeof c \<le> fp_end s'" using a by (simp_all add: appended_def)
  have "apart s' (fp_end s) (slot_pos s' y)" if "used s' y" for y
  proof -
    have u: "used s y" "slot_pos s' y = slot_pos s y" using that same_space_slots [OF wf ss, of y] by (auto simp: used_def)
    then have "contents s' (slot_pos s y) = contents s (slot_pos s y)" using pages_wfD(3) [OF wf] ss by (auto simp: same_space_def)
    then show ?thesis using pages_wfD(4) [OF wf u(1)] u(2) by (simp add: apart_def)
  qed
  then show ?thesis using wf c e by (auto simp: fresh_def pages_wf_def ptrs_def)
qed

lemma appended_quiet:
  assumes "quiet s s1" and "appended s1 c s2" and "quiet s2 s3"
  shows "appended s c s3"
  using assms by (auto simp: appended_def same_space_def quiet_def)

lemma appended_adds:
  assumes "pages_wf s" and "appended s c s'"
  shows "adds X s s'"
  using assms by (intro adds_space) (auto simp: appended_def)

subsection \<open>Creating the pages on the way down\<close>

definition fails :: "slot set \<Rightarrow> fp_state \<Rightarrow> failure \<Rightarrow> fp_state \<Rightarrow> bool" where
  "fails X s e s' \<longleftrightarrow> adds X s s' \<and> (\<exists>n. e = Errno n) \<and> \<not> clean s"

lemma fails_quiet: "pages_wf s \<Longrightarrow> quiet s s' \<Longrightarrow> \<not> clean s \<Longrightarrow> fails X s (Errno n) s'"
  using adds_quiet by (auto simp: fails_def)

lemma fails_space: "pages_wf s \<Longrightarrow> same_space s s' \<Longrightarrow> fp_locked s' = fp_locked s \<Longrightarrow> \<not> clean s \<Longrightarrow> fails X s (Errno n) s'"
  using adds_space by (auto simp: fails_def)

lemma fails_mono: "fails X s e s' \<Longrightarrow> X \<subseteq> Y \<Longrightarrow> fails Y s e s'"
  using adds_mono by (auto simp: fails_def)

lemma fails_after: "adds X s s1 \<Longrightarrow> fails X s1 e s' \<Longrightarrow> fails X s e s'"
  unfolding fails_def using adds_trans adds_clean by blast

text \<open>The link to an appended page is written into its pointer page.\<close>

lemma wp_link:
  assumes wf: "pages_wf s" and u: "used s (Ind L ds)" and x: "valid (Ind L (d # ds))" "slot_pos s (Ind L (d # ds)) = 0"
    and q: "q = slot_pos s (Ind L ds)" and a: "appended s c s3" and c: "fits (Ind L (d # ds)) c" "\<not> is_block (Ind L (d # ds)) \<longrightarrow> c = Ptr empty_ptr_page"
    and p: "p = fp_end s" and X: "Ind L (d # ds) \<in> X"
  shows "wp s3 (MWRITE (Ptr ((ptrs s q)[d := p])) q)
    (\<lambda>_ s'. adds X s s' \<and> slot_pos s' (Ind L (d # ds)) = p \<and> p \<noteq> 0 \<and> contents s' p = c) (fails X s)"
proof -
  have ss: "same_space s s3" and sl: "fp_locked s3 = fp_locked s" "clean s \<longrightarrow> clean s3" "contents s3 p = c" using a p by (simp_all add: appended_def)
  note wf3 = same_space_wf [OF wf ss]
  have same: "slot_pos s3 y = slot_pos s y" if "valid y" for y using same_space_slots [OF wf ss that] .
  have u3: "used s3 (Ind L ds)" "slot_pos s3 (Ind L ds) = q" "slot_pos s3 (Ind L (d # ds)) = 0"
    using u same x q by (auto simp: used_def)
  have l: "length ds < L" using x(1) by auto
  have qe: "q < fp_end s" "q + 8192 \<le> fp_end s3" using pages_wfD(3) [OF wf u] pages_wfD(4) [OF wf3 u3(1)] inner_ptrs(1) [OF wf3 u3(1) l] u3(2) q by simp_all
  then have pt: "ptrs s q = ptrs s3 q" using ss by (simp add: ptrs_def same_space_def)
  have fr: "fresh s3 (Ind L (d # ds)) p" unfolding p by (rule fresh_appended [OF wf a c])
  have pz: "p \<noteq> 0" using wf by (auto simp: pages_wf_def p)
  show ?thesis
  proof (rule wp_overwrite)
    fix s'
    assume qt: "quiet (s3\<lparr>contents := (contents s3)(q := Ptr ((ptrs s q)[d := p]))\<rparr>) s'"
    have s': "contents s' = (contents s3)(q := Ptr ((ptrs s3 q)[d := p]))" "file_meta s' = file_meta s3" "fp_end s' = fp_end s3"
      "fp_locked s' = fp_locked s3" "clean s3 \<longrightarrow> clean s'" using qt by (auto simp: quiet_def pt clean_def)
    note lk = link_child [OF wf3 x(1) u3(3,1) fr u3(2) [symmetric] s'(1-3)]
    have "contents s' (slot_pos s3 y) = contents s3 (slot_pos s3 y)" if "used s3 y" "is_block y" for y
    proof -
      have "y \<noteq> Ind L ds" using that(2) l by auto
      then show ?thesis using slots_differ(2) [OF wf3 that(1) u3(1)] u3(2) s'(1) by simp
    qed
    then have "adds X s3 s'" by (rule_tac adds_link [OF wf3 lk(1) u3(3) X lk(2)]) (use s' in auto)
    moreover have "adds X s s3" by (rule adds_space [OF wf ss sl(1,2)])
    moreover have "contents s' p = c" using sl(3) s'(1) qe(1) p by simp
    ultimately show "adds X s s' \<and> slot_pos s' (Ind L (d # ds)) = p \<and> p \<noteq> 0 \<and> contents s' p = c"
      using adds_trans lk(2) [OF x(1)] pz by auto
  next
    fix e s'
    assume "quiet s3 s'" "\<not> clean s3"
    then show "fails X s (Errno e) s'" using fails_quiet [OF wf3] sl(2) adds_space [OF wf ss sl(1,2)] fails_after by blast
  qed (use qe in simp)
qed

text \<open>The steps before the link: the check for space, the end of the file, and the new page there.\<close>

lemma wp_space_end:
  assumes "pages_wf s" and "\<And>s2. quiet s s2 \<Longrightarrow> fp_end s2 = fp_end s \<Longrightarrow> wp s2 (k (fp_end s2)) Q (fails X s)"
  shows "wp s (bindE check_space (\<lambda>_. bindE seek_end k)) Q (fails X s)"
proof (intro wp_bind wp_space wp_seek_end)
  fix s1 s2
  assume q: "quiet s s1" "quiet s1 s2"
  then have "fp_end s1 = fp_end s2" "fp_end s2 = fp_end s" by (simp_all add: quiet_def)
  then show "wp s2 (k (fp_end s1)) Q (fails X s)" using assms(2) [OF quiet_trans [OF q]] by simp
qed (use fails_quiet [OF assms(1)] quiet_trans quiet_clean in blast)+

lemma fails_appending:
  assumes "pages_wf s" and "quiet s s2" and "same_space s2 s3" and "fp_locked s3 = fp_locked s2" and "\<not> clean s2"
  shows "fails X s (Errno e) s3"
  using assms quiet_clean [OF assms(2)] same_space_trans [OF quiet_space [OF assms(2)]]
  by (intro fails_space [OF assms(1)]) (auto simp: quiet_def)

lemma wp_append_page:
  assumes "pages_wf s" and "quiet s s2" and "\<And>s3. appended s pg s3 \<Longrightarrow> Q () s3"
  shows "wp s2 (MWRITE pg (fp_end s2)) Q (fails X s)"
  by (rule wp_append) (use assms(3) appended_quiet [OF assms(2) _ quiet_refl] fails_appending [OF assms(1,2)] in blast)+

lemma fails_appended: "pages_wf s \<Longrightarrow> appended s c s1 \<Longrightarrow> \<not> clean s1 \<Longrightarrow> fails X s (Errno e) s1"
  using appended_adds by (auto simp: fails_def appended_def)

lemma wp_append_block:
  assumes wf: "pages_wf s" and q: "quiet s s2" and Q: "\<And>s3. appended s (Block b) s3 \<Longrightarrow> Q () s3"
  shows "wp s2 (meta_cache_update_file_data None (Some (b, fp_end s2))) Q (fails X s)"
  unfolding meta_cache_update_file_data_def option.case prod.case
proof (intro wp_bind wp_return [THEN iffD2] wp_call)
  fix s3
  assume q3: "quiet s2 s3"
  have e: "fp_end s2 = fp_end s3" using q3 by (simp add: quiet_def)
  show "wp s3 (MWRITE (Block b) (fp_end s2)) (\<lambda>_ s'. wp s' fp_call (\<lambda>_ s'. wp s' fp_call Q (fails X s)) (fails X s)) (fails X s)"
    unfolding e
  proof (intro wp_append_page [OF wf quiet_trans [OF q q3]] wp_call)
    fix s4 s5 s6
    assume a: "appended s (Block b) s4" and q5: "quiet s4 s5" and q6: "quiet s5 s6"
    show "Q () s6" using Q [OF appended_quiet [OF quiet_refl a quiet_trans [OF q5 q6]]] .
  next
    fix s4 e s5
    assume "appended s (Block b) s4" "quiet s4 s5" "\<not> clean s4"
    then show "fails X s (Errno e) s5"
      using appended_quiet [OF quiet_refl] fails_after [OF appended_adds [OF wf]] fails_quiet [OF adds_wf [OF appended_adds [OF wf]]] by blast
  next
    fix s4 s5 e s6
    assume a: "appended s (Block b) s4" and q5: "quiet s4 s5" and "quiet s5 s6" "\<not> clean s5"
    moreover note a5 = appended_quiet [OF quiet_refl a q5]
    ultimately show "fails X s (Errno e) s6"
      using fails_after [OF appended_adds [OF wf a5]] fails_quiet [OF adds_wf [OF appended_adds [OF wf a5]]] by blast
  qed
next
  fix e s3
  assume "quiet s2 s3" "\<not> clean s2"
  then show "fails X s (Errno e) s3" using fails_quiet [OF wf] quiet_trans [OF q] quiet_clean [OF q] by blast
qed

lemma create_ptr_spec:
  assumes wf: "pages_wf s" and u: "used s (Ind L ds)" and x: "valid (Ind L (d # ds))" "\<not> is_block (Ind L (d # ds))"
    and q: "q = slot_pos s (Ind L ds)"
  shows "wp s (create_ptr d (ptrs s q) q)
    (\<lambda>p s'. adds {y. \<not> is_block y} s s' \<and> p \<noteq> 0 \<and> slot_pos s' (Ind L (d # ds)) = p \<and> (slot_pos s (Ind L (d # ds)) \<noteq> 0 \<longrightarrow> quiet s s'))
    (fails {y. \<not> is_block y} s)"
proof (cases "slot_pos s (Ind L (d # ds)) = 0")
  case False
  then have "ptrs s q ! d = slot_pos s (Ind L (d # ds))" using q by (auto simp: slot_pos_Cons split: if_splits)
  then show ?thesis using False adds_quiet [OF wf quiet_refl] by (simp add: create_ptr_def)
next
  case True
  then have nz: "\<not> ptrs s q ! d \<noteq> 0" using q u by (auto simp: used_def slot_pos_Cons)
  have c: "fits (Ind L (d # ds)) (Ptr empty_ptr_page)" using x(2) by (simp add: fits_def empty_ptr_page_def)
  show ?thesis unfolding create_ptr_def if_not_P [OF nz]
  proof (intro wp_space_end [OF wf] wp_bind wp_append_page [OF wf])
    fix s2 s3
    assume e: "fp_end s2 = fp_end s" and a: "appended s (Ptr empty_ptr_page) s3"
    show "wp s3 (MWRITE (Ptr ((ptrs s q)[d := fp_end s2])) q) (\<lambda>_ s'. wp s' (returnE (fp_end s2))
       (\<lambda>p s'. adds {y. \<not> is_block y} s s' \<and> p \<noteq> 0 \<and> slot_pos s' (Ind L (d # ds)) = p \<and> (slot_pos s (Ind L (d # ds)) \<noteq> 0 \<longrightarrow> quiet s s'))
       (fails {y. \<not> is_block y} s)) (fails {y. \<not> is_block y} s)"
      by (rule wp_mono [OF wp_link [OF wf u x(1) True q a c _ e, of "{y. \<not> is_block y}"]]) (use x(2) True in auto)
  qed
qed

lemma create_block_spec:
  assumes wf: "pages_wf s" and u: "used s (Ind L ds)" and x: "valid (Ind L (d # ds))" "is_block (Ind L (d # ds))"
    and q: "q = slot_pos s (Ind L ds)"
  shows "wp s (create_block d (ptrs s q) q)
    (\<lambda>p s'. adds {Ind L (d # ds)} s s' \<and> p \<noteq> 0 \<and> slot_pos s' (Ind L (d # ds)) = p \<and>
      (if slot_pos s (Ind L (d # ds)) = 0 then contents s' p = Block zero_block_page else quiet s s'))
    (fails {Ind L (d # ds)} s)"
proof (cases "slot_pos s (Ind L (d # ds)) = 0")
  case False
  then have "ptrs s q ! d = slot_pos s (Ind L (d # ds))" using q by (auto simp: slot_pos_Cons split: if_splits)
  then show ?thesis using False adds_quiet [OF wf quiet_refl] by (simp add: create_block_def)
next
  case True
  then have nz: "\<not> ptrs s q ! d \<noteq> 0" using q u by (auto simp: used_def slot_pos_Cons)
  have c: "fits (Ind L (d # ds)) (Block zero_block_page)" using x(2) by (simp add: fits_def)
  show ?thesis unfolding create_block_def if_not_P [OF nz]
  proof (intro wp_space_end [OF wf] wp_bind wp_append_block [OF wf])
    fix s2 s3
    assume e: "fp_end s2 = fp_end s" and a: "appended s (Block zero_block_page) s3"
    show "wp s3 (MWRITE (Ptr ((ptrs s q)[d := fp_end s2])) q) (\<lambda>_ s'. wp s' (returnE (fp_end s2))
       (\<lambda>p s'. adds {Ind L (d # ds)} s s' \<and> p \<noteq> 0 \<and> slot_pos s' (Ind L (d # ds)) = p \<and>
         (if slot_pos s (Ind L (d # ds)) = 0 then contents s' p = Block zero_block_page else quiet s s'))
       (fails {Ind L (d # ds)} s)) (fails {Ind L (d # ds)} s)"
      by (rule wp_mono [OF wp_link [OF wf u x(1) True q a c _ e, of "{Ind L (d # ds)}"]]) (use x(2) True in auto)
  qed
qed

end
