(* ===== verification/File_Pages_Walk.thy ===== *)
theory File_Pages_Walk
  imports File_Pages_Run
begin

text \<open>
  From a page number to its slot, and the runs of \<^verbatim>\<open>_load_indirect\<close>, \<^verbatim>\<open>_create_indirect\<close>, \<^verbatim>\<open>seek_page\<close> and \<^verbatim>\<open>create_page\<close>
  in terms of slots.
\<close>

subsection \<open>Page numbers and slots\<close>

lemma longpow_power: "longpow b n = b ^ n"
  by (induction n) (simp_all add: mult.commute)

text \<open>The digits of an index to the base 1024, the last digit first.\<close>

primrec rdigits :: "nat \<Rightarrow> nat \<Rightarrow> nat list" where
  "rdigits 0 i = []"
| "rdigits (Suc n) i = i mod POINTERS_PER_PAGE # rdigits n (i div POINTERS_PER_PAGE)"

lemma length_rdigits [simp]: "length (rdigits n i) = n"
  by (induction n arbitrary: i) simp_all

lemma rdigits_less: "\<forall>d \<in> set (rdigits n i). d < POINTERS_PER_PAGE"
  by (induction n arbitrary: i) simp_all

lemma rdigits_inj:
  assumes "rdigits n i = rdigits n j" and "i < POINTERS_PER_PAGE ^ n" and "j < POINTERS_PER_PAGE ^ n"
  shows "i = j"
  using assms
proof (induction n arbitrary: i j)
  case (Suc n)
  have "i div POINTERS_PER_PAGE < POINTERS_PER_PAGE ^ n" "j div POINTERS_PER_PAGE < POINTERS_PER_PAGE ^ n"
    using Suc.prems(2,3) by (auto simp: less_mult_imp_div_less mult.commute)
  then have "i div POINTERS_PER_PAGE = j div POINTERS_PER_PAGE" using Suc.IH Suc.prems(1) by simp
  then show ?case using Suc.prems(1) by (metis div_mult_mod_eq list.inject rdigits.simps(2))
qed simp

text \<open>The loops take the first digit off the front.\<close>

lemma rdigits_front:
  assumes "i < POINTERS_PER_PAGE ^ Suc n"
  shows "rdigits (Suc n) i = rdigits n (i mod POINTERS_PER_PAGE ^ n) @ [i div POINTERS_PER_PAGE ^ n]"
  using assms
proof (induction n arbitrary: i)
  case (Suc n)
  have "i div POINTERS_PER_PAGE < POINTERS_PER_PAGE ^ Suc n" using Suc.prems by (simp add: less_mult_imp_div_less mult.commute)
  from Suc.IH [OF this] have "rdigits (Suc (Suc n)) i =
      i mod POINTERS_PER_PAGE # rdigits n (i div POINTERS_PER_PAGE mod POINTERS_PER_PAGE ^ n) @ [i div POINTERS_PER_PAGE div POINTERS_PER_PAGE ^ n]"
    by simp
  moreover have "i mod POINTERS_PER_PAGE ^ Suc n mod POINTERS_PER_PAGE = i mod POINTERS_PER_PAGE"
    by (rule mod_mod_cancel) simp
  moreover have "i mod POINTERS_PER_PAGE ^ Suc n div POINTERS_PER_PAGE = i div POINTERS_PER_PAGE mod POINTERS_PER_PAGE ^ n"
    using mod_mult2_eq [of i POINTERS_PER_PAGE "POINTERS_PER_PAGE ^ n"] by simp
  moreover have "i div POINTERS_PER_PAGE ^ Suc n = i div POINTERS_PER_PAGE div POINTERS_PER_PAGE ^ n"
    using div_mult2_eq [of i POINTERS_PER_PAGE "POINTERS_PER_PAGE ^ n"] by simp
  ultimately show ?case by simp
qed simp

definition slot_of :: "nat \<Rightarrow> slot" where
  "slot_of t = (case check_page_level t of
     Some L \<Rightarrow> if L = 0 then Direct else Ind L (rdigits L (index_in_level t L)) | None \<Rightarrow> Direct)"

lemma check_page_level_cases:
  assumes "check_page_level t = Some L"
  obtains "t = 0" "L = 0"
  | "L = 1" "index_in_level t L = t - 1" "1 \<le> t" "t \<le> 1024"
  | "L = 2" "index_in_level t L = t - 1025" "1025 \<le> t" "t \<le> 1049600"
  | "L = 3" "index_in_level t L = t - 1049601" "1049601 \<le> t" "t \<le> 1074791424"
  | "L = 4" "index_in_level t L = t - 1074791425" "1074791425 \<le> t" "t \<le> 1100586419200"
  using assms by (auto simp: check_page_level_def index_in_level_def longpow_power Let_def upt_rec split: if_splits)

lemma check_page_level_index:
  assumes "check_page_level t = Some L" and "L \<noteq> 0"
  shows "index_in_level t L < POINTERS_PER_PAGE ^ L" "1 \<le> L" "L \<le> 4"
  using assms(2) by (cases rule: check_page_level_cases [OF assms(1)]; simp)+

lemma slot_of_inj:
  assumes "check_page_level t = Some L" and "check_page_level u = Some M" and "slot_of t = slot_of u"
  shows "t = u"
proof -
  have "L = M" using assms by (auto simp: slot_of_def split: if_splits)
  moreover have "index_in_level t L = index_in_level u L" if "L \<noteq> 0"
    using assms that rdigits_inj check_page_level_index(1) \<open>L = M\<close> by (auto simp: slot_of_def)
  ultimately show ?thesis
    by (cases rule: check_page_level_cases [OF assms(1)]; cases rule: check_page_level_cases [OF assms(2)]) auto
qed

lemma slot_of_valid:
  assumes "check_page_level t = Some L"
  shows "valid (slot_of t)" "is_block (slot_of t)"
proof -
  show "valid (slot_of t)"
    using assms check_page_level_index(2,3) [OF assms] rdigits_less by (cases "L = 0") (auto simp: slot_of_def)
  show "is_block (slot_of t)" using assms by (auto simp: slot_of_def)
qed

subsection \<open>Creating\<close>

text \<open>What the creation of the block page at the slot \<open>x\<close> does when it succeeds.\<close>

definition created :: "slot \<Rightarrow> fp_state \<Rightarrow> nat \<Rightarrow> fp_state \<Rightarrow> bool" where
  "created x s p s' \<longleftrightarrow> adds {y. y = x \<or> \<not> is_block y} s s' \<and> p \<noteq> 0 \<and> slot_pos s' x = p \<and>
     (if slot_pos s x = 0 then contents s' p = Block zero_block_page else quiet s s')"

lemma created_after:
  assumes "is_block x" and "valid x" and "adds {y. \<not> is_block y} s s1" and "slot_pos s x \<noteq> 0 \<Longrightarrow> quiet s s1" and "created x s1 p s'"
  shows "created x s p s'"
proof -
  have "slot_pos s1 x = slot_pos s x" using adds_other [OF assms(3,2)] assms(1) by simp
  moreover have "adds {y. y = x \<or> \<not> is_block y} s s1" by (rule adds_mono [OF assms(3)]) auto
  ultimately show ?thesis using assms(4,5) adds_trans quiet_trans by (auto simp: created_def)
qed

lemma fails_in_walk:
  assumes "adds {y. \<not> is_block y} s s1" and "fails {y. y = x \<or> \<not> is_block y} s1 e s'"
  shows "fails {y. y = x \<or> \<not> is_block y} s e s'"
  by (rule fails_after [OF adds_mono [OF assms(1)] assms(2)]) auto

lemma used_above: "used s (Ind L (es @ ds)) \<Longrightarrow> used s (Ind L ds)"
  by (induction es) (auto dest: used_parent)

lemma wp_read_inner:
  assumes "pages_wf s" and "used s (Ind L ds)" and "length ds < L" and "q = slot_pos s (Ind L ds)"
    and "\<And>s1. quiet s s1 \<Longrightarrow> pages_wf s1 \<Longrightarrow> used s1 (Ind L ds) \<Longrightarrow> q = slot_pos s1 (Ind L ds) \<Longrightarrow> wp s1 (k (ptrs s1 q)) Q (fails X s)"
  shows "wp s (bindE (read_ptr_page q) k) Q (fails X s)"
proof (intro wp_bind wp_read_ptr_page)
  show "contents s q = Ptr (ptrs s q)" using inner_ptrs(1) [OF assms(1-3)] assms(4) by simp
  fix s1
  assume qt: "quiet s s1"
  note qs = quiet_slots [OF qt]
  have "used s1 (Ind L ds)" using assms(2) qs by (simp add: used_def)
  then show "wp s1 (k (ptrs s q)) Q (fails X s)"
    using assms(5) [OF qt same_space_wf [OF assms(1) quiet_space [OF qt]]] qs assms(4) by simp
qed (use fails_quiet [OF assms(1)] in blast)

lemma valid_rdigits: "valid (Ind L ds) \<Longrightarrow> length ds + n \<le> L \<Longrightarrow> valid (Ind L (rdigits n i @ ds))"
  using rdigits_less [of n i] by auto

lemma create_walk_spec:
  assumes "pages_wf s" and "used s (Ind L ds)" and "length ds + Suc n = L" and "idx < POINTERS_PER_PAGE ^ Suc n"
    and "q = slot_pos s (Ind L ds)" and "x = Ind L (rdigits (Suc n) idx @ ds)"
  shows "wp s (create_walk n idx q) (created x s) (fails {y. y = x \<or> \<not> is_block y} s)"
  using assms
proof (induction n arbitrary: s idx q ds)
  case 0
  have x: "x = Ind L (idx # ds)" "valid x" "is_block x" using 0 by (auto simp: used_def)
  show ?case unfolding create_walk.simps
  proof (rule wp_read_inner [OF 0(1,2) _ 0(5)])
    fix s1
    assume qt: "quiet s s1" and s1: "pages_wf s1" "used s1 (Ind L ds)" "q = slot_pos s1 (Ind L ds)"
    have a: "adds {y. \<not> is_block y} s s1" using adds_quiet [OF 0(1) qt] .
    show "wp s1 (create_block idx (ptrs s1 q) q) (created x s) (fails {y. y = x \<or> \<not> is_block y} s)"
    proof (rule wp_mono [OF create_block_spec [OF s1(1,2) x(2,3) [unfolded x(1)] s1(3)]], goal_cases)
      case (1 p s')
      then have "adds {y. y = x \<or> \<not> is_block y} s1 s'" unfolding x(1) [symmetric] by (blast intro: adds_mono)
      with 1 have "created x s1 p s'" unfolding created_def x(1) [symmetric] by blast
      then show ?case by (rule created_after [OF x(3,2) a qt])
    next
      case (2 e s')
      then show ?case unfolding x(1) [symmetric] by (blast intro: fails_in_walk [OF a fails_mono])
    qed
  qed (use 0(3) in simp)
next
  case (Suc n)
  let ?d = "idx div POINTERS_PER_PAGE ^ Suc n" and ?i = "idx mod POINTERS_PER_PAGE ^ Suc n"
  have d: "?d < POINTERS_PER_PAGE" "?i < POINTERS_PER_PAGE ^ Suc n" using Suc.prems(4) by (simp_all add: less_mult_imp_div_less mult.commute)
  have x: "x = Ind L (rdigits (Suc n) ?i @ ?d # ds)" using rdigits_front [OF Suc.prems(4)] Suc.prems(6) by simp
  have vd: "valid (Ind L ds)" using Suc.prems(2) by (simp add: used_def)
  then have v: "valid x" "is_block x" "valid (Ind L (?d # ds))" "\<not> is_block (Ind L (?d # ds))"
    using Suc.prems(3) d(1) valid_rdigits [OF vd, of "Suc (Suc n)" idx] unfolding Suc.prems(6) by (simp_all del: rdigits.simps)
  show ?case unfolding create_walk.simps longpow_power
  proof (rule wp_read_inner [OF Suc.prems(1,2) _ Suc.prems(5)])
    fix s1
    assume qt: "quiet s s1" and s1: "pages_wf s1" "used s1 (Ind L ds)" "q = slot_pos s1 (Ind L ds)"
    have a: "adds {y. \<not> is_block y} s s1" using adds_quiet [OF Suc.prems(1) qt] .
    show "wp s1 (bindE (create_ptr ?d (ptrs s1 q) q) (create_walk n ?i)) (created x s) (fails {y. y = x \<or> \<not> is_block y} s)"
    proof (rule wp_bind, rule wp_mono [OF create_ptr_spec [OF s1(1,2) v(3,4) s1(3)]], goal_cases)
      case (1 p s2)
      then have b: "adds {y. \<not> is_block y} s s2" using adds_trans [OF a] by simp
      have u: "used s2 (Ind L (?d # ds))" using 1 v(3) by (simp add: used_def)
      have qx: "quiet s s2" if "slot_pos s x \<noteq> 0"
      proof -
        have "used s x" using that v(1) by (simp add: used_def)
        then have "used s (Ind L (?d # ds))" unfolding x by (rule used_above)
        then show ?thesis using 1 quiet_trans [OF qt] quiet_slots(1) [OF qt] by (simp add: used_def)
      qed
      have "wp s2 (create_walk n ?i p) (created x s2) (fails {y. y = x \<or> \<not> is_block y} s2)"
        using 1 Suc.prems(3) d(2) x by (intro Suc.IH [OF adds_wf [OF b] u]) auto
      then show ?case by (rule wp_mono) (use created_after [OF v(2,1) b qx] fails_in_walk [OF b] in blast)+
    next
      case (2 e s')
      then show ?case by (blast intro: fails_in_walk [OF a fails_mono])
    qed
  qed (use Suc.prems(3) in simp)
qed

lemma wp_link_root:
  assumes wf: "pages_wf s" and x: "valid (Ind L [])" "slot_pos s (Ind L []) = 0" and a: "appended s (Ptr empty_ptr_page) s3" and p: "p = fp_end s"
  shows "wp s3 (meta_cache_update_file_data (Some (set_root_ptr (file_meta s) L p)) None)
    (\<lambda>_ s'. adds {y. \<not> is_block y} s s' \<and> slot_pos s' (Ind L []) = p \<and> p \<noteq> 0) (fails {y. \<not> is_block y} s)"
proof -
  let ?s4 = "s3\<lparr>file_meta := set_root_ptr (file_meta s) L p\<rparr>"
  have ss: "same_space s s3" and sl: "fp_locked s3 = fp_locked s" "clean s \<longrightarrow> clean s3" using a by (simp_all add: appended_def)
  note wf3 = same_space_wf [OF wf ss]
  have x3: "slot_pos s3 (Ind L []) = 0" using same_space_slots [OF wf ss x(1)] x(2) by simp
  have ib: "\<not> is_block (Ind L [])" using x(1) by auto
  have fr: "fresh s3 (Ind L []) p" unfolding p by (rule fresh_appended [OF wf a]) (use ib in \<open>simp_all add: fits_def empty_ptr_page_def\<close>)
  have m: "file_meta ?s4 = set_root_ptr (file_meta s3) L p" using ss by (simp add: same_space_def)
  note lk = link_root [OF wf3 x(1) x3 fr _ m]
  have wf4: "pages_wf ?s4" by (rule lk(1)) simp_all
  have "adds {y. \<not> is_block y} s3 ?s4"
    by (rule adds_link [OF wf3 wf4 x3 _ lk(2)]) (use ib in \<open>simp_all add: clean_def\<close>)
  then have ad: "adds {y. \<not> is_block y} s ?s4" using adds_trans [OF appended_adds [OF wf a]] by blast
  have pos: "slot_pos ?s4 (Ind L []) = p" "p \<noteq> 0" using lk(2) [OF _ _ x(1)] wf by (auto simp: p pages_wf_def)
  show ?thesis unfolding meta_cache_update_file_data_def option.case
  proof (intro wp_bind wp_modify [THEN iffD2] wp_return [THEN iffD2] wp_call)
    fix s'
    assume q: "quiet ?s4 s'"
    show "adds {y. \<not> is_block y} s s' \<and> slot_pos s' (Ind L []) = p \<and> p \<noteq> 0"
      using adds_trans [OF ad adds_quiet [OF wf4 q]] quiet_slots(1) [OF q] pos by simp
  next
    fix e s'
    assume "quiet ?s4 s'" "\<not> clean ?s4"
    then show "fails {y. \<not> is_block y} s (Errno e) s'" by (intro fails_after [OF ad] fails_quiet [OF wf4])
  qed
qed

lemma create_root_spec:
  assumes wf: "pages_wf s" and x: "valid (Ind L [])"
  shows "wp s (create_root L (file_meta s))
    (\<lambda>p s'. adds {y. \<not> is_block y} s s' \<and> p \<noteq> 0 \<and> slot_pos s' (Ind L []) = p \<and> (slot_pos s (Ind L []) \<noteq> 0 \<longrightarrow> quiet s s'))
    (fails {y. \<not> is_block y} s)"
proof (cases "slot_pos s (Ind L []) = 0")
  case False
  then show ?thesis using adds_quiet [OF wf quiet_refl] by (simp add: create_root_def slot_pos.simps)
next
  case True
  then have nz: "\<not> root_ptr (file_meta s) L \<noteq> 0" by (simp add: slot_pos.simps)
  show ?thesis unfolding create_root_def if_not_P [OF nz]
  proof (intro wp_space_end [OF wf] wp_bind wp_append_page [OF wf])
    fix s2 s3
    assume e: "fp_end s2 = fp_end s" and a: "appended s (Ptr empty_ptr_page) s3"
    show "wp s3 (meta_cache_update_file_data (Some (set_root_ptr (file_meta s) L (fp_end s2))) None) (\<lambda>_ s'. wp s' (returnE (fp_end s2))
       (\<lambda>p s'. adds {y. \<not> is_block y} s s' \<and> p \<noteq> 0 \<and> slot_pos s' (Ind L []) = p \<and> (slot_pos s (Ind L []) \<noteq> 0 \<longrightarrow> quiet s s'))
       (fails {y. \<not> is_block y} s)) (fails {y. \<not> is_block y} s)"
      by (rule wp_mono [OF wp_link_root [OF wf x True a e]]) (use True in auto)
  qed
qed

lemma create_indirect_spec:
  assumes wf: "pages_wf s" and t: "check_page_level t = Some L" "L \<noteq> 0"
  shows "wp s (create_indirect t (file_meta s) L) (created (slot_of t) s) (fails {y. y = slot_of t \<or> \<not> is_block y} s)"
proof -
  note ix = check_page_level_index [OF t]
  have L: "length ([]::nat list) + Suc (L - 1) = L" "Suc (L - 1) = L" using t(2) by simp_all
  have x: "slot_of t = Ind L (rdigits (Suc (L - 1)) (index_in_level t L) @ [])" using t L(2) by (simp add: slot_of_def)
  note v = slot_of_valid [OF t(1)]
  have vr: "valid (Ind L [])" using ix by simp
  show ?thesis unfolding create_indirect_def
  proof (rule wp_bind, rule wp_mono [OF create_root_spec [OF wf vr]], goal_cases)
    case (1 p s1)
    then have b: "adds {y. \<not> is_block y} s s1" and u: "used s1 (Ind L [])" using vr by (auto simp: used_def)
    have qx: "quiet s s1" if "slot_pos s (slot_of t) \<noteq> 0"
    proof -
      have "used s (slot_of t)" using that v(1) by (simp add: used_def)
      then have "used s (Ind L [])" unfolding x by (rule used_above)
      then show ?thesis using 1 by (simp add: used_def)
    qed
    have "wp s1 (create_walk (L - 1) (index_in_level t L) p) (created (slot_of t) s1) (fails {y. y = slot_of t \<or> \<not> is_block y} s1)"
      by (rule create_walk_spec [OF adds_wf [OF b] u L(1) _ _ x]) (use 1 ix(1) L(2) in auto)
    then show ?case by (rule wp_mono) (use created_after [OF v(2,1) b qx] fails_in_walk [OF b] in blast)+
  next
    case (2 e s')
    then show ?case by (blast intro: fails_mono)
  qed
qed

lemma fails_call: "pages_wf s \<Longrightarrow> quiet s s1 \<Longrightarrow> fails X s1 e s' \<Longrightarrow> fails X s e s'"
  by (rule fails_after [OF adds_quiet])

lemma created_call:
  assumes "pages_wf s" and "quiet s s1" and "is_block x" and "valid x" and "created x s1 p s'"
  shows "created x s p s'"
  by (rule created_after [OF assms(3,4) adds_quiet [OF assms(1,2)] assms(2,5)])

lemma create_page_indirect_spec:
  assumes wf: "pages_wf s" and l: "fp_locked s" and t: "0 < t" "check_page_level (nat t) = Some L"
  shows "wp s (create_page t) (created (slot_of (nat t)) s) (fails {y. y = slot_of (nat t) \<or> \<not> is_block y} s)"
proof -
  have L: "L \<noteq> 0" using t by (auto simp: check_page_level_def Let_def split: if_splits)
  note v = slot_of_valid [OF t(2)]
  have "wp s (bindE fp_call (\<lambda>_ s. (bindE fp_call (\<lambda>_. create_indirect (nat t) (file_meta s) L)) s))
      (created (slot_of (nat t)) s) (fails {y. y = slot_of (nat t) \<or> \<not> is_block y} s)"
  proof (rule wp_bind, rule wp_call)
    fix s1
    assume q1: "quiet s s1"
    have "wp s1 (bindE fp_call (\<lambda>_. create_indirect (nat t) (file_meta s1) L))
        (created (slot_of (nat t)) s) (fails {y. y = slot_of (nat t) \<or> \<not> is_block y} s)"
    proof (intro wp_bind wp_call)
      fix s2
      assume q2: "quiet s1 s2"
      note q = quiet_trans [OF q1 q2]
      have "file_meta s1 = file_meta s2" using q2 by (simp add: quiet_def)
      then show "wp s2 (create_indirect (nat t) (file_meta s1) L)
          (created (slot_of (nat t)) s) (fails {y. y = slot_of (nat t) \<or> \<not> is_block y} s)"
        using wp_mono [OF create_indirect_spec [OF same_space_wf [OF wf quiet_space [OF q]] t(2) L]
            created_call [OF wf q v(2,1)] fails_call [OF wf q]] by simp
    qed (use fails_quiet [OF wf] quiet_trans [OF q1] quiet_clean [OF q1] in blast)
    then show "wp s1 (\<lambda>s. bindE fp_call (\<lambda>_. create_indirect (nat t) (file_meta s) L) s)
        (created (slot_of (nat t)) s) (fails {y. y = slot_of (nat t) \<or> \<not> is_block y} s)"
      by (simp add: wp_def)
  qed (use fails_quiet [OF wf] in blast)
  then show ?thesis using l t L by (simp add: wp_def create_page_def Let_def)
qed

text \<open>The direct page, when no call fails.\<close>

lemma clean_call [simp]: "clean s \<Longrightarrow> fp_call s = (Inr (), s)"
  by (simp add: clean_def fp_call_def)

lemma create_page_direct_spec:
  assumes wf: "pages_wf s" and l: "fp_locked s" and c: "clean s"
  obtains p s' where "create_page 0 s = (Inr p, s')" and "created Direct s p s'"
proof (cases "direct (file_meta s) = 0")
  case False
  then have "create_page 0 s = (Inr (direct (file_meta s)), s)" using l c by (simp add: create_page_def Let_def check_page_level_def create_direct_def)
  moreover have "created Direct s (direct (file_meta s)) s" using False adds_quiet [OF wf quiet_refl] by (simp add: created_def)
  ultimately show thesis by (rule that)
next
  case True
  let ?p = "fp_end s" and ?c = "Block zero_block_page"
  let ?s1 = "s\<lparr>contents := (contents s)(?p := ?c), fp_end := ?p + 7804\<rparr>"
  let ?s2 = "?s1\<lparr>file_meta := (file_meta s)\<lparr>direct := ?p\<rparr>\<rparr>"
  have "fp_os s = []" "meta_space s = []" using c by (simp_all add: clean_def)
  then have "create_page 0 s = (Inr ?p, ?s2)" using l c True
    by (simp add: create_page_def Let_def check_page_level_def create_direct_def seek_end_def bindE_def meta_cache_update_file_data_def
        MWRITE_def extend_def fp_call_def max_def)
  moreover have "created Direct s ?p ?s2"
  proof -
    have a: "appended s ?c ?s1" using c by (simp add: appended_def same_space_def clean_def)
    note wf1 = same_space_wf [OF wf, of ?s1]
    have fr: "fresh ?s1 Direct ?p" by (rule fresh_appended [OF wf a]) (simp_all add: fits_def)
    have ss: "same_space s ?s1" using a by (simp add: appended_def)
    have d: "direct (file_meta ?s1) = 0" using True by simp
    have wf2: "pages_wf ?s2" by (rule link_direct(1) [OF wf1 [OF ss] d fr]) simp_all
    have "adds {y. y = Direct \<or> \<not> is_block y} ?s1 ?s2"
      by (rule adds_link [OF wf1 [OF ss] wf2 _ _ link_direct(2) [OF wf1 [OF ss] d fr]]) (use d in \<open>simp_all add: clean_def\<close>)
    then have "adds {y. y = Direct \<or> \<not> is_block y} s ?s2" using adds_trans [OF appended_adds [OF wf a]] by blast
    then show ?thesis using True wf by (auto simp: created_def pages_wf_def)
  qed
  ultimately show thesis by (rule that)
qed

subsection \<open>Looking up\<close>

lemma load_walk_spec:
  assumes "pages_wf s" and "used s (Ind L ds)" and "length ds + Suc n = L" and "idx < POINTERS_PER_PAGE ^ Suc n"
    and "q = slot_pos s (Ind L ds)" and "x = Ind L (rdigits (Suc n) idx @ ds)"
  shows "wp s (load_walk n idx q) (\<lambda>p s'. p = slot_pos s x \<and> quiet s s') (fails {} s)"
  using assms
proof (induction n arbitrary: s idx q ds)
  case 0
  then have x: "x = Ind L (idx # ds)" by simp
  show ?case unfolding load_walk.simps
  proof (rule wp_read_inner [OF 0(1,2) _ 0(5)])
    fix s1
    assume qt: "quiet s s1" and s1: "used s1 (Ind L ds)" "q = slot_pos s1 (Ind L ds)"
    then have "ptrs s1 q ! idx = slot_pos s x" using quiet_slots [OF qt] 0(2,5) unfolding x slot_pos_Cons by (simp add: used_def)
    then show "wp s1 (returnE (ptrs s1 q ! idx)) (\<lambda>p s'. p = slot_pos s x \<and> quiet s s') (fails {} s)" using qt by simp
  qed (use 0(3) in simp)
next
  case (Suc n)
  let ?d = "idx div POINTERS_PER_PAGE ^ Suc n" and ?i = "idx mod POINTERS_PER_PAGE ^ Suc n"
  have d: "?d < POINTERS_PER_PAGE" "?i < POINTERS_PER_PAGE ^ Suc n" using Suc.prems(4) by (simp_all add: less_mult_imp_div_less mult.commute)
  have x: "x = Ind L (rdigits (Suc n) ?i @ ?d # ds)" using rdigits_front [OF Suc.prems(4)] Suc.prems(6) by simp
  have vd: "valid (Ind L ds)" using Suc.prems(2) by (simp add: used_def)
  then have v: "valid (Ind L (?d # ds))" "valid x"
    using Suc.prems(3) d(1) valid_rdigits [OF vd, of "Suc (Suc n)" idx] unfolding Suc.prems(6) by (simp_all del: rdigits.simps)
  show ?case unfolding load_walk.simps longpow_power Let_def
  proof (rule wp_read_inner [OF Suc.prems(1,2) _ Suc.prems(5)])
    fix s1
    assume qt: "quiet s s1" and s1: "pages_wf s1" "used s1 (Ind L ds)" "q = slot_pos s1 (Ind L ds)"
    note qs = quiet_slots [OF qt]
    have r: "ptrs s1 q ! ?d = slot_pos s1 (Ind L (?d # ds))" using s1(2,3) by (simp add: slot_pos_Cons used_def)
    show "wp s1 (if ptrs s1 q ! ?d = 0 then returnE 0 else load_walk n ?i (ptrs s1 q ! ?d)) (\<lambda>p s'. p = slot_pos s x \<and> quiet s s') (fails {} s)"
    proof (cases "ptrs s1 q ! ?d = 0")
      case True
      then have "\<not> used s (Ind L (?d # ds))" using r qs(1) by (simp add: used_def)
      then have "slot_pos s x = 0" using used_above v(2) unfolding x used_def by blast
      then show ?thesis using True qt by simp
    next
      case False
      then have u: "used s1 (Ind L (?d # ds))" using r v(1) by (simp add: used_def)
      have "wp s1 (load_walk n ?i (ptrs s1 q ! ?d)) (\<lambda>p s'. p = slot_pos s1 x \<and> quiet s1 s') (fails {} s1)"
        using Suc.prems(3) d(2) x r by (intro Suc.IH [OF s1(1) u]) auto
      then have "wp s1 (load_walk n ?i (ptrs s1 q ! ?d)) (\<lambda>p s'. p = slot_pos s x \<and> quiet s s') (fails {} s)"
        by (rule wp_mono) (use qs(1) quiet_trans [OF qt] fails_call [OF Suc.prems(1) qt] in auto)
      then show ?thesis using False by simp
    qed
  qed (use Suc.prems(3) in simp)
qed

lemma load_indirect_spec:
  assumes wf: "pages_wf s" and t: "check_page_level t = Some L" "L \<noteq> 0" and r: "root_ptr (file_meta s) L \<noteq> 0"
  shows "wp s (load_indirect t (file_meta s) L) (\<lambda>p s'. p = slot_pos s (slot_of t) \<and> quiet s s') (fails {} s)"
proof -
  have L: "length ([]::nat list) + Suc (L - 1) = L" "Suc (L - 1) = L" using t(2) by simp_all
  have x: "slot_of t = Ind L (rdigits (Suc (L - 1)) (index_in_level t L) @ [])" using t L(2) by (simp add: slot_of_def)
  have u: "used s (Ind L [])" using r check_page_level_index(2,3) [OF t] by (simp add: used_def slot_pos.simps)
  show ?thesis unfolding load_indirect_def
    by (rule load_walk_spec [OF wf u L(1) _ _ x]) (use check_page_level_index(1) [OF t] L(2) in \<open>simp_all add: slot_pos.simps\<close>)
qed

lemma clean_run:
  assumes "wp s m (\<lambda>p s'. p = x \<and> quiet s s') (fails {} s)" and "clean s"
  shows "m s = (Inr x, s)"
  using assms by (auto simp: wp_def fails_def quiet_def split: prod.splits sum.splits)

lemma no_root:
  assumes "check_page_level t = Some L" and "L \<noteq> 0" and "root_ptr (file_meta s) L = 0"
  shows "slot_pos s (slot_of t) = 0"
proof -
  have "walk P 0 ds = 0" for P and ds :: "nat list" by (induction ds) simp_all
  then show ?thesis using assms by (simp add: slot_of_def slot_pos.simps)
qed

lemma seek_page_spec:
  assumes wf: "pages_wf s" and l: "fp_locked s" and c: "clean s" and t: "0 \<le> t" "check_page_level (nat t) = Some L"
  shows "seek_page t s = (Inr (slot_pos s (slot_of (nat t))), s)"
proof (cases "L = 0")
  case True
  then show ?thesis using l c t by (simp add: seek_page_def Let_def slot_of_def)
next
  case False
  then show ?thesis using l c t no_root [OF t(2) False] clean_run [OF load_indirect_spec [OF wf t(2) False] c]
    by (simp add: seek_page_def Let_def)
qed

lemma seek_page2_spec:
  assumes wf: "pages_wf s" and c: "clean s" and t: "0 \<le> t" "check_page_level (nat t) = Some L"
  shows "seek_page2 (file_meta s) t s = (Inr (slot_pos s (slot_of (nat t))), s)"
proof (cases "L = 0")
  case True
  then show ?thesis using t by (simp add: seek_page2_def slot_of_def)
next
  case False
  then show ?thesis using t no_root [OF t(2) False] clean_run [OF load_indirect_spec [OF wf t(2) False] c]
    by (simp add: seek_page2_def)
qed

lemma created_found:
  assumes "created x s p s'" and "clean s"
  shows "pages_wf s'" "clean s'" "fp_locked s' = fp_locked s" "slot_pos s x \<noteq> 0 \<Longrightarrow> s' = s"
  using assms by (auto simp: created_def adds_def quiet_def split: if_splits)

lemma create_page_spec:
  assumes wf: "pages_wf s" and l: "fp_locked s" and c: "clean s" and t: "0 \<le> t" "check_page_level (nat t) = Some L"
  obtains p s' where "create_page t s = (Inr p, s')" and "created (slot_of (nat t)) s p s'"
proof (cases "t = 0")
  case True
  then show thesis using that create_page_direct_spec [OF wf l c] by (auto simp: slot_of_def check_page_level_def)
next
  case False
  have w: "wp s (create_page t) (created (slot_of (nat t)) s) (fails {y. y = slot_of (nat t) \<or> \<not> is_block y} s)"
    by (rule create_page_indirect_spec [OF wf l _ t(2)]) (use t(1) False in simp)
  have "\<not> fails X s e s'" for X e s' using c by (simp add: fails_def)
  then show thesis using w that unfolding wp_def by (auto split: prod.splits sum.splits)
qed

end
