(* ===== verification/File_Pages_Props.thy ===== *)
theory File_Pages_Props
  imports File_Pages_Walk
begin

text \<open>
  What the block entry pages of a file promise to the code above them: a table from page numbers to positions, stated as the
  locale \<open>page_table\<close> and interpreted on \<^verbatim>\<open>seek_page\<close> and \<^verbatim>\<open>create_page\<close>, and what is left when a creation fails.
\<close>

subsection \<open>A table of pages\<close>

locale page_table =
  fixes ok :: "'s \<Rightarrow> bool" and key :: "'k \<Rightarrow> bool" and find :: "'k \<Rightarrow> 's \<Rightarrow> nat" and make :: "'k \<Rightarrow> 's \<Rightarrow> 's"
  assumes make_ok: "ok s \<Longrightarrow> key k \<Longrightarrow> ok (make k s)"
    and make_find: "ok s \<Longrightarrow> key k \<Longrightarrow> find k (make k s) \<noteq> 0"
    and make_other: "ok s \<Longrightarrow> key k \<Longrightarrow> key j \<Longrightarrow> j \<noteq> k \<Longrightarrow> find j (make k s) = find j s"
    and make_same: "ok s \<Longrightarrow> key k \<Longrightarrow> find k s \<noteq> 0 \<Longrightarrow> make k s = s"
    and find_inj: "ok s \<Longrightarrow> key k \<Longrightarrow> key j \<Longrightarrow> find k s = find j s \<Longrightarrow> find k s \<noteq> 0 \<Longrightarrow> k = j"
begin

lemma makes_ok: "ok s \<Longrightarrow> \<forall>k \<in> set ks. key k \<Longrightarrow> ok (fold make ks s)"
  by (induction ks arbitrary: s) (simp_all add: make_ok)

lemma makes_keep: "ok s \<Longrightarrow> \<forall>k \<in> set ks. key k \<Longrightarrow> key j \<Longrightarrow> find j s \<noteq> 0 \<Longrightarrow> find j (fold make ks s) = find j s"
proof (induction ks arbitrary: s)
  case (Cons k ks)
  have "find j (make k s) = find j s" using Cons.prems make_other make_same by (cases "j = k") auto
  then show ?case using Cons make_ok by simp
qed simp

lemma makes_find: "ok s \<Longrightarrow> \<forall>k \<in> set ks. key k \<Longrightarrow> key j \<Longrightarrow> find j (fold make ks s) \<noteq> 0 \<longleftrightarrow> j \<in> set ks \<or> find j s \<noteq> 0"
proof (induction ks arbitrary: s)
  case (Cons k ks)
  then have "find j (fold make (k # ks) s) \<noteq> 0 \<longleftrightarrow> j \<in> set ks \<or> find j (make k s) \<noteq> 0" using make_ok by simp
  also have "\<dots> \<longleftrightarrow> j \<in> set (k # ks) \<or> find j s \<noteq> 0" using Cons.prems make_find make_other by (cases "j = k") auto
  finally show ?case .
qed simp

lemma makes_inj:
  assumes "ok s" and "\<forall>k \<in> set ks. key k"
  shows "inj_on (\<lambda>k. find k (fold make ks s)) (set ks)"
  using makes_ok [OF assms] makes_find [OF assms] find_inj assms(2) by (auto intro!: inj_onI)

end

text \<open>The numbers of the pages a file can have, and where a page is, with no call failing.\<close>

definition page_number :: "int \<Rightarrow> bool" where
  "page_number t \<longleftrightarrow> 0 \<le> t \<and> check_page_level (nat t) \<noteq> None"

definition page_at :: "int \<Rightarrow> fp_state \<Rightarrow> nat" where
  "page_at t s = (case seek_page t (s\<lparr>fp_os := [], meta_space := [], fp_locked := True\<rparr>) of (Inr p, _) \<Rightarrow> p | _ \<Rightarrow> 0)"

definition ready :: "fp_state \<Rightarrow> bool" where
  "ready s \<longleftrightarrow> pages_wf s \<and> fp_locked s \<and> clean s"

lemma slot_pos_forget [simp]: "slot_pos (s\<lparr>fp_os := os, meta_space := sp, fp_locked := l\<rparr>) x = slot_pos s x"
proof -
  have "ptrs (s\<lparr>fp_os := os, meta_space := sp, fp_locked := l\<rparr>) = ptrs s" by (simp add: ptrs_def fun_eq_iff)
  then show ?thesis by (cases x) (simp_all add: slot_pos.simps)
qed

lemma pages_wf_forget [simp]: "pages_wf (s\<lparr>fp_os := os, meta_space := sp, fp_locked := l\<rparr>) = pages_wf s"
  by (simp add: pages_wf_def used_def apart_def)

lemma page_at_slot: "pages_wf s \<Longrightarrow> page_number t \<Longrightarrow> page_at t s = slot_pos s (slot_of (nat t))"
  using seek_page_spec [of "s\<lparr>fp_os := [], meta_space := [], fp_locked := True\<rparr>" t] by (auto simp: page_at_def page_number_def clean_def)

lemma page_at_none: "\<not> page_number t \<Longrightarrow> page_at t s = 0"
  by (auto simp: page_at_def page_number_def seek_page_def fp_call_def Let_def split: option.splits)

lemma page_at_number: "page_at t s \<noteq> 0 \<Longrightarrow> page_number t"
  using page_at_none [of t s] by auto

lemma slot_of_eq: "page_number t \<Longrightarrow> page_number u \<Longrightarrow> slot_of (nat t) = slot_of (nat u) \<longleftrightarrow> t = u"
  using slot_of_inj [of "nat t" _ "nat u"] eq_nat_nat_iff [of t u] by (auto simp: page_number_def)

lemma page_slot: "page_number t \<Longrightarrow> valid (slot_of (nat t)) \<and> is_block (slot_of (nat t))"
  using slot_of_valid by (auto simp: page_number_def)

lemma page_used: "pages_wf s \<Longrightarrow> page_number t \<Longrightarrow> page_at t s \<noteq> 0 \<Longrightarrow> used s (slot_of (nat t))"
  using page_slot by (simp add: used_def page_at_slot)

lemma seek_page_at: "ready s \<Longrightarrow> page_number t \<Longrightarrow> seek_page t s = (Inr (page_at t s), s)"
  using seek_page_spec by (auto simp: ready_def page_at_slot page_number_def)

lemma adds_page_at:
  assumes "adds {y. y = slot_of (nat t) \<or> \<not> is_block y} s s'" and "pages_wf s" and "page_number t" and "u \<noteq> t"
  shows "page_at u s' = page_at u s"
proof (cases "page_number u")
  case True
  then have "slot_of (nat u) \<notin> {y. y = slot_of (nat t) \<or> \<not> is_block y}" using assms slot_of_eq page_slot by auto
  then show ?thesis using page_at_slot [OF adds_wf [OF assms(1)] True] page_at_slot [OF assms(2) True] adds_other [OF assms(1)] page_slot [OF True] by simp
qed (simp add: page_at_none)

lemma adds_page_contents:
  assumes "adds X s s'" and "pages_wf s" and "page_at u s \<noteq> 0"
  shows "contents s' (page_at u s) = contents s (page_at u s)" "page_at u s' = page_at u s"
proof -
  have u: "page_number u" using assms(3) by (rule page_at_number)
  note us = page_used [OF assms(2) u assms(3)]
  show "contents s' (page_at u s) = contents s (page_at u s)"
    using assms(1) us page_slot [OF u] page_at_slot [OF assms(2) u] by (simp add: adds_def)
  show "page_at u s' = page_at u s"
    using adds_used [OF assms(1) us] page_at_slot [OF adds_wf [OF assms(1)] u] page_at_slot [OF assms(2) u] by simp
qed

lemma create_page_at:
  assumes r: "ready s" and t: "page_number t"
  obtains p s' where "create_page t s = (Inr p, s')" and "created (slot_of (nat t)) s p s'" and "ready s'" and "page_at t s' = p"
proof -
  obtain L where L: "0 \<le> t" "check_page_level (nat t) = Some L" using t by (auto simp: page_number_def)
  have wf: "pages_wf s" "fp_locked s" "clean s" using r by (simp_all add: ready_def)
  from create_page_spec [OF wf L] obtain p s' where ps: "create_page t s = (Inr p, s')" "created (slot_of (nat t)) s p s'" .
  have "ready s'" using created_found(1,2,3) [OF ps(2) wf(3)] wf(2) by (simp add: ready_def)
  moreover from this have "page_at t s' = p" using page_at_slot [OF _ t] ps(2) by (simp add: ready_def created_def)
  ultimately show thesis using that ps by blast
qed

lemma page_at_inj: "pages_wf s \<Longrightarrow> page_number t \<Longrightarrow> page_number u \<Longrightarrow> page_at t s = page_at u s \<Longrightarrow> page_at t s \<noteq> 0 \<Longrightarrow> t = u"
  using slots_differ(2) [OF _ page_used page_used] slot_of_eq page_at_slot by metis

interpretation pt: page_table ready page_number page_at "\<lambda>t s. snd (create_page t s)"
proof
  fix s t
  assume r: "ready s" and t: "page_number t"
  obtain p s' where c: "create_page t s = (Inr p, s')" "created (slot_of (nat t)) s p s'" "ready s'" "page_at t s' = p"
    using create_page_at [OF r t] .
  show "ready (snd (create_page t s))" "page_at t (snd (create_page t s)) \<noteq> 0" using c by (simp_all add: created_def)
  show "snd (create_page t s) = s" if "page_at t s \<noteq> 0"
    using created_found(4) [OF c(2)] c(1) that r page_at_slot [OF _ t] by (simp add: ready_def)
  show "page_at u (snd (create_page t s)) = page_at u s" if "u \<noteq> t" for u
    using adds_page_at [of t s s' u] c r t that by (simp add: created_def ready_def)
qed (use page_at_inj in \<open>auto simp: ready_def\<close>)


subsection \<open>The properties\<close>

definition create_pages :: "int list \<Rightarrow> (fp_state, unit) sm" where
  "create_pages ts = fold (\<lambda>t m. bindE m (\<lambda>_. bindE (create_page t) (\<lambda>_. returnE ()))) ts (returnE ())"

lemma create_pages_append: "create_pages (ts @ [t]) = bindE (create_pages ts) (\<lambda>_. bindE (create_page t) (\<lambda>_. returnE ()))"
  by (simp add: create_pages_def)

lemma create_pages_fold:
  assumes "ready s" and "\<forall>t \<in> set ts. page_number t"
  shows "create_pages ts s = (Inr (), fold (\<lambda>t s. snd (create_page t s)) ts s)"
  using assms(2)
proof (induction ts rule: rev_induct)
  case (snoc t ts)
  let ?s1 = "fold (\<lambda>t s. snd (create_page t s)) ts s"
  have "ready ?s1" by (rule pt.makes_ok [OF assms(1)]) (use snoc.prems in simp)
  then obtain p s' where "create_page t ?s1 = (Inr p, s')" using create_page_at snoc.prems by (metis in_set_conv_decomp)
  then show ?case using snoc by (simp add: create_pages_append)
qed (simp add: create_pages_def)

text \<open>The file as it is after its creation: a header and nothing else.\<close>

definition empty_file :: fp_state where
  "empty_file = \<lparr>contents = \<lambda>_. Hole, fp_end = header_end,
     file_meta = \<lparr>next_xattr_page = 0, direct = 0, single_indirect = 0, double_indirect = 0, triple_indirect = 0, quadruple_indirect = 0,
       fm_generation = 1, source_arch = 0, root_inode = 2, finished_seq = 0, local_pin = 0\<rparr>,
     fp_locked = True, meta_space = [], fp_os = []\<rparr>"

lemma empty_file_unused: "\<not> used (empty_file\<lparr>fp_os := os, meta_space := sp\<rparr>) x"
proof (cases x)
  case (Ind L ds)
  have "walk P 0 ds = 0" for P by (induction ds) simp_all
  then show ?thesis using Ind by (simp add: used_def empty_file_def root_ptr_def slot_pos.simps)
qed (simp add: used_def empty_file_def)

lemma empty_file_wf: "pages_wf (empty_file\<lparr>fp_os := os, meta_space := sp\<rparr>)"
  using empty_file_unused by (simp add: pages_wf_def) (simp add: empty_file_def)

lemma empty_file_ready: "ready empty_file"
  using empty_file_wf [of "[]" "[]"] by (simp add: ready_def clean_def empty_file_def)

lemma page_at_empty: "page_at t empty_file = 0"
  using page_at_none [of t] page_at_slot [of empty_file t] page_slot [of t] empty_file_unused [of "[]" "[]" "slot_of (nat t)"] empty_file_ready
  by (cases "page_number t") (auto simp: ready_def used_def empty_file_def)

lemma pages_apart:
  assumes "pages_wf s" and "page_at t s \<noteq> 0" and "page_at u s \<noteq> 0" and "t \<noteq> u"
  shows "page_at t s + 7804 \<le> page_at u s \<or> page_at u s + 7804 \<le> page_at t s"
proof -
  have n: "page_number t" "page_number u" by (fact assms(2,3) [THEN page_at_number])+
  note us = page_used [OF assms(1) n(1) assms(2)] page_used [OF assms(1) n(2) assms(3)]
  have "sizeof (contents s (page_at v s)) = 7804" if "used s (slot_of (nat v))" "page_number v" for v
    using pages_wfD(1) [OF assms(1) that(1)] page_slot [OF that(2)] page_at_slot [OF assms(1) that(2)] by (auto simp: fits_def split: page.splits)
  then show ?thesis using slots_differ(1) [OF assms(1) us] slot_of_eq [OF n] assms(4) us n page_at_slot [OF assms(1)] by (auto simp: apart_def)
qed

text \<open>C23: the pages created in a new file, in any order and with repetitions, are the ones \<^verbatim>\<open>seek_page\<close> finds, each at a place of its
  own in the meta file.\<close>

theorem create_pages_refine_set:
  assumes "\<forall>t \<in> set ts. page_number t"
  shows "\<exists>s'. create_pages ts empty_file = (Inr (), s') \<and>
    (\<forall>t. page_number t \<longrightarrow> (\<exists>p. seek_page t s' = (Inr p, s') \<and> (p \<noteq> 0 \<longleftrightarrow> t \<in> set ts))) \<and>
    (\<forall>t \<in> set ts. \<forall>u \<in> set ts. t \<noteq> u \<longrightarrow> page_at t s' + 7804 \<le> page_at u s' \<or> page_at u s' + 7804 \<le> page_at t s')"
proof -
  let ?s = "fold (\<lambda>t s. snd (create_page t s)) ts empty_file"
  have r: "ready ?s" by (rule pt.makes_ok [OF empty_file_ready assms])
  have f: "page_at t ?s \<noteq> 0 \<longleftrightarrow> t \<in> set ts" if "page_number t" for t
    using pt.makes_find [OF empty_file_ready assms that] by (simp add: page_at_empty)
  show ?thesis
  proof (intro exI [of _ ?s] conjI)
    show "create_pages ts empty_file = (Inr (), ?s)" by (rule create_pages_fold [OF empty_file_ready assms])
    show "\<forall>t. page_number t \<longrightarrow> (\<exists>p. seek_page t ?s = (Inr p, ?s) \<and> (p \<noteq> 0 \<longleftrightarrow> t \<in> set ts))" using seek_page_at [OF r] f by auto
    show "\<forall>t \<in> set ts. \<forall>u \<in> set ts. t \<noteq> u \<longrightarrow> page_at t ?s + 7804 \<le> page_at u ?s \<or> page_at u ?s + 7804 \<le> page_at t ?s"
      using r f assms by (intro ballI impI pages_apart) (auto simp: ready_def)
  qed
qed

theorem create_pages_refine_set_witness:
  "list_all page_number [1025, 0, 7, 1025] \<and> (\<exists>s'. create_pages [1025, 0, 7, 1025] empty_file = (Inr (), s') \<and>
    (\<exists>p. seek_page 1025 s' = (Inr p, s') \<and> p \<noteq> 0))"
proof -
  have n: "\<forall>t \<in> set [1025, 0, 7, 1025]. page_number t" by (simp add: page_number_def check_page_level_def longpow_power)
  then have "page_number 1025" by simp
  moreover obtain s' where "create_pages [1025, 0, 7, 1025] empty_file = (Inr (), s')"
    "\<forall>t. page_number t \<longrightarrow> (\<exists>p. seek_page t s' = (Inr p, s') \<and> (p \<noteq> 0 \<longleftrightarrow> t \<in> set [1025, 0, 7, 1025]))"
    using create_pages_refine_set [OF n] by blast
  ultimately show ?thesis using n unfolding list_all_iff by (metis list.set_intros(1))
qed

text \<open>\<^verbatim>\<open>create_page\<close> on a well-formed file returns the position that \<^verbatim>\<open>seek_page\<close> then finds.  A new page is all zero, an existing one
  is returned with nothing written; the other pages stay where and what they were.\<close>

theorem create_page_then_seek:
  assumes "pages_wf s" and "fp_locked s" and "clean s" and "page_number t"
  shows "\<exists>p s'. create_page t s = (Inr p, s') \<and> pages_wf s' \<and> p \<noteq> 0 \<and> seek_page t s' = (Inr p, s') \<and> seek_page2 (file_meta s') t s' = (Inr p, s') \<and>
    (if fst (seek_page t s) = Inr 0 then contents s' p = Block zero_block_page else s' = s) \<and>
    (\<forall>u. u \<noteq> t \<longrightarrow> page_at u s' = page_at u s) \<and>
    (\<forall>u. page_at u s \<noteq> 0 \<longrightarrow> contents s' (page_at u s) = contents s (page_at u s))"
proof -
  have r: "ready s" using assms by (simp add: ready_def)
  obtain p s' where c: "create_page t s = (Inr p, s')" "created (slot_of (nat t)) s p s'" "ready s'" "page_at t s' = p"
    using create_page_at [OF r assms(4)] .
  have a: "adds {y. y = slot_of (nat t) \<or> \<not> is_block y} s s'" and p: "p \<noteq> 0" using c(2) by (simp_all add: created_def)
  obtain L where L: "0 \<le> t" "check_page_level (nat t) = Some L" using assms(4) by (auto simp: page_number_def)
  show ?thesis
  proof (intro exI [of _ p] exI [of _ s'] conjI allI impI)
    show "seek_page t s' = (Inr p, s')" using seek_page_at [OF c(3) assms(4)] c(4) by simp
    show "seek_page2 (file_meta s') t s' = (Inr p, s')"
      using seek_page2_spec [OF adds_wf [OF a] _ L] page_at_slot [OF adds_wf [OF a] assms(4)] c(3,4) by (simp add: ready_def)
    show "if fst (seek_page t s) = Inr 0 then contents s' p = Block zero_block_page else s' = s"
      using seek_page_at [OF r assms(4)] page_at_slot [OF assms(1,4)] created_found(4) [OF c(2) assms(3)] c(2) by (simp add: created_def)
    show "page_at u s' = page_at u s" if "u \<noteq> t" for u using adds_page_at [OF a assms(1,4) that] .
    show "contents s' (page_at u s) = contents s (page_at u s)" if "page_at u s \<noteq> 0" for u using adds_page_contents(1) [OF a assms(1) that] .
  qed (use c p adds_wf [OF a] in auto)
qed

theorem create_page_then_seek_witness:
  "pages_wf empty_file \<and> fp_locked empty_file \<and> clean empty_file \<and> page_number 1050000 \<and>
   (\<exists>p s'. create_page 1050000 empty_file = (Inr p, s') \<and> p \<noteq> 0 \<and> seek_page 1050000 s' = (Inr p, s'))"
proof -
  have e: "pages_wf empty_file" "fp_locked empty_file" "clean empty_file" using empty_file_ready by (simp_all add: ready_def)
  have n: "page_number 1050000" by (simp add: page_number_def check_page_level_def longpow_power)
  show ?thesis using create_page_then_seek [OF e n] e n by blast
qed

text \<open>C24: whatever call fails or however often space runs out while \<^verbatim>\<open>create_page\<close> works on a page after the first, the file stays well
  formed, no page that was there is lost, moved or changed, no other page appears, and the failure is an error code.\<close>

theorem create_page_failure_safe:
  assumes "pages_wf s" and "fp_locked s" and "page_number t" and "0 < t" and "create_page t s = (r, s')"
  shows "pages_wf s' \<and> (\<forall>u. u \<noteq> t \<longrightarrow> page_at u s' = page_at u s) \<and>
    (\<forall>u. page_at u s \<noteq> 0 \<longrightarrow> page_at u s' = page_at u s \<and> contents s' (page_at u s) = contents s (page_at u s)) \<and>
    (case r of Inr p \<Rightarrow> p \<noteq> 0 \<and> page_at t s' = p | Inl e \<Rightarrow> \<exists>n. e = Errno n)"
proof -
  obtain L where L: "check_page_level (nat t) = Some L" using assms(3) by (auto simp: page_number_def)
  have w: "case r of Inr p \<Rightarrow> created (slot_of (nat t)) s p s' | Inl e \<Rightarrow> fails {y. y = slot_of (nat t) \<or> \<not> is_block y} s e s'"
    by (rule wpD [OF create_page_indirect_spec [OF assms(1,2,4) L] assms(5)])
  then have a: "adds {y. y = slot_of (nat t) \<or> \<not> is_block y} s s'" by (auto simp: created_def fails_def split: sum.splits)
  have "case r of Inr p \<Rightarrow> p \<noteq> 0 \<and> page_at t s' = p | Inl e \<Rightarrow> \<exists>n. e = Errno n"
    using w page_at_slot [OF adds_wf [OF a] assms(3)] by (auto simp: created_def fails_def split: sum.splits)
  then show ?thesis using adds_wf [OF a] adds_page_at [OF a assms(1,3)] adds_page_contents [OF a assms(1)] by blast
qed

theorem create_page_failure_safe_witness:
  "\<exists>s r s'. pages_wf s \<and> fp_locked s \<and> page_number 5 \<and> create_page 5 s = (r, s') \<and> r = Inl (Errno ENOSPC) \<and> pages_wf s' \<and> single_indirect (file_meta s') = header_end"
proof -
  let ?s = "empty_file\<lparr>fp_os := [], meta_space := [True, False]\<rparr>"
  have e: "pages_wf ?s" "fp_locked ?s" "page_number 5"
    using empty_file_wf by (simp_all add: empty_file_def page_number_def check_page_level_def)
  obtain r s' where c: "create_page 5 ?s = (r, s')" by fastforce
  have "r = Inl (Errno ENOSPC)" "single_indirect (file_meta s') = header_end"
    using c by (auto simp: create_page_def check_page_level_def create_indirect_def create_root_def create_block_def index_in_level_def
        meta_cache_update_file_data_def check_space_def seek_end_def read_ptr_page_def MREAD_def MWRITE_def extend_def fp_call_def bindE_def
        empty_file_def root_ptr_def set_root_ptr_def empty_ptr_page_def Let_def)
  moreover have "pages_wf s'" using create_page_failure_safe [OF e _ c] by simp
  ultimately show ?thesis using e c by blast
qed

text \<open>the first page is different.  Its position is put into the cached header before the page is written, so when the write of the
  page fails, the call fails but the position, the end of the file, stays recorded: \<^verbatim>\<open>create_page\<close> called again returns it as a page although nothing was written
  there, and the next page created, a pointer page, is written at the same position.\<close>

theorem create_page_direct_failure_aliases:
  assumes "fp_locked s" and "direct (file_meta s) = 0" and "single_indirect (file_meta s) = 0" and "meta_space s = []"
    and "fp_os s = [IO_Ok, IO_Ok, IO_Ok, IO_Ok, IO_Ok, IO_Err e]"
  shows "\<exists>s1 q s2. create_page 0 s = (Inl (Errno e), s1) \<and> contents s1 = contents s \<and> fp_end s1 = fp_end s \<and>
    (fp_end s \<noteq> 0 \<longrightarrow> create_page 0 s1 = (Inr (fp_end s), s1)) \<and>
    create_page 1 s1 = (Inr q, s2) \<and> contents s2 (fp_end s) = Ptr (empty_ptr_page[0 := q]) \<and>
    direct (file_meta s2) = fp_end s \<and> single_indirect (file_meta s2) = fp_end s"
proof -
  let ?s1 = "s\<lparr>file_meta := (file_meta s)\<lparr>direct := fp_end s\<rparr>, fp_os := []\<rparr>"
  have c: "create_page 0 s = (Inl (Errno e), ?s1)" using assms
    by (simp add: create_page_def check_page_level_def create_direct_def seek_end_def meta_cache_update_file_data_def MWRITE_def
        fp_call_def bindE_def Let_def)
  have m: "create_page 0 ?s1 = (Inr (fp_end s), ?s1)" if "fp_end s \<noteq> 0" using assms(1,4) that
    by (simp add: create_page_def check_page_level_def create_direct_def fp_call_def bindE_def Let_def)
  obtain r s2 where n: "create_page 1 ?s1 = (r, s2)" by fastforce
  have "\<exists>q. r = Inr q \<and> contents s2 (fp_end s) = Ptr (empty_ptr_page[0 := q]) \<and>
      direct (file_meta s2) = fp_end s \<and> single_indirect (file_meta s2) = fp_end s"
    using n assms(1,3,4) by (auto simp: create_page_def check_page_level_def create_indirect_def create_root_def create_block_def index_in_level_def
        meta_cache_update_file_data_def check_space_def seek_end_def read_ptr_page_def MREAD_def MWRITE_def extend_def fp_call_def bindE_def
        root_ptr_def set_root_ptr_def empty_ptr_nth Let_def)
  then obtain q where q: "r = Inr q" "contents s2 (fp_end s) = Ptr (empty_ptr_page[0 := q])"
    "direct (file_meta s2) = fp_end s" "single_indirect (file_meta s2) = fp_end s" by blast
  show ?thesis by (intro exI [of _ ?s1] exI [of _ q] exI [of _ s2]) (use c m n q in simp)
qed

theorem create_page_direct_failure_aliases_witness:
  "\<exists>s s1 q s2. create_page 0 s = (Inl (Errno ENOSPC), s1) \<and> create_page 0 s1 = (Inr header_end, s1) \<and> contents s1 header_end = Hole \<and>
    create_page 1 s1 = (Inr q, s2) \<and> direct (file_meta s2) = header_end \<and> single_indirect (file_meta s2) = header_end"
proof -
  let ?s = "empty_file\<lparr>fp_os := [IO_Ok, IO_Ok, IO_Ok, IO_Ok, IO_Ok, IO_Err ENOSPC]\<rparr>"
  have "fp_locked ?s" "direct (file_meta ?s) = 0" "single_indirect (file_meta ?s) = 0" "meta_space ?s = []"
    "fp_os ?s = [IO_Ok, IO_Ok, IO_Ok, IO_Ok, IO_Ok, IO_Err ENOSPC]" "contents ?s header_end = Hole" "fp_end ?s = header_end"
    by (simp_all add: empty_file_def)
  then show ?thesis using create_page_direct_failure_aliases [of ?s ENOSPC] by (metis numeral_neq_zero)
qed

end
