(* ===== verification/Djb_Hash.thy ===== *)
theory Djb_Hash
  imports HCFS_Prelude "HOL-Library.Word"
begin

unbundle bit_operations_syntax

text \<open>
  \<^verbatim>\<open>djb_hash\<close> of \<^verbatim>\<open>src/HCFS/utils.h\<close>, the hash of the extended attributes and of the package cache: 32 bit arithmetic, eight bytes at a
  time as long as there are eight, against the plain loop.
\<close>

definition djb_step :: "32 word \<Rightarrow> char \<Rightarrow> 32 word" where
  "djb_step h c = (h * 33) XOR of_char c"

fun djb_chunks :: "32 word \<Rightarrow> string \<Rightarrow> 32 word \<times> string" where
  "djb_chunks h (p0 # p1 # p2 # p3 # p4 # p5 # p6 # p7 # p) =
     djb_chunks (djb_step (djb_step (djb_step (djb_step (djb_step (djb_step (djb_step (djb_step h p0) p1) p2) p3) p4) p5) p6) p7) p"
| "djb_chunks h p = (h, p)"

definition djb_hash :: "string \<Rightarrow> 32 word" where
  "djb_hash k = (let (h, p) = djb_chunks 5381 k in foldl djb_step h p)"

lemma djb_chunks_foldl: "(let (h', p') = djb_chunks h p in foldl djb_step h' p') = foldl djb_step h p"
  by (induction h p rule: djb_chunks.induct) simp_all

lemma djb_hash_foldl: "djb_hash k = foldl djb_step 5381 k"
  by (simp add: djb_hash_def djb_chunks_foldl)

lemma djb_hash_snoc: "djb_hash (k @ [c]) = djb_step (djb_hash k) c"
  by (simp add: djb_hash_foldl)

end
