(* ===== verification/Xattr.thy ===== *)
theory Xattr
  imports Djb_Hash Dir_Btree_Search
begin

text \<open>
  Extended attributes, \<^verbatim>\<open>src/HCFS/xattr_ops.c\<close>.  The meta file of an inode has one \<^verbatim>\<open>XATTR_PAGE\<close>: for each of four name spaces a hash table of
  eight lists of key pages, each with up to four sorted key entries, which point to the first of a list of value
  blocks.  Key pages and value blocks that are no longer needed are kept in two lists for reuse.
\<close>

abbreviation (input) ENODATA :: errno where "ENODATA \<equiv> 61"
abbreviation (input) ERANGE :: errno where "ERANGE \<equiv> 34"
abbreviation (input) EOPNOTSUPP :: errno where "EOPNOTSUPP \<equiv> 95"

abbreviation (input) MAX_KEY_SIZE :: nat where "MAX_KEY_SIZE \<equiv> 256"
abbreviation (input) MAX_VALUE_BLOCK_SIZE :: nat where "MAX_VALUE_BLOCK_SIZE \<equiv> 256"
abbreviation (input) MAX_KEY_ENTRY_PER_LIST :: nat where "MAX_KEY_ENTRY_PER_LIST \<equiv> 4"
abbreviation (input) MAX_KEY_HASH_ENTRY :: nat where "MAX_KEY_HASH_ENTRY \<equiv> 8"

abbreviation (input) XATTR_CREATE :: int where "XATTR_CREATE \<equiv> 1"
abbreviation (input) XATTR_REPLACE :: int where "XATTR_REPLACE \<equiv> 2"

subsection \<open>The meta file\<close>

record VALUE_BLOCK =
  content :: string
  next_block_pos :: nat

record KEY_ENTRY =
  key_size :: nat
  value_size :: nat
  key_of :: string
  first_value_block_pos :: nat

record KEY_LIST_PAGE =
  num_xattr :: nat
  key_list :: "KEY_ENTRY list"
  next_list_pos :: nat

record NAMESPACE_PAGE =
  ns_num_xattr :: nat
  key_hash_table :: "nat list"

record XATTR_PAGE =
  reclaimed_key_list_page :: nat
  reclaimed_value_block :: nat
  namespace_page :: "NAMESPACE_PAGE list"

definition zero_key_page :: KEY_LIST_PAGE where
  "zero_key_page = \<lparr>num_xattr = 0, key_list = replicate MAX_KEY_ENTRY_PER_LIST
     \<lparr>key_size = 0, value_size = 0, key_of = [], first_value_block_pos = 0\<rparr>, next_list_pos = 0\<rparr>"

definition zero_block :: VALUE_BLOCK where
  "zero_block = \<lparr>content = replicate MAX_VALUE_BLOCK_SIZE (CHR 0x00), next_block_pos = 0\<rparr>"

text \<open>
  What the code keeps in the file, by position, the end of the file, the caller's copy of the page that all functions get a pointer to,
  how often the inode was marked dirty, and the outcomes of the calls to come.
\<close>

datatype xobj = Key_Page KEY_LIST_PAGE | Value VALUE_BLOCK | Head XATTR_PAGE

primrec xsize :: "xobj \<Rightarrow> nat" where
  "xsize (Key_Page k) = 1100"
| "xsize (Value v) = 264"
| "xsize (Head x) = 288"

record x_state =
  objs :: "nat \<Rightarrow> xobj option"
  x_end :: nat
  xattr_page :: XATTR_PAGE
  marked_dirty :: nat
  x_os :: "io_outcome list"

definition x_call :: "(x_state, unit) sm" where
  "x_call = (\<lambda>s. (case x_os s of IO_Err e # _ \<Rightarrow> Inl (Errno e) | _ \<Rightarrow> Inr (), s\<lparr>x_os := tl (x_os s)\<rparr>))"

text \<open>
  \<^verbatim>\<open>MREAD\<close> and \<^verbatim>\<open>MWRITE\<close>.  Reading something else than what was written at a position, and writing over a part of something else, is
  not followed: it counts as a \<open>Crash\<close>.  A write at the end of the file extends it; it can also fail after the file is extended (\<open>IO_Short\<close>).
\<close>

definition read_key_page :: "nat \<Rightarrow> (x_state, KEY_LIST_PAGE) sm" where
  "read_key_page pos = bindE x_call (\<lambda>_ s. (case objs s pos of Some (Key_Page k) \<Rightarrow> Inr k | _ \<Rightarrow> Inl Crash, s))"

definition read_value_block :: "nat \<Rightarrow> (x_state, VALUE_BLOCK) sm" where
  "read_value_block pos = bindE x_call (\<lambda>_ s. (case objs s pos of Some (Value v) \<Rightarrow> Inr v | _ \<Rightarrow> Inl Crash, s))"

definition put_obj :: "xobj \<Rightarrow> nat \<Rightarrow> (x_state, unit) sm" where
  "put_obj x pos = (\<lambda>s.
     if pos = x_end s then (Inr (), s\<lparr>objs := (objs s)(pos \<mapsto> x), x_end := pos + xsize x\<rparr>)
     else case objs s pos of
       Some y \<Rightarrow> if xsize y = xsize x then (Inr (), s\<lparr>objs := (objs s)(pos \<mapsto> x)\<rparr>) else (Inl Crash, s)
     | None \<Rightarrow> (Inl Crash, s))"

definition write_obj :: "xobj \<Rightarrow> nat \<Rightarrow> (x_state, unit) sm" where
  "write_obj x pos = (\<lambda>s. let s1 = s\<lparr>x_os := tl (x_os s)\<rparr> in
     case x_os s of
       IO_Err e # _ \<Rightarrow> (Inl (Errno e), s1)
     | IO_Short # _ \<Rightarrow> (Inl (Errno ENOMEM), s1\<lparr>x_end := max (x_end s) (pos + xsize x)\<rparr>)
     | _ \<Rightarrow> put_obj x pos s1)"

definition seek_eof :: "(x_state, nat) sm" where
  "seek_eof = bindE x_call (\<lambda>_. bindE x_call (\<lambda>_ s. (Inr (x_end s), s)))"

definition upd_page :: "(XATTR_PAGE \<Rightarrow> XATTR_PAGE) \<Rightarrow> (x_state, unit) sm" where
  "upd_page f = modifyE (\<lambda>s. s\<lparr>xattr_page := f (xattr_page s)\<rparr>)"

definition mark_inode_dirty :: "(x_state, unit) sm" where
  "mark_inode_dirty = bindE x_call (\<lambda>_. modifyE (\<lambda>s. s\<lparr>marked_dirty := marked_dirty s + 1\<rparr>))"

subsection \<open>Names\<close>

definition parse_xattr_namespace :: "string \<Rightarrow> failure + (nat \<times> string)" where
  "parse_xattr_namespace name =
     (let index = length (takeWhile (\<lambda>c. c \<noteq> CHR ''.'') name); key_len = int (length name) - (int index + 1) in
      if index = length name \<or> 15 < index then Inl (Errno EOPNOTSUPP)
      else if key_len \<ge> int MAX_KEY_SIZE \<or> key_len \<le> 0 then Inl (Errno EINVAL)
      else let namespace_string = take index name; k = drop (index + 1) name in
        if namespace_string = ''user'' then Inr (0, k)
        else if namespace_string = ''system'' then Inr (1, k)
        else if namespace_string = ''security'' then Inr (2, k)
        else if namespace_string = ''trusted'' then Inr (3, k)
        else Inl (Errno EOPNOTSUPP))"

definition xhash :: "string \<Rightarrow> nat" where
  "xhash k = unat (djb_hash k) mod MAX_KEY_HASH_ENTRY"

definition key_entry :: "string \<Rightarrow> nat \<Rightarrow> nat \<Rightarrow> KEY_ENTRY" where
  "key_entry k value_pos sz = \<lparr>key_size = length k, value_size = sz, key_of = k, first_value_block_pos = value_pos\<rparr>"

subsection \<open>Positions for new key pages\<close>

definition get_usable_key_list_filepos :: "(x_state, nat) sm" where
  "get_usable_key_list_filepos = (\<lambda>s. (
     if reclaimed_key_list_page (xattr_page s) \<noteq> 0 then
       let ret_pos = reclaimed_key_list_page (xattr_page s) in
       bindE (read_key_page ret_pos) (\<lambda>k.
       bindE (upd_page (\<lambda>x. x\<lparr>reclaimed_key_list_page := next_list_pos k\<rparr>)) (\<lambda>_.
       returnE ret_pos))
     else bindE seek_eof (\<lambda>ret_pos.
       bindE (write_obj (Key_Page zero_key_page) ret_pos) (\<lambda>_.
       returnE ret_pos))) s)"

subsection \<open>Search\<close>

function key_search :: "KEY_ENTRY list \<Rightarrow> nat \<Rightarrow> string \<Rightarrow> nat \<Rightarrow> nat \<Rightarrow> bool \<times> int" where
  "key_search es num k start_index end_index =
     (let mid_index = (end_index + start_index) div 2 in
      if end_index > start_index then
        if mid_index \<ge> MAX_KEY_ENTRY_PER_LIST then (False, - 1)
        else if mid_index \<ge> num then (False, int mid_index)
        else let cmp_result = compare_names False k (key_of (es ! mid_index)) in
          if cmp_result = 0 then (True, int mid_index)
          else if cmp_result < 0 then key_search es num k start_index mid_index
          else key_search es num k (mid_index + 1) end_index
      else (False, int mid_index))"
  by pat_completeness auto
termination
  by (relation "measure (\<lambda>(es, num, k, a, b). b - a)") auto

definition key_binary_search :: "KEY_ENTRY list \<Rightarrow> nat \<Rightarrow> string \<Rightarrow> bool \<times> int" where
  "key_binary_search es num k = key_search es num k 0 num"

text \<open>
  The result of \<^verbatim>\<open>find_key_entry\<close>: the page with the key, the index of the key and the position of the page, with the page before it and its
  position; or where the key can be put, with index -1 when all pages are full.
\<close>

datatype key_place = Hit KEY_LIST_PAGE nat nat KEY_LIST_PAGE nat | Miss KEY_LIST_PAGE int nat

fun find_loop :: "nat \<Rightarrow> string \<Rightarrow> KEY_LIST_PAGE \<Rightarrow> nat \<Rightarrow> nat \<Rightarrow> (KEY_LIST_PAGE \<times> int \<times> nat) option \<Rightarrow> (x_state, key_place) sm" where
  "find_loop 0 k prev_key_page prev_key_list_pos key_list_pos first_insert = failE Hang"
| "find_loop (Suc n) k prev_key_page prev_key_list_pos key_list_pos first_insert =
     bindE (read_key_page key_list_pos) (\<lambda>now_key_page.
       let (hit, index) = key_binary_search (key_list now_key_page) (num_xattr now_key_page) k in
       if hit then returnE (Hit now_key_page (nat index) key_list_pos prev_key_page prev_key_list_pos)
       else
         let first_insert1 = (if first_insert = None \<and> num_xattr now_key_page < MAX_KEY_ENTRY_PER_LIST
                              then Some (now_key_page, index, key_list_pos) else first_insert) in
         if next_list_pos now_key_page \<noteq> 0
         then find_loop n k now_key_page key_list_pos (next_list_pos now_key_page) first_insert1
         else case first_insert1 of
           None \<Rightarrow> returnE (Miss now_key_page (- 1) key_list_pos)
         | Some (page, i, pos) \<Rightarrow> returnE (Miss page i pos))"

text \<open>No list of pages is longer than the file.\<close>

definition find_key_entry :: "nat \<Rightarrow> string \<Rightarrow> (x_state, key_place) sm" where
  "find_key_entry first_key_list_pos k = (\<lambda>s. (
     if first_key_list_pos = 0 then returnE (Miss zero_key_page (- 1) 0)
     else find_loop (Suc (x_end s)) k zero_key_page 0 first_key_list_pos None) s)"

subsection \<open>Values\<close>

text \<open>
  The position of a new block at the end of the file goes through an \<^verbatim>\<open>int32_t\<close>; a position it cannot hold is not followed.
\<close>

definition get_usable_value_filepos :: "nat \<Rightarrow> (x_state, nat \<times> nat) sm" where
  "get_usable_value_filepos replace_value_block_pos = (\<lambda>s. (
     if replace_value_block_pos > 0 then
       bindE (read_value_block replace_value_block_pos) (\<lambda>v.
       returnE (replace_value_block_pos, next_block_pos v))
     else if reclaimed_value_block (xattr_page s) > 0 then
       let usable = reclaimed_value_block (xattr_page s) in
       bindE (read_value_block usable) (\<lambda>v.
       bindE (upd_page (\<lambda>x. x\<lparr>reclaimed_value_block := next_block_pos v\<rparr>)) (\<lambda>_.
       returnE (usable, replace_value_block_pos)))
     else bindE seek_eof (\<lambda>eof.
       if to_int32 (int eof) \<noteq> int eof then failE Crash
       else bindE (write_obj (Value zero_block) eof) (\<lambda>_.
         returnE (eof, replace_value_block_pos)))) s)"

definition filled_block :: "string \<Rightarrow> nat \<Rightarrow> VALUE_BLOCK" where
  "filled_block bs nx = \<lparr>content = bs @ replicate (MAX_VALUE_BLOCK_SIZE - length bs) (CHR 0x00), next_block_pos = nx\<rparr>"

function write_value_data :: "nat \<Rightarrow> nat \<Rightarrow> string \<Rightarrow> (x_state, nat) sm" where
  "write_value_data rep now_pos val =
     (if val = [] then returnE rep
      else if length val > MAX_VALUE_BLOCK_SIZE then
        bindE (get_usable_value_filepos rep) (\<lambda>(next_pos, rep1).
        bindE (write_obj (Value (filled_block (take MAX_VALUE_BLOCK_SIZE val) next_pos)) now_pos) (\<lambda>_.
        write_value_data rep1 next_pos (drop MAX_VALUE_BLOCK_SIZE val)))
      else bindE (write_obj (Value (filled_block val 0)) now_pos) (\<lambda>_. returnE rep))"
  by pat_completeness auto
termination
  by (relation "measure (\<lambda>(rep, p, val). length val)") auto

function read_value_data :: "nat \<Rightarrow> nat \<Rightarrow> (x_state, string) sm" where
  "read_value_data sz now_pos =
     (if sz = 0 then returnE []
      else bindE (read_value_block now_pos) (\<lambda>v.
        bindE (read_value_data (sz - MAX_VALUE_BLOCK_SIZE) (next_block_pos v)) (\<lambda>rest.
        returnE (take (min sz MAX_VALUE_BLOCK_SIZE) (content v) @ rest))))"
  by pat_completeness auto
termination
  by (relation "measure (\<lambda>(sz, p). sz)") auto

fun find_tail :: "nat \<Rightarrow> nat \<Rightarrow> (x_state, nat \<times> VALUE_BLOCK) sm" where
  "find_tail 0 tail_pos = failE Hang"
| "find_tail (Suc n) tail_pos =
     bindE (read_value_block tail_pos) (\<lambda>v.
       if next_block_pos v = 0 then returnE (tail_pos, v) else find_tail n (next_block_pos v))"

definition reclaim_replace_value_block :: "nat \<Rightarrow> (x_state, unit) sm" where
  "reclaim_replace_value_block head_pos = (\<lambda>s. (
     if head_pos = 0 then returnE ()
     else bindE (find_tail (Suc (x_end s)) head_pos) (\<lambda>(tail_pos, v) s1. (
       bindE (write_obj (Value (v\<lparr>next_block_pos := reclaimed_value_block (xattr_page s1)\<rparr>)) tail_pos) (\<lambda>_.
       upd_page (\<lambda>x. x\<lparr>reclaimed_value_block := head_pos\<rparr>))) s1)) s)"

subsection \<open>Setting an attribute\<close>

definition table_at :: "XATTR_PAGE \<Rightarrow> nat \<Rightarrow> nat \<Rightarrow> nat" where
  "table_at x ns h = key_hash_table (namespace_page x ! ns) ! h"

definition set_table :: "nat \<Rightarrow> nat \<Rightarrow> nat \<Rightarrow> XATTR_PAGE \<Rightarrow> XATTR_PAGE" where
  "set_table ns h pos x = x\<lparr>namespace_page := (namespace_page x)[ns := (namespace_page x ! ns)
     \<lparr>key_hash_table := (key_hash_table (namespace_page x ! ns))[h := pos]\<rparr>]\<rparr>"

definition set_count :: "nat \<Rightarrow> (nat \<Rightarrow> nat) \<Rightarrow> XATTR_PAGE \<Rightarrow> XATTR_PAGE" where
  "set_count ns f x = x\<lparr>namespace_page := (namespace_page x)[ns := (namespace_page x ! ns)
     \<lparr>ns_num_xattr := f (ns_num_xattr (namespace_page x ! ns))\<rparr>]\<rparr>"

definition write_head :: "nat \<Rightarrow> (x_state, unit) sm" where
  "write_head xattr_filepos = (\<lambda>s. write_obj (Head (xattr_page s)) xattr_filepos s)"

definition shift_up :: "nat \<Rightarrow> KEY_LIST_PAGE \<Rightarrow> KEY_LIST_PAGE" where
  "shift_up i p = p\<lparr>key_list := take (i + 1) (key_list p) @ take (num_xattr p - i) (drop i (key_list p)) @ drop (num_xattr p + 1) (key_list p)\<rparr>"

definition shift_down :: "nat \<Rightarrow> KEY_LIST_PAGE \<Rightarrow> KEY_LIST_PAGE" where
  "shift_down i p = p\<lparr>key_list := take i (key_list p) @ take (num_xattr p - i - 1) (drop (i + 1) (key_list p)) @ drop (num_xattr p - 1) (key_list p)\<rparr>"

definition put_entry :: "nat \<Rightarrow> KEY_ENTRY \<Rightarrow> KEY_LIST_PAGE \<Rightarrow> KEY_LIST_PAGE" where
  "put_entry i e p = p\<lparr>num_xattr := num_xattr p + 1, key_list := (key_list p)[i := e]\<rparr>"

definition insert_first :: "nat \<Rightarrow> string \<Rightarrow> nat \<Rightarrow> int \<Rightarrow> (x_state, nat \<times> nat) sm" where
  "insert_first ns k sz flag =
     (if flag = XATTR_REPLACE then failE (Errno ENODATA)
      else bindE get_usable_key_list_filepos (\<lambda>pos.
        bindE (upd_page (set_table ns (xhash k) pos)) (\<lambda>_.
        bindE (get_usable_value_filepos 0) (\<lambda>(value_pos, rep).
        bindE (write_obj (Key_Page (put_entry 0 (key_entry k value_pos sz) zero_key_page)) pos) (\<lambda>_.
        bindE (upd_page (set_count ns Suc)) (\<lambda>_.
        returnE (value_pos, rep)))))))"

text \<open>The page a new key is put into: a new one linked after the last, or an existing one with room made at the index.\<close>

definition room_for_key :: "KEY_LIST_PAGE \<Rightarrow> int \<Rightarrow> nat \<Rightarrow> (x_state, KEY_LIST_PAGE \<times> nat \<times> nat) sm" where
  "room_for_key page key_index pos =
     (if key_index < 0 then
        bindE get_usable_key_list_filepos (\<lambda>usable_pos.
        bindE (write_obj (Key_Page (page\<lparr>next_list_pos := usable_pos\<rparr>)) pos) (\<lambda>_.
        returnE (zero_key_page, 0, usable_pos)))
      else returnE (shift_up (nat key_index) page, nat key_index, pos))"

definition insert_existing :: "nat \<Rightarrow> string \<Rightarrow> nat \<Rightarrow> int \<Rightarrow> nat \<Rightarrow> (x_state, nat \<times> nat) sm" where
  "insert_existing ns k sz flag first_key_list_pos =
     bindE (find_key_entry first_key_list_pos k) (\<lambda>place. case place of
       Miss page key_index pos \<Rightarrow>
         if flag = XATTR_REPLACE then failE (Errno ENODATA)
         else bindE (room_for_key page key_index pos) (\<lambda>(page1, i, pos1).
           bindE (get_usable_value_filepos 0) (\<lambda>(value_pos, rep).
           bindE (write_obj (Key_Page (put_entry i (key_entry k value_pos sz) page1)) pos1) (\<lambda>_.
           bindE (upd_page (set_count ns Suc)) (\<lambda>_.
           returnE (value_pos, rep)))))
     | Hit page i pos _ _ \<Rightarrow>
         if flag = XATTR_CREATE then failE (Errno EEXIST)
         else let e = key_list page ! i in
           bindE (get_usable_value_filepos (first_value_block_pos e)) (\<lambda>(value_pos, rep).
           bindE (write_obj (Key_Page (page\<lparr>key_list := (key_list page)[i := e\<lparr>value_size := sz\<rparr>]\<rparr>)) pos) (\<lambda>_.
           returnE (value_pos, rep))))"

definition insert_xattr :: "nat \<Rightarrow> nat \<Rightarrow> string \<Rightarrow> string \<Rightarrow> int \<Rightarrow> (x_state, unit) sm" where
  "insert_xattr xattr_filepos ns k val flag = (\<lambda>s.
     let first_pos = table_at (xattr_page s) ns (xhash k) in
     bindE (if first_pos = 0 then insert_first ns k (length val) flag else insert_existing ns k (length val) flag first_pos) (\<lambda>(value_pos, rep).
     bindE (write_value_data rep value_pos val) (\<lambda>rep1.
     bindE (reclaim_replace_value_block rep1) (\<lambda>_.
     bindE (write_head xattr_filepos) (\<lambda>_.
     mark_inode_dirty)))) s)"

subsection \<open>Getting, listing, removing\<close>

text \<open>The results are what was put into the buffer and the actual size, which is also set when the buffer is too small.\<close>

definition get_xattr_out :: "nat \<Rightarrow> string \<Rightarrow> nat \<Rightarrow> x_state \<Rightarrow> ((failure + string) \<times> nat) \<times> x_state" where
  "get_xattr_out ns k sz s =
     (let first_pos = table_at (xattr_page s) ns (xhash k) in
      if first_pos = 0 then ((Inl (Errno ENODATA), 0), s)
      else case find_key_entry first_pos k s of
        (Inl e, s1) \<Rightarrow> ((Inl e, 0), s1)
      | (Inr place, s1) \<Rightarrow> (case place of
          Miss _ _ _ \<Rightarrow> ((Inl (Errno ENODATA), 0), s1)
        | Hit page i _ _ _ \<Rightarrow>
            let e = key_list page ! i; actual_size = value_size e in
            if sz = 0 then ((Inr [], actual_size), s1)
            else if sz < actual_size then ((Inl (Errno ERANGE), actual_size), s1)
            else case read_value_data (value_size e) (first_value_block_pos e) s1 of (r, s2) \<Rightarrow> ((r, actual_size), s2)))"

definition get_xattr :: "nat \<Rightarrow> string \<Rightarrow> nat \<Rightarrow> (x_state, string \<times> nat) sm" where
  "get_xattr ns k sz s = (case get_xattr_out ns k sz s of ((Inl e, _), s1) \<Rightarrow> (Inl e, s1) | ((Inr val, n), s1) \<Rightarrow> (Inr (val, n), s1))"

definition name_bytes :: "string \<Rightarrow> KEY_ENTRY \<Rightarrow> string" where
  "name_bytes pre e = take (length pre + 1 + key_size e) (pre @ ''.'' @ key_of e) @ [CHR 0x00]"

fun fill_buffer_with_key :: "KEY_ENTRY list \<Rightarrow> nat \<Rightarrow> string \<Rightarrow> string \<times> nat \<Rightarrow> (string \<times> nat) option" where
  "fill_buffer_with_key [] sz pre (buf, actual_size) = Some (buf, actual_size)"
| "fill_buffer_with_key (e # es) sz pre (buf, actual_size) =
     (let n = length pre + 1 + key_size e + 1 in
      if sz > 0 then
        if actual_size + n > sz then None
        else fill_buffer_with_key es sz pre (buf @ name_bytes pre e, actual_size + n)
      else fill_buffer_with_key es sz pre (buf, actual_size + n))"

fun list_pages :: "nat \<Rightarrow> nat \<Rightarrow> string \<Rightarrow> nat \<Rightarrow> string \<times> nat \<Rightarrow> (x_state, string \<times> nat) sm" where
  "list_pages n sz pre 0 acc = returnE acc"
| "list_pages 0 sz pre pos acc = failE Hang"
| "list_pages (Suc n) sz pre (Suc p) acc =
     bindE (read_key_page (Suc p)) (\<lambda>k.
       case fill_buffer_with_key (take (num_xattr k) (key_list k)) sz pre acc of
         None \<Rightarrow> failE (Errno ERANGE)
       | Some acc1 \<Rightarrow> list_pages n sz pre (next_list_pos k) acc1)"

primrec list_buckets :: "nat \<Rightarrow> string \<Rightarrow> nat list \<Rightarrow> string \<times> nat \<Rightarrow> (x_state, string \<times> nat) sm" where
  "list_buckets sz pre [] acc = returnE acc"
| "list_buckets sz pre (pos # ps) acc =
     bindE (\<lambda>s. list_pages (Suc (x_end s)) sz pre pos acc s) (list_buckets sz pre ps)"

primrec list_spaces :: "nat \<Rightarrow> (string \<times> NAMESPACE_PAGE) list \<Rightarrow> string \<times> nat \<Rightarrow> (x_state, string \<times> nat) sm" where
  "list_spaces sz [] acc = returnE acc"
| "list_spaces sz (x # xs) acc =
     (if ns_num_xattr (snd x) = 0 then list_spaces sz xs acc
      else bindE (list_buckets sz (fst x) (take MAX_KEY_HASH_ENTRY (key_hash_table (snd x))) acc) (list_spaces sz xs))"

definition namespace_prefixes :: "string list" where
  "namespace_prefixes = [''user'', ''system'', ''security'', ''trusted'']"

definition list_xattr :: "nat \<Rightarrow> (x_state, string \<times> nat) sm" where
  "list_xattr sz = (\<lambda>s. list_spaces sz (zip namespace_prefixes (namespace_page (xattr_page s))) ([], 0) s)"

definition remove_key :: "nat \<Rightarrow> nat \<Rightarrow> nat \<Rightarrow> KEY_LIST_PAGE \<Rightarrow> nat \<Rightarrow> nat \<Rightarrow> KEY_LIST_PAGE \<Rightarrow> nat \<Rightarrow> nat \<Rightarrow> (x_state, unit) sm" where
  "remove_key xattr_filepos ns h page i pos prev_page prev_pos first_pos =
     (if num_xattr page > 1 then
        write_obj (Key_Page ((shift_down i page)\<lparr>num_xattr := num_xattr page - 1\<rparr>)) pos
      else bindE (if pos = first_pos
          then bindE (upd_page (set_table ns h (next_list_pos page))) (\<lambda>_. write_head xattr_filepos)
          else write_obj (Key_Page (prev_page\<lparr>next_list_pos := next_list_pos page\<rparr>)) prev_pos) (\<lambda>_.
        bindE (\<lambda>s. write_obj (Key_Page (zero_key_page\<lparr>next_list_pos := reclaimed_key_list_page (xattr_page s)\<rparr>)) pos s) (\<lambda>_.
        bindE (upd_page (\<lambda>x. x\<lparr>reclaimed_key_list_page := pos\<rparr>)) (\<lambda>_.
        write_head xattr_filepos))))"

definition remove_xattr :: "nat \<Rightarrow> nat \<Rightarrow> string \<Rightarrow> (x_state, unit) sm" where
  "remove_xattr xattr_filepos ns k = (\<lambda>s.
     let h = xhash k; first_pos = table_at (xattr_page s) ns h in
     bindE (find_key_entry first_pos k) (\<lambda>place. case place of
       Miss _ _ _ \<Rightarrow> failE (Errno ENODATA)
     | Hit page i pos prev_page prev_pos \<Rightarrow>
         let first_value_pos = first_value_block_pos (key_list page ! i) in
         bindE (remove_key xattr_filepos ns h page i pos prev_page prev_pos first_pos) (\<lambda>_.
         bindE (reclaim_replace_value_block first_value_pos) (\<lambda>_.
         bindE (upd_page (set_count ns (\<lambda>n. n - 1))) (\<lambda>_.
         bindE (write_head xattr_filepos) (\<lambda>_.
         mark_inode_dirty))))) s)"

end
