(* ===== verification/Xattr_Value.thy ===== *)
theory Xattr_Value
  imports Xattr
begin

text \<open>
  The lists of value blocks: writing and reading a value, taking blocks from the list that is replaced, from the reclaimed list or from the
  end of the file, and giving the rest back.
\<close>

subsection \<open>Calls that succeed\<close>

lemma x_call_ok: "x_os s = [] \<Longrightarrow> x_call s = (Inr (), s)"
  by (simp add: x_call_def)

lemma read_key_page_ok: "x_os s = [] \<Longrightarrow> objs s p = Some (Key_Page k) \<Longrightarrow> read_key_page p s = (Inr k, s)"
  by (simp add: read_key_page_def x_call_ok)

lemma read_value_block_ok: "x_os s = [] \<Longrightarrow> objs s p = Some (Value v) \<Longrightarrow> read_value_block p s = (Inr v, s)"
  by (simp add: read_value_block_def x_call_ok)

lemma seek_eof_ok: "x_os s = [] \<Longrightarrow> seek_eof s = (Inr (x_end s), s)"
  by (simp add: seek_eof_def x_call_ok)

lemma write_obj_ok:
  "x_os s = [] \<Longrightarrow> objs s p = Some y \<Longrightarrow> xsize y = xsize x \<Longrightarrow> p < x_end s \<Longrightarrow> write_obj x p s = (Inr (), s\<lparr>objs := (objs s)(p \<mapsto> x)\<rparr>)"
  by (simp add: write_obj_def put_obj_def)

lemma write_obj_new: "x_os s = [] \<Longrightarrow> write_obj x (x_end s) s = (Inr (), s\<lparr>objs := (objs s)(x_end s \<mapsto> x), x_end := x_end s + xsize x\<rparr>)"
  by (simp add: write_obj_def put_obj_def)

lemma upd_page_run: "upd_page f s = (Inr (), s\<lparr>xattr_page := f (xattr_page s)\<rparr>)"
  by (simp add: upd_page_def)

lemmas x_ok = read_key_page_ok read_value_block_ok seek_eof_ok write_obj_ok write_obj_new upd_page_run

text \<open>Nothing is at position 0 or behind the end.\<close>

definition file_ok :: "x_state \<Rightarrow> bool" where
  "file_ok s \<longleftrightarrow> 0 < x_end s \<and> (\<forall>q. objs s q \<noteq> None \<longrightarrow> 0 < q \<and> q < x_end s)"

lemma file_ok_pos: "file_ok s \<Longrightarrow> objs s q = Some x \<Longrightarrow> q \<noteq> 0 \<and> q < x_end s"
  by (auto simp: file_ok_def)

lemma file_ok_put: "file_ok s \<Longrightarrow> q < x_end s \<Longrightarrow> 0 < q \<Longrightarrow> file_ok (s\<lparr>objs := (objs s)(q \<mapsto> x)\<rparr>)"
  by (auto simp: file_ok_def)

lemma file_ok_append: "file_ok s \<Longrightarrow> 0 < n \<Longrightarrow> file_ok (s\<lparr>objs := (objs s)(x_end s \<mapsto> x), x_end := x_end s + n\<rparr>)"
  unfolding file_ok_def by (auto intro: less_trans trans_less_add1)

lemma distinct_bound:
  assumes "distinct ps" and "\<And>p. p \<in> set ps \<Longrightarrow> p < (n::nat)"
  shows "length ps \<le> n"
proof -
  have "card (set ps) \<le> card {..<n}" by (rule card_mono) (use assms(2) in auto)
  then show ?thesis using distinct_card [OF assms(1)] by simp
qed

subsection \<open>Lists of value blocks\<close>

primrec vchain :: "(nat \<Rightarrow> xobj option) \<Rightarrow> nat \<Rightarrow> nat list \<Rightarrow> bool" where
  "vchain m p [] \<longleftrightarrow> p = 0"
| "vchain m p (q # qs) \<longleftrightarrow> p = q \<and> q \<noteq> 0 \<and> (\<exists>v. m q = Some (Value v) \<and> length (content v) = MAX_VALUE_BLOCK_SIZE \<and> vchain m (next_block_pos v) qs)"

definition block_bytes :: "(nat \<Rightarrow> xobj option) \<Rightarrow> nat \<Rightarrow> string" where
  "block_bytes m q = (case m q of Some (Value v) \<Rightarrow> content v | _ \<Rightarrow> [])"

lemma vchain_cong: "(\<And>q. q \<in> set ps \<Longrightarrow> m' q = m q) \<Longrightarrow> vchain m' p ps = vchain m p ps"
  by (induction ps arbitrary: p) simp_all

lemma vchain_upd [simp]: "q \<notin> set ps \<Longrightarrow> vchain (m(q := x)) p ps = vchain m p ps"
  by (rule vchain_cong) auto

lemma vchain_value: "vchain m p ps \<Longrightarrow> q \<in> set ps \<Longrightarrow> \<exists>v. m q = Some (Value v) \<and> length (content v) = MAX_VALUE_BLOCK_SIZE"
  by (induction ps arbitrary: p) auto

lemma vchain_pos: "vchain m p ps \<Longrightarrow> (p = 0 \<longleftrightarrow> ps = []) \<and> (p \<noteq> 0 \<longrightarrow> p = hd ps)"
  by (cases ps) auto

lemma vchain_append:
  assumes "vchain m p ps" and "ps \<noteq> []" and "distinct ps"
  obtains v where "m (last ps) = Some (Value v)" and "length (content v) = MAX_VALUE_BLOCK_SIZE" and "next_block_pos v = 0"
    and "\<And>r qs. last ps \<notin> set qs \<Longrightarrow> vchain m r qs \<Longrightarrow> vchain (m(last ps \<mapsto> Value (v\<lparr>next_block_pos := r\<rparr>))) p (ps @ qs)"
  using assms
proof (induction ps arbitrary: p thesis)
  case (Cons a ps)
  then obtain v where v: "p = a" "a \<noteq> 0" "m a = Some (Value v)" "length (content v) = MAX_VALUE_BLOCK_SIZE" "vchain m (next_block_pos v) ps" by auto
  show ?case
  proof (cases "ps = []")
    case True
    have F: "vchain (m(a \<mapsto> Value (v\<lparr>next_block_pos := r\<rparr>))) p (a # qs)" if "a \<notin> set qs" "vchain m r qs" for r qs
      using that v by simp
    show ?thesis
    proof (rule Cons.prems(1))
      show "m (last (a # ps)) = Some (Value v)" "length (content v) = MAX_VALUE_BLOCK_SIZE" "next_block_pos v = 0" using v True by simp_all
      show "vchain (m(last (a # ps) \<mapsto> Value (v\<lparr>next_block_pos := r\<rparr>))) p ((a # ps) @ qs)" if "last (a # ps) \<notin> set qs" "vchain m r qs" for r qs
        using F [of qs r] that True by simp
    qed
  next
    case False
    have d: "distinct ps" "a \<noteq> last ps" using Cons.prems(4) False by auto
    show ?thesis
    proof (rule Cons.IH [OF _ v(5) False d(1)])
      fix w
      assume w: "m (last ps) = Some (Value w)" "length (content w) = MAX_VALUE_BLOCK_SIZE" "next_block_pos w = 0"
        "\<And>r qs. last ps \<notin> set qs \<Longrightarrow> vchain m r qs \<Longrightarrow> vchain (m(last ps \<mapsto> Value (w\<lparr>next_block_pos := r\<rparr>))) (next_block_pos v) (ps @ qs)"
      show thesis by (rule Cons.prems(1)) (use w v d False in \<open>auto simp del: fun_upd_apply simp add: fun_upd_other\<close>)
    qed
  qed
qed simp

text \<open>The blocks at hand: \<open>rs\<close> of the value that is replaced, \<open>rv\<close> reclaimed.\<close>

definition vpool :: "x_state \<Rightarrow> nat \<Rightarrow> nat list \<Rightarrow> nat list \<Rightarrow> bool" where
  "vpool s rep rs rv \<longleftrightarrow> vchain (objs s) rep rs \<and> vchain (objs s) (reclaimed_value_block (xattr_page s)) rv \<and> distinct (rs @ rv)"

text \<open>Only the value blocks in \<open>S\<close> and new ones have changed.\<close>

definition vframe :: "nat set \<Rightarrow> x_state \<Rightarrow> x_state \<Rightarrow> bool" where
  "vframe S s s' \<longleftrightarrow> file_ok s' \<and> x_os s' = [] \<and> marked_dirty s' = marked_dirty s \<and> x_end s \<le> x_end s' \<and>
     (\<forall>q < x_end s. q \<notin> S \<longrightarrow> objs s' q = objs s q) \<and>
     (xattr_page s')\<lparr>reclaimed_value_block := 0\<rparr> = (xattr_page s)\<lparr>reclaimed_value_block := 0\<rparr>"

lemma vframe_trans:
  assumes "vframe S s s1" and "vframe S' s1 s2" and "S' \<subseteq> S \<union> {x_end s..}"
  shows "vframe S s s2"
proof -
  have "objs s2 q = objs s q" if q: "q < x_end s" "q \<notin> S" for q
  proof -
    have "q \<notin> S'" "q < x_end s1" using assms(1,3) q by (auto simp: vframe_def)
    then show ?thesis using assms(1,2) q by (simp add: vframe_def)
  qed
  then show ?thesis using assms(1,2) by (simp add: vframe_def)
qed

lemma vframe_mono: "vframe S s s' \<Longrightarrow> S \<subseteq> S' \<Longrightarrow> vframe S' s s'"
  unfolding vframe_def by auto

text \<open>Taking one block.\<close>

definition took :: "nat list \<Rightarrow> nat list \<Rightarrow> x_state \<Rightarrow> nat \<Rightarrow> nat \<Rightarrow> nat list \<Rightarrow> nat list \<Rightarrow> x_state \<Rightarrow> bool" where
  "took rs rv s p rep' rs' rv' s' \<longleftrightarrow> vframe {} s s' \<and> vpool s' rep' rs' rv' \<and> x_end s' \<le> x_end s + 264 \<and>
     (\<exists>v. objs s' p = Some (Value v) \<and> length (content v) = MAX_VALUE_BLOCK_SIZE) \<and> p \<notin> set (rs' @ rv') \<and>
     set (rs' @ rv') \<subseteq> set (rs @ rv) \<and> set (rs @ rv) \<subseteq> insert p (set (rs' @ rv')) \<and> (p \<in> set (rs @ rv) \<or> x_end s \<le> p) \<and>
     (rs = [] \<longrightarrow> rs' = []) \<and> (rs \<noteq> [] \<longrightarrow> p = hd rs)"

lemma get_usable_value_filepos_spec:
  assumes os: "x_os s = []" and f: "file_ok s" and pool: "vpool s rep rs rv" and small: "x_end s < 2 ^ 31"
  obtains p rep' rs' rv' s' where "get_usable_value_filepos rep s = (Inr (p, rep'), s')" and "took rs rv s p rep' rs' rv' s'"
proof -
  have ch: "vchain (objs s) rep rs" "vchain (objs s) (reclaimed_value_block (xattr_page s)) rv" "distinct (rs @ rv)"
    using pool by (simp_all add: vpool_def)
  consider (rep) p qs where "rs = p # qs" | (recl) p qs where "rs = []" "rv = p # qs" | (new) "rs = []" "rv = []" by (metis list.exhaust)
  then show thesis
  proof cases
    case (rep p qs)
    then obtain v where v: "rep = p" "p \<noteq> 0" "objs s p = Some (Value v)" "length (content v) = MAX_VALUE_BLOCK_SIZE" "vchain (objs s) (next_block_pos v) qs"
      using ch(1) by auto
    have "took rs rv s p (next_block_pos v) qs rv s" using rep v ch f os by (auto simp: took_def vframe_def vpool_def)
    then show thesis using that [of p "next_block_pos v" s qs rv] v os by (simp add: get_usable_value_filepos_def read_value_block_ok)
  next
    case (recl p qs)
    obtain v where v: "reclaimed_value_block (xattr_page s) = p" "p \<noteq> 0" "objs s p = Some (Value v)" "length (content v) = MAX_VALUE_BLOCK_SIZE"
      "vchain (objs s) (next_block_pos v) qs" using ch(2) recl by auto
    let ?s = "s\<lparr>xattr_page := (xattr_page s)\<lparr>reclaimed_value_block := next_block_pos v\<rparr>\<rparr>"
    have r: "rep = 0" using ch(1) recl by simp
    have "took rs rv s p 0 [] qs ?s" using recl v ch f os by (auto simp: took_def vframe_def vpool_def file_ok_def)
    then show thesis using that [of p 0 ?s "[]" qs] v os r
      by (simp add: get_usable_value_filepos_def read_value_block_ok upd_page_run)
  next
    case new
    let ?s = "s\<lparr>objs := (objs s)(x_end s \<mapsto> Value zero_block), x_end := x_end s + 264\<rparr>"
    have r: "rep = 0" "reclaimed_value_block (xattr_page s) = 0" using ch new by simp_all
    have i: "to_int32 (int (x_end s)) = int (x_end s)" using small by (intro to_int32_id) auto
    have "took rs rv s (x_end s) 0 [] [] ?s"
      using new r f os file_ok_append [OF f, of 264] by (auto simp: took_def vframe_def vpool_def zero_block_def)
    then show thesis using that [of "x_end s" 0 ?s "[]" "[]"] r os i
      by (simp add: get_usable_value_filepos_def seek_eof_ok write_obj_new)
  qed
qed

subsection \<open>Writing and reading a value\<close>

definition nblocks :: "nat \<Rightarrow> nat" where
  "nblocks n = (n + 255) div MAX_VALUE_BLOCK_SIZE"

definition vbytes :: "(nat \<Rightarrow> xobj option) \<Rightarrow> nat list \<Rightarrow> string" where
  "vbytes m ps = concat (map (block_bytes m) ps)"

lemma vbytes_Cons [simp]: "vbytes m (p # ps) = block_bytes m p @ vbytes m ps"
  by (simp add: vbytes_def)

lemma vbytes_upd [simp]: "q \<notin> set ps \<Longrightarrow> vbytes (m(q := x)) ps = vbytes m ps"
  unfolding vbytes_def by (rule arg_cong [of _ _ concat]) (auto simp: block_bytes_def)

lemma nblocks_step: "MAX_VALUE_BLOCK_SIZE < n \<Longrightarrow> nblocks n = Suc (nblocks (n - MAX_VALUE_BLOCK_SIZE))"
  using le_add_diff_inverse2 [of 256 n] by (simp add: nblocks_def)

definition wrote :: "nat \<Rightarrow> string \<Rightarrow> nat list \<Rightarrow> nat list \<Rightarrow> x_state \<Rightarrow> nat \<Rightarrow> nat list \<Rightarrow> nat list \<Rightarrow> nat list \<Rightarrow> x_state \<Rightarrow> bool" where
  "wrote p val rs rv s rep' ps rs' rv' s' \<longleftrightarrow> vframe (insert p (set (rs @ rv))) s s' \<and> vpool s' rep' rs' rv' \<and>
     x_end s' \<le> x_end s + 264 * (nblocks (length val) - 1) \<and>
     vchain (objs s') p (p # ps) \<and> length (p # ps) = nblocks (length val) \<and> take (length val) (vbytes (objs s') (p # ps)) = val \<and>
     distinct (p # ps @ rs' @ rv') \<and> set (rs' @ rv') \<subseteq> set (rs @ rv) \<and> set (rs @ rv) \<subseteq> set (ps @ rs' @ rv') \<and>
     set ps \<subseteq> set (rs @ rv) \<union> {x_end s..} \<and> (rs = [] \<longrightarrow> rs' = [])"

lemma put_block_frame:
  assumes "x_os s = []" and "file_ok s" and "objs s p = Some (Value v0)"
  shows "write_obj (Value v) p s = (Inr (), s\<lparr>objs := (objs s)(p \<mapsto> Value v)\<rparr>)"
    "vframe {p} s (s\<lparr>objs := (objs s)(p \<mapsto> Value v)\<rparr>)"
  using assms file_ok_pos [OF assms(2,3)] file_ok_put [OF assms(2)]
  by (simp_all add: write_obj_ok vframe_def)

lemma wrote_step:
  assumes long: "length val > MAX_VALUE_BLOCK_SIZE" and p: "p < x_end s \<and> p \<noteq> 0" and t: "took rs rv s p1 rep1 rs1 rv1 s1" and out: "p \<notin> set (rs @ rv)"
    and p1: "p \<noteq> p1" "p \<notin> set (rs1 @ rv1)" "objs s1 p = Some (Value v0)"
    and fr2: "vframe {p} s1 s2" and s2: "s2 = s1\<lparr>objs := (objs s1)(p \<mapsto> Value (filled_block (take MAX_VALUE_BLOCK_SIZE val) p1))\<rparr>"
    and w: "wrote p1 (drop MAX_VALUE_BLOCK_SIZE val) rs1 rv1 s2 rep' ps rs' rv' s'"
  shows "wrote p val rs rv s rep' (p1 # ps) rs' rv' s'"
proof -
  have nb: "nblocks (length val) = Suc (nblocks (length (drop MAX_VALUE_BLOCK_SIZE val)))" "nblocks (length (drop MAX_VALUE_BLOCK_SIZE val)) \<noteq> 0"
    using nblocks_step [OF long] long by (auto simp: nblocks_def)
  have fr: "vframe {} s s1" "vframe (insert p1 (set (rs1 @ rv1))) s2 s'" using t w by (simp_all add: took_def wrote_def)
  have e: "x_end s \<le> x_end s1" "x_end s2 = x_end s1" "x_end s1 \<le> x_end s + 264" using t s2 by (auto simp: took_def vframe_def)
  have "vframe {p} s s2" using vframe_trans [OF vframe_mono [OF fr(1)] fr2] by simp
  then have "vframe (insert p (set (rs @ rv))) s s'"
    by (rule_tac vframe_trans [OF vframe_mono fr(2)]) (use t in \<open>auto simp: took_def\<close>)
  moreover have op: "objs s' p = Some (Value (filled_block (take MAX_VALUE_BLOCK_SIZE val) p1))"
    using fr(2) p1 p e s2 by (auto simp: vframe_def)
  have "vchain (objs s') p (p # p1 # ps)" using w op p long by (auto simp: wrote_def filled_block_def)
  moreover have "take (length val) (vbytes (objs s') (p # p1 # ps)) = val"
  proof -
    have "block_bytes (objs s') p = take MAX_VALUE_BLOCK_SIZE val" using op long by (simp add: block_bytes_def filled_block_def)
    moreover have "take (length val - MAX_VALUE_BLOCK_SIZE) (vbytes (objs s') (p1 # ps)) = drop MAX_VALUE_BLOCK_SIZE val" using w by (simp add: wrote_def)
    ultimately show ?thesis using long by (simp only: vbytes_Cons [of _ p]) simp
  qed
  moreover have "x_end s' \<le> x_end s + 264 * (nblocks (length val) - 1)"
  proof -
    have "x_end s' \<le> x_end s2 + 264 * (nblocks (length (drop MAX_VALUE_BLOCK_SIZE val)) - 1)" using w unfolding wrote_def by blast
    then show ?thesis using e nb by linarith
  qed
  moreover have "distinct (p # (p1 # ps) @ rs' @ rv')" using w p p1 e by (auto simp: wrote_def)
  moreover have W: "set (rs' @ rv') \<subseteq> set (rs1 @ rv1)" "set (rs1 @ rv1) \<subseteq> set (ps @ rs' @ rv')" "set ps \<subseteq> set (rs1 @ rv1) \<union> {x_end s2..}"
    using w unfolding wrote_def by blast+
  have T: "set (rs1 @ rv1) \<subseteq> set (rs @ rv)" "set (rs @ rv) \<subseteq> insert p1 (set (rs1 @ rv1))" "p1 \<in> set (rs @ rv) \<or> x_end s \<le> p1"
    using t unfolding took_def by blast+
  have "set (rs' @ rv') \<subseteq> set (rs @ rv)" using W(1) T(1) by (rule order_trans)
  moreover have "set (rs @ rv) \<subseteq> set ((p1 # ps) @ rs' @ rv')"
  proof -
    have "insert p1 (set (rs1 @ rv1)) \<subseteq> insert p1 (set (ps @ rs' @ rv'))" using W(2) by blast
    with T(2) have "set (rs @ rv) \<subseteq> insert p1 (set (ps @ rs' @ rv'))" by (rule order_trans)
    then show ?thesis by simp
  qed
  moreover have "set (p1 # ps) \<subseteq> set (rs @ rv) \<union> {x_end s..}"
  proof -
    have "{x_end s2..} \<subseteq> {x_end s..}" using e by simp
    then have "set ps \<subseteq> set (rs @ rv) \<union> {x_end s..}" by (rule order_trans [OF W(3) Un_mono [OF T(1)]])
    then show ?thesis using T(3) by simp
  qed
  moreover have "rs = [] \<longrightarrow> rs' = []" "vpool s' rep' rs' rv'" "length (p # p1 # ps) = nblocks (length val)" using w t nb by (auto simp: wrote_def took_def)
  ultimately show ?thesis unfolding wrote_def by blast
qed

lemma write_value_data_spec:
  assumes "val \<noteq> []" and "x_os s = []" and "file_ok s" and "vpool s rep rs rv" and "p \<notin> set (rs @ rv)"
    and "objs s p = Some (Value v0)" and "x_end s + 264 * (nblocks (length val) - 1) < 2 ^ 31 + 264"
  shows "\<exists>rep' ps rs' rv' s'. write_value_data rep p val s = (Inr rep', s') \<and> wrote p val rs rv s rep' ps rs' rv' s'"
  using assms
proof (induction rep p val arbitrary: s rs rv v0 rule: write_value_data.induct)
  case (1 rep p val)
  note pos = file_ok_pos [OF 1(4,7)]
  show ?case
  proof (cases "length val > MAX_VALUE_BLOCK_SIZE")
    case False
    let ?v = "filled_block val 0" and ?s = "s\<lparr>objs := (objs s)(p \<mapsto> Value (filled_block val 0))\<rparr>"
    have n: "nblocks (length val) = 1" using False 1(2) by (cases val) (auto simp: nblocks_def)
    have "wrote p val rs rv s rep [] rs rv ?s"
      using put_block_frame(2) [OF 1(3,4,7), THEN vframe_mono] 1(2,5,6) False pos n
      by (auto simp: wrote_def vpool_def filled_block_def block_bytes_def vbytes_def)
    moreover have "write_value_data rep p val s = (Inr rep, ?s)"
      using False 1(2) put_block_frame(1) [OF 1(3,4,7)] by (subst write_value_data.simps) simp
    ultimately show ?thesis by blast
  next
    case True
    have nb: "nblocks (length val) = Suc (nblocks (length (drop MAX_VALUE_BLOCK_SIZE val)))" "nblocks (length (drop MAX_VALUE_BLOCK_SIZE val)) \<noteq> 0"
      using nblocks_step [OF True] True by (auto simp: nblocks_def)
    then have sm: "x_end s < 2 ^ 31" using 1(8) by auto
    obtain p1 rep1 rs1 rv1 s1 where t: "get_usable_value_filepos rep s = (Inr (p1, rep1), s1)" "took rs rv s p1 rep1 rs1 rv1 s1"
      using get_usable_value_filepos_spec [OF 1(3,4,5) sm] .
    let ?v = "filled_block (take MAX_VALUE_BLOCK_SIZE val) p1"
    let ?s2 = "s1\<lparr>objs := (objs s1)(p \<mapsto> Value ?v)\<rparr>"
    have fr1: "vframe {} s s1" "x_os s1 = []" "file_ok s1" using t(2) by (simp_all add: took_def vframe_def)
    have p1: "p \<noteq> p1" "p \<notin> set (rs1 @ rv1)" "objs s1 p = Some (Value v0)"
      using t(2) 1(6,7) pos by (auto simp: took_def vframe_def)
    note fr2 = put_block_frame [OF fr1(2,3) p1(3)]
    have s2: "x_os ?s2 = []" "file_ok ?s2" "vpool ?s2 rep1 rs1 rv1" "p1 \<notin> set (rs1 @ rv1)" "\<exists>v1. objs ?s2 p1 = Some (Value v1)"
      using t(2) fr1 fr2(2) p1 by (auto simp: took_def vframe_def vpool_def)
    then obtain v1 where v1: "objs ?s2 p1 = Some (Value v1)" by blast
    have end2: "x_end ?s2 + 264 * (nblocks (length (drop MAX_VALUE_BLOCK_SIZE val)) - 1) < 2 ^ 31 + 264"
      using 1(8) t(2) nb by (cases "nblocks (length val - MAX_VALUE_BLOCK_SIZE)") (auto simp: took_def)
    have ne: "drop MAX_VALUE_BLOCK_SIZE val \<noteq> []" using True by simp
    obtain rep' ps rs' rv' s' where w: "write_value_data rep1 p1 (drop MAX_VALUE_BLOCK_SIZE val) ?s2 = (Inr rep', s')"
        "wrote p1 (drop MAX_VALUE_BLOCK_SIZE val) rs1 rv1 ?s2 rep' ps rs' rv' s'"
      using "1.IH" [OF 1(2) True ne s2(1-4) v1 end2] by blast
    have "write_value_data rep p val s = (Inr rep', s')"
      using True 1(2) t(1) fr2(1) w(1) by (subst write_value_data.simps) simp
    moreover have "wrote p val rs rv s rep' (p1 # ps) rs' rv' s'"
      by (rule wrote_step [OF True _ t(2) 1(6) p1 fr2(2) _ w(2)]) (use pos in auto)
    ultimately show ?thesis by blast
  qed
qed

lemma read_value_data_spec:
  assumes "x_os s = []" and "vchain (objs s) p ps" and "nblocks n \<le> length ps"
  shows "read_value_data n p s = (Inr (take n (vbytes (objs s) ps)), s)"
  using assms(2,3)
proof (induction ps arbitrary: p n)
  case Nil
  then have "n = 0" by (simp add: nblocks_def)
  then show ?case by (subst read_value_data.simps) simp
next
  case (Cons q ps)
  show ?case
  proof (cases "n = 0")
    case False
    obtain v where v: "p = q" "objs s q = Some (Value v)" "length (content v) = MAX_VALUE_BLOCK_SIZE" "vchain (objs s) (next_block_pos v) ps"
      using Cons.prems(1) by auto
    have "nblocks (n - MAX_VALUE_BLOCK_SIZE) \<le> length ps"
      using Cons.prems(2) nblocks_step [of n] by (cases "MAX_VALUE_BLOCK_SIZE < n") (auto simp: nblocks_def)
    from Cons.IH [OF v(4) this] show ?thesis using False v assms(1)
      by (subst read_value_data.simps) (simp add: read_value_block_ok block_bytes_def min_def)
  qed (subst read_value_data.simps, simp)
qed

subsection \<open>Giving blocks back\<close>

lemma find_tail_spec:
  assumes "x_os s = []" and "vchain (objs s) p ps" and "ps \<noteq> []" and "length ps \<le> n"
  shows "\<exists>v. find_tail n p s = (Inr (last ps, v), s) \<and> objs s (last ps) = Some (Value v)"
  using assms(2-4)
proof (induction ps arbitrary: p n)
  case (Cons q ps)
  then obtain v where v: "p = q" "objs s q = Some (Value v)" "vchain (objs s) (next_block_pos v) ps" by auto
  obtain m where n: "n = Suc m" "length ps \<le> m" using Cons.prems(3) by (cases n) auto
  show ?case
  proof (cases "ps = []")
    case True
    then show ?thesis using v n assms(1) by (simp add: read_value_block_ok)
  next
    case False
    then have "next_block_pos v \<noteq> 0" using v(3) vchain_pos by blast
    then show ?thesis using Cons.IH [OF v(3) False n(2)] v n assms(1) False by (simp add: read_value_block_ok)
  qed
qed simp

lemma vchain_bound:
  assumes "file_ok s" and "vchain (objs s) p ps" and "distinct ps"
  shows "length ps \<le> x_end s" "\<And>q. q \<in> set ps \<Longrightarrow> q < x_end s"
proof -
  show b: "q < x_end s" if "q \<in> set ps" for q using vchain_value [OF assms(2) that] file_ok_pos [OF assms(1)] by blast
  show "length ps \<le> x_end s" by (rule distinct_bound [OF assms(3) b])
qed

lemma reclaim_replace_value_block_spec:
  assumes os: "x_os s = []" and f: "file_ok s" and pool: "vpool s rep rs rv"
  obtains s' where "reclaim_replace_value_block rep s = (Inr (), s')" and "vframe (set rs) s s'" and "vpool s' 0 [] (rs @ rv)" and "x_end s' = x_end s"
proof (cases "rs = []")
  case True
  then have "rep = 0" using pool by (simp add: vpool_def)
  then have "reclaim_replace_value_block rep s = (Inr (), s)" by (simp add: reclaim_replace_value_block_def)
  then show thesis using that [of s] True os f pool by (simp add: vframe_def vpool_def)
next
  case False
  let ?r = "reclaimed_value_block (xattr_page s)"
  have ch: "vchain (objs s) rep rs" "vchain (objs s) ?r rv" and d: "distinct rs" "set rs \<inter> set rv = {}" using pool by (auto simp: vpool_def)
  obtain v where v: "objs s (last rs) = Some (Value v)" "next_block_pos v = 0"
      "\<And>r qs. last rs \<notin> set qs \<Longrightarrow> vchain (objs s) r qs \<Longrightarrow> vchain ((objs s)(last rs \<mapsto> Value (v\<lparr>next_block_pos := r\<rparr>))) rep (rs @ qs)"
    using vchain_append [OF ch(1) False d(1)] by metis
  have l: "last rs \<notin> set rv" "last rs \<in> set rs" using d(2) last_in_set [OF False] by blast+
  let ?s1 = "s\<lparr>objs := (objs s)(last rs \<mapsto> Value (v\<lparr>next_block_pos := ?r\<rparr>))\<rparr>"
  let ?s' = "?s1\<lparr>xattr_page := (xattr_page s)\<lparr>reclaimed_value_block := rep\<rparr>\<rparr>"
  have "find_tail (Suc (x_end s)) rep s = (Inr (last rs, v), s)"
    using find_tail_spec [OF os ch(1) False, of "Suc (x_end s)"] vchain_bound(1) [OF f ch(1) d(1)] v(1) by auto
  moreover have "rep \<noteq> 0" using ch(1) False vchain_pos by blast
  ultimately have "reclaim_replace_value_block rep s = (Inr (), ?s')"
    using put_block_frame(1) [OF os f v(1)] by (simp add: reclaim_replace_value_block_def upd_page_run)
  moreover have "vframe (set rs) s ?s'"
    using put_block_frame(2) [OF os f v(1), of "v\<lparr>next_block_pos := ?r\<rparr>"] l(2) by (auto simp: vframe_def file_ok_def)
  moreover have "vpool ?s' 0 [] (rs @ rv)" using v(3) [OF l(1) ch(2)] pool by (simp add: vpool_def)
  ultimately show thesis by (intro that [of ?s']) simp_all
qed

end
