(* ===== verification/Xattr_Key.thy ===== *)
theory Xattr_Key
  imports Xattr_Value
begin

text \<open>
  The key pages: the binary search in a page, the search along a list of pages, and what the changes to one page do to the list.
\<close>

subsection \<open>The search in a page\<close>

abbreviation kord :: "string \<Rightarrow> nat list" where "kord \<equiv> name_key False"

abbreviation ekeys :: "KEY_ENTRY list \<Rightarrow> nat list list" where "ekeys es \<equiv> map (\<lambda>e. kord (key_of e)) es"

lemma kord_inj: "kord a = kord b \<longleftrightarrow> a = b"
proof -
  have "inj (\<lambda>c. of_char c :: nat)" by (rule inj_of_char)
  then show ?thesis by (simp add: name_key_def inj_map_eq_map)
qed

declare key_search.simps [simp del]

lemma key_search_linear:
  fixes es num k
  defines "ks \<equiv> ekeys (take num es)"
  assumes "sorted_wrt (<) ks" and "num \<le> length es" and "num \<le> MAX_KEY_ENTRY_PER_LIST" and "b \<le> num" and "a \<le> b"
    and "\<And>j. j < a \<Longrightarrow> ks ! j < kord k" and "\<And>j. b \<le> j \<Longrightarrow> j < num \<Longrightarrow> kord k < ks ! j"
  shows "key_search es num k a b = (case linear_search ks (kord k) of Found i \<Rightarrow> (True, int i) | Insert_At i \<Rightarrow> (False, int i))"
  using assms(5-)
proof (induction "b - a" arbitrary: a b rule: less_induct)
  case less
  have len: "length ks = num" using assms(3) by (simp add: ks_def)
  show ?case
  proof (cases "a < b")
    case False
    then have "linear_search ks (kord k) = Insert_At a" using less.prems len by (intro linear_search_Insert_At) auto
    then show ?thesis using False less.prems(2) by (simp add: key_search.simps)
  next
    case True
    let ?c = "(b + a) div 2"
    have c: "a \<le> ?c" "?c < b" "\<not> num \<le> ?c" "\<not> MAX_KEY_ENTRY_PER_LIST \<le> ?c" using True less.prems(1) assms(4) by auto
    have kc: "kord (key_of (es ! ?c)) = ks ! ?c" using c assms(3) by (simp add: ks_def)
    have srt: "ks ! i < ks ! j" if "i < j" "j < num" for i j using assms(2) that len by (simp add: sorted_wrt_iff_nth_less)
    have step: "key_search es num k a b = (if kord k = ks ! ?c then (True, int ?c)
        else if kord k < ks ! ?c then key_search es num k a ?c else key_search es num k (?c + 1) b)"
      unfolding key_search.simps [of es num k a b] Let_def if_P [OF True] if_not_P [OF c(3)] if_not_P [OF c(4)] compare_names_def
        compare_bytes_order kc ..
    consider "kord k = ks ! ?c" | "kord k < ks ! ?c" | "ks ! ?c < kord k" using less_linear by blast
    then show ?thesis
    proof cases
      case 1
      then have "linear_search ks (kord k) = Found ?c" using c len assms(2) by (intro linear_search_Found) auto
      then show ?thesis using 1 step by simp
    next
      case 2
      have "key_search es num k a ?c = (case linear_search ks (kord k) of Found i \<Rightarrow> (True, int i) | Insert_At i \<Rightarrow> (False, int i))"
      proof (rule less.hyps)
        show "kord k < ks ! j" if "?c \<le> j" "j < num" for j using that 2 srt [of ?c j] by (cases "j = ?c") auto
      qed (use True c less.prems in auto)
      then show ?thesis using step less_imp_neq [OF 2] 2 by presburger
    next
      case 3
      have "key_search es num k (?c + 1) b = (case linear_search ks (kord k) of Found i \<Rightarrow> (True, int i) | Insert_At i \<Rightarrow> (False, int i))"
      proof (rule less.hyps)
        show "ks ! j < kord k" if "j < ?c + 1" for j using that 3 srt [of j ?c] c less.prems(1) by (cases "j = ?c") auto
      qed (use True c less.prems in auto)
      then show ?thesis using 3 step by auto
    qed
  qed
qed

definition page_has :: "KEY_LIST_PAGE \<Rightarrow> KEY_ENTRY list \<Rightarrow> bool" where
  "page_has k es \<longleftrightarrow> num_xattr k = length es \<and> length (key_list k) = MAX_KEY_ENTRY_PER_LIST \<and> take (length es) (key_list k) = es"

lemma page_search:
  assumes "page_has pg es" and "sorted_wrt (<) (ekeys es)" and "length es \<le> MAX_KEY_ENTRY_PER_LIST"
  obtains (hit) i where "key_binary_search (key_list pg) (num_xattr pg) k = (True, int i)" "i < length es" "key_of (es ! i) = k" "key_list pg ! i = es ! i"
  | (miss) i where "key_binary_search (key_list pg) (num_xattr pg) k = (False, int i)" "i \<le> length es" "k \<notin> key_of ` set es"
      "\<forall>x \<in> set (take i (ekeys es)). x < kord k" "\<forall>x \<in> set (drop i (ekeys es)). kord k < x"
proof -
  have l: "length es \<le> length (key_list pg)" "take (length es) (key_list pg) = es" using assms(1,3) by (simp_all add: page_has_def)
  have r: "key_binary_search (key_list pg) (num_xattr pg) k = (case linear_search (ekeys es) (kord k) of Found i \<Rightarrow> (True, int i) | Insert_At i \<Rightarrow> (False, int i))"
    using key_search_linear [of "length es" "key_list pg" "length es" 0 k] l assms by (simp add: key_binary_search_def page_has_def)
  show thesis
  proof (cases "linear_search (ekeys es) (kord k)")
    case (Found i)
    then have "i < length es" "key_of (es ! i) = k" using linear_search_FoundD [OF Found] by (auto simp: kord_inj)
    moreover have "key_list pg ! i = es ! i" using l calculation(1) by (metis nth_take)
    ultimately show thesis using r Found hit by simp
  next
    case (Insert_At i)
    note D = linear_search_Insert_AtD [OF assms(2) Insert_At]
    have "k \<notin> key_of ` set es"
    proof
      assume "k \<in> key_of ` set es"
      then have "kord k \<in> set (take i (ekeys es) @ drop i (ekeys es))" by auto
      then show False using D by (auto simp del: append_take_drop_id)
    qed
    then show thesis using r Insert_At D miss by simp
  qed
qed

subsection \<open>Lists of key pages\<close>

primrec kchain :: "(nat \<Rightarrow> xobj option) \<Rightarrow> nat \<Rightarrow> (nat \<times> KEY_ENTRY list) list \<Rightarrow> bool" where
  "kchain m p [] \<longleftrightarrow> p = 0"
| "kchain m p (x # xs) \<longleftrightarrow> p = fst x \<and> fst x \<noteq> 0 \<and> (\<exists>k. m (fst x) = Some (Key_Page k) \<and> page_has k (snd x) \<and> kchain m (next_list_pos k) xs)"

lemma kchain_cong: "(\<And>q. q \<in> fst ` set xs \<Longrightarrow> m' q = m q) \<Longrightarrow> kchain m' p xs = kchain m p xs"
  by (induction xs arbitrary: p) simp_all

lemma kchain_upd [simp]: "q \<notin> fst ` set xs \<Longrightarrow> kchain (m(q := x)) p xs = kchain m p xs"
  by (rule kchain_cong) auto

lemma kchain_page: "kchain m p xs \<Longrightarrow> (q, es) \<in> set xs \<Longrightarrow> \<exists>k. m q = Some (Key_Page k) \<and> page_has k es"
  by (induction xs arbitrary: p) auto

lemma kchain_first: "kchain m p xs \<Longrightarrow> (p = 0 \<longleftrightarrow> xs = []) \<and> (p \<noteq> 0 \<longrightarrow> p = fst (hd xs))"
  by (cases xs) auto

definition page_ok :: "nat \<Rightarrow> KEY_ENTRY list \<Rightarrow> bool" where
  "page_ok h es \<longleftrightarrow> es \<noteq> [] \<and> length es \<le> MAX_KEY_ENTRY_PER_LIST \<and> sorted_wrt (<) (ekeys es) \<and>
     (\<forall>e \<in> set es. xhash (key_of e) = h \<and> key_size e = length (key_of e))"

definition all_entries :: "(nat \<times> KEY_ENTRY list) list \<Rightarrow> KEY_ENTRY list" where
  "all_entries xs = concat (map snd xs)"

definition bucket_ok :: "nat \<Rightarrow> (nat \<times> KEY_ENTRY list) list \<Rightarrow> bool" where
  "bucket_ok h xs \<longleftrightarrow> (\<forall>x \<in> set xs. page_ok h (snd x)) \<and> distinct (map key_of (all_entries xs)) \<and> distinct (map fst xs)"

lemma all_entries_simps [simp]:
  "all_entries [] = []" "all_entries (x # xs) = snd x @ all_entries xs" "all_entries (xs @ ys) = all_entries xs @ all_entries ys"
  by (simp_all add: all_entries_def)

text \<open>
  The result of a search along the list: the page with the key, a page with room for it, or the last page when all are full.
\<close>

definition hit_at :: "(nat \<Rightarrow> xobj option) \<Rightarrow> (nat \<times> KEY_ENTRY list) list \<Rightarrow> string \<Rightarrow> KEY_LIST_PAGE \<Rightarrow> nat \<Rightarrow> nat \<Rightarrow> KEY_LIST_PAGE \<Rightarrow> nat \<Rightarrow> bool" where
  "hit_at m xs k pg i q prev prev_pos \<longleftrightarrow> (\<exists>us es ws. xs = us @ (q, es) # ws \<and> i < length es \<and> key_of (es ! i) = k \<and> key_list pg ! i = es ! i \<and>
     m q = Some (Key_Page pg) \<and> page_has pg es \<and> (us \<noteq> [] \<longrightarrow> prev_pos = fst (last us) \<and> m prev_pos = Some (Key_Page prev)))"

definition room_at :: "(nat \<Rightarrow> xobj option) \<Rightarrow> (nat \<times> KEY_ENTRY list) list \<Rightarrow> string \<Rightarrow> KEY_LIST_PAGE \<Rightarrow> int \<Rightarrow> nat \<Rightarrow> bool" where
  "room_at m xs k pg j q \<longleftrightarrow> (\<exists>us es ws i. xs = us @ (q, es) # ws \<and> length es < MAX_KEY_ENTRY_PER_LIST \<and> i \<le> length es \<and>
     (\<forall>x \<in> set (take i (ekeys es)). x < kord k) \<and> (\<forall>x \<in> set (drop i (ekeys es)). kord k < x) \<and>
     m q = Some (Key_Page pg) \<and> page_has pg es \<and> j = int i)"

definition full_at :: "(nat \<Rightarrow> xobj option) \<Rightarrow> (nat \<times> KEY_ENTRY list) list \<Rightarrow> KEY_LIST_PAGE \<Rightarrow> int \<Rightarrow> nat \<Rightarrow> bool" where
  "full_at m xs pg j q \<longleftrightarrow> xs \<noteq> [] \<and> q = fst (last xs) \<and> m q = Some (Key_Page pg) \<and> page_has pg (snd (last xs)) \<and> j = - 1"

lemma hit_at_later:
  assumes "hit_at m (x # xs) k pg i q prev prev_pos" and "m (fst y) = Some (Key_Page yg)" and "q = fst x \<Longrightarrow> prev = yg \<and> prev_pos = fst y"
  shows "hit_at m (y # x # xs) k pg i q prev prev_pos"
proof -
  obtain us es ws where h: "x # xs = us @ (q, es) # ws" "i < length es" "key_of (es ! i) = k" "key_list pg ! i = es ! i"
      "m q = Some (Key_Page pg)" "page_has pg es" "us \<noteq> [] \<longrightarrow> prev_pos = fst (last us) \<and> m prev_pos = Some (Key_Page prev)"
    using assms(1) unfolding hit_at_def by blast
  have "prev_pos = fst (last (y # us)) \<and> m prev_pos = Some (Key_Page prev)"
  proof (cases "us = []")
    case True
    then show ?thesis using h(1) assms(2,3) by simp
  qed (use h(7) in auto)
  moreover have "y # x # xs = (y # us) @ (q, es) # ws" using h(1) by simp
  ultimately show ?thesis unfolding hit_at_def using h(2-6) by blast
qed

lemma room_at_later: "room_at m xs k pg j q \<Longrightarrow> room_at m (y # xs) k pg j q"
  unfolding room_at_def by (metis append_Cons)

lemma full_at_later: "full_at m xs pg j q \<Longrightarrow> full_at m (y # xs) pg j q"
  by (auto simp: full_at_def)

lemma hit_at_here:
  assumes "i < length es" and "key_of (es ! i) = k" and "key_list pg ! i = es ! i" and "m q = Some (Key_Page pg)" and "page_has pg es"
  shows "hit_at m ((q, es) # ws) k pg i q prev prev_pos"
proof -
  have "(q, es) # ws = [] @ (q, es) # ws" by simp
  then show ?thesis unfolding hit_at_def using assms by blast
qed

lemma room_at_here:
  assumes "length es < MAX_KEY_ENTRY_PER_LIST" and "i \<le> length es" and "\<forall>x \<in> set (take i (ekeys es)). x < kord k"
    and "\<forall>x \<in> set (drop i (ekeys es)). kord k < x" and "m q = Some (Key_Page pg)" and "page_has pg es"
  shows "room_at m ((q, es) # ws) k pg (int i) q"
proof -
  have "(q, es) # ws = [] @ (q, es) # ws" by simp
  then show ?thesis unfolding room_at_def using assms by blast
qed

lemma hit_at_pos: "hit_at m xs k pg i q prev prev_pos \<Longrightarrow> q \<in> fst ` set xs"
  by (auto simp: hit_at_def)

definition found :: "(nat \<Rightarrow> xobj option) \<Rightarrow> (nat \<times> KEY_ENTRY list) list \<Rightarrow> string \<Rightarrow> KEY_LIST_PAGE \<Rightarrow> nat \<Rightarrow>
    (KEY_LIST_PAGE \<times> int \<times> nat) option \<Rightarrow> key_place \<Rightarrow> bool" where
  "found m xs k prev prev_pos ins r \<longleftrightarrow> (case r of
     Hit pg i q pv pp \<Rightarrow> k \<in> key_of ` set (all_entries xs) \<and> hit_at m xs k pg i q pv pp \<and> (q = fst (hd xs) \<longrightarrow> pv = prev \<and> pp = prev_pos)
   | Miss pg j q \<Rightarrow> k \<notin> key_of ` set (all_entries xs) \<and>
       (case ins of None \<Rightarrow> room_at m xs k pg j q \<or> full_at m xs pg j q | Some t \<Rightarrow> t = (pg, j, q)))"

lemma found_later:
  assumes "found m (x # xs) k yg (fst y) ins' r" and "m (fst y) = Some (Key_Page yg)" and "fst y \<notin> fst ` set (x # xs)" and "k \<notin> key_of ` set (snd y)"
    and "ins' = ins \<or> ins = None \<and> (\<exists>pg j q. ins' = Some (pg, j, q) \<and> room_at m (y # x # xs) k pg j q)"
  shows "found m (y # x # xs) k prev prev_pos ins r"
proof (cases r)
  case (Hit pg i q pv pp)
  have h: "hit_at m (x # xs) k pg i q pv pp" "q = fst x \<longrightarrow> pv = yg \<and> pp = fst y" "k \<in> key_of ` set (all_entries (x # xs))"
    using assms(1) Hit by (simp_all add: found_def)
  have "hit_at m (y # x # xs) k pg i q pv pp" by (rule hit_at_later [OF h(1) assms(2)]) (use h(2) in blast)
  moreover have "q \<noteq> fst y" using hit_at_pos [OF h(1)] assms(3) by blast
  ultimately show ?thesis using h(3) Hit by (auto simp: found_def)
next
  case (Miss pg j q)
  have "k \<notin> key_of ` set (all_entries (y # x # xs))" using assms(1,4) Miss by (auto simp: found_def)
  moreover have "case ins of None \<Rightarrow> room_at m (y # x # xs) k pg j q \<or> full_at m (y # x # xs) pg j q | Some t \<Rightarrow> t = (pg, j, q)"
    using assms(1,5) Miss room_at_later [of m "x # xs" k pg j q y] full_at_later [of m "x # xs" pg j q y] by (auto simp: found_def split: option.splits)
  ultimately show ?thesis using Miss by (simp add: found_def)
qed

lemma find_loop_step:
  assumes os: "x_os s = []" and pg: "objs s q = Some (Key_Page pg)" "page_has pg es" and ok: "page_ok h es"
  obtains (hit) i where "\<And>n prev pp ins. find_loop (Suc n) k prev pp q ins s = (Inr (Hit pg i q prev pp), s)"
      "i < length es" "key_of (es ! i) = k" "key_list pg ! i = es ! i"
  | (miss) i where "\<And>n prev pp ins. find_loop (Suc n) k prev pp q ins s =
      (let ins1 = if ins = None \<and> length es < MAX_KEY_ENTRY_PER_LIST then Some (pg, int i, q) else ins in
       if next_list_pos pg \<noteq> 0 then find_loop n k pg q (next_list_pos pg) ins1 s
       else (Inr (case ins1 of None \<Rightarrow> Miss pg (- 1) q | Some (p, j, r) \<Rightarrow> Miss p j r), s))"
      "k \<notin> key_of ` set es" "length es < MAX_KEY_ENTRY_PER_LIST \<Longrightarrow> \<forall>ws. room_at (objs s) ((q, es) # ws) k pg (int i) q"
proof -
  have srt: "sorted_wrt (<) (ekeys es)" "length es \<le> MAX_KEY_ENTRY_PER_LIST" using ok by (simp_all add: page_ok_def)
  show thesis
  proof (cases rule: page_search [OF pg(2) srt, of k, case_names hit miss])
    case (hit i)
    show thesis by (rule that(1) [of i]) (use hit os pg in \<open>simp_all add: read_key_page_ok\<close>)
  next
    case (miss i)
    show thesis
    proof (rule that(2) [of i])
      show "find_loop (Suc n) k prev pp q ins s =
        (let ins1 = if ins = None \<and> length es < MAX_KEY_ENTRY_PER_LIST then Some (pg, int i, q) else ins in
         if next_list_pos pg \<noteq> 0 then find_loop n k pg q (next_list_pos pg) ins1 s
         else (Inr (case ins1 of None \<Rightarrow> Miss pg (- 1) q | Some (p, j, r) \<Rightarrow> Miss p j r), s))" for n prev pp ins
        using miss os pg by (simp add: read_key_page_ok Let_def page_has_def split: option.split)
      show "\<forall>ws. room_at (objs s) ((q, es) # ws) k pg (int i) q" if "length es < MAX_KEY_ENTRY_PER_LIST"
        using room_at_here [where m = "objs s", OF that miss(2,4,5) pg] by blast
    qed (rule miss(3))
  qed
qed

lemma find_loop_spec:
  assumes os: "x_os s = []" and "kchain (objs s) p xs" and "xs \<noteq> []" and "\<forall>x \<in> set xs. page_ok h (snd x)" and "distinct (map fst xs)" and "length xs \<le> n"
  shows "\<exists>r. find_loop n k prev prev_pos p ins s = (Inr r, s) \<and> found (objs s) xs k prev prev_pos ins r"
  using assms(2-)
proof (induction xs arbitrary: p n prev prev_pos ins)
  case (Cons y ys)
  obtain q es where y: "y = (q, es)" by fastforce
  obtain pg where pg: "p = q" "objs s q = Some (Key_Page pg)" "page_has pg es" "kchain (objs s) (next_list_pos pg) ys" using Cons.prems(1) y by auto
  obtain m where n: "n = Suc m" "length ys \<le> m" using Cons.prems(5) by (cases n) auto
  have ok: "page_ok h es" using Cons.prems(3) y by simp
  show ?case
  proof (cases rule: find_loop_step [OF os pg(2,3) ok, of k, case_names hit miss])
    case (hit i)
    have "found (objs s) (y # ys) k prev prev_pos ins (Hit pg i q prev prev_pos)"
      using hit_at_here [where m = "objs s", OF hit(2-4) pg(2,3)] hit(2,3) y by (auto simp: found_def)
    then show ?thesis using hit(1) n pg(1) by blast
  next
    case (miss i)
    define ins1 where "ins1 = (if ins = None \<and> length es < MAX_KEY_ENTRY_PER_LIST then Some (pg, int i, q) else ins)"
    have i1: "ins1 = ins \<or> ins = None \<and> (\<exists>g j r. ins1 = Some (g, j, r) \<and> room_at (objs s) (y # ys) k g j r)"
      using miss(3) y by (auto simp: ins1_def)
    note run = miss(1) [of m prev prev_pos ins, folded ins1_def, unfolded Let_def ins1_def [symmetric]]
    show ?thesis
    proof (cases ys)
      case Nil
      then have "next_list_pos pg = 0" using pg(4) by simp
      moreover have "found (objs s) (y # ys) k prev prev_pos ins (case ins1 of None \<Rightarrow> Miss pg (- 1) q | Some (p, j, r) \<Rightarrow> Miss p j r)"
        using i1 miss(2) y Nil pg(2,3) by (auto simp: found_def full_at_def split: option.splits)
      ultimately show ?thesis using run n(1) pg(1) by simp
    next
      case (Cons z zs)
      then have nz: "next_list_pos pg \<noteq> 0" using pg(4) kchain_first by blast
      obtain r where r: "find_loop m k pg q (next_list_pos pg) ins1 s = (Inr r, s)" "found (objs s) ys k pg q ins1 r"
        using Cons.IH [OF pg(4), of m pg q ins1] Cons.prems(3,4) n(2) Cons by auto
      have "found (objs s) (y # ys) k prev prev_pos ins r"
        unfolding Cons by (rule found_later) (use r(2) pg(2) Cons.prems(4) miss(2) i1 y Cons in auto)
      then show ?thesis using run nz r(1) n(1) pg(1) by simp
    qed
  qed
qed simp

lemma kchain_bound:
  assumes "file_ok s" and "kchain (objs s) p xs" and "distinct (map fst xs)"
  shows "length xs \<le> x_end s" "\<And>q. q \<in> fst ` set xs \<Longrightarrow> q < x_end s"
proof -
  show b: "q < x_end s" if q: "q \<in> fst ` set xs" for q
  proof -
    obtain es where "(q, es) \<in> set xs" using q by force
    then show ?thesis using kchain_page [OF assms(2)] file_ok_pos [OF assms(1)] by blast
  qed
  have "length (map fst xs) \<le> x_end s" by (rule distinct_bound [OF assms(3)]) (use b in auto)
  then show "length xs \<le> x_end s" by simp
qed

lemma find_key_entry_spec:
  assumes os: "x_os s = []" and f: "file_ok s" and ch: "kchain (objs s) p xs" and ne: "xs \<noteq> []" and ok: "bucket_ok h xs"
  obtains r where "find_key_entry p k s = (Inr r, s)" and "found (objs s) xs k zero_key_page 0 None r"
proof -
  have o: "\<forall>x \<in> set xs. page_ok h (snd x)" "distinct (map fst xs)" using ok by (simp_all add: bucket_ok_def)
  have n: "length xs \<le> Suc (x_end s)" using kchain_bound(1) [OF f ch o(2)] by simp
  have "p \<noteq> 0" using ch ne kchain_first by blast
  then show thesis using find_loop_spec [OF os ch ne o n, of k zero_key_page 0 None] that by (auto simp: find_key_entry_def)
qed

subsection \<open>Changes to a list\<close>

lemma kchain_change:
  assumes "kchain m p (us @ (q, es) # ws)" and "distinct (map fst (us @ (q, es) # ws))" and "m q = Some (Key_Page pg)"
    and "page_has pg' es'" and "next_list_pos pg' = next_list_pos pg"
  shows "kchain (m(q \<mapsto> Key_Page pg')) p (us @ (q, es') # ws)"
  using assms(1,2)
proof (induction us arbitrary: p)
  case Nil
  then show ?case using assms(3-) by (auto simp del: fun_upd_apply simp add: fun_upd_same)
next
  case (Cons u us)
  then show ?case by (auto simp del: fun_upd_apply simp add: fun_upd_other)
qed

lemma kchain_snoc:
  assumes "kchain m p (us @ [(q, es)])" and "distinct (map fst (us @ [(q, es)]))" and "m q = Some (Key_Page pg)" and "n \<noteq> 0" and "n \<notin> fst ` set (us @ [(q, es)])"
    and "page_has pn es'" and "next_list_pos pn = 0"
  shows "kchain (m(q \<mapsto> Key_Page (pg\<lparr>next_list_pos := n\<rparr>), n \<mapsto> Key_Page pn)) p ((us @ [(q, es)]) @ [(n, es')])"
  using assms(1,2,5)
proof (induction us arbitrary: p)
  case Nil
  then show ?case using assms(3,4,6,7) by (auto simp: page_has_def)
next
  case (Cons u us)
  then show ?case by (auto simp del: fun_upd_apply simp add: fun_upd_other)
qed

lemma kchain_drop:
  assumes "kchain m p (us @ (q, es) # ws)" and "distinct (map fst (us @ (q, es) # ws))" and "us \<noteq> []" and "m q = Some (Key_Page pg)"
    and "m (fst (last us)) = Some (Key_Page pv)"
  shows "kchain (m(fst (last us) \<mapsto> Key_Page (pv\<lparr>next_list_pos := next_list_pos pg\<rparr>))) p (us @ ws)"
  using assms(1,2,3,5)
proof (induction us arbitrary: p)
  case (Cons u us)
  show ?case
  proof (cases "us = []")
    case True
    then show ?thesis using Cons.prems assms(4) by (auto simp del: fun_upd_apply simp add: fun_upd_same page_has_def)
  next
    case False
    have "fst u \<noteq> fst (last us)" using Cons.prems(2) last_in_set [OF False] by auto
    then show ?thesis using Cons False by (auto simp del: fun_upd_apply simp add: fun_upd_other)
  qed
qed simp

lemma kchain_next: "kchain m p ((q, es) # ws) \<Longrightarrow> m q = Some (Key_Page pg) \<Longrightarrow> kchain m (next_list_pos pg) ws"
  by auto

text \<open>The reclaimed key pages.\<close>

primrec rchain :: "(nat \<Rightarrow> xobj option) \<Rightarrow> nat \<Rightarrow> nat list \<Rightarrow> bool" where
  "rchain m p [] \<longleftrightarrow> p = 0"
| "rchain m p (q # qs) \<longleftrightarrow> p = q \<and> q \<noteq> 0 \<and> (\<exists>k. m q = Some (Key_Page k) \<and> rchain m (next_list_pos k) qs)"

lemma rchain_cong: "(\<And>q. q \<in> set qs \<Longrightarrow> m' q = m q) \<Longrightarrow> rchain m' p qs = rchain m p qs"
  by (induction qs arbitrary: p) simp_all

lemma rchain_upd [simp]: "q \<notin> set qs \<Longrightarrow> rchain (m(q := x)) p qs = rchain m p qs"
  by (rule rchain_cong) auto

lemma rchain_page: "rchain m p qs \<Longrightarrow> q \<in> set qs \<Longrightarrow> \<exists>k. m q = Some (Key_Page k)"
  by (induction qs arbitrary: p) auto

end
