(* ===== verification/Xattr_Inv.thy ===== *)
theory Xattr_Inv
  imports Xattr_Key
begin

text \<open>
  The invariant of the attributes of an inode: the lists of key pages of all buckets, the lists of value blocks of all
  keys and the two reclaimed lists share no position.  Each change to one bucket or one value keeps it.
\<close>

subsection \<open>Entries of a page and of a bucket\<close>

lemma page_has_insert:
  assumes "page_has pg es" and "length es < MAX_KEY_ENTRY_PER_LIST" and "i \<le> length es"
  shows "page_has (put_entry i e (shift_up i pg)) (take i es @ e # drop i es)"
proof -
  have l: "num_xattr pg = length es" "length (key_list pg) = MAX_KEY_ENTRY_PER_LIST" "take (length es) (key_list pg) = es" using assms(1) by (simp_all add: page_has_def)
  have "take (length es - i) (drop i (key_list pg)) = drop i es" using l(3) by (metis drop_take)
  moreover have "take i (key_list pg) = take i es" using l(3) assms(3) by (metis min.absorb2 min.commute take_take)
  ultimately have "(key_list (shift_up i pg))[i := e] = take i es @ e # drop i es @ drop (length es + 1) (key_list pg)"
    using l assms by (simp add: shift_up_def take_Suc_conv_app_nth list_update_append)
  then show ?thesis using l assms by (simp add: page_has_def put_entry_def Suc_diff_le) (simp add: shift_up_def)
qed

lemma page_has_remove:
  assumes "page_has pg es" and "i < length es" and "length es \<le> MAX_KEY_ENTRY_PER_LIST"
  shows "page_has ((shift_down i pg)\<lparr>num_xattr := num_xattr pg - 1\<rparr>) (take i es @ drop (i + 1) es)"
proof -
  have l: "num_xattr pg = length es" "length (key_list pg) = MAX_KEY_ENTRY_PER_LIST" "take (length es) (key_list pg) = es" using assms(1) by (simp_all add: page_has_def)
  have "take (length es - i - 1) (drop (i + 1) (key_list pg)) = drop (i + 1) es" using l(3) by (metis diff_diff_left drop_take)
  moreover have "take i (key_list pg) = take i es" using l(3) assms(2) by (metis less_imp_le min.absorb2 min.commute take_take)
  ultimately have "key_list (shift_down i pg) = take i es @ drop (i + 1) es @ drop (length es - 1) (key_list pg)"
    using l by (simp add: shift_down_def)
  then show ?thesis using l assms by (simp add: page_has_def)
qed

lemma page_has_update: "page_has pg es \<Longrightarrow> page_has (pg\<lparr>key_list := (key_list pg)[i := e]\<rparr>) (es[i := e])"
  by (auto simp: page_has_def take_update_swap)

lemma page_has_new: "page_has (put_entry 0 e zero_key_page) [e]"
  by (simp add: page_has_def put_entry_def zero_key_page_def numeral_eq_Suc)

definition bmap :: "(nat \<times> KEY_ENTRY list) list \<Rightarrow> string \<Rightarrow> KEY_ENTRY option" where
  "bmap xs = map_of (map (\<lambda>e. (key_of e, e)) (all_entries xs))"

lemma bmap_Some: "bucket_ok h xs \<Longrightarrow> bmap xs k = Some e \<longleftrightarrow> e \<in> set (all_entries xs) \<and> key_of e = k"
  unfolding bmap_def by (subst map_of_eq_Some_iff) (auto simp: bucket_ok_def comp_def)

lemma bmap_None: "bmap xs k = None \<longleftrightarrow> k \<notin> key_of ` set (all_entries xs)"
  by (auto simp: bmap_def map_of_eq_None_iff image_image)

lemma bmap_set:
  assumes "bucket_ok h xs" and "bucket_ok h xs'" and "set (all_entries xs') = insert e {x \<in> set (all_entries xs). key_of x \<noteq> key_of e}"
  shows "bmap xs' = (bmap xs)(key_of e \<mapsto> e)"
proof
  fix k
  show "bmap xs' k = ((bmap xs)(key_of e \<mapsto> e)) k"
  proof (cases "k = key_of e")
    case True
    then show ?thesis using bmap_Some [OF assms(2), of k e] assms(3) by simp
  next
    case False
    have "bmap xs' k = Some x \<longleftrightarrow> bmap xs k = Some x" for x
      using bmap_Some [OF assms(1)] bmap_Some [OF assms(2)] assms(3) False by auto
    then have "bmap xs' k = bmap xs k" by (metis not_Some_eq)
    then show ?thesis using False by simp
  qed
qed

lemma bmap_remove:
  assumes "bucket_ok h xs" and "bucket_ok h xs'" and "set (all_entries xs') = {x \<in> set (all_entries xs). key_of x \<noteq> k}"
  shows "bmap xs' = (bmap xs)(k := None)"
proof
  fix j
  have "bmap xs' j = Some x \<longleftrightarrow> ((bmap xs)(k := None)) j = Some x" for x
    using bmap_Some [OF assms(1)] bmap_Some [OF assms(2)] assms(3) by auto
  then show "bmap xs' j = ((bmap xs)(k := None)) j" by (metis not_Some_eq)
qed

subsection \<open>The keys of all buckets\<close>

abbreviation (input) bucket :: "nat \<times> nat \<Rightarrow> bool" where "bucket b \<equiv> fst b < 4 \<and> snd b < MAX_KEY_HASH_ENTRY"

definition tab :: "XATTR_PAGE \<Rightarrow> nat \<times> nat \<Rightarrow> nat" where
  "tab x b = table_at x (fst b) (snd b)"

definition shape :: "XATTR_PAGE \<Rightarrow> bool" where
  "shape x \<longleftrightarrow> length (namespace_page x) = 4 \<and> (\<forall>n < 4. length (key_hash_table (namespace_page x ! n)) = MAX_KEY_HASH_ENTRY)"

abbreviation (input) kpos :: "(nat \<times> KEY_ENTRY list) list \<Rightarrow> nat set" where "kpos xs \<equiv> fst ` set xs"

definition count :: "XATTR_PAGE \<Rightarrow> nat \<Rightarrow> nat" where
  "count x n = ns_num_xattr (namespace_page x ! n)"

definition kinv :: "x_state \<Rightarrow> (nat \<times> nat \<Rightarrow> (nat \<times> KEY_ENTRY list) list) \<Rightarrow> nat list \<Rightarrow> bool" where
  "kinv s T rk \<longleftrightarrow> shape (xattr_page s) \<and>
     (\<forall>b. bucket b \<longrightarrow> kchain (objs s) (tab (xattr_page s) b) (T b) \<and> bucket_ok (snd b) (T b) \<and> kpos (T b) \<inter> set rk = {}) \<and>
     (\<forall>b c. bucket b \<and> bucket c \<and> b \<noteq> c \<longrightarrow> kpos (T b) \<inter> kpos (T c) = {}) \<and>
     rchain (objs s) (reclaimed_key_list_page (xattr_page s)) rk \<and> distinct rk \<and>
     (\<forall>n < 4. count (xattr_page s) n = (\<Sum>h < MAX_KEY_HASH_ENTRY. length (all_entries (T (n, h)))))"

lemma kinvD:
  assumes "kinv s T rk"
  shows "shape (xattr_page s)" "bucket b \<Longrightarrow> kchain (objs s) (tab (xattr_page s) b) (T b)" "bucket b \<Longrightarrow> bucket_ok (snd b) (T b)"
    "bucket b \<Longrightarrow> kpos (T b) \<inter> set rk = {}" "bucket b \<Longrightarrow> bucket c \<Longrightarrow> b \<noteq> c \<Longrightarrow> kpos (T b) \<inter> kpos (T c) = {}"
    "rchain (objs s) (reclaimed_key_list_page (xattr_page s)) rk" "distinct rk"
    "n < 4 \<Longrightarrow> count (xattr_page s) n = (\<Sum>h < MAX_KEY_HASH_ENTRY. length (all_entries (T (n, h))))"
  using assms unfolding kinv_def by blast+

lemma kinv_key_page:
  assumes "kinv s T rk" and "bucket b" and "q \<in> kpos (T b)"
  shows "\<exists>k. objs s q = Some (Key_Page k)"
proof -
  obtain es where "(q, es) \<in> set (T b)" using assms(3) by force
  then show ?thesis using kchain_page [OF kinvD(2) [OF assms(1,2)]] by blast
qed

text \<open>What does not touch key pages keeps the invariant of the keys.\<close>

lemma kinv_frame:
  assumes inv: "kinv s T rk" and o: "\<And>q k. objs s q = Some (Key_Page k) \<Longrightarrow> objs s' q = objs s q"
    and x: "namespace_page (xattr_page s') = namespace_page (xattr_page s)" "reclaimed_key_list_page (xattr_page s') = reclaimed_key_list_page (xattr_page s)"
  shows "kinv s' T rk"
proof -
  have t: "tab (xattr_page s') b = tab (xattr_page s) b" "count (xattr_page s') n = count (xattr_page s) n" "shape (xattr_page s') = shape (xattr_page s)" for b n
    using x by (simp_all add: tab_def table_at_def count_def shape_def)
  have "kchain (objs s') (tab (xattr_page s) b) (T b)" if b: "bucket b" for b
    using kchain_cong [of "T b" "objs s'" "objs s"] kinv_key_page [OF inv b] o kinvD(2) [OF inv b] by metis
  moreover have "rchain (objs s') (reclaimed_key_list_page (xattr_page s)) rk"
    using rchain_cong [of rk "objs s'" "objs s"] rchain_page [OF kinvD(6) [OF inv]] o kinvD(6) [OF inv] by metis
  ultimately show ?thesis using inv unfolding kinv_def t x by blast
qed

text \<open>A change to one bucket: \<open>W\<close> are the key pages written.\<close>

lemma kinv_bucket:
  assumes inv: "kinv s T rk" and b: "bucket b" and sh: "shape (xattr_page s')"
    and tb: "\<And>c. bucket c \<Longrightarrow> c \<noteq> b \<Longrightarrow> tab (xattr_page s') c = tab (xattr_page s) c"
    and ch: "kchain (objs s') (tab (xattr_page s') b) xs" and ok: "bucket_ok (snd b) xs"
    and rc: "rchain (objs s') (reclaimed_key_list_page (xattr_page s')) rk'" "distinct rk'" "kpos xs \<inter> set rk' = {}"
    and keep: "\<And>q k. objs s q = Some (Key_Page k) \<Longrightarrow> q \<notin> W \<Longrightarrow> objs s' q = objs s q"
    and others: "\<And>c. bucket c \<Longrightarrow> c \<noteq> b \<Longrightarrow> (W \<union> kpos xs \<union> set rk') \<inter> kpos (T c) = {}"
    and cnt: "\<And>n. n < 4 \<Longrightarrow> n \<noteq> fst b \<Longrightarrow> count (xattr_page s') n = count (xattr_page s) n"
      "count (xattr_page s') (fst b) + length (all_entries (T b)) = count (xattr_page s) (fst b) + length (all_entries xs)"
  shows "kinv s' (T(b := xs)) rk'"
proof -
  let ?T = "T(b := xs)"
  have "kchain (objs s') (tab (xattr_page s') c) (?T c) \<and> bucket_ok (snd c) (?T c) \<and> kpos (?T c) \<inter> set rk' = {}" if c: "bucket c" for c
  proof (cases "c = b")
    case False
    have "objs s' q = objs s q" if "q \<in> kpos (T c)" for q
      using kinv_key_page [OF inv c that] keep others [OF c False] that by blast
    then have "kchain (objs s') (tab (xattr_page s') c) (T c)"
      using kchain_cong [of "T c" "objs s'" "objs s"] kinvD(2) [OF inv c] tb [OF c False] by simp
    then show ?thesis using kinvD(3) [OF inv c] others [OF c False] False by auto
  qed (use ch ok rc in simp)
  moreover have "kpos (?T c) \<inter> kpos (?T d) = {}" if cd: "bucket c" "bucket d" "c \<noteq> d" for c d
  proof -
    have o: "kpos xs \<inter> kpos (T e) = {}" if "bucket e" "e \<noteq> b" for e using others [OF that] by blast
    show ?thesis
    proof (cases "c = b")
      case True
      then show ?thesis using o [OF cd(2)] cd(3) by simp
    next
      case False
      then show ?thesis using o [OF cd(1)] kinvD(5) [OF inv cd] Int_commute [of "kpos xs" "kpos (T c)"] by (cases "d = b") simp_all
    qed
  qed
  moreover have "count (xattr_page s') n = (\<Sum>h < MAX_KEY_HASH_ENTRY. length (all_entries (?T (n, h))))" if n: "n < 4" for n
  proof (cases "n = fst b")
    case True
    have "(\<Sum>h < MAX_KEY_HASH_ENTRY. length (all_entries (?T (n, h)))) + length (all_entries (T b)) =
        (\<Sum>h < MAX_KEY_HASH_ENTRY. length (all_entries (T (n, h)))) + length (all_entries xs)"
    proof -
      have "(\<Sum>h \<in> {..<MAX_KEY_HASH_ENTRY} - {snd b}. length (all_entries (?T (n, h)))) = (\<Sum>h \<in> {..<MAX_KEY_HASH_ENTRY} - {snd b}. length (all_entries (T (n, h))))"
        by (rule sum.cong) (auto simp: prod_eq_iff)
      then show ?thesis using b True sum.remove [of "{..<MAX_KEY_HASH_ENTRY}" "snd b" "\<lambda>h. length (all_entries (?T (n, h)))"]
        sum.remove [of "{..<MAX_KEY_HASH_ENTRY}" "snd b" "\<lambda>h. length (all_entries (T (n, h)))"] by simp
    qed
    then show ?thesis using cnt(2) [folded True] kinvD(8) [OF inv n] by linarith
  next
    case False
    have "(\<Sum>h < MAX_KEY_HASH_ENTRY. length (all_entries (?T (n, h)))) = (\<Sum>h < MAX_KEY_HASH_ENTRY. length (all_entries (T (n, h))))"
      by (rule sum.cong) (use False in \<open>auto simp: prod_eq_iff\<close>)
    then show ?thesis using cnt(1) [OF n False] kinvD(8) [OF inv n] by simp
  qed
  ultimately show ?thesis using sh rc(1,2) unfolding kinv_def by blast
qed

subsection \<open>The values of all keys\<close>

definition ent :: "(nat \<times> nat \<Rightarrow> (nat \<times> KEY_ENTRY list) list) \<Rightarrow> nat \<times> string \<Rightarrow> KEY_ENTRY option" where
  "ent T a = (if fst a < 4 then bmap (T (fst a, xhash (snd a))) (snd a) else None)"

lemma xhash_less [simp]: "xhash k < MAX_KEY_HASH_ENTRY"
  by (simp add: xhash_def)

lemma ent_set:
  assumes "n < 4" and "bmap xs = (bmap (T (n, xhash k)))(k := e)"
  shows "ent (T((n, xhash k) := xs)) = (ent T)((n, k) := e)"
  using assms by (auto simp: ent_def fun_eq_iff)

lemma ent_replace:
  assumes inv: "kinv s T rk" and n: "n < 4" and ok: "bucket_ok h xs" and h: "h = xhash k" and k: "key_of e = k"
    and all: "set (all_entries xs) = insert e {x \<in> set (all_entries (T (n, h))). key_of x \<noteq> k}"
  shows "ent (T((n, h) := xs)) = (ent T)((n, k) \<mapsto> e)"
  using ent_set [of n xs T k "Some e"] bmap_set [OF _ ok, of "T (n, h)" e] kinvD(3) [OF inv, of "(n, h)"] n h k all by simp

lemma ent_remove:
  assumes inv: "kinv s T rk" and n: "n < 4" and ok: "bucket_ok h xs" and h: "h = xhash k"
    and all: "set (all_entries xs) = {x \<in> set (all_entries (T (n, h))). key_of x \<noteq> k}"
  shows "ent (T((n, h) := xs)) = (ent T)((n, k) := None)"
  using ent_set [of n xs T k None] bmap_remove [OF _ ok, of "T (n, h)" k] kinvD(3) [OF inv, of "(n, h)"] n h all by simp

definition vals_ok :: "(nat \<Rightarrow> xobj option) \<Rightarrow> KEY_ENTRY \<Rightarrow> nat list \<Rightarrow> bool" where
  "vals_ok m e ps \<longleftrightarrow> ps \<noteq> [] \<and> distinct ps \<and> vchain m (first_value_block_pos e) ps \<and> length ps = nblocks (value_size e)"

definition vinv :: "x_state \<Rightarrow> (nat \<times> string \<Rightarrow> KEY_ENTRY option) \<Rightarrow> (nat \<times> string \<Rightarrow> nat list) \<Rightarrow> nat list \<Rightarrow> bool" where
  "vinv s E vs rv \<longleftrightarrow> vchain (objs s) (reclaimed_value_block (xattr_page s)) rv \<and> distinct rv \<and>
     (\<forall>a e. E a = Some e \<longrightarrow> vals_ok (objs s) e (vs a) \<and> set (vs a) \<inter> set rv = {}) \<and>
     (\<forall>a b. E a \<noteq> None \<and> E b \<noteq> None \<and> a \<noteq> b \<longrightarrow> set (vs a) \<inter> set (vs b) = {})"

lemma vinvD:
  assumes "vinv s E vs rv"
  shows "vchain (objs s) (reclaimed_value_block (xattr_page s)) rv" "distinct rv" "E a = Some e \<Longrightarrow> vals_ok (objs s) e (vs a)"
    "E a = Some e \<Longrightarrow> set (vs a) \<inter> set rv = {}" "E a = Some e \<Longrightarrow> E b = Some d \<Longrightarrow> a \<noteq> b \<Longrightarrow> set (vs a) \<inter> set (vs b) = {}"
  using assms unfolding vinv_def by blast+

definition value_at :: "x_state \<Rightarrow> (nat \<times> string \<Rightarrow> nat list) \<Rightarrow> nat \<times> string \<Rightarrow> KEY_ENTRY \<Rightarrow> string" where
  "value_at s vs a e = take (value_size e) (vbytes (objs s) (vs a))"

text \<open>What does not touch value blocks keeps the invariant of the values.\<close>

lemma vals_ok_cong: "(\<And>q. q \<in> set ps \<Longrightarrow> m' q = m q) \<Longrightarrow> vals_ok m' e ps = vals_ok m e ps"
  using vchain_cong [of ps m' m] by (auto simp: vals_ok_def)

lemma vbytes_cong: "(\<And>q. q \<in> set ps \<Longrightarrow> m' q = m q) \<Longrightarrow> vbytes m' ps = vbytes m ps"
  by (auto simp: vbytes_def block_bytes_def intro!: arg_cong [of _ _ concat])

lemma vals_value: "vals_ok m e ps \<Longrightarrow> q \<in> set ps \<Longrightarrow> \<exists>v. m q = Some (Value v)"
  unfolding vals_ok_def using vchain_value by blast

lemma vinv_frame:
  assumes inv: "vinv s E vs rv" and o: "\<And>q v. objs s q = Some (Value v) \<Longrightarrow> objs s' q = objs s q"
    and x: "reclaimed_value_block (xattr_page s') = reclaimed_value_block (xattr_page s)"
  shows "vinv s' E vs rv" "E a = Some e \<Longrightarrow> value_at s' vs a e = value_at s vs a e"
proof -
  have same: "objs s' q = objs s q" if "E a = Some e" "q \<in> set (vs a)" for a e q using vals_value [OF vinvD(3) [OF inv that(1)] that(2)] o by blast
  have "vals_ok (objs s') e (vs a)" if "E a = Some e" for a e
    using vals_ok_cong [of "vs a" "objs s'" "objs s"] same [OF that] vinvD(3) [OF inv that] by blast
  moreover have "vchain (objs s') (reclaimed_value_block (xattr_page s)) rv"
    using vchain_cong [of rv "objs s'" "objs s"] vchain_value [OF vinvD(1) [OF inv]] o vinvD(1) [OF inv] by metis
  ultimately show "vinv s' E vs rv" using inv unfolding vinv_def x by blast
  show "value_at s' vs a e = value_at s vs a e" if "E a = Some e"
    unfolding value_at_def using vbytes_cong [of "vs a" "objs s'" "objs s"] same [OF that] by simp
qed

text \<open>A new value for one key, and no value for one key.  The blocks of the key are \<open>old\<close>.\<close>

lemma vinv_set:
  assumes inv: "vinv s E vs rv" and old: "old = (case E a of None \<Rightarrow> [] | Some _ \<Rightarrow> vs a)"
    and o: "\<And>q v. objs s q = Some (Value v) \<Longrightarrow> q \<notin> set (old @ rv) \<Longrightarrow> objs s' q = objs s q"
    and new: "vals_ok (objs s') e ps" "vchain (objs s') (reclaimed_value_block (xattr_page s')) rv'" "distinct (ps @ rv')"
      "\<And>q v. q \<in> set (ps @ rv') \<Longrightarrow> objs s q = Some (Value v) \<Longrightarrow> q \<in> set (old @ rv)"
  shows "vinv s' (E(a \<mapsto> e)) (vs(a := ps)) rv'" "b \<noteq> a \<Longrightarrow> E b = Some d \<Longrightarrow> value_at s' (vs(a := ps)) b d = value_at s vs b d"
proof -
  have apart: "set (vs b) \<inter> set (old @ rv) = {}" if b: "b \<noteq> a" "E b = Some d" for b d
  proof (cases "E a")
    case None
    then show ?thesis using vinvD(4) [OF inv b(2)] old by simp
  next
    case (Some e0)
    then show ?thesis using vinvD(4) [OF inv b(2)] vinvD(5) [OF inv b(2) Some b(1)] old by auto
  qed
  have same: "objs s' q = objs s q" if b: "b \<noteq> a" "E b = Some d" "q \<in> set (vs b)" for b d q
    using vals_value [OF vinvD(3) [OF inv b(2)] b(3)] o apart [OF b(1,2)] b(3) by blast
  have out: "set (vs b) \<inter> set (ps @ rv') = {}" if b: "b \<noteq> a" "E b = Some d" for b d
    using vals_value [OF vinvD(3) [OF inv b(2)]] new(4) apart [OF b] by blast
  have "vals_ok (objs s') d (vs b)" if "b \<noteq> a" "E b = Some d" for b d
    using vals_ok_cong [of "vs b" "objs s'" "objs s"] same [OF that] vinvD(3) [OF inv that(2)] by blast
  then have "vals_ok (objs s') d ((vs(a := ps)) b) \<and> set ((vs(a := ps)) b) \<inter> set rv' = {}" if "(E(a \<mapsto> e)) b = Some d" for b d
    using that new(1,3) out [of b d] by (cases "b = a") auto
  moreover have "set ((vs(a := ps)) b) \<inter> set ((vs(a := ps)) c) = {}" if bc: "(E(a \<mapsto> e)) b \<noteq> None" "(E(a \<mapsto> e)) c \<noteq> None" "b \<noteq> c" for b c
  proof -
    have one: "set ps \<inter> set (vs b) = {}" if "b \<noteq> a" "E b \<noteq> None" for b using out [of b] that by auto
    have two: "set (vs b) \<inter> set (vs c) = {}" if "E b \<noteq> None" "E c \<noteq> None" using vinvD(5) [OF inv] that bc(3) by blast
    show ?thesis
    proof (cases "b = a")
      case True
      then show ?thesis using one [of c] bc by simp
    next
      case False
      then show ?thesis using one [of b] two bc Int_commute [of "set ps" "set (vs b)"] by (cases "c = a") simp_all
    qed
  qed
  ultimately show "vinv s' (E(a \<mapsto> e)) (vs(a := ps)) rv'" using new(2,3) unfolding vinv_def by auto
  show "value_at s' (vs(a := ps)) b d = value_at s vs b d" if "b \<noteq> a" "E b = Some d"
    unfolding value_at_def using vbytes_cong [of "vs b" "objs s'" "objs s"] same [OF that] that(1) by simp
qed

lemma vinv_remove:
  assumes inv: "vinv s E vs rv" and a: "E a = Some e"
    and o: "\<And>q v. objs s q = Some (Value v) \<Longrightarrow> q \<notin> set (vs a) \<Longrightarrow> objs s' q = objs s q"
    and new: "vchain (objs s') (reclaimed_value_block (xattr_page s')) (vs a @ rv)"
  shows "vinv s' (E(a := None)) vs (vs a @ rv)" "b \<noteq> a \<Longrightarrow> E b = Some d \<Longrightarrow> value_at s' vs b d = value_at s vs b d"
proof -
  have apart: "set (vs b) \<inter> set (vs a @ rv) = {}" if b: "b \<noteq> a" "E b = Some d" for b d
    using vinvD(4) [OF inv b(2)] vinvD(5) [OF inv b(2) a b(1)] by auto
  have same: "objs s' q = objs s q" if b: "b \<noteq> a" "E b = Some d" "q \<in> set (vs b)" for b d q
  proof -
    have "q \<notin> set (vs a)" using apart [OF b(1,2)] b(3) by auto
    then show ?thesis using vals_value [OF vinvD(3) [OF inv b(2)] b(3)] o by blast
  qed
  have v: "vals_ok (objs s') d (vs b)" if "b \<noteq> a" "E b = Some d" for b d
    using vals_ok_cong [of "vs b" "objs s'" "objs s"] same [OF that] vinvD(3) [OF inv that(2)] by blast
  have "vals_ok (objs s') d (vs b) \<and> set (vs b) \<inter> set (vs a @ rv) = {}" if "(E(a := None)) b = Some d" for b d
    using that v [of b d] apart [of b d] by (cases "b = a") simp_all
  moreover have "distinct (vs a @ rv)" using vinvD(2,4) [OF inv] vinvD(3) [OF inv a] a by (auto simp: vals_ok_def)
  moreover have "set (vs b) \<inter> set (vs c) = {}" if bc: "(E(a := None)) b \<noteq> None" "(E(a := None)) c \<noteq> None" "b \<noteq> c" for b c
  proof -
    obtain d d' where "E b = Some d" "E c = Some d'" using bc(1,2) by (auto split: if_splits)
    then show ?thesis using vinvD(5) [OF inv _ _ bc(3)] by blast
  qed
  ultimately show "vinv s' (E(a := None)) vs (vs a @ rv)" using new unfolding vinv_def by blast
  show "value_at s' vs b d = value_at s vs b d" if "b \<noteq> a" "E b = Some d"
    unfolding value_at_def using vbytes_cong [of "vs b" "objs s'" "objs s"] same [OF that] that(1) by simp
qed

end
