(* ===== verification/Xattr_Run.thy ===== *)
theory Xattr_Run
  imports Xattr_Inv
begin

text \<open>
  The runs of the operations on the attributes, against a map from name space and key to the value.
\<close>

definition xrel :: "nat \<Rightarrow> (nat \<times> string \<Rightarrow> string option) \<Rightarrow> x_state \<Rightarrow> bool" where
  "xrel pos M s \<longleftrightarrow> x_os s = [] \<and> file_ok s \<and> objs s pos = Some (Head (xattr_page s)) \<and>
     (\<exists>T rk vs rv. kinv s T rk \<and> vinv s (ent T) vs rv \<and> (\<forall>a. M a = map_option (value_at s vs a) (ent T a)))"

lemma value_at_length:
  assumes "vals_ok (objs s) e (vs a)"
  shows "length (value_at s vs a e) = value_size e" "value_size e \<noteq> 0"
proof -
  have "vchain m p ps \<Longrightarrow> length (vbytes m ps) = 256 * length ps" for m p ps
  proof (induction ps arbitrary: p)
    case (Cons q ps)
    then show ?case by (auto simp: block_bytes_def)
  qed (simp add: vbytes_def)
  then have "length (vbytes (objs s) (vs a)) = 256 * nblocks (value_size e)" using assms by (auto simp: vals_ok_def)
  moreover have "value_size e \<le> 256 * nblocks (value_size e)" by (simp add: nblocks_def)
  ultimately show "length (value_at s vs a e) = value_size e" by (simp add: value_at_def)
  have "nblocks (value_size e) \<noteq> 0" using assms unfolding vals_ok_def by (metis length_0_conv)
  then show "value_size e \<noteq> 0" by (cases "value_size e") (simp_all add: nblocks_def)
qed

subsection \<open>Finding a key\<close>

lemma no_bucket: "kinv s T rk \<Longrightarrow> n < 4 \<Longrightarrow> table_at (xattr_page s) n (xhash k) = 0 \<longleftrightarrow> T (n, xhash k) = []"
  using kinvD(2) [of s T rk "(n, xhash k)"] kchain_first by (force simp: tab_def)

lemma find_key:
  assumes "x_os s = []" and "file_ok s" and inv: "kinv s T rk" and n: "n < 4" and "table_at (xattr_page s) n (xhash k) \<noteq> 0"
  obtains r where "find_key_entry (table_at (xattr_page s) n (xhash k)) k s = (Inr r, s)" and "found (objs s) (T (n, xhash k)) k zero_key_page 0 None r"
proof -
  have b: "bucket (n, xhash k)" using n by simp
  have "T (n, xhash k) \<noteq> []" using no_bucket [OF inv n, of k] assms(5) by blast
  from find_key_entry_spec [OF assms(1,2) kinvD(2) [OF inv b] this kinvD(3) [OF inv b], of k] show thesis using that by (auto simp: tab_def)
qed

lemma hit_ent:
  assumes inv: "kinv s T rk" and n: "n < 4" and h: "hit_at (objs s) (T (n, xhash k)) k pg i q pv pp"
  shows "ent T (n, k) = Some (key_list pg ! i)" "key_of (key_list pg ! i) = k"
proof -
  obtain us es ws where x: "T (n, xhash k) = us @ (q, es) # ws" "i < length es" "key_of (es ! i) = k" "key_list pg ! i = es ! i"
    using h unfolding hit_at_def by blast
  have "bmap (T (n, xhash k)) k = Some (es ! i)" using bmap_Some [OF kinvD(3) [OF inv, of "(n, xhash k)"]] n x by simp
  then show "ent T (n, k) = Some (key_list pg ! i)" "key_of (key_list pg ! i) = k" using n x(3,4) by (simp_all add: ent_def)
qed

lemma miss_ent: "n < 4 \<Longrightarrow> k \<notin> key_of ` set (all_entries (T (n, xhash k))) \<Longrightarrow> ent T (n, k) = None"
  by (simp add: ent_def bmap_None)

lemma get_xattr_out_spec:
  assumes rel: "xrel pos M s" and n: "n < 4"
  shows "get_xattr_out n k sz s = (case M (n, k) of None \<Rightarrow> (Inl (Errno ENODATA), 0)
     | Some v \<Rightarrow> (if sz = 0 then Inr [] else if sz < length v then Inl (Errno ERANGE) else Inr v, length v), s)"
proof -
  obtain T rk vs rv where os: "x_os s = []" and f: "file_ok s" and inv: "kinv s T rk" "vinv s (ent T) vs rv"
    and M: "\<And>a. M a = map_option (value_at s vs a) (ent T a)" using rel unfolding xrel_def by blast
  show ?thesis
  proof (cases "table_at (xattr_page s) n (xhash k) = 0")
    case True
    then have "M (n, k) = None" using no_bucket [OF inv(1) n] M miss_ent [OF n, of k T] by simp
    then show ?thesis using True by (simp add: get_xattr_out_def)
  next
    case False
    obtain r where r: "find_key_entry (table_at (xattr_page s) n (xhash k)) k s = (Inr r, s)" "found (objs s) (T (n, xhash k)) k zero_key_page 0 None r"
      using find_key [OF os f inv(1) n False] .
    show ?thesis
    proof (cases r)
      case (Hit pg i q pv pp)
      have e: "ent T (n, k) = Some (key_list pg ! i)" using hit_ent(1) [OF inv(1) n, of k pg i q pv pp] r(2) Hit by (simp add: found_def)
      let ?e = "key_list pg ! i"
      note v = vinvD(3) [OF inv(2) e]
      have "read_value_data (value_size ?e) (first_value_block_pos ?e) s = (Inr (value_at s vs (n, k) ?e), s)"
        using read_value_data_spec [OF os, of _ "vs (n, k)" "value_size ?e"] v by (simp add: vals_ok_def value_at_def)
      then show ?thesis using False r(1) Hit M [of "(n, k)"] e value_at_length [of s ?e vs "(n, k)", OF v] by (simp add: get_xattr_out_def Let_def)
    next
      case (Miss pg j q)
      then have "M (n, k) = None" using r(2) M miss_ent [OF n] by (simp add: found_def)
      then show ?thesis using False r(1) Miss by (simp add: get_xattr_out_def)
    qed
  qed
qed

lemma get_xattr_spec:
  assumes "xrel pos M s" and "n < 4"
  shows "get_xattr n k sz s = (case M (n, k) of None \<Rightarrow> Inl (Errno ENODATA)
     | Some v \<Rightarrow> if sz = 0 then Inr ([], length v) else if sz < length v then Inl (Errno ERANGE) else Inr (v, length v), s)"
  using get_xattr_out_spec [OF assms, of k sz] by (auto simp: get_xattr_def split: option.splits)

subsection \<open>The tables\<close>

lemma shape_set [simp]: "shape x \<Longrightarrow> shape (set_table n h p x)" "shape x \<Longrightarrow> shape (set_count n g x)"
  by (cases "n < 4"; auto simp: shape_def set_table_def set_count_def nth_list_update)+

lemma set_fields [simp]:
  "reclaimed_key_list_page (set_table n h p x) = reclaimed_key_list_page x" "reclaimed_value_block (set_table n h p x) = reclaimed_value_block x"
  "reclaimed_key_list_page (set_count n g x) = reclaimed_key_list_page x" "reclaimed_value_block (set_count n g x) = reclaimed_value_block x"
  by (simp_all add: set_table_def set_count_def)

lemma tab_set:
  assumes "shape x" and "n < 4" and "h < MAX_KEY_HASH_ENTRY" and "bucket b"
  shows "tab (set_table n h p x) b = (if b = (n, h) then p else tab x b)" "tab (set_count n g x) b = tab x b"
  using assms by (auto simp: tab_def table_at_def set_table_def set_count_def shape_def nth_list_update prod_eq_iff)

lemma count_set:
  assumes "shape x" and "n < 4" and "m < 4"
  shows "count (set_table n h p x) m = count x m" "count (set_count n g x) m = (if m = n then g (count x m) else count x m)"
  using assms by (auto simp: count_def set_table_def set_count_def shape_def nth_list_update)

subsection \<open>Steps that write key pages only\<close>

definition kstep :: "nat \<Rightarrow> x_state \<Rightarrow> x_state \<Rightarrow> bool" where
  "kstep n s s' \<longleftrightarrow> file_ok s' \<and> x_os s' = [] \<and> marked_dirty s' = marked_dirty s \<and> x_end s \<le> x_end s' \<and> x_end s' \<le> x_end s + n \<and>
     (\<forall>q < x_end s. objs s' q = objs s q \<or> (\<exists>k k'. objs s q = Some (Key_Page k) \<and> objs s' q = Some (Key_Page k')))"

lemma kstep_trans:
  assumes "kstep n s s1" and "kstep m s1 s2"
  shows "kstep (n + m) s s2"
proof -
  have "objs s2 q = objs s q \<or> (\<exists>k k'. objs s q = Some (Key_Page k) \<and> objs s2 q = Some (Key_Page k'))" if "q < x_end s" for q
  proof -
    have "q < x_end s1" using assms(1) that by (simp add: kstep_def)
    then show ?thesis using assms that unfolding kstep_def by metis
  qed
  then show ?thesis using assms unfolding kstep_def by auto
qed

lemma kstep_refl: "file_ok s \<Longrightarrow> x_os s = [] \<Longrightarrow> kstep 0 s s"
  by (simp add: kstep_def)

lemma kstep_page: "file_ok s \<Longrightarrow> x_os s = [] \<Longrightarrow> kstep 0 s (s\<lparr>xattr_page := x\<rparr>)"
  by (simp add: kstep_def file_ok_def)

lemma write_key_page:
  assumes "file_ok s" and "x_os s = []" and "objs s q = Some (Key_Page k0)"
  shows "write_obj (Key_Page k) q s = (Inr (), s\<lparr>objs := (objs s)(q \<mapsto> Key_Page k)\<rparr>)" "kstep 0 s (s\<lparr>objs := (objs s)(q \<mapsto> Key_Page k)\<rparr>)"
  using assms file_ok_pos [OF assms(1,3)] file_ok_put [OF assms(1)] by (auto simp: write_obj_ok kstep_def)

lemma vframe_kstep: "vframe {} s s' \<Longrightarrow> x_end s' \<le> x_end s + n \<Longrightarrow> kstep n s s'"
  by (simp add: vframe_def kstep_def)

lemma kstep_value: "kstep n s s' \<Longrightarrow> file_ok s \<Longrightarrow> objs s q = Some (Value v) \<Longrightarrow> objs s' q = objs s q"
  using file_ok_pos [of s q] unfolding kstep_def by fastforce

lemma kstep_head: "kstep n s s' \<Longrightarrow> file_ok s \<Longrightarrow> objs s q = Some (Head x) \<Longrightarrow> objs s' q = objs s q"
  using file_ok_pos [of s q] unfolding kstep_def by fastforce

text \<open>A page nobody points to.\<close>

definition kfree :: "x_state \<Rightarrow> (nat \<times> nat \<Rightarrow> (nat \<times> KEY_ENTRY list) list) \<Rightarrow> nat list \<Rightarrow> nat \<Rightarrow> bool" where
  "kfree s T rk u \<longleftrightarrow> u \<noteq> 0 \<and> (\<exists>k. objs s u = Some (Key_Page k)) \<and> u \<notin> set rk \<and> (\<forall>b. bucket b \<longrightarrow> u \<notin> kpos (T b))"

lemma get_usable_key_list_filepos_spec:
  assumes os: "x_os s = []" and f: "file_ok s" and inv: "kinv s T rk"
  obtains u rk1 s1 where "get_usable_key_list_filepos s = (Inr u, s1)" and "kinv s1 T rk1" and "kfree s1 T rk1 u" and "kstep 1100 s s1"
    and "reclaimed_value_block (xattr_page s1) = reclaimed_value_block (xattr_page s)" and "namespace_page (xattr_page s1) = namespace_page (xattr_page s)"
    and "\<And>q. q < x_end s \<Longrightarrow> objs s1 q = objs s q"
proof (cases rk)
  case Nil
  let ?s1 = "s\<lparr>objs := (objs s)(x_end s \<mapsto> Key_Page zero_key_page), x_end := x_end s + 1100\<rparr>"
  have z: "reclaimed_key_list_page (xattr_page s) = 0" using kinvD(6) [OF inv] Nil by simp
  have n: "objs s (x_end s) = None" "x_end s \<noteq> 0" using f by (auto simp: file_ok_def)
  show thesis
  proof (rule that)
    show "get_usable_key_list_filepos s = (Inr (x_end s), ?s1)" using z os by (simp add: get_usable_key_list_filepos_def seek_eof_ok write_obj_new)
    show "kinv ?s1 T rk" by (rule kinv_frame [OF inv]) (use n in auto)
    show "kfree ?s1 T rk (x_end s)" using n(2) kinv_key_page [OF inv] n(1) Nil by (force simp: kfree_def)
    show "kstep 1100 s ?s1" using file_ok_append [OF f, of 1100] os by (simp add: kstep_def)
  qed simp_all
next
  case (Cons u rk1)
  obtain k where k: "reclaimed_key_list_page (xattr_page s) = u" "u \<noteq> 0" "objs s u = Some (Key_Page k)" "rchain (objs s) (next_list_pos k) rk1"
    using kinvD(6) [OF inv] Cons by auto
  let ?s1 = "s\<lparr>xattr_page := (xattr_page s)\<lparr>reclaimed_key_list_page := next_list_pos k\<rparr>\<rparr>"
  have t: "tab (xattr_page ?s1) = tab (xattr_page s)" "count (xattr_page ?s1) = count (xattr_page s)" "shape (xattr_page ?s1) = shape (xattr_page s)"
    by (simp_all add: tab_def table_at_def count_def shape_def fun_eq_iff)
  show thesis
  proof (rule that)
    show "get_usable_key_list_filepos s = (Inr u, ?s1)" using k os by (simp add: get_usable_key_list_filepos_def read_key_page_ok upd_page_run)
    show "kinv ?s1 T rk1" using inv Cons k(4) unfolding kinv_def t by auto
    show "kfree ?s1 T rk1 u" using k kinvD(7) [OF inv] kinvD(4) [OF inv] Cons by (auto simp: kfree_def)
    show "kstep 1100 s ?s1" using f os by (simp add: kstep_def file_ok_def)
  qed simp_all
qed

subsection \<open>The key of a new value\<close>

text \<open>
  After the first step of \<^verbatim>\<open>insert_xattr\<close>: the key \<open>a\<close> has an entry of the new size that points to the block \<open>p\<close>, and \<open>p\<close>, the blocks \<open>rs\<close> still to
  replace and the reclaimed blocks \<open>rv'\<close> are the old blocks of the key and the reclaimed blocks, or new.
\<close>

definition prepared :: "x_state \<Rightarrow> (nat \<times> string \<Rightarrow> KEY_ENTRY option) \<Rightarrow> nat list \<Rightarrow> nat list \<Rightarrow> nat \<times> string \<Rightarrow> nat \<Rightarrow> nat \<Rightarrow> nat \<Rightarrow> x_state \<Rightarrow> bool" where
  "prepared s E old rv a sz p rep s' \<longleftrightarrow> kstep 1364 s s' \<and>
     (\<exists>T rk e rs rv'. kinv s' T rk \<and> ent T = E(a \<mapsto> e) \<and> value_size e = sz \<and> first_value_block_pos e = p \<and>
       vpool s' rep rs rv' \<and> p \<notin> set (rs @ rv') \<and> (\<exists>v. objs s' p = Some (Value v)) \<and>
       (\<forall>q \<in> set (p # rs @ rv'). q \<in> set (old @ rv) \<or> x_end s \<le> q))"

lemma take_value:
  assumes "x_os s = []" and "file_ok s" and "vpool s rep rs rv" and "x_end s < 2 ^ 31"
  obtains p rep' rs' rv' s' where "get_usable_value_filepos rep s = (Inr (p, rep'), s')" and "kstep 264 s s'" and "vpool s' rep' rs' rv'"
    and "\<exists>v. objs s' p = Some (Value v)" and "p \<notin> set (rs' @ rv')" and "\<forall>q \<in> set (p # rs' @ rv'). q \<in> set (rs @ rv) \<or> x_end s \<le> q"
    and "\<And>q. q < x_end s \<Longrightarrow> objs s' q = objs s q" and "(xattr_page s')\<lparr>reclaimed_value_block := 0\<rparr> = (xattr_page s)\<lparr>reclaimed_value_block := 0\<rparr>"
    and "rs = [] \<Longrightarrow> rs' = []" and "rs \<noteq> [] \<Longrightarrow> p = hd rs"
proof -
  obtain p rep' rs' rv' s' where t: "get_usable_value_filepos rep s = (Inr (p, rep'), s')" "took rs rv s p rep' rs' rv' s'"
    using get_usable_value_filepos_spec [OF assms] .
  have fr: "vframe {} s s'" "x_end s' \<le> x_end s + 264" using t(2) by (simp_all add: took_def)
  show thesis
  proof (rule that [OF t(1)])
    show "kstep 264 s s'" by (rule vframe_kstep [OF fr])
    show "vpool s' rep' rs' rv'" "\<exists>v. objs s' p = Some (Value v)" "p \<notin> set (rs' @ rv')" using t(2) by (auto simp: took_def)
    show "\<forall>q \<in> set (p # rs' @ rv'). q \<in> set (rs @ rv) \<or> x_end s \<le> q" using t(2) unfolding took_def by auto
    show "objs s' q = objs s q" if "q < x_end s" for q using fr(1) that by (simp add: vframe_def)
    show "(xattr_page s')\<lparr>reclaimed_value_block := 0\<rparr> = (xattr_page s)\<lparr>reclaimed_value_block := 0\<rparr>" using fr(1) by (simp add: vframe_def)
    show "rs = [] \<Longrightarrow> rs' = []" "rs \<noteq> [] \<Longrightarrow> p = hd rs" using t(2) by (simp_all add: took_def)
  qed
qed

lemma page_eq_fields:
  assumes "x'\<lparr>reclaimed_value_block := 0\<rparr> = x\<lparr>reclaimed_value_block := (0::nat)\<rparr>"
  shows "namespace_page x' = namespace_page x" "reclaimed_key_list_page x' = reclaimed_key_list_page x"
    "tab x' = tab x" "count x' = count x" "shape x' = shape x"
proof -
  show f: "namespace_page x' = namespace_page x" "reclaimed_key_list_page x' = reclaimed_key_list_page x"
    using arg_cong [OF assms, of namespace_page] arg_cong [OF assms, of reclaimed_key_list_page] by simp_all
  show "tab x' = tab x" "count x' = count x" "shape x' = shape x" using f by (simp_all add: tab_def table_at_def count_def shape_def fun_eq_iff)
qed

text \<open>A new entry in a bucket: the page \<open>q\<close> is written last and the count goes up.\<close>

lemma new_entry_kinv:
  assumes inv: "kinv s T rk" and b: "b = (n, xhash k)" "n < 4" and e: "key_of e = k" and absent: "ent T (n, k) = None"
    and sh: "shape (xattr_page s')" and tb: "\<And>c. bucket c \<Longrightarrow> c \<noteq> b \<Longrightarrow> tab (xattr_page s') c = tab (xattr_page s) c"
    and ch: "kchain (objs s') (tab (xattr_page s') b) xs" and ok: "bucket_ok (snd b) xs"
    and rc: "reclaimed_key_list_page (xattr_page s') = reclaimed_key_list_page (xattr_page s)"
    and keep: "\<And>q k. objs s q = Some (Key_Page k) \<Longrightarrow> q \<notin> W \<Longrightarrow> objs s' q = objs s q"
    and W: "\<And>q. q \<in> W \<union> kpos xs \<Longrightarrow> q \<in> kpos (T b) \<or> kfree s T rk q"
    and cnt: "\<And>m. m < 4 \<Longrightarrow> count (xattr_page s') m = (if m = n then Suc (count (xattr_page s) m) else count (xattr_page s) m)"
    and all: "set (all_entries xs) = insert e (set (all_entries (T b)))"
  shows "kinv s' (T(b := xs)) rk \<and> ent (T(b := xs)) = (ent T)((n, k) \<mapsto> e)"
proof
  have bb: "bucket b" using b by simp
  have disj: "(W \<union> kpos xs) \<inter> set rk = {}" using W kinvD(4) [OF inv bb] by (force simp: kfree_def)
  have r: "rchain (objs s') (reclaimed_key_list_page (xattr_page s')) rk"
  proof -
    have "objs s' q = objs s q" if "q \<in> set rk" for q using rchain_page [OF kinvD(6) [OF inv] that] keep disj that by blast
    then show ?thesis using rchain_cong [of rk "objs s'" "objs s"] kinvD(6) [OF inv] rc by simp
  qed
  have oth: "(W \<union> kpos xs \<union> set rk) \<inter> kpos (T c) = {}" if c: "bucket c" "c \<noteq> b" for c
  proof -
    have "(W \<union> kpos xs) \<inter> kpos (T c) = {}" using W kinvD(5) [OF inv c(1) bb c(2)] c(1) by (force simp: kfree_def)
    then show ?thesis using kinvD(4) [OF inv c(1)] by blast
  qed
  have kn: "k \<notin> key_of ` set (all_entries (T b))" using absent b bmap_None by (auto simp: ent_def)
  have "length (all_entries xs) = Suc (length (all_entries (T b)))"
  proof -
    have "distinct (all_entries xs)" "distinct (all_entries (T b))"
      using ok kinvD(3) [OF inv bb] by (auto simp: bucket_ok_def distinct_map)
    moreover have "e \<notin> set (all_entries (T b))" using kn e by auto
    ultimately show ?thesis using all distinct_card by (metis List.finite_set card_insert_disjoint)
  qed
  then show "kinv s' (T(b := xs)) rk"
    by (intro kinv_bucket [OF inv bb sh tb ch ok r kinvD(7) [OF inv] _ keep oth]) (use disj cnt b in auto)
  have "set (all_entries xs) = insert e {x \<in> set (all_entries (T b)). key_of x \<noteq> k}" using all kn by auto
  then show "ent (T(b := xs)) = (ent T)((n, k) \<mapsto> e)" unfolding b(1)
    using ent_replace [OF inv b(2) ok [unfolded b(1) snd_conv] refl e] b(1) by simp
qed

end
