(* ===== verification/Xattr_List.thy ===== *)
theory Xattr_List
  imports Xattr_Run
begin

text \<open>\<^verbatim>\<open>list_xattr\<close>: the names of all attributes, or their total length, or \<^verbatim>\<open>ERANGE\<close>.\<close>

definition full_name :: "nat \<times> string \<Rightarrow> string" where
  "full_name a = namespace_prefixes ! fst a @ ''.'' @ snd a"

text \<open>
  With a buffer of \<open>sz\<close> bytes the bytes \<open>bs\<close> have been put out; without one only their number is kept.
\<close>

definition fits :: "nat \<Rightarrow> string \<Rightarrow> bool" where
  "fits sz bs \<longleftrightarrow> sz = 0 \<or> length bs \<le> sz"

definition out :: "nat \<Rightarrow> string \<Rightarrow> string \<times> nat" where
  "out sz bs = (if sz = 0 then [] else bs, length bs)"

definition emits :: "nat \<Rightarrow> x_state \<Rightarrow> (string \<times> nat \<Rightarrow> (x_state, string \<times> nat) sm) \<Rightarrow> string \<Rightarrow> bool" where
  "emits sz s f bs \<longleftrightarrow> (\<forall>before. fits sz before \<longrightarrow>
     f (out sz before) s = (if fits sz (before @ bs) then Inr (out sz (before @ bs)) else Inl (Errno ERANGE), s))"

lemma fits_append: "fits sz (as @ bs) \<Longrightarrow> fits sz as"
  by (auto simp: fits_def)

lemma emits_nothing: "(\<And>acc. f acc = returnE acc) \<Longrightarrow> emits sz s f []"
  by (simp add: emits_def)

lemma emits_then:
  assumes "emits sz s f as" and "emits sz s g bs"
  shows "emits sz s (\<lambda>acc. bindE (f acc) g) (as @ bs)"
  using assms fits_append [of sz _ bs] by (auto simp: emits_def bindE_def simp flip: append_assoc)

lemma emits_concat:
  assumes "\<And>x. x \<in> set xs \<Longrightarrow> emits sz s (f x) (B x)" and "\<And>acc. g [] acc = returnE acc" and "\<And>y ys acc. g (y # ys) acc = bindE (f y acc) (g ys)"
  shows "emits sz s (g xs) (concat (map B xs))"
  using assms(1)
proof (induction xs)
  case Nil
  show ?case using emits_nothing [of "g []", OF assms(2)] by simp
next
  case (Cons x xs)
  have "g (x # xs) = (\<lambda>acc. bindE (f x acc) (g xs))" using assms(3) by blast
  then show ?case using emits_then [of sz s "f x" "B x" "g xs" "concat (map B xs)"] Cons by simp
qed

definition names :: "string \<Rightarrow> KEY_ENTRY list \<Rightarrow> string" where
  "names pre es = concat (map (\<lambda>e. pre @ ''.'' @ key_of e @ [CHR 0x00]) es)"

lemma names_simps [simp]: "names pre [] = []" "names pre (e # es) = pre @ ''.'' @ key_of e @ [CHR 0x00] @ names pre es" "names pre (es @ fs) = names pre es @ names pre fs"
  by (simp_all add: names_def)

lemma fill_buffer_spec:
  assumes "\<forall>e \<in> set es. key_size e = length (key_of e)" and "fits sz before"
  shows "fill_buffer_with_key es sz pre (out sz before) = (if fits sz (before @ names pre es) then Some (out sz (before @ names pre es)) else None)"
  using assms
proof (induction es arbitrary: before)
  case (Cons e es)
  let ?n = "pre @ ''.'' @ key_of e @ [CHR 0x00]"
  have nb: "name_bytes pre e = ?n" "length pre + 1 + key_size e + 1 = length ?n" using Cons.prems(1) by (simp_all add: name_bytes_def)
  have ih: "fits sz (before @ ?n) \<Longrightarrow> fill_buffer_with_key es sz pre (out sz (before @ ?n)) =
      (if fits sz ((before @ ?n) @ names pre es) then Some (out sz ((before @ ?n) @ names pre es)) else None)"
    by (rule Cons.IH) (use Cons.prems(1) in auto)
  have "fill_buffer_with_key (e # es) sz pre (out sz before) = (if fits sz (before @ ?n) then fill_buffer_with_key es sz pre (out sz (before @ ?n)) else None)"
    unfolding out_def fill_buffer_with_key.simps Let_def nb by (auto simp: fits_def)
  moreover have "fits sz ((before @ ?n) @ names pre es) \<Longrightarrow> fits sz (before @ ?n)" by (rule fits_append)
  moreover have "(before @ ?n) @ names pre es = before @ names pre (e # es)" by simp
  ultimately show ?case using ih by metis
qed (simp add: out_def)

lemma list_pages_spec:
  assumes "x_os s = []" and "kchain (objs s) p xs" and "length xs \<le> n" and "\<forall>e \<in> set (all_entries xs). key_size e = length (key_of e)"
  shows "emits sz s (list_pages n sz pre p) (names pre (all_entries xs))"
  using assms(2-4)
proof (induction xs arbitrary: p n)
  case Nil
  then have "emits sz s (list_pages n sz pre p) []" by (intro emits_nothing) simp
  then show ?case unfolding all_entries_simps names_simps .
next
  case (Cons x xs)
  obtain k where k: "p = fst x" "p \<noteq> 0" "objs s p = Some (Key_Page k)" "page_has k (snd x)" "kchain (objs s) (next_list_pos k) xs" using Cons.prems(1) by auto
  obtain m where n: "n = Suc m" "length xs \<le> m" using Cons.prems(2) by (cases n) auto
  obtain r where r: "p = Suc r" using k(2) by (cases p) auto
  have es: "take (num_xattr k) (key_list k) = snd x" using k(4) by (simp add: page_has_def)
  have ih: "emits sz s (list_pages m sz pre (next_list_pos k)) (names pre (all_entries xs))" using Cons.IH [OF k(5) n(2)] Cons.prems(3) by simp
  have step: "list_pages n sz pre p acc s = (case fill_buffer_with_key (snd x) sz pre acc of None \<Rightarrow> (Inl (Errno ERANGE), s)
      | Some acc1 \<Rightarrow> list_pages m sz pre (next_list_pos k) acc1 s)" for acc
    using read_key_page_ok [OF assms(1) k(3)] es by (cases "fill_buffer_with_key (snd x) sz pre acc") (simp_all add: n(1) r)
  show ?case
    unfolding emits_def
  proof (intro allI impI)
    fix b assume b: "fits sz b"
    have "list_pages n sz pre p (out sz b) s = (if fits sz (b @ names pre (snd x)) then list_pages m sz pre (next_list_pos k) (out sz (b @ names pre (snd x))) s else (Inl (Errno ERANGE), s))"
      using fill_buffer_spec [OF _ b, of "snd x" pre] Cons.prems(3) step by simp
    then show "list_pages n sz pre p (out sz b) s = (if fits sz (b @ names pre (all_entries (x # xs))) then Inr (out sz (b @ names pre (all_entries (x # xs)))) else Inl (Errno ERANGE), s)"
      using ih fits_append [of sz "b @ names pre (snd x)" "names pre (all_entries xs)"] by (auto simp: emits_def)
  qed
qed

lemma list_buckets_spec:
  assumes os: "x_os s = []" and f: "file_ok s" and inv: "kinv s T rk" and n: "n < 4"
  shows "emits sz s (list_buckets sz pre (map (table_at (xattr_page s) n) [0..<MAX_KEY_HASH_ENTRY])) (concat (map (\<lambda>h. names pre (all_entries (T (n, h)))) [0..<MAX_KEY_HASH_ENTRY]))"
proof (rule emits_concat [where g = "\<lambda>hs. list_buckets sz pre (map (table_at (xattr_page s) n) hs)" and
    f = "\<lambda>h acc s1. list_pages (Suc (x_end s1)) sz pre (table_at (xattr_page s) n h) acc s1"])
  fix h assume "h \<in> set [0..<MAX_KEY_HASH_ENTRY]"
  then have b: "bucket (n, h)" using n by simp
  note ch = kinvD(2) [OF inv b] and ok = kinvD(3) [OF inv b]
  have "length (T (n, h)) \<le> Suc (x_end s)" using kchain_bound(1) [OF f ch] ok by (simp add: bucket_ok_def)
  moreover have "\<forall>e \<in> set (all_entries (T (n, h))). key_size e = length (key_of e)" using ok by (auto simp: bucket_ok_def page_ok_def all_entries_def)
  ultimately have "emits sz s (list_pages (Suc (x_end s)) sz pre (table_at (xattr_page s) n h)) (names pre (all_entries (T (n, h))))"
    using list_pages_spec [OF os, of _ "T (n, h)"] ch by (simp add: tab_def del: list_pages.simps)
  then show "emits sz s (\<lambda>acc s1. list_pages (Suc (x_end s1)) sz pre (table_at (xattr_page s) n h) acc s1) (names pre (all_entries (T (n, h))))"
    by (simp add: emits_def del: list_pages.simps)
qed simp_all

text \<open>All keys, in the order of the tables.\<close>

definition keys_of :: "(nat \<times> nat \<Rightarrow> (nat \<times> KEY_ENTRY list) list) \<Rightarrow> (nat \<times> string) list" where
  "keys_of T = concat (map (\<lambda>n. concat (map (\<lambda>h. map (\<lambda>e. (n, key_of e)) (all_entries (T (n, h)))) [0..<MAX_KEY_HASH_ENTRY])) [0..<4])"

lemma distinct_concat_map:
  assumes "distinct is" and "\<And>i. i \<in> set is \<Longrightarrow> distinct (f i)" and "\<And>i j x. i \<in> set is \<Longrightarrow> j \<in> set is \<Longrightarrow> x \<in> set (f i) \<Longrightarrow> x \<in> set (f j) \<Longrightarrow> i = j"
  shows "distinct (concat (map f is))"
  using assms
proof (induction "is")
  case (Cons i js)
  have "set (f i) \<inter> set (f j) = {}" if "j \<in> set js" for j using Cons.prems(1) Cons.prems(3) [of i j] that by auto
  then show ?case using Cons by auto
qed simp

lemma keys_of:
  assumes "kinv s T rk"
  shows "distinct (keys_of T)" "set (keys_of T) = dom (ent T)"
proof -
  have ok: "bucket_ok h (T (n, h))" if "n < 4" "h < MAX_KEY_HASH_ENTRY" for n h using kinvD(3) [OF assms, of "(n, h)"] that by simp
  have hash: "xhash (key_of e) = h" if "n < 4" "h < MAX_KEY_HASH_ENTRY" "e \<in> set (all_entries (T (n, h)))" for n h e
    using ok [OF that(1,2)] that(3) by (auto simp: bucket_ok_def page_ok_def all_entries_def)
  show "distinct (keys_of T)"
    unfolding keys_of_def
  proof (rule distinct_concat_map)
    fix n assume n: "n \<in> set [0..<4]"
    show "distinct (concat (map (\<lambda>h. map (\<lambda>e. (n, key_of e)) (all_entries (T (n, h)))) [0..<MAX_KEY_HASH_ENTRY]))"
    proof (rule distinct_concat_map)
      fix h assume "h \<in> set [0..<MAX_KEY_HASH_ENTRY]"
      then show "distinct (map (\<lambda>e. (n, key_of e)) (all_entries (T (n, h))))" using ok [of n h] n by (simp add: bucket_ok_def distinct_map inj_on_def)
    next
      fix h g x assume h: "h \<in> set [0..<MAX_KEY_HASH_ENTRY]" and g: "g \<in> set [0..<MAX_KEY_HASH_ENTRY]"
        and x: "x \<in> set (map (\<lambda>e. (n, key_of e)) (all_entries (T (n, h))))" "x \<in> set (map (\<lambda>e. (n, key_of e)) (all_entries (T (n, g))))"
      have "xhash (snd x) = h" using hash [of n h] h n x(1) by auto
      moreover have "xhash (snd x) = g" using hash [of n g] g n x(2) by auto
      ultimately show "h = g" by simp
    qed simp
  qed auto
  show "set (keys_of T) = dom (ent T)"
  proof (rule set_eqI)
    fix a :: "nat \<times> string"
    obtain n k where a: "a = (n, k)" by (cases a)
    have "a \<in> set (keys_of T) \<longleftrightarrow> n < 4 \<and> (\<exists>h < MAX_KEY_HASH_ENTRY. k \<in> key_of ` set (all_entries (T (n, h))))" unfolding a keys_of_def by fastforce
    also have "\<dots> \<longleftrightarrow> n < 4 \<and> k \<in> key_of ` set (all_entries (T (n, xhash k)))" using hash xhash_less [of k] by blast
    also have "\<dots> \<longleftrightarrow> a \<in> dom (ent T)" unfolding a domIff using bmap_None [of "T (n, xhash k)" k] by (cases "bmap (T (n, xhash k)) k") (auto simp: ent_def)
    finally show "a \<in> set (keys_of T) \<longleftrightarrow> a \<in> dom (ent T)" .
  qed
qed

lemma concat_concats: "concat (concat xss) = concat (map concat xss)"
  by (induction xss) simp_all

lemma names_keys: "names (namespace_prefixes ! n) es = concat (map (\<lambda>a. full_name a @ [CHR 0x00]) (map (\<lambda>e. (n, key_of e)) es))"
  by (induction es) (simp_all add: full_name_def)

lemma list_spaces_spec:
  assumes os: "x_os s = []" and f: "file_ok s" and inv: "kinv s T rk" and ns: "set ns \<subseteq> {..<4}"
  shows "emits sz s (list_spaces sz (map (\<lambda>n. (namespace_prefixes ! n, namespace_page (xattr_page s) ! n)) ns))
    (concat (map (\<lambda>n. concat (map (\<lambda>h. names (namespace_prefixes ! n) (all_entries (T (n, h)))) [0..<MAX_KEY_HASH_ENTRY])) ns))"
  using ns
proof (induction ns)
  case Nil
  have "emits sz s (list_spaces sz []) []" by (rule emits_nothing) simp
  then show ?case unfolding list.map concat.simps .
next
  case (Cons n ns)
  let ?pre = "namespace_prefixes ! n" and ?p = "namespace_page (xattr_page s) ! n"
  let ?B = "concat (map (\<lambda>h. names ?pre (all_entries (T (n, h)))) [0..<MAX_KEY_HASH_ENTRY])"
  let ?rest = "list_spaces sz (map (\<lambda>n. (namespace_prefixes ! n, namespace_page (xattr_page s) ! n)) ns)"
  have n: "n < 4" using Cons.prems by simp
  show ?case
  proof (cases "ns_num_xattr ?p = 0")
    case True
    then have "(\<Sum>h < MAX_KEY_HASH_ENTRY. length (all_entries (T (n, h)))) = 0" using kinvD(8) [OF inv n] by (simp add: count_def)
    then have B: "?B = []" by simp
    have "list_spaces sz (map (\<lambda>n. (namespace_prefixes ! n, namespace_page (xattr_page s) ! n)) (n # ns)) = ?rest" using True by (simp add: fun_eq_iff)
    then show ?thesis using Cons unfolding list.map concat.simps B append_Nil by simp
  next
    case False
    have "length (key_hash_table ?p) = MAX_KEY_HASH_ENTRY" using kinvD(1) [OF inv] n by (simp add: shape_def)
    then have "take MAX_KEY_HASH_ENTRY (key_hash_table ?p) = map (table_at (xattr_page s) n) [0..<MAX_KEY_HASH_ENTRY]"
      by (simp add: table_at_def list_eq_iff_nth_eq)
    then have "list_spaces sz (map (\<lambda>n. (namespace_prefixes ! n, namespace_page (xattr_page s) ! n)) (n # ns)) =
        (\<lambda>acc. bindE (list_buckets sz ?pre (map (table_at (xattr_page s) n) [0..<MAX_KEY_HASH_ENTRY]) acc) ?rest)" using False by (simp add: fun_eq_iff)
    then show ?thesis using emits_then [OF list_buckets_spec [OF os f inv n, of sz ?pre] Cons.IH] Cons.prems by simp
  qed
qed

lemma list_xattr_keys:
  assumes os: "x_os s = []" and f: "file_ok s" and inv: "kinv s T rk"
  shows "list_xattr sz s = (let bs = concat (map (\<lambda>a. full_name a @ [CHR 0x00]) (keys_of T)) in
    if sz = 0 then Inr ([], length bs) else if sz < length bs then Inl (Errno ERANGE) else Inr (bs, length bs), s)"
proof -
  let ?bs = "concat (map (\<lambda>a. full_name a @ [CHR 0x00]) (keys_of T))"
  have bs: "concat (map (\<lambda>n. concat (map (\<lambda>h. names (namespace_prefixes ! n) (all_entries (T (n, h)))) [0..<MAX_KEY_HASH_ENTRY])) [0..<4]) = ?bs"
    unfolding keys_of_def names_keys map_concat concat_concats by (simp add: comp_def map_concat concat_concats del: upt_rec_numeral)
  have "zip namespace_prefixes (namespace_page (xattr_page s)) = map (\<lambda>n. (namespace_prefixes ! n, namespace_page (xattr_page s) ! n)) [0..<4]"
  proof -
    have "length (namespace_page (xattr_page s)) = 4" "length namespace_prefixes = 4" using kinvD(1) [OF inv] by (simp_all add: shape_def namespace_prefixes_def)
    then show ?thesis by (simp add: list_eq_iff_nth_eq del: upt_rec_numeral)
  qed
  then have "list_xattr sz s = list_spaces sz (map (\<lambda>n. (namespace_prefixes ! n, namespace_page (xattr_page s) ! n)) [0..<4]) (out sz []) s"
    by (simp add: list_xattr_def out_def del: upt_rec_numeral)
  also have "\<dots> = (if fits sz ?bs then Inr (out sz ?bs) else Inl (Errno ERANGE), s)"
    using list_spaces_spec [OF os f inv, of "[0..<4]" sz] unfolding emits_def bs by (fastforce simp: fits_def)
  finally show ?thesis by (auto simp: fits_def out_def Let_def)
qed

lemma list_xattr_spec:
  assumes rel: "xrel pos M s"
  obtains ks where "distinct ks" and "set ks = dom M"
    and "list_xattr sz s = (let bs = concat (map (\<lambda>a. full_name a @ [CHR 0x00]) ks) in
      if sz = 0 then Inr ([], length bs) else if sz < length bs then Inl (Errno ERANGE) else Inr (bs, length bs), s)"
proof -
  obtain T rk vs rv where os: "x_os s = []" and f: "file_ok s" and inv: "kinv s T rk"
    and M: "\<And>a. M a = map_option (value_at s vs a) (ent T a)" using rel unfolding xrel_def by blast
  have "dom M = dom (ent T)" using M by (auto simp: dom_def)
  then show thesis using that [OF keys_of(1) [OF inv]] keys_of(2) [OF inv] list_xattr_keys [OF os f inv] by simp
qed

end
