(* ===== verification/Xattr_Insert.thy ===== *)
theory Xattr_Insert
  imports Xattr_Run
begin

text \<open>
  \<^verbatim>\<open>insert_xattr\<close>: its first step for a key in an empty bucket, in a page with room, in a new page, and for an existing key; then
  the value and the rest.
\<close>

subsection \<open>Buckets with one entry changed\<close>

lemma page_ok_insert:
  assumes "page_ok h es" and "length es < MAX_KEY_ENTRY_PER_LIST" and "\<forall>x \<in> set (take i (ekeys es)). x < kord k" and "\<forall>x \<in> set (drop i (ekeys es)). kord k < x"
    and "key_of e = k" and "xhash k = h" and "key_size e = length k" and i: "i \<le> length es"
  shows "page_ok h (take i es @ e # drop i es)"
proof -
  have "sorted_wrt (<) (take i (ekeys es) @ drop i (ekeys es))" using assms(1) by (simp add: page_ok_def)
  then have "sorted_wrt (<) (take i (ekeys es) @ kord k # drop i (ekeys es))" using assms(3,4) unfolding sorted_wrt_append sorted_wrt.simps by auto
  moreover have "ekeys (take i es @ e # drop i es) = take i (ekeys es) @ kord k # drop i (ekeys es)" using assms(5) by (simp add: take_map drop_map)
  ultimately have "sorted_wrt (<) (ekeys (take i es @ e # drop i es))" by (simp only:)
  moreover have "set (take i es @ e # drop i es) = insert e (set es)" using set_append [of "take i es" "drop i es"] by auto
  ultimately show ?thesis using assms by (auto simp: page_ok_def)
qed

lemma bucket_ok_page:
  assumes "bucket_ok h (us @ (q, es) # ws)" and "page_ok h es'" and "distinct (map key_of (all_entries us @ es' @ all_entries ws))"
  shows "bucket_ok h (us @ (q, es') # ws)"
  using assms by (simp add: bucket_ok_def ball_Un)

lemma entries_split:
  assumes "i < length es"
  shows "all_entries (us @ (q, es) # ws) = (all_entries us @ take i es) @ es ! i # (drop (i + 1) es @ all_entries ws)"
  using id_take_nth_drop [OF assms] by simp

lemma entries_except:
  assumes "distinct (map key_of (A @ y # B))"
  shows "{x \<in> set (A @ y # B). key_of x \<noteq> key_of y} = set (A @ B)"
  using assms by (auto simp: image_iff)

lemma vpool_key_write:
  assumes "vpool s rep rs rv" and "objs s q = Some (Key_Page k0)" and "reclaimed_value_block y = reclaimed_value_block (xattr_page s)"
  shows "vpool (s\<lparr>objs := (objs s)(q \<mapsto> x), xattr_page := y\<rparr>) rep rs rv"
proof -
  have c: "vchain (objs s) rep rs" "vchain (objs s) (reclaimed_value_block (xattr_page s)) rv" using assms(1) by (simp_all add: vpool_def)
  have "q \<notin> set rs" "q \<notin> set rv" using vchain_value [OF c(1), of q] vchain_value [OF c(2), of q] assms(2) by auto
  then show ?thesis using assms(1,3) by (simp add: vpool_def)
qed

text \<open>The last two steps, for all ways a key gets a new entry.\<close>

lemma prepared_finish:
  assumes k: "kstep 1364 s s3" and pool: "vpool s3 rep rs rv'" and p: "\<exists>v. objs s3 p = Some (Value v)" "p \<notin> set (rs @ rv')"
    "\<forall>q \<in> set (p # rs @ rv'). q \<in> set (old @ rv) \<or> x_end s \<le> q" and q: "objs s3 q = Some (Key_Page k0)"
    and s5: "s5 = s3\<lparr>objs := (objs s3)(q \<mapsto> Key_Page pg), xattr_page := y\<rparr>" and y: "reclaimed_value_block y = reclaimed_value_block (xattr_page s3)"
    and inv: "kinv s5 T rk" "ent T = E(a \<mapsto> e)" "value_size e = sz" "first_value_block_pos e = p"
  shows "prepared s E old rv a sz p rep s5"
proof -
  have f: "file_ok s3" "x_os s3 = []" using k by (simp_all add: kstep_def)
  have "kstep 0 s3 s5"
    using kstep_trans [OF write_key_page(2) [OF f q] kstep_page] file_ok_put [OF f(1)] file_ok_pos [OF f(1) q] f(2) by (simp add: s5)
  from kstep_trans [OF k this] have "kstep 1364 s s5" by simp
  moreover have "vpool s5 rep rs rv'" unfolding s5 by (rule vpool_key_write [OF pool q y])
  moreover have "\<exists>v. objs s5 p = Some (Value v)" using p(1) q by (auto simp: s5)
  ultimately show ?thesis unfolding prepared_def using p(2,3) inv by blast
qed

lemma objs_below:
  assumes "file_ok s" and "\<And>q. q < x_end s \<Longrightarrow> objs s' q = objs s q" and "objs s q = Some x"
  shows "objs s' q = Some x"
  using assms file_ok_pos [OF assms(1,3)] by simp

lemma vpool_step:
  assumes "vpool s rep rs rv" and "file_ok s" and "\<And>q v. objs s q = Some (Value v) \<Longrightarrow> objs s' q = objs s q"
    and "reclaimed_value_block (xattr_page s') = reclaimed_value_block (xattr_page s)"
  shows "vpool s' rep rs rv"
proof -
  have "vchain (objs s') p ps = vchain (objs s) p ps" if "vchain (objs s) p ps" for p ps
    using vchain_value [OF that] assms(3) by (intro vchain_cong) blast
  then show ?thesis using assms(1,4) by (auto simp: vpool_def)
qed

lemma insert_first_spec:
  assumes os: "x_os s = []" and f: "file_ok s" and inv: "kinv s T rk" and pool: "vpool s 0 [] rv" and n: "n < 4"
    and z: "table_at (xattr_page s) n (xhash k) = 0" and fl: "flag \<noteq> XATTR_REPLACE" and sm: "x_end s + 1100 < 2 ^ 31"
  obtains p rep s' where "insert_first n k sz flag s = (Inr (p, rep), s')" and "prepared s (ent T) [] rv (n, k) sz p rep s'"
proof -
  let ?b = "(n, xhash k)"
  have Tb: "T ?b = []" using no_bucket [OF inv n] z by blast
  have b: "bucket ?b" using n by simp
  obtain u rk1 s1 where u: "get_usable_key_list_filepos s = (Inr u, s1)" "kinv s1 T rk1" "kfree s1 T rk1 u" "kstep 1100 s s1"
      "reclaimed_value_block (xattr_page s1) = reclaimed_value_block (xattr_page s)" "namespace_page (xattr_page s1) = namespace_page (xattr_page s)"
      "\<And>q. q < x_end s \<Longrightarrow> objs s1 q = objs s q" by (rule get_usable_key_list_filepos_spec [OF os f inv]) (rule that)
  note sh1 = kinvD(1) [OF u(2)]
  let ?s2 = "s1\<lparr>xattr_page := set_table n (xhash k) u (xattr_page s1)\<rparr>"
  have f1: "file_ok s1" "x_os s1 = []" "x_end s1 \<le> x_end s + 1100" "x_end s \<le> x_end s1" using u(4) by (simp_all add: kstep_def)
  have k2: "kstep 1100 s ?s2" using kstep_trans [OF u(4) kstep_page [OF f1(1,2)]] by simp
  have s2: "x_os ?s2 = []" "file_ok ?s2" "x_end ?s2 < 2 ^ 31" using f1 sm k2 by (auto simp: kstep_def)
  have "vpool s1 0 [] rv" by (rule vpool_step [OF pool f]) (use u(5,7) file_ok_pos [OF f] in auto)
  then have pool2: "vpool ?s2 0 [] rv" by (simp add: vpool_def)
  obtain p rep rs' rv' s3 where v: "get_usable_value_filepos 0 ?s2 = (Inr (p, rep), s3)" "kstep 264 ?s2 s3" "vpool s3 rep rs' rv'"
      "\<exists>v. objs s3 p = Some (Value v)" "p \<notin> set (rs' @ rv')" "\<forall>q \<in> set (p # rs' @ rv'). q \<in> set ([] @ rv) \<or> x_end ?s2 \<le> q"
      "\<And>q. q < x_end ?s2 \<Longrightarrow> objs s3 q = objs ?s2 q" "(xattr_page s3)\<lparr>reclaimed_value_block := 0\<rparr> = (xattr_page ?s2)\<lparr>reclaimed_value_block := 0\<rparr>"
    by (rule take_value [OF s2(1,2) pool2 s2(3)]) (rule that)
  note pe = page_eq_fields [OF v(8)]
  let ?e = "key_entry k p sz" and ?pg = "put_entry 0 (key_entry k p sz) zero_key_page"
  let ?s5 = "s3\<lparr>objs := (objs s3)(u \<mapsto> Key_Page ?pg), xattr_page := set_count n Suc (xattr_page s3)\<rparr>"
  have k3: "kstep 1364 s s3" using kstep_trans [OF k2 v(2)] by simp
  obtain k0 where ku: "objs s3 u = Some (Key_Page k0)" using u(3) objs_below [of ?s2 s3 u] v(7) s2(2) by (auto simp: kfree_def)
  have f3: "file_ok s3" "x_os s3 = []" using k3 by (simp_all add: kstep_def)
  have run: "insert_first n k sz flag s = (Inr (p, rep), ?s5)"
    using fl u(1) v(1) write_key_page(1) [OF f3 ku, of ?pg] by (simp add: insert_first_def upd_page_run)
  have t5: "tab (xattr_page ?s5) c = (if c = ?b then u else tab (xattr_page s1) c)" if "bucket c" for c
    using tab_set [OF sh1 n xhash_less that] tab_set(2) [of "xattr_page s3" n "xhash k" c] pe(3,5) sh1 n that by simp
  have c5: "count (xattr_page ?s5) m = (if m = n then Suc (count (xattr_page s1) m) else count (xattr_page s1) m)" if "m < 4" for m
    using count_set(2) [of "xattr_page s3" n m Suc] count_set(1) [OF sh1 n] pe(4,5) sh1 n that by simp
  have new: "kinv ?s5 (T(?b := [(u, [?e])])) rk1 \<and> ent (T(?b := [(u, [?e])])) = (ent T)((n, k) \<mapsto> ?e)"
  proof (rule new_entry_kinv [OF u(2) refl n, where W = "{u}"])
    show "kchain (objs ?s5) (tab (xattr_page ?s5) ?b) [(u, [?e])]"
      using t5 [OF b] u(3) page_has_new by (simp add: kfree_def) (simp add: put_entry_def zero_key_page_def)
    show "objs ?s5 q = objs s1 q" if "objs s1 q = Some (Key_Page k)" "q \<notin> {u}" for q k
      using that objs_below [of ?s2 s3 q] v(7) s2(2) by simp
    show "bucket_ok (snd ?b) [(u, [?e])]" by (simp add: bucket_ok_def page_ok_def key_entry_def)
  qed (use u(3) t5 c5 pe sh1 Tb n miss_ent [OF n, of k T] in \<open>auto simp: key_entry_def\<close>)
  have "prepared s (ent T) [] rv (n, k) sz p rep ?s5"
    by (rule prepared_finish [OF k3 v(3,4,5) _ ku refl _ conjunct1 [OF new] conjunct2 [OF new]]) (use v(6) f1(4) in \<open>auto simp: key_entry_def\<close>)
  then show thesis using that run by blast
qed

text \<open>A page of the list with room.\<close>

lemma insert_room_spec:
  assumes os: "x_os s = []" and f: "file_ok s" and inv: "kinv s T rk" and pool: "vpool s 0 [] rv" and n: "n < 4"
    and r: "room_at (objs s) (T (n, xhash k)) k pg j q" and absent: "k \<notin> key_of ` set (all_entries (T (n, xhash k)))" and sm: "x_end s < 2 ^ 31"
  obtains p rep s3 where "get_usable_value_filepos 0 s = (Inr (p, rep), s3)" and "0 \<le> j"
    and "write_obj (Key_Page (put_entry (nat j) (key_entry k p sz) (shift_up (nat j) pg))) q s3 =
      (Inr (), s3\<lparr>objs := (objs s3)(q \<mapsto> Key_Page (put_entry (nat j) (key_entry k p sz) (shift_up (nat j) pg)))\<rparr>)"
    and "prepared s (ent T) [] rv (n, k) sz p rep
      (s3\<lparr>objs := (objs s3)(q \<mapsto> Key_Page (put_entry (nat j) (key_entry k p sz) (shift_up (nat j) pg))), xattr_page := set_count n Suc (xattr_page s3)\<rparr>)"
proof -
  let ?b = "(n, xhash k)"
  have b: "bucket ?b" using n by simp
  obtain us es ws i where x: "T ?b = us @ (q, es) # ws" "length es < MAX_KEY_ENTRY_PER_LIST" "i \<le> length es"
      "\<forall>x \<in> set (take i (ekeys es)). x < kord k" "\<forall>x \<in> set (drop i (ekeys es)). kord k < x" "objs s q = Some (Key_Page pg)" "page_has pg es" "j = int i"
    using r unfolding room_at_def by blast
  obtain p rep rs' rv' s3 where v: "get_usable_value_filepos 0 s = (Inr (p, rep), s3)" "kstep 264 s s3" "vpool s3 rep rs' rv'"
      "\<exists>v. objs s3 p = Some (Value v)" "p \<notin> set (rs' @ rv')" "\<forall>q \<in> set (p # rs' @ rv'). q \<in> set ([] @ rv) \<or> x_end s \<le> q"
      "\<And>q. q < x_end s \<Longrightarrow> objs s3 q = objs s q" "(xattr_page s3)\<lparr>reclaimed_value_block := 0\<rparr> = (xattr_page s)\<lparr>reclaimed_value_block := 0\<rparr>"
    by (rule take_value [OF os f pool sm]) (rule that)
  note pe = page_eq_fields [OF v(8)] and sh = kinvD(1) [OF inv]
  let ?e = "key_entry k p sz" and ?pg = "put_entry i (key_entry k p sz) (shift_up i pg)"
  let ?s5 = "s3\<lparr>objs := (objs s3)(q \<mapsto> Key_Page ?pg), xattr_page := set_count n Suc (xattr_page s3)\<rparr>"
  let ?xs = "us @ (q, take i es @ ?e # drop i es) # ws"
  have q3: "objs s3 q = Some (Key_Page pg)" by (rule objs_below [OF f v(7) x(6)])
  have f3: "file_ok s3" "x_os s3 = []" using v(2) by (simp_all add: kstep_def)
  have ok: "bucket_ok (xhash k) (us @ (q, es) # ws)" using kinvD(3) [OF inv b] x(1) by simp
  have "page_ok (xhash k) es" using ok by (simp add: bucket_ok_def)
  then have pok: "page_ok (xhash k) (take i es @ ?e # drop i es)" by (rule page_ok_insert [OF _ x(2,4,5) _ _ _ x(3)]) (simp_all add: key_entry_def)
  have ok': "bucket_ok (xhash k) ?xs"
  proof (rule bucket_ok_page [OF ok pok])
    have d: "distinct (map key_of (all_entries us @ (take i es @ drop i es) @ all_entries ws))" using ok by (simp add: bucket_ok_def)
    have "k \<notin> key_of ` set (all_entries us @ (take i es @ drop i es) @ all_entries ws)" using absent x(1) by simp
    then show "distinct (map key_of (all_entries us @ (take i es @ ?e # drop i es) @ all_entries ws))"
      using d by (auto simp: key_entry_def simp del: append_take_drop_id)
  qed
  have ch: "kchain (objs ?s5) (tab (xattr_page s) ?b) ?xs"
  proof -
    have "kchain (objs s3) (tab (xattr_page s) ?b) (us @ (q, es) # ws)"
      using kinvD(2) [OF inv b] kchain_cong [of "T ?b" "objs s3" "objs s"] kchain_bound(2) [OF f kinvD(2) [OF inv b]] ok v(7) x(1) by (auto simp: bucket_ok_def)
    from kchain_change [OF this _ q3 page_has_insert [OF x(7,2,3), of ?e]] show ?thesis
      using ok by (simp add: bucket_ok_def) (simp add: put_entry_def shift_up_def)
  qed
  have new: "kinv ?s5 (T(?b := ?xs)) rk \<and> ent (T(?b := ?xs)) = (ent T)((n, k) \<mapsto> ?e)"
  proof (rule new_entry_kinv [OF inv refl n, where W = "{q}"])
    show "kchain (objs ?s5) (tab (xattr_page ?s5) ?b) ?xs" using ch tab_set(2) [of "xattr_page s3" n "xhash k" ?b] pe(3,5) sh n by simp
    show "objs ?s5 r = objs s r" if "objs s r = Some (Key_Page k)" "r \<notin> {q}" for r k using that objs_below [OF f v(7)] by simp
    show "set (all_entries ?xs) = insert ?e (set (all_entries (T ?b)))" using x(1) set_append [of "take i es" "drop i es"] by auto
    show "tab (xattr_page ?s5) c = tab (xattr_page s) c" if "bucket c" for c using tab_set(2) [of "xattr_page s3" n "xhash k" c] pe(3,5) sh n that by simp
    show "count (xattr_page ?s5) m = (if m = n then Suc (count (xattr_page s) m) else count (xattr_page s) m)" if "m < 4" for m
      using count_set(2) [of "xattr_page s3" n m Suc] pe(4,5) sh n that by simp
  qed (use x(1) ok' pe sh miss_ent [of n k T, OF n absent] in \<open>auto simp: key_entry_def\<close>)
  have "kstep 1364 s s3" using v(2) by (simp add: kstep_def)
  then have "prepared s (ent T) [] rv (n, k) sz p rep ?s5"
    by (rule prepared_finish [OF _ v(3,4,5) _ q3 refl _ conjunct1 [OF new] conjunct2 [OF new]]) (use v(6) in \<open>auto simp: key_entry_def\<close>)
  then show thesis using that [OF v(1)] write_key_page(1) [OF f3 q3, of ?pg] x(8) by simp
qed

text \<open>A new page after the last, when all pages are full.\<close>

lemma insert_full_spec:
  assumes os: "x_os s = []" and f: "file_ok s" and inv: "kinv s T rk" and pool: "vpool s 0 [] rv" and n: "n < 4"
    and r: "full_at (objs s) (T (n, xhash k)) pg j q" and absent: "k \<notin> key_of ` set (all_entries (T (n, xhash k)))" and sm: "x_end s + 1100 < 2 ^ 31"
  obtains p rep s' where "prepared s (ent T) [] rv (n, k) sz p rep s'"
    and "bindE (room_for_key pg j q) (\<lambda>(page1, i, pos1). bindE (get_usable_value_filepos 0) (\<lambda>(value_pos, rep).
      bindE (write_obj (Key_Page (put_entry i (key_entry k value_pos sz) page1)) pos1) (\<lambda>_.
      bindE (upd_page (set_count n Suc)) (\<lambda>_. returnE (value_pos, rep))))) s = (Inr (p, rep), s')"
proof -
  let ?b = "(n, xhash k)"
  have b: "bucket ?b" using n by simp
  note ok = kinvD(3) [OF inv b]
  obtain us es where x: "T ?b = us @ [(q, es)]" "objs s q = Some (Key_Page pg)" "page_has pg es" "j = - 1"
    using r unfolding full_at_def by (metis append_butlast_last_id prod.collapse)
  obtain u rk1 s1 where u: "get_usable_key_list_filepos s = (Inr u, s1)" "kinv s1 T rk1" "kfree s1 T rk1 u" "kstep 1100 s s1"
      "reclaimed_value_block (xattr_page s1) = reclaimed_value_block (xattr_page s)" "namespace_page (xattr_page s1) = namespace_page (xattr_page s)"
      "\<And>q. q < x_end s \<Longrightarrow> objs s1 q = objs s q" by (rule get_usable_key_list_filepos_spec [OF os f inv]) (rule that)
  have f1: "file_ok s1" "x_os s1 = []" "x_end s1 \<le> x_end s + 1100" "x_end s \<le> x_end s1" using u(4) by (simp_all add: kstep_def)
  have q1: "objs s1 q = Some (Key_Page pg)" by (rule objs_below [OF f u(7) x(2)])
  let ?s2 = "s1\<lparr>objs := (objs s1)(q \<mapsto> Key_Page (pg\<lparr>next_list_pos := u\<rparr>))\<rparr>"
  note w2 = write_key_page [OF f1(1,2) q1, of "pg\<lparr>next_list_pos := u\<rparr>"]
  have k2: "kstep 1100 s ?s2" using kstep_trans [OF u(4) w2(2)] by simp
  have s2: "x_os ?s2 = []" "file_ok ?s2" "x_end ?s2 < 2 ^ 31" using f1 sm k2 by (auto simp: kstep_def)
  have "vpool s1 0 [] rv" by (rule vpool_step [OF pool f]) (use u(5,7) file_ok_pos [OF f] in auto)
  from vpool_key_write [OF this q1 refl] have pool2: "vpool ?s2 0 [] rv" by simp
  obtain p rep rs' rv' s3 where v: "get_usable_value_filepos 0 ?s2 = (Inr (p, rep), s3)" "kstep 264 ?s2 s3" "vpool s3 rep rs' rv'"
      "\<exists>v. objs s3 p = Some (Value v)" "p \<notin> set (rs' @ rv')" "\<forall>q \<in> set (p # rs' @ rv'). q \<in> set ([] @ rv) \<or> x_end ?s2 \<le> q"
      "\<And>q. q < x_end ?s2 \<Longrightarrow> objs s3 q = objs ?s2 q" "(xattr_page s3)\<lparr>reclaimed_value_block := 0\<rparr> = (xattr_page ?s2)\<lparr>reclaimed_value_block := 0\<rparr>"
    by (rule take_value [OF s2(1,2) pool2 s2(3)]) (rule that)
  have pe: "tab (xattr_page s3) = tab (xattr_page s1)" "count (xattr_page s3) = count (xattr_page s1)" "shape (xattr_page s3) = shape (xattr_page s1)"
    "reclaimed_key_list_page (xattr_page s3) = reclaimed_key_list_page (xattr_page s1)" using page_eq_fields [OF v(8)] by simp_all
  note sh = kinvD(1) [OF u(2)]
  let ?e = "key_entry k p sz" and ?pg = "put_entry 0 (key_entry k p sz) zero_key_page"
  let ?s5 = "s3\<lparr>objs := (objs s3)(u \<mapsto> Key_Page ?pg), xattr_page := set_count n Suc (xattr_page s3)\<rparr>"
  let ?xs = "T ?b @ [(u, [?e])]"
  have uk: "u \<notin> kpos (T ?b)" using u(3) b unfolding kfree_def by blast
  then have uf: "u \<noteq> 0" "u \<notin> kpos (T ?b)" "u \<noteq> q" using u(3) x(1) by (auto simp: kfree_def)
  obtain k0 where ku: "objs s3 u = Some (Key_Page k0)" using u(3) uf(3) objs_below [of ?s2 s3 u] v(7) s2(2) by (auto simp: kfree_def)
  have k3: "kstep 1364 s s3" using kstep_trans [OF k2 v(2)] by simp
  have f3: "file_ok s3" "x_os s3 = []" using k3 by (simp_all add: kstep_def)
  have ok': "bucket_ok (xhash k) ?xs"
    using ok uf(2) absent by (auto simp: bucket_ok_def page_ok_def key_entry_def ball_Un)
  have ch: "kchain (objs ?s5) (tab (xattr_page s1) ?b) ?xs"
  proof -
    have c: "kchain (objs s1) (tab (xattr_page s1) ?b) (us @ [(q, es)])" using kinvD(2) [OF u(2) b] x(1) by simp
    define m' where "m' = (objs s1)(q \<mapsto> Key_Page (pg\<lparr>next_list_pos := u\<rparr>), u \<mapsto> Key_Page ?pg)"
    have "kchain m' (tab (xattr_page s1) ?b) ?xs"
      unfolding m'_def x(1) by (rule kchain_snoc [OF c _ q1 uf(1) _ page_has_new]) (use ok uf(2) x(1) in \<open>auto simp: bucket_ok_def put_entry_def zero_key_page_def\<close>)
    moreover have eqs: "objs ?s5 r = m' r" if "r \<in> kpos ?xs" for r
    proof (cases "r = u")
      case False
      then have "r \<in> kpos (T ?b)" using that by auto
      then have "r < x_end s1" using kchain_bound(2) [OF f1(1) kinvD(2) [OF u(2) b]] ok by (simp add: bucket_ok_def)
      then show ?thesis using v(7) [of r] False by (simp add: m'_def)
    qed (simp add: m'_def)
    ultimately show ?thesis using kchain_cong [of ?xs "objs ?s5" m', OF eqs] by (simp only:)
  qed
  have new: "kinv ?s5 (T(?b := ?xs)) rk1 \<and> ent (T(?b := ?xs)) = (ent T)((n, k) \<mapsto> ?e)"
  proof (rule new_entry_kinv [OF u(2) refl n, where W = "{q, u}"])
    show "kchain (objs ?s5) (tab (xattr_page ?s5) ?b) ?xs" using ch tab_set(2) [of "xattr_page s3" n "xhash k" ?b] pe sh n by simp
    show "objs ?s5 r = objs s1 r" if "objs s1 r = Some (Key_Page k)" "r \<notin> {q, u}" for r k using that objs_below [of ?s2 s3 r] v(7) s2(2) by simp
    show "tab (xattr_page ?s5) c = tab (xattr_page s1) c" if "bucket c" for c using tab_set(2) [of "xattr_page s3" n "xhash k" c] pe sh n that by simp
    show "count (xattr_page ?s5) m = (if m = n then Suc (count (xattr_page s1) m) else count (xattr_page s1) m)" if "m < 4" for m
      using count_set(2) [of "xattr_page s3" n m Suc] pe sh n that by simp
  qed (use x(1) u(3) ok' pe sh miss_ent [of n k T, OF n absent] in \<open>auto simp: key_entry_def\<close>)
  have "prepared s (ent T) [] rv (n, k) sz p rep ?s5"
    by (rule prepared_finish [OF k3 v(3,4,5) _ ku refl _ conjunct1 [OF new] conjunct2 [OF new]]) (use v(6) f1(4) in \<open>auto simp: key_entry_def\<close>)
  then show thesis by (rule that) (use u(1) w2(1) v(1) write_key_page(1) [OF f3 ku, of ?pg] x(4) in \<open>simp add: room_for_key_def upd_page_run\<close>)
qed

text \<open>An existing key.\<close>

lemma insert_hit_spec:
  assumes os: "x_os s = []" and f: "file_ok s" and inv: "kinv s T rk" "vinv s (ent T) vs rv" and n: "n < 4"
    and h: "hit_at (objs s) (T (n, xhash k)) k pg i q pv pp" and sm: "x_end s < 2 ^ 31"
  obtains p rep s3 where "get_usable_value_filepos (first_value_block_pos (key_list pg ! i)) s = (Inr (p, rep), s3)"
    and "write_obj (Key_Page (pg\<lparr>key_list := (key_list pg)[i := (key_list pg ! i)\<lparr>value_size := sz\<rparr>]\<rparr>)) q s3 =
      (Inr (), s3\<lparr>objs := (objs s3)(q \<mapsto> Key_Page (pg\<lparr>key_list := (key_list pg)[i := (key_list pg ! i)\<lparr>value_size := sz\<rparr>]\<rparr>))\<rparr>)"
    and "prepared s (ent T) (vs (n, k)) rv (n, k) sz p rep
      (s3\<lparr>objs := (objs s3)(q \<mapsto> Key_Page (pg\<lparr>key_list := (key_list pg)[i := (key_list pg ! i)\<lparr>value_size := sz\<rparr>]\<rparr>))\<rparr>)"
proof -
  let ?b = "(n, xhash k)" and ?ent = "key_list pg ! i"
  let ?e = "?ent\<lparr>value_size := sz\<rparr>" and ?pg = "pg\<lparr>key_list := (key_list pg)[i := ?ent\<lparr>value_size := sz\<rparr>]\<rparr>"
  have b: "bucket ?b" using n by simp
  obtain us es ws where x: "T ?b = us @ (q, es) # ws" "i < length es" "key_of (es ! i) = k" "?ent = es ! i" "objs s q = Some (Key_Page pg)" "page_has pg es"
    using h unfolding hit_at_def by blast
  have e0: "ent T (n, k) = Some ?ent" using hit_ent(1) [OF inv(1) n h] .
  note vo = vinvD(3) [OF inv(2) e0]
  have pool: "vpool s (first_value_block_pos ?ent) (vs (n, k)) rv" using vo vinvD(1,2,4) [OF inv(2)] e0 by (auto simp: vpool_def vals_ok_def)
  obtain p rep rs' rv' s3 where v: "get_usable_value_filepos (first_value_block_pos ?ent) s = (Inr (p, rep), s3)" "kstep 264 s s3" "vpool s3 rep rs' rv'"
      "\<exists>v. objs s3 p = Some (Value v)" "p \<notin> set (rs' @ rv')" "\<forall>q \<in> set (p # rs' @ rv'). q \<in> set (vs (n, k) @ rv) \<or> x_end s \<le> q"
      "\<And>q. q < x_end s \<Longrightarrow> objs s3 q = objs s q" "(xattr_page s3)\<lparr>reclaimed_value_block := 0\<rparr> = (xattr_page s)\<lparr>reclaimed_value_block := 0\<rparr>"
      "vs (n, k) \<noteq> [] \<Longrightarrow> p = hd (vs (n, k))"
    by (rule take_value [OF os f pool sm]) (rule that)
  have p: "p = first_value_block_pos ?ent" using v(9) vo vchain_pos [of "objs s" "first_value_block_pos ?ent" "vs (n, k)"] by (simp add: vals_ok_def)
  note pe = page_eq_fields [OF v(8)]
  let ?s5 = "s3\<lparr>objs := (objs s3)(q \<mapsto> Key_Page ?pg)\<rparr>" and ?xs = "us @ (q, es[i := ?e]) # ws"
  have q3: "objs s3 q = Some (Key_Page pg)" by (rule objs_below [OF f v(7) x(5)])
  have f3: "file_ok s3" "x_os s3 = []" using v(2) by (simp_all add: kstep_def)
  have ok: "bucket_ok (xhash k) (us @ (q, es) # ws)" using kinvD(3) [OF inv(1) b] x(1) by simp
  have "key_of ?e = map key_of es ! i" "kord (key_of ?e) = ekeys es ! i" using x(2,4) by simp_all
  then have keys: "map key_of (es[i := ?e]) = map key_of es" "ekeys (es[i := ?e]) = ekeys es"
    unfolding map_update by (metis list_update_id)+
  have ok': "bucket_ok (xhash k) ?xs"
  proof (rule bucket_ok_page [OF ok])
    have es: "page_ok (xhash k) es" using ok by (simp add: bucket_ok_def)
    have "xhash (key_of y) = xhash k \<and> key_size y = length (key_of y)" if "y \<in> set (es[i := ?e])" for y
      using that es x(2,4) set_update_subset_insert [of es i ?e] by (auto simp: page_ok_def)
    then show "page_ok (xhash k) (es[i := ?e])" using es keys by (simp add: page_ok_def)
    show "distinct (map key_of (all_entries us @ es[i := ?e] @ all_entries ws))" using ok keys(1) by (simp add: bucket_ok_def)
  qed
  have all: "set (all_entries ?xs) = insert ?e {y \<in> set (all_entries (T ?b)). key_of y \<noteq> k}"
  proof -
    let ?A = "all_entries us @ take i es" and ?B = "drop (i + 1) es @ all_entries ws"
    have d: "distinct (map key_of (all_entries (T ?b)))" using ok x(1) by (simp add: bucket_ok_def)
    have "all_entries (T ?b) = ?A @ es ! i # ?B" using entries_split [OF x(2)] x(1) by simp
    moreover have "all_entries ?xs = ?A @ ?e # ?B" using entries_split [of i "es[i := ?e]"] x(2) by simp
    moreover have "distinct (map key_of (?A @ es ! i # ?B))" using d calculation(1) by (simp only:)
    ultimately show ?thesis using entries_except [of ?A "es ! i" ?B] x(3) by auto
  qed
  have ch: "kchain (objs ?s5) (tab (xattr_page s) ?b) ?xs"
  proof -
    have "kchain (objs s3) (tab (xattr_page s) ?b) (us @ (q, es) # ws)"
      using kinvD(2) [OF inv(1) b] kchain_cong [of "T ?b" "objs s3" "objs s"] kchain_bound(2) [OF f kinvD(2) [OF inv(1) b]] ok v(7) x(1) by (auto simp: bucket_ok_def)
    from kchain_change [OF this _ q3 page_has_update [OF x(6)]] show ?thesis using ok by (simp add: bucket_ok_def)
  qed
  have rch: "rchain (objs ?s5) (reclaimed_key_list_page (xattr_page ?s5)) rk"
  proof -
    have "objs ?s5 r = objs s r" if "r \<in> set rk" for r
      using rchain_page [OF kinvD(6) [OF inv(1)] that] objs_below [OF f v(7)] kinvD(4) [OF inv(1) b] x(1) that by auto
    then show ?thesis using rchain_cong [of rk "objs ?s5" "objs s"] kinvD(6) [OF inv(1)] pe(2) by simp
  qed
  have "kinv ?s5 (T(?b := ?xs)) rk"
  proof (rule kinv_bucket [OF inv(1) b, where W = "{q}"])
    show "objs ?s5 r = objs s r" if "objs s r = Some (Key_Page k)" "r \<notin> {q}" for r k using that objs_below [OF f v(7)] by simp
    show "({q} \<union> kpos ?xs \<union> set rk) \<inter> kpos (T c) = {}" if "bucket c" "c \<noteq> ?b" for c
      using kinvD(4) [OF inv(1) that(1)] kinvD(5) [OF inv(1) b that(1)] that(2) x(1) by auto
    show "kpos ?xs \<inter> set rk = {}" using kinvD(4) [OF inv(1) b] x(1) by auto
  qed (use ch ok' rch kinvD(1,7) [OF inv(1)] pe x(1) in auto)
  moreover have "ent (T(?b := ?xs)) = (ent T)((n, k) \<mapsto> ?e)"
    by (rule ent_replace [OF inv(1) n ok' refl _ all]) (use x(3,4) in simp)
  moreover have "kstep 1364 s s3" using v(2) by (simp add: kstep_def)
  ultimately have "prepared s (ent T) (vs (n, k)) rv (n, k) sz p rep ?s5"
    by (intro prepared_finish [OF _ v(3,4,5,6) q3, where y = "xattr_page s3" and e = ?e]) (use p in auto)
  then show thesis by (rule that [OF v(1) write_key_page(1) [OF f3 q3]])
qed

end
