(* ===== verification/Xattr_Set.thy ===== *)
theory Xattr_Set
  imports Xattr_Insert
begin

text \<open>\<^verbatim>\<open>insert_xattr\<close> as a whole: the value is written, what is left of the old one is reclaimed, and the head is written.\<close>

definition cost :: "string \<Rightarrow> nat" where
  "cost val = 1364 + 264 * nblocks (length val)"

text \<open>What the steps after the first leave of the keys and the other values.\<close>

lemma stored_value:
  assumes f: "file_ok s" and inv: "vinv s E vs rv" and old: "old = (case E a of None \<Rightarrow> [] | Some _ \<Rightarrow> vs a)"
    and k1: "kstep 1364 s s1" and pq: "\<forall>q \<in> set (p # rs @ rv1). q \<in> set (old @ rv) \<or> x_end s \<le> q" and p: "objs s1 p = Some (Value v1)"
    and pool1: "vpool s1 rep rs rv1" and e: "value_size e = length val" "first_value_block_pos e = p"
    and w: "wrote p val rs rv1 s1 rep' ps rs' rv2 s2" and r: "vframe (set rs') s2 s3" "vpool s3 0 [] (rs' @ rv2)"
    and s': "\<And>q v. objs s3 q = Some (Value v) \<Longrightarrow> objs s' q = objs s3 q" "reclaimed_value_block (xattr_page s') = reclaimed_value_block (xattr_page s3)"
  shows "vinv s' (E(a \<mapsto> e)) (vs(a := p # ps)) (rs' @ rv2)" "value_at s' (vs(a := p # ps)) a e = val"
    "b \<noteq> a \<Longrightarrow> E b = Some d \<Longrightarrow> value_at s' (vs(a := p # ps)) b d = value_at s vs b d"
proof -
  have d: "distinct (p # ps @ rs' @ rv2)" and ch2: "vchain (objs s2) p (p # ps)" and sub: "set (rs' @ rv2) \<subseteq> set (rs @ rv1)" "set ps \<subseteq> set (rs @ rv1) \<union> {x_end s1..}"
    using w unfolding wrote_def by blast+
  have e1: "x_end s \<le> x_end s1" "x_end s1 \<le> x_end s2" using k1 w by (auto simp: kstep_def wrote_def vframe_def)
  have below2: "q < x_end s2" if "q \<in> set (p # ps)" for q
    using that vchain_value [OF ch2] w file_ok_pos [of s2 q] by (auto simp: wrote_def vframe_def)
  have same3: "objs s3 q = objs s2 q" if "q \<in> set (p # ps)" for q
    using r(1) below2 [OF that] d that by (auto simp: vframe_def)
  have ch3: "vchain (objs s3) p (p # ps)" using ch2 vchain_cong [of "p # ps" "objs s3" "objs s2"] same3 by blast
  have same': "objs s' q = objs s3 q" if "q \<in> set (p # ps)" for q using vchain_value [OF ch3 that] s'(1) by blast
  have ch': "vchain (objs s') p (p # ps)" using ch3 vchain_cong [of "p # ps" "objs s'" "objs s3"] same' by blast
  have rc3: "vchain (objs s3) (reclaimed_value_block (xattr_page s3)) (rs' @ rv2)" using r(2) by (simp add: vpool_def)
  have rc': "vchain (objs s') (reclaimed_value_block (xattr_page s')) (rs' @ rv2)"
    using rc3 vchain_value [OF rc3] s' vchain_cong [of "rs' @ rv2" "objs s'" "objs s3"] by metis
  have vo: "vals_ok (objs s') e (p # ps)" using ch' d e w by (simp add: vals_ok_def wrote_def)
  have oth: "objs s' q = objs s q" if q: "objs s q = Some (Value v)" "q \<notin> set (old @ rv)" for q v
  proof -
    have a: "objs s1 q = objs s q" by (rule kstep_value [OF k1 f q(1)])
    have l: "q < x_end s" using file_ok_pos [OF f q(1)] by blast
    then have out: "q \<notin> insert p (set (rs @ rv1))" using pq q(2) by (metis insert_iff leD list.set(2))
    then have "objs s2 q = objs s1 q" using w l e1(1) by (simp add: wrote_def vframe_def)
    moreover have "objs s3 q = objs s2 q"
    proof -
      have "q \<notin> set rs'" "q < x_end s2" using out sub(1) l e1 by auto
      then show ?thesis using r(1) by (simp add: vframe_def)
    qed
    ultimately show ?thesis using s'(1) [of q v] a q(1) by simp
  qed
  have inn: "q \<in> set (old @ rv)" if q: "q \<in> set ((p # ps) @ rs' @ rv2)" "objs s q = Some (Value v)" for q v
  proof -
    have l: "q < x_end s" using file_ok_pos [OF f q(2)] by blast
    then have "q \<notin> {x_end s1..}" using e1(1) by simp
    then have "q \<in> set (p # rs @ rv1)" using q(1) sub by auto
    then show ?thesis using pq l leD by blast
  qed
  have dd: "distinct ((p # ps) @ rs' @ rv2)" using d by simp
  note vs' = vinv_set [OF inv old oth vo rc' dd inn]
  show "vinv s' (E(a \<mapsto> e)) (vs(a := p # ps)) (rs' @ rv2)" by (rule vs'(1))
  show "b \<noteq> a \<Longrightarrow> E b = Some d \<Longrightarrow> value_at s' (vs(a := p # ps)) b d = value_at s vs b d" by (rule vs'(2))
  have "vbytes (objs s') (p # ps) = vbytes (objs s2) (p # ps)" by (rule vbytes_cong) (use same' same3 in auto)
  then show "value_at s' (vs(a := p # ps)) a e = val" using w e(1) unfolding value_at_def wrote_def by simp
qed

definition set_to :: "nat \<Rightarrow> x_state \<Rightarrow> (nat \<times> string \<Rightarrow> KEY_ENTRY option) \<Rightarrow> (nat \<times> string \<Rightarrow> nat list) \<Rightarrow> nat \<times> string \<Rightarrow> string \<Rightarrow> x_state \<Rightarrow> bool" where
  "set_to pos s E vs a val s' \<longleftrightarrow> x_os s' = [] \<and> file_ok s' \<and> objs s' pos = Some (Head (xattr_page s')) \<and> marked_dirty s' = Suc (marked_dirty s) \<and>
     x_end s' \<le> x_end s + cost val \<and>
     (\<exists>T rk vs' rv' e. kinv s' T rk \<and> vinv s' (ent T) vs' rv' \<and> ent T = E(a \<mapsto> e) \<and> value_at s' vs' a e = val \<and>
       (\<forall>b d. b \<noteq> a \<longrightarrow> E b = Some d \<longrightarrow> value_at s' vs' b d = value_at s vs b d))"

lemma finish_insert:
  assumes f: "file_ok s" and hd: "objs s pos = Some (Head x)" and inv: "vinv s E vs rv" and old: "old = (case E a of None \<Rightarrow> [] | Some _ \<Rightarrow> vs a)"
    and pr: "prepared s E old rv a (length val) p rep s1" and val: "val \<noteq> []" and sm: "x_end s + cost val < 2 ^ 31"
  obtains s' where "bindE (write_value_data rep p val) (\<lambda>rep1. bindE (reclaim_replace_value_block rep1) (\<lambda>_.
      bindE (write_head pos) (\<lambda>_. mark_inode_dirty))) s1 = (Inr (), s')" and "set_to pos s E vs a val s'"
proof -
  obtain T rk e rs rv1 v1 where k1: "kstep 1364 s s1" and kv: "kinv s1 T rk" "ent T = E(a \<mapsto> e)" and e: "value_size e = length val" "first_value_block_pos e = p"
    and pool1: "vpool s1 rep rs rv1" and p: "p \<notin> set (rs @ rv1)" "objs s1 p = Some (Value v1)" and pq: "\<forall>q \<in> set (p # rs @ rv1). q \<in> set (old @ rv) \<or> x_end s \<le> q"
    using pr unfolding prepared_def by blast
  have f1: "x_os s1 = []" "file_ok s1" "x_end s1 \<le> x_end s + 1364" using k1 by (simp_all add: kstep_def)
  have sm1: "x_end s1 + 264 * (nblocks (length val) - 1) < 2 ^ 31 + 264" using f1(3) sm by (simp add: cost_def)
  obtain rep' ps rs' rv2 s2 where w: "write_value_data rep p val s1 = (Inr rep', s2)" "wrote p val rs rv1 s1 rep' ps rs' rv2 s2"
    using write_value_data_spec [OF val f1(1,2) pool1 p sm1] by blast
  have f2: "x_os s2 = []" "file_ok s2" "vpool s2 rep' rs' rv2" using w(2) by (simp_all add: wrote_def vframe_def)
  obtain s3 where r: "reclaim_replace_value_block rep' s2 = (Inr (), s3)" "vframe (set rs') s2 s3" "vpool s3 0 [] (rs' @ rv2)" "x_end s3 = x_end s2"
    using reclaim_replace_value_block_spec [OF f2] .
  have f3: "x_os s3 = []" "file_ok s3" "marked_dirty s3 = marked_dirty s" using r(2) w(2) k1 by (simp_all add: wrote_def vframe_def kstep_def)
  have vals: "\<exists>v. objs s1 q = Some (Value v)" if "q \<in> insert p (set (rs @ rv1))" for q
    using that p(2) pool1 vchain_value unfolding vpool_def by (metis Un_iff insert_iff set_append)
  have nonval: "objs s3 q = objs s1 q" if "objs s1 q = Some y" "\<nexists>v. y = Value v" for q y
  proof -
    have q: "q \<notin> insert p (set (rs @ rv1))" "q < x_end s1" using vals [of q] that file_ok_pos [OF f1(2) that(1)] by auto
    then have "objs s2 q = objs s1 q" "q < x_end s2" using w(2) by (auto simp: wrote_def vframe_def)
    moreover have "q \<notin> set rs'" using q(1) w(2) by (auto simp: wrote_def)
    ultimately show ?thesis using r(2) by (simp add: vframe_def)
  qed
  have h1: "objs s1 pos = Some (Head x)" using kstep_head [OF k1 f hd] hd by simp
  then have h3: "objs s3 pos = Some (Head x)" using nonval [OF h1] by simp
  let ?s4 = "s3\<lparr>objs := (objs s3)(pos \<mapsto> Head (xattr_page s3))\<rparr>"
  let ?s' = "?s4\<lparr>marked_dirty := marked_dirty s3 + 1\<rparr>"
  note hp = file_ok_pos [OF f3(2) h3]
  have run: "write_head pos s3 = (Inr (), ?s4)" using write_obj_ok [OF f3(1) h3, of "Head (xattr_page s3)"] hp by (simp add: write_head_def)
  have mk: "mark_inode_dirty ?s4 = (Inr (), ?s')" using f3(1) by (simp add: mark_inode_dirty_def x_call_ok)
  have pe: "namespace_page (xattr_page ?s') = namespace_page (xattr_page s1)" "reclaimed_key_list_page (xattr_page ?s') = reclaimed_key_list_page (xattr_page s1)"
    using page_eq_fields(1,2) [of "xattr_page s3" "xattr_page s1"] r(2) w(2) by (simp_all add: wrote_def vframe_def)
  have "kinv ?s' T rk" by (rule kinv_frame [OF kv(1) _ pe]) (use nonval h1 in auto)
  moreover note sv = stored_value [OF f inv old k1 pq p(2) pool1 e w(2) r(2,3), of ?s']
  have "vinv ?s' (ent T) (vs(a := p # ps)) (rs' @ rv2)" unfolding kv(2) by (rule sv(1)) (use h3 in auto)
  moreover have "value_at ?s' (vs(a := p # ps)) a e = val" by (rule sv(2)) (use h3 in auto)
  moreover have "value_at ?s' (vs(a := p # ps)) b d = value_at s vs b d" if "b \<noteq> a" "E b = Some d" for b d by (rule sv(3)) (use h3 that in auto)
  moreover have "file_ok ?s'" using f3(2) hp by (auto simp: file_ok_def)
  moreover have "x_end ?s' \<le> x_end s + cost val"
  proof -
    have "x_end s2 \<le> x_end s1 + 264 * (nblocks (length val) - 1)" using w(2) by (simp add: wrote_def)
    moreover have "264 * (nblocks (length val) - 1) \<le> 264 * nblocks (length val)" by simp
    ultimately show ?thesis using r(4) f1(3) by (simp add: cost_def)
  qed
  moreover have "x_os ?s' = []" "objs ?s' pos = Some (Head (xattr_page ?s'))" "marked_dirty ?s' = Suc (marked_dirty s)" using f3 by simp_all
  ultimately have "set_to pos s E vs a val ?s'" unfolding set_to_def using kv(2) by blast
  then show thesis by (rule that [rotated]) (use w(1) r(1) run mk in simp)
qed

lemma set_to_xrel:
  assumes "set_to pos s (ent T) vs a val s'" and "\<And>b. M b = map_option (value_at s vs b) (ent T b)"
  shows "xrel pos (M(a \<mapsto> val)) s'"
proof -
  obtain T' rk vs' rv' e where s': "x_os s' = []" "file_ok s'" "objs s' pos = Some (Head (xattr_page s'))" and inv: "kinv s' T' rk" "vinv s' (ent T') vs' rv'"
    and e: "ent T' = (ent T)(a \<mapsto> e)" "value_at s' vs' a e = val" "\<And>b d. b \<noteq> a \<Longrightarrow> ent T b = Some d \<Longrightarrow> value_at s' vs' b d = value_at s vs b d"
    using assms(1) unfolding set_to_def by blast
  have "(M(a \<mapsto> val)) b = map_option (value_at s' vs' b) (ent T' b)" for b
    using e assms(2) [of b] by (cases "b = a"; cases "ent T b") auto
  then show ?thesis unfolding xrel_def using s' inv by blast
qed

lemma insert_xattr_steps:
  assumes "(if table_at (xattr_page s) n (xhash k) = 0 then insert_first n k (length val) flag
      else insert_existing n k (length val) flag (table_at (xattr_page s) n (xhash k))) s = (Inr (p, rep), s1)"
    and "bindE (write_value_data rep p val) (\<lambda>rep1. bindE (reclaim_replace_value_block rep1) (\<lambda>_.
      bindE (write_head pos) (\<lambda>_. mark_inode_dirty))) s1 = (Inr (), s')"
  shows "insert_xattr pos n k val flag s = (Inr (), s')"
  using assms by (simp add: insert_xattr_def Let_def)

text \<open>Both ways to insert, and the two errors.\<close>

lemma insert_new_key:
  assumes os: "x_os s = []" and f: "file_ok s" and inv: "kinv s T rk" "vinv s (ent T) vs rv" and n: "n < 4" and absent: "ent T (n, k) = None"
    and fl: "flag \<noteq> XATTR_REPLACE" and sm: "x_end s + 1100 < 2 ^ 31"
  obtains p rep s1 where "(if table_at (xattr_page s) n (xhash k) = 0 then insert_first n k sz flag
      else insert_existing n k sz flag (table_at (xattr_page s) n (xhash k))) s = (Inr (p, rep), s1)" and "prepared s (ent T) [] rv (n, k) sz p rep s1"
proof -
  have pool: "vpool s 0 [] rv" using vinvD(1,2) [OF inv(2)] by (simp add: vpool_def)
  show thesis
  proof (cases "table_at (xattr_page s) n (xhash k) = 0")
    case True
    show thesis by (rule insert_first_spec [OF os f inv(1) pool n True fl sm, of sz]) (rule that, simp_all add: True)
  next
    case False
    obtain r where r: "find_key_entry (table_at (xattr_page s) n (xhash k)) k s = (Inr r, s)" "found (objs s) (T (n, xhash k)) k zero_key_page 0 None r"
      using find_key [OF os f inv(1) n False] .
    obtain pg j q where m: "r = Miss pg j q" using r(2) hit_ent(1) [OF inv(1) n] absent by (cases r) (auto simp: found_def)
    have kn: "k \<notin> key_of ` set (all_entries (T (n, xhash k)))" and
      pl: "room_at (objs s) (T (n, xhash k)) k pg j q \<or> full_at (objs s) (T (n, xhash k)) pg j q" using r(2) m by (simp_all add: found_def)
    from pl show thesis
    proof
      assume rm: "room_at (objs s) (T (n, xhash k)) k pg j q"
      have "x_end s < 2 ^ 31" using sm by simp
      from insert_room_spec [OF os f inv(1) pool n rm kn this, of sz] obtain p rep s3 where
          v: "get_usable_value_filepos 0 s = (Inr (p, rep), s3)" "0 \<le> j"
          "write_obj (Key_Page (put_entry (nat j) (key_entry k p sz) (shift_up (nat j) pg))) q s3 =
            (Inr (), s3\<lparr>objs := (objs s3)(q \<mapsto> Key_Page (put_entry (nat j) (key_entry k p sz) (shift_up (nat j) pg)))\<rparr>)"
          "prepared s (ent T) [] rv (n, k) sz p rep
            (s3\<lparr>objs := (objs s3)(q \<mapsto> Key_Page (put_entry (nat j) (key_entry k p sz) (shift_up (nat j) pg))), xattr_page := set_count n Suc (xattr_page s3)\<rparr>)" .
      show thesis by (rule that [OF _ v(4)]) (use False fl r(1) m v in \<open>simp add: insert_existing_def room_for_key_def upd_page_run\<close>)
    next
      assume "full_at (objs s) (T (n, xhash k)) pg j q"
      from insert_full_spec [OF os f inv(1) pool n this kn sm, of sz] obtain p rep s' where w: "prepared s (ent T) [] rv (n, k) sz p rep s'"
        "bindE (room_for_key pg j q) (\<lambda>(page1, i, pos1). bindE (get_usable_value_filepos 0) (\<lambda>(value_pos, rep).
          bindE (write_obj (Key_Page (put_entry i (key_entry k value_pos sz) page1)) pos1) (\<lambda>_.
          bindE (upd_page (set_count n Suc)) (\<lambda>_. returnE (value_pos, rep))))) s = (Inr (p, rep), s')" .
      show thesis by (rule that [OF _ w(1)]) (use False fl r(1) m w(2) in \<open>simp add: insert_existing_def\<close>)
    qed
  qed
qed

lemma insert_xattr_spec:
  assumes rel: "xrel pos M s" and n: "n < 4" and val: "val \<noteq> []" and sm: "x_end s + cost val < 2 ^ 31"
  shows "if M (n, k) = None \<and> flag = XATTR_REPLACE then insert_xattr pos n k val flag s = (Inl (Errno ENODATA), s)
    else if M (n, k) \<noteq> None \<and> flag = XATTR_CREATE then insert_xattr pos n k val flag s = (Inl (Errno EEXIST), s)
    else \<exists>s'. insert_xattr pos n k val flag s = (Inr (), s') \<and> xrel pos (M((n, k) \<mapsto> val)) s' \<and> marked_dirty s' = Suc (marked_dirty s) \<and> x_end s' \<le> x_end s + cost val"
proof -
  obtain T rk vs rv where os: "x_os s = []" and f: "file_ok s" and hd: "objs s pos = Some (Head (xattr_page s))"
    and inv: "kinv s T rk" "vinv s (ent T) vs rv" and M: "\<And>a. M a = map_option (value_at s vs a) (ent T a)" using rel unfolding xrel_def by blast
  have sm': "x_end s < 2 ^ 31" "x_end s + 1100 < 2 ^ 31" using sm by (simp_all add: cost_def)
  have fin: "\<exists>s'. insert_xattr pos n k val flag s = (Inr (), s') \<and> xrel pos (M((n, k) \<mapsto> val)) s' \<and> marked_dirty s' = Suc (marked_dirty s) \<and> x_end s' \<le> x_end s + cost val"
    if a: "(if table_at (xattr_page s) n (xhash k) = 0 then insert_first n k (length val) flag
        else insert_existing n k (length val) flag (table_at (xattr_page s) n (xhash k))) s = (Inr (p, rep), s1)"
      and pr: "prepared s (ent T) old rv (n, k) (length val) p rep s1" and o: "old = (case ent T (n, k) of None \<Rightarrow> [] | Some _ \<Rightarrow> vs (n, k))" for p rep s1 old
  proof -
    obtain s' where s': "bindE (write_value_data rep p val) (\<lambda>rep1. bindE (reclaim_replace_value_block rep1) (\<lambda>_.
      bindE (write_head pos) (\<lambda>_. mark_inode_dirty))) s1 = (Inr (), s')" "set_to pos s (ent T) vs (n, k) val s'"
      using finish_insert [OF f hd inv(2) o pr val sm] .
    show ?thesis using insert_xattr_steps [OF a s'(1)] set_to_xrel [OF s'(2) M] s'(2) unfolding set_to_def by blast
  qed
  show ?thesis
  proof (cases "ent T (n, k)")
    case None
    then have Mn: "M (n, k) = None" using M by simp
    have "insert_xattr pos n k val flag s = (Inl (Errno ENODATA), s)" if fl: "flag = XATTR_REPLACE"
    proof (cases "table_at (xattr_page s) n (xhash k) = 0")
      case True
      then show ?thesis using fl by (simp add: insert_xattr_def insert_first_def)
    next
      case False
      obtain r where r: "find_key_entry (table_at (xattr_page s) n (xhash k)) k s = (Inr r, s)" "found (objs s) (T (n, xhash k)) k zero_key_page 0 None r"
        using find_key [OF os f inv(1) n False] .
      obtain pg j q where "r = Miss pg j q" using r(2) hit_ent(1) [OF inv(1) n] None by (cases r) (auto simp: found_def)
      then show ?thesis using fl r(1) False by (simp add: insert_xattr_def insert_existing_def)
    qed
    moreover have "\<exists>s'. insert_xattr pos n k val flag s = (Inr (), s') \<and> xrel pos (M((n, k) \<mapsto> val)) s' \<and> marked_dirty s' = Suc (marked_dirty s) \<and> x_end s' \<le> x_end s + cost val"
      if fl: "flag \<noteq> XATTR_REPLACE"
    proof -
      obtain p rep s1 where "(if table_at (xattr_page s) n (xhash k) = 0 then insert_first n k (length val) flag
        else insert_existing n k (length val) flag (table_at (xattr_page s) n (xhash k))) s = (Inr (p, rep), s1)" "prepared s (ent T) [] rv (n, k) (length val) p rep s1"
        using insert_new_key [OF os f inv n None fl sm'(2)] .
      from fin [OF this] None show ?thesis by simp
    qed
    ultimately show ?thesis using Mn by simp
  next
    case (Some e0)
    then have Mn: "M (n, k) \<noteq> None" using M by simp
    have nz: "table_at (xattr_page s) n (xhash k) \<noteq> 0"
      using Some no_bucket [OF inv(1) n, of k] n by (auto simp: ent_def bmap_def)
    obtain r where r: "find_key_entry (table_at (xattr_page s) n (xhash k)) k s = (Inr r, s)" "found (objs s) (T (n, xhash k)) k zero_key_page 0 None r"
      using find_key [OF os f inv(1) n nz] .
    obtain pg i q pv pp where h: "r = Hit pg i q pv pp" "hit_at (objs s) (T (n, xhash k)) k pg i q pv pp"
      using r(2) miss_ent [OF n] Some by (cases r) (auto simp: found_def)
    obtain p rep s3 where v: "get_usable_value_filepos (first_value_block_pos (key_list pg ! i)) s = (Inr (p, rep), s3)"
        "write_obj (Key_Page (pg\<lparr>key_list := (key_list pg)[i := (key_list pg ! i)\<lparr>value_size := length val\<rparr>]\<rparr>)) q s3 =
          (Inr (), s3\<lparr>objs := (objs s3)(q \<mapsto> Key_Page (pg\<lparr>key_list := (key_list pg)[i := (key_list pg ! i)\<lparr>value_size := length val\<rparr>]\<rparr>))\<rparr>)"
        "prepared s (ent T) (vs (n, k)) rv (n, k) (length val) p rep
          (s3\<lparr>objs := (objs s3)(q \<mapsto> Key_Page (pg\<lparr>key_list := (key_list pg)[i := (key_list pg ! i)\<lparr>value_size := length val\<rparr>]\<rparr>))\<rparr>)"
      using insert_hit_spec [OF os f inv n h(2) sm'(1)] .
    have "\<exists>s'. insert_xattr pos n k val flag s = (Inr (), s') \<and> xrel pos (M((n, k) \<mapsto> val)) s' \<and> marked_dirty s' = Suc (marked_dirty s) \<and> x_end s' \<le> x_end s + cost val"
      if "flag \<noteq> XATTR_CREATE"
      by (rule fin [OF _ v(3)]) (use nz r(1) h(1) v that Some in \<open>simp_all add: insert_existing_def Let_def\<close>)
    moreover have "insert_xattr pos n k val flag s = (Inl (Errno EEXIST), s)" if "flag = XATTR_CREATE"
      using that nz r(1) h(1) by (simp add: insert_xattr_def insert_existing_def)
    ultimately show ?thesis using Mn by auto
  qed
qed

end
