(* ===== verification/Xattr_Remove.thy ===== *)
theory Xattr_Remove
  imports Xattr_Set
begin

text \<open>\<^verbatim>\<open>remove_xattr\<close>: the key is taken out of its page, or the page out of its list; then the value is reclaimed.\<close>

text \<open>The keys after the first step; the count is still the old one.\<close>

definition key_removed :: "nat \<Rightarrow> x_state \<Rightarrow> (nat \<times> nat \<Rightarrow> (nat \<times> KEY_ENTRY list) list) \<Rightarrow> nat list \<Rightarrow> nat \<Rightarrow> string \<Rightarrow> x_state \<Rightarrow>
    (nat \<times> KEY_ENTRY list) list \<Rightarrow> nat list \<Rightarrow> bool" where
  "key_removed pos s T rk n k s' xs rk' \<longleftrightarrow>
     file_ok s' \<and> x_os s' = [] \<and> marked_dirty s' = marked_dirty s \<and> x_end s' = x_end s \<and> (\<exists>x. objs s' pos = Some (Head x)) \<and>
     (\<forall>q v. objs s q = Some (Value v) \<longrightarrow> objs s' q = objs s q) \<and>
     (\<forall>q j. objs s q = Some (Key_Page j) \<longrightarrow> q \<notin> kpos (T (n, xhash k)) \<longrightarrow> objs s' q = objs s q) \<and>
     reclaimed_value_block (xattr_page s') = reclaimed_value_block (xattr_page s) \<and> shape (xattr_page s') \<and>
     (\<forall>c. bucket c \<longrightarrow> c \<noteq> (n, xhash k) \<longrightarrow> tab (xattr_page s') c = tab (xattr_page s) c) \<and> (\<forall>m < 4. count (xattr_page s') m = count (xattr_page s) m) \<and>
     kchain (objs s') (tab (xattr_page s') (n, xhash k)) xs \<and> bucket_ok (xhash k) xs \<and> kpos xs \<subseteq> kpos (T (n, xhash k)) \<and>
     rchain (objs s') (reclaimed_key_list_page (xattr_page s')) rk' \<and> distinct rk' \<and> kpos xs \<inter> set rk' = {} \<and> set rk' \<subseteq> kpos (T (n, xhash k)) \<union> set rk \<and>
     set (all_entries xs) = {x \<in> set (all_entries (T (n, xhash k))). key_of x \<noteq> k} \<and>
     length (all_entries (T (n, xhash k))) = Suc (length (all_entries xs))"

lemma key_removedD:
  assumes "key_removed pos s T rk n k s' xs rk'"
  shows "objs s q = Some (Value v) \<Longrightarrow> objs s' q = objs s q"
    "objs s q = Some (Key_Page j) \<Longrightarrow> q \<notin> kpos (T (n, xhash k)) \<Longrightarrow> objs s' q = objs s q"
    "bucket c \<Longrightarrow> c \<noteq> (n, xhash k) \<Longrightarrow> tab (xattr_page s') c = tab (xattr_page s) c"
    "m < 4 \<Longrightarrow> count (xattr_page s') m = count (xattr_page s) m" "\<exists>x. objs s' pos = Some (Head x)"
    "kchain (objs s') (tab (xattr_page s') (n, xhash k)) xs" "bucket_ok (xhash k) xs" "kpos xs \<subseteq> kpos (T (n, xhash k))"
    "rchain (objs s') (reclaimed_key_list_page (xattr_page s')) rk'" "distinct rk'" "kpos xs \<inter> set rk' = {}" "set rk' \<subseteq> kpos (T (n, xhash k)) \<union> set rk"
    "set (all_entries xs) = {x \<in> set (all_entries (T (n, xhash k))). key_of x \<noteq> k}"
    "length (all_entries (T (n, xhash k))) = Suc (length (all_entries xs))" "reclaimed_value_block (xattr_page s') = reclaimed_value_block (xattr_page s)"
  using assms by (simp_all add: key_removed_def del: split_paired_All)

lemma page_ok_remove:
  assumes "page_ok h es" and "i < length es" and "1 < length es"
  shows "page_ok h (take i es @ drop (i + 1) es)"
proof -
  have "sorted_wrt (<) (take i (ekeys es) @ drop i (ekeys es))" using assms(1) by (simp add: page_ok_def)
  then have "sorted_wrt (<) (take i (ekeys es) @ drop (i + 1) (ekeys es))"
    using assms(2) by (auto simp: sorted_wrt_append Cons_nth_drop_Suc [symmetric] simp del: append_take_drop_id)
  then have "sorted_wrt (<) (ekeys (take i es @ drop (i + 1) es))" by (simp add: take_map drop_map)
  moreover have "take i es @ drop (i + 1) es \<noteq> []" using assms(2,3) by (cases i) auto
  moreover have "set (take i es @ drop (i + 1) es) \<subseteq> set es" using set_take_subset [of i es] set_drop_subset [of "i + 1" es] by auto
  ultimately show ?thesis using assms(1,2) by (auto simp: page_ok_def)
qed

lemma removed_entries:
  assumes ok: "bucket_ok h (us @ (q, es) # ws)" and i: "i < length es" "key_of (es ! i) = k"
    and all: "all_entries xs = (all_entries us @ take i es) @ drop (i + 1) es @ all_entries ws"
  shows "set (all_entries xs) = {x \<in> set (all_entries (us @ (q, es) # ws)). key_of x \<noteq> k}"
    "length (all_entries (us @ (q, es) # ws)) = Suc (length (all_entries xs))" "distinct (map key_of (all_entries xs))"
proof -
  let ?A = "all_entries us @ take i es" and ?B = "drop (i + 1) es @ all_entries ws"
  have sp: "all_entries (us @ (q, es) # ws) = ?A @ es ! i # ?B" by (rule entries_split [OF i(1)])
  have "distinct (map key_of (all_entries (us @ (q, es) # ws)))" using ok by (simp add: bucket_ok_def)
  then have d: "distinct (map key_of (?A @ es ! i # ?B))" unfolding sp .
  show "set (all_entries xs) = {x \<in> set (all_entries (us @ (q, es) # ws)). key_of x \<noteq> k}" unfolding sp all using entries_except [OF d] i(2) by simp
  show "length (all_entries (us @ (q, es) # ws)) = Suc (length (all_entries xs))" unfolding sp all by simp
  show "distinct (map key_of (all_entries xs))" unfolding all using d by auto
qed

lemma remove_in_page:
  assumes os: "x_os s = []" and f: "file_ok s" and hd: "objs s pos = Some (Head x)" and inv: "kinv s T rk" and n: "n < 4"
    and T: "T (n, xhash k) = us @ (q, es) # ws" and i: "i < length es" "key_of (es ! i) = k" and pg: "objs s q = Some (Key_Page pg)" "page_has pg es" and l: "1 < length es"
  obtains s1 xs where "remove_key pos n (xhash k) pg i q pv pp fp s = (Inr (), s1)" and "key_removed pos s T rk n k s1 xs rk"
proof -
  let ?b = "(n, xhash k)"
  have b: "bucket ?b" using n by simp
  have ok: "bucket_ok (xhash k) (us @ (q, es) # ws)" using kinvD(3) [OF inv b] T by simp
  have d: "distinct (map fst (us @ (q, es) # ws))" "page_ok (xhash k) es" "length es \<le> MAX_KEY_ENTRY_PER_LIST" using ok by (simp_all add: bucket_ok_def page_ok_def)
  let ?pg = "(shift_down i pg)\<lparr>num_xattr := num_xattr pg - 1\<rparr>" and ?es = "take i es @ drop (i + 1) es"
  let ?s1 = "s\<lparr>objs := (objs s)(q \<mapsto> Key_Page ?pg)\<rparr>" and ?xs = "us @ (q, take i es @ drop (i + 1) es) # ws"
  note qp = file_ok_pos [OF f pg(1)] and re = removed_entries [OF ok i, of ?xs]
  have all: "all_entries ?xs = (all_entries us @ take i es) @ drop (i + 1) es @ all_entries ws" by simp
  have "kchain (objs s) (tab (xattr_page s) ?b) (us @ (q, es) # ws)" using kinvD(2) [OF inv b] T by simp
  from kchain_change [OF this d(1) pg(1) page_has_remove [OF pg(2) i(1) d(3)]] have ch: "kchain (objs ?s1) (tab (xattr_page s) ?b) ?xs"
    by (simp add: shift_down_def)
  have "bucket_ok (xhash k) ?xs" by (rule bucket_ok_page [OF ok page_ok_remove [OF d(2) i(1) l]]) (use re(3) [OF all] in simp)
  moreover have "q \<notin> set rk" "kpos ?xs \<inter> set rk = {}" using kinvD(4) [OF inv b] T by auto
  ultimately have "key_removed pos s T rk n k ?s1 ?xs rk"
    unfolding key_removed_def using re [OF all] ch T f os hd qp pg(1) file_ok_put [OF f, of q] kinvD(1,6,7) [OF inv] b by auto
  moreover have "remove_key pos n (xhash k) pg i q pv pp fp s = (Inr (), ?s1)"
    using write_key_page(1) [OF f os pg(1)] l pg(2) by (simp add: remove_key_def page_has_def)
  ultimately show thesis using that by blast
qed

lemma kchain_not_head: "kchain m p xs \<Longrightarrow> m pos = Some (Head x) \<Longrightarrow> pos \<notin> kpos xs"
  by (induction xs arbitrary: p) auto

text \<open>The page is empty then: it is unlinked and put on the reclaimed list.\<close>

lemma unlinked_page:
  assumes inv: "kinv s T rk" and n: "n < 4" and T: "T (n, xhash k) = us @ (q, es) # ws" and f: "file_ok s" and pg: "objs s q = Some (Key_Page pg)"
    and one: "length es = 1" "key_of (es ! 0) = k"
    and s2: "file_ok s2" "x_os s2 = []" "marked_dirty s2 = marked_dirty s" "x_end s2 = x_end s" "\<exists>x. objs s2 pos = Some (Head x)" "objs s2 q = Some (Key_Page pg)"
      "\<And>r v. objs s r = Some (Value v) \<Longrightarrow> objs s2 r = objs s r" "\<And>r j. objs s r = Some (Key_Page j) \<Longrightarrow> r \<notin> kpos us \<Longrightarrow> objs s2 r = objs s r"
    and x2: "reclaimed_value_block (xattr_page s2) = reclaimed_value_block (xattr_page s)" "reclaimed_key_list_page (xattr_page s2) = reclaimed_key_list_page (xattr_page s)"
      "shape (xattr_page s2)" "\<And>c. bucket c \<Longrightarrow> c \<noteq> (n, xhash k) \<Longrightarrow> tab (xattr_page s2) c = tab (xattr_page s) c" "\<And>m. m < 4 \<Longrightarrow> count (xattr_page s2) m = count (xattr_page s) m"
    and ch: "kchain (objs s2) (tab (xattr_page s2) (n, xhash k)) (us @ ws)"
  obtains s1 where "bindE (\<lambda>s. write_obj (Key_Page (zero_key_page\<lparr>next_list_pos := reclaimed_key_list_page (xattr_page s)\<rparr>)) q s) (\<lambda>_.
        bindE (upd_page (\<lambda>x. x\<lparr>reclaimed_key_list_page := q\<rparr>)) (\<lambda>_. write_head pos)) s2 = (Inr (), s1)"
    and "key_removed pos s T rk n k s1 (us @ ws) (q # rk)"
proof -
  let ?b = "(n, xhash k)"
  have b: "bucket ?b" using n by simp
  have ok: "bucket_ok (xhash k) (us @ (q, es) # ws)" using kinvD(3) [OF inv b] T by simp
  have d: "q \<notin> kpos (us @ ws)" "distinct (map fst (us @ ws))" using ok by (auto simp: bucket_ok_def)
  have qr: "q \<notin> set rk" "kpos (us @ ws) \<inter> set rk = {}" using kinvD(4) [OF inv b] T by auto
  obtain e where es: "es = [e]" using one(1) by (auto simp: length_Suc_conv)
  let ?z = "zero_key_page\<lparr>next_list_pos := reclaimed_key_list_page (xattr_page s)\<rparr>"
  let ?x = "(xattr_page s2)\<lparr>reclaimed_key_list_page := q\<rparr>"
  let ?s3 = "s2\<lparr>objs := (objs s2)(q \<mapsto> Key_Page ?z), xattr_page := ?x\<rparr>"
  let ?s4 = "?s3\<lparr>objs := (objs ?s3)(pos \<mapsto> Head ?x)\<rparr>"
  note qp = file_ok_pos [OF s2(1,6)]
  obtain x0 where h: "objs s2 pos = Some (Head x0)" using s2(5) by blast
  note hp = file_ok_pos [OF s2(1) h]
  have h3: "objs ?s3 pos = Some (Head x0)" "pos \<noteq> q" using h s2(6) by auto
  have run: "bindE (\<lambda>s. write_obj (Key_Page (zero_key_page\<lparr>next_list_pos := reclaimed_key_list_page (xattr_page s)\<rparr>)) q s) (\<lambda>_.
      bindE (upd_page (\<lambda>x. x\<lparr>reclaimed_key_list_page := q\<rparr>)) (\<lambda>_. write_head pos)) s2 = (Inr (), ?s4)"
    using write_key_page(1) [OF s2(1,2,6), of ?z] write_obj_ok [of ?s3 pos "Head x0" "Head ?x"] s2(2) h3 hp x2(2) by (simp add: upd_page_run write_head_def)
  have t: "tab ?x = tab (xattr_page s2)" "count ?x = count (xattr_page s2)" "shape ?x = shape (xattr_page s2)"
    by (simp_all add: tab_def table_at_def count_def shape_def fun_eq_iff)
  have nothead: "r \<noteq> pos" if "objs s2 r = Some (Key_Page j)" for r j using that h by auto
  have ch4: "kchain (objs ?s4) (tab ?x ?b) (us @ ws)"
  proof -
    have "pos \<notin> kpos (us @ ws)" by (rule kchain_not_head [OF ch h])
    then show ?thesis using ch d(1) t(1) by simp
  qed
  have rc: "rchain (objs ?s4) q (q # rk)"
  proof -
    have "objs ?s4 r = objs s r" if r: "r \<in> set rk" for r
    proof -
      have o: "r \<notin> kpos us" "r \<noteq> q" using qr r by auto
      obtain j where j: "objs s r = Some (Key_Page j)" using rchain_page [OF kinvD(6) [OF inv] r] by blast
      then have "objs s2 r = Some (Key_Page j)" using s2(8) [OF j o(1)] by simp
      then show ?thesis using o(2) nothead j by simp
    qed
    then have "rchain (objs ?s4) (reclaimed_key_list_page (xattr_page s)) rk" using rchain_cong [of rk "objs ?s4" "objs s"] kinvD(6) [OF inv] by blast
    then show ?thesis using h3(2) qp by simp
  qed
  have ok': "bucket_ok (xhash k) (us @ ws)" using ok by (auto simp: bucket_ok_def ball_Un)
  have ent: "set (all_entries (us @ ws)) = {x \<in> set (all_entries (us @ (q, es) # ws)). key_of x \<noteq> k}"
    "length (all_entries (us @ (q, es) # ws)) = Suc (length (all_entries (us @ ws)))"
    by (rule removed_entries(1,2) [OF ok, of 0 k "us @ ws"]; use one es in simp)+
  have oth: "objs ?s4 r = objs s r" if "objs s r = Some (Value v)" for r v using that s2(6,7) h by auto
  have oth': "objs ?s4 r = objs s r" if "objs s r = Some (Key_Page j)" "r \<notin> kpos (T ?b)" for r j
  proof -
    have "r \<notin> kpos us" "r \<noteq> q" using that(2) T by auto
    then show ?thesis using s2(8) [OF that(1)] nothead [of r j] that(1) by simp
  qed
  have "file_ok ?s4" using s2(1) qp hp by (auto simp: file_ok_def)
  then have "key_removed pos s T rk n k ?s4 (us @ ws) (q # rk)"
    unfolding key_removed_def T
    using s2(2-4) oth oth' x2 t ch4 ok' rc kinvD(7) [OF inv] d(1) qr ent T by auto
  then show thesis using that run by blast
qed

lemma unlink_first:
  assumes os: "x_os s = []" and f: "file_ok s" and hd: "objs s pos = Some (Head x)" and inv: "kinv s T rk" and n: "n < 4"
    and T: "T (n, xhash k) = (q, es) # ws" and pg: "objs s q = Some (Key_Page pg)" "page_has pg es" and one: "length es = 1" "key_of (es ! 0) = k"
  obtains s1 where "remove_key pos n (xhash k) pg i q pv pp q s = (Inr (), s1)" and "key_removed pos s T rk n k s1 ws (q # rk)"
proof -
  let ?b = "(n, xhash k)"
  have b: "bucket ?b" using n by simp
  let ?x = "set_table n (xhash k) (next_list_pos pg) (xattr_page s)"
  let ?s2 = "s\<lparr>objs := (objs s)(pos \<mapsto> Head ?x), xattr_page := ?x\<rparr>"
  note hp = file_ok_pos [OF f hd] and sh = kinvD(1) [OF inv]
  have pq: "pos \<noteq> q" using hd pg(1) by auto
  have ch: "kchain (objs s) (tab (xattr_page s) ?b) ((q, es) # ws)" using kinvD(2) [OF inv b] T by simp
  have "pos \<notin> kpos ws" using kchain_not_head [OF ch hd] by simp
  then have ch2: "kchain (objs ?s2) (tab (xattr_page ?s2) ?b) ([] @ ws)" using kchain_next [OF ch pg(1)] tab_set(1) [OF sh n _ b] by simp
  have w: "bindE (upd_page (set_table n (xhash k) (next_list_pos pg))) (\<lambda>_. write_head pos) s = (Inr (), ?s2)"
    using write_obj_ok [of "s\<lparr>xattr_page := ?x\<rparr>" pos "Head x" "Head ?x"] os hd hp by (simp add: upd_page_run write_head_def)
  have T': "T ?b = [] @ (q, es) # ws" using T by simp
  have "file_ok ?s2" using f hp by (auto simp: file_ok_def)
  then obtain s1 where s1: "bindE (\<lambda>s. write_obj (Key_Page (zero_key_page\<lparr>next_list_pos := reclaimed_key_list_page (xattr_page s)\<rparr>)) q s) (\<lambda>_.
        bindE (upd_page (\<lambda>x. x\<lparr>reclaimed_key_list_page := q\<rparr>)) (\<lambda>_. write_head pos)) ?s2 = (Inr (), s1)"
      "key_removed pos s T rk n k s1 ([] @ ws) (q # rk)"
    by (rule unlinked_page [OF inv n T' f pg(1) one, of ?s2 pos])
      (use os hd pg pq ch2 tab_set(1) [OF sh n] count_set(1) [OF sh n] sh in auto)
  show thesis by (rule that [of s1]) (use s1 w one(1) pg(2) in \<open>simp_all add: remove_key_def page_has_def\<close>)
qed

lemma unlink_later:
  assumes os: "x_os s = []" and f: "file_ok s" and hd: "objs s pos = Some (Head x)" and inv: "kinv s T rk" and n: "n < 4"
    and T: "T (n, xhash k) = us @ (q, es) # ws" and pg: "objs s q = Some (Key_Page pg)" "page_has pg es" and one: "length es = 1" "key_of (es ! 0) = k"
    and us: "us \<noteq> []" and pv: "objs s (fst (last us)) = Some (Key_Page pv)" and fp: "fp = tab (xattr_page s) (n, xhash k)"
  obtains s1 where "remove_key pos n (xhash k) pg i q pv (fst (last us)) fp s = (Inr (), s1)" and "key_removed pos s T rk n k s1 (us @ ws) (q # rk)"
proof -
  let ?b = "(n, xhash k)"
  have b: "bucket ?b" using n by simp
  let ?pv = "pv\<lparr>next_list_pos := next_list_pos pg\<rparr>"
  let ?s2 = "s\<lparr>objs := (objs s)(fst (last us) \<mapsto> Key_Page ?pv)\<rparr>"
  have ch: "kchain (objs s) (tab (xattr_page s) ?b) (us @ (q, es) # ws)" using kinvD(2) [OF inv b] T by simp
  have d: "distinct (map fst (us @ (q, es) # ws))" using kinvD(3) [OF inv b] T by (simp add: bucket_ok_def)
  have l: "fst (last us) \<in> kpos us" using us by simp
  then have pq: "fst (last us) \<noteq> q" using d by auto
  have "q \<noteq> fst (hd us)" using d us by (cases us) auto
  then have fq: "q \<noteq> fp" using kchain_first [OF ch] us fp by auto
  have ch2: "kchain (objs ?s2) (tab (xattr_page ?s2) ?b) (us @ ws)" using kchain_drop [OF ch d us pg(1) pv] by simp
  note w = write_key_page [OF f os pv, of ?pv]
  have f2: "file_ok ?s2" using w(2) by (simp add: kstep_def)
  have ph: "pos \<noteq> fst (last us)" using hd pv by auto
  obtain s1 where s1: "bindE (\<lambda>s. write_obj (Key_Page (zero_key_page\<lparr>next_list_pos := reclaimed_key_list_page (xattr_page s)\<rparr>)) q s) (\<lambda>_.
        bindE (upd_page (\<lambda>x. x\<lparr>reclaimed_key_list_page := q\<rparr>)) (\<lambda>_. write_head pos)) ?s2 = (Inr (), s1)"
      "key_removed pos s T rk n k s1 (us @ ws) (q # rk)"
    by (rule unlinked_page [OF inv n T f pg(1) one f2, of pos]) (use os hd pg pv pq ph ch2 l kinvD(1) [OF inv] in auto)
  show thesis by (rule that [of s1]) (use s1 w(1) one(1) pg(2) fq in \<open>simp_all add: remove_key_def page_has_def\<close>)
qed

lemma remove_key_spec:
  assumes os: "x_os s = []" and f: "file_ok s" and hd: "objs s pos = Some (Head x)" and inv: "kinv s T rk" and n: "n < 4"
    and h: "hit_at (objs s) (T (n, xhash k)) k pg i q pv pp"
  obtains s1 xs rk' where "remove_key pos n (xhash k) pg i q pv pp (table_at (xattr_page s) n (xhash k)) s = (Inr (), s1)" and "key_removed pos s T rk n k s1 xs rk'"
proof -
  let ?b = "(n, xhash k)" and ?fp = "table_at (xattr_page s) n (xhash k)"
  have b: "bucket ?b" using n by simp
  obtain us es ws where T: "T ?b = us @ (q, es) # ws" and i: "i < length es" "key_of (es ! i) = k" and pg: "objs s q = Some (Key_Page pg)" "page_has pg es"
    and pv: "us \<noteq> [] \<Longrightarrow> pp = fst (last us) \<and> objs s pp = Some (Key_Page pv)" using h unfolding hit_at_def by blast
  have fp: "?fp = tab (xattr_page s) ?b" by (simp add: tab_def)
  show thesis
  proof (cases "1 < length es")
    case True
    show thesis by (rule remove_in_page [OF os f hd inv n T i pg True]) (rule that)
  next
    case False
    then have one: "length es = 1" "key_of (es ! 0) = k" using i by (auto simp: le_Suc_eq not_less)
    show thesis
    proof (cases "us = []")
      case True
      have Tq: "T ?b = (q, es) # ws" using T True by simp
      then have "?fp = q" using kchain_first [OF kinvD(2) [OF inv b]] kinvD(2) [OF inv b] fp by simp
      then show thesis by (metis unlink_first [OF os f hd inv n Tq pg one] that)
    next
      case us: False
      have "pp = fst (last us)" "objs s (fst (last us)) = Some (Key_Page pv)" using pv [OF us] by auto
      then show thesis by (metis unlink_later [OF os f hd inv n T pg one us _ fp] that)
    qed
  qed
qed

text \<open>The count and the value.\<close>

lemma within_disjoint: "X \<subseteq> A \<Longrightarrow> R \<subseteq> A \<union> B \<Longrightarrow> A \<inter> C = {} \<Longrightarrow> C \<inter> B = {} \<Longrightarrow> (A \<union> X \<union> R) \<inter> C = {}"
  by blast

lemma removed_kinv:
  assumes inv: "kinv s T rk" and n: "n < 4" and kr: "key_removed pos s T rk n k s1 xs rk'" and e: "ent T (n, k) = Some e"
    and o: "\<And>q j. objs s1 q = Some (Key_Page j) \<Longrightarrow> objs s' q = objs s1 q"
    and x: "reclaimed_key_list_page (xattr_page s') = reclaimed_key_list_page (xattr_page s1)" "shape (xattr_page s')" "\<And>c. bucket c \<Longrightarrow> tab (xattr_page s') c = tab (xattr_page s1) c"
      "\<And>m. m < 4 \<Longrightarrow> count (xattr_page s') m = (if m = n then count (xattr_page s1) m - 1 else count (xattr_page s1) m)"
  shows "kinv s' (T((n, xhash k) := xs)) rk'" "ent (T((n, xhash k) := xs)) = (ent T)((n, k) := None)"
proof -
  let ?b = "(n, xhash k)"
  have b: "bucket ?b" using n by simp
  note D = key_removedD [OF kr]
  have ch1: "kchain (objs s1) (tab (xattr_page s1) ?b) xs" and rc1: "rchain (objs s1) (reclaimed_key_list_page (xattr_page s1)) rk'" and ok: "bucket_ok (xhash k) xs" by (fact D)+
  have pos: "kpos xs \<subseteq> kpos (T ?b)" "set rk' \<subseteq> kpos (T ?b) \<union> set rk" by (fact D)+
  have "objs s' q = objs s1 q" if "q \<in> kpos xs" for q
  proof -
    obtain es where "(q, es) \<in> set xs" using \<open>q \<in> kpos xs\<close> by force
    then show ?thesis using kchain_page [OF ch1] o by blast
  qed
  then have ch: "kchain (objs s') (tab (xattr_page s') ?b) xs" using ch1 x(3) [OF b] kchain_cong [of xs "objs s'" "objs s1"] by simp
  have rc: "rchain (objs s') (reclaimed_key_list_page (xattr_page s')) rk'" using rc1 x(1) rchain_page [OF rc1] o rchain_cong [of rk' "objs s'" "objs s1"] by metis
  have len: "length (all_entries (T ?b)) = Suc (length (all_entries xs))" by (fact D)
  have "length (all_entries (T ?b)) \<le> (\<Sum>h < MAX_KEY_HASH_ENTRY. length (all_entries (T (n, h))))"
    by (rule member_le_sum [of _ _ "\<lambda>h. length (all_entries (T (n, h)))"]) (use b in auto)
  then have c: "Suc (length (all_entries xs)) \<le> count (xattr_page s) n" using kinvD(8) [OF inv n] len by simp
  show "kinv s' (T(?b := xs)) rk'"
  proof (rule kinv_bucket [OF inv b x(2) _ ch _ rc, where W = "kpos (T ?b)"])
    show "tab (xattr_page s') c = tab (xattr_page s) c" if c: "bucket c" "c \<noteq> ?b" for c
    proof -
      have "tab (xattr_page s1) c = tab (xattr_page s) c" by (rule D(3) [OF c])
      then show ?thesis using x(3) [OF c(1)] by simp
    qed
    show "objs s' q = objs s q" if q: "objs s q = Some (Key_Page j)" "q \<notin> kpos (T ?b)" for q j
    proof -
      have "objs s1 q = objs s q" by (rule D(2) [OF q])
      then show ?thesis using o [of q j] q(1) by simp
    qed
    show "(kpos (T ?b) \<union> kpos xs \<union> set rk') \<inter> kpos (T c) = {}" if c: "bucket c" "c \<noteq> ?b" for c
    proof -
      have "kpos (T ?b) \<inter> kpos (T c) = {}" by (rule kinvD(5) [OF inv b c(1)]) (use c(2) in simp)
      moreover have "kpos (T c) \<inter> set rk = {}" by (rule kinvD(4) [OF inv c(1)])
      ultimately show ?thesis by (rule within_disjoint [OF pos])
    qed
    show "count (xattr_page s') m = count (xattr_page s) m" if "m < 4" "m \<noteq> fst ?b" for m using x(4) [OF that(1)] that D(4) by simp
    show "count (xattr_page s') (fst ?b) + length (all_entries (T ?b)) = count (xattr_page s) (fst ?b) + length (all_entries xs)"
      using x(4) [OF n] D(4) [OF n] c len by simp
  qed (use D in simp_all)
  have "set (all_entries xs) = {x \<in> set (all_entries (T ?b)). key_of x \<noteq> k}" by (fact D)
  then show "ent (T(?b := xs)) = (ent T)((n, k) := None)" using ent_remove [OF inv n ok] by blast
qed

lemma remove_hit_spec:
  assumes os: "x_os s = []" and f: "file_ok s" and hd: "objs s pos = Some (Head x)" and inv: "kinv s T rk" "vinv s (ent T) vs rv" and n: "n < 4"
    and kr: "key_removed pos s T rk n k s1 xs rk'" and e: "ent T (n, k) = Some e"
  obtains s' where "bindE (reclaim_replace_value_block (first_value_block_pos e)) (\<lambda>_. bindE (upd_page (set_count n (\<lambda>n. n - 1))) (\<lambda>_.
       bindE (write_head pos) (\<lambda>_. mark_inode_dirty))) s1 = (Inr (), s')"
    and "x_os s' = []" and "file_ok s'" and "objs s' pos = Some (Head (xattr_page s'))" and "marked_dirty s' = Suc (marked_dirty s)" and "x_end s' = x_end s"
    and "kinv s' (T((n, xhash k) := xs)) rk'" and "ent (T((n, xhash k) := xs)) = (ent T)((n, k) := None)"
    and "vinv s' ((ent T)((n, k) := None)) vs (vs (n, k) @ rv)" and "\<And>b d. b \<noteq> (n, k) \<Longrightarrow> ent T b = Some d \<Longrightarrow> value_at s' vs b d = value_at s vs b d"
proof -
  let ?a = "(n, k)"
  have f1: "file_ok s1" "x_os s1 = []" "marked_dirty s1 = marked_dirty s" "x_end s1 = x_end s" "shape (xattr_page s1)" using kr by (simp_all add: key_removed_def)
  have v1: "objs s1 q = objs s q" if "objs s q = Some (Value v)" for q v by (rule key_removedD(1) [OF kr that])
  obtain x1 where h1: "objs s1 pos = Some (Head x1)" using key_removedD(5) [OF kr] by blast
  note vo = vinvD(3) [OF inv(2) e]
  have "vpool s (first_value_block_pos e) (vs ?a) rv" using vo vinvD(1,2,4) [OF inv(2)] e by (simp add: vpool_def vals_ok_def)
  then have pool1: "vpool s1 (first_value_block_pos e) (vs ?a) rv" by (rule vpool_step [OF _ f v1]) (use key_removedD(15) [OF kr] in simp_all)
  obtain s2 where s2: "reclaim_replace_value_block (first_value_block_pos e) s1 = (Inr (), s2)" "vframe (set (vs ?a)) s1 s2" "vpool s2 0 [] (vs ?a @ rv)" "x_end s2 = x_end s1"
    using reclaim_replace_value_block_spec [OF f1(2,1) pool1] .
  have keep: "objs s2 q = objs s1 q" if q: "objs s1 q = Some y" "q \<notin> set (vs ?a)" for q y
    using s2(2) file_ok_pos [OF f1(1) q(1)] q(2) by (simp add: vframe_def)
  have isval: "\<exists>v. objs s1 q = Some (Value v)" if "q \<in> set (vs ?a)" for q using vals_value [OF vo that] v1 by metis
  have h2: "objs s2 pos = Some (Head x1)" using keep [OF h1] isval [of pos] h1 by force
  have f2: "x_os s2 = []" "file_ok s2" "marked_dirty s2 = marked_dirty s" using s2(2) f1 by (simp_all add: vframe_def)
  have eq: "namespace_page (xattr_page s2) = namespace_page (xattr_page s1)" "reclaimed_key_list_page (xattr_page s2) = reclaimed_key_list_page (xattr_page s1)"
    "tab (xattr_page s2) = tab (xattr_page s1)" "count (xattr_page s2) = count (xattr_page s1)" "shape (xattr_page s2)"
    using page_eq_fields [of "xattr_page s2" "xattr_page s1"] s2(2) f1(5) by (simp_all add: vframe_def)
  let ?x = "set_count n (\<lambda>n. n - 1) (xattr_page s2)"
  let ?s' = "s2\<lparr>objs := (objs s2)(pos \<mapsto> Head ?x), xattr_page := ?x, marked_dirty := Suc (marked_dirty s2)\<rparr>"
  note hp = file_ok_pos [OF f2(2) h2]
  have run: "bindE (upd_page (set_count n (\<lambda>n. n - 1))) (\<lambda>_. bindE (write_head pos) (\<lambda>_. mark_inode_dirty)) s2 = (Inr (), ?s')"
    using write_obj_ok [of "s2\<lparr>xattr_page := ?x\<rparr>" pos "Head x1" "Head ?x"] f2(1) h2 hp
    by (simp add: upd_page_run write_head_def mark_inode_dirty_def x_call_ok)
  have okp: "objs ?s' q = objs s1 q" if "objs s1 q = Some (Key_Page j)" for q j using that keep [OF that] isval [of q] h1 by force
  have t: "tab ?x c = tab (xattr_page s1) c" if "bucket c" for c using tab_set(2) [OF eq(5) n _ that, of 0] eq(3) by simp
  have cnt: "count ?x m = (if m = n then count (xattr_page s1) m - 1 else count (xattr_page s1) m)" if "m < 4" for m using count_set(2) [OF eq(5) n that] eq(4) by simp
  note K = removed_kinv [OF inv(1) n kr e, of ?s', OF okp]
  have vv: "objs ?s' q = objs s q" if q: "objs s q = Some (Value v)" "q \<notin> set (vs ?a)" for q v
    using v1 [OF q(1)] keep [of q] q h2 by force
  have "pos \<notin> set (vs ?a @ rv)" using s2(3) vchain_value [of "objs s2" _ "vs ?a @ rv" pos] h2 by (auto simp: vpool_def)
  then have rc: "vchain (objs ?s') (reclaimed_value_block (xattr_page ?s')) (vs ?a @ rv)" using s2(3) by (simp add: vpool_def)
  note V = vinv_remove [OF inv(2) e vv rc]
  show thesis
  proof (rule that [of ?s'])
    show "file_ok ?s'" using f2(2) hp by (auto simp: file_ok_def)
    show "vinv ?s' ((ent T)(?a := None)) vs (vs ?a @ rv)" by (rule V(1))
    show "\<And>b d. b \<noteq> ?a \<Longrightarrow> ent T b = Some d \<Longrightarrow> value_at ?s' vs b d = value_at s vs b d" by (rule V(2))
    show "kinv ?s' (T((n, xhash k) := xs)) rk'" by (rule K(1)) (use eq t cnt in simp_all)
    show "ent (T((n, xhash k) := xs)) = (ent T)(?a := None)" by (rule K(2)) (use eq t cnt in simp_all)
  qed (use s2(1,4) run f1 f2 in simp_all)
qed

lemma remove_xattr_spec:
  assumes rel: "xrel pos M s" and n: "n < 4"
  shows "if M (n, k) = None then remove_xattr pos n k s = (Inl (Errno ENODATA), s)
    else \<exists>s'. remove_xattr pos n k s = (Inr (), s') \<and> xrel pos (M((n, k) := None)) s' \<and> marked_dirty s' = Suc (marked_dirty s) \<and> x_end s' = x_end s"
proof -
  obtain T rk vs rv where os: "x_os s = []" and f: "file_ok s" and hd: "objs s pos = Some (Head (xattr_page s))"
    and inv: "kinv s T rk" "vinv s (ent T) vs rv" and M: "\<And>a. M a = map_option (value_at s vs a) (ent T a)" using rel unfolding xrel_def by blast
  show ?thesis
  proof (cases "table_at (xattr_page s) n (xhash k) = 0")
    case True
    then have "M (n, k) = None" using no_bucket [OF inv(1) n] M miss_ent [OF n, of k T] by simp
    then show ?thesis using True by (simp add: remove_xattr_def find_key_entry_def)
  next
    case False
    obtain r where r: "find_key_entry (table_at (xattr_page s) n (xhash k)) k s = (Inr r, s)" "found (objs s) (T (n, xhash k)) k zero_key_page 0 None r"
      using find_key [OF os f inv(1) n False] .
    show ?thesis
    proof (cases r)
      case (Hit pg i q pv pp)
      have h: "hit_at (objs s) (T (n, xhash k)) k pg i q pv pp" using r(2) Hit by (simp add: found_def)
      have e: "ent T (n, k) = Some (key_list pg ! i)" using hit_ent(1) [OF inv(1) n h] .
      obtain s1 xs rk' where s1: "remove_key pos n (xhash k) pg i q pv pp (table_at (xattr_page s) n (xhash k)) s = (Inr (), s1)" "key_removed pos s T rk n k s1 xs rk'"
        using remove_key_spec [OF os f hd inv(1) n h] .
      show ?thesis
      proof (rule remove_hit_spec [OF os f hd inv n s1(2) e])
        fix s' assume s': "bindE (reclaim_replace_value_block (first_value_block_pos (key_list pg ! i))) (\<lambda>_. bindE (upd_page (set_count n (\<lambda>n. n - 1))) (\<lambda>_.
              bindE (write_head pos) (\<lambda>_. mark_inode_dirty))) s1 = (Inr (), s')"
          "x_os s' = []" "file_ok s'" "objs s' pos = Some (Head (xattr_page s'))" "marked_dirty s' = Suc (marked_dirty s)" "x_end s' = x_end s"
          "kinv s' (T((n, xhash k) := xs)) rk'" "ent (T((n, xhash k) := xs)) = (ent T)((n, k) := None)" "vinv s' ((ent T)((n, k) := None)) vs (vs (n, k) @ rv)"
          and vs: "\<And>b d. b \<noteq> (n, k) \<Longrightarrow> ent T b = Some d \<Longrightarrow> value_at s' vs b d = value_at s vs b d"
        have "(M((n, k) := None)) b = map_option (value_at s' vs b) (((ent T)((n, k) := None)) b)" for b
          using M [of b] vs [of b] by (cases "b = (n, k)"; cases "ent T b") auto
        then have "xrel pos (M((n, k) := None)) s'" unfolding xrel_def using s'(2-4,7-9) by metis
        moreover have "remove_xattr pos n k s = (Inr (), s')" using r(1) Hit s1(1) s'(1) by (simp add: remove_xattr_def Let_def)
        moreover have "M (n, k) \<noteq> None" using M e by simp
        ultimately show ?thesis using s'(5,6) by simp
      qed
    next
      case (Miss pg j q)
      then have "M (n, k) = None" using r(2) M miss_ent [OF n] by (simp add: found_def)
      then show ?thesis using r(1) Miss by (simp add: remove_xattr_def)
    qed
  qed
qed

end
