(* ===== verification/Xattr_Fuse.thy ===== *)
theory Xattr_Fuse
  imports Xattr_List Xattr_Remove
begin

text \<open>
  The callers of the attribute operations: \<^verbatim>\<open>fetch_xattr_page\<close> of \<^verbatim>\<open>file_present.c\<close>, the four request handlers of \<^verbatim>\<open>fuseop.c\<close> (in the build with
  \<^verbatim>\<open>_ANDROID_ENV_\<close> and without \<^verbatim>\<open>FUSE_NOXATTR\<close>), and \<^verbatim>\<open>inherit_xattr\<close> of \<^verbatim>\<open>metaops.c\<close>, which copies attributes of a directory to a new inode.
\<close>

abbreviation (input) EACCES :: errno where "EACCES \<equiv> 13"

abbreviation (input) SYSTEM :: nat where "SYSTEM \<equiv> 1"
abbreviation (input) SECURITY :: nat where "SECURITY \<equiv> 2"
abbreviation (input) TRUSTED :: nat where "TRUSTED \<equiv> 3"

subsection \<open>An inode\<close>

text \<open>
  The meta file, the type of the inode, the field \<^verbatim>\<open>next_xattr_page\<close> of its meta data, whether its meta cache entry is locked,
  and the sum of the size changes reported by \<^verbatim>\<open>change_system_meta\<close>.  The outcomes to come are those of the meta file.
\<close>

datatype inode_type = T_File | T_Dir | T_Link | T_Other

record inode_state =
  attr_file :: x_state
  inode_type :: inode_type
  next_xattr_page :: nat
  entry_locked :: bool
  meta_size_sum :: int

definition on_file :: "(x_state, 'a) sm \<Rightarrow> (inode_state, 'a) sm" where
  "on_file f s = (case f (attr_file s) of (r, x) \<Rightarrow> (r, s\<lparr>attr_file := x\<rparr>))"

definition i_call :: "(inode_state, unit) sm" where
  "i_call = on_file x_call"

text \<open>An allocation, which can only fail with \<^verbatim>\<open>ENOMEM\<close>.\<close>

definition i_malloc :: "(inode_state, unit) sm" where
  "i_malloc s = (case i_call s of (Inl _, s1) \<Rightarrow> (Inl (Errno ENOMEM), s1) | r \<Rightarrow> r)"

text \<open>A thread that locks an entry nobody unlocks waits forever.\<close>

definition meta_cache_lock_entry :: "(inode_state, unit) sm" where
  "meta_cache_lock_entry s =
     (if entry_locked s then (Inl Hang, s)
      else bindE i_call (\<lambda>_. modifyE (\<lambda>s. s\<lparr>entry_locked := True\<rparr>)) s)"

definition meta_cache_unlock_entry :: "(inode_state, unit) sm" where
  "meta_cache_unlock_entry = modifyE (\<lambda>s. s\<lparr>entry_locked := False\<rparr>)"

text \<open>A size that cannot be had is 0.\<close>

definition meta_cache_get_meta_size :: "(inode_state, nat) sm" where
  "meta_cache_get_meta_size s = (case i_call s of (Inl _, s1) \<Rightarrow> (Inr 0, s1) | (Inr _, s1) \<Rightarrow> (Inr (x_end (attr_file s1)), s1))"

definition empty_xattr_page :: XATTR_PAGE where
  "empty_xattr_page = \<lparr>reclaimed_key_list_page = 0, reclaimed_value_block = 0,
     namespace_page = replicate 4 \<lparr>ns_num_xattr = 0, key_hash_table = replicate MAX_KEY_HASH_ENTRY 0\<rparr>\<rparr>"

definition read_head :: "nat \<Rightarrow> (x_state, unit) sm" where
  "read_head pos = bindE x_call (\<lambda>_ s. case objs s pos of Some (Head x) \<Rightarrow> (Inr (), s\<lparr>xattr_page := x\<rparr>) | _ \<Rightarrow> (Inl Crash, s))"

definition fetch_xattr_page :: "bool \<Rightarrow> (inode_state, nat) sm" where
  "fetch_xattr_page create_page =
     bindE i_call (\<lambda>_ s0. (
       if inode_type s0 = T_Other then failE (Errno EINVAL)
       else bindE i_call (\<lambda>_ s. (
         let xattr_pos = next_xattr_page s in
         if xattr_pos = 0 \<and> \<not> create_page then failE (Errno ENOENT)
         else bindE i_call (\<lambda>_.
           if xattr_pos = 0 then
             bindE (on_file (upd_page (\<lambda>_. empty_xattr_page))) (\<lambda>_.
             bindE (on_file seek_eof) (\<lambda>ret_pos.
             bindE (on_file (write_obj (Head empty_xattr_page) ret_pos)) (\<lambda>_.
             bindE i_call (\<lambda>_.
             bindE (modifyE (\<lambda>s. s\<lparr>next_xattr_page := ret_pos\<rparr>)) (\<lambda>_.
             returnE ret_pos)))))
           else bindE (on_file (read_head xattr_pos)) (\<lambda>_. returnE xattr_pos))) s)) s0)"

subsection \<open>The request handlers\<close>

datatype fuse_reply = Reply_Err errno | Reply_Size nat | Reply_Buf string

text \<open>
  What a request finds: the volume, the kernel's context of the request, and \<^verbatim>\<open>CAP_SYS_ADMIN\<close> of the process.
\<close>

record xattr_env =
  volume_external :: bool
  path_cache_missing :: bool
  context_missing :: bool
  sys_admin :: bool
  no_meta_space :: bool

definition check_permission :: "failure + unit" where
  "check_permission = Inr ()"

definition xattr_permission :: "xattr_env \<Rightarrow> nat \<Rightarrow> failure + unit" where
  "xattr_permission env ns =
     (if ns = SYSTEM \<or> ns = 0 then check_permission
      else if ns = SECURITY then Inr ()
      else if ns = TRUSTED then (if sys_admin env then Inr () else Inl (Errno EACCES))
      else Inl (Errno EINVAL))"

text \<open>The label \<open>error_handle\<close> unlocks the entry; an early reply leaves it as it is.\<close>

definition with_entry :: "(inode_state, fuse_reply) sm \<Rightarrow> (inode_state, fuse_reply) sm" where
  "with_entry body s = (case meta_cache_lock_entry s of
     (Inl (Errno e), s1) \<Rightarrow> (Inr (Reply_Err e), s1)
   | (Inl f, s1) \<Rightarrow> (Inl f, s1)
   | (Inr _, s1) \<Rightarrow> (case bindE i_call (\<lambda>_. body) s1 of
       (Inl (Errno e), s2) \<Rightarrow> (Inr (Reply_Err e), s2\<lparr>entry_locked := False\<rparr>)
     | r \<Rightarrow> r))"

definition check_access :: "xattr_env \<Rightarrow> nat \<Rightarrow> (inode_state, fuse_reply) sm \<Rightarrow> (inode_state, fuse_reply) sm" where
  "check_access env ns body =
     (if ns = SECURITY then body
      else bindE i_call (\<lambda>_.
        if volume_external env \<and> path_cache_missing env then returnE (Reply_Err EIO)
        else if context_missing env then returnE (Reply_Err ENOMEM)
        else case xattr_permission env ns of Inl _ \<Rightarrow> failE (Errno EACCES) | Inr _ \<Rightarrow> body))"

definition with_name :: "string \<Rightarrow> (nat \<Rightarrow> string \<Rightarrow> (inode_state, fuse_reply) sm) \<Rightarrow> (inode_state, fuse_reply) sm" where
  "with_name name body = (case parse_xattr_namespace name of
     Inl (Errno e) \<Rightarrow> returnE (Reply_Err e) | Inl f \<Rightarrow> failE f | Inr (ns, k) \<Rightarrow> body ns k)"

text \<open>A page that does not exist and is not to be created.\<close>

definition fetch_existing :: "(inode_state, fuse_reply) sm \<Rightarrow> (nat \<Rightarrow> (inode_state, fuse_reply) sm) \<Rightarrow> (inode_state, fuse_reply) sm" where
  "fetch_existing none body s = (case fetch_xattr_page False s of
     (Inl e, s1) \<Rightarrow> if e = Errno ENOENT then bindE meta_cache_unlock_entry (\<lambda>_. none) s1 else (Inl e, s1)
   | (Inr pos, s1) \<Rightarrow> body pos s1)"

definition selinux_value :: string where "selinux_value = ''u:object_r:fuse:s0''"

definition selinux_name :: string where "selinux_name = ''security.selinux'' @ [CHR 0x00]"

text \<open>The parts of the handlers after the label \<open>fetch_xattr\<close>, once the page is allocated.\<close>

definition setxattr_entry :: "nat \<Rightarrow> string \<Rightarrow> string \<Rightarrow> int \<Rightarrow> (inode_state, fuse_reply) sm" where
  "setxattr_entry ns k val flag =
     bindE meta_cache_get_meta_size (\<lambda>old_metasize.
     bindE (fetch_xattr_page True) (\<lambda>xattr_filepos.
     bindE (on_file (insert_xattr xattr_filepos ns k val flag)) (\<lambda>_.
     bindE meta_cache_get_meta_size (\<lambda>new_metasize.
     bindE meta_cache_unlock_entry (\<lambda>_.
     bindE (modifyE (\<lambda>s. if new_metasize > 0 \<and> old_metasize > 0
       then s\<lparr>meta_size_sum := meta_size_sum s + (int new_metasize - int old_metasize)\<rparr> else s)) (\<lambda>_.
     returnE (Reply_Err 0)))))))"

definition getxattr_entry :: "nat \<Rightarrow> string \<Rightarrow> nat \<Rightarrow> (inode_state, fuse_reply) sm" where
  "getxattr_entry ns k sz =
     fetch_existing (returnE (Reply_Err ENODATA)) (\<lambda>_.
       bindE (if sz \<noteq> 0 then i_malloc else returnE ()) (\<lambda>_.
       bindE (on_file (get_xattr ns k sz)) (\<lambda>(val, actual_size).
       bindE meta_cache_unlock_entry (\<lambda>_.
       returnE (if sz = 0 then Reply_Size actual_size else Reply_Buf val)))))"

definition removexattr_entry :: "nat \<Rightarrow> string \<Rightarrow> (inode_state, fuse_reply) sm" where
  "removexattr_entry ns k =
     fetch_existing (returnE (Reply_Err ENODATA)) (\<lambda>xattr_filepos s.
       case on_file (remove_xattr xattr_filepos ns k) s of
         (Inl e, s1) \<Rightarrow> if e = Errno ENODATA then bindE meta_cache_unlock_entry (\<lambda>_. returnE (Reply_Err 0)) s1 else (Inl e, s1)
       | (Inr _, s1) \<Rightarrow> bindE meta_cache_unlock_entry (\<lambda>_. returnE (Reply_Err 0)) s1)"

definition hfuse_ll_setxattr :: "xattr_env \<Rightarrow> string \<Rightarrow> string \<Rightarrow> int \<Rightarrow> (inode_state, fuse_reply) sm" where
  "hfuse_ll_setxattr env name val flag =
     (if flag \<noteq> XATTR_REPLACE \<and> no_meta_space env then returnE (Reply_Err ENOSPC)
      else with_name name (\<lambda>ns k.
        if volume_external env \<and> ns = SECURITY \<and> k = ''selinux'' then returnE (Reply_Err 0)
        else with_entry (check_access env ns (bindE i_malloc (\<lambda>_. setxattr_entry ns k val flag)))))"

definition hfuse_ll_getxattr :: "xattr_env \<Rightarrow> string \<Rightarrow> nat \<Rightarrow> (inode_state, fuse_reply) sm" where
  "hfuse_ll_getxattr env name sz = with_name name (\<lambda>ns k.
     if volume_external env \<and> ns = SECURITY \<and> take 7 k = ''selinux'' then
       returnE (if sz = 0 then Reply_Size (length selinux_value) else if sz < length selinux_value then Reply_Err ERANGE else Reply_Buf selinux_value)
     else with_entry (check_access env ns (bindE i_malloc (\<lambda>_. getxattr_entry ns k sz))))"

definition listxattr_entry :: "xattr_env \<Rightarrow> nat \<Rightarrow> (inode_state, fuse_reply) sm" where
  "listxattr_entry env sz =
     bindE (if sz \<noteq> 0 then i_malloc else returnE ()) (\<lambda>_.
     bindE (on_file (list_xattr sz)) (\<lambda>(buf, actual_size).
     bindE meta_cache_unlock_entry (\<lambda>_.
     returnE (
       if sz = 0 then Reply_Size (if volume_external env then actual_size + length selinux_name else actual_size)
       else if volume_external env then if sz < actual_size + length selinux_name then Reply_Err ERANGE else Reply_Buf (buf @ selinux_name)
       else Reply_Buf buf))))"

definition hfuse_ll_listxattr :: "xattr_env \<Rightarrow> nat \<Rightarrow> (inode_state, fuse_reply) sm" where
  "hfuse_ll_listxattr env sz = with_entry (
     bindE i_malloc (\<lambda>_.
     fetch_existing
       (returnE (if volume_external env then
           if sz = 0 then Reply_Size (length selinux_name) else if sz < length selinux_name then Reply_Err ERANGE else Reply_Buf selinux_name
         else Reply_Size 0))
       (\<lambda>_. listxattr_entry env sz)))"

definition hfuse_ll_removexattr :: "xattr_env \<Rightarrow> string \<Rightarrow> (inode_state, fuse_reply) sm" where
  "hfuse_ll_removexattr env name = with_name name (\<lambda>ns k.
     if volume_external env \<and> ns = SECURITY \<and> take 7 k = ''selinux'' then returnE (Reply_Err 0)
     else with_entry (check_access env ns (bindE i_malloc (\<lambda>_. removexattr_entry ns k))))"

subsection \<open>Inheriting the attributes of the parent\<close>

type_synonym two_inodes = "inode_state \<times> inode_state"

definition on_parent :: "(inode_state, 'a) sm \<Rightarrow> (two_inodes, 'a) sm" where
  "on_parent f s = (case f (fst s) of (r, p) \<Rightarrow> (r, (p, snd s)))"

definition on_self :: "(inode_state, 'a) sm \<Rightarrow> (two_inodes, 'a) sm" where
  "on_self f s = (case f (snd s) of (r, c) \<Rightarrow> (r, (fst s, c)))"

definition skip_inherit_key :: "nat \<Rightarrow> string \<Rightarrow> bool" where
  "skip_inherit_key ns k \<longleftrightarrow> (if ns = SECURITY then k = ''restorecon_last'' else True)"

text \<open>
  The loop around \<^verbatim>\<open>get_xattr\<close>: the buffer is enlarged until the value fits.  \<open>fresh\<close> is what is in newly allocated memory.  The result is what
  is in the buffer up to the size of the value, and the size of the buffer.
\<close>

fun get_value :: "nat \<Rightarrow> (nat \<Rightarrow> string) \<Rightarrow> nat \<Rightarrow> string \<Rightarrow> nat \<Rightarrow> (inode_state, string \<times> nat) sm" where
  "get_value 0 fresh ns k value_buf_size s = (Inl Hang, s)"
| "get_value (Suc n) fresh ns k value_buf_size s =
     (case get_xattr_out ns k value_buf_size (attr_file s) of ((r, sz), x) \<Rightarrow>
       let s1 = s\<lparr>attr_file := x\<rparr> in
       case r of
         Inl e \<Rightarrow> if e \<noteq> Errno ERANGE then (Inl e, s1)
           else bindE i_malloc (\<lambda>_. get_value n fresh ns k (sz + 100)) s1
       | Inr val \<Rightarrow> if sz = value_buf_size then bindE i_malloc (\<lambda>_. returnE (take sz (fresh (sz + 100)), sz + 100)) s1
           else (Inr (val, value_buf_size), s1))"

text \<open>One name after the other; a name that cannot be parsed or stored is left out.\<close>

fun inherit_names :: "(nat \<Rightarrow> string) \<Rightarrow> nat \<Rightarrow> string list \<Rightarrow> nat \<Rightarrow> (two_inodes, unit) sm" where
  "inherit_names fresh sel_xattr_pos [] value_buf_size = returnE ()"
| "inherit_names fresh sel_xattr_pos (name # ns) value_buf_size =
     (case parse_xattr_namespace name of
        Inl _ \<Rightarrow> inherit_names fresh sel_xattr_pos ns value_buf_size
      | Inr (n, k) \<Rightarrow>
          if skip_inherit_key n k then inherit_names fresh sel_xattr_pos ns value_buf_size
          else bindE (on_parent (get_value 2 fresh n k value_buf_size)) (\<lambda>(val, buf_size) s.
            case on_self (on_file (insert_xattr sel_xattr_pos n k val 0)) s of
              (Inl (Errno e), s1) \<Rightarrow> inherit_names fresh sel_xattr_pos ns buf_size s1
            | (Inl f, s1) \<Rightarrow> (Inl f, s1)
            | (Inr _, s1) \<Rightarrow> inherit_names fresh sel_xattr_pos ns buf_size s1))"

text \<open>The strings in a buffer, each ended by a null character, up to the first empty one.\<close>

function c_strings :: "string \<Rightarrow> string list" where
  "c_strings buf = (case buf of [] \<Rightarrow> []
     | c # _ \<Rightarrow> if c = CHR 0x00 then []
       else takeWhile (\<lambda>c. c \<noteq> CHR 0x00) buf # c_strings (drop 1 (dropWhile (\<lambda>c. c \<noteq> CHR 0x00) buf)))"
  by pat_completeness auto
termination
proof (relation "measure length")
  fix buf :: string and c cs assume b: "buf = c # cs" "c \<noteq> CHR 0x00"
  have "length (dropWhile (\<lambda>c. c \<noteq> CHR 0x00) cs) \<le> length cs" by (rule length_dropWhile_le)
  then show "(drop 1 (dropWhile (\<lambda>c. c \<noteq> CHR 0x00) buf), buf) \<in> measure length" using b by simp
qed simp

definition leave_parent :: "(two_inodes, unit) sm" where
  "leave_parent = on_parent meta_cache_unlock_entry"

definition inherit_keys :: "(nat \<Rightarrow> string) \<Rightarrow> (two_inodes, bool) sm" where
  "inherit_keys fresh =
     bindE (on_parent (on_file (list_xattr 0))) (\<lambda>(_, total_keysize).
     if total_keysize = 0 then returnE False
     else bindE (on_parent i_malloc) (\<lambda>_.
       bindE (on_parent (on_file (list_xattr total_keysize))) (\<lambda>(key_buf, _).
       bindE (on_parent i_malloc) (\<lambda>_.
       bindE (on_self (fetch_xattr_page True)) (\<lambda>sel_xattr_pos.
       bindE (inherit_names fresh sel_xattr_pos (c_strings key_buf) (MAX_VALUE_BLOCK_SIZE + 100)) (\<lambda>_.
       returnE True))))))"

text \<open>
  The parent is unlocked on every way out.  Only after the keys were copied an error of closing its file is reported.
\<close>

definition inherit_from_parent :: "(nat \<Rightarrow> string) \<Rightarrow> (two_inodes, unit) sm" where
  "inherit_from_parent fresh =
     bindE (on_parent i_call) (\<lambda>_.
     bindE (on_parent i_call) (\<lambda>_ s. (
       if next_xattr_page (fst s) = 0 then returnE ()
       else bindE (\<lambda>s. case on_parent (fetch_xattr_page False) s of
           (Inl e, s1) \<Rightarrow> if e = Errno ENOENT then (Inr False, s1) else (Inl e, s1)
         | (Inr _, s1) \<Rightarrow> (Inr True, s1)) (\<lambda>page.
         if page then bindE (inherit_keys fresh) (\<lambda>copied. if copied then on_parent i_call else returnE ())
         else returnE ())) s))"

definition inherit_xattr :: "(nat \<Rightarrow> string) \<Rightarrow> (two_inodes, unit) sm" where
  "inherit_xattr fresh =
     bindE (on_self i_call) (\<lambda>_.
     bindE (on_parent meta_cache_lock_entry) (\<lambda>_ s.
       case inherit_from_parent fresh s of
         (Inl (Errno e), s1) \<Rightarrow> bindE leave_parent (\<lambda>_. failE (Errno e)) s1
       | (Inl f, s1) \<Rightarrow> (Inl f, s1)
       | (Inr _, s1) \<Rightarrow> leave_parent s1))"

end
