(* ===== verification/Service.thy ===== *)
theory Service
  imports HCFS_Prelude
begin

text \<open>
  Sequences of requests to a component: \<open>run_all\<close> runs them on the code's model, \<open>spec_all\<close> on its specification, and the locale \<open>service\<close> is the
  contract under which the first is an instance of the second.  It is interpreted for the attribute requests of an inode, for the package cache and for the parent database.
\<close>

fun run_all :: "('q \<Rightarrow> ('s, 'r) sm) \<Rightarrow> 'q list \<Rightarrow> ('s, 'r list) sm" where
  "run_all impl [] = returnE []"
| "run_all impl (q # qs) = bindE (impl q) (\<lambda>r. bindE (run_all impl qs) (\<lambda>rs. returnE (r # rs)))"

fun spec_all :: "('q \<Rightarrow> 'a \<Rightarrow> 'r \<times> 'a \<Rightarrow> bool) \<Rightarrow> 'q list \<Rightarrow> 'a \<Rightarrow> 'r list \<Rightarrow> 'a \<Rightarrow> bool" where
  "spec_all spec [] a rs b \<longleftrightarrow> rs = [] \<and> b = a"
| "spec_all spec (q # qs) a rs b \<longleftrightarrow> (\<exists>r a' rs'. rs = r # rs' \<and> spec q a (r, a') \<and> spec_all spec qs a' rs' b)"

text \<open>
  A service that answers requests as a specification allows, as long as its file has room: then it answers every sequence of requests so.
\<close>

locale service =
  fixes rel :: "'a \<Rightarrow> 's \<Rightarrow> bool" and impl :: "'q \<Rightarrow> ('s, 'r) sm" and spec :: "'q \<Rightarrow> 'a \<Rightarrow> 'r \<times> 'a \<Rightarrow> bool"
    and good :: "'q \<Rightarrow> bool" and extent :: "'s \<Rightarrow> nat" and price :: "'q \<Rightarrow> nat" and limit :: nat
  assumes answers: "rel a s \<Longrightarrow> good q \<Longrightarrow> extent s + price q < limit \<Longrightarrow>
    \<exists>r s' a'. impl q s = (Inr r, s') \<and> spec q a (r, a') \<and> rel a' s' \<and> extent s' \<le> extent s + price q"
begin

lemma runs:
  assumes "rel a s" and "\<forall>q \<in> set qs. good q" and "extent s + sum_list (map price qs) < limit"
  shows "\<exists>rs s' b. run_all impl qs s = (Inr rs, s') \<and> spec_all spec qs a rs b \<and> rel b s'"
  using assms
proof (induction qs arbitrary: a s)
  case (Cons q qs)
  obtain r s1 a1 where q: "impl q s = (Inr r, s1)" "spec q a (r, a1)" "rel a1 s1" "extent s1 \<le> extent s + price q"
    using answers [OF Cons.prems(1), of q] Cons.prems(2,3) by auto
  obtain rs s' b where "run_all impl qs s1 = (Inr rs, s')" "spec_all spec qs a1 rs b" "rel b s'" using Cons.IH [OF q(3)] q(4) Cons.prems(2,3) by auto
  then show ?case using q(1,2) by fastforce
qed simp

end

end
