(* ===== verification/Xattr_Serve.thy ===== *)
theory Xattr_Serve
  imports Xattr_Fuse Service
begin

text \<open>
  What the request handlers do to the attributes of an inode, with no call failing: \<open>arel\<close> relates the inode to whether it has an attribute page
  and to the map of its attributes, \<open>xspec\<close> is what a request may reply.
\<close>

definition arel :: "bool \<Rightarrow> (nat \<times> string \<Rightarrow> string option) \<Rightarrow> inode_state \<Rightarrow> bool" where
  "arel c M st \<longleftrightarrow> inode_type st \<noteq> T_Other \<and> x_os (attr_file st) = [] \<and> file_ok (attr_file st) \<and>
     (if c then next_xattr_page st \<noteq> 0 \<and> (\<exists>x. xrel (next_xattr_page st) M ((attr_file st)\<lparr>xattr_page := x\<rparr>))
      else next_xattr_page st = 0 \<and> M = Map.empty)"

lemma arel_xrel: "inode_type st \<noteq> T_Other \<Longrightarrow> xrel (next_xattr_page st) M (attr_file st) \<Longrightarrow> arel True M st"
proof -
  assume a: "inode_type st \<noteq> T_Other" "xrel (next_xattr_page st) M (attr_file st)"
  then have x: "xrel (next_xattr_page st) M ((attr_file st)\<lparr>xattr_page := xattr_page (attr_file st)\<rparr>)" by simp
  have f: "x_os (attr_file st) = []" "file_ok (attr_file st)" "objs (attr_file st) (next_xattr_page st) \<noteq> None" using a(2) by (auto simp: xrel_def)
  then have "next_xattr_page st \<noteq> 0" by (auto simp: file_ok_def)
  then show "arel True M st" using a(1) x f(1,2) unfolding arel_def by (simp only: if_True) blast
qed

lemma arel_fields [simp]: "arel c M (st\<lparr>entry_locked := l\<rparr>) = arel c M st" "arel c M (st\<lparr>meta_size_sum := z\<rparr>) = arel c M st"
  by (simp_all add: arel_def)

subsection \<open>The steps of a handler\<close>

lemma i_call_ok: "x_os (attr_file st) = [] \<Longrightarrow> i_call st = (Inr (), st)"
  by (simp add: i_call_def on_file_def x_call_ok)

lemma i_malloc_ok: "x_os (attr_file st) = [] \<Longrightarrow> i_malloc st = (Inr (), st)"
  by (simp add: i_malloc_def i_call_ok)

lemma meta_size_ok: "x_os (attr_file st) = [] \<Longrightarrow> meta_cache_get_meta_size st = (Inr (x_end (attr_file st)), st)"
  by (simp add: meta_cache_get_meta_size_def i_call_ok)

lemma unlock_ok: "meta_cache_unlock_entry st = (Inr (), st\<lparr>entry_locked := False\<rparr>)"
  by (simp add: meta_cache_unlock_entry_def)

lemma on_file_run: "f (attr_file st) = (r, x) \<Longrightarrow> on_file f st = (r, st\<lparr>attr_file := x\<rparr>)"
  by (simp add: on_file_def)

lemmas serve_ok = i_call_ok i_malloc_ok meta_size_ok unlock_ok on_file_run

lemma with_entry_ok:
  assumes "\<not> entry_locked st" and "x_os (attr_file st) = []"
  shows "with_entry body st = (case body (st\<lparr>entry_locked := True\<rparr>) of
     (Inl (Errno e), s2) \<Rightarrow> (Inr (Reply_Err e), s2\<lparr>entry_locked := False\<rparr>) | r \<Rightarrow> r)"
  using assms by (simp add: with_entry_def meta_cache_lock_entry_def i_call_ok)

lemma empty_xrel:
  assumes "file_ok s" and "x_os s = []" and "objs s pos = Some (Head empty_xattr_page)" and "xattr_page s = empty_xattr_page"
  shows "xrel pos Map.empty s"
proof -
  let ?T = "\<lambda>_ :: nat \<times> nat. [] :: (nat \<times> KEY_ENTRY list) list"
  have n: "replicate 4 x ! n = x" if "n < 4" for n and x :: NAMESPACE_PAGE using that by simp
  have "kinv s ?T []" unfolding kinv_def assms(4)
    by (auto simp: empty_xattr_page_def shape_def tab_def table_at_def count_def n bucket_ok_def)
  moreover have "ent ?T = (\<lambda>_. None)" by (simp add: ent_def bmap_def fun_eq_iff)
  moreover have "vinv s (\<lambda>_. None) (\<lambda>_. []) []" by (simp add: vinv_def assms(4) empty_xattr_page_def)
  ultimately show ?thesis unfolding xrel_def using assms by fastforce
qed

lemma fetch_page:
  assumes "arel c M st"
  obtains st' where "fetch_xattr_page True st = (Inr (next_xattr_page st'), st')" and "xrel (next_xattr_page st') M (attr_file st')"
    and "inode_type st' = inode_type st" and "entry_locked st' = entry_locked st" and "meta_size_sum st' = meta_size_sum st"
    and "x_end (attr_file st') = x_end (attr_file st) + (if c then 0 else 288)"
proof -
  have a: "inode_type st \<noteq> T_Other" "x_os (attr_file st) = []" "file_ok (attr_file st)" using assms by (simp_all add: arel_def)
  show thesis
  proof (cases c)
    case True
    obtain x where x: "next_xattr_page st \<noteq> 0" "xrel (next_xattr_page st) M ((attr_file st)\<lparr>xattr_page := x\<rparr>)" using assms True by (auto simp: arel_def)
    then have "objs (attr_file st) (next_xattr_page st) = Some (Head x)" by (simp add: xrel_def)
    then have r: "on_file (read_head (next_xattr_page st)) st = (Inr (), st\<lparr>attr_file := (attr_file st)\<lparr>xattr_page := x\<rparr>\<rparr>)"
      using a(2) by (simp add: on_file_def read_head_def x_call_ok)
    show thesis by (rule that [of "st\<lparr>attr_file := (attr_file st)\<lparr>xattr_page := x\<rparr>\<rparr>"])
      (use a x r True in \<open>simp_all add: fetch_xattr_page_def Let_def i_call_ok\<close>)
  next
    case False
    let ?f = "attr_file st" and ?p = "x_end (attr_file st)"
    let ?f' = "?f\<lparr>objs := (objs ?f)(?p \<mapsto> Head empty_xattr_page), x_end := ?p + 288, xattr_page := empty_xattr_page\<rparr>"
    let ?st' = "st\<lparr>attr_file := ?f', next_xattr_page := ?p\<rparr>"
    have M: "next_xattr_page st = 0" "M = Map.empty" using assms False by (simp_all add: arel_def)
    have run: "fetch_xattr_page True st = (Inr ?p, ?st')"
      using a M(1) by (simp add: fetch_xattr_page_def i_call_ok on_file_def upd_page_run seek_eof_ok write_obj_def put_obj_def)
    have "file_ok (?f\<lparr>objs := (objs ?f)(?p \<mapsto> Head empty_xattr_page), x_end := ?p + 288\<rparr>)" using file_ok_append [OF a(3)] by simp
    then have "file_ok ?f'" by (simp add: file_ok_def)
    then have "xrel ?p M ?f'" unfolding M(2) using a(2) by (intro empty_xrel) simp_all
    then show thesis by (intro that [of ?st']) (use run False in simp_all)
  qed
qed

lemma fetch_existing_ok:
  assumes "arel c M st"
  shows "c \<Longrightarrow> \<exists>st'. fetch_existing none body st = body (next_xattr_page st) st' \<and> xrel (next_xattr_page st) M (attr_file st') \<and>
      st' = st\<lparr>attr_file := attr_file st'\<rparr> \<and> x_end (attr_file st') = x_end (attr_file st)"
    and "\<not> c \<Longrightarrow> fetch_existing none body st = none (st\<lparr>entry_locked := False\<rparr>)"
proof -
  have a: "inode_type st \<noteq> T_Other" "x_os (attr_file st) = []" "file_ok (attr_file st)" using assms by (simp_all add: arel_def)
  { assume c
    then obtain x where x: "next_xattr_page st \<noteq> 0" "xrel (next_xattr_page st) M ((attr_file st)\<lparr>xattr_page := x\<rparr>)" using assms by (auto simp: arel_def)
    then have o: "objs (attr_file st) (next_xattr_page st) = Some (Head x)" by (simp add: xrel_def)
    let ?st' = "st\<lparr>attr_file := (attr_file st)\<lparr>xattr_page := x\<rparr>\<rparr>"
    have "on_file (read_head (next_xattr_page st)) st = (Inr (), ?st')" using a(2) o by (simp add: on_file_def read_head_def x_call_ok)
    then have "fetch_xattr_page False st = (Inr (next_xattr_page st), ?st')" using a x by (simp add: fetch_xattr_page_def Let_def i_call_ok)
    then have "fetch_existing none body st = body (next_xattr_page st) ?st'" by (simp add: fetch_existing_def)
    then show "\<exists>st'. fetch_existing none body st = body (next_xattr_page st) st' \<and> xrel (next_xattr_page st) M (attr_file st') \<and>
      st' = st\<lparr>attr_file := attr_file st'\<rparr> \<and> x_end (attr_file st') = x_end (attr_file st)" using x(2) by (intro exI [of _ ?st']) simp }
  assume "\<not> c"
  then have "next_xattr_page st = 0" using assms by (simp add: arel_def)
  then show "fetch_existing none body st = none (st\<lparr>entry_locked := False\<rparr>)" using a by (simp add: fetch_existing_def fetch_xattr_page_def i_call_ok unlock_ok)
qed

text \<open>Access to a name, when the request and the volume are as they should be.\<close>

definition sound_env :: "xattr_env \<Rightarrow> bool" where
  "sound_env env \<longleftrightarrow> \<not> (volume_external env \<and> path_cache_missing env) \<and> \<not> context_missing env"

definition allowed :: "xattr_env \<Rightarrow> nat \<Rightarrow> bool" where
  "allowed env ns \<longleftrightarrow> (ns = TRUSTED \<longrightarrow> sys_admin env)"

lemma check_access_ok:
  assumes "sound_env env" and "ns < 4" and "x_os (attr_file st) = []"
  shows "check_access env ns body st = (if allowed env ns then body st else (Inl (Errno EACCES), st))"
proof -
  have "ns = 0 \<or> ns = 1 \<or> ns = 2 \<or> ns = 3" using assms(2) by auto
  then show ?thesis using assms(1,3) by (auto simp: check_access_def sound_env_def allowed_def xattr_permission_def check_permission_def i_call_ok)
qed

lemma entry_access:
  assumes env: "sound_env env" and ns: "ns < 4" and l: "\<not> entry_locked st" and os: "x_os (attr_file st) = []"
  shows "with_entry (check_access env ns (bindE i_malloc (\<lambda>_. body))) st = (if allowed env ns then
     case body (st\<lparr>entry_locked := True\<rparr>) of (Inl (Errno e), s2) \<Rightarrow> (Inr (Reply_Err e), s2\<lparr>entry_locked := False\<rparr>) | r \<Rightarrow> r
   else (Inr (Reply_Err EACCES), st))"
  using with_entry_ok [OF l os] check_access_ok [OF env ns, of "st\<lparr>entry_locked := True\<rparr>"] os l by (simp add: i_malloc_ok)

lemma parse_namespace: "parse_xattr_namespace name = Inr (ns, k) \<Longrightarrow> ns < 4"
  by (auto simp: parse_xattr_namespace_def Let_def split: if_splits)

lemma parse_error: "parse_xattr_namespace name = Inl f \<Longrightarrow> \<exists>e. f = Errno e"
  by (auto simp: parse_xattr_namespace_def Let_def split: if_splits)

subsection \<open>The requests\<close>

datatype xattr_request = Set_Xattr string string int | Get_Xattr string nat | List_Xattr nat | Remove_Xattr string

primrec handle_xattr :: "xattr_env \<Rightarrow> xattr_request \<Rightarrow> (inode_state, fuse_reply) sm" where
  "handle_xattr env (Set_Xattr name val flag) = hfuse_ll_setxattr env name val flag"
| "handle_xattr env (Get_Xattr name sz) = hfuse_ll_getxattr env name sz"
| "handle_xattr env (List_Xattr sz) = hfuse_ll_listxattr env sz"
| "handle_xattr env (Remove_Xattr name) = hfuse_ll_removexattr env name"

type_synonym attrs = "bool \<times> (nat \<times> string \<Rightarrow> string option)"

definition sized_reply :: "nat \<Rightarrow> string \<Rightarrow> fuse_reply" where
  "sized_reply sz v = (if sz = 0 then Reply_Size (length v) else if sz < length v then Reply_Err ERANGE else Reply_Buf v)"

definition spec_name :: "string \<Rightarrow> attrs \<Rightarrow> (nat \<Rightarrow> string \<Rightarrow> fuse_reply \<times> attrs) \<Rightarrow> fuse_reply \<times> attrs" where
  "spec_name name a f = (case parse_xattr_namespace name of Inl (Errno e) \<Rightarrow> (Reply_Err e, a) | Inl _ \<Rightarrow> (Reply_Err 0, a) | Inr (ns, k) \<Rightarrow> f ns k)"

primrec xspec :: "xattr_env \<Rightarrow> xattr_request \<Rightarrow> attrs \<Rightarrow> fuse_reply \<times> attrs \<Rightarrow> bool" where
  "xspec env (Set_Xattr name val flag) a r \<longleftrightarrow> r = (
     if flag \<noteq> XATTR_REPLACE \<and> no_meta_space env then (Reply_Err ENOSPC, a)
     else spec_name name a (\<lambda>ns k.
       if volume_external env \<and> ns = SECURITY \<and> k = ''selinux'' then (Reply_Err 0, a)
       else if \<not> allowed env ns then (Reply_Err EACCES, a)
       else if snd a (ns, k) = None \<and> flag = XATTR_REPLACE then (Reply_Err ENODATA, (True, snd a))
       else if snd a (ns, k) \<noteq> None \<and> flag = XATTR_CREATE then (Reply_Err EEXIST, (True, snd a))
       else (Reply_Err 0, (True, (snd a)((ns, k) \<mapsto> val)))))"
| "xspec env (Get_Xattr name sz) a r \<longleftrightarrow> r = spec_name name a (\<lambda>ns k.
     if volume_external env \<and> ns = SECURITY \<and> take 7 k = ''selinux'' then (sized_reply sz selinux_value, a)
     else if \<not> allowed env ns then (Reply_Err EACCES, a)
     else case snd a (ns, k) of None \<Rightarrow> (Reply_Err ENODATA, a) | Some v \<Rightarrow> (sized_reply sz v, a))"
| "xspec env (List_Xattr sz) a r \<longleftrightarrow> (\<exists>ks. distinct ks \<and> set ks = dom (snd a) \<and>
     r = (let extra = (if volume_external env then selinux_name else []) in
       if \<not> fst a \<and> extra = [] then Reply_Size 0 else sized_reply sz (concat (map (\<lambda>b. full_name b @ [CHR 0x00]) ks) @ extra), a))"
| "xspec env (Remove_Xattr name) a r \<longleftrightarrow> r = spec_name name a (\<lambda>ns k.
     if volume_external env \<and> ns = SECURITY \<and> take 7 k = ''selinux'' then (Reply_Err 0, a)
     else if \<not> allowed env ns then (Reply_Err EACCES, a)
     else if fst a then (Reply_Err 0, (True, (snd a)((ns, k) := None))) else (Reply_Err ENODATA, a))"

text \<open>How far the file may grow, and the values that are stored faithfully.\<close>

primrec request_cost :: "xattr_request \<Rightarrow> nat" where
  "request_cost (Set_Xattr name val flag) = 288 + cost val"
| "request_cost (Get_Xattr name sz) = 0"
| "request_cost (List_Xattr sz) = 0"
| "request_cost (Remove_Xattr name) = 0"

primrec request_ok :: "xattr_request \<Rightarrow> bool" where
  "request_ok (Set_Xattr name val flag) \<longleftrightarrow> val \<noteq> []"
| "request_ok (Get_Xattr name sz) \<longleftrightarrow> True"
| "request_ok (List_Xattr sz) \<longleftrightarrow> True"
| "request_ok (Remove_Xattr name) \<longleftrightarrow> True"

definition irel :: "attrs \<Rightarrow> inode_state \<Rightarrow> bool" where
  "irel a st \<longleftrightarrow> \<not> entry_locked st \<and> arel (fst a) (snd a) st"

text \<open>A request is done: a reply allowed by the specification, in at most \<open>n\<close> more bytes.\<close>

definition served :: "(fuse_reply \<times> attrs \<Rightarrow> bool) \<Rightarrow> nat \<Rightarrow> inode_state \<Rightarrow> (failure + fuse_reply) \<times> inode_state \<Rightarrow> bool" where
  "served P n st res \<longleftrightarrow> (\<exists>r st' a'. res = (Inr r, st') \<and> P (r, a') \<and> irel a' st' \<and> x_end (attr_file st') \<le> x_end (attr_file st) + n)"

lemma servedI: "res = (Inr r, st') \<Longrightarrow> P (r, a') \<Longrightarrow> irel a' st' \<Longrightarrow> x_end (attr_file st') \<le> x_end (attr_file st) + n \<Longrightarrow> served P n st res"
  unfolding served_def by blast

lemma named_served:
  assumes "irel a st" and "\<And>ns k. ns < 4 \<Longrightarrow> served (\<lambda>r. r = f ns k) n st (body ns k st)"
  shows "served (\<lambda>r. r = spec_name name a f) n st (with_name name body st)"
proof (cases "parse_xattr_namespace name")
  case (Inl e)
  obtain c where "e = Errno c" using parse_error [OF Inl] by blast
  then show ?thesis using Inl assms(1) by (auto simp: with_name_def spec_name_def intro!: servedI)
next
  case (Inr x)
  obtain ns k where "x = (ns, k)" by (cases x)
  then show ?thesis using Inr assms(2) [OF parse_namespace [of name ns k]] by (simp add: with_name_def spec_name_def)
qed

lemma irel_os: "irel a st \<Longrightarrow> \<not> entry_locked st \<and> x_os (attr_file st) = []"
  by (simp add: irel_def arel_def)

lemma xrel_irel:
  assumes "irel a st" and "st' = (st\<lparr>entry_locked := True\<rparr>)\<lparr>attr_file := f\<rparr>" and "xrel (next_xattr_page st) M f"
  shows "irel (True, M) (st'\<lparr>entry_locked := False\<rparr>)"
  using assms arel_xrel [of st' M] by (simp add: irel_def arel_def)

subsection \<open>The handlers\<close>

text \<open>The attribute is set, or it is an error; in both cases the inode has a page then.\<close>

lemma setxattr_entry_spec:
  assumes a: "irel a st" and ns: "ns < 4" and val: "val \<noteq> []" and sm: "x_end (attr_file st) + (288 + cost val) < 2 ^ 31"
  obtains (err) e st' where "setxattr_entry ns k val flag (st\<lparr>entry_locked := True\<rparr>) = (Inl (Errno e), st')" and "irel (True, snd a) (st'\<lparr>entry_locked := False\<rparr>)"
      "snd a (ns, k) = None \<and> flag = XATTR_REPLACE \<and> e = ENODATA \<or> snd a (ns, k) \<noteq> None \<and> flag = XATTR_CREATE \<and> e = EEXIST"
      "x_end (attr_file st') = x_end (attr_file st) + (if fst a then 0 else 288)" "meta_size_sum st' = meta_size_sum st"
  | (set) st' where "setxattr_entry ns k val flag (st\<lparr>entry_locked := True\<rparr>) = (Inr (Reply_Err 0), st')" and "irel (True, (snd a)((ns, k) \<mapsto> val)) st'"
      "\<not> (snd a (ns, k) = None \<and> flag = XATTR_REPLACE)" "\<not> (snd a (ns, k) \<noteq> None \<and> flag = XATTR_CREATE)"
      "x_end (attr_file st') \<le> x_end (attr_file st) + (288 + cost val)"
      "meta_size_sum st' = meta_size_sum st + (int (x_end (attr_file st')) - int (x_end (attr_file st)))"
proof -
  let ?s = "st\<lparr>entry_locked := True\<rparr>"
  have ar: "arel (fst a) (snd a) ?s" and os: "x_os (attr_file st) = []" "file_ok (attr_file st)" and ty: "inode_type st \<noteq> T_Other"
    using a by (simp_all add: irel_def arel_def)
  obtain st1 where s1: "fetch_xattr_page True ?s = (Inr (next_xattr_page st1), st1)" "xrel (next_xattr_page st1) (snd a) (attr_file st1)"
      "inode_type st1 = inode_type ?s" "entry_locked st1 = entry_locked ?s" "meta_size_sum st1 = meta_size_sum ?s" "x_end (attr_file st1) = x_end (attr_file ?s) + (if fst a then 0 else 288)"
    using fetch_page [OF ar] .
  have os1: "x_os (attr_file st1) = []" using s1(2) by (simp add: xrel_def)
  have sm1: "x_end (attr_file st1) + cost val < 2 ^ 31" using s1(6) sm by (simp split: if_splits)
  let ?ins = "insert_xattr (next_xattr_page st1) ns k val flag (attr_file st1)"
  note I = insert_xattr_spec [OF s1(2) ns val sm1, of k flag]
  have er: thesis if "?ins = (Inl (Errno e), attr_file st1)"
    "snd a (ns, k) = None \<and> flag = XATTR_REPLACE \<and> e = ENODATA \<or> snd a (ns, k) \<noteq> None \<and> flag = XATTR_CREATE \<and> e = EEXIST" for e
  proof (rule err [of e st1])
    show "setxattr_entry ns k val flag ?s = (Inl (Errno e), st1)" using s1(1) os that(1) by (simp add: setxattr_entry_def meta_size_ok on_file_def)
    show "irel (True, snd a) (st1\<lparr>entry_locked := False\<rparr>)" using arel_xrel [of st1 "snd a"] s1(2,3) ty by (simp add: irel_def)
  qed (use that(2) s1(5,6) in simp_all)
  have ok: thesis if i: "?ins = (Inr (), f)" "xrel (next_xattr_page st1) ((snd a)((ns, k) \<mapsto> val)) f" "x_end f \<le> x_end (attr_file st1) + cost val"
    "\<not> (snd a (ns, k) = None \<and> flag = XATTR_REPLACE)" "\<not> (snd a (ns, k) \<noteq> None \<and> flag = XATTR_CREATE)" for f
  proof -
    let ?f = "st1\<lparr>attr_file := f, entry_locked := False\<rparr>" and ?d = "int (x_end f) - int (x_end (attr_file st))"
    let ?st' = "?f\<lparr>meta_size_sum := meta_size_sum st1 + ?d\<rparr>"
    have f: "x_os f = []" "file_ok f" using i(2) by (simp_all add: xrel_def)
    then have p: "0 < x_end f" "0 < x_end (attr_file st)" using os(2) by (simp_all add: file_ok_def)
    have "setxattr_entry ns k val flag ?s = (Inr (Reply_Err 0), ?st')" using s1(1) os i(1) f p by (simp add: setxattr_entry_def meta_size_ok on_file_def unlock_ok)
    moreover have "irel (True, (snd a)((ns, k) \<mapsto> val)) ?st'" using arel_xrel [of "st1\<lparr>attr_file := f\<rparr>"] i(2) s1(3) ty by (simp add: irel_def)
    ultimately show thesis using set [of ?st'] i(3-5) s1(5,6) by (simp split: if_splits)
  qed
  consider (a) "snd a (ns, k) = None" "flag = XATTR_REPLACE" | (b) "snd a (ns, k) \<noteq> None" "flag = XATTR_CREATE"
    | (c) "\<not> (snd a (ns, k) = None \<and> flag = XATTR_REPLACE)" "\<not> (snd a (ns, k) \<noteq> None \<and> flag = XATTR_CREATE)" by metis
  then show thesis using I er ok by cases (auto split: if_splits)
qed

text \<open>The three ways of a request for a name.\<close>

lemma named_request:
  assumes a: "irel a st" and env: "sound_env env" and ns: "ns < 4" and skip: "skip \<Longrightarrow> P (r0, a)" and no: "\<not> skip \<Longrightarrow> \<not> allowed env ns \<Longrightarrow> P (Reply_Err EACCES, a)"
    and yes: "\<not> skip \<Longrightarrow> allowed env ns \<Longrightarrow> served P n st (case body (st\<lparr>entry_locked := True\<rparr>) of (Inl (Errno e), s2) \<Rightarrow> (Inr (Reply_Err e), s2\<lparr>entry_locked := False\<rparr>) | r \<Rightarrow> r)"
  shows "served P n st ((if skip then returnE r0 else with_entry (check_access env ns (bindE i_malloc (\<lambda>_. body)))) st)"
proof -
  have st: "\<not> entry_locked st" "x_os (attr_file st) = []" using irel_os [OF a] by simp_all
  consider skip | "\<not> skip" "\<not> allowed env ns" | "\<not> skip" "allowed env ns" by blast
  then show ?thesis
  proof cases
    case 1
    then show ?thesis using a skip by (intro servedI [of _ r0 st]) simp_all
  next
    case 2
    then show ?thesis using a no entry_access [OF env ns st] by (intro servedI [of _ "Reply_Err EACCES" st]) simp_all
  next
    case 3
    then show ?thesis using yes entry_access [OF env ns st, of body] by simp
  qed
qed

lemma set_served:
  assumes a: "irel a st" and env: "sound_env env" and val: "val \<noteq> []" and sm: "x_end (attr_file st) + (288 + cost val) < 2 ^ 31"
  shows "served (xspec env (Set_Xattr name val flag) a) (288 + cost val) st (hfuse_ll_setxattr env name val flag st)"
proof (cases "flag \<noteq> XATTR_REPLACE \<and> no_meta_space env")
  case True
  then show ?thesis using a by (intro servedI [of _ "Reply_Err ENOSPC" st]) (simp_all add: hfuse_ll_setxattr_def)
next
  case False
  show ?thesis
    unfolding xspec.simps hfuse_ll_setxattr_def if_not_P [OF False]
  proof (rule named_served [OF a], rule named_request [OF a env])
    fix ns k assume ns: "ns < (4::nat)" and c: "\<not> (volume_external env \<and> ns = SECURITY \<and> k = ''selinux'')" "allowed env ns"
    show "served (\<lambda>r. r = (if volume_external env \<and> ns = SECURITY \<and> k = ''selinux'' then (Reply_Err 0, a) else if \<not> allowed env ns then (Reply_Err EACCES, a)
       else if snd a (ns, k) = None \<and> flag = XATTR_REPLACE then (Reply_Err ENODATA, (True, snd a))
       else if snd a (ns, k) \<noteq> None \<and> flag = XATTR_CREATE then (Reply_Err EEXIST, (True, snd a)) else (Reply_Err 0, (True, (snd a)((ns, k) \<mapsto> val)))))
      (288 + cost val) st (case setxattr_entry ns k val flag (st\<lparr>entry_locked := True\<rparr>) of (Inl (Errno e), s2) \<Rightarrow> (Inr (Reply_Err e), s2\<lparr>entry_locked := False\<rparr>) | r \<Rightarrow> r)"
      unfolding if_not_P [OF c(1)] if_not_P [OF not_not [THEN iffD2, OF c(2)]]
      by (rule setxattr_entry_spec [OF a ns val sm, of k flag]) (auto intro!: servedI)
  qed simp_all
qed

lemma get_served:
  assumes a: "irel a st" and env: "sound_env env"
  shows "served (xspec env (Get_Xattr name sz) a) n st (hfuse_ll_getxattr env name sz st)"
  unfolding xspec.simps hfuse_ll_getxattr_def
proof (rule named_served [OF a], rule named_request [OF a env])
  fix ns k assume ns: "ns < (4::nat)" and c: "\<not> (volume_external env \<and> ns = SECURITY \<and> take 7 k = ''selinux'')" "allowed env ns"
  let ?s = "st\<lparr>entry_locked := True\<rparr>"
  have ar: "arel (fst a) (snd a) ?s" using a by (simp add: irel_def)
  let ?P = "\<lambda>r. r = (case snd a (ns, k) of None \<Rightarrow> (Reply_Err ENODATA, a) | Some v \<Rightarrow> (sized_reply sz v, a))"
  have "served ?P n st (case getxattr_entry ns k sz ?s of (Inl (Errno e), s2) \<Rightarrow> (Inr (Reply_Err e), s2\<lparr>entry_locked := False\<rparr>) | r \<Rightarrow> r)"
  proof (cases "fst a")
    case True
    obtain st1 where s1: "getxattr_entry ns k sz ?s = bindE (if sz \<noteq> 0 then i_malloc else returnE ()) (\<lambda>_. bindE (on_file (get_xattr ns k sz)) (\<lambda>(val, actual_size).
          bindE meta_cache_unlock_entry (\<lambda>_. returnE (if sz = 0 then Reply_Size actual_size else Reply_Buf val)))) st1"
        "xrel (next_xattr_page ?s) (snd a) (attr_file st1)" "st1 = ?s\<lparr>attr_file := attr_file st1\<rparr>" "x_end (attr_file st1) = x_end (attr_file ?s)"
      using fetch_existing_ok(1) [OF ar True] unfolding getxattr_entry_def by blast
    have "irel (True, snd a) (st1\<lparr>entry_locked := False\<rparr>)" by (rule xrel_irel [OF a s1(3)]) (use s1(2) in simp)
    then have i: "irel a (st1\<lparr>entry_locked := False\<rparr>)" using True by (cases a) simp
    have os: "x_os (attr_file st1) = []" using s1(2) by (simp add: xrel_def)
    show ?thesis
      using get_xattr_spec [OF s1(2) ns, of k sz] s1(1,4) i os
      by (cases "snd a (ns, k)") (auto intro!: servedI simp: i_malloc_ok on_file_def unlock_ok sized_reply_def)
  next
    case False
    then have "snd a = Map.empty" "st = st\<lparr>entry_locked := False\<rparr>" using a by (simp_all add: irel_def arel_def)
    moreover have "getxattr_entry ns k sz ?s = (Inr (Reply_Err ENODATA), st\<lparr>entry_locked := False\<rparr>)" using fetch_existing_ok(2) [OF ar False] by (simp add: getxattr_entry_def)
    ultimately show ?thesis using a by (intro servedI [of _ "Reply_Err ENODATA" st]) simp_all
  qed
  then show "served (\<lambda>r. r = (if volume_external env \<and> ns = SECURITY \<and> take 7 k = ''selinux'' then (sized_reply sz selinux_value, a)
     else if \<not> allowed env ns then (Reply_Err EACCES, a)
     else case snd a (ns, k) of None \<Rightarrow> (Reply_Err ENODATA, a) | Some v \<Rightarrow> (sized_reply sz v, a))) n st
    (case getxattr_entry ns k sz ?s of (Inl (Errno e), s2) \<Rightarrow> (Inr (Reply_Err e), s2\<lparr>entry_locked := False\<rparr>) | r \<Rightarrow> r)"
    using c by (simp only: if_not_P [OF c(1)] simp_thms if_False)
qed (simp_all add: sized_reply_def)

lemma remove_served:
  assumes a: "irel a st" and env: "sound_env env"
  shows "served (xspec env (Remove_Xattr name) a) n st (hfuse_ll_removexattr env name st)"
  unfolding xspec.simps hfuse_ll_removexattr_def
proof (rule named_served [OF a], rule named_request [OF a env])
  fix ns k assume ns: "ns < (4::nat)" and c: "\<not> (volume_external env \<and> ns = SECURITY \<and> take 7 k = ''selinux'')" "allowed env ns"
  let ?s = "st\<lparr>entry_locked := True\<rparr>"
  have ar: "arel (fst a) (snd a) ?s" using a by (simp add: irel_def)
  let ?P = "\<lambda>r. r = (if fst a then (Reply_Err 0, (True, (snd a)((ns, k) := None))) else (Reply_Err ENODATA, a))"
  have "served ?P n st (case removexattr_entry ns k ?s of (Inl (Errno e), s2) \<Rightarrow> (Inr (Reply_Err e), s2\<lparr>entry_locked := False\<rparr>) | r \<Rightarrow> r)"
  proof (cases "fst a")
    case True
    obtain st1 where s1: "removexattr_entry ns k ?s = (case on_file (remove_xattr (next_xattr_page ?s) ns k) st1 of
         (Inl e, s1) \<Rightarrow> if e = Errno ENODATA then bindE meta_cache_unlock_entry (\<lambda>_. returnE (Reply_Err 0)) s1 else (Inl e, s1)
       | (Inr _, s1) \<Rightarrow> bindE meta_cache_unlock_entry (\<lambda>_. returnE (Reply_Err 0)) s1)"
        "xrel (next_xattr_page ?s) (snd a) (attr_file st1)" "st1 = ?s\<lparr>attr_file := attr_file st1\<rparr>" "x_end (attr_file st1) = x_end (attr_file ?s)"
      using fetch_existing_ok(1) [OF ar True] unfolding removexattr_entry_def by blast
    obtain f r where f: "remove_xattr (next_xattr_page ?s) ns k (attr_file st1) = (r, f)" "r = Inr () \<or> r = Inl (Errno ENODATA)"
        "xrel (next_xattr_page st) ((snd a)((ns, k) := None)) f" "x_end f = x_end (attr_file st1)"
    proof (cases "snd a (ns, k) = None")
      case True
      then have "(snd a)((ns, k) := None) = snd a" by (simp add: fun_upd_idem)
      then show thesis using that [of "Inl (Errno ENODATA)" "attr_file st1"] remove_xattr_spec [OF s1(2) ns, of k] True s1(2) by simp
    next
      case False
      then show thesis using that remove_xattr_spec [OF s1(2) ns, of k] by auto
    qed
    have "st1\<lparr>attr_file := f\<rparr> = ?s\<lparr>attr_file := f\<rparr>" using s1(3) by (metis inode_state.update_convs(1) inode_state.surjective)
    then have "irel (True, (snd a)((ns, k) := None)) (st1\<lparr>attr_file := f, entry_locked := False\<rparr>)" using xrel_irel [OF a _ f(3)] by simp
    moreover have "removexattr_entry ns k ?s = (Inr (Reply_Err 0), st1\<lparr>attr_file := f, entry_locked := False\<rparr>)"
      using s1(1) f(1,2) by (auto simp: on_file_def unlock_ok)
    ultimately show ?thesis using True s1(4) f(4) by (intro servedI [of _ "Reply_Err 0" "st1\<lparr>attr_file := f, entry_locked := False\<rparr>"]) simp_all
  next
    case False
    then have "st = st\<lparr>entry_locked := False\<rparr>" using a by (simp add: irel_def)
    moreover have "removexattr_entry ns k ?s = (Inr (Reply_Err ENODATA), st\<lparr>entry_locked := False\<rparr>)" using fetch_existing_ok(2) [OF ar False] by (simp add: removexattr_entry_def)
    ultimately show ?thesis using a False by (intro servedI [of _ "Reply_Err ENODATA" st]) simp_all
  qed
  then show "served (\<lambda>r. r = (if volume_external env \<and> ns = SECURITY \<and> take 7 k = ''selinux'' then (Reply_Err 0, a)
     else if \<not> allowed env ns then (Reply_Err EACCES, a)
     else if fst a then (Reply_Err 0, (True, (snd a)((ns, k) := None))) else (Reply_Err ENODATA, a))) n st
    (case removexattr_entry ns k ?s of (Inl (Errno e), s2) \<Rightarrow> (Inr (Reply_Err e), s2\<lparr>entry_locked := False\<rparr>) | r \<Rightarrow> r)"
    using c by (simp only: if_not_P [OF c(1)] simp_thms if_False)
qed simp_all

lemma list_served:
  assumes a: "irel a st"
  shows "served (xspec env (List_Xattr sz) a) n st (hfuse_ll_listxattr env sz st)"
proof -
  let ?s = "st\<lparr>entry_locked := True\<rparr>"
  have st: "\<not> entry_locked st" "x_os (attr_file st) = []" using irel_os [OF a] by simp_all
  have ar: "arel (fst a) (snd a) ?s" using a by (simp add: irel_def)
  show ?thesis
  proof (cases "fst a")
    case True
    obtain st1 where s1: "hfuse_ll_listxattr env sz st = (case listxattr_entry env sz st1 of (Inl (Errno e), s2) \<Rightarrow> (Inr (Reply_Err e), s2\<lparr>entry_locked := False\<rparr>) | r \<Rightarrow> r)"
        "xrel (next_xattr_page ?s) (snd a) (attr_file st1)" "st1 = ?s\<lparr>attr_file := attr_file st1\<rparr>" "x_end (attr_file st1) = x_end (attr_file ?s)"
    proof -
      let ?none = "returnE (if volume_external env then if sz = 0 then Reply_Size (length selinux_name) else if sz < length selinux_name
          then Reply_Err ERANGE else Reply_Buf selinux_name else Reply_Size 0)"
      obtain st1 where f: "fetch_existing ?none (\<lambda>_. listxattr_entry env sz) ?s = listxattr_entry env sz st1"
          "xrel (next_xattr_page ?s) (snd a) (attr_file st1)" "st1 = ?s\<lparr>attr_file := attr_file st1\<rparr>" "x_end (attr_file st1) = x_end (attr_file ?s)"
        using fetch_existing_ok(1) [OF ar True, of ?none "\<lambda>_. listxattr_entry env sz"] by blast
      have "bindE i_malloc (\<lambda>_. fetch_existing ?none (\<lambda>_. listxattr_entry env sz)) ?s = listxattr_entry env sz st1" using i_malloc_ok [of ?s] st(2) f(1) by simp
      then have "hfuse_ll_listxattr env sz st = (case listxattr_entry env sz st1 of (Inl (Errno e), s2) \<Rightarrow> (Inr (Reply_Err e), s2\<lparr>entry_locked := False\<rparr>) | r \<Rightarrow> r)"
        unfolding hfuse_ll_listxattr_def with_entry_ok [OF st] by simp
      then show thesis using that f(2-4) by blast
    qed
    have "irel (True, snd a) (st1\<lparr>entry_locked := False\<rparr>)" by (rule xrel_irel [OF a s1(3)]) (use s1(2) in simp)
    then have i: "irel a (st1\<lparr>entry_locked := False\<rparr>)" using True by (cases a) simp
    have os: "x_os (attr_file st1) = []" using s1(2) by (simp add: xrel_def)
    obtain ks where ks: "distinct ks" "set ks = dom (snd a)" "list_xattr sz (attr_file st1) = (let bs = concat (map (\<lambda>a. full_name a @ [CHR 0x00]) ks) in
        if sz = 0 then Inr ([], length bs) else if sz < length bs then Inl (Errno ERANGE) else Inr (bs, length bs), attr_file st1)"
      using list_xattr_spec [OF s1(2)] .
    let ?bs = "concat (map (\<lambda>a. full_name a @ [CHR 0x00]) ks)" and ?x = "if volume_external env then selinux_name else []"
    have "hfuse_ll_listxattr env sz st = (Inr (sized_reply sz (?bs @ ?x)), st1\<lparr>entry_locked := False\<rparr>)"
      using s1(1) ks(3) os by (cases "sz = 0"; cases "sz < length ?bs") (auto simp: listxattr_entry_def i_malloc_ok on_file_def unlock_ok sized_reply_def Let_def)
    moreover have "xspec env (List_Xattr sz) a (sized_reply sz (?bs @ ?x), a)"
      unfolding xspec.simps by (rule exI [of _ ks]) (use ks(1,2) True in \<open>simp add: Let_def\<close>)
    ultimately show ?thesis using i s1(4) by (intro servedI [of _ "sized_reply sz (?bs @ ?x)" "st1\<lparr>entry_locked := False\<rparr>"]) simp_all
  next
    case False
    have e: "selinux_name \<noteq> []" by (simp add: selinux_name_def)
    have M: "snd a = Map.empty" "st\<lparr>entry_locked := False\<rparr> = st" using a False by (simp_all add: irel_def arel_def)
    let ?r = "if volume_external env then sized_reply sz selinux_name else Reply_Size 0"
    have "hfuse_ll_listxattr env sz st = (Inr ?r, st)"
      using fetch_existing_ok(2) [OF ar False] with_entry_ok [OF st] st(2) M(2) by (simp add: hfuse_ll_listxattr_def i_malloc_ok sized_reply_def)
    moreover have "xspec env (List_Xattr sz) a (?r, a)" unfolding xspec.simps by (rule exI [of _ "[]"]) (use M(1) False e in \<open>simp add: Let_def\<close>)
    ultimately show ?thesis using a by (intro servedI [of _ ?r st]) simp_all
  qed
qed

subsection \<open>Sequences of requests\<close>

interpretation xs: service irel "handle_xattr env" "xspec env" "\<lambda>q. sound_env env \<and> request_ok q" "\<lambda>st. x_end (attr_file st)" request_cost "2 ^ 31" for env
proof
  fix a st q assume a: "irel a st" and q: "sound_env env \<and> request_ok q" and l: "x_end (attr_file st) + request_cost q < 2 ^ 31"
  have "served (xspec env q a) (request_cost q) st (handle_xattr env q st)"
  proof (cases q)
    case (Set_Xattr name val flag)
    then show ?thesis using set_served [OF a, of env val name flag] q l by (simp del: xspec.simps)
  qed (use get_served [OF a] remove_served [OF a] list_served [OF a] q in \<open>simp_all del: xspec.simps\<close>)
  then show "\<exists>r s' a'. handle_xattr env q st = (Inr r, s') \<and> xspec env q a (r, a') \<and> irel a' s' \<and> x_end (attr_file s') \<le> x_end (attr_file st) + request_cost q"
    unfolding served_def by blast
qed

end
