(* ===== verification/Xattr_Inherit.thy ===== *)
theory Xattr_Inherit
  imports Xattr_Serve
begin

text \<open>
  \<^verbatim>\<open>inherit_xattr\<close>: which attributes of a directory a new inode in it gets.  The names are listed, parsed again, and read one by one.
\<close>

subsection \<open>Names\<close>

definition valid_key :: "string \<Rightarrow> bool" where
  "valid_key k \<longleftrightarrow> k \<noteq> [] \<and> length k < MAX_KEY_SIZE \<and> CHR 0x00 \<notin> set k"

lemma prefix_at: "n < 4 \<Longrightarrow> namespace_prefixes ! n = (if n = 0 then ''user'' else if n = 1 then ''system'' else if n = 2 then ''security'' else ''trusted'')"
  by (auto simp: namespace_prefixes_def numeral_eq_Suc less_Suc_eq)

lemma parse_full_name:
  assumes "n < 4" and "k \<noteq> []" and "length k < MAX_KEY_SIZE"
  shows "parse_xattr_namespace (full_name (n, k)) = Inr (n, k)"
proof -
  let ?p = "namespace_prefixes ! n"
  have p: "\<forall>c \<in> set ?p. c \<noteq> CHR ''.''" "length ?p \<le> 15" using prefix_at [OF assms(1)] by simp_all
  have "takeWhile (\<lambda>c. c \<noteq> CHR ''.'') (full_name (n, k)) = ?p" using p(1) by (simp add: full_name_def takeWhile_append2)
  moreover have "take (length ?p) (full_name (n, k)) = ?p" "drop (length ?p + 1) (full_name (n, k)) = k" by (simp_all add: full_name_def)
  moreover have "n = 0 \<or> n = 1 \<or> n = 2 \<or> n = 3" using assms(1) by auto
  ultimately show ?thesis using assms(2,3) p(2) prefix_at [OF assms(1)]
    unfolding parse_xattr_namespace_def Let_def by (auto simp: full_name_def Suc_le_eq)
qed

lemma full_name_parse:
  assumes "parse_xattr_namespace name = Inr (n, k)"
  shows "full_name (n, k) = name"
proof -
  let ?i = "length (takeWhile (\<lambda>c. c \<noteq> CHR ''.'') name)"
  have i: "?i \<noteq> length name" and k: "k = drop (?i + 1) name" and n: "namespace_prefixes ! n = take ?i name"
    using assms by (auto simp: parse_xattr_namespace_def Let_def namespace_prefixes_def split: if_splits)
  have l: "?i < length name" using i length_takeWhile_le [of "\<lambda>c. c \<noteq> CHR ''.''" name] by simp
  then have "name ! ?i = CHR ''.''" using nth_length_takeWhile by blast
  then show ?thesis using id_take_nth_drop [OF l] n k by (simp add: full_name_def)
qed

declare c_strings.simps [simp del]

lemma c_strings_names:
  assumes "\<forall>x \<in> set xs. x \<noteq> [] \<and> CHR 0x00 \<notin> set x"
  shows "c_strings (concat (map (\<lambda>x. x @ [CHR 0x00]) xs)) = xs"
  using assms
proof (induction xs)
  case Nil
  then show ?case by (simp add: c_strings.simps)
next
  case (Cons x xs)
  let ?r = "concat (map (\<lambda>x. x @ [CHR 0x00]) xs)"
  obtain c cs where x: "x = c # cs" "c \<noteq> CHR 0x00" using Cons.prems by (cases x) auto
  have w: "\<forall>c \<in> set x. c \<noteq> CHR 0x00" using Cons.prems by auto
  have "takeWhile (\<lambda>c. c \<noteq> CHR 0x00) (x @ [CHR 0x00] @ ?r) = x" "dropWhile (\<lambda>c. c \<noteq> CHR 0x00) (x @ [CHR 0x00] @ ?r) = [CHR 0x00] @ ?r"
    using w by (simp_all add: takeWhile_append2 dropWhile_append2)
  then show ?case using Cons x(2) unfolding c_strings.simps [of "concat (map (\<lambda>x. x @ [CHR 0x00]) (x # xs))"] by (simp add: x(1))
qed

subsection \<open>One value\<close>

lemma xrel_attr:
  assumes "xrel pos M s" and "M a = Some v"
  shows "v \<noteq> []" "fst a < 4"
proof -
  obtain T rk vs rv where inv: "vinv s (ent T) vs rv" and M: "\<And>a. M a = map_option (value_at s vs a) (ent T a)" using assms(1) unfolding xrel_def by blast
  obtain e where e: "ent T a = Some e" "v = value_at s vs a e" using M [of a] assms(2) by (cases "ent T a") auto
  show "v \<noteq> []" using value_at_length [of s e vs a, OF vinvD(3) [OF inv e(1)]] e(2) by (metis list.size(3))
  show "fst a < 4" using e(1) by (simp add: ent_def split: if_splits)
qed

lemma get_value_spec:
  assumes rel: "xrel pos M (attr_file st)" and n: "n < 4" and v: "M (n, k) = Some v" and b: "0 < b"
  shows "get_value 2 fresh n k b st = (Inr (if length v = b then (take (length v) (fresh (length v + 100)), length v + 100)
     else (v, if b < length v then length v + 100 else b)), st)"
proof -
  have os: "x_os (attr_file st) = []" using rel by (simp add: xrel_def)
  have two: "(2::nat) = Suc (Suc 0)" by simp
  note G = get_xattr_out_spec [OF rel n, of k]
  show ?thesis
  proof (cases "b < length v")
    case True
    then show ?thesis using G [of b] G [of "length v + 100"] v b os unfolding two by (simp add: i_malloc_ok)
  next
    case False
    then show ?thesis using G [of b] v b os unfolding two by (simp add: i_malloc_ok)
  qed
qed

subsection \<open>All names\<close>

definition inheritable :: "(nat \<times> string) set" where
  "inheritable = {a. fst a = SECURITY \<and> snd a \<noteq> ''restorecon_last''}"

lemma skip_inheritable: "skip_inherit_key n k \<longleftrightarrow> (n, k) \<notin> inheritable"
  by (auto simp: skip_inherit_key_def inheritable_def)

definition attr_cost :: "(nat \<times> string \<Rightarrow> string option) \<Rightarrow> nat \<times> string \<Rightarrow> nat" where
  "attr_cost M a = cost (the (M a))"

lemma inherit_one:
  assumes p: "xrel pp M (attr_file p)" and c: "xrel pos N (attr_file c)" and a: "a \<in> inheritable" "M a = Some v" "valid_key (snd a)" and b: "0 < b"
    and sm: "x_end (attr_file c) + attr_cost M a < 2 ^ 31"
    and w: "w = (if length v = b then take (length v) (fresh (length v + 100)) else v)" "length w = length v" and b': "b' = (if b \<le> length v then length v + 100 else b)"
  obtains f where "inherit_names fresh pos (full_name a # nms) b (p, c) = inherit_names fresh pos nms b' (p, c\<lparr>attr_file := f\<rparr>)"
    and "xrel pos (N(a \<mapsto> w)) f" and "x_end f \<le> x_end (attr_file c) + attr_cost M a"
proof -
  obtain n k where nk: "a = (n, k)" by (cases a)
  have n: "n < 4" and v: "v \<noteq> []" using xrel_attr [OF p a(2)] nk by simp_all
  have ps: "parse_xattr_namespace (full_name a) = Inr (n, k)" using parse_full_name [OF n, of k] a(3) nk by (simp add: valid_key_def)
  have g: "on_parent (get_value 2 fresh n k b) (p, c) = (Inr (w, b'), (p, c))"
    using get_value_spec [OF p n, of k v b fresh] a(2) nk b w(1) b' by (simp add: on_parent_def)
  have "cost w = cost v" using w(2) by (simp add: cost_def)
  then have cw: "x_end (attr_file c) + cost w < 2 ^ 31" "w \<noteq> []" using sm a(2) v w(2) by (auto simp: attr_cost_def)
  obtain f where f: "insert_xattr pos n k w 0 (attr_file c) = (Inr (), f)" "xrel pos (N((n, k) \<mapsto> w)) f" "x_end f \<le> x_end (attr_file c) + cost w"
    using insert_xattr_spec [OF c n cw(2,1), of k 0] by auto
  then have "on_self (on_file (insert_xattr pos n k w 0)) (p, c) = (Inr (), (p, c\<lparr>attr_file := f\<rparr>))" by (simp add: on_self_def on_file_def)
  then have "inherit_names fresh pos (full_name a # nms) b (p, c) = inherit_names fresh pos nms b' (p, c\<lparr>attr_file := f\<rparr>)"
    using ps g a(1) nk by (simp add: skip_inheritable)
  then show thesis using that f(2,3) nk \<open>cost w = cost v\<close> a(2) by (simp add: attr_cost_def)
qed

lemma inherit_skip:
  assumes "a \<notin> inheritable" and "fst a < 4" and "valid_key (snd a)"
  shows "inherit_names fresh pos (full_name a # nms) b s = inherit_names fresh pos nms b s"
  using assms parse_full_name [of "fst a" "snd a"] by (cases a) (simp add: skip_inheritable valid_key_def)

lemma inherit_names_spec:
  assumes p: "xrel pp M (attr_file p)" and "xrel pos N (attr_file c)" and "set ks \<subseteq> dom M" and "\<forall>a \<in> set ks. valid_key (snd a)"
    and "\<forall>a \<in> set ks. a \<in> inheritable \<longrightarrow> length (the (M a)) < b" and "x_end (attr_file c) + sum_list (map (attr_cost M) ks) < 2 ^ 31"
  shows "\<exists>f. inherit_names fresh pos (map full_name ks) b (p, c) = (Inr (), (p, c\<lparr>attr_file := f\<rparr>)) \<and> xrel pos (N ++ M |` (inheritable \<inter> set ks)) f"
  using assms(2-)
proof (induction ks arbitrary: c N)
  case Nil
  then show ?case by (auto intro: exI [of _ "attr_file c"])
next
  case (Cons a ks)
  obtain v where v: "M a = Some v" using Cons.prems(2) by auto
  have va: "valid_key (snd a)" using Cons.prems(3) by simp
  show ?case
  proof (cases "a \<in> inheritable")
    case True
    then have b: "length v < b" using Cons.prems(4) v by simp
    have sm: "x_end (attr_file c) + attr_cost M a < 2 ^ 31" using Cons.prems(5) by simp
    obtain f where f: "inherit_names fresh pos (full_name a # map full_name ks) b (p, c) = inherit_names fresh pos (map full_name ks) b (p, c\<lparr>attr_file := f\<rparr>)"
        "xrel pos (N(a \<mapsto> v)) f" "x_end f \<le> x_end (attr_file c) + attr_cost M a"
      by (rule inherit_one [OF p Cons.prems(1) True v va _ sm, of b v fresh b]) (use b in auto)
    let ?c = "c\<lparr>attr_file := f\<rparr>"
    have "x_end (attr_file ?c) + sum_list (map (attr_cost M) ks) < 2 ^ 31" using f(3) Cons.prems(5) by simp
    then have "\<exists>g. inherit_names fresh pos (map full_name ks) b (p, ?c) = (Inr (), (p, ?c\<lparr>attr_file := g\<rparr>)) \<and> xrel pos (N(a \<mapsto> v) ++ M |` (inheritable \<inter> set ks)) g"
      by (intro Cons.IH) (use f(2) Cons.prems(2-4) in \<open>simp_all del: fun_upd_apply\<close>)
    then obtain g where g: "inherit_names fresh pos (map full_name ks) b (p, ?c) = (Inr (), (p, ?c\<lparr>attr_file := g\<rparr>))"
        "xrel pos (N(a \<mapsto> v) ++ M |` (inheritable \<inter> set ks)) g"
      by blast
    have "N(a \<mapsto> v) ++ M |` (inheritable \<inter> set ks) = N ++ M |` (inheritable \<inter> set (a # ks))"
      using v True by (auto simp: fun_eq_iff map_add_def restrict_map_def split: option.splits)
    then show ?thesis using f(1) g by auto
  next
    case False
    have "fst a < 4" using xrel_attr(2) [OF p v] .
    then have s: "inherit_names fresh pos (map full_name (a # ks)) b (p, c) = inherit_names fresh pos (map full_name ks) b (p, c)"
      using inherit_skip [OF False _ va] by simp
    have e: "inheritable \<inter> set (a # ks) = inheritable \<inter> set ks" using False by auto
    show ?thesis unfolding s e by (rule Cons.IH) (use Cons.prems in auto)
  qed
qed

subsection \<open>The whole function\<close>

lemma on_parent_run: "f (fst s) = (r, p) \<Longrightarrow> on_parent f s = (r, (p, snd s))"
  by (simp add: on_parent_def)

lemma list_parent:
  assumes "xrel pos M (attr_file p)"
  obtains ks where "distinct ks" and "set ks = dom M" and "\<forall>c. on_parent (on_file (list_xattr 0)) (p, c) = (Inr ([], length (concat (map (\<lambda>a. full_name a @ [CHR 0x00]) ks))), (p, c))"
    and "ks \<noteq> [] \<longrightarrow> (\<forall>c. on_parent (on_file (list_xattr (length (concat (map (\<lambda>a. full_name a @ [CHR 0x00]) ks))))) (p, c) =
      (Inr (concat (map (\<lambda>a. full_name a @ [CHR 0x00]) ks), length (concat (map (\<lambda>a. full_name a @ [CHR 0x00]) ks))), (p, c)))"
proof -
  obtain T rk vs rv where os: "x_os (attr_file p) = []" and f: "file_ok (attr_file p)" and inv: "kinv (attr_file p) T rk"
    and M: "\<And>a. M a = map_option (value_at (attr_file p) vs a) (ent T a)" using assms unfolding xrel_def by blast
  have "dom M = dom (ent T)" using M by (auto simp: dom_def)
  then have ks: "distinct (keys_of T)" "set (keys_of T) = dom M" using keys_of [OF inv] by simp_all
  let ?bs = "concat (map (\<lambda>a. full_name a @ [CHR 0x00]) (keys_of T))"
  note L = list_xattr_keys [OF os f inv]
  have "?bs \<noteq> []" if "keys_of T \<noteq> []" using that by (cases "keys_of T") simp_all
  then show thesis using that [OF ks] L [of 0] L [of "length ?bs"] by (simp add: on_parent_def on_file_def Let_def)
qed

lemma inherit_keys_none:
  assumes "xrel pos M (attr_file p)" and "M = Map.empty"
  shows "inherit_keys fresh (p, c) = (Inr False, (p, c))"
proof -
  obtain ks where ks: "distinct ks" "set ks = dom M" and l: "\<forall>c. on_parent (on_file (list_xattr 0)) (p, c) = (Inr ([], length (concat (map (\<lambda>a. full_name a @ [CHR 0x00]) ks))), (p, c))"
    "ks \<noteq> [] \<longrightarrow> (\<forall>c. on_parent (on_file (list_xattr (length (concat (map (\<lambda>a. full_name a @ [CHR 0x00]) ks))))) (p, c) =
      (Inr (concat (map (\<lambda>a. full_name a @ [CHR 0x00]) ks), length (concat (map (\<lambda>a. full_name a @ [CHR 0x00]) ks))), (p, c)))"
    using list_parent [OF assms(1)] .
  then show ?thesis using assms(2) by (simp add: inherit_keys_def)
qed

text \<open>What is left of the function after the parent's page was read.\<close>

lemma inherit_keys_start:
  assumes p: "xrel pp M (attr_file p)" and c: "arel cc N c" and ne: "M \<noteq> Map.empty" and v: "\<forall>a \<in> dom M. valid_key (snd a)"
  obtains ks st where "distinct ks" and "set ks = dom M" and "xrel (next_xattr_page st) N (attr_file st)" and "inode_type st = inode_type c" and "entry_locked st = entry_locked c"
    and "x_end (attr_file st) \<le> x_end (attr_file c) + 288"
    and "inherit_keys fresh (p, c) = bindE (inherit_names fresh (next_xattr_page st) (map full_name ks) 356) (\<lambda>_. returnE True) (p, st)"
proof -
  obtain ks where ks: "distinct ks" "set ks = dom M" and l: "\<forall>c. on_parent (on_file (list_xattr 0)) (p, c) = (Inr ([], length (concat (map (\<lambda>a. full_name a @ [CHR 0x00]) ks))), (p, c))"
    "ks \<noteq> [] \<longrightarrow> (\<forall>c. on_parent (on_file (list_xattr (length (concat (map (\<lambda>a. full_name a @ [CHR 0x00]) ks))))) (p, c) =
      (Inr (concat (map (\<lambda>a. full_name a @ [CHR 0x00]) ks), length (concat (map (\<lambda>a. full_name a @ [CHR 0x00]) ks))), (p, c)))"
    using list_parent [OF p] .
  have kne: "ks \<noteq> []" using ks(2) ne dom_eq_empty_conv [of M] by fastforce
  let ?bs = "concat (map (\<lambda>a. full_name a @ [CHR 0x00]) ks)"
  have bne: "?bs \<noteq> []" using kne by (cases ks) simp_all
  have nm: "full_name a \<noteq> [] \<and> CHR 0x00 \<notin> set (full_name a)" if a: "a \<in> dom M" for a
  proof -
    have "fst a < 4" using xrel_attr(2) [OF p] a by blast
    then show ?thesis using prefix_at [of "fst a"] v a by (auto simp: full_name_def valid_key_def split: if_splits)
  qed
  have cs: "c_strings ?bs = map full_name ks" using c_strings_names [of "map full_name ks"] nm ks(2) by (simp add: comp_def)
  have os: "x_os (attr_file p) = []" using p by (simp add: xrel_def)
  obtain st where st: "fetch_xattr_page True c = (Inr (next_xattr_page st), st)" "xrel (next_xattr_page st) N (attr_file st)" "inode_type st = inode_type c"
      "entry_locked st = entry_locked c" "meta_size_sum st = meta_size_sum c" "x_end (attr_file st) = x_end (attr_file c) + (if cc then 0 else 288)"
    using fetch_page [OF c] .
  have "inherit_keys fresh (p, c) = bindE (inherit_names fresh (next_xattr_page st) (map full_name ks) 356) (\<lambda>_. returnE True) (p, st)"
    using l(1) l(2) kne bne cs st(1) os by (simp add: inherit_keys_def on_parent_run [OF i_malloc_ok] on_self_def)
  then show thesis using that [OF ks st(2-4)] st(6) by (simp split: if_splits)
qed

lemma inherit_xattr_run:
  assumes p: "irel (c, M) p" and os: "x_os (attr_file s) = []"
  shows "\<not> c \<Longrightarrow> inherit_xattr fresh (p, s) = (Inr (), (p, s))"
    and "c \<Longrightarrow> \<exists>p'. xrel (next_xattr_page p') M (attr_file p') \<and> irel (c, M) (p'\<lparr>entry_locked := False\<rparr>) \<and>
      (\<forall>b s'. inherit_keys fresh (p', s) = (Inr b, (p', s')) \<longrightarrow> inherit_xattr fresh (p, s) = (Inr (), (p'\<lparr>entry_locked := False\<rparr>, s')))"
proof -
  let ?p = "p\<lparr>entry_locked := True\<rparr>"
  have ar: "arel c M ?p" and l: "\<not> entry_locked p" and op: "x_os (attr_file p) = []" using p by (simp_all add: irel_def arel_def)
  have start: "inherit_xattr fresh (p, s) = (case inherit_from_parent fresh (?p, s) of
         (Inl (Errno e), s1) \<Rightarrow> bindE leave_parent (\<lambda>_. failE (Errno e)) s1 | (Inl f, s1) \<Rightarrow> (Inl f, s1) | (Inr _, s1) \<Rightarrow> leave_parent s1)"
    using os op l by (simp add: inherit_xattr_def on_self_def on_parent_def meta_cache_lock_entry_def i_call_ok)
  { assume "\<not> c"
    then have z: "next_xattr_page p = 0" using ar by (simp add: arel_def)
    have "p\<lparr>entry_locked := False\<rparr> = p" using l by simp
    then show "inherit_xattr fresh (p, s) = (Inr (), (p, s))" using z op
      unfolding start by (simp add: inherit_from_parent_def on_parent_def i_call_ok leave_parent_def unlock_ok) }
  assume c
  then obtain x where x: "next_xattr_page p \<noteq> 0" "xrel (next_xattr_page p) M ((attr_file p)\<lparr>xattr_page := x\<rparr>)" using ar by (auto simp: arel_def)
  have o: "objs (attr_file p) (next_xattr_page p) = Some (Head x)" using x(2) by (simp add: xrel_def)
  let ?p' = "?p\<lparr>attr_file := (attr_file p)\<lparr>xattr_page := x\<rparr>\<rparr>"
  have ft: "fetch_xattr_page False ?p = (Inr (next_xattr_page p), ?p')"
    using op o x(1) ar by (simp add: fetch_xattr_page_def Let_def i_call_ok on_file_def read_head_def x_call_ok arel_def)
  have "irel (c, M) (?p'\<lparr>entry_locked := False\<rparr>)" using arel_xrel [of ?p' M] x(2) ar \<open>c\<close> by (simp add: irel_def arel_def)
  moreover have "inherit_xattr fresh (p, s) = (Inr (), (?p'\<lparr>entry_locked := False\<rparr>, s'))" if k: "inherit_keys fresh (?p', s) = (Inr b, (?p', s'))" for b s'
    using k x(1) op ft unfolding start by (simp add: inherit_from_parent_def on_parent_def i_call_ok leave_parent_def unlock_ok)
  ultimately show "\<exists>p'. xrel (next_xattr_page p') M (attr_file p') \<and> irel (c, M) (p'\<lparr>entry_locked := False\<rparr>) \<and>
      (\<forall>b s'. inherit_keys fresh (p', s) = (Inr b, (p', s')) \<longrightarrow> inherit_xattr fresh (p, s) = (Inr (), (p'\<lparr>entry_locked := False\<rparr>, s')))"
    using x(2) by (intro exI [of _ ?p']) simp
qed

end
