(* ===== verification/Xattr_Props.thy ===== *)
theory Xattr_Props
  imports Xattr_Inherit
begin

text \<open>
  What the attribute store promises to its callers, and where the handlers and \<^verbatim>\<open>inherit_xattr\<close> fall short of it.
\<close>

definition plain_env :: xattr_env where
  "plain_env = \<lparr>volume_external = False, path_cache_missing = False, context_missing = False, sys_admin = False, no_meta_space = False\<rparr>"

definition new_file :: x_state where
  "new_file = \<lparr>objs = Map.empty, x_end = 4096, xattr_page = empty_xattr_page, marked_dirty = 0, x_os = []\<rparr>"

definition new_inode :: inode_state where
  "new_inode = \<lparr>attr_file = new_file, inode_type = T_File, next_xattr_page = 0, entry_locked = False, meta_size_sum = 0\<rparr>"

definition new_dir :: inode_state where
  "new_dir = new_inode\<lparr>inode_type := T_Dir\<rparr>"

lemma new_irel: "irel (False, Map.empty) new_inode" "irel (False, Map.empty) new_dir"
  by (simp_all add: irel_def arel_def new_inode_def new_dir_def new_file_def file_ok_def)

lemma plain_sound [simp]: "sound_env plain_env"
  by (simp add: sound_env_def plain_env_def)

lemma cost_numeral: "cost val = 1364 + 264 * ((length val + 255) div 256)"
  by (simp add: cost_def nblocks_def)

subsection \<open>Requests\<close>

text \<open>
  C25: Every sequence of requests to set attributes of an inode to values that are not empty, and to get, list and remove them, is answered as the map of the inode's attributes says, and the meta file stays
  well-formed, as long as all positions in the meta file are below 2 GiB, no call of the system fails, the request has a context and a volume that is external has its path cache.  A set value is what a later get
  returns until it is set again or removed; the list has every name of all four name spaces once; a buffer that is too small is an error, and so are the flags of a set that do not fit; a remove of an attribute the
  inode does not have is an error only while the inode never had any.
\<close>

theorem xattr_requests_refine_map:
  assumes "irel a st" and "sound_env env" and "\<forall>q \<in> set qs. request_ok q"
    and "x_end (attr_file st) + sum_list (map request_cost qs) < 2 ^ 31"
  shows "\<exists>rs st' b. run_all (handle_xattr env) qs st = (Inr rs, st') \<and> spec_all (xspec env) qs a rs b \<and> irel b st'"
  by (rule xs.runs [OF assms(1) _ assms(4)]) (use assms(2,3) in simp)

lemma only_key:
  assumes "distinct ks" and "set ks = {a}"
  shows "ks = [a]"
proof (cases ks)
  case (Cons b bs)
  then show ?thesis using assms by (cases bs) auto
qed (use assms in simp)

lemma parse_user_c: "parse_xattr_namespace ''user.c'' = Inr (0, ''c'')"
  by (simp add: parse_xattr_namespace_def)

theorem xattr_requests_refine_map_witness:
  "\<exists>st'. run_all (handle_xattr plain_env) [Get_Xattr ''user.c'' 9, Set_Xattr ''user.c'' ''red'' 0, Set_Xattr ''user.c'' ''x'' 1, Get_Xattr ''user.c'' 9,
      Get_Xattr ''user.c'' 2, List_Xattr 9, Remove_Xattr ''user.c'', Get_Xattr ''user.c'' 9] new_inode =
     (Inr [Reply_Err ENODATA, Reply_Err 0, Reply_Err EEXIST, Reply_Buf ''red'', Reply_Err ERANGE, Reply_Buf (''user.c'' @ [CHR 0x00]), Reply_Err 0, Reply_Err ENODATA], st')"
proof -
  let ?qs = "[Get_Xattr ''user.c'' 9, Set_Xattr ''user.c'' ''red'' 0, Set_Xattr ''user.c'' ''x'' 1, Get_Xattr ''user.c'' 9,
      Get_Xattr ''user.c'' 2, List_Xattr 9, Remove_Xattr ''user.c'', Get_Xattr ''user.c'' 9]"
  define M where "M = [(0::nat, ''c'') \<mapsto> ''red'']"
  note ev = spec_name_def parse_user_c plain_env_def allowed_def sized_reply_def M_def
  have sp: "xspec plain_env (Get_Xattr ''user.c'' 9) (False, Map.empty) r \<longleftrightarrow> r = (Reply_Err ENODATA, (False, Map.empty))"
    "xspec plain_env (Set_Xattr ''user.c'' ''red'' 0) (False, Map.empty) r \<longleftrightarrow> r = (Reply_Err 0, (True, M))"
    "xspec plain_env (Set_Xattr ''user.c'' ''x'' 1) (True, M) r \<longleftrightarrow> r = (Reply_Err EEXIST, (True, M))"
    "xspec plain_env (Get_Xattr ''user.c'' 9) (True, M) r \<longleftrightarrow> r = (Reply_Buf ''red'', (True, M))"
    "xspec plain_env (Get_Xattr ''user.c'' 2) (True, M) r \<longleftrightarrow> r = (Reply_Err ERANGE, (True, M))"
    "xspec plain_env (Remove_Xattr ''user.c'') (True, M) r \<longleftrightarrow> r = (Reply_Err 0, (True, Map.empty))"
    "xspec plain_env (Get_Xattr ''user.c'' 9) (True, Map.empty) r \<longleftrightarrow> r = (Reply_Err ENODATA, (True, Map.empty))" for r
    by (simp_all add: ev)
  have "xspec plain_env (List_Xattr 9) (True, M) r \<longleftrightarrow> r = (Reply_Buf (''user.c'' @ [CHR 0x00]), (True, M))" for r
  proof -
    have "distinct ks \<and> set ks = dom M \<longleftrightarrow> ks = [(0, ''c'')]" for ks using only_key [of ks "(0, ''c'')"] by (auto simp: M_def)
    then have "xspec plain_env (List_Xattr 9) (True, M) r \<longleftrightarrow> r = (sized_reply 9 (full_name (0, ''c'') @ [CHR 0x00]), (True, M))" by (simp add: plain_env_def conj_assoc [symmetric])
    then show ?thesis by (simp add: sized_reply_def full_name_def namespace_prefixes_def)
  qed
  note sp = sp this
  have pre: "\<forall>q \<in> set ?qs. request_ok q" "x_end (attr_file new_inode) + sum_list (map request_cost ?qs) < 2 ^ 31"
    by (simp_all add: new_inode_def new_file_def cost_numeral)
  obtain rs st' b where r: "run_all (handle_xattr plain_env) ?qs new_inode = (Inr rs, st')" "spec_all (xspec plain_env) ?qs (False, Map.empty) rs b"
    using xattr_requests_refine_map [OF new_irel(1) plain_sound pre] by blast
  have "rs = [Reply_Err ENODATA, Reply_Err 0, Reply_Err EEXIST, Reply_Buf ''red'', Reply_Err ERANGE, Reply_Buf (''user.c'' @ [CHR 0x00]), Reply_Err 0, Reply_Err ENODATA]"
    using r(2) by (auto simp only: spec_all.simps sp prod.inject)
  then show ?thesis using r(1) by blast
qed

text \<open>
  C28: The names of attributes: \<^verbatim>\<open>parse_xattr_namespace\<close> accepts exactly the names that are one of the four name spaces, a dot, and a key of 1 to 255
  characters, and gives back the two parts the name is made of.
\<close>

theorem xattr_name_roundtrip:
  "parse_xattr_namespace name = Inr (n, k) \<longleftrightarrow> n < 4 \<and> k \<noteq> [] \<and> length k < MAX_KEY_SIZE \<and> name = full_name (n, k)"
proof
  assume p: "parse_xattr_namespace name = Inr (n, k)"
  have "k \<noteq> [] \<and> length k < MAX_KEY_SIZE" using p by (auto simp: parse_xattr_namespace_def Let_def split: if_splits)
  then show "n < 4 \<and> k \<noteq> [] \<and> length k < MAX_KEY_SIZE \<and> name = full_name (n, k)" using parse_namespace [OF p] full_name_parse [OF p] by simp
qed (use parse_full_name in blast)

text \<open>
  What \<^verbatim>\<open>setxattr\<close> reports to the statistics.  When it succeeds the reported change is the growth of the meta file.  When it fails because of
  its flags nothing is reported, also when the file has grown by the new attribute page.
\<close>

theorem setxattr_accounting:
  assumes "irel a st" and "sound_env env" and "parse_xattr_namespace name = Inr (ns, k)" and "allowed env ns" and "\<not> volume_external env" and "\<not> no_meta_space env"
    and "val \<noteq> []" and "x_end (attr_file st) + (288 + cost val) < 2 ^ 31"
  shows "\<exists>e st'. hfuse_ll_setxattr env name val flag st = (Inr (Reply_Err e), st') \<and>
    (if e = 0 then meta_size_sum st' = meta_size_sum st + (int (x_end (attr_file st')) - int (x_end (attr_file st)))
     else meta_size_sum st' = meta_size_sum st \<and> x_end (attr_file st') = x_end (attr_file st) + (if fst a then 0 else 288))"
proof -
  have st: "\<not> entry_locked st" "x_os (attr_file st) = []" using irel_os [OF assms(1)] by simp_all
  have ns: "ns < 4" by (rule parse_namespace [OF assms(3)])
  have h: "hfuse_ll_setxattr env name val flag st = (case setxattr_entry ns k val flag (st\<lparr>entry_locked := True\<rparr>) of
      (Inl (Errno e), s2) \<Rightarrow> (Inr (Reply_Err e), s2\<lparr>entry_locked := False\<rparr>) | r \<Rightarrow> r)"
    using entry_access [OF assms(2) ns st, of "setxattr_entry ns k val flag"] assms(3-6) by (simp add: hfuse_ll_setxattr_def with_name_def)
  show ?thesis unfolding h by (rule setxattr_entry_spec [OF assms(1) ns assms(7,8), of k flag]) auto
qed

theorem setxattr_accounting_witness:
  "\<exists>e st'. hfuse_ll_setxattr plain_env ''user.c'' ''red'' XATTR_REPLACE new_inode = (Inr (Reply_Err e), st') \<and>
    (if e = 0 then meta_size_sum st' = meta_size_sum new_inode + (int (x_end (attr_file st')) - int (x_end (attr_file new_inode)))
     else meta_size_sum st' = meta_size_sum new_inode \<and> x_end (attr_file st') = x_end (attr_file new_inode) + 288)"
proof -
  have "allowed plain_env 0" "\<not> volume_external plain_env" "\<not> no_meta_space plain_env" "''red'' \<noteq> ''''" "x_end (attr_file new_inode) + (288 + cost ''red'') < 2 ^ 31"
    by (simp_all add: allowed_def plain_env_def new_inode_def new_file_def cost_numeral)
  from setxattr_accounting [OF new_irel(1) plain_sound parse_user_c this, of XATTR_REPLACE] show ?thesis unfolding fst_conv if_False .
qed

text \<open>
  C27: A \<^verbatim>\<open>setxattr\<close> on an external volume whose path cache is missing replies \<^verbatim>\<open>EIO\<close> and leaves the meta cache entry of the inode locked: the next
  request for the inode waits forever.
\<close>

theorem setxattr_leaves_entry_locked:
  assumes "\<not> entry_locked st" and "x_os (attr_file st) = []" and "parse_xattr_namespace name = Inr (ns, k)" and "ns \<noteq> SECURITY"
    and "volume_external env" and "path_cache_missing env" and "\<not> no_meta_space env"
  shows "\<exists>st'. hfuse_ll_setxattr env name val flag st = (Inr (Reply_Err EIO), st') \<and> hfuse_ll_listxattr env' sz st' = (Inl Hang, st')"
proof -
  have "hfuse_ll_setxattr env name val flag st = (Inr (Reply_Err EIO), st\<lparr>entry_locked := True\<rparr>)"
    using assms by (simp add: hfuse_ll_setxattr_def with_name_def with_entry_ok check_access_def i_call_ok)
  moreover have "hfuse_ll_listxattr env' sz (st\<lparr>entry_locked := True\<rparr>) = (Inl Hang, st\<lparr>entry_locked := True\<rparr>)"
    by (simp add: hfuse_ll_listxattr_def with_entry_def meta_cache_lock_entry_def)
  ultimately show ?thesis by blast
qed

theorem setxattr_leaves_entry_locked_witness:
  "\<exists>st'. hfuse_ll_setxattr (plain_env\<lparr>volume_external := True, path_cache_missing := True\<rparr>) ''user.c'' ''red'' 0 new_inode = (Inr (Reply_Err EIO), st') \<and>
     hfuse_ll_listxattr plain_env 100 st' = (Inl Hang, st')"
  by (rule setxattr_leaves_entry_locked [OF _ _ parse_user_c]) (simp_all add: plain_env_def new_inode_def new_file_def)

subsection \<open>Inheritance\<close>

text \<open>
  C26: A new inode gets the attributes of its parent in the name space \<^verbatim>\<open>security\<close>, except \<^verbatim>\<open>security.restorecon_last\<close>, with their values; the
  attributes of the parent are unchanged and its entry is unlocked.  The values are shorter than the 356 bytes of the buffer \<^verbatim>\<open>inherit_xattr\<close> starts with, the
  positions in the meta file of the new inode stay below 2 GiB, and no call fails.
\<close>

theorem inherit_xattr_copies:
  assumes "irel (c, M) p" and "arel d N s" and "\<forall>a \<in> dom M. valid_key (snd a)" and "\<forall>a \<in> dom M \<inter> inheritable. length (the (M a)) < 356"
    and "x_end (attr_file s) + 288 + (\<Sum>a \<in> dom M. attr_cost M a) < 2 ^ 31"
  shows "\<exists>p' s' d'. inherit_xattr fresh (p, s) = (Inr (), (p', s')) \<and> irel (c, M) p' \<and> arel d' (N ++ M |` inheritable) s' \<and> entry_locked s' = entry_locked s"
proof -
  have os: "x_os (attr_file s) = []" using assms(2) by (simp add: arel_def)
  note R = inherit_xattr_run [OF assms(1) os, of fresh]
  have M0: "M = Map.empty" if "\<not> c" using assms(1) that by (simp add: irel_def arel_def)
  show ?thesis
  proof (cases c)
    case False
    then show ?thesis using R(1) assms(1,2) M0 by auto
  next
    case True
    obtain p' where p': "xrel (next_xattr_page p') M (attr_file p')" "irel (c, M) (p'\<lparr>entry_locked := False\<rparr>)"
        "\<And>b s'. inherit_keys fresh (p', s) = (Inr b, (p', s')) \<Longrightarrow> inherit_xattr fresh (p, s) = (Inr (), (p'\<lparr>entry_locked := False\<rparr>, s'))"
      using R(2) [OF True] by blast
    show ?thesis
    proof (cases "M = Map.empty")
      case M: True
      then have "inherit_keys fresh (p', s) = (Inr False, (p', s))" using inherit_keys_none p'(1) by blast
      then have "inherit_xattr fresh (p, s) = (Inr (), (p'\<lparr>entry_locked := False\<rparr>, s))" by (rule p'(3))
      moreover have "arel d (N ++ M |` inheritable) s" using assms(2) M by simp
      ultimately show ?thesis using p'(2) by blast
    next
      case ne: False
      obtain ks st where ks: "distinct ks" "set ks = dom M" and st: "xrel (next_xattr_page st) N (attr_file st)" "inode_type st = inode_type s" "entry_locked st = entry_locked s"
          "x_end (attr_file st) \<le> x_end (attr_file s) + 288"
          "inherit_keys fresh (p', s) = bindE (inherit_names fresh (next_xattr_page st) (map full_name ks) 356) (\<lambda>_. returnE True) (p', st)"
        using inherit_keys_start [OF p'(1) assms(2) ne assms(3)] .
      have sum: "sum_list (map (attr_cost M) ks) = (\<Sum>a \<in> dom M. attr_cost M a)" using sum_list_distinct_conv_sum_set [OF ks(1)] ks(2) by simp
      have "\<exists>f. inherit_names fresh (next_xattr_page st) (map full_name ks) 356 (p', st) = (Inr (), (p', st\<lparr>attr_file := f\<rparr>)) \<and>
          xrel (next_xattr_page st) (N ++ M |` (inheritable \<inter> set ks)) f"
        by (rule inherit_names_spec [OF p'(1) st(1)]) (use ks(2) assms(3-5) sum st(4) in auto)
      then obtain f where f: "inherit_names fresh (next_xattr_page st) (map full_name ks) 356 (p', st) = (Inr (), (p', st\<lparr>attr_file := f\<rparr>))"
          "xrel (next_xattr_page st) (N ++ M |` (inheritable \<inter> set ks)) f" by blast
      have "M |` (inheritable \<inter> set ks) = M |` inheritable" unfolding ks(2) by (auto simp: restrict_map_def fun_eq_iff)
      then have "arel True (N ++ M |` inheritable) (st\<lparr>attr_file := f\<rparr>)" using arel_xrel [of "st\<lparr>attr_file := f\<rparr>"] f(2) st(2) assms(2) by (simp add: arel_def)
      moreover have "inherit_keys fresh (p', s) = (Inr True, (p', st\<lparr>attr_file := f\<rparr>))" using st(5) f(1) by simp
      from p'(3) [OF this] have "inherit_xattr fresh (p, s) = (Inr (), (p'\<lparr>entry_locked := False\<rparr>, st\<lparr>attr_file := f\<rparr>))" .
      moreover have "entry_locked (st\<lparr>attr_file := f\<rparr>) = entry_locked s" using st(3) by simp
      ultimately show ?thesis using p'(2) by blast
    qed
  qed
qed

text \<open>One inherited attribute, to the byte: its value and whether it is copied at all.\<close>

definition label :: string where "label = ''u:object_r:media_rw_data_file:s0''"

definition dir_attrs :: "nat \<times> string \<Rightarrow> string option" where
  "dir_attrs = [(SECURITY, ''selinux'') \<mapsto> label, (0, ''c'') \<mapsto> ''red'']"

lemma set_exists:
  assumes "irel a st" and "ns < 4" and "val \<noteq> []" and "x_end (attr_file st) + (288 + cost val) < 2 ^ 31" and "snd a (ns, k) = None"
  obtains st' where "irel (True, (snd a)((ns, k) \<mapsto> val)) st'" and "x_end (attr_file st') \<le> x_end (attr_file st) + (288 + cost val)"
  by (rule setxattr_entry_spec [OF assms(1-4), of k 0]) (use assms(5) that in auto)

lemma dir_with_attrs: "\<exists>p. irel (True, dir_attrs) p"
proof -
  obtain p1 where p1: "irel (True, [(SECURITY, ''selinux'') \<mapsto> label]) p1" "x_end (attr_file p1) \<le> x_end (attr_file new_dir) + (288 + cost label)"
    using set_exists [OF new_irel(2), of SECURITY label "''selinux''"] by (auto simp: new_dir_def new_inode_def new_file_def cost_numeral label_def)
  then have "x_end (attr_file p1) + (288 + cost ''red'') < 2 ^ 31" by (simp add: new_dir_def new_inode_def new_file_def cost_numeral label_def)
  then obtain p2 where "irel (True, [(SECURITY, ''selinux'') \<mapsto> label, (0, ''c'') \<mapsto> ''red'']) p2"
    using set_exists [OF p1(1), of 0 "''red''" "''c''"] by auto
  then show ?thesis unfolding dir_attrs_def by blast
qed

theorem inherit_xattr_copies_witness:
  "\<exists>p p' s' d'. irel (True, dir_attrs) p \<and> inherit_xattr (\<lambda>n. replicate n (CHR ''?'')) (p, new_inode) = (Inr (), (p', s')) \<and> irel (True, dir_attrs) p' \<and>
     arel d' [(SECURITY, ''selinux'') \<mapsto> label] s' \<and> entry_locked s' = entry_locked new_inode"
proof -
  obtain p where p: "irel (True, dir_attrs) p" using dir_with_attrs by blast
  have d: "dom dir_attrs = {(0, ''c''), (2, ''selinux'')}" by (auto simp: dir_attrs_def)
  have i: "Map.empty ++ dir_attrs |` inheritable = [(SECURITY, ''selinux'') \<mapsto> label]"
    by (auto simp: dir_attrs_def inheritable_def restrict_map_def fun_eq_iff)
  have "\<exists>p' s' d'. inherit_xattr (\<lambda>n. replicate n (CHR ''?'')) (p, new_inode) = (Inr (), (p', s')) \<and> irel (True, dir_attrs) p' \<and>
      arel d' (Map.empty ++ dir_attrs |` inheritable) s' \<and> entry_locked s' = entry_locked new_inode"
    by (rule inherit_xattr_copies [OF p]) (use new_irel(1) d in \<open>simp_all add: irel_def dir_attrs_def valid_key_def label_def inheritable_def attr_cost_def cost_numeral new_inode_def new_file_def\<close>)
  then show ?thesis using p unfolding i by blast
qed

text \<open>
  A \<^verbatim>\<open>security\<close> attribute of the parent whose value is exactly as long as the buffer of \<^verbatim>\<open>inherit_xattr\<close>, 356 bytes, is inherited with what happens to be in
  newly allocated memory instead of its value: the buffer is replaced by a larger one, but the value is not read again.
\<close>

theorem inherit_xattr_garbage:
  assumes "irel (True, [(SECURITY, k) \<mapsto> v]) p" and "arel d N s" and "valid_key k" and "k \<noteq> ''restorecon_last''" and "length v = 356" and "length (fresh 456) = 456"
    and "x_end (attr_file s) + 288 + cost v < 2 ^ 31"
  shows "\<exists>p' s'. inherit_xattr fresh (p, s) = (Inr (), (p', s')) \<and> arel True (N((SECURITY, k) \<mapsto> take 356 (fresh 456))) s'"
proof -
  let ?a = "(SECURITY, k)" and ?M = "[(SECURITY, k) \<mapsto> v]" and ?w = "take 356 (fresh 456)"
  have os: "x_os (attr_file s) = []" using assms(2) by (simp add: arel_def)
  obtain p' where p': "xrel (next_xattr_page p') ?M (attr_file p')"
      "\<And>b s'. inherit_keys fresh (p', s) = (Inr b, (p', s')) \<Longrightarrow> inherit_xattr fresh (p, s) = (Inr (), (p'\<lparr>entry_locked := False\<rparr>, s'))"
    using inherit_xattr_run(2) [OF assms(1) os, of fresh] by blast
  have ne: "?M \<noteq> Map.empty" and vk: "\<forall>a \<in> dom ?M. valid_key (snd a)" using assms(3) by (auto simp: fun_eq_iff)
  obtain ks st where ks: "distinct ks" "set ks = dom ?M" and st: "xrel (next_xattr_page st) N (attr_file st)" "inode_type st = inode_type s" "entry_locked st = entry_locked s"
      "x_end (attr_file st) \<le> x_end (attr_file s) + 288"
      "inherit_keys fresh (p', s) = bindE (inherit_names fresh (next_xattr_page st) (map full_name ks) 356) (\<lambda>_. returnE True) (p', st)"
    using inherit_keys_start [OF p'(1) assms(2) ne vk] .
  have k1: "ks = [?a]" using only_key ks by simp
  have ia: "?a \<in> inheritable" "?M ?a = Some v" "valid_key (snd ?a)" using assms(3,4) by (simp_all add: inheritable_def)
  have sm: "x_end (attr_file st) + attr_cost ?M ?a < 2 ^ 31" using st(4) assms(7) by (simp add: attr_cost_def)
  have w: "?w = (if length v = 356 then take (length v) (fresh (length v + 100)) else v)" "length ?w = length v" using assms(5,6) by simp_all
  have "(456::nat) = (if 356 \<le> length v then length v + 100 else 356)" using assms(5) by simp
  from inherit_one [where M = ?M and a = ?a and v = v and b = 356 and b' = 456 and fresh = fresh and w = ?w and nms = "[]", OF p'(1) st(1) ia _ sm w this] obtain f where
      f: "inherit_names fresh (next_xattr_page st) [full_name ?a] 356 (p', st) = (Inr (), (p', st\<lparr>attr_file := f\<rparr>))" "xrel (next_xattr_page st) (N(?a \<mapsto> ?w)) f" by auto
  have "arel True (N(?a \<mapsto> ?w)) (st\<lparr>attr_file := f\<rparr>)" using arel_xrel [of "st\<lparr>attr_file := f\<rparr>"] f(2) st(2) assms(2) by (simp add: arel_def)
  moreover have "inherit_keys fresh (p', s) = (Inr True, (p', st\<lparr>attr_file := f\<rparr>))" using st(5) f(1) k1 by simp
  ultimately show ?thesis using p'(2) by blast
qed

theorem inherit_xattr_garbage_witness:
  "\<exists>p p' s'. irel (True, [(SECURITY, ''x'') \<mapsto> replicate 356 (CHR ''v'')]) p \<and>
     inherit_xattr (\<lambda>n. replicate n (CHR ''?'')) (p, new_inode) = (Inr (), (p', s')) \<and> arel True [(SECURITY, ''x'') \<mapsto> replicate 356 (CHR ''?'')] s'"
proof -
  let ?v = "replicate 356 (CHR ''v'')" and ?f = "\<lambda>n. replicate n (CHR ''?'')"
  obtain p where p: "irel (True, [(SECURITY, ''x'') \<mapsto> ?v]) p"
    using set_exists [OF new_irel(2), of SECURITY ?v "''x''"] by (auto simp: new_dir_def new_inode_def new_file_def cost_numeral)
  have s: "arel False Map.empty new_inode" using new_irel(1) by (simp add: irel_def)
  have "\<exists>p' s'. inherit_xattr ?f (p, new_inode) = (Inr (), (p', s')) \<and> arel True (Map.empty((SECURITY, ''x'') \<mapsto> take 356 (?f 456))) s'"
    by (rule inherit_xattr_garbage [OF p s]) (simp_all add: valid_key_def new_inode_def new_file_def cost_numeral)
  then show ?thesis using p by auto
qed

subsection \<open>Empty values\<close>

text \<open>
  What an empty value does.  The requests are evaluated step by step: a continuation is only looked at once the call before it has returned.
\<close>

lemma bindE_weak: "m = m' \<Longrightarrow> bindE m f = bindE m' f" by simp

lemma find_loop_eval: "0 < n \<Longrightarrow> find_loop n k pp pq q ins = bindE (read_key_page q) (\<lambda>now_key_page.
       let (hit, index) = key_binary_search (key_list now_key_page) (num_xattr now_key_page) k in
       if hit then returnE (Hit now_key_page (nat index) q pp pq)
       else
         let first_insert1 = (if ins = None \<and> num_xattr now_key_page < MAX_KEY_ENTRY_PER_LIST
                              then Some (now_key_page, index, q) else ins) in
         if next_list_pos now_key_page \<noteq> 0
         then find_loop (n - 1) k now_key_page q (next_list_pos now_key_page) first_insert1
         else case first_insert1 of
           None \<Rightarrow> returnE (Miss now_key_page (- 1) q)
         | Some (page, i, pos) \<Rightarrow> returnE (Miss page i pos))"
  using find_loop.simps(2) [of "n - 1" k pp pq q ins] by simp

lemma find_tail_eval: "0 < n \<Longrightarrow> find_tail n p = bindE (read_value_block p) (\<lambda>v.
       if next_block_pos v = 0 then returnE (p, v) else find_tail (n - 1) (next_block_pos v))"
  using find_tail.simps(2) [of "n - 1" p] by simp

lemma xhash_a: "xhash ''a'' = 4" "xhash ''b'' = 7" "xhash ''c'' = 6"  "xhash ''d'' = 1"
  by (simp_all add: xhash_def djb_hash_foldl djb_step_def)

lemma write_value_eval:
  "write_value_data rep p [] = returnE rep"
  "MAX_VALUE_BLOCK_SIZE < length val \<Longrightarrow> write_value_data rep p val =
    bindE (get_usable_value_filepos rep) (\<lambda>(next_pos, rep1).
        bindE (write_obj (Value (filled_block (take MAX_VALUE_BLOCK_SIZE val) next_pos)) p) (\<lambda>_.
        write_value_data rep1 next_pos (drop MAX_VALUE_BLOCK_SIZE val)))"
  "val \<noteq> [] \<Longrightarrow> length val \<le> MAX_VALUE_BLOCK_SIZE \<Longrightarrow> write_value_data rep p val = bindE (write_obj (Value (filled_block val 0)) p) (\<lambda>_. returnE rep)"
  by (auto simp: write_value_data.simps [of rep p val] write_value_data.simps [of rep p "[]"] simp del: write_value_data.simps)

lemma rep: "replicate 4 x = [x, x, x, x]" "replicate 8 x = [x, x, x, x, x, x, x, x]"
  by (simp_all add: eval_nat_numeral)

lemmas ops = insert_xattr_def insert_first_def insert_existing_def room_for_key_def get_usable_key_list_filepos_def get_usable_value_filepos_def
  seek_eof_def x_call_def write_obj_def put_obj_def read_key_page_def read_value_block_def upd_page_def reclaim_replace_value_block_def write_head_def mark_inode_dirty_def
  find_key_entry_def find_loop_eval find_tail_eval remove_xattr_def remove_key_def table_at_def set_table_def set_count_def put_entry_def key_entry_def shift_up_def shift_down_def
  zero_key_page_def zero_block_def filled_block_def xhash_a Let_def key_binary_search_def key_search.simps compare_names_def to_int32_def name_key_def rep

declare write_value_data.simps [simp del] read_value_data.simps [simp del] find_loop.simps [simp del] find_tail.simps [simp del]

lemma read_value_eval:
  "read_value_data 0 p = returnE []"
  "0 < sz \<Longrightarrow> read_value_data sz p = bindE (read_value_block p) (\<lambda>v.
        bindE (read_value_data (sz - MAX_VALUE_BLOCK_SIZE) (next_block_pos v)) (\<lambda>rest.
        returnE (take (min sz MAX_VALUE_BLOCK_SIZE) (content v) @ rest)))"
  by (simp_all add: read_value_data.simps)

lemma parse_users: "parse_xattr_namespace ''user.a'' = Inr (0, ''a'')" "parse_xattr_namespace ''user.b'' = Inr (0, ''b'')"
  "parse_xattr_namespace ''user.c'' = Inr (0, ''c'')" "parse_xattr_namespace ''user.d'' = Inr (0, ''d'')"
  by (simp_all add: parse_xattr_namespace_def)

lemmas handlers = hfuse_ll_setxattr_def hfuse_ll_getxattr_def hfuse_ll_removexattr_def with_name_def parse_users with_entry_def check_access_def
  plain_env_def i_malloc_def i_call_def on_file_def meta_cache_lock_entry_def meta_cache_unlock_entry_def meta_cache_get_meta_size_def setxattr_entry_def
  getxattr_entry_def removexattr_entry_def fetch_existing_def fetch_xattr_page_def read_head_def xattr_permission_def check_permission_def new_inode_def new_file_def get_xattr_def get_xattr_out_def

lemma write_two: "length v1 = 256 \<Longrightarrow> v2 \<noteq> [] \<Longrightarrow> length v2 \<le> 256 \<Longrightarrow> write_value_data rep p (v1 @ v2) =
    bindE (get_usable_value_filepos rep) (\<lambda>(next_pos, rep1).
        bindE (write_obj (Value \<lparr>content = v1, next_block_pos = next_pos\<rparr>) p) (\<lambda>_.
        bindE (write_obj (Value (filled_block v2 0)) next_pos) (\<lambda>_. returnE rep1)))"
  by (simp add: write_value_eval filled_block_def)

lemma read_short: "x \<noteq> [] \<Longrightarrow> length x \<le> 256 \<Longrightarrow> read_value_data (length x) p = bindE (read_value_block p) (\<lambda>v. returnE (take (length x) (content v)))"
  by (simp add: read_value_eval fun_eq_iff bindE_def returnE_def)

lemma write_one: "x \<noteq> [] \<Longrightarrow> length x \<le> 256 \<Longrightarrow> write_value_data rep p x = bindE (write_obj (Value (filled_block x 0)) p) (\<lambda>_. returnE rep)"
  by (simp add: write_value_eval)

lemma empty_value_run:
  assumes "length v1 = 256" and "v2 \<noteq> []" and "length v2 \<le> 256" and "x \<noteq> []" and "length x \<le> 256" and "length w1 = 256" and "w2 \<noteq> []" and "length w2 \<le> 256" and "length x \<le> n" and "0 < n"
  shows "fst (run_all (handle_xattr plain_env) [Set_Xattr ''user.a'' (v1 @ v2) 0, Remove_Xattr ''user.a'', Set_Xattr ''user.b'' [] 0, Set_Xattr ''user.c'' x 0,
     Remove_Xattr ''user.b'', Set_Xattr ''user.d'' (w1 @ w2) 0, Get_Xattr ''user.c'' n] new_inode) =
   Inr [Reply_Err 0, Reply_Err 0, Reply_Err 0, Reply_Err 0, Reply_Err 0, Reply_Err 0, Reply_Buf (take (length x) (w2 @ replicate (256 - length w2) (CHR 0x00)))]"
  using assms by (simp add: ops handlers empty_xattr_page_def write_two write_one read_short write_value_eval(1) cong: bindE_weak)

text \<open>
  C29: An attribute with an empty value breaks the lists of value blocks: its key keeps the block it was given with the link of the reclaimed list, so
  that two keys share a block later.  On a new inode, after a value of two blocks was set and removed, the attribute \<^verbatim>\<open>user.b\<close> is set to the empty
  value and \<^verbatim>\<open>user.c\<close> to any value \<open>x\<close> of one block; once \<^verbatim>\<open>user.b\<close> is removed and any value \<open>w\<close> of two blocks is set for \<^verbatim>\<open>user.d\<close>, all with success, reading
  \<^verbatim>\<open>user.c\<close> gives as many bytes as \<open>x\<close> has, but those of the second block of \<open>w\<close>, not \<open>x\<close>.
\<close>

theorem empty_value_corrupts:
  assumes "MAX_VALUE_BLOCK_SIZE < length v" and "length v \<le> 2 * MAX_VALUE_BLOCK_SIZE" and "x \<noteq> []" and "length x \<le> MAX_VALUE_BLOCK_SIZE"
    and "MAX_VALUE_BLOCK_SIZE < length w" and "length w \<le> 2 * MAX_VALUE_BLOCK_SIZE" and "length x \<le> n"
  shows "fst (run_all (handle_xattr plain_env) [Set_Xattr ''user.a'' v 0, Remove_Xattr ''user.a'', Set_Xattr ''user.b'' [] 0, Set_Xattr ''user.c'' x 0,
     Remove_Xattr ''user.b'', Set_Xattr ''user.d'' w 0, Get_Xattr ''user.c'' n] new_inode) =
   Inr [Reply_Err 0, Reply_Err 0, Reply_Err 0, Reply_Err 0, Reply_Err 0, Reply_Err 0,
     Reply_Buf (take (length x) (drop MAX_VALUE_BLOCK_SIZE w @ replicate (2 * MAX_VALUE_BLOCK_SIZE - length w) (CHR 0x00)))]"
proof -
  have "0 < n" using assms(3,7) by (cases x) auto
  then show ?thesis using empty_value_run [of "take 256 v" "drop 256 v" x "take 256 w" "drop 256 w" n] assms by simp
qed

theorem empty_value_corrupts_witness:
  "fst (run_all (handle_xattr plain_env) [Set_Xattr ''user.a'' (replicate 300 (CHR ''v'')) 0, Remove_Xattr ''user.a'', Set_Xattr ''user.b'' [] 0, Set_Xattr ''user.c'' ''x'' 0,
     Remove_Xattr ''user.b'', Set_Xattr ''user.d'' (replicate 300 (CHR ''d'')) 0, Get_Xattr ''user.c'' 10] new_inode) =
   Inr [Reply_Err 0, Reply_Err 0, Reply_Err 0, Reply_Err 0, Reply_Err 0, Reply_Err 0, Reply_Buf ''d'']"
  using empty_value_corrupts [of "replicate 300 (CHR ''v'')" "''x''" "replicate 300 (CHR ''d'')" 10] by (simp add: numeral_eq_Suc)

end
