(* ===== verification/Pkg_Cache.thy ===== *)
theory Pkg_Cache
  imports Buckets Djb_Hash
begin

unbundle bit_operations_syntax

text \<open>
  The cache of package ids, \<^verbatim>\<open>src/HCFS/pkg_cache.c\<close>, and \<^verbatim>\<open>lookup_pkg\<close> of \<^verbatim>\<open>src/HCFS/fuseop.c\<close>, which reads through it.  The
  cache has eight buckets, each a singly linked list of at most eight entries with the most recently used one in front.  The
  code moves entries by relinking them, so the entries are kept in an explicit store: a map from
  addresses to entries, where \<open>0\<close> is the null pointer and an address outside the map is not allocated.  Using such an address
  is the failure \<open>Crash\<close>, a walk along a cyclic list is \<open>Hang\<close>.  The counters of hits and queries are unbounded.
\<close>

abbreviation (input) PKG_HASH_SIZE :: nat where "PKG_HASH_SIZE \<equiv> 8"
abbreviation (input) MAX_PKG_ENTRIES :: nat where "MAX_PKG_ENTRIES \<equiv> 8"
abbreviation (input) PKG_NAME_LEN :: nat where "PKG_NAME_LEN \<equiv> 255"

type_synonym uid_t = "32 word"

subsection \<open>Data\<close>

record PKG_CACHE_ENTRY =
  pkgname :: string
  pkguid :: uid_t
  next_entry :: nat

record PKG_ENTRY_HEAD =
  first_pkg_entry :: nat
  num_pkgs :: int

type_synonym pkg_store = "nat \<rightharpoonup> PKG_CACHE_ENTRY"

record PKG_CACHE =
  pkg_hash :: "PKG_ENTRY_HEAD list"
  num_cache_pkgs :: int
  hit_count :: int
  query_count :: int
  pkg_cache_lock :: nat
  pkg_mem :: pkg_store

text \<open>
  The memory allocator is not part of the cache: a call of \<^verbatim>\<open>calloc\<close> is a function that gives an address for the
  present store, or none.  \<open>calloc_ok\<close> is what the C standard says of the address.
\<close>

type_synonym pkg_calloc = "pkg_store \<Rightarrow> nat option"

definition calloc_ok :: "pkg_calloc \<Rightarrow> bool" where
  "calloc_ok calloc \<longleftrightarrow> (\<forall>h a. calloc h = Some a \<longrightarrow> a \<noteq> 0 \<and> h a = None)"

subsection \<open>Pointers\<close>

definition pkg_deref :: "nat \<Rightarrow> (PKG_CACHE, PKG_CACHE_ENTRY) sm" where
  "pkg_deref a = (\<lambda>s. case pkg_mem s a of None \<Rightarrow> (Inl Crash, s) | Some e \<Rightarrow> (Inr e, s))"

definition pkg_set_next :: "nat \<Rightarrow> nat \<Rightarrow> (PKG_CACHE, unit) sm" where
  "pkg_set_next a n = bindE (pkg_deref a) (\<lambda>e. modifyE (\<lambda>s. s\<lparr>pkg_mem := (pkg_mem s)(a \<mapsto> e\<lparr>next_entry := n\<rparr>)\<rparr>))"

definition pkg_free :: "nat \<Rightarrow> (PKG_CACHE, unit) sm" where
  "pkg_free a = bindE (pkg_deref a) (\<lambda>_. modifyE (\<lambda>s. s\<lparr>pkg_mem := (pkg_mem s)(a := None)\<rparr>))"

definition pkg_at :: "nat \<Rightarrow> (PKG_ENTRY_HEAD \<Rightarrow> PKG_ENTRY_HEAD) \<Rightarrow> PKG_CACHE \<Rightarrow> PKG_CACHE" where
  "pkg_at i f s = s\<lparr>pkg_hash := (pkg_hash s)[i := f (pkg_hash s ! i)]\<rparr>"

definition pkg_first :: "nat \<Rightarrow> PKG_CACHE \<Rightarrow> nat" where
  "pkg_first i s = first_pkg_entry (pkg_hash s ! i)"

definition set_pkg_first :: "nat \<Rightarrow> nat \<Rightarrow> (PKG_CACHE, unit) sm" where
  "set_pkg_first i a = modifyE (pkg_at i (first_pkg_entry_update (\<lambda>_. a)))"

subsection \<open>Lists of entries\<close>

definition pkg_slot :: "string \<Rightarrow> nat" where
  "pkg_slot name = unat (djb_hash name AND 7)"

text \<open>The loop of \<^verbatim>\<open>_lookup_pkg_list\<close>; it stops with \<open>now = 0\<close> when the name is not in the list.\<close>

partial_function (option) pkg_walk :: "pkg_store \<Rightarrow> string \<Rightarrow> nat \<Rightarrow> nat \<Rightarrow> nat \<Rightarrow> (failure + nat \<times> nat \<times> nat) option" where
  "pkg_walk h name prev_prev prev now =
     (if now = 0 then Some (Inr (prev_prev, prev, now))
      else case h now of None \<Rightarrow> Some (Inl Crash)
      | Some e \<Rightarrow> if name = pkgname e then Some (Inr (prev_prev, prev, now))
          else pkg_walk h name prev now (next_entry e))"

text \<open>The result says whether the name was hit, with \<^verbatim>\<open>ret_prev\<close> and \<^verbatim>\<open>ret_now\<close>.\<close>

definition lookup_pkg_list :: "nat \<Rightarrow> string \<Rightarrow> (PKG_CACHE, bool \<times> nat \<times> nat) sm" where
  "lookup_pkg_list i name = (\<lambda>s. case pkg_walk (pkg_mem s) name 0 0 (pkg_first i s) of
     None \<Rightarrow> (Inl Hang, s)
   | Some (Inl f) \<Rightarrow> (Inl f, s)
   | Some (Inr (prev_prev, prev, now)) \<Rightarrow>
       if now = 0 then (Inr (False, prev_prev, prev), s\<lparr>query_count := query_count s + 1\<rparr>)
       else (Inr (True, prev, now), s\<lparr>hit_count := hit_count s + 1, query_count := query_count s + 1\<rparr>))"

text \<open>The address of the new entry, \<open>0\<close> when there is no memory; \<^verbatim>\<open>snprintf\<close> keeps \<open>PKG_NAME_LEN - 1\<close> characters of the name.\<close>

definition new_pkg_entry :: "pkg_calloc \<Rightarrow> string \<Rightarrow> uid_t \<Rightarrow> (PKG_CACHE, nat) sm" where
  "new_pkg_entry calloc name uid = (\<lambda>s. case calloc (pkg_mem s) of None \<Rightarrow> (Inr 0, s)
     | Some a \<Rightarrow> (Inr a, s\<lparr>pkg_mem := (pkg_mem s)(a \<mapsto>
         \<lparr>pkgname = take (PKG_NAME_LEN - 1) name, pkguid = uid, next_entry = 0\<rparr>)\<rparr>))"

definition promote_pkg_entry :: "nat \<Rightarrow> nat \<Rightarrow> nat \<Rightarrow> (PKG_CACHE, unit) sm" where
  "promote_pkg_entry i prev now =
     (if now = 0 then returnE ()
      else if prev \<noteq> 0 then
        bindE (pkg_deref now) (\<lambda>e.
        bindE (pkg_set_next prev (next_entry e)) (\<lambda>_ s.
        bindE (pkg_set_next now (pkg_first i s)) (\<lambda>_. set_pkg_first i now) s))
      else (\<lambda>s. if pkg_first i s \<noteq> now
        then bindE (pkg_set_next now (pkg_first i s)) (\<lambda>_. set_pkg_first i now) s
        else (Inr (), s)))"

definition kick_entry :: "nat \<Rightarrow> nat \<Rightarrow> nat \<Rightarrow> (PKG_CACHE, unit) sm" where
  "kick_entry i prev now =
     (if now = 0 then returnE ()
      else bindE
        (if prev \<noteq> 0 then bindE (pkg_deref now) (\<lambda>e. pkg_set_next prev (next_entry e))
         else (\<lambda>s. if pkg_first i s = now
           then bindE (pkg_deref now) (\<lambda>e. set_pkg_first i (next_entry e)) s
           else (Inr (), s)))
        (\<lambda>_. pkg_free now))"

subsection \<open>Operations\<close>

definition init_pkg_cache :: "PKG_CACHE" where
  "init_pkg_cache = \<lparr>pkg_hash = replicate PKG_HASH_SIZE \<lparr>first_pkg_entry = 0, num_pkgs = 0\<rparr>,
     num_cache_pkgs = 0, hit_count = 0, query_count = 0, pkg_cache_lock = 1, pkg_mem = Map.empty\<rparr>"

definition pkg_wait :: "(PKG_CACHE, unit) sm" where
  "pkg_wait = sem_wait pkg_cache_lock pkg_cache_lock_update"

definition pkg_post :: "(PKG_CACHE, unit) sm" where
  "pkg_post = sem_post pkg_cache_lock_update"

definition lookup_cache_pkg :: "string \<Rightarrow> (PKG_CACHE, uid_t) sm" where
  "lookup_cache_pkg name = (let hash = pkg_slot name in
     bindE pkg_wait (\<lambda>_.
     bindE (lookup_pkg_list hash name) (\<lambda>(hit, prev, now).
       if hit then
         bindE (pkg_deref now) (\<lambda>e.
         bindE (promote_pkg_entry hash prev now) (\<lambda>_.
         bindE pkg_post (\<lambda>_. returnE (pkguid e))))
       else bindE pkg_post (\<lambda>_. failE (Errno ENOENT)))))"

definition pkg_count :: "nat \<Rightarrow> int \<Rightarrow> (PKG_CACHE, unit) sm" where
  "pkg_count i d = modifyE (\<lambda>s. (pkg_at i (num_pkgs_update (\<lambda>n. n + d)) s)\<lparr>num_cache_pkgs := num_cache_pkgs s + d\<rparr>)"

definition insert_cache_pkg :: "pkg_calloc \<Rightarrow> string \<Rightarrow> uid_t \<Rightarrow> (PKG_CACHE, unit) sm" where
  "insert_cache_pkg calloc name uid = (let hash = pkg_slot name in
     bindE pkg_wait (\<lambda>_.
     bindE (lookup_pkg_list hash name) (\<lambda>(hit, prev, now).
       if \<not> hit then
         bindE (new_pkg_entry calloc name uid) (\<lambda>entry.
           if entry = 0 then bindE pkg_post (\<lambda>_. failE (Errno ENOMEM))
           else bindE (\<lambda>s. if num_pkgs (pkg_hash s ! hash) = int MAX_PKG_ENTRIES
                 then kick_entry hash prev now s else pkg_count hash 1 s) (\<lambda>_.
             bindE (promote_pkg_entry hash 0 entry) (\<lambda>_. pkg_post)))
       else bindE (promote_pkg_entry hash prev now) (\<lambda>_. pkg_post))))"

definition remove_cache_pkg :: "string \<Rightarrow> (PKG_CACHE, unit) sm" where
  "remove_cache_pkg name = (let hash = pkg_slot name in
     bindE pkg_wait (\<lambda>_.
     bindE (lookup_pkg_list hash name) (\<lambda>(hit, prev, now).
       if hit then bindE (kick_entry hash prev now) (\<lambda>_. bindE (pkg_count hash (- 1)) (\<lambda>_. pkg_post))
       else bindE pkg_post (\<lambda>_. failE (Errno ENOENT)))))"

text \<open>The inner loop of \<^verbatim>\<open>destroy_pkg_cache\<close> over one bucket, and the loop over the buckets.  It does not take the lock.\<close>

partial_function (option) destroy_bucket :: "nat \<Rightarrow> nat \<Rightarrow> PKG_CACHE \<Rightarrow> ((failure + unit) \<times> PKG_CACHE) option" where
  "destroy_bucket i now s =
     (if now = 0 then Some (set_pkg_first i 0 s)
      else case bindE (pkg_deref now) (\<lambda>e. bindE (pkg_free now) (\<lambda>_. bindE (pkg_count i (- 1)) (\<lambda>_. returnE (next_entry e)))) s of
        (Inl f, s') \<Rightarrow> Some (Inl f, s')
      | (Inr next, s') \<Rightarrow> destroy_bucket i next s')"

fun destroy_buckets :: "nat list \<Rightarrow> (PKG_CACHE, unit) sm" where
  "destroy_buckets [] s = (Inr (), s)"
| "destroy_buckets (i # is) s = bindE (\<lambda>s. case destroy_bucket i (pkg_first i s) s of None \<Rightarrow> (Inl Hang, s) | Some r \<Rightarrow> r)
     (\<lambda>_. destroy_buckets is) s"

definition destroy_pkg_cache :: "(PKG_CACHE, unit) sm" where
  "destroy_pkg_cache = destroy_buckets [0..<PKG_HASH_SIZE]"

subsection \<open>Reading through the cache\<close>

text \<open>\<^verbatim>\<open>atoi\<close> of the C library, for numbers in range: white space, a sign, digits up to the first other character.\<close>

definition digit_of :: "char \<Rightarrow> int option" where
  "digit_of c = (let n = of_char c - 48 in if 0 \<le> n \<and> n \<le> 9 then Some n else None)"

fun atoi_digits :: "int \<Rightarrow> string \<Rightarrow> int" where
  "atoi_digits acc [] = acc"
| "atoi_digits acc (c # cs) = (case digit_of c of None \<Rightarrow> acc | Some d \<Rightarrow> atoi_digits (10 * acc + d) cs)"

definition is_c_space :: "char \<Rightarrow> bool" where
  "is_c_space c \<longleftrightarrow> c = CHR '' '' \<or> (9 \<le> (of_char c :: int) \<and> (of_char c :: int) \<le> 13)"

definition atoi :: "string \<Rightarrow> int" where
  "atoi cs = (case dropWhile is_c_space cs of [] \<Rightarrow> 0
     | c # ds \<Rightarrow> if c = CHR ''-'' then - atoi_digits 0 ds else if c = CHR ''+'' then atoi_digits 0 ds else atoi_digits 0 (c # ds))"

text \<open>
  The database is a service behind SQLite: whether its file is there, whether it can be opened, and for a statement the
  values in the first column of the rows (\<open>None\<close> for an SQL null), or \<open>None\<close> for a failing statement.
\<close>

record pkg_db =
  db_exists :: bool
  db_opens :: bool
  db_rows :: "string \<Rightarrow> string option list option"

text \<open>
  SQLite calls \<^verbatim>\<open>_lookup_pkg_cb\<close> for one row after the other until it returns a non-zero value, which makes the statement fail.  The callback
  does not check the buffer it allocates for the value: \<open>malloc n\<close> says whether \<open>n\<close> bytes are there.
\<close>

fun lookup_pkg_cb :: "(nat \<Rightarrow> bool) \<Rightarrow> string option list \<Rightarrow> string option \<Rightarrow> failure + bool \<times> string option" where
  "lookup_pkg_cb malloc [] data = Inr (True, data)"
| "lookup_pkg_cb malloc (None # rows) data = Inr (False, data)"
| "lookup_pkg_cb malloc (Some v # rows) data =
     (if malloc (length v + 1) then lookup_pkg_cb malloc rows (Some v) else Inl Crash)"

definition pkg_sql :: "string \<Rightarrow> string" where
  "pkg_sql name = take 499 (''SELECT uid from uid WHERE package_name='' @ [CHR 0x27] @ name @ [CHR 0x27])"

definition query_pkg_db :: "(nat \<Rightarrow> bool) \<Rightarrow> pkg_db \<Rightarrow> string \<Rightarrow> failure + uid_t option" where
  "query_pkg_db malloc db name =
     (if \<not> db_exists db then Inr None
      else if \<not> db_opens db then Inr None
      else case db_rows db (pkg_sql name) of None \<Rightarrow> Inr None
      | Some rows \<Rightarrow> (case lookup_pkg_cb malloc rows None of Inl f \<Rightarrow> Inl f
          | Inr (ok, data) \<Rightarrow> Inr (if \<not> ok then None
              else Some (case data of None \<Rightarrow> 0 | Some v \<Rightarrow> word_of_int (atoi v)))))"

text \<open>The return code of \<^verbatim>\<open>lookup_pkg\<close> and what it leaves in \<^verbatim>\<open>*uid\<close>.\<close>

definition lookup_pkg :: "(nat \<Rightarrow> bool) \<Rightarrow> pkg_calloc \<Rightarrow> pkg_db \<Rightarrow> string \<Rightarrow> (PKG_CACHE, int \<times> uid_t) sm" where
  "lookup_pkg malloc calloc db name = (\<lambda>s. case lookup_cache_pkg name s of
     (Inr uid, s1) \<Rightarrow> (Inr (0, uid), s1)
   | (Inl (Errno e), s1) \<Rightarrow>
       if e \<noteq> ENOENT then (Inr (- 1, 0), s1)
       else (case query_pkg_db malloc db name of Inl f \<Rightarrow> (Inl f, s1)
         | Inr None \<Rightarrow> (Inr (- 1, 0), s1)
         | Inr (Some uid) \<Rightarrow> (case insert_cache_pkg calloc name uid s1 of
               (Inr _, s2) \<Rightarrow> (Inr (0, uid), s2)
             | (Inl (Errno e), s2) \<Rightarrow> (Inr (- 1, uid), s2)
             | (Inl f, s2) \<Rightarrow> (Inl f, s2)))
   | (Inl f, s1) \<Rightarrow> (Inl f, s1))"

end
