(* ===== verification/Pkg_Cache_Run.thy ===== *)
theory Pkg_Cache_Run
  imports Pkg_Cache Service
begin

text \<open>
  The package cache against tables of lists: \<open>pkg_path\<close> are the lists in the store, \<open>pkg_rel\<close> relates a cache to the addresses of
  its buckets.  Each operation is shown to act on one bucket as moving, adding or removing an element of a list.
\<close>

subsection \<open>Lists in the store\<close>

fun pkg_path :: "pkg_store \<Rightarrow> nat \<Rightarrow> nat list \<Rightarrow> nat \<Rightarrow> bool" where
  "pkg_path h p [] q \<longleftrightarrow> p = q"
| "pkg_path h p (a # as) q \<longleftrightarrow> p = a \<and> a \<noteq> 0 \<and> (case h a of None \<Rightarrow> False | Some e \<Rightarrow> pkg_path h (next_entry e) as q)"

lemma pkg_path_append: "pkg_path h p (as @ bs) q \<longleftrightarrow> (\<exists>r. pkg_path h p as r \<and> pkg_path h r bs q)"
  by (induction as arbitrary: p) (auto split: option.splits)

lemma pkg_path_cong: "(\<And>a. a \<in> set as \<Longrightarrow> h' a = h a) \<Longrightarrow> pkg_path h' p as q = pkg_path h p as q"
  by (induction as arbitrary: p) (auto split: option.splits)

lemma pkg_path_upd [simp]: "a \<notin> set as \<Longrightarrow> pkg_path (h(a := v)) p as q = pkg_path h p as q"
  by (rule pkg_path_cong) auto

lemma pkg_path_alloc: "pkg_path h p as q \<Longrightarrow> a \<in> set as \<Longrightarrow> a \<noteq> 0 \<and> h a \<noteq> None"
  by (induction as arbitrary: p) (auto split: option.splits)

lemma pkg_path_retarget:
  assumes "pkg_path h p as q" and "distinct as" and "as = bs @ [a]" and "h a = Some e"
  shows "pkg_path (h(a \<mapsto> e\<lparr>next_entry := q'\<rparr>)) p as q'"
  using assms by (auto simp: pkg_path_append)

text \<open>Name and id of the entry at an address.\<close>

definition pkg_item :: "pkg_store \<Rightarrow> nat \<Rightarrow> string \<times> uid_t" where
  "pkg_item h a = (case h a of None \<Rightarrow> ([], 0) | Some e \<Rightarrow> (pkgname e, pkguid e))"

lemma pkg_item_Some: "h a = Some e \<Longrightarrow> pkg_item h a = (pkgname e, pkguid e)"
  by (simp add: pkg_item_def)

lemma pkg_item_upd:
  "pkg_item (h(a \<mapsto> e)) b = (if b = a then (pkgname e, pkguid e) else pkg_item h b)"
  "b \<noteq> a \<Longrightarrow> pkg_item (h(a := None)) b = pkg_item h b"
  by (simp_all add: pkg_item_def)

lemma pkg_item_relink: "h a = Some e \<Longrightarrow> pkg_item (h(a \<mapsto> e\<lparr>next_entry := n\<rparr>)) = pkg_item h"
  by (rule ext) (simp add: pkg_item_def)

text \<open>The walk to a name: the node found with its predecessor, or the last two nodes.\<close>

lemma pkg_walk_hit:
  assumes "pkg_path h p (as @ a # bs) q" and "\<forall>b \<in> set as. fst (pkg_item h b) \<noteq> name" and "fst (pkg_item h a) = name"
  shows "pkg_walk h name pp pr p = Some (Inr (last_or pp (butlast (pr # as)), last_or pr as, a))"
  using assms
proof (induction as arbitrary: pp pr p)
  case Nil
  then show ?case by (subst pkg_walk.simps) (auto simp: pkg_item_def split: option.splits)
next
  case (Cons b as)
  then obtain e where e: "h b = Some e" "p = b" "b \<noteq> 0" "pkg_path h (next_entry e) (as @ a # bs) q" by (auto split: option.splits)
  have "pkg_walk h name pp pr p = pkg_walk h name pr b (next_entry e)"
    using e Cons.prems(2) by (subst pkg_walk.simps) (auto simp: pkg_item_def)
  also have "\<dots> = Some (Inr (last_or pr (butlast (b # as)), last_or b as, a))"
    using Cons.IH [OF e(4)] Cons.prems(2,3) by simp
  finally show ?case by (simp add: last_or_def)
qed

lemma pkg_walk_miss:
  assumes "pkg_path h p as 0" and "\<forall>b \<in> set as. fst (pkg_item h b) \<noteq> name"
  shows "pkg_walk h name pp pr p = Some (Inr (last_or pp (butlast (pr # as)), last_or pr as, 0))"
  using assms
proof (induction as arbitrary: pp pr p)
  case Nil
  then show ?case by (subst pkg_walk.simps) auto
next
  case (Cons b as)
  then obtain e where e: "h b = Some e" "p = b" "b \<noteq> 0" "pkg_path h (next_entry e) as 0" by (auto split: option.splits)
  have "pkg_walk h name pp pr p = pkg_walk h name pr b (next_entry e)"
    using e Cons.prems(2) by (subst pkg_walk.simps) (auto simp: pkg_item_def)
  also have "\<dots> = Some (Inr (last_or pr (butlast (b # as)), last_or b as, 0))"
    using Cons.IH [OF e(4)] Cons.prems(2) by simp
  finally show ?case by (simp add: last_or_def)
qed

subsection \<open>The state of the cache\<close>

text \<open>\<open>A i\<close> are the addresses in bucket \<open>i\<close>; no entry is lost and none is in two places.\<close>

definition pkg_rel :: "(nat \<Rightarrow> nat list) \<Rightarrow> PKG_CACHE \<Rightarrow> bool" where
  "pkg_rel A s \<longleftrightarrow> length (pkg_hash s) = PKG_HASH_SIZE \<and>
     (\<forall>i < PKG_HASH_SIZE. pkg_path (pkg_mem s) (pkg_first i s) (A i) 0 \<and> distinct (A i) \<and> length (A i) \<le> MAX_PKG_ENTRIES \<and>
        num_pkgs (pkg_hash s ! i) = int (length (A i))) \<and>
     (\<forall>i < PKG_HASH_SIZE. \<forall>j < PKG_HASH_SIZE. i \<noteq> j \<longrightarrow> set (A i) \<inter> set (A j) = {}) \<and>
     dom (pkg_mem s) = (\<Union>i < PKG_HASH_SIZE. set (A i)) \<and>
     num_cache_pkgs s = (\<Sum>i < PKG_HASH_SIZE. int (length (A i)))"

definition pkg_table :: "(nat \<Rightarrow> nat list) \<Rightarrow> PKG_CACHE \<Rightarrow> (string \<times> uid_t) list list" where
  "pkg_table A s = map (\<lambda>i. map (pkg_item (pkg_mem s)) (A i)) [0..<PKG_HASH_SIZE]"

lemma pkg_slot_less [simp]: "pkg_slot name < PKG_HASH_SIZE"
proof -
  have "djb_hash name AND 7 < (8 :: 32 word)" by (rule order.strict_trans1 [OF word_and_le1]) simp
  then have "unat (djb_hash name AND 7) < unat (8 :: 32 word)" by (simp only: word_less_nat_alt)
  then show ?thesis by (simp add: pkg_slot_def)
qed

lemma pkg_relD:
  assumes "pkg_rel A s" and "i < PKG_HASH_SIZE"
  shows "length (pkg_hash s) = PKG_HASH_SIZE" "pkg_path (pkg_mem s) (pkg_first i s) (A i) 0" "distinct (A i)" "length (A i) \<le> MAX_PKG_ENTRIES"
    "num_pkgs (pkg_hash s ! i) = int (length (A i))" "0 \<notin> set (A i)"
proof -
  show "pkg_path (pkg_mem s) (pkg_first i s) (A i) 0" using assms by (simp add: pkg_rel_def)
  then show "0 \<notin> set (A i)" using pkg_path_alloc by blast
qed (use assms in \<open>simp_all add: pkg_rel_def\<close>)

lemma pkg_rel_dom: "pkg_rel A s \<Longrightarrow> i < PKG_HASH_SIZE \<Longrightarrow> a \<in> set (A i) \<Longrightarrow> \<exists>e. pkg_mem s a = Some e"
  using pkg_relD(2) pkg_path_alloc by blast

lemma pkg_rel_counters [simp]:
  "pkg_rel A (s\<lparr>hit_count := n\<rparr>) = pkg_rel A s" "pkg_rel A (s\<lparr>query_count := n\<rparr>) = pkg_rel A s" "pkg_rel A (s\<lparr>pkg_cache_lock := l\<rparr>) = pkg_rel A s"
  "pkg_first i (s\<lparr>hit_count := n\<rparr>) = pkg_first i s" "pkg_first i (s\<lparr>query_count := n\<rparr>) = pkg_first i s" "pkg_first i (s\<lparr>pkg_cache_lock := l\<rparr>) = pkg_first i s"
  "pkg_first i (s\<lparr>pkg_mem := h\<rparr>) = pkg_first i s"
  by (simp_all add: pkg_rel_def pkg_first_def)

lemma sum_fun_upd: "i < (n :: nat) \<Longrightarrow> (\<Sum>j < n. f ((A(i := x)) j)) = (\<Sum>j < n. f (A j)) - f (A i) + (f x :: int)"
  by (simp add: sum.remove [of "{..<n}" i] fun_upd_def)

text \<open>What a change of one bucket has to respect.\<close>

lemma pkg_rel_bucket:
  assumes rel: "pkg_rel A s" and i: "i < PKG_HASH_SIZE"
    and list: "pkg_path (pkg_mem s') f as 0" "distinct as" "length as \<le> MAX_PKG_ENTRIES"
    and frame: "\<And>a. a \<notin> set (A i) \<Longrightarrow> a \<notin> set as \<Longrightarrow> pkg_mem s' a = pkg_mem s a"
    and gone: "\<And>a. a \<in> set (A i) \<Longrightarrow> a \<notin> set as \<Longrightarrow> pkg_mem s' a = None"
    and new: "\<And>a. a \<in> set as \<Longrightarrow> a \<notin> set (A i) \<Longrightarrow> pkg_mem s a = None"
    and heads: "pkg_hash s' = (pkg_hash s)[i := b]" "first_pkg_entry b = f" "num_pkgs b = int (length as)"
    and counted: "num_cache_pkgs s' = num_cache_pkgs s + int (length as) - int (length (A i))"
  shows "pkg_rel (A(i := as)) s' \<and> pkg_table (A(i := as)) s' = (pkg_table A s)[i := map (pkg_item (pkg_mem s')) as]"
proof
  have other: "a \<notin> set (A i) \<and> a \<notin> set as" if "j < PKG_HASH_SIZE" "j \<noteq> i" "a \<in> set (A j)" for a j
  proof -
    have "set (A j) \<inter> set (A i) = {}" using that(1,2) rel i by (simp add: pkg_rel_def)
    then have "a \<notin> set (A i)" using that(3) by blast
    then show ?thesis using new [of a] pkg_rel_dom [OF rel that(1,3)] by auto
  qed
  have "pkg_path (pkg_mem s') p (A j) q = pkg_path (pkg_mem s) p (A j) q" if "j < PKG_HASH_SIZE" "j \<noteq> i" for j p q
    by (rule pkg_path_cong) (use frame other [OF that] in blast)
  then have 1: "\<forall>j < PKG_HASH_SIZE. pkg_path (pkg_mem s') (pkg_first j s') ((A(i := as)) j) 0 \<and> distinct ((A(i := as)) j) \<and>
      length ((A(i := as)) j) \<le> MAX_PKG_ENTRIES \<and> num_pkgs (pkg_hash s' ! j) = int (length ((A(i := as)) j))"
    using rel list i heads by (auto simp: pkg_rel_def pkg_first_def nth_list_update)
  have 2: "\<forall>j < PKG_HASH_SIZE. \<forall>k < PKG_HASH_SIZE. j \<noteq> k \<longrightarrow> set ((A(i := as)) j) \<inter> set ((A(i := as)) k) = {}"
    using rel other by (auto simp: pkg_rel_def)
  have "a \<in> dom (pkg_mem s') \<longleftrightarrow> (\<exists>j < PKG_HASH_SIZE. a \<in> set ((A(i := as)) j))" for a
  proof (cases "a \<in> set (A i) \<or> a \<in> set as")
    case True
    then show ?thesis
    proof (cases "a \<in> set as")
      case True
      then show ?thesis using pkg_path_alloc [OF list(1) True] i by (auto simp: dom_def intro!: exI [of _ i])
    next
      case F: False
      then show ?thesis using gone [of a] True other by (auto simp: dom_def split: if_splits)
    qed
  next
    case False
    then have "a \<in> dom (pkg_mem s') \<longleftrightarrow> a \<in> dom (pkg_mem s)" using frame by (simp add: dom_def)
    then show ?thesis using False rel by (auto simp: pkg_rel_def split: if_splits)
  qed
  then have 3: "dom (pkg_mem s') = (\<Union>j < PKG_HASH_SIZE. set ((A(i := as)) j))" by blast
  show "pkg_rel (A(i := as)) s'"
    using rel i 1 2 3 heads counted sum_fun_upd [OF i, of "\<lambda>xs. int (length xs)" A as] unfolding pkg_rel_def by (simp del: fun_upd_apply)
  have "map (pkg_item (pkg_mem s')) (A j) = map (pkg_item (pkg_mem s)) (A j)" if "j < PKG_HASH_SIZE" "j \<noteq> i" for j
    using frame other [OF that] by (auto simp: pkg_item_def)
  then show "pkg_table (A(i := as)) s' = (pkg_table A s)[i := map (pkg_item (pkg_mem s')) as]"
    using i by (intro nth_equalityI) (auto simp: pkg_table_def nth_list_update simp del: upt_conv_Cons upt_rec_numeral)
qed


subsection \<open>The list operations on a bucket\<close>

lemma pkg_deref_Some [simp]: "pkg_mem s a = Some e \<Longrightarrow> pkg_deref a s = (Inr e, s)"
  by (simp add: pkg_deref_def)

lemma pkg_set_next_Some [simp]: "pkg_mem s a = Some e \<Longrightarrow> pkg_set_next a n s = (Inr (), s\<lparr>pkg_mem := (pkg_mem s)(a \<mapsto> e\<lparr>next_entry := n\<rparr>)\<rparr>)"
  by (simp add: pkg_set_next_def)

lemma pkg_free_Some [simp]: "pkg_mem s a = Some e \<Longrightarrow> pkg_free a s = (Inr (), s\<lparr>pkg_mem := (pkg_mem s)(a := None)\<rparr>)"
  by (simp add: pkg_free_def)

text \<open>The list with the node at the end of \<open>as\<close> relinked past the node \<open>a\<close>.\<close>

lemma pkg_path_unlink:
  assumes "pkg_path h p (as @ a # bs) q" and "distinct (as @ a # bs)" and "as \<noteq> []" and "h a = Some e" and "h (last as) = Some e'"
  shows "pkg_path (h(last as \<mapsto> e'\<lparr>next_entry := next_entry e\<rparr>)) p (as @ bs) q"
proof -
  obtain as' b where as: "as = as' @ [b]" using assms(3) by (cases as rule: rev_cases) auto
  then show ?thesis using assms by (auto simp: pkg_path_append)
qed

lemma promote_front:
  assumes "a \<noteq> 0" and "pkg_mem s a = Some e" and "pkg_first i s \<noteq> a"
  shows "promote_pkg_entry i 0 a s = (Inr (), (pkg_at i (first_pkg_entry_update (\<lambda>_. a)) s)\<lparr>pkg_mem := (pkg_mem s)(a \<mapsto> e\<lparr>next_entry := pkg_first i s\<rparr>)\<rparr>)"
  using assms by (simp add: promote_pkg_entry_def set_pkg_first_def pkg_at_def)

lemma promote_hit:
  assumes rel: "pkg_rel A s" and i: "i < PKG_HASH_SIZE" and Ai: "A i = as @ a # bs"
  obtains s' where "promote_pkg_entry i (last_or 0 as) a s = (Inr (), s')" "pkg_rel (A(i := a # as @ bs)) s'" "pkg_cache_lock s' = pkg_cache_lock s"
    "pkg_item (pkg_mem s') = pkg_item (pkg_mem s)" "pkg_table (A(i := a # as @ bs)) s' = (pkg_table A s)[i := map (pkg_item (pkg_mem s)) (a # as @ bs)]"
proof (cases "as = []")
  case True
  have r: "pkg_first i s = a" "a \<noteq> 0" using pkg_relD(2,6) [OF rel i] Ai True by auto
  have "A(i := a # as @ bs) = A" "(pkg_table A s)[i := map (pkg_item (pkg_mem s)) (a # as @ bs)] = pkg_table A s"
    using Ai True i by (auto simp: pkg_table_def list_update_same_conv simp del: upt_conv_Cons upt_rec_numeral)
  then show ?thesis using r True rel by (intro that [of s]) (simp_all add: promote_pkg_entry_def)
next
  case False
  obtain e e' where e: "pkg_mem s a = Some e" "pkg_mem s (last as) = Some e'"
    using pkg_rel_dom [OF rel i] Ai False by (metis in_set_conv_decomp last_in_set Un_iff set_append)
  note r = pkg_relD [OF rel i, unfolded Ai]
  have l: "last as \<in> set as" using False by simp
  have ne: "a \<noteq> 0" "last as \<noteq> 0" "last as \<noteq> a" "last_or 0 as = last as" "a \<notin> set as"
    using r(3,6) l by (auto simp: last_or_def intro: gr0I)
  let ?h1 = "(pkg_mem s)(last as \<mapsto> e'\<lparr>next_entry := next_entry e\<rparr>)"
  let ?h = "?h1(a \<mapsto> e\<lparr>next_entry := pkg_first i s\<rparr>)"
  let ?s = "(pkg_at i (first_pkg_entry_update (\<lambda>_. a)) s)\<lparr>pkg_mem := ?h\<rparr>"
  have run: "promote_pkg_entry i (last_or 0 as) a s = (Inr (), ?s)"
    using ne e False by (simp add: promote_pkg_entry_def set_pkg_first_def pkg_at_def)
  have p: "pkg_path ?h a (a # as @ bs) 0"
    using pkg_path_unlink [OF r(2,3) False e] ne r(3) by simp
  have item: "pkg_item ?h = pkg_item (pkg_mem s)"
    using e ne(3) by (subst pkg_item_relink; simp add: pkg_item_relink)
  have "pkg_rel (A(i := a # as @ bs)) ?s \<and> pkg_table (A(i := a # as @ bs)) ?s = (pkg_table A s)[i := map (pkg_item (pkg_mem ?s)) (a # as @ bs)]"
    by (rule pkg_rel_bucket [OF rel i, of ?s a _ "(pkg_hash s ! i)\<lparr>first_pkg_entry := a\<rparr>"]) (use p r Ai False in \<open>auto simp: pkg_at_def\<close>)
  then show ?thesis using run item by (intro that [of ?s]) (simp_all add: pkg_at_def)
qed


lemma kick_run:
  assumes p: "pkg_path (pkg_mem s) (pkg_first i s) (as @ a # bs) 0" and d: "distinct (as @ a # bs)" and i: "i < length (pkg_hash s)"
  obtains h f where "kick_entry i (last_or 0 as) a s = (Inr (), (pkg_at i (first_pkg_entry_update (\<lambda>_. f)) s)\<lparr>pkg_mem := h\<rparr>)"
    "pkg_path h f (as @ bs) 0" "h a = None" "\<forall>b. b \<noteq> a \<longrightarrow> pkg_item h b = pkg_item (pkg_mem s) b"
    "\<forall>b. b \<notin> set (as @ [a]) \<longrightarrow> h b = pkg_mem s b"
proof (cases "as = []")
  case True
  obtain e where e: "pkg_mem s a = Some e" "pkg_path (pkg_mem s) (next_entry e) bs 0" "pkg_first i s = a" "a \<noteq> 0"
    using p True by (auto split: option.splits)
  have "kick_entry i (last_or 0 as) a s = (Inr (), (pkg_at i (first_pkg_entry_update (\<lambda>_. next_entry e)) s)\<lparr>pkg_mem := (pkg_mem s)(a := None)\<rparr>)"
    using e True by (simp add: kick_entry_def set_pkg_first_def pkg_at_def)
  moreover have "pkg_path ((pkg_mem s)(a := None)) (next_entry e) (as @ bs) 0" using e(2) d True by simp
  ultimately show ?thesis using that [of "(pkg_mem s)(a := None)" "next_entry e"] True by (simp add: pkg_item_upd)
next
  case False
  have al: "b \<noteq> 0 \<and> pkg_mem s b \<noteq> None" if "b \<in> set (as @ a # bs)" for b using pkg_path_alloc [OF p that] .
  have l: "last as \<in> set as" using False by simp
  obtain e e' where e: "pkg_mem s a = Some e" "pkg_mem s (last as) = Some e'" using al [of a] al [of "last as"] l by auto
  have ne: "a \<noteq> 0" "last as \<noteq> 0" "last as \<noteq> a" "last_or 0 as = last as" using al [of a] al [of "last as"] l d by (auto simp: last_or_def)
  let ?h1 = "(pkg_mem s)(last as \<mapsto> e'\<lparr>next_entry := next_entry e\<rparr>)"
  have "kick_entry i (last_or 0 as) a s = (Inr (), (pkg_at i (first_pkg_entry_update (\<lambda>_. pkg_first i s)) s)\<lparr>pkg_mem := ?h1(a := None)\<rparr>)"
    using e ne i by (simp add: kick_entry_def pkg_at_def pkg_first_def)
  moreover have "pkg_path (?h1(a := None)) (pkg_first i s) (as @ bs) 0" using pkg_path_unlink [OF p d False e] d by simp
  moreover have "pkg_item (?h1(a := None)) b = pkg_item (pkg_mem s) b" if "b \<noteq> a" for b
    using pkg_item_relink [of "pkg_mem s", OF e(2)] by (simp only: pkg_item_upd(2) [OF that])
  ultimately show ?thesis using that [of "?h1(a := None)" "pkg_first i s"] l by auto
qed

lemma remove_hit:
  assumes rel: "pkg_rel A s" and i: "i < PKG_HASH_SIZE" and Ai: "A i = as @ a # bs"
  obtains s' where "bindE (kick_entry i (last_or 0 as) a) (\<lambda>_. pkg_count i (- 1)) s = (Inr (), s')" "pkg_rel (A(i := as @ bs)) s'"
    "pkg_cache_lock s' = pkg_cache_lock s" "pkg_table (A(i := as @ bs)) s' = (pkg_table A s)[i := map (pkg_item (pkg_mem s)) (as @ bs)]"
proof -
  note r = pkg_relD [OF rel i, unfolded Ai]
  obtain h f where k: "kick_entry i (last_or 0 as) a s = (Inr (), (pkg_at i (first_pkg_entry_update (\<lambda>_. f)) s)\<lparr>pkg_mem := h\<rparr>)"
    "pkg_path h f (as @ bs) 0" "h a = None" "\<forall>b. b \<noteq> a \<longrightarrow> pkg_item h b = pkg_item (pkg_mem s) b" "\<forall>b. b \<notin> set (as @ [a]) \<longrightarrow> h b = pkg_mem s b"
    using kick_run [OF r(2,3), where thesis = thesis] r(1) i by simp
  let ?b = "num_pkgs_update (\<lambda>n. n - 1) ((pkg_hash s ! i)\<lparr>first_pkg_entry := f\<rparr>)"
  let ?s = "s\<lparr>pkg_mem := h, pkg_hash := (pkg_hash s)[i := ?b], num_cache_pkgs := num_cache_pkgs s - 1\<rparr>"
  have run: "bindE (kick_entry i (last_or 0 as) a) (\<lambda>_. pkg_count i (- 1)) s = (Inr (), ?s)"
    using k(1) r(1) i by (simp add: pkg_count_def pkg_at_def)
  have b: "pkg_rel (A(i := as @ bs)) ?s \<and> pkg_table (A(i := as @ bs)) ?s = (pkg_table A s)[i := map (pkg_item (pkg_mem ?s)) (as @ bs)]"
    by (rule pkg_rel_bucket [OF rel i, of ?s f _ ?b]) (use k r Ai in auto)
  have m: "map (pkg_item (pkg_mem ?s)) (as @ bs) = map (pkg_item (pkg_mem s)) (as @ bs)" using k(4) r(3) by auto
  show ?thesis using run b [unfolded m] by (intro that [of ?s]) simp_all
qed


lemma new_entry_run:
  assumes "calloc (pkg_mem s) = Some a"
  shows "new_pkg_entry calloc name uid s = (Inr a, s\<lparr>pkg_mem := (pkg_mem s)(a \<mapsto> \<lparr>pkgname = take (PKG_NAME_LEN - 1) name, pkguid = uid, next_entry = 0\<rparr>)\<rparr>)"
  using assms by (simp add: new_pkg_entry_def)

definition make_room :: "nat \<Rightarrow> nat \<Rightarrow> nat \<Rightarrow> (PKG_CACHE, unit) sm" where
  "make_room i prev now = (\<lambda>s. if num_pkgs (pkg_hash s ! i) = int MAX_PKG_ENTRIES then kick_entry i prev now s else pkg_count i 1 s)"

text \<open>Making room for an entry that is already allocated: the last one goes when the bucket is full.\<close>

lemma make_room_run:
  assumes rel: "pkg_rel A s" and i: "i < PKG_HASH_SIZE" and a: "pkg_mem s a = None"
  obtains h b where
    "make_room i (last_or 0 (butlast (0 # A i))) (last_or 0 (A i)) (s\<lparr>pkg_mem := (pkg_mem s)(a \<mapsto> e)\<rparr>) =
      (Inr (), s\<lparr>pkg_mem := h, pkg_hash := (pkg_hash s)[i := b], num_cache_pkgs := num_cache_pkgs s + 1 + int (length (take 7 (A i))) - int (length (A i))\<rparr>)"
    "num_pkgs b = 1 + int (length (take 7 (A i)))" "pkg_path h (first_pkg_entry b) (take 7 (A i)) 0" "h a = Some e"
    "\<forall>b. b \<noteq> a \<longrightarrow> b \<notin> set (A i) - set (take 7 (A i)) \<longrightarrow> pkg_item h b = pkg_item (pkg_mem s) b"
    "\<forall>b. b \<noteq> a \<longrightarrow> b \<notin> set (A i) \<longrightarrow> h b = pkg_mem s b" "\<forall>b \<in> set (A i) - set (take 7 (A i)). h b = None"
proof -
  note r = pkg_relD [OF rel i]
  have na: "a \<notin> set (A i)" using pkg_rel_dom [OF rel i, of a] a by auto
  let ?s = "s\<lparr>pkg_mem := (pkg_mem s)(a \<mapsto> e)\<rparr>"
  have p: "pkg_path (pkg_mem ?s) (pkg_first i ?s) (A i) 0" using r(2) na by simp
  show ?thesis
  proof (cases "length (A i) = 8")
    case True
    obtain as l where Ai: "A i = as @ [l]" "length as = 7" using True by (cases "A i" rule: rev_cases) auto
    obtain h f where k: "kick_entry i (last_or 0 as) l ?s = (Inr (), (pkg_at i (first_pkg_entry_update (\<lambda>_. f)) ?s)\<lparr>pkg_mem := h\<rparr>)"
      "pkg_path h f as 0" "h l = None" "\<forall>b. b \<noteq> l \<longrightarrow> pkg_item h b = pkg_item (pkg_mem ?s) b" "\<forall>b. b \<notin> set (as @ [l]) \<longrightarrow> h b = pkg_mem ?s b"
      using kick_run [of ?s i as l "[]", where thesis = thesis] p r(1,3) i Ai by auto
    show ?thesis
      by (rule that [of "(pkg_hash s ! i)\<lparr>first_pkg_entry := f\<rparr>" h]) (use k Ai r na in \<open>auto simp: make_room_def pkg_at_def last_or_def pkg_item_upd\<close>)
  next
    case False
    then have t: "take 7 (A i) = A i" using r(4) by simp
    show ?thesis
      by (rule that [of "num_pkgs_update (\<lambda>n. n + 1) (pkg_hash s ! i)" "(pkg_mem s)(a \<mapsto> e)"])
        (use t p r na False in \<open>auto simp: make_room_def pkg_count_def pkg_at_def pkg_first_def pkg_item_upd\<close>)
  qed
qed


lemma insert_new:
  assumes rel: "pkg_rel A s" and i: "i < PKG_HASH_SIZE" and a: "a \<noteq> 0" "pkg_mem s a = None"
  obtains s' where
    "bindE (make_room i (last_or 0 (butlast (0 # A i))) (last_or 0 (A i))) (\<lambda>_. promote_pkg_entry i 0 a) (s\<lparr>pkg_mem := (pkg_mem s)(a \<mapsto> e)\<rparr>) = (Inr (), s')"
    "pkg_rel (A(i := a # take 7 (A i))) s'" "pkg_cache_lock s' = pkg_cache_lock s"
    "pkg_table (A(i := a # take 7 (A i))) s' = (pkg_table A s)[i := (pkgname e, pkguid e) # map (pkg_item (pkg_mem s)) (take 7 (A i))]"
proof -
  note r = pkg_relD [OF rel i]
  have na: "a \<notin> set (A i)" using pkg_rel_dom [OF rel i, of a] a by auto
  then have nt: "a \<notin> set (take 7 (A i))" by (meson in_set_takeD)
  obtain h b where m: "make_room i (last_or 0 (butlast (0 # A i))) (last_or 0 (A i)) (s\<lparr>pkg_mem := (pkg_mem s)(a \<mapsto> e)\<rparr>) =
      (Inr (), s\<lparr>pkg_mem := h, pkg_hash := (pkg_hash s)[i := b], num_cache_pkgs := num_cache_pkgs s + 1 + int (length (take 7 (A i))) - int (length (A i))\<rparr>)"
    "num_pkgs b = 1 + int (length (take 7 (A i)))" "pkg_path h (first_pkg_entry b) (take 7 (A i)) 0" "h a = Some e"
    "\<forall>b. b \<noteq> a \<longrightarrow> b \<notin> set (A i) - set (take 7 (A i)) \<longrightarrow> pkg_item h b = pkg_item (pkg_mem s) b"
    "\<forall>b. b \<noteq> a \<longrightarrow> b \<notin> set (A i) \<longrightarrow> h b = pkg_mem s b" "\<forall>b \<in> set (A i) - set (take 7 (A i)). h b = None"
    using make_room_run [OF rel i a(2), where thesis = thesis] by blast
  let ?n = "num_cache_pkgs s + 1 + int (length (take 7 (A i))) - int (length (A i))" and ?h = "h(a \<mapsto> e\<lparr>next_entry := first_pkg_entry b\<rparr>)"
  let ?b = "b\<lparr>first_pkg_entry := a\<rparr>"
  let ?s = "s\<lparr>pkg_mem := ?h, pkg_hash := (pkg_hash s)[i := ?b], num_cache_pkgs := ?n\<rparr>"
  have f: "first_pkg_entry b \<noteq> a" using m(3) nt a(1) by (cases "take 7 (A i)") auto
  have run: "bindE (make_room i (last_or 0 (butlast (0 # A i))) (last_or 0 (A i))) (\<lambda>_. promote_pkg_entry i 0 a) (s\<lparr>pkg_mem := (pkg_mem s)(a \<mapsto> e)\<rparr>) = (Inr (), ?s)"
    using m(1,4) f a(1) r(1) i by (simp add: promote_front pkg_first_def pkg_at_def)
  have b: "pkg_rel (A(i := a # take 7 (A i))) ?s \<and> pkg_table (A(i := a # take 7 (A i))) ?s = (pkg_table A s)[i := map (pkg_item (pkg_mem ?s)) (a # take 7 (A i))]"
    by (rule pkg_rel_bucket [OF rel i, of ?s a _ ?b]) (use m r nt na a in \<open>auto simp: pkg_path_append dest: in_set_takeD\<close>)
  have "pkg_item (pkg_mem ?s) x = pkg_item (pkg_mem s) x" if "x \<in> set (take 7 (A i))" for x
    using m(5) that nt by (auto simp: pkg_item_upd)
  then have i: "map (pkg_item (pkg_mem ?s)) (a # take 7 (A i)) = (pkgname e, pkguid e) # map (pkg_item (pkg_mem s)) (take 7 (A i))"
    by (simp add: pkg_item_upd)
  show ?thesis using run b [unfolded i] by (intro that [of ?s]) (simp_all del: fun_upd_apply)
qed

end
