(* ===== verification/Pkg_Cache_Serve.thy ===== *)
theory Pkg_Cache_Serve
  imports Pkg_Cache_Run
begin

text \<open>
  What the package cache promises: \<open>mru_spec\<close> are tables of lists of bounded length, with the most recently used package in front of its list, and the calls of
  \<^verbatim>\<open>pkg_cache.c\<close> answer every sequence of requests as such a table (the locale \<open>service\<close>).  The locale is interpreted again for \<^verbatim>\<open>lookup_pkg\<close>, which fills the cache from a database:
  while the database does not change, the cache cannot be seen in the answers.
\<close>

subsection \<open>Requests and their specification\<close>

datatype pkg_req = Lookup_Pkg string | Insert_Pkg pkg_calloc string uid_t | Remove_Pkg string

datatype pkg_reply = Pkg_Uid uid_t | Pkg_Done | Pkg_Errno errno

definition reply_of :: "('a \<Rightarrow> pkg_reply) \<Rightarrow> (PKG_CACHE, 'a) sm \<Rightarrow> (PKG_CACHE, pkg_reply) sm" where
  "reply_of f m = (\<lambda>s. case m s of (Inr x, s') \<Rightarrow> (Inr (f x), s') | (Inl (Errno e), s') \<Rightarrow> (Inr (Pkg_Errno e), s') | (Inl g, s') \<Rightarrow> (Inl g, s'))"

fun handle_pkg :: "pkg_req \<Rightarrow> (PKG_CACHE, pkg_reply) sm" where
  "handle_pkg (Lookup_Pkg name) = reply_of Pkg_Uid (lookup_cache_pkg name)"
| "handle_pkg (Insert_Pkg calloc name uid) = reply_of (\<lambda>_. Pkg_Done) (insert_cache_pkg calloc name uid)"
| "handle_pkg (Remove_Pkg name) = reply_of (\<lambda>_. Pkg_Done) (remove_cache_pkg name)"

type_synonym mru = "(string \<times> uid_t) list list"

definition mru_find :: "string \<Rightarrow> mru \<Rightarrow> (string \<times> uid_t) option" where
  "mru_find name T = find_first (\<lambda>n. fst n = name) (T ! pkg_slot name)"

definition mru_drop :: "string \<Rightarrow> mru \<Rightarrow> mru" where
  "mru_drop name T = T[pkg_slot name := del_first (\<lambda>n. fst n = name) (T ! pkg_slot name)]"

definition mru_front :: "string \<Rightarrow> string \<times> uid_t \<Rightarrow> mru \<Rightarrow> mru" where
  "mru_front name n T = T[pkg_slot name := n # del_first (\<lambda>n. fst n = name) (T ! pkg_slot name)]"

text \<open>A new entry pushes the eighth one out; its name is cut to the size of the field.\<close>

definition mru_add :: "string \<Rightarrow> uid_t \<Rightarrow> mru \<Rightarrow> mru" where
  "mru_add name uid T = T[pkg_slot name := (take (PKG_NAME_LEN - 1) name, uid) # take (MAX_PKG_ENTRIES - 1) (T ! pkg_slot name)]"

text \<open>An allocation may fail when the allocator has no answer for some store that the cache can fill.\<close>

definition calloc_may_fail :: "pkg_calloc \<Rightarrow> bool" where
  "calloc_may_fail calloc \<longleftrightarrow> (\<exists>h. finite (dom h) \<and> card (dom h) \<le> PKG_HASH_SIZE * MAX_PKG_ENTRIES \<and> calloc h = None)"

fun mru_spec :: "pkg_req \<Rightarrow> mru \<Rightarrow> pkg_reply \<times> mru \<Rightarrow> bool" where
  "mru_spec (Lookup_Pkg name) T (r, T') \<longleftrightarrow> (case mru_find name T of
     Some n \<Rightarrow> r = Pkg_Uid (snd n) \<and> T' = mru_front name n T
   | None \<Rightarrow> r = Pkg_Errno ENOENT \<and> T' = T)"
| "mru_spec (Insert_Pkg calloc name uid) T (r, T') \<longleftrightarrow> (case mru_find name T of
     Some n \<Rightarrow> r = Pkg_Done \<and> T' = mru_front name n T
   | None \<Rightarrow> (r = Pkg_Done \<and> T' = mru_add name uid T) \<or> (r = Pkg_Errno ENOMEM \<and> T' = T \<and> calloc_may_fail calloc))"
| "mru_spec (Remove_Pkg name) T (r, T') \<longleftrightarrow> (case mru_find name T of
     Some n \<Rightarrow> r = Pkg_Done \<and> T' = mru_drop name T
   | None \<Rightarrow> r = Pkg_Errno ENOENT \<and> T' = T)"

definition mru_rel :: "mru \<Rightarrow> PKG_CACHE \<Rightarrow> bool" where
  "mru_rel T s \<longleftrightarrow> pkg_cache_lock s = 1 \<and> (\<exists>A. pkg_rel A s \<and> T = pkg_table A s)"

fun pkg_req_ok :: "pkg_req \<Rightarrow> bool" where
  "pkg_req_ok (Insert_Pkg calloc name uid) = calloc_ok calloc"
| "pkg_req_ok _ = True"

text \<open>The number of entries: at most 64, all counted.\<close>

lemma mru_rel_bound:
  assumes "mru_rel T s"
  shows "finite (dom (pkg_mem s))" "num_cache_pkgs s = int (card (dom (pkg_mem s)))" "card (dom (pkg_mem s)) \<le> PKG_HASH_SIZE * MAX_PKG_ENTRIES"
proof -
  obtain A where A: "pkg_rel A s" using assms by (auto simp: mru_rel_def)
  then have d: "dom (pkg_mem s) = (\<Union>i \<in> {..<PKG_HASH_SIZE}. set (A i))" by (simp add: pkg_rel_def)
  then show "finite (dom (pkg_mem s))" by simp
  have c: "card (set (A i)) = length (A i)" if "i < PKG_HASH_SIZE" for i using pkg_relD(3) [OF A that] by (rule distinct_card)
  have u: "card (dom (pkg_mem s)) = (\<Sum>i \<in> {..<PKG_HASH_SIZE}. length (A i))"
    unfolding d using A c by (subst card_UN_disjoint) (auto simp: pkg_rel_def)
  then show "num_cache_pkgs s = int (card (dom (pkg_mem s)))" using A by (simp add: pkg_rel_def)
  have "(\<Sum>i \<in> {..<PKG_HASH_SIZE}. length (A i)) \<le> (\<Sum>i \<in> {..<PKG_HASH_SIZE}. MAX_PKG_ENTRIES)"
    by (rule sum_mono) (use pkg_relD(4) [OF A] in simp)
  then show "card (dom (pkg_mem s)) \<le> PKG_HASH_SIZE * MAX_PKG_ENTRIES" using u by simp
qed

subsection \<open>The calls answer as specified\<close>

lemma pkg_table_nth: "i < PKG_HASH_SIZE \<Longrightarrow> pkg_table A s ! i = map (pkg_item (pkg_mem s)) (A i)"
  by (simp add: pkg_table_def del: upt_conv_Cons upt_rec_numeral)

lemma pkg_table_counters [simp]:
  "pkg_table A (s\<lparr>hit_count := n\<rparr>) = pkg_table A s" "pkg_table A (s\<lparr>query_count := n\<rparr>) = pkg_table A s" "pkg_table A (s\<lparr>pkg_cache_lock := l\<rparr>) = pkg_table A s"
  by (simp_all add: pkg_table_def)

lemma find_first_map_split:
  assumes "find_first P (map f xs) = Some y"
  obtains as a bs where "xs = as @ a # bs" "f a = y" "P y" "\<forall>b \<in> set as. \<not> P (f b)" "del_first P (map f xs) = map f (as @ bs)"
proof -
  have "\<exists>as a bs. xs = as @ a # bs \<and> f a = y \<and> P y \<and> (\<forall>b \<in> set as. \<not> P (f b)) \<and> del_first P (map f xs) = map f (as @ bs)"
    using assms
  proof (induction xs)
    case (Cons x xs)
    show ?case
    proof (cases "P (f x)")
      case True
      then show ?thesis using Cons.prems by (intro exI [of _ "[]"] exI [of _ x] exI [of _ xs]) simp
    next
      case False
      then obtain as a bs where "xs = as @ a # bs" "f a = y" "P y" "\<forall>b \<in> set as. \<not> P (f b)" "del_first P (map f xs) = map f (as @ bs)"
        using Cons by auto
      then show ?thesis using False by (intro exI [of _ "x # as"] exI [of _ a] exI [of _ bs]) simp
    qed
  qed simp
  then show ?thesis using that by blast
qed

definition queried :: "PKG_CACHE \<Rightarrow> PKG_CACHE" where
  "queried s = s\<lparr>query_count := query_count s + 1\<rparr>"

definition hit :: "PKG_CACHE \<Rightarrow> PKG_CACHE" where
  "hit s = s\<lparr>hit_count := hit_count s + 1, query_count := query_count s + 1\<rparr>"

lemma lookup_list_miss:
  assumes rel: "pkg_rel A s" and none: "mru_find name (pkg_table A s) = None"
  shows "lookup_pkg_list (pkg_slot name) name s = (Inr (False, last_or 0 (butlast (0 # A (pkg_slot name))), last_or 0 (A (pkg_slot name))), queried s)"
proof -
  let ?i = "pkg_slot name"
  have "\<forall>b \<in> set (A ?i). fst (pkg_item (pkg_mem s) b) \<noteq> name"
    using none by (simp add: mru_find_def pkg_table_nth find_first_None)
  then show ?thesis using pkg_walk_miss [OF pkg_relD(2) [OF rel pkg_slot_less]] by (simp add: lookup_pkg_list_def queried_def)
qed

lemma lookup_list_hit:
  assumes rel: "pkg_rel A s" and some: "mru_find name (pkg_table A s) = Some n"
  obtains as a bs where "A (pkg_slot name) = as @ a # bs" "pkg_item (pkg_mem s) a = n"
    "lookup_pkg_list (pkg_slot name) name s = (Inr (True, last_or 0 as, a), hit s)"
    "mru_front name n (pkg_table A s) = (pkg_table A s)[pkg_slot name := map (pkg_item (pkg_mem s)) (a # as @ bs)]"
    "mru_drop name (pkg_table A s) = (pkg_table A s)[pkg_slot name := map (pkg_item (pkg_mem s)) (as @ bs)]"
proof -
  let ?i = "pkg_slot name"
  obtain as a bs where s: "A ?i = as @ a # bs" "pkg_item (pkg_mem s) a = n" "fst n = name" "\<forall>b \<in> set as. fst (pkg_item (pkg_mem s) b) \<noteq> name"
    "del_first (\<lambda>n. fst n = name) (map (pkg_item (pkg_mem s)) (A ?i)) = map (pkg_item (pkg_mem s)) (as @ bs)"
    using some find_first_map_split [where thesis = thesis, of "\<lambda>n. fst n = name" "pkg_item (pkg_mem s)" "A ?i" n] by (auto simp: mru_find_def pkg_table_nth)
  note r = pkg_relD [OF rel pkg_slot_less [of name]]
  have "pkg_walk (pkg_mem s) name 0 0 (pkg_first ?i s) = Some (Inr (last_or 0 (butlast (0 # as)), last_or 0 as, a))"
    using pkg_walk_hit [OF r(2) [unfolded s(1)]] s(2,3,4) by simp
  moreover have "a \<noteq> 0" using r(6) s(1) by auto
  ultimately have "lookup_pkg_list ?i name s = (Inr (True, last_or 0 as, a), hit s)" by (simp add: lookup_pkg_list_def hit_def)
  then show ?thesis using that [OF s(1,2)] s(2,5) by (simp add: mru_front_def mru_drop_def pkg_table_nth)
qed


text \<open>Taking the lock, and giving it back.\<close>

definition locked :: "PKG_CACHE \<Rightarrow> PKG_CACHE" where
  "locked s = s\<lparr>pkg_cache_lock := 0\<rparr>"

lemma wait_run: "pkg_cache_lock s = 1 \<Longrightarrow> pkg_wait s = (Inr (), locked s)"
  by (simp add: pkg_wait_def sem_wait_def locked_def)

lemma post_run: "pkg_cache_lock s = 0 \<Longrightarrow> pkg_post s = (Inr (), s\<lparr>pkg_cache_lock := 1\<rparr>)"
  by (simp add: pkg_post_def sem_post_def)

lemma lock_states [simp]:
  "pkg_rel A (locked s) = pkg_rel A s" "pkg_table A (locked s) = pkg_table A s" "pkg_cache_lock (locked s) = 0" "pkg_mem (locked s) = pkg_mem s"
  "pkg_rel A (queried s) = pkg_rel A s" "pkg_table A (queried s) = pkg_table A s" "pkg_cache_lock (queried s) = pkg_cache_lock s" "pkg_mem (queried s) = pkg_mem s"
  "pkg_rel A (hit s) = pkg_rel A s" "pkg_table A (hit s) = pkg_table A s" "pkg_cache_lock (hit s) = pkg_cache_lock s" "pkg_mem (hit s) = pkg_mem s"
  by (simp_all add: locked_def queried_def hit_def)

lemma mru_relI: "pkg_rel A s \<Longrightarrow> mru_rel (pkg_table A s) (s\<lparr>pkg_cache_lock := 1\<rparr>)"
  by (auto simp: mru_rel_def)

lemma pkg_lookup_served:
  assumes "mru_rel T s"
  obtains r s' T' where "handle_pkg (Lookup_Pkg name) s = (Inr r, s')" "mru_spec (Lookup_Pkg name) T (r, T')" "mru_rel T' s'"
proof -
  obtain A where A: "pkg_rel A (locked s)" "T = pkg_table A (locked s)" and l: "pkg_cache_lock s = 1" using assms by (auto simp: mru_rel_def)
  show ?thesis
  proof (cases "mru_find name T")
    case None
    have "lookup_cache_pkg name s = (Inl (Errno ENOENT), (queried (locked s))\<lparr>pkg_cache_lock := 1\<rparr>)"
      using lookup_list_miss [OF A(1), of name] None A(2) l by (simp add: lookup_cache_pkg_def Let_def wait_run post_run)
    then show ?thesis using that [of "Pkg_Errno ENOENT" "(queried (locked s))\<lparr>pkg_cache_lock := 1\<rparr>" T] None mru_relI [of A "queried (locked s)"] A by (simp add: reply_of_def)
  next
    case (Some n)
    obtain as a bs where h: "A (pkg_slot name) = as @ a # bs" "pkg_item (pkg_mem (locked s)) a = n"
      "lookup_pkg_list (pkg_slot name) name (locked s) = (Inr (True, last_or 0 as, a), hit (locked s))"
      "mru_front name n T = T[pkg_slot name := map (pkg_item (pkg_mem (locked s))) (a # as @ bs)]"
      using lookup_list_hit [OF A(1), where thesis = thesis] Some A(2) by blast
    have A': "pkg_rel A (hit (locked s))" using A(1) by simp
    obtain s' where p: "promote_pkg_entry (pkg_slot name) (last_or 0 as) a (hit (locked s)) = (Inr (), s')"
      "pkg_rel (A(pkg_slot name := a # as @ bs)) s'" "pkg_cache_lock s' = 0" "pkg_table (A(pkg_slot name := a # as @ bs)) s' = mru_front name n T"
      using promote_hit [OF A' pkg_slot_less h(1), where thesis = thesis] h(4) A(2) by simp
    obtain e where e: "pkg_mem (hit (locked s)) a = Some e" using pkg_rel_dom [OF A' pkg_slot_less [of name], of a] h(1) by auto
    then have n: "pkguid e = snd n" using h(2) by (auto simp: pkg_item_def)
    have "lookup_cache_pkg name s = (Inr (pkguid e), s'\<lparr>pkg_cache_lock := 1\<rparr>)"
      using l h(3) e p(1,3) by (simp add: lookup_cache_pkg_def Let_def wait_run post_run)
    then show ?thesis using that [of "Pkg_Uid (snd n)" "s'\<lparr>pkg_cache_lock := 1\<rparr>" "mru_front name n T"] Some n mru_relI [OF p(2)] p(4) by (simp add: reply_of_def)
  qed
qed

lemma pkg_remove_served:
  assumes "mru_rel T s"
  obtains r s' T' where "handle_pkg (Remove_Pkg name) s = (Inr r, s')" "mru_spec (Remove_Pkg name) T (r, T')" "mru_rel T' s'"
proof -
  obtain A where A: "pkg_rel A (locked s)" "T = pkg_table A (locked s)" and l: "pkg_cache_lock s = 1" using assms by (auto simp: mru_rel_def)
  show ?thesis
  proof (cases "mru_find name T")
    case None
    have "remove_cache_pkg name s = (Inl (Errno ENOENT), (queried (locked s))\<lparr>pkg_cache_lock := 1\<rparr>)"
      using lookup_list_miss [OF A(1), of name] None A(2) l by (simp add: remove_cache_pkg_def Let_def wait_run post_run)
    then show ?thesis using that [of "Pkg_Errno ENOENT" "(queried (locked s))\<lparr>pkg_cache_lock := 1\<rparr>" T] None mru_relI [of A "queried (locked s)"] A by (simp add: reply_of_def)
  next
    case (Some n)
    obtain as a bs where h: "A (pkg_slot name) = as @ a # bs"
      "lookup_pkg_list (pkg_slot name) name (locked s) = (Inr (True, last_or 0 as, a), hit (locked s))"
      "mru_drop name T = T[pkg_slot name := map (pkg_item (pkg_mem (locked s))) (as @ bs)]"
      using lookup_list_hit [OF A(1), where thesis = thesis] Some A(2) by blast
    have A': "pkg_rel A (hit (locked s))" using A(1) by simp
    obtain s' where p: "bindE (kick_entry (pkg_slot name) (last_or 0 as) a) (\<lambda>_. pkg_count (pkg_slot name) (- 1)) (hit (locked s)) = (Inr (), s')"
      "pkg_rel (A(pkg_slot name := as @ bs)) s'" "pkg_cache_lock s' = 0" "pkg_table (A(pkg_slot name := as @ bs)) s' = mru_drop name T"
      using remove_hit [OF A' pkg_slot_less h(1), where thesis = thesis] h(3) A(2) by simp
    have "remove_cache_pkg name s = bindE pkg_wait (\<lambda>_. bindE (lookup_pkg_list (pkg_slot name) name) (\<lambda>(hit, prev, now).
        if hit then bindE (bindE (kick_entry (pkg_slot name) prev now) (\<lambda>_. pkg_count (pkg_slot name) (- 1))) (\<lambda>_. pkg_post)
        else bindE pkg_post (\<lambda>_. failE (Errno ENOENT)))) s" unfolding remove_cache_pkg_def Let_def bindE_assoc ..
    then have "remove_cache_pkg name s = (Inr (), s'\<lparr>pkg_cache_lock := 1\<rparr>)" using l h(2) p(1,3) by (simp add: wait_run post_run)
    then show ?thesis using that [of "Pkg_Done" "s'\<lparr>pkg_cache_lock := 1\<rparr>" "mru_drop name T"] Some mru_relI [OF p(2)] p(4) by (simp add: reply_of_def)
  qed
qed


lemma insert_cache_miss:
  assumes A: "pkg_rel A (locked s)" and none: "mru_find name (pkg_table A (locked s)) = None" and l: "pkg_cache_lock s = 1"
  shows "insert_cache_pkg calloc name uid s =
    bindE (new_pkg_entry calloc name uid) (\<lambda>entry. if entry = 0 then bindE pkg_post (\<lambda>_. failE (Errno ENOMEM))
      else bindE (bindE (make_room (pkg_slot name) (last_or 0 (butlast (0 # A (pkg_slot name)))) (last_or 0 (A (pkg_slot name))))
        (\<lambda>_. promote_pkg_entry (pkg_slot name) 0 entry)) (\<lambda>_. pkg_post)) (queried (locked s))"
  unfolding insert_cache_pkg_def Let_def make_room_def [symmetric] bindE_assoc
  using l lookup_list_miss [OF A none] by (simp add: wait_run del: butlast.simps)

lemma pkg_insert_served:
  assumes "mru_rel T s" and c: "calloc_ok calloc"
  obtains r s' T' where "handle_pkg (Insert_Pkg calloc name uid) s = (Inr r, s')" "mru_spec (Insert_Pkg calloc name uid) T (r, T')" "mru_rel T' s'"
proof -
  obtain A where A: "pkg_rel A (locked s)" "T = pkg_table A (locked s)" and l: "pkg_cache_lock s = 1" using assms(1) by (auto simp: mru_rel_def)
  let ?i = "pkg_slot name" and ?q = "queried (locked s)"
  show ?thesis
  proof (cases "mru_find name T")
    case None
    have none: "mru_find name (pkg_table A (locked s)) = None" using None A(2) by simp
    note ins = insert_cache_miss [OF A(1) none l, of calloc uid]
    show ?thesis
    proof (cases "calloc (pkg_mem s)")
      case nomem: None
      then have f: "calloc_may_fail calloc" unfolding calloc_may_fail_def using mru_rel_bound [OF assms(1)] by blast
      have "insert_cache_pkg calloc name uid s = (Inl (Errno ENOMEM), ?q\<lparr>pkg_cache_lock := 1\<rparr>)"
        unfolding ins using nomem by (simp add: new_pkg_entry_def post_run)
      then show ?thesis using that [of "Pkg_Errno ENOMEM" "?q\<lparr>pkg_cache_lock := 1\<rparr>" T] None mru_relI [of A ?q] A f by (simp add: reply_of_def)
    next
      case (Some a)
      then have a: "a \<noteq> 0" "pkg_mem ?q a = None" using c by (auto simp: calloc_ok_def)
      have A': "pkg_rel A ?q" using A(1) by simp
      let ?e = "\<lparr>pkgname = take (PKG_NAME_LEN - 1) name, pkguid = uid, next_entry = 0\<rparr>"
      obtain s' where n: "bindE (make_room ?i (last_or 0 (butlast (0 # A ?i))) (last_or 0 (A ?i))) (\<lambda>_. promote_pkg_entry ?i 0 a)
          (?q\<lparr>pkg_mem := (pkg_mem ?q)(a \<mapsto> ?e)\<rparr>) = (Inr (), s')"
        "pkg_rel (A(?i := a # take 7 (A ?i))) s'" "pkg_cache_lock s' = pkg_cache_lock ?q"
        "pkg_table (A(?i := a # take 7 (A ?i))) s' = (pkg_table A ?q)[?i := (pkgname ?e, pkguid ?e) # map (pkg_item (pkg_mem ?q)) (take 7 (A ?i))]"
        by (rule insert_new [OF A' pkg_slot_less a, where e = ?e])
      have t: "pkg_table (A(?i := a # take 7 (A ?i))) s' = mru_add name uid T"
        using n(4) A(2) by (simp add: mru_add_def pkg_table_nth take_map)
      have "insert_cache_pkg calloc name uid s = (Inr (), s'\<lparr>pkg_cache_lock := 1\<rparr>)"
        unfolding ins using new_entry_run [of calloc ?q a name uid] Some n(1,3) a(1) by (simp add: post_run)
      then show ?thesis using that [of Pkg_Done "s'\<lparr>pkg_cache_lock := 1\<rparr>" "mru_add name uid T"] None mru_relI [OF n(2)] t by (simp add: reply_of_def)
    qed
  next
    case (Some n)
    obtain as a bs where h: "A ?i = as @ a # bs" "lookup_pkg_list ?i name (locked s) = (Inr (True, last_or 0 as, a), hit (locked s))"
      "mru_front name n T = T[?i := map (pkg_item (pkg_mem (locked s))) (a # as @ bs)]"
      using lookup_list_hit [OF A(1), where thesis = thesis] Some A(2) by blast
    have A': "pkg_rel A (hit (locked s))" using A(1) by simp
    obtain s' where p: "promote_pkg_entry ?i (last_or 0 as) a (hit (locked s)) = (Inr (), s')"
      "pkg_rel (A(?i := a # as @ bs)) s'" "pkg_cache_lock s' = 0" "pkg_table (A(?i := a # as @ bs)) s' = mru_front name n T"
      using promote_hit [OF A' pkg_slot_less h(1), where thesis = thesis] h(3) A(2) by simp
    have "insert_cache_pkg calloc name uid s = (Inr (), s'\<lparr>pkg_cache_lock := 1\<rparr>)"
      using l h(2) p(1,3) by (simp add: insert_cache_pkg_def Let_def wait_run post_run)
    then show ?thesis using that [of Pkg_Done "s'\<lparr>pkg_cache_lock := 1\<rparr>" "mru_front name n T"] Some mru_relI [OF p(2)] p(4) by (simp add: reply_of_def)
  qed
qed

interpretation pk: service mru_rel handle_pkg mru_spec pkg_req_ok "\<lambda>_. 0" "\<lambda>_. 0" 1
proof
  fix T s q assume a: "mru_rel T s" "pkg_req_ok q"
  have "\<exists>r s' T'. handle_pkg q s = (Inr r, s') \<and> mru_spec q T (r, T') \<and> mru_rel T' s'"
  proof (cases q)
    case (Lookup_Pkg name)
    then show ?thesis using pkg_lookup_served [OF a(1), of name] by metis
  next
    case (Insert_Pkg calloc name uid)
    then show ?thesis using pkg_insert_served [OF a(1), of calloc name uid] a(2) by (metis pkg_req_ok.simps(1))
  next
    case (Remove_Pkg name)
    then show ?thesis using pkg_remove_served [OF a(1), of name] by metis
  qed
  then show "\<exists>r s' T'. handle_pkg q s = (Inr r, s') \<and> mru_spec q T (r, T') \<and> mru_rel T' s' \<and> (0 :: nat) \<le> 0 + 0" by simp
qed


subsection \<open>Destroying the cache\<close>

lemma destroy_bucket_run:
  assumes "pkg_path (pkg_mem s) p as 0" and "distinct as" and "i < length (pkg_hash s)"
  shows "\<exists>b. destroy_bucket i p s = Some (Inr (), s\<lparr>pkg_mem := (\<lambda>a. if a \<in> set as then None else pkg_mem s a),
      num_cache_pkgs := num_cache_pkgs s - int (length as), pkg_hash := (pkg_hash s)[i := b]\<rparr>) \<and>
    first_pkg_entry b = 0 \<and> num_pkgs b = num_pkgs (pkg_hash s ! i) - int (length as)"
  using assms
proof (induction as arbitrary: s p)
  case Nil
  show ?case
    by (rule exI [of _ "(pkg_hash s ! i)\<lparr>first_pkg_entry := 0\<rparr>"]) (use Nil in \<open>subst destroy_bucket.simps; simp add: set_pkg_first_def pkg_at_def\<close>)
next
  case (Cons a as)
  then obtain e where e: "pkg_mem s a = Some e" "p = a" "a \<noteq> 0" "pkg_path (pkg_mem s) (next_entry e) as 0" by (auto split: option.splits)
  let ?b = "num_pkgs_update (\<lambda>n. n - 1) (pkg_hash s ! i)"
  let ?s = "s\<lparr>pkg_mem := (pkg_mem s)(a := None), pkg_hash := (pkg_hash s)[i := ?b], num_cache_pkgs := num_cache_pkgs s - 1\<rparr>"
  have d: "destroy_bucket i p s = destroy_bucket i (next_entry e) ?s"
    using e by (subst destroy_bucket.simps) (simp add: pkg_count_def pkg_at_def)
  have "pkg_path (pkg_mem ?s) (next_entry e) as 0" "distinct as" "i < length (pkg_hash ?s)" using e(4) Cons.prems by simp_all
  from Cons.IH [OF this] obtain b where b: "destroy_bucket i (next_entry e) ?s = Some (Inr (), ?s\<lparr>pkg_mem := (\<lambda>a. if a \<in> set as then None else pkg_mem ?s a),
      num_cache_pkgs := num_cache_pkgs ?s - int (length as), pkg_hash := (pkg_hash ?s)[i := b]\<rparr>)" "first_pkg_entry b = 0" "num_pkgs b = num_pkgs (pkg_hash ?s ! i) - int (length as)"
    by blast
  have m: "(\<lambda>x. if x \<in> set as then None else pkg_mem ?s x) = (\<lambda>x. if x \<in> set (a # as) then None else pkg_mem s x)" by auto
  show ?case using d b(2,3) b(1) [unfolded m] Cons.prems(3) by (intro exI [of _ b]) (simp add: algebra_simps)
qed

lemma destroy_bucket_rel:
  assumes rel: "pkg_rel A s" and i: "i < PKG_HASH_SIZE"
  obtains s' where "destroy_bucket i (pkg_first i s) s = Some (Inr (), s')" "pkg_rel (A(i := [])) s'"
proof -
  note r = pkg_relD [OF rel i]
  obtain b where b: "destroy_bucket i (pkg_first i s) s = Some (Inr (), s\<lparr>pkg_mem := (\<lambda>a. if a \<in> set (A i) then None else pkg_mem s a),
      num_cache_pkgs := num_cache_pkgs s - int (length (A i)), pkg_hash := (pkg_hash s)[i := b]\<rparr>)" (is "_ = Some (_, ?s)")
    "first_pkg_entry b = 0" "num_pkgs b = num_pkgs (pkg_hash s ! i) - int (length (A i))"
    using destroy_bucket_run [OF r(2,3)] r(1) i by auto
  have "pkg_rel (A(i := [])) ?s \<and> pkg_table (A(i := [])) ?s = (pkg_table A s)[i := map (pkg_item (pkg_mem ?s)) []]"
    by (rule pkg_rel_bucket [OF rel i, of ?s 0 _ b]) (use b r in auto)
  then show ?thesis using b(1) that by blast
qed

lemma destroy_buckets_rel:
  assumes "pkg_rel A s" and "\<forall>i \<in> set is. i < PKG_HASH_SIZE"
  shows "\<exists>s'. destroy_buckets is s = (Inr (), s') \<and> pkg_rel (\<lambda>i. if i \<in> set is then [] else A i) s'"
  using assms
proof (induction "is" arbitrary: A s)
  case (Cons i "is")
  obtain s1 where 1: "destroy_bucket i (pkg_first i s) s = Some (Inr (), s1)" "pkg_rel (A(i := [])) s1"
    using destroy_bucket_rel [OF Cons.prems(1), of i] Cons.prems(2) by auto
  obtain s' where 2: "destroy_buckets is s1 = (Inr (), s')" "pkg_rel (\<lambda>j. if j \<in> set is then [] else (A(i := [])) j) s'"
    using Cons.IH [OF 1(2)] Cons.prems(2) by auto
  have "(\<lambda>j. if j \<in> set is then [] else (A(i := [])) j) = (\<lambda>j. if j \<in> set (i # is) then [] else A j)" by auto
  then show ?case using 1(1) 2 by simp
qed simp

lemma destroy_frees:
  assumes "mru_rel T s"
  obtains s' where "destroy_pkg_cache s = (Inr (), s')" "pkg_mem s' = Map.empty" "num_cache_pkgs s' = 0" "map first_pkg_entry (pkg_hash s') = replicate PKG_HASH_SIZE 0"
proof -
  obtain A where A: "pkg_rel A s" using assms by (auto simp: mru_rel_def)
  obtain s' where s': "destroy_pkg_cache s = (Inr (), s')" "pkg_rel (\<lambda>i. if i \<in> set [0..<PKG_HASH_SIZE] then [] else A i) s'" (is "pkg_rel ?A _")
    using destroy_buckets_rel [OF A, of "[0..<PKG_HASH_SIZE]"] by (auto simp: destroy_pkg_cache_def simp del: upt_conv_Cons upt_rec_numeral)
  have e: "?A i = []" if "i < PKG_HASH_SIZE" for i using that by simp
  have "dom (pkg_mem s') = {}" "num_cache_pkgs s' = 0" using s'(2) e unfolding pkg_rel_def by simp_all
  moreover have f: "pkg_first i s' = 0" if "i < PKG_HASH_SIZE" for i using pkg_relD(2) [OF s'(2) that] e [OF that] by simp
  have "map first_pkg_entry (pkg_hash s') = replicate PKG_HASH_SIZE 0"
    by (rule nth_equalityI) (use s'(2) f in \<open>simp_all add: pkg_rel_def pkg_first_def\<close>)
  ultimately show ?thesis using s'(1) that by simp
qed

lemma mru_rel_init: "mru_rel (replicate PKG_HASH_SIZE []) init_pkg_cache"
proof -
  have "pkg_rel (\<lambda>_. []) init_pkg_cache" by (simp add: pkg_rel_def init_pkg_cache_def pkg_first_def)
  moreover have "replicate PKG_HASH_SIZE [] = pkg_table (\<lambda>_. []) init_pkg_cache" by (simp add: pkg_table_def map_replicate_const del: upt_conv_Cons upt_rec_numeral)
  ultimately show ?thesis by (auto simp: mru_rel_def init_pkg_cache_def)
qed


subsection \<open>The cache in front of the database\<close>

text \<open>Clients look packages up and, when a package folder goes, drop its entry (\<^verbatim>\<open>remove_cache_pkg\<close>, whose result is not used).\<close>

datatype pkg_client = Query_Pkg pkg_calloc string | Forget_Pkg string

fun handle_client :: "(nat \<Rightarrow> bool) \<Rightarrow> pkg_db \<Rightarrow> pkg_client \<Rightarrow> (PKG_CACHE, (int \<times> uid_t) option) sm" where
  "handle_client malloc db (Query_Pkg calloc name) = bindE (lookup_pkg malloc calloc db name) (\<lambda>r. returnE (Some r))"
| "handle_client malloc db (Forget_Pkg name) = bindE (reply_of (\<lambda>_. Pkg_Done) (remove_cache_pkg name)) (\<lambda>_. returnE None)"

text \<open>The answers without a cache; the return code is also \<open>-1\<close> when there is no memory for a new entry.\<close>

fun db_spec :: "(nat \<Rightarrow> bool) \<Rightarrow> pkg_db \<Rightarrow> pkg_client \<Rightarrow> unit \<Rightarrow> (int \<times> uid_t) option \<times> unit \<Rightarrow> bool" where
  "db_spec malloc db (Query_Pkg calloc name) _ (r, _) \<longleftrightarrow> (case query_pkg_db malloc db name of
     Inl f \<Rightarrow> False
   | Inr None \<Rightarrow> r = Some (- 1, 0)
   | Inr (Some uid) \<Rightarrow> r = Some (0, uid) \<or> (r = Some (- 1, uid) \<and> calloc_may_fail calloc))"
| "db_spec malloc db (Forget_Pkg name) _ (r, _) \<longleftrightarrow> r = None"

fun client_ok :: "pkg_client \<Rightarrow> bool" where
  "client_ok (Query_Pkg calloc name) \<longleftrightarrow> calloc_ok calloc \<and> length name < PKG_NAME_LEN"
| "client_ok (Forget_Pkg name) = True"

definition sound_table :: "(nat \<Rightarrow> bool) \<Rightarrow> pkg_db \<Rightarrow> mru \<Rightarrow> bool" where
  "sound_table malloc db T \<longleftrightarrow> length T = PKG_HASH_SIZE \<and> (\<forall>ns \<in> set T. \<forall>n \<in> set ns. query_pkg_db malloc db (fst n) = Inr (Some (snd n)))"

definition client_rel :: "(nat \<Rightarrow> bool) \<Rightarrow> pkg_db \<Rightarrow> unit \<Rightarrow> PKG_CACHE \<Rightarrow> bool" where
  "client_rel malloc db _ s \<longleftrightarrow> (\<exists>T. mru_rel T s \<and> sound_table malloc db T)"

lemma sound_upd:
  assumes "sound_table malloc db T" and "\<forall>n \<in> set ns. query_pkg_db malloc db (fst n) = Inr (Some (snd n))"
  shows "sound_table malloc db (T[i := ns])"
  using assms set_update_subset_insert [of T i ns] by (auto simp: sound_table_def)

lemma sound_bucket: "sound_table malloc db T \<Longrightarrow> n \<in> set (T ! pkg_slot name) \<Longrightarrow> query_pkg_db malloc db (fst n) = Inr (Some (snd n))"
  using nth_mem [of "pkg_slot name" T] by (auto simp: sound_table_def)

lemma sound_find:
  assumes "sound_table malloc db T" and "mru_find name T = Some n"
  shows "query_pkg_db malloc db name = Inr (Some (snd n))" "n \<in> set (T ! pkg_slot name)"
  using sound_bucket [OF assms(1), of n name] find_first_Some [OF assms(2) [unfolded mru_find_def]] by auto

lemma sound_steps:
  assumes s: "sound_table malloc db T"
  shows "mru_find name T = Some n \<Longrightarrow> sound_table malloc db (mru_front name n T)"
    and "sound_table malloc db (mru_drop name T)"
    and "query_pkg_db malloc db name = Inr (Some uid) \<Longrightarrow> length name < PKG_NAME_LEN \<Longrightarrow> sound_table malloc db (mru_add name uid T)"
proof -
  note b = sound_bucket [OF s, of _ name]
  note d = subsetD [OF set_del_first [of "\<lambda>n. fst n = name" "T ! pkg_slot name"]]
  show "mru_find name T = Some n \<Longrightarrow> sound_table malloc db (mru_front name n T)"
    unfolding mru_front_def by (rule sound_upd [OF s]) (use b d sound_find(2) [OF s] in auto)
  show "sound_table malloc db (mru_drop name T)"
    unfolding mru_drop_def by (rule sound_upd [OF s]) (use b d in auto)
  show "query_pkg_db malloc db name = Inr (Some uid) \<Longrightarrow> length name < PKG_NAME_LEN \<Longrightarrow> sound_table malloc db (mru_add name uid T)"
    unfolding mru_add_def by (rule sound_upd [OF s]) (use b in \<open>auto dest: in_set_takeD\<close>)
qed

lemma reply_of_Uid: "reply_of Pkg_Uid m s = (Inr (Pkg_Uid u), s') \<Longrightarrow> m s = (Inr u, s')"
  by (auto simp: reply_of_def split: prod.splits sum.splits failure.splits)

lemma reply_of_Done: "reply_of (\<lambda>_. Pkg_Done) m s = (Inr Pkg_Done, s') \<Longrightarrow> m s = (Inr (), s')"
  by (auto simp: reply_of_def split: prod.splits sum.splits failure.splits)

lemma reply_of_Errno: "(\<And>x. f x \<noteq> Pkg_Errno e) \<Longrightarrow> reply_of f m s = (Inr (Pkg_Errno e), s') \<Longrightarrow> m s = (Inl (Errno e), s')"
  by (fastforce simp: reply_of_def split: prod.splits sum.splits failure.splits)

lemma query_total:
  assumes "\<forall>n. malloc n"
  obtains r where "query_pkg_db malloc db name = Inr r"
proof -
  have "\<exists>r. lookup_pkg_cb malloc rows data = Inr r" for rows data
    using assms by (induction malloc rows data rule: lookup_pkg_cb.induct) auto
  then have c: "\<exists>ok data. lookup_pkg_cb malloc rows None = Inr (ok, data)" for rows by (metis surj_pair)
  have "\<exists>r. query_pkg_db malloc db name = Inr r"
  proof (cases "db_rows db (pkg_sql name)")
    case None
    then show ?thesis by (simp add: query_pkg_db_def)
  next
    case (Some rows)
    then show ?thesis using c [of rows] by (auto simp: query_pkg_db_def)
  qed
  then show ?thesis using that by blast
qed


lemma query_served:
  assumes s: "client_rel malloc db a s" and m: "\<forall>n. malloc n" and ok: "calloc_ok calloc" "length name < PKG_NAME_LEN"
  shows "\<exists>r s' b. handle_client malloc db (Query_Pkg calloc name) s = (Inr r, s') \<and> db_spec malloc db (Query_Pkg calloc name) a (r, b) \<and> client_rel malloc db b s'"
proof -
  obtain T where T: "mru_rel T s" "sound_table malloc db T" using s by (auto simp: client_rel_def)
  obtain r s1 T1 where l: "handle_pkg (Lookup_Pkg name) s = (Inr r, s1)" "mru_spec (Lookup_Pkg name) T (r, T1)" "mru_rel T1 s1"
    using pkg_lookup_served [OF T(1)] .
  show ?thesis
  proof (cases "mru_find name T")
    case (Some n)
    then have "lookup_cache_pkg name s = (Inr (snd n), s1)" "T1 = mru_front name n T" using l(1,2) by (auto dest: reply_of_Uid)
    then show ?thesis using sound_find(1) [OF T(2) Some] sound_steps(1) [OF T(2) Some] l(3) by (auto simp: lookup_pkg_def client_rel_def)
  next
    case None
    then have lk: "lookup_cache_pkg name s = (Inl (Errno ENOENT), s1)" "T1 = T" using l(1,2) by (auto intro: reply_of_Errno [of Pkg_Uid])
    obtain q where q: "query_pkg_db malloc db name = Inr q" using query_total [OF m] .
    show ?thesis
    proof (cases q)
      case None
      then show ?thesis using lk q l(3) T(2) by (auto simp: lookup_pkg_def client_rel_def)
    next
      case (Some uid)
      obtain r2 s2 T2 where i: "handle_pkg (Insert_Pkg calloc name uid) s1 = (Inr r2, s2)" "mru_spec (Insert_Pkg calloc name uid) T (r2, T2)" "mru_rel T2 s2"
        using pkg_insert_served [OF l(3) [unfolded lk(2)] ok(1)] .
      consider "r2 = Pkg_Done" "T2 = mru_add name uid T" | "r2 = Pkg_Errno ENOMEM" "T2 = T" "calloc_may_fail calloc" using i(2) None by auto
      then show ?thesis
      proof cases
        case 1
        then have "insert_cache_pkg calloc name uid s1 = (Inr (), s2)" using i(1) by (auto intro: reply_of_Done)
        then show ?thesis using lk q Some i(3) 1(2) sound_steps(3) [OF T(2) _ ok(2)] by (auto simp: lookup_pkg_def client_rel_def)
      next
        case 2
        then have "insert_cache_pkg calloc name uid s1 = (Inl (Errno ENOMEM), s2)" using i(1) by (auto intro: reply_of_Errno [of "\<lambda>_. Pkg_Done"])
        then show ?thesis using lk q Some i(3) 2(2,3) T(2) by (auto simp: lookup_pkg_def client_rel_def)
      qed
    qed
  qed
qed

lemma forget_served:
  assumes s: "client_rel malloc db a s"
  shows "\<exists>r s' b. handle_client malloc db (Forget_Pkg name) s = (Inr r, s') \<and> db_spec malloc db (Forget_Pkg name) a (r, b) \<and> client_rel malloc db b s'"
proof -
  obtain T where T: "mru_rel T s" "sound_table malloc db T" using s by (auto simp: client_rel_def)
  obtain r s1 T1 where l: "handle_pkg (Remove_Pkg name) s = (Inr r, s1)" "mru_spec (Remove_Pkg name) T (r, T1)" "mru_rel T1 s1"
    using pkg_remove_served [OF T(1)] .
  have "sound_table malloc db T1" using l(2) T(2) sound_steps(2) [OF T(2), of name] by (auto split: option.splits)
  then show ?thesis using l(1,3) by (auto simp: client_rel_def)
qed

interpretation cl: service "client_rel malloc db" "handle_client malloc db" "db_spec malloc db" "\<lambda>q. client_ok q \<and> (\<forall>n. malloc n)" "\<lambda>_. 0" "\<lambda>_. 0" 1 for malloc db
proof
  fix a s q assume "client_rel malloc db a s" "client_ok q \<and> (\<forall>n. malloc n)"
  then show "\<exists>r s' b. handle_client malloc db q s = (Inr r, s') \<and> db_spec malloc db q a (r, b) \<and> client_rel malloc db b s' \<and> (0 :: nat) \<le> 0 + 0"
    using query_served [of malloc db a s] forget_served [of malloc db a s] by (cases q) simp_all
qed

lemma client_rel_init: "client_rel malloc db a init_pkg_cache"
proof -
  have "sound_table malloc db (replicate PKG_HASH_SIZE [])" by (simp add: sound_table_def)
  then show ?thesis using mru_rel_init unfolding client_rel_def by blast
qed

end
