(* ===== verification/Pkg_Cache_Props.thy ===== *)
theory Pkg_Cache_Props
  imports Pkg_Cache_Serve
begin

text \<open>
  The properties of the package cache, with runs of an allocator that gives the first free address.
\<close>

definition first_free :: pkg_calloc where
  "first_free h = find (\<lambda>a. h a = None) [1..<66]"

lemma first_free_ok: "calloc_ok first_free"
  by (auto simp: calloc_ok_def first_free_def find_Some_iff simp del: upt_conv_Cons upt_rec_numeral)

lemma first_free_never_fails: "\<not> calloc_may_fail first_free"
proof
  assume "calloc_may_fail first_free"
  then obtain h where h: "finite (dom h)" "card (dom h) \<le> 64" "first_free h = None" by (auto simp: calloc_may_fail_def)
  then have "{1..<66} \<subseteq> dom h" by (force simp: first_free_def find_None_iff simp del: upt_conv_Cons upt_rec_numeral)
  then have "card {1..<66 :: nat} \<le> card (dom h)" using h(1) by (rule card_mono [rotated])
  then show False using h(2) by simp
qed

subsection \<open>Properties\<close>

text \<open>
  C30: The package cache answers every sequence of \<^verbatim>\<open>lookup_cache_pkg\<close>, \<^verbatim>\<open>insert_cache_pkg\<close> and \<^verbatim>\<open>remove_cache_pkg\<close> calls as the table of bounded lists: a hit moves
  the entry to the front of its bucket, a new entry pushes out the least recently used one of a full bucket, an insertion of a known name keeps the old id, and an
  insertion fails only when memory is short.  The pointers stay intact: no call crashes or goes round in a circle, and every call gives the lock back.
\<close>

theorem pkg_cache_refines_mru:
  assumes "\<forall>q \<in> set qs. pkg_req_ok q"
  shows "\<exists>rs s T. run_all handle_pkg qs init_pkg_cache = (Inr rs, s) \<and> spec_all mru_spec qs (replicate PKG_HASH_SIZE []) rs T \<and> mru_rel T s"
  by (rule pk.runs [OF mru_rel_init assms]) simp

text \<open>Nine names in one bucket.\<close>

lemma slots_of_names:
  "pkg_slot ''a'' = 4" "pkg_slot ''i'' = 4" "pkg_slot ''q'' = 4" "pkg_slot ''y'' = 4" "pkg_slot ''A'' = 4" "pkg_slot ''I'' = 4" "pkg_slot ''Q'' = 4" "pkg_slot ''Y'' = 4" "pkg_slot ''1'' = 4"
  by (simp_all add: pkg_slot_def djb_hash_def djb_step_def)

theorem pkg_cache_refines_mru_witness:
  "fst (run_all handle_pkg [Insert_Pkg first_free ''a'' 1, Insert_Pkg first_free ''i'' 2, Insert_Pkg first_free ''q'' 3, Insert_Pkg first_free ''y'' 4, Insert_Pkg first_free ''A'' 5,
      Insert_Pkg first_free ''I'' 6, Insert_Pkg first_free ''Q'' 7, Insert_Pkg first_free ''Y'' 8, Insert_Pkg first_free ''a'' 10, Insert_Pkg first_free ''1'' 9,
      Lookup_Pkg ''a'', Lookup_Pkg ''i'', Remove_Pkg ''a'', Lookup_Pkg ''a'', Lookup_Pkg ''1''] init_pkg_cache) =
    Inr [Pkg_Done, Pkg_Done, Pkg_Done, Pkg_Done, Pkg_Done, Pkg_Done, Pkg_Done, Pkg_Done, Pkg_Done, Pkg_Done, Pkg_Uid 1, Pkg_Errno ENOENT, Pkg_Done, Pkg_Errno ENOENT, Pkg_Uid 9]"
  (is "fst (run_all handle_pkg ?qs _) = Inr ?rs")
proof -
  have ok: "\<forall>q \<in> set ?qs. pkg_req_ok q" and z: "(0 :: nat) + sum_list (map (\<lambda>_. 0) ?qs) < 1" using first_free_ok by simp_all
  obtain rs s T where r: "run_all handle_pkg ?qs init_pkg_cache = (Inr rs, s)" "spec_all mru_spec ?qs (replicate PKG_HASH_SIZE []) rs T"
    using pkg_cache_refines_mru [OF ok] by blast
  have e: "replicate PKG_HASH_SIZE ([] :: (string \<times> uid_t) list) = [[], [], [], [], [], [], [], []]" by (simp add: numeral_eq_Suc)
  have "rs = ?rs"
    using r(2) first_free_never_fails unfolding e by (auto simp: slots_of_names mru_find_def mru_front_def mru_add_def mru_drop_def)
  then show ?thesis using r(1) by simp
qed

text \<open>
  C31: The entries of the package cache are exactly the allocated ones: after any sequence of calls there are at most 64, \<^verbatim>\<open>num_cache_pkgs\<close> is their number, and
  \<^verbatim>\<open>destroy_pkg_cache\<close> returns with all of them freed, the counter at zero and all buckets empty.
\<close>

theorem pkg_cache_bounded_and_freed:
  assumes "\<forall>q \<in> set qs. pkg_req_ok q" and "run_all handle_pkg qs init_pkg_cache = (r, s)"
  shows "finite (dom (pkg_mem s)) \<and> card (dom (pkg_mem s)) \<le> PKG_HASH_SIZE * MAX_PKG_ENTRIES \<and> num_cache_pkgs s = int (card (dom (pkg_mem s))) \<and>
    (\<exists>s'. destroy_pkg_cache s = (Inr (), s') \<and> pkg_mem s' = Map.empty \<and> num_cache_pkgs s' = 0 \<and> map first_pkg_entry (pkg_hash s') = replicate PKG_HASH_SIZE 0)"
proof -
  obtain T where T: "mru_rel T s" using pk.runs [OF mru_rel_init assms(1)] assms(2) by auto
  then obtain s' where "destroy_pkg_cache s = (Inr (), s')" "pkg_mem s' = Map.empty" "num_cache_pkgs s' = 0" "map first_pkg_entry (pkg_hash s') = replicate PKG_HASH_SIZE 0"
    by (rule destroy_frees)
  then show ?thesis using mru_rel_bound [OF T] by blast
qed

theorem pkg_cache_bounded_and_freed_witness:
  "\<exists>s s'. run_all handle_pkg [Insert_Pkg first_free ''a'' 1, Insert_Pkg first_free ''i'' 2, Remove_Pkg ''a'', Lookup_Pkg ''i''] init_pkg_cache = (Inr [Pkg_Done, Pkg_Done, Pkg_Done, Pkg_Uid 2], s) \<and>
    card (dom (pkg_mem s)) \<le> 64 \<and> destroy_pkg_cache s = (Inr (), s') \<and> pkg_mem s' = Map.empty"
  (is "\<exists>s s'. run_all _ ?qs _ = (Inr ?rs, s) \<and> _ s s'")
proof -
  have ok: "\<forall>q \<in> set ?qs. pkg_req_ok q" and z: "(0 :: nat) + sum_list (map (\<lambda>_. 0) ?qs) < 1" using first_free_ok by simp_all
  obtain rs s T where r: "run_all handle_pkg ?qs init_pkg_cache = (Inr rs, s)" "spec_all mru_spec ?qs (replicate PKG_HASH_SIZE []) rs T"
    using pk.runs [OF mru_rel_init ok z] by blast
  have e: "replicate PKG_HASH_SIZE ([] :: (string \<times> uid_t) list) = [[], [], [], [], [], [], [], []]" by (simp add: numeral_eq_Suc)
  have "rs = ?rs"
    using r(2) first_free_never_fails unfolding e by (auto simp: slots_of_names mru_find_def mru_front_def mru_add_def mru_drop_def)
  then show ?thesis using r(1) pkg_cache_bounded_and_freed [OF ok r(1)] by auto
qed

text \<open>
  C32: While the database of package ids does not change, its cache cannot be seen: every \<^verbatim>\<open>lookup_pkg\<close> call for a name of up to 254 characters, after any sequence of lookups and
  removals of such names, leaves the id of the database in \<^verbatim>\<open>*uid\<close> and returns what a query of the database would return.  The \<^verbatim>\<open>malloc\<close> for the value a query finds must not fail (it is not checked).
  The allocation of an entry of the cache may fail: then the call returns \<open>-1\<close> and the id is still the one of the database, and not the 0 that the comment at the start of \<^verbatim>\<open>lookup_pkg\<close> announces for
  errors.  With names of 255 characters the cache can be seen and is excluded.
\<close>

theorem lookup_pkg_cache_invisible:
  assumes "\<forall>q \<in> set qs. client_ok q" and "\<forall>n. malloc n"
  shows "\<exists>rs s. run_all (handle_client malloc db) qs init_pkg_cache = (Inr rs, s) \<and> spec_all (db_spec malloc db) qs () rs ()"
  using cl.runs [OF client_rel_init, of qs malloc] assms by fastforce

definition sample_db :: pkg_db where
  "sample_db = \<lparr>db_exists = True, db_opens = True, db_rows = (\<lambda>q. if q = pkg_sql ''a'' then Some [Some '' 10081''] else Some [])\<rparr>"

theorem lookup_pkg_cache_invisible_witness:
  "fst (run_all (handle_client (\<lambda>_. True) sample_db) [Query_Pkg first_free ''a'', Query_Pkg first_free ''a'', Query_Pkg first_free ''b'', Forget_Pkg ''a'', Query_Pkg first_free ''a''] init_pkg_cache) =
    Inr [Some (0, 10081), Some (0, 10081), Some (0, 0), None, Some (0, 10081)]"
  (is "fst (run_all ?h ?qs _) = Inr ?rs")
proof -
  have ok: "\<forall>q \<in> set ?qs. client_ok q" using first_free_ok by simp
  obtain rs s where r: "run_all ?h ?qs init_pkg_cache = (Inr rs, s)" "spec_all (db_spec (\<lambda>_. True) sample_db) ?qs () rs ()"
    using lookup_pkg_cache_invisible [OF ok, of "\<lambda>_. True" sample_db] by blast
  have a: "atoi '' 10081'' = 10081" by (simp add: atoi_def is_c_space_def digit_of_def)
  have "query_pkg_db (\<lambda>_. True) sample_db ''a'' = Inr (Some 10081)" "query_pkg_db (\<lambda>_. True) sample_db ''b'' = Inr (Some 0)"
    using a by (simp_all add: query_pkg_db_def sample_db_def pkg_sql_def)
  then have "rs = ?rs" using r(2) first_free_never_fails by auto
  then show ?thesis using r(1) by simp
qed

end
