(* ===== verification/File_Table.thy ===== *)
theory File_Table
  imports Buckets
begin

text \<open>
  The table of open files and directories, \<^verbatim>\<open>src/HCFS/filetables.c\<close>.  The three arrays of \<^verbatim>\<open>MAX_OPEN_FILE_ENTRIES\<close> elements are functions from indexes; using a larger
  index is the failure \<open>Crash\<close>.

  A directory that is open while its entries change is read from a snapshot: a copy of its meta file under the name \<^verbatim>\<open>tmp_dirmeta_snap\<close>, which is unlinked as soon as the
  handles have opened it.  So the state has the part of the file system the code relies on: file objects with their bytes, the streams open on them and the object
  the name is linked to.  Numbers of streams and objects are not used twice; closing a stream that is not open is \<open>Crash\<close>.  The meta file of an inode is its bytes.  The meta cache in
  front of it is not modelled: the calls to lock, close and unlock a cache entry are logged, and reading through the cache is reading the file.  Every
  call that can fail takes the next outcome of a script.
\<close>

abbreviation (input) MAX_OPEN_FILE_ENTRIES :: nat where "MAX_OPEN_FILE_ENTRIES \<equiv> 65536"
abbreviation (input) EMFILE :: errno where "EMFILE \<equiv> 24"

subsection \<open>Data\<close>

datatype fh_flag = NO_FH | IS_FH | IS_DIRH

record FH_ENTRY =
  fh_inode :: ino_t
  fh_flags :: int
  meta_cache_ptr :: "nat option"
  meta_cache_locked :: bool
  blockfptr :: "nat option"
  opened_block :: int
  cached_page_index :: int
  cached_filepos :: int
  block_sem :: nat

record DIRH_ENTRY =
  dirh_inode :: ino_t
  dirh_flags :: int
  snapshot_ptr :: "nat option"
  snap_ref_sem :: nat
  wait_ref_sem :: nat

text \<open>The calls of the meta cache that \<^verbatim>\<open>close_fh\<close> makes: an entry that is already locked is given by its address.\<close>

datatype fh_event = Meta_Lock ino_t | Meta_Close_File "nat option" | Meta_Unlock "nat option" | Rebuild_Parent ino_t ino_t nat

record FH_TABLE_TYPE =
  num_opened_files :: int
  entry_table_flags :: "nat \<Rightarrow> fh_flag"
  entry_table :: "nat \<Rightarrow> FH_ENTRY"
  direntry_table :: "nat \<Rightarrow> DIRH_ENTRY"
  have_nonsnap_dir :: bool
  last_available_index :: nat
  fh_table_sem :: nat
  fs_streams :: "nat \<rightharpoonup> nat"
  fs_objects :: "nat \<Rightarrow> string"
  fs_snap_link :: "nat option"
  fs_fresh :: nat
  meta_files :: "ino_t \<Rightarrow> string"
  meta_pos :: "ino_t \<Rightarrow> nat"
  fh_os :: "io_outcome list"
  fh_log :: "fh_event list"

subsection \<open>System calls and streams\<close>

text \<open>A call that fails with the error number of the system, and one whose failure is reported as \<^verbatim>\<open>EIO\<close>.\<close>

definition fh_call :: "(FH_TABLE_TYPE, unit) sm" where
  "fh_call = (\<lambda>s. (case fh_os s of IO_Err e # _ \<Rightarrow> Inl (Errno e) | _ \<Rightarrow> Inr (), s\<lparr>fh_os := tl (fh_os s)\<rparr>))"

definition fh_call_EIO :: "(FH_TABLE_TYPE, unit) sm" where
  "fh_call_EIO = (\<lambda>s. (case fh_os s of IO_Err e # _ \<Rightarrow> Inl (Errno EIO) | _ \<Rightarrow> Inr (), s\<lparr>fh_os := tl (fh_os s)\<rparr>))"

definition new_stream :: "nat \<Rightarrow> (FH_TABLE_TYPE, nat) sm" where
  "new_stream obj = (\<lambda>s. (Inr (fs_fresh s), s\<lparr>fs_streams := (fs_streams s)(fs_fresh s \<mapsto> obj), fs_fresh := fs_fresh s + 1\<rparr>))"

definition fs_fclose :: "nat \<Rightarrow> (FH_TABLE_TYPE, unit) sm" where
  "fs_fclose st = (\<lambda>s. if fs_streams s st = None then (Inl Crash, s) else (Inr (), s\<lparr>fs_streams := (fs_streams s)(st := None)\<rparr>))"

text \<open>The bytes of the file a stream is open on.\<close>

definition stream_bytes :: "FH_TABLE_TYPE \<Rightarrow> nat \<Rightarrow> string" where
  "stream_bytes s st = (case fs_streams s st of None \<Rightarrow> [] | Some obj \<Rightarrow> fs_objects s obj)"

definition set_flag :: "nat \<Rightarrow> fh_flag \<Rightarrow> FH_TABLE_TYPE \<Rightarrow> FH_TABLE_TYPE" where
  "set_flag i f s = s\<lparr>entry_table_flags := (entry_table_flags s)(i := f)\<rparr>"

definition set_fh :: "nat \<Rightarrow> FH_ENTRY \<Rightarrow> FH_TABLE_TYPE \<Rightarrow> FH_TABLE_TYPE" where
  "set_fh i e s = s\<lparr>entry_table := (entry_table s)(i := e)\<rparr>"

definition set_dirh :: "nat \<Rightarrow> DIRH_ENTRY \<Rightarrow> FH_TABLE_TYPE \<Rightarrow> FH_TABLE_TYPE" where
  "set_dirh i e s = s\<lparr>direntry_table := (direntry_table s)(i := e)\<rparr>"

definition fh_emit :: "fh_event list \<Rightarrow> FH_TABLE_TYPE \<Rightarrow> FH_TABLE_TYPE" where
  "fh_emit es s = s\<lparr>fh_log := fh_log s @ es\<rparr>"

definition fh_wait :: "(FH_TABLE_TYPE, unit) sm" where
  "fh_wait = sem_wait fh_table_sem fh_table_sem_update"

definition fh_post :: "(FH_TABLE_TYPE, unit) sm" where
  "fh_post = sem_post fh_table_sem_update"

definition fh_alloc :: "(FH_TABLE_TYPE, bool) sm" where
  "fh_alloc = alloc fh_os fh_os_update"

subsection \<open>Opening and closing\<close>

definition zero_fh :: FH_ENTRY where
  "zero_fh = \<lparr>fh_inode = 0, fh_flags = 0, meta_cache_ptr = None, meta_cache_locked = False, blockfptr = None, opened_block = 0,
     cached_page_index = 0, cached_filepos = 0, block_sem = 0\<rparr>"

definition zero_dirh :: DIRH_ENTRY where
  "zero_dirh = \<lparr>dirh_inode = 0, dirh_flags = 0, snapshot_ptr = None, snap_ref_sem = 0, wait_ref_sem = 0\<rparr>"

text \<open>The daemon does not start when a table cannot be allocated, so what a failing call leaves is not described further.\<close>

definition init_system_fh_table :: "(FH_TABLE_TYPE, unit) sm" where
  "init_system_fh_table = (\<lambda>s0. let s = s0\<lparr>num_opened_files := 0, have_nonsnap_dir := False, last_available_index := 0, fh_table_sem := 0\<rparr> in
     bindE fh_alloc (\<lambda>ok. if \<not> ok then failE (Errno ENOMEM)
       else bindE (modifyE (entry_table_flags_update (\<lambda>_ _. NO_FH))) (\<lambda>_.
     bindE fh_alloc (\<lambda>ok. if \<not> ok then failE (Errno ENOMEM)
       else bindE (modifyE (entry_table_update (\<lambda>_ _. zero_fh))) (\<lambda>_.
     bindE fh_alloc (\<lambda>ok. if \<not> ok then failE (Errno ENOMEM)
       else modifyE (\<lambda>s. s\<lparr>direntry_table := (\<lambda>_. zero_dirh), last_available_index := 0, fh_table_sem := 1\<rparr>)))))) s)"

text \<open>The loop that looks for a free element, round the table.\<close>

partial_function (option) find_free :: "(nat \<Rightarrow> fh_flag) \<Rightarrow> nat \<Rightarrow> nat option" where
  "find_free flags index = (if flags index \<noteq> NO_FH then find_free flags ((index + 1) mod MAX_OPEN_FILE_ENTRIES) else Some index)"

definition new_dirh :: "ino_t \<Rightarrow> int \<Rightarrow> DIRH_ENTRY" where
  "new_dirh thisinode fl = \<lparr>dirh_inode = thisinode, dirh_flags = fl, snapshot_ptr = None, snap_ref_sem = 0, wait_ref_sem = 1\<rparr>"

definition new_fh :: "ino_t \<Rightarrow> int \<Rightarrow> FH_ENTRY" where
  "new_fh thisinode fl = \<lparr>fh_inode = thisinode, fh_flags = fl, meta_cache_ptr = None, meta_cache_locked = False, blockfptr = None,
     opened_block = - 1, cached_page_index = - 1, cached_filepos = - 1, block_sem = 1\<rparr>"

definition open_fh :: "ino_t \<Rightarrow> int \<Rightarrow> bool \<Rightarrow> (FH_TABLE_TYPE, nat) sm" where
  "open_fh thisinode fl isdir = bindE fh_wait (\<lambda>_ s.
     if num_opened_files s \<ge> int MAX_OPEN_FILE_ENTRIES then bindE fh_post (\<lambda>_. failE (Errno EMFILE)) s
     else case find_free (entry_table_flags s) (last_available_index s mod MAX_OPEN_FILE_ENTRIES) of
       None \<Rightarrow> (Inl Hang, s)
     | Some index \<Rightarrow>
         bindE (modifyE (if isdir
             then (\<lambda>s. (set_dirh index (new_dirh thisinode fl) (set_flag index IS_DIRH s))\<lparr>have_nonsnap_dir := True\<rparr>)
             else (\<lambda>s. set_fh index (new_fh thisinode fl) (set_flag index IS_FH s)))) (\<lambda>_.
         bindE (modifyE (\<lambda>s. s\<lparr>num_opened_files := num_opened_files s + 1\<rparr>)) (\<lambda>_.
         bindE fh_post (\<lambda>_. returnE index))) s)"

text \<open>
  \<^verbatim>\<open>close_fh\<close>.  \<open>lock_entry\<close> is what \<^verbatim>\<open>meta_cache_lock_entry\<close> returns for an inode.
\<close>

definition close_file_entry :: "nat \<Rightarrow> (FH_TABLE_TYPE, unit) sm" where
  "close_file_entry index = (\<lambda>s. let e = entry_table s index in
     bindE (if blockfptr e \<noteq> None \<and> opened_block e \<ge> 0 then fs_fclose (the (blockfptr e)) else returnE ()) (\<lambda>_.
     modifyE (\<lambda>s. set_fh index (e\<lparr>meta_cache_locked := False, fh_inode := 0, meta_cache_ptr := None, blockfptr := None, opened_block := - 1\<rparr>)
       ((set_flag index NO_FH s)\<lparr>last_available_index := index\<rparr>))) s)"

definition close_dir_entry :: "nat \<Rightarrow> (FH_TABLE_TYPE, unit) sm" where
  "close_dir_entry index = (\<lambda>s. let e = direntry_table s index in
     bindE (case snapshot_ptr e of None \<Rightarrow> returnE () | Some st \<Rightarrow> fs_fclose st) (\<lambda>_.
     modifyE (\<lambda>s. set_dirh index (e\<lparr>snapshot_ptr := None, dirh_inode := 0\<rparr>)
       ((set_flag index NO_FH s)\<lparr>last_available_index := index\<rparr>))) s)"

definition close_cached :: "(ino_t \<Rightarrow> nat option) \<Rightarrow> bool \<Rightarrow> nat option \<Rightarrow> ino_t \<Rightarrow> (FH_TABLE_TYPE, int) sm" where
  "close_cached lock_entry locked ptr tmpinode =
     (if \<not> locked then bindE (modifyE (fh_emit [Meta_Lock tmpinode])) (\<lambda>_. case lock_entry tmpinode of None \<Rightarrow> returnE 0
        | Some p \<Rightarrow> bindE (modifyE (fh_emit [Meta_Close_File (Some p), Meta_Unlock (Some p)])) (\<lambda>_. returnE 0))
      else bindE (modifyE (fh_emit [Meta_Close_File ptr, Meta_Unlock ptr])) (\<lambda>_. returnE 0))"

definition close_fh :: "(ino_t \<Rightarrow> nat option) \<Rightarrow> nat \<Rightarrow> (FH_TABLE_TYPE, int) sm" where
  "close_fh lock_entry index = bindE fh_wait (\<lambda>_ s.
     if index \<ge> MAX_OPEN_FILE_ENTRIES then (Inl Crash, s)
     else case entry_table_flags s index of
       IS_FH \<Rightarrow> (let e = entry_table s index in
         bindE (close_file_entry index) (\<lambda>_.
         bindE (modifyE (\<lambda>s. s\<lparr>num_opened_files := num_opened_files s - 1\<rparr>)) (\<lambda>_.
         bindE fh_post (\<lambda>_. close_cached lock_entry (meta_cache_locked e) (meta_cache_ptr e) (fh_inode e)))) s)
     | IS_DIRH \<Rightarrow>
         bindE (close_dir_entry index) (\<lambda>_.
         bindE (modifyE (\<lambda>s. s\<lparr>num_opened_files := num_opened_files s - 1\<rparr>)) (\<lambda>_.
         bindE fh_post (\<lambda>_. returnE 0))) s
     | NO_FH \<Rightarrow> bindE fh_post (\<lambda>_. returnE (- 1)) s)"

end
