(* ===== verification/Readdir.thy ===== *)
theory Readdir
  imports File_Table Dir_Btree
begin

text \<open>
  Snapshots of open directories (\<^verbatim>\<open>handle_dirmeta_snapshot\<close> of \<^verbatim>\<open>src/HCFS/filetables.c\<close>, called before a directory is changed) and the handlers of
  \<^verbatim>\<open>src/HCFS/fuseop.c\<close> that open, read and close directories and files: \<^verbatim>\<open>hfuse_ll_opendir\<close>, \<^verbatim>\<open>hfuse_ll_readdir\<close>, \<^verbatim>\<open>hfuse_ll_releasedir\<close>, \<^verbatim>\<open>hfuse_ll_release\<close>.
\<close>

abbreviation (input) EBADF :: errno where "EBADF \<equiv> 9"
abbreviation (input) ENFILE :: errno where "ENFILE \<equiv> 23"
abbreviation (input) ENOTDIR :: errno where "ENOTDIR \<equiv> 20"

subsection \<open>Taking a snapshot\<close>

text \<open>The local variables of \<^verbatim>\<open>handle_dirmeta_snapshot\<close> that its error exit reads.\<close>

record snap_vars =
  snap_created :: bool
  snapfptr :: "nat option"
  have_opened_nonsnap :: bool

type_synonym snap_state = "FH_TABLE_TYPE \<times> snap_vars"

definition on_table :: "(FH_TABLE_TYPE, 'a) sm \<Rightarrow> (snap_state, 'a) sm" where
  "on_table m = (\<lambda>(s, v). let (r, s') = m s in (r, (s', v)))"

definition on_vars :: "(snap_vars \<Rightarrow> snap_vars) \<Rightarrow> (snap_state, unit) sm" where
  "on_vars f = modifyE (\<lambda>(s, v). (s, f v))"

definition fs_write :: "nat \<Rightarrow> string \<Rightarrow> (FH_TABLE_TYPE, unit) sm" where
  "fs_write st bs = bindE fh_call_EIO (\<lambda>_. modifyE (\<lambda>s. case fs_streams s st of None \<Rightarrow> s
     | Some obj \<Rightarrow> s\<lparr>fs_objects := (fs_objects s)(obj := fs_objects s obj @ bs)\<rparr>))"

text \<open>The copy loop; \<open>rest\<close> are the bytes of the meta file from the position of the stream on, which is at its end when fewer than 4096 are read.\<close>

function copy_meta :: "string \<Rightarrow> nat \<Rightarrow> (FH_TABLE_TYPE, unit) sm" where
  "copy_meta rest st = bindE fh_call_EIO (\<lambda>_.
     if rest = [] then returnE ()
     else bindE (fs_write st (take 4096 rest)) (\<lambda>_.
       if length rest < 4096 then returnE () else copy_meta (drop 4096 rest) st))"
  by pat_completeness auto
termination
  by (relation "measure (\<lambda>(rest, st). length rest)") auto

declare copy_meta.simps [simp del]

text \<open>\<^verbatim>\<open>fopen\<close> for writing: a linked file is cut to nothing, otherwise a new one is made.\<close>

definition fopen_w :: "(FH_TABLE_TYPE, nat) sm" where
  "fopen_w = bindE fh_call_EIO (\<lambda>_ s. case fs_snap_link s of
     Some obj \<Rightarrow> new_stream obj (s\<lparr>fs_objects := (fs_objects s)(obj := [])\<rparr>)
   | None \<Rightarrow> new_stream (fs_fresh s) (s\<lparr>fs_objects := (fs_objects s)(fs_fresh s := []), fs_snap_link := Some (fs_fresh s), fs_fresh := fs_fresh s + 1\<rparr>))"

definition fopen_r :: "(FH_TABLE_TYPE, nat) sm" where
  "fopen_r = bindE fh_call_EIO (\<lambda>_ s. case fs_snap_link s of Some obj \<Rightarrow> new_stream obj s | None \<Rightarrow> (Inl (Errno EIO), s))"

definition unlink_snap :: "FH_TABLE_TYPE \<Rightarrow> FH_TABLE_TYPE" where
  "unlink_snap s = s\<lparr>fs_snap_link := None\<rparr>"

text \<open>\<open>fptr\<close> is the inode whose meta file the stream \<^verbatim>\<open>metafptr\<close> is open on.\<close>

definition create_snapshot :: "ino_t \<Rightarrow> (snap_state, unit) sm" where
  "create_snapshot fptr =
     bindE (on_table (\<lambda>s. if fs_snap_link s \<noteq> None then bindE fh_call (\<lambda>_. modifyE unlink_snap) s else (Inr (), s))) (\<lambda>_.
     bindE (on_table (bindE fh_call (\<lambda>_ s. (Inr (meta_pos s fptr), s)))) (\<lambda>ret_pos.
     bindE (on_vars (\<lambda>v. v\<lparr>snapfptr := None\<rparr>)) (\<lambda>_.
     bindE (on_table fopen_w) (\<lambda>st.
     bindE (on_vars (\<lambda>v. v\<lparr>snapfptr := Some st\<rparr>)) (\<lambda>_.
     bindE (on_table (bindE fh_call (\<lambda>_. modifyE (\<lambda>s. s\<lparr>meta_pos := (meta_pos s)(fptr := 0)\<rparr>)))) (\<lambda>_.
     bindE (on_table (\<lambda>s. bindE (copy_meta (meta_files s fptr) st) (\<lambda>_. modifyE (\<lambda>s. s\<lparr>meta_pos := (meta_pos s)(fptr := length (meta_files s fptr))\<rparr>)) s)) (\<lambda>_.
     bindE (on_table (bindE fh_call (\<lambda>_. modifyE (\<lambda>s. s\<lparr>meta_pos := (meta_pos s)(fptr := ret_pos)\<rparr>)))) (\<lambda>_.
     bindE (on_table (fs_fclose st)) (\<lambda>_.
     on_vars (\<lambda>v. v\<lparr>snap_created := True\<rparr>))))))))))"

definition snapshot_entry :: "ino_t \<Rightarrow> ino_t \<Rightarrow> nat \<Rightarrow> (snap_state, unit) sm" where
  "snapshot_entry thisinode fptr i = (\<lambda>(s, v). let e = direntry_table s i in
     if entry_table_flags s i = IS_DIRH \<and> snapshot_ptr e = None then
       bindE (if dirh_inode e = thisinode \<and> \<not> snap_created v then create_snapshot fptr else returnE ()) (\<lambda>_.
       if dirh_inode e = thisinode then
         bindE (on_table fopen_r) (\<lambda>st. on_table (modifyE (set_dirh i (e\<lparr>snapshot_ptr := Some st, snap_ref_sem := 0, wait_ref_sem := 1\<rparr>))))
       else on_vars (\<lambda>v. v\<lparr>have_opened_nonsnap := True\<rparr>)) (s, v)
     else (Inr (), (s, v)))"

fun snapshot_entries :: "ino_t \<Rightarrow> ino_t \<Rightarrow> nat list \<Rightarrow> (snap_state, unit) sm" where
  "snapshot_entries thisinode fptr [] = returnE ()"
| "snapshot_entries thisinode fptr (i # is) = bindE (snapshot_entry thisinode fptr i) (\<lambda>_. snapshot_entries thisinode fptr is)"

definition unlink_if :: "bool \<Rightarrow> FH_TABLE_TYPE \<Rightarrow> FH_TABLE_TYPE" where
  "unlink_if c s = (if c then unlink_snap s else s)"

definition handle_dirmeta_snapshot :: "ino_t \<Rightarrow> ino_t option \<Rightarrow> (FH_TABLE_TYPE, unit) sm" where
  "handle_dirmeta_snapshot thisinode metafptr = (case metafptr of None \<Rightarrow> failE (Errno EIO) | Some fptr \<Rightarrow>
     bindE fh_wait (\<lambda>_ s. if \<not> have_nonsnap_dir s then fh_post s
       else case snapshot_entries thisinode fptr [0..<MAX_OPEN_FILE_ENTRIES] (s, \<lparr>snap_created = False, snapfptr = None, have_opened_nonsnap = False\<rparr>) of
         (Inr _, (s', v)) \<Rightarrow> bindE (modifyE (\<lambda>s. unlink_if (snap_created v) (s\<lparr>have_nonsnap_dir := have_opened_nonsnap v\<rparr>))) (\<lambda>_. fh_post) s'
       | (Inl (Errno e), (s', v)) \<Rightarrow>
           bindE (modifyE (unlink_if (snap_created v))) (\<lambda>_.
           bindE fh_post (\<lambda>_.
           bindE (case snapfptr v of None \<Rightarrow> returnE () | Some st \<Rightarrow> fs_fclose st) (\<lambda>_. failE (Errno e)))) s'
       | (Inl f, (s', v)) \<Rightarrow> (Inl f, s')))"


subsection \<open>Reading a directory\<close>

text \<open>
  What \<^verbatim>\<open>hfuse_ll_readdir\<close> takes from its surroundings.  \<open>rd_meta\<close> and \<open>rd_page\<close> are the layout of the C structs in the meta file: what reading a
  \<^verbatim>\<open>DIR_META_TYPE\<close> behind the \<^verbatim>\<open>HCFS_STAT\<close> and a \<^verbatim>\<open>DIR_ENTRY_PAGE\<close> at a position gives; \<open>touch_atime\<close> is the file after the access time is set.  \<open>ent_size\<close> is the space
  \<^verbatim>\<open>fuse_add_direntry\<close> of libfuse needs for a name.  \<open>restoring\<close> says that the system is in the second stage of restoration, \<open>meta_opened\<close> that the
  meta file is already open.
\<close>

record readdir_env =
  rd_meta :: "string \<Rightarrow> DIR_META_TYPE"
  rd_page :: "string \<Rightarrow> nat \<Rightarrow> DIR_ENTRY_PAGE"
  touch_atime :: "string \<Rightarrow> string"
  ent_size :: "string \<Rightarrow> nat"
  restoring :: bool
  meta_opened :: bool

record dirent =
  de_name :: string
  de_ino :: ino_t
  de_mode :: nat
  de_off :: nat

datatype readdir_reply = Rd_Err errno | Rd_Buf "dirent list"

definition mode_of_type :: "nat \<Rightarrow> nat" where
  "mode_of_type t = (if t = 1 then 0x8000 else if t = 0 then 0x4000 else if t = 2 then 0xA000 else if t = 3 then 0x1000 else if t = 4 then 0xC000 else 0)"

definition dirent_at :: "DIR_ENTRY_PAGE \<Rightarrow> nat \<Rightarrow> dirent" where
  "dirent_at page c = (let e = dir_entries page ! c in
     \<lparr>de_name = d_name e, de_ino = d_ino e, de_mode = mode_of_type (d_type e), de_off = this_page_pos page * (MAX_DIR_ENTRIES_PER_PAGE + 1) + (c + 1)\<rparr>)"

text \<open>The loop over the entries of a page: whether the buffer is full, how much of it is used, and the entries in it.\<close>

fun fill_page :: "readdir_env \<Rightarrow> ino_t \<Rightarrow> nat \<Rightarrow> DIR_ENTRY_PAGE \<Rightarrow> nat list \<Rightarrow> nat \<Rightarrow> (FH_TABLE_TYPE, bool \<times> nat \<times> dirent list) sm" where
  "fill_page env ino sz page [] buf_pos = returnE (False, buf_pos, [])"
| "fill_page env ino sz page (c # cs) buf_pos = (let e = dir_entries page ! c; entry_size = ent_size env (d_name e) in
     bindE (modifyE (if restoring env \<and> d_name e \<noteq> ''.'' \<and> d_name e \<noteq> ''..'' then fh_emit [Rebuild_Parent (d_ino e) ino (d_type e)] else id)) (\<lambda>_.
     if entry_size > sz - buf_pos then returnE (True, buf_pos, [])
     else bindE (fill_page env ino sz page cs (buf_pos + entry_size)) (\<lambda>(full, n, ds). returnE (full, n, dirent_at page c # ds))))"

text \<open>
  One page, from the snapshot or the meta file.  The page of a small directory comes through the meta cache; a failure there is replied in place, which makes no difference because the
  snapshot is not in use.
\<close>

definition read_dir_page :: "readdir_env \<Rightarrow> ino_t \<Rightarrow> nat option \<Rightarrow> nat \<Rightarrow> (FH_TABLE_TYPE, DIR_ENTRY_PAGE) sm" where
  "read_dir_page env ino snap pos = (case snap of
     Some st \<Rightarrow> bindE fh_call (\<lambda>_. bindE fh_call_EIO (\<lambda>_ s. (Inr (rd_page env (stream_bytes s st) pos), s)))
   | None \<Rightarrow> bindE fh_call (\<lambda>_ s. (Inr (rd_page env (meta_files s ino) pos), s)))"

text \<open>The loop along the tree walk list.\<close>

partial_function (option) walk_pages :: "readdir_env \<Rightarrow> ino_t \<Rightarrow> nat \<Rightarrow> nat option \<Rightarrow> nat \<Rightarrow> nat \<Rightarrow> nat \<Rightarrow> dirent list \<Rightarrow> FH_TABLE_TYPE \<Rightarrow>
    ((failure + bool \<times> nat \<times> dirent list) \<times> FH_TABLE_TYPE) option" where
  "walk_pages env ino sz snap thisfile_pos page_start buf_pos ds s =
     (if thisfile_pos = 0 then Some (Inr (False, buf_pos, ds), s)
      else case read_dir_page env ino snap thisfile_pos s of
        (Inl f, s1) \<Rightarrow> Some (Inl f, s1)
      | (Inr page, s1) \<Rightarrow> (case fill_page env ino sz page [page_start..<num_entries page] buf_pos s1 of
            (Inl f, s2) \<Rightarrow> Some (Inl f, s2)
          | (Inr (full, n, es), s2) \<Rightarrow> if full then Some (Inr (True, n, ds @ es), s2)
              else walk_pages env ino sz snap (tree_walk_next page) 0 n (ds @ es) s2))"

text \<open>
  The wait for other readers of a snapshot: the first read of a directory (offset 0) drops the snapshot once no reader counts itself in \<^verbatim>\<open>snap_ref_sem\<close>.  Seen from the only running
  thread a positive count never falls.  The result is the stream to read from, if the snapshot is used.
\<close>

definition on_dirh :: "nat \<Rightarrow> (DIRH_ENTRY \<Rightarrow> DIRH_ENTRY) \<Rightarrow> FH_TABLE_TYPE \<Rightarrow> FH_TABLE_TYPE" where
  "on_dirh i f s = set_dirh i (f (direntry_table s i)) s"

definition drop_snapshot :: "nat \<Rightarrow> nat \<Rightarrow> (FH_TABLE_TYPE, unit) sm" where
  "drop_snapshot fh st = (\<lambda>s. if snap_ref_sem (direntry_table s fh) > 0 then (Inl Hang, s)
     else bindE fh_wait (\<lambda>_. bindE (fs_fclose st) (\<lambda>_.
       bindE (modifyE (\<lambda>s. (on_dirh fh (snapshot_ptr_update (\<lambda>_. None)) s)\<lparr>have_nonsnap_dir := True\<rparr>)) (\<lambda>_. fh_post))) s)"

definition choose_snapshot :: "nat \<Rightarrow> nat \<Rightarrow> (FH_TABLE_TYPE, nat option) sm" where
  "choose_snapshot fh offset = (\<lambda>s. case snapshot_ptr (direntry_table s fh) of None \<Rightarrow> (Inr None, s)
     | Some st \<Rightarrow>
         bindE (sem_wait (\<lambda>s. wait_ref_sem (direntry_table s fh)) (\<lambda>f. on_dirh fh (wait_ref_sem_update f))) (\<lambda>_.
         bindE (if offset = 0 then drop_snapshot fh st else returnE ()) (\<lambda>_.
         bindE (sem_post (\<lambda>f. on_dirh fh (wait_ref_sem_update f))) (\<lambda>_ s.
         if snapshot_ptr (direntry_table s fh) \<noteq> None \<and> offset \<noteq> 0
         then bindE (sem_post (\<lambda>f. on_dirh fh (snap_ref_sem_update f))) (\<lambda>_. returnE (snapshot_ptr (direntry_table s fh))) s
         else (Inr None, s)))) s)"

text \<open>\<^verbatim>\<open>sem_trywait\<close> on the count of readers, at two of the exits.\<close>

definition leave_snapshot :: "nat \<Rightarrow> nat option \<Rightarrow> FH_TABLE_TYPE \<Rightarrow> FH_TABLE_TYPE" where
  "leave_snapshot fh snap s = (if snap = None then s else on_dirh fh (snap_ref_sem_update (\<lambda>n. n - 1)) s)"

text \<open>The error exit \<^verbatim>\<open>errcode_handle\<close>, and the exits in place that only reply.\<close>

definition errcode_exit :: "nat \<Rightarrow> nat option \<Rightarrow> (FH_TABLE_TYPE, 'a) sm \<Rightarrow> ('a \<Rightarrow> (FH_TABLE_TYPE, readdir_reply) sm) \<Rightarrow> (FH_TABLE_TYPE, readdir_reply) sm" where
  "errcode_exit fh snap m k = (\<lambda>s. case m s of (Inr x, s') \<Rightarrow> k x s'
     | (Inl (Errno e), s') \<Rightarrow> (Inr (Rd_Err e), leave_snapshot fh snap s') | (Inl f, s') \<Rightarrow> (Inl f, s'))"

definition reply_exit :: "(FH_TABLE_TYPE, 'a) sm \<Rightarrow> ('a \<Rightarrow> (FH_TABLE_TYPE, readdir_reply) sm) \<Rightarrow> (FH_TABLE_TYPE, readdir_reply) sm" where
  "reply_exit m k = (\<lambda>s. case m s of (Inr x, s') \<Rightarrow> k x s' | (Inl (Errno e), s') \<Rightarrow> (Inr (Rd_Err e), s') | (Inl f, s') \<Rightarrow> (Inl f, s'))"

text \<open>Where to start: an offset is the position of a page and the number of an entry in it.\<close>

definition start_read :: "readdir_env \<Rightarrow> nat \<Rightarrow> DIR_META_TYPE \<Rightarrow> (FH_TABLE_TYPE, nat \<times> nat) sm" where
  "start_read env offset tempmeta =
     (if offset \<ge> MAX_DIR_ENTRIES_PER_PAGE
      then bindE (if meta_opened env then returnE () else fh_call) (\<lambda>_.
        returnE (offset div (MAX_DIR_ENTRIES_PER_PAGE + 1), offset mod (MAX_DIR_ENTRIES_PER_PAGE + 1)))
      else bindE (if total_children tempmeta > int (MAX_DIR_ENTRIES_PER_PAGE - 2) \<and> \<not> meta_opened env then fh_call else returnE ()) (\<lambda>_.
        returnE (tree_walk_list_head tempmeta, 0)))"

definition set_atime :: "readdir_env \<Rightarrow> ino_t \<Rightarrow> (FH_TABLE_TYPE, unit) sm" where
  "set_atime env ino = bindE fh_call (\<lambda>_. modifyE (\<lambda>s. s\<lparr>meta_files := (meta_files s)(ino := touch_atime env (meta_files s ino))\<rparr>))"

definition readdir_body :: "readdir_env \<Rightarrow> nat \<Rightarrow> ino_t \<Rightarrow> nat \<Rightarrow> nat \<Rightarrow> nat option \<Rightarrow> DIR_META_TYPE \<Rightarrow> (FH_TABLE_TYPE, readdir_reply) sm" where
  "readdir_body env fh ino sz offset snap tempmeta =
     bindE fh_alloc (\<lambda>ok. if \<not> ok then returnE (Rd_Err ENOMEM) else
     reply_exit (start_read env offset tempmeta) (\<lambda>(pos, page_start).
     errcode_exit fh snap (\<lambda>s. case walk_pages env ino sz snap pos page_start 0 [] s of None \<Rightarrow> (Inl Hang, s) | Some r \<Rightarrow> r) (\<lambda>(full, n, ds).
     if full then returnE (Rd_Buf ds)
     else reply_exit (if n > 0 then set_atime env ino else returnE ()) (\<lambda>_.
       bindE (modifyE (leave_snapshot fh snap)) (\<lambda>_. returnE (Rd_Buf ds))))))"

definition hfuse_ll_readdir :: "readdir_env \<Rightarrow> nat \<Rightarrow> ino_t \<Rightarrow> nat \<Rightarrow> nat \<Rightarrow> (FH_TABLE_TYPE, readdir_reply) sm" where
  "hfuse_ll_readdir env fh ino sz offset = (\<lambda>s.
     if fh \<ge> MAX_OPEN_FILE_ENTRIES then (Inl Crash, s)
     else if entry_table_flags s fh \<noteq> IS_DIRH then (Inr (Rd_Err EBADF), s)
     else if dirh_inode (direntry_table s fh) \<noteq> ino then (Inr (Rd_Err EBADF), s)
     else reply_exit fh_call (\<lambda>_. reply_exit fh_call (\<lambda>_ s1. let tempmeta = rd_meta env (meta_files s1 ino) in
       bindE (choose_snapshot fh offset) (\<lambda>snap. case snap of
         None \<Rightarrow> readdir_body env fh ino sz offset snap tempmeta
       | Some st \<Rightarrow> errcode_exit fh snap (bindE fh_call (\<lambda>_ s. (Inr (rd_meta env (stream_bytes s st)), s)))
           (readdir_body env fh ino sz offset snap)) s1)) s)"


subsection \<open>Opening and closing\<close>

text \<open>
  \<open>fetch\<close> is \<^verbatim>\<open>fetch_inode_stat\<close>, of which only whether the inode is a directory is used (\<^verbatim>\<open>check_permission\<close> allows everything); \<open>path_missing\<close> says that the volume is an external
  one without its path cache.  A reply is an error number or the handle.
\<close>

definition reply_open :: "(FH_TABLE_TYPE, nat) sm \<Rightarrow> (FH_TABLE_TYPE, errno + nat) sm" where
  "reply_open m = (\<lambda>s. case m s of (Inr fh, s') \<Rightarrow> (Inr (Inr fh), s') | (Inl (Errno e), s') \<Rightarrow> (Inr (Inl ENFILE), s') | (Inl f, s') \<Rightarrow> (Inl f, s'))"

definition hfuse_ll_opendir :: "(ino_t \<Rightarrow> errno + bool) \<Rightarrow> bool \<Rightarrow> ino_t \<Rightarrow> (FH_TABLE_TYPE, errno + nat) sm" where
  "hfuse_ll_opendir fetch path_missing thisinode = (case fetch thisinode of Inl e \<Rightarrow> returnE (Inl e)
     | Inr is_dir \<Rightarrow> if path_missing then returnE (Inl EIO) else if \<not> is_dir then returnE (Inl ENOTDIR) else reply_open (open_fh thisinode 0 True))"

definition hfuse_ll_open :: "(ino_t \<Rightarrow> errno + bool) \<Rightarrow> bool \<Rightarrow> ino_t \<Rightarrow> int \<Rightarrow> (FH_TABLE_TYPE, errno + nat) sm" where
  "hfuse_ll_open fetch path_missing thisinode file_flags = (if thisinode < 1 then returnE (Inl ENOENT) else case fetch thisinode of Inl e \<Rightarrow> returnE (Inl e)
     | Inr _ \<Rightarrow> if path_missing then returnE (Inl EIO) else reply_open (open_fh thisinode file_flags False))"

definition hfuse_ll_release :: "(ino_t \<Rightarrow> nat option) \<Rightarrow> ino_t \<Rightarrow> nat \<Rightarrow> (FH_TABLE_TYPE, errno) sm" where
  "hfuse_ll_release lock_entry thisinode fh = (\<lambda>s.
     if fh \<ge> MAX_OPEN_FILE_ENTRIES then (Inr EBADF, s)
     else if entry_table_flags s fh \<noteq> IS_FH then (Inr EBADF, s)
     else if fh_inode (entry_table s fh) \<noteq> thisinode then (Inr EBADF, s)
     else bindE (close_fh lock_entry fh) (\<lambda>_. returnE 0) s)"

definition hfuse_ll_releasedir :: "(ino_t \<Rightarrow> nat option) \<Rightarrow> ino_t \<Rightarrow> nat \<Rightarrow> (FH_TABLE_TYPE, errno) sm" where
  "hfuse_ll_releasedir lock_entry thisinode fh = (\<lambda>s.
     if fh \<ge> MAX_OPEN_FILE_ENTRIES then (Inr EBADF, s)
     else if entry_table_flags s fh \<noteq> IS_DIRH then (Inr EBADF, s)
     else if dirh_inode (direntry_table s fh) \<noteq> thisinode then (Inr EBADF, s)
     else bindE (close_fh lock_entry fh) (\<lambda>_. returnE 0) s)"

end
