(* ===== verification/File_Table_Inv.thy ===== *)
theory File_Table_Inv
  imports Readdir
begin

text \<open>
  The invariant \<open>fh_ok\<close> of the table of open files and its preservation by opening and closing.
\<close>

subsection \<open>The invariant\<close>

definition open_handles :: "FH_TABLE_TYPE \<Rightarrow> nat set" where
  "open_handles s = {i. i < MAX_OPEN_FILE_ENTRIES \<and> entry_table_flags s i \<noteq> NO_FH}"

text \<open>An open directory handle, and one that has no snapshot.\<close>

definition is_dirh :: "FH_TABLE_TYPE \<Rightarrow> nat \<Rightarrow> bool" where
  "is_dirh s i \<longleftrightarrow> i < MAX_OPEN_FILE_ENTRIES \<and> entry_table_flags s i = IS_DIRH"

definition snap_of :: "FH_TABLE_TYPE \<Rightarrow> nat \<Rightarrow> nat option" where
  "snap_of s i = snapshot_ptr (direntry_table s i)"

text \<open>The stream that closing a handle closes.\<close>

definition owned :: "FH_TABLE_TYPE \<Rightarrow> nat \<Rightarrow> nat option" where
  "owned s i = (case entry_table_flags s i of NO_FH \<Rightarrow> None | IS_DIRH \<Rightarrow> snap_of s i
     | IS_FH \<Rightarrow> if opened_block (entry_table s i) \<ge> 0 then blockfptr (entry_table s i) else None)"

text \<open>
  The lock is free, the open handles are counted, every handle owns its streams alone, and the flag that makes directory changes look for
  handles without a snapshot is set when there is one.
\<close>

definition fh_ok :: "FH_TABLE_TYPE \<Rightarrow> bool" where
  "fh_ok s \<longleftrightarrow> fh_table_sem s = 1 \<and> num_opened_files s = int (card (open_handles s)) \<and>
     (\<forall>st obj. fs_streams s st = Some obj \<longrightarrow> st < fs_fresh s \<and> obj < fs_fresh s) \<and>
     (\<forall>i < MAX_OPEN_FILE_ENTRIES. \<forall>st. owned s i = Some st \<longrightarrow> fs_streams s st \<noteq> None) \<and>
     (\<forall>i < MAX_OPEN_FILE_ENTRIES. \<forall>j < MAX_OPEN_FILE_ENTRIES. \<forall>st. owned s i = Some st \<longrightarrow> owned s j = Some st \<longrightarrow> i = j) \<and>
     (\<forall>i. is_dirh s i \<longrightarrow> snap_of s i = None \<longrightarrow> have_nonsnap_dir s)"

lemma fh_okD:
  assumes "fh_ok s"
  shows "fh_table_sem s = 1" "num_opened_files s = int (card (open_handles s))"
    "\<And>st obj. fs_streams s st = Some obj \<Longrightarrow> st < fs_fresh s \<and> obj < fs_fresh s"
    "\<And>i st. i < MAX_OPEN_FILE_ENTRIES \<Longrightarrow> owned s i = Some st \<Longrightarrow> fs_streams s st \<noteq> None"
    "\<And>i j st. i < MAX_OPEN_FILE_ENTRIES \<Longrightarrow> j < MAX_OPEN_FILE_ENTRIES \<Longrightarrow> owned s i = Some st \<Longrightarrow> owned s j = Some st \<Longrightarrow> i = j"
    "\<And>i. is_dirh s i \<Longrightarrow> snap_of s i = None \<Longrightarrow> have_nonsnap_dir s"
  using assms unfolding fh_ok_def by blast+

lemma finite_open_handles [simp]: "finite (open_handles s)"
  by (simp add: open_handles_def)

subsection \<open>Looking for a free element\<close>

lemma find_free_runs:
  assumes "i < MAX_OPEN_FILE_ENTRIES" and "flags j = NO_FH" and "j < MAX_OPEN_FILE_ENTRIES"
  shows "\<exists>k. find_free flags i = Some k \<and> k < MAX_OPEN_FILE_ENTRIES \<and> flags k = NO_FH"
  using assms(1)
proof (induction "if i \<le> j then j - i else j + MAX_OPEN_FILE_ENTRIES - i" arbitrary: i rule: less_induct)
  case less
  show ?case
  proof (cases "flags i = NO_FH")
    case True
    then show ?thesis using less.prems by (subst find_free.simps) simp
  next
    case False
    have "i \<noteq> j" using False assms(2) by auto
    let ?i = "if i + 1 = MAX_OPEN_FILE_ENTRIES then 0 else i + 1"
    have i: "(i + 1) mod MAX_OPEN_FILE_ENTRIES = ?i" using less.prems by simp
    have "?i < MAX_OPEN_FILE_ENTRIES" using less.prems by simp
    moreover have "(if ?i \<le> j then j - ?i else j + MAX_OPEN_FILE_ENTRIES - ?i) < (if i \<le> j then j - i else j + MAX_OPEN_FILE_ENTRIES - i)"
      using \<open>i \<noteq> j\<close> less.prems assms(3) by (cases "i + 1 = MAX_OPEN_FILE_ENTRIES"; cases "i \<le> j") simp_all
    ultimately obtain k where "find_free flags ?i = Some k" "k < MAX_OPEN_FILE_ENTRIES" "flags k = NO_FH" using less.hyps by blast
    then show ?thesis using False by (subst find_free.simps) (simp only: i if_True, simp)
  qed
qed

lemma free_exists:
  assumes "num_opened_files s < int MAX_OPEN_FILE_ENTRIES" and "num_opened_files s = int (card (open_handles s))"
  obtains j where "j < MAX_OPEN_FILE_ENTRIES" "entry_table_flags s j = NO_FH"
proof -
  have "\<exists>j < MAX_OPEN_FILE_ENTRIES. entry_table_flags s j = NO_FH"
  proof (rule ccontr)
    assume "\<not> ?thesis"
    then have "open_handles s = {j. j < MAX_OPEN_FILE_ENTRIES}" unfolding open_handles_def by blast
    then have "card (open_handles s) = MAX_OPEN_FILE_ENTRIES" by (simp only: card_Collect_less_nat)
    then show False using assms by simp
  qed
  then show ?thesis using that by blast
qed


subsection \<open>Opening\<close>

lemmas fh_updates = set_flag_def set_fh_def set_dirh_def

definition opened :: "bool \<Rightarrow> nat \<Rightarrow> ino_t \<Rightarrow> int \<Rightarrow> FH_TABLE_TYPE \<Rightarrow> FH_TABLE_TYPE" where
  "opened isdir i thisinode fl s = (let s1 = (if isdir
       then (set_dirh i (new_dirh thisinode fl) (set_flag i IS_DIRH s))\<lparr>have_nonsnap_dir := True\<rparr>
       else set_fh i (new_fh thisinode fl) (set_flag i IS_FH s)) in s1\<lparr>num_opened_files := num_opened_files s + 1\<rparr>)"

lemma opened_fields [simp]:
  "entry_table_flags (opened isdir i ino fl s) = (entry_table_flags s)(i := if isdir then IS_DIRH else IS_FH)"
  "fs_streams (opened isdir i ino fl s) = fs_streams s" "fs_objects (opened isdir i ino fl s) = fs_objects s" "fs_fresh (opened isdir i ino fl s) = fs_fresh s" "fs_snap_link (opened isdir i ino fl s) = fs_snap_link s"
  "fh_table_sem (opened isdir i ino fl s) = fh_table_sem s" "fh_os (opened isdir i ino fl s) = fh_os s" "meta_files (opened isdir i ino fl s) = meta_files s"
  "j \<noteq> i \<Longrightarrow> direntry_table (opened isdir i ino fl s) j = direntry_table s j" "j \<noteq> i \<Longrightarrow> entry_table (opened isdir i ino fl s) j = entry_table s j"
  "isdir \<Longrightarrow> direntry_table (opened isdir i ino fl s) i = new_dirh ino fl" "\<not> isdir \<Longrightarrow> entry_table (opened isdir i ino fl s) i = new_fh ino fl"
  "num_opened_files (opened isdir i ino fl s) = num_opened_files s + 1"
  "have_nonsnap_dir (opened isdir i ino fl s) = (isdir \<or> have_nonsnap_dir s)"
  by (simp_all add: opened_def fh_updates)

lemma opened_ok:
  assumes ok: "fh_ok s" and i: "i < MAX_OPEN_FILE_ENTRIES" "entry_table_flags s i = NO_FH"
  shows "fh_ok (opened isdir i ino fl s)"
proof -
  let ?s = "opened isdir i ino fl s"
  have "open_handles ?s = insert i (open_handles s)" "i \<notin> open_handles s" using i by (auto simp: open_handles_def)
  then have "num_opened_files ?s = int (card (open_handles ?s))" using fh_okD(2) [OF ok] by simp
  moreover have o: "owned ?s j = owned s j" for j
    using i by (cases "j = i") (simp_all add: owned_def snap_of_def new_dirh_def new_fh_def split: fh_flag.split)
  moreover have "is_dirh ?s j \<Longrightarrow> snap_of ?s j = None \<Longrightarrow> isdir \<or> have_nonsnap_dir s" for j
    using fh_okD(6) [OF ok, of j] by (cases "j = i") (auto simp: is_dirh_def snap_of_def split: if_splits)
  ultimately show ?thesis using ok unfolding fh_ok_def by (simp add: o)
qed

lemma open_fh_full: "fh_ok s \<Longrightarrow> num_opened_files s \<ge> int MAX_OPEN_FILE_ENTRIES \<Longrightarrow> open_fh ino fl isdir s = (Inl (Errno EMFILE), s)"
  by (simp add: open_fh_def fh_wait_def fh_post_def sem_wait_def sem_post_def fh_okD(1))

lemma open_fh_runs:
  assumes ok: "fh_ok s" and room: "num_opened_files s < int MAX_OPEN_FILE_ENTRIES"
  obtains i where "open_fh ino fl isdir s = (Inr i, opened isdir i ino fl s)" "i < MAX_OPEN_FILE_ENTRIES" "entry_table_flags s i = NO_FH"
proof -
  obtain j where j: "j < MAX_OPEN_FILE_ENTRIES" "entry_table_flags s j = NO_FH" using free_exists [OF room fh_okD(2) [OF ok]] .
  have "last_available_index s mod MAX_OPEN_FILE_ENTRIES < MAX_OPEN_FILE_ENTRIES" by simp
  then obtain i where i: "find_free (entry_table_flags s) (last_available_index s mod MAX_OPEN_FILE_ENTRIES) = Some i" "i < MAX_OPEN_FILE_ENTRIES" "entry_table_flags s i = NO_FH"
    using find_free_runs [where flags = "entry_table_flags s", OF _ j(2,1)] by blast
  have "open_fh ino fl isdir s = (Inr i, opened isdir i ino fl s)"
    using i(1) room fh_okD(1) [OF ok] by (simp add: open_fh_def fh_wait_def fh_post_def sem_wait_def sem_post_def opened_def fh_updates)
  then show ?thesis using that i(2,3) by blast
qed


subsection \<open>Closing\<close>

text \<open>What a closed handle leaves: its stream is closed, its entry \<open>free\<close>.\<close>

definition released :: "nat \<Rightarrow> FH_TABLE_TYPE \<Rightarrow> FH_TABLE_TYPE \<Rightarrow> bool" where
  "released i s s' \<longleftrightarrow> entry_table_flags s' = (entry_table_flags s)(i := NO_FH) \<and> num_opened_files s' = num_opened_files s - 1 \<and> last_available_index s' = i \<and>
     fs_streams s' = (case owned s i of None \<Rightarrow> fs_streams s | Some st \<Rightarrow> (fs_streams s)(st := None)) \<and>
     (\<forall>j. j \<noteq> i \<longrightarrow> direntry_table s' j = direntry_table s j \<and> entry_table s' j = entry_table s j) \<and>
     fs_objects s' = fs_objects s \<and> fs_fresh s' = fs_fresh s \<and> fs_snap_link s' = fs_snap_link s \<and> meta_files s' = meta_files s \<and> fh_os s' = fh_os s \<and>
     fh_table_sem s' = 1 \<and> have_nonsnap_dir s' = have_nonsnap_dir s"

lemma released_ok:
  assumes ok: "fh_ok s" and i: "i < MAX_OPEN_FILE_ENTRIES" "entry_table_flags s i \<noteq> NO_FH" and r: "released i s s'"
  shows "fh_ok s'"
proof -
  have f: "entry_table_flags s' = (entry_table_flags s)(i := NO_FH)" "fs_fresh s' = fs_fresh s" "have_nonsnap_dir s' = have_nonsnap_dir s"
    and e: "\<And>j. j \<noteq> i \<Longrightarrow> direntry_table s' j = direntry_table s j \<and> entry_table s' j = entry_table s j"
    and st: "fs_streams s' = (case owned s i of None \<Rightarrow> fs_streams s | Some st \<Rightarrow> (fs_streams s)(st := None))" using r by (auto simp: released_def)
  have "open_handles s = insert i (open_handles s')" "i \<notin> open_handles s'" using i f by (auto simp: open_handles_def)
  then have "num_opened_files s' = int (card (open_handles s'))" using fh_okD(2) [OF ok] r by (simp add: released_def)
  moreover have o: "owned s' j = (if j = i then None else owned s j)" for j
    using e [of j] f by (cases "j = i") (simp_all add: owned_def snap_of_def split: fh_flag.split)
  moreover have "fs_streams s' st \<noteq> None" if "j < MAX_OPEN_FILE_ENTRIES" "j \<noteq> i" "owned s j = Some st" for j st
    using that st fh_okD(4) [OF ok that(1,3)] fh_okD(5) [OF ok that(1) i(1) that(3)] by (auto split: option.splits)
  moreover have "is_dirh s' j \<Longrightarrow> snap_of s' j = None \<Longrightarrow> have_nonsnap_dir s" for j
    using fh_okD(6) [OF ok, of j] e [of j] f by (cases "j = i") (auto simp: is_dirh_def snap_of_def)
  moreover have "st < fs_fresh s \<and> obj < fs_fresh s" if "fs_streams s' st = Some obj" for st obj
    using that fh_okD(3) [OF ok, of st obj] st by (auto split: option.splits if_splits)
  ultimately show ?thesis using fh_okD(5) [OF ok] r f unfolding fh_ok_def by (auto simp: o released_def split: if_splits)
qed

lemma fh_wait_run: "fh_table_sem s = 1 \<Longrightarrow> fh_wait s = (Inr (), s\<lparr>fh_table_sem := 0\<rparr>)"
  by (simp add: fh_wait_def sem_wait_def)

lemma fh_post_run: "fh_table_sem s = 0 \<Longrightarrow> fh_post s = (Inr (), s\<lparr>fh_table_sem := 1\<rparr>)"
  by (simp add: fh_post_def sem_post_def)

lemma fs_fclose_run: "fs_streams s st \<noteq> None \<Longrightarrow> fs_fclose st s = (Inr (), s\<lparr>fs_streams := (fs_streams s)(st := None)\<rparr>)"
  by (simp add: fs_fclose_def)

text \<open>The stream of a handle is closed, if there is one.\<close>

definition close_owned :: "nat option \<Rightarrow> FH_TABLE_TYPE \<Rightarrow> FH_TABLE_TYPE" where
  "close_owned ow s = (case ow of None \<Rightarrow> s | Some st \<Rightarrow> s\<lparr>fs_streams := (fs_streams s)(st := None)\<rparr>)"

lemma close_owned_run:
  "ow = None \<or> fs_streams s (the ow) \<noteq> None \<Longrightarrow> (case ow of None \<Rightarrow> returnE () | Some st \<Rightarrow> fs_fclose st) s = (Inr (), close_owned ow s)"
  by (auto simp: close_owned_def fs_fclose_run split: option.split)

lemma close_owned_fields [simp]:
  "entry_table_flags (close_owned ow s) = entry_table_flags s" "entry_table (close_owned ow s) = entry_table s" "direntry_table (close_owned ow s) = direntry_table s"
  "num_opened_files (close_owned ow s) = num_opened_files s" "fh_table_sem (close_owned ow s) = fh_table_sem s" "fs_objects (close_owned ow s) = fs_objects s"
  "fs_fresh (close_owned ow s) = fs_fresh s" "fs_snap_link (close_owned ow s) = fs_snap_link s" "meta_files (close_owned ow s) = meta_files s" "fh_os (close_owned ow s) = fh_os s"
  "have_nonsnap_dir (close_owned ow s) = have_nonsnap_dir s"
  "fs_streams (close_owned ow s) = (case ow of None \<Rightarrow> fs_streams s | Some st \<Rightarrow> (fs_streams s)(st := None))"
  by (simp_all add: close_owned_def split: option.split)

lemma close_fh_file:
  assumes ok: "fh_ok s" and i: "i < MAX_OPEN_FILE_ENTRIES" "entry_table_flags s i = IS_FH"
  obtains s' where "close_fh lock_entry i s = (Inr 0, s')" "released i s s'"
proof -
  let ?e = "entry_table s i" and ?s0 = "s\<lparr>fh_table_sem := 0\<rparr>"
  have st: "blockfptr ?e = Some st \<Longrightarrow> opened_block ?e \<ge> 0 \<Longrightarrow> fs_streams s st \<noteq> None" for st using fh_okD(4) [OF ok i(1)] i(2) by (simp add: owned_def)
  have c: "close_file_entry i ?s0 = (Inr (), (close_owned (owned s i) ?s0)\<lparr>entry_table_flags := (entry_table_flags s)(i := NO_FH), last_available_index := i,
        entry_table := (entry_table s)(i := ?e\<lparr>meta_cache_locked := False, fh_inode := 0, meta_cache_ptr := None, blockfptr := None, opened_block := - 1\<rparr>)\<rparr>)"
    using i(2) st by (cases "blockfptr ?e"; cases "opened_block ?e \<ge> 0") (auto simp: close_file_entry_def Let_def fh_updates owned_def close_owned_def fs_fclose_run)
  then have r: "close_fh lock_entry i s = close_cached lock_entry (meta_cache_locked ?e) (meta_cache_ptr ?e) (fh_inode ?e)
      ((close_owned (owned s i) ?s0)\<lparr>entry_table_flags := (entry_table_flags s)(i := NO_FH), last_available_index := i,
        entry_table := (entry_table s)(i := ?e\<lparr>meta_cache_locked := False, fh_inode := 0, meta_cache_ptr := None, blockfptr := None, opened_block := - 1\<rparr>),
        num_opened_files := num_opened_files s - 1, fh_table_sem := 1\<rparr>)" (is "_ = close_cached _ _ _ _ ?s")
    using i fh_okD(1) [OF ok] by (simp add: close_fh_def fh_wait_run fh_post_run Let_def)
  have "\<exists>es. close_cached lock_entry (meta_cache_locked ?e) (meta_cache_ptr ?e) (fh_inode ?e) ?s = (Inr 0, fh_emit es ?s)"
    by (auto simp: close_cached_def fh_emit_def split: option.splits)
  then obtain es where es: "close_fh lock_entry i s = (Inr 0, fh_emit es ?s)" unfolding r by blast
  then show ?thesis by (rule that) (simp add: released_def fh_emit_def split: option.split)
qed

lemma close_fh_dir:
  assumes ok: "fh_ok s" and i: "i < MAX_OPEN_FILE_ENTRIES" "entry_table_flags s i = IS_DIRH"
  obtains s' where "close_fh lock_entry i s = (Inr 0, s')" "released i s s'"
proof -
  let ?e = "direntry_table s i" and ?s0 = "s\<lparr>fh_table_sem := 0\<rparr>"
  have "(case snapshot_ptr ?e of None \<Rightarrow> returnE () | Some st \<Rightarrow> fs_fclose st) ?s0 = (Inr (), close_owned (snapshot_ptr ?e) ?s0)"
    by (rule close_owned_run) (use fh_okD(4) [OF ok i(1)] i(2) in \<open>cases "snapshot_ptr ?e"; simp add: owned_def snap_of_def\<close>)
  then have "close_fh lock_entry i s = (Inr 0, (close_owned (snapshot_ptr ?e) ?s0)\<lparr>entry_table_flags := (entry_table_flags s)(i := NO_FH), last_available_index := i,
      direntry_table := (direntry_table s)(i := ?e\<lparr>snapshot_ptr := None, dirh_inode := 0\<rparr>), num_opened_files := num_opened_files s - 1, fh_table_sem := 1\<rparr>)"
    using i fh_okD(1) [OF ok] by (simp add: close_fh_def fh_wait_run fh_post_run close_dir_entry_def fh_updates Let_def)
  then show ?thesis by (rule that) (simp add: released_def owned_def snap_of_def i split: option.split)
qed

end
