(* ===== verification/Dir_Snapshot.thy ===== *)
theory Dir_Snapshot
  imports File_Table_Inv
begin

text \<open>
  What \<^verbatim>\<open>handle_dirmeta_snapshot\<close> does when no call fails: every handle of the directory that has no snapshot gets one with the bytes of the meta file, and
  nothing else that a handle can see changes.
\<close>

subsection \<open>Calls that do not fail\<close>

lemma os_same [simp]: "fh_os s = [] \<Longrightarrow> s\<lparr>fh_os := []\<rparr> = s"
  by (cases s) simp

lemma call_ok [simp]: "fh_os s = [] \<Longrightarrow> fh_call s = (Inr (), s)" "fh_os s = [] \<Longrightarrow> fh_call_EIO s = (Inr (), s)"
  by (simp_all add: fh_call_def fh_call_EIO_def)

lemma bind_run: "m s = (Inr x, s') \<Longrightarrow> f x s' = r \<Longrightarrow> bindE m f s = r"
  by simp

lemma on_table_run: "m s = (r, s') \<Longrightarrow> on_table m (s, v) = (r, (s', v))"
  by (simp add: on_table_def)

lemma on_vars_run [simp]: "on_vars f (s, v) = (Inr (), (s, f v))"
  by (simp add: on_vars_def)

lemma fs_write_run: "fh_os s = [] \<Longrightarrow> fs_streams s st = Some obj \<Longrightarrow> fs_write st bs s = (Inr (), s\<lparr>fs_objects := (fs_objects s)(obj := fs_objects s obj @ bs)\<rparr>)"
  by (simp add: fs_write_def)

lemma copy_meta_run:
  "fh_os s = [] \<Longrightarrow> fs_streams s st = Some obj \<Longrightarrow> copy_meta rest st s = (Inr (), s\<lparr>fs_objects := (fs_objects s)(obj := fs_objects s obj @ rest)\<rparr>)"
proof (induction "length rest" arbitrary: rest s rule: less_induct)
  case less
  show ?case
  proof (cases "rest = []")
    case True
    then show ?thesis using less.prems by (subst copy_meta.simps) simp
  next
    case False
    let ?s = "s\<lparr>fs_objects := (fs_objects s)(obj := fs_objects s obj @ take 4096 rest)\<rparr>"
    have w: "fs_write st (take 4096 rest) s = (Inr (), ?s)" using less.prems by (rule fs_write_run)
    show ?thesis
    proof (cases "length rest < 4096")
      case True
      then show ?thesis using less.prems w False by (subst copy_meta.simps) simp
    next
      case F: False
      have "copy_meta (drop 4096 rest) st ?s = (Inr (), ?s\<lparr>fs_objects := (fs_objects ?s)(obj := fs_objects ?s obj @ drop 4096 rest)\<rparr>)"
        by (rule less.hyps) (use less.prems False F in simp_all)
      then show ?thesis using less.prems w False F by (subst copy_meta.simps) simp
    qed
  qed
qed

subsection \<open>The copy\<close>

definition streams_sane :: "FH_TABLE_TYPE \<Rightarrow> bool" where
  "streams_sane s \<longleftrightarrow> (\<forall>st obj. fs_streams s st = Some obj \<longrightarrow> st < fs_fresh s \<and> obj < fs_fresh s)"

definition copied :: "ino_t \<Rightarrow> FH_TABLE_TYPE \<Rightarrow> FH_TABLE_TYPE" where
  "copied d s = s\<lparr>fs_objects := (fs_objects s)(fs_fresh s := meta_files s d), fs_snap_link := Some (fs_fresh s), fs_fresh := fs_fresh s + 2\<rparr>"

lemma streams_sane_None: "streams_sane s \<Longrightarrow> fs_fresh s \<le> st \<Longrightarrow> fs_streams s st = None"
  by (meson leD not_Some_eq streams_sane_def)

lemma create_snapshot_run:
  assumes os: "fh_os s = []" and sane: "streams_sane s"
  shows "create_snapshot d (s, v) = (Inr (), (copied d s, v\<lparr>snapfptr := Some (fs_fresh s + 1), snap_created := True\<rparr>))"
proof -
  let ?o = "fs_fresh s"
  have u: "on_table (\<lambda>s. if fs_snap_link s \<noteq> None then bindE fh_call (\<lambda>_. modifyE unlink_snap) s else (Inr (), s)) (s, v) = (Inr (), (unlink_snap s, v))"
  proof (cases "fs_snap_link s")
    case None
    then have "unlink_snap s = s" by (cases s) (simp add: unlink_snap_def)
    then show ?thesis using None by (simp add: on_table_def)
  next
    case (Some a)
    then show ?thesis using os by (simp add: on_table_def)
  qed
  have n: "fs_streams s (?o + 1) = None" by (rule streams_sane_None [OF sane]) simp
  let ?s1 = "(unlink_snap s)\<lparr>fs_objects := (fs_objects s)(?o := []), fs_snap_link := Some ?o, fs_fresh := ?o + 2, fs_streams := (fs_streams s)(?o + 1 \<mapsto> ?o)\<rparr>"
  have w: "fopen_w (unlink_snap s) = (Inr (?o + 1), ?s1)"
    using os by (cases s) (simp add: fopen_w_def unlink_snap_def new_stream_def)
  have c: "copy_meta (meta_files s d) (?o + 1) (?s1\<lparr>meta_pos := m\<rparr>) = (Inr (), (?s1\<lparr>meta_pos := m\<rparr>)\<lparr>fs_objects := (fs_objects s)(?o := meta_files s d)\<rparr>)" for m
    using copy_meta_run [of "?s1\<lparr>meta_pos := m\<rparr>" "?o + 1" ?o "meta_files s d"] os by (simp add: unlink_snap_def)
  let ?v = "v\<lparr>snapfptr := Some (?o + 1)\<rparr>"
  have t: "on_table (bindE fh_call (\<lambda>_ s. (Inr (meta_pos s d), s))) (unlink_snap s, v) = (Inr (meta_pos s d), (unlink_snap s, v))"
    by (rule on_table_run) (use os in \<open>simp add: unlink_snap_def\<close>)
  have z: "on_table (bindE fh_call (\<lambda>_. modifyE (\<lambda>s. s\<lparr>meta_pos := (meta_pos s)(d := 0)\<rparr>))) (?s1, ?v) = (Inr (), (?s1\<lparr>meta_pos := (meta_pos s)(d := 0)\<rparr>, ?v))"
    by (rule on_table_run) (use os in \<open>simp add: unlink_snap_def\<close>)
  let ?s2 = "(?s1\<lparr>meta_pos := (meta_pos s)(d := 0)\<rparr>)\<lparr>fs_objects := (fs_objects s)(?o := meta_files s d), meta_pos := (meta_pos s)(d := length (meta_files s d))\<rparr>"
  have cp: "on_table (\<lambda>s. bindE (copy_meta (meta_files s d) (?o + 1)) (\<lambda>_. modifyE (\<lambda>s. s\<lparr>meta_pos := (meta_pos s)(d := length (meta_files s d))\<rparr>)) s)
      (?s1\<lparr>meta_pos := (meta_pos s)(d := 0)\<rparr>, ?v) = (Inr (), (?s2, ?v))"
    by (rule on_table_run) (use c [of "(meta_pos s)(d := 0)"] in \<open>simp add: unlink_snap_def\<close>)
  have b: "on_table (bindE fh_call (\<lambda>_. modifyE (\<lambda>x. x\<lparr>meta_pos := (meta_pos x)(d := meta_pos s d)\<rparr>))) (?s2, ?v) = (Inr (), (?s2\<lparr>meta_pos := meta_pos s\<rparr>, ?v))"
    by (rule on_table_run) (use os in \<open>simp add: unlink_snap_def\<close>)
  have "(?s2\<lparr>meta_pos := meta_pos s\<rparr>)\<lparr>fs_streams := (fs_streams s)(?o + 1 := None)\<rparr> = copied d s"
    using n by (cases s) (simp add: copied_def unlink_snap_def fun_upd_idem)
  then have cl: "on_table (fs_fclose (?o + 1)) (?s2\<lparr>meta_pos := meta_pos s\<rparr>, ?v) = (Inr (), (copied d s, ?v))"
    by (intro on_table_run) (simp add: fs_fclose_run)
  have w': "on_table fopen_w (unlink_snap s, v\<lparr>snapfptr := None\<rparr>) = (Inr (?o + 1), (?s1, v\<lparr>snapfptr := None\<rparr>))"
    by (rule on_table_run) (rule w)
  have v: "on_vars (\<lambda>v. v\<lparr>snapfptr := None\<rparr>) (unlink_snap s, v) = (Inr (), (unlink_snap s, v\<lparr>snapfptr := None\<rparr>))"
    "on_vars (\<lambda>v. v\<lparr>snapfptr := Some (?o + 1)\<rparr>) (?s1, v\<lparr>snapfptr := None\<rparr>) = (Inr (), (?s1, ?v))" by simp_all
  show ?thesis unfolding create_snapshot_def
    by (rule bind_run, rule u, rule bind_run, rule t, rule bind_run, rule v(1), rule bind_run, rule w', rule bind_run, rule v(2),
        rule bind_run, rule z, rule bind_run, rule cp, rule bind_run, rule b, rule bind_run, rule cl) simp
qed


subsection \<open>The loop over the handles\<close>

text \<open>A handle that gets a snapshot of directory \<open>d\<close>, and one that keeps the scan necessary.\<close>

definition needs_snap :: "ino_t \<Rightarrow> FH_TABLE_TYPE \<Rightarrow> nat \<Rightarrow> bool" where
  "needs_snap d s i \<longleftrightarrow> entry_table_flags s i = IS_DIRH \<and> snap_of s i = None \<and> dirh_inode (direntry_table s i) = d"

definition stays_open :: "ino_t \<Rightarrow> FH_TABLE_TYPE \<Rightarrow> nat \<Rightarrow> bool" where
  "stays_open d s i \<longleftrightarrow> entry_table_flags s i = IS_DIRH \<and> snap_of s i = None \<and> dirh_inode (direntry_table s i) \<noteq> d"

text \<open>The entry of a handle with its new snapshot, open on a copy of the bytes \<open>bs\<close>.\<close>

definition has_copy :: "string \<Rightarrow> FH_TABLE_TYPE \<Rightarrow> FH_TABLE_TYPE \<Rightarrow> nat \<Rightarrow> nat \<Rightarrow> bool" where
  "has_copy bs s0 s i st \<longleftrightarrow> direntry_table s i = (direntry_table s0 i)\<lparr>snapshot_ptr := Some st, snap_ref_sem := 0, wait_ref_sem := 1\<rparr> \<and>
     fs_fresh s0 \<le> st \<and> (\<exists>obj. fs_streams s st = Some obj \<and> fs_objects s obj = bs)"

text \<open>Streams that were open stay open on the same bytes.\<close>

definition keeps_streams :: "FH_TABLE_TYPE \<Rightarrow> FH_TABLE_TYPE \<Rightarrow> bool" where
  "keeps_streams s s' \<longleftrightarrow> fs_fresh s \<le> fs_fresh s' \<and> streams_sane s' \<and>
     (\<forall>st obj. fs_streams s st = Some obj \<longrightarrow> fs_streams s' st = Some obj \<and> fs_objects s' obj = fs_objects s obj)"

definition same_table :: "FH_TABLE_TYPE \<Rightarrow> FH_TABLE_TYPE \<Rightarrow> bool" where
  "same_table s s' \<longleftrightarrow> entry_table_flags s' = entry_table_flags s \<and> entry_table s' = entry_table s \<and> num_opened_files s' = num_opened_files s \<and>
     fh_table_sem s' = fh_table_sem s \<and> meta_files s' = meta_files s \<and> fh_os s' = fh_os s"

definition snap_inv :: "ino_t \<Rightarrow> FH_TABLE_TYPE \<Rightarrow> nat set \<Rightarrow> FH_TABLE_TYPE \<Rightarrow> snap_vars \<Rightarrow> bool" where
  "snap_inv d s0 P s v \<longleftrightarrow> same_table s0 s \<and> fh_os s = [] \<and> keeps_streams s0 s \<and>
     (snap_created v \<longrightarrow> (\<exists>obj. fs_snap_link s = Some obj \<and> obj < fs_fresh s \<and> fs_objects s obj = meta_files s0 d)) \<and>
     (\<forall>i. i \<in> P \<longrightarrow> needs_snap d s0 i \<longrightarrow> (\<exists>st. has_copy (meta_files s0 d) s0 s i st)) \<and>
     (\<forall>i. i \<notin> P \<or> \<not> needs_snap d s0 i \<longrightarrow> direntry_table s i = direntry_table s0 i) \<and>
     (\<forall>i j st. i \<in> P \<longrightarrow> j \<in> P \<longrightarrow> needs_snap d s0 i \<longrightarrow> needs_snap d s0 j \<longrightarrow> snap_of s i = Some st \<longrightarrow> snap_of s j = Some st \<longrightarrow> i = j) \<and>
     (have_opened_nonsnap v \<longleftrightarrow> (\<exists>i \<in> P. stays_open d s0 i))"

lemma snap_invD:
  assumes "snap_inv d s0 P s v"
  shows "same_table s0 s" "fh_os s = []" "keeps_streams s0 s"
    "snap_created v \<Longrightarrow> \<exists>obj. fs_snap_link s = Some obj \<and> obj < fs_fresh s \<and> fs_objects s obj = meta_files s0 d"
    "\<And>i. i \<in> P \<Longrightarrow> needs_snap d s0 i \<Longrightarrow> \<exists>st. has_copy (meta_files s0 d) s0 s i st"
    "\<And>i. i \<notin> P \<or> \<not> needs_snap d s0 i \<Longrightarrow> direntry_table s i = direntry_table s0 i"
    "\<And>i j st. i \<in> P \<Longrightarrow> j \<in> P \<Longrightarrow> needs_snap d s0 i \<Longrightarrow> needs_snap d s0 j \<Longrightarrow> snap_of s i = Some st \<Longrightarrow> snap_of s j = Some st \<Longrightarrow> i = j"
    "have_opened_nonsnap v \<longleftrightarrow> (\<exists>i \<in> P. stays_open d s0 i)"
  using assms unfolding snap_inv_def by blast+

text \<open>A step that only adds streams and objects and leaves the entries alone keeps the invariant.\<close>

lemma keeps_streams_trans: "keeps_streams s s' \<Longrightarrow> keeps_streams s' s'' \<Longrightarrow> keeps_streams s s''"
  unfolding keeps_streams_def by (metis order_trans)

lemma has_copy_keeps: "has_copy bs s0 s i st \<Longrightarrow> keeps_streams s s' \<Longrightarrow> direntry_table s' i = direntry_table s i \<Longrightarrow> has_copy bs s0 s' i st"
  by (auto simp: has_copy_def keeps_streams_def)

lemma copied_keeps: "streams_sane s \<Longrightarrow> keeps_streams s (copied d s)"
  by (fastforce simp: keeps_streams_def copied_def streams_sane_def)

lemma snap_inv_copied:
  assumes inv: "snap_inv d s0 P s v" and v: "have_opened_nonsnap v' = have_opened_nonsnap v"
  shows "snap_inv d s0 P (copied d s) v'"
proof -
  note i = snap_invD [OF inv]
  have k: "keeps_streams s (copied d s)" using i(3) by (intro copied_keeps) (simp add: keeps_streams_def)
  have e: "direntry_table (copied d s) = direntry_table s" "snap_of (copied d s) = snap_of s" by (auto simp: copied_def snap_of_def)
  have "\<exists>st. has_copy (meta_files s0 d) s0 (copied d s) j st" if "j \<in> P" "needs_snap d s0 j" for j
    using i(5) [OF that] has_copy_keeps [OF _ k] e(1) by metis
  moreover have "same_table s0 (copied d s)" "fh_os (copied d s) = []" using i(1,2) by (simp_all add: same_table_def copied_def)
  moreover have "fs_objects (copied d s) (fs_fresh s) = meta_files s0 d" using i(1) by (simp add: copied_def same_table_def)
  moreover have "fs_snap_link (copied d s) = Some (fs_fresh s)" "fs_fresh s < fs_fresh (copied d s)" by (simp_all add: copied_def)
  ultimately show ?thesis unfolding snap_inv_def using i(6,7,8) keeps_streams_trans [OF i(3) k] v e by auto
qed


lemma snap_inv_open:
  assumes inv: "snap_inv d s0 P s v" and v: "snap_created v" and iP: "i \<notin> P" and n: "needs_snap d s0 i"
  obtains s1 where "fopen_r s = (Inr (fs_fresh s), s1)"
    "snap_inv d s0 (insert i P) (set_dirh i ((direntry_table s0 i)\<lparr>snapshot_ptr := Some (fs_fresh s), snap_ref_sem := 0, wait_ref_sem := 1\<rparr>) s1) v"
proof -
  note I = snap_invD [OF inv]
  obtain obj where obj: "fs_snap_link s = Some obj" "obj < fs_fresh s" "fs_objects s obj = meta_files s0 d" using I(4) [OF v] by blast
  let ?st = "fs_fresh s"
  let ?s1 = "s\<lparr>fs_streams := (fs_streams s)(?st \<mapsto> obj), fs_fresh := ?st + 1\<rparr>"
  let ?e = "(direntry_table s0 i)\<lparr>snapshot_ptr := Some ?st, snap_ref_sem := 0, wait_ref_sem := 1\<rparr>"
  let ?s2 = "set_dirh i ?e ?s1"
  have run: "fopen_r s = (Inr ?st, ?s1)" using obj I(2) by (simp add: fopen_r_def new_stream_def)
  have sane: "streams_sane s" "fs_fresh s0 \<le> ?st" using I(3) by (simp_all add: keeps_streams_def)
  have nn: "fs_streams s ?st = None" by (rule streams_sane_None [OF sane(1)]) simp
  have k: "keeps_streams s ?s2" using sane obj(2) nn unfolding keeps_streams_def streams_sane_def set_dirh_def
    by (auto simp: less_Suc_eq split: if_splits)
  have ci: "has_copy (meta_files s0 d) s0 ?s2 i ?st" using obj(3) sane(2) by (simp add: has_copy_def set_dirh_def)
  have oth: "direntry_table ?s2 j = direntry_table s j" "snap_of ?s2 j = snap_of s j" if "j \<noteq> i" for j using that by (simp_all add: set_dirh_def snap_of_def)
  have c: "\<exists>st. has_copy (meta_files s0 d) s0 ?s2 j st" if "j \<in> insert i P" "needs_snap d s0 j" for j
    using that ci I(5) [of j] has_copy_keeps [OF _ k] oth(1) iP by (cases "j = i") (auto, metis)
  have u: "direntry_table ?s2 j = direntry_table s0 j" if "j \<notin> insert i P \<or> \<not> needs_snap d s0 j" for j
    using that n oth(1) [of j] I(6) [of j] by (cases "j = i") auto
  have lt: "st < ?st" if "j \<in> P" "needs_snap d s0 j" "snap_of s j = Some st" for j st
    using I(5) [OF that(1,2)] that(3) sane(1) unfolding has_copy_def snap_of_def streams_sane_def by auto
  have ds: "j = k" if "j \<in> insert i P" "k \<in> insert i P" "needs_snap d s0 j" "needs_snap d s0 k" "snap_of ?s2 j = Some st" "snap_of ?s2 k = Some st" for j k st
  proof (cases "j = i \<or> k = i")
    case True
    have "snap_of ?s2 i = Some ?st" by (simp add: snap_of_def set_dirh_def)
    then show ?thesis using True that lt [of j st] lt [of k st] oth(2) by (cases "j = i"; cases "k = i") auto
  next
    case False
    then show ?thesis using that I(7) [of j k st] oth(2) by auto
  qed
  have "\<not> stays_open d s0 i" using n by (simp add: needs_snap_def stays_open_def)
  then have h: "have_opened_nonsnap v \<longleftrightarrow> (\<exists>j \<in> insert i P. stays_open d s0 j)" using I(8) by auto
  have t: "same_table s0 ?s2" "fh_os ?s2 = []" using I(1,2) by (simp_all add: same_table_def set_dirh_def)
  have l: "\<exists>obj. fs_snap_link ?s2 = Some obj \<and> obj < fs_fresh ?s2 \<and> fs_objects ?s2 obj = meta_files s0 d" using obj by (simp add: set_dirh_def)
  have "snap_inv d s0 (insert i P) ?s2 v"
    unfolding snap_inv_def using t keeps_streams_trans [OF I(3) k] l c u ds h by blast
  then show ?thesis using run that by blast
qed

lemma snap_inv_skip:
  assumes inv: "snap_inv d s0 P s v" and "\<not> needs_snap d s0 i" and h: "have_opened_nonsnap v' \<longleftrightarrow> have_opened_nonsnap v \<or> stays_open d s0 i" and c: "snap_created v' = snap_created v"
  shows "snap_inv d s0 (insert i P) s v'"
proof -
  note I = snap_invD [OF inv]
  have "\<exists>st. has_copy (meta_files s0 d) s0 s j st" if "j \<in> insert i P" "needs_snap d s0 j" for j using that assms(2) I(5) by auto
  moreover have "j = k" if "j \<in> insert i P" "k \<in> insert i P" "needs_snap d s0 j" "needs_snap d s0 k" "snap_of s j = Some st" "snap_of s k = Some st" for j k st
    using that assms(2) I(7) [of j k st] by auto
  moreover have "have_opened_nonsnap v' \<longleftrightarrow> (\<exists>j \<in> insert i P. stays_open d s0 j)" using h I(8) by auto
  moreover have "direntry_table s j = direntry_table s0 j" if "j \<notin> insert i P \<or> \<not> needs_snap d s0 j" for j using that I(6) [of j] by auto
  ultimately show ?thesis unfolding snap_inv_def using I(1,2,3,4) c by blast
qed

lemma snapshot_entry_run:
  assumes inv: "snap_inv d s0 P s v" and iP: "i \<notin> P"
  obtains s' v' where "snapshot_entry d d i (s, v) = (Inr (), (s', v'))" "snap_inv d s0 (insert i P) s' v'"
proof -
  note I = snap_invD [OF inv]
  have e: "direntry_table s i = direntry_table s0 i" "entry_table_flags s i = entry_table_flags s0 i" using I(6) [of i] iP I(1) by (auto simp: same_table_def)
  consider "needs_snap d s0 i" | "stays_open d s0 i" | "\<not> needs_snap d s0 i" "\<not> stays_open d s0 i" by blast
  then show ?thesis
  proof cases
    case 1
    then have n: "entry_table_flags s i = IS_DIRH" "snapshot_ptr (direntry_table s i) = None" "dirh_inode (direntry_table s i) = d" using e by (simp_all add: needs_snap_def snap_of_def)
    obtain s1 v1 where c: "(if \<not> snap_created v then create_snapshot d else returnE ()) (s, v) = (Inr (), (s1, v1))" "snap_inv d s0 P s1 v1" "snap_created v1"
    proof (cases "snap_created v")
      case False
      have "streams_sane s" using I(3) by (simp add: keeps_streams_def)
      then show ?thesis using that [of "copied d s" "v\<lparr>snapfptr := Some (fs_fresh s + 1), snap_created := True\<rparr>"] create_snapshot_run [OF I(2)] snap_inv_copied [OF inv] False by simp
    qed (use that inv in simp)
    obtain s2 where o: "fopen_r s1 = (Inr (fs_fresh s1), s2)"
      "snap_inv d s0 (insert i P) (set_dirh i ((direntry_table s0 i)\<lparr>snapshot_ptr := Some (fs_fresh s1), snap_ref_sem := 0, wait_ref_sem := 1\<rparr>) s2) v1"
      using snap_inv_open [OF c(2,3) iP 1] .
    have "snapshot_entry d d i (s, v) = (Inr (), (set_dirh i ((direntry_table s0 i)\<lparr>snapshot_ptr := Some (fs_fresh s1), snap_ref_sem := 0, wait_ref_sem := 1\<rparr>) s2, v1))"
      using n c(1) o(1) e(1) by (simp add: snapshot_entry_def Let_def on_table_run split del: if_split)
    then show ?thesis using that o(2) by blast
  next
    case 2
    then have n: "entry_table_flags s i = IS_DIRH" "snapshot_ptr (direntry_table s i) = None" "dirh_inode (direntry_table s i) \<noteq> d" "\<not> needs_snap d s0 i"
      using e by (simp_all add: stays_open_def needs_snap_def snap_of_def)
    have "snapshot_entry d d i (s, v) = (Inr (), (s, v\<lparr>have_opened_nonsnap := True\<rparr>))" using n by (simp add: snapshot_entry_def Let_def)
    then show ?thesis using that snap_inv_skip [OF inv n(4), of "v\<lparr>have_opened_nonsnap := True\<rparr>"] 2 by simp
  next
    case 3
    then have "snapshot_entry d d i (s, v) = (Inr (), (s, v))" using e by (auto simp: snapshot_entry_def Let_def needs_snap_def stays_open_def snap_of_def)
    then show ?thesis using that snap_inv_skip [OF inv 3(1), of v] 3(2) by simp
  qed
qed


lemma snapshot_entries_run:
  assumes "snap_inv d s0 P s v" and "distinct is" and "set is \<inter> P = {}"
  shows "\<exists>s' v'. snapshot_entries d d is (s, v) = (Inr (), (s', v')) \<and> snap_inv d s0 (P \<union> set is) s' v'"
  using assms
proof (induction "is" arbitrary: P s v)
  case (Cons i "is")
  obtain s1 v1 where 1: "snapshot_entry d d i (s, v) = (Inr (), (s1, v1))" "snap_inv d s0 (insert i P) s1 v1"
    using snapshot_entry_run [OF Cons.prems(1), of i] Cons.prems(3) by auto
  obtain s' v' where "snapshot_entries d d is (s1, v1) = (Inr (), (s', v'))" "snap_inv d s0 (insert i P \<union> set is) s' v'"
    using Cons.IH [OF 1(2)] Cons.prems(2,3) by auto
  then show ?case using 1(1) by simp
qed auto

subsection \<open>The whole scan\<close>

definition snapped :: "ino_t \<Rightarrow> FH_TABLE_TYPE \<Rightarrow> FH_TABLE_TYPE \<Rightarrow> bool" where
  "snapped d s s' \<longleftrightarrow> same_table s s' \<and> keeps_streams s s' \<and>
     (\<forall>i < MAX_OPEN_FILE_ENTRIES. needs_snap d s i \<longrightarrow> (\<exists>st. has_copy (meta_files s d) s s' i st)) \<and>
     (\<forall>i < MAX_OPEN_FILE_ENTRIES. \<not> needs_snap d s i \<longrightarrow> direntry_table s' i = direntry_table s i)"

lemma snapped_new:
  assumes "snapped d s s'" and "i < MAX_OPEN_FILE_ENTRIES" and "needs_snap d s i"
  obtains st where "owned s' i = Some st" "fs_fresh s \<le> st" "fs_streams s' st \<noteq> None"
proof -
  obtain st where "has_copy (meta_files s d) s s' i st" "same_table s s'" using assms unfolding snapped_def by blast
  then show ?thesis using assms(3) by (intro that [of st]) (auto simp: has_copy_def same_table_def needs_snap_def owned_def snap_of_def)
qed

lemma snapped_old:
  assumes "snapped d s s'" and "i < MAX_OPEN_FILE_ENTRIES" and "\<not> needs_snap d s i"
  shows "owned s' i = owned s i"
proof -
  have "direntry_table s' i = direntry_table s i" "same_table s s'" using assms unfolding snapped_def by blast+
  then show ?thesis by (simp add: same_table_def owned_def snap_of_def split: fh_flag.split)
qed

lemma snapped_ok:
  assumes ok: "fh_ok s" and sn: "snapped d s s'" and d: "\<And>i j st. i < MAX_OPEN_FILE_ENTRIES \<Longrightarrow> j < MAX_OPEN_FILE_ENTRIES \<Longrightarrow> needs_snap d s i \<Longrightarrow> needs_snap d s j \<Longrightarrow>
      snap_of s' i = Some st \<Longrightarrow> snap_of s' j = Some st \<Longrightarrow> i = j"
    and h: "\<And>i. is_dirh s' i \<Longrightarrow> snap_of s' i = None \<Longrightarrow> have_nonsnap_dir s'"
  shows "fh_ok s'"
proof -
  have t: "same_table s s'" "keeps_streams s s'" using sn by (simp_all add: snapped_def)
  have live: "fs_streams s' st \<noteq> None" if "i < MAX_OPEN_FILE_ENTRIES" "owned s' i = Some st" for i st
  proof (cases "needs_snap d s i")
    case True
    then show ?thesis using snapped_new [OF sn that(1)] that(2) by fastforce
  next
    case False
    then show ?thesis using snapped_old [OF sn that(1)] that(2) fh_okD(4) [OF ok that(1), of st] t(2) by (auto simp: keeps_streams_def)
  qed
  have old: "owned s i = Some st \<Longrightarrow> st < fs_fresh s" if "i < MAX_OPEN_FILE_ENTRIES" for i st
    using fh_okD(3,4) [OF ok] that by fastforce
  have "i = j" if ij: "i < MAX_OPEN_FILE_ENTRIES" "j < MAX_OPEN_FILE_ENTRIES" and o: "owned s' i = Some st" "owned s' j = Some st" for i j st
  proof (cases "needs_snap d s i \<longleftrightarrow> needs_snap d s j")
    case True
    show ?thesis
    proof (cases "needs_snap d s i")
      case n: True
      then have "snap_of s' i = Some st" "snap_of s' j = Some st" using True o t(1) by (auto simp: owned_def needs_snap_def same_table_def)
      then show "i = j" using d [OF ij] n True by blast
    next
      case n: False
      then show "i = j" using snapped_old [OF sn ij(1)] snapped_old [OF sn ij(2)] True o fh_okD(5) [OF ok ij, of st] by metis
    qed
  next
    case False
    then show ?thesis
      using snapped_old [OF sn ij(1)] snapped_old [OF sn ij(2)] snapped_new [OF sn ij(1)] snapped_new [OF sn ij(2)] o old [OF ij(1), of st] old [OF ij(2), of st]
      by (metis leD option.inject)
  qed
  moreover have "open_handles s' = open_handles s" using t(1) by (simp add: open_handles_def same_table_def)
  ultimately show ?thesis unfolding fh_ok_def
    using live h fh_okD(1,2) [OF ok] t by (auto simp: same_table_def keeps_streams_def streams_sane_def)
qed


lemma snapped_refl:
  assumes "fh_ok s" and "\<not> have_nonsnap_dir s"
  shows "snapped d s s"
proof -
  have "\<not> needs_snap d s i" if "i < MAX_OPEN_FILE_ENTRIES" for i
    using fh_okD(6) [OF assms(1), of i] assms(2) that by (auto simp: needs_snap_def is_dirh_def)
  moreover have "keeps_streams s s" using fh_okD(3) [OF assms(1)] by (auto simp: keeps_streams_def streams_sane_def)
  ultimately show ?thesis by (simp add: snapped_def same_table_def)
qed

lemma handle_snapshot_run:
  assumes ok: "fh_ok s" and os: "fh_os s = []"
  obtains s' where "handle_dirmeta_snapshot d (Some d) s = (Inr (), s')" "snapped d s s'" "fh_ok s'"
proof (cases "have_nonsnap_dir s")
  case False
  have "handle_dirmeta_snapshot d (Some d) s = (Inr (), s\<lparr>fh_table_sem := 1\<rparr>)"
    using False fh_okD(1) [OF ok] by (simp add: handle_dirmeta_snapshot_def fh_wait_run fh_post_run)
  moreover have "s\<lparr>fh_table_sem := 1\<rparr> = s" using fh_okD(1) [OF ok] by (cases s) simp
  ultimately show ?thesis using that [of s] snapped_refl [OF ok False] ok by simp
next
  case True
  let ?s0 = "s\<lparr>fh_table_sem := 0\<rparr>" and ?v0 = "\<lparr>snap_created = False, snapfptr = None, have_opened_nonsnap = False\<rparr>" and ?is = "[0..<MAX_OPEN_FILE_ENTRIES]"
  have "keeps_streams ?s0 ?s0" using fh_okD(3) [OF ok] by (auto simp: keeps_streams_def streams_sane_def)
  then have "snap_inv d ?s0 {} ?s0 ?v0" using os by (simp add: snap_inv_def same_table_def)
  moreover have "distinct ?is" by (rule distinct_upt)
  ultimately have "\<exists>s1 v1. snapshot_entries d d ?is (?s0, ?v0) = (Inr (), (s1, v1)) \<and> snap_inv d ?s0 ({} \<union> set ?is) s1 v1"
    by (intro snapshot_entries_run) (simp_all only: Int_empty_right)
  then obtain s1 v1 where run: "snapshot_entries d d ?is (?s0, ?v0) = (Inr (), (s1, v1))" and inv: "snap_inv d ?s0 {i. i < MAX_OPEN_FILE_ENTRIES} s1 v1"
    by (auto simp: atLeast0LessThan lessThan_def simp del: upt_conv_Cons upt_rec_numeral)
  note I = snap_invD [OF inv]
  define s' where "s' = (unlink_if (snap_created v1) (s1\<lparr>have_nonsnap_dir := have_opened_nonsnap v1\<rparr>))\<lparr>fh_table_sem := 1\<rparr>"
  have f: "entry_table_flags s' = entry_table_flags s" "direntry_table s' = direntry_table s1" "fs_streams s' = fs_streams s1" "fs_objects s' = fs_objects s1" "fs_fresh s' = fs_fresh s1"
    "have_nonsnap_dir s' = have_opened_nonsnap v1" "same_table s s'"
    using I(1) fh_okD(1) [OF ok] by (simp_all add: s'_def unlink_if_def unlink_snap_def same_table_def)
  have sem: "fh_table_sem s1 = 0" using I(1) by (simp add: same_table_def)
  have r: "handle_dirmeta_snapshot d (Some d) s = (Inr (), s')"
    unfolding handle_dirmeta_snapshot_def using run True sem fh_okD(1) [OF ok]
    by (simp add: fh_wait_run fh_post_run s'_def unlink_if_def unlink_snap_def del: upt_conv_Cons upt_rec_numeral)
  have n: "needs_snap d ?s0 i = needs_snap d s i" "stays_open d ?s0 i = stays_open d s i" for i by (simp_all add: needs_snap_def stays_open_def snap_of_def)
  have k: "keeps_streams s s'" using I(3) by (simp add: keeps_streams_def streams_sane_def f)
  have c: "\<exists>st. has_copy (meta_files s d) s s' i st" if "i < MAX_OPEN_FILE_ENTRIES" "needs_snap d s i" for i
    using I(5) [of i] that n by (simp add: has_copy_def f)
  have e: "direntry_table s' i = direntry_table s i" if "\<not> needs_snap d s i" for i using I(6) [of i] that n f(2) by simp
  have sn: "snapped d s s'" unfolding snapped_def using f(7) k c e by blast
  have so: "snap_of s' i = snap_of s1 i" for i by (simp add: snap_of_def f)
  have "have_nonsnap_dir s'" if "is_dirh s' i" "snap_of s' i = None" for i
  proof -
    have i: "i < MAX_OPEN_FILE_ENTRIES" "entry_table_flags s i = IS_DIRH" using that(1) f(1) by (simp_all add: is_dirh_def)
    have nn: "\<not> needs_snap d s i" using c [OF i(1)] that(2) by (auto simp: has_copy_def snap_of_def)
    then have "stays_open d s i" using e [OF nn] that(2) i(2) by (auto simp: stays_open_def needs_snap_def snap_of_def)
    then show ?thesis using I(8) n(2) i(1) f(6) by auto
  qed
  moreover have "i = j" if "i < MAX_OPEN_FILE_ENTRIES" "j < MAX_OPEN_FILE_ENTRIES" "needs_snap d s i" "needs_snap d s j" "snap_of s' i = Some st" "snap_of s' j = Some st" for i j st
    using I(7) [of i j st] that n so by simp
  ultimately have "fh_ok s'" using snapped_ok [OF ok sn] by blast
  then show ?thesis using that r sn by blast
qed

end
