(* ===== verification/Readdir_Run.thy ===== *)
theory Readdir_Run
  imports Dir_Snapshot
begin

text \<open>
  One \<^verbatim>\<open>readdir\<close> request when no call fails: from an offset on, it replies the longest part of the directory listing that fits into the buffer.
\<close>

subsection \<open>Listings\<close>

text \<open>The pages of a directory along its tree walk list, and the entries in them from entry \<open>k\<close> of the first page on.\<close>

fun tw_path :: "(nat \<Rightarrow> DIR_ENTRY_PAGE) \<Rightarrow> nat \<Rightarrow> nat list \<Rightarrow> bool" where
  "tw_path pg p [] \<longleftrightarrow> p = 0"
| "tw_path pg p (q # qs) \<longleftrightarrow> p = q \<and> q \<noteq> 0 \<and> this_page_pos (pg q) = q \<and> num_entries (pg q) \<le> MAX_DIR_ENTRIES_PER_PAGE \<and> tw_path pg (tree_walk_next (pg q)) qs"

definition page_items :: "DIR_ENTRY_PAGE \<Rightarrow> nat \<Rightarrow> dirent list" where
  "page_items page k = map (dirent_at page) [k..<num_entries page]"

fun items :: "(nat \<Rightarrow> DIR_ENTRY_PAGE) \<Rightarrow> nat list \<Rightarrow> nat \<Rightarrow> dirent list" where
  "items pg [] k = []"
| "items pg (q # qs) k = page_items (pg q) k @ items pg qs 0"

text \<open>The longest part of a listing that fits into the room, and the room it takes.\<close>

fun fit :: "readdir_env \<Rightarrow> nat \<Rightarrow> dirent list \<Rightarrow> dirent list" where
  "fit env room [] = []"
| "fit env room (x # xs) = (if ent_size env (de_name x) > room then [] else x # fit env (room - ent_size env (de_name x)) xs)"

definition room_of :: "readdir_env \<Rightarrow> dirent list \<Rightarrow> nat" where
  "room_of env xs = (\<Sum>x\<leftarrow>xs. ent_size env (de_name x))"

lemma room_of_simps [simp]: "room_of env [] = 0" "room_of env (x # xs) = ent_size env (de_name x) + room_of env xs" "room_of env (xs @ ys) = room_of env xs + room_of env ys"
  by (simp_all add: room_of_def)

lemma fit_append: "fit env room (xs @ ys) = (if fit env room xs = xs then xs @ fit env (room - room_of env xs) ys else fit env room xs)"
  by (induction xs arbitrary: room) (auto simp: diff_diff_eq)

lemma fit_prefix: "\<exists>ys. xs = fit env room xs @ ys"
  by (induction xs arbitrary: room) auto

lemma fit_short:
  assumes "fit env room xs \<noteq> xs"
  shows "fit env room xs \<noteq> xs @ zs"
proof
  assume a: "fit env room xs = xs @ zs"
  obtain ys where "xs = fit env room xs @ ys" using fit_prefix by blast
  then show False using a assms by (metis append_assoc append_self_conv append_Nil2 append_is_Nil_conv)
qed

lemma fit_nonempty: "xs \<noteq> [] \<Longrightarrow> ent_size env (de_name (hd xs)) \<le> room \<Longrightarrow> fit env room xs \<noteq> []"
  by (cases xs) auto

subsection \<open>Filling the buffer\<close>

lemma dirent_name [simp]: "de_name (dirent_at page c) = d_name (dir_entries page ! c)"
  by (simp add: dirent_at_def Let_def)

lemma fill_page_run:
  "\<exists>lg. fill_page env ino sz page cs n s = (let xs = map (dirent_at page) cs; ys = fit env (sz - n) xs in
    (Inr (ys \<noteq> xs, n + room_of env ys, ys), s\<lparr>fh_log := lg\<rparr>))"
proof (induction cs arbitrary: n s)
  case Nil
  show ?case by (intro exI [of _ "fh_log s"]) simp
next
  case (Cons c cs)
  let ?s = "(if restoring env \<and> d_name (dir_entries page ! c) \<noteq> ''.'' \<and> d_name (dir_entries page ! c) \<noteq> ''..''
    then fh_emit [Rebuild_Parent (d_ino (dir_entries page ! c)) ino (d_type (dir_entries page ! c))] else id) s"
  have e: "\<exists>lg. ?s = s\<lparr>fh_log := lg\<rparr>" by (auto simp: fh_emit_def intro: exI [of _ "fh_log s"])
  let ?k = "ent_size env (d_name (dir_entries page ! c))"
  obtain lg where "fill_page env ino sz page cs (n + ?k) ?s = (let xs = map (dirent_at page) cs; ys = fit env (sz - (n + ?k)) xs in
    (Inr (ys \<noteq> xs, n + ?k + room_of env ys, ys), ?s\<lparr>fh_log := lg\<rparr>))" using Cons.IH by blast
  then show ?case using e by (cases "?k > sz - n") (auto simp: Let_def diff_diff_eq)
qed

text \<open>The bytes a request reads: those of the snapshot in use, or of the meta file.\<close>

definition source_bytes :: "ino_t \<Rightarrow> nat option \<Rightarrow> FH_TABLE_TYPE \<Rightarrow> string" where
  "source_bytes ino snap s = (case snap of None \<Rightarrow> meta_files s ino | Some st \<Rightarrow> stream_bytes s st)"

lemma source_bytes_log [simp]: "source_bytes ino snap (s\<lparr>fh_log := lg\<rparr>) = source_bytes ino snap s"
  by (simp add: source_bytes_def stream_bytes_def split: option.split)

lemma read_dir_page_run: "fh_os s = [] \<Longrightarrow> read_dir_page env ino snap pos s = (Inr (rd_page env (source_bytes ino snap s) pos), s)"
  by (simp add: read_dir_page_def source_bytes_def split: option.split)

lemma walk_pages_run:
  assumes "fh_os s = []" and "tw_path (rd_page env (source_bytes ino snap s)) p ps" and "room_of env ds = n"
  shows "\<exists>lg. walk_pages env ino sz snap p k n ds s = (let xs = items (rd_page env (source_bytes ino snap s)) ps k; ys = fit env (sz - n) xs in
    Some (Inr (ys \<noteq> xs, room_of env (ds @ ys), ds @ ys), s\<lparr>fh_log := lg\<rparr>))"
  using assms
proof (induction ps arbitrary: p k n ds s)
  case Nil
  then show ?case by (intro exI [of _ "fh_log s"]) (simp add: walk_pages.simps)
next
  case (Cons q ps)
  let ?pg = "rd_page env (source_bytes ino snap s)"
  have p: "p = q" "q \<noteq> 0" "tw_path ?pg (tree_walk_next (?pg q)) ps" using Cons.prems(2) by simp_all
  let ?xs = "page_items (?pg q) k" and ?ys = "fit env (sz - n) (page_items (?pg q) k)"
  obtain lg where f: "fill_page env ino sz (?pg q) [k..<num_entries (?pg q)] n s = (Inr (?ys \<noteq> ?xs, n + room_of env ?ys, ?ys), s\<lparr>fh_log := lg\<rparr>)"
    using fill_page_run [of env ino sz "?pg q" "[k..<num_entries (?pg q)]" n s] by (auto simp: page_items_def Let_def)
  show ?case
  proof (cases "?ys = ?xs")
    case False
    then show ?thesis using p f Cons.prems fit_short [OF False] by (subst walk_pages.simps) (auto simp: read_dir_page_run fit_append Let_def)
  next
    case True
    have w: "walk_pages env ino sz snap p k n ds s = walk_pages env ino sz snap (tree_walk_next (?pg q)) 0 (n + room_of env ?xs) (ds @ ?xs) (s\<lparr>fh_log := lg\<rparr>)"
      using p f Cons.prems True by (subst walk_pages.simps) (simp add: read_dir_page_run)
    have "\<exists>lg'. walk_pages env ino sz snap (tree_walk_next (?pg q)) 0 (n + room_of env ?xs) (ds @ ?xs) (s\<lparr>fh_log := lg\<rparr>) =
        (let xs = items ?pg ps 0; ys = fit env (sz - (n + room_of env ?xs)) xs in
         Some (Inr (ys \<noteq> xs, room_of env ((ds @ ?xs) @ ys), (ds @ ?xs) @ ys), (s\<lparr>fh_log := lg\<rparr>)\<lparr>fh_log := lg'\<rparr>))"
      using Cons.IH [of "s\<lparr>fh_log := lg\<rparr>" "tree_walk_next (?pg q)" "ds @ ?xs" "n + room_of env ?xs" 0] p(3) Cons.prems(1,3) by simp
    then show ?thesis using True by (auto simp: w fit_append Let_def diff_diff_eq)
  qed
qed


subsection \<open>Offsets\<close>

text \<open>The offset of an entry leads to the entries behind it.\<close>

lemma de_off_decode:
  assumes "c < num_entries page" and "num_entries page \<le> MAX_DIR_ENTRIES_PER_PAGE" and "this_page_pos page = q"
  shows "de_off (dirent_at page c) div (MAX_DIR_ENTRIES_PER_PAGE + 1) = q" "de_off (dirent_at page c) mod (MAX_DIR_ENTRIES_PER_PAGE + 1) = c + 1"
  using assms by (simp_all add: dirent_at_def Let_def)

lemma de_off_large: "this_page_pos page \<noteq> 0 \<Longrightarrow> MAX_DIR_ENTRIES_PER_PAGE \<le> de_off (dirent_at page c)"
  by (simp add: dirent_at_def Let_def)

lemma page_items_split:
  assumes "page_items page k = as @ x # bs"
  obtains c where "x = dirent_at page c" "c < num_entries page" "k \<le> c" "bs = page_items page (c + 1)"
proof -
  let ?n = "length as"
  have l: "?n < num_entries page - k" using arg_cong [OF assms, of length] by (simp add: page_items_def)
  have x: "x = page_items page k ! ?n" using assms by simp
  have "bs = drop (?n + 1) (page_items page k)" using assms by simp
  also have "\<dots> = page_items page (k + ?n + 1)" by (simp add: page_items_def drop_map drop_upt)
  finally show ?thesis using that [of "k + ?n"] x l by (simp add: page_items_def)
qed

lemma items_resume:
  assumes "tw_path pg p ps" and "items pg ps k = as @ x # bs"
  shows "\<exists>q qs. tw_path pg q (q # qs) \<and> de_off x \<ge> MAX_DIR_ENTRIES_PER_PAGE \<and> de_off x div (MAX_DIR_ENTRIES_PER_PAGE + 1) = q \<and>
    items pg (q # qs) (de_off x mod (MAX_DIR_ENTRIES_PER_PAGE + 1)) = bs"
  using assms
proof (induction ps arbitrary: p k as)
  case (Cons q ps)
  let ?page = "pg q"
  have q: "tw_path pg q (q # ps)" "q \<noteq> 0" "this_page_pos ?page = q" "num_entries ?page \<le> MAX_DIR_ENTRIES_PER_PAGE" using Cons.prems(1) by simp_all
  consider cs where "as = page_items ?page k @ cs" "items pg ps 0 = cs @ x # bs" | cs where "page_items ?page k = as @ x # cs" "bs = cs @ items pg ps 0"
    using Cons.prems(2) by (auto simp: append_eq_append_conv2 append_eq_Cons_conv)
  then show ?case
  proof cases
    case 1
    then show ?thesis using Cons.IH [of "tree_walk_next ?page" 0 cs] q(1) by simp
  next
    case 2
    obtain c where c: "x = dirent_at ?page c" "c < num_entries ?page" "cs = page_items ?page (c + 1)" using page_items_split [OF 2(1)] by blast
    have d: "de_off x div (MAX_DIR_ENTRIES_PER_PAGE + 1) = q" "de_off x mod (MAX_DIR_ENTRIES_PER_PAGE + 1) = c + 1"
      unfolding c(1) by (rule de_off_decode [OF c(2) q(4,3)])+
    have "items pg (q # ps) (de_off x mod (MAX_DIR_ENTRIES_PER_PAGE + 1)) = bs" unfolding d using c(3) 2(2) by simp
    moreover have "MAX_DIR_ENTRIES_PER_PAGE \<le> de_off x" unfolding c(1) using q(2,3) by (intro de_off_large) simp
    ultimately show ?thesis using q(1) d(1) by blast
  qed
qed simp


subsection \<open>The body of a request\<close>

text \<open>Setting the access time changes nothing that a listing shows.\<close>

definition layout_ok :: "readdir_env \<Rightarrow> bool" where
  "layout_ok env \<longleftrightarrow> (\<forall>c. rd_meta env (touch_atime env c) = rd_meta env c \<and> rd_page env (touch_atime env c) = rd_page env c)"

definition same_listing :: "readdir_env \<Rightarrow> string \<Rightarrow> string \<Rightarrow> bool" where
  "same_listing env b c \<longleftrightarrow> rd_meta env b = rd_meta env c \<and> rd_page env b = rd_page env c"

text \<open>What a request leaves: only the count of readers of its snapshot and access times differ.\<close>

definition after_read :: "readdir_env \<Rightarrow> nat \<Rightarrow> nat \<Rightarrow> FH_TABLE_TYPE \<Rightarrow> FH_TABLE_TYPE \<Rightarrow> bool" where
  "after_read env fh n s s' \<longleftrightarrow> entry_table_flags s' = entry_table_flags s \<and> entry_table s' = entry_table s \<and> num_opened_files s' = num_opened_files s \<and>
     fh_table_sem s' = fh_table_sem s \<and> fh_os s' = fh_os s \<and> fs_streams s' = fs_streams s \<and> fs_objects s' = fs_objects s \<and> fs_fresh s' = fs_fresh s \<and>
     fs_snap_link s' = fs_snap_link s \<and> have_nonsnap_dir s' = have_nonsnap_dir s \<and>
     direntry_table s' = (direntry_table s)(fh := (direntry_table s fh)\<lparr>snap_ref_sem := n\<rparr>) \<and>
     (\<forall>d. same_listing env (meta_files s' d) (meta_files s d))"

lemma alloc_ok: "fh_os s = [] \<Longrightarrow> fh_alloc s = (Inr True, s)"
  by (cases s) (simp add: fh_alloc_def alloc_def)

definition start_of :: "DIR_META_TYPE \<Rightarrow> nat \<Rightarrow> nat \<times> nat" where
  "start_of meta offset = (if offset \<ge> MAX_DIR_ENTRIES_PER_PAGE then (offset div (MAX_DIR_ENTRIES_PER_PAGE + 1), offset mod (MAX_DIR_ENTRIES_PER_PAGE + 1))
     else (tree_walk_list_head meta, 0))"

lemma start_read_run: "fh_os s = [] \<Longrightarrow> start_read env offset meta s = (Inr (start_of meta offset), s)"
  by (simp add: start_read_def start_of_def)

lemma sem_same: "e\<lparr>snap_ref_sem := snap_ref_sem e\<rparr> = e"
  by (cases e) simp

lemma after_read_full: "after_read env fh (snap_ref_sem (direntry_table s fh)) s (s\<lparr>fh_log := lg\<rparr>)"
  by (simp add: after_read_def sem_same same_listing_def)

lemma after_read_leave:
  assumes "layout_ok env" and "c = meta_files s ino \<or> c = touch_atime env (meta_files s ino)"
  shows "after_read env fh (if snap = None then snap_ref_sem (direntry_table s fh) else snap_ref_sem (direntry_table s fh) - 1) s
      (leave_snapshot fh snap (s\<lparr>fh_log := lg, meta_files := (meta_files s)(ino := c)\<rparr>))"
  using assms by (auto simp: after_read_def leave_snapshot_def on_dirh_def set_dirh_def sem_same same_listing_def layout_ok_def)

lemma readdir_body_run:
  assumes os: "fh_os s = []" and lay: "layout_ok env" and st: "start_of tempmeta offset = (p, k)"
    and path: "tw_path (rd_page env (source_bytes ino snap s)) p ps" and xs: "xs = items (rd_page env (source_bytes ino snap s)) ps k"
  shows "\<exists>s'. readdir_body env fh ino sz offset snap tempmeta s = (Inr (Rd_Buf (fit env sz xs)), s') \<and>
    after_read env fh (if snap = None \<or> fit env sz xs \<noteq> xs then snap_ref_sem (direntry_table s fh) else snap_ref_sem (direntry_table s fh) - 1) s s'"
proof -
  let ?ys = "fit env sz xs"
  obtain lg where w: "walk_pages env ino sz snap p k 0 [] s = Some (Inr (?ys \<noteq> xs, room_of env ?ys, ?ys), s\<lparr>fh_log := lg\<rparr>)"
    using walk_pages_run [OF os path, where ds = "[]" and n = 0 and k = k and sz = sz] xs by (auto simp: Let_def)
  note run = readdir_body_def alloc_ok [OF os] reply_exit_def start_read_run [OF os] st errcode_exit_def w
  show ?thesis
  proof (cases "?ys = xs")
    case False
    then show ?thesis using after_read_full [of env fh s lg] by (simp add: run)
  next
    case True
    obtain c where c: "c = meta_files s ino \<or> c = touch_atime env (meta_files s ino)"
      "(if room_of env ?ys > 0 then set_atime env ino else returnE ()) (s\<lparr>fh_log := lg\<rparr>) = (Inr (), s\<lparr>fh_log := lg, meta_files := (meta_files s)(ino := c)\<rparr>)"
    proof (cases "room_of env ?ys > 0")
      case T: True
      show ?thesis by (rule that [of "touch_atime env (meta_files s ino)"]) (use T os in \<open>simp_all add: set_atime_def\<close>)
    next
      case F: False
      have "s\<lparr>fh_log := lg, meta_files := meta_files s\<rparr> = s\<lparr>fh_log := lg\<rparr>" by (cases s) simp
      then show ?thesis by (intro that [of "meta_files s ino"]) (use F in simp_all)
    qed
    have "readdir_body env fh ino sz offset snap tempmeta s = (Inr (Rd_Buf ?ys), leave_snapshot fh snap (s\<lparr>fh_log := lg, meta_files := (meta_files s)(ino := c)\<rparr>))"
      using True c(2) by (simp add: run split del: if_split)
    then show ?thesis using after_read_leave [OF lay c(1), of fh snap lg] True by auto
  qed
qed


subsection \<open>Requests\<close>

text \<open>The handle \<open>fh\<close> is open on directory \<open>d\<close> and no thread waits on it.\<close>

definition dir_handle :: "nat \<Rightarrow> ino_t \<Rightarrow> FH_TABLE_TYPE \<Rightarrow> bool" where
  "dir_handle fh d s \<longleftrightarrow> is_dirh s fh \<and> dirh_inode (direntry_table s fh) = d \<and> wait_ref_sem (direntry_table s fh) = 1 \<and> fh_os s = []"

lemma dir_handleD:
  assumes "dir_handle fh d s"
  shows "fh < MAX_OPEN_FILE_ENTRIES" "entry_table_flags s fh = IS_DIRH" "dirh_inode (direntry_table s fh) = d" "wait_ref_sem (direntry_table s fh) = 1" "fh_os s = []"
  using assms by (simp_all add: dir_handle_def is_dirh_def)

lemma readdir_live:
  assumes h: "dir_handle fh d s" and lay: "layout_ok env" and none: "snap_of s fh = None"
    and st: "start_of (rd_meta env (meta_files s d)) offset = (p, k)"
    and path: "tw_path (rd_page env (meta_files s d)) p ps" and xs: "xs = items (rd_page env (meta_files s d)) ps k"
  obtains s' where "hfuse_ll_readdir env fh d sz offset s = (Inr (Rd_Buf (fit env sz xs)), s')" "after_read env fh (snap_ref_sem (direntry_table s fh)) s s'"
proof -
  note H = dir_handleD [OF h]
  have "hfuse_ll_readdir env fh d sz offset s = readdir_body env fh d sz offset None (rd_meta env (meta_files s d)) s"
    using H none by (simp add: hfuse_ll_readdir_def reply_exit_def choose_snapshot_def snap_of_def Let_def)
  then show ?thesis
    using readdir_body_run [OF H(5) lay st, where ino = d and snap = None and ps = ps and xs = xs and fh = fh and sz = sz] path xs that by (auto simp: source_bytes_def)
qed

text \<open>Reading from a snapshot: the request counts itself in before it reads, and out again unless the buffer was full.\<close>

lemma dirh_upd_same [simp]: "on_dirh fh f (on_dirh fh g s) = on_dirh fh (f \<circ> g) s"
  by (simp add: on_dirh_def set_dirh_def)

lemma readdir_snapshot:
  assumes h: "dir_handle fh d s" and lay: "layout_ok env" and some: "snap_of s fh = Some t" and off: "offset \<noteq> 0"
    and st: "start_of (rd_meta env (stream_bytes s t)) offset = (p, k)"
    and path: "tw_path (rd_page env (stream_bytes s t)) p ps" and xs: "xs = items (rd_page env (stream_bytes s t)) ps k"
  obtains s' where "hfuse_ll_readdir env fh d sz offset s = (Inr (Rd_Buf (fit env sz xs)), s')"
    "after_read env fh (if fit env sz xs \<noteq> xs then snap_ref_sem (direntry_table s fh) + 1 else snap_ref_sem (direntry_table s fh)) s s'"
proof -
  note H = dir_handleD [OF h]
  let ?s = "set_dirh fh ((direntry_table s fh)\<lparr>snap_ref_sem := snap_ref_sem (direntry_table s fh) + 1\<rparr>) s"
  have c: "choose_snapshot fh offset s = (Inr (Some t), ?s)"
    using H some off by (cases "direntry_table s fh") (simp add: choose_snapshot_def snap_of_def sem_wait_def sem_post_def on_dirh_def set_dirh_def)
  have b: "stream_bytes ?s t = stream_bytes s t" "fh_os ?s = []" "source_bytes d (Some t) ?s = stream_bytes s t"
    using H(5) by (simp_all add: stream_bytes_def set_dirh_def source_bytes_def split: option.split)
  have r: "hfuse_ll_readdir env fh d sz offset s = readdir_body env fh d sz offset (Some t) (rd_meta env (stream_bytes s t)) ?s"
    using H c b by (simp add: hfuse_ll_readdir_def reply_exit_def errcode_exit_def Let_def)
  have n: "snap_ref_sem (direntry_table ?s fh) = snap_ref_sem (direntry_table s fh) + 1" by (simp add: set_dirh_def)
  have "\<exists>s'. readdir_body env fh d sz offset (Some t) (rd_meta env (stream_bytes s t)) ?s = (Inr (Rd_Buf (fit env sz xs)), s') \<and>
      after_read env fh (if Some t = None \<or> fit env sz xs \<noteq> xs then snap_ref_sem (direntry_table ?s fh) else snap_ref_sem (direntry_table ?s fh) - 1) ?s s'"
    by (rule readdir_body_run [OF b(2) lay st, where ino = d and snap = "Some t" and ps = ps]) (use path xs in \<open>simp_all only: b\<close>)
  then obtain s' where s': "readdir_body env fh d sz offset (Some t) (rd_meta env (stream_bytes s t)) ?s = (Inr (Rd_Buf (fit env sz xs)), s')"
    "after_read env fh (if fit env sz xs \<noteq> xs then snap_ref_sem (direntry_table s fh) + 1 else snap_ref_sem (direntry_table s fh)) ?s s'"
    unfolding n by (cases "fit env sz xs = xs") auto
  then have "after_read env fh (if fit env sz xs \<noteq> xs then snap_ref_sem (direntry_table s fh) + 1 else snap_ref_sem (direntry_table s fh)) s s'"
    by (simp add: after_read_def set_dirh_def)
  then show ?thesis using that r s'(1) by simp
qed


text \<open>Reading from the start: the snapshot goes, if no reader counts itself in; otherwise the request never ends.\<close>

definition dropped :: "nat \<Rightarrow> nat \<Rightarrow> FH_TABLE_TYPE \<Rightarrow> FH_TABLE_TYPE" where
  "dropped fh t s = s\<lparr>fs_streams := (fs_streams s)(t := None), direntry_table := (direntry_table s)(fh := (direntry_table s fh)\<lparr>snapshot_ptr := None\<rparr>), have_nonsnap_dir := True\<rparr>"

lemma choose_start:
  assumes h: "dir_handle fh d s" and some: "snap_of s fh = Some t" and ok: "fh_ok s" and ref: "snap_ref_sem (direntry_table s fh) = 0"
  shows "choose_snapshot fh 0 s = (Inr None, dropped fh t s)"
proof -
  note H = dir_handleD [OF h]
  have live: "fs_streams s t \<noteq> None" using fh_okD(4) [OF ok H(1), of t] H(2) some by (simp add: owned_def)
  have w: "wait_ref_sem_update Suc ((wait_ref_sem_update (\<lambda>n. n - Suc 0) (direntry_table s fh))\<lparr>snapshot_ptr := None\<rparr>) = (direntry_table s fh)\<lparr>snapshot_ptr := None\<rparr>"
    using H(4) by (cases "direntry_table s fh") simp
  let ?s1 = "on_dirh fh (wait_ref_sem_update (\<lambda>n. n - 1)) s"
  have "sem_wait (\<lambda>s. wait_ref_sem (direntry_table s fh)) (\<lambda>f. on_dirh fh (wait_ref_sem_update f)) s = (Inr (), ?s1)" using H(4) by (simp add: sem_wait_def)
  moreover have "drop_snapshot fh t ?s1 = (Inr (), (on_dirh fh (snapshot_ptr_update (\<lambda>_. None)) (?s1\<lparr>fh_table_sem := 0, fs_streams := (fs_streams s)(t := None)\<rparr>))\<lparr>have_nonsnap_dir := True, fh_table_sem := 1\<rparr>)"
    using ref live fh_okD(1) [OF ok] by (simp add: drop_snapshot_def on_dirh_def set_dirh_def fh_wait_run fh_post_run fs_fclose_run)
  ultimately have "choose_snapshot fh 0 s = (Inr None, on_dirh fh (wait_ref_sem_update Suc)
      ((on_dirh fh (snapshot_ptr_update (\<lambda>_. None)) (?s1\<lparr>fh_table_sem := 0, fs_streams := (fs_streams s)(t := None)\<rparr>))\<lparr>have_nonsnap_dir := True, fh_table_sem := 1\<rparr>))"
    using some by (simp add: choose_snapshot_def snap_of_def sem_post_def)
  also have "\<dots> = (Inr None, dropped fh t s)"
    using w fh_okD(1) [OF ok] by (cases s) (simp add: on_dirh_def set_dirh_def dropped_def)
  finally show ?thesis .
qed

lemma readdir_start:
  assumes h: "dir_handle fh d s" and lay: "layout_ok env" and some: "snap_of s fh = Some t" and ok: "fh_ok s" and ref: "snap_ref_sem (direntry_table s fh) = 0"
    and path: "tw_path (rd_page env (meta_files s d)) (tree_walk_list_head (rd_meta env (meta_files s d))) ps" and xs: "xs = items (rd_page env (meta_files s d)) ps 0"
  obtains s' where "hfuse_ll_readdir env fh d sz 0 s = (Inr (Rd_Buf (fit env sz xs)), s')" "after_read env fh 0 (dropped fh t s) s'"
proof -
  note H = dir_handleD [OF h]
  have r: "hfuse_ll_readdir env fh d sz 0 s = readdir_body env fh d sz 0 None (rd_meta env (meta_files s d)) (dropped fh t s)"
    using H choose_start [OF h some ok ref] by (simp add: hfuse_ll_readdir_def reply_exit_def Let_def)
  have b: "fh_os (dropped fh t s) = []" "source_bytes d None (dropped fh t s) = meta_files s d" "snap_ref_sem (direntry_table (dropped fh t s) fh) = 0"
    using H(5) ref by (simp_all add: dropped_def source_bytes_def)
  have st: "start_of (rd_meta env (meta_files s d)) 0 = (tree_walk_list_head (rd_meta env (meta_files s d)), 0)" by (simp add: start_of_def)
  show ?thesis
    using readdir_body_run [OF b(1) lay st, where ino = d and snap = None and ps = ps and xs = xs and fh = fh and sz = sz] path xs that r b by auto
qed

lemma readdir_start_hangs:
  assumes h: "dir_handle fh d s" and some: "snap_of s fh = Some t" and ref: "snap_ref_sem (direntry_table s fh) > 0"
  shows "fst (hfuse_ll_readdir env fh d sz 0 s) = Inl Hang"
proof -
  note H = dir_handleD [OF h]
  show ?thesis using H some ref
    by (simp add: hfuse_ll_readdir_def reply_exit_def Let_def choose_snapshot_def snap_of_def sem_wait_def drop_snapshot_def on_dirh_def set_dirh_def bindE_def)
qed

end
