(* ===== verification/Readdir_Listing.thy ===== *)
theory Readdir_Listing
  imports Readdir_Run
begin

text \<open>
  Reading a directory in pieces, with other requests in between: directories are opened and closed, entries are added and removed (after \<^verbatim>\<open>handle_dirmeta_snapshot\<close>, as \<^verbatim>\<open>dir_add_entry\<close> and
  \<^verbatim>\<open>dir_remove_entry\<close> call it), and entries are changed in place (without a snapshot, as \<^verbatim>\<open>hfuse_ll_rename\<close> does).  What the handle sees, \<open>sees\<close>, stays what it was at the first read under all of
  them but the last.
\<close>

subsection \<open>Other requests\<close>

datatype dir_op = Change_Dir ino_t string | Rewrite_Entry ino_t string | Open_Dir ino_t | Close_Dir ino_t nat | Open_File ino_t int | Close_File ino_t nat

text \<open>
  A change of a directory replaces the bytes of its meta file; which ones does not matter here.  \<open>Change_Dir\<close> is \<^verbatim>\<open>dir_add_entry\<close> or \<^verbatim>\<open>dir_remove_entry\<close>, which take the snapshot first.
  \<open>Rewrite_Entry\<close> is \<^verbatim>\<open>change_dir_entry_inode\<close>, \<^verbatim>\<open>change_entry_name\<close> or \<^verbatim>\<open>change_parent_inode\<close>, with which \<^verbatim>\<open>hfuse_ll_rename\<close> writes a changed entry back without one.
\<close>

definition add_or_remove_entry :: "ino_t \<Rightarrow> string \<Rightarrow> (FH_TABLE_TYPE, unit) sm" where
  "add_or_remove_entry d c = bindE (handle_dirmeta_snapshot d (Some d)) (\<lambda>_. modifyE (\<lambda>s. s\<lparr>meta_files := (meta_files s)(d := c)\<rparr>))"

definition rewrite_entry :: "ino_t \<Rightarrow> string \<Rightarrow> (FH_TABLE_TYPE, unit) sm" where
  "rewrite_entry d c = modifyE (\<lambda>s. s\<lparr>meta_files := (meta_files s)(d := c)\<rparr>)"

fun run_dir_op :: "(ino_t \<Rightarrow> nat option) \<Rightarrow> dir_op \<Rightarrow> (FH_TABLE_TYPE, unit) sm" where
  "run_dir_op lock_entry (Change_Dir d c) = add_or_remove_entry d c"
| "run_dir_op lock_entry (Rewrite_Entry d c) = rewrite_entry d c"
| "run_dir_op lock_entry (Open_Dir d) = bindE (hfuse_ll_opendir (\<lambda>_. Inr True) False d) (\<lambda>_. returnE ())"
| "run_dir_op lock_entry (Close_Dir d i) = bindE (hfuse_ll_releasedir lock_entry d i) (\<lambda>_. returnE ())"
| "run_dir_op lock_entry (Open_File d fl) = bindE (hfuse_ll_open (\<lambda>_. Inr False) False d fl) (\<lambda>_. returnE ())"
| "run_dir_op lock_entry (Close_File d i) = bindE (hfuse_ll_release lock_entry d i) (\<lambda>_. returnE ())"

fun run_dir_ops :: "(ino_t \<Rightarrow> nat option) \<Rightarrow> dir_op list \<Rightarrow> (FH_TABLE_TYPE, unit) sm" where
  "run_dir_ops lock_entry [] = returnE ()"
| "run_dir_ops lock_entry (q # qs) = bindE (run_dir_op lock_entry q) (\<lambda>_. run_dir_ops lock_entry qs)"

text \<open>What a reader of directory \<open>d\<close> through handle \<open>fh\<close> is not safe from: that the handle is closed, and that an entry of \<open>d\<close> is changed in place.\<close>

fun disturbs :: "nat \<Rightarrow> ino_t \<Rightarrow> dir_op \<Rightarrow> bool" where
  "disturbs fh d (Close_Dir d' i) \<longleftrightarrow> i = fh"
| "disturbs fh d (Rewrite_Entry d' c) \<longleftrightarrow> d' = d"
| "disturbs fh d _ \<longleftrightarrow> False"

text \<open>Reading a directory as the kernel does, from the offset of the last entry on, until a reply is empty; the lists are the requests after each piece.\<close>

fun read_all :: "readdir_env \<Rightarrow> (ino_t \<Rightarrow> nat option) \<Rightarrow> nat \<Rightarrow> ino_t \<Rightarrow> nat \<Rightarrow> dir_op list list \<Rightarrow> nat \<Rightarrow> (FH_TABLE_TYPE, dirent list) sm" where
  "read_all env lock_entry fh d sz [] offset = returnE []"
| "read_all env lock_entry fh d sz (qs # qss) offset = bindE (hfuse_ll_readdir env fh d sz offset) (\<lambda>r. case r of
     Rd_Err e \<Rightarrow> failE (Errno e)
   | Rd_Buf ds \<Rightarrow> if ds = [] then returnE []
       else bindE (run_dir_ops lock_entry qs) (\<lambda>_. bindE (read_all env lock_entry fh d sz qss (de_off (last ds))) (\<lambda>rest. returnE (ds @ rest))))"

subsection \<open>What a handle sees\<close>

definition lists :: "readdir_env \<Rightarrow> nat \<Rightarrow> (nat \<Rightarrow> DIR_ENTRY_PAGE) \<Rightarrow> string \<Rightarrow> bool" where
  "lists env hp pg c \<longleftrightarrow> tree_walk_list_head (rd_meta env c) = hp \<and> rd_page env c = pg"

definition sees :: "readdir_env \<Rightarrow> nat \<Rightarrow> ino_t \<Rightarrow> nat \<Rightarrow> (nat \<Rightarrow> DIR_ENTRY_PAGE) \<Rightarrow> FH_TABLE_TYPE \<Rightarrow> bool" where
  "sees env fh d hp pg s \<longleftrightarrow> fh_ok s \<and> dir_handle fh d s \<and>
     (case snap_of s fh of None \<Rightarrow> lists env hp pg (meta_files s d) | Some t \<Rightarrow> lists env hp pg (stream_bytes s t))"

lemma after_read_ok:
  assumes ok: "fh_ok s" and a: "after_read env fh n s s'"
  shows "fh_ok s'"
proof -
  have "owned s' = owned s" "snap_of s' = snap_of s" "is_dirh s' = is_dirh s" "open_handles s' = open_handles s"
    using a by (auto simp: after_read_def owned_def snap_of_def is_dirh_def open_handles_def fun_eq_iff split: fh_flag.split)
  then show ?thesis using ok a by (simp add: fh_ok_def after_read_def)
qed

lemma sees_after_read:
  assumes s: "sees env fh d hp pg s" and a: "after_read env fh n s s'"
  shows "sees env fh d hp pg s'" "snap_of s' fh = snap_of s fh"
proof -
  have e: "direntry_table s' fh = (direntry_table s fh)\<lparr>snap_ref_sem := n\<rparr>" "entry_table_flags s' = entry_table_flags s" "fs_streams s' = fs_streams s" "fs_objects s' = fs_objects s"
    "fh_os s' = fh_os s" "same_listing env (meta_files s' d) (meta_files s d)" using a by (simp_all add: after_read_def)
  then show sn: "snap_of s' fh = snap_of s fh" by (simp add: snap_of_def)
  have "dir_handle fh d s'" using s e by (simp add: sees_def dir_handle_def is_dirh_def)
  moreover have "stream_bytes s' t = stream_bytes s t" for t by (simp add: stream_bytes_def e split: option.split)
  moreover have "lists env hp pg (meta_files s' d) = lists env hp pg (meta_files s d)" using e(6) by (simp add: lists_def same_listing_def)
  ultimately show "sees env fh d hp pg s'" using s sn after_read_ok [OF _ a] by (simp add: sees_def split: option.splits)
qed

text \<open>The other requests leave what the handle sees.\<close>

lemma sees_change:
  assumes s: "sees env fh d hp pg s"
  shows "\<exists>s'. run_dir_op lock_entry (Change_Dir d' c) s = (Inr (), s') \<and> sees env fh d hp pg s'"
proof -
  have ok: "fh_ok s" and h: "dir_handle fh d s" using s by (simp_all add: sees_def)
  note H = dir_handleD [OF h]
  obtain s1 where r: "handle_dirmeta_snapshot d' (Some d') s = (Inr (), s1)" and sn: "snapped d' s s1" and ok1: "fh_ok s1" using handle_snapshot_run [OF ok H(5)] .
  let ?s = "s1\<lparr>meta_files := (meta_files s1)(d' := c)\<rparr>"
  have ok2: "fh_ok ?s" using ok1 by (simp add: fh_ok_def owned_def snap_of_def is_dirh_def open_handles_def cong: fh_flag.case_cong)
  have t: "same_table s s1" "keeps_streams s s1" using sn by (simp_all add: snapped_def)
  have b: "stream_bytes ?s t = stream_bytes s1 t" for t by (simp add: stream_bytes_def split: option.split)
  have "sees env fh d hp pg ?s"
  proof (cases "needs_snap d' s fh")
    case True
    then obtain st where c: "has_copy (meta_files s d') s s1 fh st" using sn H(1) unfolding snapped_def by blast
    have e: "direntry_table s1 fh = (direntry_table s fh)\<lparr>snapshot_ptr := Some st, snap_ref_sem := 0, wait_ref_sem := 1\<rparr>" "stream_bytes s1 st = meta_files s d'"
      using c by (auto simp: has_copy_def stream_bytes_def)
    have d: "d' = d" "snap_of s fh = None" using True H(3) by (simp_all add: needs_snap_def)
    have "dir_handle fh d ?s" using h e(1) t(1) by (simp add: dir_handle_def is_dirh_def same_table_def)
    then show ?thesis using s d e ok2 b by (simp add: sees_def snap_of_def)
  next
    case False
    then have e: "direntry_table s1 fh = direntry_table s fh" using sn H(1) unfolding snapped_def by blast
    then have "dir_handle fh d ?s" using h t(1) by (simp add: dir_handle_def is_dirh_def same_table_def)
    moreover have "d' \<noteq> d \<or> snap_of s fh \<noteq> None" using False H(2,3) by (auto simp: needs_snap_def)
    moreover have "stream_bytes s1 st = stream_bytes s st" if "snap_of s fh = Some st" for st
      using fh_okD(4) [OF ok H(1), of st] that H(2) t(2) by (auto simp: owned_def keeps_streams_def stream_bytes_def)
    ultimately show ?thesis using s e ok2 b t(1) by (auto simp: sees_def snap_of_def same_table_def split: option.splits)
  qed
  then show ?thesis using r by (simp add: add_or_remove_entry_def)
qed

text \<open>An entry changed in place: other directories do not matter, but a handle without a snapshot then sees the changed directory.\<close>

lemma rewrite_keeps_ok: "fh_ok s \<Longrightarrow> fh_ok (s\<lparr>meta_files := m\<rparr>)"
  by (simp add: fh_ok_def owned_def snap_of_def is_dirh_def open_handles_def cong: fh_flag.case_cong)

lemma sees_rewrite:
  assumes "sees env fh d hp pg s" and "d' \<noteq> d"
  shows "\<exists>s'. run_dir_op lock_entry (Rewrite_Entry d' c) s = (Inr (), s') \<and> sees env fh d hp pg s'"
proof -
  have "stream_bytes (s\<lparr>meta_files := m\<rparr>) t = stream_bytes s t" for m t by (simp add: stream_bytes_def split: option.split)
  then show ?thesis using assms rewrite_keeps_ok by (auto simp: rewrite_entry_def sees_def dir_handle_def is_dirh_def snap_of_def split: option.splits)
qed

lemma rewrite_is_seen:
  assumes "sees env fh d hp pg s" and "snap_of s fh = None"
  shows "\<exists>s'. run_dir_op lock_entry (Rewrite_Entry d c) s = (Inr (), s') \<and> snap_of s' fh = None \<and> sees env fh d (tree_walk_list_head (rd_meta env c)) (rd_page env c) s'"
  using assms rewrite_keeps_ok by (auto simp: rewrite_entry_def sees_def dir_handle_def is_dirh_def snap_of_def lists_def)

lemma sees_open:
  assumes s: "sees env fh d hp pg s"
  shows "\<exists>r s'. reply_open (open_fh d' fl isdir) s = (Inr r, s') \<and> sees env fh d hp pg s'"
proof -
  have ok: "fh_ok s" and h: "dir_handle fh d s" using s by (simp_all add: sees_def)
  show ?thesis
  proof (cases "num_opened_files s < int MAX_OPEN_FILE_ENTRIES")
    case True
    obtain i where i: "open_fh d' fl isdir s = (Inr i, opened isdir i d' fl s)" "i < MAX_OPEN_FILE_ENTRIES" "entry_table_flags s i = NO_FH" using open_fh_runs [OF ok True] .
    have ne: "fh \<noteq> i" using i(3) dir_handleD(2) [OF h] by auto
    let ?s = "opened isdir i d' fl s"
    have e: "direntry_table ?s fh = direntry_table s fh" "entry_table_flags ?s fh = entry_table_flags s fh" using ne by simp_all
    have "dir_handle fh d ?s" using h e by (simp add: dir_handle_def is_dirh_def)
    moreover have "stream_bytes ?s t = stream_bytes s t" for t by (simp add: stream_bytes_def split: option.split)
    ultimately have "sees env fh d hp pg ?s" using s e opened_ok [OF ok i(2,3)] by (simp add: sees_def snap_of_def split: option.splits)
    then show ?thesis using i(1) by (simp add: reply_open_def)
  next
    case False
    then show ?thesis using s open_fh_full [OF ok] by (simp add: reply_open_def)
  qed
qed

lemma sees_released:
  assumes s: "sees env fh d hp pg s" and ne: "i \<noteq> fh" and r: "released i s s'" and i: "i < MAX_OPEN_FILE_ENTRIES" "entry_table_flags s i \<noteq> NO_FH"
  shows "sees env fh d hp pg s'"
proof -
  have ok: "fh_ok s" and h: "dir_handle fh d s" using s by (simp_all add: sees_def)
  note H = dir_handleD [OF h]
  have e: "direntry_table s' fh = direntry_table s fh" "entry_table_flags s' fh = entry_table_flags s fh" "meta_files s' = meta_files s" "fs_objects s' = fs_objects s" "fh_os s' = fh_os s"
    and st: "fs_streams s' = (case owned s i of None \<Rightarrow> fs_streams s | Some st \<Rightarrow> (fs_streams s)(st := None))"
    using r ne by (auto simp: released_def)
  have "fs_streams s' t = fs_streams s t" if "snap_of s fh = Some t" for t
  proof -
    have "owned s fh = Some t" using that H(2) by (simp add: owned_def)
    then show ?thesis using st fh_okD(5) [OF ok H(1) i(1), of t] ne by (auto split: option.splits)
  qed
  then have "stream_bytes s' t = stream_bytes s t" if "snap_of s fh = Some t" for t using that e(4) by (simp add: stream_bytes_def split: option.split)
  moreover have "dir_handle fh d s'" using h e by (simp add: dir_handle_def is_dirh_def)
  moreover have "fh_ok s'" by (rule released_ok [OF ok i r])
  ultimately show ?thesis using s e by (simp add: sees_def snap_of_def split: option.splits)
qed

lemma sees_close:
  assumes s: "sees env fh d hp pg s" and ne: "i \<noteq> fh"
  shows "\<exists>r s'. hfuse_ll_releasedir lock_entry d' i s = (Inr r, s') \<and> sees env fh d hp pg s'"
proof (cases "i < MAX_OPEN_FILE_ENTRIES \<and> entry_table_flags s i = IS_DIRH \<and> dirh_inode (direntry_table s i) = d'")
  case True
  obtain s' where c: "close_fh lock_entry i s = (Inr 0, s')" and r: "released i s s'" using close_fh_dir [of s i lock_entry] s True by (auto simp: sees_def)
  then show ?thesis using True sees_released [OF s ne r] by (simp add: hfuse_ll_releasedir_def)
next
  case False
  then have "hfuse_ll_releasedir lock_entry d' i s = (Inr EBADF, s)" by (auto simp: hfuse_ll_releasedir_def)
  then show ?thesis using s by simp
qed

lemma sees_close_file:
  assumes s: "sees env fh d hp pg s"
  shows "\<exists>r s'. hfuse_ll_release lock_entry d' i s = (Inr r, s') \<and> sees env fh d hp pg s'"
proof (cases "i < MAX_OPEN_FILE_ENTRIES \<and> entry_table_flags s i = IS_FH \<and> fh_inode (entry_table s i) = d'")
  case True
  have "i \<noteq> fh" using True s by (auto simp: sees_def dir_handle_def is_dirh_def)
  moreover obtain s' where c: "close_fh lock_entry i s = (Inr 0, s')" and r: "released i s s'" using close_fh_file [of s i lock_entry] s True by (auto simp: sees_def)
  ultimately show ?thesis using True sees_released [OF s _ r] by (simp add: hfuse_ll_release_def)
next
  case False
  then have "hfuse_ll_release lock_entry d' i s = (Inr EBADF, s)" by (auto simp: hfuse_ll_release_def)
  then show ?thesis using s by simp
qed

lemma sees_op:
  assumes s: "sees env fh d hp pg s" and "\<not> disturbs fh d q"
  shows "\<exists>s'. run_dir_op lock_entry q s = (Inr (), s') \<and> sees env fh d hp pg s'"
proof (cases q)
  case (Change_Dir d' c)
  then show ?thesis using sees_change [OF s] by blast
next
  case (Rewrite_Entry d' c)
  then show ?thesis using sees_rewrite [OF s] assms(2) by auto
next
  case (Open_Dir d')
  then show ?thesis using sees_open [OF s, of d' 0 True] by (auto simp: hfuse_ll_opendir_def)
next
  case (Close_Dir d' i)
  then have "i \<noteq> fh" using assms(2) by simp
  then obtain r s' where "hfuse_ll_releasedir lock_entry d' i s = (Inr r, s')" "sees env fh d hp pg s'" using sees_close [OF s] by blast
  then show ?thesis using Close_Dir by simp
next
  case (Open_File d' fl)
  then show ?thesis using sees_open [OF s, of d' fl False] s by (cases "d' < 1") (auto simp: hfuse_ll_open_def)
next
  case (Close_File d' i)
  obtain r s' where "hfuse_ll_release lock_entry d' i s = (Inr r, s')" "sees env fh d hp pg s'" using sees_close_file [OF s] by blast
  then show ?thesis using Close_File by simp
qed

lemma sees_ops:
  assumes "sees env fh d hp pg s" and "\<forall>q \<in> set qs. \<not> disturbs fh d q"
  shows "\<exists>s'. run_dir_ops lock_entry qs s = (Inr (), s') \<and> sees env fh d hp pg s'"
  using assms
proof (induction qs arbitrary: s)
  case (Cons q qs)
  obtain s1 where 1: "run_dir_op lock_entry q s = (Inr (), s1)" "sees env fh d hp pg s1" using sees_op [OF Cons.prems(1), of q] Cons.prems(2) by auto
  then show ?case using Cons.IH [OF 1(2)] Cons.prems(2) by simp
qed simp

subsection \<open>Reading it all\<close>

lemma sees_read:
  assumes s: "sees env fh d hp pg s" and lay: "layout_ok env" and off: "offset \<noteq> 0 \<or> snap_of s fh = None"
    and st: "\<And>m. tree_walk_list_head m = hp \<Longrightarrow> start_of m offset = (p, k)"
    and path: "tw_path pg p ps" and xs: "xs = items pg ps k"
  obtains s' where "hfuse_ll_readdir env fh d sz offset s = (Inr (Rd_Buf (fit env sz xs)), s')" "sees env fh d hp pg s'"
proof (cases "snap_of s fh")
  case None
  have h: "dir_handle fh d s" and l: "tree_walk_list_head (rd_meta env (meta_files s d)) = hp" "rd_page env (meta_files s d) = pg" using s None by (simp_all add: sees_def lists_def)
  have st': "start_of (rd_meta env (meta_files s d)) offset = (p, k)" by (rule st [OF l(1)])
  obtain s' where "hfuse_ll_readdir env fh d sz offset s = (Inr (Rd_Buf (fit env sz xs)), s')" "after_read env fh (snap_ref_sem (direntry_table s fh)) s s'"
    using readdir_live [OF h lay None st', of ps xs] path xs l(2) by blast
  then show ?thesis using that sees_after_read(1) [OF s] by blast
next
  case (Some t)
  have h: "dir_handle fh d s" and l: "tree_walk_list_head (rd_meta env (stream_bytes s t)) = hp" "rd_page env (stream_bytes s t) = pg" using s Some by (simp_all add: sees_def lists_def)
  have st': "start_of (rd_meta env (stream_bytes s t)) offset = (p, k)" by (rule st [OF l(1)])
  have o: "offset \<noteq> 0" using off Some by simp
  obtain s' n where "hfuse_ll_readdir env fh d sz offset s = (Inr (Rd_Buf (fit env sz xs)), s')" "after_read env fh n s s'"
    using readdir_snapshot [OF h lay Some o st', of ps xs] path xs l(2) by blast
  then show ?thesis using that sees_after_read(1) [OF s] by blast
qed


lemma read_from:
  assumes "sees env fh d hp pg s" and lay: "layout_ok env" and "offset \<noteq> 0 \<or> snap_of s fh = None" and "\<And>m. tree_walk_list_head m = hp \<Longrightarrow> start_of m offset = (p, k)"
    and "tw_path pg p ps" and "xs = items pg ps k" and "length xs < length qss" and "\<forall>x \<in> set xs. ent_size env (de_name x) \<le> sz" and "\<forall>qs \<in> set qss. \<forall>q \<in> set qs. \<not> disturbs fh d q"
  shows "\<exists>s'. read_all env lock_entry fh d sz qss offset s = (Inr xs, s')"
  using assms(1,3-)
proof (induction qss arbitrary: s offset p k ps xs)
  case (Cons qs qss)
  obtain s1 where r: "hfuse_ll_readdir env fh d sz offset s = (Inr (Rd_Buf (fit env sz xs)), s1)" and s1: "sees env fh d hp pg s1"
    using sees_read [OF Cons.prems(1) lay Cons.prems(2,3,4,5)] by blast
  show ?case
  proof (cases "xs = []")
    case True
    then show ?thesis using r by simp
  next
    case False
    have ne: "fit env sz xs \<noteq> []" using False Cons.prems(7) by (intro fit_nonempty) auto
    obtain zs where zs: "xs = fit env sz xs @ zs" using fit_prefix by blast
    obtain as x where ys: "fit env sz xs = as @ [x]" using ne by (cases "fit env sz xs" rule: rev_cases) auto
    have split: "items pg ps k = as @ x # zs" using Cons.prems(5) zs ys by simp
    obtain q qs' where q: "tw_path pg q (q # qs')" "de_off x \<ge> MAX_DIR_ENTRIES_PER_PAGE" "de_off x div (MAX_DIR_ENTRIES_PER_PAGE + 1) = q"
      "items pg (q # qs') (de_off x mod (MAX_DIR_ENTRIES_PER_PAGE + 1)) = zs" using items_resume [OF Cons.prems(4) split] by blast
    have nq: "\<forall>q \<in> set qs. \<not> disturbs fh d q" using Cons.prems(8) by simp
    obtain s2 where o: "run_dir_ops lock_entry qs s1 = (Inr (), s2)" "sees env fh d hp pg s2" using sees_ops [OF s1 nq] by blast
    have "\<exists>s'. read_all env lock_entry fh d sz qss (de_off x) s2 = (Inr zs, s')"
    proof (rule Cons.IH [OF o(2) _ _ q(1) q(4) [symmetric]])
      show "de_off x \<noteq> 0 \<or> snap_of s2 fh = None" using q(2) by auto
      show "start_of m (de_off x) = (q, de_off x mod (MAX_DIR_ENTRIES_PER_PAGE + 1))" for m using q(2,3) by (simp add: start_of_def)
      show "length zs < length qss" using Cons.prems(6) arg_cong [OF split, of length] Cons.prems(5) by simp
      have "set zs \<subseteq> set xs" using zs by (metis set_append Un_upper2)
      then show "\<forall>x \<in> set zs. ent_size env (de_name x) \<le> sz" using Cons.prems(7) by blast
      show "\<forall>qs \<in> set qss. \<forall>q \<in> set qs. \<not> disturbs fh d q" using Cons.prems(8) by simp
    qed
    then obtain s' where "read_all env lock_entry fh d sz qss (de_off x) s2 = (Inr zs, s')" by blast
    then show ?thesis using r o(1) ys zs by (intro exI [of _ s']) simp
  qed
qed simp

text \<open>The first read of a handle that has a snapshot drops it.\<close>

lemma dropped_ok:
  assumes ok: "fh_ok s" and h: "is_dirh s fh" and sn: "snap_of s fh = Some t"
  shows "fh_ok (dropped fh t s)"
proof -
  let ?s = "dropped fh t s"
  have fh: "fh < MAX_OPEN_FILE_ENTRIES" "owned s fh = Some t" using h sn by (simp_all add: is_dirh_def owned_def)
  have o: "owned ?s j = (if j = fh then None else owned s j)" for j
    using h by (cases "j = fh") (simp_all add: dropped_def owned_def snap_of_def is_dirh_def split: fh_flag.split)
  have live: "fs_streams ?s st \<noteq> None" if "j < MAX_OPEN_FILE_ENTRIES" "owned ?s j = Some st" for j st
  proof -
    have j: "j \<noteq> fh" "owned s j = Some st" using that(2) o [of j] by (auto split: if_splits)
    then have "st \<noteq> t" using fh_okD(5) [OF ok that(1) fh(1)] fh(2) by blast
    then show ?thesis using fh_okD(4) [OF ok that(1) j(2)] by (simp add: dropped_def)
  qed
  have inj: "i = j" if "i < MAX_OPEN_FILE_ENTRIES" "j < MAX_OPEN_FILE_ENTRIES" "owned ?s i = Some st" "owned ?s j = Some st" for i j st
    using fh_okD(5) [OF ok that(1,2), of st] that(3,4) o by (auto split: if_splits)
  have sane: "st < fs_fresh ?s \<and> obj < fs_fresh ?s" if "fs_streams ?s st = Some obj" for st obj
    using that fh_okD(3) [OF ok, of st obj] by (auto simp: dropped_def split: if_splits)
  have "open_handles ?s = open_handles s" "num_opened_files ?s = num_opened_files s" "fh_table_sem ?s = fh_table_sem s" "have_nonsnap_dir ?s"
    by (simp_all add: dropped_def open_handles_def)
  then show ?thesis unfolding fh_ok_def using fh_okD(1,2) [OF ok] live inj sane by simp
qed

lemma readdir_start_same:
  assumes h: "dir_handle fh d s" and sn: "snap_of s fh = Some t" and ok: "fh_ok s" and ref: "snap_ref_sem (direntry_table s fh) = 0"
  shows "hfuse_ll_readdir env fh d sz 0 s = hfuse_ll_readdir env fh d sz 0 (dropped fh t s)" "dir_handle fh d (dropped fh t s)"
proof -
  note H = dir_handleD [OF h]
  show h': "dir_handle fh d (dropped fh t s)" using h by (simp add: dir_handle_def is_dirh_def dropped_def)
  note H' = dir_handleD [OF h']
  have "hfuse_ll_readdir env fh d sz 0 s = readdir_body env fh d sz 0 None (rd_meta env (meta_files s d)) (dropped fh t s)"
    using H choose_start [OF h sn ok ref] by (simp add: hfuse_ll_readdir_def reply_exit_def Let_def)
  moreover have "choose_snapshot fh 0 (dropped fh t s) = (Inr None, dropped fh t s)" by (simp add: choose_snapshot_def dropped_def)
  then have "hfuse_ll_readdir env fh d sz 0 (dropped fh t s) = readdir_body env fh d sz 0 None (rd_meta env (meta_files s d)) (dropped fh t s)"
    using H' by (simp add: hfuse_ll_readdir_def reply_exit_def Let_def dropped_def)
  ultimately show "hfuse_ll_readdir env fh d sz 0 s = hfuse_ll_readdir env fh d sz 0 (dropped fh t s)" by simp
qed


subsection \<open>The invariant along any requests\<close>

lemma op_keeps_ok:
  assumes ok: "fh_ok s" and os: "fh_os s = []"
  shows "\<exists>s'. run_dir_op lock_entry q s = (Inr (), s') \<and> fh_ok s' \<and> fh_os s' = []"
proof -
  have op: "\<exists>r s'. reply_open (open_fh d' fl isdir) s = (Inr r, s') \<and> fh_ok s' \<and> fh_os s' = []" for d' fl isdir
  proof (cases "num_opened_files s < int MAX_OPEN_FILE_ENTRIES")
    case True
    obtain i where i: "open_fh d' fl isdir s = (Inr i, opened isdir i d' fl s)" "i < MAX_OPEN_FILE_ENTRIES" "entry_table_flags s i = NO_FH" using open_fh_runs [OF ok True] .
    then show ?thesis using opened_ok [OF ok i(2,3)] os by (simp add: reply_open_def)
  next
    case False
    then show ?thesis using ok os open_fh_full [OF ok] by (simp add: reply_open_def)
  qed
  have rel: "fh_ok s' \<and> fh_os s' = []" if "released i s s'" "i < MAX_OPEN_FILE_ENTRIES" "entry_table_flags s i \<noteq> NO_FH" for i s'
    using released_ok [OF ok that(2,3,1)] that(1) os by (simp add: released_def)
  show ?thesis
  proof (cases q)
    case (Change_Dir d c)
    obtain s1 where r: "handle_dirmeta_snapshot d (Some d) s = (Inr (), s1)" "snapped d s s1" "fh_ok s1" using handle_snapshot_run [OF ok os] .
    show ?thesis using Change_Dir r os rewrite_keeps_ok [OF r(3)] by (simp add: add_or_remove_entry_def snapped_def same_table_def)
  next
    case (Rewrite_Entry d c)
    then show ?thesis using ok os rewrite_keeps_ok by (simp add: rewrite_entry_def)
  next
    case (Open_Dir d)
    then show ?thesis using op [of d 0 True] by (auto simp: hfuse_ll_opendir_def)
  next
    case (Open_File d fl)
    then show ?thesis using op [of d fl False] ok os by (cases "d < 1") (auto simp: hfuse_ll_open_def)
  next
    case (Close_Dir d i)
    show ?thesis
    proof (cases "i < MAX_OPEN_FILE_ENTRIES \<and> entry_table_flags s i = IS_DIRH \<and> dirh_inode (direntry_table s i) = d")
      case True
      then obtain s' where "close_fh lock_entry i s = (Inr 0, s')" "released i s s'" using close_fh_dir [OF ok, of i lock_entry] by blast
      then show ?thesis using True rel [of i s'] Close_Dir by (simp add: hfuse_ll_releasedir_def)
    next
      case False
      then have "hfuse_ll_releasedir lock_entry d i s = (Inr EBADF, s)" by (auto simp: hfuse_ll_releasedir_def)
      then show ?thesis using Close_Dir ok os by simp
    qed
  next
    case (Close_File d i)
    show ?thesis
    proof (cases "i < MAX_OPEN_FILE_ENTRIES \<and> entry_table_flags s i = IS_FH \<and> fh_inode (entry_table s i) = d")
      case True
      then obtain s' where "close_fh lock_entry i s = (Inr 0, s')" "released i s s'" using close_fh_file [OF ok, of i lock_entry] by blast
      then show ?thesis using True rel [of i s'] Close_File by (simp add: hfuse_ll_release_def)
    next
      case False
      then have "hfuse_ll_release lock_entry d i s = (Inr EBADF, s)" by (auto simp: hfuse_ll_release_def)
      then show ?thesis using Close_File ok os by simp
    qed
  qed
qed

lemma ops_keep_ok: "fh_ok s \<Longrightarrow> fh_os s = [] \<Longrightarrow> \<exists>s'. run_dir_ops lock_entry qs s = (Inr (), s') \<and> fh_ok s' \<and> fh_os s' = []"
proof (induction qs arbitrary: s)
  case (Cons q qs)
  obtain s1 where "run_dir_op lock_entry q s = (Inr (), s1)" "fh_ok s1" "fh_os s1 = []" using op_keeps_ok [OF Cons.prems] by blast
  then show ?case using Cons.IH [of s1] by simp
qed simp

lemma init_ok:
  assumes "fs_streams s0 = Map.empty" and "fh_os s0 = []"
  shows "\<exists>s. init_system_fh_table s0 = (Inr (), s) \<and> fh_ok s \<and> fh_os s = []"
  using assms by (cases s0) (simp add: init_system_fh_table_def fh_alloc_def alloc_def fh_ok_def open_handles_def owned_def is_dirh_def)

end
