(* ===== verification/Readdir_Props.thy ===== *)
theory Readdir_Props
  imports Readdir_Listing
begin

text \<open>
  The properties of the table of open files and of directory reading, with a small table and a simple layout of meta files as witnesses.
\<close>

subsection \<open>A sample\<close>

text \<open>A layout with one page at position 1: every byte of the file is the name of an entry.\<close>

definition sample_page :: "string \<Rightarrow> nat \<Rightarrow> DIR_ENTRY_PAGE" where
  "sample_page c p = zero_page\<lparr>num_entries := length c, dir_entries := map (\<lambda>x. \<lparr>d_ino = 7, d_name = [x], d_type = 1\<rparr>) c, this_page_pos := p\<rparr>"

definition sample_env :: readdir_env where
  "sample_env = \<lparr>rd_meta = (\<lambda>c. \<lparr>total_children = int (length c), root_entry_page = 1, entry_page_gc_list = 0, tree_walk_list_head = 1\<rparr>), rd_page = sample_page,
     touch_atime = id, ent_size = (\<lambda>_. 32), restoring = False, meta_opened = True\<rparr>"

definition empty_table :: FH_TABLE_TYPE where
  "empty_table = \<lparr>num_opened_files = 0, entry_table_flags = (\<lambda>_. NO_FH), entry_table = (\<lambda>_. zero_fh), direntry_table = (\<lambda>_. zero_dirh), have_nonsnap_dir = False,
     last_available_index = 0, fh_table_sem = 1, fs_streams = Map.empty, fs_objects = (\<lambda>_. []), fs_snap_link = None, fs_fresh = 0,
     meta_files = (\<lambda>_. ''ab''), meta_pos = (\<lambda>_. 0), fh_os = [], fh_log = []\<rparr>"

lemma empty_table_ok: "fh_ok empty_table"
  by (simp add: fh_ok_def empty_table_def open_handles_def owned_def is_dirh_def)

text \<open>The same with handle 0 open on directory 5, and with a snapshot of that handle on a file with the bytes \<open>ab\<close>.\<close>

definition one_dir :: FH_TABLE_TYPE where
  "one_dir = opened True 0 5 0 empty_table"

definition one_snap :: FH_TABLE_TYPE where
  "one_snap = one_dir\<lparr>fs_streams := [3 \<mapsto> 2], fs_objects := (\<lambda>_. ''ab''), fs_fresh := 4, direntry_table := (\<lambda>_. (new_dirh 5 0)\<lparr>snapshot_ptr := Some 3\<rparr>)\<rparr>"

lemma one_dir_handle: "fh_ok one_dir" "dir_handle 0 5 one_dir" "snap_ref_sem (direntry_table one_dir 0) = 0"
proof -
  have "entry_table_flags empty_table 0 = NO_FH" by (simp add: empty_table_def)
  then show "fh_ok one_dir" unfolding one_dir_def by (intro opened_ok [OF empty_table_ok]) simp_all
qed (simp_all add: one_dir_def empty_table_def dir_handle_def is_dirh_def new_dirh_def)

lemma sample_layout: "layout_ok sample_env"
  by (simp add: layout_ok_def sample_env_def)

lemma sample_path: "rd_page sample_env c = pg \<Longrightarrow> length c \<le> 99 \<Longrightarrow> tw_path pg 1 [1] \<and> items pg [1] 0 = map (\<lambda>i. \<lparr>de_name = [c ! i], de_ino = 7, de_mode = 0x8000, de_off = 101 + i\<rparr>) [0..<length c]"
  by (auto simp: sample_env_def sample_page_def zero_page_def page_items_def dirent_at_def Let_def mode_of_type_def)

subsection \<open>Properties\<close>

text \<open>
  C33: A directory listing that is read in pieces through one handle is the listing the directory had when the first piece was read, entry by entry and complete, while between the pieces entries are
  added to and removed from directories (the same one too), entries of other directories are changed in place, and other handles of directories and files are opened and closed.  For this \<^verbatim>\<open>hfuse_ll_readdir\<close>
  goes on in the snapshot that \<^verbatim>\<open>handle_dirmeta_snapshot\<close> takes before an entry is added or removed.  A rename that changes an entry of the directory itself in place takes no snapshot and is
  excluded (\<open>disturbs\<close>): \<open>rewrite_is_seen\<close> shows that the reader then goes on in the changed directory.  A snapshot the handle has from before must have no counted reader.  The reads end: one more than
  there are entries is enough when every entry fits into the buffer.
\<close>

theorem readdir_lists_first_state:
  assumes ok: "fh_ok s" and h: "dir_handle fh d s" and ref: "snap_of s fh = None \<or> snap_ref_sem (direntry_table s fh) = 0" and lay: "layout_ok env"
    and path: "tw_path (rd_page env (meta_files s d)) (tree_walk_list_head (rd_meta env (meta_files s d))) ps" and xs: "xs = items (rd_page env (meta_files s d)) ps 0"
    and fits: "\<forall>x \<in> set xs. ent_size env (de_name x) \<le> sz" and enough: "length xs < length qss" and keep: "\<forall>qs \<in> set qss. \<forall>q \<in> set qs. \<not> disturbs fh d q"
  shows "\<exists>s'. read_all env lock_entry fh d sz qss 0 s = (Inr xs, s')"
proof -
  let ?hp = "tree_walk_list_head (rd_meta env (meta_files s d))" and ?pg = "rd_page env (meta_files s d)"
  have st: "tree_walk_list_head m = ?hp \<Longrightarrow> start_of m 0 = (?hp, 0)" for m by (simp add: start_of_def)
  show ?thesis
  proof (cases "snap_of s fh")
    case None
    have "sees env fh d ?hp ?pg s" using ok h None by (simp add: sees_def lists_def)
    then show ?thesis using read_from [OF _ lay _ st path xs enough fits keep] None by blast
  next
    case (Some t)
    then have ref: "snap_ref_sem (direntry_table s fh) = 0" using ref by simp
    let ?s = "dropped fh t s"
    have n: "snap_of ?s fh = None" "meta_files ?s = meta_files s" by (simp_all add: dropped_def snap_of_def)
    have "sees env fh d ?hp ?pg ?s"
      using dropped_ok [OF ok _ Some] readdir_start_same(2) [OF h Some ok ref] h n by (simp add: sees_def lists_def dir_handle_def)
    then have "\<exists>s'. read_all env lock_entry fh d sz qss 0 ?s = (Inr xs, s')" using read_from [OF _ lay _ st path xs enough fits keep] n by blast
    moreover have "read_all env lock_entry fh d sz qss 0 s = read_all env lock_entry fh d sz qss 0 ?s"
      using enough readdir_start_same(1) [OF h Some ok ref, of env sz] by (cases qss) (simp_all add: bindE_def)
    ultimately show ?thesis by simp
  qed
qed

theorem readdir_lists_first_state_witness:
  "\<exists>s'. read_all sample_env (\<lambda>_. None) 0 5 40 [[Change_Dir 5 ''xyz'', Rewrite_Entry 6 ''c'', Open_Dir 5], [Change_Dir 5 [], Close_Dir 5 1], []] 0 one_dir =
    (Inr [\<lparr>de_name = ''a'', de_ino = 7, de_mode = 0x8000, de_off = 101\<rparr>, \<lparr>de_name = ''b'', de_ino = 7, de_mode = 0x8000, de_off = 102\<rparr>], s')"
proof -
  have m: "meta_files one_dir 5 = ''ab''" "tree_walk_list_head (rd_meta sample_env c) = 1" "ent_size sample_env = (\<lambda>_. 32)" for c by (simp_all add: one_dir_def empty_table_def sample_env_def)
  have p: "tw_path (rd_page sample_env ''ab'') 1 [1]"
    "[\<lparr>de_name = ''a'', de_ino = 7, de_mode = 0x8000, de_off = 101\<rparr>, \<lparr>de_name = ''b'', de_ino = 7, de_mode = 0x8000, de_off = 102\<rparr>] = items (rd_page sample_env ''ab'') [1] 0"
    using sample_path [OF refl, of "''ab''"] by (simp_all add: upt_rec)
  show ?thesis
    by (rule readdir_lists_first_state [OF one_dir_handle(1,2) disjI2 [OF one_dir_handle(3)] sample_layout, unfolded m(1,2), OF p]) (simp_all add: m)
qed


text \<open>
  C35: When a reply fills the buffer while a snapshot is read, \<^verbatim>\<open>hfuse_ll_readdir\<close> returns without counting itself out of \<^verbatim>\<open>snap_ref_sem\<close>: the next read from the start (\<^verbatim>\<open>rewinddir\<close>)
  waits for ever for the reader that is already gone.
\<close>

theorem rewind_after_partial_read_hangs:
  assumes h: "dir_handle fh d s" and lay: "layout_ok env" and some: "snap_of s fh = Some t" and off: "offset \<noteq> 0"
    and st: "start_of (rd_meta env (stream_bytes s t)) offset = (p, k)" and path: "tw_path (rd_page env (stream_bytes s t)) p ps"
    and xs: "xs = items (rd_page env (stream_bytes s t)) ps k" and more: "fit env sz xs \<noteq> xs"
  shows "\<exists>s1. hfuse_ll_readdir env fh d sz offset s = (Inr (Rd_Buf (fit env sz xs)), s1) \<and> fst (hfuse_ll_readdir env fh d sz 0 s1) = Inl Hang"
proof -
  obtain s1 where r: "hfuse_ll_readdir env fh d sz offset s = (Inr (Rd_Buf (fit env sz xs)), s1)"
    and a: "after_read env fh (snap_ref_sem (direntry_table s fh) + 1) s s1"
    using readdir_snapshot [OF h lay some off st path xs, of sz] more by auto
  have "dir_handle fh d s1" "snap_of s1 fh = Some t" "snap_ref_sem (direntry_table s1 fh) > 0"
    using h some a by (simp_all add: dir_handle_def is_dirh_def snap_of_def after_read_def)
  then show ?thesis using r readdir_start_hangs by blast
qed

theorem rewind_after_partial_read_hangs_witness:
  "\<exists>s1. hfuse_ll_readdir sample_env 0 5 40 100 one_snap = (Inr (Rd_Buf [\<lparr>de_name = ''a'', de_ino = 7, de_mode = 0x8000, de_off = 101\<rparr>]), s1) \<and>
    fst (hfuse_ll_readdir sample_env 0 5 40 0 s1) = Inl Hang"
proof -
  have h: "dir_handle 0 5 one_snap" "snap_of one_snap 0 = Some 3" "stream_bytes one_snap 3 = ''ab''"
    by (simp_all add: one_snap_def one_dir_def dir_handle_def is_dirh_def snap_of_def stream_bytes_def new_dirh_def empty_table_def)
  let ?xs = "[\<lparr>de_name = ''a'', de_ino = 7, de_mode = 0x8000, de_off = 101\<rparr>, \<lparr>de_name = ''b'', de_ino = 7, de_mode = 0x8000, de_off = 102\<rparr>]"
  have p: "tw_path (rd_page sample_env ''ab'') 1 [1]" "?xs = items (rd_page sample_env ''ab'') [1] 0"
    using sample_path [OF refl, of "''ab''"] by (simp_all add: upt_rec)
  have f: "fit sample_env 40 ?xs = [\<lparr>de_name = ''a'', de_ino = 7, de_mode = 0x8000, de_off = 101\<rparr>]" by (simp add: sample_env_def)
  have st: "start_of (rd_meta sample_env ''ab'') 100 = (1, 0)" by (simp add: start_of_def)
  have ne: "fit sample_env 40 ?xs \<noteq> ?xs" and o: "(100 :: nat) \<noteq> 0" unfolding f by simp_all
  show ?thesis using rewind_after_partial_read_hangs [OF h(1) sample_layout h(2) o, unfolded h(3), OF st p ne] unfolding f .
qed


text \<open>
  C34: The table of open files stays consistent under any sequence of opening and closing files and directories and changing directories (with a snapshot or in place), from \<^verbatim>\<open>init_system_fh_table\<close> on: every request returns, the lock is
  free, \<^verbatim>\<open>num_opened_files\<close> is the number of handles in use, no two handles own the same stream, every stream of a handle is open, and \<^verbatim>\<open>have_nonsnap_dir\<close> is set while a directory handle
  has no snapshot.
\<close>

theorem file_table_invariant:
  assumes "fs_streams s0 = Map.empty" and "fh_os s0 = []"
  shows "\<exists>s s'. init_system_fh_table s0 = (Inr (), s) \<and> run_dir_ops lock_entry qs s = (Inr (), s') \<and> fh_ok s'"
  using init_ok [OF assms] ops_keep_ok by blast

theorem file_table_invariant_witness:
  "\<exists>s s'. init_system_fh_table (one_dir\<lparr>have_nonsnap_dir := False, fh_table_sem := 0\<rparr>) = (Inr (), s) \<and>
    run_dir_ops (\<lambda>_. Some 1) [Open_Dir 5, Open_File 6 2, Change_Dir 5 ''x'', Rewrite_Entry 5 ''y'', Close_Dir 5 0, Close_File 6 1, Close_File 6 1] s = (Inr (), s') \<and> fh_ok s'"
  by (rule file_table_invariant) (simp_all add: one_dir_def empty_table_def)

subsection \<open>A failing snapshot\<close>

lemma call_head: "fh_os s = IO_Ok # r \<Longrightarrow> fh_call s = (Inr (), s\<lparr>fh_os := r\<rparr>)" "fh_os s = IO_Ok # r \<Longrightarrow> fh_call_EIO s = (Inr (), s\<lparr>fh_os := r\<rparr>)"
  by (simp_all add: fh_call_def fh_call_EIO_def)

lemma copy_one_block:
  assumes "rest \<noteq> []" "length rest < 4096" "fh_os s = IO_Ok # IO_Ok # r" "fs_streams s st = Some obj"
  shows "copy_meta rest st s = (Inr (), s\<lparr>fh_os := r, fs_objects := (fs_objects s)(obj := fs_objects s obj @ rest)\<rparr>)"
  using assms by (subst copy_meta.simps) (simp add: call_head fs_write_def)

lemma create_snapshot_script:
  assumes link: "fs_snap_link s = None" and os: "fh_os s = [IO_Ok, IO_Ok, IO_Ok, IO_Ok, IO_Ok, IO_Ok, IO_Err e]"
    and bytes: "meta_files s d \<noteq> []" "length (meta_files s d) < 4096"
  obtains s' where "create_snapshot d (s, v) = (Inr (), (s', v\<lparr>snapfptr := Some (fs_fresh s + 1), snap_created := True\<rparr>))"
    "fs_streams s' (fs_fresh s + 1) = None" "fs_snap_link s' = Some (fs_fresh s)" "fh_os s' = [IO_Err e]" "fh_table_sem s' = fh_table_sem s"
proof -
  have "\<exists>s'. create_snapshot d (s, v) = (Inr (), (s', v\<lparr>snapfptr := Some (fs_fresh s + 1), snap_created := True\<rparr>)) \<and>
    fs_streams s' (fs_fresh s + 1) = None \<and> fs_snap_link s' = Some (fs_fresh s) \<and> fh_os s' = [IO_Err e] \<and> fh_table_sem s' = fh_table_sem s"
    using assms by (cases s) (simp add: create_snapshot_def on_table_def call_head fopen_w_def new_stream_def copy_one_block fs_fclose_def)
  then show ?thesis using that by blast
qed

lemma snapshot_entries_skip:
  "\<forall>j \<in> set is. \<not> (entry_table_flags s j = IS_DIRH \<and> snap_of s j = None) \<Longrightarrow> snapshot_entries d f is (s, v) = (Inr (), (s, v))"
  by (induction "is") (auto simp: snapshot_entry_def Let_def snap_of_def)

lemma snapshot_entries_append: "snapshot_entries d f (xs @ ys) sv = bindE (snapshot_entries d f xs) (\<lambda>_. snapshot_entries d f ys) sv"
  by (induction xs arbitrary: sv) (simp_all add: bindE_assoc returnE_def bindE_def split: prod.split sum.split)

text \<open>
  When \<^verbatim>\<open>handle_dirmeta_snapshot\<close> has written the copy and then cannot open it for reading, its error exit closes the stream of the copy a second time, which is undefined.  Here for a meta file of
  one block: the seventh call fails.
\<close>

theorem snapshot_reopen_failure_closes_twice:
  assumes sem: "fh_table_sem s = 1" and scan: "have_nonsnap_dir s" and link: "fs_snap_link s = None" and os: "fh_os s = [IO_Ok, IO_Ok, IO_Ok, IO_Ok, IO_Ok, IO_Ok, IO_Err e]"
    and bytes: "meta_files s d \<noteq> []" "length (meta_files s d) < 4096"
    and i: "i < MAX_OPEN_FILE_ENTRIES" "needs_snap d s i" and first: "\<forall>j < i. \<not> (entry_table_flags s j = IS_DIRH \<and> snap_of s j = None)"
  shows "fst (handle_dirmeta_snapshot d (Some d) s) = Inl Crash"
proof -
  let ?v = "\<lparr>snap_created = False, snapfptr = None, have_opened_nonsnap = False\<rparr>" and ?s = "s\<lparr>fh_table_sem := 0\<rparr>"
  have "[0..<MAX_OPEN_FILE_ENTRIES] = [0..<i] @ [i..<MAX_OPEN_FILE_ENTRIES]" using upt_add_eq_append [of 0 i "MAX_OPEN_FILE_ENTRIES - i"] i(1) by simp
  moreover have "[i..<MAX_OPEN_FILE_ENTRIES] = i # [i + 1..<MAX_OPEN_FILE_ENTRIES]" using upt_conv_Cons [OF i(1)] by simp
  ultimately have l: "[0..<MAX_OPEN_FILE_ENTRIES] = [0..<i] @ i # [i + 1..<MAX_OPEN_FILE_ENTRIES]" by (simp only:)
  have sk: "snapshot_entries d d [0..<i] (?s, ?v) = (Inr (), (?s, ?v))" by (rule snapshot_entries_skip) (use first in \<open>auto simp: snap_of_def\<close>)
  obtain s' where c: "create_snapshot d (?s, ?v) = (Inr (), (s', ?v\<lparr>snapfptr := Some (fs_fresh ?s + 1), snap_created := True\<rparr>))"
    "fs_streams s' (fs_fresh ?s + 1) = None" "fs_snap_link s' = Some (fs_fresh ?s)" "fh_os s' = [IO_Err e]" "fh_table_sem s' = fh_table_sem ?s"
    by (rule create_snapshot_script [where s = ?s and d = d and e = e and v = ?v]) (use link os bytes in simp_all)
  have n: "entry_table_flags s i = IS_DIRH" "snapshot_ptr (direntry_table s i) = None" "dirh_inode (direntry_table s i) = d" using i(2) by (simp_all add: needs_snap_def snap_of_def)
  have "snapshot_entry d d i (?s, ?v) = (Inl (Errno EIO), (s'\<lparr>fh_os := []\<rparr>, ?v\<lparr>snapfptr := Some (fs_fresh s + 1), snap_created := True\<rparr>))"
    using n c(1,4) by (simp add: snapshot_entry_def Let_def on_table_def fopen_r_def fh_call_EIO_def)
  then have e: "snapshot_entries d d [0..<MAX_OPEN_FILE_ENTRIES] (?s, ?v) = (Inl (Errno EIO), (s'\<lparr>fh_os := []\<rparr>, ?v\<lparr>snapfptr := Some (fs_fresh s + 1), snap_created := True\<rparr>))"
    unfolding l snapshot_entries_append using sk by simp
  show ?thesis unfolding handle_dirmeta_snapshot_def using e c(2,5) sem scan
    by (simp add: fh_wait_run fh_post_run unlink_if_def unlink_snap_def fs_fclose_def del: upt_conv_Cons upt_rec_numeral)
qed

theorem snapshot_reopen_failure_closes_twice_witness:
  "fst (handle_dirmeta_snapshot 5 (Some 5) (one_dir\<lparr>fh_os := [IO_Ok, IO_Ok, IO_Ok, IO_Ok, IO_Ok, IO_Ok, IO_Err EIO]\<rparr>)) = Inl Crash"
  by (rule snapshot_reopen_failure_closes_twice [where i = 0 and e = EIO]) (simp_all add: one_dir_def empty_table_def needs_snap_def snap_of_def new_dirh_def)

end
