(* ===== verification/Parent_Lookup.thy ===== *)
theory Parent_Lookup
  imports Buckets
begin

text \<open>
  The database of parents, \<^verbatim>\<open>src/HCFS/parent_lookup.c\<close>, with the functions of \<^verbatim>\<open>path_reconstruct.c\<close> that open it and write it directly.  The first file has a record per inode with its
  first parent and a flag that tells whether there are others.  The others (hard links) are in a second file: a hash table of 1024 lists of inodes, where each inode has a list of pages with up to 32
  parents, and a list of pages to use again.  The head of the second file is kept in memory too.

  A page that is read where the file ends, or of which nothing is read, is zero; what a read or write across the borders of pages does is not followed and counts as a \<open>Crash\<close>.  A loop that follows
  links for ever is a \<open>Hang\<close>.  File positions and inode numbers are unbounded.
\<close>

abbreviation (input) MAX_PARENTS_PER_PAGE :: nat where "MAX_PARENTS_PER_PAGE \<equiv> 32"
abbreviation (input) PLOOKUP_HASH_NUM_ENTRIES :: nat where "PLOOKUP_HASH_NUM_ENTRIES \<equiv> 1024"

subsection \<open>The files\<close>

record PRIMARY_PARENT_T =
  parentinode :: ino_t
  haveothers :: bool

record PLOOKUP_PAGE_T =
  thisinode :: ino_t
  num_parents :: nat
  parents :: "ino_t list"
  nextlookup :: nat
  nextpage :: nat
  gc_next :: nat

record PLOOKUP_HEAD_T =
  hash_head :: "nat list"
  gc_head :: nat

record DIR_STATS_TYPE =
  num_local :: int
  num_cloud :: int
  num_hybrid :: int

definition zero_primary :: PRIMARY_PARENT_T where
  "zero_primary = \<lparr>parentinode = 0, haveothers = False\<rparr>"

definition zero_plookup_page :: PLOOKUP_PAGE_T where
  "zero_plookup_page = \<lparr>thisinode = 0, num_parents = 0, parents = replicate MAX_PARENTS_PER_PAGE 0, nextlookup = 0, nextpage = 0, gc_next = 0\<rparr>"

definition zero_plookup_head :: PLOOKUP_HEAD_T where
  "zero_plookup_head = \<lparr>hash_head = replicate PLOOKUP_HASH_NUM_ENTRIES 0, gc_head = 0\<rparr>"

definition zero_stats :: DIR_STATS_TYPE where
  "zero_stats = \<lparr>num_local = 0, num_cloud = 0, num_hybrid = 0\<rparr>"

abbreviation (input) plookup_page_size :: nat where "plookup_page_size \<equiv> 296"
abbreviation (input) plookup_head_size :: nat where "plookup_head_size \<equiv> 8200"

text \<open>
  The three files that \<^verbatim>\<open>pathlookup_data_lock\<close> protects: \<^verbatim>\<open>pathlookup_db\<close>, \<^verbatim>\<open>parentlookup2_db\<close> (its pages by position, its head and its end) and \<^verbatim>\<open>dirstat_lookup_db\<close>, used by
  \<^verbatim>\<open>dir_statistics.c\<close>; the head in memory, the lock, and the outcomes of the calls to come.
\<close>

record lookup_state =
  pathlookup_db :: "PRIMARY_PARENT_T list option"
  plookup2_exists :: bool
  plookup2_head :: PLOOKUP_HEAD_T
  plookup2_pages :: "nat \<rightharpoonup> PLOOKUP_PAGE_T"
  plookup2_end :: nat
  dirstat_lookup_db :: "DIR_STATS_TYPE list option"
  parent_lookup_head :: PLOOKUP_HEAD_T
  pathlookup_data_lock :: nat
  pl_os :: "io_outcome list"

subsection \<open>System calls\<close>

text \<open>
  A transfer: \<open>False\<close> when no byte is moved, which \<^verbatim>\<open>PREAD\<close> and \<^verbatim>\<open>PWRITE\<close> do not count as an error.
\<close>

definition pl_transfer :: "(lookup_state, bool) sm" where
  "pl_transfer = (\<lambda>s. (case pl_os s of IO_Err e # _ \<Rightarrow> Inl (Errno e) | IO_Short # _ \<Rightarrow> Inr False | _ \<Rightarrow> Inr True, s\<lparr>pl_os := tl (pl_os s)\<rparr>))"

definition pl_call :: "(lookup_state, unit) sm" where
  "pl_call = (\<lambda>s. (case pl_os s of IO_Err e # _ \<Rightarrow> Inl (Errno e) | _ \<Rightarrow> Inr (), s\<lparr>pl_os := tl (pl_os s)\<rparr>))"

definition pl_malloc :: "(lookup_state, unit) sm" where
  "pl_malloc = (\<lambda>s. (case pl_os s of IO_Err e # _ \<Rightarrow> Inl (Errno ENOMEM) | _ \<Rightarrow> Inr (), s\<lparr>pl_os := tl (pl_os s)\<rparr>))"

text \<open>The record at an index of a file of records, and writing one, perhaps behind the end.\<close>

definition rec_at :: "'r list option \<Rightarrow> ino_t \<Rightarrow> 'r option" where
  "rec_at f i = (case f of Some rs \<Rightarrow> if i - 1 < length rs then Some (rs ! (i - 1)) else None | None \<Rightarrow> None)"

definition rec_put :: "'r \<Rightarrow> ino_t \<Rightarrow> 'r \<Rightarrow> 'r list option \<Rightarrow> 'r list option" where
  "rec_put z i r f = map_option (\<lambda>rs. if i - 1 < length rs then rs[i - 1 := r] else rs @ replicate (i - 1 - length rs) z @ [r]) f"

text \<open>The position for inode \<open>0\<close> is negative.\<close>

definition pread_primary :: "ino_t \<Rightarrow> (lookup_state, PRIMARY_PARENT_T option) sm" where
  "pread_primary i = bindE pl_transfer (\<lambda>ok s.
     if i = 0 then (Inl (Errno EINVAL), s) else (Inr (if ok then rec_at (pathlookup_db s) i else None), s))"

definition read_primary :: "ino_t \<Rightarrow> (lookup_state, PRIMARY_PARENT_T) sm" where
  "read_primary i = bindE (pread_primary i) (\<lambda>r. returnE (case r of Some p \<Rightarrow> p | None \<Rightarrow> zero_primary))"

definition pwrite_primary :: "ino_t \<Rightarrow> PRIMARY_PARENT_T \<Rightarrow> (lookup_state, unit) sm" where
  "pwrite_primary i p = bindE pl_transfer (\<lambda>ok s.
     if i = 0 then (Inl (Errno EINVAL), s) else (Inr (), if ok then s\<lparr>pathlookup_db := rec_put zero_primary i p (pathlookup_db s)\<rparr> else s))"

definition pread_page :: "nat \<Rightarrow> (lookup_state, PLOOKUP_PAGE_T) sm" where
  "pread_page pos = bindE pl_transfer (\<lambda>ok s.
     if \<not> ok \<or> plookup2_end s \<le> pos then (Inr zero_plookup_page, s)
     else (case plookup2_pages s pos of Some g \<Rightarrow> Inr g | None \<Rightarrow> Inl Crash, s))"

definition pwrite_page :: "PLOOKUP_PAGE_T \<Rightarrow> nat \<Rightarrow> (lookup_state, unit) sm" where
  "pwrite_page g pos = bindE pl_transfer (\<lambda>ok s.
     if \<not> ok then (Inr (), s)
     else if pos = plookup2_end s then (Inr (), s\<lparr>plookup2_pages := (plookup2_pages s)(pos \<mapsto> g), plookup2_end := pos + plookup_page_size\<rparr>)
     else if plookup2_pages s pos = None then (Inl Crash, s)
     else (Inr (), s\<lparr>plookup2_pages := (plookup2_pages s)(pos \<mapsto> g)\<rparr>))"

definition pwrite_plookup_head :: "(lookup_state, unit) sm" where
  "pwrite_plookup_head = bindE pl_transfer (\<lambda>ok. modifyE (\<lambda>s.
     if ok then s\<lparr>plookup2_head := parent_lookup_head s, plookup2_end := max plookup_head_size (plookup2_end s)\<rparr> else s))"

definition pread_plookup_head :: "(lookup_state, unit) sm" where
  "pread_plookup_head = bindE pl_transfer (\<lambda>ok. modifyE (\<lambda>s.
     s\<lparr>parent_lookup_head := if ok \<and> plookup2_end s \<noteq> 0 then plookup2_head s else zero_plookup_head\<rparr>))"

definition upd_plookup_head :: "(PLOOKUP_HEAD_T \<Rightarrow> PLOOKUP_HEAD_T) \<Rightarrow> (lookup_state, unit) sm" where
  "upd_plookup_head f = modifyE (\<lambda>s. s\<lparr>parent_lookup_head := f (parent_lookup_head s)\<rparr>)"

definition set_hash_head :: "nat \<Rightarrow> nat \<Rightarrow> (lookup_state, unit) sm" where
  "set_hash_head h pos = upd_plookup_head (\<lambda>H. H\<lparr>hash_head := (hash_head H)[h := pos]\<rparr>)"

definition upd_plookup_page :: "(PLOOKUP_PAGE_T \<Rightarrow> PLOOKUP_PAGE_T) \<Rightarrow> nat \<Rightarrow> (lookup_state, unit) sm" where
  "upd_plookup_page f pos = bindE (pread_page pos) (\<lambda>g. pwrite_page (f g) pos)"

definition pl_wait :: "(lookup_state, unit) sm" where
  "pl_wait = sem_wait pathlookup_data_lock pathlookup_data_lock_update"

definition pl_post :: "(lookup_state, unit) sm" where
  "pl_post = sem_post pathlookup_data_lock_update"

text \<open>A loop that does not end never returns.\<close>

definition or_hang :: "('s \<Rightarrow> ((failure + 'a) \<times> 's) option) \<Rightarrow> ('s, 'a) sm" where
  "or_hang m = (\<lambda>s. case m s of None \<Rightarrow> (Inl Hang, s) | Some r \<Rightarrow> r)"

subsection \<open>Start-up\<close>

definition init_pathlookup :: "(lookup_state, unit) sm" where
  "init_pathlookup =
     bindE pl_call (\<lambda>_. bindE (modifyE (\<lambda>s. s\<lparr>pathlookup_data_lock := 1\<rparr>)) (\<lambda>_ s0.
     bindE (if pathlookup_db s0 = None then bindE pl_call (\<lambda>_. modifyE (\<lambda>s. s\<lparr>pathlookup_db := Some []\<rparr>)) else returnE ()) (\<lambda>_.
     bindE pl_call (\<lambda>_ s1.
     let need_init = \<not> plookup2_exists s1 in
     bindE (if need_init then bindE pl_call (\<lambda>_. modifyE (\<lambda>s. s\<lparr>plookup2_exists := True, plookup2_pages := Map.empty, plookup2_end := 0\<rparr>)) else returnE ()) (\<lambda>_.
     bindE pl_call (\<lambda>_.
     if need_init then bindE (upd_plookup_head (\<lambda>_. zero_plookup_head)) (\<lambda>_. pwrite_plookup_head)
     else pread_plookup_head)) s1)) s0))"

subsection \<open>Reading the parents of an inode\<close>

definition page_parents :: "PLOOKUP_PAGE_T \<Rightarrow> ino_t list" where
  "page_parents g = take (num_parents g) (parents g)"

definition hash_of :: "ino_t \<Rightarrow> nat" where
  "hash_of i = i mod PLOOKUP_HASH_NUM_ENTRIES"

text \<open>
  The search for the first page of an inode in the list of its hash value, which starts three functions: the position of the page before, the position (\<open>0\<close> if there is none) and
  the page.
\<close>

partial_function (option) find_inode_page :: "ino_t \<Rightarrow> nat \<Rightarrow> nat \<Rightarrow> lookup_state \<Rightarrow> ((failure + nat \<times> nat \<times> PLOOKUP_PAGE_T) \<times> lookup_state) option" where
  "find_inode_page self prevpos tmppos s =
     (if tmppos = 0 then Some (Inr (prevpos, 0, zero_plookup_page), s)
      else case pread_page tmppos s of
        (Inl e, s') \<Rightarrow> Some (Inl e, s')
      | (Inr g, s') \<Rightarrow> if thisinode g = self then Some (Inr (prevpos, tmppos, g), s') else find_inode_page self tmppos (nextlookup g) s')"

definition find_first_page :: "ino_t \<Rightarrow> (lookup_state, nat \<times> nat \<times> PLOOKUP_PAGE_T) sm" where
  "find_first_page self = (\<lambda>s. or_hang (find_inode_page self 0 (hash_head (parent_lookup_head s) ! hash_of self)) s)"

text \<open>The parents of a page go into an array that grows by ten.\<close>

fun add_parents :: "nat \<Rightarrow> ino_t list \<Rightarrow> ino_t list \<Rightarrow> (lookup_state, nat \<times> ino_t list) sm" where
  "add_parents tmpmaxnum acc [] = returnE (tmpmaxnum, acc)"
| "add_parents tmpmaxnum acc (p # ps) =
     (if length acc + 1 \<ge> tmpmaxnum then bindE pl_malloc (\<lambda>_. add_parents (tmpmaxnum + 10) (acc @ [p]) ps)
      else add_parents tmpmaxnum (acc @ [p]) ps)"

partial_function (option) collect_pages :: "nat \<Rightarrow> ino_t list \<Rightarrow> PLOOKUP_PAGE_T \<Rightarrow> lookup_state \<Rightarrow> ((failure + ino_t list) \<times> lookup_state) option" where
  "collect_pages tmpmaxnum acc g s =
     (case add_parents tmpmaxnum acc (page_parents g) s of
        (Inl e, s1) \<Rightarrow> Some (Inl e, s1)
      | (Inr (m, acc'), s1) \<Rightarrow>
          if nextpage g = 0 then Some (Inr acc', s1)
          else case pread_page (nextpage g) s1 of
            (Inl e, s2) \<Rightarrow> Some (Inl e, s2)
          | (Inr g', s2) \<Rightarrow> collect_pages m acc' g' s2)"

definition fetch_all_parents :: "ino_t \<Rightarrow> (lookup_state, ino_t list) sm" where
  "fetch_all_parents self = (\<lambda>s.
     if self = 0 \<or> pathlookup_data_lock s > 0 then (Inl (Errno EINVAL), s)
     else bindE (pread_primary self) (\<lambda>r. case r of
       None \<Rightarrow> returnE []
     | Some tmpparent \<Rightarrow>
         if parentinode tmpparent = 0 \<and> \<not> haveothers tmpparent then returnE []
         else bindE pl_malloc (\<lambda>_.
           let parentlist = (if parentinode tmpparent > 0 then [parentinode tmpparent] else []) in
           if \<not> haveothers tmpparent then returnE parentlist
           else bindE (find_first_page self) (\<lambda>(prevpos, tmppos, g).
             if tmppos = 0 then returnE parentlist
             else or_hang (collect_pages 10 parentlist g)))) s)"

subsection \<open>Adding a parent\<close>

definition alloc_new_page :: "(lookup_state, nat) sm" where
  "alloc_new_page = (\<lambda>s.
     if gc_head (parent_lookup_head s) \<noteq> 0 then
       let tmppos = gc_head (parent_lookup_head s) in
       bindE (pread_page tmppos) (\<lambda>g. bindE (upd_plookup_head (\<lambda>H. H\<lparr>gc_head := gc_next g\<rparr>)) (\<lambda>_. bindE pwrite_plookup_head (\<lambda>_. returnE tmppos))) s
     else bindE pl_call (\<lambda>_. bindE pl_call (\<lambda>_ s'. (Inr (plookup2_end s'), s'))) s)"

definition new_page_pos :: "(lookup_state, nat) sm" where
  "new_page_pos = bindE alloc_new_page (\<lambda>tmppos. if tmppos = 0 then failE (Errno EIO) else returnE tmppos)"

definition one_parent_page :: "ino_t \<Rightarrow> ino_t \<Rightarrow> PLOOKUP_PAGE_T" where
  "one_parent_page self parent = zero_plookup_page\<lparr>thisinode := self, num_parents := 1, parents := (parents zero_plookup_page)[0 := parent]\<rparr>"

definition add_to_head :: "ino_t \<Rightarrow> ino_t \<Rightarrow> (lookup_state, unit) sm" where
  "add_to_head self parent =
     bindE new_page_pos (\<lambda>tmppos. bindE (set_hash_head (hash_of self) tmppos) (\<lambda>_. bindE (pwrite_page (one_parent_page self parent) tmppos) (\<lambda>_. pwrite_plookup_head)))"

definition add_to_tail :: "ino_t \<Rightarrow> ino_t \<Rightarrow> nat \<Rightarrow> (lookup_state, unit) sm" where
  "add_to_tail self parent prevpos =
     bindE new_page_pos (\<lambda>tmppos. bindE (pwrite_page (one_parent_page self parent) tmppos) (\<lambda>_. upd_plookup_page (\<lambda>g. g\<lparr>nextlookup := tmppos\<rparr>) prevpos))"

definition add_new_page :: "ino_t \<Rightarrow> ino_t \<Rightarrow> nat \<Rightarrow> (lookup_state, unit) sm" where
  "add_new_page self parent prevpos =
     bindE new_page_pos (\<lambda>tmppos. bindE (pwrite_page (one_parent_page self parent) tmppos) (\<lambda>_. upd_plookup_page (\<lambda>g. g\<lparr>nextpage := tmppos\<rparr>) prevpos))"

text \<open>
  The walk along the pages of an inode up to a page that satisfies a condition, which three functions share: the position of the page before, the position (\<open>0\<close> if there is none) and the page.
\<close>

partial_function (option) walk_inode :: "(PLOOKUP_PAGE_T \<Rightarrow> bool) \<Rightarrow> nat \<Rightarrow> nat \<Rightarrow> PLOOKUP_PAGE_T \<Rightarrow> lookup_state \<Rightarrow> ((failure + nat \<times> nat \<times> PLOOKUP_PAGE_T) \<times> lookup_state) option" where
  "walk_inode P prevpos tmppos g s =
     (if P g then Some (Inr (prevpos, tmppos, g), s)
      else if nextpage g = 0 then Some (Inr (tmppos, 0, g), s)
      else case pread_page (nextpage g) s of
        (Inl e, s') \<Rightarrow> Some (Inl e, s')
      | (Inr g', s') \<Rightarrow> walk_inode P tmppos (nextpage g) g' s')"

definition has_room :: "PLOOKUP_PAGE_T \<Rightarrow> bool" where
  "has_room g \<longleftrightarrow> num_parents g < MAX_PARENTS_PER_PAGE"

definition lookup_add_parent :: "ino_t \<Rightarrow> ino_t \<Rightarrow> (lookup_state, unit) sm" where
  "lookup_add_parent self parent = (\<lambda>s.
     if self = 0 \<or> parent = 0 \<or> pathlookup_data_lock s > 0 then (Inl (Errno EINVAL), s)
     else bindE (read_primary self) (\<lambda>tmpparent.
       if parentinode tmpparent = 0 then pwrite_primary self (tmpparent\<lparr>parentinode := parent\<rparr>)
       else bindE (if haveothers tmpparent then returnE () else pwrite_primary self (tmpparent\<lparr>haveothers := True\<rparr>)) (\<lambda>_ s1.
         if hash_head (parent_lookup_head s1) ! hash_of self = 0 then add_to_head self parent s1
         else bindE (find_first_page self) (\<lambda>(prevpos, tmppos, g).
           if tmppos = 0 then add_to_tail self parent prevpos
           else bindE (or_hang (walk_inode has_room 0 tmppos g)) (\<lambda>(prevpos, tmppos, g).
             if tmppos = 0 then add_new_page self parent prevpos
             else pwrite_page (g\<lparr>parents := (parents g)[num_parents g := parent], num_parents := num_parents g + 1\<rparr>) tmppos)) s1)) s)"

subsection \<open>Deleting and replacing a parent\<close>

definition index_of :: "'a \<Rightarrow> 'a list \<Rightarrow> nat" where
  "index_of x xs = length (takeWhile (\<lambda>y. y \<noteq> x) xs)"

definition drop_parent :: "nat \<Rightarrow> PLOOKUP_PAGE_T \<Rightarrow> PLOOKUP_PAGE_T" where
  "drop_parent count g = (let n = num_parents g - 1; a = parents g in
     g\<lparr>num_parents := n, parents := take count a @ take (n - count) (drop (count + 1) a) @ drop n a\<rparr>)"

text \<open>An empty page is taken out of the pages of its inode, which has others.\<close>

definition unlink_page :: "ino_t \<Rightarrow> nat \<Rightarrow> nat \<Rightarrow> PLOOKUP_PAGE_T \<Rightarrow> (lookup_state, unit) sm" where
  "unlink_page self prevllpos prevpagepos g =
     (if prevpagepos \<noteq> 0 then upd_plookup_page (\<lambda>p. p\<lparr>nextpage := nextpage g\<rparr>) prevpagepos
      else bindE (upd_plookup_page (\<lambda>p. p\<lparr>nextlookup := nextlookup g\<rparr>) (nextpage g)) (\<lambda>_.
        if prevllpos = 0 then bindE (set_hash_head (hash_of self) (nextpage g)) (\<lambda>_. pwrite_plookup_head)
        else upd_plookup_page (\<lambda>p. p\<lparr>nextlookup := nextpage g\<rparr>) prevllpos))"

text \<open>The inode is taken out of the list of its hash value with its only page.\<close>

definition unlink_inode :: "ino_t \<Rightarrow> nat \<Rightarrow> PLOOKUP_PAGE_T \<Rightarrow> (lookup_state, unit) sm" where
  "unlink_inode self prevllpos g =
     bindE (if prevllpos = 0 then bindE (set_hash_head (hash_of self) (nextlookup g)) (\<lambda>_. pwrite_plookup_head)
            else upd_plookup_page (\<lambda>p. p\<lparr>nextlookup := nextlookup g\<rparr>) prevllpos) (\<lambda>_.
     bindE (read_primary self) (\<lambda>tmpparent. pwrite_primary self (tmpparent\<lparr>haveothers := False\<rparr>)))"

definition recycle_page :: "nat \<Rightarrow> (lookup_state, unit) sm" where
  "recycle_page tmppos = (\<lambda>s. let g = zero_plookup_page\<lparr>gc_next := gc_head (parent_lookup_head s)\<rparr> in
     bindE (upd_plookup_head (\<lambda>H. H\<lparr>gc_head := tmppos\<rparr>)) (\<lambda>_. bindE (pwrite_page g tmppos) (\<lambda>_. pwrite_plookup_head)) s)"

definition delete_from_page :: "ino_t \<Rightarrow> ino_t \<Rightarrow> nat \<Rightarrow> nat \<Rightarrow> nat \<Rightarrow> PLOOKUP_PAGE_T \<Rightarrow> (lookup_state, unit) sm" where
  "delete_from_page self parent prevllpos prevpagepos tmppos g =
     (if num_parents g > 1 then pwrite_page (drop_parent (index_of parent (page_parents g)) g) tmppos
      else bindE (if prevpagepos = 0 \<and> nextpage g = 0 then unlink_inode self prevllpos g else unlink_page self prevllpos prevpagepos g) (\<lambda>_.
        recycle_page tmppos))"

definition lookup_delete_parent :: "ino_t \<Rightarrow> ino_t \<Rightarrow> (lookup_state, unit) sm" where
  "lookup_delete_parent self parent = (\<lambda>s.
     if self = 0 \<or> parent = 0 \<or> pathlookup_data_lock s > 0 then (Inl (Errno EINVAL), s)
     else bindE (read_primary self) (\<lambda>tmpparent.
       if parentinode tmpparent = parent then pwrite_primary self (tmpparent\<lparr>parentinode := 0\<rparr>)
       else if \<not> haveothers tmpparent then failE (Errno ENOENT)
       else bindE (find_first_page self) (\<lambda>(prevllpos, tmppos, g).
         if tmppos = 0 then bindE (read_primary self) (\<lambda>p. bindE (pwrite_primary self (p\<lparr>haveothers := False\<rparr>)) (\<lambda>_. failE (Errno ENOENT)))
         else bindE (or_hang (walk_inode (\<lambda>g. parent \<in> set (page_parents g)) 0 tmppos g)) (\<lambda>(prevpagepos, tmppos, g).
           if tmppos = 0 then failE (Errno ENOENT)
           else delete_from_page self parent prevllpos prevpagepos tmppos g))) s)"

definition lookup_replace_parent :: "ino_t \<Rightarrow> ino_t \<Rightarrow> ino_t \<Rightarrow> (lookup_state, unit) sm" where
  "lookup_replace_parent self parent1 parent2 = (\<lambda>s.
     if self = 0 \<or> parent1 = 0 \<or> parent2 = 0 \<or> pathlookup_data_lock s > 0 then (Inl (Errno EINVAL), s)
     else bindE (read_primary self) (\<lambda>tmpparent.
       if parentinode tmpparent = parent1 then pwrite_primary self (tmpparent\<lparr>parentinode := parent2\<rparr>)
       else if \<not> haveothers tmpparent then failE (Errno ENOENT)
       else bindE (find_first_page self) (\<lambda>(prevllpos, tmppos, g).
         if tmppos = 0 then failE (Errno ENOENT)
         else bindE (or_hang (walk_inode (\<lambda>g. parent1 \<in> set (page_parents g)) 0 tmppos g)) (\<lambda>(prevpagepos, tmppos, g).
           if tmppos = 0 then failE (Errno ENOENT)
           else pwrite_page (g\<lparr>parents := (parents g)[index_of parent1 (page_parents g) := parent2]\<rparr>) tmppos))) s)"

subsection \<open>The first parent alone\<close>

text \<open>The call gives the lock back whether it succeeds or not.\<close>

definition pl_locked :: "(lookup_state, 'a) sm \<Rightarrow> (lookup_state, 'a) sm" where
  "pl_locked m = bindE pl_wait (\<lambda>_ s. case m s of (Inl Hang, s') \<Rightarrow> (Inl Hang, s') | (Inl Crash, s') \<Rightarrow> (Inl Crash, s') | (r, s') \<Rightarrow> (r, snd (pl_post s')))"

definition pathlookup_write_parent :: "ino_t \<Rightarrow> ino_t \<Rightarrow> (lookup_state, unit) sm" where
  "pathlookup_write_parent self parent = pl_locked (pwrite_primary self \<lparr>parentinode = parent, haveothers = False\<rparr>)"

definition pathlookup_read_parent :: "ino_t \<Rightarrow> (lookup_state, ino_t) sm" where
  "pathlookup_read_parent self = pl_locked (bindE (read_primary self) (\<lambda>p. returnE (parentinode p)))"

end
