(* ===== verification/Parent_Pages.thy ===== *)
theory Parent_Pages
  imports Parent_Lookup "HOL-Library.Multiset"
begin

text \<open>
  The structure of the second parent file: for every hash value a list of inodes with the positions of their pages, linked as the code links them, and the list of pages to use again, all without
  sharing.  The lemmas say how the links change when an inode or a page is added or taken out, and that the loops of the code run along the lists.  Then the runs without failing calls: what the system calls and
  the loops do in such a file, how each change of the lists changes the parents of the inodes, and how a page that becomes empty is taken out and goes to the pages to use again.
\<close>

subsection \<open>Lists of pages\<close>

definition plookup_page_ok :: "PLOOKUP_PAGE_T \<Rightarrow> bool" where
  "plookup_page_ok g \<longleftrightarrow> 0 < num_parents g \<and> num_parents g \<le> MAX_PARENTS_PER_PAGE \<and> length (parents g) = MAX_PARENTS_PER_PAGE"

fun ichain :: "(nat \<rightharpoonup> PLOOKUP_PAGE_T) \<Rightarrow> ino_t \<Rightarrow> nat list \<Rightarrow> nat \<Rightarrow> bool" where
  "ichain P i [] q \<longleftrightarrow> True"
| "ichain P i (p # ps) q \<longleftrightarrow> p \<noteq> 0 \<and> (\<exists>g. P p = Some g \<and> thisinode g = i \<and> plookup_page_ok g \<and> nextpage g = first_or q ps) \<and> ichain P i ps q"

definition bfirst :: "nat \<Rightarrow> (ino_t \<times> nat list) list \<Rightarrow> nat" where
  "bfirst q xs = (case xs of [] \<Rightarrow> q | x # _ \<Rightarrow> hd (snd x))"

definition blast :: "nat \<Rightarrow> (ino_t \<times> nat list) list \<Rightarrow> nat" where
  "blast q xs = (if xs = [] then q else hd (snd (last xs)))"

definition bpos :: "(ino_t \<times> nat list) list \<Rightarrow> nat list" where
  "bpos xs = concat (map snd xs)"

fun bchain :: "(nat \<rightharpoonup> PLOOKUP_PAGE_T) \<Rightarrow> nat \<Rightarrow> (ino_t \<times> nat list) list \<Rightarrow> nat \<Rightarrow> bool" where
  "bchain P h [] q \<longleftrightarrow> True"
| "bchain P h ((i, ps) # xs) q \<longleftrightarrow>
     ps \<noteq> [] \<and> hash_of i = h \<and> ichain P i ps 0 \<and> nextlookup (the (P (hd ps))) = bfirst q xs \<and> bchain P h xs q"

fun gchain :: "(nat \<rightharpoonup> PLOOKUP_PAGE_T) \<Rightarrow> nat \<Rightarrow> nat list \<Rightarrow> bool" where
  "gchain P p [] \<longleftrightarrow> p = 0"
| "gchain P p (x # xs) \<longleftrightarrow> p = x \<and> x \<noteq> 0 \<and> (\<exists>g. P x = Some g \<and> gchain P (gc_next g) xs)"

lemma bfirst_simps [simp]: "bfirst q [] = q" "bfirst q ((i, ps) # xs) = hd ps"
  by (simp_all add: bfirst_def)

lemma blast_simps [simp]: "blast q [] = q" "blast q (x # xs) = blast (hd (snd x)) xs" "blast q (xs @ [x]) = hd (snd x)"
  by (simp_all add: blast_def)

lemma bpos_simps [simp]: "bpos [] = []" "bpos ((i, ps) # xs) = ps @ bpos xs" "bpos (xs @ ys) = bpos xs @ bpos ys"
  by (simp_all add: bpos_def)

lemma bfirst_append: "bfirst q (xs @ ys) = bfirst (bfirst q ys) xs"
  by (cases xs) (auto simp: bfirst_def)

lemma ichain_append [simp]: "ichain P i (xs @ ys) q \<longleftrightarrow> ichain P i xs (first_or q ys) \<and> ichain P i ys q"
  by (induction xs) (auto simp: first_or_append)

lemma bchain_append [simp]: "bchain P h (xs @ ys) q \<longleftrightarrow> bchain P h xs (bfirst q ys) \<and> bchain P h ys q"
  by (induction P h xs q rule: bchain.induct) (auto simp: bfirst_append)

lemma ichain_page: "ichain P i ps q \<Longrightarrow> p \<in> set ps \<Longrightarrow> p \<noteq> 0 \<and> (\<exists>g. P p = Some g \<and> thisinode g = i \<and> plookup_page_ok g)"
  by (induction ps) auto

lemma ichain_0: "ichain P i ps q \<Longrightarrow> 0 \<notin> set ps"
  by (induction ps) auto

text \<open>Pages may change as long as what the list needs stays.\<close>

definition same_links :: "PLOOKUP_PAGE_T option \<Rightarrow> PLOOKUP_PAGE_T option \<Rightarrow> bool" where
  "same_links x y \<longleftrightarrow> (case x of None \<Rightarrow> y = None | Some g \<Rightarrow>
     (\<exists>g'. y = Some g' \<and> thisinode g' = thisinode g \<and> nextpage g' = nextpage g \<and> (plookup_page_ok g \<longrightarrow> plookup_page_ok g')))"

lemma same_links_refl [simp]: "same_links x x"
  by (simp add: same_links_def split: option.split)

lemma ichain_mono: "ichain P i ps q \<Longrightarrow> (\<And>p. p \<in> set ps \<Longrightarrow> same_links (P p) (P' p)) \<Longrightarrow> ichain P' i ps q"
  by (induction ps) (fastforce simp: same_links_def)+

lemma bchain_mono:
  "bchain P h xs q \<Longrightarrow> (\<And>p. p \<in> set (bpos xs) \<Longrightarrow> same_links (P p) (P' p)) \<Longrightarrow>
    (\<And>i ps. (i, ps) \<in> set xs \<Longrightarrow> nextlookup (the (P' (hd ps))) = nextlookup (the (P (hd ps)))) \<Longrightarrow> bchain P' h xs q"
proof (induction P h xs q rule: bchain.induct)
  case (2 P h i ps xs q)
  have "nextlookup (the (P' (hd ps))) = nextlookup (the (P (hd ps)))" using "2.prems"(3) by force
  moreover have "bchain P' h xs q" using 2 by force
  moreover have "ichain P' i ps 0" using "2.prems"(1,2) by (auto intro: ichain_mono)
  ultimately show ?case using "2.prems"(1) by simp
qed simp

lemma bchain_cong: "bchain P h xs q \<Longrightarrow> (\<And>p. p \<in> set (bpos xs) \<Longrightarrow> P' p = P p) \<Longrightarrow> bchain P' h xs q"
proof (rule bchain_mono)
  fix i ps assume a: "bchain P h xs q" "\<And>p. p \<in> set (bpos xs) \<Longrightarrow> P' p = P p" "(i, ps) \<in> set xs"
  then have "ps \<noteq> []" by (induction P h xs q rule: bchain.induct) auto
  then have "hd ps \<in> set (bpos xs)" using a(3) by (force simp: bpos_def)
  then show "nextlookup (the (P' (hd ps))) = nextlookup (the (P (hd ps)))" using a(2) by simp
qed simp_all

lemma ichain_upd [simp]: "x \<notin> set ps \<Longrightarrow> ichain (P(x \<mapsto> g)) i ps q = ichain P i ps q"
  by (induction ps) auto

lemma bchain_upd [simp]: "x \<notin> set (bpos xs) \<Longrightarrow> bchain (P(x \<mapsto> g)) h xs q = bchain P h xs q"
  by (induction P h xs q rule: bchain.induct) auto

lemma gchain_cong: "gchain P p gs \<Longrightarrow> (\<And>x. x \<in> set gs \<Longrightarrow> P' x = P x) \<Longrightarrow> gchain P' p gs"
  by (induction gs arbitrary: p) auto

lemma gchain_upd [simp]: "x \<notin> set gs \<Longrightarrow> gchain (P(x \<mapsto> g)) p gs = gchain P p gs"
  by (induction gs arbitrary: p) auto

lemma gchain_page: "gchain P p gs \<Longrightarrow> x \<in> set gs \<Longrightarrow> x \<noteq> 0 \<and> P x \<noteq> None"
  by (induction gs arbitrary: p) auto

lemma bchain_inode: "bchain P h xs q \<Longrightarrow> (i, ps) \<in> set xs \<Longrightarrow> ps \<noteq> [] \<and> hash_of i = h \<and> ichain P i ps 0"
  by (induction P h xs q rule: bchain.induct) auto

lemma bchain_0: "bchain P h xs q \<Longrightarrow> 0 \<notin> set (bpos xs)"
  by (induction P h xs q rule: bchain.induct) (auto dest: ichain_0)

lemma bchain_dom: "bchain P h xs q \<Longrightarrow> p \<in> set (bpos xs) \<Longrightarrow> P p \<noteq> None"
  by (induction P h xs q rule: bchain.induct) (auto dest: ichain_page)

text \<open>The last inode gets a new successor, the last page of an inode too.\<close>

lemma bchain_retarget:
  assumes c: "bchain P h xs q" and ne: "xs \<noteq> []" and d: "distinct (bpos xs)" and g: "P (blast 0 xs) = Some g"
  shows "bchain (P(blast 0 xs \<mapsto> g\<lparr>nextlookup := q'\<rparr>)) h xs q'"
proof -
  obtain as i ps where xs: "xs = as @ [(i, ps)]" using ne by (metis append_butlast_last_id surj_pair)
  let ?p = "hd ps" and ?P = "P(blast 0 xs \<mapsto> g\<lparr>nextlookup := q'\<rparr>)"
  have b: "bchain P h as (hd ps)" "ps \<noteq> []" "hash_of i = h" "ichain P i ps 0" using c xs by auto
  have n: "?p \<notin> set (bpos as)" using d xs b(2) hd_in_set [OF b(2)] by auto
  have "bchain ?P h as (hd ps)" using b(1) by (rule bchain_cong) (use n xs in auto)
  moreover have "ichain ?P i ps 0" using b(4) g xs by (intro ichain_mono [OF b(4)]) (auto simp: same_links_def plookup_page_ok_def split: option.split)
  ultimately show ?thesis using b xs by simp
qed

lemma ichain_retarget:
  assumes c: "ichain P i ps q" and ne: "ps \<noteq> []" and d: "distinct ps" and g: "P (last ps) = Some g"
  shows "ichain (P(last ps \<mapsto> g\<lparr>nextpage := q'\<rparr>)) i ps q'"
proof -
  obtain us p where ps: "ps = us @ [p]" using ne by (metis append_butlast_last_id)
  have "ichain P i us p" "p \<notin> set us" using c d ps by auto
  then have "ichain (P(p \<mapsto> g\<lparr>nextpage := q'\<rparr>)) i us p" by (metis ichain_mono fun_upd_other same_links_refl)
  then show ?thesis using c g ps by (auto simp: plookup_page_ok_def)
qed

subsection \<open>The whole file\<close>

text \<open>
  \<open>B\<close> gives the list of every hash value, \<open>G\<close> the pages to use again and \<open>X\<close> pages that are in no list at the moment.
\<close>

definition powned :: "(nat \<Rightarrow> (ino_t \<times> nat list) list) \<Rightarrow> nat set" where
  "powned B = (\<Union>h < PLOOKUP_HASH_NUM_ENTRIES. set (bpos (B h)))"

definition pinv :: "(nat \<Rightarrow> (ino_t \<times> nat list) list) \<Rightarrow> nat list \<Rightarrow> nat set \<Rightarrow> PLOOKUP_HEAD_T \<Rightarrow> (nat \<rightharpoonup> PLOOKUP_PAGE_T) \<Rightarrow> nat \<Rightarrow> bool" where
  "pinv B G X H P e \<longleftrightarrow>
     length (hash_head H) = PLOOKUP_HASH_NUM_ENTRIES \<and>
     (\<forall>h < PLOOKUP_HASH_NUM_ENTRIES. hash_head H ! h = bfirst 0 (B h) \<and> bchain P h (B h) 0 \<and> distinct (map fst (B h)) \<and> distinct (bpos (B h))) \<and>
     (\<forall>h < PLOOKUP_HASH_NUM_ENTRIES. \<forall>k < PLOOKUP_HASH_NUM_ENTRIES. h \<noteq> k \<longrightarrow> set (bpos (B h)) \<inter> set (bpos (B k)) = {}) \<and>
     gchain P (gc_head H) G \<and> distinct G \<and> powned B \<inter> set G = {} \<and> X \<inter> (powned B \<union> set G) = {} \<and>
     dom P = powned B \<union> set G \<union> X \<and> 0 < e \<and> (\<forall>p \<in> dom P. 0 < p \<and> p < e)"

fun pages_in :: "(ino_t \<times> nat list) list \<Rightarrow> ino_t \<Rightarrow> nat list" where
  "pages_in [] j = []"
| "pages_in ((i, ps) # xs) j = (if i = j then ps else pages_in xs j)"

definition pages_of :: "(nat \<Rightarrow> (ino_t \<times> nat list) list) \<Rightarrow> ino_t \<Rightarrow> nat list" where
  "pages_of B i = pages_in (B (hash_of i)) i"

definition conts :: "(nat \<Rightarrow> (ino_t \<times> nat list) list) \<Rightarrow> (nat \<rightharpoonup> PLOOKUP_PAGE_T) \<Rightarrow> ino_t \<Rightarrow> ino_t list" where
  "conts B P i = concat (map (\<lambda>p. page_parents (the (P p))) (pages_of B i))"

lemma hash_of_less [simp]: "hash_of i < PLOOKUP_HASH_NUM_ENTRIES"
  by (simp add: hash_of_def)

lemma pinvD:
  assumes "pinv B G X H P e"
  shows "length (hash_head H) = PLOOKUP_HASH_NUM_ENTRIES" "gchain P (gc_head H) G" "distinct G" "powned B \<inter> set G = {}" "X \<inter> (powned B \<union> set G) = {}"
    "dom P = powned B \<union> set G \<union> X" "0 < e" "\<And>p. p \<in> dom P \<Longrightarrow> 0 < p \<and> p < e"
    "\<And>h k. h < PLOOKUP_HASH_NUM_ENTRIES \<Longrightarrow> k < PLOOKUP_HASH_NUM_ENTRIES \<Longrightarrow> h \<noteq> k \<Longrightarrow> set (bpos (B h)) \<inter> set (bpos (B k)) = {}"
  using assms unfolding pinv_def by simp_all

lemma pinv_bucket:
  assumes "pinv B G X H P e" and "h < PLOOKUP_HASH_NUM_ENTRIES"
  shows "hash_head H ! h = bfirst 0 (B h)" "bchain P h (B h) 0" "distinct (map fst (B h))" "distinct (bpos (B h))" "set (bpos (B h)) \<subseteq> powned B"
  using assms by (auto simp: pinv_def powned_def)

lemma pinv_pos:
  assumes "pinv B G X H P e" and "p \<in> powned B \<union> set G \<union> X"
  shows "0 < p" "p < e" "\<exists>g. P p = Some g"
proof -
  have d: "p \<in> dom P" using assms(2) pinvD(6) [OF assms(1)] by simp
  then show "\<exists>g. P p = Some g" by blast
  show "0 < p" "p < e" using pinvD(8) [OF assms(1) d] by simp_all
qed

lemma pinv_page:
  assumes "pinv B G X H P e" and "h < PLOOKUP_HASH_NUM_ENTRIES" and "p \<in> set (bpos (B h))"
  shows "0 < p" "p < e" "\<exists>g. P p = Some g"
  using pinv_pos [OF assms(1), of p] assms(2,3) by (auto simp: powned_def)

lemma powned_upd: "h < PLOOKUP_HASH_NUM_ENTRIES \<Longrightarrow> powned (B(h := xs)) = set (bpos xs) \<union> (\<Union>k \<in> {..<PLOOKUP_HASH_NUM_ENTRIES} - {h}. set (bpos (B k)))"
  by (auto simp: powned_def split: if_splits)

text \<open>A change of one list: everything else stays as it is.\<close>

lemma pinv_change:
  assumes i: "pinv B G X H P e" and h: "h < PLOOKUP_HASH_NUM_ENTRIES"
    and c: "bchain P' h xs 0" and hh: "hash_head H' = (hash_head H)[h := bfirst 0 xs]" "gc_head H' = gc_head H"
    and d: "distinct (map fst xs)" "distinct (bpos xs)" and X: "set (bpos xs) \<union> X' = set (bpos (B h)) \<union> X" "set (bpos xs) \<inter> X' = {}"
    and P: "dom P' = dom P" "\<And>p. p \<notin> set (bpos (B h)) \<union> X \<Longrightarrow> P' p = P p"
  shows "pinv (B(h := xs)) G X' H' P' e"
proof -
  let ?n = PLOOKUP_HASH_NUM_ENTRIES
  define R where "R = (\<Union>k \<in> {..<PLOOKUP_HASH_NUM_ENTRIES} - {h}. set (bpos (B k)))"
  have R: "set (bpos (B k)) \<subseteq> R" if "k < ?n" "k \<noteq> h" for k using that by (auto simp: R_def)
  have o: "powned B = set (bpos (B h)) \<union> R" using powned_upd [OF h, of B "B h"] by (simp add: R_def)
  have o': "powned (B(h := xs)) = set (bpos xs) \<union> R" using powned_upd [OF h, of B xs] by (simp add: R_def)
  have "set (bpos (B k)) \<inter> set (bpos (B h)) = {}" if "k < ?n" "k \<noteq> h" for k using pinvD(9) [OF i] h that by blast
  moreover have "X \<inter> R = {}" using pinvD(5) [OF i] o by blast
  ultimately have r: "R \<inter> (set (bpos (B h)) \<union> X) = {}" by (auto simp: R_def)
  have g: "set G \<inter> (set (bpos (B h)) \<union> X) = {}" "set G \<inter> R = {}" using pinvD(4,5) [OF i] o by blast+
  have oth: "bchain P' k (B k) 0" "set (bpos xs) \<inter> set (bpos (B k)) = {}" if k: "k < ?n" "k \<noteq> h" for k
  proof -
    have s: "set (bpos (B k)) \<subseteq> R" using R k by blast
    show "bchain P' k (B k) 0" using pinv_bucket(2) [OF i k(1)] by (rule bchain_cong) (use s r P(2) in blast)
    show "set (bpos xs) \<inter> set (bpos (B k)) = {}" using s r X(1) by blast
  qed
  have G: "gchain P' (gc_head H') G" unfolding hh(2) using pinvD(2) [OF i] by (rule gchain_cong) (use g(1) P(2) in blast)
  have len: "length (hash_head H) = ?n" using pinvD(1) [OF i] .
  show ?thesis unfolding pinv_def o'
  proof (intro conjI allI impI)
    show "length (hash_head H') = ?n" using hh(1) len by simp
    show "hash_head H' ! k = bfirst 0 ((B(h := xs)) k)" "bchain P' k ((B(h := xs)) k) 0" "distinct (map fst ((B(h := xs)) k))" "distinct (bpos ((B(h := xs)) k))" if "k < ?n" for k
      using that hh(1) len c d oth(1) [of k] pinv_bucket(1,3,4) [OF i that] by (auto simp: nth_list_update)
    show "set (bpos ((B(h := xs)) k)) \<inter> set (bpos ((B(h := xs)) l)) = {}" if "k < ?n" "l < ?n" "k \<noteq> l" for k l
    proof (cases "k = h \<or> l = h")
      case True
      then show ?thesis using that oth(2) [of k] oth(2) [of l] by auto
    next
      case False
      then show ?thesis using that pinvD(9) [OF i] by simp
    qed
    show "gchain P' (gc_head H') G" by (rule G)
    show "distinct G" "0 < e" using pinvD(3,7) [OF i] by blast+
    show "(set (bpos xs) \<union> R) \<inter> set G = {}" "X' \<inter> (set (bpos xs) \<union> R \<union> set G) = {}" using g r X by blast+
    have "dom P = set (bpos (B h)) \<union> R \<union> set G \<union> X" using pinvD(6) [OF i] o by simp
    then show "dom P' = set (bpos xs) \<union> R \<union> set G \<union> X'" using P(1) X(1) by blast
    show "\<forall>p \<in> dom P'. 0 < p \<and> p < e" using pinvD(8) [OF i] P(1) by simp
  qed
qed

subsection \<open>Calls\<close>

definition prim :: "lookup_state \<Rightarrow> ino_t \<Rightarrow> PRIMARY_PARENT_T" where
  "prim s i = (case rec_at (pathlookup_db s) i of Some p \<Rightarrow> p | None \<Rightarrow> zero_primary)"

text \<open>The states of the database between two calls, and inside a call with some pages in no list.\<close>

definition pst :: "(nat \<Rightarrow> (ino_t \<times> nat list) list) \<Rightarrow> nat list \<Rightarrow> nat set \<Rightarrow> lookup_state \<Rightarrow> bool" where
  "pst B G X s \<longleftrightarrow> pl_os s = [] \<and> pathlookup_db s \<noteq> None \<and> plookup2_exists s \<and> plookup_head_size \<le> plookup2_end s \<and>
     pinv B G X (parent_lookup_head s) (plookup2_pages s) (plookup2_end s)"

definition synced :: "lookup_state \<Rightarrow> bool" where
  "synced s \<longleftrightarrow> plookup2_head s = parent_lookup_head s"

lemma pl_os_same [simp]: "pl_os s = [] \<Longrightarrow> s\<lparr>pl_os := []\<rparr> = s"
  by (cases s) simp

lemma pl_calls_ok [simp]:
  assumes "pl_os s = []"
  shows "pl_transfer s = (Inr True, s)" "pl_call s = (Inr (), s)" "pl_malloc s = (Inr (), s)"
  using assms by (simp_all add: pl_transfer_def pl_call_def pl_malloc_def)

lemma read_primary_ok [simp]: "pl_os s = [] \<Longrightarrow> i \<noteq> 0 \<Longrightarrow> read_primary i s = (Inr (prim s i), s)"
  by (simp add: read_primary_def pread_primary_def prim_def)

lemma pwrite_primary_ok [simp]:
  "pl_os s = [] \<Longrightarrow> i \<noteq> 0 \<Longrightarrow> pwrite_primary i p s = (Inr (), s\<lparr>pathlookup_db := rec_put zero_primary i p (pathlookup_db s)\<rparr>)"
  by (simp add: pwrite_primary_def)

lemma rec_at_put:
  assumes "f \<noteq> None" and "0 < i" and "0 < j"
  shows "(case rec_at (rec_put z i r f) j of Some p \<Rightarrow> p | None \<Rightarrow> z) = (if j = i then r else case rec_at f j of Some p \<Rightarrow> p | None \<Rightarrow> z)"
  using assms by (auto simp: rec_at_def rec_put_def nth_append nth_list_update split: option.splits)

lemma prim_put [simp]:
  "pathlookup_db s \<noteq> None \<Longrightarrow> 0 < i \<Longrightarrow> 0 < j \<Longrightarrow> prim (s\<lparr>pathlookup_db := rec_put zero_primary i p (pathlookup_db s)\<rparr>) j = (if j = i then p else prim s j)"
  using rec_at_put [of "pathlookup_db s" i j zero_primary p] by (simp add: prim_def)

lemma prim_cong: "pathlookup_db s' = pathlookup_db s \<Longrightarrow> prim s' = prim s"
  by (simp add: prim_def fun_eq_iff)

lemma rec_put_None [simp]: "rec_put z i r f = None \<longleftrightarrow> f = None"
  by (simp add: rec_put_def)

lemma pread_page_ok: "pl_os s = [] \<Longrightarrow> p < plookup2_end s \<Longrightarrow> plookup2_pages s p = Some g \<Longrightarrow> pread_page p s = (Inr g, s)"
  by (simp add: pread_page_def)

lemma pwrite_page_ok:
  "pl_os s = [] \<Longrightarrow> p < plookup2_end s \<Longrightarrow> plookup2_pages s p \<noteq> None \<Longrightarrow> pwrite_page g p s = (Inr (), s\<lparr>plookup2_pages := (plookup2_pages s)(p \<mapsto> g)\<rparr>)"
  by (auto simp: pwrite_page_def)

lemma upd_page_ok:
  "pl_os s = [] \<Longrightarrow> p < plookup2_end s \<Longrightarrow> plookup2_pages s p = Some g \<Longrightarrow> upd_plookup_page f p s = (Inr (), s\<lparr>plookup2_pages := (plookup2_pages s)(p \<mapsto> f g)\<rparr>)"
  by (simp add: upd_plookup_page_def pread_page_ok pwrite_page_ok)

lemma pwrite_head_ok:
  "pl_os s = [] \<Longrightarrow> plookup_head_size \<le> plookup2_end s \<Longrightarrow> pwrite_plookup_head s = (Inr (), s\<lparr>plookup2_head := parent_lookup_head s\<rparr>)"
  by (simp add: pwrite_plookup_head_def)

lemmas lookup_calls = pread_page_ok pwrite_page_ok upd_page_ok pwrite_head_ok upd_plookup_head_def set_hash_head_def

subsection \<open>Loops\<close>

lemma pst_page:
  assumes "pst B G X s" and "p \<in> powned B \<union> set G \<union> X"
  shows "pl_os s = []" "0 < p" "p < plookup2_end s" "\<exists>g. plookup2_pages s p = Some g"
  using assms pinv_pos [of B G X "parent_lookup_head s" "plookup2_pages s" "plookup2_end s" p] by (simp_all add: pst_def)

lemma bucket_pages: "h < PLOOKUP_HASH_NUM_ENTRIES \<Longrightarrow> set (bpos (B h)) \<subseteq> powned B"
  by (auto simp: powned_def)

lemma find_inode_hit:
  assumes "pst B G X s" and "bchain (plookup2_pages s) h (as @ (self, ps) # bs) 0" and "set (bpos (as @ (self, ps) # bs)) \<subseteq> powned B" and "self \<notin> fst ` set as"
  shows "find_inode_page self prev (bfirst 0 (as @ (self, ps) # bs)) s = Some (Inr (blast prev as, hd ps, the (plookup2_pages s (hd ps))), s)"
  using assms(2-)
proof (induction as arbitrary: prev)
  case Nil
  then obtain g where g: "plookup2_pages s (hd ps) = Some g" "thisinode g = self" "hd ps \<in> powned B" by (cases ps) auto
  then show ?case using pst_page [OF assms(1), of "hd ps"] by (subst find_inode_page.simps) (simp add: pread_page_ok)
next
  case (Cons a as)
  obtain i qs where a: "a = (i, qs)" by (cases a)
  obtain g where g: "plookup2_pages s (hd qs) = Some g" "thisinode g = i" "hd qs \<in> powned B" using Cons.prems a by (cases qs) auto
  have n: "nextlookup g = bfirst 0 (as @ (self, ps) # bs)" "i \<noteq> self" using Cons.prems a g(1) by auto
  have "find_inode_page self (hd qs) (bfirst 0 (as @ (self, ps) # bs)) s = Some (Inr (blast (hd qs) as, hd ps, the (plookup2_pages s (hd ps))), s)"
    by (rule Cons.IH) (use Cons.prems a in auto)
  then show ?case using a g n pst_page [OF assms(1), of "hd qs"] by (subst find_inode_page.simps) (simp add: pread_page_ok)
qed

lemma find_inode_miss:
  assumes "pst B G X s" and "bchain (plookup2_pages s) h xs 0" and "set (bpos xs) \<subseteq> powned B" and "self \<notin> fst ` set xs"
  shows "find_inode_page self prev (bfirst 0 xs) s = Some (Inr (blast prev xs, 0, zero_plookup_page), s)"
  using assms(2-)
proof (induction xs arbitrary: prev)
  case Nil
  then show ?case by (subst find_inode_page.simps) simp
next
  case (Cons a as)
  obtain i qs where a: "a = (i, qs)" by (cases a)
  obtain g where g: "plookup2_pages s (hd qs) = Some g" "thisinode g = i" "hd qs \<in> powned B" using Cons.prems a by (cases qs) auto
  have n: "nextlookup g = bfirst 0 as" "i \<noteq> self" using Cons.prems a g(1) by auto
  have "find_inode_page self (hd qs) (bfirst 0 as) s = Some (Inr (blast (hd qs) as, 0, zero_plookup_page), s)"
    by (rule Cons.IH) (use Cons.prems a in auto)
  then show ?case using a g n pst_page [OF assms(1), of "hd qs"] by (subst find_inode_page.simps) (simp add: pread_page_ok)
qed

lemma find_first_page_hit:
  assumes s: "pst B G X s" and b: "B (hash_of self) = as @ (self, ps) # bs"
  shows "find_first_page self s = (Inr (blast 0 as, hd ps, the (plookup2_pages s (hd ps))), s)"
proof -
  have i: "pinv B G X (parent_lookup_head s) (plookup2_pages s) (plookup2_end s)" using s by (simp add: pst_def)
  note k = pinv_bucket [OF i hash_of_less [of self]]
  have "self \<notin> fst ` set as" using k(3) b by auto
  with find_inode_hit [OF s, of "hash_of self" as self ps bs 0] show ?thesis
    using k(1,2,5) b by (simp add: find_first_page_def or_hang_def del: bpos_simps)
qed

lemma find_first_page_miss:
  assumes s: "pst B G X s" and b: "self \<notin> fst ` set (B (hash_of self))"
  shows "find_first_page self s = (Inr (blast 0 (B (hash_of self)), 0, zero_plookup_page), s)"
proof -
  have i: "pinv B G X (parent_lookup_head s) (plookup2_pages s) (plookup2_end s)" using s by (simp add: pst_def)
  note k = pinv_bucket [OF i hash_of_less [of self]]
  show ?thesis using find_inode_miss [OF s k(2) k(5) b, of 0] k(1) by (simp add: find_first_page_def or_hang_def)
qed

lemma walk_inode_hit:
  assumes "pst B G X s" and "ichain (plookup2_pages s) i (us @ p # vs) 0" and "set (us @ p # vs) \<subseteq> powned B"
    and "\<forall>u \<in> set us. \<not> C (the (plookup2_pages s u))" and "C (the (plookup2_pages s p))"
  shows "walk_inode C prev (hd (us @ [p])) (the (plookup2_pages s (hd (us @ [p])))) s = Some (Inr (last_or prev us, p, the (plookup2_pages s p)), s)"
  using assms(2-)
proof (induction us arbitrary: prev)
  case Nil
  then show ?case by (subst walk_inode.simps) simp
next
  case (Cons u us)
  obtain g where g: "plookup2_pages s u = Some g" "nextpage g = hd (us @ [p])" using Cons.prems(1) by (cases us) auto
  have h: "hd (us @ [p]) \<in> powned B" using Cons.prems(2) by (cases us) auto
  obtain g' where g': "plookup2_pages s (hd (us @ [p])) = Some g'" using pst_page(4) [OF assms(1), of "hd (us @ [p])"] h by blast
  have "walk_inode C u (hd (us @ [p])) (the (plookup2_pages s (hd (us @ [p])))) s = Some (Inr (last_or u us, p, the (plookup2_pages s p)), s)"
    by (rule Cons.IH) (use Cons.prems in auto)
  then show ?case using Cons.prems g g' pst_page [OF assms(1), of "hd (us @ [p])"] h by (subst walk_inode.simps) (simp add: pread_page_ok)
qed

lemma walk_inode_miss:
  assumes "pst B G X s" and "ichain (plookup2_pages s) i (p # ps) 0" and "set (p # ps) \<subseteq> powned B" and "\<forall>u \<in> set (p # ps). \<not> C (the (plookup2_pages s u))"
  shows "\<exists>g. walk_inode C prev p (the (plookup2_pages s p)) s = Some (Inr (last_or p ps, 0, g), s)"
  using assms(2-)
proof (induction ps arbitrary: prev p)
  case Nil
  then show ?case by (subst walk_inode.simps) auto
next
  case (Cons q ps)
  obtain g where g: "plookup2_pages s p = Some g" "nextpage g = q" using Cons.prems(1) by auto
  obtain g' where g': "plookup2_pages s q = Some g'" using pst_page(4) [OF assms(1), of q] Cons.prems(2) by auto
  obtain g2 where "walk_inode C p q (the (plookup2_pages s q)) s = Some (Inr (last_or q ps, 0, g2), s)"
    using Cons.IH [of q p] Cons.prems by auto
  then show ?case using Cons.prems g g' pst_page [OF assms(1), of q] by (subst walk_inode.simps) (simp add: pread_page_ok)
qed

lemma add_parents_run: "pl_os s = [] \<Longrightarrow> \<exists>m'. add_parents m acc xs s = (Inr (m', acc @ xs), s)"
proof (induction xs arbitrary: m acc)
  case (Cons x xs)
  then show ?case using Cons.IH [of "m + 10" "acc @ [x]"] Cons.IH [of m "acc @ [x]"] by simp
qed simp

lemma collect_pages_run:
  assumes "pst B G X s" and "ichain (plookup2_pages s) i (p # ps) 0" and "set (p # ps) \<subseteq> powned B"
  shows "collect_pages m acc (the (plookup2_pages s p)) s = Some (Inr (acc @ concat (map (\<lambda>p. page_parents (the (plookup2_pages s p))) (p # ps))), s)"
  using assms(2-)
proof (induction ps arbitrary: m acc p)
  case Nil
  obtain m' where "add_parents m acc (page_parents (the (plookup2_pages s p))) s = (Inr (m', acc @ page_parents (the (plookup2_pages s p))), s)"
    using add_parents_run pst_page(1) [OF assms(1), of p] Nil.prems by fastforce
  then show ?case using Nil.prems by (subst collect_pages.simps) auto
next
  case (Cons q ps)
  obtain m' where m': "add_parents m acc (page_parents (the (plookup2_pages s p))) s = (Inr (m', acc @ page_parents (the (plookup2_pages s p))), s)"
    using add_parents_run pst_page(1) [OF assms(1), of p] Cons.prems by fastforce
  obtain g where g: "plookup2_pages s p = Some g" "nextpage g = q" using Cons.prems(1) by auto
  obtain g' where g': "plookup2_pages s q = Some g'" using pst_page(4) [OF assms(1), of q] Cons.prems(2) by auto
  have "collect_pages m' (acc @ page_parents g) g' s = Some (Inr ((acc @ page_parents g) @ concat (map (\<lambda>p. page_parents (the (plookup2_pages s p))) (q # ps))), s)"
    using Cons.IH [of q m' "acc @ page_parents g"] Cons.prems g' by simp
  then show ?case using Cons.prems g g' m' pst_page [OF assms(1), of q] by (subst collect_pages.simps) (simp add: pread_page_ok)
qed

subsection \<open>Changing the pages of one inode\<close>

definition entry :: "ino_t \<Rightarrow> nat list \<Rightarrow> (ino_t \<times> nat list) list" where
  "entry i ps = (if ps = [] then [] else [(i, ps)])"

lemma bpos_entry [simp]: "bpos (entry i ps) = ps"
  by (simp add: entry_def)

lemma entry_cases:
  assumes "pinv B G X H P e"
  obtains as ps bs where "B (hash_of i) = as @ entry i ps @ bs" "i \<notin> fst ` set (as @ bs)"
proof (cases "i \<in> fst ` set (B (hash_of i))")
  case True
  then obtain ps where ps: "(i, ps) \<in> set (B (hash_of i))" by auto
  then have "ps \<noteq> []" using bchain_inode [OF pinv_bucket(2) [OF assms hash_of_less [of i]] ps] by blast
  moreover obtain as bs where "B (hash_of i) = as @ (i, ps) # bs" using ps by (meson split_list)
  ultimately show thesis using that [of as ps bs] pinv_bucket(3) [OF assms hash_of_less [of i]] by (auto simp: entry_def)
next
  case False
  then show thesis using that [of "B (hash_of i)" "[]" "[]"] by (simp add: entry_def)
qed

lemma pages_in_mem: "p \<in> set (pages_in xs j) \<Longrightarrow> p \<in> set (bpos xs)"
  by (induction xs j rule: pages_in.induct) (auto split: if_splits)

lemma pages_in_entry: "i \<notin> fst ` set as \<Longrightarrow> i \<notin> fst ` set bs \<Longrightarrow> pages_in (as @ entry i ps @ bs) i = ps"
proof (induction as)
  case Nil
  then have "pages_in bs i = []" by (induction bs i rule: pages_in.induct) auto
  then show ?case by (simp add: entry_def)
qed auto

lemma pages_in_other: "j \<noteq> i \<Longrightarrow> pages_in (as @ entry i ps @ bs) j = pages_in (as @ bs) j"
  by (induction as j rule: pages_in.induct) (auto simp: entry_def)

lemma pages_of_entry: "B (hash_of i) = as @ entry i ps @ bs \<Longrightarrow> i \<notin> fst ` set (as @ bs) \<Longrightarrow> pages_of B i = ps"
  by (simp add: pages_of_def pages_in_entry image_Un)

lemma pages_of_other: "j \<noteq> i \<Longrightarrow> B (hash_of i) = as @ entry i ps @ bs \<Longrightarrow> pages_of (B(hash_of i := as @ entry i ps' @ bs)) j = pages_of B j"
  by (simp add: pages_of_def pages_in_other)

lemma pages_of_owned: "p \<in> set (pages_of B j) \<Longrightarrow> p \<in> set (bpos (B (hash_of j)))"
  by (simp add: pages_of_def pages_in_mem)

text \<open>Two inodes have no page in common.\<close>

lemma plookup_pages_apart:
  assumes i: "pinv B G X H P e" and b: "B (hash_of i) = as @ entry i ps @ bs" and j: "j \<noteq> i" and p: "p \<in> set (pages_of B j)"
  shows "p \<notin> set ps" "p \<notin> X" "hash_of j = hash_of i \<Longrightarrow> p \<in> set (bpos as) \<union> set (bpos bs)" "hash_of j \<noteq> hash_of i \<Longrightarrow> p \<notin> set (bpos (B (hash_of i)))"
proof -
  have o: "p \<in> set (bpos (B (hash_of j)))" using pages_of_owned [OF p] .
  then have "p \<in> powned B" by (metis bucket_pages hash_of_less subsetD)
  then show "p \<notin> X" using pinvD(5) [OF i] by blast
  show d: "p \<notin> set (bpos (B (hash_of i)))" if "hash_of j \<noteq> hash_of i" using pinvD(9) [OF i, of "hash_of j" "hash_of i"] that o by auto
  show a: "p \<in> set (bpos as) \<union> set (bpos bs)" if "hash_of j = hash_of i"
    using pages_in_mem [of p "as @ bs" j] p j b that by (simp add: pages_of_def pages_in_other)
  have "distinct (bpos (B (hash_of i)))" using pinv_bucket(4) [OF i hash_of_less] .
  then show "p \<notin> set ps" using a d b by (cases "hash_of j = hash_of i") auto
qed

lemma bucket_step:
  assumes i: "pinv B G X H P e" and h: "h = hash_of i" and b: "B h = as @ entry i ps @ bs" "i \<notin> fst ` set (as @ bs)"
    and c: "bchain P' h (as @ entry i ps' @ bs) 0" and ps': "distinct ps'" "set ps' \<subseteq> set ps \<union> X"
    and hh: "hash_head H' = (hash_head H)[h := bfirst 0 (as @ entry i ps' @ bs)]" "gc_head H' = gc_head H"
    and P: "dom P' = dom P" "\<And>p. p \<notin> set (bpos (B h)) \<union> X \<Longrightarrow> P' p = P p"
      "\<And>p. p \<in> set (bpos as) \<union> set (bpos bs) \<Longrightarrow> page_parents (the (P' p)) = page_parents (the (P p))"
  shows "pinv (B(h := as @ entry i ps' @ bs)) G ((set ps \<union> X) - set ps') H' P' e" and "pages_of (B(h := as @ entry i ps' @ bs)) i = ps'"
    and "\<forall>j. j \<noteq> i \<longrightarrow> conts (B(h := as @ entry i ps' @ bs)) P' j = conts B P j"
proof -
  let ?xs = "as @ entry i ps' @ bs"
  have k: "distinct (map fst (B h))" "distinct (bpos (B h))" using pinv_bucket(3,4) [OF i hash_of_less] h by blast+
  have "set (bpos (B h)) \<subseteq> powned B" using h by (simp add: bucket_pages)
  then have X: "X \<inter> set (bpos (B h)) = {}" using pinvD(5) [OF i] by blast
  have d: "distinct (bpos ?xs)" using k(2) ps' X b by auto
  have s: "set (bpos ?xs) \<union> ((set ps \<union> X) - set ps') = set (bpos (B h)) \<union> X" "set (bpos ?xs) \<inter> ((set ps \<union> X) - set ps') = {}" using k(2) ps' X b by auto
  have f: "distinct (map fst ?xs)" using k(1) b by (auto simp: entry_def split: if_splits)
  show "pinv (B(h := ?xs)) G ((set ps \<union> X) - set ps') H' P' e"
    using i hash_of_less [of i, folded h] c hh f d s P(1,2) by (rule pinv_change)
  show "pages_of (B(h := ?xs)) i = ps'" using pages_of_entry [of "B(h := ?xs)" i as ps' bs] b(2) h by simp
  have "page_parents (the (P' p)) = page_parents (the (P p))" if "j \<noteq> i" "p \<in> set (pages_of B j)" for j p
    using plookup_pages_apart [OF i b(1) [unfolded h] that] P(2) [of p] P(3) [of p] h by (cases "hash_of j = hash_of i") auto
  then show "\<forall>j. j \<noteq> i \<longrightarrow> conts (B(h := ?xs)) P' j = conts B P j"
    using pages_of_other [of _ i B as ps bs ps'] b(1) h by (auto simp: conts_def intro!: arg_cong [of _ _ concat] map_cong)
qed

text \<open>Pages of the list or in no list are linked in another way, all keep their parents.\<close>

definition plookup_relinked :: "nat set \<Rightarrow> (nat \<rightharpoonup> PLOOKUP_PAGE_T) \<Rightarrow> (nat \<rightharpoonup> PLOOKUP_PAGE_T) \<Rightarrow> bool" where
  "plookup_relinked A P P' \<longleftrightarrow> dom P' = dom P \<and> (\<forall>p. p \<notin> A \<longrightarrow> P' p = P p) \<and> (\<forall>p. page_parents (the (P' p)) = page_parents (the (P p)))"

lemma plookup_relinked_refl [simp]: "plookup_relinked A P P"
  by (simp add: plookup_relinked_def)

lemma relinked_upd: "plookup_relinked A P0 P \<Longrightarrow> P x = Some g \<Longrightarrow> page_parents g' = page_parents g \<Longrightarrow> x \<in> A \<Longrightarrow> plookup_relinked A P0 (P(x \<mapsto> g'))"
  unfolding plookup_relinked_def by (metis (no_types, lifting) dom_fun_upd domI fun_upd_apply insert_absorb option.discI option.sel)

lemma bucket_relink:
  assumes i: "pinv B G X H P e" and h: "h = hash_of i" and b: "B h = as @ entry i ps @ bs" "i \<notin> fst ` set (as @ bs)"
    and c: "bchain P' h (as @ entry i ps' @ bs) 0" and ps': "distinct ps'" "set ps' \<subseteq> set ps \<union> X"
    and hh: "hash_head H' = (hash_head H)[h := bfirst 0 (as @ entry i ps' @ bs)]" "gc_head H' = gc_head H"
    and P: "plookup_relinked (set (bpos (B h)) \<union> X) P P'"
  shows "pinv (B(h := as @ entry i ps' @ bs)) G ((set ps \<union> X) - set ps') H' P' e \<and>
    conts (B(h := as @ entry i ps' @ bs)) P' i = concat (map (\<lambda>p. page_parents (the (P p))) ps') \<and>
    (\<forall>j. j \<noteq> i \<longrightarrow> conts (B(h := as @ entry i ps' @ bs)) P' j = conts B P j)"
proof -
  have p: "dom P' = dom P" "\<And>p. p \<notin> set (bpos (B h)) \<union> X \<Longrightarrow> P' p = P p" "\<And>p. page_parents (the (P' p)) = page_parents (the (P p))"
    using P by (auto simp: plookup_relinked_def)
  note st = bucket_step [OF i h b c ps' hh p(1,2) p(3)]
  show ?thesis using st p(3) by (auto simp: conts_def)
qed

subsection \<open>New pages\<close>

text \<open>A page in no list is written, one that was taken from the list of old pages or one at the end of the file.\<close>

definition fresh_page :: "nat \<Rightarrow> nat set \<Rightarrow> nat \<Rightarrow> bool" where
  "fresh_page q X e \<longleftrightarrow> q \<noteq> 0 \<and> (X = {q} \<and> q < e \<or> X = {} \<and> q = e)"

lemma pinv_fresh:
  assumes i: "pinv B G X H P e" and f: "fresh_page q X e"
  shows "q \<notin> powned B" "pinv B G {q} H (P(q \<mapsto> g)) (if q = e then q + plookup_page_size else e)"
proof -
  let ?P = "P(q \<mapsto> g)"
  have n: "q \<notin> powned B \<union> set G" using f pinvD(5,6) [OF i] pinvD(8) [OF i, of q] by (auto simp: fresh_page_def)
  then show "q \<notin> powned B" by blast
  have c: "bchain ?P h (B h) 0" if h: "h < PLOOKUP_HASH_NUM_ENTRIES" for h
    using pinv_bucket(2) [OF i h] by (rule bchain_cong) (use n bucket_pages [OF h, of B] in auto)
  have G: "gchain ?P (gc_head H) G" using pinvD(2) [OF i] by (rule gchain_cong) (use n in auto)
  have d: "dom ?P = powned B \<union> set G \<union> {q}" using pinvD(6) [OF i] f by (auto simp: fresh_page_def)
  have bd: "\<forall>p \<in> dom ?P. 0 < p \<and> p < (if q = e then q + plookup_page_size else e)" using pinvD(8) [OF i] f by (auto simp: fresh_page_def split: if_splits intro: trans_less_add1)
  show "pinv B G {q} H ?P (if q = e then q + plookup_page_size else e)"
    unfolding pinv_def d using pinvD(1,3,4,7,9) [OF i] pinv_bucket(1,3,4) [OF i] c G n bd [unfolded d] by simp
qed

lemma pwrite_page_fresh:
  assumes "pst B G X s" and "fresh_page q X (plookup2_end s)"
  shows "pwrite_page g q (s\<lparr>parent_lookup_head := H\<rparr>) = (Inr (), s\<lparr>parent_lookup_head := H, plookup2_pages := (plookup2_pages s)(q \<mapsto> g),
    plookup2_end := if q = plookup2_end s then q + plookup_page_size else plookup2_end s\<rparr>)"
proof -
  have "plookup2_pages s q \<noteq> None" if "q < plookup2_end s" using assms pst_page(4) [OF assms(1), of q] that by (auto simp: fresh_page_def)
  then show ?thesis using assms by (auto simp: pwrite_page_def pst_def fresh_page_def)
qed

text \<open>Apart from the second file.\<close>

definition same_rest :: "lookup_state \<Rightarrow> lookup_state \<Rightarrow> bool" where
  "same_rest s s' \<longleftrightarrow> pathlookup_db s' = pathlookup_db s \<and> pathlookup_data_lock s' = pathlookup_data_lock s \<and> dirstat_lookup_db s' = dirstat_lookup_db s"

lemma new_page_run:
  assumes s: "pst B G {} s" and y: "synced s"
  obtains q s1 G' X where "new_page_pos s = (Inr q, s1)" "pst B G' X s1" "synced s1" "fresh_page q X (plookup2_end s1)" "same_rest s s1"
    "plookup2_pages s1 = plookup2_pages s" "hash_head (parent_lookup_head s1) = hash_head (parent_lookup_head s)"
proof (cases G)
  case Nil
  then have "gc_head (parent_lookup_head s) = 0" "pl_os s = []" "plookup2_end s \<noteq> 0" using s by (auto simp: pst_def pinv_def)
  then show thesis using that [of "plookup2_end s" s G "{}"] s y by (simp add: new_page_pos_def alloc_new_page_def same_rest_def fresh_page_def)
next
  case (Cons q G')
  let ?H = "parent_lookup_head s" and ?P = "plookup2_pages s" and ?e = "plookup2_end s"
  have i: "pinv B G {} ?H ?P ?e" using s by (simp add: pst_def)
  obtain g where g: "gc_head ?H = q" "q \<noteq> 0" "?P q = Some g" "gchain ?P (gc_next g) G'" using pinvD(2) [OF i] Cons by auto
  let ?H' = "?H\<lparr>gc_head := gc_next g\<rparr>" and ?s = "s\<lparr>parent_lookup_head := ?H\<lparr>gc_head := gc_next g\<rparr>, plookup2_head := ?H\<lparr>gc_head := gc_next g\<rparr>\<rparr>"
  have q: "q < ?e" using pst_page(3) [OF s, of q] Cons by simp
  have "new_page_pos s = (Inr q, ?s)"
    using g q s by (simp add: new_page_pos_def alloc_new_page_def pst_def Let_def lookup_calls)
  moreover have n: "q \<notin> powned B" "q \<notin> set G'" using pinvD(3,4) [OF i] Cons by auto
  have "pinv B G' {q} ?H' ?P ?e" unfolding pinv_def using pinvD(1,3,4,6,7,8,9) [OF i] pinv_bucket(1-4) [OF i] g(4) Cons n by auto
  then have "pst B G' {q} ?s" using s by (simp add: pst_def)
  ultimately show thesis using that [of q ?s G' "{q}"] g q by (simp add: synced_def same_rest_def fresh_page_def)
qed

subsection \<open>Adding a parent to the second file\<close>

text \<open>A run after which an inode has the other parents \<open>M\<close> and nothing else has changed.\<close>

definition becomes :: "(lookup_state, unit) sm \<Rightarrow> lookup_state \<Rightarrow> (nat \<Rightarrow> (ino_t \<times> nat list) list) \<Rightarrow> ino_t \<Rightarrow> ino_t multiset \<Rightarrow> bool" where
  "becomes m s B i M \<longleftrightarrow> (\<exists>s' B' G'. m s = (Inr (), s') \<and> pst B' G' {} s' \<and> synced s' \<and> same_rest s s' \<and>
     mset (conts B' (plookup2_pages s') i) = M \<and> (\<forall>j. j \<noteq> i \<longrightarrow> conts B' (plookup2_pages s') j = conts B (plookup2_pages s) j))"

lemma becomesI:
  "m s = (Inr (), s') \<Longrightarrow> pst B' G' {} s' \<Longrightarrow> synced s' \<Longrightarrow> same_rest s s' \<Longrightarrow> mset (conts B' (plookup2_pages s') i) = M \<Longrightarrow>
    (\<forall>j. j \<noteq> i \<longrightarrow> conts B' (plookup2_pages s') j = conts B (plookup2_pages s) j) \<Longrightarrow> becomes m s B i M"
  by (auto simp: becomes_def)

lemma becomesE:
  assumes "becomes m s B i M"
  obtains s' B' G' where "m s = (Inr (), s')" "pst B' G' {} s'" "synced s'" "same_rest s s'" "mset (conts B' (plookup2_pages s') i) = M"
    "\<forall>j. j \<noteq> i \<longrightarrow> conts B' (plookup2_pages s') j = conts B (plookup2_pages s) j"
  using assms unfolding becomes_def by blast

lemma one_parent_page_ok [simp]:
  "plookup_page_ok (one_parent_page i p)" "thisinode (one_parent_page i p) = i" "nextpage (one_parent_page i p) = 0" "nextlookup (one_parent_page i p) = 0" "page_parents (one_parent_page i p) = [p]"
  by (simp_all add: plookup_page_ok_def one_parent_page_def zero_plookup_page_def page_parents_def) (simp add: numeral_eq_Suc)

lemma conts_fresh: "q \<notin> powned B \<Longrightarrow> conts B (P(q \<mapsto> g)) j = conts B P j"
proof -
  assume q: "q \<notin> powned B"
  have "p \<noteq> q" if "p \<in> set (pages_of B j)" for p using pages_of_owned [OF that] q bucket_pages [OF hash_of_less, of B j] by auto
  then show ?thesis by (auto simp: conts_def intro!: arg_cong [of _ _ concat] map_cong)
qed

lemma blast_mem: "bchain P h xs q \<Longrightarrow> xs \<noteq> [] \<Longrightarrow> blast 0 xs \<in> set (bpos xs)"
proof -
  assume a: "bchain P h xs q" "xs \<noteq> []"
  then obtain as i ps where xs: "xs = as @ [(i, ps)]" by (metis append_butlast_last_id surj_pair)
  then have "ps \<noteq> []" using a(1) by simp
  then show "blast 0 xs \<in> set (bpos xs)" using xs by simp
qed

text \<open>A new inode at the end of its list.\<close>

lemma add_inode_run:
  assumes s: "pst B G {} s" and y: "synced s" and h: "h = hash_of i" and n: "i \<notin> fst ` set (B h)"
  shows "B h = [] \<Longrightarrow> becomes (add_to_head i p) s B i {#p#}" and "B h \<noteq> [] \<Longrightarrow> becomes (add_to_tail i p (blast 0 (B h))) s B i {#p#}"
proof -
  obtain q s1 G' X where a: "new_page_pos s = (Inr q, s1)" "pst B G' X s1" "synced s1" "fresh_page q X (plookup2_end s1)" "same_rest s s1"
    "plookup2_pages s1 = plookup2_pages s" "hash_head (parent_lookup_head s1) = hash_head (parent_lookup_head s)"
    using new_page_run [OF s y] .
  let ?g = "one_parent_page i p" and ?e = "if q = plookup2_end s1 then q + plookup_page_size else plookup2_end s1"
  let ?P = "(plookup2_pages s)(q \<mapsto> ?g)" and ?H = "parent_lookup_head s1" and ?xs = "B h @ [(i, [q])]"
  have i1: "pinv B G' X ?H (plookup2_pages s) (plookup2_end s1)" using a(2,6) by (simp add: pst_def)
  have q: "q \<notin> powned B" and i2: "pinv B G' {q} ?H ?P ?e" using pinv_fresh [OF i1 a(4)] by simp_all
  have os: "pl_os s1 = []" "plookup_head_size \<le> plookup2_end s1" "plookup_head_size \<le> ?e" using a(2) by (auto simp: pst_def)
  have hb: "h < PLOOKUP_HASH_NUM_ENTRIES" using h by simp
  have c: "bchain ?P h (B h) 0" using pinv_bucket(2) [OF i2 hb] .
  note w = pwrite_page_fresh [OF a(2,4), of ?g]
  note step = bucket_relink [where i = i and ps = "[]" and bs = "[]" and ps' = "[q]" and as = "B h", OF i2 h]
  show "becomes (add_to_head i p) s B i {#p#}" if e: "B h = []"
  proof -
    let ?H' = "?H\<lparr>hash_head := (hash_head ?H)[h := q]\<rparr>" and ?B = "B(h := [(i, [q])])"
    let ?s = "s1\<lparr>parent_lookup_head := ?H\<lparr>hash_head := (hash_head ?H)[h := q]\<rparr>, plookup2_pages := ?P, plookup2_end := ?e, plookup2_head := ?H\<lparr>hash_head := (hash_head ?H)[h := q]\<rparr>\<rparr>"
    have r: "add_to_head i p s = (Inr (), ?s)"
      using a(1) w os a(6) by (simp add: add_to_head_def lookup_calls h)
    have c': "bchain ?P h (B h @ entry i [q] @ []) 0" using e h a(4) by (simp add: entry_def fresh_page_def)
    have st: "pinv ?B G' {} ?H' ?P ?e" "conts ?B ?P i = [p]" "\<forall>j. j \<noteq> i \<longrightarrow> conts ?B ?P j = conts B ?P j"
      using step [of ?P ?H'] c' n e by (simp_all add: entry_def)
    show ?thesis by (rule becomesI [where m = "add_to_head i p" and s = s and B' = ?B and G' = G', OF r]) (use st a(2,5) os(3) q conts_fresh in \<open>auto simp: pst_def synced_def same_rest_def\<close>)
  qed
  show "becomes (add_to_tail i p (blast 0 (B h))) s B i {#p#}" if ne: "B h \<noteq> []"
  proof -
    let ?p = "blast 0 (B h)"
    have m: "?p \<in> set (bpos (B h))" "?p \<noteq> q" using blast_mem [OF c ne] q bucket_pages [OF hb, of B] by auto
    obtain g where g: "?P ?p = Some g" "?p < ?e" using pinv_page [OF i2 hb m(1)] by auto
    let ?P3 = "?P(?p \<mapsto> g\<lparr>nextlookup := q\<rparr>)" and ?B = "B(h := ?xs)"
    let ?s = "s1\<lparr>plookup2_pages := ?P3, plookup2_end := ?e\<rparr>"
    have hd: "s1\<lparr>parent_lookup_head := ?H\<rparr> = s1" by simp
    have r: "add_to_tail i p ?p s = (Inr (), ?s)"
      using a(1) w [of ?H, unfolded hd] os a(6) g by (simp add: add_to_tail_def lookup_calls)
    have "bchain ?P3 h (B h) q" using bchain_retarget [OF c ne pinv_bucket(4) [OF i2 hb] g(1)] .
    then have c': "bchain ?P3 h (B h @ entry i [q] @ []) 0" using m(2) h a(4) by (simp add: entry_def fresh_page_def)
    have f: "bfirst 0 ?xs = hash_head ?H ! h" using pinv_bucket(1) [OF i2 hb] ne by (cases "B h") (auto simp: bfirst_def)
    have "plookup_relinked (set (bpos (B h)) \<union> {q}) ?P ?P3" by (rule relinked_upd [where g = g]) (use g m in \<open>simp_all add: page_parents_def\<close>)
    then have st: "pinv ?B G' {} ?H ?P3 ?e" "conts ?B ?P3 i = [p]" "\<forall>j. j \<noteq> i \<longrightarrow> conts ?B ?P3 j = conts B ?P j"
      using step [of ?P3 ?H] c' n f by (simp_all add: entry_def)
    show ?thesis by (rule becomesI [where m = "add_to_tail i p ?p" and s = s and B' = ?B and G' = G', OF r]) (use st a(2,3,5) os(3) q conts_fresh in \<open>auto simp: pst_def synced_def same_rest_def\<close>)
  qed
qed

text \<open>A new page for an inode whose pages are full.\<close>

definition pars :: "(nat \<rightharpoonup> PLOOKUP_PAGE_T) \<Rightarrow> nat list \<Rightarrow> ino_t list" where
  "pars P ps = concat (map (\<lambda>p. page_parents (the (P p))) ps)"

lemma pars_simps [simp]: "pars P [] = []" "pars P (p # ps) = page_parents (the (P p)) @ pars P ps" "pars P (ps @ qs) = pars P ps @ pars P qs"
  by (simp_all add: pars_def)

lemma pars_upd [simp]: "x \<notin> set ps \<Longrightarrow> pars (P(x \<mapsto> g)) ps = pars P ps"
  by (induction ps) auto

lemma conts_pars: "conts B P i = pars P (pages_of B i)"
  by (simp add: conts_def pars_def)

text \<open>The parts of the list of a hash value around an inode.\<close>

lemma entry_parts:
  assumes i: "pinv B G X H P e" and h: "h = hash_of i" and b: "B h = as @ entry i ps @ bs" and ps: "ps \<noteq> []"
  shows "bchain P h as (hd ps)" "ichain P i ps 0" "nextlookup (the (P (hd ps))) = bfirst 0 bs" "bchain P h bs 0" "distinct (bpos as @ ps @ bpos bs)"
    "\<And>x. x \<in> set (bpos as) \<union> set ps \<union> set (bpos bs) \<Longrightarrow> x \<in> powned B"
  using pinv_bucket [OF i, of h] h b ps by (auto simp: entry_def)

lemma add_new_page_run:
  assumes s: "pst B G {} s" and y: "synced s" and h: "h = hash_of i" and b: "B h = as @ entry i ps @ bs" "i \<notin> fst ` set (as @ bs)" and ne: "ps \<noteq> []"
  shows "becomes (add_new_page i p (last ps)) s B i (mset (conts B (plookup2_pages s) i) + {#p#})"
proof -
  obtain q s1 G' X where a: "new_page_pos s = (Inr q, s1)" "pst B G' X s1" "synced s1" "fresh_page q X (plookup2_end s1)" "same_rest s s1"
    "plookup2_pages s1 = plookup2_pages s" "hash_head (parent_lookup_head s1) = hash_head (parent_lookup_head s)"
    using new_page_run [OF s y] .
  let ?g = "one_parent_page i p" and ?e = "if q = plookup2_end s1 then q + plookup_page_size else plookup2_end s1" and ?x = "last ps"
  let ?P = "(plookup2_pages s)(q \<mapsto> ?g)" and ?H = "parent_lookup_head s1" and ?B = "B(h := as @ entry i (ps @ [q]) @ bs)"
  have i1: "pinv B G' X ?H (plookup2_pages s) (plookup2_end s1)" using a(2,6) by (simp add: pst_def)
  have q: "q \<notin> powned B" and i2: "pinv B G' {q} ?H ?P ?e" using pinv_fresh [OF i1 a(4)] by simp_all
  note part = entry_parts [OF i2 h b(1) ne]
  have x: "?x \<in> set ps" using ne by simp
  then have d: "?x \<in> set ps" "?x \<noteq> q" "?x \<notin> set (bpos as)" "?x \<notin> set (bpos bs)" using part(5) part(6) [of ?x] q by (auto simp: disjoint_iff)
  obtain g where g: "?P ?x = Some g" "?x < ?e" using pinv_pos [OF i2, of ?x] part(6) [of ?x] d(1) by auto
  let ?P3 = "?P(?x \<mapsto> g\<lparr>nextpage := q\<rparr>)" and ?s = "s1\<lparr>plookup2_pages := ?P(?x \<mapsto> g\<lparr>nextpage := q\<rparr>), plookup2_end := ?e\<rparr>"
  have r: "add_new_page i p ?x s = (Inr (), ?s)"
    using a(1) pwrite_page_fresh [OF a(2,4), of ?g ?H] a(2,6) g by (simp add: add_new_page_def lookup_calls pst_def)
  have "ichain ?P3 i ps q" by (rule ichain_retarget [where P = ?P, OF part(2) ne _ g(1)]) (use part(5) in simp)
  then have "ichain ?P3 i (ps @ [q]) 0" using d(2) a(4) by (simp add: fresh_page_def)
  moreover have "bchain ?P3 h as (hd ps)" "bchain ?P3 h bs 0" using part(1,4) d by simp_all
  moreover have "nextlookup (the (?P3 (hd ps))) = bfirst 0 bs" using part(3) g(1) by (auto split: if_splits)
  ultimately have c: "bchain ?P3 h (as @ entry i (ps @ [q]) @ bs) 0" using ne h by (simp add: entry_def)
  have f: "bfirst 0 (as @ entry i (ps @ [q]) @ bs) = hash_head ?H ! h" using pinv_bucket(1) [OF i2, of h] b(1) ne h by (cases as) (auto simp: bfirst_def entry_def)
  have rl: "plookup_relinked (set (bpos (B h)) \<union> {q}) ?P ?P3" by (rule relinked_upd [where g = g]) (use g d b(1) in \<open>simp_all add: page_parents_def\<close>)
  have "q \<notin> set ps" using q part(6) by blast
  then have st: "pinv ?B G' {} ?H ?P3 ?e" "conts ?B ?P3 i = pars ?P (ps @ [q])" "\<forall>j. j \<noteq> i \<longrightarrow> conts ?B ?P3 j = conts B ?P j"
    using bucket_relink [where P' = ?P3 and P = ?P and H' = ?H, OF i2 h b c _ _ _ _ rl] part(5) f by (auto simp: pars_def)
  have "conts B (plookup2_pages s) i = pars (plookup2_pages s) ps" using pages_of_entry [of B i as ps bs] b h by (simp add: conts_pars)
  then have "mset (conts ?B ?P3 i) = mset (conts B (plookup2_pages s) i) + {#p#}" using st(2) \<open>q \<notin> set ps\<close> by simp
  then show ?thesis
    by (intro becomesI [where m = "add_new_page i p ?x" and s = s and B' = ?B and G' = G', OF r]) (use st(1,3) a(2,3,5) q conts_fresh in \<open>auto simp: pst_def synced_def same_rest_def\<close>)
qed

subsection \<open>Changing a page\<close>

lemma page_change:
  assumes i: "pinv B G {} H P e" and h: "h = hash_of i" and b: "B h = as @ entry i ps @ bs" "i \<notin> fst ` set (as @ bs)" and ps: "ps = us @ x # vs"
    and g: "P x = Some g" and g': "plookup_page_ok g'" "thisinode g' = thisinode g" "nextpage g' = nextpage g" "nextlookup g' = nextlookup g"
  shows "pinv B G {} H (P(x \<mapsto> g')) e" "conts B (P(x \<mapsto> g')) i = pars P us @ page_parents g' @ pars P vs" "\<forall>j. j \<noteq> i \<longrightarrow> conts B (P(x \<mapsto> g')) j = conts B P j"
proof -
  let ?P = "P(x \<mapsto> g')"
  have ne: "ps \<noteq> []" using ps by simp
  note part = entry_parts [OF i h b(1) ne]
  have u: "x \<notin> set us" "x \<notin> set vs" "x \<notin> set (bpos as)" "x \<notin> set (bpos bs)" using part(5) ps by auto
  have "bchain P h (as @ entry i ps @ bs) 0" using pinv_bucket(2) [OF i, of h] h b(1) by simp
  then have c: "bchain ?P h (as @ entry i ps @ bs) 0"
    by (rule bchain_mono) (use g g' in \<open>auto simp: same_links_def split: option.split\<close>)
  have f: "hash_head H = (hash_head H)[h := bfirst 0 (as @ entry i ps @ bs)]" using pinv_bucket(1) [OF i, of h] h b(1) by (metis hash_of_less list_update_id)
  have m: "dom ?P = dom P" "\<And>p. p \<notin> set (bpos (B h)) \<union> {} \<Longrightarrow> ?P p = P p" using g ps b(1) by auto
  have k: "\<And>p. p \<in> set (bpos as) \<union> set (bpos bs) \<Longrightarrow> page_parents (the (?P p)) = page_parents (the (P p))" using u by auto
  have d: "distinct ps" "set ps \<subseteq> set ps \<union> {}" using part(5) by auto
  have B: "B(h := as @ entry i ps @ bs) = B" using b(1) by auto
  note st = bucket_step [where P' = ?P and P = P, OF i h b c d f refl m k, unfolded B]
  show "pinv B G {} H ?P e" using st(1) by simp
  show "\<forall>j. j \<noteq> i \<longrightarrow> conts B ?P j = conts B P j" using st(3) .
  show "conts B ?P i = pars P us @ page_parents g' @ pars P vs" using st(2) u ps by (simp add: conts_pars)
qed

lemma page_change_run:
  assumes s: "pst B G {} s" and y: "synced s" and h: "h = hash_of i" and b: "B h = as @ entry i ps @ bs" "i \<notin> fst ` set (as @ bs)" and ps: "ps = us @ x # vs"
    and g: "plookup2_pages s x = Some g" and g': "plookup_page_ok g'" "thisinode g' = thisinode g" "nextpage g' = nextpage g" "nextlookup g' = nextlookup g"
  shows "becomes (pwrite_page g' x) s B i (mset (pars (plookup2_pages s) us) + mset (page_parents g') + mset (pars (plookup2_pages s) vs))"
proof -
  have i: "pinv B G {} (parent_lookup_head s) (plookup2_pages s) (plookup2_end s)" using s by (simp add: pst_def)
  have "x \<in> powned B" using entry_parts(6) [OF i h b(1)] ps by simp
  then have r: "pwrite_page g' x s = (Inr (), s\<lparr>plookup2_pages := (plookup2_pages s)(x \<mapsto> g')\<rparr>)" using pst_page [OF s, of x] by (auto intro: pwrite_page_ok)
  note c = page_change [OF i h b ps g g']
  show ?thesis by (rule becomesI [where m = "pwrite_page g' x" and s = s and B' = B and G' = G, OF r]) (use c s y in \<open>auto simp: pst_def synced_def same_rest_def\<close>)
qed

lemma page_parents_add:
  assumes "plookup_page_ok g" and "has_room g"
  shows "page_parents (g\<lparr>parents := (parents g)[num_parents g := p], num_parents := num_parents g + 1\<rparr>) = page_parents g @ [p]"
    and "plookup_page_ok (g\<lparr>parents := (parents g)[num_parents g := p], num_parents := num_parents g + 1\<rparr>)"
  using assms by (simp_all add: page_parents_def plookup_page_ok_def has_room_def take_Suc_conv_app_nth)

lemma index_of_split: "x \<in> set xs \<Longrightarrow> xs = take (index_of x xs) xs @ x # drop (index_of x xs + 1) xs \<and> x \<notin> set (take (index_of x xs) xs) \<and> index_of x xs < length xs"
proof -
  assume x: "x \<in> set xs"
  obtain as bs where xs: "xs = as @ x # bs" "x \<notin> set as" using split_list_first [OF x] by blast
  then have "takeWhile (\<lambda>y. y \<noteq> x) xs = as" by (subst xs(1), subst takeWhile_append2) auto
  then show ?thesis using xs by (simp add: index_of_def)
qed

lemma page_parents_drop:
  assumes "plookup_page_ok g" and p: "p \<in> set (page_parents g)" and "num_parents g > 1"
  shows "page_parents (drop_parent (index_of p (page_parents g)) g) = remove1 p (page_parents g)" and "plookup_page_ok (drop_parent (index_of p (page_parents g)) g)"
proof -
  let ?n = "num_parents g" and ?xs = "page_parents g" and ?c = "index_of p (page_parents g)" and ?a = "parents g"
  have l: "?n \<le> length ?a" "length ?xs = ?n" "length ?a = 32" using assms(1) by (auto simp: plookup_page_ok_def page_parents_def)
  have sp: "?xs = take ?c ?xs @ p # drop (?c + 1) ?xs" "p \<notin> set (take ?c ?xs)" "?c < ?n" using index_of_split [OF p] l(2) by auto
  have "remove1 p ?xs = take ?c ?xs @ drop (?c + 1) ?xs" by (subst sp(1)) (use remove1_at [OF sp(2)] in simp)
  moreover have "take ?c ?xs = take ?c ?a" "drop (?c + 1) ?xs = take (?n - 1 - ?c) (drop (?c + 1) ?a)"
    using sp(3) by (simp_all add: page_parents_def drop_take)
  moreover have "length (take ?c ?a @ take (?n - 1 - ?c) (drop (?c + 1) ?a)) = ?n - 1" using sp(3) l(1) by simp
  moreover have "page_parents (drop_parent k g) = take (?n - 1) ((take k ?a @ take (?n - 1 - k) (drop (k + 1) ?a)) @ drop (?n - 1) ?a)" for k
    by (simp add: drop_parent_def Let_def page_parents_def)
  ultimately show "page_parents (drop_parent ?c g) = remove1 p ?xs" by (metis append_eq_conv_conj)
  show "plookup_page_ok (drop_parent ?c g)" using assms(1,3) sp(3) l by (simp add: drop_parent_def Let_def plookup_page_ok_def min_def) arith
qed

lemma page_parents_replace:
  assumes "plookup_page_ok g" and p: "p \<in> set (page_parents g)"
  shows "mset (page_parents (g\<lparr>parents := (parents g)[index_of p (page_parents g) := q]\<rparr>)) = add_mset q (mset (page_parents g) - {#p#})"
    and "plookup_page_ok (g\<lparr>parents := (parents g)[index_of p (page_parents g) := q]\<rparr>)"
proof -
  let ?c = "index_of p (page_parents g)"
  have sp: "page_parents g = take ?c (page_parents g) @ p # drop (?c + 1) (page_parents g)" "?c < length (page_parents g)" using index_of_split [OF p] by auto
  have c: "page_parents (g\<lparr>parents := (parents g)[?c := q]\<rparr>) = (page_parents g)[?c := q]" by (simp add: page_parents_def take_update_swap)
  have "page_parents g ! ?c = p" using sp by (metis nth_append_length length_take min.absorb4)
  then show "mset (page_parents (g\<lparr>parents := (parents g)[?c := q]\<rparr>)) = add_mset q (mset (page_parents g) - {#p#})" unfolding c using sp(2) by (simp add: mset_update)
  show "plookup_page_ok (g\<lparr>parents := (parents g)[?c := q]\<rparr>)" using assms(1) by (simp add: plookup_page_ok_def)
qed

subsection \<open>Recycling a page\<close>

lemma recycle_run:
  assumes s: "pst B G {x} s"
  shows "\<exists>s'. recycle_page x s = (Inr (), s') \<and> pst B (x # G) {} s' \<and> synced s' \<and> same_rest s s' \<and> (\<forall>j. conts B (plookup2_pages s') j = conts B (plookup2_pages s) j)"
proof -
  let ?H = "parent_lookup_head s" and ?P = "plookup2_pages s" and ?e = "plookup2_end s"
  let ?g = "zero_plookup_page\<lparr>gc_next := gc_head ?H\<rparr>" and ?H' = "?H\<lparr>gc_head := x\<rparr>"
  let ?P' = "?P(x \<mapsto> zero_plookup_page\<lparr>gc_next := gc_head ?H\<rparr>)" and ?s = "s\<lparr>parent_lookup_head := ?H\<lparr>gc_head := x\<rparr>, plookup2_pages := ?P(x \<mapsto> zero_plookup_page\<lparr>gc_next := gc_head ?H\<rparr>), plookup2_head := ?H\<lparr>gc_head := x\<rparr>\<rparr>"
  have i: "pinv B G {x} ?H ?P ?e" using s by (simp add: pst_def)
  have x: "x \<notin> powned B" "x \<notin> set G" "x \<noteq> 0" "x < ?e" "?P x \<noteq> None" using pinvD(5) [OF i] pinv_pos [OF i, of x] by auto
  have r: "recycle_page x s = (Inr (), ?s)" using s x by (simp add: recycle_page_def Let_def lookup_calls pst_def)
  have c: "bchain ?P' h (B h) 0" if h: "h < PLOOKUP_HASH_NUM_ENTRIES" for h
    using pinv_bucket(2) [OF i h] x(1) bucket_pages [OF h, of B] by (subst bchain_upd) auto
  have G: "gchain ?P' (gc_head ?H') (x # G)" using pinvD(2) [OF i] x by simp
  have d: "dom ?P' = powned B \<union> set (x # G) \<union> {}" using pinvD(6) [OF i] x(5) by auto
  have bd: "\<forall>p \<in> dom ?P'. 0 < p \<and> p < ?e" using pinvD(8) [OF i] x(5) by auto
  have "pinv B (x # G) {} ?H' ?P' ?e" unfolding pinv_def d using pinvD(1,3,4,7,9) [OF i] pinv_bucket(1,3,4) [OF i] c G x bd [unfolded d] by simp
  then have "pst B (x # G) {} ?s" using s by (simp add: pst_def)
  then show ?thesis using r x conts_fresh [OF x(1)] by (simp add: synced_def same_rest_def)
qed

lemma recycleE:
  assumes "pst B G {x} s"
  obtains s' where "recycle_page x s = (Inr (), s')" "pst B (x # G) {} s'" "synced s'" "same_rest s s'" "\<forall>j. conts B (plookup2_pages s') j = conts B (plookup2_pages s) j"
  using recycle_run [OF assms] by blast

subsection \<open>Taking a page out\<close>

text \<open>The file after the page at \<open>x\<close> was taken out of the list it was in.\<close>

definition taken_out :: "(lookup_state, unit) sm \<Rightarrow> lookup_state \<Rightarrow> (nat \<Rightarrow> (ino_t \<times> nat list) list) \<Rightarrow> nat list \<Rightarrow> nat \<Rightarrow> ino_t \<Rightarrow> ino_t list \<Rightarrow> bool" where
  "taken_out m s B G x i xs \<longleftrightarrow> (\<exists>s' B'. m s = (Inr (), s') \<and> pst B' G {x} s' \<and> same_rest s s' \<and>
     conts B' (plookup2_pages s') i = xs \<and> (\<forall>j. j \<noteq> i \<longrightarrow> conts B' (plookup2_pages s') j = conts B (plookup2_pages s) j))"

lemma taken_outE:
  assumes "taken_out m s B G x i xs"
  obtains s' B' where "m s = (Inr (), s')" "pst B' G {x} s'" "same_rest s s'" "conts B' (plookup2_pages s') i = xs" "\<forall>j. j \<noteq> i \<longrightarrow> conts B' (plookup2_pages s') j = conts B (plookup2_pages s) j"
  using assms by (auto simp: taken_out_def)

text \<open>Two writes of the list, to a page and to the head, and what the new list needs.\<close>

lemma taken_outI:
  assumes s: "pst B G {} s" and h: "h = hash_of i" and b: "B h = as @ entry i (us @ x # vs) @ bs" "i \<notin> fst ` set (as @ bs)"
    and r: "m s = (Inr (), s')" and s': "same_rest s s'" "plookup2_end s' = plookup2_end s" "pl_os s' = []" "plookup2_exists s'"
    and c: "bchain (plookup2_pages s') h (as @ entry i (us @ vs) @ bs) 0"
    and hh: "hash_head (parent_lookup_head s') = (hash_head (parent_lookup_head s))[h := bfirst 0 (as @ entry i (us @ vs) @ bs)]" "gc_head (parent_lookup_head s') = gc_head (parent_lookup_head s)"
    and P: "plookup_relinked (set (bpos (B h))) (plookup2_pages s) (plookup2_pages s')"
  shows "taken_out m s B G x i (pars (plookup2_pages s) (us @ vs))"
proof -
  let ?B = "B(h := as @ entry i (us @ vs) @ bs)" and ?P = "plookup2_pages s" and ?P' = "plookup2_pages s'"
  have i: "pinv B G {} (parent_lookup_head s) ?P (plookup2_end s)" using s by (simp add: pst_def)
  have d: "distinct (us @ x # vs)" using entry_parts(5) [OF i h b(1)] by auto
  then have X: "set (us @ x # vs) \<union> {} - set (us @ vs) = {x}" "distinct (us @ vs)" "set (us @ vs) \<subseteq> set (us @ x # vs) \<union> {}" by auto
  have P': "plookup_relinked (set (bpos (B h)) \<union> {}) ?P ?P'" using P by simp
  note st = bucket_relink [where P' = ?P' and P = ?P, OF i h b c X(2,3) hh P', unfolded X(1)]
  have "pst ?B G {x} s'" using st s s' by (auto simp: pst_def same_rest_def)
  then show ?thesis using r s'(1) st unfolding taken_out_def pars_def by blast
qed

lemma blast_eq_0: "bchain P h as q \<Longrightarrow> blast 0 as = 0 \<longleftrightarrow> as = []"
  by (metis blast_mem bchain_0 blast_simps(1))

text \<open>A page behind another one of its inode.\<close>

lemma unlink_later_page:
  assumes s: "pst B G {} s" and h: "h = hash_of i" and b: "B h = as @ entry i (us @ x # vs) @ bs" "i \<notin> fst ` set (as @ bs)" and g: "plookup2_pages s x = Some g" and ne: "us \<noteq> []"
  shows "taken_out (unlink_page i (blast 0 as) (last us) g) s B G x i (pars (plookup2_pages s) (us @ vs))"
proof -
  let ?P = "plookup2_pages s" and ?u = "last us"
  have i: "pinv B G {} (parent_lookup_head s) ?P (plookup2_end s)" using s by (simp add: pst_def)
  note part = entry_parts [OF i h b(1)]
  have u: "?u \<in> set us" using ne by simp
  then have d: "?u \<notin> set (bpos as)" "?u \<notin> set (bpos bs)" "?u \<notin> set vs" "distinct us" "?u \<in> powned B" using part(5,6) by auto
  obtain gu where gu: "?P ?u = Some gu" "?u < plookup2_end s" "?u \<noteq> 0" using pst_page [OF s, of ?u] d(5) by auto
  have n: "nextpage g = first_or 0 vs" "ichain ?P i us x" "ichain ?P i vs 0" using part(2) g by auto
  let ?P' = "?P(?u \<mapsto> gu\<lparr>nextpage := nextpage g\<rparr>)"
  have r: "unlink_page i (blast 0 as) ?u g s = (Inr (), s\<lparr>plookup2_pages := ?P'\<rparr>)" using s gu by (simp add: unlink_page_def lookup_calls pst_def)
  have "ichain ?P' i us (first_or 0 vs)" using ichain_retarget [OF n(2) ne d(4) gu(1), of "nextpage g"] n(1) by simp
  then have "ichain ?P' i (us @ vs) 0" using n(3) d(3) by simp
  moreover have "nextlookup (the (?P' (hd us))) = bfirst 0 bs" using part(3) gu(1) ne by (auto split: if_splits)
  ultimately have c: "bchain ?P' h (as @ entry i (us @ vs) @ bs) 0" using part(1,4) d ne h by (simp add: entry_def)
  have f: "bfirst 0 (as @ entry i (us @ vs) @ bs) = hash_head (parent_lookup_head s) ! h" using pinv_bucket(1) [OF i, of h] b(1) ne h by (cases as) (auto simp: bfirst_def entry_def)
  have rl: "plookup_relinked (set (bpos (B h))) ?P ?P'" by (rule relinked_upd [where g = gu]) (use gu u b(1) in \<open>simp_all add: page_parents_def\<close>)
  show ?thesis by (rule taken_outI [where m = "unlink_page i (blast 0 as) ?u g", OF s h b r]) (use s c f rl in \<open>simp_all add: same_rest_def pst_def\<close>)
qed

text \<open>The first page of an inode with others.\<close>

lemma unlink_first_page:
  assumes s: "pst B G {} s" and h: "h = hash_of i" and b: "B h = as @ entry i (x # vs) @ bs" "i \<notin> fst ` set (as @ bs)" and g: "plookup2_pages s x = Some g" and ne: "vs \<noteq> []"
  shows "taken_out (unlink_page i (blast 0 as) 0 g) s B G x i (pars (plookup2_pages s) vs)"
proof -
  let ?P = "plookup2_pages s" and ?v = "hd vs"
  have i: "pinv B G {} (parent_lookup_head s) ?P (plookup2_end s)" using s by (simp add: pst_def)
  note part = entry_parts [OF i h b(1), simplified]
  have v: "?v \<in> set vs" using ne by simp
  then have d: "?v \<notin> set (bpos as)" "?v \<notin> set (bpos bs)" "?v \<in> powned B" using part(5,6) by auto
  obtain gv where gv: "?P ?v = Some gv" "?v < plookup2_end s" "?v \<noteq> 0" using pst_page [OF s, of ?v] d(3) by auto
  have n: "nextpage g = ?v" "ichain ?P i vs 0" "nextlookup g = bfirst 0 bs" using part(2,3) g ne by (auto simp: first_or_nonempty)
  let ?P1 = "?P(?v \<mapsto> gv\<lparr>nextlookup := nextlookup g\<rparr>)" and ?m = "unlink_page i (blast 0 as) 0 g"
  have iv: "ichain ?P1 i vs 0" using n(2) by (rule ichain_mono) (use gv in \<open>auto simp: same_links_def plookup_page_ok_def split: option.split\<close>)
  have rl: "plookup_relinked (set (bpos (B h))) ?P ?P1" by (rule relinked_upd [where g = gv]) (use gv v b(1) in \<open>simp_all add: page_parents_def\<close>)
  have w: "upd_plookup_page (\<lambda>p. p\<lparr>nextlookup := nextlookup g\<rparr>) ?v s = (Inr (), s\<lparr>plookup2_pages := ?P1\<rparr>)" using s gv by (simp add: upd_page_ok pst_def)
  show ?thesis
  proof (cases "as = []")
    case True
    let ?H = "parent_lookup_head s"
    let ?H' = "?H\<lparr>hash_head := (hash_head ?H)[h := ?v]\<rparr>" and ?s = "s\<lparr>plookup2_pages := ?P1, parent_lookup_head := ?H\<lparr>hash_head := (hash_head ?H)[h := ?v]\<rparr>, plookup2_head := ?H\<lparr>hash_head := (hash_head ?H)[h := ?v]\<rparr>\<rparr>"
    have r: "?m s = (Inr (), ?s)" using s w True n(1) by (simp add: unlink_page_def lookup_calls pst_def h)
    have c: "bchain ?P1 h (as @ entry i ([] @ vs) @ bs) 0" using part(4) d iv ne h n(3) True by (simp add: entry_def)
    have "taken_out ?m s B G x i (pars ?P ([] @ vs))"
      by (rule taken_outI [where m = ?m and us = "[]" and vs = vs and s' = ?s, OF s h _ b(2) r _ _ _ _ _ _ _]) (use b(1) s c rl ne True in \<open>auto simp: same_rest_def pst_def entry_def\<close>)
    then show ?thesis by simp
  next
    case False
    let ?l = "blast 0 as"
    have l: "?l \<in> set (bpos as)" "?l \<noteq> ?v" "?l \<in> powned B" "?l \<noteq> 0" using blast_mem [OF part(1) False] d(1) part(6) blast_eq_0 [OF part(1)] False by auto
    obtain gl where gl: "?P ?l = Some gl" "?l < plookup2_end s" using pst_page [OF s, of ?l] l(3) by auto
    let ?P2 = "?P1(?l \<mapsto> gl\<lparr>nextlookup := ?v\<rparr>)"
    have r: "?m s = (Inr (), s\<lparr>plookup2_pages := ?P2\<rparr>)" using s w l gl n(1) by (simp add: unlink_page_def lookup_calls pst_def)
    have "?P1 ?l = Some gl" "bchain ?P1 h as x" using gl l(2) part(1) d(1) by simp_all
    then have a: "bchain ?P2 h as ?v" using bchain_retarget [where P = ?P1, OF _ False] part(5) by simp
    have o: "?l \<notin> set vs" "?l \<notin> set (bpos bs)" using l(1) part(5) by auto
    have c: "bchain ?P2 h (as @ entry i ([] @ vs) @ bs) 0" using a part(4) d iv ne h n(3) o l(2) by (simp add: entry_def)
    have f: "bfirst 0 (as @ entry i vs @ bs) = hash_head (parent_lookup_head s) ! h" using pinv_bucket(1) [OF i, of h] b(1) False h by (cases as) (auto simp: bfirst_def)
    have "plookup_relinked (set (bpos (B h))) ?P ?P2" by (rule relinked_upd [OF rl, where g = gl]) (use gl l b(1) in \<open>simp_all add: page_parents_def\<close>)
    then show ?thesis using taken_outI [where m = ?m and us = "[]" and s' = "s\<lparr>plookup2_pages := ?P2\<rparr>", OF s h _ b(2) r] b(1) s c f by (simp add: same_rest_def pst_def)
  qed
qed

text \<open>The only page of an inode.\<close>

definition unlink_from_hash :: "ino_t \<Rightarrow> nat \<Rightarrow> PLOOKUP_PAGE_T \<Rightarrow> (lookup_state, unit) sm" where
  "unlink_from_hash self prevllpos g = (if prevllpos = 0 then bindE (set_hash_head (hash_of self) (nextlookup g)) (\<lambda>_. pwrite_plookup_head)
     else upd_plookup_page (\<lambda>p. p\<lparr>nextlookup := nextlookup g\<rparr>) prevllpos)"

lemma unlink_only_page:
  assumes s: "pst B G {} s" and h: "h = hash_of i" and b: "B h = as @ entry i [x] @ bs" "i \<notin> fst ` set (as @ bs)" and g: "plookup2_pages s x = Some g"
  shows "taken_out (unlink_from_hash i (blast 0 as) g) s B G x i []"
proof -
  let ?P = "plookup2_pages s" and ?m = "unlink_from_hash i (blast 0 as) g"
  have i: "pinv B G {} (parent_lookup_head s) ?P (plookup2_end s)" using s by (simp add: pst_def)
  note part = entry_parts [OF i h b(1), simplified]
  have n: "nextlookup g = bfirst 0 bs" using part(3) g by simp
  have "taken_out ?m s B G x i (pars ?P ([] @ []))"
  proof (cases "as = []")
    case True
    let ?H = "parent_lookup_head s"
    let ?s = "s\<lparr>parent_lookup_head := ?H\<lparr>hash_head := (hash_head ?H)[h := nextlookup g]\<rparr>, plookup2_head := ?H\<lparr>hash_head := (hash_head ?H)[h := nextlookup g]\<rparr>\<rparr>"
    have r: "?m s = (Inr (), ?s)" using s True by (simp add: unlink_from_hash_def lookup_calls pst_def h)
    show ?thesis by (rule taken_outI [where m = ?m and us = "[]" and vs = "[]" and s' = ?s, OF s h _ b(2) r]) (use b(1) s part(4) n True in \<open>auto simp: same_rest_def pst_def entry_def\<close>)
  next
    case False
    let ?l = "blast 0 as"
    have l: "?l \<in> set (bpos as)" "?l \<in> powned B" "?l \<noteq> 0" using blast_mem [OF part(1) False] part(6) blast_eq_0 [OF part(1)] False by auto
    obtain gl where gl: "?P ?l = Some gl" "?l < plookup2_end s" using pst_page [OF s, of ?l] l(2) by auto
    let ?P1 = "?P(?l \<mapsto> gl\<lparr>nextlookup := nextlookup g\<rparr>)"
    have r: "?m s = (Inr (), s\<lparr>plookup2_pages := ?P1\<rparr>)" using s l gl by (simp add: unlink_from_hash_def lookup_calls pst_def)
    have a: "bchain ?P1 h as (bfirst 0 bs)" using bchain_retarget [OF part(1) False _ gl(1), of "nextlookup g"] part(5) n by simp
    have o: "?l \<notin> set (bpos bs)" using l(1) part(5) by auto
    have c: "bchain ?P1 h (as @ entry i ([] @ []) @ bs) 0" using a part(4) o by (simp add: entry_def)
    have f: "bfirst 0 (as @ bs) = hash_head (parent_lookup_head s) ! h" using pinv_bucket(1) [OF i, of h] b(1) False h by (cases as) (auto simp: bfirst_def)
    have rl: "plookup_relinked (set (bpos (B h))) ?P ?P1" by (rule relinked_upd [where g = gl]) (use gl l b(1) in \<open>simp_all add: page_parents_def\<close>)
    show ?thesis by (rule taken_outI [where m = ?m and us = "[]" and vs = "[]" and s' = "s\<lparr>plookup2_pages := ?P1\<rparr>", OF s h _ b(2) r]) (use b(1) s c f rl in \<open>auto simp: same_rest_def pst_def entry_def\<close>)
  qed
  then show ?thesis by simp
qed

lemma unlink_inode_eq:
  "unlink_inode i l g = bindE (unlink_from_hash i l g) (\<lambda>_. bindE (read_primary i) (\<lambda>p. pwrite_primary i (p\<lparr>haveothers := False\<rparr>)))"
  by (simp add: unlink_inode_def unlink_from_hash_def)

end
