(* ===== verification/Parent_Lookup_Props.thy ===== *)
theory Parent_Lookup_Props
  imports Parent_Pages Service
begin

text \<open>
  The parent database against its specification: a table with the first parent of every inode, a flag and the multiset of its other parents.
\<close>

subsection \<open>Runs in the second file\<close>

lemma bfirst_eq_0: "bchain P h xs 0 \<Longrightarrow> bfirst 0 xs = 0 \<longleftrightarrow> xs = []"
  by (cases xs rule: list.exhaust, simp) (metis bchain.simps(2) bfirst_simps(2) hd_in_set ichain_0 list.discI surj_pair)

definition add_secondary :: "ino_t \<Rightarrow> ino_t \<Rightarrow> (lookup_state, unit) sm" where
  "add_secondary self parent = (\<lambda>s1.
     if hash_head (parent_lookup_head s1) ! hash_of self = 0 then add_to_head self parent s1
     else bindE (find_first_page self) (\<lambda>(prevpos, tmppos, g).
       if tmppos = 0 then add_to_tail self parent prevpos
       else bindE (or_hang (walk_inode has_room 0 tmppos g)) (\<lambda>(prevpos, tmppos, g).
         if tmppos = 0 then add_new_page self parent prevpos
         else pwrite_page (g\<lparr>parents := (parents g)[num_parents g := parent], num_parents := num_parents g + 1\<rparr>) tmppos)) s1)"

lemma becomes_cong: "becomes m s B i M \<Longrightarrow> m' s = m s \<Longrightarrow> becomes m' s B i M"
  by (simp add: becomes_def)

lemma walk_cases:
  assumes s: "pst B G {} s" and h: "h = hash_of i" and b: "B h = as @ entry i ps @ bs" and ne: "ps \<noteq> []"
  obtains us x vs g where "ps = us @ x # vs" "plookup2_pages s x = Some g" "C g" "or_hang (walk_inode C 0 (hd ps) (the (plookup2_pages s (hd ps)))) s = (Inr (last_or 0 us, x, g), s)"
      "thisinode g = i" "plookup_page_ok g" "x \<noteq> 0" "\<forall>u \<in> set us. \<not> C (the (plookup2_pages s u))" "nextpage g = first_or 0 vs"
  | g where "\<forall>u \<in> set ps. \<not> C (the (plookup2_pages s u))" "or_hang (walk_inode C 0 (hd ps) (the (plookup2_pages s (hd ps)))) s = (Inr (last ps, 0, g), s)"
proof (cases "\<exists>u \<in> set ps. C (the (plookup2_pages s u))")
  case True
  then obtain us x vs where x: "ps = us @ x # vs" "C (the (plookup2_pages s x))" "\<forall>u \<in> set us. \<not> C (the (plookup2_pages s u))" using split_list_first_prop [where P = "\<lambda>u. C (the (plookup2_pages s u))", OF True] by blast
  have i: "pinv B G {} (parent_lookup_head s) (plookup2_pages s) (plookup2_end s)" using s by (simp add: pst_def)
  note part = entry_parts [OF i h b ne]
  obtain g where g: "plookup2_pages s x = Some g" "thisinode g = i" "plookup_page_ok g" "x \<noteq> 0" "nextpage g = first_or 0 vs" using part(2) x(1) by auto
  have "set (us @ x # vs) \<subseteq> powned B" using part(6) x(1) by auto
  from walk_inode_hit [OF s part(2) [unfolded x(1)] this x(3,2), of 0] have "or_hang (walk_inode C 0 (hd ps) (the (plookup2_pages s (hd ps)))) s = (Inr (last_or 0 us, x, g), s)"
    using x(1) g(1) by (cases us) (auto simp: or_hang_def)
  then show thesis using that(1) x g by auto
next
  case False
  then have n: "\<forall>u \<in> set ps. \<not> C (the (plookup2_pages s u))" by blast
  have i: "pinv B G {} (parent_lookup_head s) (plookup2_pages s) (plookup2_end s)" using s by (simp add: pst_def)
  note part = entry_parts [OF i h b ne]
  obtain p qs where ps: "ps = p # qs" using ne by (cases ps) auto
  have "set (p # qs) \<subseteq> powned B" using part(6) ps by auto
  from walk_inode_miss [OF s part(2) [unfolded ps] this, of C 0] obtain g where "walk_inode C 0 p (the (plookup2_pages s p)) s = Some (Inr (last_or p qs, 0, g), s)" using n ps by auto
  then show thesis using that(2) [of g] n ps by (simp add: or_hang_def last_or_def)
qed

lemma conts_entry: "B (hash_of i) = as @ entry i ps @ bs \<Longrightarrow> i \<notin> fst ` set (as @ bs) \<Longrightarrow> conts B P i = pars P ps"
  by (simp add: conts_pars pages_of_entry)

lemma add_secondary_run:
  assumes s: "pst B G {} s" and y: "synced s"
  shows "becomes (add_secondary i p) s B i (mset (conts B (plookup2_pages s) i) + {#p#})"
proof -
  let ?P = "plookup2_pages s" and ?h = "hash_of i"
  have v: "pinv B G {} (parent_lookup_head s) ?P (plookup2_end s)" using s by (simp add: pst_def)
  obtain as ps bs where b: "B ?h = as @ entry i ps @ bs" "i \<notin> fst ` set (as @ bs)" using entry_cases [OF v] .
  note k = pinv_bucket [OF v hash_of_less [of i]]
  have hd0: "hash_head (parent_lookup_head s) ! ?h = 0 \<longleftrightarrow> B ?h = []" using k(1,2) bfirst_eq_0 by simp
  show ?thesis
  proof (cases "ps = []")
    case True
    then have n: "i \<notin> fst ` set (B ?h)" "conts B ?P i = []" using b conts_entry [where B = B, OF b] by (auto simp: entry_def)
    show ?thesis
    proof (cases "B ?h = []")
      case True
      then show ?thesis using add_inode_run(1) [where h = ?h and p = p, OF s y refl n(1)] n(2) hd0 by (auto intro: becomes_cong simp: add_secondary_def)
    next
      case False
      then show ?thesis using add_inode_run(2) [where h = ?h and p = p, OF s y refl n(1)] n hd0 find_first_page_miss [OF s n(1)] by (auto intro: becomes_cong simp: add_secondary_def)
    qed
  next
    case ne: False
    then have f: "find_first_page i s = (Inr (blast 0 as, hd ps, the (?P (hd ps))), s)" using find_first_page_hit [OF s, of i as ps bs] b(1) by (simp add: entry_def)
    have h0: "hd ps \<noteq> 0" using entry_parts(2) [OF v refl b(1) ne] ne by (cases ps) auto
    have nz: "B ?h \<noteq> []" using b(1) ne by (simp add: entry_def)
    have c: "conts B ?P i = pars ?P ps" using conts_entry [where B = B, OF b] .
    show ?thesis
    proof (cases rule: walk_cases [where C = has_room, OF s refl b(1) ne])
      case (1 us x vs g)
      let ?g = "g\<lparr>parents := (parents g)[num_parents g := p], num_parents := num_parents g + 1\<rparr>"
      have "becomes (pwrite_page ?g x) s B i (mset (pars ?P us) + mset (page_parents ?g) + mset (pars ?P vs))"
        using page_change_run [where g' = ?g, OF s y refl b 1(1,2)] page_parents_add(2) [OF 1(6,3)] by simp
      moreover have "mset (pars ?P us) + mset (page_parents ?g) + mset (pars ?P vs) = mset (conts B ?P i) + {#p#}" using 1(1,2) c page_parents_add(1) [OF 1(6,3)] by simp
      moreover have "add_secondary i p s = pwrite_page ?g x s" using f h0 1(4,7) hd0 nz by (simp add: add_secondary_def)
      ultimately show ?thesis by (metis becomes_cong)
    next
      case (2 g)
      have "add_secondary i p s = add_new_page i p (last ps) s" using f h0 2(2) hd0 nz by (simp add: add_secondary_def)
      then show ?thesis using becomes_cong [OF add_new_page_run [OF s y refl b ne]] by blast
    qed
  qed
qed

subsection \<open>Deleting from the second file\<close>

lemma recycled:
  assumes "taken_out m s B G x i xs"
  shows "becomes (bindE m (\<lambda>_. recycle_page x)) s B i (mset xs)"
proof -
  obtain s1 B1 where t: "m s = (Inr (), s1)" "pst B1 G {x} s1" "same_rest s s1" "conts B1 (plookup2_pages s1) i = xs" "\<forall>j. j \<noteq> i \<longrightarrow> conts B1 (plookup2_pages s1) j = conts B (plookup2_pages s) j"
    using taken_outE [OF assms] .
  obtain s2 where r: "recycle_page x s1 = (Inr (), s2)" "pst B1 (x # G) {} s2" "synced s2" "same_rest s1 s2" "\<forall>j. conts B1 (plookup2_pages s2) j = conts B1 (plookup2_pages s1) j"
    using recycleE [OF t(2)] .
  show ?thesis unfolding becomes_def using t r by (intro exI [of _ s2] exI [of _ B1] exI [of _ "x # G"]) (simp add: same_rest_def)
qed

text \<open>The primary record may change in the middle.\<close>

lemma taken_out_primary:
  assumes "taken_out m s B G x i xs" and "0 < k"
  shows "\<exists>s' B'. bindE (bindE m (\<lambda>_. bindE (read_primary k) (\<lambda>p. pwrite_primary k (f p)))) (\<lambda>_. recycle_page x) s = (Inr (), s') \<and>
    pst B' (x # G) {} s' \<and> synced s' \<and> pathlookup_data_lock s' = pathlookup_data_lock s \<and> dirstat_lookup_db s' = dirstat_lookup_db s \<and>
    conts B' (plookup2_pages s') i = xs \<and> (\<forall>j. j \<noteq> i \<longrightarrow> conts B' (plookup2_pages s') j = conts B (plookup2_pages s) j) \<and> (\<forall>j > 0. prim s' j = (if j = k then f (prim s k) else prim s j))"
proof -
  obtain s1 B1 where t: "m s = (Inr (), s1)" "pst B1 G {x} s1" "same_rest s s1" "conts B1 (plookup2_pages s1) i = xs" "\<forall>j. j \<noteq> i \<longrightarrow> conts B1 (plookup2_pages s1) j = conts B (plookup2_pages s) j"
    using taken_outE [OF assms(1)] .
  have pr: "prim s1 = prim s" by (rule prim_cong) (use t(3) in \<open>simp add: same_rest_def\<close>)
  let ?s2 = "s1\<lparr>pathlookup_db := rec_put zero_primary k (f (prim s k)) (pathlookup_db s1)\<rparr>"
  have w: "bindE (read_primary k) (\<lambda>p. pwrite_primary k (f p)) s1 = (Inr (), ?s2)" using t(2) assms(2) pr by (simp add: pst_def)
  have p2: "pst B1 G {x} ?s2" "\<forall>j > 0. prim ?s2 j = (if j = k then f (prim s k) else prim s j)" using t(2) assms(2) pr by (auto simp: pst_def)
  obtain s3 where r: "recycle_page x ?s2 = (Inr (), s3)" "pst B1 (x # G) {} s3" "synced s3" "same_rest ?s2 s3" "\<forall>j. conts B1 (plookup2_pages s3) j = conts B1 (plookup2_pages ?s2) j"
    using recycleE [OF p2(1)] .
  have "prim s3 = prim ?s2" by (rule prim_cong) (use r(4) in \<open>simp add: same_rest_def\<close>)
  then show ?thesis using t w r p2(2) by (intro exI [of _ s3] exI [of _ B1]) (simp add: same_rest_def)
qed

text \<open>A run after which an inode has the other parents \<open>M\<close>, with the flag reset when there are none.\<close>

definition shrinks :: "(lookup_state, unit) sm \<Rightarrow> lookup_state \<Rightarrow> (nat \<Rightarrow> (ino_t \<times> nat list) list) \<Rightarrow> ino_t \<Rightarrow> ino_t multiset \<Rightarrow> bool" where
  "shrinks m s B i M \<longleftrightarrow> (\<exists>s' B' G'. m s = (Inr (), s') \<and> pst B' G' {} s' \<and> synced s' \<and> pathlookup_data_lock s' = pathlookup_data_lock s \<and> dirstat_lookup_db s' = dirstat_lookup_db s \<and>
     mset (conts B' (plookup2_pages s') i) = M \<and> (\<forall>j. j \<noteq> i \<longrightarrow> conts B' (plookup2_pages s') j = conts B (plookup2_pages s) j) \<and>
     (\<forall>j > 0. prim s' j = (if j = i \<and> M = {#} then (prim s i)\<lparr>haveothers := False\<rparr> else prim s j)))"

lemma becomes_shrinks:
  assumes "becomes m s B i M" and "M \<noteq> {#}"
  shows "shrinks m s B i M"
proof -
  obtain s' B' G' where t: "m s = (Inr (), s')" "pst B' G' {} s'" "synced s'" "same_rest s s'" "mset (conts B' (plookup2_pages s') i) = M"
      "\<forall>j. j \<noteq> i \<longrightarrow> conts B' (plookup2_pages s') j = conts B (plookup2_pages s) j"
    using becomesE [OF assms(1)] .
  have "prim s' = prim s" by (rule prim_cong) (use t(4) in \<open>simp add: same_rest_def\<close>)
  then show ?thesis unfolding shrinks_def using t assms(2) by (intro exI [of _ s'] exI [of _ B'] exI [of _ G']) (simp add: same_rest_def)
qed

lemma page_nonempty: "plookup_page_ok g \<Longrightarrow> page_parents g \<noteq> []"
  by (auto simp: plookup_page_ok_def page_parents_def)

lemma ichain_nonempty: "ichain P i ps q \<Longrightarrow> ps \<noteq> [] \<Longrightarrow> pars P ps \<noteq> []"
  using page_nonempty by (cases ps) auto

lemma delete_from_page_run:
  assumes s: "pst B G {} s" and y: "synced s" and i: "0 < i" and b: "B (hash_of i) = as @ entry i (us @ x # vs) @ bs" "i \<notin> fst ` set (as @ bs)"
    and g: "plookup2_pages s x = Some g" and p: "p \<in> set (page_parents g)"
  shows "shrinks (delete_from_page i p (blast 0 as) (last_or 0 us) x g) s B i (mset (conts B (plookup2_pages s) i) - {#p#})"
proof -
  let ?P = "plookup2_pages s" and ?m = "delete_from_page i p (blast 0 as) (last_or 0 us) x g" and ?M = "mset (conts B (plookup2_pages s) i) - {#p#}"
  have v: "pinv B G {} (parent_lookup_head s) ?P (plookup2_end s)" using s by (simp add: pst_def)
  note part = entry_parts [OF v refl b(1), simplified]
  have ok: "plookup_page_ok g" "nextpage g = first_or 0 vs" and ch: "ichain ?P i us x" "ichain ?P i vs 0" using part(2) g by auto
  have z: "0 \<notin> set us" "0 \<notin> set vs" using ichain_0 [OF ch(1)] ichain_0 [OF ch(2)] by simp_all
  have c: "mset (conts B ?P i) = mset (pars ?P us) + mset (page_parents g) + mset (pars ?P vs)" using conts_entry [where B = B, OF b] g by simp
  show ?thesis
  proof (cases "num_parents g > 1")
    case True
    let ?g = "drop_parent (index_of p (page_parents g)) g"
    note d = page_parents_drop [OF ok(1) p True]
    have m: "mset (pars ?P us) + mset (page_parents ?g) + mset (pars ?P vs) = ?M" using c d(1) p by (simp add: multiset_eq_iff)
    have "becomes (pwrite_page ?g x) s B i ?M" using page_change_run [where g' = ?g, OF s y refl b refl g d(2)] m by (simp add: drop_parent_def Let_def)
    moreover have "?M \<noteq> {#}" using page_nonempty [OF d(2)] unfolding m [symmetric] by simp
    ultimately show ?thesis using becomes_shrinks becomes_cong [of "pwrite_page ?g x" s B i ?M ?m] True by (simp add: delete_from_page_def)
  next
    case False
    then have one: "page_parents g = [p]" using ok(1) p by (cases "parents g") (auto simp: plookup_page_ok_def page_parents_def take_Cons' split: if_splits)
    have M: "?M = mset (pars ?P (us @ vs))" unfolding c one by simp
    have r: "?m = bindE (if us = [] \<and> vs = [] then unlink_inode i (blast 0 as) g else unlink_page i (blast 0 as) (last_or 0 us) g) (\<lambda>_. recycle_page x)"
      using False z ok(2) by (simp add: delete_from_page_def)
    show ?thesis
    proof (cases "us = [] \<and> vs = []")
      case True
      then have "taken_out (unlink_from_hash i (blast 0 as) g) s B G x i []" using unlink_only_page [OF s refl _ b(2) g] b(1) by simp
      note t = taken_out_primary [OF this i, of "\<lambda>p. p\<lparr>haveothers := False\<rparr>", folded unlink_inode_eq]
      have "?M = {#}" "?m s = bindE (unlink_inode i (blast 0 as) g) (\<lambda>_. recycle_page x) s" using M r True by simp_all
      then show ?thesis unfolding shrinks_def using t by (elim exE) (intro exI, auto)
    next
      case ne: False
      have t: "taken_out (unlink_page i (blast 0 as) (last_or 0 us) g) s B G x i (pars ?P (us @ vs))"
        using unlink_later_page [OF s refl b g] unlink_first_page [OF s refl _ b(2) g, of vs] b(1) ne by (cases "us = []") (auto simp: last_or_def)
      have "pars ?P (us @ vs) \<noteq> []" using ne ichain_nonempty [OF ch(1)] ichain_nonempty [OF ch(2)] by auto
      then have "shrinks (bindE (unlink_page i (blast 0 as) (last_or 0 us) g) (\<lambda>_. recycle_page x)) s B i (mset (pars ?P (us @ vs)))"
        by (intro becomes_shrinks [OF recycled [OF t]]) simp
      then show ?thesis using ne M unfolding r by (simp only: if_False)
    qed
  qed
qed

subsection \<open>Specification\<close>

text \<open>
  The first parent (\<open>0\<close> if there is none), whether the other parents are shown, and the other parents.  The flag hides other parents only after \<^verbatim>\<open>pathlookup_write_parent\<close>.
\<close>

type_synonym parents_view = "ino_t \<Rightarrow> ino_t \<times> bool \<times> ino_t multiset"

definition add_spec :: "ino_t \<Rightarrow> ino_t \<Rightarrow> parents_view \<Rightarrow> parents_view" where
  "add_spec i p a = (case a i of (q, f, M) \<Rightarrow> a(i := if q = 0 then (p, f, M) else (q, True, M + {#p#})))"

definition delete_parent_spec :: "ino_t \<Rightarrow> ino_t \<Rightarrow> parents_view \<Rightarrow> (failure + unit) \<times> parents_view" where
  "delete_parent_spec i p a = (case a i of (q, f, M) \<Rightarrow>
     if q = p then (Inr (), a(i := (0, f, M)))
     else if \<not> f then (Inl (Errno ENOENT), a)
     else if p \<in># M then (Inr (), a(i := (q, M - {#p#} \<noteq> {#}, M - {#p#})))
     else (Inl (Errno ENOENT), a(i := (q, M \<noteq> {#}, M))))"

definition replace_spec :: "ino_t \<Rightarrow> ino_t \<Rightarrow> ino_t \<Rightarrow> parents_view \<Rightarrow> (failure + unit) \<times> parents_view" where
  "replace_spec i p p' a = (case a i of (q, f, M) \<Rightarrow>
     if q = p then (Inr (), a(i := (p', f, M)))
     else if f \<and> p \<in># M then (Inr (), a(i := (q, f, M - {#p#} + {#p'#})))
     else (Inl (Errno ENOENT), a))"

definition fetch_spec :: "ino_t \<Rightarrow> parents_view \<Rightarrow> ino_t list \<Rightarrow> bool" where
  "fetch_spec i a xs \<longleftrightarrow> (case a i of (q, f, M) \<Rightarrow> \<exists>ys. xs = (if q = 0 then [] else [q]) @ ys \<and> mset ys = (if f then M else {#}))"

definition pview :: "(nat \<Rightarrow> (ino_t \<times> nat list) list) \<Rightarrow> lookup_state \<Rightarrow> parents_view" where
  "pview B s i = (parentinode (prim s i), haveothers (prim s i), mset (conts B (plookup2_pages s) i))"

definition prel_at :: "nat \<Rightarrow> parents_view \<Rightarrow> lookup_state \<Rightarrow> bool" where
  "prel_at n a s \<longleftrightarrow> pathlookup_data_lock s = n \<and> synced s \<and> (\<exists>B G. pst B G {} s \<and> (\<forall>i > 0. a i = pview B s i))"

lemma prel_atE:
  assumes "prel_at n a s"
  obtains B G where "pathlookup_data_lock s = n" "synced s" "pst B G {} s" "\<forall>i > 0. a i = pview B s i" "pl_os s = []" "pathlookup_db s \<noteq> None"
  using assms by (auto simp: prel_at_def pst_def)

subsection \<open>The calls against the specification\<close>

text \<open>Writing a primary record.\<close>

lemma primary_step:
  assumes p: "pst B G {} s" "synced s" and i: "0 < i" and s': "s' = s\<lparr>pathlookup_db := rec_put zero_primary i r (pathlookup_db s)\<rparr>"
  shows "pst B G {} s'" "synced s'" "\<forall>j > 0. pview B s' j = (if j = i then (parentinode r, haveothers r, mset (conts B (plookup2_pages s) i)) else pview B s j)"
  using p i unfolding s' by (auto simp: pst_def synced_def pview_def)

lemma primary_served:
  assumes "prel_at n a s" and i: "0 < i" and r: "a' = a(i := (parentinode r, haveothers r, snd (snd (a i))))"
  shows "\<exists>s'. pwrite_primary i r s = (Inr (), s') \<and> prel_at n a' s' \<and> dirstat_lookup_db s' = dirstat_lookup_db s"
proof -
  obtain B G where s: "pathlookup_data_lock s = n" "synced s" "pst B G {} s" "\<forall>i > 0. a i = pview B s i" "pl_os s = []" "pathlookup_db s \<noteq> None" using prel_atE [OF assms(1)] .
  let ?s = "s\<lparr>pathlookup_db := rec_put zero_primary i r (pathlookup_db s)\<rparr>"
  note st = primary_step [OF s(3,2) i refl, of r]
  have "\<forall>j > 0. a' j = pview B ?s j" using st(3) s(4) i r by (auto simp: pview_def)
  then have "prel_at n a' ?s" unfolding prel_at_def using st(1,2) s(1) by auto
  then show ?thesis using s(5) i by auto
qed

lemma prel_prim: "prel_at n a s \<Longrightarrow> 0 < i \<Longrightarrow> a i = (q, f, M) \<Longrightarrow> prim s i = \<lparr>parentinode = q, haveothers = f\<rparr>"
  by (auto simp: prel_at_def pview_def)

lemma becomes_served:
  assumes s: "pathlookup_data_lock s = n" "\<forall>j > 0. a j = pview B s j" and m: "becomes m s B i M" and i: "0 < i" and a': "a' = a(i := (fst (a i), fst (snd (a i)), M))"
  shows "\<exists>s'. m s = (Inr (), s') \<and> prel_at n a' s' \<and> dirstat_lookup_db s' = dirstat_lookup_db s"
proof -
  obtain s' B' G' where t: "m s = (Inr (), s')" "pst B' G' {} s'" "synced s'" "same_rest s s'" "mset (conts B' (plookup2_pages s') i) = M"
      "\<forall>j. j \<noteq> i \<longrightarrow> conts B' (plookup2_pages s') j = conts B (plookup2_pages s) j"
    using becomesE [OF m] .
  have "prim s' = prim s" by (rule prim_cong) (use t(4) in \<open>simp add: same_rest_def\<close>)
  then have "\<forall>j > 0. a' j = pview B' s' j" using s(2) i t(5,6) a' by (auto simp: pview_def)
  then have "prel_at n a' s'" unfolding prel_at_def using t s(1) by (auto simp: same_rest_def)
  then show ?thesis using t(1,4) by (auto simp: same_rest_def)
qed

lemma add_served:
  assumes "prel_at 0 a s" and i: "0 < i" and p: "0 < p"
  shows "\<exists>s'. lookup_add_parent i p s = (Inr (), s') \<and> prel_at 0 (add_spec i p a) s' \<and> dirstat_lookup_db s' = dirstat_lookup_db s"
proof -
  obtain B G where s: "pathlookup_data_lock s = 0" "synced s" "pst B G {} s" "\<forall>i > 0. a i = pview B s i" "pl_os s = []" "pathlookup_db s \<noteq> None" using prel_atE [OF assms(1)] .
  obtain q f M where ai: "a i = (q, f, M)" by (cases "a i")
  have pr: "prim s i = \<lparr>parentinode = q, haveothers = f\<rparr>" using prel_prim [OF assms(1) i ai] .
  have M: "mset (conts B (plookup2_pages s) i) = M" using s(4) i ai by (simp add: pview_def)
  show ?thesis
  proof (cases "q = 0")
    case True
    then show ?thesis using primary_served [OF assms(1) i, of "add_spec i p a" "\<lparr>parentinode = p, haveothers = f\<rparr>"] i p s pr ai
      by (simp add: lookup_add_parent_def add_spec_def)
  next
    case False
    let ?s = "if f then s else s\<lparr>pathlookup_db := rec_put zero_primary i \<lparr>parentinode = q, haveothers = True\<rparr> (pathlookup_db s)\<rparr>"
    note st = primary_step [OF s(3,2) i refl, of "\<lparr>parentinode = q, haveothers = True\<rparr>"]
    have t: "pst B G {} ?s" "synced ?s" "pathlookup_data_lock ?s = 0" "plookup2_pages ?s = plookup2_pages s" using st(1,2) s by auto
    have v: "\<forall>j > 0. (a(i := (q, True, M))) j = pview B ?s j" using st(3) s(4) i ai M by (cases f) (auto simp: pview_def)
    have "(if f then returnE () else pwrite_primary i \<lparr>parentinode = q, haveothers = True\<rparr>) s = (Inr (), ?s)" using s(5) i by simp
    then have r: "lookup_add_parent i p s = add_secondary i p ?s"
      using i p s(1,5) pr False by (simp add: lookup_add_parent_def add_secondary_def)
    have m: "becomes (add_secondary i p) ?s B i (M + {#p#})" using add_secondary_run [OF t(1,2), of i p] M t(4) by simp
    have "\<exists>s'. add_secondary i p ?s = (Inr (), s') \<and> prel_at 0 (add_spec i p a) s' \<and> dirstat_lookup_db s' = dirstat_lookup_db ?s"
      by (rule becomes_served [where B = B, OF t(3) v m i]) (use ai False in \<open>simp add: add_spec_def fun_eq_iff\<close>)
    then show ?thesis unfolding r by auto
  qed
qed

text \<open>Where the second file holds a parent of an inode, if it does.\<close>

lemma secondary_cases:
  assumes s: "pst B G {} s"
  obtains (none) l where "conts B (plookup2_pages s) i = []" "find_first_page i s = (Inr (l, 0, zero_plookup_page), s)"
  | (hit) as us x vs bs g where "p \<in> set (conts B (plookup2_pages s) i)" "B (hash_of i) = as @ entry i (us @ x # vs) @ bs" "i \<notin> fst ` set (as @ bs)" "plookup2_pages s x = Some g"
      "p \<in> set (page_parents g)" "plookup_page_ok g" "x \<noteq> 0" "find_first_page i s = (Inr (blast 0 as, hd (us @ [x]), the (plookup2_pages s (hd (us @ [x])))), s)" "hd (us @ [x]) \<noteq> 0"
      "or_hang (walk_inode (\<lambda>g. p \<in> set (page_parents g)) 0 (hd (us @ [x])) (the (plookup2_pages s (hd (us @ [x]))))) s = (Inr (last_or 0 us, x, g), s)"
  | (miss) l p0 g0 l' g where "p \<notin> set (conts B (plookup2_pages s) i)" "conts B (plookup2_pages s) i \<noteq> []" "find_first_page i s = (Inr (l, p0, g0), s)" "p0 \<noteq> 0"
      "or_hang (walk_inode (\<lambda>g. p \<in> set (page_parents g)) 0 p0 g0) s = (Inr (l', 0, g), s)"
proof -
  let ?P = "plookup2_pages s"
  have v: "pinv B G {} (parent_lookup_head s) ?P (plookup2_end s)" using s by (simp add: pst_def)
  obtain as ps bs where b: "B (hash_of i) = as @ entry i ps @ bs" "i \<notin> fst ` set (as @ bs)" using entry_cases [OF v] .
  have c: "conts B ?P i = pars ?P ps" using conts_entry [where B = B, OF b] .
  show thesis
  proof (cases "ps = []")
    case True
    then have "i \<notin> fst ` set (B (hash_of i))" using b by (simp add: entry_def)
    then show thesis using none c True find_first_page_miss [OF s] by simp
  next
    case ne: False
    have f: "find_first_page i s = (Inr (blast 0 as, hd ps, the (?P (hd ps))), s)" using find_first_page_hit [OF s, of i as ps bs] b(1) ne by (simp add: entry_def)
    have ch: "ichain ?P i ps 0" using entry_parts(2) [OF v refl b(1) ne] .
    have h0: "hd ps \<noteq> 0" using ch ne by (cases ps) auto
    show thesis
    proof (cases rule: walk_cases [where C = "\<lambda>g. p \<in> set (page_parents g)", OF s refl b(1) ne])
      case (1 us x vs g)
      have "hd ps = hd (us @ [x])" using 1(1) by (cases us) simp_all
      then show thesis using hit [of as us x vs bs g] 1 b c f h0 by simp
    next
      case (2 g)
      then have "p \<notin> set (conts B ?P i)" unfolding c by (auto simp: pars_def)
      moreover have "conts B ?P i \<noteq> []" using ichain_nonempty [OF ch ne] c by simp
      ultimately show thesis using miss [OF _ _ f h0 2(2)] by simp
    qed
  qed
qed

lemma delete_served:
  assumes "prel_at 0 a s" and i: "0 < i" and p: "0 < p"
  shows "\<exists>s'. lookup_delete_parent i p s = (fst (delete_parent_spec i p a), s') \<and> prel_at 0 (snd (delete_parent_spec i p a)) s' \<and> dirstat_lookup_db s' = dirstat_lookup_db s"
proof -
  obtain B G where s: "pathlookup_data_lock s = 0" "synced s" "pst B G {} s" "\<forall>i > 0. a i = pview B s i" "pl_os s = []" "pathlookup_db s \<noteq> None" using prel_atE [OF assms(1)] .
  obtain q f M where ai: "a i = (q, f, M)" by (cases "a i")
  have pr: "prim s i = \<lparr>parentinode = q, haveothers = f\<rparr>" using prel_prim [OF assms(1) i ai] .
  have M: "mset (conts B (plookup2_pages s) i) = M" using s(4) i ai by (simp add: pview_def)
  then have pM: "p \<in># M \<longleftrightarrow> p \<in> set (conts B (plookup2_pages s) i)" by (metis set_mset_mset)
  consider (first) "q = p" | (hidden) "q \<noteq> p" "\<not> f" | (second) "q \<noteq> p" f by blast
  then show ?thesis
  proof cases
    case first
    then show ?thesis using primary_served [OF assms(1) i, of "a(i := (0, f, M))" "\<lparr>parentinode = 0, haveothers = f\<rparr>"] i p s pr ai
      by (simp add: lookup_delete_parent_def delete_parent_spec_def)
  next
    case hidden
    then show ?thesis using assms(1) i p s pr ai by (simp add: lookup_delete_parent_def delete_parent_spec_def)
  next
    case second
    show ?thesis
    proof (cases rule: secondary_cases [where i = i and p = p, OF s(3)])
      case none: (1 l)
      then have e: "M = {#}" using M by simp
      then show ?thesis using primary_served [OF assms(1) i, of "a(i := (q, False, M))" "\<lparr>parentinode = q, haveothers = False\<rparr>"] none second i p s pr ai
        by (auto simp: lookup_delete_parent_def delete_parent_spec_def)
    next
      case hit: (2 as us x vs bs g)
      let ?m = "delete_from_page i p (blast 0 as) (last_or 0 us) x g" and ?M = "M - {#p#}"
      have r: "lookup_delete_parent i p s = ?m s" using hit second i p s pr by (simp add: lookup_delete_parent_def)
      have "shrinks ?m s B i ?M" using delete_from_page_run [OF s(3,2) i hit(2,3,4,5)] M by simp
      then obtain s' B' G' where t: "?m s = (Inr (), s')" "pst B' G' {} s'" "synced s'" "pathlookup_data_lock s' = 0" "mset (conts B' (plookup2_pages s') i) = ?M"
          "\<forall>j. j \<noteq> i \<longrightarrow> conts B' (plookup2_pages s') j = conts B (plookup2_pages s) j" "\<forall>j > 0. prim s' j = (if j = i \<and> ?M = {#} then (prim s i)\<lparr>haveothers := False\<rparr> else prim s j)" "dirstat_lookup_db s' = dirstat_lookup_db s"
        unfolding shrinks_def s(1) by blast
      have "\<forall>j > 0. (a(i := (q, ?M \<noteq> {#}, ?M))) j = pview B' s' j" using s(4) i t(5,6,7) pr second by (auto simp: pview_def)
      then have "prel_at 0 (a(i := (q, ?M \<noteq> {#}, ?M))) s'" unfolding prel_at_def using t(2,3,4) by blast
      then show ?thesis using r t(1,8) second ai pM hit(1) by (simp add: delete_parent_spec_def)
    next
      case miss: (3 l p0 g0 l' g)
      then have "M \<noteq> {#}" using M by auto
      then have "a(i := (q, M \<noteq> {#}, M)) = a" using ai second by auto
      then show ?thesis using assms(1) miss second i p s pr ai pM by (simp add: lookup_delete_parent_def delete_parent_spec_def)
    qed
  qed
qed

lemma replace_served:
  assumes "prel_at 0 a s" and i: "0 < i" and p: "0 < p" "0 < p'"
  shows "\<exists>s'. lookup_replace_parent i p p' s = (fst (replace_spec i p p' a), s') \<and> prel_at 0 (snd (replace_spec i p p' a)) s' \<and> dirstat_lookup_db s' = dirstat_lookup_db s"
proof -
  obtain B G where s: "pathlookup_data_lock s = 0" "synced s" "pst B G {} s" "\<forall>i > 0. a i = pview B s i" "pl_os s = []" "pathlookup_db s \<noteq> None" using prel_atE [OF assms(1)] .
  obtain q f M where ai: "a i = (q, f, M)" by (cases "a i")
  have pr: "prim s i = \<lparr>parentinode = q, haveothers = f\<rparr>" using prel_prim [OF assms(1) i ai] .
  have M: "mset (conts B (plookup2_pages s) i) = M" using s(4) i ai by (simp add: pview_def)
  then have pM: "p \<in># M \<longleftrightarrow> p \<in> set (conts B (plookup2_pages s) i)" by (metis set_mset_mset)
  consider (first) "q = p" | (hidden) "q \<noteq> p" "\<not> f" | (second) "q \<noteq> p" f by blast
  then show ?thesis
  proof cases
    case first
    then show ?thesis using primary_served [OF assms(1) i, of "a(i := (p', f, M))" "\<lparr>parentinode = p', haveothers = f\<rparr>"] i p s pr ai
      by (simp add: lookup_replace_parent_def replace_spec_def)
  next
    case hidden
    then show ?thesis using assms(1) i p s pr ai by (simp add: lookup_replace_parent_def replace_spec_def)
  next
    case second
    show ?thesis
    proof (cases rule: secondary_cases [where i = i and p = p, OF s(3)])
      case none: (1 l)
      then show ?thesis using assms(1) second i p s pr ai pM by (simp add: lookup_replace_parent_def replace_spec_def)
    next
      case hit: (2 as us x vs bs g)
      let ?g = "g\<lparr>parents := (parents g)[index_of p (page_parents g) := p']\<rparr>" and ?P = "plookup2_pages s"
      note rp = page_parents_replace [OF hit(6,5), of p']
      have r: "lookup_replace_parent i p p' s = pwrite_page ?g x s" using hit second i p s pr by (simp add: lookup_replace_parent_def)
      have "M = mset (pars ?P us) + mset (page_parents g) + mset (pars ?P vs)" using conts_entry [where B = B, OF hit(2,3), of ?P] hit(4) M by (simp add: ac_simps)
      moreover obtain N where "mset (page_parents g) = add_mset p N" using hit(5) by (metis set_mset_mset multi_member_split)
      ultimately have m: "mset (pars ?P us) + mset (page_parents ?g) + mset (pars ?P vs) = M - {#p#} + {#p'#}" using rp(1) by simp
      have w: "becomes (pwrite_page ?g x) s B i (M - {#p#} + {#p'#})" using page_change_run [where g' = ?g, OF s(3,2) refl hit(2,3) refl hit(4) rp(2)] m by simp
      have "\<exists>s'. pwrite_page ?g x s = (Inr (), s') \<and> prel_at 0 (a(i := (q, f, M - {#p#} + {#p'#}))) s' \<and> dirstat_lookup_db s' = dirstat_lookup_db s"
        by (rule becomes_served [where B = B, OF s(1,4) w i]) (use ai in simp)
      then show ?thesis using r second ai pM hit(1) by (simp add: replace_spec_def)
    next
      case miss: (3 l p0 g0 l' g)
      then show ?thesis using assms(1) second i p s pr ai pM by (simp add: lookup_replace_parent_def replace_spec_def)
    qed
  qed
qed

lemma fetch_served:
  assumes "prel_at 0 a s" and i: "0 < i"
  shows "\<exists>xs. fetch_all_parents i s = (Inr xs, s) \<and> fetch_spec i a xs"
proof -
  obtain B G where s: "pathlookup_data_lock s = 0" "synced s" "pst B G {} s" "\<forall>i > 0. a i = pview B s i" "pl_os s = []" "pathlookup_db s \<noteq> None" using prel_atE [OF assms(1)] .
  obtain q f M where ai: "a i = (q, f, M)" by (cases "a i")
  have pr: "prim s i = \<lparr>parentinode = q, haveothers = f\<rparr>" using prel_prim [OF assms(1) i ai] .
  let ?P = "plookup2_pages s" and ?l = "if q = 0 then [] else [q]"
  have M: "mset (conts B ?P i) = M" using s(4) i ai by (simp add: pview_def)
  have v: "pinv B G {} (parent_lookup_head s) ?P (plookup2_end s)" using s(3) by (simp add: pst_def)
  obtain as ps bs where b: "B (hash_of i) = as @ entry i ps @ bs" "i \<notin> fst ` set (as @ bs)" using entry_cases [OF v] .
  have c: "conts B ?P i = pars ?P ps" using conts_entry [where B = B, OF b] .
  have "\<exists>g n. find_first_page i s = (Inr (n, first_or 0 ps, g), s) \<and> (ps \<noteq> [] \<longrightarrow> first_or 0 ps \<noteq> 0 \<and> or_hang (collect_pages 10 ?l g) s = (Inr (?l @ pars ?P ps), s))"
  proof (cases ps)
    case Nil
    then have "i \<notin> fst ` set (B (hash_of i))" using b by (simp add: entry_def)
    then show ?thesis using find_first_page_miss [OF s(3)] Nil by simp
  next
    case (Cons p qs)
    note part = entry_parts [OF v refl b(1), unfolded Cons, simplified]
    have o: "ichain ?P i (p # qs) 0" "set (p # qs) \<subseteq> powned B" using part(2,6) by auto
    have f: "find_first_page i s = (Inr (blast 0 as, p, the (?P p)), s)" using find_first_page_hit [OF s(3), of i as ps bs] b(1) Cons by (simp add: entry_def)
    show ?thesis using f collect_pages_run [OF s(3) o, of 10 ?l] o(1) Cons by (simp add: or_hang_def pars_def)
  qed
  then obtain g n where f: "find_first_page i s = (Inr (n, first_or 0 ps, g), s)" "ps \<noteq> [] \<Longrightarrow> first_or 0 ps \<noteq> 0 \<and> or_hang (collect_pages 10 ?l g) s = (Inr (?l @ pars ?P ps), s)" by blast
  have rd: "pread_primary i s = (Inr (rec_at (pathlookup_db s) i), s)" using s(5) i by (simp add: pread_primary_def)
  have l: "(if 0 < q then [q] else []) = ?l" by simp
  have "fetch_all_parents i s = (Inr (?l @ (if f then pars ?P ps else [])), s)"
    using f pr rd i s(1,5) l by (cases "rec_at (pathlookup_db s) i"; cases "ps = []") (auto simp: fetch_all_parents_def prim_def zero_primary_def Let_def simp del: l)
  moreover have "fetch_spec i a (?l @ (if f then pars ?P ps else []))" using ai M c by (simp add: fetch_spec_def)
  ultimately show ?thesis by blast
qed

subsection \<open>Requests\<close>

text \<open>
  The calls as their callers make them, between taking the lock and giving it back, and a restart of the program, which loses what is in memory.
\<close>

datatype parent_req = Add_Parent ino_t ino_t | Delete_Parent ino_t ino_t | Replace_Parent ino_t ino_t ino_t | Fetch_Parents ino_t | Write_Parent ino_t ino_t | Read_Parent ino_t | Restart

datatype parent_reply = Parents_Done | Parents_List "ino_t list" | Parents_Errno errno

definition parent_answer :: "('a \<Rightarrow> parent_reply) \<Rightarrow> (lookup_state, 'a) sm \<Rightarrow> (lookup_state, parent_reply) sm" where
  "parent_answer f m = (\<lambda>s. case m s of (Inr x, s') \<Rightarrow> (Inr (f x), s') | (Inl (Errno e), s') \<Rightarrow> (Inr (Parents_Errno e), s') | (Inl g, s') \<Rightarrow> (Inl g, s'))"

definition restart_lookup :: "(lookup_state, unit) sm" where
  "restart_lookup = bindE (modifyE (\<lambda>s. s\<lparr>parent_lookup_head := zero_plookup_head, pathlookup_data_lock := 0\<rparr>)) (\<lambda>_. init_pathlookup)"

fun handle_parent :: "parent_req \<Rightarrow> (lookup_state, parent_reply) sm" where
  "handle_parent (Add_Parent i p) = parent_answer (\<lambda>_. Parents_Done) (pl_locked (lookup_add_parent i p))"
| "handle_parent (Delete_Parent i p) = parent_answer (\<lambda>_. Parents_Done) (pl_locked (lookup_delete_parent i p))"
| "handle_parent (Replace_Parent i p q) = parent_answer (\<lambda>_. Parents_Done) (pl_locked (lookup_replace_parent i p q))"
| "handle_parent (Fetch_Parents i) = parent_answer Parents_List (pl_locked (fetch_all_parents i))"
| "handle_parent (Write_Parent i p) = parent_answer (\<lambda>_. Parents_Done) (pathlookup_write_parent i p)"
| "handle_parent (Read_Parent i) = parent_answer (\<lambda>p. Parents_List [p]) (pathlookup_read_parent i)"
| "handle_parent Restart = parent_answer (\<lambda>_. Parents_Done) restart_lookup"

definition outcome_spec :: "(failure + unit) \<times> parents_view \<Rightarrow> parent_reply \<times> parents_view \<Rightarrow> bool" where
  "outcome_spec o' r \<longleftrightarrow> (case o' of (Inr _, a') \<Rightarrow> r = (Parents_Done, a') | (Inl (Errno e), a') \<Rightarrow> r = (Parents_Errno e, a') | _ \<Rightarrow> False)"

fun parent_spec :: "parent_req \<Rightarrow> parents_view \<Rightarrow> parent_reply \<times> parents_view \<Rightarrow> bool" where
  "parent_spec (Add_Parent i p) a r \<longleftrightarrow> r = (if i = 0 \<or> p = 0 then (Parents_Errno EINVAL, a) else (Parents_Done, add_spec i p a))"
| "parent_spec (Delete_Parent i p) a r \<longleftrightarrow> (if i = 0 \<or> p = 0 then r = (Parents_Errno EINVAL, a) else outcome_spec (delete_parent_spec i p a) r)"
| "parent_spec (Replace_Parent i p q) a r \<longleftrightarrow> (if i = 0 \<or> p = 0 \<or> q = 0 then r = (Parents_Errno EINVAL, a) else outcome_spec (replace_spec i p q a) r)"
| "parent_spec (Fetch_Parents i) a r \<longleftrightarrow> (if i = 0 then r = (Parents_Errno EINVAL, a) else \<exists>xs. r = (Parents_List xs, a) \<and> fetch_spec i a xs)"
| "parent_spec (Write_Parent i p) a r \<longleftrightarrow> r = (if i = 0 then (Parents_Errno EINVAL, a) else (Parents_Done, a(i := (p, False, snd (snd (a i))))))"
| "parent_spec (Read_Parent i) a r \<longleftrightarrow> r = (if i = 0 then (Parents_Errno EINVAL, a) else (Parents_List [fst (a i)], a))"
| "parent_spec Restart a r \<longleftrightarrow> r = (Parents_Done, a)"

lemma prel_lock: "prel_at n a s \<Longrightarrow> prel_at k a (s\<lparr>pathlookup_data_lock := k\<rparr>)"
  by (simp add: prel_at_def pst_def synced_def pview_def prim_def)

lemma parent_locked_run:
  assumes "prel_at 1 a s" and "m (s\<lparr>pathlookup_data_lock := 0\<rparr>) = (r, s')" and "prel_at 0 a' s'" and "r \<noteq> Inl Hang" "r \<noteq> Inl Crash"
  shows "pl_locked m s = (r, s'\<lparr>pathlookup_data_lock := 1\<rparr>)" "prel_at 1 a' (s'\<lparr>pathlookup_data_lock := 1\<rparr>)"
proof -
  have "pathlookup_data_lock s = 1" "pathlookup_data_lock s' = 0" using assms(1,3) by (auto simp: prel_at_def)
  then have w: "pl_wait s = (Inr (), s\<lparr>pathlookup_data_lock := 0\<rparr>)" "snd (pl_post s') = s'\<lparr>pathlookup_data_lock := 1\<rparr>"
    by (simp_all add: pl_wait_def pl_post_def sem_wait_def sem_post_def)
  show "pl_locked m s = (r, s'\<lparr>pathlookup_data_lock := 1\<rparr>)" unfolding pl_locked_def using w assms(2,4,5) by (auto split: sum.split failure.split)
  show "prel_at 1 a' (s'\<lparr>pathlookup_data_lock := 1\<rparr>)" using prel_lock [OF assms(3)] .
qed

text \<open>A call under the lock, answered.\<close>

lemma answered:
  assumes a: "prel_at 1 a s" and m: "m (s\<lparr>pathlookup_data_lock := 0\<rparr>) = (r, s')" "prel_at 0 a' s'" and x: "case r of Inr x \<Rightarrow> y = f x | Inl (Errno e) \<Rightarrow> y = Parents_Errno e | _ \<Rightarrow> False"
  shows "\<exists>s'. parent_answer f (pl_locked m) s = (Inr y, s') \<and> prel_at 1 a' s'"
proof -
  have "r \<noteq> Inl Hang" "r \<noteq> Inl Crash" using x by auto
  note l = parent_locked_run [where m = m, OF a m this]
  then show ?thesis using x by (intro exI [of _ "s'\<lparr>pathlookup_data_lock := 1\<rparr>"]) (auto simp: parent_answer_def split: sum.splits failure.splits)
qed

lemma restart_served:
  assumes "prel_at n a s"
  shows "\<exists>s'. restart_lookup s = (Inr (), s') \<and> prel_at 1 a s'"
proof -
  obtain B G where s: "pathlookup_data_lock s = n" "synced s" "pst B G {} s" "\<forall>i > 0. a i = pview B s i" "pl_os s = []" "pathlookup_db s \<noteq> None" using prel_atE [OF assms] .
  let ?s = "s\<lparr>pathlookup_data_lock := 1\<rparr>"
  have e: "plookup2_exists s" "plookup2_end s \<noteq> 0" "plookup2_head s = parent_lookup_head s" using s(2,3) by (auto simp: pst_def synced_def)
  have "s\<lparr>parent_lookup_head := H, pathlookup_data_lock := 0, pathlookup_data_lock := 1, parent_lookup_head := parent_lookup_head s\<rparr> = ?s" for H by (cases s) simp
  then have "restart_lookup s = (Inr (), ?s)"
    using s(5,6) e by (auto simp: restart_lookup_def init_pathlookup_def pread_plookup_head_def Let_def)
  then show ?thesis using prel_lock [OF assms, of 1] by simp
qed

text \<open>One request, answered as the specification says.\<close>

definition serves :: "parent_req \<Rightarrow> parents_view \<Rightarrow> lookup_state \<Rightarrow> bool" where
  "serves q a s \<longleftrightarrow> (\<exists>y s' a'. handle_parent q s = (Inr y, s') \<and> parent_spec q a (y, a') \<and> prel_at 1 a' s')"

lemma servesI:
  assumes h: "handle_parent q = parent_answer f (pl_locked m)" and a: "prel_at 1 a s" and m: "m (s\<lparr>pathlookup_data_lock := 0\<rparr>) = (r, s')" "prel_at 0 a' s'"
    and x: "case r of Inr x \<Rightarrow> y = f x | Inl (Errno e) \<Rightarrow> y = Parents_Errno e | _ \<Rightarrow> False" and sp: "parent_spec q a (y, a')"
  shows "serves q a s"
  using answered [where m = m, OF a m x] h sp by (auto simp: serves_def)

definition outcome_reply :: "failure + unit \<Rightarrow> parent_reply" where
  "outcome_reply r = (case r of Inl (Errno e) \<Rightarrow> Parents_Errno e | _ \<Rightarrow> Parents_Done)"

lemma outcome_ok:
  assumes "r = Inr () \<or> r = Inl (Errno ENOENT)"
  shows "case r of Inr x \<Rightarrow> outcome_reply r = Parents_Done | Inl (Errno e) \<Rightarrow> outcome_reply r = Parents_Errno e | _ \<Rightarrow> False" and "outcome_spec (r, a') (outcome_reply r, a')"
  using assms by (auto simp: outcome_reply_def outcome_spec_def)

lemma serves_add:
  assumes a: "prel_at 1 a s"
  shows "serves (Add_Parent i p) a s"
proof (cases "i = 0 \<or> p = 0")
  case True
  then have "lookup_add_parent i p (s\<lparr>pathlookup_data_lock := 0\<rparr>) = (Inl (Errno EINVAL), s\<lparr>pathlookup_data_lock := 0\<rparr>)" by (auto simp: lookup_add_parent_def)
  then show ?thesis using prel_lock [OF a] True by (intro servesI [where m = "lookup_add_parent i p", OF handle_parent.simps(1) a]) auto
next
  case False
  then obtain s' where "lookup_add_parent i p (s\<lparr>pathlookup_data_lock := 0\<rparr>) = (Inr (), s')" "prel_at 0 (add_spec i p a) s'" using add_served [OF prel_lock [OF a]] by auto
  then show ?thesis using False by (intro servesI [where m = "lookup_add_parent i p", OF handle_parent.simps(1) a]) auto
qed

lemma serves_delete:
  assumes a: "prel_at 1 a s"
  shows "serves (Delete_Parent i p) a s"
proof (cases "i = 0 \<or> p = 0")
  case True
  then have "lookup_delete_parent i p (s\<lparr>pathlookup_data_lock := 0\<rparr>) = (Inl (Errno EINVAL), s\<lparr>pathlookup_data_lock := 0\<rparr>)" by (auto simp: lookup_delete_parent_def)
  then show ?thesis using prel_lock [OF a] True by (intro servesI [where m = "lookup_delete_parent i p", OF handle_parent.simps(2) a]) auto
next
  case False
  obtain r a' where d: "delete_parent_spec i p a = (r, a')" by (cases "delete_parent_spec i p a")
  have r: "r = Inr () \<or> r = Inl (Errno ENOENT)" using d by (auto simp: delete_parent_spec_def split: prod.splits if_splits)
  obtain s' where "lookup_delete_parent i p (s\<lparr>pathlookup_data_lock := 0\<rparr>) = (r, s')" "prel_at 0 a' s'" using delete_served [OF prel_lock [OF a], of i p] False d by auto
  then show ?thesis using False d outcome_ok(2) [OF r, of a'] by (intro servesI [where m = "lookup_delete_parent i p", OF handle_parent.simps(2) a _ _ outcome_ok(1) [OF r]]) simp_all
qed

lemma serves_replace:
  assumes a: "prel_at 1 a s"
  shows "serves (Replace_Parent i p p') a s"
proof (cases "i = 0 \<or> p = 0 \<or> p' = 0")
  case True
  then have "lookup_replace_parent i p p' (s\<lparr>pathlookup_data_lock := 0\<rparr>) = (Inl (Errno EINVAL), s\<lparr>pathlookup_data_lock := 0\<rparr>)" by (auto simp: lookup_replace_parent_def)
  then show ?thesis using prel_lock [OF a] True by (intro servesI [where m = "lookup_replace_parent i p p'", OF handle_parent.simps(3) a]) auto
next
  case False
  obtain r a' where d: "replace_spec i p p' a = (r, a')" by (cases "replace_spec i p p' a")
  have r: "r = Inr () \<or> r = Inl (Errno ENOENT)" using d by (auto simp: replace_spec_def split: prod.splits if_splits)
  obtain s' where "lookup_replace_parent i p p' (s\<lparr>pathlookup_data_lock := 0\<rparr>) = (r, s')" "prel_at 0 a' s'" using replace_served [OF prel_lock [OF a], of i p p'] False d by auto
  then show ?thesis using False d outcome_ok(2) [OF r, of a'] by (intro servesI [where m = "lookup_replace_parent i p p'", OF handle_parent.simps(3) a _ _ outcome_ok(1) [OF r]]) simp_all
qed

lemma serves_fetch:
  assumes a: "prel_at 1 a s"
  shows "serves (Fetch_Parents i) a s"
proof (cases "i = 0")
  case True
  then have "fetch_all_parents i (s\<lparr>pathlookup_data_lock := 0\<rparr>) = (Inl (Errno EINVAL), s\<lparr>pathlookup_data_lock := 0\<rparr>)" by (auto simp: fetch_all_parents_def)
  then show ?thesis using prel_lock [OF a] True by (intro servesI [where m = "fetch_all_parents i", OF handle_parent.simps(4) a]) auto
next
  case False
  then obtain xs where "fetch_all_parents i (s\<lparr>pathlookup_data_lock := 0\<rparr>) = (Inr xs, s\<lparr>pathlookup_data_lock := 0\<rparr>)" "fetch_spec i a xs" using fetch_served [OF prel_lock [OF a], of i] by auto
  then show ?thesis using False prel_lock [OF a] by (intro servesI [where m = "fetch_all_parents i", OF handle_parent.simps(4) a]) auto
qed

lemma serves_write:
  assumes a: "prel_at 1 a s"
  shows "serves (Write_Parent i p) a s"
proof -
  let ?m = "pwrite_primary i \<lparr>parentinode = p, haveothers = False\<rparr>"
  have h: "handle_parent (Write_Parent i p) = parent_answer (\<lambda>_. Parents_Done) (pl_locked ?m)" by (simp add: pathlookup_write_parent_def)
  have os: "pl_os s = []" using a by (auto simp: prel_at_def pst_def)
  show ?thesis
  proof (cases "i = 0")
    case True
    then have "?m (s\<lparr>pathlookup_data_lock := 0\<rparr>) = (Inl (Errno EINVAL), s\<lparr>pathlookup_data_lock := 0\<rparr>)" using os by (simp add: pwrite_primary_def)
    then show ?thesis using True prel_lock [OF a] by (intro servesI [where m = ?m, OF h a]) auto
  next
    case False
    then obtain s' where "?m (s\<lparr>pathlookup_data_lock := 0\<rparr>) = (Inr (), s')" "prel_at 0 (a(i := (p, False, snd (snd (a i))))) s'"
      using primary_served [OF prel_lock [OF a], of i "a(i := (p, False, snd (snd (a i))))" "\<lparr>parentinode = p, haveothers = False\<rparr>"] by auto
    then show ?thesis using False by (intro servesI [where m = ?m, OF h a]) auto
  qed
qed

lemma serves_read:
  assumes a: "prel_at 1 a s"
  shows "serves (Read_Parent i) a s"
proof -
  let ?m = "bindE (read_primary i) (\<lambda>p. returnE (parentinode p))"
  have h: "handle_parent (Read_Parent i) = parent_answer (\<lambda>p. Parents_List [p]) (pl_locked ?m)" by (simp add: pathlookup_read_parent_def)
  have os: "pl_os s = []" using a by (auto simp: prel_at_def pst_def)
  show ?thesis
  proof (cases "i = 0")
    case True
    then have "?m (s\<lparr>pathlookup_data_lock := 0\<rparr>) = (Inl (Errno EINVAL), s\<lparr>pathlookup_data_lock := 0\<rparr>)" using os by (simp add: read_primary_def pread_primary_def)
    then show ?thesis using True prel_lock [OF a] by (intro servesI [where m = ?m, OF h a]) auto
  next
    case False
    obtain p f M where ai: "a i = (p, f, M)" by (cases "a i")
    then have "?m (s\<lparr>pathlookup_data_lock := 0\<rparr>) = (Inr p, s\<lparr>pathlookup_data_lock := 0\<rparr>)" using prel_prim [OF prel_lock [OF a], of i] False os by simp
    then show ?thesis using False ai prel_lock [OF a] by (intro servesI [where m = ?m, OF h a]) auto
  qed
qed

lemma serves_restart: "prel_at 1 a s \<Longrightarrow> serves Restart a s"
  using restart_served by (fastforce simp: serves_def parent_answer_def)

interpretation pd: service "prel_at 1" handle_parent parent_spec "\<lambda>_. True" "\<lambda>_. 0" "\<lambda>_. 0" 1
proof
  fix a s q assume "prel_at 1 a s"
  then have "serves q a s" using serves_add serves_delete serves_replace serves_fetch serves_write serves_read serves_restart by (cases q) simp_all
  then show "\<exists>y s' a'. handle_parent q s = (Inr y, s') \<and> parent_spec q a (y, a') \<and> prel_at 1 a' s' \<and> (0 :: nat) \<le> 0 + 0" by (simp add: serves_def)
qed

subsection \<open>A new database\<close>

text \<open>Nothing is on the disk.\<close>

definition no_lookup_files :: lookup_state where
  "no_lookup_files = \<lparr>pathlookup_db = None, plookup2_exists = False, plookup2_head = zero_plookup_head, plookup2_pages = Map.empty, plookup2_end = 0, dirstat_lookup_db = None,
     parent_lookup_head = zero_plookup_head, pathlookup_data_lock = 0, pl_os = []\<rparr>"

definition new_lookup_files :: lookup_state where
  "new_lookup_files = no_lookup_files\<lparr>pathlookup_db := Some [], plookup2_exists := True, plookup2_end := plookup_head_size, pathlookup_data_lock := 1\<rparr>"

lemma init_new: "init_pathlookup no_lookup_files = (Inr (), new_lookup_files)"
  by (simp add: init_pathlookup_def no_lookup_files_def new_lookup_files_def Let_def upd_plookup_head_def pwrite_plookup_head_def)

lemma new_pst: "pst (\<lambda>_. []) [] {} new_lookup_files"
  by (simp add: pst_def pinv_def new_lookup_files_def no_lookup_files_def zero_plookup_head_def powned_def)

lemma new_prel: "prel_at 1 (\<lambda>_. (0, False, {#})) new_lookup_files"
proof -
  have "synced new_lookup_files" "pathlookup_data_lock new_lookup_files = 1" by (simp_all add: synced_def new_lookup_files_def no_lookup_files_def)
  moreover have "\<forall>i > 0. (0, False, {#}) = pview (\<lambda>_. []) new_lookup_files i"
    by (simp add: pview_def prim_def rec_at_def new_lookup_files_def no_lookup_files_def zero_primary_def conts_def pages_of_def)
  ultimately show ?thesis unfolding prel_at_def using new_pst by blast
qed

subsection \<open>A write that fails\<close>

text \<open>A database with an empty second file.\<close>

definition second_empty :: "lookup_state \<Rightarrow> bool" where
  "second_empty s \<longleftrightarrow> pl_os s = [] \<and> pathlookup_data_lock s = 1 \<and> pathlookup_db s \<noteq> None \<and> parent_lookup_head s = zero_plookup_head \<and> plookup2_end s = plookup_head_size"

definition put_primary :: "ino_t \<Rightarrow> PRIMARY_PARENT_T \<Rightarrow> lookup_state \<Rightarrow> lookup_state" where
  "put_primary i r s = s\<lparr>pathlookup_db := rec_put zero_primary i r (pathlookup_db s)\<rparr>"

lemma put_primary_simps [simp]:
  "pl_os (put_primary i r s) = pl_os s" "pathlookup_data_lock (put_primary i r s) = pathlookup_data_lock s" "parent_lookup_head (put_primary i r s) = parent_lookup_head s"
  "plookup2_end (put_primary i r s) = plookup2_end s" "plookup2_pages (put_primary i r s) = plookup2_pages s" "pathlookup_db (put_primary i r s) = None \<longleftrightarrow> pathlookup_db s = None"
  "second_empty (put_primary i r s) \<longleftrightarrow> second_empty s"
  by (simp_all add: put_primary_def second_empty_def)

lemma prim_put_primary: "pathlookup_db s \<noteq> None \<Longrightarrow> 0 < i \<Longrightarrow> 0 < j \<Longrightarrow> prim (put_primary i r s) j = (if j = i then r else prim s j)"
  by (simp add: put_primary_def)

lemma wait_post: "pathlookup_data_lock s = 1 \<Longrightarrow> pl_wait s = (Inr (), s\<lparr>pathlookup_data_lock := 0\<rparr>)" "pathlookup_data_lock s = 0 \<Longrightarrow> pl_post s = (Inr (), s\<lparr>pathlookup_data_lock := 1\<rparr>)"
  by (simp_all add: pl_wait_def pl_post_def sem_wait_def sem_post_def)

lemma lock_same [simp]: "pathlookup_data_lock s = k \<Longrightarrow> s\<lparr>pathlookup_data_lock := k\<rparr> = s"
  by (cases s) simp

lemma prim_lock [simp]: "prim (s\<lparr>pathlookup_data_lock := k\<rparr>) = prim s" "prim (s\<lparr>pl_os := xs\<rparr>) = prim s"
  by (simp_all add: prim_def fun_eq_iff)

lemma first_parent_added:
  assumes "second_empty s" and "0 < i" "0 < p" and "parentinode (prim s i) = 0"
  shows "handle_parent (Add_Parent i p) s = (Inr Parents_Done, put_primary i ((prim s i)\<lparr>parentinode := p\<rparr>) s)"
  using assms by (simp add: second_empty_def parent_answer_def pl_locked_def lookup_add_parent_def wait_post put_primary_def)

text \<open>The page of a second parent cannot be written: the list of the hash value begins behind the end of the file.\<close>

definition cut_off :: "nat \<Rightarrow> lookup_state \<Rightarrow> lookup_state" where
  "cut_off h s = s\<lparr>parent_lookup_head := zero_plookup_head\<lparr>hash_head := (hash_head zero_plookup_head)[h := plookup_head_size]\<rparr>\<rparr>"

lemma second_parent_fails:
  assumes s: "second_empty s" and i: "0 < i" "0 < r" and p: "prim s i = \<lparr>parentinode = p, haveothers = False\<rparr>" "0 < p"
  shows "handle_parent (Add_Parent i r) (s\<lparr>pl_os := [IO_Ok, IO_Ok, IO_Ok, IO_Ok, IO_Err e]\<rparr>) =
    (Inr (Parents_Errno e), cut_off (hash_of i) (put_primary i \<lparr>parentinode = p, haveothers = True\<rparr> s))"
proof -
  have rd: "rec_at (pathlookup_db s) i = Some \<lparr>parentinode = p, haveothers = False\<rparr>" using p by (auto simp: prim_def zero_primary_def split: option.splits)
  have h: "hash_head zero_plookup_head ! hash_of i = 0" by (simp add: zero_plookup_head_def)
  have g: "gc_head zero_plookup_head = 0" by (simp add: zero_plookup_head_def)
  have os: "s\<lparr>pathlookup_db := A, parent_lookup_head := C\<rparr> = s\<lparr>pl_os := [], pathlookup_db := A, parent_lookup_head := C\<rparr>" for A C using s by (cases s) (simp add: second_empty_def)
  show ?thesis
    using s i p rd h g os by (simp add: second_empty_def parent_answer_def pl_locked_def lookup_add_parent_def read_primary_def pread_primary_def pwrite_primary_def pl_transfer_def pl_call_def
      wait_post add_to_head_def new_page_pos_def alloc_new_page_def set_hash_head_def upd_plookup_head_def pwrite_page_def cut_off_def put_primary_def)
qed

text \<open>The next page goes to the same place and is linked to itself.\<close>

definition looped :: "ino_t \<Rightarrow> ino_t \<Rightarrow> lookup_state \<Rightarrow> lookup_state" where
  "looped i r s = s\<lparr>plookup2_pages := (plookup2_pages s)(plookup_head_size \<mapsto> (one_parent_page i r)\<lparr>nextlookup := plookup_head_size\<rparr>), plookup2_end := plookup_head_size + plookup_page_size\<rparr>"

lemma cut_off_simps [simp]:
  "pl_os (cut_off h s) = pl_os s" "pathlookup_data_lock (cut_off h s) = pathlookup_data_lock s" "plookup2_end (cut_off h s) = plookup2_end s" "prim (cut_off h s) = prim s"
  "pathlookup_db (cut_off h s) = pathlookup_db s" "gc_head (parent_lookup_head (cut_off h s)) = 0" "h < 1024 \<Longrightarrow> hash_head (parent_lookup_head (cut_off h s)) ! h = plookup_head_size"
  by (simp_all add: cut_off_def prim_def fun_eq_iff zero_plookup_head_def)

lemma looped_simps [simp]:
  "pl_os (looped i r s) = pl_os s" "pathlookup_data_lock (looped i r s) = pathlookup_data_lock s" "plookup2_end (looped i r s) = plookup_head_size + plookup_page_size" "prim (looped i r s) = prim s"
  "pathlookup_db (looped i r s) = pathlookup_db s" "parent_lookup_head (looped i r s) = parent_lookup_head s"
  "plookup2_pages (looped i r s) plookup_head_size = Some ((one_parent_page i r)\<lparr>nextlookup := plookup_head_size\<rparr>)"
  by (simp_all add: looped_def prim_def fun_eq_iff)

lemma retry_loops:
  assumes s: "second_empty s" and i: "0 < i" "0 < r" and p: "prim s i = \<lparr>parentinode = p, haveothers = True\<rparr>" "0 < p"
  shows "handle_parent (Add_Parent i r) (cut_off (hash_of i) s) = (Inr Parents_Done, looped i r (cut_off (hash_of i) s))"
proof -
  let ?t = "(cut_off (hash_of i) s)\<lparr>pathlookup_data_lock := 0\<rparr>"
  have os: "pl_os s = []" "plookup2_end s = plookup_head_size" "pathlookup_data_lock s = 1" using s by (simp_all add: second_empty_def)
  have z: "thisinode zero_plookup_page = 0" "nextlookup zero_plookup_page = 0" by (simp_all add: zero_plookup_page_def)
  have rd: "pread_page plookup_head_size ?t = (Inr zero_plookup_page, ?t)" using os by (simp add: pread_page_def)
  have "find_inode_page i plookup_head_size 0 ?t = Some (Inr (plookup_head_size, 0, zero_plookup_page), ?t)" by (subst find_inode_page.simps) simp
  then have "find_inode_page i 0 plookup_head_size ?t = Some (Inr (plookup_head_size, 0, zero_plookup_page), ?t)"
    using rd z i(1) by (subst find_inode_page.simps) simp
  then have f: "find_first_page i ?t = (Inr (plookup_head_size, 0, zero_plookup_page), ?t)" by (simp add: find_first_page_def or_hang_def)
  have t: "add_to_tail i r plookup_head_size ?t = (Inr (), looped i r ?t)"
    using os by (simp add: add_to_tail_def new_page_pos_def alloc_new_page_def pwrite_page_def upd_plookup_page_def pread_page_def looped_def)
  have w: "pl_wait (cut_off (hash_of i) s) = (Inr (), ?t)" "snd (pl_post (looped i r ?t)) = looped i r (cut_off (hash_of i) s)"
    using os(3) by (simp_all add: wait_post looped_def cut_off_def)
  have "lookup_add_parent i r ?t = (Inr (), looped i r ?t)" using os i p f t by (simp add: lookup_add_parent_def)
  then show ?thesis using w by (simp add: parent_answer_def pl_locked_def)
qed

lemma find_inode_circle:
  assumes "find_inode_page j prev pos s = Some y" and "pos = plookup_head_size" and "pl_os s = []" and "plookup2_end s > plookup_head_size"
    and "plookup2_pages s plookup_head_size = Some g" and "thisinode g \<noteq> j" and "nextlookup g = plookup_head_size"
  shows False
  using assms
proof (induction rule: find_inode_page.raw_induct [rotated 1, consumes 1])
  case (1 find_inode_page self prevpos tmppos s y)
  have "pread_page tmppos s = (Inr g, s)" using 1 by (simp add: pread_page_ok)
  then have "find_inode_page self plookup_head_size plookup_head_size s = Some y" using "1.prems" "1.hyps" by simp
  then show ?case using "1.prems" by (cases y) (rule "1.IH", auto)
qed

lemma other_inode_hangs:
  assumes s: "second_empty s" and h: "hash_of i = hash_of j" "i \<noteq> j" and j: "0 < j" "0 < r'" and p: "prim s j = \<lparr>parentinode = p, haveothers = False\<rparr>" "0 < p"
  shows "fst (handle_parent (Add_Parent j r') (looped i r (cut_off (hash_of i) s))) = Inl Hang"
proof -
  let ?t = "(looped i r (cut_off (hash_of i) s))\<lparr>pathlookup_data_lock := 0\<rparr>"
  let ?u = "?t\<lparr>pathlookup_db := rec_put zero_primary j \<lparr>parentinode = p, haveothers = True\<rparr> (pathlookup_db s)\<rparr>"
  have os: "pl_os s = []" "pathlookup_data_lock s = 1" using s by (simp_all add: second_empty_def)
  have pg: "plookup2_pages ?u plookup_head_size = Some ((one_parent_page i r)\<lparr>nextlookup := plookup_head_size\<rparr>)" by simp
  have "find_inode_page j 0 plookup_head_size ?u \<noteq> Some y" for y
    using find_inode_circle [where s = ?u and y = y and pos = plookup_head_size, OF _ refl _ _ pg] os h(2) by auto
  then have "find_inode_page j 0 plookup_head_size ?u = None" by (meson not_Some_eq)
  then have "find_first_page j ?u = (Inl Hang, ?u)" using h by (simp add: find_first_page_def or_hang_def)
  moreover have "hash_head (parent_lookup_head ?u) ! hash_of j \<noteq> 0" by (simp add: h(1) [symmetric])
  ultimately have "lookup_add_parent j r' ?t = (Inl Hang, ?u)" using os j p by (simp add: lookup_add_parent_def)
  moreover have "pl_wait (looped i r (cut_off (hash_of i) s)) = (Inr (), ?t)" using os by (simp add: wait_post)
  ultimately show ?thesis by (simp add: parent_answer_def pl_locked_def)
qed

subsection \<open>Properties\<close>

text \<open>
  C36: The parent database keeps the parents of every inode: from new files, every sequence of adding, deleting, replacing and fetching parents, reading and writing the first parent, and restarting the program
  is answered as by a table with a first parent and a multiset of other parents for every inode.  No call crashes or goes round in a circle in its lists of pages, no page of the second file is lost or is in two
  lists, and the head in memory is the one in the file.
\<close>

theorem parent_db_refines_table:
  "\<exists>rs s s' a. init_pathlookup no_lookup_files = (Inr (), s) \<and> run_all handle_parent qs s = (Inr rs, s') \<and> spec_all parent_spec qs (\<lambda>_. (0, False, {#})) rs a \<and> prel_at 1 a s'"
  using pd.runs [OF new_prel, of qs] init_new by auto

text \<open>
  C38: When the write of a new page of the second file fails, \<^verbatim>\<open>_add_to_head\<close> leaves the list of the hash value pointing behind the end of the file.  The next page for this hash value is written there
  and linked to itself: when the call is tried again it succeeds, and the next call for another inode with the same hash value never returns and holds the lock.
\<close>

theorem parent_write_failure_hangs:
  assumes "0 < i" and "0 < j" and "i \<noteq> j" and "hash_of i = hash_of j" and "0 < p" and "0 < q" and "0 < r"
  shows "\<exists>s1 s2 s3. run_all handle_parent [Add_Parent i p, Add_Parent j q] new_lookup_files = (Inr [Parents_Done, Parents_Done], s1) \<and>
    handle_parent (Add_Parent i r) (s1\<lparr>pl_os := [IO_Ok, IO_Ok, IO_Ok, IO_Ok, IO_Err ENOSPC]\<rparr>) = (Inr (Parents_Errno ENOSPC), s2) \<and>
    handle_parent (Add_Parent i r) s2 = (Inr Parents_Done, s3) \<and> fst (handle_parent (Add_Parent j r) s3) = Inl Hang"
proof -
  let ?z = new_lookup_files and ?pi = "\<lparr>parentinode = p, haveothers = False\<rparr>" and ?pj = "\<lparr>parentinode = q, haveothers = False\<rparr>" and ?pt = "\<lparr>parentinode = p, haveothers = True\<rparr>"
  have z: "second_empty ?z" "pathlookup_db ?z \<noteq> None" "prim ?z = (\<lambda>_. zero_primary)"
    by (simp_all add: second_empty_def new_lookup_files_def no_lookup_files_def prim_def rec_at_def fun_eq_iff)
  let ?s1 = "put_primary j ?pj (put_primary i ?pi ?z)" and ?s2 = "put_primary i ?pt (put_primary j ?pj (put_primary i ?pi ?z))"
  have e1: "second_empty ?s1" "prim ?s1 i = ?pi" "prim ?s1 j = ?pj" and e2: "second_empty ?s2" "prim ?s2 i = ?pt" "prim ?s2 j = ?pj"
    using z assms by (auto simp: prim_put_primary)
  have "handle_parent (Add_Parent i p) ?z = (Inr Parents_Done, put_primary i ?pi ?z)" using first_parent_added [OF z(1), of i p] z(3) assms by (simp add: zero_primary_def)
  moreover have "handle_parent (Add_Parent j q) (put_primary i ?pi ?z) = (Inr Parents_Done, ?s1)"
    using first_parent_added [of "put_primary i ?pi ?z" j q] z assms by (simp add: prim_put_primary zero_primary_def)
  ultimately have "run_all handle_parent [Add_Parent i p, Add_Parent j q] ?z = (Inr [Parents_Done, Parents_Done], ?s1)" by simp
  moreover note second_parent_fails [OF e1(1) assms(1,7) e1(2) assms(5)]
  moreover note retry_loops [OF e2(1) assms(1,7) e2(2) assms(5)]
  moreover note other_inode_hangs [OF e2(1) assms(4,3,2,7) e2(3) assms(6), of r]
  ultimately show ?thesis by blast
qed

theorem parent_write_failure_hangs_witness:
  "\<exists>s1 s2 s3. run_all handle_parent [Add_Parent 5 2, Add_Parent 1029 2] new_lookup_files = (Inr [Parents_Done, Parents_Done], s1) \<and>
    handle_parent (Add_Parent 5 3) (s1\<lparr>pl_os := [IO_Ok, IO_Ok, IO_Ok, IO_Ok, IO_Err ENOSPC]\<rparr>) = (Inr (Parents_Errno ENOSPC), s2) \<and>
    handle_parent (Add_Parent 5 3) s2 = (Inr Parents_Done, s3) \<and> fst (handle_parent (Add_Parent 1029 3) s3) = Inl Hang"
  by (rule parent_write_failure_hangs) (simp_all add: hash_of_def)

end
