(* ===== verification/Dir_Stats.thy ===== *)
theory Dir_Stats
  imports Parent_Lookup_Props Dir_Add
begin

text \<open>
  The statistics of directories, \<^verbatim>\<open>src/HCFS/dir_statistics.c\<close>: for every directory the number of files below it that are only on the device, only in the cloud, or in both.  A change climbs from a
  parent to the root along the first parents in the parent database; a climb along a circle is a \<open>Hang\<close>.  The counters are unbounded.  The specification is a tree of directories with links to files:
  the statistics of a directory are the sum over the links below it, under all requests that make, move and remove directories and links to regular files and symbolic links.  FIFOs and sockets are
  counted when they are made and never uncounted.
\<close>

subsection \<open>Model\<close>

definition init_dirstat_lookup :: "(lookup_state, unit) sm" where
  "init_dirstat_lookup = (\<lambda>s.
     bindE (if dirstat_lookup_db s = None then bindE pl_call (\<lambda>_. modifyE (\<lambda>s. s\<lparr>dirstat_lookup_db := Some []\<rparr>)) else returnE ()) (\<lambda>_. pl_call) s)"

definition read_stats :: "ino_t \<Rightarrow> (lookup_state, DIR_STATS_TYPE) sm" where
  "read_stats i = bindE pl_transfer (\<lambda>ok s. (Inr (if ok then case rec_at (dirstat_lookup_db s) i of Some d \<Rightarrow> d | None \<Rightarrow> zero_stats else zero_stats), s))"

definition write_stats :: "ino_t \<Rightarrow> DIR_STATS_TYPE \<Rightarrow> (lookup_state, unit) sm" where
  "write_stats i d = bindE pl_transfer (\<lambda>ok. modifyE (\<lambda>s. if ok then s\<lparr>dirstat_lookup_db := rec_put zero_stats i d (dirstat_lookup_db s)\<rparr> else s))"

definition add_stats :: "DIR_STATS_TYPE \<Rightarrow> DIR_STATS_TYPE \<Rightarrow> DIR_STATS_TYPE" where
  "add_stats d e = \<lparr>num_local = num_local d + num_local e, num_cloud = num_cloud d + num_cloud e, num_hybrid = num_hybrid d + num_hybrid e\<rparr>"

definition neg_stats :: "DIR_STATS_TYPE \<Rightarrow> DIR_STATS_TYPE" where
  "neg_stats d = \<lparr>num_local = - num_local d, num_cloud = - num_cloud d, num_hybrid = - num_hybrid d\<rparr>"

text \<open>One round of the loop: the statistics of the directory, and its parent.\<close>

definition climb_step :: "DIR_STATS_TYPE \<Rightarrow> ino_t \<Rightarrow> (lookup_state, ino_t) sm" where
  "climb_step newstat current = bindE (read_stats current) (\<lambda>tmpstat. bindE (write_stats current (add_stats tmpstat newstat)) (\<lambda>_.
     bindE (read_primary current) (\<lambda>tmpparent. returnE (parentinode tmpparent))))"

partial_function (option) climb :: "DIR_STATS_TYPE \<Rightarrow> ino_t \<Rightarrow> lookup_state \<Rightarrow> ((failure + unit) \<times> lookup_state) option" where
  "climb newstat current s =
     (if current = 0 then Some (Inr (), s)
      else case climb_step newstat current s of
        (Inl e, s') \<Rightarrow> Some (Inl e, s')
      | (Inr parent, s') \<Rightarrow> climb newstat parent s')"

definition update_dirstat_parent :: "ino_t \<Rightarrow> DIR_STATS_TYPE \<Rightarrow> (lookup_state, unit) sm" where
  "update_dirstat_parent base newstat = (\<lambda>s.
     if base = 0 \<or> pathlookup_data_lock s > 0 then (Inl (Errno EINVAL), s) else or_hang (climb newstat base) s)"

fun climb_all :: "DIR_STATS_TYPE \<Rightarrow> ino_t list \<Rightarrow> (lookup_state, unit) sm" where
  "climb_all newstat [] = returnE ()"
| "climb_all newstat (p # ps) = bindE (or_hang (climb newstat p)) (\<lambda>_. climb_all newstat ps)"

definition update_dirstat_file :: "ino_t \<Rightarrow> DIR_STATS_TYPE \<Rightarrow> (lookup_state, unit) sm" where
  "update_dirstat_file self newstat =
     (if self = 0 then failE (Errno EINVAL) else pl_locked (bindE (fetch_all_parents self) (\<lambda>parentlist. climb_all newstat parentlist)))"

definition reset_dirstat_lookup :: "ino_t \<Rightarrow> (lookup_state, unit) sm" where
  "reset_dirstat_lookup self = (if self = 0 then failE (Errno EINVAL) else pl_locked (write_stats self zero_stats))"

definition read_dirstat_lookup :: "ino_t \<Rightarrow> (lookup_state, DIR_STATS_TYPE) sm" where
  "read_dirstat_lookup self = (if self = 0 then failE (Errno EINVAL) else pl_locked (read_stats self))"

subsection \<open>Its callers\<close>

text \<open>
  What the callers do with the two databases: making the root of a volume (\<^verbatim>\<open>FS_manager.c\<close>), and \<^verbatim>\<open>mknod_update_meta\<close>, \<^verbatim>\<open>mkdir_update_meta\<close>, \<^verbatim>\<open>unlink_update_meta\<close>, \<^verbatim>\<open>rmdir_update_meta\<close>
  (which does not look at the result of the reset), \<^verbatim>\<open>symlink_update_meta\<close> and \<^verbatim>\<open>link_update_meta\<close> of \<^verbatim>\<open>file_present.c\<close> and \<^verbatim>\<open>hfuse_ll_rename\<close>, which first takes out an entry that has the new name
  (\<open>drop_target_lookup\<close>) and then moves its own (\<open>rename_lookup\<close>).  The statistics of a regular file come from its meta file (\<^verbatim>\<open>check_file_storage_location\<close>) and are an argument.
\<close>

definition root_lookup :: "ino_t \<Rightarrow> (lookup_state, unit) sm" where
  "root_lookup root_inode = bindE (pathlookup_write_parent root_inode 0) (\<lambda>_. reset_dirstat_lookup root_inode)"

text \<open>The parent of a new link is entered in a critical section of its own, in the same way by \<^verbatim>\<open>mknod_update_meta\<close>, \<^verbatim>\<open>mkdir_update_meta\<close>, \<^verbatim>\<open>symlink_update_meta\<close> and \<^verbatim>\<open>link_update_meta\<close>.\<close>

definition add_parent_lookup :: "ino_t \<Rightarrow> ino_t \<Rightarrow> (lookup_state, unit) sm" where
  "add_parent_lookup self parent = pl_locked (lookup_add_parent self parent)"

text \<open>The storage location of a new file is local.\<close>

definition new_file_stats :: DIR_STATS_TYPE where
  "new_file_stats = \<lparr>num_local = 1, num_cloud = 0, num_hybrid = 0\<rparr>"

definition mknod_lookup :: "ino_t \<Rightarrow> ino_t \<Rightarrow> (lookup_state, unit) sm" where
  "mknod_lookup self parent = bindE (add_parent_lookup self parent) (\<lambda>_. pl_locked (update_dirstat_parent parent new_file_stats))"

definition mkdir_lookup :: "ino_t \<Rightarrow> ino_t \<Rightarrow> (lookup_state, unit) sm" where
  "mkdir_lookup self parent = bindE (add_parent_lookup self parent) (\<lambda>_. reset_dirstat_lookup self)"

definition symlink_lookup :: "ino_t \<Rightarrow> ino_t \<Rightarrow> (lookup_state, unit) sm" where
  "symlink_lookup self parent = add_parent_lookup self parent"

definition link_lookup :: "ino_t \<Rightarrow> ino_t \<Rightarrow> DIR_STATS_TYPE \<Rightarrow> (lookup_state, unit) sm" where
  "link_lookup self parent tmpstat = bindE (add_parent_lookup self parent) (\<lambda>_. pl_locked (update_dirstat_parent parent tmpstat))"

definition unlink_lookup :: "ino_t \<Rightarrow> ino_t \<Rightarrow> file_kind \<Rightarrow> DIR_STATS_TYPE \<Rightarrow> (lookup_state, unit) sm" where
  "unlink_lookup self parent entry_type tmpstat = pl_locked (bindE (lookup_delete_parent self parent) (\<lambda>_.
     if entry_type = S_IFREG then update_dirstat_parent parent (neg_stats tmpstat) else returnE ()))"

definition rmdir_lookup :: "ino_t \<Rightarrow> ino_t \<Rightarrow> (lookup_state, unit) sm" where
  "rmdir_lookup self parent = bindE (pl_locked (lookup_delete_parent self parent)) (\<lambda>_ s.
     case reset_dirstat_lookup self s of (Inl (Errno _), s') \<Rightarrow> (Inr (), s') | r \<Rightarrow> r)"

definition drop_target_lookup :: "ino_t \<Rightarrow> ino_t \<Rightarrow> file_kind \<Rightarrow> DIR_STATS_TYPE \<Rightarrow> (lookup_state, unit) sm" where
  "drop_target_lookup old_target parent2 old_target_mode tmpstat =
     bindE (pl_locked (bindE (lookup_delete_parent old_target parent2) (\<lambda>_.
       if old_target_mode = S_IFREG then update_dirstat_parent parent2 (neg_stats tmpstat) else returnE ()))) (\<lambda>_.
     if old_target_mode = S_IFDIR then reset_dirstat_lookup old_target else returnE ())"

definition move_lookup :: "ino_t \<Rightarrow> ino_t \<Rightarrow> ino_t \<Rightarrow> file_kind \<Rightarrow> DIR_STATS_TYPE \<Rightarrow> (lookup_state, unit) sm" where
  "move_lookup self parent1 parent2 self_mode tmpstat = pl_locked (bindE (lookup_replace_parent self parent1 parent2) (\<lambda>_.
     if self_mode = S_IFDIR \<or> self_mode = S_IFREG
     then bindE (update_dirstat_parent parent2 tmpstat) (\<lambda>_. update_dirstat_parent parent1 (neg_stats tmpstat)) else returnE ()))"

text \<open>A rename inside one directory changes neither database.  The statistics that move along are those of the directory, or of the file.\<close>

definition rename_lookup :: "ino_t \<Rightarrow> ino_t \<Rightarrow> ino_t \<Rightarrow> file_kind \<Rightarrow> DIR_STATS_TYPE \<Rightarrow> (lookup_state, unit) sm" where
  "rename_lookup self parent1 parent2 self_mode filestat =
     (if parent1 \<noteq> parent2 then bindE (if self_mode = S_IFDIR then read_dirstat_lookup self else returnE filestat) (\<lambda>tmpstat. move_lookup self parent1 parent2 self_mode tmpstat)
      else returnE ())"

subsection \<open>Climbing\<close>

fun pchain :: "(ino_t \<Rightarrow> ino_t) \<Rightarrow> ino_t \<Rightarrow> ino_t list \<Rightarrow> bool" where
  "pchain par i [] \<longleftrightarrow> i = 0"
| "pchain par i (x # xs) \<longleftrightarrow> i = x \<and> x \<noteq> 0 \<and> pchain par (par x) xs"

definition anc :: "(ino_t \<Rightarrow> ino_t) \<Rightarrow> ino_t \<Rightarrow> ino_t set" where
  "anc par i = {x. \<exists>xs. pchain par i xs \<and> x \<in> set xs}"

lemma pchain_unique: "pchain par i xs \<Longrightarrow> pchain par i ys \<Longrightarrow> xs = ys"
proof (induction xs arbitrary: i ys)
  case Nil
  then show ?case by (cases ys) auto
next
  case (Cons x xs)
  then show ?case by (cases ys) auto
qed

lemma anc_chain: "pchain par i xs \<Longrightarrow> anc par i = set xs"
  using pchain_unique by (auto simp: anc_def)

lemma pchain_suffix: "pchain par i (us @ x # ws) \<Longrightarrow> pchain par x (x # ws)"
  by (induction us arbitrary: i) auto

lemma pchain_distinct: "pchain par i xs \<Longrightarrow> distinct xs"
proof (rule ccontr)
  assume c: "pchain par i xs" "\<not> distinct xs"
  then obtain us vs ws x where xs: "xs = us @ [x] @ vs @ [x] @ ws" using not_distinct_decomp by metis
  have "pchain par x (x # vs @ [x] @ ws)" using pchain_suffix [of par i us x "vs @ [x] @ ws"] c(1) xs by simp
  moreover have "pchain par x (x # ws)" using pchain_suffix [of par i "us @ [x] @ vs" x ws] c(1) xs by simp
  ultimately have "x # vs @ [x] @ ws = x # ws" by (rule pchain_unique)
  then show False by (auto dest: arg_cong [of _ _ length])
qed

lemma pchain_cong: "pchain par i xs \<Longrightarrow> (\<And>x. x \<in> set xs \<Longrightarrow> par' x = par x) \<Longrightarrow> pchain par' i xs"
  by (induction xs arbitrary: i) auto

lemma pchain_split:
  assumes "pchain par i xs" and "d \<in> set xs"
  obtains us ws where "xs = us @ d # ws" "pchain par (par d) ws" "d \<notin> set us" "d \<notin> set ws"
proof -
  obtain us ws where x: "xs = us @ d # ws" using assms(2) by (meson split_list)
  then show thesis using that [of us ws] pchain_suffix [of par i us d ws] pchain_distinct [OF assms(1)] assms(1) by auto
qed

subsection \<open>Both databases\<close>

definition dstat :: "lookup_state \<Rightarrow> ino_t \<Rightarrow> DIR_STATS_TYPE" where
  "dstat s i = (case rec_at (dirstat_lookup_db s) i of Some d \<Rightarrow> d | None \<Rightarrow> zero_stats)"

text \<open>The parents \<open>a\<close> and the statistics \<open>D\<close>.\<close>

definition srel :: "nat \<Rightarrow> parents_view \<Rightarrow> (ino_t \<Rightarrow> DIR_STATS_TYPE) \<Rightarrow> lookup_state \<Rightarrow> bool" where
  "srel n a D s \<longleftrightarrow> prel_at n a s \<and> dirstat_lookup_db s \<noteq> None \<and> (\<forall>i > 0. dstat s i = D i)"

definition bump :: "DIR_STATS_TYPE \<Rightarrow> ino_t set \<Rightarrow> (ino_t \<Rightarrow> DIR_STATS_TYPE) \<Rightarrow> ino_t \<Rightarrow> DIR_STATS_TYPE" where
  "bump v X D i = (if i \<in> X then add_stats (D i) v else D i)"

lemma srel_prel: "srel n a D s \<Longrightarrow> prel_at n a s" and srel_os: "srel n a D s \<Longrightarrow> pl_os s = []"
  by (auto simp: srel_def prel_at_def pst_def)

lemma srel_lock: "srel n a D s \<Longrightarrow> srel k a D (s\<lparr>pathlookup_data_lock := k\<rparr>)"
  using prel_lock by (auto simp: srel_def dstat_def)

lemma srel_same: "srel n a D s \<Longrightarrow> prel_at n a' s' \<Longrightarrow> dirstat_lookup_db s' = dirstat_lookup_db s \<Longrightarrow> srel n a' D s'"
  by (simp add: srel_def dstat_def)

lemma write_stats_run:
  assumes "srel n a D s" and i: "0 < i"
  shows "\<exists>s'. write_stats i v s = (Inr (), s') \<and> srel n a (D(i := v)) s'"
proof -
  let ?s = "s\<lparr>dirstat_lookup_db := rec_put zero_stats i v (dirstat_lookup_db s)\<rparr>"
  have d: "dirstat_lookup_db s \<noteq> None" "\<forall>j > 0. dstat s j = D j" using assms(1) by (auto simp: srel_def)
  have "prel_at n a ?s" using srel_prel [OF assms(1)] by (simp add: prel_at_def pst_def synced_def pview_def prim_def)
  moreover have "\<forall>j > 0. dstat ?s j = (D(i := v)) j" using rec_at_put [OF d(1) i, of _ zero_stats v] d(2) by (auto simp: dstat_def)
  ultimately have "srel n a (D(i := v)) ?s" using d(1) by (simp add: srel_def)
  then show ?thesis using srel_os [OF assms(1)] by (auto simp: write_stats_def)
qed

lemma read_stats_run: "srel n a D s \<Longrightarrow> 0 < i \<Longrightarrow> read_stats i s = (Inr (D i), s)"
  using srel_os [of n a D s] by (auto simp: read_stats_def srel_def dstat_def)

lemma climb_run:
  assumes "srel n a D s" and "pchain (\<lambda>i. fst (a i)) p xs"
  shows "\<exists>s'. climb v p s = Some (Inr (), s') \<and> srel n a (bump v (set xs) D) s'"
  using assms
proof (induction xs arbitrary: p s D)
  case Nil
  then show ?case by (subst climb.simps) (simp add: bump_def [abs_def])
next
  case (Cons x xs)
  have x: "p = x" "0 < x" "pchain (\<lambda>i. fst (a i)) (fst (a x)) xs" "x \<notin> set xs" using Cons.prems(2) pchain_distinct [OF Cons.prems(2)] by auto
  obtain s1 where w: "write_stats x (add_stats (D x) v) s = (Inr (), s1)" "srel n a (D(x := add_stats (D x) v)) s1" using write_stats_run [OF Cons.prems(1) x(2)] by blast
  obtain s2 where c: "climb v (fst (a x)) s1 = Some (Inr (), s2)" "srel n a (bump v (set xs) (D(x := add_stats (D x) v))) s2" using Cons.IH [OF w(2) x(3)] by blast
  have "prim s1 x = \<lparr>parentinode = fst (a x), haveothers = fst (snd (a x))\<rparr>" using prel_prim [OF srel_prel [OF w(2)] x(2)] by (cases "a x") auto
  then have "climb_step v x s = (Inr (fst (a x)), s1)" using read_stats_run [OF Cons.prems(1) x(2)] w(1) srel_os [OF w(2)] x(2) by (simp add: climb_step_def)
  then have "climb v p s = Some (Inr (), s2)" using c(1) x(1,2) by (subst climb.simps) simp
  moreover have "bump v (set xs) (D(x := add_stats (D x) v)) = bump v (set (x # xs)) D" using x(4) by (auto simp: bump_def fun_eq_iff)
  ultimately show ?case using c(2) by auto
qed

lemma update_parent_run:
  assumes "srel 0 a D s" and "pchain (\<lambda>i. fst (a i)) p xs" and "0 < p"
  shows "\<exists>s'. update_dirstat_parent p v s = (Inr (), s') \<and> srel 0 a (bump v (set xs) D) s'"
proof -
  have "pathlookup_data_lock s = 0" using assms(1) by (simp add: srel_def prel_at_def)
  then show ?thesis using climb_run [OF assms(1,2), of v] assms(3) by (auto simp: update_dirstat_parent_def or_hang_def)
qed

lemma srel_locked:
  assumes "srel 1 a D s" and "m (s\<lparr>pathlookup_data_lock := 0\<rparr>) = (Inr x, s')" and "srel 0 a' D' s'"
  shows "\<exists>s''. pl_locked m s = (Inr x, s'') \<and> srel 1 a' D' s''"
  using parent_locked_run(1) [where m = m, OF srel_prel [OF assms(1)] assms(2) srel_prel [OF assms(3)]] srel_lock [OF assms(3)] by auto

subsection \<open>The callers\<close>

lemma add_parent_run:
  assumes "srel 1 a D s" and "0 < i" and "0 < p"
  shows "\<exists>s'. add_parent_lookup i p s = (Inr (), s') \<and> srel 1 (add_spec i p a) D s'"
proof -
  have l: "srel 0 a D (s\<lparr>pathlookup_data_lock := 0\<rparr>)" using srel_lock [OF assms(1)] .
  obtain s' where t: "lookup_add_parent i p (s\<lparr>pathlookup_data_lock := 0\<rparr>) = (Inr (), s')" "prel_at 0 (add_spec i p a) s'" "dirstat_lookup_db s' = dirstat_lookup_db (s\<lparr>pathlookup_data_lock := 0\<rparr>)"
    using add_served [OF srel_prel [OF l] assms(2,3)] by blast
  show ?thesis using srel_locked [where m = "lookup_add_parent i p", OF assms(1) t(1) srel_same [OF l t(2,3)]] by (simp add: add_parent_lookup_def)
qed

lemma delete_parent_run:
  assumes "srel 0 a D s" and "0 < i" and "0 < p" and "delete_parent_spec i p a = (Inr (), a')"
  shows "\<exists>s'. lookup_delete_parent i p s = (Inr (), s') \<and> srel 0 a' D s'"
  using delete_served [OF srel_prel [OF assms(1)] assms(2,3)] srel_same [OF assms(1)] assms(4) by auto

lemma replace_parent_run:
  assumes "srel 0 a D s" and "0 < i" and "0 < p" and "0 < p'" and "replace_spec i p p' a = (Inr (), a')"
  shows "\<exists>s'. lookup_replace_parent i p p' s = (Inr (), s') \<and> srel 0 a' D s'"
  using replace_served [OF srel_prel [OF assms(1)] assms(2-4)] srel_same [OF assms(1)] assms(5) by auto

lemma reset_run:
  assumes "srel 1 a D s" and "0 < i"
  shows "\<exists>s'. reset_dirstat_lookup i s = (Inr (), s') \<and> srel 1 a (D(i := zero_stats)) s'"
proof -
  obtain s' where "write_stats i zero_stats (s\<lparr>pathlookup_data_lock := 0\<rparr>) = (Inr (), s')" "srel 0 a (D(i := zero_stats)) s'" using write_stats_run [OF srel_lock [OF assms(1)] assms(2)] by blast
  from srel_locked [where m = "write_stats i zero_stats", OF assms(1) this] show ?thesis using assms(2) by (simp add: reset_dirstat_lookup_def)
qed

lemma root_run:
  assumes "srel 1 a D s" and i: "0 < i" and a: "a i = (0, False, {#})"
  shows "\<exists>s'. root_lookup i s = (Inr (), s') \<and> srel 1 a (D(i := zero_stats)) s'"
proof -
  have l: "srel 0 a D (s\<lparr>pathlookup_data_lock := 0\<rparr>)" using srel_lock [OF assms(1)] .
  have e: "a = a(i := (parentinode \<lparr>parentinode = 0, haveothers = False\<rparr>, haveothers \<lparr>parentinode = 0, haveothers = False\<rparr>, snd (snd (a i))))" using a by (simp add: fun_upd_idem)
  obtain s' where t: "pwrite_primary i \<lparr>parentinode = 0, haveothers = False\<rparr> (s\<lparr>pathlookup_data_lock := 0\<rparr>) = (Inr (), s')" "prel_at 0 a s'" "dirstat_lookup_db s' = dirstat_lookup_db (s\<lparr>pathlookup_data_lock := 0\<rparr>)"
    using primary_served [OF srel_prel [OF l] i e] by blast
  obtain s1 where "pathlookup_write_parent i 0 s = (Inr (), s1)" "srel 1 a D s1"
    using srel_locked [where m = "pwrite_primary i \<lparr>parentinode = 0, haveothers = False\<rparr>", OF assms(1) t(1) srel_same [OF l t(2,3)]] by (auto simp: pathlookup_write_parent_def)
  moreover from this(2) obtain s2 where "reset_dirstat_lookup i s1 = (Inr (), s2)" "srel 1 a (D(i := zero_stats)) s2" using reset_run i by blast
  ultimately show ?thesis by (auto simp: root_lookup_def)
qed

lemma mkdir_run:
  assumes "srel 1 a D s" and "0 < i" and "0 < p"
  shows "\<exists>s'. mkdir_lookup i p s = (Inr (), s') \<and> srel 1 (add_spec i p a) (D(i := zero_stats)) s'"
proof -
  obtain s1 where "add_parent_lookup i p s = (Inr (), s1)" "srel 1 (add_spec i p a) D s1" using add_parent_run [OF assms] by blast
  moreover from this(2) obtain s2 where "reset_dirstat_lookup i s1 = (Inr (), s2)" "srel 1 (add_spec i p a) (D(i := zero_stats)) s2" using reset_run assms(2) by blast
  ultimately show ?thesis by (auto simp: mkdir_lookup_def)
qed

lemma rmdir_run:
  assumes "srel 1 a D s" and "0 < i" and "0 < p" and "delete_parent_spec i p a = (Inr (), a')"
  shows "\<exists>s'. rmdir_lookup i p s = (Inr (), s') \<and> srel 1 a' (D(i := zero_stats)) s'"
proof -
  obtain s1 where "lookup_delete_parent i p (s\<lparr>pathlookup_data_lock := 0\<rparr>) = (Inr (), s1)" "srel 0 a' D s1" using delete_parent_run [OF srel_lock [OF assms(1)] assms(2-4)] by blast
  then obtain s2 where t: "pl_locked (lookup_delete_parent i p) s = (Inr (), s2)" "srel 1 a' D s2" using srel_locked [where m = "lookup_delete_parent i p", OF assms(1)] by blast
  then obtain s3 where "reset_dirstat_lookup i s2 = (Inr (), s3)" "srel 1 a' (D(i := zero_stats)) s3" using reset_run assms(2) by blast
  then show ?thesis using t(1) by (auto simp: rmdir_lookup_def)
qed

lemma link_run:
  assumes "srel 1 a D s" and "0 < i" and "0 < p" and "pchain (\<lambda>i. fst (a i)) p xs" and "i \<notin> set xs"
  shows "\<exists>s'. link_lookup i p v s = (Inr (), s') \<and> srel 1 (add_spec i p a) (bump v (set xs) D) s'"
proof -
  obtain s1 where t: "add_parent_lookup i p s = (Inr (), s1)" "srel 1 (add_spec i p a) D s1" using add_parent_run [OF assms(1-3)] by blast
  have "pchain (\<lambda>i. fst (add_spec i' p a i)) p xs" if "i' = i" for i' using assms(4,5) that by (intro pchain_cong [OF assms(4)]) (auto simp: add_spec_def split: prod.split)
  then obtain s2 where "update_dirstat_parent p v (s1\<lparr>pathlookup_data_lock := 0\<rparr>) = (Inr (), s2)" "srel 0 (add_spec i p a) (bump v (set xs) D) s2"
    using update_parent_run [OF srel_lock [OF t(2)], of p xs v] assms(3) by auto
  then obtain s3 where "pl_locked (update_dirstat_parent p v) s1 = (Inr (), s3)" "srel 1 (add_spec i p a) (bump v (set xs) D) s3" using srel_locked [where m = "update_dirstat_parent p v", OF t(2)] by blast
  then show ?thesis using t(1) by (auto simp: link_lookup_def)
qed

lemma mknod_run:
  assumes "srel 1 a D s" and "0 < i" and "0 < p" and "pchain (\<lambda>i. fst (a i)) p xs" and "i \<notin> set xs"
  shows "\<exists>s'. mknod_lookup i p s = (Inr (), s') \<and> srel 1 (add_spec i p a) (bump new_file_stats (set xs) D) s'"
  using link_run [OF assms] by (simp add: mknod_lookup_def link_lookup_def)

text \<open>What an entry of this kind counts for when it is removed or moved.\<close>

definition counted :: "file_kind \<Rightarrow> DIR_STATS_TYPE \<Rightarrow> DIR_STATS_TYPE" where
  "counted k v = (if k = S_IFREG then v else zero_stats)"

lemma bump_zero [simp]: "bump zero_stats X D = D" "bump (neg_stats zero_stats) X D = D"
  by (simp_all add: bump_def add_stats_def neg_stats_def zero_stats_def fun_eq_iff)

lemma uncount_run:
  assumes "srel 0 a D s" and "pchain (\<lambda>i. fst (a i)) p xs" and "0 < p"
  shows "\<exists>s'. (if k = S_IFREG then update_dirstat_parent p (neg_stats v) else returnE ()) s = (Inr (), s') \<and> srel 0 a (bump (neg_stats (counted k v)) (set xs) D) s'"
  using update_parent_run [OF assms] assms(1) by (simp add: counted_def)

lemma unlink_run:
  assumes "srel 1 a D s" and "0 < i" and "0 < p" and "delete_parent_spec i p a = (Inr (), a')" and "pchain (\<lambda>i. fst (a' i)) p xs"
  shows "\<exists>s'. unlink_lookup i p k v s = (Inr (), s') \<and> srel 1 a' (bump (neg_stats (counted k v)) (set xs) D) s'"
proof -
  obtain s1 where t: "lookup_delete_parent i p (s\<lparr>pathlookup_data_lock := 0\<rparr>) = (Inr (), s1)" "srel 0 a' D s1" using delete_parent_run [OF srel_lock [OF assms(1)] assms(2-4)] by blast
  obtain s2 where "(if k = S_IFREG then update_dirstat_parent p (neg_stats v) else returnE ()) s1 = (Inr (), s2)" "srel 0 a' (bump (neg_stats (counted k v)) (set xs) D) s2"
    using uncount_run [OF t(2) assms(5,3)] by blast
  then show ?thesis unfolding unlink_lookup_def using t(1) by (intro srel_locked [OF assms(1)]) auto
qed

text \<open>An entry under the new name of a rename goes as an unlink or an rmdir takes it out.\<close>

lemma drop_target_unlink: "drop_target_lookup i p k v = bindE (unlink_lookup i p k v) (\<lambda>_. if k = S_IFDIR then reset_dirstat_lookup i else returnE ())"
  by (simp add: drop_target_lookup_def unlink_lookup_def)

lemma drop_file_run: "k \<noteq> S_IFDIR \<Longrightarrow> unlink_lookup i p k v s = (Inr (), s') \<Longrightarrow> drop_target_lookup i p k v s = (Inr (), s')"
  by (simp add: drop_target_unlink)

lemma drop_dir_run:
  assumes "srel 1 a D s" and "0 < i" and "0 < p" and "delete_parent_spec i p a = (Inr (), a')" and "pchain (\<lambda>i. fst (a' i)) p xs"
  shows "\<exists>s'. drop_target_lookup i p S_IFDIR v s = (Inr (), s') \<and> srel 1 a' (D(i := zero_stats)) s'"
proof -
  obtain s1 where t: "unlink_lookup i p S_IFDIR v s = (Inr (), s1)" "srel 1 a' D s1" using unlink_run [OF assms, of S_IFDIR v] by (auto simp: counted_def)
  obtain s2 where "reset_dirstat_lookup i s1 = (Inr (), s2)" "srel 1 a' (D(i := zero_stats)) s2" using reset_run [OF t(2) assms(2)] by blast
  then show ?thesis using t(1) by (simp add: drop_target_unlink)
qed

lemma move_run:
  assumes "srel 1 a D s" and "0 < i" and "0 < p" and "0 < p'" and "replace_spec i p p' a = (Inr (), a')" and "pchain (\<lambda>i. fst (a' i)) p xs" and "pchain (\<lambda>i. fst (a' i)) p' ys"
    and w: "w = (if k = S_IFDIR then v else counted k v)"
  shows "\<exists>s'. move_lookup i p p' k v s = (Inr (), s') \<and> srel 1 a' (bump (neg_stats w) (set xs) (bump w (set ys) D)) s'"
proof -
  obtain s1 where t: "lookup_replace_parent i p p' (s\<lparr>pathlookup_data_lock := 0\<rparr>) = (Inr (), s1)" "srel 0 a' D s1" using replace_parent_run [OF srel_lock [OF assms(1)] assms(2-5)] by blast
  obtain s2 where u: "update_dirstat_parent p' v s1 = (Inr (), s2)" "srel 0 a' (bump v (set ys) D) s2" using update_parent_run [OF t(2) assms(7,4)] by blast
  obtain s3 where x: "update_dirstat_parent p (neg_stats v) s2 = (Inr (), s3)" "srel 0 a' (bump (neg_stats v) (set xs) (bump v (set ys) D)) s3" using update_parent_run [OF u(2) assms(6,3)] by blast
  show ?thesis
  proof (cases "k = S_IFDIR \<or> k = S_IFREG")
    case True
    then have "w = v" using w by (auto simp: counted_def)
    then show ?thesis unfolding move_lookup_def using True t(1) u(1) x by (intro srel_locked [OF assms(1)]) auto
  next
    case False
    then have "w = zero_stats" using w by (simp add: counted_def)
    then show ?thesis unfolding move_lookup_def using False t by (intro srel_locked [OF assms(1)]) auto
  qed
qed

lemma rename_file_run:
  assumes "srel 1 a D s" and "0 < i" and "0 < p" and "0 < p'" and "replace_spec i p p' a = (Inr (), a')" and "pchain (\<lambda>i. fst (a' i)) p xs" and "pchain (\<lambda>i. fst (a' i)) p' ys"
    and "p \<noteq> p'" and "k \<noteq> S_IFDIR"
  shows "\<exists>s'. rename_lookup i p p' k v s = (Inr (), s') \<and> srel 1 a' (bump (neg_stats (counted k v)) (set xs) (bump (counted k v) (set ys) D)) s'"
  using move_run [OF assms(1-7) refl, of k v] assms(8,9) by (simp add: rename_lookup_def)

lemma rename_dir_run:
  assumes "srel 1 a D s" and "0 < i" and "0 < p" and "0 < p'" and "replace_spec i p p' a = (Inr (), a')" and "pchain (\<lambda>i. fst (a' i)) p xs" and "pchain (\<lambda>i. fst (a' i)) p' ys"
    and "p \<noteq> p'"
  shows "\<exists>s'. rename_lookup i p p' S_IFDIR v s = (Inr (), s') \<and> srel 1 a' (bump (neg_stats (D i)) (set xs) (bump (D i) (set ys) D)) s'"
proof -
  have l: "srel 0 a D (s\<lparr>pathlookup_data_lock := 0\<rparr>)" using srel_lock [OF assms(1)] .
  obtain s1 where "pl_locked (read_stats i) s = (Inr (D i), s1)" "srel 1 a D s1" using srel_locked [where m = "read_stats i", OF assms(1) read_stats_run [OF l assms(2)] l] by blast
  moreover from this(2) obtain s2 where "move_lookup i p p' S_IFDIR (D i) s1 = (Inr (), s2)" "srel 1 a' (bump (neg_stats (D i)) (set xs) (bump (D i) (set ys) D)) s2"
    using move_run [OF _ assms(2-7), of D s1 "D i" S_IFDIR "D i"] by auto
  ultimately show ?thesis using assms(2,8) by (auto simp: rename_lookup_def read_dirstat_lookup_def)
qed

subsection \<open>Trees\<close>

datatype stat_place = Local | Cloud | Hybrid

fun at_place :: "stat_place \<Rightarrow> DIR_STATS_TYPE \<Rightarrow> int" where
  "at_place Local d = num_local d"
| "at_place Cloud d = num_cloud d"
| "at_place Hybrid d = num_hybrid d"

lemma at_place_simps [simp]: "at_place l (add_stats d e) = at_place l d + at_place l e" "at_place l (neg_stats d) = - at_place l d" "at_place l zero_stats = 0"
  by (cases l; simp add: add_stats_def neg_stats_def zero_stats_def)+

text \<open>The parent of every directory (\<open>0\<close> for the root), the kind and the statistics of every file, and the links: pairs of a file and a directory.\<close>

record file_tree =
  t_dirs :: "ino_t set"
  t_par :: "ino_t \<Rightarrow> ino_t"
  t_kind :: "ino_t \<Rightarrow> file_kind"
  t_stats :: "ino_t \<Rightarrow> DIR_STATS_TYPE"
  t_links :: "(ino_t \<times> ino_t) multiset"

text \<open>What a directory should have: every link below it counts.\<close>

definition below_sum :: "file_tree \<Rightarrow> stat_place \<Rightarrow> ino_t \<Rightarrow> int" where
  "below_sum t l d = (\<Sum>x \<in># t_links t. if d \<in> anc (t_par t) (snd x) then at_place l (t_stats t (fst x)) else 0)"

definition links_of :: "file_tree \<Rightarrow> ino_t \<Rightarrow> ino_t multiset" where
  "links_of t f = image_mset snd (filter_mset (\<lambda>x. fst x = f) (t_links t))"

text \<open>A link leads from a directory to a regular file, or to a symbolic link, which counts for nothing.\<close>

definition link_fine :: "file_tree \<Rightarrow> ino_t \<times> ino_t \<Rightarrow> bool" where
  "link_fine t x \<longleftrightarrow> fst x \<notin> t_dirs t \<and> 0 < fst x \<and> snd x \<in> t_dirs t \<and> (t_kind t (fst x) = S_IFREG \<or> t_kind t (fst x) = S_IFLNK \<and> t_stats t (fst x) = zero_stats)"

definition tree_ok :: "file_tree \<Rightarrow> bool" where
  "tree_ok t \<longleftrightarrow> 0 \<notin> t_dirs t \<and> (\<forall>d \<in> t_dirs t. \<exists>xs. pchain (t_par t) d xs \<and> set xs \<subseteq> t_dirs t) \<and> (\<forall>x \<in># t_links t. link_fine t x)"

datatype tree_req = Mkroot ino_t | Mknod ino_t ino_t file_kind | Mkdir ino_t ino_t | Symlink ino_t ino_t | Link ino_t ino_t DIR_STATS_TYPE | Unlink ino_t ino_t file_kind DIR_STATS_TYPE | Rmdir ino_t ino_t
  | Drop_Target ino_t ino_t file_kind DIR_STATS_TYPE | Rename ino_t ino_t ino_t file_kind DIR_STATS_TYPE | Relocate ino_t DIR_STATS_TYPE

fun handle_tree :: "tree_req \<Rightarrow> (lookup_state, unit) sm" where
  "handle_tree (Mkroot d) = root_lookup d"
| "handle_tree (Mknod f p k) = mknod_lookup f p"
| "handle_tree (Mkdir d p) = mkdir_lookup d p"
| "handle_tree (Symlink f p) = symlink_lookup f p"
| "handle_tree (Link f p v) = link_lookup f p v"
| "handle_tree (Unlink f p k v) = unlink_lookup f p k v"
| "handle_tree (Rmdir d p) = rmdir_lookup d p"
| "handle_tree (Drop_Target i p k v) = drop_target_lookup i p k v"
| "handle_tree (Rename i p q k v) = rename_lookup i p q k v"
| "handle_tree (Relocate f v) = update_dirstat_file f v"

text \<open>
  What the handlers have checked before they change the databases: new inode numbers are not in use, directories that are removed are empty, a directory is not moved below itself, and the kind and
  the statistics are those of the inode.  \<^verbatim>\<open>mknod\<close> makes regular files, FIFOs and sockets; \<^verbatim>\<open>link\<close> is for regular files.
\<close>

definition may_unlink :: "ino_t \<Rightarrow> ino_t \<Rightarrow> file_kind \<Rightarrow> DIR_STATS_TYPE \<Rightarrow> file_tree \<Rightarrow> bool" where
  "may_unlink f p k v t \<longleftrightarrow> (f, p) \<in># t_links t \<and> k = t_kind t f \<and> (k = S_IFREG \<longrightarrow> v = t_stats t f)"

definition may_rmdir :: "ino_t \<Rightarrow> ino_t \<Rightarrow> file_tree \<Rightarrow> bool" where
  "may_rmdir d p t \<longleftrightarrow> d \<in> t_dirs t \<and> t_par t d = p \<and> p \<noteq> 0 \<and> (\<forall>x \<in> t_dirs t. t_par t x \<noteq> d) \<and> (\<forall>x \<in># t_links t. snd x \<noteq> d)"

definition without_link :: "ino_t \<Rightarrow> ino_t \<Rightarrow> file_tree \<Rightarrow> file_tree" where
  "without_link f p t = t\<lparr>t_links := t_links t - {#(f, p)#}\<rparr>"

definition without_dir :: "ino_t \<Rightarrow> file_tree \<Rightarrow> file_tree" where
  "without_dir d t = t\<lparr>t_dirs := t_dirs t - {d}, t_par := (t_par t)(d := 0)\<rparr>"

fun tree_allowed :: "tree_req \<Rightarrow> file_tree \<Rightarrow> bool" where
  "tree_allowed (Mkroot d) t \<longleftrightarrow> 0 < d \<and> d \<notin> t_dirs t \<and> links_of t d = {#}"
| "tree_allowed (Mknod f p k) t \<longleftrightarrow> 0 < f \<and> f \<notin> t_dirs t \<and> links_of t f = {#} \<and> p \<in> t_dirs t \<and> k \<in> {S_IFREG, S_IFIFO, S_IFSOCK}"
| "tree_allowed (Mkdir d p) t \<longleftrightarrow> 0 < d \<and> d \<notin> t_dirs t \<and> links_of t d = {#} \<and> p \<in> t_dirs t"
| "tree_allowed (Symlink f p) t \<longleftrightarrow> 0 < f \<and> f \<notin> t_dirs t \<and> links_of t f = {#} \<and> p \<in> t_dirs t"
| "tree_allowed (Link f p v) t \<longleftrightarrow> links_of t f \<noteq> {#} \<and> t_kind t f = S_IFREG \<and> v = t_stats t f \<and> p \<in> t_dirs t"
| "tree_allowed (Unlink f p k v) t \<longleftrightarrow> may_unlink f p k v t"
| "tree_allowed (Rmdir d p) t \<longleftrightarrow> may_rmdir d p t"
| "tree_allowed (Drop_Target i p k v) t \<longleftrightarrow> (if k = S_IFDIR then may_rmdir i p t else may_unlink i p k v t)"
| "tree_allowed (Rename i p q k v) t \<longleftrightarrow> q \<in> t_dirs t \<and>
     (if k = S_IFDIR then i \<in> t_dirs t \<and> t_par t i = p \<and> p \<noteq> 0 \<and> i \<notin> anc (t_par t) q else may_unlink i p k v t)"
| "tree_allowed (Relocate f v) t \<longleftrightarrow> 0 < f \<and> f \<notin> t_dirs t \<and> t_kind t f = S_IFREG"

fun tree_step :: "tree_req \<Rightarrow> file_tree \<Rightarrow> file_tree" where
  "tree_step (Mkroot d) t = t\<lparr>t_dirs := insert d (t_dirs t), t_par := (t_par t)(d := 0)\<rparr>"
| "tree_step (Mknod f p k) t = t\<lparr>t_kind := (t_kind t)(f := k), t_stats := (t_stats t)(f := new_file_stats), t_links := add_mset (f, p) (t_links t)\<rparr>"
| "tree_step (Mkdir d p) t = t\<lparr>t_dirs := insert d (t_dirs t), t_par := (t_par t)(d := p)\<rparr>"
| "tree_step (Symlink f p) t = t\<lparr>t_kind := (t_kind t)(f := S_IFLNK), t_stats := (t_stats t)(f := zero_stats), t_links := add_mset (f, p) (t_links t)\<rparr>"
| "tree_step (Link f p v) t = t\<lparr>t_links := add_mset (f, p) (t_links t)\<rparr>"
| "tree_step (Unlink f p k v) t = without_link f p t"
| "tree_step (Rmdir d p) t = without_dir d t"
| "tree_step (Drop_Target i p k v) t = (if k = S_IFDIR then without_dir i t else without_link i p t)"
| "tree_step (Rename i p q k v) t = (if k = S_IFDIR then t\<lparr>t_par := (t_par t)(i := q)\<rparr> else t\<lparr>t_links := add_mset (i, q) (t_links t - {#(i, p)#})\<rparr>)"
| "tree_step (Relocate f v) t = t\<lparr>t_stats := (t_stats t)(f := add_stats (t_stats t f) v)\<rparr>"

text \<open>A FIFO or a socket.\<close>

fun makes_special :: "tree_req \<Rightarrow> bool" where
  "makes_special (Mknod f p k) \<longleftrightarrow> k \<noteq> S_IFREG"
| "makes_special _ \<longleftrightarrow> False"

subsection \<open>Chains in a tree\<close>

lemma tree_chain:
  assumes "tree_ok t" and "d \<in> t_dirs t"
  obtains xs where "pchain (t_par t) d xs" "set xs \<subseteq> t_dirs t" "anc (t_par t) d = set xs"
  using assms anc_chain by (metis tree_ok_def)

lemma tree_0: "tree_ok t \<Longrightarrow> d \<in> t_dirs t \<Longrightarrow> 0 < d"
  by (metis tree_ok_def gr0I)

text \<open>A directory whose parent changes but which is in no chain.\<close>

lemma anc_upd: "pchain par p xs \<Longrightarrow> d \<notin> set xs \<Longrightarrow> pchain (par(d := q)) p xs \<and> anc (par(d := q)) p = anc par p"
  by (metis pchain_cong anc_chain fun_upd_other)

lemma chain_parent: "pchain par p xs \<Longrightarrow> d \<in> set xs \<Longrightarrow> d \<noteq> p \<Longrightarrow> \<exists>x \<in> set xs. par x = d"
proof (induction xs arbitrary: p)
  case (Cons x xs)
  then show ?case by (cases "d = par x") auto
qed simp

text \<open>A directory is moved: the part of a chain above it is replaced.\<close>

lemma anc_moved:
  assumes p: "pchain par p xs" and d: "d \<in> set xs" and q: "pchain par q ys" "d \<notin> set ys" and z: "pchain par (par d) zs"
  obtains us where "xs = us @ d # zs" "pchain (par(d := q)) p (us @ d # ys)"
proof -
  obtain us ws where x: "xs = us @ d # ws" "pchain par (par d) ws" "d \<notin> set us" using pchain_split [OF p d] .
  have w: "ws = zs" using pchain_unique [OF x(2) z] .
  have e: "pchain (par(d := q)) q ys" using anc_upd [OF q] by blast
  have d0: "d \<noteq> 0" using pchain_suffix [of par p us d ws] p x(1) by simp
  have "pchain par' p (us @ d # ys)" if "par' d = q" "\<And>x. x \<noteq> d \<Longrightarrow> par' x = par x" "pchain par' q ys" for par'
    using p [unfolded x(1)] x(3) by (induction us arbitrary: p) (use d0 that in auto)
  then have "pchain (par(d := q)) p (us @ d # ys)" using e by simp
  then show thesis using that x(1) w by blast
qed

subsection \<open>The sums\<close>

lemma below_sum_mono:
  assumes "\<And>x. x \<in># t_links t \<Longrightarrow> t_stats t' (fst x) = t_stats t (fst x)" and "t_links t' = t_links t" and "\<And>x. x \<in># t_links t \<Longrightarrow> anc (t_par t') (snd x) = anc (t_par t) (snd x)"
  shows "below_sum t' l d = below_sum t l d"
  unfolding below_sum_def assms(2) using assms(1,3) by (intro arg_cong [of _ _ sum_mset] image_mset_cong) auto

lemma links_of_iff: "links_of t f = {#} \<longleftrightarrow> (\<forall>x \<in># t_links t. fst x \<noteq> f)"
  by (auto simp: links_of_def filter_mset_eq_conv)

lemma below_sum_relocate:
  "(\<Sum>x \<in># L. if d \<in> anc par (snd x) then at_place l ((v(f := add_stats (v f) e)) (fst x)) else 0) =
    (\<Sum>x \<in># L. if d \<in> anc par (snd x) then at_place l (v (fst x)) else 0) + (\<Sum>p \<in># image_mset snd (filter_mset (\<lambda>x. fst x = f) L). if d \<in> anc par p then at_place l e else 0)"
  by (induction L) auto

text \<open>A moved directory takes its own sum along.\<close>

lemma below_sum_moved:
  assumes t: "tree_ok t" and d: "d \<in> t_dirs t" and q: "q \<in> t_dirs t" "d \<notin> anc (t_par t) q" and p: "t_par t d = p" "p \<noteq> 0"
  shows "below_sum (t\<lparr>t_par := (t_par t)(d := q)\<rparr>) l x = below_sum t l x + (if x \<in> anc (t_par t) q then below_sum t l d else 0) - (if x \<in> anc (t_par t) p then below_sum t l d else 0)"
proof -
  let ?par = "t_par t" and ?par' = "(t_par t)(d := q)"
  obtain ds where ds: "pchain ?par d ds" "set ds \<subseteq> t_dirs t" using tree_chain [OF t d] by metis
  then obtain zs where z: "pchain ?par p zs" "ds = d # zs" using p tree_0 [OF t d] by (cases ds) auto
  obtain ys where y: "pchain ?par q ys" "anc ?par q = set ys" using tree_chain [OF t q(1)] by metis
  have step: "(if x \<in> anc ?par' r then v else 0) = (if x \<in> anc ?par r then v else 0) + (if d \<in> anc ?par r then (if x \<in> anc ?par q then v else 0) - (if x \<in> anc ?par p then v else 0) else 0)"
    if r: "r \<in> t_dirs t" for r and v :: int
  proof -
    obtain xs where xs: "pchain ?par r xs" "anc ?par r = set xs" using tree_chain [OF t r] by metis
    show ?thesis
    proof (cases "d \<in> set xs")
      case False
      then show ?thesis using anc_upd [OF xs(1) False, of q] xs(2) by simp
    next
      case True
      have zp: "pchain ?par (?par d) zs" using z(1) p(1) by simp
      obtain us where u: "xs = us @ d # zs" "pchain ?par' r (us @ d # ys)" using anc_moved [OF xs(1) True y(1) _ zp] q(2) y(2) by blast
      have "distinct (us @ d # zs)" "distinct (us @ d # ys)" using pchain_distinct xs(1) u by blast+
      then show ?thesis using True xs(2) u(1) anc_chain [OF u(2)] anc_chain [OF z(1)] y(2) by auto
    qed
  qed
  have sum: "(\<Sum>y \<in># L. if x \<in> anc ?par' (snd y) then at_place l (t_stats t (fst y)) else 0) = (\<Sum>y \<in># L. if x \<in> anc ?par (snd y) then at_place l (t_stats t (fst y)) else 0)
      + (if x \<in> anc ?par q then \<Sum>y \<in># L. if d \<in> anc ?par (snd y) then at_place l (t_stats t (fst y)) else 0 else 0)
      - (if x \<in> anc ?par p then \<Sum>y \<in># L. if d \<in> anc ?par (snd y) then at_place l (t_stats t (fst y)) else 0 else 0)"
    if "\<forall>y \<in># L. snd y \<in> t_dirs t" for L
    using that by (induction L) (auto simp: step)
  have "\<forall>y \<in># t_links t. snd y \<in> t_dirs t" using t by (simp add: tree_ok_def link_fine_def)
  from sum [OF this] show ?thesis by (simp add: below_sum_def cong: if_cong)
qed

subsection \<open>The invariant\<close>

text \<open>The parents of a file are the directories of its links.\<close>

definition parents_are :: "ino_t \<times> bool \<times> ino_t multiset \<Rightarrow> ino_t multiset \<Rightarrow> bool" where
  "parents_are b N \<longleftrightarrow> (case b of (q, f, M) \<Rightarrow> f = (M \<noteq> {#}) \<and> N = (if q = 0 then {#} else {#q#}) + M)"

lemma parents_are_none: "parents_are b {#} \<longleftrightarrow> b = (0, False, {#})"
  by (auto simp: parents_are_def split: prod.splits if_splits)

lemma parents_add: "parents_are (a f) N \<Longrightarrow> 0 < p \<Longrightarrow> parents_are (add_spec f p a f) (add_mset p N)"
  by (auto simp: parents_are_def add_spec_def split: prod.splits)

lemma parents_delete:
  assumes "parents_are (a f) N" and "p \<in># N" and "0 < p"
  shows "\<exists>b. delete_parent_spec f p a = (Inr (), a(f := b)) \<and> parents_are b (N - {#p#})"
proof -
  obtain q g M where a: "a f = (q, g, M)" "g = (M \<noteq> {#})" "N = (if q = 0 then {#} else {#q#}) + M" using assms(1) by (cases "a f") (simp add: parents_are_def)
  show ?thesis
  proof (cases "q = p")
    case True
    then show ?thesis using a assms(3) by (intro exI [of _ "(0, g, M)"]) (simp add: delete_parent_spec_def parents_are_def)
  next
    case False
    then have "p \<in># M" using a(3) assms(2) by (auto split: if_splits)
    then show ?thesis using a False by (intro exI [of _ "(q, M - {#p#} \<noteq> {#}, M - {#p#})"]) (auto simp: delete_parent_spec_def parents_are_def)
  qed
qed

lemma parents_replace:
  assumes "parents_are (a f) N" and "p \<in># N" and "0 < p" and "0 < p'"
  shows "\<exists>b. replace_spec f p p' a = (Inr (), a(f := b)) \<and> parents_are b (add_mset p' (N - {#p#}))"
proof -
  obtain q g M where a: "a f = (q, g, M)" "g = (M \<noteq> {#})" "N = (if q = 0 then {#} else {#q#}) + M" using assms(1) by (cases "a f") (simp add: parents_are_def)
  show ?thesis
  proof (cases "q = p")
    case True
    then show ?thesis using a assms(3,4) by (intro exI [of _ "(p', g, M)"]) (simp add: replace_spec_def parents_are_def)
  next
    case False
    then have "p \<in># M" using a(3) assms(2) by (auto split: if_splits)
    then show ?thesis using a False by (intro exI [of _ "(q, g, M - {#p#} + {#p'#})"]) (auto simp: replace_spec_def parents_are_def)
  qed
qed

lemma parents_fetch: "parents_are (a f) N \<Longrightarrow> fetch_spec f a xs \<Longrightarrow> mset xs = N"
  by (auto simp: parents_are_def fetch_spec_def split: prod.splits)

definition tree_rel :: "file_tree \<Rightarrow> parents_view \<Rightarrow> (ino_t \<Rightarrow> DIR_STATS_TYPE) \<Rightarrow> bool" where
  "tree_rel t a D \<longleftrightarrow> tree_ok t \<and> (\<forall>d \<in> t_dirs t. a d = (t_par t d, False, {#})) \<and> (\<forall>f > 0. f \<notin> t_dirs t \<longrightarrow> parents_are (a f) (links_of t f)) \<and>
     (\<forall>d \<in> t_dirs t. \<forall>l. at_place l (D d) = below_sum t l d)"

lemma tree_rel_chain:
  assumes "tree_rel t a D" and "d \<in> t_dirs t"
  obtains xs where "pchain (t_par t) d xs" "set xs \<subseteq> t_dirs t" "anc (t_par t) d = set xs" "pchain (\<lambda>i. fst (a i)) d xs"
proof -
  have t: "tree_ok t" "\<forall>d \<in> t_dirs t. a d = (t_par t d, False, {#})" using assms(1) by (simp_all add: tree_rel_def)
  obtain xs where xs: "pchain (t_par t) d xs" "set xs \<subseteq> t_dirs t" "anc (t_par t) d = set xs" using tree_chain [OF t(1) assms(2)] .
  have "pchain (\<lambda>i. fst (a i)) d xs" using xs(1) by (rule pchain_cong) (use t(2) xs(2) in auto)
  then show thesis using that xs by blast
qed

text \<open>A change of the links of a file.\<close>

lemma tree_rel_file:
  assumes r: "tree_rel t a D" and f: "0 < f" "f \<notin> t_dirs t" and t': "t_dirs t' = t_dirs t" "t_par t' = t_par t"
    and L: "\<forall>x \<in># t_links t'. link_fine t' x" "\<And>g. g \<noteq> f \<Longrightarrow> links_of t' g = links_of t g" and b: "parents_are b (links_of t' f)"
    and D: "\<And>d l. d \<in> t_dirs t \<Longrightarrow> at_place l (D' d) = below_sum t' l d"
  shows "tree_rel t' (a(f := b)) D'"
proof -
  have o: "tree_ok t'" using r L(1) t' by (simp add: tree_rel_def tree_ok_def)
  have d: "(a(f := b)) d = (t_par t' d, False, {#})" if "d \<in> t_dirs t'" for d using r f(2) t' that by (auto simp: tree_rel_def)
  have p: "parents_are ((a(f := b)) g) (links_of t' g)" if "0 < g" "g \<notin> t_dirs t'" for g using r b L(2) [of g] t' that by (cases "g = f") (simp_all add: tree_rel_def)
  show ?thesis unfolding tree_rel_def using o d p D t' by simp
qed

lemma at_bump [simp]: "at_place l (bump v X D d) = at_place l (D d) + (if d \<in> X then at_place l v else 0)"
  by (simp add: bump_def)

text \<open>One link more, one link less.\<close>

lemma links_of_link: "t_links t' = add_mset x (t_links t) \<Longrightarrow> links_of t' g = (if fst x = g then {#snd x#} else {#}) + links_of t g"
  by (simp add: links_of_def)

lemma below_sum_link:
  assumes "t_links t' = add_mset x (t_links t)" and "t_par t' = t_par t" and "\<And>y. y \<in># t_links t \<Longrightarrow> t_stats t' (fst y) = t_stats t (fst y)"
  shows "below_sum t' l d = (if d \<in> anc (t_par t) (snd x) then at_place l (t_stats t' (fst x)) else 0) + below_sum t l d"
proof -
  have "(\<Sum>y \<in># t_links t. if d \<in> anc (t_par t) (snd y) then at_place l (t_stats t' (fst y)) else 0) = below_sum t l d"
    unfolding below_sum_def using assms(3) by (intro arg_cong [of _ _ sum_mset] image_mset_cong) auto
  then show ?thesis by (simp add: below_sum_def assms(1,2) cong: if_cong)
qed

lemma at_D: "tree_rel t a D \<Longrightarrow> d \<in> t_dirs t \<Longrightarrow> at_place l (D d) = below_sum t l d" and at_a: "tree_rel t a D \<Longrightarrow> d \<in> t_dirs t \<Longrightarrow> a d = (t_par t d, False, {#})"
  and at_file: "tree_rel t a D \<Longrightarrow> 0 < f \<Longrightarrow> f \<notin> t_dirs t \<Longrightarrow> parents_are (a f) (links_of t f)" and rel_ok: "tree_rel t a D \<Longrightarrow> tree_ok t"
  by (simp_all add: tree_rel_def)

lemma link_ok: "tree_ok t \<Longrightarrow> (f, p) \<in># t_links t \<Longrightarrow> f \<notin> t_dirs t \<and> 0 < f \<and> p \<in> t_dirs t \<and> 0 < p"
  using tree_0 by (fastforce simp: tree_ok_def link_fine_def)

lemma links_fine: "tree_ok t \<Longrightarrow> x \<in># t_links t \<Longrightarrow> link_fine t x"
  by (simp add: tree_ok_def)

lemma link_counted: "tree_ok t \<Longrightarrow> (f, p) \<in># t_links t \<Longrightarrow> k = t_kind t f \<Longrightarrow> (k = S_IFREG \<Longrightarrow> v = t_stats t f) \<Longrightarrow> counted k v = t_stats t f \<and> k \<noteq> S_IFDIR"
  using links_fine by (fastforce simp: link_fine_def counted_def)

lemma link_fine_upd: "link_fine t x \<Longrightarrow> t_dirs t' = t_dirs t \<Longrightarrow> t_kind t' (fst x) = t_kind t (fst x) \<Longrightarrow> t_stats t' (fst x) = t_stats t (fst x) \<Longrightarrow> link_fine t' x"
  by (simp add: link_fine_def)

subsection \<open>The requests\<close>

definition tree_state :: "file_tree \<Rightarrow> lookup_state \<Rightarrow> bool" where
  "tree_state t s \<longleftrightarrow> (\<exists>a D. srel 1 a D s \<and> tree_rel t a D)"

text \<open>One link more, to a new file or to one that has others.\<close>

lemma tree_rel_link:
  assumes r: "tree_rel t a D" and f: "0 < f" "f \<notin> t_dirs t" "p \<in> t_dirs t" and k: "k = S_IFREG \<or> k = S_IFLNK \<and> v = zero_stats"
    and old: "links_of t f \<noteq> {#} \<Longrightarrow> v = t_stats t f \<and> k = t_kind t f"
    and t': "t' = t\<lparr>t_kind := (t_kind t)(f := k), t_stats := (t_stats t)(f := v), t_links := add_mset (f, p) (t_links t)\<rparr>"
  shows "tree_rel t' (add_spec f p a) (bump v (anc (t_par t) p) D)"
proof -
  have a: "add_spec f p a = a(f := add_spec f p a f)" by (simp add: add_spec_def split: prod.split)
  have e: "t_dirs t' = t_dirs t" "t_par t' = t_par t" "t_links t' = add_mset (f, p) (t_links t)" "t_stats t' f = v" "t_kind t' f = k" using t' by simp_all
  have st: "t_stats t' (fst x) = t_stats t (fst x)" "t_kind t' (fst x) = t_kind t (fst x)" if "x \<in># t_links t" for x using old that t' by (auto simp: links_of_iff)
  have l: "links_of t' g = (if f = g then {#p#} else {#}) + links_of t g" for g using links_of_link [OF e(3), of g] by simp
  have b: "below_sum t' l d = (if d \<in> anc (t_par t) p then at_place l v else 0) + below_sum t l d" for l d using below_sum_link [OF e(3,2) st(1)] e(4) by simp
  have p: "parents_are (add_spec f p a f) (links_of t' f)" using parents_add [where f = f and a = a, OF at_file [OF r f(1,2)] tree_0 [OF rel_ok [OF r] f(3)]] l by simp
  have "link_fine t' (f, p)" using f k e by (auto simp: link_fine_def)
  then have "\<forall>x \<in># t_links t'. link_fine t' x" using link_fine_upd [OF links_fine [OF rel_ok [OF r]] e(1)] st e(3) by auto
  then have "tree_rel t' (a(f := add_spec f p a f)) (bump v (anc (t_par t) p) D)" by (intro tree_rel_file [OF r f(1,2) e(1,2) _ _ p]) (use l b at_D [OF r] in simp_all)
  then show ?thesis by (simp only: a [symmetric])
qed

text \<open>One link less.\<close>

lemma tree_rel_unlink:
  assumes r: "tree_rel t a D" and fp: "(f, p) \<in># t_links t"
  obtains b where "delete_parent_spec f p a = (Inr (), a(f := b))" "tree_rel (without_link f p t) (a(f := b)) (bump (neg_stats (t_stats t f)) (anc (t_par t) p) D)"
proof -
  have f: "f \<notin> t_dirs t" "0 < f" "p \<in> t_dirs t" "0 < p" using link_ok [OF rel_ok [OF r] fp] by auto
  let ?t = "t\<lparr>t_links := t_links t - {#(f, p)#}\<rparr>"
  have L: "t_links t = add_mset (f, p) (t_links ?t)" using fp by simp
  have l: "links_of t g = (if f = g then {#p#} else {#}) + links_of ?t g" for g using links_of_link [OF L, of g] by simp
  have "p \<in># links_of t f" using l [of f] by simp
  from parents_delete [where f = f and a = a, OF at_file [OF r f(2,1)] this f(4)] obtain b where b: "delete_parent_spec f p a = (Inr (), a(f := b))" "parents_are b (links_of ?t f)"
    using l [of f] by auto
  have m: "below_sum t l d = (if d \<in> anc (t_par t) p then at_place l (t_stats t f) else 0) + below_sum ?t l d" for l d using below_sum_link [OF L] by simp
  have "\<forall>x \<in># t_links ?t. link_fine ?t x" using links_fine [OF rel_ok [OF r]] by (auto simp: link_fine_def dest: in_diffD)
  then have "tree_rel ?t (a(f := b)) (bump (neg_stats (t_stats t f)) (anc (t_par t) p) D)"
    by (intro tree_rel_file [OF r f(2,1) _ _ _ _ b(2)]) (use l m at_D [OF r] in simp_all)
  then show thesis using that b(1) by (simp add: without_link_def)
qed

lemma tree_state_chain:
  assumes "tree_rel t a D" and "p \<in> t_dirs t"
  obtains xs where "set xs \<subseteq> t_dirs t" "anc (t_par t) p = set xs" "pchain (\<lambda>i. fst (a i)) p xs" "0 < p"
  using tree_rel_chain [OF assms] tree_0 [OF rel_ok [OF assms(1)] assms(2)] by metis

lemma mknod_served:
  assumes "tree_state t s" and al: "tree_allowed (Mknod f p k) t" and "\<not> makes_special (Mknod f p k)"
  shows "\<exists>s'. handle_tree (Mknod f p k) s = (Inr (), s') \<and> tree_state (tree_step (Mknod f p k) t) s'"
proof -
  obtain a D where r: "srel 1 a D s" "tree_rel t a D" using assms(1) by (auto simp: tree_state_def)
  have f: "0 < f" "f \<notin> t_dirs t" "p \<in> t_dirs t" "links_of t f = {#}" "k = S_IFREG" using al assms(3) by auto
  obtain xs where xs: "set xs \<subseteq> t_dirs t" "anc (t_par t) p = set xs" "pchain (\<lambda>i. fst (a i)) p xs" "0 < p" using tree_state_chain [OF r(2) f(3)] .
  obtain s' where s': "mknod_lookup f p s = (Inr (), s')" "srel 1 (add_spec f p a) (bump new_file_stats (set xs) D) s'" using mknod_run [OF r(1) f(1) xs(4,3)] xs(1) f(2) by blast
  have "tree_rel (tree_step (Mknod f p k) t) (add_spec f p a) (bump new_file_stats (anc (t_par t) p) D)" by (rule tree_rel_link [OF r(2) f(1-3)]) (use f(4,5) in auto)
  then show ?thesis using s' xs(2) by (auto simp: tree_state_def)
qed

lemma symlink_served:
  assumes "tree_state t s" and al: "tree_allowed (Symlink f p) t"
  shows "\<exists>s'. handle_tree (Symlink f p) s = (Inr (), s') \<and> tree_state (tree_step (Symlink f p) t) s'"
proof -
  obtain a D where r: "srel 1 a D s" "tree_rel t a D" using assms(1) by (auto simp: tree_state_def)
  have f: "0 < f" "f \<notin> t_dirs t" "p \<in> t_dirs t" "links_of t f = {#}" "0 < p" using al tree_0 [OF rel_ok [OF r(2)]] by auto
  obtain s' where s': "symlink_lookup f p s = (Inr (), s')" "srel 1 (add_spec f p a) D s'" using add_parent_run [OF r(1) f(1,5)] by (auto simp: symlink_lookup_def)
  have "tree_rel (tree_step (Symlink f p) t) (add_spec f p a) (bump zero_stats (anc (t_par t) p) D)" by (rule tree_rel_link [OF r(2) f(1-3)]) (use f(4) in auto)
  then show ?thesis using s' by (auto simp: tree_state_def)
qed

lemma link_served:
  assumes "tree_state t s" and al: "tree_allowed (Link f p v) t"
  shows "\<exists>s'. handle_tree (Link f p v) s = (Inr (), s') \<and> tree_state (tree_step (Link f p v) t) s'"
proof -
  obtain a D where r: "srel 1 a D s" "tree_rel t a D" using assms(1) by (auto simp: tree_state_def)
  have l: "links_of t f \<noteq> {#}" "t_kind t f = S_IFREG" "v = t_stats t f" "p \<in> t_dirs t" using al by auto
  then have f: "0 < f" "f \<notin> t_dirs t" using link_ok [OF rel_ok [OF r(2)]] by (auto simp: links_of_iff)
  obtain xs where xs: "set xs \<subseteq> t_dirs t" "anc (t_par t) p = set xs" "pchain (\<lambda>i. fst (a i)) p xs" "0 < p" using tree_state_chain [OF r(2) l(4)] .
  obtain s' where s': "link_lookup f p v s = (Inr (), s')" "srel 1 (add_spec f p a) (bump v (set xs) D) s'" using link_run [OF r(1) f(1) xs(4,3)] xs(1) f(2) by blast
  have "tree_rel (tree_step (Link f p v) t) (add_spec f p a) (bump v (anc (t_par t) p) D)" by (rule tree_rel_link [where k = S_IFREG, OF r(2) f l(4)]) (use l in \<open>auto simp: fun_upd_idem\<close>)
  then show ?thesis using s' xs(2) by (auto simp: tree_state_def)
qed

lemma unlink_served:
  assumes "tree_state t s" and al: "tree_allowed (Unlink f p k v) t"
  shows "\<exists>s'. handle_tree (Unlink f p k v) s = (Inr (), s') \<and> tree_state (tree_step (Unlink f p k v) t) s'"
proof -
  obtain a D where r: "srel 1 a D s" "tree_rel t a D" using assms(1) by (auto simp: tree_state_def)
  have fp: "(f, p) \<in># t_links t" "counted k v = t_stats t f" using al link_counted [OF rel_ok [OF r(2)]] by (auto simp: may_unlink_def)
  have f: "f \<notin> t_dirs t" "0 < f" "p \<in> t_dirs t" using link_ok [OF rel_ok [OF r(2)] fp(1)] by auto
  obtain xs where xs: "set xs \<subseteq> t_dirs t" "anc (t_par t) p = set xs" "pchain (\<lambda>i. fst (a i)) p xs" "0 < p" using tree_state_chain [OF r(2) f(3)] .
  obtain b where b: "delete_parent_spec f p a = (Inr (), a(f := b))" "tree_rel (without_link f p t) (a(f := b)) (bump (neg_stats (t_stats t f)) (anc (t_par t) p) D)"
    using tree_rel_unlink [OF r(2) fp(1)] .
  have "pchain (\<lambda>i. fst ((a(f := b)) i)) p xs" by (rule pchain_cong [OF xs(3)]) (use xs(1) f(1) in auto)
  from unlink_run [OF r(1) f(2) xs(4) b(1) this, of k v] obtain s' where "unlink_lookup f p k v s = (Inr (), s')" "srel 1 (a(f := b)) (bump (neg_stats (t_stats t f)) (anc (t_par t) p) D) s'"
    unfolding fp(2) xs(2) by blast
  then show ?thesis using b(2) by (auto simp: tree_state_def)
qed

lemma rename_file_served:
  assumes "tree_state t s" and al: "tree_allowed (Rename f p q k v) t" and k: "k \<noteq> S_IFDIR"
  shows "\<exists>s'. handle_tree (Rename f p q k v) s = (Inr (), s') \<and> tree_state (tree_step (Rename f p q k v) t) s'"
proof (cases "p = q")
  case True
  then show ?thesis using assms by (auto simp: rename_lookup_def may_unlink_def)
next
  case False
  obtain a D where r: "srel 1 a D s" "tree_rel t a D" using assms(1) by (auto simp: tree_state_def)
  have fp: "(f, p) \<in># t_links t" "q \<in> t_dirs t" "counted k v = t_stats t f" using al k link_counted [OF rel_ok [OF r(2)]] by (auto simp: may_unlink_def)
  have f: "f \<notin> t_dirs t" "0 < f" "p \<in> t_dirs t" using link_ok [OF rel_ok [OF r(2)] fp(1)] by auto
  let ?t = "tree_step (Rename f p q k v) t" and ?u = "t\<lparr>t_links := t_links t - {#(f, p)#}\<rparr>"
  have L: "t_links t = add_mset (f, p) (t_links ?u)" "t_links ?t = add_mset (f, q) (t_links ?u)" using fp(1) k by simp_all
  have l: "links_of t g = (if f = g then {#p#} else {#}) + links_of ?u g" "links_of ?t g = (if f = g then {#q#} else {#}) + links_of ?u g" for g
    using links_of_link [OF L(1), of g] links_of_link [OF L(2), of g] by simp_all
  obtain xs where xs: "set xs \<subseteq> t_dirs t" "anc (t_par t) p = set xs" "pchain (\<lambda>i. fst (a i)) p xs" "0 < p" using tree_state_chain [OF r(2) f(3)] .
  obtain ys where ys: "set ys \<subseteq> t_dirs t" "anc (t_par t) q = set ys" "pchain (\<lambda>i. fst (a i)) q ys" "0 < q" using tree_state_chain [OF r(2) fp(2)] .
  have "p \<in># links_of t f" using l(1) [of f] by simp
  from parents_replace [where f = f and a = a, OF at_file [OF r(2) f(2,1)] this xs(4) ys(4)] obtain b where b: "replace_spec f p q a = (Inr (), a(f := b))" "parents_are b (links_of ?t f)"
    using l [of f] by auto
  have c: "pchain (\<lambda>i. fst ((a(f := b)) i)) p xs" by (rule pchain_cong [OF xs(3)]) (use xs(1) f(1) in auto)
  have d: "pchain (\<lambda>i. fst ((a(f := b)) i)) q ys" by (rule pchain_cong [OF ys(3)]) (use ys(1) f(1) in auto)
  let ?v = "t_stats t f"
  have m: "below_sum t l d = (if d \<in> set xs then at_place l ?v else 0) + below_sum ?u l d" "below_sum ?t l d = (if d \<in> set ys then at_place l ?v else 0) + below_sum ?u l d" for l d
    using below_sum_link [OF L(1)] below_sum_link [OF L(2)] xs(2) ys(2) k by simp_all
  have "link_fine ?t (f, q)" using links_fine [OF rel_ok [OF r(2)] fp(1)] fp(2) k by (simp add: link_fine_def)
  then have n: "\<forall>x \<in># t_links ?t. link_fine ?t x" using links_fine [OF rel_ok [OF r(2)]] k by (auto simp: link_fine_def dest: in_diffD)
  have "tree_rel ?t (a(f := b)) (bump (neg_stats ?v) (set xs) (bump ?v (set ys) D))"
    by (rule tree_rel_file [OF r(2) f(2,1) _ _ n _ b(2)]) (use l m at_D [OF r(2)] k in simp_all)
  moreover obtain s' where "rename_lookup f p q k v s = (Inr (), s')" "srel 1 (a(f := b)) (bump (neg_stats ?v) (set xs) (bump ?v (set ys) D)) s'"
    using rename_file_run [OF r(1) f(2) xs(4) ys(4) b(1) c d False k, of v] unfolding fp(3) by blast
  ultimately show ?thesis unfolding tree_state_def by (metis handle_tree.simps(9))
qed

lemma climb_all_run:
  assumes "srel n a D s" and "\<forall>p \<in> set ps. \<exists>xs. pchain (\<lambda>i. fst (a i)) p xs \<and> anc par p = set xs"
  shows "\<exists>s' D'. climb_all v ps s = (Inr (), s') \<and> srel n a D' s' \<and> (\<forall>l d. at_place l (D' d) = at_place l (D d) + (\<Sum>p \<in># mset ps. if d \<in> anc par p then at_place l v else 0))"
  using assms
proof (induction ps arbitrary: s D)
  case (Cons p ps)
  then obtain xs where xs: "pchain (\<lambda>i. fst (a i)) p xs" "anc par p = set xs" by auto
  obtain s1 where s1: "climb v p s = Some (Inr (), s1)" "srel n a (bump v (set xs) D) s1" using climb_run [OF Cons.prems(1) xs(1)] by blast
  from Cons.IH [OF s1(2)] Cons.prems(2) obtain s' D' where "climb_all v ps s1 = (Inr (), s')" "srel n a D' s'"
      "\<forall>l d. at_place l (D' d) = at_place l (bump v (set xs) D d) + (\<Sum>p \<in># mset ps. if d \<in> anc par p then at_place l v else 0)" by auto
  then show ?case using s1(1) xs(2) by (intro exI [of _ s'] exI [of _ D']) (simp add: or_hang_def)
qed auto

lemma relocate_served:
  assumes "tree_state t s" and al: "tree_allowed (Relocate f v) t"
  shows "\<exists>s'. handle_tree (Relocate f v) s = (Inr (), s') \<and> tree_state (tree_step (Relocate f v) t) s'"
proof -
  obtain a D where r: "srel 1 a D s" "tree_rel t a D" using assms(1) by (auto simp: tree_state_def)
  have f: "0 < f" "f \<notin> t_dirs t" "t_kind t f = S_IFREG" using al by auto
  have q: "srel 0 a D (s\<lparr>pathlookup_data_lock := 0\<rparr>)" using srel_lock [OF r(1)] .
  from fetch_served [OF srel_prel [OF q] f(1)] obtain ps where ps: "fetch_all_parents f (s\<lparr>pathlookup_data_lock := 0\<rparr>) = (Inr ps, s\<lparr>pathlookup_data_lock := 0\<rparr>)" "fetch_spec f a ps" by blast
  have m: "mset ps = links_of t f" using parents_fetch [where f = f and a = a, OF at_file [OF r(2) f(1,2)] ps(2)] .
  have d: "p \<in> t_dirs t" if "p \<in> set ps" for p
  proof -
    have "p \<in># links_of t f" using m that by (metis set_mset_mset)
    then show ?thesis using rel_ok [OF r(2)] by (auto simp: links_of_def tree_ok_def link_fine_def)
  qed
  have "\<forall>p \<in> set ps. \<exists>xs. pchain (\<lambda>i. fst (a i)) p xs \<and> anc (t_par t) p = set xs" using tree_rel_chain [OF r(2) d] by metis
  from climb_all_run [OF q this, of v] obtain s1 D' where c: "climb_all v ps (s\<lparr>pathlookup_data_lock := 0\<rparr>) = (Inr (), s1)" "srel 0 a D' s1"
      "\<forall>l d. at_place l (D' d) = at_place l (D d) + (\<Sum>p \<in># links_of t f. if d \<in> anc (t_par t) p then at_place l v else 0)" unfolding m by blast
  have "bindE (fetch_all_parents f) (climb_all v) (s\<lparr>pathlookup_data_lock := 0\<rparr>) = (Inr (), s1)" using ps(1) c(1) by simp
  from srel_locked [where m = "bindE (fetch_all_parents f) (climb_all v)", OF r(1) this c(2)] obtain s' where s': "update_dirstat_file f v s = (Inr (), s')" "srel 1 a D' s'"
    using f(1) by (auto simp: update_dirstat_file_def)
  let ?t = "tree_step (Relocate f v) t"
  have l: "links_of ?t g = links_of t g" for g by (simp add: links_of_def)
  have b: "below_sum ?t l d = below_sum t l d + (\<Sum>p \<in># links_of t f. if d \<in> anc (t_par t) p then at_place l v else 0)" for l d
    using below_sum_relocate [of d "t_par t" l "t_stats t" f v "t_links t"] by (simp add: below_sum_def links_of_def cong: if_cong)
  have k: "\<forall>x \<in># t_links ?t. link_fine ?t x" using links_fine [OF rel_ok [OF r(2)]] f(3) by (auto simp: link_fine_def)
  have p: "parents_are (a f) (links_of ?t f)" using at_file [OF r(2) f(1,2)] l by simp
  have "tree_rel ?t (a(f := a f)) D'"
    by (rule tree_rel_file [OF r(2) f(1,2) _ _ k _ p]) (use l b c(3) at_D [OF r(2)] in simp_all)
  then show ?thesis using s' by (auto simp: tree_state_def)
qed

text \<open>A new directory, with or without a parent.\<close>

lemma tree_rel_new:
  assumes r: "tree_rel t a D" and d: "0 < d" "d \<notin> t_dirs t" "links_of t d = {#}" and p: "p \<noteq> 0 \<longrightarrow> p \<in> t_dirs t" and t': "t' = t\<lparr>t_dirs := insert d (t_dirs t), t_par := (t_par t)(d := p)\<rparr>"
  shows "tree_rel t' (a(d := (p, False, {#}))) (D(d := zero_stats))"
proof -
  let ?par = "(t_par t)(d := p)"
  have c: "\<exists>xs. pchain ?par x xs \<and> set xs \<subseteq> insert d (t_dirs t) \<and> anc ?par x = anc (t_par t) x \<and> d \<notin> anc ?par x" if x: "x \<in> t_dirs t" for x
  proof -
    obtain xs where xs: "pchain (t_par t) x xs" "set xs \<subseteq> t_dirs t" "anc (t_par t) x = set xs" using tree_chain [OF rel_ok [OF r] x] .
    then have "d \<notin> set xs" using d(2) by blast
    then show ?thesis using anc_upd [OF xs(1), of d p] xs by blast
  qed
  have e: "\<exists>xs. pchain ?par d xs \<and> set xs \<subseteq> insert d (t_dirs t)"
  proof (cases "p = 0")
    case False
    then obtain xs where "pchain ?par p xs" "set xs \<subseteq> insert d (t_dirs t)" using c p by blast
    then show ?thesis using d(1) by (intro exI [of _ "d # xs"]) auto
  qed (use d(1) in \<open>auto intro!: exI [of _ "[d]"]\<close>)
  have L: "\<forall>x \<in># t_links t. link_fine t x \<and> fst x \<noteq> d \<and> snd x \<in> t_dirs t" using rel_ok [OF r] d(3) by (auto simp: tree_ok_def links_of_iff link_fine_def)
  have o: "tree_ok t'" unfolding tree_ok_def t'
  proof (intro conjI ballI)
    show "0 \<notin> t_dirs (t\<lparr>t_dirs := insert d (t_dirs t), t_par := ?par\<rparr>)" using rel_ok [OF r] d(1) by (simp add: tree_ok_def)
    show "\<exists>xs. pchain (t_par (t\<lparr>t_dirs := insert d (t_dirs t), t_par := ?par\<rparr>)) x xs \<and> set xs \<subseteq> t_dirs (t\<lparr>t_dirs := insert d (t_dirs t), t_par := ?par\<rparr>)"
      if "x \<in> t_dirs (t\<lparr>t_dirs := insert d (t_dirs t), t_par := ?par\<rparr>)" for x using that e c [of x] by auto
  qed (use L in \<open>auto simp: link_fine_def\<close>)
  have b: "below_sum t' l x = below_sum t l x" for l x by (rule below_sum_mono) (use c L t' in auto)
  have z: "below_sum t' l d = 0" for l unfolding below_sum_def by (rule sum_mset.neutral) (use c L t' in auto)
  have g: "links_of t' f = links_of t f" for f using t' by (simp add: links_of_def)
  show ?thesis unfolding tree_rel_def using o at_a [OF r] at_file [OF r] at_D [OF r] b z g t' by auto
qed

lemma mkroot_served:
  assumes "tree_state t s" and al: "tree_allowed (Mkroot d) t"
  shows "\<exists>s'. handle_tree (Mkroot d) s = (Inr (), s') \<and> tree_state (tree_step (Mkroot d) t) s'"
proof -
  obtain a D where r: "srel 1 a D s" "tree_rel t a D" using assms(1) by (auto simp: tree_state_def)
  have d: "0 < d" "d \<notin> t_dirs t" "links_of t d = {#}" using al by auto
  have ad: "a d = (0, False, {#})" using at_file [OF r(2) d(1,2)] d(3) by (simp add: parents_are_none)
  obtain s' where s': "root_lookup d s = (Inr (), s')" "srel 1 a (D(d := zero_stats)) s'" using root_run [OF r(1) d(1) ad] by blast
  have "tree_rel (tree_step (Mkroot d) t) (a(d := (0, False, {#}))) (D(d := zero_stats))" by (rule tree_rel_new [OF r(2) d]) simp_all
  moreover have "a(d := (0, False, {#})) = a" using ad by (simp add: fun_upd_idem)
  ultimately show ?thesis using s' by (auto simp: tree_state_def)
qed

lemma mkdir_served:
  assumes "tree_state t s" and al: "tree_allowed (Mkdir d p) t"
  shows "\<exists>s'. handle_tree (Mkdir d p) s = (Inr (), s') \<and> tree_state (tree_step (Mkdir d p) t) s'"
proof -
  obtain a D where r: "srel 1 a D s" "tree_rel t a D" using assms(1) by (auto simp: tree_state_def)
  have d: "0 < d" "d \<notin> t_dirs t" "links_of t d = {#}" "p \<in> t_dirs t" "0 < p" using al tree_0 [OF rel_ok [OF r(2)]] by auto
  have ad: "add_spec d p a = a(d := (p, False, {#}))" using at_file [OF r(2) d(1,2)] d(3) by (simp add: add_spec_def parents_are_none)
  obtain s' where s': "mkdir_lookup d p s = (Inr (), s')" "srel 1 (a(d := (p, False, {#}))) (D(d := zero_stats)) s'" using mkdir_run [OF r(1) d(1,5)] ad by auto
  have "tree_rel (tree_step (Mkdir d p) t) (a(d := (p, False, {#}))) (D(d := zero_stats))" by (rule tree_rel_new [OF r(2) d(1-3)]) (use d(4) in simp_all)
  then show ?thesis using s' by (auto simp: tree_state_def)
qed

lemma tree_rel_rmdir:
  assumes r: "tree_rel t a D" and al: "may_rmdir d p t"
  shows "delete_parent_spec d p a = (Inr (), a(d := (0, False, {#})))" "tree_rel (without_dir d t) (a(d := (0, False, {#}))) (D(d := zero_stats))"
proof -
  have d: "d \<in> t_dirs t" "t_par t d = p" "0 < p" "\<forall>x \<in> t_dirs t. t_par t x \<noteq> d" "\<forall>x \<in># t_links t. snd x \<noteq> d" "0 < d" using al tree_0 [OF rel_ok [OF r]] by (auto simp: may_rmdir_def)
  show "delete_parent_spec d p a = (Inr (), a(d := (0, False, {#})))" using at_a [OF r d(1)] d(2) by (simp add: delete_parent_spec_def)
  let ?t = "without_dir d t" and ?par = "(t_par t)(d := 0)"
  have e: "t_dirs ?t = t_dirs t - {d}" "t_par ?t = ?par" "t_kind ?t = t_kind t" "t_stats ?t = t_stats t" "t_links ?t = t_links t" by (simp_all add: without_dir_def)
  have c: "\<exists>xs. pchain ?par x xs \<and> set xs \<subseteq> t_dirs t - {d} \<and> anc ?par x = anc (t_par t) x" if x: "x \<in> t_dirs t" "x \<noteq> d" for x
  proof -
    obtain xs where xs: "pchain (t_par t) x xs" "set xs \<subseteq> t_dirs t" "anc (t_par t) x = set xs" using tree_chain [OF rel_ok [OF r] x(1)] .
    have n: "d \<notin> set xs" using chain_parent [OF xs(1), of d] xs(2) x(2) d(4) by blast
    then show ?thesis using anc_upd [OF xs(1) n, of 0] xs(2) by blast
  qed
  have L: "\<forall>x \<in># t_links t. link_fine t x \<and> fst x \<notin> t_dirs t \<and> snd x \<in> t_dirs t \<and> snd x \<noteq> d" using rel_ok [OF r] d(5) by (auto simp: tree_ok_def link_fine_def)
  have o: "tree_ok ?t" unfolding tree_ok_def
  proof (intro conjI ballI)
    show "0 \<notin> t_dirs ?t" using rel_ok [OF r] e by (simp add: tree_ok_def)
    show "\<exists>xs. pchain (t_par ?t) x xs \<and> set xs \<subseteq> t_dirs ?t" if "x \<in> t_dirs ?t" for x using that c [of x] e by auto
  qed (use L e in \<open>auto simp: link_fine_def\<close>)
  have b: "below_sum ?t l x = below_sum t l x" for l x by (rule below_sum_mono) (use c L e in auto)
  have n: "links_of t d = {#}" using L d(1) by (auto simp: links_of_iff)
  have g: "links_of ?t f = links_of t f" for f by (simp add: links_of_def e)
  show "tree_rel ?t (a(d := (0, False, {#}))) (D(d := zero_stats))" unfolding tree_rel_def
    using o at_a [OF r] at_file [OF r] at_D [OF r] b g n e parents_are_none by auto
qed

lemma rmdir_served:
  assumes "tree_state t s" and al: "tree_allowed (Rmdir d p) t"
  shows "\<exists>s'. handle_tree (Rmdir d p) s = (Inr (), s') \<and> tree_state (tree_step (Rmdir d p) t) s'"
proof -
  obtain a D where r: "srel 1 a D s" "tree_rel t a D" using assms(1) by (auto simp: tree_state_def)
  have d: "may_rmdir d p t" "0 < p" "0 < d" using al tree_0 [OF rel_ok [OF r(2)]] by (auto simp: may_rmdir_def)
  then show ?thesis using rmdir_run [OF r(1) d(3,2) tree_rel_rmdir(1) [OF r(2) d(1)]] tree_rel_rmdir(2) [OF r(2) d(1)] by (auto simp: tree_state_def)
qed

lemma drop_target_served:
  assumes "tree_state t s" and al: "tree_allowed (Drop_Target i p k v) t"
  shows "\<exists>s'. handle_tree (Drop_Target i p k v) s = (Inr (), s') \<and> tree_state (tree_step (Drop_Target i p k v) t) s'"
proof (cases "k = S_IFDIR")
  case False
  then show ?thesis using unlink_served [OF assms(1), of i p k v] al drop_file_run by fastforce
next
  case True
  obtain a D where r: "srel 1 a D s" "tree_rel t a D" using assms(1) by (auto simp: tree_state_def)
  have al': "may_rmdir i p t" using al True by simp
  then have d: "i \<in> t_dirs t" "t_par t i = p" "0 < p" "0 < i" using tree_0 [OF rel_ok [OF r(2)]] by (auto simp: may_rmdir_def)
  obtain ds where ds: "set ds \<subseteq> t_dirs t" "pchain (\<lambda>i. fst (a i)) i ds" using tree_rel_chain [OF r(2) d(1)] by metis
  then obtain xs where xs: "ds = i # xs" "pchain (\<lambda>i. fst (a i)) p xs" using d(2,4) at_a [OF r(2) d(1)] by (cases ds) auto
  have "pchain (\<lambda>j. fst ((a(i := (0, False, {#}))) j)) p xs" by (rule pchain_cong [OF xs(2)]) (use pchain_distinct [OF ds(2)] xs(1) in auto)
  from drop_dir_run [OF r(1) d(4,3) tree_rel_rmdir(1) [OF r(2) al'] this] obtain s' where "drop_target_lookup i p S_IFDIR v s = (Inr (), s')" "srel 1 (a(i := (0, False, {#}))) (D(i := zero_stats)) s'" by blast
  then show ?thesis using True tree_rel_rmdir(2) [OF r(2) al'] by (auto simp: tree_state_def)
qed

lemma rename_dir_served:
  assumes "tree_state t s" and al: "tree_allowed (Rename d p q S_IFDIR v) t"
  shows "\<exists>s'. handle_tree (Rename d p q S_IFDIR v) s = (Inr (), s') \<and> tree_state (tree_step (Rename d p q S_IFDIR v) t) s'"
proof (cases "p = q")
  case True
  then show ?thesis using assms by (auto simp: rename_lookup_def fun_upd_idem)
next
  case False
  obtain a D where r: "srel 1 a D s" "tree_rel t a D" using assms(1) by (auto simp: tree_state_def)
  note ok = rel_ok [OF r(2)]
  have d: "d \<in> t_dirs t" "t_par t d = p" "0 < p" "q \<in> t_dirs t" "d \<notin> anc (t_par t) q" "0 < d" "0 < q" using al tree_0 [OF ok] by auto
  obtain ds where ds: "pchain (t_par t) d ds" "set ds \<subseteq> t_dirs t" using tree_chain [OF ok d(1)] by metis
  obtain xs where xs: "ds = d # xs" "pchain (t_par t) p xs" using ds(1) d(2,6) by (cases ds) auto
  have dx: "d \<notin> set xs" "set xs \<subseteq> t_dirs t" using pchain_distinct [OF ds(1)] ds(2) xs(1) by auto
  obtain ys where ys: "pchain (t_par t) q ys" "set ys \<subseteq> t_dirs t" "anc (t_par t) q = set ys" using tree_chain [OF ok d(4)] .
  have "replace_spec d p q a = (Inr (), a(d := (q, False, {#})))" using at_a [OF r(2) d(1)] d(2) by (simp add: replace_spec_def)
  moreover have "pchain (\<lambda>i. fst ((a(d := (q, False, {#}))) i)) p xs" by (rule pchain_cong [OF xs(2)]) (use dx at_a [OF r(2)] in auto)
  moreover have "pchain (\<lambda>i. fst ((a(d := (q, False, {#}))) i)) q ys" by (rule pchain_cong [OF ys(1)]) (use ys d(5) at_a [OF r(2)] in auto)
  ultimately obtain s' where s': "rename_lookup d p q S_IFDIR v s = (Inr (), s')" "srel 1 (a(d := (q, False, {#}))) (bump (neg_stats (D d)) (set xs) (bump (D d) (set ys) D)) s'"
    using rename_dir_run [OF r(1) d(6,3,7) _ _ _ False] by blast
  let ?t = "tree_step (Rename d p q S_IFDIR v) t" and ?par = "(t_par t)(d := q)"
  have c: "\<exists>xs. pchain ?par x xs \<and> set xs \<subseteq> t_dirs t" if x: "x \<in> t_dirs t" for x
  proof -
    obtain zs where zs: "pchain (t_par t) x zs" "set zs \<subseteq> t_dirs t" using tree_chain [OF ok x] by metis
    have "\<exists>us. zs = us @ d # xs \<and> pchain ?par x (us @ d # ys)" if "d \<in> set zs" using anc_moved [OF zs(1) that ys(1), of xs] ys(3) d(2,5) xs(2) by metis
    then have "\<exists>us. pchain ?par x (us @ d # ys) \<and> set (us @ d # ys) \<subseteq> t_dirs t" if "d \<in> set zs" using that zs(2) ys(2) by auto
    then show ?thesis using anc_upd [OF zs(1), of d q] zs(2) by blast
  qed
  have o: "tree_ok ?t" using ok c by (simp add: tree_ok_def link_fine_def)
  have b: "below_sum ?t l x = below_sum t l x + (if x \<in> set ys then at_place l (D d) else 0) - (if x \<in> set xs then at_place l (D d) else 0)" for l x
    using below_sum_moved [OF ok d(1,4,5,2)] d(3) ys(3) anc_chain [OF xs(2)] at_D [OF r(2) d(1)] by simp
  have g: "links_of ?t f = links_of t f" for f by (simp add: links_of_def)
  have "tree_rel ?t (a(d := (q, False, {#}))) (bump (neg_stats (D d)) (set xs) (bump (D d) (set ys) D))" unfolding tree_rel_def
    using o at_a [OF r(2)] at_file [OF r(2)] at_D [OF r(2)] b g d(1) by auto
  then show ?thesis using s' by (auto simp: tree_state_def)
qed

lemmas tree_requests_served = mkroot_served mknod_served mkdir_served symlink_served link_served unlink_served rmdir_served drop_target_served rename_file_served rename_dir_served relocate_served

lemma tree_served: "tree_state t s \<Longrightarrow> tree_allowed r t \<Longrightarrow> \<not> makes_special r \<Longrightarrow> \<exists>s'. handle_tree r s = (Inr (), s') \<and> tree_state (tree_step r t) s'"
  by (cases r) (metis tree_requests_served)+

subsection \<open>The property\<close>

fun all_allowed :: "tree_req list \<Rightarrow> file_tree \<Rightarrow> bool" where
  "all_allowed [] t \<longleftrightarrow> True"
| "all_allowed (r # rs) t \<longleftrightarrow> tree_allowed r t \<and> all_allowed rs (tree_step r t)"

lemma all_served:
  assumes "tree_state t s" and "all_allowed rs t" and "\<forall>r \<in> set rs. \<not> makes_special r"
  shows "\<exists>us s'. run_all handle_tree rs s = (Inr us, s') \<and> tree_state (fold tree_step rs t) s'"
  using assms
proof (induction rs arbitrary: t s)
  case (Cons r rs)
  obtain s1 where "handle_tree r s = (Inr (), s1)" "tree_state (tree_step r t) s1" using tree_served [of t s r] Cons.prems by auto
  moreover from Cons.IH [OF this(2)] Cons.prems(2,3) obtain us s' where "run_all handle_tree rs s1 = (Inr us, s')" "tree_state (fold tree_step rs (tree_step r t)) s'" by auto
  ultimately show ?case by auto
qed simp

text \<open>Before the first volume there is nothing.\<close>

definition empty_tree :: file_tree where
  "empty_tree = \<lparr>t_dirs = {}, t_par = (\<lambda>_. 0), t_kind = (\<lambda>_. S_IFREG), t_stats = (\<lambda>_. zero_stats), t_links = {#}\<rparr>"

definition new_dirstat_files :: lookup_state where
  "new_dirstat_files = new_lookup_files\<lparr>dirstat_lookup_db := Some []\<rparr>"

lemma init_both: "bindE init_pathlookup (\<lambda>_. init_dirstat_lookup) no_lookup_files = (Inr (), new_dirstat_files)"
proof -
  have "init_dirstat_lookup new_lookup_files = (Inr (), new_dirstat_files)" by (simp add: init_dirstat_lookup_def new_dirstat_files_def new_lookup_files_def no_lookup_files_def)
  then show ?thesis by (simp add: init_new)
qed

lemma new_tree: "tree_state empty_tree new_dirstat_files"
proof -
  have "prel_at 1 (\<lambda>_. (0, False, {#})) new_dirstat_files" using new_prel by (simp add: prel_at_def pst_def synced_def pview_def prim_def new_dirstat_files_def)
  then have "srel 1 (\<lambda>_. (0, False, {#})) (\<lambda>_. zero_stats) new_dirstat_files" by (simp add: srel_def dstat_def new_dirstat_files_def rec_at_def)
  moreover have "tree_rel empty_tree (\<lambda>_. (0, False, {#})) (\<lambda>_. zero_stats)" by (simp add: tree_rel_def tree_ok_def empty_tree_def links_of_def parents_are_none)
  ultimately show ?thesis unfolding tree_state_def by blast
qed

lemma read_dirstat_rel:
  assumes "srel 1 a D s" and "0 < d"
  shows "fst (read_dirstat_lookup d s) = Inr (D d)"
proof -
  have l: "srel 0 a D (s\<lparr>pathlookup_data_lock := 0\<rparr>)" using srel_lock [OF assms(1)] .
  obtain s' where "pl_locked (read_stats d) s = (Inr (D d), s')" using srel_locked [where m = "read_stats d", OF assms(1) read_stats_run [OF l assms(2)] l] by blast
  then show ?thesis using assms(2) by (simp add: read_dirstat_lookup_def)
qed

lemma read_dirstat_run: "tree_state t s \<Longrightarrow> d \<in> t_dirs t \<Longrightarrow> \<exists>e. fst (read_dirstat_lookup d s) = Inr e \<and> (\<forall>l. at_place l e = below_sum t l d)"
  using read_dirstat_rel tree_0 rel_ok at_D unfolding tree_state_def by metis

text \<open>
  C37: The statistics of directories are exact while no FIFO or socket is made: on new files and under any sequence of making roots, of making, removing and renaming directories, regular files, hard links to
  them and symbolic links, with renames over existing entries, and of changes of the place of a file's data, every call returns, and reading the statistics of a directory then gives, for each of the three
  places, the sum over all links below it, however deep, of the statistics of the linked regular file; symbolic links count for nothing.  The parent of a directory must be one and must not be below
  it, new inode numbers must not be in use, and directories are empty when they are removed (\<open>tree_allowed\<close>); the statistics a handler reads from a file's meta file are those of the file.
\<close>

theorem directory_statistics_exact:
  assumes "all_allowed rs empty_tree" and "\<forall>r \<in> set rs. \<not> makes_special r"
  shows "\<exists>s us s'. bindE init_pathlookup (\<lambda>_. init_dirstat_lookup) no_lookup_files = (Inr (), s) \<and> run_all handle_tree rs s = (Inr us, s') \<and>
    (\<forall>d \<in> t_dirs (fold tree_step rs empty_tree). \<exists>e. fst (read_dirstat_lookup d s') = Inr e \<and> (\<forall>l. at_place l e = below_sum (fold tree_step rs empty_tree) l d))"
  using all_served [OF new_tree assms] init_both read_dirstat_run by metis

definition some_requests :: "tree_req list" where
  "some_requests = [Mkroot 1, Mkdir 2 1, Mkdir 3 2, Mknod 5 3 S_IFREG, Link 5 1 new_file_stats, Symlink 6 3, Relocate 5 (zero_stats\<lparr>num_local := - 1, num_hybrid := 1\<rparr>),
     Mkdir 4 1, Rename 3 2 4 S_IFDIR zero_stats, Rename 6 3 4 S_IFLNK zero_stats, Rmdir 2 1]"

lemma some_requests_allowed: "all_allowed some_requests empty_tree" "\<forall>r \<in> set some_requests. \<not> makes_special r"
proof -
  have "anc ((\<lambda>_. 0)(1 := 0, 2 := 1, 3 := 2, 4 := 1)) 4 = {4, 1}" using anc_chain [of "(\<lambda>_. 0)(1 := 0, 2 := 1, 3 := 2, 4 := 1)" 4 "[4, 1]"] by simp
  then show "all_allowed some_requests empty_tree" by (auto simp: some_requests_def empty_tree_def links_of_iff may_unlink_def may_rmdir_def)
qed (simp add: some_requests_def)

lemma some_requests_sum: "4 \<in> t_dirs (fold tree_step some_requests empty_tree)" "below_sum (fold tree_step some_requests empty_tree) Hybrid 4 = 1"
proof -
  let ?par = "((\<lambda>_. 0)(1 := 0, 2 := 1, 3 := 2, 4 := 1, 3 := 4, 2 := 0)) :: ino_t \<Rightarrow> ino_t"
  have "anc ?par 3 = {3, 4, 1}" "anc ?par 1 = {1}" using anc_chain [of ?par 3 "[3, 4, 1]"] anc_chain [of ?par 1 "[1]"] by auto
  then show "4 \<in> t_dirs (fold tree_step some_requests empty_tree)" "below_sum (fold tree_step some_requests empty_tree) Hybrid 4 = 1"
    by (auto simp: some_requests_def empty_tree_def without_dir_def without_link_def below_sum_def add_stats_def zero_stats_def new_file_stats_def fun_upd_def cong: if_cong)
qed

theorem directory_statistics_exact_witness:
  "\<exists>s us s'. bindE init_pathlookup (\<lambda>_. init_dirstat_lookup) no_lookup_files = (Inr (), s) \<and> run_all handle_tree some_requests s = (Inr us, s') \<and> (\<exists>e. fst (read_dirstat_lookup 4 s') = Inr e \<and> num_hybrid e = 1)"
proof -
  obtain s us s' where "bindE init_pathlookup (\<lambda>_. init_dirstat_lookup) no_lookup_files = (Inr (), s)" "run_all handle_tree some_requests s = (Inr us, s')"
      "\<exists>e. fst (read_dirstat_lookup 4 s') = Inr e \<and> (\<forall>l. at_place l e = below_sum (fold tree_step some_requests empty_tree) l 4)"
    using directory_statistics_exact [OF some_requests_allowed] some_requests_sum(1) by fastforce
  then show ?thesis using some_requests_sum(2) by (metis at_place.simps(3))
qed

subsection \<open>FIFOs and sockets\<close>

text \<open>
  A FIFO or socket that is made and removed again stays in the statistics: \<^verbatim>\<open>mknod_update_meta\<close> counts it as a local file, \<^verbatim>\<open>unlink_update_meta\<close> only takes regular files out, and so every directory from
  the parent to the root has one local file more than there are below it.
\<close>

theorem special_file_stays_counted:
  assumes "tree_state t s" and al: "tree_allowed (Mknod f p k) t" and k: "k \<noteq> S_IFREG"
  shows "\<exists>s1 s2. handle_tree (Mknod f p k) s = (Inr (), s1) \<and> handle_tree (Unlink f p k v) s1 = (Inr (), s2) \<and>
    (\<forall>d \<in> t_dirs t. \<exists>e. fst (read_dirstat_lookup d s2) = Inr e \<and> (\<forall>l. at_place l e = below_sum t l d + (if l = Local \<and> d \<in> anc (t_par t) p then 1 else 0)))"
proof -
  obtain a D where r: "srel 1 a D s" "tree_rel t a D" using assms(1) by (auto simp: tree_state_def)
  have f: "0 < f" "f \<notin> t_dirs t" "p \<in> t_dirs t" "links_of t f = {#}" using al by auto
  obtain xs where xs: "set xs \<subseteq> t_dirs t" "anc (t_par t) p = set xs" "pchain (\<lambda>i. fst (a i)) p xs" "0 < p" using tree_state_chain [OF r(2) f(3)] .
  let ?a = "add_spec f p a" and ?D = "bump new_file_stats (set xs) D"
  obtain s1 where s1: "mknod_lookup f p s = (Inr (), s1)" "srel 1 ?a ?D s1" using mknod_run [OF r(1) f(1) xs(4,3)] xs(1) f(2) by blast
  have "parents_are (?a f) {#p#}" using parents_add [where f = f and a = a, OF at_file [OF r(2) f(1,2)] xs(4)] f(4) by simp
  then obtain b where b: "delete_parent_spec f p ?a = (Inr (), ?a(f := b))" using parents_delete [where f = f and a = ?a] xs(4) by fastforce
  have "pchain (\<lambda>i. fst ((?a(f := b)) i)) p xs" by (rule pchain_cong [OF xs(3)]) (use xs(1) f(2) in \<open>auto simp: add_spec_def split: prod.split\<close>)
  from unlink_run [OF s1(2) f(1) xs(4) b this, of k v] obtain s2 where s2: "unlink_lookup f p k v s1 = (Inr (), s2)" "srel 1 (?a(f := b)) (bump (neg_stats (counted k v)) (set xs) ?D) s2" by blast
  then have s2: "unlink_lookup f p k v s1 = (Inr (), s2)" "srel 1 (?a(f := b)) ?D s2" using k by (simp_all add: counted_def)
  have "at_place l (?D d) = below_sum t l d + (if l = Local \<and> d \<in> anc (t_par t) p then 1 else 0)" if "d \<in> t_dirs t" for l d
    using at_D [OF r(2) that] xs(2) by (cases l) (simp_all add: new_file_stats_def)
  then have "\<forall>d \<in> t_dirs t. \<exists>e. fst (read_dirstat_lookup d s2) = Inr e \<and> (\<forall>l. at_place l e = below_sum t l d + (if l = Local \<and> d \<in> anc (t_par t) p then 1 else 0))"
    using read_dirstat_rel [OF s2(2) tree_0 [OF rel_ok [OF r(2)]]] by blast
  then show ?thesis using s1(1) s2(1) by auto
qed

end
