(* ===== verification/Spec2Isabelle.thy ===== *)
theory Spec2Isabelle
  imports Super_Block_Props SB_Lock Hash_List_Props Apk_Mgmt Lookup_Count B64 Fuse_Notify Dir_Remove_Props File_Pages_Props Xattr_Props Pkg_Cache_Props Readdir_Props Dir_Stats
begin

text \<open>
  Verification of HCFS, a FUSE file system that keeps its data in the cloud and a cache on the device.

  \<^bold>\<open>The program.\<close>  FUSE handlers (\<^verbatim>\<open>fuseop.c\<close>) work on meta files through a meta cache; every inode has an
  entry in the super block file (\<^verbatim>\<open>super_block.c\<close>), which threads its entries into queues: the dirty queue of inodes
  to upload, the delete queue of inodes to delete from the cloud, the pinning queue of files to fetch,
  and the list of reclaimed numbers.  Upload, deletion and pinning threads take their work from these queues.  A sync point
  (\<^verbatim>\<open>syncpoint_control.c\<close>) remembers the ends of two of the queues.  Sizes of cache, meta data and
  transfers are counted in shared memory (\<^verbatim>\<open>utils.c\<close>).  The lookup counts (\<^verbatim>\<open>lookup_count.c\<close>) tell when an
  unlinked inode may be deleted; directory entries live in a B-tree in the directory's meta file
  (\<^verbatim>\<open>dir_entry_btree.c\<close>); the extended attributes of an inode are kept in its meta file too (\<^verbatim>\<open>xattr_ops.c\<close>); a hash list (\<^verbatim>\<open>hash_list_struct.c\<close>) holds the minimal apks (\<^verbatim>\<open>apk_mgmt.c\<close>).
  The user ids of packages are cached (\<^verbatim>\<open>pkg_cache.c\<close>).  The table of open files and directories (\<^verbatim>\<open>filetables.c\<close>) also holds the snapshots from which a directory is listed while its
  B-tree changes; \<^verbatim>\<open>dir_add_entry\<close> and \<^verbatim>\<open>dir_remove_entry\<close> make them and \<^verbatim>\<open>hfuse_ll_readdir\<close> reads them.
  A database keeps the parents of every inode (\<^verbatim>\<open>parent_lookup.c\<close>); along it the statistics of directories (\<^verbatim>\<open>dir_statistics.c\<close>) are updated up to the root.
  All paths are below \<^verbatim>\<open>src/HCFS\<close>.

  \<^bold>\<open>How code is modelled.\<close>  A C struct is a record, a status a datatype, a function a HOL function with the source's name.
  A stateful function is a state transformer with failures (\<open>('s, 'a) sm\<close> of \<open>HCFS_Prelude\<close>): its result is \<open>Inr\<close> of a
  value or \<open>Inl\<close> of a failure, an error number, a call that never returns (\<open>Hang\<close>) or a null pointer
  dereference (\<open>Crash\<close>), together with the state, which keeps what was changed before the failure.  The state carries a script of
  outcomes for the system calls to come, so that every error path is a run of the model; the empty script
  means that all calls succeed.  Locks are fields of the state and the handlers are the bodies
  between taking and giving them back; \<open>SB_Lock\<close> justifies this for the super block by modelling its lock
  at the level of single semaphore operations.

  \<^bold>\<open>Theories.\<close>
  \<^item> \<open>HCFS_Prelude\<close>: errors, state transformers, doubly linked chains, the locale \<open>link_fields\<close> (a record with a
    pair of links), interpreted twice in \<open>Super_Block_Inv\<close> for the queue and the pinning links of an entry.
  \<^item> \<open>System_Meta\<close>: the counters of \<^verbatim>\<open>utils.c\<close> (\<^verbatim>\<open>change_system_meta\<close>, \<^verbatim>\<open>change_pin_size\<close>, \<^verbatim>\<open>change_xfer_meta\<close>,
    \<^verbatim>\<open>update_sb_size\<close> and others): they stay well-formed under every sequence of these updates.
  \<^item> \<open>Super_Block\<close>, \<open>Sync_Point\<close>, \<open>Super_Block_Queue\<close>, \<open>Super_Block_Ops\<close>: the definitions for \<^verbatim>\<open>super_block.c\<close> and
    \<^verbatim>\<open>syncpoint_control.c\<close>, from reading an entry up to the whole handlers.
  \<^item> \<open>Super_Block_Inv\<close>, \<open>Super_Block_Prims\<close>, \<open>Super_Block_Enq\<close>, \<open>Super_Block_Pin\<close>: the invariant of the queues and the queue
    primitives against lists.
  \<^item> \<open>Super_Block_Spec\<close>, \<open>Super_Block_Handlers\<close>, \<open>Super_Block_Handlers2\<close>, \<open>Super_Block_Delete\<close>, \<open>Super_Block_Alloc\<close>,
    \<open>Super_Block_Reclaim\<close>: the abstract super block (four lists of inode numbers) and the refinement lemma of each handler.
  \<^item> \<open>Super_Block_Reach\<close>: the handlers as a step relation and its invariant; \<open>Super_Block_Repair\<close>: the repair of a
    damaged dirty queue; \<open>Super_Block_Sample\<close>, \<open>Super_Block_Props\<close>: a concrete super block, and the properties.
  \<^item> \<open>SB_Lock\<close>: the lock of the super block for any number of threads: mutual exclusion, no deadlock, writers first.
  \<^item> \<open>Buckets\<close>, \<open>Hash_List\<close>, \<open>Hash_List_Props\<close>: tables of buckets (locale \<open>buckets\<close>), the hash list and its iterator; the locale
    \<open>keyed_table\<close> is the contract with the clients of the table and is interpreted for the calls of \<^verbatim>\<open>hash_list_struct.c\<close>.
  \<^item> \<open>Apk_Mgmt\<close>: the minimal apks as such a client.
  \<^item> \<open>Lookup_Count\<close>: lookup counts and the handlers that use them, as a second provider of \<open>buckets\<close>.
  \<^item> \<open>B64\<close>: base64 encoding and decoding (\<^verbatim>\<open>b64encode.c\<close>) against the standard encoding.
  \<^item> \<open>Fuse_Notify\<close>: the buffer of notifications to the kernel (\<^verbatim>\<open>fuse_notify.c\<close>), a ring with an overflow list, as a provider of the locale
    \<open>fifo\<close>, and the functions that fill and empty it.
  \<^item> \<open>Dir_Btree\<close>, \<open>Dir_Add\<close>: the B-tree of directory entries (\<^verbatim>\<open>dir_entry_btree.c\<close>) and \<^verbatim>\<open>dir_add_entry\<close> of \<^verbatim>\<open>metaops.c\<close>;
    \<open>Dir_Btree_Search\<close>, \<open>Dir_Btree_Tree\<close>: the binary search, trees of pages and the search; \<open>Dir_Btree_Insert\<close>, \<open>Dir_Btree_Ins\<close>: insertion, first in
    single pages, then along the recursion; \<open>Dir_Add_Props\<close>: whole directories.
  \<^item> \<open>Dir_Btree_Del\<close>, \<open>Dir_Remove\<close>: deletion from the B-tree and \<^verbatim>\<open>dir_remove_entry\<close>; \<open>Dir_Btree_Rebal\<close>, \<open>Dir_Btree_Merge\<close>: merging and sharing out
    on the pages of the file; \<open>Dir_Btree_Balance\<close>, \<open>Dir_Btree_Delete\<close>: the same on trees, up to \<^verbatim>\<open>rebalance_btree\<close>; \<open>Dir_Btree_Extract\<close>, \<open>Dir_Btree_Remove\<close>: the
    recursions of \<^verbatim>\<open>extract_largest_child\<close> and \<^verbatim>\<open>delete_dir_entry_btree\<close>; \<open>Dir_Remove_Props\<close>: whole directories.
  \<^item> \<open>File_Pages\<close>: the block entry pages of a regular file (\<^verbatim>\<open>seek_page\<close>, \<^verbatim>\<open>create_page\<close> of \<^verbatim>\<open>metaops.c\<close>), with up to four levels of pointer pages;
    \<open>File_Pages_Inv\<close>: the pages as a tree that does not overlap; \<open>File_Pages_Run\<close>, \<open>File_Pages_Walk\<close>: the runs with any calls failing; \<open>File_Pages_Props\<close>: the
    contract \<open>page_table\<close> with the code above, and its interpretation.
  \<^item> \<open>Djb_Hash\<close>, \<open>Xattr\<close>: the hash function of \<^verbatim>\<open>utils.h\<close> and the extended attributes of an inode (\<^verbatim>\<open>xattr_ops.c\<close>): hash tables of lists of sorted key pages, lists of
    value blocks, and two lists of pages and blocks to use again.  \<open>Xattr_Value\<close>, \<open>Xattr_Key\<close>, \<open>Xattr_Inv\<close>: the lists in the file and the invariant that they share nothing;
    \<open>Xattr_Run\<close>, \<open>Xattr_Insert\<close>, \<open>Xattr_Set\<close>, \<open>Xattr_Remove\<close>, \<open>Xattr_List\<close>: each operation against a map from name space and key to value.
  \<^item> \<open>Xattr_Fuse\<close>: what uses the attributes: \<^verbatim>\<open>fetch_xattr_page\<close> (\<^verbatim>\<open>file_present.c\<close>), the four request handlers of \<^verbatim>\<open>fuseop.c\<close>, \<^verbatim>\<open>inherit_xattr\<close> (\<^verbatim>\<open>metaops.c\<close>).  \<open>Xattr_Serve\<close>: the
    handlers against a specification of the replies; the locale \<open>service\<close> of the theory \<open>Service\<close> (a server that answers as specified while its state has room), interpreted on the
    handlers, gives whole sequences of requests.  \<open>Xattr_Inherit\<close>: which attributes a new inode gets.  \<open>Xattr_Props\<close>: the properties, with a run that shows what an empty value does.
  \<^item> \<open>Pkg_Cache\<close>: the cache of package user ids, buckets of entries linked by pointers in an explicit store, and \<^verbatim>\<open>lookup_pkg\<close> of \<^verbatim>\<open>fuseop.c\<close> above it.  \<open>Pkg_Cache_Run\<close>: the lists that the pointers
    form and each operation on them; \<open>Pkg_Cache_Serve\<close>: buckets in the order of use as the specification, and two interpretations of \<open>service\<close>, for the cache and for its client;
    \<open>Pkg_Cache_Props\<close>: the properties.
  \<^item> \<open>File_Table\<close>: the table of open files and directories (\<^verbatim>\<open>init_system_fh_table\<close>, \<^verbatim>\<open>open_fh\<close>, \<^verbatim>\<open>close_fh\<close>); \<open>Readdir\<close>: \<^verbatim>\<open>handle_dirmeta_snapshot\<close> and the handlers that open, list and release directories
    and files.  \<open>File_Table_Inv\<close>: the invariant of the table; \<open>Dir_Snapshot\<close>: the run that makes a snapshot; \<open>Readdir_Run\<close>: one readdir request; \<open>Readdir_Listing\<close>: a whole listing with changes of
    directories between its requests, with a snapshot before (entries added and removed) or in place without one (renames); \<open>Readdir_Props\<close>: the properties.  The layout of the meta structures in the file is a parameter, and the meta cache is taken to show the file.
  \<^item> \<open>Parent_Lookup\<close>: the parent database, with the functions of \<^verbatim>\<open>path_reconstruct.c\<close> that open it and access the first parent.  \<open>Parent_Pages\<close>: the linked pages of its second file as lists that share
    nothing, and what each operation does to them; \<open>Parent_Lookup_Props\<close>: the calls against a table of parents, a third interpretation of \<open>service\<close>, the properties, and a run in which a failing write makes a
    list circular.
  \<^item> \<open>Dir_Stats\<close>: the statistics of directories and what the handlers do with both databases; the specification is a tree of directories with links to regular files and symbolic links, and the
    statistics of a directory are the sums over the links below it.  FIFOs and sockets are counted when they are made and never uncounted, which a theorem there shows.

  \<^bold>\<open>Termination and fuel.\<close>  Loops over lists are structural.  The scan of the buckets and the loop of the iterator have a measure
  (buckets left, entries left); the loop that invalidates the apks is a partial function that is proved to return.  The repair of
  the dirty queue takes one step more than the file has entries as fuel, enough for a queue without a cycle.  The recursion down the directory B-tree takes the size of the file as depth; the pages of a path are
  different positions in the file, so a tree is never that high.  Deletion takes twice that, because a node is visited again after its child is
  rebalanced, which happens at most once per level.  The searches along the key pages and value blocks of the attributes take the size of the file as fuel; the lists visit different
  positions.  The loop of \<^verbatim>\<open>inherit_xattr\<close> that enlarges its buffer runs at most twice.  The walks along
  the package lists, the search for a free handle, the walk over the pages of a directory, the walks in the parent database and the climb to the root are partial functions, in which a walk that does not end is \<open>Hang\<close>; they are proved to return.
  The loop that copies a meta file into a snapshot has the bytes left as measure.

  \<^bold>\<open>Not modelled.\<close>  The wrap-around of two counters: the generation of an inode (64 bits) and the size of an attribute value (32 bits) are natural numbers.  Everything that talks to the cloud, to OpenSSL, lz4, libcurl or a socket; start-up
  (\<^verbatim>\<open>check_init_super_block\<close>); the time at which threads run.  The manifest lists these parts with the reason.

  \<^bold>\<open>Plan.\<close>  Next: the mount tree and the event filter,
  the path cache above the parent database, then the meta cache and the FUSE handlers on top of it.
\<close>

end
